(* ===== verification/Prelude.thy ===== *)
theory Prelude
  imports Main "HOL-Library.Word" "HOL-Library.Monad_Syntax"
begin

section \<open>Shared vocabulary of the development\<close>

text \<open>
  What the component theories share: the reading of C's failing operations as \<open>None\<close>
  of the option monad, bounds-checked array accesses, the conversions between C integer
  widths, and the lemma collections the component proofs are carried by.

  A C function that can stop the process (a failed \<open>assert\<close>, \<open>fatal\<close>, a read through a
  pointer that is \<open>NULL\<close> or already freed, an array access out of range) is modelled by a
  function into \<open>option\<close>: \<open>None\<close> is the abort, and is kept apart from every value the
  function can return. A theorem that such a function returns \<open>Some\<close> therefore also says
  that none of its assertions fires and that it makes no invalid access.
\<close>

subsection \<open>Lemma collections\<close>

named_theorems arr_simps \<open>bounds-checked array accesses\<close>
named_theorems cint_simps \<open>C integer conversions\<close>

subsection \<open>Aborting operations\<close>

type_synonym addr = nat

definition c_assert :: "bool \<Rightarrow> unit option" where
  "c_assert b = (if b then Some () else None)"

lemma c_assert_Some [simp]: "c_assert b = Some u \<longleftrightarrow> b"
  by (simp add: c_assert_def)

lemma c_assert_True [simp]: "c_assert True = Some ()"
  by (simp add: c_assert_def)

lemma c_assert_False [simp]: "c_assert False = None"
  by (simp add: c_assert_def)

lemma bind_c_assert [simp]: "b \<Longrightarrow> c_assert b \<bind> f = f ()"
  by (simp add: c_assert_def)

lemma bind_SomeI: "x = Some a \<Longrightarrow> f a = Some b \<Longrightarrow> x \<bind> f = Some b"
  by simp

subsection \<open>Arrays\<close>

definition arr_get :: "'a list \<Rightarrow> nat \<Rightarrow> 'a option" where
  "arr_get xs i = (if i < length xs then Some (xs ! i) else None)"

definition arr_set :: "'a list \<Rightarrow> nat \<Rightarrow> 'a \<Rightarrow> 'a list option" where
  "arr_set xs i v = (if i < length xs then Some (xs[i := v]) else None)"

lemma arr_get_in [arr_simps]: "i < length xs \<Longrightarrow> arr_get xs i = Some (xs ! i)"
  by (simp add: arr_get_def)

lemma arr_get_out [arr_simps]: "length xs \<le> i \<Longrightarrow> arr_get xs i = None"
  by (simp add: arr_get_def)

lemma arr_get_SomeD: "arr_get xs i = Some v \<Longrightarrow> i < length xs \<and> v = xs ! i"
  by (auto simp: arr_get_def split: if_splits)

lemma arr_set_in [arr_simps]: "i < length xs \<Longrightarrow> arr_set xs i v = Some (xs[i := v])"
  by (simp add: arr_set_def)

lemma arr_set_SomeD: "arr_set xs i v = Some ys \<Longrightarrow> i < length xs \<and> ys = xs[i := v]"
  by (auto simp: arr_set_def split: if_splits)

subsection \<open>C integers\<close>

text \<open>The value a 32-bit signed \<open>int\<close> holds after the value \<open>x\<close> is converted to it.\<close>

definition to_int32 :: "int \<Rightarrow> int" where
  "to_int32 x = (x + 2 ^ 31) mod 2 ^ 32 - 2 ^ 31"

definition in_int32 :: "int \<Rightarrow> bool" where
  "in_int32 x \<longleftrightarrow> - (2 ^ 31) \<le> x \<and> x < 2 ^ 31"

lemma to_int32_id [cint_simps]: "in_int32 x \<Longrightarrow> to_int32 x = x"
  by (simp add: to_int32_def in_int32_def)

lemma in_int32_to_int32 [simp]: "in_int32 (to_int32 x)"
  by (simp add: to_int32_def in_int32_def)

lemma in_int32_nonneg: "0 \<le> x \<Longrightarrow> x < 2 ^ 31 \<Longrightarrow> in_int32 x"
  by (simp add: in_int32_def)

lemma to_int32_step: "to_int32 (to_int32 x + y) = to_int32 (x + y)"
  by (simp add: to_int32_def mod_simps algebra_simps)

lemma to_int32_step2: "to_int32 (x + to_int32 y) = to_int32 (x + y)"
  using to_int32_step [of y x] by (simp add: add.commute)

end
