(* ===== verification/CString.thy ===== *)
theory CString
  imports Prelude
begin

section \<open>C strings and the string functions of the C library\<close>

text \<open>
  The parts of the C library's string handling that the program calls: \<open>strstr\<close>,
  \<open>strcpy\<close>, \<open>strncpy\<close>, \<open>atoi\<close>, \<open>strtol\<close> in base 16 and the \<open>printf\<close> conversions
  \<open>%d\<close>, \<open>%015d\<close> and \<open>%02X\<close>. A C string is the list of its characters before the
  terminating NUL; a buffer is a list of fixed length that may contain NULs. Where the C
  function would read or write past the end of an object the model returns \<open>None\<close>.
  The lemmas are the print/parse round trips the file formats rest on.
\<close>

abbreviation NUL :: char where
  "NUL \<equiv> CHR 0x00"

definition cstring :: "string \<Rightarrow> bool" where
  "cstring s \<longleftrightarrow> NUL \<notin> set s"

subsection \<open>Copying and searching\<close>

text \<open>\<open>strstr\<close>: the suffix of the haystack that starts at the first occurrence.\<close>

fun strstr :: "string \<Rightarrow> string \<Rightarrow> string option" where
  "strstr [] needle = (if needle = [] then Some [] else None)"
| "strstr (c # cs) needle =
     (if take (length needle) (c # cs) = needle then Some (c # cs) else strstr cs needle)"

text \<open>The C string held by a buffer; \<open>None\<close> when no NUL ends it inside the buffer.\<close>

definition cstr_of_buf :: "char list \<Rightarrow> string option" where
  "cstr_of_buf b = (if NUL \<in> set b then Some (takeWhile (\<lambda>c. c \<noteq> NUL) b) else None)"

text \<open>The string held by a \<open>char[n]\<close> after \<open>strcpy\<close>; \<open>None\<close> when it does not fit.\<close>

definition strcpy_into :: "nat \<Rightarrow> string \<Rightarrow> string option" where
  "strcpy_into n s = (if length s < n then Some s else None)"

text \<open>\<open>strncpy(dst, src, n)\<close> on buffers: at most \<open>n\<close> characters, padded with NULs.\<close>

definition strncpy_buf :: "char list \<Rightarrow> char list \<Rightarrow> nat \<Rightarrow> char list option" where
  "strncpy_buf dst src n =
     (let s = takeWhile (\<lambda>c. c \<noteq> NUL) (take n src)
      in if n \<le> length dst \<and> (n \<le> length src \<or> NUL \<in> set src)
         then Some (take n (s @ replicate n NUL) @ drop n dst) else None)"

subsection \<open>Decimal numbers\<close>

definition isdigit :: "char \<Rightarrow> bool" where
  "isdigit c \<longleftrightarrow> 48 \<le> (of_char c :: nat) \<and> (of_char c :: nat) \<le> 57"

definition isspace :: "char \<Rightarrow> bool" where
  "isspace c \<longleftrightarrow> (of_char c :: nat) = 32 \<or> (9 \<le> (of_char c :: nat) \<and> (of_char c :: nat) \<le> 13)"

definition digit_char :: "nat \<Rightarrow> char" where
  "digit_char d = char_of (48 + d)"

definition digit_val :: "char \<Rightarrow> nat" where
  "digit_val c = of_char c - 48"

fun dec_of_nat :: "nat \<Rightarrow> string" where
  "dec_of_nat n = (if n < 10 then [digit_char n]
                   else dec_of_nat (n div 10) @ [digit_char (n mod 10)])"

declare dec_of_nat.simps [simp del]

definition dec_val :: "string \<Rightarrow> nat" where
  "dec_val = foldl (\<lambda>a c. 10 * a + digit_val c) 0"

text \<open>\<open>printf("%d")\<close> and \<open>printf("%0<w>d")\<close>.\<close>

definition fmt_d :: "int \<Rightarrow> string" where
  "fmt_d v = (if v < 0 then CHR ''-'' # dec_of_nat (nat (- v)) else dec_of_nat (nat v))"

definition zero_pad :: "nat \<Rightarrow> string \<Rightarrow> string" where
  "zero_pad w s = replicate (w - length s) (CHR ''0'') @ s"

definition fmt_0d :: "nat \<Rightarrow> int \<Rightarrow> string" where
  "fmt_0d w v = (if v < 0 then CHR ''-'' # zero_pad (w - 1) (dec_of_nat (nat (- v)))
                 else zero_pad w (dec_of_nat (nat v)))"

text \<open>
  \<open>atoi\<close> on the characters from its argument to the end of the object that holds them:
  white space, an optional sign, digits, and something that ends them. Running off the
  end of the object and a value outside \<open>int\<close> are undefined behaviour.
\<close>

definition atoi_digits :: "int \<Rightarrow> char list \<Rightarrow> int option" where
  "atoi_digits sg cs =
     (let ds = takeWhile isdigit cs; v = sg * int (dec_val ds)
      in if length ds < length cs \<and> in_int32 v then Some v else None)"

definition atoi :: "char list \<Rightarrow> int option" where
  "atoi cs =
     (case dropWhile isspace cs of
        [] \<Rightarrow> None
      | c # r \<Rightarrow> if c = CHR ''-'' then atoi_digits (- 1) r
                 else if c = CHR ''+'' then atoi_digits 1 r
                 else atoi_digits 1 (c # r))"

subsection \<open>Hexadecimal bytes\<close>

definition hexdigit_char :: "nat \<Rightarrow> char" where
  "hexdigit_char d = (if d < 10 then char_of (48 + d) else char_of (55 + d))"

definition hexdigit_val :: "char \<Rightarrow> nat option" where
  "hexdigit_val c =
     (let n = (of_char c :: nat)
      in if 48 \<le> n \<and> n \<le> 57 then Some (n - 48)
         else if 65 \<le> n \<and> n \<le> 70 then Some (n - 55)
         else if 97 \<le> n \<and> n \<le> 102 then Some (n - 87)
         else None)"

text \<open>\<open>printf("%02X")\<close> of a byte.\<close>

definition fmt_02X :: "8 word \<Rightarrow> string" where
  "fmt_02X b = [hexdigit_char (unat b div 16), hexdigit_char (unat b mod 16)]"

text \<open>\<open>strtol(s, NULL, 16)\<close>: white space, sign, optional \<open>0x\<close>, hexadecimal digits.\<close>

fun hex_digits :: "nat \<Rightarrow> string \<Rightarrow> nat" where
  "hex_digits a [] = a"
| "hex_digits a (c # cs) =
     (case hexdigit_val c of None \<Rightarrow> a | Some d \<Rightarrow> hex_digits (16 * a + d) cs)"

definition strip_0x :: "string \<Rightarrow> string" where
  "strip_0x s =
     (case s of
        z # x # h # r \<Rightarrow>
          if z = CHR ''0'' \<and> (x = CHR ''x'' \<or> x = CHR ''X'') \<and> hexdigit_val h \<noteq> None
          then h # r else s
      | _ \<Rightarrow> s)"

definition strtol16 :: "string \<Rightarrow> int" where
  "strtol16 s =
     (case dropWhile isspace s of
        [] \<Rightarrow> 0
      | c # r \<Rightarrow> if c = CHR ''-'' then - int (hex_digits 0 (strip_0x r))
                 else if c = CHR ''+'' then int (hex_digits 0 (strip_0x r))
                 else int (hex_digits 0 (strip_0x (c # r))))"

subsection \<open>Lemmas: searching and copying\<close>

lemma strstr_SomeD:
  "strstr h n = Some r \<Longrightarrow> \<exists>p. h = p @ r \<and> take (length n) r = n"
proof (induction h n rule: strstr.induct)
  case (1 needle)
  then show ?case by (simp split: if_splits)
next
  case (2 c cs needle)
  show ?case
  proof (cases "take (length needle) (c # cs) = needle")
    case True
    with "2.prems" show ?thesis by (auto intro: exI [of _ "[]"])
  next
    case False
    with 2 obtain p where "cs = p @ r" "take (length needle) r = needle" by auto
    then show ?thesis by (metis append_Cons)
  qed
qed

lemma strstr_None_iff:
  "strstr h n = None \<longleftrightarrow> (\<forall>p r. h = p @ r \<longrightarrow> take (length n) r \<noteq> n)"
proof (induction h n rule: strstr.induct)
  case (1 needle)
  then show ?case by simp
next
  case (2 c cs needle)
  show ?case
  proof (cases "take (length needle) (c # cs) = needle")
    case True
    then show ?thesis
      by simp (metis append_Nil)
  next
    case False
    with 2 show ?thesis
      by (simp add: Cons_eq_append_conv) (metis append_Nil list.inject)
  qed
qed

lemma cstr_of_buf_append_NUL [simp]:
  "cstring s \<Longrightarrow> cstr_of_buf (s @ NUL # r) = Some s"
  unfolding cstr_of_buf_def cstring_def by (induction s) auto

lemma strncpy_buf_in:
  assumes "n \<le> length dst" "n \<le> length src" "NUL \<notin> set (take n src)"
  shows "strncpy_buf dst src n = Some (take n src @ drop n dst)"
proof -
  have eq: "takeWhile (\<lambda>c. c \<noteq> NUL) (take n src) = take n src"
    using assms(3) unfolding takeWhile_eq_all_conv by blast
  show ?thesis using assms(1,2) unfolding strncpy_buf_def Let_def eq by simp
qed

subsection \<open>Lemmas: decimal round trip\<close>

lemma isdigit_digit_char [simp]: "d < 10 \<Longrightarrow> isdigit (digit_char d)"
  by (simp add: isdigit_def digit_char_def)

lemma digit_val_char [simp]: "d < 10 \<Longrightarrow> digit_val (digit_char d) = d"
  by (simp add: digit_val_def digit_char_def)

lemma not_isdigit_NUL [simp]: "\<not> isdigit NUL"
  by (simp add: isdigit_def)

lemma isdigit_not_space: "isdigit c \<Longrightarrow> \<not> isspace c"
  by (auto simp: isdigit_def isspace_def)

lemma dec_of_nat_digits: "\<forall>c \<in> set (dec_of_nat n). isdigit c"
proof (induction n rule: dec_of_nat.induct)
  case (1 n)
  then show ?case by (subst dec_of_nat.simps) auto
qed

lemma dec_of_nat_nonempty [simp]: "dec_of_nat n \<noteq> []"
  by (subst dec_of_nat.simps) simp

lemma dec_val_snoc: "dec_val (s @ [c]) = 10 * dec_val s + digit_val c"
  by (simp add: dec_val_def)

lemma dec_val_dec_of_nat [simp]: "dec_val (dec_of_nat n) = n"
proof (induction n rule: dec_of_nat.induct)
  case (1 n)
  show ?case
  proof (cases "n < 10")
    case True
    then show ?thesis by (subst dec_of_nat.simps) (simp add: dec_val_def)
  next
    case False
    with 1 show ?thesis by (subst dec_of_nat.simps) (simp add: dec_val_snoc)
  qed
qed

lemma dec_val_zeros: "dec_val (replicate k (CHR ''0'') @ s) = dec_val s"
  by (induction k) (simp_all add: dec_val_def digit_val_def)

lemma length_dec_of_nat: "0 < k \<Longrightarrow> n < 10 ^ k \<Longrightarrow> length (dec_of_nat n) \<le> k"
proof (induction n arbitrary: k rule: dec_of_nat.induct)
  case (1 n)
  show ?case
  proof (cases "n < 10")
    case True
    with "1.prems" show ?thesis by (subst dec_of_nat.simps) simp
  next
    case False
    with "1.prems" obtain j where k: "k = Suc j" by (cases k) auto
    have j: "0 < j" using False "1.prems"(2) k by (cases j) auto
    have "n div 10 < 10 ^ j"
      using "1.prems"(2) k by (simp add: less_mult_imp_div_less mult.commute)
    with "1.IH" False j have "length (dec_of_nat (n div 10)) \<le> j" by blast
    with False k show ?thesis by (subst dec_of_nat.simps) simp
  qed
qed

lemma zero_pad_digits: "\<forall>c \<in> set s. isdigit c \<Longrightarrow> \<forall>c \<in> set (zero_pad w s). isdigit c"
  by (auto simp: zero_pad_def isdigit_def)

lemma dec_val_zero_pad [simp]: "dec_val (zero_pad w s) = dec_val s"
  by (simp add: zero_pad_def dec_val_zeros)

lemma length_zero_pad: "length (zero_pad w s) = max w (length s)"
  by (simp add: zero_pad_def)

lemma length_fmt_0d:
  assumes "in_int32 v" and "12 \<le> w"
  shows "length (fmt_0d w v) = w"
proof -
  have "length (dec_of_nat (nat v)) \<le> 11" "length (dec_of_nat (nat (- v))) \<le> 11"
    using assms(1) by (auto intro!: length_dec_of_nat simp: in_int32_def)
  with assms(2) show ?thesis by (auto simp: fmt_0d_def length_zero_pad)
qed

lemma atoi_digits_ends:
  assumes "\<forall>c \<in> set ds. isdigit c" "\<not> isdigit e" "in_int32 (sg * int (dec_val ds))"
  shows "atoi_digits sg (ds @ e # r) = Some (sg * int (dec_val ds))"
proof -
  have "takeWhile isdigit (ds @ e # r) = ds"
    using assms(1,2) by (simp add: takeWhile_append2 list_all_iff)
  with assms(3) show ?thesis by (simp add: atoi_digits_def Let_def)
qed

lemma atoi_digit_string:
  assumes ds: "\<forall>c \<in> set ds. isdigit c" "ds \<noteq> []" and e: "\<not> isdigit e"
    and v: "in_int32 (int (dec_val ds))"
  shows "atoi (ds @ e # r) = Some (int (dec_val ds))"
proof -
  obtain c cs where c: "ds = c # cs" using ds(2) by (cases ds) auto
  with ds(1) have "\<not> isspace c" "c \<noteq> CHR ''-''" "c \<noteq> CHR ''+''"
    by (auto simp: isdigit_not_space isdigit_def)
  then show ?thesis
    using atoi_digits_ends [OF ds(1) e, of 1 r] v c by (simp add: atoi_def)
qed

lemma atoi_minus_string:
  assumes ds: "\<forall>c \<in> set ds. isdigit c" and e: "\<not> isdigit e"
    and v: "in_int32 (- int (dec_val ds))"
  shows "atoi (CHR ''-'' # ds @ e # r) = Some (- int (dec_val ds))"
  using atoi_digits_ends [OF ds e, of "- 1" r] v by (simp add: atoi_def isspace_def)

text \<open>Printing with \<open>%0<w>d\<close> and reading back with \<open>atoi\<close> is the identity on \<open>int\<close>.\<close>

lemma atoi_fmt_0d:
  assumes "in_int32 v" "\<not> isdigit e"
  shows "atoi (fmt_0d w v @ e # r) = Some v"
proof (cases "v < 0")
  case True
  let ?ds = "zero_pad (w - 1) (dec_of_nat (nat (- v)))"
  have "\<forall>c \<in> set ?ds. isdigit c" using dec_of_nat_digits by (rule zero_pad_digits)
  from atoi_minus_string [OF this assms(2)] True assms(1) show ?thesis
    by (simp add: fmt_0d_def)
next
  case False
  let ?ds = "zero_pad w (dec_of_nat (nat v))"
  have "\<forall>c \<in> set ?ds. isdigit c" using dec_of_nat_digits by (rule zero_pad_digits)
  moreover have "?ds \<noteq> []" by (simp add: zero_pad_def)
  ultimately show ?thesis
    using atoi_digit_string [OF _ _ assms(2), of ?ds r] False assms(1)
    by (simp add: fmt_0d_def)
qed

subsection \<open>Lemmas: hexadecimal round trip\<close>

lemma hexdigit_val_char: "d < 16 \<Longrightarrow> hexdigit_val (hexdigit_char d) = Some d"
  by (auto simp: hexdigit_val_def hexdigit_char_def Let_def)

lemma hexdigit_char_plain:
  assumes "d < 16"
  shows "\<not> isspace (hexdigit_char d)" "hexdigit_char d \<noteq> CHR ''-''"
    "hexdigit_char d \<noteq> CHR ''+''" "hexdigit_char d \<noteq> NUL" "hexdigit_char d \<noteq> CHR '',''"
proof -
  have n: "(of_char (hexdigit_char d) :: nat) = (if d < 10 then 48 + d else 55 + d)"
    using assms by (simp add: hexdigit_char_def)
  show "\<not> isspace (hexdigit_char d)" using assms n by (auto simp: isspace_def)
  have "(of_char (hexdigit_char d) :: nat) \<noteq> 45" "(of_char (hexdigit_char d) :: nat) \<noteq> 43"
    "(of_char (hexdigit_char d) :: nat) \<noteq> 0" "(of_char (hexdigit_char d) :: nat) \<noteq> 44"
    using assms n by auto
  then show "hexdigit_char d \<noteq> CHR ''-''" "hexdigit_char d \<noteq> CHR ''+''"
    "hexdigit_char d \<noteq> NUL" "hexdigit_char d \<noteq> CHR '',''" by auto
qed

lemma strtol16_two:
  assumes "h < 16" "l < 16"
  shows "strtol16 [hexdigit_char h, hexdigit_char l] = int (16 * h + l)"
  using assms hexdigit_char_plain [OF assms(1)]
  by (simp add: strtol16_def strip_0x_def hexdigit_val_char)

lemma strtol16_fmt_02X: "strtol16 (fmt_02X b) = uint b"
proof -
  have "unat b < 256" using unsigned_less [of b] by simp
  then have "unat b div 16 < 16" "unat b mod 16 < 16" by auto
  then have "strtol16 (fmt_02X b) = int (16 * (unat b div 16) + unat b mod 16)"
    unfolding fmt_02X_def by (rule strtol16_two)
  then show ?thesis unfolding mult_div_mod_eq by simp
qed

end
