(* ===== verification/HttpTools.thy ===== *)
theory HttpTools
  imports CString
begin

section \<open>Strings and header tools (String.c, HttpHeaderTools.c, HttpHeader.c)\<close>

text \<open>
  Squid's \<open>String\<close> appending, the iterator over comma-separated header lists, the integer
  field parser and the header name table. A position inside a C string is the suffix that
  starts there, so \<open>**pos\<close> is the head of that suffix and the terminating NUL is the
  empty suffix.
\<close>

unbundle bit_operations_syntax

subsection \<open>Flag words (defines.h)\<close>

definition EBIT_SET :: "'a::len word \<Rightarrow> nat \<Rightarrow> 'a word" where
  "EBIT_SET flag b = flag OR push_bit b 1"

definition EBIT_CLR :: "'a::len word \<Rightarrow> nat \<Rightarrow> 'a word" where
  "EBIT_CLR flag b = flag AND NOT (push_bit b 1)"

definition EBIT_TEST :: "'a::len word \<Rightarrow> nat \<Rightarrow> bool" where
  "EBIT_TEST flag b \<longleftrightarrow> flag AND push_bit b 1 \<noteq> 0"

lemma EBIT_TEST_bit: "EBIT_TEST w b \<longleftrightarrow> bit w b"
proof
  assume "EBIT_TEST w b"
  then obtain n where "bit (w AND push_bit b 1) n"
    unfolding EBIT_TEST_def by (metis bit_0_eq bit_eqI bot_apply bot_bool_def)
  then show "bit w b" by (auto simp: bit_simps)
next
  assume "bit w b"
  then have "bit (w AND push_bit b 1) b" by (auto simp: bit_simps dest: bit_imp_le_length)
  then show "EBIT_TEST w b" unfolding EBIT_TEST_def by (metis bit_0_eq bot_apply bot_bool_def)
qed

lemma EBIT_TEST_SET:
  "b < LENGTH('a) \<Longrightarrow> EBIT_TEST (EBIT_SET (w :: 'a::len word) b) c \<longleftrightarrow> c = b \<or> EBIT_TEST w c"
  by (auto simp: EBIT_TEST_bit EBIT_SET_def bit_simps)

lemma EBIT_TEST_CLR:
  "EBIT_TEST (EBIT_CLR (w :: 'a::len word) b) c \<longleftrightarrow> c \<noteq> b \<and> EBIT_TEST w c"
  by (auto simp: EBIT_TEST_bit EBIT_CLR_def bit_simps dest: bit_imp_le_length)

lemma EBIT_TEST_0 [simp]: "\<not> EBIT_TEST 0 b"
  by (simp add: EBIT_TEST_bit)

lemma EBIT_TEST_or: "EBIT_TEST (v OR w) b \<longleftrightarrow> EBIT_TEST v b \<or> EBIT_TEST w b"
  by (simp add: EBIT_TEST_bit bit_simps)

lemmas ebit_simps = EBIT_TEST_SET EBIT_TEST_CLR EBIT_TEST_0 EBIT_TEST_or

subsection \<open>Squid strings\<close>

text \<open>
  \<open>stringAppend\<close>: either the text fits into the allocated size, which is below 65536, or
  a buffer for the longer text is allocated, whose size is asserted to be below 65536.
\<close>

definition stringAppend :: "string \<Rightarrow> string \<Rightarrow> string option" where
  "stringAppend s t = do { c_assert (length s + length t + 1 < 65536); Some (s @ t) }"

definition stringLimitInit :: "string \<Rightarrow> nat \<Rightarrow> string option" where
  "stringLimitInit str len = do { c_assert (len + 1 < 65536); Some (take len str) }"

subsection \<open>Case-insensitive comparison\<close>

definition xtolower :: "char \<Rightarrow> char" where
  "xtolower c = (let n = (of_char c :: nat) in if 65 \<le> n \<and> n \<le> 90 then char_of (n + 32) else c)"

definition strncaseeq :: "string \<Rightarrow> string \<Rightarrow> nat \<Rightarrow> bool" where
  "strncaseeq a b n \<longleftrightarrow> map xtolower (take n a) = map xtolower (take n b)"

definition strcaseeq :: "string \<Rightarrow> string \<Rightarrow> bool" where
  "strcaseeq a b \<longleftrightarrow> map xtolower a = map xtolower b"

subsection \<open>Iterating over a list-valued header\<close>

definition list_delim :: "char \<Rightarrow> bool \<Rightarrow> char set" where
  "list_delim del quoted =
     (if quoted then {CHR 0x22, CHR 0x5C} else {CHR 0x22, del, CHR '',''})"

definition list_skip :: "char \<Rightarrow> char set" where
  "list_skip del = {CHR '' '', del, CHR '','', CHR 0x09, CHR 0x0D, CHR 0x0A}"

text \<open>The \<open>do ... while\<close> loop that finds the end of an item.\<close>

function list_item_end :: "char \<Rightarrow> bool \<Rightarrow> string \<Rightarrow> string" where
  "list_item_end del quoted pos =
     (case dropWhile (\<lambda>c. c \<notin> list_delim del quoted) pos of
        [] \<Rightarrow> []
      | c # r \<Rightarrow>
          if c = CHR 0x22 then
            (if r = [] then [] else list_item_end del (\<not> quoted) r)
          else if quoted \<and> c = CHR 0x5C then
            (if tl r = [] then [] else list_item_end del quoted (tl r))
          else c # r)"
  by pat_completeness auto
termination
proof (relation "measure (\<lambda>(del, quoted, pos). length pos)", goal_cases)
  case 1
  then show ?case by simp
next
  case (2 del quoted pos c r)
  have "length (c # r) \<le> length pos" using 2(1) by (metis length_dropWhile_le)
  then show ?case by simp
next
  case (3 del quoted pos c r)
  have "length (c # r) \<le> length pos" using 3(1) by (metis length_dropWhile_le)
  then show ?case by simp
qed

declare list_item_end.simps [simp del]

definition rtrim :: "string \<Rightarrow> string" where
  "rtrim s = rev (dropWhile isspace (rev s))"

text \<open>
  \<open>strListGetItem\<close>: from a position to \<open>(found, item, ilen, pos)\<close>. The C function starts
  at the beginning of the string when \<open>*pos\<close> is \<open>NULL\<close>; here that is the caller's first
  call with the whole string.
\<close>

definition strListGetItem :: "char \<Rightarrow> string \<Rightarrow> bool \<times> string \<times> nat \<times> string" where
  "strListGetItem del pos =
     (let item = dropWhile (\<lambda>c. c \<in> list_skip del) pos;
          pos' = list_item_end del False item;
          ilen = length (rtrim (take (length item - length pos') item))
      in (0 < ilen, item, ilen, pos'))"

lemma length_list_item_end: "length (list_item_end del q s) \<le> length s"
proof (induction del q s rule: list_item_end.induct)
  case (1 del q s)
  have dw: "length (dropWhile (\<lambda>c. c \<notin> list_delim del q) s) \<le> length s"
    by (rule length_dropWhile_le)
  show ?case
  proof (cases "dropWhile (\<lambda>c. c \<notin> list_delim del q) s")
    case Nil
    show ?thesis unfolding list_item_end.simps [of del q s] Nil by simp
  next
    case (Cons c r)
    have r: "length r < length s" using dw unfolding Cons by simp
    have "c = CHR 0x22 \<Longrightarrow> r \<noteq> [] \<Longrightarrow> length (list_item_end del (\<not> q) r) \<le> length r"
      using "1.IH"(1) [OF Cons] by blast
    moreover have "c \<noteq> CHR 0x22 \<Longrightarrow> q \<and> c = CHR 0x5C \<Longrightarrow> tl r \<noteq> [] \<Longrightarrow>
        length (list_item_end del q (tl r)) \<le> length (tl r)"
      using "1.IH"(2) [OF Cons] by blast
    ultimately show ?thesis
      using r unfolding list_item_end.simps [of del q s] Cons by auto
  qed
qed

lemma list_item_end_Nil [simp]: "list_item_end del q [] = []"
  by (simp add: list_item_end.simps)

lemma length_rtrim: "length (rtrim s) \<le> length s"
  unfolding rtrim_def by (metis length_dropWhile_le length_rev)

text \<open>Finding an item makes progress: the loop over the items terminates.\<close>

lemma strListGetItem_progress:
  assumes "strListGetItem del pos = (True, item, ilen, pos')"
  shows "length pos' < length pos" "ilen \<le> length item" "length item \<le> length pos" "0 < ilen"
proof -
  have it: "item = dropWhile (\<lambda>c. c \<in> list_skip del) pos" "pos' = list_item_end del False item"
    "ilen = length (rtrim (take (length item - length pos') item))" "0 < ilen"
    using assms by (auto simp: strListGetItem_def Let_def)
  show "length item \<le> length pos" unfolding it(1) by (rule length_dropWhile_le)
  have "length pos' \<le> length item" unfolding it(2) by (rule length_list_item_end)
  moreover have le: "ilen \<le> length item - length pos'"
    unfolding it(3) by (rule order_trans [OF length_rtrim]) simp
  ultimately show "length pos' < length pos" "ilen \<le> length item"
    using it(4) \<open>length item \<le> length pos\<close> by auto
  show "0 < ilen" by (rule it(4))
qed

function strListIsMember_loop :: "string \<Rightarrow> char \<Rightarrow> string \<Rightarrow> bool" where
  "strListIsMember_loop m del pos =
     (case strListGetItem del pos of
        (found, item, ilen, pos') \<Rightarrow>
          if found
          then (if length m = ilen \<and> strncaseeq item m ilen then True
                else strListIsMember_loop m del pos')
          else False)"
  by pat_completeness auto
termination
  by (relation "measure (\<lambda>(m, del, pos). length pos)") (auto dest!: strListGetItem_progress(1) [OF sym])

declare strListIsMember_loop.simps [simp del]

text \<open>\<open>strListIsMember\<close> and \<open>strListAdd\<close>; a \<open>String\<close> without a buffer is \<open>None\<close>.\<close>

definition strListIsMember :: "string option \<Rightarrow> string \<Rightarrow> char \<Rightarrow> bool" where
  "strListIsMember list m del =
     (case list of None \<Rightarrow> False | Some s \<Rightarrow> strListIsMember_loop m del s)"

definition strListAdd :: "string \<Rightarrow> string \<Rightarrow> char \<Rightarrow> string option" where
  "strListAdd str item del = do {
     str \<leftarrow> (if str \<noteq> [] then stringAppend str [del, CHR '' ''] else Some str);
     stringAppend str item }"

subsection \<open>Integer fields\<close>

text \<open>\<open>strtol(start, &end, 10)\<close>: \<open>None\<close> when no digit was consumed (\<open>end == start\<close>).\<close>

definition strtol10 :: "string \<Rightarrow> int option" where
  "strtol10 s =
     (let r = dropWhile isspace s;
          neg = (r \<noteq> [] \<and> hd r = CHR ''-'');
          r = (if r \<noteq> [] \<and> (hd r = CHR ''-'' \<or> hd r = CHR ''+'') then tl r else r);
          ds = takeWhile isdigit r
      in if ds = [] then None
         else Some (if neg then - int (dec_val ds) else int (dec_val ds)))"

text \<open>
  \<open>httpHeaderParseInt\<close>: success flag and the value stored. \<open>long\<close> has 32 bits in this
  configuration, so a value out of range sets \<open>errno\<close>; with a wider \<open>long\<close> the
  comparison \<open>v != *value\<close> rejects exactly the same inputs.
\<close>

definition httpHeaderParseInt :: "string \<Rightarrow> bool \<times> int" where
  "httpHeaderParseInt start =
     (case strtol10 start of
        None \<Rightarrow> (False, - 1)
      | Some v \<Rightarrow> if in_int32 v then (True, v) else (False, - 1))"

definition in_int64 :: "int \<Rightarrow> bool" where
  "in_int64 x \<longleftrightarrow> - (2 ^ 63) \<le> x \<and> x < 2 ^ 63"

definition httpHeaderParseSize :: "string \<Rightarrow> bool \<times> int" where
  "httpHeaderParseSize start =
     (case strtol10 start of
        None \<Rightarrow> (False, - 1)
      | Some v \<Rightarrow> if in_int64 v then (True, v) else (False, - 1))"

lemma strtol10_digits:
  assumes ds: "\<forall>c \<in> set ds. isdigit c" "ds \<noteq> []" and r: "r = [] \<or> \<not> isdigit (hd r)"
  shows "strtol10 (ds @ r) = Some (int (dec_val ds))"
proof -
  obtain c cs where c: "ds = c # cs" using ds(2) by (cases ds) auto
  with ds(1) have nc: "\<not> isspace c" "c \<noteq> CHR ''-''" "c \<noteq> CHR ''+''"
    by (auto simp: isdigit_not_space isdigit_def)
  have "takeWhile isdigit (ds @ r) = ds"
    using ds(1) r by (cases r) (auto simp: takeWhile_append2 list_all_iff)
  with c nc show ?thesis by (simp add: strtol10_def Let_def)
qed

text \<open>Printing a non-negative \<open>int\<close> with \<open>%d\<close> and parsing the field gives it back.\<close>

lemma httpHeaderParseInt_fmt_d:
  assumes "0 \<le> v" "in_int32 v" "r = [] \<or> \<not> isdigit (hd r)"
  shows "httpHeaderParseInt (fmt_d v @ r) = (True, v)"
  using strtol10_digits [OF dec_of_nat_digits dec_of_nat_nonempty assms(3), of "nat v"] assms(1,2)
  by (simp add: httpHeaderParseInt_def fmt_d_def)

subsection \<open>The field name table\<close>

record field_info =
  fi_id :: nat
  fi_type :: nat
  fi_name :: string

text \<open>\<open>httpHeaderBuildFieldsInfo\<close> on attributes \<open>(name, id, type)\<close>.\<close>

fun build_fields :: "nat \<Rightarrow> (string \<times> nat \<times> nat) list \<Rightarrow> field_info list \<Rightarrow> field_info list option" where
  "build_fields count [] table = Some table"
| "build_fields count ((name, fid, ft) # attrs) table = do {
     c_assert (fid < count);
     info \<leftarrow> arr_get table fid;
     c_assert (fi_id info = 0 \<and> fi_type info = 0);
     c_assert (name \<noteq> []);
     build_fields count attrs (table[fid := \<lparr>fi_id = fid, fi_type = ft, fi_name = name\<rparr>]) }"

definition httpHeaderBuildFieldsInfo :: "(string \<times> nat \<times> nat) list \<Rightarrow> nat \<Rightarrow> field_info list option" where
  "httpHeaderBuildFieldsInfo attrs count = do {
     c_assert (0 < count);
     build_fields count attrs (replicate count \<lparr>fi_id = 0, fi_type = 0, fi_name = []\<rparr>) }"

text \<open>\<open>httpHeaderIdByName\<close> with a name length: index of the entry, or \<open>None\<close> for -1.\<close>

fun httpHeaderIdByName :: "string \<Rightarrow> nat \<Rightarrow> string list \<Rightarrow> nat option" where
  "httpHeaderIdByName name len [] = None"
| "httpHeaderIdByName name len (n # ns) =
     (if len = length n \<and> strncaseeq name n len then Some 0
      else map_option Suc (httpHeaderIdByName name len ns))"

lemma httpHeaderIdByName_Some:
  "httpHeaderIdByName name len ns = Some i \<Longrightarrow>
     i < length ns \<and> len = length (ns ! i) \<and> strncaseeq name (ns ! i) len"
  by (induction ns arbitrary: i) (auto split: if_splits)

end
