(* ===== verification/HttpHdrCc.thy ===== *)
theory HttpHdrCc
  imports HttpTools
begin

section \<open>The Cache-Control header (HttpHdrCc.c)\<close>

text \<open>
  Parsing, packing, joining and copying of the parsed Cache-Control header. The directive
  types are the constructors of the source's enum in its order, \<open>cc_bit\<close> their bit in the
  mask. Parsing threads the duplicate counters of \<open>CcFieldsInfo[].stat.repCount\<close> as a list.
\<close>

unbundle bit_operations_syntax

subsection \<open>Directive types and the header record\<close>

datatype http_hdr_cc_type =
    CC_PUBLIC | CC_PRIVATE | CC_NO_CACHE | CC_NO_STORE | CC_NO_TRANSFORM
  | CC_MUST_REVALIDATE | CC_PROXY_REVALIDATE | CC_MAX_AGE | CC_S_MAXAGE | CC_MAX_STALE
  | CC_ONLY_IF_CACHED | CC_STALE_WHILE_REVALIDATE | CC_STALE_IF_ERROR | CC_OTHER

definition cc_enum :: "http_hdr_cc_type list" where
  "cc_enum =
     [CC_PUBLIC, CC_PRIVATE, CC_NO_CACHE, CC_NO_STORE, CC_NO_TRANSFORM, CC_MUST_REVALIDATE,
      CC_PROXY_REVALIDATE, CC_MAX_AGE, CC_S_MAXAGE, CC_MAX_STALE, CC_ONLY_IF_CACHED,
      CC_STALE_WHILE_REVALIDATE, CC_STALE_IF_ERROR, CC_OTHER]"

primrec cc_bit :: "http_hdr_cc_type \<Rightarrow> nat" where
  "cc_bit CC_PUBLIC = 0"
| "cc_bit CC_PRIVATE = 1"
| "cc_bit CC_NO_CACHE = 2"
| "cc_bit CC_NO_STORE = 3"
| "cc_bit CC_NO_TRANSFORM = 4"
| "cc_bit CC_MUST_REVALIDATE = 5"
| "cc_bit CC_PROXY_REVALIDATE = 6"
| "cc_bit CC_MAX_AGE = 7"
| "cc_bit CC_S_MAXAGE = 8"
| "cc_bit CC_MAX_STALE = 9"
| "cc_bit CC_ONLY_IF_CACHED = 10"
| "cc_bit CC_STALE_WHILE_REVALIDATE = 11"
| "cc_bit CC_STALE_IF_ERROR = 12"
| "cc_bit CC_OTHER = 13"

record HttpHdrCc =
  cc_mask :: "32 word"
  max_age :: int
  s_maxage :: int
  max_stale :: int
  stale_while_revalidate :: int
  stale_if_error :: int
  other :: string

definition cc_has :: "HttpHdrCc \<Rightarrow> http_hdr_cc_type \<Rightarrow> bool" where
  "cc_has cc t \<longleftrightarrow> EBIT_TEST (cc_mask cc) (cc_bit t)"

subsection \<open>The name table\<close>

definition CcAttrs :: "(string \<times> nat \<times> nat) list" where
  "CcAttrs =
     [(''public'', cc_bit CC_PUBLIC, 0), (''private'', cc_bit CC_PRIVATE, 0),
      (''no-cache'', cc_bit CC_NO_CACHE, 0), (''no-store'', cc_bit CC_NO_STORE, 0),
      (''no-transform'', cc_bit CC_NO_TRANSFORM, 0),
      (''must-revalidate'', cc_bit CC_MUST_REVALIDATE, 0),
      (''proxy-revalidate'', cc_bit CC_PROXY_REVALIDATE, 0),
      (''only-if-cached'', cc_bit CC_ONLY_IF_CACHED, 0),
      (''max-age'', cc_bit CC_MAX_AGE, 0), (''s-maxage'', cc_bit CC_S_MAXAGE, 0),
      (''max-stale'', cc_bit CC_MAX_STALE, 0),
      (''stale-while-revalidate'', cc_bit CC_STALE_WHILE_REVALIDATE, 0),
      (''stale-if-error'', cc_bit CC_STALE_IF_ERROR, 0), (''Other,'', cc_bit CC_OTHER, 0)]"

definition httpHdrCcInitModule :: "field_info list option" where
  "httpHdrCcInitModule = httpHeaderBuildFieldsInfo CcAttrs 14"

text \<open>The names of \<open>CcFieldsInfo\<close> in the order of the enum, as the module builds them.\<close>

definition CcNames :: "string list" where
  "CcNames =
     [''public'', ''private'', ''no-cache'', ''no-store'', ''no-transform'',
      ''must-revalidate'', ''proxy-revalidate'', ''max-age'', ''s-maxage'', ''max-stale'',
      ''only-if-cached'', ''stale-while-revalidate'', ''stale-if-error'', ''Other,'']"

lemma CcNames_built: "map_option (map fi_name) httpHdrCcInitModule = Some CcNames"
  by (simp add: httpHdrCcInitModule_def httpHeaderBuildFieldsInfo_def CcAttrs_def CcNames_def
      arr_get_def numeral_eq_Suc)

subsection \<open>Creation and parsing\<close>

text \<open>
  \<open>cc->max_age = cc->s_maxage = cc->max_stale = cc->stale_if_error - 1\<close> on zeroed memory:
  the last operand is a subtraction, so \<open>stale_if_error\<close> itself stays 0.
\<close>

definition httpHdrCcCreate :: HttpHdrCc where
  "httpHdrCcCreate =
     (let cc = \<lparr>cc_mask = 0, max_age = 0, s_maxage = 0, max_stale = 0,
                stale_while_revalidate = 0, stale_if_error = 0, other = []\<rparr>;
          v = stale_if_error cc - 1
      in cc\<lparr>max_age := v, s_maxage := v, max_stale := v\<rparr>)"

text \<open>Value of the parameter behind \<open>=\<close>; \<open>None\<close> when it is missing or no integer.\<close>

definition cc_value :: "string option \<Rightarrow> int option" where
  "cc_value p =
     (case p of None \<Rightarrow> None
      | Some s \<Rightarrow> (case httpHeaderParseInt s of (ok, v) \<Rightarrow> if ok then Some v else None))"

text \<open>\<open>memchr(item, '=', ilen)\<close>: name length and the text behind the \<open>=\<close>.\<close>

definition cc_split :: "string \<Rightarrow> nat \<Rightarrow> nat \<times> string option" where
  "cc_split item ilen =
     (let n = length (takeWhile (\<lambda>c. c \<noteq> CHR ''='') (take ilen item))
      in if n < length (take ilen item) then (n, Some (drop (n + 1) item)) else (ilen, None))"

definition cc_type_of :: "string \<Rightarrow> nat \<Rightarrow> http_hdr_cc_type" where
  "cc_type_of item nlen =
     (case httpHeaderIdByName item nlen CcNames of None \<Rightarrow> CC_OTHER | Some i \<Rightarrow> cc_enum ! i)"

text \<open>The \<open>switch\<close> on the type, with the mask bit already set in \<open>cc\<close>.\<close>

definition cc_post ::
  "http_hdr_cc_type \<Rightarrow> string option \<Rightarrow> string \<Rightarrow> nat \<Rightarrow> HttpHdrCc \<Rightarrow> HttpHdrCc option" where
  "cc_post t p item ilen cc =
     (let clr = EBIT_CLR (cc_mask cc) (cc_bit t) in
      case t of
        CC_MAX_AGE \<Rightarrow>
          Some (case cc_value p of None \<Rightarrow> cc\<lparr>max_age := - 1, cc_mask := clr\<rparr>
                | Some v \<Rightarrow> cc\<lparr>max_age := v\<rparr>)
      | CC_S_MAXAGE \<Rightarrow>
          Some (case cc_value p of None \<Rightarrow> cc\<lparr>s_maxage := - 1, cc_mask := clr\<rparr>
                | Some v \<Rightarrow> cc\<lparr>s_maxage := v\<rparr>)
      | CC_MAX_STALE \<Rightarrow>
          Some (if p = None then cc\<lparr>max_stale := - 1\<rparr>
                else case cc_value p of None \<Rightarrow> cc\<lparr>max_stale := - 1, cc_mask := clr\<rparr>
                     | Some v \<Rightarrow> cc\<lparr>max_stale := v\<rparr>)
      | CC_STALE_WHILE_REVALIDATE \<Rightarrow>
          Some (case cc_value p of None \<Rightarrow> cc\<lparr>stale_while_revalidate := - 1, cc_mask := clr\<rparr>
                | Some v \<Rightarrow> cc\<lparr>stale_while_revalidate := v\<rparr>)
      | CC_STALE_IF_ERROR \<Rightarrow>
          Some (case cc_value p of None \<Rightarrow> cc\<lparr>stale_if_error := - 1, cc_mask := clr\<rparr>
                | Some v \<Rightarrow> cc\<lparr>stale_if_error := v\<rparr>)
      | CC_OTHER \<Rightarrow> do {
          o1 \<leftarrow> (if other cc \<noteq> [] then stringAppend (other cc) '', '' else Some (other cc));
          o2 \<leftarrow> stringAppend o1 (take ilen item);
          Some (cc\<lparr>other := o2\<rparr>) }
      | _ \<Rightarrow> Some cc)"

text \<open>The body of the loop of \<open>httpHdrCcParseInit\<close> for one item.\<close>

definition cc_directive ::
  "string \<Rightarrow> nat \<Rightarrow> HttpHdrCc \<times> nat list \<Rightarrow> (HttpHdrCc \<times> nat list) option" where
  "cc_directive item ilen st =
     (case st of (cc, rep) \<Rightarrow>
      case cc_split item ilen of (nlen, p) \<Rightarrow>
        let t = cc_type_of item nlen in
        if EBIT_TEST (cc_mask cc) (cc_bit t)
        then Some (cc, rep[cc_bit t := Suc (rep ! cc_bit t)])
        else map_option (\<lambda>c. (c, rep))
               (cc_post t p item ilen (cc\<lparr>cc_mask := EBIT_SET (cc_mask cc) (cc_bit t)\<rparr>)))"

function cc_parse_loop :: "string \<Rightarrow> HttpHdrCc \<times> nat list \<Rightarrow> (HttpHdrCc \<times> nat list) option" where
  "cc_parse_loop pos st =
     (case strListGetItem (CHR '','') pos of
        (found, item, ilen, pos') \<Rightarrow>
          if found
          then (case cc_directive item ilen st of
                  None \<Rightarrow> None | Some st' \<Rightarrow> cc_parse_loop pos' st')
          else Some st)"
  by pat_completeness auto
termination
  by (relation "measure (\<lambda>(pos, st). length pos)") (auto dest!: strListGetItem_progress(1) [OF sym])

declare cc_parse_loop.simps [simp del]

text \<open>Result: whether any directive was found, the header and the duplicate counters.\<close>

definition httpHdrCcParseInit ::
  "HttpHdrCc \<Rightarrow> nat list \<Rightarrow> string \<Rightarrow> (bool \<times> HttpHdrCc \<times> nat list) option" where
  "httpHdrCcParseInit cc rep str =
     map_option (\<lambda>(cc', rep'). (cc_mask cc' \<noteq> 0, cc', rep')) (cc_parse_loop str (cc, rep))"

definition httpHdrCcParseCreate :: "nat list \<Rightarrow> string \<Rightarrow> (HttpHdrCc option \<times> nat list) option" where
  "httpHdrCcParseCreate rep str =
     map_option (\<lambda>(ok, cc, rep'). (if ok then Some cc else None, rep'))
       (httpHdrCcParseInit httpHdrCcCreate rep str)"

subsection \<open>Packing, copying, joining, setting\<close>

definition cc_pack_flag :: "HttpHdrCc \<Rightarrow> http_hdr_cc_type \<Rightarrow> string \<times> nat \<Rightarrow> string \<times> nat" where
  "cc_pack_flag cc flag st =
     (case st of (out, pcount) \<Rightarrow>
        if EBIT_TEST (cc_mask cc) (cc_bit flag) \<and> flag \<noteq> CC_OTHER
        then (out @ (if 0 < pcount then '', '' else []) @ CcNames ! cc_bit flag
                @ (if flag = CC_MAX_AGE then ''='' @ fmt_d (max_age cc) else [])
                @ (if flag = CC_S_MAXAGE then ''='' @ fmt_d (s_maxage cc) else [])
                @ (if flag = CC_MAX_STALE \<and> 0 \<le> max_stale cc
                   then ''='' @ fmt_d (max_stale cc) else [])
                @ (if flag = CC_STALE_WHILE_REVALIDATE
                   then ''='' @ fmt_d (stale_while_revalidate cc) else []),
              pcount + 1)
        else (out, pcount))"

definition httpHdrCcPackInto :: "HttpHdrCc \<Rightarrow> string" where
  "httpHdrCcPackInto cc =
     (case fold (cc_pack_flag cc) cc_enum ([], 0) of
        (out, pcount) \<Rightarrow>
          if other cc \<noteq> [] then out @ (if 0 < pcount then '', '' else []) @ other cc else out)"

definition httpHdrCcDup :: "HttpHdrCc \<Rightarrow> HttpHdrCc" where
  "httpHdrCcDup cc =
     httpHdrCcCreate\<lparr>cc_mask := cc_mask cc, max_age := max_age cc, s_maxage := s_maxage cc,
       max_stale := max_stale cc\<rparr>"

definition httpHdrCcJoinWith :: "HttpHdrCc \<Rightarrow> HttpHdrCc \<Rightarrow> HttpHdrCc" where
  "httpHdrCcJoinWith cc new_cc =
     (let cc = (if max_age cc < 0 then cc\<lparr>max_age := max_age new_cc\<rparr> else cc);
          cc = (if s_maxage cc < 0 then cc\<lparr>s_maxage := s_maxage new_cc\<rparr> else cc);
          cc = (if max_stale cc < 0 then cc\<lparr>max_stale := max_stale new_cc\<rparr> else cc)
      in cc\<lparr>cc_mask := cc_mask cc OR cc_mask new_cc\<rparr>)"

definition httpHdrCcSetMaxAge :: "HttpHdrCc \<Rightarrow> int \<Rightarrow> HttpHdrCc" where
  "httpHdrCcSetMaxAge cc v =
     (let cc = cc\<lparr>max_age := v\<rparr>
      in if 0 \<le> v then cc\<lparr>cc_mask := EBIT_SET (cc_mask cc) (cc_bit CC_MAX_AGE)\<rparr>
         else cc\<lparr>cc_mask := EBIT_CLR (cc_mask cc) (cc_bit CC_MAX_AGE)\<rparr>)"

definition httpHdrCcSetSMaxAge :: "HttpHdrCc \<Rightarrow> int \<Rightarrow> HttpHdrCc" where
  "httpHdrCcSetSMaxAge cc v =
     (let cc = cc\<lparr>s_maxage := v\<rparr>
      in if 0 \<le> v then cc\<lparr>cc_mask := EBIT_SET (cc_mask cc) (cc_bit CC_S_MAXAGE)\<rparr>
         else cc\<lparr>cc_mask := EBIT_CLR (cc_mask cc) (cc_bit CC_S_MAXAGE)\<rparr>)"

subsection \<open>Bits of the mask\<close>

lemma cc_bit_less [simp]: "cc_bit t < 32" "cc_bit t < 14"
  by (cases t; simp)+

lemma cc_bit_inj [simp]: "cc_bit s = cc_bit t \<longleftrightarrow> s = t"
  by (cases s; cases t; simp)

lemma cc_enum_nth [simp]: "cc_enum ! cc_bit t = t"
  by (cases t) (simp_all add: cc_enum_def)

lemma cc_bit_not_ge [simp]: "\<not> 14 \<le> cc_bit t"
  by (simp add: not_le)

lemma cc_bit_ge_neq [simp]: "14 \<le> b \<Longrightarrow> b \<noteq> cc_bit t"
  using cc_bit_less(2) [of t] by auto

declare cc_bit.simps [simp del]

lemma cc_has_SET [simp]:
  "cc_has (cc\<lparr>cc_mask := EBIT_SET (cc_mask cc) (cc_bit t)\<rparr>) s \<longleftrightarrow> s = t \<or> cc_has cc s"
  by (simp add: cc_has_def ebit_simps)

lemma cc_has_CLR [simp]:
  "cc_has (cc\<lparr>cc_mask := EBIT_CLR w (cc_bit t)\<rparr>) s \<longleftrightarrow> s \<noteq> t \<and> EBIT_TEST w (cc_bit s)"
  by (simp add: cc_has_def ebit_simps)

text \<open>The definitions that evaluate a parse of a literal string.\<close>

lemmas cc_eval = cc_parse_loop.simps strListGetItem_def list_item_end.simps list_skip_def
  list_delim_def rtrim_def isspace_def cc_directive_def cc_split_def cc_type_of_def CcNames_def
  strncaseeq_def xtolower_def cc_post_def cc_enum_def stringAppend_def EBIT_SET_def
  EBIT_TEST_def EBIT_CLR_def cc_bit.simps Let_def httpHdrCcCreate_def cc_value_def
  httpHeaderParseInt_def strtol10_def isdigit_def dec_val_def digit_val_def in_int32_def

lemma cc_has_create [simp]: "\<not> cc_has httpHdrCcCreate t"
  by (simp add: cc_has_def httpHdrCcCreate_def Let_def)

subsection \<open>Well-formed headers\<close>

text \<open>
  What the parser establishes: a value field is meaningful exactly when its bit is set,
  values are C ints, \<open>other\<close> is set together with its bit, and only enum bits are used.
\<close>

definition cc_wf :: "HttpHdrCc \<Rightarrow> bool" where
  "cc_wf cc \<longleftrightarrow>
     (\<not> cc_has cc CC_MAX_AGE \<longrightarrow> max_age cc = - 1) \<and>
     (\<not> cc_has cc CC_S_MAXAGE \<longrightarrow> s_maxage cc = - 1) \<and>
     (\<not> cc_has cc CC_MAX_STALE \<longrightarrow> max_stale cc = - 1) \<and>
     (\<not> cc_has cc CC_STALE_WHILE_REVALIDATE \<longrightarrow> stale_while_revalidate cc \<le> 0) \<and>
     (\<not> cc_has cc CC_STALE_IF_ERROR \<longrightarrow> stale_if_error cc \<le> 0) \<and>
     in_int32 (max_age cc) \<and> in_int32 (s_maxage cc) \<and> in_int32 (max_stale cc) \<and>
     in_int32 (stale_while_revalidate cc) \<and> in_int32 (stale_if_error cc) \<and>
     (cc_has cc CC_OTHER \<longleftrightarrow> other cc \<noteq> []) \<and>
     (\<forall>b \<ge> 14. \<not> EBIT_TEST (cc_mask cc) b)"

lemma cc_wf_create: "cc_wf httpHdrCcCreate"
  by (simp add: cc_wf_def in_int32_def) (simp add: httpHdrCcCreate_def Let_def)

lemma cc_value_int32: "cc_value p = Some v \<Longrightarrow> in_int32 v"
  by (auto simp: cc_value_def httpHeaderParseInt_def split: option.splits if_splits)

lemma in_int32_minus_1 [simp]: "in_int32 (- 1)"
  by (simp add: in_int32_def)

lemma cc_wf_plain:
  assumes "cc_wf cc" "t \<notin> {CC_MAX_AGE, CC_S_MAXAGE, CC_MAX_STALE, CC_STALE_WHILE_REVALIDATE,
    CC_STALE_IF_ERROR, CC_OTHER}"
  shows "cc_wf (cc\<lparr>cc_mask := EBIT_SET (cc_mask cc) (cc_bit t)\<rparr>)"
  using assms cc_bit_less [of t] by (auto simp: cc_wf_def cc_has_def ebit_simps)

lemma cc_wf_value:
  assumes "cc_wf cc" "in_int32 v"
  defines "m \<equiv> \<lambda>t. EBIT_SET (cc_mask cc) (cc_bit t)"
  shows "cc_wf (cc\<lparr>cc_mask := m CC_MAX_AGE, max_age := v\<rparr>)"
    "cc_wf (cc\<lparr>cc_mask := m CC_S_MAXAGE, s_maxage := v\<rparr>)"
    "cc_wf (cc\<lparr>cc_mask := m CC_MAX_STALE, max_stale := v\<rparr>)"
    "cc_wf (cc\<lparr>cc_mask := m CC_STALE_WHILE_REVALIDATE, stale_while_revalidate := v\<rparr>)"
    "cc_wf (cc\<lparr>cc_mask := m CC_STALE_IF_ERROR, stale_if_error := v\<rparr>)"
  using assms(1,2) unfolding m_def cc_wf_def cc_has_def by (simp_all add: ebit_simps)

lemma cc_wf_invalid:
  assumes "cc_wf cc"
  defines "m \<equiv> \<lambda>t. EBIT_CLR (EBIT_SET (cc_mask cc) (cc_bit t)) (cc_bit t)"
  shows "cc_wf (cc\<lparr>max_age := - 1, cc_mask := m CC_MAX_AGE\<rparr>)"
    "cc_wf (cc\<lparr>s_maxage := - 1, cc_mask := m CC_S_MAXAGE\<rparr>)"
    "cc_wf (cc\<lparr>max_stale := - 1, cc_mask := m CC_MAX_STALE\<rparr>)"
    "cc_wf (cc\<lparr>stale_while_revalidate := - 1, cc_mask := m CC_STALE_WHILE_REVALIDATE\<rparr>)"
    "cc_wf (cc\<lparr>stale_if_error := - 1, cc_mask := m CC_STALE_IF_ERROR\<rparr>)"
  using assms(1) unfolding m_def cc_wf_def cc_has_def by (simp_all add: ebit_simps)

lemma cc_wf_other:
  assumes "cc_wf cc" "s \<noteq> []"
  shows "cc_wf (cc\<lparr>cc_mask := EBIT_SET (cc_mask cc) (cc_bit CC_OTHER), other := s\<rparr>)"
  using assms unfolding cc_wf_def cc_has_def by (simp add: ebit_simps)

lemma cc_post_wf:
  assumes wf: "cc_wf cc" and len: "0 < ilen" "ilen \<le> length item"
    and r: "cc_post t p item ilen (cc\<lparr>cc_mask := EBIT_SET (cc_mask cc) (cc_bit t)\<rparr>) = Some cc'"
  shows "cc_wf cc'"
proof (cases t)
  case CC_OTHER
  have "take ilen item \<noteq> []" using len by auto
  with r CC_OTHER wf show ?thesis
    by (auto simp: cc_post_def stringAppend_def Option.bind_eq_Some_conv
        intro!: cc_wf_other [simplified] split: if_splits)
next
  case CC_MAX_AGE
  with r wf show ?thesis
    by (auto simp: cc_post_def Let_def cc_wf_invalid(1) cc_value_int32 split: option.splits
        intro!: cc_wf_value(1))
next
  case CC_S_MAXAGE
  with r wf show ?thesis
    by (auto simp: cc_post_def Let_def cc_wf_invalid(2) cc_value_int32 split: option.splits
        intro!: cc_wf_value(2))
next
  case CC_MAX_STALE
  with r wf show ?thesis
    by (auto simp: cc_post_def Let_def cc_wf_invalid(3) cc_value_int32
        split: option.splits if_splits intro!: cc_wf_value(3))
next
  case CC_STALE_WHILE_REVALIDATE
  with r wf show ?thesis
    by (auto simp: cc_post_def Let_def cc_wf_invalid(4) cc_value_int32 split: option.splits
        intro!: cc_wf_value(4))
next
  case CC_STALE_IF_ERROR
  with r wf show ?thesis
    by (auto simp: cc_post_def Let_def cc_wf_invalid(5) cc_value_int32 split: option.splits
        intro!: cc_wf_value(5))
qed (use r cc_wf_plain [OF wf, of t] in \<open>auto simp: cc_post_def Let_def\<close>)

lemma cc_post_total:
  assumes "cc_wf cc" "\<not> cc_has cc t" "ilen < 65535"
  shows "cc_post t p item ilen (cc\<lparr>cc_mask := EBIT_SET (cc_mask cc) (cc_bit t)\<rparr>) \<noteq> None"
proof (cases t)
  case CC_OTHER
  with assms have "other cc = []" by (simp add: cc_wf_def)
  with CC_OTHER assms(3) show ?thesis by (simp add: cc_post_def stringAppend_def)
qed (simp_all add: cc_post_def Let_def)

lemma cc_directive_wf:
  assumes "cc_wf cc" "0 < ilen" "ilen \<le> length item"
    and "cc_directive item ilen (cc, rep) = Some (cc', rep')"
  shows "cc_wf cc'"
  using assms cc_post_wf [OF assms(1) assms(2,3)]
  by (auto simp: cc_directive_def Let_def cc_has_def split: if_splits prod.splits)

lemma cc_directive_total:
  assumes "cc_wf cc" "ilen < 65535"
  shows "cc_directive item ilen (cc, rep) \<noteq> None"
  using cc_post_total [OF assms(1) _ assms(2)]
  by (auto simp: cc_directive_def Let_def cc_has_def split: if_splits prod.splits)

lemma cc_parse_loop_wf:
  assumes "cc_wf cc" "length pos < 65535"
  shows "\<exists>cc' rep'. cc_parse_loop pos (cc, rep) = Some (cc', rep') \<and> cc_wf cc'"
  using assms
proof (induction pos "(cc, rep)" arbitrary: cc rep rule: cc_parse_loop.induct)
  case (1 pos)
  obtain f item ilen pos' where it: "strListGetItem (CHR '','') pos = (f, item, ilen, pos')"
    by (metis prod_cases4)
  show ?case
  proof (cases f)
    case True
    with it have pr: "length pos' < length pos" "ilen \<le> length item" "length item \<le> length pos"
      "0 < ilen" by (auto dest: strListGetItem_progress)
    then have "ilen < 65535" using "1.prems"(2) by simp
    with cc_directive_total [OF "1.prems"(1)] obtain cc1 rep1
      where d: "cc_directive item ilen (cc, rep) = Some (cc1, rep1)" by fastforce
    then have "cc_wf cc1" using cc_directive_wf [OF "1.prems"(1) pr(4,2)] by blast
    moreover have "length pos' < 65535" using pr(1) "1.prems"(2) by simp
    ultimately have "\<exists>cc' rep'. cc_parse_loop pos' (cc1, rep1) = Some (cc', rep') \<and> cc_wf cc'"
      using "1.hyps" [OF it [symmetric] refl refl True d] by blast
    with True it d show ?thesis by (simp add: cc_parse_loop.simps [of pos])
  next
    case False
    with it "1.prems" show ?thesis by (simp add: cc_parse_loop.simps [of pos])
  qed
qed

subsection \<open>The first directive of a kind wins\<close>

text \<open>The part of the header a directive type controls is the same in both.\<close>

definition cc_same :: "http_hdr_cc_type \<Rightarrow> HttpHdrCc \<Rightarrow> HttpHdrCc \<Rightarrow> bool" where
  "cc_same t c d \<longleftrightarrow> cc_has d t \<and>
     (case t of
        CC_MAX_AGE \<Rightarrow> max_age d = max_age c
      | CC_S_MAXAGE \<Rightarrow> s_maxage d = s_maxage c
      | CC_MAX_STALE \<Rightarrow> max_stale d = max_stale c
      | CC_STALE_WHILE_REVALIDATE \<Rightarrow> stale_while_revalidate d = stale_while_revalidate c
      | CC_STALE_IF_ERROR \<Rightarrow> stale_if_error d = stale_if_error c
      | CC_OTHER \<Rightarrow> other d = other c
      | _ \<Rightarrow> True)"

lemma cc_post_frame:
  assumes "cc_post u p item ilen cc = Some cc'"
  shows "u \<noteq> CC_MAX_AGE \<Longrightarrow> max_age cc' = max_age cc"
    "u \<noteq> CC_S_MAXAGE \<Longrightarrow> s_maxage cc' = s_maxage cc"
    "u \<noteq> CC_MAX_STALE \<Longrightarrow> max_stale cc' = max_stale cc"
    "u \<noteq> CC_STALE_WHILE_REVALIDATE \<Longrightarrow> stale_while_revalidate cc' = stale_while_revalidate cc"
    "u \<noteq> CC_STALE_IF_ERROR \<Longrightarrow> stale_if_error cc' = stale_if_error cc"
    "u \<noteq> CC_OTHER \<Longrightarrow> other cc' = other cc"
    "t \<noteq> u \<Longrightarrow> cc_has cc t \<Longrightarrow> cc_has cc' t"
  using assms
  by (auto simp: cc_post_def Let_def cc_has_def ebit_simps Option.bind_eq_Some_conv
      split: http_hdr_cc_type.splits option.splits if_splits)

lemma cc_post_same:
  assumes "cc_has cc t" "\<not> cc_has cc u"
    and r: "cc_post u p item ilen (cc\<lparr>cc_mask := EBIT_SET (cc_mask cc) (cc_bit u)\<rparr>) = Some cc'"
  shows "cc_same t cc cc'"
proof -
  have "t \<noteq> u" using assms by auto
  then show ?thesis
    using cc_post_frame [OF r] assms(1) by (cases t) (simp_all add: cc_same_def)
qed

lemma cc_same_refl: "cc_has cc t \<Longrightarrow> cc_same t cc cc"
  by (simp add: cc_same_def split: http_hdr_cc_type.splits)

lemma cc_directive_same:
  assumes "cc_has cc t" "cc_directive item ilen (cc, rep) = Some (cc', rep')"
  shows "cc_same t cc cc'"
proof -
  obtain nlen p where sp: "cc_split item ilen = (nlen, p)" by fastforce
  let ?u = "cc_type_of item nlen"
  show ?thesis
  proof (cases "cc_has cc ?u")
    case True
    with assms(2) sp have "cc' = cc" by (simp add: cc_directive_def cc_has_def Let_def)
    with assms(1) show ?thesis by (simp add: cc_same_refl)
  next
    case False
    with assms(2) sp
    have "cc_post ?u p item ilen (cc\<lparr>cc_mask := EBIT_SET (cc_mask cc) (cc_bit ?u)\<rparr>) = Some cc'"
      by (auto simp: cc_directive_def cc_has_def Let_def)
    with assms(1) False show ?thesis by (rule cc_post_same)
  qed
qed

lemma cc_same_trans: "cc_same t c d \<Longrightarrow> cc_same t d e \<Longrightarrow> cc_same t c e"
  by (auto simp: cc_same_def split: http_hdr_cc_type.splits)

lemma cc_parse_loop_same:
  assumes "cc_has cc t" "cc_parse_loop pos (cc, rep) = Some (cc', rep')"
  shows "cc_same t cc cc'"
  using assms
proof (induction pos "(cc, rep)" arbitrary: cc rep rule: cc_parse_loop.induct)
  case (1 pos)
  obtain f item ilen pos' where it: "strListGetItem (CHR '','') pos = (f, item, ilen, pos')"
    by (metis prod_cases4)
  show ?case
  proof (cases f)
    case True
    with "1.prems"(2) it obtain cc1 rep1 where d: "cc_directive item ilen (cc, rep) = Some (cc1, rep1)"
      and rest: "cc_parse_loop pos' (cc1, rep1) = Some (cc', rep')"
      by (auto simp: cc_parse_loop.simps [of pos] split: option.splits)
    from "1.prems"(1) d have s: "cc_same t cc cc1" by (rule cc_directive_same)
    then have "cc_has cc1 t" by (simp add: cc_same_def)
    with "1.hyps" [OF it [symmetric] refl refl True d] rest have "cc_same t cc1 cc'" by blast
    with s show ?thesis by (rule cc_same_trans)
  next
    case False
    with it "1.prems" show ?thesis
      by (simp add: cc_parse_loop.simps [of pos] cc_same_refl)
  qed
qed

subsection \<open>Properties\<close>

text \<open>C37: Parsing a Cache-Control value that fits into a Squid string never aborts, and
  the header it builds is well-formed: a directive's value field is set exactly when its
  mask bit is, every value is a C int, and no bit outside the enum is set.\<close>

theorem cc_parse_total_wf:
  assumes "length str < 65535"
  shows "\<exists>ok cc rep'. httpHdrCcParseInit httpHdrCcCreate rep str = Some (ok, cc, rep') \<and>
    cc_wf cc \<and> (ok \<longleftrightarrow> cc_mask cc \<noteq> 0)"
proof -
  obtain cc rep' where "cc_parse_loop str (httpHdrCcCreate, rep) = Some (cc, rep')" "cc_wf cc"
    using cc_parse_loop_wf [OF cc_wf_create assms] by blast
  then show ?thesis by (simp add: httpHdrCcParseInit_def)
qed

theorem cc_parse_total_wf_witness:
  "\<exists>ok cc rep'. httpHdrCcParseInit httpHdrCcCreate (replicate 14 0) ''max-age=60, foo'' = Some (ok, cc, rep')
    \<and> cc_wf cc \<and> (ok \<longleftrightarrow> cc_mask cc \<noteq> 0)"
  by (rule cc_parse_total_wf) simp

text \<open>The first occurrence of a directive wins. Once a directive is in the mask, the
  rest of the header leaves its bit and its value as they are. For unknown directives,
  which share the bit CC_OTHER, this means that only the first of them is kept.\<close>

theorem cc_first_directive_wins:
  assumes "cc_has cc t" "cc_parse_loop pos (cc, rep) = Some (cc', rep')"
  shows "cc_has cc' t \<and> (t = CC_MAX_AGE \<longrightarrow> max_age cc' = max_age cc) \<and>
    (t = CC_S_MAXAGE \<longrightarrow> s_maxage cc' = s_maxage cc) \<and>
    (t = CC_MAX_STALE \<longrightarrow> max_stale cc' = max_stale cc) \<and>
    (t = CC_OTHER \<longrightarrow> other cc' = other cc)"
  using cc_parse_loop_same [OF assms] by (auto simp: cc_same_def)

theorem cc_first_directive_wins_witness:
  "other (httpHdrCcCreate\<lparr>cc_mask := 0x2000, other := ''a''\<rparr>) = ''a'' \<and>
   cc_parse_loop ''bc'' (httpHdrCcCreate\<lparr>cc_mask := 0x2000, other := ''a''\<rparr>, [0, 0, 0, 0, 0, 0, 0, 0, 0, 0, 0, 0, 0, 0])
     = Some (httpHdrCcCreate\<lparr>cc_mask := 0x2000, other := ''a''\<rparr>, [0, 0, 0, 0, 0, 0, 0, 0, 0, 0, 0, 0, 0, 1])"
proof -
  let ?cc = "httpHdrCcCreate\<lparr>cc_mask := 0x2000, other := ''a''\<rparr>"
  have has: "cc_has ?cc CC_OTHER" by (simp add: cc_has_def cc_eval)
  have run: "cc_parse_loop ''bc'' (?cc, [0, 0, 0, 0, 0, 0, 0, 0, 0, 0, 0, 0, 0, 0]) = Some (?cc, [0, 0, 0, 0, 0, 0, 0, 0, 0, 0, 0, 0, 0, 1])"
    by (simp add: cc_eval)
  from cc_first_directive_wins [OF has run] run show ?thesis by simp
qed

end
