(* ===== verification/Stmem.thy ===== *)
theory Stmem
  imports Prelude
begin

section \<open>In-memory object data (stmem.c)\<close>

text \<open>
  The body of a cached object: a chain of pages of at most \<open>SM_PAGE_SIZE\<close> bytes that starts
  at the object offset \<open>origin_offset\<close>. The chain of \<open>mem_node\<close>s is a list, whose first and
  last elements are the source's \<open>head\<close> and \<open>tail\<close>; a node's data are its \<open>len\<close> valid
  bytes. A node that a pending disk write still uses survives \<open>stmemNodeFree\<close> with one
  use less. \<open>store_mem_size\<close>, the accounting of pages, is threaded through.

  The lemmas show that the chain refines a pair of an offset and a byte string: appending
  appends, copying reads a slice, and freeing drops a prefix that ends at or below the
  requested offset, without ever leaving the page discipline.
\<close>

definition SM_PAGE_SIZE :: nat where
  "SM_PAGE_SIZE = 4096"

record mem_node =
  n_data :: "char list"
  n_uses :: nat

record mem_hdr =
  m_nodes :: "mem_node list"
  origin_offset :: int

abbreviation n_len :: "mem_node \<Rightarrow> nat" where
  "n_len p \<equiv> length (n_data p)"

definition mem_hdr_empty :: mem_hdr where
  "mem_hdr_empty = \<lparr>m_nodes = [], origin_offset = 0\<rparr>"

subsection \<open>Operations\<close>

text \<open>The node that remains allocated, if any.\<close>

definition stmemNodeFree :: "mem_node \<Rightarrow> mem_node option" where
  "stmemNodeFree p = (if n_uses p = 0 then None else Some (p\<lparr>n_uses := n_uses p - 1\<rparr>))"

definition stmemNodeGet :: "mem_node \<Rightarrow> char list \<times> mem_node" where
  "stmemNodeGet p = (n_data p, p\<lparr>n_uses := n_uses p + 1\<rparr>)"

fun stmem_free_loop :: "mem_node list \<Rightarrow> int \<Rightarrow> mem_node list \<Rightarrow> int \<times> mem_node list" where
  "stmem_free_loop [] store_mem_size alive = (store_mem_size, alive)"
| "stmem_free_loop (p # ps) store_mem_size alive =
     stmem_free_loop ps (store_mem_size - int SM_PAGE_SIZE)
       (case stmemNodeFree p of None \<Rightarrow> alive | Some p' \<Rightarrow> alive @ [p'])"

text \<open>Result: the header, the page accounting, and the nodes that are still in use elsewhere.\<close>

definition stmemFree :: "mem_hdr \<Rightarrow> int \<Rightarrow> mem_hdr \<times> int \<times> mem_node list" where
  "stmemFree mem store_mem_size =
     (case stmem_free_loop (m_nodes mem) store_mem_size [] of
        (sz, alive) \<Rightarrow> (\<lparr>m_nodes = [], origin_offset = 0\<rparr>, sz, alive))"

text \<open>
  The loop of \<open>stmemFreeDataUpto\<close> over \<open>p\<close>, \<open>current_offset\<close>; a node list with one element
  left is \<open>p == mem->tail\<close>. The result says whether the loop returned from inside.
\<close>

fun free_upto_loop ::
  "mem_node list \<Rightarrow> int \<Rightarrow> int \<Rightarrow> int \<Rightarrow> mem_node list \<Rightarrow> bool \<times> mem_node list \<times> int \<times> int \<times> mem_node list" where
  "free_upto_loop [] cur target sz alive = (False, [], cur, sz, alive)"
| "free_upto_loop (p # ps) cur target sz alive =
     (if cur + int (n_len p) \<le> target
      then if ps = [] then (True, [p], cur, sz, alive)
           else free_upto_loop ps (cur + int (n_len p)) target (sz - int SM_PAGE_SIZE)
                  (case stmemNodeFree p of None \<Rightarrow> alive | Some p' \<Rightarrow> alive @ [p'])
      else (False, p # ps, cur, sz, alive))"

definition stmemFreeDataUpto ::
  "mem_hdr \<Rightarrow> int \<Rightarrow> int \<Rightarrow> (int \<times> mem_hdr \<times> int \<times> mem_node list) option" where
  "stmemFreeDataUpto mem target sz =
     (case free_upto_loop (m_nodes mem) (origin_offset mem) target sz [] of
        (returned, ps, cur, sz', alive) \<Rightarrow>
          let mem' = mem\<lparr>m_nodes := ps, origin_offset := cur\<rparr>
          in if returned then Some (cur, mem', sz', alive)
             else if cur < target then Some (cur, mem', sz', alive)
             else do { c_assert (cur = target); Some (cur, mem', sz', alive) })"

text \<open>The allocation loop of \<open>stmemAppend\<close>: the new nodes, in order.\<close>

function append_pages :: "char list \<Rightarrow> int \<Rightarrow> mem_node list \<times> int" where
  "append_pages data sz =
     (if data = [] then ([], sz)
      else let len_to_copy = min (length data) SM_PAGE_SIZE;
               p = \<lparr>n_data = take len_to_copy data, n_uses = 0\<rparr>;
               (ps, sz') = append_pages (drop len_to_copy data) (sz + int SM_PAGE_SIZE)
           in (p # ps, sz'))"
  by pat_completeness auto
termination by (relation "measure (\<lambda>(data, _). length data)") (auto simp: SM_PAGE_SIZE_def)

declare append_pages.simps [simp del]

definition stmemAppend :: "mem_hdr \<Rightarrow> char list \<Rightarrow> int \<Rightarrow> mem_hdr \<times> int" where
  "stmemAppend mem data sz =
     (let (nodes, data) =
        (if m_nodes mem \<noteq> [] \<and> n_len (last (m_nodes mem)) < SM_PAGE_SIZE
         then let t = last (m_nodes mem); avail_len = SM_PAGE_SIZE - n_len t;
                  len_to_copy = min avail_len (length data)
              in (butlast (m_nodes mem) @ [t\<lparr>n_data := n_data t @ take len_to_copy data\<rparr>],
                  drop len_to_copy data)
         else (m_nodes mem, data));
        (ps, sz') = append_pages data sz
      in (mem\<lparr>m_nodes := nodes @ ps\<rparr>, sz'))"

text \<open>\<open>stmemCopy\<close>: seeking; \<open>None\<close> when the chain ends before the offset.\<close>

fun copy_seek :: "mem_node list \<Rightarrow> int \<Rightarrow> int \<Rightarrow> (mem_node \<times> mem_node list \<times> int) option" where
  "copy_seek [] t_off offset = None"
| "copy_seek (p # ps) t_off offset =
     (if t_off + int (n_len p) < offset then copy_seek ps (t_off + int (n_len p)) offset
      else Some (p, ps, t_off))"

fun copy_rest :: "mem_node list \<Rightarrow> nat \<Rightarrow> char list" where
  "copy_rest [] bytes_to_go = []"
| "copy_rest (p # ps) bytes_to_go =
     (if 0 < bytes_to_go
      then if n_len p < bytes_to_go then n_data p @ copy_rest ps (bytes_to_go - n_len p)
           else take bytes_to_go (n_data p)
      else [])"

text \<open>The bytes copied; the return value of the source is their number.\<close>

definition stmemCopy :: "mem_hdr \<Rightarrow> int \<Rightarrow> nat \<Rightarrow> char list option" where
  "stmemCopy mem offset sz =
     (if m_nodes mem = [] then Some []
      else do {
        c_assert (0 < sz);
        case copy_seek (m_nodes mem) (origin_offset mem) offset of
          None \<Rightarrow> Some []
        | Some (p, ps, t_off) \<Rightarrow> do {
            c_assert (t_off \<le> offset);
            let into = nat (offset - t_off);
            let from = min sz (n_len p - into);
            Some (take from (drop into (n_data p)) @ copy_rest ps (sz - from)) } })"

subsection \<open>The byte string a chain represents\<close>

definition mem_bytes :: "mem_hdr \<Rightarrow> char list" where
  "mem_bytes mem = concat (map n_data (m_nodes mem))"

definition mem_end :: "mem_hdr \<Rightarrow> int" where
  "mem_end mem = origin_offset mem + int (length (mem_bytes mem))"

text \<open>No page is empty or overfull, and only the last may be partly filled.\<close>

definition mem_hdr_wf :: "mem_hdr \<Rightarrow> bool" where
  "mem_hdr_wf mem \<longleftrightarrow>
     (\<forall>p \<in> set (m_nodes mem). 0 < n_len p \<and> n_len p \<le> SM_PAGE_SIZE) \<and>
     (\<forall>p \<in> set (butlast (m_nodes mem)). n_len p = SM_PAGE_SIZE)"

lemma mem_hdr_wf_upd:
  "mem_hdr_wf (mem\<lparr>m_nodes := ns\<rparr>) \<longleftrightarrow>
     (\<forall>p \<in> set ns. 0 < n_len p \<and> n_len p \<le> SM_PAGE_SIZE) \<and> (\<forall>p \<in> set (butlast ns). n_len p = SM_PAGE_SIZE)"
  by (simp add: mem_hdr_wf_def)

lemma append_pages_spec:
  "case append_pages data sz of (ps, sz') \<Rightarrow>
     concat (map n_data ps) = data \<and> sz' = sz + int SM_PAGE_SIZE * int (length ps) \<and>
     (\<forall>p \<in> set ps. 0 < n_len p \<and> n_len p \<le> SM_PAGE_SIZE \<and> n_uses p = 0) \<and>
     (\<forall>p \<in> set (butlast ps). n_len p = SM_PAGE_SIZE)"
proof (induction data sz rule: append_pages.induct)
  case (1 data sz)
  show ?case
  proof (cases "data = []")
    case True
    then show ?thesis by (simp add: append_pages.simps)
  next
    case False
    let ?n = "min (length data) SM_PAGE_SIZE"
    obtain ps sz' where r: "append_pages (drop ?n data) (sz + int SM_PAGE_SIZE) = (ps, sz')"
      by (cases "append_pages (drop ?n data) (sz + int SM_PAGE_SIZE)") auto
    have eq: "append_pages data sz = (\<lparr>n_data = take ?n data, n_uses = 0\<rparr> # ps, sz')"
      using False r by (subst append_pages.simps) (simp add: Let_def)
    have ih: "concat (map n_data ps) = drop ?n data" "sz' = sz + int SM_PAGE_SIZE + int SM_PAGE_SIZE * int (length ps)"
      "\<forall>p \<in> set ps. 0 < n_len p \<and> n_len p \<le> SM_PAGE_SIZE \<and> n_uses p = 0"
      "\<forall>p \<in> set (butlast ps). n_len p = SM_PAGE_SIZE"
      using "1.IH" [OF False refl refl] r by auto
    have full: "?n = SM_PAGE_SIZE" if ne: "ps \<noteq> []"
    proof -
      obtain q qs where "ps = q # qs" using ne by (cases ps) auto
      then have "drop ?n data \<noteq> []" using ih(1,3) by auto
      then show ?thesis by (simp add: min_def split: if_splits)
    qed
    show ?thesis using eq ih False full by (auto simp: algebra_simps SM_PAGE_SIZE_def)
  qed
qed

lemma append_pages_obtain:
  obtains ps where "append_pages data sz = (ps, sz + int SM_PAGE_SIZE * int (length ps))"
    "concat (map n_data ps) = data"
    "\<forall>p \<in> set ps. 0 < n_len p \<and> n_len p \<le> SM_PAGE_SIZE"
    "\<forall>p \<in> set (butlast ps). n_len p = SM_PAGE_SIZE"
  using append_pages_spec [of data sz] by (cases "append_pages data sz") auto

lemma butlast_append_full:
  assumes "\<forall>p \<in> set xs. P p" "\<forall>p \<in> set (butlast ys). P p"
  shows "\<forall>p \<in> set (butlast (xs @ ys)). P p"
  using assms by (auto simp: butlast_append dest: in_set_butlastD)

lemma pages_in_range:
  assumes "\<forall>p \<in> set bs. n_len p = SM_PAGE_SIZE" "0 < n_len t" "n_len t \<le> SM_PAGE_SIZE"
    "\<forall>p \<in> set ps. 0 < n_len p \<and> n_len p \<le> SM_PAGE_SIZE"
  shows "\<forall>p \<in> set ((bs @ [t]) @ ps). 0 < n_len p \<and> n_len p \<le> SM_PAGE_SIZE"
  using assms by (fastforce simp: SM_PAGE_SIZE_def)

lemma stmemAppend_spec:
  assumes wf: "mem_hdr_wf mem"
  shows "case stmemAppend mem data sz of (mem', sz') \<Rightarrow>
    mem_bytes mem' = mem_bytes mem @ data \<and> origin_offset mem' = origin_offset mem \<and> mem_hdr_wf mem' \<and>
    sz' - sz = int SM_PAGE_SIZE * (int (length (m_nodes mem')) - int (length (m_nodes mem)))"
proof (cases "m_nodes mem \<noteq> [] \<and> n_len (last (m_nodes mem)) < SM_PAGE_SIZE")
  case True
  then obtain bs t where n: "m_nodes mem = bs @ [t]" "n_len t < SM_PAGE_SIZE"
    by (metis append_butlast_last_id)
  let ?k = "min (SM_PAGE_SIZE - n_len t) (length data)"
  let ?t = "t\<lparr>n_data := n_data t @ take ?k data\<rparr>"
  obtain ps where ps: "append_pages (drop ?k data) sz = (ps, sz + int SM_PAGE_SIZE * int (length ps))"
    "concat (map n_data ps) = drop ?k data" "\<forall>p \<in> set ps. 0 < n_len p \<and> n_len p \<le> SM_PAGE_SIZE"
    "\<forall>p \<in> set (butlast ps). n_len p = SM_PAGE_SIZE" by (rule append_pages_obtain)
  have app: "stmemAppend mem data sz = (mem\<lparr>m_nodes := (bs @ [?t]) @ ps\<rparr>, sz + int SM_PAGE_SIZE * int (length ps))"
    using n ps(1) by (simp add: stmemAppend_def Let_def)
  have bs: "\<forall>p \<in> set bs. n_len p = SM_PAGE_SIZE" "0 < n_len t"
    using wf n by (auto simp: mem_hdr_wf_def)
  have "n_len ?t = SM_PAGE_SIZE" if ne: "ps \<noteq> []"
  proof -
    obtain q qs where "ps = q # qs" using ne by (cases ps) auto
    then have "drop ?k data \<noteq> []" using ps(2,3) by auto
    then show ?thesis using n(2) by auto
  qed
  note t_full = this
  have full: "\<forall>p \<in> set (butlast ((bs @ [?t]) @ ps)). n_len p = SM_PAGE_SIZE"
  proof (cases "ps = []")
    case True
    then show ?thesis using bs(1) by simp
  next
    case False
    have "\<forall>p \<in> set (bs @ [?t]). n_len p = SM_PAGE_SIZE" using bs(1) t_full [OF False] by auto
    then show ?thesis using ps(4) by (rule butlast_append_full)
  qed
  have "\<forall>p \<in> set ((bs @ [?t]) @ ps). 0 < n_len p \<and> n_len p \<le> SM_PAGE_SIZE"
  proof -
    have "0 < n_len ?t" "n_len ?t \<le> SM_PAGE_SIZE" using bs(2) n(2) by simp_all
    then show ?thesis using pages_in_range bs(1) ps(3) by blast
  qed
  with full have "mem_hdr_wf (mem\<lparr>m_nodes := (bs @ [?t]) @ ps\<rparr>)"
    unfolding mem_hdr_wf_upd by blast
  moreover have "mem_bytes (mem\<lparr>m_nodes := (bs @ [?t]) @ ps\<rparr>) = mem_bytes mem @ data"
    using ps(2) n(1) by (simp add: mem_bytes_def)
  ultimately show ?thesis unfolding app by (simp add: n(1))
next
  case False
  obtain ps where ps: "append_pages data sz = (ps, sz + int SM_PAGE_SIZE * int (length ps))"
    "concat (map n_data ps) = data" "\<forall>p \<in> set ps. 0 < n_len p \<and> n_len p \<le> SM_PAGE_SIZE"
    "\<forall>p \<in> set (butlast ps). n_len p = SM_PAGE_SIZE" by (rule append_pages_obtain)
  have app: "stmemAppend mem data sz = (mem\<lparr>m_nodes := m_nodes mem @ ps\<rparr>, sz + int SM_PAGE_SIZE * int (length ps))"
    using False ps(1) by (auto simp: stmemAppend_def Let_def)
  have "\<forall>p \<in> set (m_nodes mem). n_len p = SM_PAGE_SIZE"
  proof (cases "m_nodes mem" rule: rev_cases)
    case (snoc bs t)
    then have "n_len t = SM_PAGE_SIZE" using False wf by (auto simp: mem_hdr_wf_def)
    then show ?thesis using wf snoc by (auto simp: mem_hdr_wf_def)
  qed simp
  then have "\<forall>p \<in> set (butlast (m_nodes mem @ ps)). n_len p = SM_PAGE_SIZE"
    using butlast_append_full [of "m_nodes mem" "\<lambda>p. n_len p = SM_PAGE_SIZE" ps] ps(4) by blast
  then show ?thesis using app wf ps(2,3) by (auto simp: mem_hdr_wf_def mem_bytes_def)
qed

subsection \<open>Freeing\<close>

lemma free_upto_loop_spec:
  assumes "cur \<le> target" "\<forall>p \<in> set ps. 0 < n_len p"
  shows "case free_upto_loop ps cur target sz alive of (ret, qs, cur', sz', alive') \<Rightarrow>
    \<exists>ds. ps = ds @ qs \<and> cur' = cur + int (length (concat (map n_data ds))) \<and> cur' \<le> target \<and>
      sz' = sz - int SM_PAGE_SIZE * int (length ds) \<and> (ps \<noteq> [] \<longrightarrow> qs \<noteq> []) \<and>
      (ret \<longrightarrow> length qs = 1) \<and>
      (\<not> ret \<longrightarrow> qs \<noteq> [] \<longrightarrow> target < cur' + int (n_len (hd qs)))"
  using assms
proof (induction ps cur target sz alive rule: free_upto_loop.induct)
  case (1 cur target sz alive)
  then show ?case by simp
next
  case (2 p ps cur target sz alive)
  show ?case
  proof (cases "cur + int (n_len p) \<le> target \<and> ps \<noteq> []")
    case True
    let ?a = "case stmemNodeFree p of None \<Rightarrow> alive | Some p' \<Rightarrow> alive @ [p']"
    obtain ret qs cur' sz' alive' where
      r: "free_upto_loop ps (cur + int (n_len p)) target (sz - int SM_PAGE_SIZE) ?a = (ret, qs, cur', sz', alive')"
      by (metis prod_cases5)
    from 2 True r obtain ds where "ps = ds @ qs"
      "cur' = cur + int (n_len p) + int (length (concat (map n_data ds)))" "cur' \<le> target"
      "sz' = sz - int SM_PAGE_SIZE - int SM_PAGE_SIZE * int (length ds)" "qs \<noteq> []"
      "ret \<longrightarrow> length qs = 1" "\<not> ret \<longrightarrow> target < cur' + int (n_len (hd qs))" by auto
    then show ?thesis using True r
      by (intro case_prodI2 exI [of _ "p # ds"]) (auto simp: algebra_simps)
  next
    case False
    then show ?thesis using 2 by (auto intro!: exI [of _ "[]"])
  qed
qed

lemma stmemFreeDataUpto_spec:
  assumes wf: "mem_hdr_wf mem" and t: "origin_offset mem \<le> target"
  shows "\<exists>new mem' sz' alive. stmemFreeDataUpto mem target sz = Some (new, mem', sz', alive) \<and>
    origin_offset mem' = new \<and> origin_offset mem \<le> new \<and> new \<le> target \<and>
    mem_bytes mem' = drop (nat (new - origin_offset mem)) (mem_bytes mem) \<and> mem_end mem' = mem_end mem \<and>
    mem_hdr_wf mem' \<and> (target < mem_end mem \<longrightarrow> target - new < int SM_PAGE_SIZE) \<and>
    sz' - sz = int SM_PAGE_SIZE * (int (length (m_nodes mem')) - int (length (m_nodes mem)))"
proof -
  obtain ret qs cur' sz' alive where
    r: "free_upto_loop (m_nodes mem) (origin_offset mem) target sz [] = (ret, qs, cur', sz', alive)"
    by (metis prod_cases5)
  have "\<forall>p \<in> set (m_nodes mem). 0 < n_len p" using wf by (simp add: mem_hdr_wf_def)
  with free_upto_loop_spec [OF t, of "m_nodes mem" sz "[]"] r obtain ds where
    d: "m_nodes mem = ds @ qs" "cur' = origin_offset mem + int (length (concat (map n_data ds)))"
      "cur' \<le> target" "sz' = sz - int SM_PAGE_SIZE * int (length ds)" "m_nodes mem \<noteq> [] \<longrightarrow> qs \<noteq> []"
      "ret \<longrightarrow> length qs = 1" "\<not> ret \<longrightarrow> qs \<noteq> [] \<longrightarrow> target < cur' + int (n_len (hd qs))"
    by auto
  let ?mem = "mem\<lparr>m_nodes := qs, origin_offset := cur'\<rparr>"
  have "cur' = target \<or> ret \<or> cur' < target" using d(3) by auto
  then have "stmemFreeDataUpto mem target sz = Some (cur', ?mem, sz', alive)"
    using r d(3) by (auto simp: stmemFreeDataUpto_def Let_def)
  moreover have "mem_bytes ?mem = drop (nat (cur' - origin_offset mem)) (mem_bytes mem)"
    using d(1,2) by (simp add: mem_bytes_def)
  moreover have "mem_end ?mem = mem_end mem" using d(1,2) by (simp add: mem_end_def mem_bytes_def)
  moreover have "mem_hdr_wf ?mem" using wf d(1) by (auto simp: mem_hdr_wf_def butlast_append split: if_splits)
  moreover have "target - cur' < int SM_PAGE_SIZE" if tgt: "target < mem_end mem"
  proof -
    obtain q qs' where q: "qs = q # qs'"
      using tgt d(1,3,5) t by (cases qs) (auto simp: mem_end_def mem_bytes_def)
    have "n_len q \<le> SM_PAGE_SIZE" using wf d(1) q by (auto simp: mem_hdr_wf_def)
    moreover have "target < cur' + int (n_len q)"
      using d(6,7) q that d(1,2) by (cases ret) (auto simp: mem_end_def mem_bytes_def)
    ultimately show ?thesis by linarith
  qed
  ultimately show ?thesis using d(1-4) by (auto simp: algebra_simps)
qed

subsection \<open>Copying\<close>

lemma copy_rest_take: "copy_rest ps n = take n (concat (map n_data ps))"
proof (induction ps arbitrary: n)
  case Nil
  then show ?case by simp
next
  case (Cons p ps)
  then show ?case by (cases "n_len p < n") auto
qed

lemma copy_seek_spec:
  assumes "t_off \<le> offset"
  shows "case copy_seek ps t_off offset of
      None \<Rightarrow> t_off + int (length (concat (map n_data ps))) < offset \<or> ps = []
    | Some (p, qs, t') \<Rightarrow> \<exists>ds. ps = ds @ p # qs \<and> t' = t_off + int (length (concat (map n_data ds))) \<and>
        t' \<le> offset \<and> offset \<le> t' + int (n_len p)"
  using assms
proof (induction ps t_off offset rule: copy_seek.induct)
  case (1 t_off offset)
  then show ?case by simp
next
  case (2 p ps t_off offset)
  show ?case
  proof (cases "t_off + int (n_len p) < offset")
    case True
    note ih = "2.IH" [OF True]
    show ?thesis
    proof (cases "copy_seek ps (t_off + int (n_len p)) offset")
      case None
      then show ?thesis using ih True by (auto simp: algebra_simps)
    next
      case (Some r)
      obtain q qs t' where r: "r = (q, qs, t')" by (cases r) auto
      from ih Some r True obtain ds where "ps = ds @ q # qs"
        "t' = t_off + int (n_len p) + int (length (concat (map n_data ds)))" "t' \<le> offset"
        "offset \<le> t' + int (n_len q)" by auto
      then show ?thesis using True Some r by (auto intro!: exI [of _ "p # ds"])
    qed
  next
    case False
    then show ?thesis using 2 by (auto intro!: exI [of _ "[]"])
  qed
qed

lemma stmemCopy_spec:
  assumes "0 < n" "origin_offset mem \<le> offset"
  shows "stmemCopy mem offset n = Some (take n (drop (nat (offset - origin_offset mem)) (mem_bytes mem)))"
proof (cases "m_nodes mem = []")
  case True
  then show ?thesis by (simp add: stmemCopy_def mem_bytes_def)
next
  case False
  let ?o = "origin_offset mem"
  note sk = copy_seek_spec [OF assms(2), of "m_nodes mem"]
  show ?thesis
  proof (cases "copy_seek (m_nodes mem) ?o offset")
    case None
    then have "?o + int (length (mem_bytes mem)) < offset" using sk False by (simp add: mem_bytes_def)
    then have "length (mem_bytes mem) \<le> nat (offset - ?o)" by linarith
    then show ?thesis using None False assms(1) by (simp add: stmemCopy_def)
  next
    case (Some r)
    obtain p qs t' where r: "r = (p, qs, t')" by (cases r) auto
    from sk Some r obtain ds where d: "m_nodes mem = ds @ p # qs"
      "t' = ?o + int (length (concat (map n_data ds)))" "t' \<le> offset" "offset \<le> t' + int (n_len p)" by auto
    define into where "into = nat (offset - t')"
    have off: "nat (offset - ?o) = length (concat (map n_data ds)) + into"
      using d(2,3) by (simp add: into_def)
    have into: "into \<le> n_len p" using d(3,4) by (simp add: into_def)
    have "stmemCopy mem offset n = Some (take (min n (n_len p - into)) (drop into (n_data p))
        @ take (n - min n (n_len p - into)) (concat (map n_data qs)))"
      using Some r False assms(1) d(3) by (simp add: stmemCopy_def into_def copy_rest_take Let_def)
    also have "take (min n (n_len p - into)) (drop into (n_data p)) = take n (drop into (n_data p))"
      by (simp add: min_def)
    finally show ?thesis using off into d(1)
      by (simp add: mem_bytes_def min_def)
  qed
qed

subsection \<open>The contract of the object data\<close>

text \<open>
  What the store relies on. The data of an object are the bytes from \<open>lo\<close> on; readers
  address them by object offset.
\<close>

locale object_data =
  fixes wf :: "'s \<Rightarrow> bool" and bytes :: "'s \<Rightarrow> char list" and lo :: "'s \<Rightarrow> int"
    and append_data :: "'s \<Rightarrow> char list \<Rightarrow> 's"
    and copy_data :: "'s \<Rightarrow> int \<Rightarrow> nat \<Rightarrow> char list option"
    and free_upto :: "'s \<Rightarrow> int \<Rightarrow> 's option"
  assumes append_law: "wf s \<Longrightarrow> wf (append_data s d) \<and> lo (append_data s d) = lo s \<and>
      bytes (append_data s d) = bytes s @ d"
    and copy_law: "wf s \<Longrightarrow> 0 < n \<Longrightarrow> lo s \<le> off \<Longrightarrow>
      copy_data s off n = Some (take n (drop (nat (off - lo s)) (bytes s)))"
    and free_law: "wf s \<Longrightarrow> lo s \<le> t \<Longrightarrow> \<exists>s'. free_upto s t = Some s' \<and> wf s' \<and> lo s \<le> lo s' \<and>
      lo s' \<le> t \<and> bytes s' = drop (nat (lo s' - lo s)) (bytes s)"
begin

text \<open>Appended data are read back at the end of the object.\<close>

lemma append_copy:
  assumes "wf s" "d \<noteq> []"
  shows "copy_data (append_data s d) (lo s + int (length (bytes s))) (length d) = Some d"
  using copy_law [of "append_data s d" "length d" "lo s + int (length (bytes s))"] append_law assms
  by simp

text \<open>Freeing up to an offset does not change what is read from there on.\<close>

lemma free_copy:
  assumes "wf s" "lo s \<le> t" "t \<le> off" "0 < n"
  shows "\<exists>s'. free_upto s t = Some s' \<and> copy_data s' off n = copy_data s off n"
proof -
  obtain s' where s': "free_upto s t = Some s'" "wf s'" "lo s \<le> lo s'" "lo s' \<le> t"
    "bytes s' = drop (nat (lo s' - lo s)) (bytes s)" using free_law [OF assms(1,2)] by blast
  have "nat (off - lo s') + nat (lo s' - lo s) = nat (off - lo s)" using s'(3,4) assms(3) by simp
  then show ?thesis
    using s' copy_law [of s' n off] copy_law [of s n off] assms by (auto simp: add.commute)
qed

end

definition mem_append :: "mem_hdr \<Rightarrow> char list \<Rightarrow> mem_hdr" where
  "mem_append mem data = fst (stmemAppend mem data 0)"

definition mem_free_upto :: "mem_hdr \<Rightarrow> int \<Rightarrow> mem_hdr option" where
  "mem_free_upto mem t = map_option (\<lambda>(_, mem', _). mem') (stmemFreeDataUpto mem t 0)"

interpretation stmem: object_data mem_hdr_wf mem_bytes origin_offset mem_append stmemCopy mem_free_upto
proof unfold_locales
  show "mem_hdr_wf (mem_append s d) \<and> origin_offset (mem_append s d) = origin_offset s \<and>
    mem_bytes (mem_append s d) = mem_bytes s @ d" if "mem_hdr_wf s" for s d
    using stmemAppend_spec [OF that, of d 0] by (auto simp: mem_append_def split: prod.splits)
  show "stmemCopy s off n = Some (take n (drop (nat (off - origin_offset s)) (mem_bytes s)))"
    if "mem_hdr_wf s" "0 < n" "origin_offset s \<le> off" for s n off
    using that(2,3) by (rule stmemCopy_spec)
  show "\<exists>s'. mem_free_upto s t = Some s' \<and> mem_hdr_wf s' \<and> origin_offset s \<le> origin_offset s' \<and>
      origin_offset s' \<le> t \<and> mem_bytes s' = drop (nat (origin_offset s' - origin_offset s)) (mem_bytes s)"
    if "mem_hdr_wf s" "origin_offset s \<le> t" for s t
    using stmemFreeDataUpto_spec [OF that, of 0] by (auto simp: mem_free_upto_def)
qed

subsection \<open>Properties\<close>

text \<open>C5: The chain of pages refines a byte string. Appending to a well-formed chain keeps
  it well-formed (only the last page partly filled, none empty), adds exactly the data at
  its end, and accounts for every new page; and a copy of a positive number of bytes from any offset at or
  above the start of the chain reads exactly the bytes there, of the old ones and of the new.\<close>

theorem stmemAppend_correct:
  assumes "mem_hdr_wf mem"
  shows "\<exists>mem' sz'. stmemAppend mem data sz = (mem', sz') \<and> mem_hdr_wf mem' \<and>
    mem_bytes mem' = mem_bytes mem @ data \<and> origin_offset mem' = origin_offset mem \<and>
    sz' - sz = int SM_PAGE_SIZE * (int (length (m_nodes mem')) - int (length (m_nodes mem))) \<and>
    (\<forall>off n. origin_offset mem \<le> off \<and> 0 < n \<longrightarrow>
       stmemCopy mem' off n = Some (take n (drop (nat (off - origin_offset mem)) (mem_bytes mem @ data))))"
proof -
  obtain mem' sz' where m: "stmemAppend mem data sz = (mem', sz')" by (cases "stmemAppend mem data sz") auto
  note spec = stmemAppend_spec [OF assms, of data sz, unfolded m split]
  have "stmemCopy mem' off n = Some (take n (drop (nat (off - origin_offset mem)) (mem_bytes mem @ data)))"
    if "origin_offset mem \<le> off" "0 < n" for off n
    using that spec stmem.copy_law [of mem' n off] by simp
  with m spec show ?thesis by blast
qed

theorem stmemAppend_correct_witness:
  "mem_hdr_wf mem_hdr_empty \<and> (\<exists>mem' sz'. stmemAppend mem_hdr_empty ''abc'' 0 = (mem', sz') \<and>
     mem_bytes mem' = ''abc'' \<and> stmemCopy mem' 1 2 = Some ''bc'')"
proof -
  have w: "mem_hdr_wf mem_hdr_empty" "mem_bytes mem_hdr_empty = []" "origin_offset mem_hdr_empty = 0"
    by (simp_all add: mem_hdr_empty_def mem_hdr_wf_def mem_bytes_def)
  from stmemAppend_correct [OF w(1), of "''abc''" 0] obtain mem' sz' where
    m: "stmemAppend mem_hdr_empty ''abc'' 0 = (mem', sz')" "mem_bytes mem' = ''abc''"
      "\<forall>off n. 0 \<le> off \<and> 0 < n \<longrightarrow> stmemCopy mem' off n = Some (take n (drop (nat (off - 0)) ''abc''))"
    unfolding w by auto
  from m(3) [rule_format, of 1 2] have "stmemCopy mem' 1 2 = Some ''bc''" by simp
  with w(1) m(1,2) show ?thesis by blast
qed

text \<open>Freeing data up to an offset at or above the start of the chain never trips its
  assertion, frees only whole pages below the offset, keeps the end of the object where it
  was, leaves less than one page below the offset unless all data lie below it, and does
  not change what any copy at or above the offset reads.\<close>

theorem stmemFreeDataUpto_correct:
  assumes "mem_hdr_wf mem" "origin_offset mem \<le> target"
  shows "\<exists>new mem' sz' alive. stmemFreeDataUpto mem target sz = Some (new, mem', sz', alive) \<and>
    mem_hdr_wf mem' \<and> origin_offset mem' = new \<and> new \<le> target \<and> mem_end mem' = mem_end mem \<and>
    (target < mem_end mem \<longrightarrow> target - new < int SM_PAGE_SIZE) \<and>
    sz' - sz = int SM_PAGE_SIZE * (int (length (m_nodes mem')) - int (length (m_nodes mem))) \<and>
    (\<forall>off n. target \<le> off \<longrightarrow> 0 < n \<longrightarrow> stmemCopy mem' off n = stmemCopy mem off n)"
proof -
  obtain new mem' sz' alive where f: "stmemFreeDataUpto mem target sz = Some (new, mem', sz', alive)"
    "origin_offset mem' = new" "origin_offset mem \<le> new" "new \<le> target"
    "mem_bytes mem' = drop (nat (new - origin_offset mem)) (mem_bytes mem)" "mem_end mem' = mem_end mem"
    "mem_hdr_wf mem'" "target < mem_end mem \<longrightarrow> target - new < int SM_PAGE_SIZE"
    "sz' - sz = int SM_PAGE_SIZE * (int (length (m_nodes mem')) - int (length (m_nodes mem)))"
    using stmemFreeDataUpto_spec [OF assms, of sz] by blast
  have "stmemCopy mem' off n = stmemCopy mem off n" if "target \<le> off" "0 < n" for off n
  proof -
    have "nat (off - new) + nat (new - origin_offset mem) = nat (off - origin_offset mem)"
      using f(3,4) that(1) by simp
    then show ?thesis
      using stmemCopy_spec [of n mem' off] stmemCopy_spec [of n mem off] f(2-5) that assms(2)
      by (simp add: add.commute)
  qed
  with f show ?thesis by blast
qed

theorem stmemFreeDataUpto_correct_witness:
  "\<exists>new mem' sz' alive. stmemFreeDataUpto \<lparr>m_nodes = [\<lparr>n_data = ''abcd'', n_uses = 0\<rparr>], origin_offset = 0\<rparr> 2 4096
     = Some (new, mem', sz', alive) \<and> mem_hdr_wf mem' \<and> new \<le> 2"
  using stmemFreeDataUpto_correct [of "\<lparr>m_nodes = [\<lparr>n_data = ''abcd'', n_uses = 0\<rparr>], origin_offset = 0\<rparr>" 2 4096]
  by (auto simp: mem_hdr_wf_def SM_PAGE_SIZE_def)

end
