(* ===== verification/StoreTypes.thy ===== *)
theory StoreTypes
  imports HttpHdrCc Stmem
begin

section \<open>Requests, replies and store entries (structs.h, url.c)\<close>

text \<open>
  The records shared by the cache components, with the fields of the C structs that the
  modelled code reads or writes, and the canonical URL of a request. A pointer to an owned
  object that may be \<open>NULL\<close> is an \<open>option\<close>.
\<close>

subsection \<open>Protocols and methods\<close>

datatype protocol_t =
    PROTO_NONE | PROTO_HTTP | PROTO_FTP | PROTO_GOPHER | PROTO_WAIS | PROTO_CACHEOBJ
  | PROTO_ICP | PROTO_URN | PROTO_WHOIS | PROTO_INTERNAL | PROTO_HTTPS

primrec ProtocolStr :: "protocol_t \<Rightarrow> string" where
  "ProtocolStr PROTO_NONE = ''NONE''"
| "ProtocolStr PROTO_HTTP = ''http''"
| "ProtocolStr PROTO_FTP = ''ftp''"
| "ProtocolStr PROTO_GOPHER = ''gopher''"
| "ProtocolStr PROTO_WAIS = ''wais''"
| "ProtocolStr PROTO_CACHEOBJ = ''cache_object''"
| "ProtocolStr PROTO_ICP = ''icp''"
| "ProtocolStr PROTO_URN = ''urn''"
| "ProtocolStr PROTO_WHOIS = ''whois''"
| "ProtocolStr PROTO_INTERNAL = ''internal''"
| "ProtocolStr PROTO_HTTPS = ''https''"

text \<open>Request methods are the numbers of the enum; extension methods take the higher ones.\<close>

type_synonym method_t = nat

definition METHOD_NONE :: method_t where [simp]: "METHOD_NONE = 0"
definition METHOD_GET :: method_t where [simp]: "METHOD_GET = 1"
definition METHOD_HEAD :: method_t where [simp]: "METHOD_HEAD = 4"
definition METHOD_CONNECT :: method_t where [simp]: "METHOD_CONNECT = 5"

subsection \<open>Requests\<close>

record VaryData =
  vary_key :: "string option"

record request_t =
  r_method :: method_t
  r_protocol :: protocol_t
  r_login :: string
  r_host :: string
  r_port :: int
  r_urlpath :: string
  r_canonical :: "string option"
  r_store_url :: "string option"
  r_cache_control :: "HttpHdrCc option"
  r_nocache :: bool
  r_nocache_hack :: bool
  r_cachable :: bool
  r_vary_headers :: "string option"
  r_vary_encoding :: "string option"
  r_vary :: "VaryData option"
  r_urlgroup :: "string option"

fun urlDefaultPort :: "protocol_t \<Rightarrow> int" where
  "urlDefaultPort PROTO_HTTP = 80"
| "urlDefaultPort PROTO_HTTPS = 443"
| "urlDefaultPort PROTO_FTP = 21"
| "urlDefaultPort PROTO_GOPHER = 70"
| "urlDefaultPort PROTO_WAIS = 210"
| "urlDefaultPort PROTO_CACHEOBJ = 3128"
| "urlDefaultPort PROTO_INTERNAL = 3128"
| "urlDefaultPort PROTO_WHOIS = 43"
| "urlDefaultPort _ = 0"

text \<open>\<open>snprintf(buf, n, ...)\<close> keeps at most \<open>n - 1\<close> characters.\<close>

definition MAX_URL :: nat where
  "MAX_URL = 8192"

definition url_text :: "request_t \<Rightarrow> string" where
  "url_text r =
     (if r_protocol r = PROTO_URN then ''urn:'' @ r_urlpath r
      else if r_method r = METHOD_CONNECT then r_host r @ '':'' @ fmt_d (r_port r)
      else ProtocolStr (r_protocol r) @ ''://'' @ r_login r
             @ (if r_login r \<noteq> [] then ''@'' else []) @ r_host r
             @ (if r_port r \<noteq> urlDefaultPort (r_protocol r)
                then take 31 ('':'' @ fmt_d (r_port r)) else [])
             @ r_urlpath r)"

text \<open>\<open>urlCanonical\<close>: the text and the request with the text cached in it.\<close>

definition urlCanonical :: "request_t \<Rightarrow> string \<times> request_t" where
  "urlCanonical r =
     (case r_canonical r of
        Some u \<Rightarrow> (u, r)
      | None \<Rightarrow> let u = take (MAX_URL - 1) (url_text r) in (u, r\<lparr>r_canonical := Some u\<rparr>))"

subsection \<open>Replies\<close>

record HttpReply =
  rep_content_length :: int
  rep_version_major :: int
  rep_status :: int
  rep_cache_control :: "HttpHdrCc option"
  rep_has_etag :: bool
  rep_hdr_sz :: int
  rep_parsed :: bool
  rep_date :: int
  rep_expires :: int
  rep_last_modified :: int
  rep_age :: int

definition httpReplyBodySize :: "method_t \<Rightarrow> HttpReply \<Rightarrow> int" where
  "httpReplyBodySize m rep =
     (if rep_version_major rep < 1 then - 1
      else if m = METHOD_HEAD then 0
      else if rep_status rep = 200 then rep_content_length rep
      else if rep_status rep = 204 then 0
      else if rep_status rep = 304 then 0
      else if rep_status rep < 200 then 0
      else rep_content_length rep)"

subsection \<open>Store entries\<close>

text \<open>Bits of \<open>flags\<close> (enums.h).\<close>

definition ENTRY_SPECIAL :: nat where [simp]: "ENTRY_SPECIAL = 0"
definition ENTRY_REVALIDATE :: nat where [simp]: "ENTRY_REVALIDATE = 1"
definition DELAY_SENDING :: nat where [simp]: "DELAY_SENDING = 2"
definition RELEASE_REQUEST :: nat where [simp]: "RELEASE_REQUEST = 3"
definition REFRESH_FAILURE :: nat where [simp]: "REFRESH_FAILURE = 4"
definition ENTRY_CACHABLE :: nat where [simp]: "ENTRY_CACHABLE = 5"
definition ENTRY_DISPATCHED :: nat where [simp]: "ENTRY_DISPATCHED = 6"
definition KEY_PRIVATE :: nat where [simp]: "KEY_PRIVATE = 7"
definition ENTRY_FWD_HDR_WAIT :: nat where [simp]: "ENTRY_FWD_HDR_WAIT = 8"
definition ENTRY_NEGCACHED :: nat where [simp]: "ENTRY_NEGCACHED = 9"
definition ENTRY_VALIDATED :: nat where [simp]: "ENTRY_VALIDATED = 10"
definition ENTRY_BAD_LENGTH :: nat where [simp]: "ENTRY_BAD_LENGTH = 11"
definition ENTRY_ABORTED :: nat where [simp]: "ENTRY_ABORTED = 12"
definition ENTRY_DEFER_READ :: nat where [simp]: "ENTRY_DEFER_READ = 13"
definition KEY_EARLY_PUBLIC :: nat where [simp]: "KEY_EARLY_PUBLIC = 14"

datatype mem_status_t = NOT_IN_MEMORY | IN_MEMORY
datatype store_status_t = STORE_OK | STORE_PENDING
datatype swap_status_t = SWAPOUT_NONE | SWAPOUT_WRITING | SWAPOUT_DONE

type_synonym cache_key = "8 word list"

text \<open>An open swap-out: the file assigned to it and \<open>storeOffset\<close>, the bytes written.\<close>

record storeIOState =
  sio_swap_dirn :: int
  sio_swap_filen :: int
  sio_offset :: int

datatype store_client_t = STORE_NON_CLIENT | STORE_MEM_CLIENT | STORE_DISK_CLIENT

record store_client =
  sc_type :: store_client_t
  sc_copy_offset :: int
  sc_seen_offset :: int
  sc_copy_size :: nat
  sc_copy_buf :: "8 word list option"
  sc_callback :: bool
  sc_swapin_sio :: "storeIOState option"
  sc_disk_io_pending :: bool
  sc_store_copying :: bool
  sc_copy_event_pending :: bool

text \<open>The last page that was swapped out, \<open>swapout.memnode\<close>, is named by the object offset of its first byte. Pages of
  a chain are not empty, so that the offset determines the page. \<open>abort\<close> is the server's callback with its data.\<close>

record MemObject =
  mem_method :: method_t
  mem_url :: string
  mem_store_url :: "string option"
  mem_data_hdr :: mem_hdr
  mem_inmem_hi :: int
  mem_inmem_lo :: int
  mem_serverfd :: int
  mem_clients :: "store_client list"
  mem_nclients :: int
  mem_queue_offset :: int
  mem_memnode :: "int option"
  mem_sio :: "storeIOState option"
  mem_reply :: HttpReply
  mem_request :: "request_t option"
  mem_repl :: "addr option"
  mem_id :: int
  mem_object_sz :: int
  mem_swap_hdr_sz :: int
  mem_vary_headers :: "string option"
  mem_ims_entry :: "addr option"
  mem_old_entry :: "addr option"
  mem_refresh_timestamp :: int
  mem_stale_while_revalidate :: int
  mem_abort :: "(addr \<times> addr option) option"

text \<open>The key is in the hash link, the first member of the C struct, at the same address.\<close>

record StoreEntry =
  e_mem_obj :: "MemObject option"
  e_repl :: "addr option"
  e_timestamp :: int
  e_lastref :: int
  e_expires :: int
  e_lastmod :: int
  e_swap_file_sz :: int
  e_refcount :: nat
  e_flags :: "16 word"
  e_swap_filen :: int
  e_swap_dirn :: int
  e_lock_count :: "16 word"
  e_mem_status :: mem_status_t
  e_store_status :: store_status_t
  e_swap_status :: swap_status_t

text \<open>\<open>storeEntryLocked\<close> and \<open>storeUrl\<close> (store.c).\<close>

definition storeEntryLocked :: "StoreEntry \<Rightarrow> bool" where
  "storeEntryLocked e \<longleftrightarrow>
     (if e_lock_count e \<noteq> 0 then True
      else if e_swap_status e = SWAPOUT_WRITING then True
      else if e_store_status e = STORE_PENDING then True
      else if EBIT_TEST (e_flags e) ENTRY_SPECIAL \<and> \<not> EBIT_TEST (e_flags e) KEY_PRIVATE then True
      else False)"

definition storeUrl :: "StoreEntry option \<Rightarrow> string" where
  "storeUrl e =
     (case e of None \<Rightarrow> ''[null_entry]''
      | Some e' \<Rightarrow> (case e_mem_obj e' of None \<Rightarrow> ''[null_mem_obj]'' | Some m \<Rightarrow> mem_url m))"

lemma urlCanonical_idem: "fst (urlCanonical (snd (urlCanonical r))) = fst (urlCanonical r)"
  by (auto simp: urlCanonical_def Let_def split: option.splits)

lemma urlCanonical_bounded: "r_canonical r = None \<Longrightarrow> length (fst (urlCanonical r)) < MAX_URL"
  by (simp add: urlCanonical_def Let_def MAX_URL_def min_def)

end
