(* ===== verification/MD5.thy ===== *)
theory MD5
  imports Prelude
begin

section \<open>The MD5 implementation (lib/md5.c)\<close>

text \<open>
  Squid's own MD5, which the configuration of this repository selects (no OpenSSL and no
  system MD5). A context holds the four chaining words, the 64-bit byte count as two
  32-bit words and the 64-byte input block, which the C code addresses both as bytes and
  as sixteen little-endian words (\<open>byteSwap\<close> is empty on little-endian machines).

  The main result is that the streaming interface computes the reference digest: any
  sequence of \<open>SQUID_MD5Update\<close> calls followed by \<open>SQUID_MD5Final\<close> gives the fold of the
  compression function over the padded concatenation of the pieces.
\<close>

unbundle bit_operations_syntax

subsection \<open>Words and bytes\<close>

definition le32 :: "8 word list \<Rightarrow> nat \<Rightarrow> 32 word" where
  "le32 bs i = ucast (bs ! (4 * i)) OR push_bit 8 (ucast (bs ! (4 * i + 1)))
     OR push_bit 16 (ucast (bs ! (4 * i + 2))) OR push_bit 24 (ucast (bs ! (4 * i + 3)))"

definition bytes_of32 :: "32 word \<Rightarrow> 8 word list" where
  "bytes_of32 w = [ucast w, ucast (drop_bit 8 w), ucast (drop_bit 16 w), ucast (drop_bit 24 w)]"

definition md5_words :: "8 word list \<Rightarrow> 32 word list" where
  "md5_words bs = map (le32 bs) [0..<16]"

text \<open>\<open>memcpy(buf + off, src, len)\<close> and \<open>memset(buf + off, 0, n)\<close> inside the block.\<close>

definition memcpy_at :: "8 word list \<Rightarrow> nat \<Rightarrow> 8 word list \<Rightarrow> 8 word list" where
  "memcpy_at b off src = take off b @ src @ drop (off + length src) b"

subsection \<open>The compression function\<close>

definition F1 :: "32 word \<Rightarrow> 32 word \<Rightarrow> 32 word \<Rightarrow> 32 word" where
  "F1 x y z = z XOR (x AND (y XOR z))"

definition F2 :: "32 word \<Rightarrow> 32 word \<Rightarrow> 32 word \<Rightarrow> 32 word" where
  "F2 x y z = F1 z x y"

definition F3 :: "32 word \<Rightarrow> 32 word \<Rightarrow> 32 word \<Rightarrow> 32 word" where
  "F3 x y z = x XOR y XOR z"

definition F4 :: "32 word \<Rightarrow> 32 word \<Rightarrow> 32 word \<Rightarrow> 32 word" where
  "F4 x y z = y XOR (x OR NOT z)"

text \<open>
  \<open>MD5STEP(f, w, x, y, z, in, s)\<close>: the new value of \<open>w\<close>. In the source the register
  names rotate by one from step to step (a b c d, d a b c, c d a b, b c d a); here the
  tuple rotates, so that the first component is always the register the step updates.
\<close>

definition MD5STEP ::
  "(32 word \<Rightarrow> 32 word \<Rightarrow> 32 word \<Rightarrow> 32 word) \<Rightarrow> 32 word \<Rightarrow> 32 word \<Rightarrow> 32 word \<Rightarrow> 32 word
     \<Rightarrow> 32 word \<Rightarrow> nat \<Rightarrow> 32 word" where
  "MD5STEP f w x y z inp s =
     (let w1 = w + (f x y z + inp) in (push_bit s w1 OR drop_bit (32 - s) w1) + x)"

type_synonym md5_regs = "32 word \<times> 32 word \<times> 32 word \<times> 32 word"

definition md5_step ::
  "(32 word \<Rightarrow> 32 word \<Rightarrow> 32 word \<Rightarrow> 32 word) \<Rightarrow> 32 word list
     \<Rightarrow> nat \<times> 32 word \<times> nat \<Rightarrow> md5_regs \<Rightarrow> md5_regs" where
  "md5_step f inp row r =
     (case row of (i, k, s) \<Rightarrow> case r of (w, x, y, z) \<Rightarrow>
        (z, MD5STEP f w x y z (inp ! i + k) s, x, y))"

text \<open>The four rounds: index into \<open>in\<close>, additive constant and rotation of every step.\<close>

definition md5_round_F1 :: "(nat \<times> 32 word \<times> nat) list" where
  "md5_round_F1 =
     [(0, 0xd76aa478, 7), (1, 0xe8c7b756, 12), (2, 0x242070db, 17), (3, 0xc1bdceee, 22),
      (4, 0xf57c0faf, 7), (5, 0x4787c62a, 12), (6, 0xa8304613, 17), (7, 0xfd469501, 22),
      (8, 0x698098d8, 7), (9, 0x8b44f7af, 12), (10, 0xffff5bb1, 17), (11, 0x895cd7be, 22),
      (12, 0x6b901122, 7), (13, 0xfd987193, 12), (14, 0xa679438e, 17), (15, 0x49b40821, 22)]"

definition md5_round_F2 :: "(nat \<times> 32 word \<times> nat) list" where
  "md5_round_F2 =
     [(1, 0xf61e2562, 5), (6, 0xc040b340, 9), (11, 0x265e5a51, 14), (0, 0xe9b6c7aa, 20),
      (5, 0xd62f105d, 5), (10, 0x02441453, 9), (15, 0xd8a1e681, 14), (4, 0xe7d3fbc8, 20),
      (9, 0x21e1cde6, 5), (14, 0xc33707d6, 9), (3, 0xf4d50d87, 14), (8, 0x455a14ed, 20),
      (13, 0xa9e3e905, 5), (2, 0xfcefa3f8, 9), (7, 0x676f02d9, 14), (12, 0x8d2a4c8a, 20)]"

definition md5_round_F3 :: "(nat \<times> 32 word \<times> nat) list" where
  "md5_round_F3 =
     [(5, 0xfffa3942, 4), (8, 0x8771f681, 11), (11, 0x6d9d6122, 16), (14, 0xfde5380c, 23),
      (1, 0xa4beea44, 4), (4, 0x4bdecfa9, 11), (7, 0xf6bb4b60, 16), (10, 0xbebfbc70, 23),
      (13, 0x289b7ec6, 4), (0, 0xeaa127fa, 11), (3, 0xd4ef3085, 16), (6, 0x04881d05, 23),
      (9, 0xd9d4d039, 4), (12, 0xe6db99e5, 11), (15, 0x1fa27cf8, 16), (2, 0xc4ac5665, 23)]"

definition md5_round_F4 :: "(nat \<times> 32 word \<times> nat) list" where
  "md5_round_F4 =
     [(0, 0xf4292244, 6), (7, 0x432aff97, 10), (14, 0xab9423a7, 15), (5, 0xfc93a039, 21),
      (12, 0x655b59c3, 6), (3, 0x8f0ccc92, 10), (10, 0xffeff47d, 15), (1, 0x85845dd1, 21),
      (8, 0x6fa87e4f, 6), (15, 0xfe2ce6e0, 10), (6, 0xa3014314, 15), (13, 0x4e0811a1, 21),
      (4, 0xf7537e82, 6), (11, 0xbd3af235, 10), (2, 0x2ad7d2bb, 15), (9, 0xeb86d391, 21)]"

definition SQUID_MD5Transform :: "md5_regs \<Rightarrow> 32 word list \<Rightarrow> md5_regs" where
  "SQUID_MD5Transform buf inp =
     (case fold (md5_step F4 inp) md5_round_F4
             (fold (md5_step F3 inp) md5_round_F3
               (fold (md5_step F2 inp) md5_round_F2
                 (fold (md5_step F1 inp) md5_round_F1 buf))) of
        (a, b, c, d) \<Rightarrow>
          (case buf of (a0, b0, c0, d0) \<Rightarrow> (a0 + a, b0 + b, c0 + c, d0 + d)))"

subsection \<open>The context and its operations\<close>

record MD5Context =
  md5_buf :: md5_regs
  bytes0 :: "32 word"
  bytes1 :: "32 word"
  inb :: "8 word list"

text \<open>\<open>SQUID_MD5Init\<close> leaves the input block as it finds it (uninitialised stack memory).\<close>

definition SQUID_MD5Init :: "8 word list \<Rightarrow> MD5Context" where
  "SQUID_MD5Init junk =
     \<lparr>md5_buf = (0x67452301, 0xefcdab89, 0x98badcfe, 0x10325476),
      bytes0 = 0, bytes1 = 0, inb = junk\<rparr>"

text \<open>\<open>while (len >= 64)\<close> of \<open>SQUID_MD5Update\<close>.\<close>

function md5_blocks ::
  "md5_regs \<Rightarrow> 8 word list \<Rightarrow> 8 word list \<Rightarrow> md5_regs \<times> 8 word list \<times> 8 word list" where
  "md5_blocks b blk data =
     (if 64 \<le> length data
      then md5_blocks (SQUID_MD5Transform b (md5_words (take 64 data))) (take 64 data)
             (drop 64 data)
      else (b, blk, data))"
  by pat_completeness auto
termination
  by (relation "measure (\<lambda>(b, blk, data). length data)") auto

declare md5_blocks.simps [simp del]

definition SQUID_MD5Update :: "MD5Context \<Rightarrow> 8 word list \<Rightarrow> MD5Context" where
  "SQUID_MD5Update ctx data =
     (let len = length data;
          t = bytes0 ctx;
          ctx = ctx\<lparr>bytes0 := t + of_nat len,
                    bytes1 := (if t + of_nat len < t then bytes1 ctx + 1 else bytes1 ctx)\<rparr>;
          space = 64 - unat (t AND 0x3f)
      in if len < space then ctx\<lparr>inb := memcpy_at (inb ctx) (64 - space) data\<rparr>
         else
           let blk = memcpy_at (inb ctx) (64 - space) (take space data);
               b = SQUID_MD5Transform (md5_buf ctx) (md5_words blk)
           in case md5_blocks b blk (drop space data) of
                (b', blk', rest) \<Rightarrow> ctx\<lparr>md5_buf := b', inb := memcpy_at blk' 0 rest\<rparr>)"

definition SQUID_MD5Final :: "MD5Context \<Rightarrow> 8 word list" where
  "SQUID_MD5Final ctx =
     (let count = unat (bytes0 ctx AND 0x3f);
          blk = memcpy_at (inb ctx) count [0x80];
          (b, blk) =
            (if 55 < count
             then (SQUID_MD5Transform (md5_buf ctx)
                     (md5_words (memcpy_at blk (count + 1) (replicate (63 - count) 0))),
                   memcpy_at (memcpy_at blk (count + 1) (replicate (63 - count) 0)) 0
                     (replicate 56 0))
             else (md5_buf ctx, memcpy_at blk (count + 1) (replicate (55 - count) 0)));
          blk = memcpy_at blk 56
                  (bytes_of32 (push_bit 3 (bytes0 ctx)) @
                   bytes_of32 (push_bit 3 (bytes1 ctx) OR drop_bit 29 (bytes0 ctx)))
      in case SQUID_MD5Transform b (md5_words blk) of
           (a, b, c, d) \<Rightarrow> bytes_of32 a @ bytes_of32 b @ bytes_of32 c @ bytes_of32 d)"

subsection \<open>The reference: padding and chaining\<close>

text \<open>
  The specification the streaming code is compared with: the message is padded with
  \<open>0x80\<close>, zeros and its length in bits (64 bits, low word first), and the compression
  function is folded over the 64-byte blocks.
\<close>

function md5_chain :: "md5_regs \<Rightarrow> 8 word list \<Rightarrow> md5_regs" where
  "md5_chain b m =
     (if 64 \<le> length m
      then md5_chain (SQUID_MD5Transform b (md5_words (take 64 m))) (drop 64 m) else b)"
  by pat_completeness auto
termination
  by (relation "measure (\<lambda>(b, m). length m)") auto

declare md5_chain.simps [simp del]

definition md5_len_field :: "nat \<Rightarrow> 8 word list" where
  "md5_len_field n =
     (let bits = (of_nat (8 * n) :: 64 word)
      in bytes_of32 (ucast bits) @ bytes_of32 (ucast (drop_bit 32 bits)))"

definition md5_pad :: "8 word list \<Rightarrow> 8 word list" where
  "md5_pad m = m @ [0x80] @ replicate ((119 - length m mod 64) mod 64) 0
                 @ md5_len_field (length m)"

definition md5_ref :: "8 word list \<Rightarrow> 8 word list" where
  "md5_ref m =
     (case md5_chain (0x67452301, 0xefcdab89, 0x98badcfe, 0x10325476) (md5_pad m) of
        (a, b, c, d) \<Rightarrow> bytes_of32 a @ bytes_of32 b @ bytes_of32 c @ bytes_of32 d)"

subsection \<open>Chaining\<close>

abbreviation md5_iv :: md5_regs where
  "md5_iv \<equiv> (0x67452301, 0xefcdab89, 0x98badcfe, 0x10325476)"

lemma md5_chain_short: "length m < 64 \<Longrightarrow> md5_chain b m = b"
  by (subst md5_chain.simps) simp

lemma md5_chain_block:
  "length m = 64 \<Longrightarrow> md5_chain b (m @ r) = md5_chain (SQUID_MD5Transform b (md5_words m)) r"
  by (subst md5_chain.simps) simp

lemma md5_chain_append:
  "64 dvd length m \<Longrightarrow> md5_chain b (m @ r) = md5_chain (md5_chain b m) r"
proof (induction b m rule: md5_chain.induct)
  case (1 b m)
  show ?case
  proof (cases "64 \<le> length m")
    case True
    with "1.prems" have dvd: "64 dvd length (drop 64 m)" by (simp add: dvd_diff_nat)
    have "md5_chain b (m @ r)
        = md5_chain (SQUID_MD5Transform b (md5_words (take 64 m))) (drop 64 m @ r)"
      using md5_chain_block [of "take 64 m" b "drop 64 m @ r"] True
      by (simp flip: append_assoc)
    also have "\<dots> = md5_chain (md5_chain b m) r"
      using "1.IH" [OF True dvd] True by (simp add: md5_chain.simps [of b m])
    finally show ?thesis .
  next
    case False
    with "1.prems" have "m = []" by (metis dvd_imp_le length_greater_0_conv)
    then show ?thesis by (simp add: md5_chain_short)
  qed
qed

text \<open>A message is its complete blocks and a tail shorter than a block.\<close>

lemma md5_split:
  obtains q t where "m = q @ t" "64 dvd length q" "length t = length m mod 64"
    "t = drop (64 * (length m div 64)) m"
proof
  let ?n = "64 * (length m div 64)"
  show "m = take ?n m @ drop ?n m" by simp
  have "?n \<le> length m" by simp
  then show "64 dvd length (take ?n m)" by (simp only: length_take min_absorb2 dvd_triv_left)
  show "length (drop ?n m) = length m mod 64" by (simp add: minus_mult_div_eq_mod)
  show "drop ?n m = drop ?n m" by simp
qed

lemma md5_blocks_chain:
  "length blk = 64 \<Longrightarrow> \<exists>blk'. length blk' = 64 \<and>
     md5_blocks b blk d = (md5_chain b d, blk', drop (64 * (length d div 64)) d)"
proof (induction b blk d rule: md5_blocks.induct)
  case (1 b blk d)
  show ?case
  proof (cases "64 \<le> length d")
    case True
    then have "length (take 64 d) = 64" by simp
    with "1.IH" True obtain blk' where "length blk' = 64"
      "md5_blocks (SQUID_MD5Transform b (md5_words (take 64 d))) (take 64 d) (drop 64 d)
       = (md5_chain (SQUID_MD5Transform b (md5_words (take 64 d))) (drop 64 d), blk',
          drop (64 * (length (drop 64 d) div 64)) (drop 64 d))"
      by blast
    moreover have "64 * (length (drop 64 d) div 64) + 64 = 64 * (length d div 64)"
      using True by (simp add: le_div_geq)
    ultimately show ?thesis
      using True
      by (simp add: md5_blocks.simps [of b blk d] md5_chain.simps [of b d] add.commute)
  next
    case False
    with "1.prems" show ?thesis
      by (simp add: md5_blocks.simps [of b blk d] md5_chain_short)
  qed
qed

subsection \<open>The byte counter\<close>

lemma md5_count_mod: "unat ((of_nat n :: 32 word) AND 0x3f) = n mod 64"
proof -
  have "((of_nat n :: 32 word) AND 0x3f) = take_bit 6 (of_nat n)"
    by (simp add: take_bit_eq_mask mask_eq_exp_minus_1)
  then show ?thesis
    by (simp add: unsigned_take_bit_eq take_bit_nat_def unsigned_of_nat mod_mod_cancel)
qed

lemma md5_count_carry:
  assumes "len < 2 ^ 32"
  shows "(of_nat L + of_nat len :: 32 word) < of_nat L \<longleftrightarrow> 2 ^ 32 \<le> L mod 2 ^ 32 + len"
proof -
  have u: "unat (of_nat L + of_nat len :: 32 word) = (L mod 2 ^ 32 + len) mod 2 ^ 32"
    by (simp add: unat_word_ariths unsigned_of_nat take_bit_nat_def mod_simps)
  have v: "unat (of_nat L :: 32 word) = L mod 2 ^ 32"
    by (simp add: unsigned_of_nat take_bit_nat_def)
  show ?thesis
  proof (cases "2 ^ 32 \<le> L mod 2 ^ 32 + len")
    case True
    then have "(L mod 2 ^ 32 + len) mod 2 ^ 32 = L mod 2 ^ 32 + len - 2 ^ 32"
      using assms by (simp add: le_mod_geq)
    with True assms show ?thesis unfolding word_less_nat_alt u v by linarith
  next
    case False
    then show ?thesis unfolding word_less_nat_alt u v by simp
  qed
qed

lemma md5_count_high:
  assumes "len < 2 ^ 32"
  shows "(of_nat ((L + len) div 2 ^ 32) :: 32 word)
    = (if (of_nat L + of_nat len :: 32 word) < of_nat L then of_nat (L div 2 ^ 32) + 1
       else of_nat (L div 2 ^ 32))"
proof -
  have "L + len = L div 2 ^ 32 * 2 ^ 32 + (L mod 2 ^ 32 + len)"
    by (simp only: add.assoc [symmetric] div_mult_mod_eq)
  then have "(L + len) div 2 ^ 32 = L div 2 ^ 32 + (L mod 2 ^ 32 + len) div 2 ^ 32"
    by (metis div_mult_self3 power_not_zero zero_neq_numeral add.commute)
  moreover have "(L mod 2 ^ 32 + len) div 2 ^ 32 = (if 2 ^ 32 \<le> L mod 2 ^ 32 + len then 1 else 0)"
  proof -
    have "L mod 2 ^ 32 < 2 ^ 32" by simp
    with assms have "L mod 2 ^ 32 + len < 2 * 2 ^ 32" by linarith
    then show ?thesis by (simp add: div_nat_eqI)
  qed
  ultimately show ?thesis by (simp add: md5_count_carry [OF assms])
qed

subsection \<open>The streaming invariant\<close>

text \<open>The context has absorbed the message \<open>m\<close>.\<close>

definition md5_absorbed :: "MD5Context \<Rightarrow> 8 word list \<Rightarrow> bool" where
  "md5_absorbed ctx m \<longleftrightarrow>
     md5_buf ctx = md5_chain md5_iv m \<and> length (inb ctx) = 64 \<and>
     take (length m mod 64) (inb ctx) = drop (64 * (length m div 64)) m \<and>
     bytes0 ctx = of_nat (length m) \<and> bytes1 ctx = of_nat (length m div 2 ^ 32)"

lemma md5_absorbed_init: "length junk = 64 \<Longrightarrow> md5_absorbed (SQUID_MD5Init junk) []"
  by (simp add: md5_absorbed_def SQUID_MD5Init_def md5_chain_short)

lemma length_memcpy_at: "off + length d \<le> length b \<Longrightarrow> length (memcpy_at b off d) = length b"
  by (simp add: memcpy_at_def)

lemma take_memcpy_at:
  "off + length d \<le> length b \<Longrightarrow> take (off + length d) (memcpy_at b off d) = take off b @ d"
  by (simp add: memcpy_at_def)

lemma drop_prefix: "length p = n \<Longrightarrow> drop (n + k) (p @ x) = drop k x"
  by simp

lemma md5_absorbed_update:
  assumes inv: "md5_absorbed ctx m" and len: "length d < 2 ^ 32"
  shows "md5_absorbed (SQUID_MD5Update ctx d) (m @ d)"
proof -
  obtain q t where m: "m = q @ t" "64 dvd length q" "length t = length m mod 64"
    "t = drop (64 * (length m div 64)) m" by (rule md5_split)
  let ?r = "length m mod 64"
  have lt: "length t < 64" by (simp add: m(3))
  have "md5_chain md5_iv m = md5_chain md5_iv q"
    unfolding m(1) md5_chain_append [OF m(2)] using lt by (rule md5_chain_short)
  then have b: "md5_buf ctx = md5_chain md5_iv q" and blk: "length (inb ctx) = 64"
    and tl: "take ?r (inb ctx) = t" and c0: "bytes0 ctx = of_nat (length m)"
    and c1: "bytes1 ctx = of_nat (length m div 2 ^ 32)"
    using inv unfolding md5_absorbed_def m(4) [symmetric] by simp_all
  note hi = md5_count_high [OF len, of "length m"]
  show ?thesis
  proof (cases "length d < 64 - ?r")
    case True
    have "length (t @ d) < 64" using True by (simp add: m(3))
    then have ch: "md5_chain md5_iv (m @ d) = md5_chain md5_iv q"
      unfolding arg_cong [OF m(1), of "\<lambda>x. x @ d"] append_assoc md5_chain_append [OF m(2)]
      by (rule md5_chain_short)
    have "length (m @ d) = 64 * (length m div 64) + (?r + length d)" by simp
    moreover have "?r + length d < 64" using True by simp
    ultimately have md: "length (m @ d) mod 64 = ?r + length d"
      "length (m @ d) div 64 = length m div 64" by (metis div_mult_self_is_m mod_mult_self4 mod_less
        div_mult_self4 div_less add.right_neutral zero_neq_numeral)+
    have dr: "drop (64 * (length (m @ d) div 64)) (m @ d) = t @ d"
      unfolding md(2) m(4) by simp
    have "SQUID_MD5Update ctx d
        = ctx\<lparr>bytes0 := of_nat (length (m @ d)), bytes1 := of_nat (length (m @ d) div 2 ^ 32),
              inb := memcpy_at (inb ctx) ?r d\<rparr>"
      using True hi by (simp add: SQUID_MD5Update_def Let_def c0 c1 md5_count_mod)
    then show ?thesis
      unfolding md5_absorbed_def dr md(1)
      using take_memcpy_at [of ?r d "inb ctx"] length_memcpy_at [of ?r d "inb ctx"] True blk
      by (simp add: ch b tl)
  next
    case False
    let ?blk = "memcpy_at (inb ctx) ?r (take (64 - ?r) d)"
    let ?d = "drop (64 - ?r) d"
    have lb: "length ?blk = 64" using False blk by (simp add: length_memcpy_at)
    have eb: "?blk = t @ take (64 - ?r) d"
      using take_memcpy_at [of ?r "take (64 - ?r) d" "inb ctx"] False blk tl lb by simp
    let ?b = "SQUID_MD5Transform (md5_buf ctx) (md5_words ?blk)"
    obtain blk' where lb': "length blk' = 64"
      and bl: "md5_blocks ?b ?blk ?d = (md5_chain ?b ?d, blk', drop (64 * (length ?d div 64)) ?d)"
      using md5_blocks_chain [OF lb] by blast
    have tot: "m @ d = (q @ ?blk) @ ?d" using m(1) eb by simp
    have "64 dvd length (q @ ?blk)" using m(2) lb by simp
    then obtain k where k: "length (q @ ?blk) = 64 * k" by auto
    have ch: "md5_chain md5_iv (m @ d) = md5_chain ?b ?d"
      unfolding tot append_assoc md5_chain_append [OF m(2)] md5_chain_block [OF lb] b by simp
    have ld: "length (m @ d) = 64 * k + length ?d" unfolding tot length_append [of _ ?d] k by simp
    then have md: "length (m @ d) mod 64 = length ?d mod 64"
      "64 * (length (m @ d) div 64) = 64 * k + 64 * (length ?d div 64)" by simp_all
    have rest: "drop (64 * (length (m @ d) div 64)) (m @ d) = drop (64 * (length ?d div 64)) ?d"
      unfolding md(2) unfolding tot using k by (rule drop_prefix)
    have lr: "length (drop (64 * (length ?d div 64)) ?d) = length ?d mod 64"
      by (simp only: length_drop minus_mult_div_eq_mod)
    have "SQUID_MD5Update ctx d
        = ctx\<lparr>bytes0 := of_nat (length (m @ d)), bytes1 := of_nat (length (m @ d) div 2 ^ 32),
              md5_buf := md5_chain ?b ?d, inb := memcpy_at blk' 0 (drop (64 * (length ?d div 64)) ?d)\<rparr>"
      using False hi bl by (simp add: SQUID_MD5Update_def Let_def c0 c1 md5_count_mod)
    then show ?thesis
      unfolding md5_absorbed_def rest md(1)
      using take_memcpy_at [of 0 "drop (64 * (length ?d div 64)) ?d" blk']
        length_memcpy_at [of 0 "drop (64 * (length ?d div 64)) ?d" blk']
      unfolding lr by (simp add: ch lb')
  qed
qed

subsection \<open>Padding\<close>

lemma md5_len_field_words:
  "md5_len_field n =
     bytes_of32 (push_bit 3 (of_nat n)) @
     bytes_of32 (push_bit 3 (of_nat (n div 2 ^ 32)) OR drop_bit 29 (of_nat n))"
proof -
  have e: "8 * n = push_bit 3 n" by (simp add: push_bit_eq_mult)
  have d: "n div 2 ^ 32 = drop_bit 32 n" by (simp add: drop_bit_eq_div)
  have lo: "(ucast (of_nat (8 * n) :: 64 word) :: 32 word) = push_bit 3 (of_nat n)"
    unfolding e by (rule bit_word_eqI) (auto simp: bit_simps)
  have hi: "(ucast (drop_bit 32 (of_nat (8 * n) :: 64 word)) :: 32 word)
      = push_bit 3 (of_nat (n div 2 ^ 32)) OR drop_bit 29 (of_nat n)"
    unfolding e d by (rule bit_word_eqI) (auto simp: bit_simps)
  show ?thesis by (simp only: md5_len_field_def Let_def lo hi)
qed

lemma length_bytes_of32 [simp]: "length (bytes_of32 w) = 4"
  by (simp add: bytes_of32_def)

lemma length_md5_len_field: "length (md5_len_field n) = 8"
  by (simp add: md5_len_field_def Let_def)

text \<open>Writing right behind a known prefix of the block.\<close>

lemma memcpy_at_prefix:
  "take off b = p \<Longrightarrow> off \<le> length b \<Longrightarrow> off + length d \<le> length b \<Longrightarrow>
   take (off + length d) (memcpy_at b off d) = p @ d"
  using take_memcpy_at [of off d b] by blast

lemma md5_final_absorbed:
  assumes inv: "md5_absorbed ctx m"
  shows "SQUID_MD5Final ctx = md5_ref m"
proof -
  obtain q t where m: "m = q @ t" "64 dvd length q" "length t = length m mod 64"
    "t = drop (64 * (length m div 64)) m" by (rule md5_split)
  let ?r = "length m mod 64" and ?len = "md5_len_field (length m)"
  have lt: "length t < 64" by (simp add: m(3))
  have "md5_chain md5_iv m = md5_chain md5_iv q"
    unfolding m(1) md5_chain_append [OF m(2)] using lt by (rule md5_chain_short)
  then have b: "md5_buf ctx = md5_chain md5_iv q" and blk: "length (inb ctx) = 64"
    and tl: "take ?r (inb ctx) = t" and c0: "bytes0 ctx = of_nat (length m)"
    and c1: "bytes1 ctx = of_nat (length m div 2 ^ 32)"
    using inv unfolding md5_absorbed_def m(4) [symmetric] by simp_all
  let ?b1 = "memcpy_at (inb ctx) ?r [0x80]"
  have b1: "take (?r + 1) ?b1 = t @ [0x80]" "length ?b1 = 64"
    using memcpy_at_prefix [OF tl, of "[0x80]"] blk by (simp_all add: length_memcpy_at Suc_leI)
  have pad: "md5_pad m = q @ (t @ [0x80]) @ replicate ((119 - ?r) mod 64) 0 @ ?len"
    unfolding md5_pad_def by (subst (1) m(1)) simp
  have fld: "?len = bytes_of32 (push_bit 3 (bytes0 ctx)) @
      bytes_of32 (push_bit 3 (bytes1 ctx) OR drop_bit 29 (bytes0 ctx))"
    by (simp only: md5_len_field_words c0 c1)
  show ?thesis
  proof (cases "55 < ?r")
    case True
    let ?z = "replicate (63 - ?r) (0 :: 8 word)"
    let ?b2 = "memcpy_at ?b1 (?r + 1) ?z"
    let ?b3 = "memcpy_at ?b2 0 (replicate 56 0)"
    let ?b4 = "memcpy_at ?b3 56 ?len"
    have l2: "length ?b2 = 64" and l3: "length ?b3 = 64" and l4: "length ?b4 = 64"
      using b1(2) True by (simp_all add: length_memcpy_at length_md5_len_field)
    have b2: "?b2 = (t @ [0x80]) @ ?z"
      using memcpy_at_prefix [OF b1(1), of ?z] True b1(2) l2 by simp
    have b4: "?b4 = replicate 56 0 @ ?len"
      using memcpy_at_prefix [of 56 ?b3 "replicate 56 0" ?len]
        take_memcpy_at [of 0 "replicate 56 0" ?b2] l2 l3 l4
      by (simp add: length_md5_len_field)
    have z: "(119 - ?r) mod 64 = (63 - ?r) + 56" using True lt m(3) by simp
    have "md5_pad m = q @ ?b2 @ ?b4 @ []"
      unfolding pad b4 unfolding b2 z replicate_add append_assoc append_Nil2 by (rule refl)
    then have "md5_chain md5_iv (md5_pad m)
        = SQUID_MD5Transform (SQUID_MD5Transform (md5_buf ctx) (md5_words ?b2)) (md5_words ?b4)"
      by (simp only: md5_chain_append [OF m(2)] md5_chain_block [OF l2] md5_chain_block [OF l4] b)
        (simp add: md5_chain_short)
    then show ?thesis
      using True unfolding SQUID_MD5Final_def md5_ref_def fld
      by (simp add: Let_def c0 md5_count_mod)
  next
    case False
    let ?z = "replicate (55 - ?r) (0 :: 8 word)"
    let ?b2 = "memcpy_at ?b1 (?r + 1) ?z"
    let ?b4 = "memcpy_at ?b2 56 ?len"
    have l2: "length ?b2 = 64" and l4: "length ?b4 = 64"
      using b1(2) False by (simp_all add: length_memcpy_at length_md5_len_field)
    have "take 56 ?b2 = (t @ [0x80]) @ ?z"
      using memcpy_at_prefix [OF b1(1), of ?z] False b1(2) by simp
    then have b4: "?b4 = ((t @ [0x80]) @ ?z) @ ?len"
      using memcpy_at_prefix [of 56 ?b2 "(t @ [0x80]) @ ?z" ?len] l2 l4
      by (simp add: length_md5_len_field)
    have "(119 - ?r) mod 64 = (119 - ?r) - 64" using False by (simp add: le_mod_geq)
    also have "\<dots> = 55 - ?r" by simp
    finally have "md5_pad m = q @ ?b4 @ []" unfolding pad b4 by simp
    then have "md5_chain md5_iv (md5_pad m) = SQUID_MD5Transform (md5_buf ctx) (md5_words ?b4)"
      by (simp only: md5_chain_append [OF m(2)] md5_chain_block [OF l4] b)
        (simp add: md5_chain_short)
    then show ?thesis
      using False unfolding SQUID_MD5Final_def md5_ref_def fld
      by (simp add: Let_def c0 md5_count_mod)
  qed
qed

text \<open>The calls \<open>SQUID_MD5Update\<close> makes for a list of pieces, in order.\<close>

definition md5_stream :: "8 word list \<Rightarrow> 8 word list list \<Rightarrow> MD5Context" where
  "md5_stream junk ps = foldl SQUID_MD5Update (SQUID_MD5Init junk) ps"

lemma md5_absorbed_stream:
  assumes "length junk = 64" "\<forall>p \<in> set ps. length p < 2 ^ 32"
  shows "md5_absorbed (md5_stream junk ps) (concat ps)"
  using assms(2)
proof (induction ps rule: rev_induct)
  case Nil
  then show ?case by (simp add: md5_stream_def md5_absorbed_init assms(1))
next
  case (snoc p ps)
  then show ?case using md5_absorbed_update [of "md5_stream junk ps" "concat ps" p]
    by (simp add: md5_stream_def)
qed

text \<open>C22: Feeding a message to the context in any pieces and finishing gives the digest of the
  concatenation by the padding rule of RFC 1321 (one bit, zeros, the 64-bit bit count), for
  whatever the input block of the context held before: how the message is split does not
  matter, and neither do pieces that fill the block exactly, leave no room for the count, or
  carry the 32-bit byte counter over.\<close>
theorem md5_streaming_correct:
  assumes "length junk = 64" "\<forall>p \<in> set ps. length p < 2 ^ 32"
  shows "SQUID_MD5Final (md5_stream junk ps) = md5_ref (concat ps)"
  using md5_final_absorbed [OF md5_absorbed_stream [OF assms]] .

theorem md5_streaming_correct_witness:
  "SQUID_MD5Final (md5_stream (replicate 64 7) [[97], [], [98, 99]]) = md5_ref [97, 98, 99]"
  using md5_streaming_correct [of "replicate 64 7" "[[97], [], [98, 99]]"] by simp

end
