(* ===== verification/StoreKey.thy ===== *)
theory StoreKey
  imports StoreTypes MD5
begin

section \<open>Store keys (store_key_md5.c)\<close>

text \<open>
  The 16-byte cache keys: their text form, the reader of that form, comparison, bucket
  selection, and the MD5 digests that make private and public keys. The digest functions
  pass their pieces to \<open>SQUID_MD5Update\<close> in the order of the source; by the streaming
  theorem of \<open>MD5\<close> the initial contents of the stack block do not matter, and the model
  takes zeros.
\<close>

unbundle bit_operations_syntax

definition SQUID_MD5_DIGEST_LENGTH :: nat where
  "SQUID_MD5_DIGEST_LENGTH = 16"

subsection \<open>Text form\<close>

definition storeKeyText :: "cache_key \<Rightarrow> string" where
  "storeKeyText key = concat (map (\<lambda>i. fmt_02X (key ! i)) [0..<SQUID_MD5_DIGEST_LENGTH])"

text \<open>
  \<open>storeKeyScan\<close> reads 32 characters in pairs; each pair becomes the C string \<open>t\<close>, which
  ends early when its first character is NUL. \<open>None\<close> when fewer than 32 can be read.
\<close>

definition scan_byte :: "char \<Rightarrow> char \<Rightarrow> 8 word" where
  "scan_byte a b = word_of_int (strtol16 (takeWhile (\<lambda>c. c \<noteq> NUL) [a, b]))"

definition storeKeyScan :: "char list \<Rightarrow> cache_key option" where
  "storeKeyScan b =
     (if 2 * SQUID_MD5_DIGEST_LENGTH \<le> length b
      then Some (map (\<lambda>i. scan_byte (b ! (2 * i)) (b ! (2 * i + 1))) [0..<SQUID_MD5_DIGEST_LENGTH])
      else None)"

subsection \<open>Comparison and hashing\<close>

fun key_cmp :: "nat \<Rightarrow> cache_key \<Rightarrow> cache_key \<Rightarrow> int" where
  "key_cmp 0 A B = 0"
| "key_cmp (Suc n) A B =
     (case (A, B) of
        (a # A', b # B') \<Rightarrow> if a < b then - 1 else if b < a then 1 else key_cmp n A' B'
      | _ \<Rightarrow> 0)"

definition storeKeyHashCmp :: "cache_key \<Rightarrow> cache_key \<Rightarrow> int" where
  "storeKeyHashCmp A B = key_cmp SQUID_MD5_DIGEST_LENGTH A B"

definition storeKeyHashHash :: "cache_key \<Rightarrow> 32 word \<Rightarrow> 32 word" where
  "storeKeyHashHash digest n =
     (let i = ucast (digest ! 0) OR push_bit 8 (ucast (digest ! 1))
                OR push_bit 16 (ucast (digest ! 2)) OR push_bit 24 (ucast (digest ! 3))
      in i AND (n - 1))"

text \<open>\<open>while (n < nbuckets) n <<= 1\<close>; shifting past \<open>int\<close> is undefined.\<close>

partial_function (option) hash_buckets_loop :: "int \<Rightarrow> int \<Rightarrow> int option" where
  "hash_buckets_loop n nbuckets =
     (if n < nbuckets
      then (if in_int32 (2 * n) then hash_buckets_loop (2 * n) nbuckets else None)
      else Some n)"

definition storeKeyHashBuckets :: "int \<Rightarrow> int option" where
  "storeKeyHashBuckets nbuckets = hash_buckets_loop 0x2000 nbuckets"

definition storeKeyNull :: "cache_key \<Rightarrow> bool" where
  "storeKeyNull key \<longleftrightarrow> take SQUID_MD5_DIGEST_LENGTH key = replicate SQUID_MD5_DIGEST_LENGTH 0"

definition storeKeyCopy :: "cache_key \<Rightarrow> cache_key \<Rightarrow> cache_key" where
  "storeKeyCopy dst src = take SQUID_MD5_DIGEST_LENGTH src @ drop SQUID_MD5_DIGEST_LENGTH dst"

subsection \<open>Digests\<close>

definition bytes_of_string :: "string \<Rightarrow> 8 word list" where
  "bytes_of_string s = map (\<lambda>c. of_nat (of_char c)) s"

definition md5_digest :: "8 word list list \<Rightarrow> cache_key" where
  "md5_digest ps = SQUID_MD5Final (md5_stream (replicate 64 0) ps)"

definition storeKeyPrivate :: "string \<Rightarrow> method_t \<Rightarrow> int \<Rightarrow> cache_key option" where
  "storeKeyPrivate url m i = do {
     c_assert (0 < i);
     Some (md5_digest [bytes_of32 (word_of_int i), bytes_of32 (of_nat m), bytes_of_string url]) }"

definition storeKeyPublic :: "string \<Rightarrow> method_t \<Rightarrow> cache_key" where
  "storeKeyPublic url m = md5_digest [[of_nat m], bytes_of_string url]"

text \<open>The key of a request and the request, whose canonical URL may have been cached.\<close>

definition storeKeyPublicByRequestMethod :: "request_t \<Rightarrow> method_t \<Rightarrow> cache_key \<times> request_t" where
  "storeKeyPublicByRequestMethod r m =
     (let (url, r) = (case r_store_url r of Some u \<Rightarrow> (u, r) | None \<Rightarrow> urlCanonical r)
      in (md5_digest
            ([[of_nat m], bytes_of_string url]
             @ (case r_vary_headers r of None \<Rightarrow> []
                | Some v \<Rightarrow> [[0, 0x56], bytes_of_string v]
                    @ (case r_vary_encoding r of None \<Rightarrow> []
                       | Some en \<Rightarrow> [[0, 0x45], bytes_of_string en]))
             @ (case r_urlgroup r of None \<Rightarrow> []
                | Some g \<Rightarrow> [[0, 0x47], bytes_of_string g])), r))"

definition storeKeyPublicByRequest :: "request_t \<Rightarrow> cache_key \<times> request_t" where
  "storeKeyPublicByRequest r = storeKeyPublicByRequestMethod r (r_method r)"

subsection \<open>Lemmas\<close>

lemma storeKeyText_eq: "length key = 16 \<Longrightarrow> storeKeyText key = concat (map fmt_02X key)"
  by (simp add: storeKeyText_def SQUID_MD5_DIGEST_LENGTH_def)
    (metis map_nth map_map comp_apply map_eq_conv)

lemma length_concat_02X: "length (concat (map fmt_02X key)) = 2 * length key"
  by (induction key) (simp_all add: fmt_02X_def)

lemma length_concat_02X_fun: "length (concat (map (\<lambda>i. fmt_02X (f i)) xs)) = 2 * length xs"
  by (induction xs) (simp_all add: fmt_02X_def)

lemma length_storeKeyText [simp]: "length (storeKeyText key) = 32"
  by (simp only: storeKeyText_def SQUID_MD5_DIGEST_LENGTH_def length_concat_02X_fun) simp

lemma concat_02X_nth:
  "i < length key \<Longrightarrow> concat (map fmt_02X key) ! (2 * i) = fmt_02X (key ! i) ! 0 \<and>
     concat (map fmt_02X key) ! (2 * i + 1) = fmt_02X (key ! i) ! 1"
proof (induction key arbitrary: i)
  case Nil
  then show ?case by simp
next
  case (Cons k ks)
  then show ?case by (cases i) (simp_all add: fmt_02X_def)
qed

lemma fmt_02X_chars: "c \<in> set (fmt_02X b) \<Longrightarrow> c \<noteq> NUL \<and> c \<noteq> CHR '','' \<and> \<not> isspace c"
proof -
  assume c: "c \<in> set (fmt_02X b)"
  have "unat b < 256" using unsigned_less [of b] by simp
  then have "unat b div 16 < 16" "unat b mod 16 < 16" by auto
  then show ?thesis using c hexdigit_char_plain by (auto simp: fmt_02X_def)
qed

lemma storeKeyText_chars: "c \<in> set (storeKeyText key) \<Longrightarrow> c \<noteq> NUL \<and> c \<noteq> CHR '','' \<and> \<not> isspace c"
  using fmt_02X_chars by (auto simp: storeKeyText_def)

lemma cstring_storeKeyText: "cstring (storeKeyText key)"
  using storeKeyText_chars by (auto simp: cstring_def)

lemma scan_byte_fmt: "scan_byte (fmt_02X b ! 0) (fmt_02X b ! 1) = b"
proof -
  have two: "[fmt_02X b ! 0, fmt_02X b ! 1] = fmt_02X b" by (simp add: fmt_02X_def)
  have "takeWhile (\<lambda>c. c \<noteq> NUL) (fmt_02X b) = fmt_02X b"
    unfolding takeWhile_eq_all_conv using fmt_02X_chars by blast
  then show ?thesis unfolding scan_byte_def two by (simp only: strtol16_fmt_02X word_of_int_uint)
qed

lemma storeKeyScan_Text:
  assumes "length key = 16"
  shows "storeKeyScan (storeKeyText key @ r) = Some key"
proof -
  let ?s = "storeKeyText key @ r"
  have "scan_byte (?s ! (2 * i)) (?s ! (2 * i + 1)) = key ! i" if "i < 16" for i
  proof -
    have "?s ! (2 * i) = concat (map fmt_02X key) ! (2 * i)"
      "?s ! (2 * i + 1) = concat (map fmt_02X key) ! (2 * i + 1)"
      using that assms by (simp_all add: nth_append storeKeyText_eq length_concat_02X)
    then show ?thesis using concat_02X_nth [of i key] that assms scan_byte_fmt by simp
  qed
  then have "map (\<lambda>i. scan_byte (?s ! (2 * i)) (?s ! (2 * i + 1))) [0..<16] = map ((!) key) [0..<16]"
    by simp
  also have "\<dots> = key" using assms map_nth [of key] by simp
  finally show ?thesis by (simp add: storeKeyScan_def SQUID_MD5_DIGEST_LENGTH_def)
qed

lemma length_md5_digest: "length (md5_digest ps) = 16"
  by (simp add: md5_digest_def SQUID_MD5Final_def Let_def split: prod.splits if_splits)

lemma key_cmp_range: "key_cmp n A B \<in> {- 1, 0, 1}"
  by (induction n A B rule: key_cmp.induct) (auto split: list.splits)

lemma key_cmp_0: "length A = n \<Longrightarrow> length B = n \<Longrightarrow> key_cmp n A B = 0 \<longleftrightarrow> A = B"
  by (induction n A B rule: key_cmp.induct) (auto split: list.splits)

lemma key_cmp_swap: "length A = n \<Longrightarrow> length B = n \<Longrightarrow> key_cmp n B A = - key_cmp n A B"
  by (induction n A B rule: key_cmp.induct) (auto split: list.splits)

text \<open>\<open>n & (2^k - 1)\<close> selects a bucket below \<open>2^k\<close>.\<close>

lemma hash_in_range:
  assumes "k < 32"
  shows "unat (storeKeyHashHash digest (2 ^ k)) < 2 ^ k"
proof -
  have "(2 ^ k - 1 :: 32 word) = mask k" by (simp add: mask_eq_exp_minus_1)
  then have "storeKeyHashHash digest (2 ^ k)
    = take_bit k (ucast (digest ! 0) OR push_bit 8 (ucast (digest ! 1))
        OR push_bit 16 (ucast (digest ! 2)) OR push_bit 24 (ucast (digest ! 3)))"
    by (simp add: storeKeyHashHash_def Let_def take_bit_eq_mask)
  then show ?thesis by (simp only: unsigned_take_bit_eq take_bit_nat_less_exp)
qed

lemma hash_buckets_run:
  assumes "nb \<le> 2 ^ 30" "13 \<le> k" "k \<le> 30"
  shows "\<exists>j. k \<le> j \<and> j \<le> 30 \<and> hash_buckets_loop (2 ^ k) nb = Some (2 ^ j) \<and> nb \<le> 2 ^ j \<and>
    (j = k \<or> 2 ^ j < 2 * nb)"
  using assms(2,3)
proof (induction "30 - k" arbitrary: k)
  case 0
  then show ?case using assms(1) by (auto simp: hash_buckets_loop.simps intro!: exI [of _ k])
next
  case (Suc m)
  show ?case
  proof (cases "(2 :: int) ^ k < nb")
    case False
    then show ?thesis using Suc.prems by (auto simp: hash_buckets_loop.simps intro!: exI [of _ k])
  next
    case True
    have k: "k < 30" using Suc.hyps(2) by simp
    then have "(2 :: int) ^ k \<le> 2 ^ 29" by (intro power_increasing) auto
    then have i: "in_int32 (2 * 2 ^ k)" by (intro in_int32_nonneg) auto
    have "m = 30 - Suc k" "13 \<le> Suc k" "Suc k \<le> 30" using Suc.hyps(2) Suc.prems k by auto
    then obtain j where j: "Suc k \<le> j" "j \<le> 30" "hash_buckets_loop (2 ^ Suc k) nb = Some (2 ^ j)"
      "nb \<le> 2 ^ j" "j = Suc k \<or> 2 ^ j < 2 * nb"
      using Suc.hyps(1) by blast
    then have "hash_buckets_loop (2 ^ k) nb = Some (2 ^ j)"
      using True i by (subst hash_buckets_loop.simps) simp
    moreover have "2 ^ j < 2 * nb" using j(5) True by auto
    ultimately show ?thesis using j by (auto intro!: exI [of _ j])
  qed
qed

subsection \<open>Properties\<close>

text \<open>The text of a cache key reads back as the key, whatever follows it in the buffer.\<close>

theorem storeKey_text_roundtrip:
  "length key = 16 \<Longrightarrow> storeKeyScan (storeKeyText key @ r) = Some key"
  by (rule storeKeyScan_Text)

theorem storeKey_text_roundtrip_witness:
  "storeKeyScan (storeKeyText [0, 1, 2, 3, 4, 5, 6, 7, 8, 9, 10, 11, 12, 13, 0xFE, 0xFF] @ ''@'')
   = Some [0, 1, 2, 3, 4, 5, 6, 7, 8, 9, 10, 11, 12, 13, 0xFE, 0xFF]"
  by (rule storeKey_text_roundtrip) simp

text \<open>The bucket count for a table of up to 2^30 requested buckets is computed without
  overflow, is a power of two, is at least the request and less than twice the larger of
  the request and 8192; and the hash of any key with it is a valid bucket index.\<close>

theorem storeKeyHash_bucket_ok:
  assumes "nb \<le> 2 ^ 30"
  shows "\<exists>j. storeKeyHashBuckets nb = Some (2 ^ j) \<and> j \<le> 30 \<and> nb \<le> 2 ^ j \<and>
    (2 ^ j = (0x2000 :: int) \<or> 2 ^ j < 2 * nb) \<and>
    unat (storeKeyHashHash key (2 ^ j)) < 2 ^ j"
proof -
  obtain j where "13 \<le> j" "j \<le> 30" "hash_buckets_loop (2 ^ 13) nb = Some (2 ^ j)" "nb \<le> 2 ^ j"
    "j = 13 \<or> 2 ^ j < 2 * nb"
    using hash_buckets_run [OF assms, of 13] by auto
  then show ?thesis
    using hash_in_range [of j key] by (auto simp: storeKeyHashBuckets_def intro!: exI [of _ j])
qed

theorem storeKeyHash_bucket_ok_witness:
  "\<exists>j. storeKeyHashBuckets 10000 = Some (2 ^ j) \<and> j \<le> 30 \<and> 10000 \<le> (2 :: int) ^ j \<and>
    (2 ^ j = (0x2000 :: int) \<or> 2 ^ j < 2 * (10000 :: int)) \<and>
    unat (storeKeyHashHash (replicate 16 0xAB) (2 ^ j)) < 2 ^ j"
  by (rule storeKeyHash_bucket_ok) simp

end
