(* ===== verification/PtrList.thy ===== *)
theory PtrList
  imports Prelude
begin

section \<open>Singly linked lists in memory\<close>

text \<open>
  The program links its objects through pointer fields of the objects themselves. A memory
  is a partial map from addresses to objects; \<open>chain nx p as\<close> says that following the
  next-pointers \<open>nx\<close> (undefined where no object is allocated) from \<open>p\<close> visits exactly the
  addresses \<open>as\<close> and ends with \<open>NULL\<close>. The lemmas are the frame, uniqueness and update
  facts that the hash table and the chunk table share.
\<close>

fun chain :: "(addr \<Rightarrow> addr option option) \<Rightarrow> addr option \<Rightarrow> addr list \<Rightarrow> bool" where
  "chain nx p [] \<longleftrightarrow> p = None"
| "chain nx p (a # as) \<longleftrightarrow> p = Some a \<and> (case nx a of None \<Rightarrow> False | Some q \<Rightarrow> chain nx q as)"

lemma chain_Cons_iff: "chain nx p (a # as) \<longleftrightarrow> p = Some a \<and> (\<exists>q. nx a = Some q \<and> chain nx q as)"
  by (auto split: option.splits)

declare chain.simps(2) [simp del]

lemma chain_cong: "\<forall>a \<in> set as. nx a = nx' a \<Longrightarrow> chain nx p as \<longleftrightarrow> chain nx' p as"
  by (induction as arbitrary: p) (auto simp: chain_Cons_iff)

lemma chain_frame: "chain nx p as \<Longrightarrow> \<forall>a \<in> set as. nx' a = nx a \<Longrightarrow> chain nx' p as"
  using chain_cong [of as nx' nx p] by blast

lemma chain_None [simp]: "chain nx None as \<longleftrightarrow> as = []"
  by (cases as) (auto simp: chain_Cons_iff)

lemma chain_allocated: "chain nx p as \<Longrightarrow> a \<in> set as \<Longrightarrow> nx a \<noteq> None"
  by (induction as arbitrary: p) (auto simp: chain_Cons_iff)

lemma chain_unique: "chain nx p as \<Longrightarrow> chain nx p bs \<Longrightarrow> as = bs"
proof (induction as arbitrary: p bs)
  case Nil
  then show ?case by simp
next
  case (Cons a as)
  then show ?case by (cases bs) (auto simp: chain_Cons_iff)
qed

lemma chain_suffix: "chain nx p (as @ b # bs) \<Longrightarrow> chain nx (Some b) (b # bs)"
  by (induction as arbitrary: p) (auto simp: chain_Cons_iff)

lemma chain_distinct: "chain nx p as \<Longrightarrow> distinct as"
proof (induction as arbitrary: p)
  case Nil
  then show ?case by simp
next
  case (Cons a as)
  then obtain q where q: "nx a = Some q" "chain nx q as" by (auto simp: chain_Cons_iff)
  have "a \<notin> set as"
  proof
    assume "a \<in> set as"
    then obtain us vs where "as = us @ a # vs" by (auto dest: split_list)
    with q(2) have "chain nx (Some a) (a # vs)" by (auto intro: chain_suffix)
    moreover have "chain nx (Some a) (a # as)" using q by (simp add: chain_Cons_iff)
    ultimately have "as = vs" by (auto dest: chain_unique)
    with \<open>as = us @ a # vs\<close> show False by simp
  qed
  with Cons.IH [OF q(2)] show ?case by simp
qed

lemma chain_append_tail:
  "chain nx p (as @ bs) \<Longrightarrow> \<exists>q. chain nx q bs \<and>
    (\<forall>cs q' nx'. chain nx' q' cs \<longrightarrow> (\<forall>a \<in> set as. nx' a = nx a) \<longrightarrow> as = [] \<or>
       chain (nx'(last as := Some q')) p (as @ cs) \<or> last as \<in> set cs)"
proof (induction as arbitrary: p)
  case Nil
  then show ?case by auto
next
  case (Cons a as)
  from Cons.prems obtain r where r: "p = Some a" "nx a = Some r" "chain nx r (as @ bs)"
    by (auto simp: chain_Cons_iff)
  have a: "a \<notin> set as" using chain_distinct [OF Cons.prems] by simp
  from Cons.IH [OF r(3)] obtain q where q: "chain nx q bs" and
    up: "\<forall>cs q' nx'. chain nx' q' cs \<longrightarrow> (\<forall>a \<in> set as. nx' a = nx a) \<longrightarrow> as = [] \<or>
       chain (nx'(last as := Some q')) r (as @ cs) \<or> last as \<in> set cs" by blast
  have "chain (nx'(last (a # as) := Some q')) p ((a # as) @ cs) \<or> last (a # as) \<in> set cs"
    if "chain nx' q' cs" "\<forall>x \<in> set (a # as). nx' x = nx x" for cs q' nx'
  proof (cases "as = []")
    case True
    then show ?thesis using that r(1)
      by (cases "a \<in> set cs") (auto simp: chain_Cons_iff intro: chain_frame)
  next
    case False
    then have "last as \<noteq> a" using a last_in_set by metis
    with up False that r(1,2) show ?thesis by (auto simp: chain_Cons_iff)
  qed
  with q show ?case by blast
qed

text \<open>Redirecting the link before a suffix replaces the suffix.\<close>

lemma chain_relink:
  assumes "chain nx p (as @ b # bs)" "chain nx q cs" "b \<notin> set cs"
  shows "chain (nx(b := Some q)) p (as @ b # cs)"
proof -
  have "chain nx p ((as @ [b]) @ bs)" using assms(1) by simp
  from chain_append_tail [OF this] assms(2,3)
  have "chain (nx(last (as @ [b]) := Some q)) p ((as @ [b]) @ cs)"
    by (metis append_is_Nil_conv last_snoc list.discI)
  then show ?thesis by simp
qed

lemma chain_next: "chain nx p (as @ b # bs) \<Longrightarrow> \<exists>q. nx b = Some q \<and> chain nx q bs"
  by (drule chain_suffix) (auto simp: chain_Cons_iff)

end
