(* ===== verification/Hash.thy ===== *)
theory Hash
  imports PtrList CString
begin

section \<open>Hash tables (lib/hash.c)\<close>

text \<open>
  The chained hash table of intrusive links that holds the store index. The table is a
  record with the fields of \<open>struct _hash_table\<close>; the links live in a memory from
  addresses to \<open>hash_link\<close>s and are threaded through their \<open>next\<close> fields, so that
  removal works on a pointer to a pointer as in the source. \<open>ht_rep\<close> relates a table and
  a memory to one address list per bucket; the lemmas show that every operation refines
  its list counterpart, and the locale \<open>link_table\<close> is the contract the store relies on.
\<close>

unbundle bit_operations_syntax

record 'k hash_link =
  hl_key :: "'k option"
  hl_next :: "addr option"

record 'k hash_table =
  buckets :: "addr option list"
  ht_cmp :: "'k \<Rightarrow> 'k \<Rightarrow> int"
  ht_hash :: "'k \<Rightarrow> nat \<Rightarrow> nat"
  ht_size :: nat
  current_slot :: nat
  ht_next :: "addr option"
  ht_count :: int

type_synonym 'k link_mem = "addr \<Rightarrow> 'k hash_link option"

subsection \<open>Hash functions\<close>

text \<open>The value of a \<open>char\<close> (signed) converted to \<open>unsigned int\<close>.\<close>

definition char_to_unsigned :: "char \<Rightarrow> 32 word" where
  "char_to_unsigned c = scast (of_nat (of_char c) :: 8 word)"

fun hash_string_loop :: "string \<Rightarrow> 32 word \<Rightarrow> 32 word \<Rightarrow> 32 word \<times> 32 word" where
  "hash_string_loop [] n j = (n, j)"
| "hash_string_loop (c # s) n j = hash_string_loop s (n XOR (271 * char_to_unsigned c)) (j + 1)"

definition hash_string :: "string \<Rightarrow> nat \<Rightarrow> nat" where
  "hash_string s sz =
     (let (n, j) = hash_string_loop s 0 0; i = n XOR (j * 271) in unat i mod sz)"

text \<open>\<open>HASH4\<close>: one character is consumed; the state is the hash and the rest of the key.\<close>

definition HASH4 :: "32 word \<times> string \<Rightarrow> 32 word \<times> string" where
  "HASH4 hk = (case hk of (h, c # key) \<Rightarrow> (push_bit 5 h + h + char_to_unsigned c, key) | _ \<Rightarrow> hk)"

fun hash4_switch :: "nat \<Rightarrow> 32 word \<times> string \<Rightarrow> 32 word \<times> string" where
  "hash4_switch 0 hk = hk"
| "hash4_switch (Suc n) hk = hash4_switch n (HASH4 hk)"

fun hash4_while :: "nat \<Rightarrow> 32 word \<times> string \<Rightarrow> 32 word \<times> string" where
  "hash4_while 0 hk = hk"
| "hash4_while (Suc loop) hk =
     hash4_while loop (HASH4 (HASH4 (HASH4 (HASH4 (HASH4 (HASH4 (HASH4 (HASH4 hk))))))))"

definition hash4 :: "string \<Rightarrow> nat \<Rightarrow> nat" where
  "hash4 key sz =
     (let len = length key; loop = drop_bit 3 len;
          hk = hash4_switch (len AND 7) (0, key);
          (h, _) = hash4_while loop hk
      in unat h mod sz)"

subsection \<open>Table operations\<close>

definition DEFAULT_HASH_SIZE :: nat where
  "DEFAULT_HASH_SIZE = 7951"

definition hash_create :: "('k \<Rightarrow> 'k \<Rightarrow> int) \<Rightarrow> int \<Rightarrow> ('k \<Rightarrow> nat \<Rightarrow> nat) \<Rightarrow> 'k hash_table" where
  "hash_create cmp_func hash_sz hash_func =
     (let sz = (if hash_sz = 0 then DEFAULT_HASH_SIZE else nat (hash_sz mod 2 ^ 32))
      in \<lparr>buckets = replicate sz None, ht_cmp = cmp_func, ht_hash = hash_func,
          ht_size = sz, current_slot = 0, ht_next = None, ht_count = 0\<rparr>)"

definition hash_join ::
  "'k hash_table \<Rightarrow> 'k link_mem \<Rightarrow> addr \<Rightarrow> ('k hash_table \<times> 'k link_mem) option" where
  "hash_join hid m lnk = do {
     l \<leftarrow> m lnk;
     k \<leftarrow> hl_key l;
     let i = ht_hash hid k (ht_size hid);
     b \<leftarrow> arr_get (buckets hid) i;
     let m = m(lnk \<mapsto> l\<lparr>hl_next := b\<rparr>);
     bs \<leftarrow> arr_set (buckets hid) i (Some lnk);
     Some (hid\<lparr>buckets := bs, ht_count := to_int32 (ht_count hid + 1)\<rparr>, m) }"

partial_function (option) hash_walk ::
  "('k \<Rightarrow> 'k \<Rightarrow> int) \<Rightarrow> 'k link_mem \<Rightarrow> 'k \<Rightarrow> addr option \<Rightarrow> addr option option" where
  "hash_walk cmp m k walker =
     (case walker of
        None \<Rightarrow> Some None
      | Some a \<Rightarrow> do {
          l \<leftarrow> m a;
          case hl_key l of
            None \<Rightarrow> Some None
          | Some k' \<Rightarrow>
              if cmp k k' = 0 then Some (Some a)
              else do { c_assert (hl_next l \<noteq> Some a); hash_walk cmp m k (hl_next l) } })"

definition hash_lookup :: "'k hash_table \<Rightarrow> 'k link_mem \<Rightarrow> 'k \<Rightarrow> addr option option" where
  "hash_lookup hid m k = do {
     b \<leftarrow> arr_get (buckets hid) (ht_hash hid k (ht_size hid));
     hash_walk (ht_cmp hid) m k b }"

text \<open>\<open>while (next == NULL && ++current_slot < size)\<close>, with the increment wrapping at 32 bits.\<close>

partial_function (option) hash_next_bucket :: "'k hash_table \<Rightarrow> 'k hash_table option" where
  "hash_next_bucket hid =
     (if ht_next hid = None
      then let s = (current_slot hid + 1) mod 2 ^ 32; hid = hid\<lparr>current_slot := s\<rparr>
           in if s < ht_size hid
              then do { b \<leftarrow> arr_get (buckets hid) s; hash_next_bucket (hid\<lparr>ht_next := b\<rparr>) }
              else Some hid
      else Some hid)"

definition hash_first :: "'k hash_table \<Rightarrow> 'k hash_table option" where
  "hash_first hid = do {
     c_assert (ht_next hid = None);
     b \<leftarrow> arr_get (buckets hid) 0;
     let hid = hid\<lparr>current_slot := 0, ht_next := b\<rparr>;
     if b = None then hash_next_bucket hid else Some hid }"

definition hash_next ::
  "'k hash_table \<Rightarrow> 'k link_mem \<Rightarrow> (addr option \<times> 'k hash_table) option" where
  "hash_next hid m =
     (case ht_next hid of
        None \<Rightarrow> Some (None, hid)
      | Some this \<Rightarrow> do {
          l \<leftarrow> m this;
          let hid = hid\<lparr>ht_next := hl_next l\<rparr>;
          hid \<leftarrow> (if hl_next l = None then hash_next_bucket hid else Some hid);
          Some (Some this, hid) })"

definition hash_last :: "'k hash_table \<Rightarrow> 'k hash_table" where
  "hash_last hid = hid\<lparr>ht_next := None, current_slot := 0\<rparr>"

text \<open>The values a \<open>hash_link **\<close> takes in \<open>hash_remove_link\<close>.\<close>

datatype link_loc = Bucket_of nat | Next_of addr

definition deref :: "'k hash_table \<Rightarrow> 'k link_mem \<Rightarrow> link_loc \<Rightarrow> addr option option" where
  "deref hid m P = (case P of Bucket_of i \<Rightarrow> arr_get (buckets hid) i
                            | Next_of a \<Rightarrow> map_option hl_next (m a))"

definition assign ::
  "'k hash_table \<Rightarrow> 'k link_mem \<Rightarrow> link_loc \<Rightarrow> addr option \<Rightarrow> ('k hash_table \<times> 'k link_mem) option" where
  "assign hid m P v =
     (case P of
        Bucket_of i \<Rightarrow> do { bs \<leftarrow> arr_set (buckets hid) i v; Some (hid\<lparr>buckets := bs\<rparr>, m) }
      | Next_of a \<Rightarrow> do { l \<leftarrow> m a; Some (hid, m(a \<mapsto> l\<lparr>hl_next := v\<rparr>)) })"

partial_function (option) hash_find_loc ::
  "'k hash_table \<Rightarrow> 'k link_mem \<Rightarrow> addr \<Rightarrow> link_loc \<Rightarrow> link_loc option" where
  "hash_find_loc hid m hl P = do {
     p \<leftarrow> deref hid m P;
     case p of
       None \<Rightarrow> None
     | Some a \<Rightarrow> if a \<noteq> hl then hash_find_loc hid m hl (Next_of a) else Some P }"

definition hash_remove_link ::
  "'k hash_table \<Rightarrow> 'k link_mem \<Rightarrow> addr \<Rightarrow> ('k hash_table \<times> 'k link_mem) option" where
  "hash_remove_link hid m hl = do {
     l \<leftarrow> m hl;
     k \<leftarrow> hl_key l;
     P \<leftarrow> hash_find_loc hid m hl (Bucket_of (ht_hash hid k (ht_size hid)));
     (hid, m) \<leftarrow> assign hid m P (hl_next l);
     hid \<leftarrow> (if ht_next hid = Some hl
             then let hid = hid\<lparr>ht_next := hl_next l\<rparr>
                  in if hl_next l = None then hash_next_bucket hid else Some hid
             else Some hid);
     Some (hid\<lparr>ht_count := to_int32 (ht_count hid - 1)\<rparr>, m) }"

definition hash_get_bucket :: "'k hash_table \<Rightarrow> nat \<Rightarrow> addr option option" where
  "hash_get_bucket hid bucket =
     (if ht_size hid \<le> bucket then Some None else arr_get (buckets hid) bucket)"

text \<open>\<open>hashFreeItems\<close>: the links handed to \<open>free_func\<close>, in order, and the table.\<close>

partial_function (option) hash_collect ::
  "'k hash_table \<Rightarrow> 'k link_mem \<Rightarrow> addr list \<Rightarrow> (addr list \<times> 'k hash_table) option" where
  "hash_collect hid m list = do {
     (l, hid) \<leftarrow> hash_next hid m;
     case l of
       None \<Rightarrow> Some (list, hid)
     | Some a \<Rightarrow> if int (length list) < ht_count hid then hash_collect hid m (list @ [a])
                 else Some (list, hid) }"

definition hashFreeItems ::
  "'k hash_table \<Rightarrow> 'k link_mem \<Rightarrow> (addr list \<times> 'k hash_table) option" where
  "hashFreeItems hid m = do { hid \<leftarrow> hash_first hid; hash_collect hid m [] }"

subsection \<open>Representation\<close>

abbreviation links_next :: "'k link_mem \<Rightarrow> addr \<Rightarrow> addr option option" where
  "links_next m \<equiv> \<lambda>a. map_option hl_next (m a)"

definition link_key :: "'k link_mem \<Rightarrow> addr \<Rightarrow> 'k option" where
  "link_key m a = (case m a of None \<Rightarrow> None | Some l \<Rightarrow> hl_key l)"

definition ht_rep :: "'k hash_table \<Rightarrow> 'k link_mem \<Rightarrow> addr list list \<Rightarrow> bool" where
  "ht_rep t m bs \<longleftrightarrow>
     length (buckets t) = ht_size t \<and> length bs = ht_size t \<and> 0 < ht_size t \<and> ht_size t < 2 ^ 32 \<and>
     (\<forall>i < ht_size t. chain (links_next m) (buckets t ! i) (bs ! i)) \<and>
     (\<forall>i < ht_size t. \<forall>a \<in> set (bs ! i).
        \<exists>k. link_key m a = Some k \<and> ht_hash t k (ht_size t) = i) \<and>
     ht_count t = to_int32 (int (length (concat bs)))"

lemma ht_rep_chain: "ht_rep t m bs \<Longrightarrow> i < ht_size t \<Longrightarrow> chain (links_next m) (buckets t ! i) (bs ! i)"
  by (simp add: ht_rep_def)

lemma ht_rep_key:
  "ht_rep t m bs \<Longrightarrow> i < ht_size t \<Longrightarrow> a \<in> set (bs ! i) \<Longrightarrow>
   \<exists>k. link_key m a = Some k \<and> ht_hash t k (ht_size t) = i"
  by (simp add: ht_rep_def)

lemma ht_rep_length:
  "ht_rep t m bs \<Longrightarrow> length (buckets t) = ht_size t \<and> length bs = ht_size t \<and> 0 < ht_size t"
  by (simp add: ht_rep_def)

lemma link_key_SomeE:
  assumes "link_key m a = Some k"
  obtains l where "m a = Some l" "hl_key l = Some k"
  using assms by (auto simp: link_key_def split: option.splits)

subsection \<open>Lookup\<close>

lemma hash_walk_find:
  assumes "chain (links_next m) p as" "\<forall>a \<in> set as. link_key m a \<noteq> None"
  shows "hash_walk cmp m k p = Some (find (\<lambda>a. cmp k (the (link_key m a)) = 0) as)"
  using assms
proof (induction as arbitrary: p)
  case Nil
  then show ?case by (simp add: hash_walk.simps)
next
  case (Cons a as)
  then obtain l k' where l: "p = Some a" "m a = Some l" "hl_key l = Some k'"
    "chain (links_next m) (hl_next l) as"
    by (auto simp: chain_Cons_iff link_key_def split: option.splits)
  have "hl_next l \<noteq> Some a"
    using l(4) chain_distinct [OF Cons.prems(1)] by (cases as) (auto simp: chain_Cons_iff)
  with Cons l show ?case
    by (subst hash_walk.simps) (simp add: link_key_def)
qed

lemma hash_lookup_find:
  assumes "ht_rep t m bs" "ht_hash t k (ht_size t) < ht_size t"
  shows "hash_lookup t m k
    = Some (find (\<lambda>a. ht_cmp t k (the (link_key m a)) = 0) (bs ! ht_hash t k (ht_size t)))"
proof -
  have "\<forall>a \<in> set (bs ! ht_hash t k (ht_size t)). link_key m a \<noteq> None"
    using ht_rep_key [OF assms] by auto
  with hash_walk_find [OF ht_rep_chain [OF assms]] ht_rep_length [OF assms(1)] assms(2)
  show ?thesis by (simp add: hash_lookup_def arr_simps)
qed

subsection \<open>Joining\<close>

lemma link_key_next_upd:
  "m a = Some l \<Longrightarrow> link_key (m(a \<mapsto> l\<lparr>hl_next := v\<rparr>)) = link_key m"
  by (auto simp: link_key_def split: option.splits)

lemma links_next_upd:
  "links_next (m(a \<mapsto> l\<lparr>hl_next := v\<rparr>)) = (links_next m)(a := Some v)"
  by auto

lemma length_concat_update:
  "i < length bs \<Longrightarrow> int (length (concat (bs[i := ys]))) =
     int (length (concat bs)) - int (length (bs ! i)) + int (length ys)"
proof (induction bs arbitrary: i)
  case Nil
  then show ?case by simp
next
  case (Cons b bs)
  then show ?case by (cases i) auto
qed

lemma hash_join_rep:
  assumes r: "ht_rep t m bs" and k: "link_key m a = Some k" and fresh: "a \<notin> set (concat bs)"
    and i: "i = ht_hash t k (ht_size t)" "i < ht_size t"
  shows "\<exists>t' m'. hash_join t m a = Some (t', m') \<and> ht_rep t' m' (bs[i := a # bs ! i]) \<and>
    link_key m' = link_key m \<and> ht_cmp t' = ht_cmp t \<and> ht_hash t' = ht_hash t \<and>
    ht_size t' = ht_size t \<and> ht_next t' = ht_next t \<and> current_slot t' = current_slot t"
proof -
  obtain l where l: "m a = Some l" "hl_key l = Some k" using k by (rule link_key_SomeE)
  note len = ht_rep_length [OF r]
  let ?m = "m(a \<mapsto> l\<lparr>hl_next := buckets t ! i\<rparr>)"
  let ?t = "t\<lparr>buckets := (buckets t)[i := Some a], ht_count := to_int32 (ht_count t + 1)\<rparr>"
  have "hash_join t m a = Some (?t, ?m)"
    using l i len by (simp add: hash_join_def arr_simps Let_def)
  moreover have lk: "link_key ?m = link_key m" using l(1) by (rule link_key_next_upd)
  moreover have "ht_rep ?t ?m (bs[i := a # bs ! i])"
  proof -
    have frame: "chain (links_next ?m) (buckets t ! j) (bs ! j)" if "j < ht_size t" for j
    proof -
      have "a \<notin> set (bs ! j)" using fresh nth_mem [of j bs] that len by auto
      then show ?thesis by (intro chain_frame [OF ht_rep_chain [OF r that]]) auto
    qed
    then have "chain (links_next ?m) (Some a) (a # bs ! i)"
      using i(2) by (simp add: chain_Cons_iff)
    moreover have "\<exists>k. link_key m x = Some k \<and> ht_hash t k (ht_size t) = j"
      if "j < ht_size t" "x \<in> set (bs[i := a # bs ! i] ! j)" for j x
      using that ht_rep_key [OF r that(1)] k i len
      by (cases "j = i") auto
    moreover have "ht_count ?t = to_int32 (int (length (concat (bs[i := a # bs ! i]))))"
      using r len i length_concat_update [of i bs "a # bs ! i"] to_int32_step
      by (simp add: ht_rep_def)
    moreover have "chain (links_next ?m) ((buckets t)[i := Some a] ! j) (bs[i := a # bs ! i] ! j)"
      if "j < ht_size t" for j
      using that frame [OF that] calculation(1) len by (cases "j = i") auto
    moreover have "ht_size t < 2 ^ 32" using r by (simp add: ht_rep_def)
    ultimately show ?thesis using len unfolding ht_rep_def lk by simp
  qed
  ultimately show ?thesis by auto
qed

subsection \<open>Traversal\<close>

lemma hash_next_bucket_run:
  assumes "length (buckets t) = ht_size t" "ht_size t < 2 ^ 32" "ht_next t = None"
    "current_slot t < ht_size t"
  shows "\<exists>j. current_slot t < j \<and> j \<le> ht_size t \<and>
    (\<forall>i. current_slot t < i \<longrightarrow> i < j \<longrightarrow> buckets t ! i = None) \<and>
    (j < ht_size t \<longrightarrow> buckets t ! j \<noteq> None) \<and>
    hash_next_bucket t = Some (t\<lparr>current_slot := j,
       ht_next := if j < ht_size t then buckets t ! j else None\<rparr>)"
  using assms
proof (induction "ht_size t - current_slot t" arbitrary: t)
  case 0
  then show ?case by simp
next
  case (Suc n)
  let ?s = "current_slot t + 1"
  have s: "?s mod 2 ^ 32 = ?s" using Suc.prems by simp
  consider (stop) "?s = ht_size t" | (found) "?s < ht_size t" "buckets t ! ?s \<noteq> None"
    | (again) "?s < ht_size t" "buckets t ! ?s = None"
    using Suc.prems by linarith
  then show ?case
  proof cases
    case stop
    then show ?thesis using Suc.prems s
      by (intro exI [of _ ?s]) (subst hash_next_bucket.simps, simp add: Let_def)
  next
    case found
    have "hash_next_bucket t = hash_next_bucket (t\<lparr>current_slot := ?s, ht_next := buckets t ! ?s\<rparr>)"
      using found Suc.prems s by (subst hash_next_bucket.simps) (simp add: Let_def arr_simps)
    also have "\<dots> = Some (t\<lparr>current_slot := ?s, ht_next := buckets t ! ?s\<rparr>)"
      using found by (subst hash_next_bucket.simps) auto
    finally show ?thesis using found by (intro exI [of _ ?s]) auto
  next
    case again
    let ?t = "t\<lparr>current_slot := ?s\<rparr>"
    have eq: "hash_next_bucket t = hash_next_bucket ?t"
    proof -
      have "hash_next_bucket t = hash_next_bucket (?t\<lparr>ht_next := None\<rparr>)"
        using again Suc.prems s by (subst hash_next_bucket.simps) (simp add: Let_def arr_simps)
      also have "?t\<lparr>ht_next := None\<rparr> = ?t" using Suc.prems(3) by simp
      finally show ?thesis .
    qed
    have "\<exists>j. current_slot ?t < j \<and> j \<le> ht_size ?t \<and>
      (\<forall>i. current_slot ?t < i \<longrightarrow> i < j \<longrightarrow> buckets ?t ! i = None) \<and>
      (j < ht_size ?t \<longrightarrow> buckets ?t ! j \<noteq> None) \<and>
      hash_next_bucket ?t = Some (?t\<lparr>current_slot := j,
         ht_next := if j < ht_size ?t then buckets ?t ! j else None\<rparr>)"
      by (rule Suc.hyps(1)) (use Suc.hyps(2) Suc.prems again in auto)
    then obtain j where j: "?s < j" "j \<le> ht_size t" "\<forall>i. ?s < i \<longrightarrow> i < j \<longrightarrow> buckets t ! i = None"
      "j < ht_size t \<longrightarrow> buckets t ! j \<noteq> None"
      "hash_next_bucket ?t = Some (t\<lparr>current_slot := j,
         ht_next := if j < ht_size t then buckets t ! j else None\<rparr>)"
      by auto
    have "buckets t ! i = None" if "current_slot t < i" "i < j" for i
      using j(3) again(2) that by (cases "i = ?s") auto
    with j eq show ?thesis by (intro exI [of _ j]) auto
  qed
qed

text \<open>\<open>ht_at t m bs xs\<close>: the iteration has \<open>xs\<close> still to visit.\<close>

definition ht_at :: "'k hash_table \<Rightarrow> 'k link_mem \<Rightarrow> addr list list \<Rightarrow> addr list \<Rightarrow> bool" where
  "ht_at t m bs xs \<longleftrightarrow>
     (ht_next t = None \<and> xs = []) \<or>
     (current_slot t < ht_size t \<and>
      (\<exists>y ys. chain (links_next m) (ht_next t) (y # ys) \<and> xs = y # ys @ concat (drop (Suc (current_slot t)) bs)))"

lemma concat_drop_skip:
  assumes "\<forall>i. s < i \<longrightarrow> i < j \<longrightarrow> bs ! i = []" "s < j" "j \<le> length bs"
  shows "concat (drop (Suc s) bs) = concat (drop j bs)"
  using assms
proof (induction "j - Suc s" arbitrary: s)
  case 0
  then have "j = Suc s" by simp
  then show ?case by simp
next
  case (Suc n)
  then have "bs ! Suc s = []" "Suc s < length bs" by auto
  then have "concat (drop (Suc s) bs) = concat (drop (Suc (Suc s)) bs)"
    by (simp add: Cons_nth_drop_Suc [symmetric])
  with Suc show ?case by auto
qed

lemma ht_rep_slot: "ht_rep (t\<lparr>current_slot := s, ht_next := n\<rparr>) m bs \<longleftrightarrow> ht_rep t m bs"
  "ht_rep (t\<lparr>ht_next := n\<rparr>) m bs \<longleftrightarrow> ht_rep t m bs"
  "ht_rep (t\<lparr>current_slot := s\<rparr>) m bs \<longleftrightarrow> ht_rep t m bs"
  by (simp_all add: ht_rep_def)

lemma hash_next_bucket_at:
  assumes r: "ht_rep t m bs" and n: "ht_next t = None" and s: "current_slot t < ht_size t"
  shows "\<exists>j n'. hash_next_bucket t = Some (t\<lparr>current_slot := j, ht_next := n'\<rparr>) \<and>
    ht_at (t\<lparr>current_slot := j, ht_next := n'\<rparr>) m bs (concat (drop (Suc (current_slot t)) bs))"
proof -
  note len = ht_rep_length [OF r]
  have "ht_size t < 2 ^ 32" using r by (simp add: ht_rep_def)
  from hash_next_bucket_run [OF _ this n s] len obtain j where
    j: "current_slot t < j" "j \<le> ht_size t"
      "\<forall>i. current_slot t < i \<longrightarrow> i < j \<longrightarrow> buckets t ! i = None"
      "j < ht_size t \<longrightarrow> buckets t ! j \<noteq> None"
      "hash_next_bucket t = Some (t\<lparr>current_slot := j,
         ht_next := if j < ht_size t then buckets t ! j else None\<rparr>)" by blast
  have "bs ! i = []" if "current_slot t < i" "i < j" for i
    using ht_rep_chain [OF r, of i] j(2,3) that by auto
  then have skip: "concat (drop (Suc (current_slot t)) bs) = concat (drop j bs)"
    using concat_drop_skip [of "current_slot t" j bs] j(1,2) len by auto
  show ?thesis
  proof (cases "j < ht_size t")
    case True
    then obtain a as where bj: "bs ! j = a # as"
      using j(4) ht_rep_chain [OF r True] by (cases "bs ! j") auto
    then have "drop j bs = (a # as) # drop (Suc j) bs"
      using True len by (simp add: Cons_nth_drop_Suc [symmetric])
    with True bj ht_rep_chain [OF r True] skip j(5) show ?thesis
      by (auto simp: ht_at_def)
  next
    case False
    then show ?thesis using j(2,5) skip len by (auto simp: ht_at_def)
  qed
qed

lemma hash_first_at:
  assumes r: "ht_rep t m bs" and n: "ht_next t = None"
  shows "\<exists>j n'. hash_first t = Some (t\<lparr>current_slot := j, ht_next := n'\<rparr>) \<and>
    ht_at (t\<lparr>current_slot := j, ht_next := n'\<rparr>) m bs (concat bs)"
proof -
  note len = ht_rep_length [OF r]
  have split: "concat bs = bs ! 0 @ concat (drop (Suc 0) bs)"
    using len Cons_nth_drop_Suc [of 0 bs] by (metis concat.simps(2) drop0)
  show ?thesis
  proof (cases "buckets t ! 0")
    case None
    let ?t = "t\<lparr>current_slot := 0, ht_next := None\<rparr>"
    have "bs ! 0 = []" using ht_rep_chain [OF r, of 0] len None by simp
    with hash_next_bucket_at [of ?t m bs] r n len split None show ?thesis
      by (simp add: hash_first_def arr_simps ht_rep_slot)
  next
    case (Some a)
    then obtain y ys where y: "bs ! 0 = y # ys"
      using ht_rep_chain [OF r, of 0] len by (cases "bs ! 0") auto
    have "chain (links_next m) (Some a) (y # ys)"
      using ht_rep_chain [OF r, of 0] len y Some by simp
    then have "ht_at (t\<lparr>current_slot := 0, ht_next := Some a\<rparr>) m bs (concat bs)"
      using len split y by (auto simp: ht_at_def)
    with Some n len show ?thesis by (auto simp: hash_first_def arr_simps)
  qed
qed

lemma hash_next_at:
  assumes r: "ht_rep t m bs" and a: "ht_at t m bs xs"
  shows "case xs of [] \<Rightarrow> hash_next t m = Some (None, t)
    | y # ys \<Rightarrow> \<exists>j n'. hash_next t m = Some (Some y, t\<lparr>current_slot := j, ht_next := n'\<rparr>) \<and>
        ht_at (t\<lparr>current_slot := j, ht_next := n'\<rparr>) m bs ys"
proof (cases "ht_next t")
  case None
  then show ?thesis using a by (auto simp: ht_at_def hash_next_def)
next
  case (Some b)
  then obtain y ys where y: "chain (links_next m) (ht_next t) (y # ys)" "current_slot t < ht_size t"
    "xs = y # ys @ concat (drop (Suc (current_slot t)) bs)" using a by (auto simp: ht_at_def)
  then obtain l where l: "ht_next t = Some y" "m y = Some l" "chain (links_next m) (hl_next l) ys"
    by (auto simp: chain_Cons_iff)
  let ?t = "t\<lparr>ht_next := hl_next l\<rparr>"
  show ?thesis
  proof (cases "hl_next l")
    case None
    then have "ys = []" using l(3) by simp
    from hash_next_bucket_at [of ?t m bs] r None y(2) obtain j n' where
      j: "hash_next_bucket ?t = Some (t\<lparr>current_slot := j, ht_next := n'\<rparr>)"
        "ht_at (t\<lparr>current_slot := j, ht_next := n'\<rparr>) m bs (concat (drop (Suc (current_slot t)) bs))"
      by (auto simp: ht_rep_slot)
    have "hash_next t m = Some (Some y, t\<lparr>current_slot := j, ht_next := n'\<rparr>)"
      using j(1) None l by (simp add: hash_next_def)
    with j(2) y(3) \<open>ys = []\<close> show ?thesis by (simp del: hash_table.update_convs) blast
  next
    case (Some c)
    then obtain z zs where "ys = z # zs" using l(3) by (cases ys) auto
    then have "ht_at ?t m bs (ys @ concat (drop (Suc (current_slot t)) bs))"
      using l(3) y(2) by (auto simp: ht_at_def)
    then show ?thesis using l y(3) Some
      by (auto simp: hash_next_def intro!: exI [of _ "current_slot t"] exI [of _ "hl_next l"])
  qed
qed

lemma hash_collect_all:
  assumes "ht_rep t m bs" "ht_at t m bs xs" "int (length acc) + int (length xs) \<le> ht_count t"
  shows "\<exists>t'. hash_collect t m acc = Some (acc @ xs, t') \<and> ht_rep t' m bs \<and> ht_next t' = None"
  using assms
proof (induction xs arbitrary: t acc)
  case Nil
  then have "hash_next t m = Some (None, t)" using hash_next_at [OF Nil(1,2)] by simp
  moreover have "ht_next t = None" using Nil(2) by (auto simp: ht_at_def)
  ultimately show ?case using Nil by (subst hash_collect.simps) simp
next
  case (Cons x xs)
  from hash_next_at [OF Cons.prems(1,2)] obtain j n' where
    n: "hash_next t m = Some (Some x, t\<lparr>current_slot := j, ht_next := n'\<rparr>)"
      "ht_at (t\<lparr>current_slot := j, ht_next := n'\<rparr>) m bs xs" by auto
  let ?t = "t\<lparr>current_slot := j, ht_next := n'\<rparr>"
  have "\<exists>t'. hash_collect ?t m (acc @ [x]) = Some ((acc @ [x]) @ xs, t') \<and> ht_rep t' m bs \<and>
    ht_next t' = None"
    by (rule Cons.IH) (use Cons.prems n in \<open>auto simp: ht_rep_slot\<close>)
  with n(1) Cons.prems(3) show ?case by (subst hash_collect.simps) simp
qed

subsection \<open>Removal\<close>

lemma hash_find_loc_chain:
  assumes "deref t m P = Some p" "chain (links_next m) p (us @ hl # vs)" "hl \<notin> set us"
  shows "hash_find_loc t m hl P = Some (if us = [] then P else Next_of (last us))"
  using assms
proof (induction us arbitrary: P p)
  case Nil
  then show ?case by (subst hash_find_loc.simps) (auto simp: chain_Cons_iff)
next
  case (Cons u us)
  then obtain l where u: "p = Some u" "m u = Some l" "chain (links_next m) (hl_next l) (us @ hl # vs)"
    "u \<noteq> hl" by (auto simp: chain_Cons_iff)
  have "hash_find_loc t m hl P = hash_find_loc t m hl (Next_of u)"
    using Cons.prems(1) u by (subst hash_find_loc.simps) simp
  also have "\<dots> = Some (if us = [] then Next_of u else Next_of (last us))"
    by (rule Cons.IH) (use u Cons.prems(3) in \<open>auto simp: deref_def\<close>)
  finally show ?case by simp
qed

text \<open>Unlinking \<open>a\<close> through the location found replaces its bucket's list.\<close>

lemma assign_unlink:
  assumes r: "ht_rep t m bs" and i: "i < ht_size t" and b: "bs ! i = us @ a # vs"
    and a: "m a = Some l"
  shows "\<exists>B m'. assign t m (if us = [] then Bucket_of i else Next_of (last us)) (hl_next l)
      = Some (t\<lparr>buckets := B\<rparr>, m') \<and> link_key m' = link_key m \<and> length B = ht_size t \<and>
    (\<forall>j < ht_size t. chain (links_next m') (B ! j) (bs[i := us @ vs] ! j))"
proof -
  note len = ht_rep_length [OF r]
  have c: "chain (links_next m) (buckets t ! i) (us @ a # vs)" using ht_rep_chain [OF r i] b by simp
  have tail: "chain (links_next m) (hl_next l) vs" using chain_next [OF c] a by simp
  show ?thesis
  proof (cases us rule: rev_cases)
    case Nil
    have "chain (links_next m) ((buckets t)[i := hl_next l] ! j) (bs[i := vs] ! j)"
      if "j < ht_size t" for j
      using ht_rep_chain [OF r that] tail that len by (cases "j = i") auto
    with Nil i len show ?thesis
      by (auto simp: assign_def arr_simps intro!: exI [of _ "(buckets t)[i := hl_next l]"])
  next
    case (snoc ws w)
    then have w: "chain (links_next m) (buckets t ! i) (ws @ w # a # vs)" using c by simp
    then obtain lw where lw: "m w = Some lw" using chain_next [OF w] by auto
    let ?m = "m(w \<mapsto> lw\<lparr>hl_next := hl_next l\<rparr>)"
    have "w \<notin> set vs" using chain_distinct [OF w] by simp
    then have upd: "chain (links_next ?m) (buckets t ! i) (us @ vs)"
      using chain_relink [OF w tail] unfolding links_next_upd snoc by (simp del: fun_upd_apply)
    have "chain (links_next ?m) (buckets t ! j) (bs[i := us @ vs] ! j)" if "j < ht_size t" for j
    proof (cases "j = i")
      case True
      then show ?thesis using upd i len by simp
    next
      case False
      have "w \<notin> set (bs ! j)"
        using ht_rep_key [OF r that, of w] ht_rep_key [OF r i, of w] b snoc False by auto
      then show ?thesis using False by (auto intro!: chain_frame [OF ht_rep_chain [OF r that]])
    qed
    moreover have "link_key ?m = link_key m" using lw by (rule link_key_next_upd)
    moreover have "t = t\<lparr>buckets := buckets t\<rparr>" by simp
    ultimately show ?thesis using snoc lw len
      by (auto simp: assign_def intro!: exI [of _ "buckets t"] exI [of _ ?m])
  qed
qed

definition slot_ok :: "'k hash_table \<Rightarrow> bool" where
  "slot_ok t \<longleftrightarrow> (ht_next t \<noteq> None \<longrightarrow> current_slot t < ht_size t)"

lemma hash_remove_rep:
  assumes r: "ht_rep t m bs" and so: "slot_ok t" and i: "i < ht_size t" and b: "a \<in> set (bs ! i)"
  shows "\<exists>t' m'. hash_remove_link t m a = Some (t', m') \<and> ht_rep t' m' (bs[i := remove1 a (bs ! i)]) \<and>
    slot_ok t' \<and> link_key m' = link_key m \<and> ht_cmp t' = ht_cmp t \<and> ht_hash t' = ht_hash t \<and>
    ht_size t' = ht_size t"
proof -
  note len = ht_rep_length [OF r]
  obtain us vs where uv: "bs ! i = us @ a # vs" "a \<notin> set us" using b by (metis split_list_first)
  then have rem: "remove1 a (bs ! i) = us @ vs" by (simp add: remove1_append)
  obtain k where k: "link_key m a = Some k" "ht_hash t k (ht_size t) = i" using ht_rep_key [OF r i b] by blast
  then obtain l where l: "m a = Some l" "hl_key l = Some k" by (auto elim: link_key_SomeE)
  let ?P = "if us = [] then Bucket_of i else Next_of (last us)"
  have "hash_find_loc t m a (Bucket_of i) = Some ?P"
    using hash_find_loc_chain [OF _ _ uv(2), of t m "Bucket_of i" "buckets t ! i" vs]
      ht_rep_chain [OF r i] uv(1) i len by (simp add: deref_def arr_simps)
  moreover from assign_unlink [OF r i uv(1) l(1)] obtain B m' where
    B: "assign t m ?P (hl_next l) = Some (t\<lparr>buckets := B\<rparr>, m')" "link_key m' = link_key m"
      "length B = ht_size t" "\<forall>j < ht_size t. chain (links_next m') (B ! j) (bs[i := us @ vs] ! j)"
    by blast
  ultimately have step: "hash_remove_link t m a =
    (if ht_next t = Some a
     then let hid = t\<lparr>buckets := B, ht_next := hl_next l\<rparr>
          in if hl_next l = None then hash_next_bucket hid else Some hid
     else Some (t\<lparr>buckets := B\<rparr>)) \<bind> (\<lambda>hid. Some (hid\<lparr>ht_count := to_int32 (ht_count hid - 1)\<rparr>, m'))"
    using l k(2) by (simp add: hash_remove_link_def Let_def)
  have "\<exists>s n. (if ht_next t = Some a
     then let hid = t\<lparr>buckets := B, ht_next := hl_next l\<rparr>
          in if hl_next l = None then hash_next_bucket hid else Some hid
     else Some (t\<lparr>buckets := B\<rparr>)) = Some (t\<lparr>buckets := B, current_slot := s, ht_next := n\<rparr>) \<and>
     (n \<noteq> None \<longrightarrow> s < ht_size t)"
  proof (cases "ht_next t = Some a \<and> hl_next l = None")
    case True
    let ?t = "t\<lparr>buckets := B, ht_next := None\<rparr>"
    have "length (buckets ?t) = ht_size ?t" "ht_size ?t < 2 ^ 32" "ht_next ?t = None"
      "current_slot ?t < ht_size ?t" using True so B(3) r by (simp_all add: slot_ok_def ht_rep_def)
    from hash_next_bucket_run [OF this] obtain j where
      "hash_next_bucket ?t = Some (?t\<lparr>current_slot := j,
         ht_next := if j < ht_size ?t then buckets ?t ! j else None\<rparr>)" by blast
    then show ?thesis using True
      by (intro exI [of _ j] exI [of _ "if j < ht_size t then B ! j else None"]) simp
  next
    case False
    then show ?thesis using so
      by (intro exI [of _ "current_slot t"]
            exI [of _ "if ht_next t = Some a then hl_next l else ht_next t"])
        (auto simp: slot_ok_def Let_def)
  qed
  then obtain s n where res: "hash_remove_link t m a = Some (t\<lparr>buckets := B, current_slot := s,
      ht_next := n, ht_count := to_int32 (ht_count t - 1)\<rparr>, m')" "n \<noteq> None \<longrightarrow> s < ht_size t"
    unfolding step by auto
  have "to_int32 (ht_count t - 1) = to_int32 (int (length (concat (bs[i := us @ vs]))))"
    using r len i uv(1) length_concat_update [of i bs "us @ vs"] to_int32_step [of _ "- 1"]
    by (simp add: ht_rep_def)
  moreover have "\<exists>k. link_key m x = Some k \<and> ht_hash t k (ht_size t) = j"
    if "j < ht_size t" "x \<in> set (bs[i := us @ vs] ! j)" for j x
    using that ht_rep_key [OF r that(1)] uv(1) len by (cases "j = i") auto
  ultimately have "ht_rep (t\<lparr>buckets := B, current_slot := s, ht_next := n,
      ht_count := to_int32 (ht_count t - 1)\<rparr>) m' (bs[i := us @ vs])"
    using B r unfolding ht_rep_def B(2) by simp
  then show ?thesis using res B(2) rem by (auto simp: slot_ok_def)
qed

subsection \<open>The contract of a table of links\<close>

text \<open>
  What the store relies on: \<open>rep s L\<close> says that state \<open>s\<close> holds, under each key \<open>k\<close>, the
  links \<open>L k\<close>, the most recently joined first.
\<close>

locale link_table =
  fixes rep :: "'s \<Rightarrow> ('k \<Rightarrow> addr list) \<Rightarrow> bool"
    and keyof :: "'s \<Rightarrow> addr \<Rightarrow> 'k option"
    and valid :: "'k \<Rightarrow> bool"
    and lookup :: "'s \<Rightarrow> 'k \<Rightarrow> addr option option"
    and join :: "'s \<Rightarrow> addr \<Rightarrow> 's option"
    and remove :: "'s \<Rightarrow> addr \<Rightarrow> 's option"
  assumes lookup_law:
      "rep s L \<Longrightarrow> valid k \<Longrightarrow> lookup s k = Some (case L k of [] \<Rightarrow> None | a # _ \<Rightarrow> Some a)"
    and join_law:
      "rep s L \<Longrightarrow> keyof s a = Some k \<Longrightarrow> valid k \<Longrightarrow> \<forall>k'. a \<notin> set (L k') \<Longrightarrow>
       \<exists>s'. join s a = Some s' \<and> rep s' (L(k := a # L k)) \<and> keyof s' = keyof s"
    and remove_law:
      "rep s L \<Longrightarrow> a \<in> set (L k) \<Longrightarrow>
       \<exists>s'. remove s a = Some s' \<and> rep s' (L(k := remove1 a (L k))) \<and> keyof s' = keyof s"
begin

lemma lookup_joined:
  assumes "rep s L" "keyof s a = Some k" "valid k" "\<forall>k'. a \<notin> set (L k')" "valid k'"
  shows "\<exists>s'. join s a = Some s' \<and> lookup s' k' = (if k' = k then Some (Some a) else lookup s k')"
proof -
  obtain s' where s': "join s a = Some s'" "rep s' (L(k := a # L k))"
    using join_law [OF assms(1-4)] by blast
  then have "lookup s' k' = Some (case (L(k := a # L k)) k' of [] \<Rightarrow> None | b # _ \<Rightarrow> Some b)"
    using lookup_law assms(5) by blast
  with s'(1) lookup_law [OF assms(1,5)] show ?thesis by (cases "k' = k") simp_all
qed

lemma join_then_remove:
  assumes "rep s L" "keyof s a = Some k" "valid k" "\<forall>k'. a \<notin> set (L k')"
  shows "\<exists>s' s''. join s a = Some s' \<and> remove s' a = Some s'' \<and> rep s'' L"
proof -
  obtain s' where s': "join s a = Some s'" "rep s' (L(k := a # L k))"
    using join_law [OF assms] by blast
  from remove_law [OF s'(2), of a k] obtain s'' where
    "remove s' a = Some s''" "rep s'' ((L(k := a # L k))(k := remove1 a ((L(k := a # L k)) k)))"
    by auto
  with s'(1) show ?thesis by auto
qed

lemma lookup_removed:
  assumes "rep s L" "L k = [a]" "valid k"
  shows "\<exists>s'. remove s a = Some s' \<and> lookup s' k = Some None"
proof -
  obtain s' where "remove s a = Some s'" "rep s' (L(k := remove1 a (L k)))"
    using remove_law [OF assms(1), of a k] assms(2) by auto
  with lookup_law [of s' "L(k := remove1 a (L k))" k] assms show ?thesis by auto
qed

end

text \<open>The hash table provides it, for keys on which \<open>cmp\<close> decides equality.\<close>

definition ht_links :: "('k \<Rightarrow> bool) \<Rightarrow> 'k hash_table \<Rightarrow> 'k link_mem \<Rightarrow> addr list list \<Rightarrow> 'k \<Rightarrow> addr list" where
  "ht_links valid t m bs k =
     (if valid k then filter (\<lambda>a. link_key m a = Some k) (bs ! ht_hash t k (ht_size t)) else [])"

definition ht_state :: "('k \<Rightarrow> bool) \<Rightarrow> 'k hash_table \<times> 'k link_mem \<Rightarrow> ('k \<Rightarrow> addr list) \<Rightarrow> bool" where
  "ht_state valid s L \<longleftrightarrow>
     (case s of (t, m) \<Rightarrow>
        \<exists>bs. ht_rep t m bs \<and> slot_ok t \<and> L = ht_links valid t m bs \<and>
          (\<forall>k. valid k \<longrightarrow> ht_hash t k (ht_size t) < ht_size t) \<and>
          (\<forall>k k'. valid k \<longrightarrow> valid k' \<longrightarrow> ht_cmp t k k' = 0 \<longleftrightarrow> k = k') \<and>
          (\<forall>a \<in> set (concat bs). \<exists>k. link_key m a = Some k \<and> valid k))"

lemma find_filter: "find P xs = (case filter P xs of [] \<Rightarrow> None | a # _ \<Rightarrow> Some a)"
  by (induction xs) auto

lemma ht_lookup_law:
  assumes "ht_state valid s L" "valid k"
  shows "(\<lambda>(t, m) k. hash_lookup t m k) s k = Some (case L k of [] \<Rightarrow> None | a # _ \<Rightarrow> Some a)"
proof -
  obtain t m bs where s: "s = (t, m)" "ht_rep t m bs" "L = ht_links valid t m bs"
    "ht_hash t k (ht_size t) < ht_size t"
    "\<forall>k k'. valid k \<longrightarrow> valid k' \<longrightarrow> ht_cmp t k k' = 0 \<longleftrightarrow> k = k'"
    "\<forall>a \<in> set (concat bs). \<exists>k. link_key m a = Some k \<and> valid k"
    using assms by (auto simp: ht_state_def)
  let ?b = "bs ! ht_hash t k (ht_size t)"
  have "ht_cmp t k (the (link_key m a)) = 0 \<longleftrightarrow> link_key m a = Some k" if "a \<in> set ?b" for a
  proof -
    have "a \<in> set (concat bs)" using that s(4) ht_rep_length [OF s(2)] by auto
    then obtain k' where "link_key m a = Some k'" "valid k'" using s(6) by blast
    then show ?thesis using s(5) assms(2) by auto
  qed
  then have "find (\<lambda>a. ht_cmp t k (the (link_key m a)) = 0) ?b = find (\<lambda>a. link_key m a = Some k) ?b"
    by (auto intro: find_cong)
  then show ?thesis
    using hash_lookup_find [OF s(2,4)] s(1,3) assms(2) by (simp add: ht_links_def find_filter)
qed

lemma ht_links_mem:
  assumes "ht_rep t m bs" "\<forall>a \<in> set (concat bs). \<exists>k. link_key m a = Some k \<and> valid k"
  shows "a \<in> set (concat bs) \<longleftrightarrow> (\<exists>k. a \<in> set (ht_links valid t m bs k) \<and> ht_hash t k (ht_size t) < ht_size t)"
proof
  assume a: "a \<in> set (concat bs)"
  then obtain i where i: "i < ht_size t" "a \<in> set (bs ! i)"
    using ht_rep_length [OF assms(1)] by (auto simp: in_set_conv_nth [of _ bs])
  then obtain k where "link_key m a = Some k" "ht_hash t k (ht_size t) = i"
    using ht_rep_key [OF assms(1)] by blast
  moreover have "valid k" using a assms(2) calculation(1) by fastforce
  ultimately show "\<exists>k. a \<in> set (ht_links valid t m bs k) \<and> ht_hash t k (ht_size t) < ht_size t"
    using i by (intro exI [of _ k]) (auto simp: ht_links_def)
next
  assume "\<exists>k. a \<in> set (ht_links valid t m bs k) \<and> ht_hash t k (ht_size t) < ht_size t"
  then show "a \<in> set (concat bs)"
    using ht_rep_length [OF assms(1)] by (auto simp: ht_links_def split: if_splits)
qed

lemma ht_join_law:
  assumes "ht_state valid s L" "link_key (snd s) a = Some k" "valid k" "\<forall>k'. a \<notin> set (L k')"
  shows "\<exists>s'. (\<lambda>(t, m) a. hash_join t m a) s a = Some s' \<and> ht_state valid s' (L(k := a # L k)) \<and>
    link_key (snd s') = link_key (snd s)"
proof -
  obtain t m bs where s: "s = (t, m)" "ht_rep t m bs" "slot_ok t" "L = ht_links valid t m bs"
    "\<forall>k. valid k \<longrightarrow> ht_hash t k (ht_size t) < ht_size t"
    "\<forall>k k'. valid k \<longrightarrow> valid k' \<longrightarrow> ht_cmp t k k' = 0 \<longleftrightarrow> k = k'"
    "\<forall>a \<in> set (concat bs). \<exists>k. link_key m a = Some k \<and> valid k"
    using assms(1) by (auto simp: ht_state_def)
  let ?i = "ht_hash t k (ht_size t)"
  have i: "?i < ht_size t" using s(5) assms(3) by blast
  have "a \<notin> set (concat bs)" using ht_links_mem [OF s(2,7)] assms(4) s(4) by blast
  from hash_join_rep [OF s(2) _ this refl i] assms(2) s(1) obtain t' m' where
    r: "hash_join t m a = Some (t', m')" "ht_rep t' m' (bs[?i := a # bs ! ?i])"
      "link_key m' = link_key m" "ht_cmp t' = ht_cmp t" "ht_hash t' = ht_hash t"
      "ht_size t' = ht_size t" "ht_next t' = ht_next t" "current_slot t' = current_slot t" by auto
  have "L(k := a # L k) = ht_links valid t' m' (bs[?i := a # bs ! ?i])"
  proof
    fix k'
    show "(L(k := a # L k)) k' = ht_links valid t' m' (bs[?i := a # bs ! ?i]) k'"
      using s(1,4) r(3,5,6) assms(2,3) i ht_rep_length [OF s(2)]
      by (cases "ht_hash t k' (ht_size t) = ?i") (auto simp: ht_links_def)
  qed
  moreover have "\<forall>x \<in> set (concat (bs[?i := a # bs ! ?i])). \<exists>k. link_key m' x = Some k \<and> valid k"
  proof -
    have "bs ! ?i \<in> set bs" using i ht_rep_length [OF s(2)] by simp
    then have "set (concat (bs[?i := a # bs ! ?i])) \<subseteq> insert a (set (concat bs))"
      using set_update_subset_insert [of bs ?i "a # bs ! ?i"] by fastforce
    then show ?thesis using s(1,7) r(3) assms(2,3) by auto
  qed
  ultimately have "ht_state valid (t', m') (L(k := a # L k))"
    using r(2,4-8) s(3,5,6) unfolding ht_state_def slot_ok_def by auto
  with r(1,3) s(1) show ?thesis by auto
qed

lemma ht_remove_law:
  assumes "ht_state valid s L" "a \<in> set (L k)"
  shows "\<exists>s'. (\<lambda>(t, m) a. hash_remove_link t m a) s a = Some s' \<and>
    ht_state valid s' (L(k := remove1 a (L k))) \<and> link_key (snd s') = link_key (snd s)"
proof -
  obtain t m bs where s: "s = (t, m)" "ht_rep t m bs" "slot_ok t" "L = ht_links valid t m bs"
    "\<forall>k. valid k \<longrightarrow> ht_hash t k (ht_size t) < ht_size t"
    "\<forall>k k'. valid k \<longrightarrow> valid k' \<longrightarrow> ht_cmp t k k' = 0 \<longleftrightarrow> k = k'"
    "\<forall>a \<in> set (concat bs). \<exists>k. link_key m a = Some k \<and> valid k"
    using assms(1) by (auto simp: ht_state_def)
  let ?i = "ht_hash t k (ht_size t)"
  have k: "valid k" "a \<in> set (bs ! ?i)" "link_key m a = Some k"
    using assms(2) s(4) by (auto simp: ht_links_def split: if_splits)
  have i: "?i < ht_size t" using s(5) k(1) by blast
  from hash_remove_rep [OF s(2,3) i k(2)] obtain t' m' where
    r: "hash_remove_link t m a = Some (t', m')" "ht_rep t' m' (bs[?i := remove1 a (bs ! ?i)])"
      "slot_ok t'" "link_key m' = link_key m" "ht_cmp t' = ht_cmp t" "ht_hash t' = ht_hash t"
      "ht_size t' = ht_size t" by auto
  have "L(k := remove1 a (L k)) = ht_links valid t' m' (bs[?i := remove1 a (bs ! ?i)])"
  proof
    fix k'
    show "(L(k := remove1 a (L k))) k' = ht_links valid t' m' (bs[?i := remove1 a (bs ! ?i)]) k'"
      using s(4) r(4,6,7) k i ht_rep_length [OF s(2)]
      by (cases "ht_hash t k' (ht_size t) = ?i") (auto simp: ht_links_def filter_remove1 remove1_idem)
  qed
  moreover have "\<forall>x \<in> set (concat (bs[?i := remove1 a (bs ! ?i)])). \<exists>k. link_key m' x = Some k \<and> valid k"
  proof -
    have "bs ! ?i \<in> set bs" using i ht_rep_length [OF s(2)] by simp
    then have "set (concat (bs[?i := remove1 a (bs ! ?i)])) \<subseteq> set (concat bs)"
      using set_update_subset_insert [of bs ?i "remove1 a (bs ! ?i)"] set_remove1_subset
      by fastforce
    then show ?thesis using s(7) r(4) by auto
  qed
  ultimately have "ht_state valid (t', m') (L(k := remove1 a (L k)))"
    using r(2,3,5-7) s(5,6) unfolding ht_state_def by auto
  with r(1,4) s(1) show ?thesis by auto
qed

interpretation ht: link_table "ht_state valid" "\<lambda>s. link_key (snd s)" valid
  "\<lambda>(t, m) k. hash_lookup t m k" "\<lambda>(t, m) a. hash_join t m a" "\<lambda>(t, m) a. hash_remove_link t m a"
  for valid
  by unfold_locales (rule ht_lookup_law ht_join_law ht_remove_law; assumption)+

lemma distinct_concat_nth:
  "\<forall>i < length bs. distinct (bs ! i) \<Longrightarrow>
   \<forall>i < length bs. \<forall>j < length bs. i \<noteq> j \<longrightarrow> set (bs ! i) \<inter> set (bs ! j) = {} \<Longrightarrow> distinct (concat bs)"
proof (induction bs)
  case Nil
  then show ?case by simp
next
  case (Cons b bs)
  have "distinct (concat bs)"
  proof (rule Cons.IH)
    show "\<forall>i < length bs. distinct (bs ! i)" using Cons.prems(1) by fastforce
    show "\<forall>i < length bs. \<forall>j < length bs. i \<noteq> j \<longrightarrow> set (bs ! i) \<inter> set (bs ! j) = {}"
      using Cons.prems(2) by fastforce
  qed
  moreover have "set b \<inter> set (concat bs) = {}"
  proof -
    have "set b \<inter> set (bs ! j) = {}" if "j < length bs" for j
      using Cons.prems(2) [rule_format, of 0 "Suc j"] that by simp
    then show ?thesis by (auto simp: in_set_conv_nth [of _ bs]) blast
  qed
  moreover have "distinct b" using Cons.prems(1) by fastforce
  ultimately show ?case by simp
qed

lemma ht_rep_distinct: "ht_rep t m bs \<Longrightarrow> distinct (concat bs)"
proof (rule distinct_concat_nth)
  assume r: "ht_rep t m bs"
  show "\<forall>i < length bs. distinct (bs ! i)"
    using ht_rep_chain [OF r] chain_distinct ht_rep_length [OF r] by fastforce
  show "\<forall>i < length bs. \<forall>j < length bs. i \<noteq> j \<longrightarrow> set (bs ! i) \<inter> set (bs ! j) = {}"
  proof (intro allI impI)
    fix i j assume ij: "i < length bs" "j < length bs" "i \<noteq> j"
    then have "i < ht_size t" "j < ht_size t" using ht_rep_length [OF r] by auto
    then show "set (bs ! i) \<inter> set (bs ! j) = {}"
      using ht_rep_key [OF r, of i] ht_rep_key [OF r, of j] ij(3) by fastforce
  qed
qed

subsection \<open>The unrolled hash\<close>

lemma hash4_switch_foldl:
  "n \<le> length key \<Longrightarrow> hash4_switch n (h, key)
    = (foldl (\<lambda>h c. 33 * h + char_to_unsigned c) h (take n key), drop n key)"
proof (induction n arbitrary: h key)
  case 0
  then show ?case by simp
next
  case (Suc n)
  then obtain c cs where key: "key = c # cs" by (cases key) auto
  have "push_bit 5 h + h = 33 * h" by (simp add: push_bit_eq_mult)
  with Suc key show ?case by (simp add: HASH4_def)
qed

lemma hash4_while_switch: "hash4_while n hk = hash4_switch (8 * n) hk"
proof (induction n arbitrary: hk)
  case 0
  then show ?case by simp
next
  case (Suc n)
  have "8 * Suc n = Suc (Suc (Suc (Suc (Suc (Suc (Suc (Suc (8 * n))))))))" by simp
  then show ?case using Suc by (simp only: hash4_switch.simps hash4_while.simps)
qed

lemma hash4_foldl:
  "hash4 key sz = unat (foldl (\<lambda>h c. 33 * h + char_to_unsigned c) 0 key) mod sz"
proof -
  let ?n = "length key"
  have n: "?n AND 7 = ?n mod 8" using take_bit_eq_mask [of 3 ?n]
    by (simp add: take_bit_eq_mod mask_eq_exp_minus_1)
  have "hash4_while (drop_bit 3 ?n) (hash4_switch (?n AND 7) (0, key))
    = (foldl (\<lambda>h c. 33 * h + char_to_unsigned c) 0 (take (?n mod 8) key @ drop (?n mod 8) key), [])"
    unfolding n hash4_while_switch drop_bit_eq_div
    by (simp add: hash4_switch_foldl minus_mod_eq_mult_div [symmetric] del: foldl_append
        flip: foldl_append)
  then show ?thesis by (simp only: hash4_def Let_def append_take_drop_id split)
qed

subsection \<open>Properties\<close>

text \<open>Joining a link that is in no bucket makes it the link that a lookup of its key
  returns and leaves the result of every other lookup as it was; no access of the two
  operations is out of range and no assertion fires.\<close>

theorem hash_join_lookup:
  assumes "ht_state valid (t, m) L" "link_key m a = Some k" "valid k" "\<forall>k'. a \<notin> set (L k')" "valid k'"
  shows "\<exists>t' m'. hash_join t m a = Some (t', m') \<and>
    hash_lookup t' m' k' = (if k' = k then Some (Some a) else hash_lookup t m k')"
  using ht.lookup_joined [of valid "(t, m)" L a k k'] assms by auto

definition demo_mem :: "string link_mem" where
  "demo_mem = [1 \<mapsto> \<lparr>hl_key = Some ''a'', hl_next = None\<rparr>, 2 \<mapsto> \<lparr>hl_key = Some ''h'', hl_next = None\<rparr>]"

lemma hash_create_rep:
  assumes "0 < hash_sz" "hash_sz < 2 ^ 31"
  shows "ht_rep (hash_create c hash_sz h) m (replicate (nat hash_sz) [])"
  using assms by (auto simp: ht_rep_def hash_create_def to_int32_def Let_def)

lemma hash_create_state:
  assumes "0 < hash_sz" "hash_sz < 2 ^ 31"
    "\<forall>k. valid k \<longrightarrow> h k (nat hash_sz) < nat hash_sz" "\<forall>k k'. valid k \<longrightarrow> valid k' \<longrightarrow> c k k' = 0 \<longleftrightarrow> k = k'"
  shows "ht_state valid (hash_create c hash_sz h, m) (\<lambda>k. [])"
proof -
  have "ht_links valid (hash_create c hash_sz h) m (replicate (nat hash_sz) []) = (\<lambda>k. [])"
    using assms by (auto simp: ht_links_def hash_create_def Let_def)
  then show ?thesis
    using hash_create_rep [OF assms(1,2), of c h m] assms
    by (auto simp: ht_state_def slot_ok_def hash_create_def Let_def intro!: exI [of _ "replicate (nat hash_sz) []"])
qed

theorem hash_join_lookup_witness:
  "\<exists>t' m'. hash_join (hash_create (\<lambda>x y. if x = y then 0 else 1) 7 hash4) demo_mem 1 = Some (t', m') \<and>
    hash_lookup t' m' ''a'' = Some (Some 1)"
proof -
  have "ht_state (\<lambda>_. True) (hash_create (\<lambda>x y. if x = y then 0 else 1) 7 hash4, demo_mem) (\<lambda>k. [])"
    by (rule hash_create_state) (auto simp: hash4_def Let_def split: prod.splits)
  from hash_join_lookup [OF this, of 1 "''a''" "''a''"] show ?thesis
    by (auto simp: demo_mem_def link_key_def)
qed

text \<open>C21: Removing a link that was just joined succeeds and gives a table that holds, under
  every key, exactly the links it held before, in the same order.\<close>

theorem hash_join_remove_roundtrip:
  assumes "ht_state valid (t, m) L" "link_key m a = Some k" "valid k" "\<forall>k'. a \<notin> set (L k')"
  shows "\<exists>t' m' t'' m''. hash_join t m a = Some (t', m') \<and> hash_remove_link t' m' a = Some (t'', m'') \<and>
    ht_state valid (t'', m'') L"
  using ht.join_then_remove [of valid "(t, m)" L a k] assms by auto

theorem hash_join_remove_roundtrip_witness:
  "\<exists>t' m' t'' m''. hash_join (hash_create (\<lambda>x y. if x = y then 0 else 1) 7 hash4) demo_mem 2 = Some (t', m') \<and>
    hash_remove_link t' m' 2 = Some (t'', m'') \<and> ht_state (\<lambda>_. True) (t'', m'') (\<lambda>k. [])"
proof -
  have "ht_state (\<lambda>_. True) (hash_create (\<lambda>x y. if x = y then 0 else 1) 7 hash4, demo_mem) (\<lambda>k. [])"
    by (rule hash_create_state) (auto simp: hash4_def Let_def split: prod.splits)
  from hash_join_remove_roundtrip [OF this, of 2 "''h''"] show ?thesis
    by (auto simp: demo_mem_def link_key_def)
qed

text \<open>\<open>hashFreeItems\<close> on a table that is not being iterated terminates, hands every
  link of the table to the free function exactly once, bucket by bucket, and leaves the
  iterator reset.\<close>

theorem hashFreeItems_complete:
  assumes "ht_rep t m bs" "ht_next t = None" "length (concat bs) < 2 ^ 31"
  shows "\<exists>t'. hashFreeItems t m = Some (concat bs, t') \<and> ht_next t' = None \<and> distinct (concat bs)"
proof -
  have cnt: "ht_count t = int (length (concat bs))"
    using assms(1,3) by (simp add: ht_rep_def to_int32_id in_int32_def)
  obtain j n' where f: "hash_first t = Some (t\<lparr>current_slot := j, ht_next := n'\<rparr>)"
    "ht_at (t\<lparr>current_slot := j, ht_next := n'\<rparr>) m bs (concat bs)"
    using hash_first_at [OF assms(1,2)] by blast
  have "distinct (concat bs)"
    using assms(1) by (rule ht_rep_distinct)
  with hash_collect_all [OF _ f(2), of "[]"] assms(1) f(1) cnt show ?thesis
    by (auto simp: hashFreeItems_def ht_rep_slot)
qed

definition demo_table :: "string hash_table" where
  "demo_table = \<lparr>buckets = [Some 1, Some 2], ht_cmp = (\<lambda>x y. if x = y then 0 else 1),
     ht_hash = (\<lambda>k n. if k = ''a'' then 0 else 1), ht_size = 2, current_slot = 0, ht_next = None,
     ht_count = 2\<rparr>"

theorem hashFreeItems_complete_witness:
  "\<exists>t'. hashFreeItems demo_table demo_mem = Some ([1, 2], t') \<and> ht_next t' = None \<and> distinct [1, 2 :: addr]"
proof -
  have "ht_rep demo_table demo_mem [[1], [2]]"
    by (auto simp: ht_rep_def demo_table_def demo_mem_def link_key_def chain_Cons_iff to_int32_def
        less_2_cases_iff)
  from hashFreeItems_complete [OF this] show ?thesis by (simp add: demo_table_def)
qed

text \<open>The eight-fold unrolled loop of \<open>hash4\<close>, with its fall-through switch for the
  odd characters, computes the plain iteration h = 33 * h + c over the key.\<close>

theorem hash4_is_foldl:
  "hash4 key sz = unat (foldl (\<lambda>h c. 33 * h + char_to_unsigned c) 0 key) mod sz"
  by (rule hash4_foldl)

end
