(* ===== verification/YoutubeTable.thy ===== *)
theory YoutubeTable
  imports StoreKey Hash
begin

section \<open>The YouTube chunk table (store.c, store_swapout.c, store_rebuild.c)\<close>

text \<open>
  HappyStream's addition to Squid: a video chunk is identified by the \<open>lmt\<close> and \<open>range\<close>
  parameters of its URL, and a linked list maps the pair to the key under which the chunk
  was swapped out, so that a request for the same chunk through another URL is a hit. The
  list is kept in memory (\<open>youtubeTable\<close>) and in the file \<open>youtubetable.state\<close>, which is
  read back when the store has been rebuilt.

  Nodes are objects of a memory, allocated at increasing addresses; \<open>yt_rep\<close> relates the
  pointer structure to the list of chunks. Every copy into a fixed-size array is checked:
  \<open>None\<close> is an overflow, a read past the end of an object, or a null dereference.
\<close>

subsection \<open>Data (structs.h)\<close>

record YoutubeChunk =
  c_lmt :: string
  c_startRange :: int
  c_endRange :: int
  c_dataDigest :: string
  c_swapoutDigest :: string

record YoutubeNode = YoutubeChunk +
  c_next :: "addr option"

record YoutubeChunkTable =
  yt_head :: "addr option"
  yt_size :: int
  yt_mem :: "addr \<Rightarrow> YoutubeNode option"
  yt_brk :: addr

subsection \<open>URL parameters (store.c)\<close>

definition isYouTubeUrl :: "string \<Rightarrow> bool" where
  "isYouTubeUrl url \<longleftrightarrow> strstr url ''/videoplayback?'' \<noteq> None"

text \<open>\<open>for (i = 0; p[i] != stop; ++i) result[i] = p[i]\<close> with \<open>n\<close> bytes of room.\<close>

fun copy_until :: "char \<Rightarrow> nat \<Rightarrow> char list \<Rightarrow> char list option" where
  "copy_until stop n [] = None"
| "copy_until stop n (c # cs) =
     (if c = stop then Some []
      else case n of 0 \<Rightarrow> None | Suc n' \<Rightarrow> map_option (Cons c) (copy_until stop n' cs))"

fun copy_digits :: "nat \<Rightarrow> char list \<Rightarrow> char list option" where
  "copy_digits n [] = None"
| "copy_digits n (c # cs) =
     (if isdigit c
      then case n of 0 \<Rightarrow> None | Suc n' \<Rightarrow> map_option (Cons c) (copy_digits n' cs)
      else Some [])"

fun skip_until :: "char \<Rightarrow> char list \<Rightarrow> char list option" where
  "skip_until stop [] = None"
| "skip_until stop (c # cs) = (if c = stop then Some (c # cs) else skip_until stop cs)"

text \<open>A zeroed array of \<open>n\<close> bytes whose first bytes were overwritten.\<close>

definition zeroed :: "nat \<Rightarrow> char list \<Rightarrow> char list" where
  "zeroed n s = s @ replicate (n - length s) NUL"

text \<open>The inner \<open>None\<close> is the null pointer returned when there is no \<open>lmt=\<close>.\<close>

definition getLmtFromUrl :: "string \<Rightarrow> char list option option" where
  "getLmtFromUrl url =
     (case strstr url ''lmt='' of
        None \<Rightarrow> Some None
      | Some ptr \<Rightarrow> do {
          s \<leftarrow> copy_until (CHR ''&'') 20 (drop 4 (ptr @ [NUL]));
          Some (Some (zeroed 20 s)) })"

definition getStartRangeFromUrl :: "string \<Rightarrow> int option" where
  "getStartRangeFromUrl url =
     (case strstr url ''&range='' of
        None \<Rightarrow> Some 0
      | Some ptr \<Rightarrow> do {
          s \<leftarrow> copy_until (CHR ''-'') 30 (drop 7 (ptr @ [NUL]));
          atoi (zeroed 30 s) })"

definition getEndRangeFromUrl :: "string \<Rightarrow> int option" where
  "getEndRangeFromUrl url =
     (case strstr url ''&range='' of
        None \<Rightarrow> Some 0
      | Some ptr \<Rightarrow> do {
          p \<leftarrow> skip_until (CHR ''-'') (drop 7 (ptr @ [NUL]));
          s \<leftarrow> copy_digits 30 (drop 1 p);
          atoi (zeroed 30 s) })"

text \<open>\<open>strcpy(lmt, getLmtFromUrl(url))\<close> and the two ranges, as both callers read them.\<close>

definition url_chunk_id :: "string \<Rightarrow> (string \<times> int \<times> int) option" where
  "url_chunk_id url = do {
     r \<leftarrow> getLmtFromUrl url;
     buf \<leftarrow> r;
     s \<leftarrow> cstr_of_buf buf;
     lmt \<leftarrow> strcpy_into 20 s;
     startRange \<leftarrow> getStartRangeFromUrl url;
     endRange \<leftarrow> getEndRangeFromUrl url;
     Some (lmt, startRange, endRange) }"

subsection \<open>The table in memory (store_swapout.c)\<close>

definition yt_empty :: "addr \<Rightarrow> YoutubeChunkTable" where
  "yt_empty brk = \<lparr>yt_head = None, yt_size = 0, yt_mem = (\<lambda>_. None), yt_brk = brk\<rparr>"

definition chunk_matches :: "string \<Rightarrow> int \<Rightarrow> int \<Rightarrow> 'a YoutubeChunk_scheme \<Rightarrow> bool" where
  "chunk_matches lmt startRange endRange c \<longleftrightarrow>
     c_lmt c = lmt \<and> c_startRange c = startRange \<and> c_endRange c = endRange"

fun match_loop ::
  "(addr \<Rightarrow> YoutubeNode option) \<Rightarrow> string \<Rightarrow> int \<Rightarrow> int \<Rightarrow> nat \<Rightarrow> addr option \<Rightarrow> cache_key option option" where
  "match_loop mem lmt s e 0 currNode = Some None"
| "match_loop mem lmt s e (Suc i) currNode =
     (case currNode of
        None \<Rightarrow> None
      | Some a \<Rightarrow> do {
          c \<leftarrow> mem a;
          if chunk_matches lmt s e c
          then do { k \<leftarrow> storeKeyScan (c_swapoutDigest c @ [NUL]); Some (Some k) }
          else match_loop mem lmt s e i (c_next c) })"

definition getMatchedSwapoutKey ::
  "YoutubeChunkTable \<Rightarrow> string \<Rightarrow> int \<Rightarrow> int \<Rightarrow> cache_key option option" where
  "getMatchedSwapoutKey yt lmt startRange endRange =
     match_loop (yt_mem yt) lmt startRange endRange (nat (yt_size yt)) (yt_head yt)"

fun walk_next :: "(addr \<Rightarrow> YoutubeNode option) \<Rightarrow> nat \<Rightarrow> addr option \<Rightarrow> addr option option" where
  "walk_next mem 0 currNode = Some currNode"
| "walk_next mem (Suc i) currNode =
     (case currNode of None \<Rightarrow> None
      | Some a \<Rightarrow> do { c \<leftarrow> mem a; walk_next mem i (c_next c) })"

definition insertChunkToYoutubeChunkTable ::
  "YoutubeChunkTable \<Rightarrow> string \<Rightarrow> int \<Rightarrow> int \<Rightarrow> string \<Rightarrow> string \<Rightarrow> YoutubeChunkTable option" where
  "insertChunkToYoutubeChunkTable yt lmt startRange endRange dataDigest swapoutDigest = do {
     let newNode = yt_brk yt;
     l \<leftarrow> strcpy_into 20 lmt;
     d \<leftarrow> strcpy_into 40 dataDigest;
     s \<leftarrow> strcpy_into 40 swapoutDigest;
     let mem = (yt_mem yt)(newNode \<mapsto> \<lparr>c_lmt = l, c_startRange = startRange, c_endRange = endRange,
                  c_dataDigest = d, c_swapoutDigest = s, c_next = None\<rparr>);
     currNode \<leftarrow> walk_next mem (nat (yt_size yt - 1)) (yt_head yt);
     let yt = yt\<lparr>yt_mem := mem, yt_brk := newNode + 1\<rparr>;
     yt \<leftarrow> (if yt_size yt = 0 then Some (yt\<lparr>yt_head := Some newNode\<rparr>)
            else do { a \<leftarrow> currNode; c \<leftarrow> mem a;
                      Some (yt\<lparr>yt_mem := mem(a \<mapsto> c\<lparr>c_next := Some newNode\<rparr>)\<rparr>) });
     c_assert (in_int32 (yt_size yt + 1));
     Some (yt\<lparr>yt_size := yt_size yt + 1\<rparr>) }"

subsection \<open>The table file (store_swapout.c, store_rebuild.c)\<close>

text \<open>The text \<open>appendChunkToTableFile\<close> appends: \<open>dprintf(fd, "%s,%015d,%015d,%s,%s@\n", ...)\<close>.\<close>

definition chunk_record :: "string \<Rightarrow> int \<Rightarrow> int \<Rightarrow> string \<Rightarrow> string \<Rightarrow> string" where
  "chunk_record lmt startRange endRange dataDigest swapoutDigest =
     lmt @ '','' @ fmt_0d 15 startRange @ '','' @ fmt_0d 15 endRange @ '','' @ dataDigest
       @ '','' @ swapoutDigest @ ''@'' @ [CHR 0x0A]"

text \<open>The table file of each cache directory, and the path built for it in a \<open>char[256]\<close>.\<close>

definition table_path_fits :: "string \<Rightarrow> bool" where
  "table_path_fits path \<longleftrightarrow> length (path @ ''/youtubetable.state'') < 256"

definition appendChunkToTableFile ::
  "(int \<Rightarrow> string) \<Rightarrow> (int \<Rightarrow> string) \<Rightarrow> string \<Rightarrow> int \<Rightarrow> int \<Rightarrow> string \<Rightarrow> string \<Rightarrow> int \<Rightarrow> (int \<Rightarrow> string) option" where
  "appendChunkToTableFile swapDirs files lmt startRange endRange dataDigest swapoutDigest swap_dirn = do {
     c_assert (table_path_fits (swapDirs swap_dirn));
     Some (files(swap_dirn := files swap_dirn
             @ chunk_record lmt startRange endRange dataDigest swapoutDigest)) }"

text \<open>
  One iteration of the read loop of \<open>readChunkFromTableFile\<close>: \<open>buf\<close> is the 120-byte buffer,
  \<open>temp\<close> the 20-byte array, which the source never initialises.
\<close>

definition parse_chunk ::
  "char list \<Rightarrow> char list \<Rightarrow> YoutubeChunkTable \<Rightarrow> (char list \<times> YoutubeChunkTable) option" where
  "parse_chunk buf temp yt = do {
     lmt \<leftarrow> strncpy_buf (replicate 20 NUL) buf 16;
     temp \<leftarrow> strncpy_buf temp (drop 17 buf) 15;
     startRange \<leftarrow> atoi temp;
     temp \<leftarrow> strncpy_buf temp (drop 33 buf) 15;
     endRange \<leftarrow> atoi temp;
     dataDigest \<leftarrow> strncpy_buf (replicate 40 NUL) (drop 49 buf) 32;
     swapoutDigest \<leftarrow> strncpy_buf (replicate 40 NUL) (drop 82 buf) 32;
     lmt \<leftarrow> cstr_of_buf lmt;
     dataDigest \<leftarrow> cstr_of_buf dataDigest;
     swapoutDigest \<leftarrow> cstr_of_buf swapoutDigest;
     yt \<leftarrow> insertChunkToYoutubeChunkTable yt lmt startRange endRange dataDigest swapoutDigest;
     Some (temp, yt) }"

function read_chunks ::
  "string \<Rightarrow> char list \<Rightarrow> char list \<Rightarrow> YoutubeChunkTable \<Rightarrow> YoutubeChunkTable option" where
  "read_chunks file buf temp yt =
     (let got = take 116 file; n = length got
      in if n > 0
         then do {
           let buf = got @ drop n buf;
           (temp, yt) \<leftarrow> parse_chunk buf temp yt;
           read_chunks (drop 116 file) buf temp yt }
         else Some yt)"
  by pat_completeness auto
termination by (relation "measure (\<lambda>(file, _). length file)") auto

declare read_chunks.simps [simp del]

text \<open>The file read is always the one of the first cache directory.\<close>

definition readChunkFromTableFile ::
  "(int \<Rightarrow> string) \<Rightarrow> (int \<Rightarrow> string) \<Rightarrow> char list \<Rightarrow> YoutubeChunkTable \<Rightarrow> YoutubeChunkTable option" where
  "readChunkFromTableFile swapDirs files junk yt = do {
     c_assert (table_path_fits (swapDirs 0));
     read_chunks (files 0) (replicate 120 NUL) junk yt }"

text \<open>The end of \<open>storeRebuildComplete\<close>: the table is emptied and the file read.\<close>

definition rebuild_youtube_table ::
  "(int \<Rightarrow> string) \<Rightarrow> (int \<Rightarrow> string) \<Rightarrow> char list \<Rightarrow> YoutubeChunkTable \<Rightarrow> YoutubeChunkTable option" where
  "rebuild_youtube_table swapDirs files junk yt =
     readChunkFromTableFile swapDirs files junk (yt\<lparr>yt_head := None, yt_size := 0\<rparr>)"

subsection \<open>The list a table represents\<close>

abbreviation nodes_next :: "(addr \<Rightarrow> YoutubeNode option) \<Rightarrow> addr \<Rightarrow> addr option option" where
  "nodes_next mem \<equiv> \<lambda>a. map_option c_next (mem a)"

definition chunk_at :: "(addr \<Rightarrow> YoutubeNode option) \<Rightarrow> addr \<Rightarrow> YoutubeChunk option" where
  "chunk_at mem a = map_option YoutubeChunk.truncate (mem a)"

definition yt_rep :: "YoutubeChunkTable \<Rightarrow> YoutubeChunk list \<Rightarrow> bool" where
  "yt_rep yt cs \<longleftrightarrow>
     (\<exists>as. chain (nodes_next (yt_mem yt)) (yt_head yt) as \<and>
        map (chunk_at (yt_mem yt)) as = map Some cs \<and> (\<forall>a \<in> set as. a < yt_brk yt)) \<and>
     yt_size yt = int (length cs)"

text \<open>What a query of a list of chunks gives: the key of the first match.\<close>

definition find_chunk_key :: "YoutubeChunk list \<Rightarrow> string \<Rightarrow> int \<Rightarrow> int \<Rightarrow> cache_key option option" where
  "find_chunk_key cs lmt s e =
     (case find (chunk_matches lmt s e) cs of
        None \<Rightarrow> Some None
      | Some c \<Rightarrow> map_option Some (storeKeyScan (c_swapoutDigest c @ [NUL])))"

definition chunk_fits :: "YoutubeChunk \<Rightarrow> bool" where
  "chunk_fits c \<longleftrightarrow> length (c_lmt c) < 20 \<and> length (c_dataDigest c) < 40 \<and> length (c_swapoutDigest c) < 40"

definition insert_chunk :: "YoutubeChunkTable \<Rightarrow> YoutubeChunk \<Rightarrow> YoutubeChunkTable option" where
  "insert_chunk yt c = insertChunkToYoutubeChunkTable yt (c_lmt c) (c_startRange c) (c_endRange c)
     (c_dataDigest c) (c_swapoutDigest c)"

lemma chunk_matches_truncate [simp]:
  "chunk_matches lmt s e (YoutubeChunk.truncate c) = chunk_matches lmt s e c"
  by (simp add: chunk_matches_def YoutubeChunk.truncate_def)

lemma match_loop_find:
  assumes "chain (nodes_next mem) p as" "map (chunk_at mem) as = map Some cs"
  shows "match_loop mem lmt s e (length as) p = find_chunk_key cs lmt s e"
  using assms
proof (induction as arbitrary: p cs)
  case Nil
  then show ?case by (simp add: find_chunk_key_def)
next
  case (Cons a as)
  then obtain c cs' where cs: "cs = c # cs'" by (cases cs) auto
  obtain n where n: "p = Some a" "mem a = Some n" "chain (nodes_next mem) (c_next n) as"
    using Cons.prems(1) by (auto simp: chain_Cons_iff)
  have c: "c = YoutubeChunk.truncate n" using Cons.prems(2) cs n(2) by (simp add: chunk_at_def)
  have "match_loop mem lmt s e (length as) (c_next n) = find_chunk_key cs' lmt s e"
    using Cons.IH [OF n(3)] Cons.prems(2) cs by simp
  then show ?case using n(1,2) cs c
    by (simp add: find_chunk_key_def YoutubeChunk.truncate_def map_option_case split: option.splits)
      (auto simp: chunk_matches_def split: option.splits)
qed

lemma yt_lookup: "yt_rep yt cs \<Longrightarrow> getMatchedSwapoutKey yt lmt s e = find_chunk_key cs lmt s e"
proof -
  assume "yt_rep yt cs"
  then obtain as where as: "chain (nodes_next (yt_mem yt)) (yt_head yt) as"
    "map (chunk_at (yt_mem yt)) as = map Some cs" "yt_size yt = int (length cs)"
    by (auto simp: yt_rep_def)
  have "length as = length cs" using as(2) by (metis length_map)
  with match_loop_find [OF as(1,2)] as(3) show ?thesis by (simp add: getMatchedSwapoutKey_def)
qed

lemma walk_next_last:
  "chain (nodes_next mem) p (as @ [b]) \<Longrightarrow> walk_next mem (length as) p = Some (Some b)"
proof (induction as arbitrary: p)
  case Nil
  then show ?case by (simp add: chain_Cons_iff)
next
  case (Cons a as)
  then show ?case by (auto simp: chain_Cons_iff)
qed

lemma chunk_at_upd_map: "b \<notin> set as \<Longrightarrow> map (chunk_at (mem(b \<mapsto> n))) as = map (chunk_at mem) as"
  by (auto simp: chunk_at_def)

lemma nodes_next_upd: "nodes_next (mem(a \<mapsto> c\<lparr>c_next := v\<rparr>)) = (nodes_next mem)(a := Some v)"
  by auto

lemma chunk_at_next_upd:
  "mem a = Some c \<Longrightarrow> chunk_at (mem(a \<mapsto> c\<lparr>c_next := v\<rparr>)) = chunk_at mem"
  by (auto simp: chunk_at_def YoutubeChunk.truncate_def)

lemma yt_insert:
  assumes r: "yt_rep yt cs" and f: "chunk_fits c" and n: "int (length cs) < 2 ^ 31 - 1"
  shows "\<exists>yt'. insert_chunk yt c = Some yt' \<and> yt_rep yt' (cs @ [c])"
proof -
  obtain as where as: "chain (nodes_next (yt_mem yt)) (yt_head yt) as"
    "map (chunk_at (yt_mem yt)) as = map Some cs" "\<forall>a \<in> set as. a < yt_brk yt"
    "yt_size yt = int (length cs)" using r by (auto simp: yt_rep_def)
  have len: "length as = length cs" using as(2) by (metis length_map)
  let ?b = "yt_brk yt"
  let ?node = "\<lparr>c_lmt = c_lmt c, c_startRange = c_startRange c, c_endRange = c_endRange c,
    c_dataDigest = c_dataDigest c, c_swapoutDigest = c_swapoutDigest c, c_next = None\<rparr>"
  let ?mem = "(yt_mem yt)(?b \<mapsto> ?node)"
  have fresh: "?b \<notin> set as" using as(3) by blast
  have new: "chunk_at ?mem ?b = Some c" by (simp add: chunk_at_def YoutubeChunk.truncate_def)
  have old: "map (chunk_at ?mem) as = map Some cs" 
    unfolding chunk_at_upd_map [OF fresh] by (rule as(2))
  have c1: "chain (nodes_next ?mem) (yt_head yt) as"
    using fresh by (intro chain_frame [OF as(1)]) auto
  have c2: "chain (nodes_next ?mem) (Some ?b) [?b]" by (simp add: chain_Cons_iff)
  have sz: "in_int32 (int (length cs) + 1)" using n by (simp add: in_int32_def)
  show ?thesis
  proof (cases as rule: rev_cases)
    case Nil
    let ?yt = "yt\<lparr>yt_mem := ?mem, yt_brk := ?b + 1, yt_head := Some ?b, yt_size := 1\<rparr>"
    have "insert_chunk yt c = Some ?yt" using Nil len as(1,4) f
      by (simp add: insert_chunk_def insertChunkToYoutubeChunkTable_def strcpy_into_def chunk_fits_def
          Let_def in_int32_def)
    moreover have "yt_rep ?yt (cs @ [c])"
      using Nil len c2 new by (auto simp: yt_rep_def intro!: exI [of _ "[?b]"])
    ultimately show ?thesis by blast
  next
    case (snoc ws w)
    obtain nw where nw: "?mem w = Some nw" using chain_allocated [OF c1, of w] snoc by auto
    let ?mem2 = "?mem(w \<mapsto> nw\<lparr>c_next := Some ?b\<rparr>)"
    let ?yt = "yt\<lparr>yt_brk := ?b + 1, yt_mem := ?mem2, yt_size := int (length cs) + 1\<rparr>"
    have "walk_next ?mem (length ws) (yt_head yt) = Some (Some w)"
      using walk_next_last c1 snoc by blast
    moreover have "nat (int (length cs) - 1) = length ws" "length cs \<noteq> 0" using len snoc by auto
    ultimately have "insert_chunk yt c = Some ?yt"
      using nw as(4) f sz
      by (simp add: insert_chunk_def insertChunkToYoutubeChunkTable_def strcpy_into_def chunk_fits_def
          Let_def)
    moreover have "chain (nodes_next ?mem2) (yt_head yt) (as @ [?b])"
    proof -
      have "w \<notin> set [?b]" using snoc fresh by auto
      from chain_relink [OF c1 [unfolded snoc] c2 this] show ?thesis
        unfolding nodes_next_upd snoc by (simp del: fun_upd_apply)
    qed
    moreover have "map (chunk_at ?mem2) (as @ [?b]) = map Some (cs @ [c])"
      using old new chunk_at_next_upd [of ?mem w nw "Some ?b", OF nw] by (simp only: map_append list.map)
    moreover have "\<forall>a \<in> set (as @ [?b]). a < ?b + 1" using as(3) by auto
    ultimately show ?thesis by (auto simp: yt_rep_def simp del: map_append set_append)
  qed
qed

subsection \<open>The contract of the chunk index\<close>

text \<open>
  What request handling and the rebuild rely on: the table behaves as a list of chunks that
  grows at its end and is searched from its front.
\<close>

locale chunk_index =
  fixes rep :: "'s \<Rightarrow> YoutubeChunk list \<Rightarrow> bool"
    and ins :: "'s \<Rightarrow> YoutubeChunk \<Rightarrow> 's option"
    and query :: "'s \<Rightarrow> string \<Rightarrow> int \<Rightarrow> int \<Rightarrow> cache_key option option"
  assumes query_law: "rep t cs \<Longrightarrow> query t lmt s e = find_chunk_key cs lmt s e"
    and ins_law: "rep t cs \<Longrightarrow> chunk_fits c \<Longrightarrow> int (length cs) < 2 ^ 31 - 1 \<Longrightarrow>
      \<exists>t'. ins t c = Some t' \<and> rep t' (cs @ [c])"
begin

lemma find_key_snoc:
  "find_chunk_key (cs @ [c]) lmt s e =
     (if find (chunk_matches lmt s e) cs = None \<and> chunk_matches lmt s e c
      then map_option Some (storeKeyScan (c_swapoutDigest c @ [NUL]))
      else find_chunk_key cs lmt s e)"
proof -
  have "find P (cs @ [c]) = (case find P cs of Some x \<Rightarrow> Some x | None \<Rightarrow> if P c then Some c else None)"
    for P by (induction cs) auto
  then show ?thesis by (auto simp: find_chunk_key_def split: option.splits)
qed

text \<open>A new chunk answers its own query unless an older one does, and no other query changes.\<close>

lemma query_inserted:
  assumes "rep t cs" "chunk_fits c" "int (length cs) < 2 ^ 31 - 1"
  shows "\<exists>t'. ins t c = Some t' \<and> rep t' (cs @ [c]) \<and>
    (\<forall>lmt s e. query t' lmt s e =
       (if query t lmt s e = Some None \<and> find (chunk_matches lmt s e) cs = None \<and> chunk_matches lmt s e c
        then map_option Some (storeKeyScan (c_swapoutDigest c @ [NUL])) else query t lmt s e))"
proof -
  obtain t' where t': "ins t c = Some t'" "rep t' (cs @ [c])" using ins_law [OF assms] by blast
  have "query t lmt s e = Some None" if "find (chunk_matches lmt s e) cs = None" for lmt s e
    using query_law [OF assms(1)] that by (simp add: find_chunk_key_def)
  with t' query_law [OF t'(2)] query_law [OF assms(1)] find_key_snoc show ?thesis by auto
qed

text \<open>Two tables that hold the same chunks answer every query alike.\<close>

lemma query_cong: "rep t cs \<Longrightarrow> rep t' cs \<Longrightarrow> query t = query t'"
  by (intro ext) (simp add: query_law)

lemma query_hit:
  assumes "rep t (xs @ c # ys)" "find (chunk_matches lmt s e) xs = None" "chunk_matches lmt s e c"
    "storeKeyScan (c_swapoutDigest c @ [NUL]) = Some k"
  shows "query t lmt s e = Some (Some k)"
proof -
  have "find (chunk_matches lmt s e) (xs @ c # ys) = Some c"
    using assms(2,3) by (induction xs) (auto split: if_splits)
  then show ?thesis using query_law [OF assms(1)] assms(4) by (simp add: find_chunk_key_def)
qed

end

interpretation yt: chunk_index yt_rep insert_chunk getMatchedSwapoutKey
  by unfold_locales (rule yt_lookup yt_insert; assumption)+

subsection \<open>Reading the file back\<close>

definition record_of :: "YoutubeChunk \<Rightarrow> string" where
  "record_of c = chunk_record (c_lmt c) (c_startRange c) (c_endRange c) (c_dataDigest c) (c_swapoutDigest c)"

text \<open>The chunks for which the fixed offsets of the reader are right.\<close>

definition chunk_ok :: "YoutubeChunk \<Rightarrow> bool" where
  "chunk_ok c \<longleftrightarrow> length (c_lmt c) = 16 \<and> cstring (c_lmt c) \<and>
     in_int32 (c_startRange c) \<and> in_int32 (c_endRange c) \<and>
     length (c_dataDigest c) = 32 \<and> cstring (c_dataDigest c) \<and>
     length (c_swapoutDigest c) = 32 \<and> cstring (c_swapoutDigest c)"

lemma chunk_ok_fits: "chunk_ok c \<Longrightarrow> chunk_fits c"
  by (simp add: chunk_ok_def chunk_fits_def)

lemma length_record: "chunk_ok c \<Longrightarrow> length (record_of c) = 116"
  by (simp add: chunk_ok_def record_of_def chunk_record_def length_fmt_0d)

lemma fmt_0d_plain: "NUL \<notin> set (fmt_0d w v)"
proof -
  have "\<not> isdigit NUL" by simp
  then have "NUL \<notin> set (zero_pad n (dec_of_nat m))" for n m
    using zero_pad_digits [OF dec_of_nat_digits, of n m] by blast
  then show ?thesis by (auto simp: fmt_0d_def)
qed

text \<open>Copying a field of known length out of the buffer.\<close>

lemma strncpy_field:
  assumes "n \<le> length dst" "length f = n" "NUL \<notin> set f"
  shows "strncpy_buf dst (f @ r) n = Some (f @ drop n dst)"
  using strncpy_buf_in [of n dst "f @ r"] assms by simp

lemma cstr_of_field: "cstring f \<Longrightarrow> 0 < n \<Longrightarrow> cstr_of_buf (f @ replicate n NUL) = Some f"
  using cstr_of_buf_append_NUL [of f "replicate (n - 1) NUL"] by (cases n) simp_all

lemma record_fields:
  assumes "chunk_ok c" and b: "b = record_of c @ r"
  shows "b = c_lmt c @ drop 16 b"
    "drop 17 b = fmt_0d 15 (c_startRange c) @ drop 32 b"
    "drop 33 b = fmt_0d 15 (c_endRange c) @ drop 48 b"
    "drop 49 b = c_dataDigest c @ drop 81 b"
    "drop 82 b = c_swapoutDigest c @ drop 114 b"
  unfolding b using assms(1) by (simp_all add: chunk_ok_def record_of_def chunk_record_def length_fmt_0d)

lemma atoi_temp:
  assumes "in_int32 v" "length temp = 20" "\<not> isdigit (temp ! 15)"
  shows "atoi (fmt_0d 15 v @ drop 15 temp) = Some v"
proof -
  have "drop 15 temp = temp ! 15 # drop 16 temp" using Cons_nth_drop_Suc [of 15 temp] assms(2) by simp
  then show ?thesis using atoi_fmt_0d [OF assms(1,3)] by simp
qed

lemma parse_chunk_fields:
  assumes c: "chunk_ok c" and t: "length temp = 20"
    and v: "atoi (fmt_0d 15 (c_startRange c) @ drop 15 temp) = Some v"
      "atoi (fmt_0d 15 (c_endRange c) @ drop 15 temp) = Some w"
  shows "parse_chunk (record_of c @ r) temp yt =
    map_option (\<lambda>yt. (fmt_0d 15 (c_endRange c) @ drop 15 temp, yt)) (insert_chunk yt (c\<lparr>c_startRange := v, c_endRange := w\<rparr>))"
proof -
  let ?b = "record_of c @ r"
  let ?s = "fmt_0d 15 (c_startRange c)" and ?e = "fmt_0d 15 (c_endRange c)"
  have len: "length ?s = 15" "length ?e = 15" using c by (simp_all add: chunk_ok_def length_fmt_0d)
  have cs: "NUL \<notin> set (c_lmt c)" "NUL \<notin> set (c_dataDigest c)" "NUL \<notin> set (c_swapoutDigest c)"
    using c by (simp_all add: chunk_ok_def cstring_def)
  have c1: "strncpy_buf (replicate 20 NUL) ?b 16 = Some (c_lmt c @ replicate 4 NUL)"
    using strncpy_field [of 16 "replicate 20 NUL" "c_lmt c" "drop 16 ?b"] c cs
    by (subst record_fields(1) [OF c refl]) (simp add: chunk_ok_def)
  have c2: "strncpy_buf temp (drop 17 ?b) 15 = Some (?s @ drop 15 temp)"
    using strncpy_field [of 15 temp ?s "drop 32 ?b"] t len fmt_0d_plain
    by (subst record_fields(2) [OF c refl]) simp
  have c3: "strncpy_buf (?s @ drop 15 temp) (drop 33 ?b) 15 = Some (?e @ drop 15 temp)"
    using strncpy_field [of 15 "?s @ drop 15 temp" ?e "drop 48 ?b"] t len fmt_0d_plain
    by (subst record_fields(3) [OF c refl]) simp
  have c4: "strncpy_buf (replicate 40 NUL) (drop 49 ?b) 32 = Some (c_dataDigest c @ replicate 8 NUL)"
    using strncpy_field [of 32 "replicate 40 NUL" "c_dataDigest c" "drop 81 ?b"] c cs
    by (subst record_fields(4) [OF c refl]) (simp add: chunk_ok_def)
  have c5: "strncpy_buf (replicate 40 NUL) (drop 82 ?b) 32 = Some (c_swapoutDigest c @ replicate 8 NUL)"
    using strncpy_field [of 32 "replicate 40 NUL" "c_swapoutDigest c" "drop 114 ?b"] c cs
    by (subst record_fields(5) [OF c refl]) (simp add: chunk_ok_def)
  have s: "cstr_of_buf (c_lmt c @ replicate 4 NUL) = Some (c_lmt c)"
    "cstr_of_buf (c_dataDigest c @ replicate 8 NUL) = Some (c_dataDigest c)"
    "cstr_of_buf (c_swapoutDigest c @ replicate 8 NUL) = Some (c_swapoutDigest c)"
    using c by (auto intro!: cstr_of_field simp: chunk_ok_def)
  show ?thesis
    unfolding parse_chunk_def c1 c2 bind.bind_lunit c3 v c4 c5 s insert_chunk_def
    by (cases "insertChunkToYoutubeChunkTable yt (c_lmt c) v w (c_dataDigest c) (c_swapoutDigest c)")
      simp_all
qed

lemma parse_chunk_record:
  assumes c: "chunk_ok c" and t: "length temp = 20" "\<not> isdigit (temp ! 15)"
  shows "parse_chunk (record_of c @ r) temp yt =
    map_option (\<lambda>yt. (fmt_0d 15 (c_endRange c) @ drop 15 temp, yt)) (insert_chunk yt c)"
proof -
  have "atoi (fmt_0d 15 (c_startRange c) @ drop 15 temp) = Some (c_startRange c)"
    "atoi (fmt_0d 15 (c_endRange c) @ drop 15 temp) = Some (c_endRange c)"
    using c t by (auto intro: atoi_temp simp: chunk_ok_def)
  from parse_chunk_fields [OF c t(1) this] show ?thesis by simp
qed

lemma read_chunks_records:
  assumes "yt_rep yt cs" "\<forall>c \<in> set ds. chunk_ok c" "length temp = 20" "\<not> isdigit (temp ! 15)"
    "length buf = 120" "int (length cs + length ds) < 2 ^ 31"
  shows "\<exists>yt'. read_chunks (concat (map record_of ds)) buf temp yt = Some yt' \<and> yt_rep yt' (cs @ ds)"
  using assms
proof (induction ds arbitrary: yt cs temp buf)
  case Nil
  then show ?case by (simp add: read_chunks.simps)
next
  case (Cons d ds)
  let ?f = "concat (map record_of (d # ds))"
  let ?buf = "record_of d @ drop 116 buf"
  have len: "length (record_of d) = 116" using Cons.prems(2) by (simp add: length_record)
  obtain yt1 where yt1: "insert_chunk yt d = Some yt1" "yt_rep yt1 (cs @ [d])"
    using yt_insert [OF Cons.prems(1), of d] Cons.prems(2,6) chunk_ok_fits by auto
  let ?temp = "fmt_0d 15 (c_endRange d) @ drop 15 temp"
  have e: "length (fmt_0d 15 (c_endRange d)) = 15"
    using Cons.prems(2) by (simp add: chunk_ok_def length_fmt_0d)
  have "parse_chunk ?buf temp yt = Some (?temp, yt1)"
    using parse_chunk_record [of d temp "drop 116 buf" yt] Cons.prems(2-4) yt1(1) by simp
  then have "read_chunks ?f buf temp yt = read_chunks (concat (map record_of ds)) ?buf ?temp yt1"
    using len by (subst read_chunks.simps) (auto simp: Let_def)
  moreover have "\<exists>yt'. read_chunks (concat (map record_of ds)) ?buf ?temp yt1 = Some yt' \<and>
      yt_rep yt' ((cs @ [d]) @ ds)"
    by (rule Cons.IH) (use Cons.prems yt1 len e in \<open>auto simp: nth_append\<close>)
  ultimately show ?case by simp
qed

lemma rebuild_rep:
  assumes "table_path_fits (swapDirs 0)" "files 0 = concat (map record_of ds)"
    "\<forall>c \<in> set ds. chunk_ok c" "int (length ds) < 2 ^ 31" "length junk = 20" "\<not> isdigit (junk ! 15)"
  shows "\<exists>yt'. rebuild_youtube_table swapDirs files junk yt = Some yt' \<and> yt_rep yt' ds"
proof -
  have "yt_rep (yt\<lparr>yt_head := None, yt_size := 0\<rparr>) []" by (simp add: yt_rep_def)
  from read_chunks_records [OF this assms(3,5,6), of "replicate 120 NUL"] assms(1,2,4) show ?thesis
    by (auto simp: rebuild_youtube_table_def readChunkFromTableFile_def)
qed

subsection \<open>Reading the parameters of a URL\<close>

lemma copy_until_stop:
  "stop \<notin> set s \<Longrightarrow> length s \<le> n \<Longrightarrow> copy_until stop n (s @ stop # r) = Some s"
proof (induction s arbitrary: n)
  case Nil
  then show ?case by simp
next
  case (Cons c s)
  then show ?case by (cases n) auto
qed

lemma copy_until_overrun:
  "stop \<notin> set s \<Longrightarrow> n < length s \<Longrightarrow> copy_until stop n (s @ r) = None"
proof (induction s arbitrary: n)
  case Nil
  then show ?case by simp
next
  case (Cons c s)
  then show ?case by (cases n) auto
qed

lemma copy_until_missing: "stop \<notin> set s \<Longrightarrow> copy_until stop n s = None"
  by (induction s arbitrary: n) (auto split: nat.splits)

lemma copy_digits_stop:
  "\<forall>c \<in> set s. isdigit c \<Longrightarrow> length s \<le> n \<Longrightarrow> \<not> isdigit e \<Longrightarrow> copy_digits n (s @ e # r) = Some s"
proof (induction s arbitrary: n)
  case Nil
  then show ?case by simp
next
  case (Cons c s)
  then show ?case by (cases n) auto
qed

lemma skip_until_stop: "stop \<notin> set s \<Longrightarrow> skip_until stop (s @ stop # r) = Some (stop # r)"
  by (induction s) auto

lemma not_isdigit_minus: "\<not> isdigit (CHR ''-'')"
  by (simp add: isdigit_def)

lemma atoi_zeroed:
  assumes "\<forall>c \<in> set ds. isdigit c" "ds \<noteq> []" "length ds < n" "in_int32 (int (dec_val ds))"
  shows "atoi (zeroed n ds) = Some (int (dec_val ds))"
proof -
  have "zeroed n ds = ds @ NUL # replicate (n - length ds - 1) NUL"
    using assms(3) by (cases "n - length ds") (auto simp: zeroed_def)
  then show ?thesis using atoi_digit_string [OF assms(1,2) not_isdigit_NUL assms(4)] by simp
qed

lemma lmt_from_url:
  assumes "strstr url ''lmt='' = Some (''lmt='' @ L @ CHR ''&'' # p)" "CHR ''&'' \<notin> set L" "length L < 20"
  shows "getLmtFromUrl url = Some (Some (zeroed 20 L))"
  using assms copy_until_stop [of "CHR ''&''" L 20 "p @ [NUL]"] by (simp add: getLmtFromUrl_def)

lemma digits_no_minus: "\<forall>c \<in> set s. isdigit c \<Longrightarrow> CHR ''-'' \<notin> set s"
  using not_isdigit_minus by blast

lemma range_from_url:
  assumes r: "strstr url ''&range='' = Some (''&range='' @ S @ CHR ''-'' # E @ p)"
    and S: "\<forall>c \<in> set S. isdigit c" "S \<noteq> []" "length S < 30" "in_int32 (int (dec_val S))"
    and E: "\<forall>c \<in> set E. isdigit c" "E \<noteq> []" "length E < 30" "in_int32 (int (dec_val E))"
    and p: "p = [] \<or> \<not> isdigit (hd p)"
  shows "getStartRangeFromUrl url = Some (int (dec_val S))"
    "getEndRangeFromUrl url = Some (int (dec_val E))"
proof -
  have "copy_until (CHR ''-'') 30 (S @ CHR ''-'' # E @ p @ [NUL]) = Some S"
    using copy_until_stop [of "CHR ''-''" S 30] digits_no_minus [OF S(1)] S(3) by simp
  then show "getStartRangeFromUrl url = Some (int (dec_val S))"
    using r atoi_zeroed [OF S(1,2), of 30] S by (simp add: getStartRangeFromUrl_def)
  have "skip_until (CHR ''-'') (S @ CHR ''-'' # E @ p @ [NUL]) = Some (CHR ''-'' # E @ p @ [NUL])"
    using skip_until_stop digits_no_minus [OF S(1)] by blast
  moreover have "copy_digits 30 (E @ p @ [NUL]) = Some E"
    using p copy_digits_stop [OF E(1), of 30] E(3) by (cases p) auto
  ultimately show "getEndRangeFromUrl url = Some (int (dec_val E))"
    using r atoi_zeroed [OF E(1,2), of 30] E by (simp add: getEndRangeFromUrl_def)
qed

lemma url_chunk_id_ok:
  assumes "getLmtFromUrl url = Some (Some (zeroed 20 L))" "cstring L" "length L < 20"
    "getStartRangeFromUrl url = Some s" "getEndRangeFromUrl url = Some e"
  shows "url_chunk_id url = Some (L, s, e)"
proof -
  have "cstr_of_buf (zeroed 20 L) = Some L"
    using cstr_of_field [OF assms(2), of "20 - length L"] assms(3) by (simp add: zeroed_def)
  then show ?thesis using assms by (simp add: url_chunk_id_def strcpy_into_def)
qed

subsection \<open>Properties\<close>

text \<open>The three URL scanners together return exactly the \<open>lmt\<close> value and the two decimal
  bounds of the \<open>range\<close> parameter, without overrunning their arrays, for every URL whose
  first \<open>lmt=\<close> is followed by fewer than 20 characters up to an ampersand and whose first
  \<open>&range=\<close> is followed by two decimal ints separated by a minus sign.\<close>

theorem url_chunk_id_correct:
  assumes "strstr url ''lmt='' = Some (''lmt='' @ L @ CHR ''&'' # p)" "CHR ''&'' \<notin> set L"
    "length L < 20" "cstring L"
    and "strstr url ''&range='' = Some (''&range='' @ S @ CHR ''-'' # E @ q)"
    and "\<forall>c \<in> set S. isdigit c" "S \<noteq> []" "length S < 30" "in_int32 (int (dec_val S))"
    and "\<forall>c \<in> set E. isdigit c" "E \<noteq> []" "length E < 30" "in_int32 (int (dec_val E))"
    and "q = [] \<or> \<not> isdigit (hd q)"
  shows "url_chunk_id url = Some (L, int (dec_val S), int (dec_val E))"
  using url_chunk_id_ok [OF lmt_from_url [OF assms(1-3)] assms(4,3) range_from_url(1) range_from_url(2)]
    assms by blast

theorem url_chunk_id_correct_witness:
  "url_chunk_id ''/videoplayback?lmt=14&range=0-99&x'' = Some (''14'', 0, 99)"
proof -
  have "url_chunk_id ''/videoplayback?lmt=14&range=0-99&x''
      = Some (''14'', int (dec_val ''0''), int (dec_val ''99''))"
    by (rule url_chunk_id_correct [where p = "''range=0-99&x''" and q = "''&x''"])
      (simp_all add: cstring_def isdigit_def dec_val_def digit_val_def in_int32_def)
  then show ?thesis by (simp add: dec_val_def digit_val_def)
qed

text \<open>A URL that is treated as a YouTube chunk but has no \<open>lmt\<close> parameter makes the
  scanner return the null pointer, which its callers copy from: the lookup crashes.\<close>

theorem youtube_url_without_lmt_crashes:
  "strstr url ''lmt='' = None \<Longrightarrow> getLmtFromUrl url = Some None \<and> url_chunk_id url = None"
  by (simp add: getLmtFromUrl_def url_chunk_id_def)

theorem youtube_url_without_lmt_crashes_witness:
  "isYouTubeUrl ''/videoplayback?id=1'' \<and> getLmtFromUrl ''/videoplayback?id=1'' = Some None \<and>
   url_chunk_id ''/videoplayback?id=1'' = None"
  using youtube_url_without_lmt_crashes [of "''/videoplayback?id=1''"] by (simp add: isYouTubeUrl_def)

text \<open>The scanner overruns its 20-byte array when the \<open>lmt\<close> value is longer, and reads
  past the end of the URL when \<open>lmt\<close> is its last parameter.\<close>

theorem lmt_overrun:
  assumes "strstr url ''lmt='' = Some (''lmt='' @ L)"
    "20 < length (takeWhile (\<lambda>c. c \<noteq> CHR ''&'') L) \<or> CHR ''&'' \<notin> set L"
  shows "getLmtFromUrl url = None"
proof -
  let ?w = "takeWhile (\<lambda>c. c \<noteq> CHR ''&'') L"
  have w: "CHR ''&'' \<notin> set ?w" by (auto dest: set_takeWhileD)
  have "copy_until (CHR ''&'') 20 (L @ [NUL]) = None"
  proof (cases "CHR ''&'' \<in> set L")
    case True
    then have "20 < length ?w" using assms(2) by blast
    then have "copy_until (CHR ''&'') 20 (?w @ dropWhile (\<lambda>c. c \<noteq> CHR ''&'') L @ [NUL]) = None"
      using copy_until_overrun [OF w] by blast
    then show ?thesis by (metis append_assoc takeWhile_dropWhile_id)
  next
    case False
    then show ?thesis by (intro copy_until_missing) simp
  qed
  then show ?thesis using assms(1) by (simp add: getLmtFromUrl_def)
qed

theorem lmt_overrun_witness: "getLmtFromUrl ''/videoplayback?lmt=1'' = None"
  by (rule lmt_overrun [where L = "''1''"]) simp_all

text \<open>C35: Inserting a chunk succeeds on every well-formed table: the new node is linked at the
  end, so that the chunk answers the queries for its own \<open>lmt\<close> and range unless an older
  chunk already does, and every other query gives what it gave before.\<close>

theorem youtube_insert_lookup:
  assumes "yt_rep yt cs" "chunk_fits c" "int (length cs) < 2 ^ 31 - 1"
  shows "\<exists>yt'. insertChunkToYoutubeChunkTable yt (c_lmt c) (c_startRange c) (c_endRange c)
      (c_dataDigest c) (c_swapoutDigest c) = Some yt' \<and> yt_rep yt' (cs @ [c]) \<and>
    (\<forall>lmt s e. getMatchedSwapoutKey yt' lmt s e =
       (if find (chunk_matches lmt s e) cs = None \<and> chunk_matches lmt s e c
        then map_option Some (storeKeyScan (c_swapoutDigest c @ [NUL]))
        else getMatchedSwapoutKey yt lmt s e))"
proof -
  obtain yt' where yt': "insert_chunk yt c = Some yt'" "yt_rep yt' (cs @ [c])"
    using yt.ins_law [OF assms] by blast
  then show ?thesis
    by (auto simp: insert_chunk_def yt.query_law [OF yt'(2)] yt.query_law [OF assms(1)] yt.find_key_snoc)
qed

lemma yt_rep_empty: "yt_rep (yt_empty brk) []"
  by (simp add: yt_rep_def yt_empty_def)

definition demo_chunk :: YoutubeChunk where
  "demo_chunk = \<lparr>c_lmt = ''1400000000000000'', c_startRange = 0, c_endRange = 99,
     c_dataDigest = ''0123456789ABCDEF0123456789ABCDEF'',
     c_swapoutDigest = ''000102030405060708090A0B0C0D0E0F''\<rparr>"

theorem youtube_insert_lookup_witness:
  "\<exists>yt'. insertChunkToYoutubeChunkTable (yt_empty 1) (c_lmt demo_chunk) 0 99 (c_dataDigest demo_chunk)
      (c_swapoutDigest demo_chunk) = Some yt' \<and> yt_rep yt' [demo_chunk] \<and>
     getMatchedSwapoutKey yt' ''1400000000000000'' 0 99 =
       map_option Some (storeKeyScan (c_swapoutDigest demo_chunk @ [NUL]))"
  using youtube_insert_lookup [of "yt_empty 1" "[]" demo_chunk] yt_rep_empty
  by (auto simp: demo_chunk_def chunk_fits_def chunk_matches_def)

text \<open>C6: What \<open>appendChunkToTableFile\<close> wrote is read back: from a table file in the first cache
  directory with the records of any list of chunks with 16-character \<open>lmt\<close>s, 32-character digests and int ranges, the
  rebuilt table holds exactly those chunks in order and answers every query accordingly. The premise on the
  uninitialised array of the reader is that the byte behind the copied digits is not a digit.\<close>
theorem table_file_roundtrip:
  assumes "table_path_fits (swapDirs 0)" "files 0 = concat (map record_of ds)"
    "\<forall>c \<in> set ds. chunk_ok c" "int (length ds) < 2 ^ 31"
    "length junk = 20" "\<not> isdigit (junk ! 15)"
  shows "\<exists>yt'. rebuild_youtube_table swapDirs files junk yt = Some yt' \<and> yt_rep yt' ds \<and>
    (\<forall>lmt s e. getMatchedSwapoutKey yt' lmt s e = find_chunk_key ds lmt s e)"
  using rebuild_rep [of swapDirs files ds junk yt] assms yt.query_law by blast

lemma demo_chunk_ok: "chunk_ok demo_chunk"
  by (simp add: demo_chunk_def chunk_ok_def cstring_def in_int32_def)

theorem table_file_roundtrip_witness:
  "\<exists>yt'. rebuild_youtube_table (\<lambda>_. ''/cache'') (\<lambda>_. record_of demo_chunk @ record_of demo_chunk)
      (replicate 20 NUL) (yt_empty 1) = Some yt' \<and> yt_rep yt' [demo_chunk, demo_chunk]"
  using table_file_roundtrip [of "\<lambda>_. ''/cache''" "\<lambda>_. record_of demo_chunk @ record_of demo_chunk"
      "[demo_chunk, demo_chunk]" "replicate 20 NUL" "yt_empty 1"] demo_chunk_ok
  by (auto simp: table_path_fits_def)

text \<open>The array \<open>temp\<close> is never initialised: with a digit left in its 16th byte the same
  record is read back with another start of range.\<close>

theorem table_file_junk_changes_range:
  "\<exists>yt'. parse_chunk (record_of demo_chunk @ replicate 4 NUL) (replicate 15 NUL @ ''7'' @ replicate 4 NUL)
      (yt_empty 1) = Some (fmt_0d 15 99 @ ''7'' @ replicate 4 NUL, yt') \<and>
    yt_rep yt' [demo_chunk\<lparr>c_startRange := 7, c_endRange := 997\<rparr>]"
proof -
  let ?t = "replicate 15 NUL @ ''7'' @ replicate 4 NUL"
  have d: "c_startRange demo_chunk = 0" "c_endRange demo_chunk = 99" by (simp_all add: demo_chunk_def)
  have t: "drop 15 ?t = [CHR ''7'', NUL, NUL, NUL, NUL]" by (simp add: numeral_eq_Suc)
  have f: "fmt_0d 15 0 = ''000000000000000''" "fmt_0d 15 99 = ''000000000000099''"
    by code_simp+
  have "atoi (fmt_0d 15 (c_startRange demo_chunk) @ drop 15 ?t) = Some 7"
    "atoi (fmt_0d 15 (c_endRange demo_chunk) @ drop 15 ?t) = Some 997"
    unfolding d t f
    by (simp_all add: atoi_def atoi_digits_def isspace_def isdigit_def dec_val_def digit_val_def in_int32_def)
  note p = parse_chunk_fields [OF demo_chunk_ok _ this, of "replicate 4 NUL" "yt_empty 1"]
  have "chunk_fits (demo_chunk\<lparr>c_startRange := 7, c_endRange := 997\<rparr>)"
    by (simp add: demo_chunk_def chunk_fits_def)
  from yt.ins_law [OF yt_rep_empty this, of 1] obtain yt' where
    "insert_chunk (yt_empty 1) (demo_chunk\<lparr>c_startRange := 7, c_endRange := 997\<rparr>) = Some yt'"
    "yt_rep yt' [demo_chunk\<lparr>c_startRange := 7, c_endRange := 997\<rparr>]" by auto
  then show ?thesis using p d t by auto
qed

end
