(* ===== verification/StoreDir.thy ===== *)
theory StoreDir
  imports StoreTypes "HOL-Library.Signed_Division"
begin

section \<open>Cache directories (store_dir.c)\<close>

text \<open>
  Selection of the cache directory for a new object, by round robin or by least load, and
  the accounting of disk space. A directory is a record with the fields of \<open>struct _SwapDir\<close>
  that the code reads; its \<open>checkobj\<close> and \<open>checkload\<close> function pointers are function fields.
  The lemmas show that both selections return an eligible directory whenever there is one,
  that least load returns one of minimal load, and that adding and removing an object
  leaves the accounting as it was.
\<close>

record SwapDir =
  sd_path :: string
  cur_size :: int
  max_size :: int
  min_objsize :: int
  max_objsize :: int
  read_only :: bool
  selected :: bool
  blksize :: int
  checkobj :: "StoreEntry \<Rightarrow> bool"
  checkload :: int

definition INT_MAX :: int where
  "INT_MAX = 2 ^ 31 - 1"

subsection \<open>Selection\<close>

definition storeDirValidSwapDirSize :: "SwapDir \<Rightarrow> int \<Rightarrow> bool" where
  "storeDirValidSwapDirSize sd objsize \<longleftrightarrow>
     (if objsize = - 1 then max_objsize sd = - 1
      else min_objsize sd \<le> objsize \<and> (objsize < max_objsize sd \<or> max_objsize sd = - 1))"

definition objectLen :: "StoreEntry \<Rightarrow> int option" where
  "objectLen e = map_option mem_object_sz (e_mem_obj e)"

text \<open>The conditions of one turn of the round-robin loop.\<close>

definition rr_accepts :: "SwapDir \<Rightarrow> StoreEntry \<Rightarrow> int \<Rightarrow> bool" where
  "rr_accepts sd e objsize \<longleftrightarrow>
     \<not> read_only sd \<and> \<not> max_size sd < cur_size sd \<and> storeDirValidSwapDirSize sd objsize \<and>
     checkobj sd e \<and> \<not> (checkload sd < 0 \<or> 1000 < checkload sd)"

fun rr_loop :: "nat \<Rightarrow> SwapDir list \<Rightarrow> StoreEntry \<Rightarrow> int \<Rightarrow> nat \<Rightarrow> (nat option \<times> nat) option" where
  "rr_loop 0 dirs e objsize dirn = Some (None, dirn)"
| "rr_loop (Suc i) dirs e objsize dirn =
     (let dirn = (if length dirs \<le> dirn + 1 then 0 else dirn + 1)
      in do {
        sd \<leftarrow> arr_get dirs dirn;
        if rr_accepts sd e objsize then Some (Some dirn, dirn) else rr_loop i dirs e objsize dirn })"

text \<open>Result: the directory (\<open>None\<close> for -1) and the new value of the static \<open>dirn\<close>.\<close>

definition storeDirSelectSwapDirRoundRobin ::
  "SwapDir list \<Rightarrow> StoreEntry \<Rightarrow> nat \<Rightarrow> (nat option \<times> nat) option" where
  "storeDirSelectSwapDirRoundRobin dirs e dirn = do {
     objsize \<leftarrow> objectLen e;
     rr_loop (length dirs + 1) dirs e objsize dirn }"

record least_state =
  most_free :: int
  least_objsize :: int
  least_load :: int
  least_dirn :: "nat option"

definition ll_skip :: "SwapDir \<Rightarrow> StoreEntry \<Rightarrow> int \<Rightarrow> bool" where
  "ll_skip SD e objsize \<longleftrightarrow>
     \<not> checkobj SD e \<or> checkload SD < 0 \<or> 1000 < checkload SD \<or>
     \<not> storeDirValidSwapDirSize SD objsize \<or> read_only SD \<or> max_size SD < cur_size SD"

definition ll_step :: "StoreEntry \<Rightarrow> int \<Rightarrow> nat \<times> SwapDir \<Rightarrow> least_state \<Rightarrow> least_state" where
  "ll_step e objsize iSD st =
     (case iSD of (i, SD) \<Rightarrow>
        if ll_skip SD e objsize then st
        else if least_load st < checkload SD then st
        else let cur_free = max_size SD - cur_size SD
             in if checkload SD = least_load st \<and>
                   ((least_objsize st \<noteq> - 1 \<and> (least_objsize st < max_objsize SD \<or> max_objsize SD = - 1)) \<or>
                    cur_free < most_free st)
                then st
                else \<lparr>most_free = cur_free, least_objsize = max_objsize SD,
                      least_load = checkload SD, least_dirn = Some i\<rparr>)"

definition storeDirSelectSwapDirLeastLoad ::
  "SwapDir list \<Rightarrow> StoreEntry \<Rightarrow> (nat option \<times> SwapDir list) option" where
  "storeDirSelectSwapDirLeastLoad dirs e = do {
     mem \<leftarrow> e_mem_obj e;
     let objsize = (if mem_object_sz mem \<noteq> - 1 then mem_object_sz mem + mem_swap_hdr_sz mem
                    else mem_object_sz mem);
     let st = fold (ll_step e objsize) (enumerate 0 dirs)
                \<lparr>most_free = 0, least_objsize = - 1, least_load = INT_MAX, least_dirn = None\<rparr>;
     let dirs = map (\<lambda>SD. SD\<lparr>selected := False\<rparr>) dirs;
     Some (case least_dirn st of
             None \<Rightarrow> (None, dirs)
           | Some d \<Rightarrow> (Some d, dirs[d := (dirs ! d)\<lparr>selected := True\<rparr>])) }"

subsection \<open>Accounting\<close>

record disk_totals =
  store_swap_size :: int
  n_disk_objects :: int

definition storeDirUpdateSwapSize ::
  "SwapDir \<Rightarrow> disk_totals \<Rightarrow> int \<Rightarrow> int \<Rightarrow> SwapDir \<times> disk_totals" where
  "storeDirUpdateSwapSize SD tot sz sign =
     (let blks = (sz + blksize SD - 1) sdiv blksize SD;
          k = to_int32 ((blks * blksize SD div 1024) * sign)
      in (SD\<lparr>cur_size := to_int32 (cur_size SD + k)\<rparr>,
          tot\<lparr>store_swap_size := to_int32 (store_swap_size tot + k),
              n_disk_objects := to_int32 (n_disk_objects tot + (if 0 < sign then 1 else if sign < 0 then - 1 else 0))\<rparr>))"

subsection \<open>Lemmas\<close>

text \<open>The directories visited by the round-robin loop from \<open>dirn\<close>.\<close>

definition rr_next :: "nat \<Rightarrow> nat \<Rightarrow> nat" where
  "rr_next n dirn = (if n \<le> dirn + 1 then 0 else dirn + 1)"

lemma rr_loop_sound:
  assumes "0 < length dirs" "rr_loop k dirs e objsize d = Some (r, d')"
  shows "(case r of None \<Rightarrow> True | Some x \<Rightarrow> x < length dirs \<and> d' = x \<and> rr_accepts (dirs ! x) e objsize)"
  using assms(2)
proof (induction k arbitrary: d)
  case 0
  then show ?case by simp
next
  case (Suc k)
  let ?n = "rr_next (length dirs) d"
  have n: "?n < length dirs" using assms(1) by (simp add: rr_next_def)
  show ?case
  proof (cases "rr_accepts (dirs ! ?n) e objsize")
    case True
    then show ?thesis using Suc.prems n by (auto simp: rr_next_def Let_def arr_simps split: if_splits)
  next
    case False
    then have "rr_loop k dirs e objsize ?n = Some (r, d')"
      using Suc.prems n by (auto simp: rr_next_def Let_def arr_simps split: if_splits)
    then show ?thesis by (rule Suc.IH)
  qed
qed

lemma rr_next_funpow:
  assumes "0 < n" "d < n"
  shows "(rr_next n ^^ j) d = (d + j) mod n"
proof (induction j)
  case 0
  then show ?case using assms by simp
next
  case (Suc j)
  have "(d + j) mod n < n" using assms(1) by simp
  then have "rr_next n ((d + j) mod n) = (d + Suc j) mod n"
    by (simp add: rr_next_def mod_Suc)
  then show ?case using Suc by simp
qed

lemma rr_loop_misses:
  assumes "0 < length dirs" "rr_loop k dirs e objsize d = Some (None, d')"
  shows "\<forall>j. 0 < j \<longrightarrow> j \<le> k \<longrightarrow> \<not> rr_accepts (dirs ! ((rr_next (length dirs) ^^ j) d)) e objsize"
  using assms(2)
proof (induction k arbitrary: d)
  case 0
  then show ?case by simp
next
  case (Suc k)
  let ?n = "rr_next (length dirs) d"
  have n: "?n < length dirs" using assms(1) by (simp add: rr_next_def)
  then have r: "\<not> rr_accepts (dirs ! ?n) e objsize" "rr_loop k dirs e objsize ?n = Some (None, d')"
    using Suc.prems by (auto simp: rr_next_def Let_def arr_simps split: if_splits)
  show ?case
  proof (intro allI impI)
    fix j assume j: "0 < j" "j \<le> Suc k"
    obtain i where i: "j = Suc i" using j by (cases j) auto
    show "\<not> rr_accepts (dirs ! ((rr_next (length dirs) ^^ j) d)) e objsize"
    proof (cases "i = 0")
      case True
      then show ?thesis using r(1) i by simp
    next
      case False
      then have "\<not> rr_accepts (dirs ! ((rr_next (length dirs) ^^ i) ?n)) e objsize"
        using Suc.IH [OF r(2)] j i by simp
      then show ?thesis using i by (simp add: funpow_swap1)
    qed
  qed
qed

lemma rr_loop_total: "0 < length dirs \<Longrightarrow> \<exists>r d'. rr_loop k dirs e objsize d = Some (r, d')"
proof (induction k arbitrary: d)
  case 0
  then show ?case by simp
next
  case (Suc k)
  have "rr_next (length dirs) d < length dirs" using Suc.prems by (simp add: rr_next_def)
  then show ?case using Suc by (auto simp: rr_next_def Let_def arr_simps)
qed

text \<open>The invariant of the least-load fold over the directories seen so far.\<close>

definition ll_inv :: "StoreEntry \<Rightarrow> int \<Rightarrow> SwapDir list \<Rightarrow> least_state \<Rightarrow> bool" where
  "ll_inv e objsize ds st \<longleftrightarrow>
     (case least_dirn st of
        None \<Rightarrow> least_load st = INT_MAX \<and> (\<forall>SD \<in> set ds. ll_skip SD e objsize)
      | Some d \<Rightarrow> d < length ds \<and> \<not> ll_skip (ds ! d) e objsize \<and> least_load st = checkload (ds ! d) \<and>
          (\<forall>SD \<in> set ds. \<not> ll_skip SD e objsize \<longrightarrow> least_load st \<le> checkload SD))"

lemma ll_step_inv:
  assumes inv: "ll_inv e objsize ds st"
  shows "ll_inv e objsize (ds @ [SD]) (ll_step e objsize (length ds, SD) st)"
proof (cases "ll_skip SD e objsize")
  case True
  then show ?thesis using inv
    by (auto simp: ll_inv_def ll_step_def nth_append split: option.splits)
next
  case False
  then have le: "checkload SD \<le> 1000" "0 \<le> checkload SD" by (auto simp: ll_skip_def)
  show ?thesis
  proof (cases "least_dirn st")
    case None
    then have "least_load st = INT_MAX" "\<forall>SD \<in> set ds. ll_skip SD e objsize" using inv by (auto simp: ll_inv_def)
    then show ?thesis using False le None
      by (auto simp: ll_inv_def ll_step_def Let_def INT_MAX_def nth_append)
  next
    case (Some d)
    then show ?thesis using inv False
      by (auto simp: ll_inv_def ll_step_def Let_def nth_append split: option.splits)
  qed
qed

lemma ll_fold_inv:
  "ll_inv e objsize dirs (fold (ll_step e objsize) (enumerate 0 dirs)
     \<lparr>most_free = 0, least_objsize = - 1, least_load = INT_MAX, least_dirn = None\<rparr>)"
proof (induction dirs rule: rev_induct)
  case Nil
  then show ?case by (simp add: ll_inv_def)
next
  case (snoc SD dirs)
  then show ?case using ll_step_inv by (simp add: enumerate_append_eq)
qed

subsection \<open>Properties\<close>

text \<open>Round robin returns an eligible directory (writable, not over its size limit,
  accepting the object's size, with \<open>checkobj\<close> true and a load between 0 and 1000) and
  advances to it; it returns -1 only if no directory is eligible.\<close>

theorem roundRobin_selects_eligible:
  assumes "e_mem_obj e = Some mem" "dirs \<noteq> []" "dirn < length dirs"
  shows "\<exists>r dirn'. storeDirSelectSwapDirRoundRobin dirs e dirn = Some (r, dirn') \<and>
    (case r of
       Some d \<Rightarrow> d < length dirs \<and> dirn' = d \<and> rr_accepts (dirs ! d) e (mem_object_sz mem)
     | None \<Rightarrow> \<forall>d < length dirs. \<not> rr_accepts (dirs ! d) e (mem_object_sz mem))"
proof -
  let ?n = "length dirs" and ?sz = "mem_object_sz mem"
  have n: "0 < ?n" using assms(2) by simp
  obtain r d' where r: "rr_loop (?n + 1) dirs e ?sz dirn = Some (r, d')" using rr_loop_total [OF n] by blast
  have "\<not> rr_accepts (dirs ! d) e ?sz" if "r = None" "d < ?n" for d
  proof -
    define j where "j = (if dirn < d then d - dirn else d + ?n - dirn)"
    have "0 < j" "j \<le> ?n + 1" "(dirn + j) mod ?n = d" using that(2) assms(3) by (auto simp: j_def)
    then show ?thesis
      using rr_loop_misses [OF n r [unfolded that(1)]] rr_next_funpow [OF n assms(3), of j] by metis
  qed
  with r rr_loop_sound [OF n r] assms(1) show ?thesis
    by (auto simp: storeDirSelectSwapDirRoundRobin_def objectLen_def split: option.splits)
qed

definition demo_dir :: SwapDir where
  "demo_dir = \<lparr>sd_path = ''/c'', cur_size = 0, max_size = 100, min_objsize = 0, max_objsize = - 1,
     read_only = False, selected = False, blksize = 4096, checkobj = (\<lambda>_. True), checkload = 5\<rparr>"

definition demo_mem_obj :: MemObject where
  "demo_mem_obj = \<lparr>mem_method = 1, mem_url = ''u'', mem_store_url = None, mem_data_hdr = mem_hdr_empty,
     mem_inmem_hi = 0, mem_inmem_lo = 0, mem_serverfd = - 1, mem_clients = [], mem_nclients = 0, mem_queue_offset = 0, mem_memnode = None, mem_sio = None,
     mem_reply = \<lparr>rep_content_length = 10, rep_version_major = 1, rep_status = 200, rep_cache_control = None,
       rep_has_etag = False, rep_hdr_sz = 0, rep_parsed = True, rep_date = 0, rep_expires = 0, rep_last_modified = 0, rep_age = - 1\<rparr>,
     mem_request = None, mem_repl = None, mem_id = 0, mem_object_sz = 10, mem_swap_hdr_sz = 0,
     mem_vary_headers = None, mem_ims_entry = None, mem_old_entry = None, mem_refresh_timestamp = 0,
     mem_stale_while_revalidate = 0, mem_abort = None\<rparr>"

definition demo_entry :: StoreEntry where
  "demo_entry = \<lparr>e_mem_obj = Some demo_mem_obj, e_repl = None, e_timestamp = 0, e_lastref = 0, e_expires = 0,
     e_lastmod = 0, e_swap_file_sz = 0, e_refcount = 0, e_flags = 0, e_swap_filen = - 1, e_swap_dirn = - 1,
     e_lock_count = 0, e_mem_status = NOT_IN_MEMORY, e_store_status = STORE_OK, e_swap_status = SWAPOUT_NONE\<rparr>"

lemma demo_entry_simps:
  "e_mem_obj demo_entry = Some demo_mem_obj" "mem_object_sz demo_mem_obj = 10"
  "mem_swap_hdr_sz demo_mem_obj = 0"
  by (simp_all add: demo_entry_def demo_mem_obj_def)

theorem roundRobin_selects_eligible_witness:
  "\<exists>r dirn'. storeDirSelectSwapDirRoundRobin [demo_dir] demo_entry 0 = Some (r, dirn') \<and>
    (case r of
       Some d \<Rightarrow> d < length [demo_dir] \<and> dirn' = d \<and> rr_accepts ([demo_dir] ! d) demo_entry (mem_object_sz demo_mem_obj)
     | None \<Rightarrow> \<forall>d < length [demo_dir]. \<not> rr_accepts ([demo_dir] ! d) demo_entry (mem_object_sz demo_mem_obj))"
  by (rule roundRobin_selects_eligible) (simp_all add: demo_entry_simps)

text \<open>Least load returns -1 only if every directory is skipped, and otherwise a directory
  that is not skipped and whose load is minimal among those; exactly that directory ends up
  with its \<open>selected\<close> flag set.\<close>

theorem leastLoad_selects_minimal:
  assumes "e_mem_obj e = Some mem"
  defines "objsize \<equiv> if mem_object_sz mem \<noteq> - 1 then mem_object_sz mem + mem_swap_hdr_sz mem else mem_object_sz mem"
  shows "\<exists>r dirs'. storeDirSelectSwapDirLeastLoad dirs e = Some (r, dirs') \<and> length dirs' = length dirs \<and>
    (\<forall>i < length dirs. selected (dirs' ! i) \<longleftrightarrow> r = Some i) \<and>
    (case r of
       None \<Rightarrow> \<forall>SD \<in> set dirs. ll_skip SD e objsize
     | Some d \<Rightarrow> d < length dirs \<and> \<not> ll_skip (dirs ! d) e objsize \<and>
         (\<forall>SD \<in> set dirs. \<not> ll_skip SD e objsize \<longrightarrow> checkload (dirs ! d) \<le> checkload SD))"
proof -
  define st where "st = fold (ll_step e objsize) (enumerate 0 dirs)
    \<lparr>most_free = 0, least_objsize = - 1, least_load = INT_MAX, least_dirn = None\<rparr>"
  have inv: "ll_inv e objsize dirs st" unfolding st_def by (rule ll_fold_inv)
  show ?thesis
  proof (cases "least_dirn st")
    case None
    then show ?thesis using inv assms(1)
      by (simp add: storeDirSelectSwapDirLeastLoad_def objsize_def [symmetric] st_def [symmetric]
          Let_def ll_inv_def del: set_map)
  next
    case (Some d)
    then show ?thesis using inv assms(1)
      by (auto simp: storeDirSelectSwapDirLeastLoad_def objsize_def [symmetric] st_def [symmetric]
          Let_def ll_inv_def nth_list_update)
  qed
qed

theorem leastLoad_selects_minimal_witness:
  "\<exists>r dirs'. storeDirSelectSwapDirLeastLoad [demo_dir, demo_dir\<lparr>checkload := 3\<rparr>] demo_entry = Some (r, dirs') \<and>
    r \<noteq> None \<and> (\<forall>i < 2. selected (dirs' ! i) \<longleftrightarrow> r = Some i)"
proof -
  let ?d = "[demo_dir, demo_dir\<lparr>checkload := 3\<rparr>]"
  have "\<not> ll_skip demo_dir demo_entry 10"
    by (simp add: ll_skip_def demo_dir_def storeDirValidSwapDirSize_def)
  then show ?thesis
    using leastLoad_selects_minimal [OF demo_entry_simps(1), of ?d]
    by (fastforce simp: demo_entry_simps split: option.splits)
qed

text \<open>Accounting for an object and later removing it restores the directory's size, the
  total and the object count, also across wrap-around of the 32-bit counters.\<close>

theorem swapSize_add_remove:
  assumes "in_int32 (cur_size SD)" "in_int32 (store_swap_size tot)" "in_int32 (n_disk_objects tot)"
  shows "(case storeDirUpdateSwapSize SD tot sz 1 of (SD', tot') \<Rightarrow> storeDirUpdateSwapSize SD' tot' sz (- 1))
    = (SD, tot)"
proof -
  have undo: "to_int32 (to_int32 (c + x) + y) = c" if "in_int32 c" "to_int32 (x + y) = 0" for c x y
    using that to_int32_step2 [of c "x + y"] by (simp add: to_int32_step to_int32_id add.assoc)
  have "to_int32 (to_int32 x + to_int32 (- x)) = 0" for x
    by (simp only: to_int32_step to_int32_step2) (simp add: to_int32_def)
  moreover have "to_int32 (to_int32 (n_disk_objects tot + 1) - 1) = n_disk_objects tot"
    using undo [of "n_disk_objects tot" 1 "- 1"] assms(3) by (simp add: to_int32_def)
  ultimately show ?thesis using assms undo
    by (simp add: storeDirUpdateSwapSize_def Let_def)
qed

theorem swapSize_add_remove_witness:
  "(case storeDirUpdateSwapSize demo_dir \<lparr>store_swap_size = 7, n_disk_objects = 2\<rparr> 5000 1 of
      (SD', tot') \<Rightarrow> storeDirUpdateSwapSize SD' tot' 5000 (- 1))
    = (demo_dir, \<lparr>store_swap_size = 7, n_disk_objects = 2\<rparr>)"
  by (rule swapSize_add_remove) (simp_all add: demo_dir_def in_int32_def)

end
