(* ===== verification/Store.thy ===== *)
theory Store
  imports YoutubeTable StoreDir
begin

section \<open>The store index and the life of an entry (store.c)\<close>

text \<open>
  The store: the hash table of entries, the entries themselves, and the counters the
  operations share. An entry and its hash link have the same address, as in the C struct,
  whose first member is the link. Calls through the function pointers of the cache
  directories and of the memory replacement policy, and writes to the logs, are recorded in
  order in \<open>s_events\<close>. \<open>None\<close> is an assertion failure or an access to freed memory.

  The theory holds lookup by key and by request (with HappyStream's chunk table), private
  and public keys, release requests, the cachability check, locking, and release.
\<close>

subsection \<open>State\<close>

datatype swap_log_op = SWAP_LOG_ADD | SWAP_LOG_DEL

datatype store_event =
    LogWrite addr swap_log_op int int cache_key
  | PolicyAdd addr | PolicyRemove addr | PolicyReferenced addr | PolicyDereferenced addr
  | FsReferenced addr int | FsDereferenced addr int
  | FsUnlink addr int int
  | UpdateSwapSize int int int
  | StoreLogRelease addr
  | EventAdd string int
  | FsClose addr int int
  | CommResumeFD int
  | DirDiskFull int
  | StoreLogSwapout addr
  | ClientCallback addr nat int "8 word list"
  | FsRead addr nat nat int
  | ReplyParse addr "8 word list"
  | ClientCopyEvent addr nat
  | StoreLogSwapoutFail addr
  | CommDeferFD int

datatype cachable_reason =
    no_wrong_content_length | no_release_request | no_not_entry_cachable | no_negative_cached
  | no_too_big | no_too_small | no_private_key | no_too_many_open_files | no_too_many_open_fds
  | yes_writing | yes_Default

record store_config =
  maxObjectSize :: int
  minObjectSize :: int
  maxInMemObjSize :: int
  max_open_disk_fds :: int
  readAheadGap :: int
  RESERVED_FD :: int

record store =
  s_config :: store_config
  s_table :: "cache_key hash_table"
  s_links :: "cache_key link_mem"
  s_entries :: "addr \<Rightarrow> StoreEntry option"
  s_youtube :: YoutubeChunkTable
  s_key_counter :: int
  s_curtime :: int
  s_open_disk_fd :: int
  s_fdNFree :: int
  s_dirs_rebuilding :: bool
  s_shutting_down :: bool
  s_hot_obj_count :: int
  s_mem_size :: int
  s_late_release :: "addr list"
  s_cachable_hist :: "cachable_reason \<Rightarrow> nat"
  s_events :: "store_event list"

definition put_entry :: "store \<Rightarrow> addr \<Rightarrow> StoreEntry \<Rightarrow> store" where
  "put_entry s a e = s\<lparr>s_entries := (s_entries s)(a \<mapsto> e)\<rparr>"

definition put_event :: "store \<Rightarrow> store_event \<Rightarrow> store" where
  "put_event s ev = s\<lparr>s_events := s_events s @ [ev]\<rparr>"

definition flag_set :: "StoreEntry \<Rightarrow> nat \<Rightarrow> StoreEntry" where
  "flag_set e b = e\<lparr>e_flags := EBIT_SET (e_flags e) b\<rparr>"

definition flag_clr :: "StoreEntry \<Rightarrow> nat \<Rightarrow> StoreEntry" where
  "flag_clr e b = e\<lparr>e_flags := EBIT_CLR (e_flags e) b\<rparr>"

abbreviation has_flag :: "StoreEntry \<Rightarrow> nat \<Rightarrow> bool" where
  "has_flag e b \<equiv> EBIT_TEST (e_flags e) b"

subsection \<open>Hash table interface\<close>

definition storeHashInsert :: "store \<Rightarrow> addr \<Rightarrow> cache_key \<Rightarrow> store option" where
  "storeHashInsert s a key = do {
     l \<leftarrow> s_links s a;
     (t, m) \<leftarrow> hash_join (s_table s) ((s_links s)(a \<mapsto> l\<lparr>hl_key := Some key\<rparr>)) a;
     Some (s\<lparr>s_table := t, s_links := m\<rparr>) }"

definition storeHashDelete :: "store \<Rightarrow> addr \<Rightarrow> store option" where
  "storeHashDelete s a = do {
     (t, m) \<leftarrow> hash_remove_link (s_table s) (s_links s) a;
     l \<leftarrow> m a;
     Some (s\<lparr>s_table := t, s_links := m(a \<mapsto> l\<lparr>hl_key := None\<rparr>)\<rparr>) }"

definition storeGet :: "store \<Rightarrow> cache_key \<Rightarrow> addr option option" where
  "storeGet s key = hash_lookup (s_table s) (s_links s) key"

definition storeGetPublic :: "store \<Rightarrow> string \<Rightarrow> method_t \<Rightarrow> addr option option" where
  "storeGetPublic s uri method = storeGet s (storeKeyPublic uri method)"

text \<open>The entry found and the request, whose canonical URL may have been cached.\<close>

definition storeGetPublicByRequestMethod ::
  "store \<Rightarrow> request_t \<Rightarrow> method_t \<Rightarrow> (addr option \<times> request_t) option" where
  "storeGetPublicByRequestMethod s req method =
     (case r_vary req of
        Some vary \<Rightarrow>
          (case vary_key vary of
             Some vkey \<Rightarrow> do { k \<leftarrow> storeKeyScan (vkey @ [NUL]); e \<leftarrow> storeGet s k; Some (e, req) }
           | None \<Rightarrow> Some (None, req))
      | None \<Rightarrow> do {
          digest \<leftarrow>
            (if isYouTubeUrl (r_urlpath req)
             then do {
               (lmt, startRange, endRange) \<leftarrow> url_chunk_id (r_urlpath req);
               getMatchedSwapoutKey (s_youtube s) lmt startRange endRange }
             else Some None);
          case digest of
            Some k \<Rightarrow> do { e \<leftarrow> storeGet s k; Some (e, req) }
          | None \<Rightarrow> (case storeKeyPublicByRequestMethod req method of
                       (k, req) \<Rightarrow> do { e \<leftarrow> storeGet s k; Some (e, req) }) })"

definition storeGetPublicByRequest :: "store \<Rightarrow> request_t \<Rightarrow> (addr option \<times> request_t) option" where
  "storeGetPublicByRequest s req = do {
     (e, req) \<leftarrow> storeGetPublicByRequestMethod s req (r_method req);
     if e = None \<and> r_method req = METHOD_HEAD then storeGetPublicByRequestMethod s req METHOD_GET
     else Some (e, req) }"

subsection \<open>Keys\<close>

text \<open>The counter is incremented in 32 bits; a negative result restarts it at 1.\<close>

definition getKeyCounter :: "store \<Rightarrow> int \<times> store" where
  "getKeyCounter s =
     (let c = to_int32 (s_key_counter s + 1); c = (if c < 0 then 1 else c)
      in (c, s\<lparr>s_key_counter := c\<rparr>))"

definition storeDirSwapLog :: "store \<Rightarrow> addr \<Rightarrow> swap_log_op \<Rightarrow> store option" where
  "storeDirSwapLog s a op = do {
     e \<leftarrow> s_entries s a;
     c_assert (\<not> has_flag e KEY_PRIVATE);
     c_assert (0 \<le> e_swap_filen e);
     if has_flag e ENTRY_SPECIAL then Some s
     else do {
       k \<leftarrow> link_key (s_links s) a;
       Some (put_event s (LogWrite a op (e_swap_dirn e) (e_swap_filen e) k)) } }"

text \<open>The end of \<open>storeSetPrivateKey\<close>, for an entry that has no key (any more).\<close>

definition assign_private_key :: "store \<Rightarrow> addr \<Rightarrow> StoreEntry \<Rightarrow> store option" where
  "assign_private_key s a e = do {
     (newkey, s) \<leftarrow>
       (case (e_mem_obj e, getKeyCounter s) of
          (Some mem, (i, s)) \<Rightarrow> do {
            k \<leftarrow> storeKeyPrivate (mem_url mem) (mem_method mem) i;
            Some (k, put_entry s a (e\<lparr>e_mem_obj := Some (mem\<lparr>mem_id := i\<rparr>)\<rparr>)) }
        | (None, (i, s)) \<Rightarrow> do { k \<leftarrow> storeKeyPrivate ''JUNK'' METHOD_NONE i; Some (k, s) });
     r \<leftarrow> storeGet s newkey;
     c_assert (r = None);
     e \<leftarrow> s_entries s a;
     storeHashInsert (put_entry s a (flag_set e KEY_PRIVATE)) a newkey }"

definition storeSetPrivateKey :: "store \<Rightarrow> addr \<Rightarrow> store option" where
  "storeSetPrivateKey s a = do {
     e \<leftarrow> s_entries s a;
     if link_key (s_links s) a \<noteq> None \<and> has_flag e KEY_PRIVATE then Some s
     else do {
       s \<leftarrow> (if link_key (s_links s) a \<noteq> None
             then do {
               s \<leftarrow> (if - 1 < e_swap_filen e then storeDirSwapLog s a SWAP_LOG_DEL else Some s);
               storeHashDelete s a }
             else Some s);
       assign_private_key s a e } }"

definition storeReleaseRequest :: "store \<Rightarrow> addr \<Rightarrow> store option" where
  "storeReleaseRequest s a = do {
     e \<leftarrow> s_entries s a;
     if has_flag e RELEASE_REQUEST then Some s
     else storeSetPrivateKey (put_entry s a (flag_clr (flag_set e RELEASE_REQUEST) ENTRY_CACHABLE)) a }"

definition storeExpireNow :: "store \<Rightarrow> addr \<Rightarrow> store option" where
  "storeExpireNow s a = do {
     e \<leftarrow> s_entries s a;
     Some (put_entry s a (e\<lparr>e_expires := s_curtime s\<rparr>)) }"

subsection \<open>Cachability\<close>

definition storeTooManyDiskFilesOpen :: "store \<Rightarrow> bool" where
  "storeTooManyDiskFilesOpen s \<longleftrightarrow>
     max_open_disk_fds (s_config s) \<noteq> 0 \<and> max_open_disk_fds (s_config s) < s_open_disk_fd s"

definition storeCheckTooSmall :: "store \<Rightarrow> StoreEntry \<Rightarrow> MemObject \<Rightarrow> bool" where
  "storeCheckTooSmall s e mem \<longleftrightarrow>
     (if has_flag e ENTRY_SPECIAL then False
      else if e_store_status e = STORE_OK \<and> mem_object_sz mem < minObjectSize (s_config s) then True
      else if - 1 < rep_content_length (mem_reply mem)
              \<and> rep_content_length (mem_reply mem) < minObjectSize (s_config s) then True
      else False)"

text \<open>The branch that \<open>storeCheckCachable\<close> takes; each has a counter of its own.\<close>

definition cachable_verdict :: "store \<Rightarrow> StoreEntry \<Rightarrow> cachable_reason option" where
  "cachable_verdict s e =
     (if e_store_status e = STORE_OK \<and> has_flag e ENTRY_BAD_LENGTH then Some no_wrong_content_length
      else if has_flag e RELEASE_REQUEST then Some no_release_request
      else if \<not> has_flag e ENTRY_CACHABLE then Some no_not_entry_cachable
      else if has_flag e ENTRY_NEGCACHED then Some no_negative_cached
      else do {
        mem \<leftarrow> e_mem_obj e;
        let clen = rep_content_length (mem_reply mem);
        Some
          (if (0 < clen \<and> maxObjectSize (s_config s) < clen) \<or> maxObjectSize (s_config s) < mem_inmem_hi mem
           then no_too_big
           else if storeCheckTooSmall s e mem then no_too_small
           else if has_flag e KEY_PRIVATE then no_private_key
           else if e_swap_status e \<noteq> SWAPOUT_NONE then yes_writing
           else if storeTooManyDiskFilesOpen s then no_too_many_open_files
           else if s_fdNFree s < RESERVED_FD (s_config s) then no_too_many_open_fds
           else yes_Default) })"

definition count_verdict :: "store \<Rightarrow> cachable_reason \<Rightarrow> store" where
  "count_verdict s r =
     (if r = yes_writing then s
      else s\<lparr>s_cachable_hist := (s_cachable_hist s)(r := s_cachable_hist s r + 1)\<rparr>)"

definition storeCheckCachable :: "store \<Rightarrow> addr \<Rightarrow> (bool \<times> store) option" where
  "storeCheckCachable s a = do {
     e \<leftarrow> s_entries s a;
     r \<leftarrow> cachable_verdict s e;
     let s = count_verdict s r;
     if r = yes_writing \<or> r = yes_Default then Some (True, s)
     else if r = no_negative_cached then Some (False, s)
     else do {
       s \<leftarrow> storeReleaseRequest s a;
       e \<leftarrow> s_entries s a;
       Some (False, put_entry s a (flag_clr e ENTRY_CACHABLE)) } }"

subsection \<open>Validity and times\<close>

definition storeEntryValidLength :: "StoreEntry \<Rightarrow> bool option" where
  "storeEntryValidLength e = do {
     mem \<leftarrow> e_mem_obj e;
     let clen = httpReplyBodySize (mem_method mem) (mem_reply mem);
     if clen < 0 then Some True
     else Some (rep_hdr_sz (mem_reply mem) + clen - mem_object_sz mem = 0) }"

definition storeKeepInMemory :: "StoreEntry \<Rightarrow> bool" where
  "storeKeepInMemory e =
     (case e_mem_obj e of
        None \<Rightarrow> False
      | Some mem \<Rightarrow> if m_nodes (mem_data_hdr mem) = [] then False else mem_inmem_lo mem = 0)"

definition expiresMoreThan :: "store \<Rightarrow> int \<Rightarrow> int \<Rightarrow> bool" where
  "expiresMoreThan s expires when = (if expires < 0 then True else to_int32 (s_curtime s + when) < expires)"

definition storeEntryValidToSend :: "store \<Rightarrow> StoreEntry \<Rightarrow> int" where
  "storeEntryValidToSend s e =
     (if has_flag e RELEASE_REQUEST then 0
      else if has_flag e ENTRY_NEGCACHED \<and> e_expires e \<le> s_curtime s then 0
      else if has_flag e ENTRY_ABORTED then 0
      else if e_store_status e = STORE_PENDING
      then (case e_mem_obj e of
              None \<Rightarrow> 0
            | Some mem \<Rightarrow> if to_int32 (mem_refresh_timestamp mem + 30) < s_curtime s then 0 else - 1)
      else 1)"

text \<open>\<open>served_date\<close> after both corrections, and the expiry time relative to it.\<close>

definition served_date :: "int \<Rightarrow> HttpReply \<Rightarrow> int" where
  "served_date curtime reply =
     (let age = rep_age reply;
          served = (if rep_date reply < 0 \<or> curtime < rep_date reply then curtime else rep_date reply)
      in if curtime - served < age \<and> age < curtime then curtime - age else served)"

definition entry_expires :: "int \<Rightarrow> HttpReply \<Rightarrow> int" where
  "entry_expires served reply =
     (if 0 < rep_expires reply \<and> - 1 < rep_date reply then to_int32 (served + to_int32 (rep_expires reply - rep_date reply))
      else rep_expires reply)"

definition storeTimestampsSet :: "store \<Rightarrow> addr \<Rightarrow> store option" where
  "storeTimestampsSet s a = do {
     e \<leftarrow> s_entries s a;
     mem \<leftarrow> e_mem_obj e;
     let served = served_date (s_curtime s) (mem_reply mem);
     Some (put_entry s a (e\<lparr>e_expires := entry_expires served (mem_reply mem),
                            e_lastmod := rep_last_modified (mem_reply mem), e_timestamp := served\<rparr>)) }"

subsection \<open>Memory status, locks and release\<close>

definition storeSetMemStatus :: "store \<Rightarrow> addr \<Rightarrow> mem_status_t \<Rightarrow> store option" where
  "storeSetMemStatus s a new_status = do {
     e \<leftarrow> s_entries s a;
     if new_status = e_mem_status e then Some s
     else do {
       mem \<leftarrow> e_mem_obj e;
       s \<leftarrow> (if new_status = IN_MEMORY
             then do {
               c_assert (mem_inmem_lo mem = 0);
               let s = (if has_flag e ENTRY_SPECIAL then s else put_event s (PolicyAdd a));
               Some (s\<lparr>s_hot_obj_count := s_hot_obj_count s + 1\<rparr>) }
             else do {
               let s = (if has_flag e ENTRY_SPECIAL then s else put_event s (PolicyRemove a));
               Some (s\<lparr>s_hot_obj_count := s_hot_obj_count s - 1\<rparr>) });
       Some (put_entry s a (e\<lparr>e_mem_status := new_status\<rparr>)) } }"

definition storeEntryReferenced :: "store \<Rightarrow> addr \<Rightarrow> store option" where
  "storeEntryReferenced s a = do {
     e \<leftarrow> s_entries s a;
     let s = (if - 1 < e_swap_dirn e then put_event s (FsReferenced a (e_swap_dirn e)) else s);
     Some (if e_mem_obj e \<noteq> None then put_event s (PolicyReferenced a) else s) }"

definition storeEntryDereferenced :: "store \<Rightarrow> addr \<Rightarrow> store option" where
  "storeEntryDereferenced s a = do {
     e \<leftarrow> s_entries s a;
     let s = (if - 1 < e_swap_filen e then put_event s (FsDereferenced a (e_swap_dirn e)) else s);
     Some (if e_mem_obj e \<noteq> None then put_event s (PolicyDereferenced a) else s) }"

definition storeLockObject :: "store \<Rightarrow> addr \<Rightarrow> store option" where
  "storeLockObject s a = do {
     e \<leftarrow> s_entries s a;
     storeEntryReferenced
       (put_entry s a (e\<lparr>e_lock_count := e_lock_count e + 1, e_lastref := s_curtime s\<rparr>)) a }"

definition storePendingNClients :: "StoreEntry \<Rightarrow> int" where
  "storePendingNClients e = (case e_mem_obj e of None \<Rightarrow> 0 | Some mem \<Rightarrow> mem_nclients mem)"

text \<open>
  Unlocking, releasing and destroying call each other: destroying the memory object of an
  entry unlocks the entries it refers to. Each function is written over the functions it
  calls; \<open>store_ops\<close> ties them, with a bound on the nesting of calls.
\<close>

definition unlock_body ::
  "(store \<Rightarrow> addr \<Rightarrow> store option) \<Rightarrow> (store \<Rightarrow> addr \<Rightarrow> store option) \<Rightarrow> store \<Rightarrow> addr \<Rightarrow> store option" where
  "unlock_body release purgeMem s a = do {
     e \<leftarrow> s_entries s a;
     let e = e\<lparr>e_lock_count := e_lock_count e - 1\<rparr>;
     let s = put_entry s a e;
     if e_lock_count e \<noteq> 0 then Some s
     else do {
       let e = (if e_store_status e = STORE_PENDING then flag_set e RELEASE_REQUEST else e);
       let s = put_entry s a e;
       c_assert (storePendingNClients e = 0);
       if has_flag e RELEASE_REQUEST then release s a
       else if storeKeepInMemory e
       then do {
         s \<leftarrow> storeEntryDereferenced s a;
         s \<leftarrow> storeSetMemStatus s a IN_MEMORY;
         e \<leftarrow> s_entries s a;
         mem \<leftarrow> e_mem_obj e;
         Some (put_entry s a (e\<lparr>e_mem_obj := Some (mem\<lparr>mem_request := None\<rparr>)\<rparr>)) }
       else do { s \<leftarrow> purgeMem s a; storeEntryDereferenced s a } } }"

definition purgeMem_body ::
  "(store \<Rightarrow> addr \<Rightarrow> store option) \<Rightarrow> (store \<Rightarrow> addr \<Rightarrow> store option) \<Rightarrow> store \<Rightarrow> addr \<Rightarrow> store option" where
  "purgeMem_body destroyMem release s a = do {
     e \<leftarrow> s_entries s a;
     if e_mem_obj e = None then Some s
     else do {
       s \<leftarrow> storeSetMemStatus s a NOT_IN_MEMORY;
       s \<leftarrow> destroyMem s a;
       e \<leftarrow> s_entries s a;
       if e_swap_status e \<noteq> SWAPOUT_DONE then release s a else Some s } }"

text \<open>The part of \<open>storeRelease\<close> that gives up the disk copy.\<close>

definition release_disk :: "store \<Rightarrow> addr \<Rightarrow> StoreEntry \<Rightarrow> store option" where
  "release_disk s a e =
     (if - 1 < e_swap_filen e
      then do {
        let s = put_event s (FsUnlink a (e_swap_dirn e) (e_swap_filen e));
        let s = (if e_swap_status e = SWAPOUT_DONE \<and> has_flag e ENTRY_VALIDATED
                 then put_event s (UpdateSwapSize (e_swap_dirn e) (e_swap_file_sz e) (- 1)) else s);
        if \<not> has_flag e KEY_PRIVATE then storeDirSwapLog s a SWAP_LOG_DEL else Some s }
      else Some s)"

definition release_body ::
  "(store \<Rightarrow> addr \<Rightarrow> store option) \<Rightarrow> (store \<Rightarrow> addr \<Rightarrow> store option) \<Rightarrow> store \<Rightarrow> addr \<Rightarrow> store option" where
  "release_body destroyMem destroyEntry s a = do {
     e \<leftarrow> s_entries s a;
     if storeEntryLocked e then do { s \<leftarrow> storeExpireNow s a; storeReleaseRequest s a }
     else if s_dirs_rebuilding s \<and> - 1 < e_swap_filen e
     then do {
       s \<leftarrow> storeSetPrivateKey s a;
       s \<leftarrow> (if e_mem_obj e \<noteq> None
             then do { s \<leftarrow> storeSetMemStatus s a NOT_IN_MEMORY; destroyMem s a }
             else Some s);
       e \<leftarrow> s_entries s a;
       Some ((put_entry s a (flag_set (e\<lparr>e_lock_count := e_lock_count e + 1\<rparr>) RELEASE_REQUEST))
              \<lparr>s_late_release := a # s_late_release s\<rparr>) }
     else do {
       let s = put_event s (StoreLogRelease a);
       s \<leftarrow> release_disk s a e;
       s \<leftarrow> storeSetMemStatus s a NOT_IN_MEMORY;
       destroyEntry s a } }"

definition destroyMem_body ::
  "(store \<Rightarrow> addr \<Rightarrow> store option) \<Rightarrow> store \<Rightarrow> addr \<Rightarrow> store option" where
  "destroyMem_body unlock s a = do {
     e \<leftarrow> s_entries s a;
     mem \<leftarrow> e_mem_obj e;
     c_assert (s_shutting_down s \<or> mem_sio mem = None);
     let (_, sz, _) = stmemFree (mem_data_hdr mem) (s_mem_size s);
     let s = (put_entry s a (e\<lparr>e_mem_obj := None\<rparr>))\<lparr>s_mem_size := sz\<rparr>;
     s \<leftarrow> (case mem_ims_entry mem of None \<Rightarrow> Some s | Some b \<Rightarrow> unlock s b);
     (case mem_old_entry mem of None \<Rightarrow> Some s | Some b \<Rightarrow> unlock s b) }"

definition destroyEntry_body ::
  "(store \<Rightarrow> addr \<Rightarrow> store option) \<Rightarrow> store \<Rightarrow> addr \<Rightarrow> store option" where
  "destroyEntry_body destroyMem s a = do {
     e \<leftarrow> s_entries s a;
     s \<leftarrow> (if e_mem_obj e \<noteq> None then destroyMem s a else Some s);
     s \<leftarrow> storeHashDelete s a;
     Some (s\<lparr>s_entries := (s_entries s)(a := None), s_links := (s_links s)(a := None)\<rparr>) }"

datatype store_op = OpUnlock | OpRelease | OpPurgeMem | OpDestroyMem | OpDestroyEntry

primrec store_ops :: "nat \<Rightarrow> store_op \<Rightarrow> store \<Rightarrow> addr \<Rightarrow> store option" where
  "store_ops 0 = (\<lambda>op s a. None)"
| "store_ops (Suc n) =
     (\<lambda>op. case op of
        OpUnlock \<Rightarrow> unlock_body (store_ops n OpRelease) (store_ops n OpPurgeMem)
      | OpRelease \<Rightarrow> release_body (store_ops n OpDestroyMem) (store_ops n OpDestroyEntry)
      | OpPurgeMem \<Rightarrow> purgeMem_body (store_ops n OpDestroyMem) (store_ops n OpRelease)
      | OpDestroyMem \<Rightarrow> destroyMem_body (store_ops n OpUnlock)
      | OpDestroyEntry \<Rightarrow> destroyEntry_body (store_ops n OpDestroyMem))"

definition storeUnlockObject :: "nat \<Rightarrow> store \<Rightarrow> addr \<Rightarrow> store option" where
  "storeUnlockObject n = store_ops n OpUnlock"

definition storeRelease :: "nat \<Rightarrow> store \<Rightarrow> addr \<Rightarrow> store option" where
  "storeRelease n = store_ops n OpRelease"

definition storePurgeMem :: "nat \<Rightarrow> store \<Rightarrow> addr \<Rightarrow> store option" where
  "storePurgeMem n = store_ops n OpPurgeMem"

definition destroy_MemObject :: "nat \<Rightarrow> store \<Rightarrow> addr \<Rightarrow> store option" where
  "destroy_MemObject n = store_ops n OpDestroyMem"

definition destroy_StoreEntry :: "nat \<Rightarrow> store \<Rightarrow> addr \<Rightarrow> store option" where
  "destroy_StoreEntry n = store_ops n OpDestroyEntry"

text \<open>\<open>storeLateRelease\<close>: up to ten entries released during the rebuild are unlocked per call.\<close>

fun late_release_loop :: "nat \<Rightarrow> nat \<Rightarrow> store \<Rightarrow> store option" where
  "late_release_loop n 0 s = Some (put_event s (EventAdd ''storeLateRelease'' 0))"
| "late_release_loop n (Suc i) s =
     (case s_late_release s of
        [] \<Rightarrow> Some s
      | a # as \<Rightarrow> do { s \<leftarrow> storeUnlockObject n (s\<lparr>s_late_release := as\<rparr>) a; late_release_loop n i s })"

definition storeLateRelease :: "nat \<Rightarrow> store \<Rightarrow> store option" where
  "storeLateRelease n s =
     (if s_dirs_rebuilding s then Some (put_event s (EventAdd ''storeLateRelease'' 1))
      else late_release_loop n 10 s)"

definition storeInitTable :: "int \<Rightarrow> cache_key hash_table option" where
  "storeInitTable i = do {
     store_hash_buckets \<leftarrow> storeKeyHashBuckets i;
     Some (hash_create storeKeyHashCmp store_hash_buckets
             (\<lambda>k n. unat (storeKeyHashHash k (of_nat n)))) }"

subsection \<open>The index as a table of links\<close>

abbreviation key_ok :: "cache_key \<Rightarrow> bool" where
  "key_ok k \<equiv> length k = 16"

definition store_rep :: "store \<Rightarrow> (cache_key \<Rightarrow> addr list) \<Rightarrow> bool" where
  "store_rep s L \<longleftrightarrow> ht_state key_ok (s_table s, s_links s) L"

lemma store_rep_frame [simp]:
  "store_rep (put_entry s a e) L \<longleftrightarrow> store_rep s L" "store_rep (put_event s ev) L \<longleftrightarrow> store_rep s L"
  "store_rep (s\<lparr>s_key_counter := c\<rparr>) L \<longleftrightarrow> store_rep s L"
  by (simp_all add: store_rep_def put_entry_def put_event_def)

lemma put_simps [simp]:
  "s_entries (put_entry s a e) = (s_entries s)(a \<mapsto> e)" "s_table (put_entry s a e) = s_table s"
  "s_links (put_entry s a e) = s_links s" "s_youtube (put_entry s a e) = s_youtube s"
  "s_entries (put_event s ev) = s_entries s" "s_table (put_event s ev) = s_table s"
  "s_links (put_event s ev) = s_links s" "s_youtube (put_event s ev) = s_youtube s"
  "s_dirs_rebuilding (put_entry s a e) = s_dirs_rebuilding s" "s_key_counter (put_entry s a e) = s_key_counter s"
  "s_curtime (put_entry s a e) = s_curtime s"
  by (simp_all add: put_entry_def put_event_def)

text \<open>A link that is in no bucket can be changed without affecting the table.\<close>

lemma ht_state_frame:
  assumes st: "ht_state valid (t, m) L" and a: "\<forall>k. a \<notin> set (L k)"
  shows "ht_state valid (t, m(a := x)) L"
proof -
  obtain bs where bs: "ht_rep t m bs" "slot_ok t" "L = ht_links valid t m bs"
    "\<forall>k. valid k \<longrightarrow> ht_hash t k (ht_size t) < ht_size t"
    "\<forall>k k'. valid k \<longrightarrow> valid k' \<longrightarrow> ht_cmp t k k' = 0 \<longleftrightarrow> k = k'"
    "\<forall>a \<in> set (concat bs). \<exists>k. link_key m a = Some k \<and> valid k"
    using st by (auto simp: ht_state_def)
  let ?m = "m(a := x)"
  have notin: "a \<notin> set (concat bs)" using ht_links_mem [OF bs(1,6)] a bs(3) by blast
  have inb: "c \<in> set (concat bs)" if "i < ht_size t" "c \<in> set (bs ! i)" for i c
    using that ht_rep_length [OF bs(1)] by auto
  have lk: "link_key ?m c = link_key m c" if "c \<in> set (concat bs)" for c
    using that notin by (auto simp: link_key_def)
  have "chain (links_next ?m) (buckets t ! i) (bs ! i)" if "i < ht_size t" for i
    using inb [OF that] notin by (intro chain_frame [OF ht_rep_chain [OF bs(1) that]]) auto
  moreover have "\<exists>k. link_key ?m c = Some k \<and> ht_hash t k (ht_size t) = i"
    if "i < ht_size t" "c \<in> set (bs ! i)" for i c
    using ht_rep_key [OF bs(1) that] lk [OF inb [OF that]] by simp
  ultimately have "ht_rep t ?m bs" using bs(1) by (simp add: ht_rep_def)
  moreover have "ht_links valid t ?m bs = L"
  proof
    fix k
    show "ht_links valid t ?m bs k = L k"
      using bs(3,4) lk inb by (auto simp: ht_links_def intro!: filter_cong)
  qed
  moreover have "\<forall>c \<in> set (concat bs). \<exists>k. link_key ?m c = Some k \<and> valid k" using bs(6) lk by metis
  ultimately show ?thesis using bs(2,4,5) unfolding ht_state_def split by blast
qed

lemma storeHashInsert_rep:
  assumes r: "store_rep s L" and l: "s_links s a = Some l" and a: "\<forall>k. a \<notin> set (L k)" and k: "key_ok key"
  shows "\<exists>t m. storeHashInsert s a key = Some (s\<lparr>s_table := t, s_links := m\<rparr>) \<and>
    store_rep (s\<lparr>s_table := t, s_links := m\<rparr>) (L(key := a # L key)) \<and>
    link_key m = (link_key (s_links s))(a := Some key)"
proof -
  let ?m = "(s_links s)(a \<mapsto> l\<lparr>hl_key := Some key\<rparr>)"
  have st: "ht_state key_ok (s_table s, ?m) L"
    using ht_state_frame r a by (auto simp: store_rep_def)
  have lk: "link_key ?m = (link_key (s_links s))(a := Some key)" by (auto simp: link_key_def)
  then have "link_key ?m a = Some key" by simp
  with ht.join_law [OF st, of a key] k a obtain t m where
    "hash_join (s_table s) ?m a = Some (t, m)" "ht_state key_ok (t, m) (L(key := a # L key))"
    "link_key m = link_key ?m" by auto
  then show ?thesis using l lk by (auto simp: storeHashInsert_def store_rep_def)
qed

lemma storeHashDelete_rep:
  assumes r: "store_rep s L" and a: "a \<in> set (L k)" and once: "a \<notin> set (remove1 a (L k))"
    and other: "\<forall>k'. k' \<noteq> k \<longrightarrow> a \<notin> set (L k')"
  shows "\<exists>t m. storeHashDelete s a = Some (s\<lparr>s_table := t, s_links := m\<rparr>) \<and>
    store_rep (s\<lparr>s_table := t, s_links := m\<rparr>) (L(k := remove1 a (L k))) \<and>
    link_key m = (link_key (s_links s))(a := None) \<and> m a \<noteq> None"
proof -
  have st: "ht_state key_ok (s_table s, s_links s) L" using r by (simp add: store_rep_def)
  from ht.remove_law [OF st a] obtain t m where
    d: "hash_remove_link (s_table s) (s_links s) a = Some (t, m)"
      "ht_state key_ok (t, m) (L(k := remove1 a (L k)))" "link_key m = link_key (s_links s)" by auto
  have "link_key (s_links s) a \<noteq> None"
    using st a by (auto simp: ht_state_def ht_links_def split: if_splits)
  then obtain l where l: "m a = Some l" using d(3) by (metis link_key_def option.case_eq_if option.collapse)
  let ?m = "m(a \<mapsto> l\<lparr>hl_key := None\<rparr>)"
  have "ht_state key_ok (t, ?m) (L(k := remove1 a (L k)))"
    using d(2) once other by (intro ht_state_frame) auto
  moreover have "link_key ?m = (link_key (s_links s))(a := None)" using d(3) by (auto simp: link_key_def fun_eq_iff)
  ultimately show ?thesis using d(1) l
    by (auto simp: storeHashDelete_def store_rep_def intro!: exI [of _ t] exI [of _ ?m])
qed

lemma storeGet_rep:
  "store_rep s L \<Longrightarrow> key_ok k \<Longrightarrow> storeGet s k = Some (case L k of [] \<Rightarrow> None | a # _ \<Rightarrow> Some a)"
  using ht.lookup_law [of key_ok "(s_table s, s_links s)" L k] by (simp add: storeGet_def store_rep_def)

lemma store_rep_once:
  assumes "store_rep s L" "a \<in> set (L k)"
  shows "key_ok k" "a \<notin> set (remove1 a (L k))" "\<forall>k'. k' \<noteq> k \<longrightarrow> a \<notin> set (L k')"
    "link_key (s_links s) a = Some k"
proof -
  obtain bs where bs: "ht_rep (s_table s) (s_links s) bs" "L = ht_links key_ok (s_table s) (s_links s) bs"
    "\<forall>k. key_ok k \<longrightarrow> ht_hash (s_table s) k (ht_size (s_table s)) < ht_size (s_table s)"
    using assms(1) by (auto simp: store_rep_def ht_state_def)
  show k: "key_ok k" "link_key (s_links s) a = Some k"
    using assms(2) bs(2) by (auto simp: ht_links_def split: if_splits)
  then show "\<forall>k'. k' \<noteq> k \<longrightarrow> a \<notin> set (L k')" using bs(2) by (auto simp: ht_links_def split: if_splits)
  have "distinct (bs ! ht_hash (s_table s) k (ht_size (s_table s)))"
    using ht_rep_chain [OF bs(1)] bs(3) k(1) chain_distinct by blast
  then have "distinct (L k)" using bs(2) k(1) by (simp add: ht_links_def)
  then show "a \<notin> set (remove1 a (L k))" by simp
qed

subsection \<open>Private keys\<close>

lemma getKeyCounter_pos:
  assumes "0 \<le> s_key_counter s" "in_int32 (s_key_counter s)"
  shows "0 < fst (getKeyCounter s) \<and> in_int32 (fst (getKeyCounter s)) \<and>
    snd (getKeyCounter s) = s\<lparr>s_key_counter := fst (getKeyCounter s)\<rparr>"
proof (cases "s_key_counter s = 2 ^ 31 - 1")
  case True
  then show ?thesis by (simp add: getKeyCounter_def Let_def to_int32_def in_int32_def)
next
  case False
  then have "in_int32 (s_key_counter s + 1)" using assms by (auto simp: in_int32_def)
  then show ?thesis using assms by (simp add: getKeyCounter_def Let_def to_int32_id)
qed

definition private_key :: "StoreEntry \<Rightarrow> int \<Rightarrow> cache_key" where
  "private_key e i =
     (case e_mem_obj e of
        Some mem \<Rightarrow> md5_digest [bytes_of32 (word_of_int i), bytes_of32 (of_nat (mem_method mem)),
                                bytes_of_string (mem_url mem)]
      | None \<Rightarrow> md5_digest [bytes_of32 (word_of_int i), bytes_of32 (of_nat METHOD_NONE), bytes_of_string ''JUNK''])"

lemma key_ok_private: "key_ok (private_key e i)"
  by (simp add: private_key_def length_md5_digest split: option.splits)

definition with_id :: "StoreEntry \<Rightarrow> int \<Rightarrow> StoreEntry" where
  "with_id e i = (case e_mem_obj e of Some mem \<Rightarrow> e\<lparr>e_mem_obj := Some (mem\<lparr>mem_id := i\<rparr>)\<rparr> | None \<Rightarrow> e)"

lemma assign_private_key_rep:
  assumes r: "store_rep s L" and e: "s_entries s a = Some e" and l: "s_links s a \<noteq> None"
    and a: "\<forall>k. a \<notin> set (L k)" and c: "0 \<le> s_key_counter s" "in_int32 (s_key_counter s)"
    and i: "i = fst (getKeyCounter s)" and fresh: "L (private_key e i) = []"
  shows "\<exists>t m. assign_private_key s a e = Some (s\<lparr>s_table := t, s_links := m, s_key_counter := i,
      s_entries := (s_entries s)(a \<mapsto> flag_set (with_id e i) KEY_PRIVATE)\<rparr>) \<and>
    store_rep (s\<lparr>s_table := t, s_links := m\<rparr>) (L(private_key e i := [a])) \<and>
    link_key m = (link_key (s_links s))(a := Some (private_key e i))"
proof -
  let ?s3 = "s\<lparr>s_key_counter := i, s_entries := (s_entries s)(a \<mapsto> with_id e i)\<rparr>"
  let ?s4 = "s\<lparr>s_key_counter := i, s_entries := (s_entries s)(a \<mapsto> flag_set (with_id e i) KEY_PRIVATE)\<rparr>"
  have gk: "getKeyCounter s = (i, s\<lparr>s_key_counter := i\<rparr>)" "0 < i"
    using getKeyCounter_pos [OF c] by (auto simp: i prod_eq_iff)
  have upd: "s\<lparr>s_key_counter := i\<rparr> = s\<lparr>s_key_counter := i, s_entries := (s_entries s)(a \<mapsto> e)\<rparr>"
    using e by (simp add: map_upd_triv)
  have r3: "store_rep ?s3 L" "store_rep ?s4 L" using r by (simp_all add: store_rep_def)
  have g: "storeGet ?s3 (private_key e i) = Some None"
    using storeGet_rep [OF r3(1) key_ok_private] fresh by simp
  have "assign_private_key s a e = storeHashInsert ?s4 a (private_key e i)"
  proof (cases "e_mem_obj e")
    case None
    then show ?thesis using gk g upd e
      by (simp add: assign_private_key_def storeKeyPrivate_def private_key_def with_id_def put_entry_def)
  next
    case (Some mem)
    then show ?thesis using gk g
      by (simp add: assign_private_key_def storeKeyPrivate_def private_key_def with_id_def put_entry_def)
  qed
  moreover obtain l' where "s_links ?s4 a = Some l'" using l by auto
  from storeHashInsert_rep [OF r3(2) this a key_ok_private [of e i]] obtain t m where
    "storeHashInsert ?s4 a (private_key e i) = Some (?s4\<lparr>s_table := t, s_links := m\<rparr>)"
    "store_rep (?s4\<lparr>s_table := t, s_links := m\<rparr>) (L(private_key e i := a # L (private_key e i)))"
    "link_key m = (link_key (s_links s))(a := Some (private_key e i))" by auto
  ultimately show ?thesis using fresh
    by (auto simp: store_rep_def intro!: exI [of _ t] exI [of _ m])
qed

definition log_del :: "store \<Rightarrow> addr \<Rightarrow> StoreEntry \<Rightarrow> cache_key \<Rightarrow> store_event list" where
  "log_del s a e k =
     (if - 1 < e_swap_filen e \<and> \<not> has_flag e ENTRY_SPECIAL
      then [LogWrite a SWAP_LOG_DEL (e_swap_dirn e) (e_swap_filen e) k] else [])"

lemma storeDirSwapLog_del:
  assumes "s_entries s a = Some e" "\<not> has_flag e KEY_PRIVATE" "link_key (s_links s) a = Some k"
  shows "(if - 1 < e_swap_filen e then storeDirSwapLog s a SWAP_LOG_DEL else Some s)
    = Some (s\<lparr>s_events := s_events s @ log_del s a e k\<rparr>)"
  using assms by (auto simp: storeDirSwapLog_def log_del_def put_event_def)

lemma storeSetPrivateKey_public:
  assumes r: "store_rep s L" and e: "s_entries s a = Some e" and a: "a \<in> set (L k)"
    and np: "\<not> has_flag e KEY_PRIVATE" and c: "0 \<le> s_key_counter s" "in_int32 (s_key_counter s)"
    and fresh: "(L(k := remove1 a (L k))) (private_key e (fst (getKeyCounter s))) = []"
  defines "i \<equiv> fst (getKeyCounter s)"
  shows "\<exists>t m. storeSetPrivateKey s a = Some (s\<lparr>s_table := t, s_links := m, s_key_counter := i,
      s_entries := (s_entries s)(a \<mapsto> flag_set (with_id e i) KEY_PRIVATE),
      s_events := s_events s @ log_del s a e k\<rparr>) \<and>
    store_rep (s\<lparr>s_table := t, s_links := m\<rparr>)
      (L(k := remove1 a (L k), private_key e i := [a])) \<and>
    link_key m = (link_key (s_links s))(a := Some (private_key e i))"
proof -
  note once = store_rep_once [OF r a]
  let ?s1 = "s\<lparr>s_events := s_events s @ log_del s a e k\<rparr>" and ?L2 = "L(k := remove1 a (L k))"
  have r1: "store_rep ?s1 L" using r by (simp add: store_rep_def)
  obtain t1 m1 where d: "storeHashDelete ?s1 a = Some (?s1\<lparr>s_table := t1, s_links := m1\<rparr>)"
    "store_rep (?s1\<lparr>s_table := t1, s_links := m1\<rparr>) ?L2"
    "link_key m1 = (link_key (s_links s))(a := None)" "m1 a \<noteq> None"
    using storeHashDelete_rep [OF r1 a once(2,3)] by auto
  let ?s2 = "?s1\<lparr>s_table := t1, s_links := m1\<rparr>"
  have "fst (getKeyCounter ?s2) = i" by (simp add: i_def getKeyCounter_def Let_def)
  moreover have "\<forall>k'. a \<notin> set (?L2 k')" using once(2,3) by auto
  ultimately obtain t m where ins: "assign_private_key ?s2 a e = Some (?s2\<lparr>s_table := t, s_links := m,
      s_key_counter := i, s_entries := (s_entries s)(a \<mapsto> flag_set (with_id e i) KEY_PRIVATE)\<rparr>)"
    "store_rep (?s2\<lparr>s_table := t, s_links := m\<rparr>) (?L2(private_key e i := [a]))"
    "link_key m = (link_key m1)(a := Some (private_key e i))"
    using assign_private_key_rep [OF d(2), of a e i] e d(4) c fresh by (auto simp: i_def)
  have "storeSetPrivateKey s a = assign_private_key ?s2 a e"
    using e once(4) np d(1) storeDirSwapLog_del [OF e np once(4)] by (simp add: storeSetPrivateKey_def)
  then show ?thesis using ins d(3)
    by (auto simp: store_rep_def intro!: exI [of _ t] exI [of _ m])
qed

lemma storeReleaseRequest_ok:
  assumes r: "store_rep s L" and e: "s_entries s a = Some e" and a: "a \<in> set (L k)"
    and c: "0 \<le> s_key_counter s" "in_int32 (s_key_counter s)"
    and fresh: "(L(k := remove1 a (L k))) (private_key e (fst (getKeyCounter s))) = []"
  shows "\<exists>s' e'. storeReleaseRequest s a = Some s' \<and> s_entries s' = (s_entries s)(a \<mapsto> e') \<and>
    has_flag e' RELEASE_REQUEST \<and> (has_flag e RELEASE_REQUEST \<or> has_flag e' KEY_PRIVATE \<and> \<not> has_flag e' ENTRY_CACHABLE)"
proof (cases "has_flag e RELEASE_REQUEST")
  case True
  then show ?thesis using e by (intro exI [of _ s] exI [of _ e]) (auto simp: storeReleaseRequest_def map_upd_triv)
next
  case False
  let ?e = "flag_clr (flag_set e RELEASE_REQUEST) ENTRY_CACHABLE" and ?s = "put_entry s a (flag_clr (flag_set e RELEASE_REQUEST) ENTRY_CACHABLE)"
  have rel: "storeReleaseRequest s a = storeSetPrivateKey ?s a" using e False by (simp add: storeReleaseRequest_def)
  have fl: "has_flag ?e RELEASE_REQUEST" "\<not> has_flag ?e ENTRY_CACHABLE" "has_flag ?e KEY_PRIVATE \<longleftrightarrow> has_flag e KEY_PRIVATE"
    by (simp_all add: flag_set_def flag_clr_def ebit_simps)
  show ?thesis
  proof (cases "has_flag e KEY_PRIVATE")
    case True
    then have "storeSetPrivateKey ?s a = Some ?s"
      using fl store_rep_once(4) [OF r a] by (simp add: storeSetPrivateKey_def)
    then show ?thesis using rel fl True by (intro exI [of _ ?s] exI [of _ ?e]) auto
  next
    case False
    have pk: "private_key ?e i = private_key e i" "fst (getKeyCounter ?s) = fst (getKeyCounter s)" for i
      by (simp_all add: private_key_def flag_set_def flag_clr_def getKeyCounter_def Let_def)
    let ?i = "fst (getKeyCounter s)" and ?e' = "flag_set (with_id ?e (fst (getKeyCounter s))) KEY_PRIVATE"
    have fr: "(L(k := remove1 a (L k))) (private_key ?e (fst (getKeyCounter ?s))) = []"
      unfolding pk by (rule fresh)
    have "store_rep ?s L" "s_entries ?s a = Some ?e" "\<not> has_flag ?e KEY_PRIVATE" using r fl False by simp_all
    from storeSetPrivateKey_public [OF this(1,2) a this(3) _ _ fr] c obtain t m ev where
      "storeSetPrivateKey ?s a = Some (?s\<lparr>s_table := t, s_links := m, s_key_counter := ?i,
        s_entries := (s_entries ?s)(a \<mapsto> ?e'), s_events := ev\<rparr>)" unfolding pk by auto
    moreover have "has_flag ?e' RELEASE_REQUEST" "has_flag ?e' KEY_PRIVATE" "\<not> has_flag ?e' ENTRY_CACHABLE"
      using fl by (simp_all add: flag_set_def with_id_def ebit_simps split: option.splits)
    ultimately show ?thesis using rel by (auto intro!: exI [of _ ?e'])
  qed
qed

subsection \<open>Release\<close>

text \<open>Steps that leave the index and the settings alone.\<close>

definition same_index :: "store \<Rightarrow> store \<Rightarrow> bool" where
  "same_index s s' \<longleftrightarrow> s_table s' = s_table s \<and> s_links s' = s_links s \<and> s_youtube s' = s_youtube s \<and>
     s_key_counter s' = s_key_counter s \<and> s_shutting_down s' = s_shutting_down s \<and>
     s_dirs_rebuilding s' = s_dirs_rebuilding s"

lemma same_index_put [simp]: "same_index s (put_entry s a e)" "same_index s (put_event s ev)"
  by (simp_all add: same_index_def put_entry_def put_event_def)

lemma same_index_rep: "same_index s s' \<Longrightarrow> store_rep s' L \<longleftrightarrow> store_rep s L"
  by (simp add: same_index_def store_rep_def)

lemma same_index_trans: "same_index s s' \<Longrightarrow> same_index s' s'' \<Longrightarrow> same_index s s''"
  by (simp add: same_index_def)

lemma storeSetMemStatus_out:
  assumes "s_entries s a = Some e" "e_mem_status e = IN_MEMORY \<longrightarrow> e_mem_obj e \<noteq> None"
  shows "\<exists>s'. storeSetMemStatus s a NOT_IN_MEMORY = Some s' \<and> same_index s s' \<and>
    s_entries s' = (s_entries s)(a \<mapsto> e\<lparr>e_mem_status := NOT_IN_MEMORY\<rparr>)"
proof (cases "e_mem_status e")
  case NOT_IN_MEMORY
  then have "e\<lparr>e_mem_status := NOT_IN_MEMORY\<rparr> = e" by simp
  then show ?thesis using assms NOT_IN_MEMORY by (simp add: storeSetMemStatus_def map_upd_triv same_index_def)
next
  case IN_MEMORY
  then obtain mem where "e_mem_obj e = Some mem" using assms(2) by auto
  then show ?thesis using assms(1) IN_MEMORY
    by (simp add: storeSetMemStatus_def Let_def same_index_def put_entry_def put_event_def)
qed

lemma destroyMem_plain:
  assumes "s_entries s a = Some e" "e_mem_obj e = Some mem" "s_shutting_down s \<or> mem_sio mem = None"
    "mem_ims_entry mem = None" "mem_old_entry mem = None"
  shows "\<exists>s'. destroyMem_body u s a = Some s' \<and> same_index s s' \<and>
    s_entries s' = (s_entries s)(a \<mapsto> e\<lparr>e_mem_obj := None\<rparr>)"
  using assms by (simp add: destroyMem_body_def put_entry_def same_index_def split: prod.splits)

definition mem_plain :: "store \<Rightarrow> StoreEntry \<Rightarrow> bool" where
  "mem_plain s e \<longleftrightarrow> (\<forall>mem. e_mem_obj e = Some mem \<longrightarrow>
     (s_shutting_down s \<or> mem_sio mem = None) \<and> mem_ims_entry mem = None \<and> mem_old_entry mem = None)"

lemma release_disk_ok:
  assumes "s_entries s a = Some e" "link_key (s_links s) a = Some k"
  shows "\<exists>s'. release_disk s a e = Some s' \<and> same_index s s' \<and> s_entries s' = s_entries s"
  using assms by (simp add: release_disk_def storeDirSwapLog_def Let_def same_index_def put_event_def)

lemma destroy_StoreEntry_rep:
  assumes r: "store_rep s L" and e: "s_entries s a = Some e" and a: "a \<in> set (L k)" and p: "mem_plain s e"
  shows "\<exists>s'. destroyEntry_body (destroyMem_body u) s a = Some s' \<and> s_entries s' = (s_entries s)(a := None) \<and>
    s_links s' a = None \<and> store_rep s' (L(k := remove1 a (L k)))"
proof -
  obtain s1 where d: "(if e_mem_obj e \<noteq> None then destroyMem_body u s a else Some s) = Some s1"
    "same_index s s1" "(s_entries s1)(a := None) = (s_entries s)(a := None)"
  proof (cases "e_mem_obj e")
    case None
    then show thesis using that [of s] by (simp add: same_index_def)
  next
    case (Some mem)
    then obtain s1 where "destroyMem_body u s a = Some s1" "same_index s s1"
      "s_entries s1 = (s_entries s)(a \<mapsto> e\<lparr>e_mem_obj := None\<rparr>)"
      using destroyMem_plain [OF e Some, of u] p by (auto simp: mem_plain_def)
    then show thesis using that [of s1] Some by simp
  qed
  have r1: "store_rep s1 L" using same_index_rep [OF d(2)] r by blast
  note once = store_rep_once [OF r1 a]
  obtain t m where h: "storeHashDelete s1 a = Some (s1\<lparr>s_table := t, s_links := m\<rparr>)"
    "store_rep (s1\<lparr>s_table := t, s_links := m\<rparr>) (L(k := remove1 a (L k)))"
    using storeHashDelete_rep [OF r1 a once(2,3)] by auto
  have "ht_state key_ok (t, m(a := None)) (L(k := remove1 a (L k)))"
    using h(2) once(2,3) by (intro ht_state_frame) (auto simp: store_rep_def)
  then show ?thesis using d h(1) e by (simp add: destroyEntry_body_def store_rep_def)
qed

text \<open>The branch of \<open>storeRelease\<close> that gets rid of the entry.\<close>

lemma storeRelease_destroys:
  assumes r: "store_rep s L" and e: "s_entries s a = Some e" and a: "a \<in> set (L k)" and p: "mem_plain s e"
    and u: "\<not> storeEntryLocked e" and nr: "\<not> (s_dirs_rebuilding s \<and> - 1 < e_swap_filen e)"
    and ms: "e_mem_status e = IN_MEMORY \<longrightarrow> e_mem_obj e \<noteq> None"
  shows "\<exists>s'. storeRelease (Suc (Suc (Suc n))) s a = Some s' \<and> s_entries s' = (s_entries s)(a := None) \<and>
    s_links s' a = None \<and> store_rep s' (L(k := remove1 a (L k)))"
proof -
  let ?s0 = "put_event s (StoreLogRelease a)"
  obtain s1 where s1: "release_disk ?s0 a e = Some s1" "same_index ?s0 s1" "s_entries s1 = s_entries s"
    using release_disk_ok [of ?s0 a e k] e store_rep_once(4) [OF r a] by auto
  obtain s2 where s2: "storeSetMemStatus s1 a NOT_IN_MEMORY = Some s2" "same_index s1 s2"
    "s_entries s2 = (s_entries s)(a \<mapsto> e\<lparr>e_mem_status := NOT_IN_MEMORY\<rparr>)"
    using storeSetMemStatus_out [of s1 a e] s1(3) e ms by auto
  have si: "same_index s s2" using same_index_trans same_index_put(2) s1(2) s2(2) by metis
  have r2: "store_rep s2 L" using same_index_rep [OF si] r by blast
  have p2: "mem_plain s2 (e\<lparr>e_mem_status := NOT_IN_MEMORY\<rparr>)" using p si by (simp add: mem_plain_def same_index_def)
  have "storeRelease (Suc (Suc (Suc n))) s a
      = destroyEntry_body (destroyMem_body (store_ops n OpUnlock)) s2 a"
    using e u nr s1(1) s2(1) by (auto simp: storeRelease_def release_body_def)
  with destroy_StoreEntry_rep [OF r2 _ a p2] s2(3) show ?thesis by auto
qed

lemma storeInitTable_rep:
  assumes "i \<le> 2 ^ 30"
  shows "\<exists>t. storeInitTable i = Some t \<and> ht_state key_ok (t, m) (\<lambda>k. [])"
proof -
  obtain j where j: "13 \<le> j" "j \<le> 30" "hash_buckets_loop (2 ^ 13) i = Some (2 ^ j)"
    using hash_buckets_run [OF assms, of 13] by auto
  let ?h = "\<lambda>k n. unat (storeKeyHashHash k (of_nat n))"
  have lt: "(2 :: int) ^ j < 2 ^ 31" using j(2) by (intro power_strict_increasing) auto
  have nat: "nat (2 ^ j) = 2 ^ j" by simp
  have "ht_state key_ok (hash_create storeKeyHashCmp (2 ^ j) ?h, m) (\<lambda>k. [])"
  proof (rule hash_create_state)
    show "\<forall>k. key_ok k \<longrightarrow> ?h k (nat (2 ^ j)) < nat (2 ^ j)"
      using hash_in_range [of j] j(2) by (simp add: nat)
    show "\<forall>k k'. key_ok k \<longrightarrow> key_ok k' \<longrightarrow> storeKeyHashCmp k k' = 0 \<longleftrightarrow> k = k'"
      using key_cmp_0 by (auto simp: storeKeyHashCmp_def SQUID_MD5_DIGEST_LENGTH_def)
  qed (use lt in auto)
  then show ?thesis using j(3) by (simp add: storeInitTable_def storeKeyHashBuckets_def)
qed

subsection \<open>A store with one entry\<close>

definition demo_config :: store_config where
  "demo_config = \<lparr>maxObjectSize = 4096, minObjectSize = 0, maxInMemObjSize = 1024, max_open_disk_fds = 0,
     readAheadGap = 16384, RESERVED_FD = 10\<rparr>"

definition demo_store :: "cache_key hash_table \<Rightarrow> store" where
  "demo_store t = \<lparr>s_config = demo_config, s_table = t,
     s_links = [1 \<mapsto> \<lparr>hl_key = None, hl_next = None\<rparr>], s_entries = [1 \<mapsto> demo_entry],
     s_youtube = yt_empty 1, s_key_counter = 0, s_curtime = 1000, s_open_disk_fd = 0, s_fdNFree = 100,
     s_dirs_rebuilding = False, s_shutting_down = False, s_hot_obj_count = 0, s_mem_size = 0,
     s_late_release = [], s_cachable_hist = (\<lambda>_. 0), s_events = []\<rparr>"

lemma demo_store_filled:
  assumes k: "key_ok k"
  obtains s where "store_rep s ((\<lambda>_. [])(k := [1]))" "s_entries s = [1 \<mapsto> demo_entry]" "s_key_counter s = 0"
    "s_dirs_rebuilding s = False" "s_shutting_down s = False" "s_youtube s = yt_empty 1" "s_curtime s = 1000"
    "s_config s = demo_config"
proof -
  obtain t where "ht_state key_ok (t, [1 \<mapsto> \<lparr>hl_key = None, hl_next = None\<rparr>]) (\<lambda>k. [])"
    using storeInitTable_rep [of 0 "[1 \<mapsto> \<lparr>hl_key = None, hl_next = None\<rparr>]"] by auto
  then have r: "store_rep (demo_store t) (\<lambda>k. [])" by (simp add: store_rep_def demo_store_def)
  obtain t' m where "store_rep ((demo_store t)\<lparr>s_table := t', s_links := m\<rparr>) ((\<lambda>_. [])(k := [1]))"
    using storeHashInsert_rep [OF r, of 1 "\<lparr>hl_key = None, hl_next = None\<rparr>" k] k
    by (auto simp: demo_store_def)
  then show thesis by (rule that) (simp_all add: demo_store_def)
qed

subsection \<open>Properties\<close>

text \<open>C31: A request for a YouTube chunk is answered from the entry that was recorded for the
  chunk: whatever the rest of its URL is, if the \<open>lmt\<close> and range of its path are those of a
  recorded chunk, then the lookup returns the entry stored under the recorded key, for every
  method, and does not look the request's own key up.\<close>

theorem youtube_request_hit:
  assumes "yt_rep (s_youtube s) (xs @ c # ys)" "find (chunk_matches lmt sr er) xs = None"
    "c_lmt c = lmt" "c_startRange c = sr" "c_endRange c = er" "c_swapoutDigest c = storeKeyText k" "length k = 16"
    and "r_vary req = None" "isYouTubeUrl (r_urlpath req)" "url_chunk_id (r_urlpath req) = Some (lmt, sr, er)"
    and "storeGet s k = Some (Some a)"
  shows "storeGetPublicByRequestMethod s req m = Some (Some a, req)"
proof -
  have "storeKeyScan (c_swapoutDigest c @ [NUL]) = Some k" using storeKeyScan_Text assms(6,7) by simp
  then have "getMatchedSwapoutKey (s_youtube s) lmt sr er = Some (Some k)"
    using yt.query_hit [OF assms(1,2)] assms(3-5) by (simp add: chunk_matches_def)
  then show ?thesis using assms(8-11) by (simp add: storeGetPublicByRequestMethod_def)
qed

lemma demo_chunk_key: "c_swapoutDigest demo_chunk = storeKeyText [0, 1, 2, 3, 4, 5, 6, 7, 8, 9, 10, 11, 12, 13, 14, 15]"
  by code_simp

lemma demo_url_id:
  "isYouTubeUrl ''/videoplayback?lmt=1400000000000000&range=0-99&x''"
  "url_chunk_id ''/videoplayback?lmt=1400000000000000&range=0-99&x'' = Some (''1400000000000000'', 0, 99)"
  by code_simp+

definition demo_request :: request_t where
  "demo_request = \<lparr>r_method = METHOD_GET, r_protocol = PROTO_HTTP, r_login = [], r_host = ''h'', r_port = 80,
     r_urlpath = ''/videoplayback?lmt=1400000000000000&range=0-99&x'', r_canonical = None, r_store_url = None,
     r_cache_control = None, r_nocache = False, r_nocache_hack = False, r_cachable = True, r_vary_headers = None,
     r_vary_encoding = None, r_vary = None, r_urlgroup = None\<rparr>"

theorem youtube_request_hit_witness:
  "\<exists>s. storeGetPublicByRequestMethod s demo_request METHOD_GET = Some (Some 1, demo_request)"
proof -
  let ?k = "[0, 1, 2, 3, 4, 5, 6, 7, 8, 9, 10, 11, 12, 13, 14, 15] :: cache_key"
  obtain s where s: "store_rep s ((\<lambda>_. [])(?k := [1]))" by (rule demo_store_filled [of ?k]) auto
  obtain yt' where yt': "yt_rep yt' [demo_chunk]"
    using yt.ins_law [OF yt_rep_empty chunk_ok_fits [OF demo_chunk_ok], of 1] by auto
  let ?s = "s\<lparr>s_youtube := yt'\<rparr>"
  have "store_rep ?s ((\<lambda>_. [])(?k := [1]))" using s by (simp add: store_rep_def)
  then have g: "storeGet ?s ?k = Some (Some 1)" using storeGet_rep [of ?s _ ?k] by simp
  have "storeGetPublicByRequestMethod ?s demo_request METHOD_GET = Some (Some 1, demo_request)"
    by (rule youtube_request_hit [where xs = "[]" and ys = "[]", OF _ _ _ _ _ demo_chunk_key _ _ _ _ g])
      (use yt' demo_url_id in \<open>simp_all add: demo_chunk_def demo_request_def\<close>)
  then show ?thesis by blast
qed

text \<open>C3: Making an entry private takes it out of public view: the entry gets a fresh private
  key under which it is found, its old key finds the entry that was behind it or nothing,
  every other lookup is unchanged, a DEL record is logged first if the entry is on disk, and
  none of the assertions fires.\<close>

theorem storeSetPrivateKey_correct:
  assumes "store_rep s L" "s_entries s a = Some e" "a \<in> set (L k)" "\<not> has_flag e KEY_PRIVATE"
    "0 \<le> s_key_counter s" "in_int32 (s_key_counter s)"
    and "i = fst (getKeyCounter s)" "pk = private_key e i" "(L(k := remove1 a (L k))) pk = []"
  shows "\<exists>s' e'. storeSetPrivateKey s a = Some s' \<and> s_entries s' a = Some e' \<and> has_flag e' KEY_PRIVATE \<and>
    store_rep s' (L(k := remove1 a (L k), pk := [a])) \<and> storeGet s' pk = Some (Some a) \<and>
    (\<forall>k'. length k' = 16 \<longrightarrow> k' \<noteq> k \<longrightarrow> k' \<noteq> pk \<longrightarrow> storeGet s' k' = storeGet s k') \<and>
    s_events s' = s_events s @ log_del s a e k"
proof -
  from storeSetPrivateKey_public [OF assms(1-6)] assms(7-9) obtain t m where
    p: "storeSetPrivateKey s a = Some (s\<lparr>s_table := t, s_links := m, s_key_counter := i,
        s_entries := (s_entries s)(a \<mapsto> flag_set (with_id e i) KEY_PRIVATE), s_events := s_events s @ log_del s a e k\<rparr>)"
      "store_rep (s\<lparr>s_table := t, s_links := m\<rparr>) (L(k := remove1 a (L k), pk := [a]))" by auto
  let ?s = "s\<lparr>s_table := t, s_links := m, s_key_counter := i,
    s_entries := (s_entries s)(a \<mapsto> flag_set (with_id e i) KEY_PRIVATE), s_events := s_events s @ log_del s a e k\<rparr>"
  have r: "store_rep ?s (L(k := remove1 a (L k), pk := [a]))" using p(2) by (simp add: store_rep_def)
  have "key_ok pk" by (simp add: assms(8) key_ok_private)
  then have g: "storeGet ?s pk = Some (Some a)" using storeGet_rep [OF r] by simp
  have o: "storeGet ?s k' = storeGet s k'" if "length k' = 16" "k' \<noteq> k" "k' \<noteq> pk" for k'
    using that storeGet_rep [OF r] storeGet_rep [OF assms(1)] by simp
  have "has_flag (flag_set (with_id e i) KEY_PRIVATE) KEY_PRIVATE" by (simp add: flag_set_def ebit_simps)
  with p(1) r g o show ?thesis by simp
qed

theorem storeSetPrivateKey_correct_witness:
  "\<exists>s s'. storeGet s (replicate 16 7) = Some (Some 1) \<and> storeSetPrivateKey s 1 = Some s' \<and>
     storeGet s' (private_key demo_entry 1) = Some (Some 1)"
proof -
  let ?k = "replicate 16 7 :: cache_key"
  obtain s where s: "store_rep s ((\<lambda>_. [])(?k := [1]))" "s_entries s = [1 \<mapsto> demo_entry]" "s_key_counter s = 0"
    by (rule demo_store_filled [of ?k]) auto
  have i: "fst (getKeyCounter s) = 1" using s(3) by (simp add: getKeyCounter_def Let_def to_int32_def)
  have "storeGet s ?k = Some (Some 1)" using storeGet_rep [OF s(1), of ?k] by simp
  moreover have "\<not> has_flag demo_entry KEY_PRIVATE" by (simp add: demo_entry_def EBIT_TEST_def)
  ultimately show ?thesis
    using storeSetPrivateKey_correct [OF s(1), of 1 demo_entry ?k 1 "private_key demo_entry 1"] s i
    by (auto simp: in_int32_def)
qed

text \<open>C23: Releasing an entry that nobody holds frees it. The entry is in the index and not locked; it has no disk copy while
  the directories are rebuilt; its memory object, which it has if it is marked as in memory, is not being
  swapped out (or the proxy is shutting down) and refers to no other entry. Then after \<open>storeRelease\<close> the entry
  and its link are gone, its key finds what was stored behind it, and no other key's links change; a nesting of
  three calls is enough.\<close>
theorem storeRelease_frees:
  assumes "store_rep s L" "s_entries s a = Some e" "a \<in> set (L k)" "mem_plain s e" "\<not> storeEntryLocked e"
    "\<not> (s_dirs_rebuilding s \<and> - 1 < e_swap_filen e)" "e_mem_status e = IN_MEMORY \<longrightarrow> e_mem_obj e \<noteq> None"
    and "3 \<le> n"
  shows "\<exists>s'. storeRelease n s a = Some s' \<and> s_entries s' = (s_entries s)(a := None) \<and> s_links s' a = None \<and>
    store_rep s' (L(k := remove1 a (L k))) \<and>
    (\<forall>k'. length k' = 16 \<longrightarrow> storeGet s' k' \<noteq> Some (Some a))"
proof -
  define j where "j = n - 3"
  have n: "n = Suc (Suc (Suc j))" using assms(8) by (simp add: j_def)
  obtain s' where s': "storeRelease n s a = Some s'" "s_entries s' = (s_entries s)(a := None)" "s_links s' a = None"
    "store_rep s' (L(k := remove1 a (L k)))"
    unfolding n using storeRelease_destroys [OF assms(1-7), of j] by blast
  note once = store_rep_once [OF assms(1,3)]
  have "storeGet s' k' \<noteq> Some (Some a)" if "length k' = 16" for k'
  proof -
    have "a \<notin> set ((L(k := remove1 a (L k))) k')" using once(2,3) by auto
    then show ?thesis using storeGet_rep [OF s'(4) that] by (auto split: list.splits)
  qed
  with s' show ?thesis by blast
qed

theorem storeRelease_frees_witness:
  "\<exists>s s'. storeGet s (replicate 16 7) = Some (Some 1) \<and> storeRelease 3 s 1 = Some s' \<and> s_entries s' 1 = None"
proof -
  let ?k = "replicate 16 7 :: cache_key"
  obtain s where s: "store_rep s ((\<lambda>_. [])(?k := [1]))" "s_entries s = [1 \<mapsto> demo_entry]"
    "s_dirs_rebuilding s = False"
    by (rule demo_store_filled [of ?k]) auto
  have "mem_plain s demo_entry" "\<not> storeEntryLocked demo_entry"
    by (simp_all add: mem_plain_def demo_entry_def demo_mem_obj_def storeEntryLocked_def EBIT_TEST_def)
  then show ?thesis
    using storeRelease_frees [OF s(1), of 1 demo_entry ?k 3] s storeGet_rep [OF s(1), of ?k]
    by (auto simp: demo_entry_def)
qed

text \<open>C39: Unlocking the last lock on an entry whose memory copy cannot be kept and which is not
  on disk releases the entry inside \<open>storePurgeMem\<close> and then passes the freed entry to
  \<open>storeEntryDereferenced\<close>: the purge succeeds, the entry is gone, and the unlock makes an
  invalid access.\<close>

theorem storeUnlock_uses_freed_entry:
  assumes "store_rep s L" "s_entries s a = Some e" "a \<in> set (L k)" "mem_plain s e" "e_mem_obj e = Some mem"
    "e_lock_count e = 1" "e_store_status e = STORE_OK" "e_swap_status e = SWAPOUT_NONE"
    "\<not> has_flag e RELEASE_REQUEST" "\<not> has_flag e ENTRY_SPECIAL" "\<not> storeKeepInMemory e" "mem_nclients mem = 0"
    "\<not> s_dirs_rebuilding s" "4 \<le> n"
  shows "\<exists>s1. storePurgeMem n (put_entry s a (e\<lparr>e_lock_count := 0\<rparr>)) a = Some s1 \<and> s_entries s1 a = None \<and>
    storeUnlockObject (Suc n) s a = None"
proof -
  define j where "j = n - 4"
  have n: "n = Suc (Suc (Suc (Suc j)))" using assms(14) by (simp add: j_def)
  let ?e = "e\<lparr>e_lock_count := 0\<rparr>" and ?s = "put_entry s a (e\<lparr>e_lock_count := 0\<rparr>)"
  obtain s1 where s1: "storeSetMemStatus ?s a NOT_IN_MEMORY = Some s1" "same_index ?s s1"
    "s_entries s1 = (s_entries s)(a \<mapsto> ?e\<lparr>e_mem_status := NOT_IN_MEMORY\<rparr>)"
    using storeSetMemStatus_out [of ?s a ?e] assms(5) by auto
  let ?e1 = "?e\<lparr>e_mem_status := NOT_IN_MEMORY\<rparr>"
  obtain s2 where s2: "store_ops (Suc (Suc (Suc j))) OpDestroyMem s1 a = Some s2" "same_index s1 s2"
    "s_entries s2 = (s_entries s1)(a \<mapsto> ?e1\<lparr>e_mem_obj := None\<rparr>)"
  proof -
    have "s_shutting_down s1 \<or> mem_sio mem = None" "mem_ims_entry mem = None" "mem_old_entry mem = None"
      using assms(4,5) s1(2) by (auto simp: mem_plain_def same_index_def put_entry_def)
    from destroyMem_plain [OF _ _ this, of a ?e1 "store_ops (Suc (Suc j)) OpUnlock"] s1(3) assms(5)
    show thesis using that by auto
  qed
  have si: "same_index s s2" using same_index_trans same_index_put(1) s1(2) s2(2) by metis
  have r2: "store_rep s2 L" using same_index_rep [OF si] assms(1) by blast
  let ?e2 = "?e1\<lparr>e_mem_obj := None\<rparr>"
  obtain s3 where s3: "storeRelease (Suc (Suc (Suc j))) s2 a = Some s3" "s_entries s3 = (s_entries s2)(a := None)"
  proof -
    have "mem_plain s2 ?e2" "\<not> storeEntryLocked ?e2" "\<not> (s_dirs_rebuilding s2 \<and> - 1 < e_swap_filen ?e2)"
      using assms(7,8,10,13) si by (simp_all add: mem_plain_def storeEntryLocked_def same_index_def)
    from storeRelease_destroys [OF r2 _ assms(3) this, of j] s2(3) show thesis using that by auto
  qed
  have purge: "storePurgeMem n ?s a = Some s3"
    using n s1(1) s2(1,3) s3(1) assms(5,8) by (simp add: storePurgeMem_def storeRelease_def purgeMem_body_def)
  have "storeUnlockObject (Suc n) s a = None"
    using purge s3(2) assms(2,5-12)
    by (simp add: storeUnlockObject_def unlock_body_def storePurgeMem_def storePendingNClients_def
        storeKeepInMemory_def storeEntryDereferenced_def put_entry_def)
  with purge s3(2) show ?thesis by simp
qed

theorem storeUnlock_uses_freed_entry_witness:
  "\<exists>s s1. storePurgeMem 4 (put_entry s 1 demo_entry) 1 = Some s1 \<and> s_entries s1 1 = None \<and>
     storeUnlockObject 5 s 1 = None"
proof -
  let ?k = "replicate 16 7 :: cache_key" and ?e = "demo_entry\<lparr>e_lock_count := 1\<rparr>"
  obtain s0 where s0: "store_rep s0 ((\<lambda>_. [])(?k := [1]))" "s_dirs_rebuilding s0 = False"
    by (rule demo_store_filled [of ?k]) auto
  let ?s = "put_entry s0 1 ?e"
  have e0: "?e\<lparr>e_lock_count := 0\<rparr> = demo_entry" by (simp add: demo_entry_def)
  have "\<exists>s1. storePurgeMem 4 (put_entry ?s 1 (?e\<lparr>e_lock_count := 0\<rparr>)) 1 = Some s1 \<and> s_entries s1 1 = None \<and>
    storeUnlockObject (Suc 4) ?s 1 = None"
    by (rule storeUnlock_uses_freed_entry [where L = "(\<lambda>_. [])(?k := [1])" and k = ?k and mem = demo_mem_obj])
      (use s0 in \<open>simp_all add: mem_plain_def demo_entry_def demo_mem_obj_def storeKeepInMemory_def EBIT_TEST_def
         mem_hdr_empty_def\<close>)
  then show ?thesis unfolding e0 by auto
qed

text \<open>The times of an entry are consistent: with a non-negative clock the served date lies
  between 0 and the current time, and when the reply has a date and an expiry time, and the clock
  plus the expiry time does not overflow the 32-bit time, the entry
  keeps the reply's own lifetime, counted from the served date.\<close>

theorem storeTimestampsSet_correct:
  assumes "s_entries s a = Some e" "e_mem_obj e = Some mem" "0 \<le> s_curtime s"
    "s_curtime s + rep_expires (mem_reply mem) < 2 ^ 31" "rep_date (mem_reply mem) < 2 ^ 31"
  shows "\<exists>s' e'. storeTimestampsSet s a = Some s' \<and> s_entries s' = (s_entries s)(a \<mapsto> e') \<and>
    0 \<le> e_timestamp e' \<and> e_timestamp e' \<le> s_curtime s \<and> e_lastmod e' = rep_last_modified (mem_reply mem) \<and>
    (0 < rep_expires (mem_reply mem) \<and> - 1 < rep_date (mem_reply mem) \<longrightarrow>
       e_expires e' - e_timestamp e' = rep_expires (mem_reply mem) - rep_date (mem_reply mem))"
proof -
  let ?r = "mem_reply mem" and ?d = "served_date (s_curtime s) (mem_reply mem)"
  let ?e = "e\<lparr>e_expires := entry_expires ?d ?r, e_lastmod := rep_last_modified ?r, e_timestamp := ?d\<rparr>"
  have "storeTimestampsSet s a = Some (put_entry s a ?e)"
    using assms(1,2) by (simp add: storeTimestampsSet_def Let_def)
  moreover have "0 \<le> ?d" "?d \<le> s_curtime s" using assms(3) by (auto simp: served_date_def Let_def)
  moreover have "entry_expires ?d ?r = ?d + (rep_expires ?r - rep_date ?r)" if "0 < rep_expires ?r" "- 1 < rep_date ?r"
  proof -
    have "to_int32 (rep_expires ?r - rep_date ?r) = rep_expires ?r - rep_date ?r"
      "to_int32 (?d + (rep_expires ?r - rep_date ?r)) = ?d + (rep_expires ?r - rep_date ?r)"
      using that assms(3-5) calculation(2,3) by (auto simp: in_int32_def intro!: to_int32_id)
    then show ?thesis using that by (simp add: entry_expires_def)
  qed
  ultimately show ?thesis by (auto intro!: exI [of _ ?e])
qed

theorem storeTimestampsSet_correct_witness:
  "\<exists>s' e'. storeTimestampsSet (demo_store (hash_create storeKeyHashCmp 1 (\<lambda>k n. 0))) 1 = Some s' \<and>
     s_entries s' 1 = Some e' \<and> 0 \<le> e_timestamp e' \<and> e_timestamp e' \<le> 1000"
proof -
  have "rep_expires (mem_reply demo_mem_obj) = 0" "rep_date (mem_reply demo_mem_obj) = 0" by (simp_all add: demo_mem_obj_def)
  then show ?thesis using storeTimestampsSet_correct [of "demo_store (hash_create storeKeyHashCmp 1 (\<lambda>k n. 0))" 1 demo_entry demo_mem_obj]
    by (auto simp: demo_store_def demo_entry_simps)
qed

text \<open>The cachability check answers yes exactly on its two yes branches and then leaves the
  entry alone; on every no branch but the negatively cached one the entry comes out with a
  release requested and no longer cachable.\<close>

theorem storeCheckCachable_correct:
  assumes "store_rep s L" "s_entries s a = Some e" "a \<in> set (L k)" "cachable_verdict s e = Some r"
    "0 \<le> s_key_counter s" "in_int32 (s_key_counter s)"
    "(L(k := remove1 a (L k))) (private_key e (fst (getKeyCounter s))) = []"
  shows "\<exists>s' e'. storeCheckCachable s a = Some (r = yes_writing \<or> r = yes_Default, s') \<and>
    s_entries s' = (s_entries s)(a \<mapsto> e') \<and>
    (if r = yes_writing \<or> r = yes_Default \<or> r = no_negative_cached then e' = e
     else has_flag e' RELEASE_REQUEST \<and> \<not> has_flag e' ENTRY_CACHABLE)"
proof (cases "r = yes_writing \<or> r = yes_Default \<or> r = no_negative_cached")
  case True
  have "s_entries (count_verdict s r) = s_entries s" by (simp add: count_verdict_def)
  then show ?thesis using True assms(2,4)
    by (auto simp: storeCheckCachable_def map_upd_triv intro!: exI [of _ e])
next
  case False
  let ?s = "count_verdict s r"
  have s: "s_entries ?s = s_entries s" "s_key_counter ?s = s_key_counter s" "fst (getKeyCounter ?s) = fst (getKeyCounter s)"
    by (simp_all add: count_verdict_def getKeyCounter_def Let_def)
  have "store_rep ?s L" using assms(1) by (simp add: count_verdict_def store_rep_def)
  from storeReleaseRequest_ok [OF this, of a e k] s assms(2,3,5-7) obtain s' e' where
    "storeReleaseRequest ?s a = Some s'" "s_entries s' = (s_entries s)(a \<mapsto> e')" "has_flag e' RELEASE_REQUEST"
    by auto
  moreover from this have "has_flag (flag_clr e' ENTRY_CACHABLE) RELEASE_REQUEST" "\<not> has_flag (flag_clr e' ENTRY_CACHABLE) ENTRY_CACHABLE"
    by (simp_all add: flag_clr_def ebit_simps)
  ultimately show ?thesis using False assms(2,4)
    by (auto simp: storeCheckCachable_def intro!: exI [of _ "flag_clr e' ENTRY_CACHABLE"])
qed

theorem storeCheckCachable_correct_witness:
  "\<exists>s s' e'. storeCheckCachable s 1 = Some (False, s') \<and> s_entries s' 1 = Some e' \<and>
     has_flag e' RELEASE_REQUEST \<and> \<not> has_flag e' ENTRY_CACHABLE"
proof -
  let ?k = "replicate 16 7 :: cache_key"
  obtain s where s: "store_rep s ((\<lambda>_. [])(?k := [1]))" "s_entries s = [1 \<mapsto> demo_entry]" "s_key_counter s = 0"
    by (rule demo_store_filled [of ?k]) auto
  have "cachable_verdict s demo_entry = Some no_not_entry_cachable"
    by (simp add: cachable_verdict_def demo_entry_def EBIT_TEST_def)
  from storeCheckCachable_correct [OF s(1) _ _ this, of 1 ?k] s obtain s' e' where
    "storeCheckCachable s 1 = Some (False, s')" "s_entries s' = (s_entries s)(1 \<mapsto> e')"
    "has_flag e' RELEASE_REQUEST" "\<not> has_flag e' ENTRY_CACHABLE" by (auto simp: in_int32_def)
  then show ?thesis by (metis fun_upd_same)
qed

text \<open>The counter behind private keys is positive on every call, also when the 32-bit
  counter wraps, so the assertion in \<open>storeKeyPrivate\<close> never fires.\<close>

theorem private_key_counter_positive:
  assumes "0 \<le> s_key_counter s" "in_int32 (s_key_counter s)"
  shows "0 < fst (getKeyCounter s) \<and> in_int32 (fst (getKeyCounter s)) \<and>
    0 \<le> s_key_counter (snd (getKeyCounter s)) \<and>
    (\<exists>k. storeKeyPrivate url m (fst (getKeyCounter s)) = Some k \<and> length k = 16)"
  using getKeyCounter_pos [OF assms] by (simp add: storeKeyPrivate_def length_md5_digest)

theorem private_key_counter_positive_witness:
  "0 < fst (getKeyCounter ((demo_store (hash_create storeKeyHashCmp 1 (\<lambda>k n. 0)))\<lparr>s_key_counter := 2147483647\<rparr>))"
  using private_key_counter_positive
    [of "(demo_store (hash_create storeKeyHashCmp 1 (\<lambda>k n. 0)))\<lparr>s_key_counter := 2147483647\<rparr>" "''u''" 1]
  by (simp add: in_int32_def)

end
