(* ===== verification/Refresh.thy ===== *)
theory Refresh
  imports StoreTypes
begin

section \<open>Freshness of cached objects (refresh.c)\<close>

text \<open>
  Whether a cached object may still be used: the staleness computed from its expiry time or,
  without one, by the heuristics of the matching \<open>refresh_pattern\<close>; then the wishes of the
  request and the overrides of the pattern. Matching a URL against a compiled pattern
  (\<open>regexec\<close>, a library) is the parameter \<open>matches\<close>. The product of a time span with the
  pattern's percentage, a \<open>double\<close> converted back to \<open>time_t\<close>, is a function field of the
  pattern. \<open>time_t\<close> and \<open>int\<close> have 32 bits: every sum and difference of times is reduced with
  \<open>to_int32\<close>. The counters of the statistics are left out.

  The lemmas show that the assertions of the code cannot fail when the times are in range, that
  the decision without a request is the freshness rule of the comments, that freshness is lost
  only once, and the cases in which the code does not do what its comments and settings say,
  among them an assertion that fails for an object with a date before 1970 far enough back.
\<close>

record refresh_t =
  rf_pattern :: string
  rf_min :: int
  rf_stale_age :: "int \<Rightarrow> int"
  rf_max :: int
  rf_override_expire :: bool
  rf_override_lastmod :: bool
  rf_reload_into_ims :: bool
  rf_ignore_reload :: bool
  rf_ignore_stale_while_revalidate :: bool
  rf_max_stale :: int
  rf_stale_while_revalidate :: int
  rf_negative_ttl :: int

record refresh_config =
  c_Refresh :: "refresh_t list"
  c_DefaultRefresh :: refresh_t
  c_matches :: "refresh_t \<Rightarrow> string \<Rightarrow> bool"
  c_negativeTtl :: int
  c_maxStale :: int
  c_reload_into_ims :: bool
  c_refresh_stale_window :: int
  c_minimum_expiry_time :: int

record stale_flags =
  sf_expires :: bool
  sf_min :: bool
  sf_lmfactor :: bool
  sf_max :: bool

datatype refresh_reason =
    FRESH_REQUEST_MAX_STALE_ALL | FRESH_REQUEST_MAX_STALE_VALUE | FRESH_EXPIRES
  | FRESH_LMFACTOR_RULE | FRESH_MIN_RULE | FRESH_OVERRIDE_EXPIRES | FRESH_OVERRIDE_LASTMOD
  | STALE_MUST_REVALIDATE | STALE_RELOAD_INTO_IMS | STALE_FORCED_RELOAD
  | STALE_EXCEEDS_REQUEST_MAX_AGE_VALUE | STALE_EXPIRES | STALE_MAX_RULE | STALE_LMFACTOR_RULE
  | STALE_WITHIN_DELTA | STALE_ASYNC_REFRESH | STALE_MAX_STALE | STALE_DEFAULT

fun reason_code :: "refresh_reason \<Rightarrow> int" where
  "reason_code FRESH_REQUEST_MAX_STALE_ALL = 100"
| "reason_code FRESH_REQUEST_MAX_STALE_VALUE = 101"
| "reason_code FRESH_EXPIRES = 102"
| "reason_code FRESH_LMFACTOR_RULE = 103"
| "reason_code FRESH_MIN_RULE = 104"
| "reason_code FRESH_OVERRIDE_EXPIRES = 105"
| "reason_code FRESH_OVERRIDE_LASTMOD = 106"
| "reason_code STALE_MUST_REVALIDATE = 200"
| "reason_code STALE_RELOAD_INTO_IMS = 201"
| "reason_code STALE_FORCED_RELOAD = 202"
| "reason_code STALE_EXCEEDS_REQUEST_MAX_AGE_VALUE = 203"
| "reason_code STALE_EXPIRES = 204"
| "reason_code STALE_MAX_RULE = 205"
| "reason_code STALE_LMFACTOR_RULE = 206"
| "reason_code STALE_WITHIN_DELTA = 207"
| "reason_code STALE_ASYNC_REFRESH = 208"
| "reason_code STALE_MAX_STALE = 209"
| "reason_code STALE_DEFAULT = 299"

definition REFRESH_DEFAULT_MAX :: int where
  "REFRESH_DEFAULT_MAX = 259200"

text \<open>\<open>DefaultRefresh\<close> after \<open>refreshInit\<close>: cleared, then four fields are set.\<close>

definition refreshInit :: "(int \<Rightarrow> int) \<Rightarrow> refresh_t" where
  "refreshInit pct20 = \<lparr>rf_pattern = ''<none>'', rf_min = 0, rf_stale_age = pct20, rf_max = REFRESH_DEFAULT_MAX,
     rf_override_expire = False, rf_override_lastmod = False, rf_reload_into_ims = False,
     rf_ignore_reload = False, rf_ignore_stale_while_revalidate = False,
     rf_max_stale = 0, rf_stale_while_revalidate = 0, rf_negative_ttl = 0\<rparr>"

subsection \<open>Rules\<close>

definition refreshLimits :: "refresh_config \<Rightarrow> string \<Rightarrow> refresh_t option" where
  "refreshLimits cfg url = find (\<lambda>R. c_matches cfg R url) (c_Refresh cfg)"

definition refreshUncompiledPattern :: "refresh_config \<Rightarrow> string \<Rightarrow> refresh_t option" where
  "refreshUncompiledPattern cfg pat = find (\<lambda>R. rf_pattern R = pat) (c_Refresh cfg)"

text \<open>The URL of an entry, or of the request; the request may get its canonical URL cached.\<close>

definition refresh_uri :: "StoreEntry \<Rightarrow> request_t option \<Rightarrow> string option \<times> request_t option" where
  "refresh_uri e request =
     (case e_mem_obj e of
        Some mem \<Rightarrow> (Some (mem_url mem), request)
      | None \<Rightarrow> (case request of
                   Some r \<Rightarrow> (case urlCanonical r of (u, r') \<Rightarrow> (Some u, Some r'))
                 | None \<Rightarrow> (None, None)))"

definition refresh_rule :: "refresh_config \<Rightarrow> string option \<Rightarrow> refresh_t option" where
  "refresh_rule cfg uri =
     (case uri of Some u \<Rightarrow> refreshLimits cfg u | None \<Rightarrow> refreshUncompiledPattern cfg ''.'')"

record refresh_cc =
  cc_negative_ttl :: int
  cc_max_stale :: int

definition refreshCC ::
  "refresh_config \<Rightarrow> StoreEntry \<Rightarrow> request_t option \<Rightarrow> refresh_cc \<times> request_t option" where
  "refreshCC cfg e request =
     ((case refresh_rule cfg (fst (refresh_uri e request)) of
        None \<Rightarrow> \<lparr>cc_negative_ttl = c_negativeTtl cfg, cc_max_stale = c_maxStale cfg\<rparr>
      | Some R \<Rightarrow> \<lparr>cc_negative_ttl = (if 0 \<le> rf_negative_ttl R then rf_negative_ttl R else c_negativeTtl cfg),
                   cc_max_stale = (if 0 \<le> rf_max_stale R then rf_max_stale R else c_maxStale cfg)\<rparr>),
      snd (refresh_uri e request))"

definition no_flags :: stale_flags where
  "no_flags = \<lparr>sf_expires = False, sf_min = False, sf_lmfactor = False, sf_max = False\<rparr>"

text \<open>Result: -1 for fresh, else the staleness; and the flags that say why.\<close>

definition refreshStaleness ::
  "StoreEntry \<Rightarrow> int \<Rightarrow> int \<Rightarrow> refresh_t \<Rightarrow> stale_flags \<Rightarrow> (int \<times> stale_flags) option" where
  "refreshStaleness e check_time age R sf =
     (if - 1 < e_expires e
      then let sf = sf\<lparr>sf_expires := True\<rparr>
           in Some (if check_time < e_expires e then - 1 else to_int32 (check_time - e_expires e), sf)
      else do {
        c_assert (0 \<le> age);
        if rf_max R < age then Some (to_int32 (age - rf_max R), sf\<lparr>sf_max := True\<rparr>)
        else if check_time < e_timestamp e then Some (to_int32 (e_timestamp e - check_time), sf)
        else if - 1 < e_lastmod e \<and> e_lastmod e < e_timestamp e
        then let stale_age = rf_stale_age R (to_int32 (e_timestamp e - e_lastmod e));
                 sf = sf\<lparr>sf_lmfactor := True\<rparr>
             in Some (if stale_age \<le> age then to_int32 (age - stale_age) else - 1, sf)
        else if age < rf_min R then Some (- 1, sf\<lparr>sf_min := True\<rparr>)
        else Some (to_int32 (age - rf_min R), sf) })"

text \<open>The time of the check and the age of the entry then.\<close>

definition check_at :: "int \<Rightarrow> int \<Rightarrow> int" where
  "check_at curtime delta = (if 0 < delta then to_int32 (curtime + delta) else curtime)"

definition age_at :: "StoreEntry \<Rightarrow> int \<Rightarrow> int" where
  "age_at e check_time = (if e_timestamp e < check_time then to_int32 (check_time - e_timestamp e) else 0)"

text \<open>The request-specific checks: \<open>Some reason\<close> when one of them decides.\<close>

definition request_reason :: "refresh_config \<Rightarrow> refresh_t \<Rightarrow> request_t \<Rightarrow> int \<Rightarrow> int \<Rightarrow> refresh_reason option" where
  "request_reason cfg R r age staleness =
     (if r_nocache_hack r \<and> \<not> rf_ignore_reload R
      then (if rf_reload_into_ims R \<or> c_reload_into_ims cfg then Some STALE_RELOAD_INTO_IMS
            else Some STALE_FORCED_RELOAD)
      else case r_cache_control r of
        None \<Rightarrow> None
      | Some cc \<Rightarrow>
          if - 1 < max_age cc \<and> \<not> (rf_ignore_reload R \<and> max_age cc = 0) \<and> max_age cc < age
          then Some STALE_EXCEEDS_REQUEST_MAX_AGE_VALUE
          else if cc_has cc CC_MAX_STALE \<and> 0 \<le> staleness
          then (if max_stale cc < 0 then Some FRESH_REQUEST_MAX_STALE_ALL
                else if staleness < max_stale cc then Some FRESH_REQUEST_MAX_STALE_VALUE
                else None)
          else None)"

text \<open>The \<open>stale-while-revalidate\<close> time that applies to an object in memory.\<close>

definition swr_time :: "refresh_t \<Rightarrow> MemObject \<Rightarrow> int" where
  "swr_time R mem =
     (let swr = (case rep_cache_control (mem_reply mem) of
                   Some cc \<Rightarrow> if cc_has cc CC_STALE_WHILE_REVALIDATE then stale_while_revalidate cc else - 1
                 | None \<Rightarrow> - 1)
      in if rf_ignore_stale_while_revalidate R \<or> swr = - 1 then rf_stale_while_revalidate R else swr)"

definition max_stale_time :: "refresh_config \<Rightarrow> refresh_t \<Rightarrow> StoreEntry \<Rightarrow> int" where
  "max_stale_time cfg R e =
     (case e_mem_obj e of
        Some mem \<Rightarrow>
          (case rep_cache_control (mem_reply mem) of
             Some cc \<Rightarrow> if cc_has cc CC_STALE_IF_ERROR then stale_if_error cc
                        else if 0 \<le> rf_max_stale R then rf_max_stale R else c_maxStale cfg
           | None \<Rightarrow> if 0 \<le> rf_max_stale R then rf_max_stale R else c_maxStale cfg)
      | None \<Rightarrow> if 0 \<le> rf_max_stale R then rf_max_stale R else c_maxStale cfg)"

text \<open>The last part of \<open>refreshCheck\<close>, for a stale object; a stale object that may be used
  while it is revalidated has the time recorded in its memory object.\<close>

definition stale_reason ::
  "refresh_config \<Rightarrow> refresh_t \<Rightarrow> StoreEntry \<Rightarrow> int \<Rightarrow> int \<Rightarrow> stale_flags \<Rightarrow> int \<Rightarrow> refresh_reason \<times> StoreEntry" where
  "stale_reason cfg R e age staleness sf delta =
     (if sf_expires sf \<and> rf_override_expire R \<and> age < rf_min R then (FRESH_OVERRIDE_EXPIRES, e)
      else if sf_lmfactor sf \<and> rf_override_lastmod R \<and> age < rf_min R then (FRESH_OVERRIDE_LASTMOD, e)
      else case (case e_mem_obj e of
                   Some mem \<Rightarrow> if staleness < swr_time R mem
                     then Some (e\<lparr>e_mem_obj := Some (mem\<lparr>mem_stale_while_revalidate := swr_time R mem\<rparr>)\<rparr>) else None
                 | None \<Rightarrow> None) of
        Some e' \<Rightarrow> (STALE_ASYNC_REFRESH, e')
      | None \<Rightarrow>
          (let ms = max_stale_time cfg R e
           in if 0 \<le> ms \<and> ms \<le> staleness then (STALE_MAX_STALE, e)
              else if delta < 0 \<and> to_int32 (staleness + delta) < 0 then (STALE_WITHIN_DELTA, e)
              else if sf_expires sf then (STALE_EXPIRES, e)
              else if sf_max sf then (STALE_MAX_RULE, e)
              else if sf_lmfactor sf then (STALE_LMFACTOR_RULE, e)
              else (STALE_DEFAULT, e)))"

text \<open>\<open>refreshCheck\<close> after the computation of the staleness.\<close>

definition refresh_decide ::
  "refresh_config \<Rightarrow> refresh_t \<Rightarrow> StoreEntry \<Rightarrow> request_t option \<Rightarrow> int \<Rightarrow> int \<Rightarrow> stale_flags \<Rightarrow> int \<Rightarrow>
   (refresh_reason \<times> StoreEntry \<times> request_t option) option" where
  "refresh_decide cfg R e request age staleness sf delta =
     (if EBIT_TEST (e_flags e) ENTRY_REVALIDATE \<and> - 1 < staleness then Some (STALE_MUST_REVALIDATE, e, request)
      else case (case request of Some r \<Rightarrow> request_reason cfg R r age staleness | None \<Rightarrow> None) of
        Some reason \<Rightarrow>
          Some (reason, e,
            if reason = STALE_FORCED_RELOAD then map_option (\<lambda>r. r\<lparr>r_nocache := True\<rparr>) request else request)
      | None \<Rightarrow>
          (if staleness < 0
           then if sf_expires sf then Some (FRESH_EXPIRES, e, request)
                else do {
                  c_assert (\<not> sf_max sf);
                  if sf_lmfactor sf then Some (FRESH_LMFACTOR_RULE, e, request)
                  else do { c_assert (sf_min sf); Some (FRESH_MIN_RULE, e, request) } }
           else case stale_reason cfg R e age staleness sf delta of
                  (reason, e') \<Rightarrow> Some (reason, e', request)))"

definition refreshCheck ::
  "refresh_config \<Rightarrow> int \<Rightarrow> StoreEntry \<Rightarrow> request_t option \<Rightarrow> int \<Rightarrow>
   (refresh_reason \<times> StoreEntry \<times> request_t option) option" where
  "refreshCheck cfg curtime e request delta =
     (case refresh_uri e request of (uri, request) \<Rightarrow>
        let check_time = check_at curtime delta;
            age = age_at e check_time;
            R = (case refresh_rule cfg uri of Some R \<Rightarrow> R | None \<Rightarrow> c_DefaultRefresh cfg)
        in do {
          (staleness, sf) \<leftarrow> refreshStaleness e check_time age R no_flags;
          refresh_decide cfg R e request age staleness sf delta })"

subsection \<open>Protocol-specific wrappers\<close>

definition refreshIsCachable :: "refresh_config \<Rightarrow> int \<Rightarrow> StoreEntry \<Rightarrow> bool option" where
  "refreshIsCachable cfg curtime e = do {
     (reason, e, _) \<leftarrow> refreshCheck cfg curtime e None (c_minimum_expiry_time cfg);
     Some (if reason_code reason < 200 then True
           else 0 < e_lastmod e \<or>
             (case e_mem_obj e of Some mem \<Rightarrow> rep_has_etag (mem_reply mem) | None \<Rightarrow> False)) }"

definition refreshCheckHTTP :: "refresh_config \<Rightarrow> int \<Rightarrow> StoreEntry \<Rightarrow> request_t option \<Rightarrow> int option" where
  "refreshCheckHTTP cfg curtime e request = do {
     (reason, _, _) \<leftarrow> refreshCheck cfg curtime e request 0;
     Some (if reason_code reason < 200 then 0 else 1) }"

definition refreshCheckHTTPStale :: "refresh_config \<Rightarrow> int \<Rightarrow> StoreEntry \<Rightarrow> request_t option \<Rightarrow> int option" where
  "refreshCheckHTTPStale cfg curtime e request = do {
     (reason, _, _) \<leftarrow> refreshCheck cfg curtime e request (- c_refresh_stale_window cfg);
     Some (if reason = STALE_WITHIN_DELTA then - 1
           else if reason = STALE_ASYNC_REFRESH then - 2
           else if reason = STALE_MAX_STALE then 3
           else if reason_code reason < 200 then 0 else 1) }"

definition refreshCheckStaleOK :: "refresh_config \<Rightarrow> int \<Rightarrow> StoreEntry \<Rightarrow> request_t option \<Rightarrow> bool option" where
  "refreshCheckStaleOK cfg curtime e request = do {
     (reason, _, _) \<leftarrow> refreshCheck cfg curtime e request 0;
     Some (if reason = STALE_MUST_REVALIDATE then False else if reason = STALE_MAX_STALE then False else True) }"

definition refreshCheckICP :: "refresh_config \<Rightarrow> int \<Rightarrow> StoreEntry \<Rightarrow> request_t option \<Rightarrow> int option" where
  "refreshCheckICP cfg curtime e request = do {
     (reason, _, _) \<leftarrow> refreshCheck cfg curtime e request 30;
     Some (if reason_code reason < 200 then 0 else 1) }"

definition getMaxAge :: "refresh_config \<Rightarrow> string \<Rightarrow> int" where
  "getMaxAge cfg url = (case refreshLimits cfg url of Some R \<Rightarrow> rf_max R | None \<Rightarrow> REFRESH_DEFAULT_MAX)"

subsection \<open>The freshness rule\<close>

text \<open>An object is fresh at a time if the time is before its expiry; an object without expiry
  is fresh if it is not older than the pattern's maximum, is not from the future, and is
  younger than the fraction of its age when it was fetched, or than the pattern's minimum. The
  rule is stated over the integers; \<open>times_ok\<close> says when 32 bits are enough for it.\<close>

definition full_age :: "StoreEntry \<Rightarrow> int \<Rightarrow> int" where
  "full_age e t = (if e_timestamp e < t then t - e_timestamp e else 0)"

definition fresh_at :: "refresh_t \<Rightarrow> StoreEntry \<Rightarrow> int \<Rightarrow> bool" where
  "fresh_at R e t \<longleftrightarrow>
     (if - 1 < e_expires e then t < e_expires e
      else full_age e t \<le> rf_max R \<and> e_timestamp e \<le> t \<and>
        (if - 1 < e_lastmod e \<and> e_lastmod e < e_timestamp e
         then full_age e t < rf_stale_age R (e_timestamp e - e_lastmod e)
         else full_age e t < rf_min R))"

text \<open>The clock is between 1970 and the end of the 32-bit time, which is 2038; the dates of the entry are
  unknown, which is -1, or in the same range; and the limits of the pattern are not negative.\<close>

definition times_ok :: "refresh_t \<Rightarrow> StoreEntry \<Rightarrow> int \<Rightarrow> bool" where
  "times_ok R e t \<longleftrightarrow> 0 \<le> t \<and> t < 2 ^ 31 - 1 \<and> - 1 \<le> e_timestamp e \<and> e_timestamp e < 2 ^ 31 \<and>
     e_lastmod e < 2 ^ 31 \<and> e_expires e < 2 ^ 31 \<and> 0 \<le> rf_min R \<and> 0 \<le> rf_max R \<and>
     (\<forall>d \<ge> 0. 0 \<le> rf_stale_age R d)"

text \<open>The time of a check that looks ahead, over the integers.\<close>

definition time_ahead :: "int \<Rightarrow> int \<Rightarrow> int" where
  "time_ahead t d = (if 0 < d then t + d else t)"

definition rule_for :: "refresh_config \<Rightarrow> StoreEntry \<Rightarrow> request_t option \<Rightarrow> refresh_t" where
  "rule_for cfg e request =
     (case refresh_rule cfg (fst (refresh_uri e request)) of Some R \<Rightarrow> R | None \<Rightarrow> c_DefaultRefresh cfg)"

definition plain_rule :: "refresh_t \<Rightarrow> bool" where
  "plain_rule R \<longleftrightarrow> \<not> rf_override_expire R \<and> \<not> rf_override_lastmod R"

text \<open>A request that has no wishes about the age of the object.\<close>

definition plain_request :: "request_t option \<Rightarrow> bool" where
  "plain_request request \<longleftrightarrow>
     (case request of None \<Rightarrow> True | Some r \<Rightarrow> \<not> r_nocache_hack r \<and> r_cache_control r = None)"

lemma age_ok: "times_ok R e t \<Longrightarrow> age_at e t = full_age e t"
  unfolding times_ok_def age_at_def full_age_def
  by (elim conjE, cases "e_timestamp e < t") (simp_all add: in_int32_def to_int32_id)

lemma age_nonneg: "0 \<le> full_age e t"
  by (simp add: full_age_def)

lemma check_ok: "times_ok R e (time_ahead t d) \<Longrightarrow> check_at t d = time_ahead t d"
  unfolding times_ok_def check_at_def time_ahead_def
  by (elim conjE, cases "0 < d") (simp_all add: in_int32_def to_int32_id)

text \<open>In range, the differences that the code computes are the ones of the rule.\<close>

lemma staleness_ok:
  assumes "times_ok R e t"
  shows "refreshStaleness e t (full_age e t) R sf =
     (if - 1 < e_expires e
      then Some (if t < e_expires e then - 1 else t - e_expires e, sf\<lparr>sf_expires := True\<rparr>)
      else if rf_max R < full_age e t then Some (full_age e t - rf_max R, sf\<lparr>sf_max := True\<rparr>)
      else if t < e_timestamp e then Some (e_timestamp e - t, sf)
      else if - 1 < e_lastmod e \<and> e_lastmod e < e_timestamp e
      then Some (if rf_stale_age R (e_timestamp e - e_lastmod e) \<le> full_age e t
                 then full_age e t - rf_stale_age R (e_timestamp e - e_lastmod e) else - 1, sf\<lparr>sf_lmfactor := True\<rparr>)
      else if full_age e t < rf_min R then Some (- 1, sf\<lparr>sf_min := True\<rparr>)
      else Some (full_age e t - rf_min R, sf))"
proof -
  have a: "0 \<le> full_age e t" "full_age e t < 2 ^ 31" using assms by (auto simp: full_age_def times_ok_def)
  have i: "- 1 < e_lastmod e \<Longrightarrow> e_lastmod e < e_timestamp e \<Longrightarrow> to_int32 (e_timestamp e - e_lastmod e) = e_timestamp e - e_lastmod e"
    using assms by (intro to_int32_id) (auto simp: times_ok_def in_int32_def)
  have j: "- 1 < e_lastmod e \<Longrightarrow> e_lastmod e < e_timestamp e \<Longrightarrow> 0 \<le> rf_stale_age R (e_timestamp e - e_lastmod e)"
    using assms by (simp add: times_ok_def)
  have k: "to_int32 x = x" if "0 \<le> x" "x < 2 ^ 31" for x using that by (intro to_int32_id) (simp add: in_int32_def)
  have l: "to_int32 (full_age e t - x) = full_age e t - x" if "0 \<le> x" "x \<le> full_age e t" for x
    using that a by (intro k) linarith+
  have m: "- 1 < e_expires e \<Longrightarrow> \<not> t < e_expires e \<Longrightarrow> to_int32 (t - e_expires e) = t - e_expires e"
    "t < e_timestamp e \<Longrightarrow> to_int32 (e_timestamp e - t) = e_timestamp e - t"
    using assms by (intro k; simp add: times_ok_def)+
  have n: "0 \<le> rf_max R" "0 \<le> rf_min R" using assms by (simp_all add: times_ok_def)
  show ?thesis using i j l m n a(1) by (simp add: refreshStaleness_def Let_def)
qed

lemma staleness_cases:
  assumes "times_ok R e t"
  shows "\<exists>st sf. refreshStaleness e t (age_at e t) R no_flags = Some (st, sf) \<and> (st < 0 \<longleftrightarrow> fresh_at R e t) \<and>
    (st < 0 \<longrightarrow> \<not> sf_max sf \<and> (sf_expires sf \<or> sf_lmfactor sf \<or> sf_min sf))"
  unfolding age_ok [OF assms] staleness_ok [OF assms] using assms
  by (auto simp: fresh_at_def no_flags_def age_nonneg times_ok_def)

lemma plain_request_uri: "plain_request request \<Longrightarrow> plain_request (snd (refresh_uri e request))"
  by (auto simp: plain_request_def refresh_uri_def urlCanonical_def Let_def split: option.splits prod.splits)

lemma plain_request_reason:
  "plain_request request \<Longrightarrow>
    (case request of Some r \<Rightarrow> request_reason cfg R r age st | None \<Rightarrow> None) = None"
  by (auto simp: plain_request_def request_reason_def split: option.splits)

lemma stale_reason_code: "plain_rule R \<Longrightarrow> stale_reason cfg R e age st sf d = (reason, e') \<Longrightarrow> 200 \<le> reason_code reason"
  by (auto simp: stale_reason_def plain_rule_def Let_def split: if_splits option.splits)

lemma refreshCheck_unfold:
  "refreshStaleness e (check_at t d) (age_at e (check_at t d)) (rule_for cfg e rq) no_flags = Some (st, sf) \<Longrightarrow>
   refreshCheck cfg t e rq d =
     refresh_decide cfg (rule_for cfg e rq) e (snd (refresh_uri e rq)) (age_at e (check_at t d)) st sf d"
  by (cases "refresh_uri e rq") (simp add: refreshCheck_def rule_for_def Let_def)

lemma refreshCheck_returns:
  assumes "times_ok (rule_for cfg e rq) e (time_ahead t d)"
  shows "\<exists>x. refreshCheck cfg t e rq d = Some x"
proof -
  note c = check_ok [OF assms]
  obtain st sf where st: "refreshStaleness e (check_at t d) (age_at e (check_at t d)) (rule_for cfg e rq) no_flags = Some (st, sf)"
    "st < 0 \<Longrightarrow> \<not> sf_max sf \<and> (sf_expires sf \<or> sf_lmfactor sf \<or> sf_min sf)"
    using staleness_cases [OF assms] unfolding c by blast
  show ?thesis unfolding refreshCheck_unfold [OF st(1)] refresh_decide_def using st(2)
    by (auto split: option.split prod.split)
qed

lemma decide_plain:
  assumes "plain_request rq"
  shows "refresh_decide cfg R e rq age st sf d =
     (if EBIT_TEST (e_flags e) ENTRY_REVALIDATE \<and> - 1 < st then Some (STALE_MUST_REVALIDATE, e, rq)
      else if st < 0
      then if sf_expires sf then Some (FRESH_EXPIRES, e, rq)
           else do {
             c_assert (\<not> sf_max sf);
             if sf_lmfactor sf then Some (FRESH_LMFACTOR_RULE, e, rq)
             else do { c_assert (sf_min sf); Some (FRESH_MIN_RULE, e, rq) } }
      else case stale_reason cfg R e age st sf d of (reason, e') \<Rightarrow> Some (reason, e', rq))"
  unfolding refresh_decide_def plain_request_reason [OF assms] by simp

lemma refreshCheck_plain:
  assumes "plain_request rq" "plain_rule (rule_for cfg e rq)" "times_ok (rule_for cfg e rq) e (time_ahead t d)"
    and eq: "refreshCheck cfg t e rq d = Some (reason, e', rq')"
  shows "reason_code reason < 200 \<longleftrightarrow> fresh_at (rule_for cfg e rq) e (time_ahead t d)"
proof -
  note c = check_ok [OF assms(3)]
  obtain st sf where st: "refreshStaleness e (check_at t d) (age_at e (check_at t d)) (rule_for cfg e rq) no_flags = Some (st, sf)"
    "st < 0 \<longleftrightarrow> fresh_at (rule_for cfg e rq) e (time_ahead t d)"
    "st < 0 \<Longrightarrow> \<not> sf_max sf \<and> (sf_expires sf \<or> sf_lmfactor sf \<or> sf_min sf)"
    using staleness_cases [OF assms(3)] unfolding c by blast
  note eq' = eq [unfolded refreshCheck_unfold [OF st(1)] decide_plain [OF plain_request_uri [OF assms(1)]]]
  show ?thesis
  proof (cases "st < 0")
    case True
    then show ?thesis using eq' st(2,3) by (auto split: if_splits)
  next
    case False
    then show ?thesis using eq' st(2) stale_reason_code [OF assms(2)]
      by (fastforce split: if_splits prod.splits)
  qed
qed

lemma fresh_at_earlier:
  "fresh_at R e t2 \<Longrightarrow> e_timestamp e \<le> t1 \<Longrightarrow> t1 \<le> t2 \<Longrightarrow> fresh_at R e t1"
  by (cases "t1 = t2") (auto simp: fresh_at_def full_age_def split: if_splits)

lemma HTTP_check_plain:
  assumes "plain_request rq" "plain_rule (rule_for cfg e rq)" "times_ok (rule_for cfg e rq) e t"
  shows "refreshCheckHTTP cfg t e rq = Some (if fresh_at (rule_for cfg e rq) e t then 0 else 1)"
proof -
  have t: "times_ok (rule_for cfg e rq) e (time_ahead t 0)" using assms(3) by (simp add: time_ahead_def)
  obtain x where "refreshCheck cfg t e rq 0 = Some x" using refreshCheck_returns [OF t] by blast
  then show ?thesis using refreshCheck_plain [OF assms(1,2) t]
    by (cases x) (auto simp: refreshCheckHTTP_def time_ahead_def)
qed

lemma ICP_check_plain:
  assumes "plain_request rq" "plain_rule (rule_for cfg e rq)" "times_ok (rule_for cfg e rq) e (t + 30)"
  shows "refreshCheckICP cfg t e rq = Some (if fresh_at (rule_for cfg e rq) e (t + 30) then 0 else 1)"
proof -
  have t: "times_ok (rule_for cfg e rq) e (time_ahead t 30)" using assms(3) by (simp add: time_ahead_def)
  obtain x where "refreshCheck cfg t e rq 30 = Some x" using refreshCheck_returns [OF t] by blast
  then show ?thesis using refreshCheck_plain [OF assms(1,2) t]
    by (cases x) (auto simp: refreshCheckICP_def time_ahead_def)
qed

subsection \<open>Properties\<close>

definition demo_refresh_entry :: StoreEntry where
  "demo_refresh_entry = \<lparr>e_mem_obj = None, e_repl = None, e_timestamp = 1000, e_lastref = 0, e_expires = - 1,
     e_lastmod = 900, e_swap_file_sz = 0, e_refcount = 0, e_flags = 0, e_swap_filen = - 1, e_swap_dirn = - 1,
     e_lock_count = 0, e_mem_status = NOT_IN_MEMORY, e_store_status = STORE_OK, e_swap_status = SWAPOUT_NONE\<rparr>"

definition demo_refresh_config :: refresh_config where
  "demo_refresh_config = \<lparr>c_Refresh = [], c_DefaultRefresh = refreshInit (\<lambda>d. d div 5), c_matches = (\<lambda>_ _. False),
     c_negativeTtl = 300, c_maxStale = - 1, c_reload_into_ims = False, c_refresh_stale_window = 0,
     c_minimum_expiry_time = 60\<rparr>"

lemma demo_rule: "rule_for demo_refresh_config demo_refresh_entry None = refreshInit (\<lambda>d. d div 5)"
  by (simp add: rule_for_def refresh_uri_def refresh_rule_def refreshUncompiledPattern_def demo_refresh_entry_def
      demo_refresh_config_def)

text \<open>The times of the example are in range.\<close>

lemma demo_times: "0 \<le> t \<Longrightarrow> t < 2 ^ 31 - 1 \<Longrightarrow> times_ok (refreshInit (\<lambda>d. d div 5)) demo_refresh_entry t"
  by (simp add: times_ok_def demo_refresh_entry_def refreshInit_def REFRESH_DEFAULT_MAX_def div_int_pos_iff)



text \<open>Outside the range an assertion can fail: the age of an object whose date is far enough before 1970, as a swap log
  may have it, does not fit 32 bits.\<close>
lemma negative_date_fails_assertion:
  assumes "e_expires e = - 1" "e_timestamp e = - 1000000000" "1147483648 \<le> t" "t < 2 ^ 31"
  shows "refreshCheck cfg t e rq 0 = None"
proof -
  have "(t + 3147483648 - 4294967296) mod 4294967296 = (t + 3147483648) mod (4294967296 :: int)" by (rule minus_mod_self2)
  moreover have "(t + 3147483648 - 4294967296) mod 4294967296 = t + 3147483648 - (4294967296 :: int)"
    using assms(3,4) by (intro mod_pos_pos_trivial) simp_all
  ultimately have "to_int32 (t + 1000000000) < 0" using assms(4) by (simp add: to_int32_def add.commute [of _ t])
  then have "age_at e t < 0" using assms(2,3) by (simp add: age_at_def)
  then show ?thesis using assms(1) by (simp add: refreshCheck_def check_at_def refreshStaleness_def c_assert_def split: prod.split)
qed

text \<open>A hit promised to a neighbour is a hit. If the ICP check, which looks 30 seconds
  ahead, calls an object fresh, then the HTTP check calls it fresh at every moment from now
  until those 30 seconds have passed, provided the clock is not behind the object's date and all times
  are in range.\<close>
theorem icp_promise_kept:
  assumes "plain_request rq" "plain_rule (rule_for cfg e rq)" "refreshCheckICP cfg now e rq = Some 0"
    "e_timestamp e \<le> now" "now \<le> t" "t \<le> now + 30" "0 \<le> now" "times_ok (rule_for cfg e rq) e (now + 30)"
  shows "refreshCheckHTTP cfg t e rq = Some 0"
proof -
  have "fresh_at (rule_for cfg e rq) e (now + 30)"
    using ICP_check_plain [OF assms(1,2,8)] assms(3) by (simp split: if_splits)
  then have "fresh_at (rule_for cfg e rq) e t" using fresh_at_earlier assms(4-6) by fastforce
  moreover have "times_ok (rule_for cfg e rq) e t" using assms(5-8) by (simp add: times_ok_def)
  ultimately show ?thesis using HTTP_check_plain [OF assms(1,2)] by simp
qed

theorem icp_promise_kept_witness:
  "refreshCheckHTTP demo_refresh_config 1015 (demo_refresh_entry\<lparr>e_lastmod := 800\<rparr>) None = Some 0"
proof -
  let ?e = "demo_refresh_entry\<lparr>e_lastmod := 800\<rparr>"
  have r: "rule_for demo_refresh_config ?e None = refreshInit (\<lambda>d. d div 5)"
    by (simp add: rule_for_def refresh_uri_def refresh_rule_def refreshUncompiledPattern_def demo_refresh_entry_def
        demo_refresh_config_def)
  have p: "plain_request None" "plain_rule (rule_for demo_refresh_config ?e None)"
    unfolding r by (simp_all add: plain_request_def plain_rule_def refreshInit_def)
  have k: "times_ok (rule_for demo_refresh_config ?e None) ?e (1005 + 30)" unfolding r
    by (simp add: times_ok_def demo_refresh_entry_def refreshInit_def REFRESH_DEFAULT_MAX_def div_int_pos_iff)
  have "fresh_at (rule_for demo_refresh_config ?e None) ?e (1005 + 30)" unfolding r
    by (simp add: fresh_at_def full_age_def demo_refresh_entry_def refreshInit_def REFRESH_DEFAULT_MAX_def)
  then have "refreshCheckICP demo_refresh_config 1005 ?e None = Some 0" using ICP_check_plain [OF p k] by simp
  from icp_promise_kept [OF p this, of 1015] k show ?thesis by (simp add: demo_refresh_entry_def)
qed

text \<open>When no pattern matches, \<open>max_stale\<close> of the configuration is not used: the default
  rule is cleared to zero, and zero counts as a limit of its own. A stale object without
  limits of its own is then refused as too stale, however large the configured limit is,
  although \<open>refreshCC\<close> reports the configured one.\<close>
theorem default_rule_ignores_max_stale:
  assumes "refresh_rule cfg (fst (refresh_uri e rq)) = None" "c_DefaultRefresh cfg = refreshInit p"
    "plain_request rq" "e_mem_obj e = None" "\<not> EBIT_TEST (e_flags e) ENTRY_REVALIDATE"
    "\<not> fresh_at (refreshInit p) e t" "times_ok (refreshInit p) e t"
  shows "refreshCheckStaleOK cfg t e rq = Some False \<and> cc_max_stale (fst (refreshCC cfg e rq)) = c_maxStale cfg"
proof -
  have r: "rule_for cfg e rq = refreshInit p" using assms(1,2) by (simp add: rule_for_def)
  have t: "check_at t 0 = t" by (simp add: check_at_def)
  obtain st sf where st: "refreshStaleness e t (age_at e t) (refreshInit p) no_flags = Some (st, sf)" "0 \<le> st"
    using staleness_cases [OF assms(7)] assms(6) by auto
  have "stale_reason cfg (refreshInit p) e (age_at e t) st sf 0 = (STALE_MAX_STALE, e)"
    using st(2) assms(4) by (simp add: stale_reason_def refreshInit_def max_stale_time_def)
  then have "refreshCheck cfg t e rq 0 = Some (STALE_MAX_STALE, e, snd (refresh_uri e rq))"
    using refreshCheck_unfold [of e t 0 cfg rq st sf, unfolded t r, OF st(1)] st(2) assms(5)
    by (simp add: decide_plain [OF plain_request_uri [OF assms(3)]])
  then show ?thesis using assms(1) by (simp add: refreshCheckStaleOK_def refreshCC_def)
qed

theorem default_rule_ignores_max_stale_witness:
  "refreshCheckStaleOK demo_refresh_config 1021 demo_refresh_entry None = Some False"
proof -
  have "\<not> fresh_at (refreshInit (\<lambda>d. d div 5)) demo_refresh_entry 1021"
    by (simp add: fresh_at_def full_age_def demo_refresh_entry_def refreshInit_def REFRESH_DEFAULT_MAX_def)
  from default_rule_ignores_max_stale [OF _ _ _ _ _ this, of demo_refresh_config None] show ?thesis
    using demo_times [of 1021]
    by (simp add: demo_refresh_config_def demo_refresh_entry_def refresh_rule_def refresh_uri_def
        refreshUncompiledPattern_def plain_request_def EBIT_TEST_def)
qed

text \<open>Getting older can make a stale object acceptable again. Once an object is older than
  the pattern's maximum its staleness is counted from the maximum, though it went stale by
  the last-modified rule before that: a request that accepts staleness below \<open>m\<close> is refused at
  the age of the maximum and served one second later.\<close>
theorem staleness_drops_at_maximum:
  assumes "e_expires e = - 1" "- 1 < e_lastmod e" "e_lastmod e < e_timestamp e" "e_timestamp e < 2 ^ 31"
    "rf_stale_age R (e_timestamp e - e_lastmod e) = s" "0 \<le> s" "s + m \<le> rf_max R" "1 < m" "rf_max R < 2 ^ 31 - 1"
  shows "\<exists>sf sf' st st'. refreshStaleness e (e_timestamp e + rf_max R) (rf_max R) R no_flags = Some (st, sf) \<and>
    refreshStaleness e (e_timestamp e + rf_max R + 1) (rf_max R + 1) R no_flags = Some (st', sf') \<and> m \<le> st \<and> st' = 1"
proof -
  have "to_int32 (e_timestamp e - e_lastmod e) = e_timestamp e - e_lastmod e" "to_int32 (rf_max R - s) = rf_max R - s" "to_int32 1 = 1"
    using assms by (auto simp: in_int32_def intro!: to_int32_id)
  then show ?thesis using assms by (simp add: refreshStaleness_def Let_def)
qed

theorem staleness_drops_at_maximum_witness:
  "\<exists>sf sf' st st'. refreshStaleness demo_refresh_entry 260200 259200 (refreshInit (\<lambda>d. d div 5)) no_flags = Some (st, sf) \<and>
    refreshStaleness demo_refresh_entry 260201 259201 (refreshInit (\<lambda>d. d div 5)) no_flags = Some (st', sf') \<and>
    259180 \<le> st \<and> st' = 1"
  using staleness_drops_at_maximum [of demo_refresh_entry "refreshInit (\<lambda>d. d div 5)" 20 259180]
  by (simp add: demo_refresh_entry_def refreshInit_def REFRESH_DEFAULT_MAX_def)

end
