(* ===== verification/StorePublish.thy ===== *)
theory StorePublish
  imports Store Refresh
begin

section \<open>Creating entries and making them public (store.c)\<close>

text \<open>
  A new entry starts under a private key, where no request finds it; once its reply is known
  to be cachable, \<open>storeSetPublicKey\<close> moves it to the key that requests for its URL have and
  gives up the entry that was there. Memory is allocated at an address that is passed in, and
  zeroed. Two functions that serve objects with a Vary header only are arguments:
  \<open>vary_mark\<close> for \<open>httpMakeVaryMark\<close>, which computes the variant of a request (\<open>None\<close> if it
  cannot), and \<open>add_vary\<close> for \<open>storeAddVary\<close>, which writes the marker object. \<open>n\<close> bounds
  the nesting of calls in \<open>storeRelease\<close>.
\<close>

subsection \<open>New entries\<close>

definition httpReplyCreate :: HttpReply where
  "httpReplyCreate = \<lparr>rep_content_length = - 1, rep_version_major = 0, rep_status = 0, rep_cache_control = None,
     rep_has_etag = False, rep_hdr_sz = 0, rep_parsed = False, rep_date = - 1, rep_expires = - 1,
     rep_last_modified = - 1, rep_age = - 1\<rparr>"

definition new_MemObject :: "string \<Rightarrow> MemObject" where
  "new_MemObject url = \<lparr>mem_method = METHOD_NONE, mem_url = url, mem_store_url = None, mem_data_hdr = mem_hdr_empty,
     mem_inmem_hi = 0, mem_inmem_lo = 0, mem_serverfd = - 1, mem_clients = [], mem_nclients = 0, mem_queue_offset = 0,
     mem_memnode = None, mem_sio = None, mem_reply = httpReplyCreate, mem_request = None, mem_repl = None, mem_id = 0, mem_object_sz = - 1,
     mem_swap_hdr_sz = 0, mem_vary_headers = None, mem_ims_entry = None, mem_old_entry = None,
     mem_refresh_timestamp = 0, mem_stale_while_revalidate = 0, mem_abort = None\<rparr>"

definition new_StoreEntry :: "bool \<Rightarrow> string \<Rightarrow> StoreEntry" where
  "new_StoreEntry mem_obj_flag url = \<lparr>e_mem_obj = (if mem_obj_flag then Some (new_MemObject url) else None),
     e_repl = None, e_timestamp = - 1, e_lastref = - 1, e_expires = - 1, e_lastmod = - 1, e_swap_file_sz = 0,
     e_refcount = 0, e_flags = 0, e_swap_filen = - 1, e_swap_dirn = - 1, e_lock_count = 0,
     e_mem_status = NOT_IN_MEMORY, e_store_status = STORE_OK, e_swap_status = SWAPOUT_NONE\<rparr>"

definition storeEntrySetStoreUrl :: "store \<Rightarrow> addr \<Rightarrow> string \<Rightarrow> store option" where
  "storeEntrySetStoreUrl s a store_url = do {
     e \<leftarrow> s_entries s a;
     Some (case e_mem_obj e of
             None \<Rightarrow> s
           | Some mem \<Rightarrow> put_entry s a (e\<lparr>e_mem_obj := Some (mem\<lparr>mem_store_url := Some store_url\<rparr>)\<rparr>)) }"

definition storeCreateMemObject :: "store \<Rightarrow> addr \<Rightarrow> string \<Rightarrow> store option" where
  "storeCreateMemObject s a url = do {
     e \<leftarrow> s_entries s a;
     Some (if e_mem_obj e \<noteq> None then s else put_entry s a (e\<lparr>e_mem_obj := Some (new_MemObject url)\<rparr>)) }"

definition storeLookupUrl :: "StoreEntry option \<Rightarrow> string" where
  "storeLookupUrl e =
     (case e of None \<Rightarrow> ''[null_entry]''
      | Some e' \<Rightarrow> (case e_mem_obj e' of
          None \<Rightarrow> ''[null_mem_obj]''
        | Some mem \<Rightarrow> (case mem_store_url mem of Some u \<Rightarrow> u | None \<Rightarrow> mem_url mem)))"

subsection \<open>Public keys\<close>

text \<open>The key that requests for the entry have. Computing it may cache the canonical URL in
  the request.\<close>

definition public_key_of :: "store \<Rightarrow> addr \<Rightarrow> (cache_key \<times> store) option" where
  "public_key_of s a = do {
     e \<leftarrow> s_entries s a;
     mem \<leftarrow> e_mem_obj e;
     case mem_request mem of
       Some request \<Rightarrow>
         (case storeKeyPublicByRequest request of
            (k, request) \<Rightarrow> Some (k, put_entry s a (e\<lparr>e_mem_obj := Some (mem\<lparr>mem_request := Some request\<rparr>)\<rparr>)))
     | None \<Rightarrow> Some (storeKeyPublic (storeLookupUrl (Some e)) (mem_method mem), s) }"

text \<open>Bringing the variant in the request up to date; \<open>False\<close> if the object cannot be indexed.\<close>

definition update_variance ::
  "(request_t \<Rightarrow> HttpReply \<Rightarrow> request_t option) \<Rightarrow> nat \<Rightarrow> store \<Rightarrow> addr \<Rightarrow> (bool \<times> store) option" where
  "update_variance vary_mark n s a = do {
     e \<leftarrow> s_entries s a;
     mem \<leftarrow> e_mem_obj e;
     let set_request = (\<lambda>r. put_entry s a (e\<lparr>e_mem_obj := Some (mem\<lparr>mem_request := Some r\<rparr>)\<rparr>));
     case mem_request mem of
       None \<Rightarrow> Some (True, s)
     | Some request \<Rightarrow>
         (case mem_vary_headers mem of
            None \<Rightarrow> Some (True, set_request (request\<lparr>r_vary_headers := None\<rparr>))
          | Some v \<Rightarrow>
              (case r_vary_headers request of
                 Some v' \<Rightarrow>
                   if v' \<noteq> v
                   then do {
                     let s = set_request (request\<lparr>r_vary_headers := None\<rparr>);
                     pe \<leftarrow> storeGetPublic s (storeLookupUrl (Some e)) (mem_method mem);
                     s \<leftarrow> (case pe of None \<Rightarrow> Some s | Some b \<Rightarrow> storeRelease n s b);
                     Some (True, s) }
                   else Some (True, s)
               | None \<Rightarrow>
                   (case vary_mark request (mem_reply mem) of
                      None \<Rightarrow> do { s \<leftarrow> storeReleaseRequest s a; Some (False, s) }
                    | Some request \<Rightarrow> Some (True, set_request request)))) }"

text \<open>The end of \<open>storeSetPublicKey\<close>: the entry that has the new key already is made private
  and released, then the entry itself is moved.\<close>

definition take_key :: "nat \<Rightarrow> store \<Rightarrow> addr \<Rightarrow> cache_key \<Rightarrow> store option" where
  "take_key n s a newkey = do {
     e2 \<leftarrow> storeGet s newkey;
     (newkey, s) \<leftarrow>
       (case e2 of
          None \<Rightarrow> Some (newkey, s)
        | Some b \<Rightarrow> do { s \<leftarrow> storeSetPrivateKey s b; s \<leftarrow> storeRelease n s b; public_key_of s a });
     s \<leftarrow> (if link_key (s_links s) a \<noteq> None then storeHashDelete s a else Some s);
     e \<leftarrow> s_entries s a;
     s \<leftarrow> storeHashInsert (put_entry s a (flag_clr e KEY_PRIVATE)) a newkey;
     if - 1 < e_swap_filen e then storeDirSwapLog s a SWAP_LOG_ADD else Some s }"

definition storeSetPublicKey ::
  "(request_t \<Rightarrow> HttpReply \<Rightarrow> request_t option) \<Rightarrow> (store \<Rightarrow> addr \<Rightarrow> cache_key \<Rightarrow> store option) \<Rightarrow>
   nat \<Rightarrow> store \<Rightarrow> addr \<Rightarrow> store option" where
  "storeSetPublicKey vary_mark add_vary n s a = do {
     e \<leftarrow> s_entries s a;
     let public = (link_key (s_links s) a \<noteq> None \<and> \<not> has_flag e KEY_PRIVATE);
     if public \<and> \<not> has_flag e KEY_EARLY_PUBLIC then Some s
     else do {
       s \<leftarrow> (if public then storeSetPrivateKey (put_entry s a (flag_clr e KEY_EARLY_PUBLIC)) a else Some s);
       e \<leftarrow> s_entries s a;
       mem \<leftarrow> e_mem_obj e;
       c_assert (\<not> has_flag e RELEASE_REQUEST);
       (indexed, s) \<leftarrow> update_variance vary_mark n s a;
       if \<not> indexed then Some s
       else do {
         (newkey, s) \<leftarrow> public_key_of s a;
         s \<leftarrow> (if mem_request mem \<noteq> None \<and> mem_vary_headers mem \<noteq> None \<and> \<not> has_flag e KEY_EARLY_PUBLIC
               then add_vary s a newkey else Some s);
         take_key n s a newkey } } }"

subsection \<open>storeCreateEntry\<close>

text \<open>The part behind the choice of a key.\<close>

definition open_new :: "store \<Rightarrow> addr \<Rightarrow> bool \<Rightarrow> store option" where
  "open_new s a cachable = do {
     e \<leftarrow> s_entries s a;
     s \<leftarrow> (if cachable then Some (put_entry s a (flag_clr (flag_set e ENTRY_CACHABLE) RELEASE_REQUEST))
           else storeReleaseRequest (put_entry s a (flag_clr e ENTRY_CACHABLE)) a);
     e \<leftarrow> s_entries s a;
     s \<leftarrow> storeSetMemStatus (put_entry s a (e\<lparr>e_store_status := STORE_PENDING\<rparr>)) a NOT_IN_MEMORY;
     e \<leftarrow> s_entries s a;
     Some (put_entry s a (flag_set (e\<lparr>e_swap_status := SWAPOUT_NONE, e_swap_filen := - 1, e_swap_dirn := - 1,
       e_refcount := 0, e_lastref := s_curtime s, e_timestamp := - 1\<rparr>) ENTRY_VALIDATED)) }"

text \<open>\<open>private_keys\<close> is the global \<open>neighbors_do_private_keys\<close>.\<close>

definition storeCreateEntry ::
  "(request_t \<Rightarrow> HttpReply \<Rightarrow> request_t option) \<Rightarrow> (store \<Rightarrow> addr \<Rightarrow> cache_key \<Rightarrow> store option) \<Rightarrow>
   nat \<Rightarrow> bool \<Rightarrow> store \<Rightarrow> addr \<Rightarrow> string \<Rightarrow> bool \<Rightarrow> bool \<Rightarrow> method_t \<Rightarrow> store option" where
  "storeCreateEntry vary_mark add_vary n private_keys s a url hierarchical cachable method = do {
     c_assert (s_entries s a = None \<and> s_links s a = None);
     let e = (new_StoreEntry True url)\<lparr>e_lock_count := 1\<rparr>;
     mem \<leftarrow> e_mem_obj e;
     let s = (put_entry s a (e\<lparr>e_mem_obj := Some (mem\<lparr>mem_method := method\<rparr>)\<rparr>))
               \<lparr>s_links := (s_links s)(a \<mapsto> \<lparr>hl_key = None, hl_next = None\<rparr>)\<rparr>;
     s \<leftarrow> (if private_keys \<or> \<not> hierarchical then storeSetPrivateKey s a else storeSetPublicKey vary_mark add_vary n s a);
     open_new s a cachable }"

subsection \<open>Negative caching\<close>

definition cache_error_response :: "addr \<Rightarrow> int \<Rightarrow> store \<Rightarrow> store option" where
  "cache_error_response a expires s = do {
     e \<leftarrow> s_entries s a;
     let e = (if e_expires e < expires then e\<lparr>e_expires := expires\<rparr> else e);
     Some (put_entry s a (flag_set e ENTRY_NEGCACHED)) }"

definition old_max_stale :: "MemObject \<Rightarrow> int \<Rightarrow> int" where
  "old_max_stale omem stale =
     (case rep_cache_control (mem_reply omem) of
        Some oldcc \<Rightarrow> if cc_has oldcc CC_STALE_IF_ERROR \<and> 0 \<le> stale_if_error oldcc then stale_if_error oldcc else stale
      | None \<Rightarrow> stale)"

definition mark_refresh_failure :: "addr \<Rightarrow> addr \<Rightarrow> int \<Rightarrow> store \<Rightarrow> store option" where
  "mark_refresh_failure a b expires s = do {
     e \<leftarrow> s_entries s a;
     let s = put_entry s a (flag_clr e ENTRY_CACHABLE);
     oe \<leftarrow> s_entries s b;
     let oe = (if e_expires oe < expires then oe\<lparr>e_expires := expires\<rparr> else oe);
     Some (put_entry s b (flag_set oe REFRESH_FAILURE)) }"

definition storeNegativeCache :: "refresh_config \<Rightarrow> store \<Rightarrow> addr \<Rightarrow> store option" where
  "storeNegativeCache cfg s a = do {
     e \<leftarrow> s_entries s a;
     mem \<leftarrow> e_mem_obj e;
     let status = rep_status (mem_reply mem);
     let (cc, request) = refreshCC cfg e (mem_request mem);
     let e = e\<lparr>e_mem_obj := Some (mem\<lparr>mem_request := request\<rparr>)\<rparr>;
     let s = put_entry s a e;
     let expires = (if e_expires e = - 1 then to_int32 (s_curtime s + cc_negative_ttl cc) else e_expires e);
     case mem_old_entry mem of
       None \<Rightarrow> cache_error_response a expires s
     | Some b \<Rightarrow> do {
         oe \<leftarrow> s_entries s b;
         if status \<noteq> 0 \<and> \<not> has_flag oe KEY_PRIVATE \<and> \<not> has_flag oe ENTRY_REVALIDATE \<and> 500 \<le> status \<and> status \<le> 504
         then do {
           omem \<leftarrow> e_mem_obj oe;
           let ms = old_max_stale omem (cc_max_stale cc);
           s \<leftarrow> (if 0 \<le> ms then storeTimestampsSet s b else Some s);
           oe \<leftarrow> s_entries s b;
           let max_expires = to_int32 (e_expires oe + ms);
           if 0 \<le> ms \<and> max_expires \<le> s_curtime s then cache_error_response a expires s
           else mark_refresh_failure a b (if 0 \<le> ms \<and> max_expires < expires then max_expires else expires) s }
         else cache_error_response a expires s } }"

subsection \<open>Where an entry goes\<close>

text \<open>The key of an entry's requests, and the entry once its canonical URL is cached.\<close>

definition pub_key :: "StoreEntry \<Rightarrow> cache_key" where
  "pub_key e =
     (case e_mem_obj e of
        None \<Rightarrow> []
      | Some mem \<Rightarrow> (case mem_request mem of
          Some r \<Rightarrow> fst (storeKeyPublicByRequest r)
        | None \<Rightarrow> storeKeyPublic (storeLookupUrl (Some e)) (mem_method mem)))"

definition map_request :: "(request_t \<Rightarrow> request_t) \<Rightarrow> StoreEntry \<Rightarrow> StoreEntry" where
  "map_request f e = e\<lparr>e_mem_obj := map_option (\<lambda>m. m\<lparr>mem_request := map_option f (mem_request m)\<rparr>) (e_mem_obj e)\<rparr>"

abbreviation canon :: "StoreEntry \<Rightarrow> StoreEntry" where
  "canon \<equiv> map_request (\<lambda>r. snd (storeKeyPublicByRequest r))"

abbreviation unvary :: "StoreEntry \<Rightarrow> StoreEntry" where
  "unvary \<equiv> map_request (\<lambda>r. r\<lparr>r_vary_headers := None\<rparr>)"

lemma map_request_simps [simp]:
  "e_flags (map_request f e) = e_flags e" "e_swap_filen (map_request f e) = e_swap_filen e"
  "e_mem_obj (map_request f e) = None \<longleftrightarrow> e_mem_obj e = None"
  "e_lock_count (map_request f e) = e_lock_count e" "e_swap_dirn (map_request f e) = e_swap_dirn e"
  by (simp_all add: map_request_def)

lemma put_entry_same [simp]: "s_entries s a = Some e \<Longrightarrow> put_entry s a e = s"
  by (simp add: put_entry_def map_upd_triv)

lemma key_ok_request: "key_ok (fst (storeKeyPublicByRequest r))"
  by (simp add: storeKeyPublicByRequest_def storeKeyPublicByRequestMethod_def length_md5_digest split: prod.splits)

lemma key_ok_pub: "e_mem_obj e \<noteq> None \<Longrightarrow> key_ok (pub_key e)"
  by (auto simp: pub_key_def key_ok_request storeKeyPublic_def length_md5_digest split: option.splits)

lemma storeKeyPublicByRequest_again:
  "storeKeyPublicByRequest (snd (storeKeyPublicByRequest r)) = storeKeyPublicByRequest r"
  by (auto simp: storeKeyPublicByRequest_def storeKeyPublicByRequestMethod_def urlCanonical_def Let_def split: option.splits)

lemma pub_key_canon [simp]: "pub_key (canon e) = pub_key e" "canon (canon e) = canon e"
  by (auto simp: pub_key_def map_request_def storeLookupUrl_def storeKeyPublicByRequest_again option.map_comp comp_def split: option.splits)

lemma public_key_of_ok:
  "s_entries s a = Some e \<Longrightarrow> e_mem_obj e \<noteq> None \<Longrightarrow> public_key_of s a = Some (pub_key e, put_entry s a (canon e))"
  by (auto simp: public_key_of_def pub_key_def map_request_def split: option.splits prod.splits)

lemma update_variance_plain:
  assumes "s_entries s a = Some e" "e_mem_obj e = Some mem" "mem_vary_headers mem = None"
  shows "update_variance vary_mark n s a = Some (True, put_entry s a (unvary e))"
  using assms by (auto simp: update_variance_def map_request_def Let_def split: option.splits)

text \<open>The last lines of \<open>storeSetPublicKey\<close>, for an entry that is in the table or is not yet.\<close>

definition move_key :: "store \<Rightarrow> addr \<Rightarrow> cache_key \<Rightarrow> store option" where
  "move_key s a newkey = do {
     s \<leftarrow> (if link_key (s_links s) a \<noteq> None then storeHashDelete s a else Some s);
     e \<leftarrow> s_entries s a;
     s \<leftarrow> storeHashInsert (put_entry s a (flag_clr e KEY_PRIVATE)) a newkey;
     if - 1 < e_swap_filen e then storeDirSwapLog s a SWAP_LOG_ADD else Some s }"

lemma flag_clr_private: "\<not> has_flag (flag_clr e KEY_PRIVATE) KEY_PRIVATE"
  by (simp add: flag_clr_def ebit_simps)

lemma insert_key:
  assumes r: "store_rep s L" and e: "s_entries s a = Some e" and l: "s_links s a \<noteq> None"
    and a: "\<forall>k. a \<notin> set (L k)" and k: "key_ok k" and f: "L k = []"
  shows "\<exists>s'. (do {
     s \<leftarrow> storeHashInsert (put_entry s a (flag_clr e KEY_PRIVATE)) a k;
     if - 1 < e_swap_filen e then storeDirSwapLog s a SWAP_LOG_ADD else Some s }) = Some s' \<and>
    store_rep s' (L(k := [a])) \<and> s_entries s' = (s_entries s)(a \<mapsto> flag_clr e KEY_PRIVATE) \<and>
    s_key_counter s' = s_key_counter s \<and> s_curtime s' = s_curtime s"
proof -
  let ?s = "put_entry s a (flag_clr e KEY_PRIVATE)"
  obtain l' where l': "s_links ?s a = Some l'" using l by auto
  have "store_rep ?s L" using r by simp
  from storeHashInsert_rep [OF this l' a k] f obtain t m where
    i: "storeHashInsert ?s a k = Some (?s\<lparr>s_table := t, s_links := m\<rparr>)" "store_rep (?s\<lparr>s_table := t, s_links := m\<rparr>) (L(k := [a]))"
      "link_key m a = Some k" by auto
  let ?s2 = "?s\<lparr>s_table := t, s_links := m\<rparr>"
  have "\<exists>s'. (if - 1 < e_swap_filen e then storeDirSwapLog ?s2 a SWAP_LOG_ADD else Some ?s2) = Some s' \<and>
    (s' = ?s2 \<or> (\<exists>ev. s' = put_event ?s2 ev))"
    using i(3) flag_clr_private [of e] by (auto simp: storeDirSwapLog_def flag_clr_def)
  then obtain s' where s': "(if - 1 < e_swap_filen e then storeDirSwapLog ?s2 a SWAP_LOG_ADD else Some ?s2) = Some s'"
    "s' = ?s2 \<or> (\<exists>ev. s' = put_event ?s2 ev)" by blast
  have "store_rep s' (L(k := [a]))" "s_entries s' = (s_entries s)(a \<mapsto> flag_clr e KEY_PRIVATE)"
    "s_key_counter s' = s_key_counter s" "s_curtime s' = s_curtime s"
    using s'(2) i(2) by (auto simp: put_event_def store_rep_def)
  moreover have "(do { s \<leftarrow> storeHashInsert ?s a k; if - 1 < e_swap_filen e then storeDirSwapLog s a SWAP_LOG_ADD else Some s }) = Some s'"
    by (simp only: i(1) Option.bind.simps(2) s'(1))
  ultimately show ?thesis by blast
qed

lemma move_key_ok:
  assumes r: "store_rep s L" and e: "s_entries s a = Some e" and a: "a \<in> set (L pk)"
    and k: "key_ok k" and f: "k \<noteq> pk" "L k = []"
  shows "\<exists>s'. move_key s a k = Some s' \<and> store_rep s' (L(pk := remove1 a (L pk), k := [a])) \<and>
    s_entries s' = (s_entries s)(a \<mapsto> flag_clr e KEY_PRIVATE)"
proof -
  note once = store_rep_once [OF r a]
  obtain t m where d: "storeHashDelete s a = Some (s\<lparr>s_table := t, s_links := m\<rparr>)"
    "store_rep (s\<lparr>s_table := t, s_links := m\<rparr>) (L(pk := remove1 a (L pk)))" "m a \<noteq> None"
    using storeHashDelete_rep [OF r a once(2,3)] by blast
  have "\<forall>k'. a \<notin> set ((L(pk := remove1 a (L pk))) k')" using once(2,3) by simp
  from insert_key [of _ "L(pk := remove1 a (L pk))", OF d(2) _ _ this k, of e] f e d(3) obtain s' where
    "(do { s \<leftarrow> storeHashInsert (put_entry (s\<lparr>s_table := t, s_links := m\<rparr>) a (flag_clr e KEY_PRIVATE)) a k;
       if - 1 < e_swap_filen e then storeDirSwapLog s a SWAP_LOG_ADD else Some s }) = Some s'"
    "store_rep s' (L(pk := remove1 a (L pk), k := [a]))" "s_entries s' = (s_entries s)(a \<mapsto> flag_clr e KEY_PRIVATE)" by auto
  then show ?thesis using d(1) once(4) e by (simp add: move_key_def)
qed

text \<open>An entry that another one may displace: it is the only one under its key, public, and
  nothing uses it.\<close>

definition displaceable :: "store \<Rightarrow> (cache_key \<Rightarrow> addr list) \<Rightarrow> cache_key \<Rightarrow> addr \<Rightarrow> bool" where
  "displaceable s L k b \<longleftrightarrow> (\<exists>e. L k = [b] \<and> s_entries s b = Some e \<and> \<not> has_flag e KEY_PRIVATE \<and> \<not> storeEntryLocked e \<and>
     mem_plain s e \<and> \<not> (s_dirs_rebuilding s \<and> - 1 < e_swap_filen e) \<and> (e_mem_status e = IN_MEMORY \<longrightarrow> e_mem_obj e \<noteq> None) \<and>
     0 \<le> s_key_counter s \<and> in_int32 (s_key_counter s) \<and> (L(k := [])) (private_key e (fst (getKeyCounter s))) = [])"

lemma private_fields [simp]:
  "e_swap_filen (flag_set (with_id e i) b) = e_swap_filen e" "e_mem_status (flag_set (with_id e i) b) = e_mem_status e"
  "e_mem_obj (flag_set (with_id e i) b) = None \<longleftrightarrow> e_mem_obj e = None"
  by (simp_all add: flag_set_def with_id_def split: option.splits)

lemma private_plain: "mem_plain s e \<Longrightarrow> mem_plain s (flag_set (with_id e i) b)"
  by (cases "e_mem_obj e") (simp_all add: mem_plain_def flag_set_def with_id_def)

lemma private_unlocked: "\<not> storeEntryLocked e \<Longrightarrow> \<not> storeEntryLocked (flag_set (with_id e i) KEY_PRIVATE)"
  by (cases "e_mem_obj e") (simp_all add: storeEntryLocked_def flag_set_def with_id_def ebit_simps split: if_splits)

lemma displace:
  assumes r: "store_rep s L" and b: "displaceable s L k b" and n: "3 \<le> n"
  shows "\<exists>s1 s2. storeSetPrivateKey s b = Some s1 \<and> storeRelease n s1 b = Some s2 \<and> store_rep s2 (L(k := [])) \<and>
    s_entries s2 = (s_entries s)(b := None)"
proof -
  obtain e where e: "L k = [b]" "s_entries s b = Some e" "\<not> has_flag e KEY_PRIVATE" "\<not> storeEntryLocked e"
    "mem_plain s e" "\<not> (s_dirs_rebuilding s \<and> - 1 < e_swap_filen e)" "e_mem_status e = IN_MEMORY \<longrightarrow> e_mem_obj e \<noteq> None"
    "0 \<le> s_key_counter s" "in_int32 (s_key_counter s)" "(L(k := [])) (private_key e (fst (getKeyCounter s))) = []"
    using b unfolding displaceable_def by blast
  define i pb e1 where "i = fst (getKeyCounter s)" "pb = private_key e (fst (getKeyCounter s))"
    "e1 = flag_set (with_id e (fst (getKeyCounter s))) KEY_PRIVATE"
  have bk: "b \<in> set (L k)" "L(k := remove1 b (L k)) = L(k := [])" using e(1) by simp_all
  have fr: "(L(k := remove1 b (L k))) (private_key e (fst (getKeyCounter s))) = []" unfolding bk(2) by (rule e(10))
  obtain t m where p: "storeSetPrivateKey s b = Some (s\<lparr>s_table := t, s_links := m, s_key_counter := i,
      s_entries := (s_entries s)(b \<mapsto> e1), s_events := s_events s @ log_del s b e k\<rparr>)"
    "store_rep (s\<lparr>s_table := t, s_links := m\<rparr>) (L(k := [], pb := [b]))"
    using storeSetPrivateKey_public [OF r e(2) bk(1) e(3,8,9) fr] unfolding bk(2) i_pb_e1_def by blast
  let ?s1 = "s\<lparr>s_table := t, s_links := m, s_key_counter := i, s_entries := (s_entries s)(b \<mapsto> e1), s_events := s_events s @ log_del s b e k\<rparr>"
  have r1: "store_rep ?s1 (L(k := [], pb := [b]))" using p(2) by (simp add: store_rep_def)
  have e1: "mem_plain ?s1 e1" "\<not> storeEntryLocked e1" "\<not> (s_dirs_rebuilding ?s1 \<and> - 1 < e_swap_filen e1)"
    "e_mem_status e1 = IN_MEMORY \<longrightarrow> e_mem_obj e1 \<noteq> None"
    unfolding i_pb_e1_def using private_unlocked [OF e(4)] private_plain [OF e(5)] e(6,7) by (simp_all del: KEY_PRIVATE_def add: mem_plain_def)
  obtain j where n': "n = Suc (Suc (Suc j))" using n that [of "n - 3"] by simp
  have b1: "s_entries ?s1 b = Some e1" "b \<in> set ((L(k := [], pb := [b])) pb)" by simp_all
  obtain s2 where s2: "storeRelease n ?s1 b = Some s2" "s_entries s2 = (s_entries ?s1)(b := None)"
    "store_rep s2 ((L(k := [], pb := [b]))(pb := remove1 b ((L(k := [], pb := [b])) pb)))"
    using storeRelease_destroys [OF r1 b1 e1, of j] unfolding n' by blast
  have "(L(k := [])) pb = []" using e(10) unfolding i_pb_e1_def(2) .
  then have "(L(k := [], pb := [b]))(pb := remove1 b ((L(k := [], pb := [b])) pb)) = L(k := [])"
    using fun_upd_idem [of "L(k := [])" pb "[]"] by simp
  then show ?thesis using p(1) s2 by auto
qed

lemma displaceable_put: "a \<noteq> b \<Longrightarrow> displaceable (put_entry s a e) L k b = displaceable s L k b"
  by (simp add: displaceable_def mem_plain_def getKeyCounter_def put_entry_def Let_def)

lemma take_key_ok:
  assumes r: "store_rep s L" and e: "s_entries s a = Some e" "e_mem_obj e \<noteq> None" and a: "a \<in> set (L pk)"
    and k: "k = pub_key e" "k \<noteq> pk" and old: "L k = [] \<or> displaceable s L k b" and n: "3 \<le> n"
  shows "\<exists>s' e'. take_key n s a k = Some s' \<and> store_rep s' (L(pk := remove1 a (L pk), k := [a])) \<and>
    (e' = e \<or> e' = canon e) \<and> s_entries s' = ((s_entries s) |` (- set (L k)))(a \<mapsto> flag_clr e' KEY_PRIVATE)"
proof -
  have ok: "key_ok k" using key_ok_pub e(2) k(1) by blast
  show ?thesis
  proof (cases "L k = []")
    case True
    obtain s' where "move_key s a k = Some s'" "store_rep s' (L(pk := remove1 a (L pk), k := [a]))"
      "s_entries s' = (s_entries s)(a \<mapsto> flag_clr e KEY_PRIVATE)"
      using move_key_ok [OF r e(1) a ok k(2) True] by blast
    moreover then have "take_key n s a k = Some s'" using storeGet_rep [OF r ok] True by (simp add: take_key_def move_key_def)
    moreover have "(s_entries s) |` (- set (L k)) = s_entries s" using True by (simp add: restrict_map_def)
    ultimately show ?thesis by metis
  next
    case False
    then have d: "displaceable s L k b" using old by blast
    then have Lk: "L k = [b]" by (auto simp: displaceable_def)
    have ab: "a \<noteq> b" using store_rep_once(3) [OF r a] k(2) Lk by fastforce
    obtain s1 s2 where s2: "storeSetPrivateKey s b = Some s1" "storeRelease n s1 b = Some s2" "store_rep s2 (L(k := []))"
      "s_entries s2 = (s_entries s)(b := None)" using displace [OF r d n] by blast
    have e2: "s_entries s2 a = Some e" using s2(4) e(1) ab by simp
    let ?s3 = "put_entry s2 a (canon e)"
    have "store_rep ?s3 (L(k := []))" "s_entries ?s3 a = Some (canon e)" "a \<in> set ((L(k := [])) pk)" "(L(k := [])) k = []"
      using s2(3) a k(2) by simp_all
    from move_key_ok [OF this(1,2,3) ok k(2) this(4)] obtain s' where
      m: "move_key ?s3 a k = Some s'" "store_rep s' ((L(k := []))(pk := remove1 a ((L(k := [])) pk), k := [a]))"
      "s_entries s' = (s_entries ?s3)(a \<mapsto> flag_clr (canon e) KEY_PRIVATE)" by blast
    have "(L(k := []))(pk := remove1 a ((L(k := [])) pk), k := [a]) = L(pk := remove1 a (L pk), k := [a])"
      using k(2) by (auto simp: fun_eq_iff)
    moreover have "take_key n s a k = Some s'"
      using storeGet_rep [OF r ok] Lk s2(1,2) public_key_of_ok [OF e2 e(2)] k(1) m(1) by (simp add: take_key_def move_key_def)
    moreover have "s_entries s' = ((s_entries s) |` (- set (L k)))(a \<mapsto> flag_clr (canon e) KEY_PRIVATE)"
      using m(3) s2(4) Lk by (auto simp: fun_eq_iff restrict_map_def)
    ultimately show ?thesis using m(2) by metis
  qed
qed

subsection \<open>Properties\<close>

text \<open>C4: Making an entry public works and displaces what was there. For an entry under a private
  key whose object does not vary, \<open>storeSetPublicKey\<close> succeeds whenever the key is free or held by
  an entry that nothing uses: afterwards the key of the entry's requests finds this entry and
  no other, the private key is given up, the displaced entry is gone, and every other key and entry is as it was.\<close>
theorem storeSetPublicKey_publishes:
  assumes "store_rep s L" "s_entries s a = Some e" "a \<in> set (L pk)" "has_flag e KEY_PRIVATE" "\<not> has_flag e RELEASE_REQUEST"
    and "e_mem_obj e = Some mem" "mem_vary_headers mem = None" "k = pub_key (unvary e)" "k \<noteq> pk"
    and "L k = [] \<or> displaceable s L k b" "3 \<le> n"
  shows "\<exists>s' e'. storeSetPublicKey vary_mark add_vary n s a = Some s' \<and> storeGet s' k = Some (Some a) \<and>
    store_rep s' (L(pk := remove1 a (L pk), k := [a])) \<and> s_entries s' a = Some e' \<and> \<not> has_flag e' KEY_PRIVATE \<and>
    (\<forall>c. c \<noteq> a \<longrightarrow> s_entries s' c = (if c \<in> set (L k) then None else s_entries s c)) \<and>
    (\<forall>k'. length k' = 16 \<longrightarrow> k' \<noteq> k \<longrightarrow> k' \<noteq> pk \<longrightarrow> storeGet s' k' = storeGet s k')"
proof -
  let ?e = "canon (unvary e)" and ?s = "put_entry s a (canon (unvary e))"
  have r: "store_rep ?s L" using assms(1) by simp
  have m: "e_mem_obj ?e \<noteq> None" "e_mem_obj (unvary e) \<noteq> None" using assms(6) by simp_all
  have ok: "key_ok k" using key_ok_pub [OF m(2)] assms(8) by simp
  have ab: "a \<noteq> b" if "displaceable s L k b" using that store_rep_once(3) [OF assms(1,3)] assms(9) by (fastforce simp: displaceable_def)
  have "L k = [] \<or> displaceable ?s L k b" using assms(10) ab displaceable_put [of a b s ?e L k] by blast
  moreover have "s_entries ?s a = Some ?e" "k = pub_key ?e" using assms(8) by simp_all
  ultimately obtain s' e' where s': "take_key n ?s a k = Some s'" "store_rep s' (L(pk := remove1 a (L pk), k := [a]))"
    "s_entries s' = ((s_entries ?s) |` (- set (L k)))(a \<mapsto> flag_clr e' KEY_PRIVATE)"
    using take_key_ok [OF r _ m(1) assms(3) _ assms(9) _ assms(11), of b] by blast
  have "storeSetPublicKey vary_mark add_vary n s a = Some s'"
    using assms(2,4-8) update_variance_plain [OF assms(2,6,7), of vary_mark n] public_key_of_ok [of "put_entry s a (unvary e)" a "unvary e"] m(2) s'(1)
    by (simp add: storeSetPublicKey_def Let_def put_entry_def)
  moreover have "storeGet s' k = Some (Some a)" using storeGet_rep [OF s'(2) ok] by simp
  moreover have "storeGet s' k' = storeGet s k'" if "length k' = 16" "k' \<noteq> k" "k' \<noteq> pk" for k'
    using storeGet_rep [OF s'(2) that(1)] storeGet_rep [OF assms(1) that(1)] that(2,3) by simp
  moreover have "s_entries s' c = (if c \<in> set (L k) then None else s_entries s c)" if "c \<noteq> a" for c
    using s'(3) that by (simp add: restrict_map_def)
  moreover have "s_entries s' a = Some (flag_clr e' KEY_PRIVATE)" using s'(3) by simp
  ultimately show ?thesis using s'(2) flag_clr_private by blast
qed

definition other_key :: "cache_key \<Rightarrow> cache_key" where
  "other_key k = (if k = replicate 16 0 then replicate 16 1 else replicate 16 0)"

lemma other_key: "length (other_key k) = 16" "k \<noteq> other_key k"
  by (auto simp: other_key_def)

theorem storeSetPublicKey_publishes_witness:
  "\<exists>s s'. storeSetPublicKey (\<lambda>r h. None) (\<lambda>s a k. None) 3 s 1 = Some s' \<and> storeGet s (pub_key demo_entry) = Some None \<and>
    storeGet s' (pub_key demo_entry) = Some (Some 1)"
proof -
  let ?e = "flag_set demo_entry KEY_PRIVATE"
  define k pk where "k = pub_key demo_entry" and "pk = other_key (pub_key demo_entry)"
  have k: "key_ok k" "k \<noteq> pk" "key_ok pk" using key_ok_pub [of demo_entry] other_key by (simp_all add: k_def pk_def demo_entry_simps)
  obtain s0 where s0: "store_rep s0 ((\<lambda>_. [])(pk := [1]))" by (rule demo_store_filled [OF k(3)])
  let ?s = "put_entry s0 1 ?e"
  have r: "store_rep ?s ((\<lambda>_. [])(pk := [1]))" using s0 by simp
  have e: "s_entries ?s 1 = Some ?e" "(1::nat) \<in> set (((\<lambda>_. [])(pk := [1])) pk)" "has_flag ?e KEY_PRIVATE" "\<not> has_flag ?e RELEASE_REQUEST"
    "e_mem_obj ?e = Some demo_mem_obj" "mem_vary_headers demo_mem_obj = None"
    by (simp_all add: flag_set_def demo_entry_def demo_mem_obj_def EBIT_TEST_def EBIT_SET_def)
  have u: "k = pub_key (unvary ?e)"
    by (simp add: k_def pub_key_def map_request_def flag_set_def demo_entry_def demo_mem_obj_def storeLookupUrl_def)
  have "((\<lambda>_. [])(pk := [1])) k = [] \<or> displaceable ?s ((\<lambda>_. [])(pk := [1])) k 0" using k(2) by simp
  from storeSetPublicKey_publishes [OF r e u k(2) this, of 3 "\<lambda>r h. None" "\<lambda>s a k. None"] obtain s' where
    "storeSetPublicKey (\<lambda>r h. None) (\<lambda>s a k. None) 3 ?s 1 = Some s'" "storeGet s' k = Some (Some 1)" by auto
  moreover have "storeGet ?s k = Some None" using storeGet_rep [OF r k(1)] k(2) by simp
  ultimately show ?thesis unfolding k_def by blast
qed

subsection \<open>A new entry\<close>

lemma new_entry_flags: "e_flags (new_StoreEntry m url) = 0" "e_mem_status (new_StoreEntry m url) = NOT_IN_MEMORY"
  "e_mem_obj (new_StoreEntry True url) = Some (new_MemObject url)"
  by (simp_all add: new_StoreEntry_def)

text \<open>The entry \<open>storeCreateEntry\<close> leaves, from the one that has its key.\<close>

definition opened :: "bool \<Rightarrow> int \<Rightarrow> StoreEntry \<Rightarrow> StoreEntry" where
  "opened cachable t e = flag_set
     ((if cachable then flag_clr (flag_set e ENTRY_CACHABLE) RELEASE_REQUEST
       else flag_clr (flag_set (flag_clr e ENTRY_CACHABLE) RELEASE_REQUEST) ENTRY_CACHABLE)
      \<lparr>e_store_status := STORE_PENDING, e_swap_status := SWAPOUT_NONE, e_swap_filen := - 1,
       e_swap_dirn := - 1, e_refcount := 0, e_lastref := t, e_timestamp := - 1\<rparr>) ENTRY_VALIDATED"

lemma opened_fields:
  "e_lock_count (opened c t e) = e_lock_count e" "e_store_status (opened c t e) = STORE_PENDING" "e_mem_status (opened c t e) = e_mem_status e"
  "e_swap_status (opened c t e) = SWAPOUT_NONE" "e_mem_obj (opened c t e) = e_mem_obj e"
  "has_flag (opened c t e) KEY_PRIVATE = has_flag e KEY_PRIVATE" "has_flag (opened c t e) ENTRY_VALIDATED"
  "has_flag (opened c t e) ENTRY_CACHABLE = c" "has_flag (opened c t e) RELEASE_REQUEST = (\<not> c)"
  by (simp_all add: opened_def flag_set_def flag_clr_def ebit_simps)

lemma open_entry:
  assumes e: "s_entries s a = Some e" and k: "link_key (s_links s) a \<noteq> None"
    and f: "has_flag e KEY_PRIVATE" "\<not> has_flag e RELEASE_REQUEST" "e_mem_status e = NOT_IN_MEMORY"
  shows "open_new s a cachable = Some (put_entry s a (opened cachable (s_curtime s) e))"
  using assms
  by (cases cachable) (simp_all add: open_new_def opened_def storeSetMemStatus_def storeReleaseRequest_def storeSetPrivateKey_def put_entry_def
      flag_set_def flag_clr_def ebit_simps)

text \<open>A new entry cannot be found by any request: when entries start under private keys,
  \<open>storeCreateEntry\<close> adds an entry that is locked once, pending, not in memory and validated,
  cachable or marked for release as the request says, under a fresh private key; no other
  key finds anything new and no other entry changes.\<close>
theorem storeCreateEntry_hidden:
  assumes "store_rep s L" "s_entries s a = None" "s_links s a = None" "0 \<le> s_key_counter s" "in_int32 (s_key_counter s)"
    and "private_keys \<or> \<not> hierarchical" and "ne = (new_StoreEntry True url)\<lparr>e_mem_obj := Some ((new_MemObject url)\<lparr>mem_method := meth\<rparr>)\<rparr>"
    and "pk = private_key ne (fst (getKeyCounter s))" "L pk = []"
  shows "\<exists>s' e. storeCreateEntry vary_mark add_vary n private_keys s a url hierarchical cachable meth = Some s' \<and>
    store_rep s' (L(pk := [a])) \<and> s_entries s' = (s_entries s)(a \<mapsto> e) \<and> storeUrl (Some e) = url \<and>
    e_lock_count e = 1 \<and> e_store_status e = STORE_PENDING \<and> e_mem_status e = NOT_IN_MEMORY \<and> e_swap_status e = SWAPOUT_NONE \<and>
    has_flag e KEY_PRIVATE \<and> has_flag e ENTRY_VALIDATED \<and> has_flag e ENTRY_CACHABLE = cachable \<and> has_flag e RELEASE_REQUEST = (\<not> cachable) \<and>
    (\<forall>k. length k = 16 \<longrightarrow> k \<noteq> pk \<longrightarrow> storeGet s' k = storeGet s k)"
proof -
  let ?e = "ne\<lparr>e_lock_count := 1\<rparr>" and ?i = "fst (getKeyCounter s)"
  let ?s = "(put_entry s a ?e)\<lparr>s_links := (s_links s)(a \<mapsto> \<lparr>hl_key = None, hl_next = None\<rparr>)\<rparr>"
  have na: "\<forall>k. a \<notin> set (L k)" using store_rep_once(4) [OF assms(1)] assms(3) by (force simp: link_key_def)
  have r: "store_rep ?s L" using ht_state_frame [OF _ na] assms(1) by (auto simp: store_rep_def)
  have pk: "pk = private_key ?e (fst (getKeyCounter ?s))" "fst (getKeyCounter ?s) = ?i" "s_key_counter ?s = s_key_counter s"
    using assms(8) by (simp_all add: private_key_def getKeyCounter_def put_entry_def Let_def)
  obtain t m where p: "assign_private_key ?s a ?e = Some (?s\<lparr>s_table := t, s_links := m, s_key_counter := ?i,
      s_entries := (s_entries ?s)(a \<mapsto> flag_set (with_id ?e ?i) KEY_PRIVATE)\<rparr>)"
    "store_rep (?s\<lparr>s_table := t, s_links := m\<rparr>) (L(pk := [a]))" "link_key m a = Some pk"
    using assign_private_key_rep [OF r _ _ na, of ?e ?i] assms(4,5,9) pk by auto
  let ?e1 = "flag_set (with_id ?e ?i) KEY_PRIVATE"
  let ?s1 = "?s\<lparr>s_table := t, s_links := m, s_key_counter := ?i, s_entries := (s_entries ?s)(a \<mapsto> ?e1)\<rparr>"
  have k1: "storeSetPrivateKey ?s a = Some ?s1" using p(1) by (simp add: storeSetPrivateKey_def link_key_def)
  have f1: "has_flag ?e1 KEY_PRIVATE" "\<not> has_flag ?e1 RELEASE_REQUEST" "e_mem_status ?e1 = NOT_IN_MEMORY"
    using assms(7) by (simp_all add: new_entry_flags flag_set_def with_id_def ebit_simps)
  have ne: "(new_StoreEntry True url)\<lparr>e_lock_count := 1, e_mem_obj := Some ((new_MemObject url)\<lparr>mem_method := meth\<rparr>)\<rparr> = ?e"
    using assms(7) by simp
  have s1: "s_entries ?s1 a = Some ?e1" "link_key (s_links ?s1) a \<noteq> None" using p(3) by simp_all
  let ?e3 = "opened cachable (s_curtime ?s1) ?e1"
  have "storeCreateEntry vary_mark add_vary n private_keys s a url hierarchical cachable meth = Some (put_entry ?s1 a ?e3)"
    using assms(2,3,6) k1 open_entry [OF s1 f1, of cachable] by (simp add: storeCreateEntry_def new_entry_flags Let_def ne)
  moreover have "store_rep (put_entry ?s1 a ?e3) (L(pk := [a]))" using p(2) by (simp add: store_rep_def)
  moreover have "s_entries (put_entry ?s1 a ?e3) = (s_entries s)(a \<mapsto> ?e3)" by simp
  moreover have "storeUrl (Some ?e3) = url" "e_lock_count ?e3 = 1"
    using assms(7) by (simp_all add: storeUrl_def opened_fields flag_set_def with_id_def new_MemObject_def)
  ultimately show ?thesis using f1(1,3) opened_fields [of cachable "s_curtime ?s1" ?e1] storeGet_rep [OF assms(1)]
      storeGet_rep [of "put_entry ?s1 a ?e3" "L(pk := [a])"]
    by (intro exI [of _ "put_entry ?s1 a ?e3"] exI [of _ ?e3]) simp
qed

theorem storeCreateEntry_hidden_witness:
  "\<exists>s s' pk. storeCreateEntry (\<lambda>r h. None) (\<lambda>s a k. None) 3 True s 2 ''v'' True True 1 = Some s' \<and>
    s_entries s 2 = None \<and> storeGet s' pk = Some (Some 2)"
proof -
  obtain t where "ht_state key_ok (t, [1 \<mapsto> \<lparr>hl_key = None, hl_next = None\<rparr>]) (\<lambda>k. [])"
    using storeInitTable_rep [of 0 "[1 \<mapsto> \<lparr>hl_key = None, hl_next = None\<rparr>]"] by auto
  then have r: "store_rep (demo_store t) (\<lambda>k. [])" by (simp add: store_rep_def demo_store_def)
  let ?ne = "(new_StoreEntry True ''v'')\<lparr>e_mem_obj := Some ((new_MemObject ''v'')\<lparr>mem_method := 1\<rparr>)\<rparr>"
  let ?pk = "private_key ?ne (fst (getKeyCounter (demo_store t)))"
  have "s_entries (demo_store t) 2 = None" "s_links (demo_store t) 2 = None" "0 \<le> s_key_counter (demo_store t)"
    "in_int32 (s_key_counter (demo_store t))" by (simp_all add: demo_store_def in_int32_def)
  note d = this
  obtain s' where s': "storeCreateEntry (\<lambda>r h. None) (\<lambda>s a k. None) 3 True (demo_store t) 2 ''v'' True True 1 = Some s'"
    "store_rep s' ((\<lambda>k. [])(?pk := [2]))"
    using storeCreateEntry_hidden [OF r d, where private_keys = True and hierarchical = True and ne = ?ne and url = "''v''"
        and meth = 1 and pk = ?pk and vary_mark = "\<lambda>r h. None" and add_vary = "\<lambda>s a k. None" and n = 3 and cachable = True] by auto
  have "storeGet s' ?pk = Some (Some 2)" using storeGet_rep [OF s'(2) key_ok_private] by simp
  with s'(1) d(1) show ?thesis by blast
qed

subsection \<open>Failed revalidation\<close>

text \<open>C34: A server error does not replace a cached object that is not too stale. If an entry with
  status 500 to 504 was fetched to revalidate an old entry that is public, is kept in memory and need not be
  revalidated, and a limit \<open>ms\<close> on the staleness applies, which is not used up and which added to the old entry's expiry
  \<open>x\<close>, as the old reply gives it, does not overflow the 32-bit time, then \<open>storeNegativeCache\<close> makes the error
  uncachable, marks the old entry as failed to refresh, and sets its expiry between \<open>x\<close> and \<open>x + ms\<close>.\<close>
theorem storeNegativeCache_keeps_old:
  assumes "s_entries s a = Some e" "e_mem_obj e = Some mem" "mem_old_entry mem = Some b" "a \<noteq> b"
    and "s_entries s b = Some oe" "e_mem_obj oe = Some omem" "\<not> has_flag oe KEY_PRIVATE" "\<not> has_flag oe ENTRY_REVALIDATE"
    and "500 \<le> rep_status (mem_reply mem)" "rep_status (mem_reply mem) \<le> 504"
    and "ms = old_max_stale omem (cc_max_stale (fst (refreshCC cfg e (mem_request mem))))" "0 \<le> ms"
    and "x = entry_expires (served_date (s_curtime s) (mem_reply omem)) (mem_reply omem)" "s_curtime s < x + ms"
    and "0 \<le> s_curtime s" "x + ms < 2 ^ 31"
  shows "\<exists>s' e' oe'. storeNegativeCache cfg s a = Some s' \<and> s_entries s' = (s_entries s)(a \<mapsto> e', b \<mapsto> oe') \<and>
    \<not> has_flag e' ENTRY_CACHABLE \<and> e_expires e' = e_expires e \<and> has_flag oe' REFRESH_FAILURE \<and>
    x \<le> e_expires oe' \<and> e_expires oe' \<le> x + ms"
proof -
  obtain cc rq where cc: "refreshCC cfg e (mem_request mem) = (cc, rq)" by fastforce
  define e1 where "e1 = e\<lparr>e_mem_obj := Some (mem\<lparr>mem_request := rq\<rparr>)\<rparr>"
  define o1 where "o1 = oe\<lparr>e_expires := x, e_lastmod := rep_last_modified (mem_reply omem), e_timestamp := served_date (s_curtime s) (mem_reply omem)\<rparr>"
  define s2 where "s2 = put_entry (put_entry s a e1) b o1"
  have t: "storeTimestampsSet (put_entry s a e1) b = Some s2" using assms(4-6,13) by (simp add: storeTimestampsSet_def Let_def s2_def o1_def)
  have s2: "s_entries s2 a = Some e1" "s_entries s2 b = Some o1" "s_curtime s2 = s_curtime s" "e_expires o1 = x"
    "e_expires e1 = e_expires e" "s_entries s2 = (s_entries s)(a \<mapsto> e1, b \<mapsto> o1)"
    using assms(4) by (simp_all add: s2_def o1_def e1_def)
  have m: "old_max_stale omem (cc_max_stale cc) = ms" using assms(11) cc by simp
  have mx: "to_int32 (x + ms) = x + ms" using assms(14-16) by (intro to_int32_id) (simp add: in_int32_def)
  define ex where "ex = (if 0 \<le> ms \<and> x + ms < (if e_expires e1 = - 1 then to_int32 (s_curtime (put_entry s a e1) + cc_negative_ttl cc) else e_expires e1)
    then x + ms else (if e_expires e1 = - 1 then to_int32 (s_curtime (put_entry s a e1) + cc_negative_ttl cc) else e_expires e1))"
  define o3 where "o3 = flag_set (if x < ex then o1\<lparr>e_expires := ex\<rparr> else o1) REFRESH_FAILURE"
  define s3 where "s3 = put_entry (put_entry s2 a (flag_clr e1 ENTRY_CACHABLE)) b o3"
  have k: "mark_refresh_failure a b ex s2 = Some s3"
    using s2 assms(4) by (simp add: mark_refresh_failure_def s3_def o3_def Let_def)
  have ob: "s_entries (put_entry s a e1) b = Some oe" using assms(4,5) by simp
  have "storeNegativeCache cfg s a = mark_refresh_failure a b ex s2"
    unfolding storeNegativeCache_def assms(1,2) Option.bind.bind_lunit Let_def cc prod.case e1_def [symmetric] assms(3) option.case ob assms(6) m t s2
    using assms(7-10,12,14) t by (simp add: ex_def s2 mx del: ebit_simps)
  moreover have "s_entries s3 = (s_entries s)(a \<mapsto> flag_clr e1 ENTRY_CACHABLE, b \<mapsto> o3)"
    using assms(4) s2 by (auto simp: fun_eq_iff s3_def)
  moreover have "\<not> has_flag (flag_clr e1 ENTRY_CACHABLE) ENTRY_CACHABLE" "e_expires (flag_clr e1 ENTRY_CACHABLE) = e_expires e"
    "has_flag o3 REFRESH_FAILURE" "x \<le> e_expires o3" "e_expires o3 \<le> x + ms"
    using assms(12) s2 by (simp_all add: flag_clr_def flag_set_def ebit_simps ex_def o3_def)
  ultimately show ?thesis using k by auto
qed

text \<open>A failed revalidation at second 1000 of an object that expired at 990 and may be 600 seconds stale.\<close>

definition failed_reply_entry :: StoreEntry where
  "failed_reply_entry = (new_StoreEntry True ''u'')\<lparr>e_mem_obj :=
     Some ((new_MemObject ''u'')\<lparr>mem_reply := httpReplyCreate\<lparr>rep_status := 503\<rparr>, mem_old_entry := Some 2\<rparr>)\<rparr>"

definition revalidated_entry :: StoreEntry where
  "revalidated_entry = (new_StoreEntry True ''u'')\<lparr>e_mem_obj :=
     Some ((new_MemObject ''u'')\<lparr>mem_reply := httpReplyCreate\<lparr>rep_status := 200, rep_expires := 990\<rparr>\<rparr>)\<rparr>"

theorem storeNegativeCache_keeps_old_witness:
  "\<exists>s s' e' oe'. storeNegativeCache (demo_refresh_config\<lparr>c_maxStale := 600\<rparr>) s 1 = Some s' \<and>
    s_entries s' = (s_entries s)(1 \<mapsto> e', 2 \<mapsto> oe') \<and> \<not> has_flag e' ENTRY_CACHABLE \<and> has_flag oe' REFRESH_FAILURE \<and>
    990 \<le> e_expires oe' \<and> e_expires oe' \<le> 1590"
proof -
  let ?c = "demo_refresh_config\<lparr>c_maxStale := 600\<rparr>"
  define s where "s = (demo_store undefined)\<lparr>s_entries := [1 \<mapsto> failed_reply_entry, 2 \<mapsto> revalidated_entry]\<rparr>"
  define mem where "mem = (new_MemObject ''u'')\<lparr>mem_reply := httpReplyCreate\<lparr>rep_status := 503\<rparr>, mem_old_entry := Some 2\<rparr>"
  define omem where "omem = (new_MemObject ''u'')\<lparr>mem_reply := httpReplyCreate\<lparr>rep_status := 200, rep_expires := 990\<rparr>\<rparr>"
  have e: "s_entries s 1 = Some failed_reply_entry" "e_mem_obj failed_reply_entry = Some mem" "mem_old_entry mem = Some 2" "(1::addr) \<noteq> 2"
    "s_entries s 2 = Some revalidated_entry" "e_mem_obj revalidated_entry = Some omem" "\<not> has_flag revalidated_entry KEY_PRIVATE"
    "\<not> has_flag revalidated_entry ENTRY_REVALIDATE" "500 \<le> rep_status (mem_reply mem)" "rep_status (mem_reply mem) \<le> 504"
    by (simp_all add: s_def mem_def omem_def failed_reply_entry_def revalidated_entry_def new_StoreEntry_def ebit_simps)
  have "cc_max_stale (fst (refreshCC ?c failed_reply_entry (mem_request mem))) = 600"
    by (simp add: refreshCC_def refresh_uri_def refresh_rule_def refreshLimits_def failed_reply_entry_def demo_refresh_config_def)
  then have m: "(600::int) = old_max_stale omem (cc_max_stale (fst (refreshCC ?c failed_reply_entry (mem_request mem))))" "(0::int) \<le> 600"
    by (simp_all add: old_max_stale_def omem_def httpReplyCreate_def)
  have x: "(990::int) = entry_expires (served_date (s_curtime s) (mem_reply omem)) (mem_reply omem)" "s_curtime s < 990 + 600" "0 \<le> s_curtime s" "(990::int) + 600 < 2 ^ 31"
    by (simp_all add: entry_expires_def omem_def httpReplyCreate_def s_def demo_store_def)
  show ?thesis using storeNegativeCache_keeps_old [OF e m x] by fastforce
qed

end
