(* ===== verification/Cbdata.thy ===== *)
theory Cbdata
  imports Prelude
begin

section \<open>Callback data (cbdata.c)\<close>

text \<open>
  The registry of the objects that are passed to callbacks. An object is locked by everyone who
  waits to call back with it; \<open>cbdataFree\<close> marks it invalid, and its memory is freed when it is
  both invalid and unlocked. The header in front of an object (\<open>struct cbdata\<close>) is found at
  the object's own address here; memory that was freed is not in the map, so that every
  operation on it aborts. The destructors of types are calls out of the model and recorded in
  order in \<open>cb_destroyed\<close>. This is the build without \<open>HASHED_CBDATA\<close> and \<open>CBDATA_DEBUG\<close>.
\<close>

unbundle bit_operations_syntax

subsection \<open>State and operations\<close>

record cbdata =
  c_valid :: bool
  c_locks :: int
  c_type :: nat
  c_y :: "32 word"

record cbdata_index_entry =
  ci_pool :: "(string \<times> int) option"
  ci_free_func :: bool

record cb_state =
  cb_mem :: "addr \<Rightarrow> cbdata option"
  cbdataCount :: int
  cbdata_index :: "cbdata_index_entry list"
  cb_destroyed :: "addr list"

definition CBDATA_COOKIE :: "addr \<Rightarrow> 32 word" where
  "CBDATA_COOKIE p = word_of_nat p XOR 0xDEADBEEF"

definition cbdataInitType :: "cb_state \<Rightarrow> nat \<Rightarrow> string \<Rightarrow> int \<Rightarrow> bool \<Rightarrow> cb_state" where
  "cbdataInitType s type name sz free_func =
     (let index = (if length (cbdata_index s) \<le> type
                   then cbdata_index s @ replicate (type + 1 - length (cbdata_index s)) \<lparr>ci_pool = None, ci_free_func = False\<rparr>
                   else cbdata_index s)
      in if ci_pool (index ! type) \<noteq> None then s\<lparr>cbdata_index := index\<rparr>
         else s\<lparr>cbdata_index := index[type := \<lparr>ci_pool = Some (name, sz), ci_free_func = free_func\<rparr>]\<rparr>)"

definition cbdataAddType :: "cb_state \<Rightarrow> nat \<Rightarrow> string \<Rightarrow> int \<Rightarrow> bool \<Rightarrow> nat \<times> cb_state" where
  "cbdataAddType s type name sz free_func =
     (if type \<noteq> 0 then (type, s)
      else let type = length (cbdata_index s) in (type, cbdataInitType s type name sz free_func))"

text \<open>The address of the new object is an argument.\<close>

definition cbdataInternalAlloc :: "cb_state \<Rightarrow> nat \<Rightarrow> addr \<Rightarrow> cb_state option" where
  "cbdataInternalAlloc s type p = do {
     c_assert (0 < type \<and> type < length (cbdata_index s));
     c_assert (cb_mem s p = None \<and> ci_pool (cbdata_index s ! type) \<noteq> None);
     Some (s\<lparr>cb_mem := (cb_mem s)(p \<mapsto> \<lparr>c_valid = True, c_locks = 0, c_type = type, c_y = CBDATA_COOKIE p\<rparr>),
             cbdataCount := cbdataCount s + 1\<rparr>) }"

definition destroy_cbdata :: "cb_state \<Rightarrow> addr \<Rightarrow> cbdata \<Rightarrow> cb_state option" where
  "destroy_cbdata s p c = do {
     t \<leftarrow> arr_get (cbdata_index s) (c_type c);
     Some (s\<lparr>cb_mem := (cb_mem s)(p := None), cbdataCount := cbdataCount s - 1,
             cb_destroyed := (if ci_free_func t then cb_destroyed s @ [p] else cb_destroyed s)\<rparr>) }"

definition cbdataInternalFree :: "cb_state \<Rightarrow> addr \<Rightarrow> cb_state option" where
  "cbdataInternalFree s p = do {
     c \<leftarrow> cb_mem s p;
     c_assert (c_y c = CBDATA_COOKIE p);
     c_assert (c_valid c);
     let c = c\<lparr>c_valid := False\<rparr>;
     if c_locks c \<noteq> 0 then Some (s\<lparr>cb_mem := (cb_mem s)(p \<mapsto> c)\<rparr>)
     else destroy_cbdata s p c }"

definition cbdataLocked :: "cb_state \<Rightarrow> addr \<Rightarrow> int option" where
  "cbdataLocked s p = do {
     c \<leftarrow> cb_mem s p;
     c_assert (c_y c = CBDATA_COOKIE p);
     c_assert (c_locks c \<noteq> 0 \<or> c_valid c);
     Some (c_locks c) }"

definition cbdataLock :: "cb_state \<Rightarrow> addr option \<Rightarrow> cb_state option" where
  "cbdataLock s q =
     (case q of
        None \<Rightarrow> Some s
      | Some p \<Rightarrow> do {
          c \<leftarrow> cb_mem s p;
          c_assert (c_y c = CBDATA_COOKIE p);
          c_assert (c_locks c \<noteq> 0 \<or> c_valid c);
          Some (s\<lparr>cb_mem := (cb_mem s)(p \<mapsto> c\<lparr>c_locks := c_locks c + 1\<rparr>)\<rparr>) })"

definition cbdataUnlock :: "cb_state \<Rightarrow> addr option \<Rightarrow> cb_state option" where
  "cbdataUnlock s q =
     (case q of
        None \<Rightarrow> Some s
      | Some p \<Rightarrow> do {
          c \<leftarrow> cb_mem s p;
          c_assert (c_y c = CBDATA_COOKIE p);
          c_assert (0 < c_locks c);
          let c = c\<lparr>c_locks := c_locks c - 1\<rparr>;
          if c_valid c \<or> c_locks c \<noteq> 0 then Some (s\<lparr>cb_mem := (cb_mem s)(p \<mapsto> c)\<rparr>)
          else destroy_cbdata s p c })"

definition cbdataValid :: "cb_state \<Rightarrow> addr option \<Rightarrow> bool option" where
  "cbdataValid s q =
     (case q of
        None \<Rightarrow> Some True
      | Some p \<Rightarrow> do {
          c \<leftarrow> cb_mem s p;
          c_assert (c_y c = CBDATA_COOKIE p);
          c_assert (0 < c_locks c);
          Some (c_valid c) })"

subsection \<open>Invariant\<close>

text \<open>An object is kept exactly while it is valid or locked, and the counter counts the objects.\<close>

definition cb_object_ok :: "cb_state \<Rightarrow> addr \<Rightarrow> cbdata \<Rightarrow> bool" where
  "cb_object_ok s p c \<longleftrightarrow> c_y c = CBDATA_COOKIE p \<and> 0 \<le> c_locks c \<and> (c_valid c \<or> 0 < c_locks c) \<and>
     c_type c < length (cbdata_index s)"

definition cb_inv :: "cb_state \<Rightarrow> bool" where
  "cb_inv s \<longleftrightarrow> (\<forall>p c. cb_mem s p = Some c \<longrightarrow> cb_object_ok s p c) \<and>
     finite (dom (cb_mem s)) \<and> cbdataCount s = int (card (dom (cb_mem s)))"

lemma cb_invD:
  assumes "cb_inv s" "cb_mem s p = Some c"
  shows "c_y c = CBDATA_COOKIE p" "0 \<le> c_locks c" "c_valid c \<or> 0 < c_locks c" "c_type c < length (cbdata_index s)"
  using assms by (auto simp: cb_inv_def cb_object_ok_def)

lemma cb_inv_put:
  assumes "cb_inv s" "cb_mem s p = Some c" "cb_object_ok s p c'"
  shows "cb_inv (s\<lparr>cb_mem := (cb_mem s)(p \<mapsto> c')\<rparr>)"
proof -
  have "dom ((cb_mem s)(p \<mapsto> c')) = dom (cb_mem s)" using assms(2) by auto
  then show ?thesis using assms(1,3) by (auto simp: cb_inv_def cb_object_ok_def)
qed

lemma destroy_cbdata_ok:
  assumes "cb_inv s" "cb_mem s p = Some c" "c_type c' = c_type c"
  shows "\<exists>s'. destroy_cbdata s p c' = Some s' \<and> cb_inv s' \<and> cb_mem s' = (cb_mem s)(p := None) \<and> cbdata_index s' = cbdata_index s"
proof -
  have d: "dom ((cb_mem s)(p := None)) = dom (cb_mem s) - {p}" "p \<in> dom (cb_mem s)" using assms(2) by auto
  moreover have "0 < card (dom (cb_mem s))" using d(2) assms(1) by (auto simp: cb_inv_def card_gt_0_iff)
  moreover have "card (dom (cb_mem s) - {p}) = card (dom (cb_mem s)) - 1" using d(2) assms(1) by (simp add: cb_inv_def)
  ultimately show ?thesis using assms(1,3) cb_invD(4) [OF assms(1,2)]
    by (auto simp: destroy_cbdata_def arr_get_def cb_inv_def cb_object_ok_def of_nat_diff)
qed

subsection \<open>What the operations do\<close>

lemma cbdataLock_ok:
  assumes "cb_inv s" "cb_mem s p = Some c"
  shows "cbdataLock s (Some p) = Some (s\<lparr>cb_mem := (cb_mem s)(p \<mapsto> c\<lparr>c_locks := c_locks c + 1\<rparr>)\<rparr>)"
    "cb_inv (s\<lparr>cb_mem := (cb_mem s)(p \<mapsto> c\<lparr>c_locks := c_locks c + 1\<rparr>)\<rparr>)"
  using cb_invD [OF assms] cb_inv_put [OF assms, of "c\<lparr>c_locks := c_locks c + 1\<rparr>"] assms(2)
  by (auto simp: cbdataLock_def cb_object_ok_def)

lemma cbdataUnlock_ok:
  assumes "cb_inv s" "cb_mem s p = Some c" "0 < c_locks c"
  shows "\<exists>s'. cbdataUnlock s (Some p) = Some s' \<and> cb_inv s' \<and> cbdata_index s' = cbdata_index s \<and>
    cb_mem s' = (if c_valid c \<or> c_locks c \<noteq> 1 then (cb_mem s)(p \<mapsto> c\<lparr>c_locks := c_locks c - 1\<rparr>) else (cb_mem s)(p := None))"
  using cb_invD [OF assms(1,2)] cb_inv_put [OF assms(1,2), of "c\<lparr>c_locks := c_locks c - 1\<rparr>"] assms(2,3)
    destroy_cbdata_ok [OF assms(1,2), of "c\<lparr>c_locks := c_locks c - 1\<rparr>"]
  by (auto simp: cbdataUnlock_def cb_object_ok_def Let_def)

lemma cbdataInternalFree_ok:
  assumes "cb_inv s" "cb_mem s p = Some c" "c_valid c"
  shows "\<exists>s'. cbdataInternalFree s p = Some s' \<and> cb_inv s' \<and> cbdata_index s' = cbdata_index s \<and>
    cb_mem s' = (if c_locks c \<noteq> 0 then (cb_mem s)(p \<mapsto> c\<lparr>c_valid := False\<rparr>) else (cb_mem s)(p := None))"
  using cb_invD [OF assms(1,2)] cb_inv_put [OF assms(1,2), of "c\<lparr>c_valid := False\<rparr>"] assms(2,3)
    destroy_cbdata_ok [OF assms(1,2), of "c\<lparr>c_valid := False\<rparr>"]
  by (auto simp: cbdataInternalFree_def cb_object_ok_def Let_def)

lemma cbdataInternalAlloc_ok:
  assumes "cb_inv s" "cbdataInternalAlloc s t p = Some s'"
  shows "cb_inv s' \<and> cb_mem s p = None \<and> cbdata_index s' = cbdata_index s \<and>
    cb_mem s' = (cb_mem s)(p \<mapsto> \<lparr>c_valid = True, c_locks = 0, c_type = t, c_y = CBDATA_COOKIE p\<rparr>)"
  using assms by (fastforce simp: cbdataInternalAlloc_def bind_eq_Some_conv cb_inv_def cb_object_ok_def card_insert_if split: if_splits)

lemma cbdataValid_ok:
  "cb_inv s \<Longrightarrow> cb_mem s p = Some c \<Longrightarrow> 0 < c_locks c \<Longrightarrow> cbdataValid s (Some p) = Some (c_valid c)"
  by (auto simp: cbdataValid_def dest: cb_invD)

subsection \<open>Holders of objects\<close>

text \<open>The protocol of the callers: \<open>h p\<close> is the number of locks on \<open>p\<close> that callers took and have
  not dropped. An owner frees an object once, and nobody drops a lock it does not hold.\<close>

definition cb_start :: "cbdata_index_entry list \<Rightarrow> cb_state" where
  "cb_start index = \<lparr>cb_mem = Map.empty, cbdataCount = 0, cbdata_index = index, cb_destroyed = []\<rparr>"

inductive cb_step :: "cb_state \<times> (addr \<Rightarrow> nat) \<Rightarrow> cb_state \<times> (addr \<Rightarrow> nat) \<Rightarrow> bool" where
  step_alloc: "cbdataInternalAlloc s t p = Some s' \<Longrightarrow> cb_step (s, h) (s', h)"
| step_free: "cb_mem s p = Some c \<Longrightarrow> c_valid c \<Longrightarrow> cbdataInternalFree s p = Some s' \<Longrightarrow> cb_step (s, h) (s', h)"
| step_lock: "cb_mem s p \<noteq> None \<Longrightarrow> cbdataLock s (Some p) = Some s' \<Longrightarrow> cb_step (s, h) (s', h(p := h p + 1))"
| step_unlock: "0 < h p \<Longrightarrow> cbdataUnlock s (Some p) = Some s' \<Longrightarrow> cb_step (s, h) (s', h(p := h p - 1))"

definition cb_reachable :: "cb_state \<Rightarrow> (addr \<Rightarrow> nat) \<Rightarrow> bool" where
  "cb_reachable s h \<longleftrightarrow> (\<exists>index. cb_step\<^sup>*\<^sup>* (cb_start index, \<lambda>_. 0) (s, h))"

definition holders_counted :: "cb_state \<Rightarrow> (addr \<Rightarrow> nat) \<Rightarrow> bool" where
  "holders_counted s h \<longleftrightarrow> (\<forall>p. (case cb_mem s p of None \<Rightarrow> 0 | Some c \<Rightarrow> c_locks c) = int (h p))"

lemma holders_countedD:
  "holders_counted s h \<Longrightarrow> cb_mem s p = Some c \<Longrightarrow> c_locks c = int (h p)"
  "holders_counted s h \<Longrightarrow> 0 < h p \<Longrightarrow> \<exists>c. cb_mem s p = Some c \<and> c_locks c = int (h p)"
  by (auto simp: holders_counted_def split: option.splits dest: spec [of _ p])

lemma holders_counted_upd:
  assumes "holders_counted s h" "cb_mem s' = (cb_mem s)(p := oc)"
    "(case oc of None \<Rightarrow> 0 | Some c \<Rightarrow> c_locks c) = int n"
  shows "holders_counted s' (h(p := n))"
  using assms by (auto simp: holders_counted_def)

lemma cb_step_inv:
  assumes "cb_step (s, h) (s', h')" "cb_inv s" "holders_counted s h"
  shows "cb_inv s' \<and> holders_counted s' h'"
  using assms(1)
proof cases
  case (step_alloc t p)
  then have "holders_counted s' (h(p := h p))"
    using cbdataInternalAlloc_ok [OF assms(2) step_alloc(2)] assms(3)
    by (intro holders_counted_upd [OF assms(3)]) (auto simp: holders_counted_def dest: spec [of _ p])
  then show ?thesis using step_alloc cbdataInternalAlloc_ok [OF assms(2) step_alloc(2)] by simp
next
  case (step_free p c)
  have "holders_counted s' (h(p := h p))" using cbdataInternalFree_ok [OF assms(2) step_free(2,3)] step_free(4)
      holders_countedD(1) [OF assms(3) step_free(2)]
    by (intro holders_counted_upd [OF assms(3), of _ _ "if c_locks c \<noteq> 0 then Some (c\<lparr>c_valid := False\<rparr>) else None"]) auto
  then show ?thesis using step_free cbdataInternalFree_ok [OF assms(2) step_free(2,3)] by simp
next
  case (step_lock p)
  then obtain c where c: "cb_mem s p = Some c" by auto
  have "holders_counted s' (h(p := h p + 1))" using cbdataLock_ok(1) [OF assms(2) c] step_lock holders_countedD(1) [OF assms(3) c]
    by (intro holders_counted_upd [OF assms(3)]) auto
  then show ?thesis using step_lock cbdataLock_ok [OF assms(2) c] by simp
next
  case (step_unlock p)
  obtain c where c: "cb_mem s p = Some c" "c_locks c = int (h p)" using holders_countedD(2) [OF assms(3) step_unlock(2)] by auto
  have l: "0 < c_locks c" using c(2) step_unlock(2) by simp
  have "holders_counted s' (h(p := h p - 1))" using cbdataUnlock_ok [OF assms(2) c(1) l] step_unlock c
    by (intro holders_counted_upd [OF assms(3), of _ _ "if c_valid c \<or> c_locks c \<noteq> 1 then Some (c\<lparr>c_locks := c_locks c - 1\<rparr>) else None"])
      (auto simp: of_nat_diff)
  then show ?thesis using step_unlock cbdataUnlock_ok [OF assms(2) c(1) l] by simp
qed

lemma cb_reachable_inv:
  assumes "cb_reachable s h"
  shows "cb_inv s \<and> holders_counted s h"
proof -
  obtain index where "cb_step\<^sup>*\<^sup>* (cb_start index, \<lambda>_. 0) (s, h)" using assms by (auto simp: cb_reachable_def)
  then show ?thesis
  proof (induction "(s, h)" arbitrary: s h rule: rtranclp_induct)
    case base
    then show ?case by (simp add: cb_start_def cb_inv_def holders_counted_def)
  next
    case (step y)
    then show ?case using cb_step_inv by (cases y) blast
  qed
qed

text \<open>C25: Memory a caller has locked stays allocated. In every state that callers can reach who drop
  only the locks they took, a locked object is there, its validity can be asked, and a
  holder can drop its lock; the memory is freed by exactly the last drop after the
  object became invalid. Conversely an object without locks is valid, so that nothing
  leaks, and the counter of objects is exact.\<close>
theorem cbdata_locked_survives:
  assumes "cb_reachable s h"
  shows "(0 < h p \<longrightarrow> (\<exists>c s'. cb_mem s p = Some c \<and> cbdataValid s (Some p) = Some (c_valid c) \<and> cbdataLocked s p = Some (int (h p)) \<and>
      cbdataUnlock s (Some p) = Some s' \<and> (cb_mem s' p = None \<longleftrightarrow> h p = 1 \<and> \<not> c_valid c))) \<and>
    (\<forall>c. cb_mem s p = Some c \<longrightarrow> h p = 0 \<longrightarrow> c_valid c) \<and> cbdataCount s = int (card (dom (cb_mem s)))"
proof -
  have i: "cb_inv s" "holders_counted s h" using cb_reachable_inv [OF assms] by auto
  have "\<exists>c s'. cb_mem s p = Some c \<and> cbdataValid s (Some p) = Some (c_valid c) \<and> cbdataLocked s p = Some (int (h p)) \<and>
      cbdataUnlock s (Some p) = Some s' \<and> (cb_mem s' p = None \<longleftrightarrow> h p = 1 \<and> \<not> c_valid c)" if h: "0 < h p"
  proof -
    obtain c where c: "cb_mem s p = Some c" "c_locks c = int (h p)" using holders_countedD(2) [OF i(2) h] by auto
    have l: "0 < c_locks c" using c(2) h by simp
    have "cbdataLocked s p = Some (int (h p))" using c l cb_invD [OF i(1) c(1)] by (simp add: cbdataLocked_def)
    then show ?thesis using cbdataUnlock_ok [OF i(1) c(1) l] cbdataValid_ok [OF i(1) c(1) l] c by (auto split: if_splits)
  qed
  moreover have "c_valid c" if "cb_mem s p = Some c" "h p = 0" for c
    using cb_invD(3) [OF i(1) that(1)] holders_countedD(1) [OF i(2) that(1)] that(2) by simp
  ultimately show ?thesis using i(1) by (auto simp: cb_inv_def)
qed

theorem cbdata_locked_survives_witness:
  "\<exists>s. cb_reachable s ((\<lambda>_. 0)(7 := 1)) \<and> cbdataValid s (Some 7) = Some False \<and>
    (\<exists>s'. cbdataUnlock s (Some 7) = Some s' \<and> cb_mem s' 7 = None)"
proof -
  define index where "index = [\<lparr>ci_pool = None, ci_free_func = False\<rparr>, \<lparr>ci_pool = Some (''peer'', 100), ci_free_func = True\<rparr>]"
  define s1 where "s1 = (cb_start index)\<lparr>cb_mem := [7 \<mapsto> \<lparr>c_valid = True, c_locks = 0, c_type = 1, c_y = CBDATA_COOKIE 7\<rparr>], cbdataCount := 1\<rparr>"
  define s2 where "s2 = s1\<lparr>cb_mem := [7 \<mapsto> \<lparr>c_valid = True, c_locks = 1, c_type = 1, c_y = CBDATA_COOKIE 7\<rparr>]\<rparr>"
  define s3 where "s3 = s2\<lparr>cb_mem := [7 \<mapsto> \<lparr>c_valid = False, c_locks = 1, c_type = 1, c_y = CBDATA_COOKIE 7\<rparr>]\<rparr>"
  have "cb_step (cb_start index, \<lambda>_. 0) (s1, \<lambda>_. 0)"
    by (rule step_alloc [of _ 1 7]) (simp add: cbdataInternalAlloc_def cb_start_def s1_def index_def)
  moreover have "cb_step (s1, \<lambda>_. 0) (s2, (\<lambda>_. 0)(7 := 0 + 1))"
    by (rule step_lock) (simp_all add: s1_def s2_def cbdataLock_def)
  moreover have "cb_step (s2, (\<lambda>_. 0)(7 := 1)) (s3, (\<lambda>_. 0)(7 := 1))"
    by (rule step_free [of _ 7 "\<lparr>c_valid = True, c_locks = 1, c_type = 1, c_y = CBDATA_COOKIE 7\<rparr>"])
      (simp_all add: s2_def s3_def cbdataInternalFree_def)
  ultimately have "cb_step\<^sup>*\<^sup>* (cb_start index, \<lambda>_. 0) (s3, (\<lambda>_. 0)(7 := 1))"
    by (simp add: rtranclp.rtrancl_into_rtrancl [OF rtranclp.rtrancl_into_rtrancl [OF r_into_rtranclp]])
  then have r: "cb_reachable s3 ((\<lambda>_. 0)(7 := 1))" by (auto simp: cb_reachable_def)
  show ?thesis using cbdata_locked_survives [OF r, of 7] r by (auto simp: s3_def)
qed

end
