(* ===== verification/Event.thy ===== *)
theory Event
  imports Complex_Main PtrList Cbdata
begin

section \<open>The event queue (event.c)\<close>

text \<open>
  Functions to be called at a later time are kept in a list sorted by time. \<open>eventRun\<close>, called
  once per turn of the main loop, calls the due ones in order, but none that was added during
  the same run and none behind one that has a weight. The argument of a call is callback data,
  locked while the event waits: if it became invalid, the call is left out.

  The handlers are code outside the queue; they are an argument of \<open>eventRun\<close>, as functions on
  the whole state, and may add and delete events. \<open>ev_log\<close> records in order what becomes of
  the events. The times, of type \<open>double\<close>, are reals; \<open>run_id\<close> is an \<open>int\<close> that wraps around.
\<close>

subsection \<open>State\<close>

record ev_entry =
  ev_func :: "addr option"
  ev_arg :: "addr option"
  ev_name :: string
  ev_when :: real
  ev_next :: "addr option"
  ev_weight :: int
  ev_id :: "32 word"

datatype ev_fate = Called addr | Skipped addr | Deleted addr

record 'w ev_state =
  tasks :: "addr option"
  ev_mem :: "addr \<Rightarrow> ev_entry option"
  run_id :: "32 word"
  last_event_ran :: "string option"
  current_dtime :: real
  ev_cb :: cb_state
  ev_log :: "ev_fate list"
  ev_world :: 'w

text \<open>A \<open>struct ev_entry **\<close>: the address of \<open>tasks\<close> or of the next-field of an event.\<close>

datatype ev_slot = Tasks | Next addr

definition slot_get :: "'w ev_state \<Rightarrow> ev_slot \<Rightarrow> addr option option" where
  "slot_get s E = (case E of Tasks \<Rightarrow> Some (tasks s) | Next a \<Rightarrow> map_option ev_next (ev_mem s a))"

definition slot_set :: "'w ev_state \<Rightarrow> ev_slot \<Rightarrow> addr option \<Rightarrow> 'w ev_state option" where
  "slot_set s E p =
     (case E of
        Tasks \<Rightarrow> Some (s\<lparr>tasks := p\<rparr>)
      | Next a \<Rightarrow> do { e \<leftarrow> ev_mem s a; Some (s\<lparr>ev_mem := (ev_mem s)(a \<mapsto> e\<lparr>ev_next := p\<rparr>)\<rparr>) })"

subsection \<open>Adding and deleting events\<close>

text \<open>The loop of \<open>eventAdd\<close>: the place behind the last event with the same or an earlier time.\<close>

partial_function (option) add_slot :: "'w ev_state \<Rightarrow> real \<Rightarrow> ev_slot \<Rightarrow> ev_slot option" where
  "add_slot s t E = do {
     p \<leftarrow> slot_get s E;
     case p of
       None \<Rightarrow> Some E
     | Some a \<Rightarrow> do {
         e \<leftarrow> ev_mem s a;
         if t < ev_when e then Some E else add_slot s t (Next a) } }"

definition eventAdd ::
  "'w ev_state \<Rightarrow> addr \<Rightarrow> string \<Rightarrow> addr option \<Rightarrow> addr option \<Rightarrow> real \<Rightarrow> int \<Rightarrow> 'w ev_state option" where
  "eventAdd s a name func arg when weight = do {
     c_assert (ev_mem s a = None);
     let event = \<lparr>ev_func = func, ev_arg = arg, ev_name = name, ev_when = current_dtime s + when, ev_next = None,
                  ev_weight = weight, ev_id = run_id s\<rparr>;
     cb \<leftarrow> cbdataLock (ev_cb s) arg;
     let s = s\<lparr>ev_cb := cb\<rparr>;
     E \<leftarrow> add_slot s (ev_when event) Tasks;
     p \<leftarrow> slot_get s E;
     slot_set (s\<lparr>ev_mem := (ev_mem s)(a \<mapsto> event\<lparr>ev_next := p\<rparr>)\<rparr>) E (Some a) }"

text \<open>\<open>random\<close> is the result of \<open>drand48\<close>.\<close>

definition eventAddIsh ::
  "real \<Rightarrow> 'w ev_state \<Rightarrow> addr \<Rightarrow> string \<Rightarrow> addr option \<Rightarrow> addr option \<Rightarrow> real \<Rightarrow> int \<Rightarrow> 'w ev_state option" where
  "eventAddIsh random s a name func arg delta_ish weight =
     (let delta_ish = (if 3 \<le> delta_ish then let two_third = (2 * delta_ish) / 3 in two_third + random * two_third
                       else delta_ish)
      in eventAdd s a name func arg delta_ish weight)"

text \<open>Unlinking the event at a slot, as the loops do that remove events.\<close>

definition unlink_event :: "'w ev_state \<Rightarrow> ev_slot \<Rightarrow> addr \<Rightarrow> ev_entry \<Rightarrow> 'w ev_state option" where
  "unlink_event s E a event = do {
     s \<leftarrow> slot_set s E (ev_next event);
     cb \<leftarrow> cbdataUnlock (ev_cb s) (ev_arg event);
     Some (s\<lparr>ev_cb := cb, ev_mem := (ev_mem s)(a := None), ev_log := ev_log s @ [Deleted a]\<rparr>) }"

partial_function (option) delete_loop ::
  "'w ev_state \<Rightarrow> addr option \<Rightarrow> addr option \<Rightarrow> ev_slot \<Rightarrow> 'w ev_state option option" where
  "delete_loop s func arg E = do {
     p \<leftarrow> slot_get s E;
     case p of
       None \<Rightarrow> Some None
     | Some a \<Rightarrow> do {
         event \<leftarrow> ev_mem s a;
         if ev_func event \<noteq> func then delete_loop s func arg (Next a)
         else if arg \<noteq> None \<and> ev_arg event \<noteq> arg then delete_loop s func arg (Next a)
         else do { s \<leftarrow> unlink_event s E a event; Some (Some s) } } }"

text \<open>An event that is not found is reported by \<open>debug_trap\<close>, which stops the process unless
  signals are caught.\<close>

definition eventDelete :: "bool \<Rightarrow> 'w ev_state \<Rightarrow> addr option \<Rightarrow> addr option \<Rightarrow> 'w ev_state option" where
  "eventDelete opt_catch_signals s func arg = do {
     r \<leftarrow> delete_loop s func arg Tasks;
     case r of
       Some s' \<Rightarrow> Some s'
     | None \<Rightarrow> do { c_assert (arg = None \<or> opt_catch_signals); Some s } }"

subsection \<open>Running events\<close>

text \<open>The loop of \<open>eventRun\<close>, with the weight so far.\<close>

partial_function (option) run_events ::
  "(addr \<Rightarrow> addr option \<Rightarrow> 'w ev_state \<Rightarrow> 'w ev_state option) \<Rightarrow> 'w ev_state \<Rightarrow> int \<Rightarrow> 'w ev_state option" where
  "run_events handler s weight =
     (case tasks s of
        None \<Rightarrow> Some s
      | Some a \<Rightarrow> do {
          event \<leftarrow> ev_mem s a;
          if current_dtime s < ev_when event then Some s
          else if ev_id event = run_id s then Some s
          else if weight \<noteq> 0 then Some s
          else do {
            let s = s\<lparr>ev_mem := (ev_mem s)(a \<mapsto> event\<lparr>ev_func := None, ev_arg := None\<rparr>), tasks := ev_next event\<rparr>;
            valid \<leftarrow> cbdataValid (ev_cb s) (ev_arg event);
            cb \<leftarrow> cbdataUnlock (ev_cb s) (ev_arg event);
            let s = s\<lparr>ev_cb := cb\<rparr>;
            if valid then do {
              let s = s\<lparr>last_event_ran := Some (ev_name event), ev_log := ev_log s @ [Called a]\<rparr>;
              func \<leftarrow> ev_func event;
              s \<leftarrow> handler func (ev_arg event) s;
              c_assert (ev_mem s a \<noteq> None);
              run_events handler (s\<lparr>ev_mem := (ev_mem s)(a := None)\<rparr>) (weight + ev_weight event) }
            else
              run_events handler (s\<lparr>ev_mem := (ev_mem s)(a := None), ev_log := ev_log s @ [Skipped a]\<rparr>) weight } })"

definition eventRun ::
  "(addr \<Rightarrow> addr option \<Rightarrow> 'w ev_state \<Rightarrow> 'w ev_state option) \<Rightarrow> 'w ev_state \<Rightarrow> 'w ev_state option" where
  "eventRun handler s =
     (case tasks s of
        None \<Rightarrow> Some s
      | Some a \<Rightarrow> do {
          event \<leftarrow> ev_mem s a;
          if current_dtime s < ev_when event then Some s
          else run_events handler (s\<lparr>run_id := run_id s + 1\<rparr>) 0 })"

subsection \<open>Cleaning up and queries\<close>

partial_function (option) eventCleanup_loop :: "'w ev_state \<Rightarrow> ev_slot \<Rightarrow> 'w ev_state option" where
  "eventCleanup_loop s p = do {
     q \<leftarrow> slot_get s p;
     case q of
       None \<Rightarrow> Some s
     | Some a \<Rightarrow> do {
         event \<leftarrow> ev_mem s a;
         valid \<leftarrow> cbdataValid (ev_cb s) (ev_arg event);
         if \<not> valid then do { s \<leftarrow> unlink_event s p a event; eventCleanup_loop s p }
         else eventCleanup_loop s (Next a) } }"

definition eventCleanup :: "'w ev_state \<Rightarrow> 'w ev_state option" where
  "eventCleanup s = eventCleanup_loop s Tasks"

partial_function (option) eventFreeMemory :: "'w ev_state \<Rightarrow> 'w ev_state option" where
  "eventFreeMemory s =
     (case tasks s of
        None \<Rightarrow> Some s
      | Some a \<Rightarrow> do {
          event \<leftarrow> ev_mem s a;
          s \<leftarrow> unlink_event s Tasks a event;
          eventFreeMemory s })"

text \<open>The milliseconds until the first event; \<open>None\<close> where the value does not fit an \<open>int\<close>.\<close>

definition eventNextTime :: "'w ev_state \<Rightarrow> int option" where
  "eventNextTime s =
     (case tasks s of
        None \<Rightarrow> Some 10000
      | Some a \<Rightarrow> do {
          event \<leftarrow> ev_mem s a;
          let ms = \<lceil>(ev_when event - current_dtime s) * 1000\<rceil>;
          if in_int32 ms then Some ms else None })"

partial_function (option) eventFind_loop :: "'w ev_state \<Rightarrow> addr option \<Rightarrow> addr option \<Rightarrow> addr option \<Rightarrow> bool option" where
  "eventFind_loop s p func arg =
     (case p of
        None \<Rightarrow> Some False
      | Some a \<Rightarrow> do {
          event \<leftarrow> ev_mem s a;
          if ev_func event = func \<and> ev_arg event = arg then Some True else eventFind_loop s (ev_next event) func arg })"

definition eventFind :: "'w ev_state \<Rightarrow> addr option \<Rightarrow> addr option \<Rightarrow> bool option" where
  "eventFind s func arg = eventFind_loop s (tasks s) func arg"

subsection \<open>The queue as a list of events\<close>

definition ev_nx :: "'w ev_state \<Rightarrow> addr \<Rightarrow> addr option option" where
  "ev_nx s = (\<lambda>a. map_option ev_next (ev_mem s a))"

definition ev_chain :: "'w ev_state \<Rightarrow> addr list \<Rightarrow> bool" where
  "ev_chain s as \<longleftrightarrow> chain (ev_nx s) (tasks s) as"

text \<open>The events without their links.\<close>

definition ev_data :: "'w ev_state \<Rightarrow> addr \<Rightarrow> ev_entry option" where
  "ev_data s = (\<lambda>a. map_option (\<lambda>e. e\<lparr>ev_next := None\<rparr>) (ev_mem s a))"

definition when_of :: "'w ev_state \<Rightarrow> addr \<Rightarrow> real" where
  "when_of s a = ev_when (the (ev_data s a))"

definition slot_at :: "addr list \<Rightarrow> ev_slot \<Rightarrow> bool" where
  "slot_at pre E \<longleftrightarrow> pre = [] \<and> E = Tasks \<or> pre \<noteq> [] \<and> E = Next (last pre)"

lemma slot_at_simps [simp]: "slot_at [] Tasks" "slot_at (pre @ [a]) (Next a)"
  by (simp_all add: slot_at_def)

lemma ev_data_None [simp]: "ev_data s a = None \<longleftrightarrow> ev_mem s a = None"
  by (simp add: ev_data_def)

lemma ev_chain_alloc: "ev_chain s as \<Longrightarrow> a \<in> set as \<Longrightarrow> \<exists>e. ev_mem s a = Some e"
  by (auto simp: ev_chain_def ev_nx_def dest: chain_allocated)

lemma when_of_entry: "ev_mem s a = Some e \<Longrightarrow> when_of s a = ev_when e"
  by (simp add: when_of_def ev_data_def)

lemma slot_get_at:
  assumes "ev_chain s (pre @ post)" "slot_at pre E"
  shows "\<exists>q. slot_get s E = Some q \<and> chain (ev_nx s) q post"
proof (cases pre rule: rev_cases)
  case Nil
  then show ?thesis using assms by (auto simp: slot_at_def slot_get_def ev_chain_def)
next
  case (snoc pre' b)
  then show ?thesis using assms chain_next [of "ev_nx s" "tasks s" pre' b post]
    by (auto simp: slot_at_def slot_get_def ev_chain_def ev_nx_def)
qed

text \<open>Writing a slot replaces what is behind it and nothing else.\<close>

lemma slot_set_at:
  assumes "chain (ev_nx s) (tasks s) (pre @ post)" "slot_at pre E" "chain (ev_nx s) q cs" "set pre \<inter> set cs = {}"
  shows "\<exists>s'. slot_set s E q = Some s' \<and> ev_chain s' (pre @ cs) \<and> ev_data s' = ev_data s \<and>
    s' = s\<lparr>tasks := tasks s', ev_mem := ev_mem s'\<rparr> \<and> (\<forall>x. x \<notin> set pre \<longrightarrow> ev_mem s' x = ev_mem s x)"
proof (cases pre rule: rev_cases)
  case Nil
  then show ?thesis using assms(2,3) by (auto simp: slot_at_def slot_set_def ev_chain_def ev_nx_def ev_data_def)
next
  case (snoc pre' b)
  obtain e where e: "ev_mem s b = Some e" using assms(1) snoc chain_allocated [of "ev_nx s" _ _ b] by (force simp: ev_nx_def)
  let ?s = "s\<lparr>ev_mem := (ev_mem s)(b \<mapsto> e\<lparr>ev_next := q\<rparr>)\<rparr>"
  have "ev_nx ?s = (ev_nx s)(b := Some q)" by (auto simp: ev_nx_def)
  then have "ev_chain ?s (pre @ cs)" using chain_relink [of "ev_nx s" "tasks s" pre' b post q cs] assms snoc by (simp add: ev_chain_def)
  moreover have "ev_data ?s = ev_data s" using e by (auto simp: ev_data_def)
  ultimately show ?thesis using assms(2) snoc e by (intro exI [of _ ?s]) (simp add: slot_at_def slot_set_def)
qed

lemma add_slot_ok:
  assumes "ev_chain s (pre @ post)" "slot_at pre E"
  shows "\<exists>E'. add_slot s t E = Some E' \<and> slot_at (pre @ takeWhile (\<lambda>b. when_of s b \<le> t) post) E'"
  using assms
proof (induction post arbitrary: pre E)
  case Nil
  then show ?case using slot_get_at [of s pre "[]" E] by (subst add_slot.simps) auto
next
  case (Cons b post)
  obtain q where q: "slot_get s E = Some q" "chain (ev_nx s) q (b # post)" using slot_get_at [OF Cons.prems] by auto
  obtain e where e: "ev_mem s b = Some e" using ev_chain_alloc [OF Cons.prems(1)] by auto
  show ?case
  proof (cases "ev_when e \<le> t")
    case True
    then show ?thesis using Cons.IH [of "pre @ [b]" "Next b"] Cons.prems q e
      by (subst add_slot.simps) (simp add: when_of_entry chain_Cons_iff)
  next
    case False
    then show ?thesis using Cons.prems q e by (subst add_slot.simps) (simp add: when_of_entry chain_Cons_iff)
  qed
qed

lemma delete_loop_ok:
  assumes "ev_chain s (pre @ post)" "slot_at pre E"
  shows "delete_loop s func arg E = Some None \<or> (\<exists>us a vs E' event. post = us @ a # vs \<and> slot_at (pre @ us) E' \<and>
    ev_mem s a = Some event \<and> ev_func event = func \<and> (arg = None \<or> ev_arg event = arg) \<and>
    delete_loop s func arg E = map_option Some (unlink_event s E' a event))"
  using assms
proof (induction post arbitrary: pre E)
  case Nil
  then show ?case using slot_get_at [of s pre "[]" E] by (subst delete_loop.simps) auto
next
  case (Cons b post)
  obtain q where q: "slot_get s E = Some q" "chain (ev_nx s) q (b # post)" using slot_get_at [OF Cons.prems] by auto
  obtain e where e: "ev_mem s b = Some e" using ev_chain_alloc [OF Cons.prems(1)] by auto
  show ?case
  proof (cases "ev_func e = func \<and> (arg = None \<or> ev_arg e = arg)")
    case True
    then have "delete_loop s func arg E = map_option Some (unlink_event s E b e)" using q e
      by (subst delete_loop.simps) (auto simp: chain_Cons_iff map_option_case bind_eq_Some_conv split: option.splits)
    moreover have "b # post = [] @ b # post" "slot_at (pre @ []) E" using Cons.prems(2) by simp_all
    ultimately show ?thesis using True e by blast
  next
    case False
    then have l: "delete_loop s func arg E = delete_loop s func arg (Next b)" using q e
      by (subst delete_loop.simps) (auto simp: chain_Cons_iff)
    have "ev_chain s ((pre @ [b]) @ post)" using Cons.prems(1) by simp
    from Cons.IH [OF this slot_at_simps(2)] consider "delete_loop s func arg (Next b) = Some None"
      | us a vs E' event where "post = us @ a # vs" "slot_at ((pre @ [b]) @ us) E'" "ev_mem s a = Some event"
        "ev_func event = func \<and> (arg = None \<or> ev_arg event = arg)"
        "delete_loop s func arg (Next b) = map_option Some (unlink_event s E' a event)" by blast
    then show ?thesis
    proof cases
      case (2 us a vs E' event)
      then have "b # post = (b # us) @ a # vs" "slot_at (pre @ b # us) E'" by simp_all
      with 2 l show ?thesis by metis
    qed (simp add: l)
  qed
qed

subsection \<open>Invariant\<close>

text \<open>The list is sorted by time, every event has a function and holds a lock on its argument.\<close>

definition lock_count :: "cb_state \<Rightarrow> addr \<Rightarrow> int" where
  "lock_count cb p = (case cb_mem cb p of None \<Rightarrow> 0 | Some c \<Rightarrow> c_locks c)"

definition arg_of :: "'w ev_state \<Rightarrow> addr \<Rightarrow> addr option" where
  "arg_of s a = ev_arg (the (ev_data s a))"

definition held :: "'w ev_state \<Rightarrow> addr list \<Rightarrow> addr \<Rightarrow> nat" where
  "held s as p = length (filter (\<lambda>a. arg_of s a = Some p) as)"

definition ev_inv :: "'w ev_state \<Rightarrow> addr list \<Rightarrow> bool" where
  "ev_inv s as \<longleftrightarrow> ev_chain s as \<and> sorted_wrt (\<lambda>a b. when_of s a \<le> when_of s b) as \<and>
     (\<forall>a \<in> set as. ev_func (the (ev_data s a)) \<noteq> None) \<and> cb_inv (ev_cb s) \<and>
     (\<forall>p. int (held s as p) \<le> lock_count (ev_cb s) p)"

lemma lock_count_pos: "0 < lock_count cb p \<Longrightarrow> \<exists>c. cb_mem cb p = Some c \<and> 0 < c_locks c \<and> c_locks c = lock_count cb p"
  by (auto simp: lock_count_def split: option.splits)

lemma lock_arg:
  assumes "cb_inv cb" "\<forall>p. arg = Some p \<longrightarrow> cb_mem cb p \<noteq> None"
  shows "\<exists>cb'. cbdataLock cb arg = Some cb' \<and> cb_inv cb' \<and> (\<forall>p. lock_count cb' p = lock_count cb p + (if arg = Some p then 1 else 0))"
proof (cases arg)
  case None
  then show ?thesis using assms by (simp add: cbdataLock_def)
next
  case (Some q)
  then obtain c where c: "cb_mem cb q = Some c" using assms(2) by auto
  from cbdataLock_ok [OF assms(1) c] c Some show ?thesis by (auto simp: lock_count_def)
qed

lemma unlock_arg:
  assumes "cb_inv cb" "\<forall>p. arg = Some p \<longrightarrow> 0 < lock_count cb p"
  shows "\<exists>cb'. cbdataUnlock cb arg = Some cb' \<and> cb_inv cb' \<and> (\<forall>p. lock_count cb' p = lock_count cb p - (if arg = Some p then 1 else 0)) \<and>
    (\<forall>p c. cb_mem cb p = Some c \<longrightarrow> c_valid c \<longrightarrow> (\<exists>c'. cb_mem cb' p = Some c' \<and> c_valid c'))"
proof (cases arg)
  case None
  then show ?thesis using assms by (simp add: cbdataUnlock_def)
next
  case (Some q)
  then obtain c where c: "cb_mem cb q = Some c" "0 < c_locks c" using assms(2) lock_count_pos by blast
  from cbdataUnlock_ok [OF assms(1) c] c(1) Some show ?thesis by (auto simp: lock_count_def)
qed

lemma ev_inv_held:
  assumes "ev_inv s as" "a \<in> set as" "arg_of s a = Some p"
  shows "0 < lock_count (ev_cb s) p"
proof -
  have "filter (\<lambda>a. arg_of s a = Some p) as \<noteq> []" using assms(2,3) by (auto simp: filter_empty_conv)
  then have "0 < int (held s as p)" by (simp add: held_def)
  moreover have "int (held s as p) \<le> lock_count (ev_cb s) p" using assms(1) by (simp add: ev_inv_def)
  ultimately show ?thesis by linarith
qed

lemma ev_data_cong:
  assumes "\<forall>b \<in> set as. ev_data s' b = ev_data s b"
  shows "held s' as p = held s as p"
    "sorted_wrt (\<lambda>a b. when_of s' a \<le> when_of s' b) as \<longleftrightarrow> sorted_wrt (\<lambda>a b. when_of s a \<le> when_of s b) as"
proof -
  show "held s' as p = held s as p"
    unfolding held_def by (rule arg_cong [of _ _ length], rule filter_cong) (use assms in \<open>auto simp: arg_of_def\<close>)
  have w: "when_of s' b = when_of s b" if "b \<in> set as" for b using assms that by (simp add: when_of_def)
  show "sorted_wrt (\<lambda>a b. when_of s' a \<le> when_of s' b) as \<longleftrightarrow> sorted_wrt (\<lambda>a b. when_of s a \<le> when_of s b) as"
    using sorted_wrt_mono_rel [of as "\<lambda>a b. when_of s' a \<le> when_of s' b" "\<lambda>a b. when_of s a \<le> when_of s b"]
      sorted_wrt_mono_rel [of as "\<lambda>a b. when_of s a \<le> when_of s b" "\<lambda>a b. when_of s' a \<le> when_of s' b"] w by auto
qed

lemma ev_chain_distinct: "ev_chain s as \<Longrightarrow> distinct as"
  by (auto simp: ev_chain_def dest: chain_distinct)

lemma ev_invD:
  "ev_inv s as \<Longrightarrow> ev_chain s as"
  "ev_inv s as \<Longrightarrow> distinct as"
  "ev_inv s as \<Longrightarrow> cb_inv (ev_cb s)"
  "ev_inv s as \<Longrightarrow> int (held s as p) \<le> lock_count (ev_cb s) p"
  "ev_inv s as \<Longrightarrow> sorted_wrt (\<lambda>a b. when_of s a \<le> when_of s b) as"
  unfolding ev_inv_def using ev_chain_distinct by blast+

lemma held_append [simp]: "held s (us @ vs) p = held s us p + held s vs p"
  and held_Cons [simp]: "held s (a # as) p = (if arg_of s a = Some p then 1 else 0) + held s as p"
  by (simp_all add: held_def)

text \<open>Taking an event out of the list.\<close>

lemma unlink_event_ok:
  assumes i: "ev_inv s (us @ a # vs)" and E: "slot_at us E" and e: "ev_mem s a = Some event"
  shows "\<exists>s'. unlink_event s E a event = Some s' \<and> ev_inv s' (us @ vs) \<and> ev_data s' = (ev_data s)(a := None) \<and>
    run_id s' = run_id s \<and> current_dtime s' = current_dtime s \<and> ev_log s' = ev_log s @ [Deleted a]"
proof -
  have c: "ev_chain s (us @ a # vs)" using i by (simp add: ev_inv_def)
  then have n: "chain (ev_nx s) (ev_next event) vs" using chain_next [of "ev_nx s" "tasks s" us a vs] e by (auto simp: ev_chain_def ev_nx_def)
  have d: "distinct (us @ a # vs)" using ev_chain_distinct [OF c] .
  obtain s1 where s1: "slot_set s E (ev_next event) = Some s1" "ev_chain s1 (us @ vs)" "ev_data s1 = ev_data s"
    "s1 = s\<lparr>tasks := tasks s1, ev_mem := ev_mem s1\<rparr>"
    using slot_set_at [OF c [unfolded ev_chain_def] E n] d by auto
  have f: "ev_cb s1 = ev_cb s" "run_id s1 = run_id s" "current_dtime s1 = current_dtime s" "ev_log s1 = ev_log s"
    using arg_cong [OF s1(4), of ev_cb] arg_cong [OF s1(4), of run_id] arg_cong [OF s1(4), of current_dtime] arg_cong [OF s1(4), of ev_log]
    by simp_all
  have ar: "arg_of s a = ev_arg event" using e by (simp add: arg_of_def ev_data_def)
  obtain cb where cb: "cbdataUnlock (ev_cb s) (ev_arg event) = Some cb" "cb_inv cb"
    "\<forall>p. lock_count cb p = lock_count (ev_cb s) p - (if ev_arg event = Some p then 1 else 0)"
    using unlock_arg [of "ev_cb s" "ev_arg event"] i ev_inv_held [OF i, of a] ar by (auto simp: ev_inv_def)
  let ?s = "s1\<lparr>ev_cb := cb, ev_mem := (ev_mem s1)(a := None), ev_log := ev_log s1 @ [Deleted a]\<rparr>"
  have dt: "ev_data ?s = (ev_data s)(a := None)" using s1(3) by (auto simp: ev_data_def fun_eq_iff)
  then have dc: "\<forall>b \<in> set (us @ vs). ev_data ?s b = ev_data s b" using d by auto
  have "chain (ev_nx ?s) (tasks s1) (us @ vs)"
    using s1(2) d by (auto simp: ev_chain_def ev_nx_def intro: chain_frame)
  moreover have "int (held ?s (us @ vs) p) \<le> lock_count cb p" for p
  proof -
    have "int (held s (us @ a # vs) p) \<le> lock_count (ev_cb s) p" using i by (simp add: ev_inv_def)
    then show ?thesis using cb(3) ar ev_data_cong(1) [OF dc, of p] by (auto split: if_splits)
  qed
  ultimately have "ev_inv ?s (us @ vs)" using i cb(2) ev_data_cong(2) [OF dc] dc
    unfolding ev_inv_def ev_chain_def by (simp add: sorted_wrt_append)
  then show ?thesis using s1(1) cb(1) f dt by (intro exI [of _ ?s]) (simp add: unlink_event_def)
qed

subsection \<open>Adding\<close>

lemma sorted_insert_after:
  assumes "sorted_wrt (\<lambda>a b. (f a :: real) \<le> f b) as" "f x = t"
  shows "sorted_wrt (\<lambda>a b. f a \<le> f b) (takeWhile (\<lambda>b. f b \<le> t) as @ x # dropWhile (\<lambda>b. f b \<le> t) as)"
proof -
  let ?us = "takeWhile (\<lambda>b. f b \<le> t) as" and ?vs = "dropWhile (\<lambda>b. f b \<le> t) as"
  have s: "sorted_wrt (\<lambda>a b. f a \<le> f b) (?us @ ?vs)" using assms(1) by simp
  have "\<forall>u \<in> set ?us. f u \<le> t" by (auto dest: set_takeWhileD)
  moreover have "\<forall>v \<in> set ?vs. t < f v"
  proof (cases ?vs)
    case (Cons v vs)
    then have "t < f v" using hd_dropWhile [of "\<lambda>b. f b \<le> t" as] by auto
    with s Cons show ?thesis by (auto simp: sorted_wrt_append)
  next
    case Nil
    then show ?thesis unfolding Nil by simp
  qed
  ultimately show ?thesis using s assms(2) by (force simp: sorted_wrt_append)
qed

definition new_event :: "'w ev_state \<Rightarrow> string \<Rightarrow> addr option \<Rightarrow> addr option \<Rightarrow> real \<Rightarrow> int \<Rightarrow> ev_entry" where
  "new_event s name func arg when weight = \<lparr>ev_func = func, ev_arg = arg, ev_name = name, ev_when = current_dtime s + when,
     ev_next = None, ev_weight = weight, ev_id = run_id s\<rparr>"

definition insert_event :: "'w ev_state \<Rightarrow> addr \<Rightarrow> real \<Rightarrow> addr list \<Rightarrow> addr list" where
  "insert_event s a t as = takeWhile (\<lambda>b. when_of s b \<le> t) as @ a # dropWhile (\<lambda>b. when_of s b \<le> t) as"

lemma eventAdd_ok:
  assumes i: "ev_inv s as" and a: "ev_mem s a = None" and f: "func \<noteq> None"
    and arg: "\<forall>p. arg = Some p \<longrightarrow> cb_mem (ev_cb s) p \<noteq> None"
  shows "\<exists>s'. eventAdd s a name func arg when weight = Some s' \<and> ev_inv s' (insert_event s a (current_dtime s + when) as) \<and>
    ev_data s' = (ev_data s)(a \<mapsto> new_event s name func arg when weight) \<and>
    run_id s' = run_id s \<and> current_dtime s' = current_dtime s \<and> ev_log s' = ev_log s"
proof -
  let ?t = "current_dtime s + when"
  let ?P = "\<lambda>b. when_of s b \<le> ?t"
  let ?us = "takeWhile ?P as" and ?vs = "dropWhile ?P as"
  let ?ev = "new_event s name func arg when weight"
  have c: "ev_chain s (?us @ ?vs)" using i by (simp add: ev_inv_def)
  obtain cb where cb: "cbdataLock (ev_cb s) arg = Some cb" "cb_inv cb"
    "\<forall>p. lock_count cb p = lock_count (ev_cb s) p + (if arg = Some p then 1 else 0)"
    using lock_arg [of "ev_cb s" arg] i arg by (auto simp: ev_inv_def)
  let ?s1 = "s\<lparr>ev_cb := cb\<rparr>"
  have same: "ev_nx ?s1 = ev_nx s" "ev_data ?s1 = ev_data s" "when_of ?s1 = when_of s"
    by (auto simp: ev_nx_def ev_data_def when_of_def)
  obtain E where E: "add_slot ?s1 ?t Tasks = Some E" "slot_at ?us E"
    using add_slot_ok [of ?s1 "[]" as Tasks ?t] i same by (auto simp: ev_inv_def ev_chain_def)
  obtain q where q: "slot_get ?s1 E = Some q" "chain (ev_nx s) q ?vs"
    using slot_get_at [OF _ E(2), of ?s1 ?vs] c same by (auto simp: ev_chain_def)
  have na: "a \<notin> set as" using ev_chain_alloc [of s as a] i a by (auto simp: ev_inv_def)
  let ?s2 = "?s1\<lparr>ev_mem := (ev_mem s)(a \<mapsto> ?ev\<lparr>ev_next := q\<rparr>)\<rparr>"
  have nx: "ev_nx ?s2 = (ev_nx s)(a := Some q)" by (auto simp: ev_nx_def)
  have nd: "a \<notin> set ?us" "a \<notin> set ?vs" "set ?us \<inter> set ?vs = {}"
    using na ev_chain_distinct [OF c, unfolded distinct_append] by (blast dest: set_takeWhileD set_dropWhileD)+
  have c2: "chain (ev_nx ?s2) (tasks ?s2) (?us @ ?vs)" "chain (ev_nx ?s2) (Some a) (a # ?vs)"
    using c q(2) nd na unfolding nx by (auto simp: ev_chain_def chain_Cons_iff intro!: chain_frame [of "ev_nx s"])
  obtain s' where s': "slot_set ?s2 E (Some a) = Some s'" "ev_chain s' (?us @ a # ?vs)" "ev_data s' = ev_data ?s2"
    "s' = ?s2\<lparr>tasks := tasks s', ev_mem := ev_mem s'\<rparr>"
    using slot_set_at [OF c2(1) E(2) c2(2)] nd by auto
  have fr: "ev_cb s' = cb" "run_id s' = run_id s" "current_dtime s' = current_dtime s" "ev_log s' = ev_log s"
    using arg_cong [OF s'(4), of ev_cb] arg_cong [OF s'(4), of run_id] arg_cong [OF s'(4), of current_dtime] arg_cong [OF s'(4), of ev_log]
    by simp_all
  have dt: "ev_data s' = (ev_data s)(a \<mapsto> ?ev)" using s'(3) by (auto simp: ev_data_def new_event_def fun_eq_iff)
  then have dc: "\<forall>b \<in> set as. ev_data s' b = ev_data s b" using na by auto
  have wa: "when_of s' a = ?t" "arg_of s' a = arg" using dt by (simp_all add: when_of_def arg_of_def new_event_def)
  have w: "insert_event s a ?t as = takeWhile (\<lambda>b. when_of s' b \<le> ?t) as @ a # dropWhile (\<lambda>b. when_of s' b \<le> ?t) as"
    unfolding insert_event_def using dc by (simp add: when_of_def cong: takeWhile_cong dropWhile_cong)
  have "sorted_wrt (\<lambda>a b. when_of s' a \<le> when_of s' b) (insert_event s a ?t as)"
    unfolding w using i ev_data_cong(2) [OF dc] wa by (intro sorted_insert_after) (auto simp: ev_inv_def)
  moreover have "int (held s' (insert_event s a ?t as) p) \<le> lock_count cb p" for p
  proof -
    have "held s' (?us @ ?vs) p = held s as p" using ev_data_cong(1) [OF dc] by simp
    moreover have "int (held s as p) \<le> lock_count (ev_cb s) p" using i by (simp add: ev_inv_def)
    ultimately show ?thesis using cb(3) wa unfolding insert_event_def held_append held_Cons by auto
  qed
  moreover have "ev_func (the (ev_data s' b)) \<noteq> None" if "b \<in> set (insert_event s a ?t as)" for b
    using that i f dt dc unfolding insert_event_def ev_inv_def
    by (auto simp: new_event_def dest!: set_takeWhileD set_dropWhileD)
  ultimately have "ev_inv s' (insert_event s a ?t as)" using s'(2) fr cb(2) unfolding ev_inv_def insert_event_def by blast
  moreover have "eventAdd s a name func arg when weight = Some s'"
    using a cb(1) E(1) q(1) s'(1) by (simp add: eventAdd_def new_event_def)
  ultimately show ?thesis using dt fr by blast
qed

subsection \<open>What may happen while events wait\<close>

text \<open>The steps of handlers and of the rest of the program that concern the queue: events are
  added (not in the past) and deleted, callback data are allocated, freed, locked and unlocked by
  their other holders, and time passes.\<close>

inductive ev_step :: "'w ev_state \<Rightarrow> 'w ev_state \<Rightarrow> bool" where
  ev_add: "0 \<le> when \<Longrightarrow> func \<noteq> None \<Longrightarrow> \<forall>p. arg = Some p \<longrightarrow> cb_mem (ev_cb s) p \<noteq> None \<Longrightarrow>
     eventAdd s a name func arg when weight = Some s' \<Longrightarrow> ev_step s s'"
| ev_delete: "eventDelete catch s func arg = Some s' \<Longrightarrow> ev_step s s'"
| ev_cb_alloc: "cbdataInternalAlloc (ev_cb s) t p = Some cb \<Longrightarrow> ev_step s (s\<lparr>ev_cb := cb\<rparr>)"
| ev_cb_free: "cbdataInternalFree (ev_cb s) p = Some cb \<Longrightarrow> ev_step s (s\<lparr>ev_cb := cb\<rparr>)"
| ev_cb_lock: "cbdataLock (ev_cb s) (Some p) = Some cb \<Longrightarrow> ev_step s (s\<lparr>ev_cb := cb\<rparr>)"
| ev_cb_unlock: "\<forall>as. ev_chain s as \<longrightarrow> int (held s as p) < lock_count (ev_cb s) p \<Longrightarrow>
     cbdataUnlock (ev_cb s) (Some p) = Some cb \<Longrightarrow> ev_step s (s\<lparr>ev_cb := cb\<rparr>)"
| ev_time: "current_dtime s \<le> t \<Longrightarrow> ev_step s (s\<lparr>current_dtime := t, ev_world := w\<rparr>)"

definition fin :: "addr \<Rightarrow> ev_fate list \<Rightarrow> bool" where
  "fin a l \<longleftrightarrow> Called a \<in> set l \<or> Skipped a \<in> set l \<or> Deleted a \<in> set l"

definition due :: "'w ev_state \<Rightarrow> addr list \<Rightarrow> addr \<Rightarrow> nat \<Rightarrow> bool" where
  "due s as a j \<longleftrightarrow> j < length as \<and> as ! j = a \<and> when_of s a \<le> current_dtime s"

text \<open>Due events come no later: each keeps its place, with the same first event, or moves forward, or is finished.\<close>

definition follows :: "'w ev_state \<Rightarrow> addr list \<Rightarrow> 'w ev_state \<Rightarrow> addr list \<Rightarrow> bool" where
  "follows s as s' as' \<longleftrightarrow> current_dtime s \<le> current_dtime s' \<and> (\<exists>l. ev_log s' = ev_log s @ l \<and>
     (\<forall>a j. due s as a j \<longrightarrow> fin a l \<or>
       (\<exists>j'. due s' as' a j' \<and> (j' < j \<or> j' = j \<and> ev_data s' (hd as') = ev_data s (hd as)))))"

definition old_events :: "'w ev_state \<Rightarrow> addr list \<Rightarrow> nat" where
  "old_events s as = length (filter (\<lambda>b. ev_id (the (ev_data s b)) \<noteq> run_id s) as)"

definition keeps :: "'w ev_state \<Rightarrow> addr list \<Rightarrow> 'w ev_state \<Rightarrow> addr list \<Rightarrow> bool" where
  "keeps s as s' as' \<longleftrightarrow> run_id s' = run_id s \<and> old_events s' as' \<le> old_events s as \<and>
     (\<forall>x. ev_mem s x \<noteq> None \<longrightarrow> x \<notin> set as \<longrightarrow> ev_mem s' x \<noteq> None \<and> x \<notin> set as')"

lemma fin_append [simp]: "fin a (l @ l') \<longleftrightarrow> fin a l \<or> fin a l'"
  by (auto simp: fin_def)

lemma follows_refl: "follows s as s as"
  by (auto simp: follows_def)

lemma follows_trans:
  assumes "follows s as s1 as1" "follows s1 as1 s2 as2"
  shows "follows s as s2 as2"
proof -
  obtain l1 where l1: "ev_log s1 = ev_log s @ l1" "\<And>a j. due s as a j \<Longrightarrow> fin a l1 \<or>
       (\<exists>j'. due s1 as1 a j' \<and> (j' < j \<or> j' = j \<and> ev_data s1 (hd as1) = ev_data s (hd as)))"
    using assms(1) by (auto simp: follows_def)
  obtain l2 where l2: "ev_log s2 = ev_log s1 @ l2" "\<And>a j. due s1 as1 a j \<Longrightarrow> fin a l2 \<or>
       (\<exists>j'. due s2 as2 a j' \<and> (j' < j \<or> j' = j \<and> ev_data s2 (hd as2) = ev_data s1 (hd as1)))"
    using assms(2) by (auto simp: follows_def)
  have "fin a (l1 @ l2) \<or> (\<exists>j'. due s2 as2 a j' \<and> (j' < j \<or> j' = j \<and> ev_data s2 (hd as2) = ev_data s (hd as)))"
    if d: "due s as a j" for a j
  proof (cases "fin a (l1 @ l2)")
    case False
    then obtain j1 where j1: "due s1 as1 a j1" "j1 < j \<or> j1 = j \<and> ev_data s1 (hd as1) = ev_data s (hd as)" using l1(2) [OF d] by auto
    then obtain j2 where "due s2 as2 a j2" "j2 < j1 \<or> j2 = j1 \<and> ev_data s2 (hd as2) = ev_data s1 (hd as1)"
      using l2(2) [OF j1(1)] False by auto
    then show ?thesis using j1(2) by auto
  qed simp
  then show ?thesis using assms(1,2) l1(1) l2(1) unfolding follows_def by (intro conjI exI [of _ "l1 @ l2"]) simp_all
qed

lemma keeps_trans: "keeps s as s1 as1 \<Longrightarrow> keeps s1 as1 s2 as2 \<Longrightarrow> keeps s as s2 as2"
  by (auto simp: keeps_def)

text \<open>Steps that leave the list alone.\<close>

lemma cb_only_step:
  assumes "ev_inv s as" "cb_inv cb" "\<And>p. int (held s as p) \<le> lock_count cb p"
  shows "ev_inv (s\<lparr>ev_cb := cb\<rparr>) as \<and> follows s as (s\<lparr>ev_cb := cb\<rparr>) as \<and> keeps s as (s\<lparr>ev_cb := cb\<rparr>) as"
proof -
  let ?s = "s\<lparr>ev_cb := cb\<rparr>"
  have same: "ev_nx ?s = ev_nx s" "ev_data ?s = ev_data s" "when_of ?s = when_of s" "arg_of ?s = arg_of s"
    by (auto simp: ev_nx_def ev_data_def when_of_def arg_of_def fun_eq_iff)
  then have "held ?s = held s" "due ?s = due s" by (auto simp: held_def due_def fun_eq_iff)
  with same assms show ?thesis by (auto simp: ev_inv_def ev_chain_def follows_def keeps_def old_events_def)
qed

lemma delete_step:
  assumes "ev_inv s (us @ a # vs)" "ev_inv s' (us @ vs)" "ev_data s' = (ev_data s)(a := None)" "run_id s' = run_id s"
    "current_dtime s' = current_dtime s" "ev_log s' = ev_log s @ [Deleted a]"
  shows "follows s (us @ a # vs) s' (us @ vs) \<and> keeps s (us @ a # vs) s' (us @ vs)"
proof -
  let ?as = "us @ a # vs"
  have d: "distinct ?as" using ev_invD(2) [OF assms(1)] .
  have "fin b [Deleted a] \<or> (\<exists>j'. due s' (us @ vs) b j' \<and> (j' < j \<or> j' = j \<and> ev_data s' (hd (us @ vs)) = ev_data s (hd ?as)))"
    if b: "due s ?as b j" for b j
  proof (cases "b = a")
    case False
    then have w: "when_of s' b = when_of s b" using assms(3) by (simp add: when_of_def)
    have nj: "j \<noteq> length us" using b False by (auto simp: due_def)
    show ?thesis
    proof (cases "j < length us")
      case True
      then have "us \<noteq> []" by auto
      moreover have "hd us \<noteq> a" using d \<open>us \<noteq> []\<close> by (metis hd_in_set disjoint_iff distinct_append list.set_intros(1))
      ultimately show ?thesis using True b w assms(3,5) by (intro disjI2 exI [of _ j]) (auto simp: due_def nth_append)
    next
      case False
      then obtain k where k: "j = Suc (length us + k)" using nj by (metis less_iff_Suc_add linorder_neqE_nat)
      then have "due s' (us @ vs) b (length us + k)" using b w assms(5) by (auto simp: due_def nth_append)
      then show ?thesis using k by auto
    qed
  qed (simp add: fin_def)
  then have "follows s ?as s' (us @ vs)" using assms(5,6) by (auto simp: follows_def)
  moreover have "keeps s ?as s' (us @ vs)"
  proof -
    have "\<forall>b \<in> set (us @ vs). ev_data s' b = ev_data s b" using d assms(3) by auto
    then have "filter (\<lambda>b. ev_id (the (ev_data s' b)) \<noteq> run_id s') (us @ vs) = filter (\<lambda>b. ev_id (the (ev_data s b)) \<noteq> run_id s) (us @ vs)"
      using assms(4) by (intro filter_cong) auto
    moreover have "ev_mem s' x \<noteq> None" if "x \<notin> set ?as" "ev_mem s x \<noteq> None" for x
      using that assms(3) by (metis ev_data_None fun_upd_other in_set_conv_decomp)
    ultimately show ?thesis using assms(4) by (auto simp: keeps_def old_events_def)
  qed
  ultimately show ?thesis ..
qed

lemma eventDelete_ok:
  assumes "ev_inv s as" "eventDelete catch s func arg = Some s'"
  shows "\<exists>as'. ev_inv s' as' \<and> follows s as s' as' \<and> keeps s as s' as'"
proof -
  have "ev_chain s ([] @ as)" using assms(1) by (simp add: ev_inv_def)
  from delete_loop_ok [OF this slot_at_simps(1), of func arg] consider "delete_loop s func arg Tasks = Some None"
    | us a vs E event where "as = us @ a # vs" "slot_at us E" "ev_mem s a = Some event"
      "delete_loop s func arg Tasks = map_option Some (unlink_event s E a event)" by auto
  then show ?thesis
  proof cases
    case 1
    then show ?thesis using assms by (auto simp: eventDelete_def bind_eq_Some_conv follows_refl keeps_def)
  next
    case (2 us a vs E event)
    from unlink_event_ok [OF assms(1) [unfolded 2(1)] 2(2,3)] obtain s1 where s1: "unlink_event s E a event = Some s1"
      "ev_inv s1 (us @ vs)" "ev_data s1 = (ev_data s)(a := None)" "run_id s1 = run_id s" "current_dtime s1 = current_dtime s"
      "ev_log s1 = ev_log s @ [Deleted a]" by auto
    moreover have "s' = s1" using assms(2) 2(4) s1(1) by (simp add: eventDelete_def)
    ultimately show ?thesis using delete_step [OF assms(1) [unfolded 2(1)] s1(2-6)] 2(1) by blast
  qed
qed

lemma insert_event_due:
  assumes "ev_inv s as" "due s as b j" "current_dtime s \<le> t"
  shows "insert_event s a t as ! j = b \<and> j < length (insert_event s a t as) \<and> hd (insert_event s a t as) = hd as"
proof -
  let ?P = "\<lambda>b. when_of s b \<le> t"
  have j: "j < length as" "as ! j = b" "when_of s b \<le> t" using assms(2,3) by (auto simp: due_def)
  have "when_of s (as ! k) \<le> t" if "k \<le> j" for k
  proof (cases "k = j")
    case False
    then have "when_of s (as ! k) \<le> when_of s (as ! j)" using ev_invD(5) [OF assms(1)] that j(1) by (auto simp: sorted_wrt_iff_nth_less)
    then show ?thesis using j by simp
  qed (use j in simp)
  then have "\<not> length (takeWhile ?P as) \<le> j" using nth_length_takeWhile [of ?P as] j(1) by (meson le_less_trans linorder_not_le)
  then have l: "j < length (takeWhile ?P as)" by simp
  moreover have "takeWhile ?P as ! j = b" using takeWhile_nth [OF l] j(2) by simp
  moreover have "hd (takeWhile ?P as) = hd as" using l by (cases as) (auto split: if_splits)
  moreover have "takeWhile ?P as \<noteq> []" using l by auto
  ultimately show ?thesis by (auto simp: insert_event_def nth_append)
qed

lemma eventAdd_step:
  assumes i: "ev_inv s as" and w: "0 \<le> when" "func \<noteq> None" "\<forall>p. arg = Some p \<longrightarrow> cb_mem (ev_cb s) p \<noteq> None"
    and e: "eventAdd s a name func arg when weight = Some s'"
  shows "\<exists>as'. ev_inv s' as' \<and> follows s as s' as' \<and> keeps s as s' as'"
proof -
  have a: "ev_mem s a = None" using e by (auto simp: eventAdd_def bind_eq_Some_conv)
  let ?as = "insert_event s a (current_dtime s + when) as"
  have s': "ev_inv s' ?as" "ev_data s' = (ev_data s)(a \<mapsto> new_event s name func arg when weight)" "run_id s' = run_id s"
    "current_dtime s' = current_dtime s" "ev_log s' = ev_log s"
    using eventAdd_ok [OF i a w(2,3), of name "when" weight] e by auto
  have na: "a \<notin> set as" using ev_chain_alloc [OF ev_invD(1) [OF i], of a] a by auto
  have "\<exists>j'. due s' ?as b j' \<and> (j' < j \<or> j' = j \<and> ev_data s' (hd ?as) = ev_data s (hd as))" if d: "due s as b j" for b j
  proof -
    have b: "b \<in> set as" using d by (auto simp: due_def)
    then have "hd as \<in> set as" by (cases as) auto
    with b have "b \<noteq> a" "hd as \<noteq> a" using na by auto
    then show ?thesis using insert_event_due [OF i d, of "current_dtime s + when" a] w(1) d s'
      by (intro exI [of _ j]) (auto simp: due_def when_of_def)
  qed
  then have "follows s as s' ?as" using s' by (auto simp: follows_def)
  moreover have "keeps s as s' ?as"
  proof -
    have "filter (\<lambda>b. ev_id (the (ev_data s' b)) \<noteq> run_id s') as = filter (\<lambda>b. ev_id (the (ev_data s b)) \<noteq> run_id s) as"
      using na s'(2,3) by (intro filter_cong) auto
    moreover have "filter P ?as = filter P as" if "\<not> P a" for P
    proof -
      have "filter P ?as = filter P (takeWhile (\<lambda>b. when_of s b \<le> current_dtime s + when) as @ dropWhile (\<lambda>b. when_of s b \<le> current_dtime s + when) as)"
        using that by (simp add: insert_event_def del: takeWhile_dropWhile_id)
      then show ?thesis by simp
    qed
    moreover have "\<not> ev_id (the (ev_data s' a)) \<noteq> run_id s'" using s'(2,3) by (simp add: new_event_def)
    moreover have "ev_mem s' x \<noteq> None \<and> x \<notin> set ?as" if "ev_mem s x \<noteq> None" "x \<notin> set as" for x
    proof -
      have "x \<noteq> a" using that a by auto
      then have "ev_data s' x = ev_data s x" using s'(2) by simp
      then have "ev_mem s' x \<noteq> None" using that(1) ev_data_None by metis
      then show ?thesis using that(2) \<open>x \<noteq> a\<close> by (auto simp: insert_event_def dest: set_takeWhileD set_dropWhileD)
    qed
    ultimately show ?thesis using s'(3) by (simp add: keeps_def old_events_def)
  qed
  ultimately show ?thesis using s'(1) by blast
qed

lemma ev_step_ok:
  assumes "ev_step s s'" "ev_inv s as"
  shows "\<exists>as'. ev_inv s' as' \<and> follows s as s' as' \<and> keeps s as s' as'"
  using assms(1)
proof cases
  case (ev_add "when" func arg a name weight)
  then show ?thesis using eventAdd_step [OF assms(2)] by blast
next
  case (ev_delete catch func arg)
  then show ?thesis using eventDelete_ok [OF assms(2)] by blast
next
  case (ev_cb_alloc t p cb)
  have "lock_count cb q = lock_count (ev_cb s) q" "cb_inv cb" for q
    using cbdataInternalAlloc_ok [OF ev_invD(3) [OF assms(2)] ev_cb_alloc(2)] by (auto simp: lock_count_def)
  then show ?thesis using cb_only_step [OF assms(2)] ev_invD(4) [OF assms(2)] ev_cb_alloc(1) by metis
next
  case (ev_cb_free p cb)
  then obtain c where c: "cb_mem (ev_cb s) p = Some c" "c_valid c" by (auto simp: cbdataInternalFree_def bind_eq_Some_conv)
  have "lock_count cb q = lock_count (ev_cb s) q" "cb_inv cb" for q
    using cbdataInternalFree_ok [OF ev_invD(3) [OF assms(2)] c] ev_cb_free(2) c by (auto simp: lock_count_def)
  then show ?thesis using cb_only_step [OF assms(2)] ev_invD(4) [OF assms(2)] ev_cb_free(1) by metis
next
  case (ev_cb_lock p cb)
  then have "cb_mem (ev_cb s) p \<noteq> None" by (auto simp: cbdataLock_def bind_eq_Some_conv)
  then have "lock_count (ev_cb s) q \<le> lock_count cb q" "cb_inv cb" for q
    using lock_arg [OF ev_invD(3) [OF assms(2)], of "Some p"] ev_cb_lock(2) by auto
  then show ?thesis using cb_only_step [OF assms(2)] ev_invD(4) [OF assms(2)] ev_cb_lock(1) by (metis order_trans)
next
  case (ev_cb_unlock p cb)
  then have p: "int (held s as p) < lock_count (ev_cb s) p" using ev_invD(1) [OF assms(2)] by blast
  then have "int (held s as q) \<le> lock_count cb q" "cb_inv cb" for q
    using unlock_arg [OF ev_invD(3) [OF assms(2)], of "Some p"] ev_cb_unlock(3) ev_invD(4) [OF assms(2), of q] by auto
  then show ?thesis using cb_only_step [OF assms(2)] ev_cb_unlock(1) by metis
next
  case (ev_time t w)
  have same: "ev_nx s' = ev_nx s" "ev_data s' = ev_data s" "when_of s' = when_of s" "arg_of s' = arg_of s"
    unfolding ev_time(1) by (auto simp: ev_nx_def ev_data_def when_of_def arg_of_def fun_eq_iff)
  then have "held s' = held s" by (auto simp: held_def fun_eq_iff)
  then have "ev_inv s' as" "keeps s as s' as" using same assms(2) unfolding ev_time(1)
    by (simp_all add: ev_inv_def ev_chain_def keeps_def old_events_def)
  moreover have "due s' as a j" if "due s as a j" for a j using that same ev_time by (auto simp: due_def)
  then have "follows s as s' as" using same ev_time by (auto simp: follows_def)
  ultimately show ?thesis by blast
qed

lemma ev_steps_ok:
  assumes "ev_step\<^sup>*\<^sup>* s s'" "ev_inv s as"
  shows "\<exists>as'. ev_inv s' as' \<and> follows s as s' as' \<and> keeps s as s' as'"
  using assms
proof (induction rule: rtranclp_induct)
  case base
  then show ?case using follows_refl by (auto simp: keeps_def)
next
  case (step s1 s2)
  then obtain as1 where as1: "ev_inv s1 as1" "follows s as s1 as1" "keeps s as s1 as1" by auto
  obtain as2 where "ev_inv s2 as2" "follows s1 as1 s2 as2" "keeps s1 as1 s2 as2" using ev_step_ok [OF step.hyps(2) as1(1)] by auto
  then show ?case using as1 follows_trans keeps_trans by blast
qed

subsection \<open>Running\<close>

text \<open>What \<open>eventRun\<close> needs of the handlers: called with valid data on a well-formed queue, a handler
  returns, and it touches the queue by the steps above only.\<close>

definition valid_arg :: "cb_state \<Rightarrow> addr option \<Rightarrow> bool" where
  "valid_arg cb arg \<longleftrightarrow> (case arg of None \<Rightarrow> True | Some p \<Rightarrow> (case cb_mem cb p of None \<Rightarrow> False | Some c \<Rightarrow> c_valid c))"

definition handler_ok :: "(addr \<Rightarrow> addr option \<Rightarrow> 'w ev_state \<Rightarrow> 'w ev_state option) \<Rightarrow> bool" where
  "handler_ok h \<longleftrightarrow> (\<forall>f arg s as. ev_inv s as \<longrightarrow> valid_arg (ev_cb s) arg \<longrightarrow> (\<exists>s'. h f arg s = Some s' \<and> ev_step\<^sup>*\<^sup>* s s'))"

text \<open>Every due event but the first moves forward.\<close>

definition advances :: "'w ev_state \<Rightarrow> addr list \<Rightarrow> 'w ev_state \<Rightarrow> addr list \<Rightarrow> bool" where
  "advances s as s' as' \<longleftrightarrow> current_dtime s \<le> current_dtime s' \<and> (\<exists>l. ev_log s' = ev_log s @ l \<and>
     (\<forall>a j. due s as a j \<longrightarrow> fin a l \<or> (\<exists>j' < j. due s' as' a j')))"

lemma advances_follows: "advances s as s1 as1 \<Longrightarrow> follows s1 as1 s2 as2 \<Longrightarrow> advances s as s2 as2"
  unfolding advances_def follows_def by (elim conjE exE, intro conjI exI) (auto, (metis less_trans)+)

lemma advances_imp_follows: "advances s as s' as' \<Longrightarrow> follows s as s' as'"
  unfolding advances_def follows_def by blast

lemma held_mono: "held s as p \<le> held s (a # as) p"
  by simp

text \<open>Taking the first event off the list, its lock dropped.\<close>

lemma pop_event:
  assumes i: "ev_inv s (a # as)" and e: "ev_mem s a = Some event"
    and s0: "s0 = s\<lparr>ev_mem := (ev_mem s)(a \<mapsto> event\<lparr>ev_func := None, ev_arg := None\<rparr>), tasks := ev_next event\<rparr>"
  shows "\<exists>valid cb. cbdataValid (ev_cb s) (ev_arg event) = Some valid \<and> cbdataUnlock (ev_cb s) (ev_arg event) = Some cb \<and>
    (valid \<longrightarrow> valid_arg cb (ev_arg event)) \<and> ev_inv (s0\<lparr>ev_cb := cb\<rparr>) as \<and> old_events (s0\<lparr>ev_cb := cb\<rparr>) as \<le> old_events s as \<and>
    (\<forall>b \<in> set as. when_of (s0\<lparr>ev_cb := cb\<rparr>) b = when_of s b)"
proof -
  have ar: "arg_of s a = ev_arg event" using e by (simp add: arg_of_def ev_data_def)
  have l: "\<forall>p. ev_arg event = Some p \<longrightarrow> 0 < lock_count (ev_cb s) p" using ev_inv_held [OF i, of a] ar by auto
  obtain cb where cb: "cbdataUnlock (ev_cb s) (ev_arg event) = Some cb" "cb_inv cb"
    "\<forall>p. lock_count cb p = lock_count (ev_cb s) p - (if ev_arg event = Some p then 1 else 0)"
    "\<forall>p c. cb_mem (ev_cb s) p = Some c \<longrightarrow> c_valid c \<longrightarrow> (\<exists>c'. cb_mem cb p = Some c' \<and> c_valid c')"
    using unlock_arg [OF ev_invD(3) [OF i] l] by auto
  have v: "\<exists>valid. cbdataValid (ev_cb s) (ev_arg event) = Some valid \<and> (valid \<longrightarrow> valid_arg cb (ev_arg event))"
  proof (cases "ev_arg event")
    case None
    then show ?thesis by (intro exI [of _ True]) (simp add: cbdataValid_def valid_arg_def)
  next
    case (Some p)
    then obtain c where c: "cb_mem (ev_cb s) p = Some c" "0 < c_locks c" using l lock_count_pos by blast
    then show ?thesis using cbdataValid_ok [OF ev_invD(3) [OF i] c] cb(4) [rule_format, OF c(1)] Some by (auto simp: valid_arg_def)
  qed
  let ?s = "s0\<lparr>ev_cb := cb\<rparr>"
  have d: "a \<notin> set as" using ev_invD(2) [OF i] by simp
  then have dc: "\<forall>b \<in> set as. ev_data ?s b = ev_data s b" by (auto simp: s0 ev_data_def)
  have "chain (ev_nx s) (ev_next event) as" using ev_invD(1) [OF i] e by (auto simp: ev_chain_def chain_Cons_iff ev_nx_def)
  then have c: "ev_chain ?s as" using d by (auto simp: ev_chain_def s0 ev_nx_def elim!: chain_frame)
  have "int (held ?s as p) \<le> lock_count cb p" for p
    using ev_invD(4) [OF i, of p] cb(3) ar ev_data_cong(1) [OF dc, of p] by (auto split: if_splits)
  moreover have "sorted_wrt (\<lambda>a b. when_of ?s a \<le> when_of ?s b) as" using ev_data_cong(2) [OF dc] ev_invD(5) [OF i] by simp
  moreover have "\<forall>b \<in> set as. ev_func (the (ev_data ?s b)) \<noteq> None" using i dc by (simp add: ev_inv_def)
  ultimately have "ev_inv ?s as" using c cb(2) unfolding ev_inv_def by simp
  moreover have "old_events ?s as = old_events s as"
    unfolding old_events_def by (rule arg_cong [of _ _ length], rule filter_cong) (use dc in \<open>auto simp: s0\<close>)
  moreover have "\<forall>b \<in> set as. when_of ?s b = when_of s b" using dc by (simp add: when_of_def)
  ultimately show ?thesis using v cb(1) by auto
qed

lemma free_unqueued:
  assumes "ev_inv s as" "a \<notin> set as" "s' = s\<lparr>ev_mem := (ev_mem s)(a := None), ev_log := ev_log s @ l\<rparr>"
  shows "ev_inv s' as \<and> old_events s' as = old_events s as \<and> (\<forall>b j. due s as b j \<longrightarrow> due s' as b j)"
proof -
  have dc: "\<forall>b \<in> set as. ev_data s' b = ev_data s b" using assms(2,3) by (auto simp: ev_data_def)
  have "ev_chain s' as" using ev_invD(1) [OF assms(1)] assms(2,3) by (auto simp: ev_chain_def ev_nx_def elim!: chain_frame)
  then have "ev_inv s' as" using assms(1,3) ev_data_cong [OF dc] dc by (simp add: ev_inv_def)
  moreover have "old_events s' as = old_events s as"
    unfolding old_events_def by (rule arg_cong [of _ _ length], rule filter_cong) (use dc assms(3) in auto)
  moreover have "due s' as b j" if "due s as b j" for b j
    using that dc assms(3) by (auto simp: due_def when_of_def)
  ultimately show ?thesis by blast
qed

text \<open>One turn of the loop.\<close>

lemma run_first:
  assumes i: "ev_inv s (a # as)" and h: "handler_ok h" and d: "due s (a # as) a 0" and n: "ev_id (the (ev_data s a)) \<noteq> run_id s"
  shows "\<exists>s' as' w. run_events h s 0 = run_events h s' w \<and> ev_inv s' as' \<and> advances s (a # as) s' as' \<and> run_id s' = run_id s \<and>
    old_events s' as' < old_events s (a # as)"
proof -
  obtain event where e: "ev_mem s a = Some event" using ev_chain_alloc [OF ev_invD(1) [OF i], of a] by auto
  have t: "tasks s = Some a" using ev_invD(1) [OF i] by (simp add: ev_chain_def chain_Cons_iff)
  have g: "\<not> current_dtime s < ev_when event" "ev_id event \<noteq> run_id s" using d n e by (auto simp: due_def when_of_def ev_data_def)
  have f: "ev_func event \<noteq> None" using i e by (simp add: ev_inv_def ev_data_def)
  define s0 where "s0 = s\<lparr>ev_mem := (ev_mem s)(a \<mapsto> event\<lparr>ev_func := None, ev_arg := None\<rparr>), tasks := ev_next event\<rparr>"
  from pop_event [OF i e s0_def] obtain valid cb where p: "cbdataValid (ev_cb s) (ev_arg event) = Some valid"
    "cbdataUnlock (ev_cb s) (ev_arg event) = Some cb" "valid \<Longrightarrow> valid_arg cb (ev_arg event)" "ev_inv (s0\<lparr>ev_cb := cb\<rparr>) as"
    "old_events (s0\<lparr>ev_cb := cb\<rparr>) as \<le> old_events s as" "\<forall>b \<in> set as. when_of (s0\<lparr>ev_cb := cb\<rparr>) b = when_of s b" by auto
  have na: "a \<notin> set as" using ev_invD(2) [OF i] by simp
  have o: "old_events s (a # as) = Suc (old_events s as)" using n by (simp add: old_events_def)
  define s1 where "s1 = s0\<lparr>ev_cb := cb\<rparr>"
  have s1: "ev_log s1 = ev_log s" "run_id s1 = run_id s" "current_dtime s1 = current_dtime s" "ev_mem s1 a \<noteq> None"
    by (simp_all add: s1_def s0_def)
  have tail: "due s1 as b (j - 1) \<and> 0 < j" if "due s (a # as) b j" "b \<noteq> a" for b j
    using that p(6) s1 by (cases j) (auto simp: due_def s1_def)
  show ?thesis
  proof (cases valid)
    case False
    define s' where "s' = s1\<lparr>ev_mem := (ev_mem s1)(a := None), ev_log := ev_log s1 @ [Skipped a]\<rparr>"
    have r: "run_events h s 0 = run_events h s' 0"
      using t e g p False by (subst run_events.simps) (simp add: s'_def s1_def s0_def Let_def)
    have fr: "ev_inv s' as" "old_events s' as = old_events s1 as" "\<And>b j. due s1 as b j \<Longrightarrow> due s' as b j"
      using free_unqueued [OF p(4) na, folded s1_def, OF s'_def] by auto
    have "advances s (a # as) s' as"
      unfolding advances_def
    proof (intro conjI exI allI impI)
      show "ev_log s' = ev_log s @ [Skipped a]" "current_dtime s \<le> current_dtime s'" using s1 by (simp_all add: s'_def)
      show "fin b [Skipped a] \<or> (\<exists>j' < j. due s' as b j')" if "due s (a # as) b j" for b j
        using tail [OF that] fr(3) by (cases "b = a") (auto simp: fin_def intro!: exI [of _ "j - 1"])
    qed
    then show ?thesis using r fr(1,2) p(5) o s1 by (intro exI [of _ s'] exI [of _ as] exI [of _ 0]) (simp add: s'_def s1_def)
  next
    case True
    define s2 where "s2 = s1\<lparr>last_event_ran := Some (ev_name event), ev_log := ev_log s1 @ [Called a]\<rparr>"
    have same: "ev_nx s2 = ev_nx s1" "ev_data s2 = ev_data s1" "when_of s2 = when_of s1" "arg_of s2 = arg_of s1"
      by (auto simp: s2_def ev_nx_def ev_data_def when_of_def arg_of_def fun_eq_iff)
    then have "held s2 = held s1" by (auto simp: held_def fun_eq_iff)
    then have i2: "ev_inv s2 as" "old_events s2 as = old_events s1 as" "\<And>b j. due s1 as b j \<Longrightarrow> due s2 as b j"
      using same p(4) by (simp_all add: ev_inv_def ev_chain_def old_events_def due_def s1_def [symmetric]) (simp_all add: s2_def)
    obtain s3 where s3: "h (the (ev_func event)) (ev_arg event) s2 = Some s3" "ev_step\<^sup>*\<^sup>* s2 s3"
      using h i2(1) p(3) [OF True] by (force simp: handler_ok_def s2_def s1_def)
    obtain as' where as': "ev_inv s3 as'" "follows s2 as s3 as'" "keeps s2 as s3 as'" using ev_steps_ok [OF s3(2) i2(1)] by auto
    have a3: "ev_mem s3 a \<noteq> None" "a \<notin> set as'" "run_id s3 = run_id s" "old_events s3 as' \<le> old_events s2 as"
      using as'(3) s1(2,4) na by (auto simp: keeps_def s2_def)
    define s' where "s' = s3\<lparr>ev_mem := (ev_mem s3)(a := None), ev_log := ev_log s3 @ []\<rparr>"
    have r: "run_events h s 0 = run_events h s' (ev_weight event)"
      using t e g p(1,2) True f s3(1) a3(1) by (subst run_events.simps) (auto simp: s'_def s2_def s1_def s0_def Let_def)
    have fr: "ev_inv s' as'" "old_events s' as' = old_events s3 as'" "\<And>b j. due s3 as' b j \<Longrightarrow> due s' as' b j"
      using free_unqueued [OF as'(1) a3(2) s'_def] by auto
    obtain l where l: "ev_log s3 = ev_log s2 @ l" "current_dtime s2 \<le> current_dtime s3"
      "\<And>b j. due s2 as b j \<Longrightarrow> fin b l \<or> (\<exists>j' \<le> j. due s3 as' b j')"
      using as'(2) unfolding follows_def by (elim conjE exE) (metis order_less_imp_le order_refl)
    have "advances s (a # as) s' as'"
      unfolding advances_def
    proof (intro conjI exI allI impI)
      show "ev_log s' = ev_log s @ ([Called a] @ l)" "current_dtime s \<le> current_dtime s'" using s1 l by (simp_all add: s'_def s2_def)
      show "fin b ([Called a] @ l) \<or> (\<exists>j' < j. due s' as' b j')" if b: "due s (a # as) b j" for b j
      proof (cases "b = a")
        case False
        then have "due s2 as b (j - 1)" "0 < j" using tail [OF b] i2(3) by auto
        then show ?thesis using l(3) fr(3) by (metis fin_append One_nat_def Suc_pred le_imp_less_Suc)
      qed (simp add: fin_def)
    qed
    then show ?thesis using r fr(1,2) p(5) o a3 i2(2)
      by (intro exI [of _ s'] exI [of _ as'] exI [of _ "ev_weight event"]) (simp add: s'_def s1_def [symmetric])
  qed
qed

lemma run_stops:
  assumes "ev_inv s as" "\<not> (as \<noteq> [] \<and> due s as (hd as) 0 \<and> ev_id (the (ev_data s (hd as))) \<noteq> run_id s \<and> w = 0)"
  shows "run_events h s w = Some s"
proof (cases as)
  case Nil
  then show ?thesis using ev_invD(1) [OF assms(1)] by (subst run_events.simps) (simp add: ev_chain_def)
next
  case (Cons a as')
  then obtain e where "ev_mem s a = Some e" using ev_chain_alloc [OF ev_invD(1) [OF assms(1)], of a] by auto
  moreover have "tasks s = Some a" using ev_invD(1) [OF assms(1)] Cons by (simp add: ev_chain_def chain_Cons_iff)
  ultimately show ?thesis using assms(2) Cons by (subst run_events.simps) (auto simp: due_def when_of_def ev_data_def not_less)
qed

lemma run_events_ok:
  assumes "ev_inv s as" "handler_ok h"
  shows "\<exists>s' as'. run_events h s w = Some s' \<and> ev_inv s' as' \<and> follows s as s' as' \<and> run_id s' = run_id s"
  using assms(1)
proof (induction "old_events s as" arbitrary: s as w rule: less_induct)
  case less
  show ?case
  proof (cases "as \<noteq> [] \<and> due s as (hd as) 0 \<and> ev_id (the (ev_data s (hd as))) \<noteq> run_id s \<and> w = 0")
    case False
    then show ?thesis using run_stops [OF less.prems] less.prems follows_refl by blast
  next
    case True
    then obtain a as0 where as: "as = a # as0" by (cases as) auto
    with run_first [of s a as0 h] True less.prems assms(2) obtain s1 as1 w1 where s1: "run_events h s 0 = run_events h s1 w1"
      "ev_inv s1 as1" "advances s as s1 as1" "run_id s1 = run_id s" "old_events s1 as1 < old_events s as" by auto
    from less.hyps [OF s1(5,2), of w1] obtain s2 as2 where "run_events h s1 w1 = Some s2" "ev_inv s2 as2" "follows s1 as1 s2 as2" "run_id s2 = run_id s1" by auto
    then show ?thesis using True s1 follows_trans [OF advances_imp_follows [OF s1(3)]] by auto
  qed
qed

text \<open>How many calls of \<open>eventRun\<close> an event at place \<open>j\<close> may still have to wait. Since \<open>run_id\<close> wraps
  around, the next run may take the first event for one of its own and stop; the run after it does not.\<close>

definition wait_bound :: "'w ev_state \<Rightarrow> addr list \<Rightarrow> nat \<Rightarrow> nat" where
  "wait_bound s as j = 2 * j + (if ev_id (the (ev_data s (hd as))) = run_id s + 1 then 1 else 0)"

lemma eventRun_ok:
  assumes i: "ev_inv s as" and h: "handler_ok h"
  shows "\<exists>s' as'. eventRun h s = Some s' \<and> ev_inv s' as' \<and> follows s as s' as'"
proof (cases as)
  case Nil
  then show ?thesis using i ev_invD(1) [OF i] follows_refl by (fastforce simp: eventRun_def ev_chain_def)
next
  case (Cons a as0)
  then obtain e where e: "ev_mem s a = Some e" "tasks s = Some a"
    using ev_chain_alloc [OF ev_invD(1) [OF i], of a] ev_invD(1) [OF i] by (auto simp: ev_chain_def chain_Cons_iff)
  let ?s = "s\<lparr>run_id := run_id s + 1\<rparr>"
  have same: "ev_nx ?s = ev_nx s" "ev_data ?s = ev_data s" "when_of ?s = when_of s" "arg_of ?s = arg_of s"
    by (auto simp: ev_nx_def ev_data_def when_of_def arg_of_def fun_eq_iff)
  then have "held ?s = held s" by (auto simp: held_def fun_eq_iff)
  with same i have "ev_inv ?s as" by (simp add: ev_inv_def ev_chain_def)
  from run_events_ok [OF this h, of 0] obtain s' as' where r: "run_events h ?s 0 = Some s'" "ev_inv s' as'" "follows ?s as s' as'" by auto
  have "follows s as s' as'" using r(3) same by (simp add: follows_def due_def)
  then show ?thesis using e r i follows_refl by (cases "current_dtime s < ev_when e") (force simp: eventRun_def)+
qed

text \<open>A run brings a due event nearer to its turn.\<close>

lemma eventRun_progress:
  assumes i: "ev_inv s as" and h: "handler_ok h" and d: "due s as a j"
  shows "\<exists>s' as' l. eventRun h s = Some s' \<and> ev_inv s' as' \<and> ev_log s' = ev_log s @ l \<and>
    (fin a l \<or> (\<exists>j'. due s' as' a j' \<and> wait_bound s' as' j' < wait_bound s as j))"
proof -
  obtain b as0 where as: "as = b # as0" using d by (cases as) (auto simp: due_def)
  then obtain e where e: "ev_mem s b = Some e" "tasks s = Some b"
    using ev_chain_alloc [OF ev_invD(1) [OF i], of b] ev_invD(1) [OF i] by (auto simp: ev_chain_def chain_Cons_iff)
  let ?s = "s\<lparr>run_id := run_id s + 1\<rparr>"
  have same: "ev_nx ?s = ev_nx s" "ev_data ?s = ev_data s" "when_of ?s = when_of s" "arg_of ?s = arg_of s"
    by (auto simp: ev_nx_def ev_data_def when_of_def arg_of_def fun_eq_iff)
  then have "held ?s = held s" by (auto simp: held_def fun_eq_iff)
  with same i have i2: "ev_inv ?s as" by (simp add: ev_inv_def ev_chain_def)
  have "when_of s b \<le> when_of s a"
    using ev_invD(5) [OF i] d as by (cases j) (auto simp: due_def)
  then have db: "due ?s as b 0" using d as same by (auto simp: due_def)
  have run: "eventRun h s = run_events h ?s 0" using e db same by (auto simp: eventRun_def due_def when_of_entry)
  have dq: "due ?s as a j" using d same by (simp add: due_def)
  show ?thesis
  proof (cases "ev_id (the (ev_data s b)) = run_id s + 1")
    case True
    then have "run_events h ?s 0 = Some ?s" using run_stops [OF i2, of 0 h] as same by simp
    moreover have "wait_bound ?s as j < wait_bound s as j" using True as same by (simp add: wait_bound_def)
    ultimately show ?thesis using run i2 dq by (intro exI [of _ ?s] exI [of _ as] exI [of _ "[]"]) auto
  next
    case False
    then have n: "ev_id (the (ev_data ?s b)) \<noteq> run_id ?s" using same by simp
    from run_first [OF i2 [unfolded as] h db [unfolded as] n] obtain s1 as1 w1 where s1: "run_events h ?s 0 = run_events h s1 w1" "ev_inv s1 as1"
      "advances ?s as s1 as1" using as by auto
    from run_events_ok [OF s1(2) h, of w1] obtain s2 as2 where s2: "run_events h s1 w1 = Some s2" "ev_inv s2 as2" "follows s1 as1 s2 as2" by auto
    from advances_follows [OF s1(3) s2(3)] obtain l where "ev_log s2 = ev_log ?s @ l" "fin a l \<or> (\<exists>j' < j. due s2 as2 a j')"
      using dq by (auto simp: advances_def)
    moreover have "wait_bound s2 as2 j' < wait_bound s as j" if "j' < j" for j' using that by (simp add: wait_bound_def)
    ultimately show ?thesis using run s1(1) s2(1,2) by auto
  qed
qed

text \<open>Turns of the main loop: a call of \<open>eventRun\<close> and then anything else that concerns the queue.\<close>

inductive turns :: "(addr \<Rightarrow> addr option \<Rightarrow> 'w ev_state \<Rightarrow> 'w ev_state option) \<Rightarrow> nat \<Rightarrow> 'w ev_state \<Rightarrow> 'w ev_state \<Rightarrow> bool"
  for h where
  turns_0: "turns h 0 s s"
| turns_Suc: "eventRun h s = Some s1 \<Longrightarrow> ev_step\<^sup>*\<^sup>* s1 s2 \<Longrightarrow> turns h n s2 s' \<Longrightarrow> turns h (Suc n) s s'"

inductive_cases turns_SucE: "turns h (Suc n) s s'"

lemma wait_bound_follows:
  assumes "follows s as s' as'" "run_id s' = run_id s" "due s as a j"
  shows "\<exists>l. ev_log s' = ev_log s @ l \<and> (fin a l \<or> (\<exists>j'. due s' as' a j' \<and> wait_bound s' as' j' \<le> wait_bound s as j))"
proof -
  obtain l where l: "ev_log s' = ev_log s @ l" "fin a l \<or> (\<exists>j'. due s' as' a j' \<and> (j' < j \<or> j' = j \<and> ev_data s' (hd as') = ev_data s (hd as)))"
    using assms(1,3) by (auto simp: follows_def)
  moreover have "wait_bound s' as' j' \<le> wait_bound s as j" if "j' < j \<or> j' = j \<and> ev_data s' (hd as') = ev_data s (hd as)" for j'
    using that assms(2) by (auto simp: wait_bound_def)
  ultimately show ?thesis by blast
qed

lemma turns_log: "turns h n s s' \<Longrightarrow> handler_ok h \<Longrightarrow> ev_inv s as \<Longrightarrow> \<exists>l. ev_log s' = ev_log s @ l"
proof (induction arbitrary: as rule: turns.induct)
  case (turns_Suc s s1 s2 n s')
  obtain as1 where "ev_inv s1 as1" "follows s as s1 as1" using eventRun_ok [OF turns_Suc.prems(2,1)] turns_Suc.hyps(1) by auto
  moreover obtain as2 where "ev_inv s2 as2" "follows s1 as1 s2 as2" using ev_steps_ok [OF turns_Suc.hyps(2) \<open>ev_inv s1 as1\<close>] by auto
  ultimately show ?case using turns_Suc.IH [OF turns_Suc.prems(1), of as2] by (auto simp: follows_def)
qed simp

lemma turns_finish:
  assumes "turns h n s s'" "handler_ok h" "ev_inv s as" "due s as a j" "wait_bound s as j < n"
  shows "\<exists>l. ev_log s' = ev_log s @ l \<and> fin a l"
  using assms
proof (induction arbitrary: as j rule: turns.induct)
  case (turns_Suc s s1 s2 n s')
  obtain as1 l1 where s1: "ev_inv s1 as1" "ev_log s1 = ev_log s @ l1"
    "fin a l1 \<or> (\<exists>j'. due s1 as1 a j' \<and> wait_bound s1 as1 j' < wait_bound s as j)"
    using eventRun_progress [OF turns_Suc.prems(2,1,3)] turns_Suc.hyps(1) by auto
  obtain as2 where s2: "ev_inv s2 as2" "follows s1 as1 s2 as2" "keeps s1 as1 s2 as2" using ev_steps_ok [OF turns_Suc.hyps(2) s1(1)] by auto
  obtain l2 where l2: "ev_log s2 = ev_log s1 @ l2" using s2(2) by (auto simp: follows_def)
  obtain l3 where l3: "ev_log s' = ev_log s2 @ l3" using turns_log [OF turns_Suc.hyps(3) turns_Suc.prems(1) s2(1)] by auto
  show ?case
  proof (cases "fin a l1 \<or> fin a l2")
    case True
    then show ?thesis using s1(2) l2 l3 by auto
  next
    case False
    then obtain j1 where j1: "due s1 as1 a j1" "wait_bound s1 as1 j1 < wait_bound s as j" using s1(3) by auto
    have "run_id s2 = run_id s1" using s2(3) by (simp add: keeps_def)
    then obtain j2 where j2: "due s2 as2 a j2" "wait_bound s2 as2 j2 \<le> wait_bound s1 as1 j1"
      using wait_bound_follows [OF s2(2) _ j1(1)] l2 False by auto
    have "wait_bound s2 as2 j2 < n" using j1(2) j2(2) turns_Suc.prems(4) by simp
    from turns_Suc.IH [OF turns_Suc.prems(1) s2(1) j2(1) this] show ?thesis using s1(2) l2 by auto
  qed
qed simp

subsection \<open>Cleaning up and queries\<close>

lemma eventFind_ok:
  assumes "ev_inv s as"
  shows "eventFind s func arg = Some (\<exists>a \<in> set as. ev_func (the (ev_data s a)) = func \<and> arg_of s a = arg)"
proof -
  have "eventFind_loop s p func arg = Some (\<exists>a \<in> set as. ev_func (the (ev_data s a)) = func \<and> arg_of s a = arg)"
    if "chain (ev_nx s) p as" for p as
    using that
  proof (induction as arbitrary: p)
    case Nil
    then show ?case by (subst eventFind_loop.simps) simp
  next
    case (Cons a as)
    then obtain e where "ev_mem s a = Some e" "p = Some a" "chain (ev_nx s) (ev_next e) as" by (auto simp: chain_Cons_iff ev_nx_def)
    then show ?case using Cons.IH by (subst eventFind_loop.simps) (auto simp: arg_of_def ev_data_def)
  qed
  then show ?thesis using ev_invD(1) [OF assms] by (simp add: eventFind_def ev_chain_def)
qed

lemma eventFreeMemory_ok: "ev_inv s as \<Longrightarrow> \<exists>s'. eventFreeMemory s = Some s' \<and> ev_inv s' [] \<and> ev_log s' = ev_log s @ map Deleted as"
proof (induction as arbitrary: s)
  case Nil
  then show ?case using ev_invD(1) [OF Nil] by (subst eventFreeMemory.simps) (simp add: ev_chain_def)
next
  case (Cons a as)
  then obtain e where e: "ev_mem s a = Some e" "tasks s = Some a"
    using ev_chain_alloc [OF ev_invD(1) [OF Cons.prems], of a] ev_invD(1) [OF Cons.prems] by (auto simp: ev_chain_def chain_Cons_iff)
  obtain s1 where "unlink_event s Tasks a e = Some s1" "ev_inv s1 as" "ev_log s1 = ev_log s @ [Deleted a]"
    using unlink_event_ok [of s "[]" a as Tasks e] Cons.prems e(1) by auto
  then show ?case using e Cons.IH [of s1] by (subst eventFreeMemory.simps) auto
qed

text \<open>\<open>eventCleanup\<close> drops exactly the events whose data are no longer valid.\<close>

definition arg_valid :: "'w ev_state \<Rightarrow> addr \<Rightarrow> bool" where
  "arg_valid s a = valid_arg (ev_cb s) (arg_of s a)"

lemma cbdataValid_arg:
  assumes "cb_inv cb" "\<forall>p. arg = Some p \<longrightarrow> 0 < lock_count cb p"
  shows "cbdataValid cb arg = Some (valid_arg cb arg)"
proof (cases arg)
  case (Some p)
  then obtain c where "cb_mem cb p = Some c" "0 < c_locks c" using assms(2) lock_count_pos by blast
  then show ?thesis using cbdataValid_ok [OF assms(1)] Some by (simp add: valid_arg_def)
qed (simp add: cbdataValid_def valid_arg_def)

lemma unlock_valid: "cbdataUnlock cb arg = Some cb' \<Longrightarrow> valid_arg cb' x = valid_arg cb x"
  by (auto simp: cbdataUnlock_def destroy_cbdata_def valid_arg_def bind_eq_Some_conv Let_def split: option.splits if_splits)

lemma cleanup_loop_ok:
  assumes "ev_inv s (pre @ post)" "slot_at pre E"
  shows "\<exists>s'. eventCleanup_loop s E = Some s' \<and> ev_inv s' (pre @ filter (arg_valid s) post)"
  using assms
proof (induction post arbitrary: s pre E)
  case Nil
  then show ?case using slot_get_at [OF ev_invD(1) [OF Nil.prems(1)] Nil.prems(2)] by (subst eventCleanup_loop.simps) auto
next
  case (Cons a post)
  obtain e where e: "ev_mem s a = Some e" using ev_chain_alloc [OF ev_invD(1) [OF Cons.prems(1)], of a] by auto
  have q: "slot_get s E = Some (Some a)" using slot_get_at [OF ev_invD(1) [OF Cons.prems(1)] Cons.prems(2)] by (auto simp: chain_Cons_iff)
  have ar: "arg_of s a = ev_arg e" using e by (simp add: arg_of_def ev_data_def)
  have v: "cbdataValid (ev_cb s) (ev_arg e) = Some (arg_valid s a)"
    using cbdataValid_arg [OF ev_invD(3) [OF Cons.prems(1)], of "ev_arg e"] ev_inv_held [OF Cons.prems(1), of a] ar by (auto simp: arg_valid_def)
  show ?case
  proof (cases "arg_valid s a")
    case True
    then show ?thesis using Cons.IH [of s "pre @ [a]" "Next a"] Cons.prems(1) q e v by (subst eventCleanup_loop.simps) simp
  next
    case False
    obtain s1 where s1: "unlink_event s E a e = Some s1" "ev_inv s1 (pre @ post)" "ev_data s1 = (ev_data s)(a := None)"
      using unlink_event_ok [OF Cons.prems e] by auto
    have na: "a \<notin> set post" using ev_invD(2) [OF Cons.prems(1)] by simp
    obtain s0 where s0: "slot_set s E (ev_next e) = Some s0" "cbdataUnlock (ev_cb s0) (ev_arg e) = Some (ev_cb s1)"
      using s1(1) by (auto simp: unlink_event_def bind_eq_Some_conv)
    have "ev_cb s0 = ev_cb s" using s0(1) by (auto simp: slot_set_def bind_eq_Some_conv split: ev_slot.splits)
    then have "arg_valid s1 b = arg_valid s b" if "b \<in> set post" for b
      using that na s1(3) unlock_valid [OF s0(2)] by (auto simp: arg_valid_def arg_of_def)
    then have "filter (arg_valid s1) post = filter (arg_valid s) post" by (auto cong: filter_cong)
    then show ?thesis using Cons.IH [OF s1(2) Cons.prems(2)] q e v False s1(1) by (subst eventCleanup_loop.simps) auto
  qed
qed

lemma eventCleanup_ok: "ev_inv s as \<Longrightarrow> \<exists>s'. eventCleanup s = Some s' \<and> ev_inv s' (filter (arg_valid s) as)"
  using cleanup_loop_ok [of s "[]" as Tasks] by (simp add: eventCleanup_def)

subsection \<open>Properties\<close>

text \<open>The queue is a stable priority queue by time: \<open>eventAdd\<close> puts the new event behind all events
  with the same or an earlier time and in front of the later ones, keeps the order and the
  contents of the others, and leaves the queue sorted, with a lock on the new argument.\<close>
theorem eventAdd_sorted:
  assumes "ev_inv s as" "ev_mem s a = None" "func \<noteq> None" "\<forall>p. arg = Some p \<longrightarrow> cb_mem (ev_cb s) p \<noteq> None"
    and "t = current_dtime s + when"
  shows "\<exists>s' us vs. eventAdd s a name func arg when weight = Some s' \<and> as = us @ vs \<and> ev_inv s' (us @ a # vs) \<and>
    (\<forall>b \<in> set us. when_of s b \<le> t) \<and> (\<forall>b \<in> set vs. t < when_of s b) \<and> (\<forall>b \<in> set as. ev_data s' b = ev_data s b) \<and>
    ev_data s' a = Some (new_event s name func arg when weight)"
proof -
  obtain s' where s': "eventAdd s a name func arg when weight = Some s'" "ev_inv s' (insert_event s a t as)"
    "ev_data s' = (ev_data s)(a \<mapsto> new_event s name func arg when weight)"
    using eventAdd_ok [OF assms(1-4), of name "when" weight] assms(5) by auto
  let ?us = "takeWhile (\<lambda>b. when_of s b \<le> t) as" and ?vs = "dropWhile (\<lambda>b. when_of s b \<le> t) as"
  have na: "a \<notin> set as" using ev_chain_alloc [OF ev_invD(1) [OF assms(1)], of a] assms(2) by auto
  have "\<forall>b \<in> set ?vs. t < when_of s b"
  proof
    fix b
    assume b: "b \<in> set ?vs"
    have sd: "sorted_wrt (\<lambda>a b. when_of s' a \<le> when_of s' b) (?us @ a # ?vs)" using ev_invD(5) [OF s'(2)] by (simp add: insert_event_def)
    obtain v vs where v: "?vs = v # vs" using b by (cases ?vs) auto
    then have "t < when_of s v" using hd_dropWhile [of "\<lambda>b. when_of s b \<le> t" as] by auto
    moreover have "sorted_wrt (\<lambda>a b. when_of s a \<le> when_of s b) (?us @ ?vs)" using ev_invD(5) [OF assms(1)] by simp
    then have "when_of s v \<le> when_of s b" using b v by (auto simp: sorted_wrt_append)
    ultimately show "t < when_of s b" by simp
  qed
  moreover have "\<forall>b \<in> set ?us. when_of s b \<le> t" by (auto dest: set_takeWhileD)
  ultimately show ?thesis using s' na
    by (intro exI [of _ s'] exI [of _ ?us] exI [of _ ?vs]) (auto simp: insert_event_def)
qed

text \<open>An empty queue and a queue with one due event.\<close>

definition idle_events :: "unit ev_state" where
  "idle_events = \<lparr>tasks = None, ev_mem = Map.empty, run_id = 0, last_event_ran = None, current_dtime = 5,
     ev_cb = cb_start [], ev_log = [], ev_world = ()\<rparr>"

lemma idle_events_inv: "ev_inv idle_events []"
  by (simp add: ev_inv_def ev_chain_def idle_events_def held_def lock_count_def cb_start_def cb_inv_def)

theorem eventAdd_sorted_witness:
  "\<exists>s'. eventAdd idle_events 7 ''tick'' (Some 1) None 0 0 = Some s' \<and> ev_inv s' [7] \<and> when_of s' 7 = 5"
proof -
  have f: "ev_mem idle_events 7 = None" "Some (1::addr) \<noteq> None" "\<forall>p. None = Some p \<longrightarrow> cb_mem (ev_cb idle_events) p \<noteq> None"
    "(5::real) = current_dtime idle_events + 0" by (simp_all add: idle_events_def)
  obtain s' where "eventAdd idle_events 7 ''tick'' (Some 1) None 0 0 = Some s'" "ev_inv s' [7]"
    "ev_data s' 7 = Some (new_event idle_events ''tick'' (Some 1) None 0 0)"
    using eventAdd_sorted [OF idle_events_inv f, of "''tick''" 0] by auto
  then show ?thesis using f(4) by (auto simp: when_of_def new_event_def)
qed

text \<open>C24: No event waits forever. With handlers that return and use the queue as intended, every call
  of \<open>eventRun\<close> returns, and an event that is due is called, found to have invalid data, or deleted by its
  owner within two calls for each event in front of it and itself, whatever the handlers and the rest of the program
  add to the queue, and even though the numbers of the runs wrap around.\<close>
theorem due_event_is_run:
  assumes "ev_inv s as" "handler_ok h" "i < length as" "when_of s (as ! i) \<le> current_dtime s"
  shows "(\<exists>s1 as1. eventRun h s = Some s1 \<and> ev_inv s1 as1) \<and>
    (\<forall>n s'. 2 * (i + 1) \<le> n \<longrightarrow> turns h n s s' \<longrightarrow> (\<exists>l. ev_log s' = ev_log s @ l \<and> fin (as ! i) l))"
proof (intro conjI allI impI)
  show "\<exists>s1 as1. eventRun h s = Some s1 \<and> ev_inv s1 as1" using eventRun_ok [OF assms(1,2)] by blast
  fix n s'
  assume n: "2 * (i + 1) \<le> n" "turns h n s s'"
  have "due s as (as ! i) i" using assms(3,4) by (simp add: due_def)
  moreover have "wait_bound s as i < n" using n(1) by (simp add: wait_bound_def)
  ultimately show "\<exists>l. ev_log s' = ev_log s @ l \<and> fin (as ! i) l" using turns_finish [OF n(2) assms(2,1)] by blast
qed

text \<open>A handler that asks to be called again after five seconds, as the periodic tasks of the store do.\<close>

definition again_handler :: "addr \<Rightarrow> addr option \<Rightarrow> unit ev_state \<Rightarrow> unit ev_state option" where
  "again_handler f arg s = (if ev_mem s 100 = None then eventAdd s 100 ''again'' (Some f) None 5 0 else Some s)"

lemma again_handler_ok: "handler_ok again_handler"
  unfolding handler_ok_def
proof (intro allI impI)
  fix f arg s as
  assume i: "ev_inv (s :: unit ev_state) as" and "valid_arg (ev_cb s) arg"
  show "\<exists>s'. again_handler f arg s = Some s' \<and> ev_step\<^sup>*\<^sup>* s s'"
  proof (cases "ev_mem s 100 = None")
    case True
    obtain s' where s': "eventAdd s 100 ''again'' (Some f) None 5 0 = Some s'"
      using eventAdd_ok [OF i True, of "Some f" None "''again''" 5 0] by auto
    have "ev_step s s'" by (rule ev_add [OF _ _ _ s']) simp_all
    then show ?thesis using s' True by (auto simp: again_handler_def)
  qed (auto simp: again_handler_def)
qed

theorem due_event_is_run_witness:
  "\<exists>s s1. ev_inv s [7] \<and> eventRun again_handler s = Some s1 \<and>
    (\<forall>n s'. 2 \<le> n \<longrightarrow> turns again_handler n s s' \<longrightarrow> (\<exists>l. ev_log s' = l \<and> fin 7 l))"
proof -
  have f: "ev_mem idle_events 7 = None" "current_dtime idle_events = 5" "ev_log idle_events = []" by (simp_all add: idle_events_def)
  obtain s :: "unit ev_state" where s: "ev_inv s [7]" "ev_data s = (ev_data idle_events)(7 \<mapsto> new_event idle_events ''tick'' (Some 1) None 0 0)"
    "current_dtime s = 5" "ev_log s = []"
    using eventAdd_ok [OF idle_events_inv, of 7 "Some 1" None "''tick''" 0 0] f by (auto simp: insert_event_def)
  have "when_of s ([7] ! 0) \<le> current_dtime s" using s by (simp add: when_of_def new_event_def idle_events_def)
  then show ?thesis using due_event_is_run [OF s(1) again_handler_ok, of 0] s(1,4) by auto
qed

end
