(* ===== verification/HttpRange.thy ===== *)
theory HttpRange
  imports HttpTools
begin

section \<open>Byte ranges (HttpHdrRange.c, HttpHdrContRange.c)\<close>

text \<open>
  The Range header of requests: its parser, the printed form, and the canonization that turns
  every range into positions inside a body of known length; and the Content-Range header of
  replies. \<open>squid_off_t\<close> has 64 bits and \<open>size_t\<close> and \<open>long\<close> have 32. A stack of ranges is a
  list with its top at the end. Functions are into \<open>option\<close> where they contain assertions.
\<close>

subsection \<open>Range specifications\<close>

record HttpHdrRangeSpec =
  rs_offset :: int
  rs_length :: int

type_synonym HttpHdrRange = "HttpHdrRangeSpec list"

definition to_int64 :: "int \<Rightarrow> int" where
  "to_int64 x = (x + 2 ^ 63) mod 2 ^ 64 - 2 ^ 63"

definition range_spec_unknown :: int where
  "range_spec_unknown = - 1"

definition known_spec :: "int \<Rightarrow> bool" where
  "known_spec s \<longleftrightarrow> s \<noteq> range_spec_unknown"

definition size_min :: "int \<Rightarrow> int \<Rightarrow> int" where
  "size_min a b = (if a \<le> b then a else b)"

definition size_diff :: "int \<Rightarrow> int \<Rightarrow> int" where
  "size_diff a b = (if b \<le> a then a - b else 0)"

text \<open>The number of characters in front of the first \<open>'-'\<close>; \<open>None\<close> where \<open>strchr\<close> returns \<open>NULL\<close>.\<close>

definition find_char :: "char \<Rightarrow> string \<Rightarrow> nat option" where
  "find_char c s = (if c \<in> set s then Some (length (takeWhile (\<lambda>d. d \<noteq> c) s)) else None)"

text \<open>\<open>field\<close> is the header from the start of the item, \<open>flen\<close> the length of the item. The test for
  the \<open>'-'\<close> accepts one anywhere behind the start of the item; without one, the difference of
  the null pointer and \<open>field\<close> is taken as negative (memory below 2 GB).\<close>

definition httpHdrRangeSpecParseCreate :: "string \<Rightarrow> nat \<Rightarrow> HttpHdrRangeSpec option" where
  "httpHdrRangeSpecParseCreate field flen =
     (if flen < 2 then None
      else do {
        spec \<leftarrow>
          (if hd field = CHR ''-''
           then (case httpHeaderParseSize (tl field) of (ok, v) \<Rightarrow>
                   if ok then Some \<lparr>rs_offset = range_spec_unknown, rs_length = v\<rparr> else None)
           else (case find_char (CHR ''-'') field of
                   None \<Rightarrow> None
                 | Some p \<Rightarrow>
                     (case httpHeaderParseSize field of (ok, offset) \<Rightarrow>
                        if \<not> ok then None
                        else if p + 1 < flen
                        then (case httpHeaderParseSize (drop (p + 1) field) of (ok, last_pos) \<Rightarrow>
                                if ok then Some \<lparr>rs_offset = offset, rs_length = size_diff (to_int64 (last_pos + 1)) offset\<rparr>
                                else None)
                        else Some \<lparr>rs_offset = offset, rs_length = range_spec_unknown\<rparr>)));
        if known_spec (rs_length spec) \<and> rs_length spec = 0 then None else Some spec })"

definition httpHdrRangeSpecDup :: "HttpHdrRangeSpec \<Rightarrow> HttpHdrRangeSpec" where
  "httpHdrRangeSpecDup spec = \<lparr>rs_offset = rs_offset spec, rs_length = rs_length spec\<rparr>"

definition httpHdrRangeSpecPackInto :: "HttpHdrRangeSpec \<Rightarrow> string" where
  "httpHdrRangeSpecPackInto spec =
     (if \<not> known_spec (rs_offset spec) then ''-'' @ fmt_d (rs_length spec)
      else if \<not> known_spec (rs_length spec) then fmt_d (rs_offset spec) @ ''-''
      else fmt_d (rs_offset spec) @ ''-'' @ fmt_d (rs_offset spec + rs_length spec - 1))"

text \<open>The filled-in range, and whether it is valid.\<close>

definition httpHdrRangeSpecCanonize :: "HttpHdrRangeSpec \<Rightarrow> int \<Rightarrow> (bool \<times> HttpHdrRangeSpec) option" where
  "httpHdrRangeSpecCanonize spec clen = do {
     let spec = (if \<not> known_spec (rs_offset spec) then spec\<lparr>rs_offset := size_diff clen (rs_length spec)\<rparr>
                 else if \<not> known_spec (rs_length spec) then spec\<lparr>rs_length := size_diff clen (rs_offset spec)\<rparr>
                 else spec);
     c_assert (known_spec (rs_length spec));
     c_assert (known_spec (rs_offset spec));
     let spec = spec\<lparr>rs_length := size_min (size_diff clen (rs_offset spec)) (rs_length spec)\<rparr>;
     Some (0 < rs_length spec, spec) }"

text \<open>Without \<open>MERGING_BREAKS_NOTHING\<close> ranges are never merged.\<close>

definition httpHdrRangeSpecMergeWith :: "HttpHdrRangeSpec \<Rightarrow> HttpHdrRangeSpec \<Rightarrow> bool \<times> HttpHdrRangeSpec" where
  "httpHdrRangeSpecMergeWith recep donor = (False, recep)"

subsection \<open>The Range header\<close>

function range_items :: "string \<Rightarrow> HttpHdrRange \<Rightarrow> HttpHdrRange" where
  "range_items pos specs =
     (case strListGetItem (CHR '','') pos of
        (found, item, ilen, pos') \<Rightarrow>
          if found
          then range_items pos' (case httpHdrRangeSpecParseCreate item ilen of Some spec \<Rightarrow> specs @ [spec] | None \<Rightarrow> specs)
          else specs)"
  by pat_completeness auto
termination
  by (relation "measure (\<lambda>(pos, specs). length pos)") (auto dest!: strListGetItem_progress(1) [OF sym])

declare range_items.simps [simp del]

text \<open>The number of ranges (0 for a failure) and the ranges.\<close>

definition httpHdrRangeParseInit :: "string \<Rightarrow> nat \<times> HttpHdrRange" where
  "httpHdrRangeParseInit str =
     (if \<not> strncaseeq str ''bytes='' 6 then (0, [])
      else let specs = range_items (drop 6 str) [] in (length specs, specs))"

definition httpHdrRangeParseCreate :: "string \<Rightarrow> HttpHdrRange option" where
  "httpHdrRangeParseCreate str = (case httpHdrRangeParseInit str of (n, r) \<Rightarrow> if n = 0 then None else Some r)"

definition httpHdrRangeDup :: "HttpHdrRange \<Rightarrow> HttpHdrRange" where
  "httpHdrRangeDup rng = map httpHdrRangeSpecDup rng"

text \<open>The next range behind a position, which starts at -1.\<close>

definition httpHdrRangeGetSpec :: "HttpHdrRange \<Rightarrow> int \<Rightarrow> (HttpHdrRangeSpec option \<times> int) option" where
  "httpHdrRangeGetSpec rng pos = do {
     c_assert (- 1 \<le> pos \<and> pos < int (length rng));
     let pos = pos + 1;
     Some (if pos < int (length rng) then Some (rng ! nat pos) else None, pos) }"

text \<open>Printing. The position was advanced when it is compared with the initial one, so that
  the first range has a comma in front, too.\<close>

fun pack_specs :: "int \<Rightarrow> HttpHdrRange \<Rightarrow> string" where
  "pack_specs pos [] = []"
| "pack_specs pos (spec # specs) = (if pos + 1 \<noteq> - 1 then '','' else []) @ httpHdrRangeSpecPackInto spec @ pack_specs (pos + 1) specs"

definition httpHdrRangePackInto :: "HttpHdrRange \<Rightarrow> string" where
  "httpHdrRangePackInto rng = pack_specs (- 1) rng"

text \<open>The loops of \<open>httpHdrRangeCanonize\<close>: first the ranges are filled in and the bad ones dropped,
  then every good one is merged with the top of the new stack while that is possible, and pushed.\<close>

fun canonize_specs :: "HttpHdrRange \<Rightarrow> int \<Rightarrow> HttpHdrRange option" where
  "canonize_specs [] clen = Some []"
| "canonize_specs (spec # specs) clen = do {
     (valid, spec) \<leftarrow> httpHdrRangeSpecCanonize spec clen;
     goods \<leftarrow> canonize_specs specs clen;
     Some (if valid then spec # goods else goods) }"

function merge_specs :: "HttpHdrRange \<Rightarrow> HttpHdrRange \<Rightarrow> HttpHdrRange" where
  "merge_specs [] specs = specs"
| "merge_specs (spec # goods) specs =
     (if specs = [] then merge_specs goods (specs @ [spec])
      else case httpHdrRangeSpecMergeWith spec (last specs) of (merged, spec') \<Rightarrow>
        if merged then merge_specs (spec' # goods) (butlast specs) else merge_specs goods (specs @ [spec]))"
  by pat_completeness auto
termination
  by (relation "measures [\<lambda>(goods, specs). length goods, \<lambda>(goods, specs). length specs]") (auto simp flip: length_greater_0_conv)

definition httpHdrRangeCanonize :: "HttpHdrRange \<Rightarrow> int \<Rightarrow> (bool \<times> HttpHdrRange) option" where
  "httpHdrRangeCanonize rng clen = do {
     c_assert (0 \<le> clen);
     goods \<leftarrow> canonize_specs rng clen;
     let specs = merge_specs goods [];
     Some (specs \<noteq> [], specs) }"

fun complex_from :: "int \<Rightarrow> HttpHdrRange \<Rightarrow> bool" where
  "complex_from offset [] = False"
| "complex_from offset (spec # specs) =
     (if rs_offset spec < offset then True else complex_from (rs_offset spec + rs_length spec) specs)"

definition httpHdrRangeIsComplex :: "HttpHdrRange \<Rightarrow> bool" where
  "httpHdrRangeIsComplex rng = complex_from 0 rng"

fun will_be_complex_from :: "int \<Rightarrow> HttpHdrRange \<Rightarrow> bool" where
  "will_be_complex_from offset [] = False"
| "will_be_complex_from offset (spec # specs) =
     (if \<not> known_spec (rs_offset spec) then will_be_complex_from offset specs
      else if rs_offset spec < offset then True
      else will_be_complex_from (if known_spec (rs_length spec) then rs_offset spec + rs_length spec else rs_offset spec) specs)"

definition httpHdrRangeWillBeComplex :: "HttpHdrRange \<Rightarrow> bool" where
  "httpHdrRangeWillBeComplex rng = will_be_complex_from 0 rng"

fun first_offset_from :: "int \<Rightarrow> HttpHdrRange \<Rightarrow> int" where
  "first_offset_from offset [] = offset"
| "first_offset_from offset (spec # specs) =
     first_offset_from (if rs_offset spec < offset \<or> \<not> known_spec offset then rs_offset spec else offset) specs"

definition httpHdrRangeFirstOffset :: "HttpHdrRange \<Rightarrow> int" where
  "httpHdrRangeFirstOffset rng = first_offset_from range_spec_unknown rng"

fun lowest_offset_from :: "int \<Rightarrow> int \<Rightarrow> HttpHdrRange \<Rightarrow> int" where
  "lowest_offset_from sz offset [] = (if known_spec offset then offset else 0)"
| "lowest_offset_from sz offset (spec # specs) =
     (if \<not> known_spec (rs_offset spec) \<and> (sz < rs_length spec \<or> \<not> known_spec (rs_length spec)) then 0
      else let current = (if known_spec (rs_offset spec) then rs_offset spec else sz - rs_length spec)
           in lowest_offset_from sz (if current < offset \<or> \<not> known_spec offset then current else offset) specs)"

definition httpHdrRangeLowestOffset :: "HttpHdrRange \<Rightarrow> int \<Rightarrow> int" where
  "httpHdrRangeLowestOffset rng sz = lowest_offset_from sz range_spec_unknown rng"

definition httpHdrRangeBoundaryStr :: "string \<Rightarrow> string \<Rightarrow> string option" where
  "httpHdrRangeBoundaryStr full_appname_string key_text = do {
     b \<leftarrow> stringAppend [] full_appname_string;
     b \<leftarrow> stringAppend b '':'';
     stringAppend b key_text }"

definition httpHdrRangeOffsetLimit :: "int \<Rightarrow> HttpHdrRange option \<Rightarrow> bool" where
  "httpHdrRangeOffsetLimit rangeOffsetLimit r =
     (case r of
        None \<Rightarrow> False
      | Some rng \<Rightarrow>
          if rangeOffsetLimit = 0 then True
          else if rangeOffsetLimit = - 1 then False
          else \<not> httpHdrRangeFirstOffset rng \<le> rangeOffsetLimit)"

subsection \<open>The Content-Range header\<close>

record HttpHdrContRange =
  cr_spec :: HttpHdrRangeSpec
  cr_elength :: int

text \<open>In this file the mark for an absent value is \<open>(size_t) -1\<close>, a positive number.\<close>

definition cont_unknown :: int where
  "cont_unknown = 2 ^ 32 - 1"

definition httpHdrRangeRespSpecParseInit :: "string \<Rightarrow> nat \<Rightarrow> HttpHdrRangeSpec option" where
  "httpHdrRangeRespSpecParseInit field flen =
     (if flen < 2 then None
      else if hd field = CHR ''*'' then Some \<lparr>rs_offset = cont_unknown, rs_length = cont_unknown\<rparr>
      else (case find_char (CHR ''-'') field of
              None \<Rightarrow> None
            | Some p \<Rightarrow>
                if \<not> p < flen then None
                else (case httpHeaderParseSize field of (ok, offset) \<Rightarrow>
                        if \<not> ok then None
                        else do {
                          len \<leftarrow> (if p + 1 < flen
                                  then (case httpHeaderParseSize (drop (p + 1) field) of (ok, last_pos) \<Rightarrow>
                                          if ok then Some (size_diff (to_int64 (last_pos + 1)) offset) else None)
                                  else Some cont_unknown);
                          if len = 0 then None else Some \<lparr>rs_offset = offset, rs_length = len\<rparr> })))"

definition httpHdrRangeRespSpecPackInto :: "HttpHdrRangeSpec \<Rightarrow> string" where
  "httpHdrRangeRespSpecPackInto spec =
     (if rs_offset spec = cont_unknown \<or> rs_length spec = cont_unknown then ''*''
      else ''bytes '' @ fmt_d (rs_offset spec) @ ''-'' @ fmt_d (rs_offset spec + rs_length spec - 1))"

definition httpHdrContRangeCreate :: HttpHdrContRange where
  "httpHdrContRangeCreate = \<lparr>cr_spec = \<lparr>rs_offset = cont_unknown, rs_length = cont_unknown\<rparr>, cr_elength = cont_unknown\<rparr>"

definition httpHdrContRangeParseInit :: "string \<Rightarrow> HttpHdrContRange option" where
  "httpHdrContRangeParseInit str =
     (if \<not> strncaseeq str ''bytes '' 6 then None
      else let str = drop 6 str
           in case find_char (CHR ''/'') str of
                None \<Rightarrow> None
              | Some p \<Rightarrow> do {
                  spec \<leftarrow> (if hd str = CHR ''*'' then Some \<lparr>rs_offset = cont_unknown, rs_length = cont_unknown\<rparr>
                           else httpHdrRangeRespSpecParseInit str p);
                  let rest = drop (p + 1) str;
                  elength \<leftarrow> (if rest \<noteq> [] \<and> hd rest = CHR ''*'' then Some cont_unknown
                              else (case httpHeaderParseSize rest of (ok, v) \<Rightarrow> if ok then Some v else None));
                  Some \<lparr>cr_spec = spec, cr_elength = elength\<rparr> })"

definition httpHdrContRangeParseCreate :: "string \<Rightarrow> HttpHdrContRange option" where
  "httpHdrContRangeParseCreate str = httpHdrContRangeParseInit str"

definition httpHdrContRangeDup :: "HttpHdrContRange \<Rightarrow> HttpHdrContRange" where
  "httpHdrContRangeDup rng = \<lparr>cr_spec = cr_spec rng, cr_elength = cr_elength rng\<rparr>"

definition httpHdrContRangePackInto :: "HttpHdrContRange \<Rightarrow> string" where
  "httpHdrContRangePackInto rng =
     httpHdrRangeRespSpecPackInto (cr_spec rng) @
     (if cr_elength rng = cont_unknown then ''/*'' else ''/'' @ fmt_d (to_int32 (cr_elength rng)))"

definition httpHdrContRangeSet :: "HttpHdrRangeSpec \<Rightarrow> int \<Rightarrow> HttpHdrContRange option" where
  "httpHdrContRangeSet spec ent_len = do {
     c_assert (0 \<le> ent_len);
     Some \<lparr>cr_spec = spec, cr_elength = ent_len\<rparr> }"

subsection \<open>Canonization\<close>

text \<open>The three forms of a range in a request, and the bytes of a body of length \<open>clen\<close> it asks for.\<close>

definition spec_wf :: "HttpHdrRangeSpec \<Rightarrow> bool" where
  "spec_wf spec \<longleftrightarrow> rs_offset spec = - 1 \<and> 0 < rs_length spec \<or> 0 \<le> rs_offset spec \<and> (rs_length spec = - 1 \<or> 0 < rs_length spec)"

definition wanted :: "int \<Rightarrow> HttpHdrRangeSpec \<Rightarrow> int set" where
  "wanted clen spec =
     (if rs_offset spec = - 1 then {b. clen - rs_length spec \<le> b \<and> 0 \<le> b \<and> b < clen}
      else {b. rs_offset spec \<le> b \<and> b < clen \<and> (rs_length spec = - 1 \<or> b < rs_offset spec + rs_length spec)})"

definition spec_bytes :: "HttpHdrRangeSpec \<Rightarrow> int set" where
  "spec_bytes spec = {rs_offset spec ..< rs_offset spec + rs_length spec}"

definition spec_inside :: "int \<Rightarrow> HttpHdrRangeSpec \<Rightarrow> bool" where
  "spec_inside clen spec \<longleftrightarrow> 0 \<le> rs_offset spec \<and> 0 < rs_length spec \<and> rs_offset spec + rs_length spec \<le> clen"

lemma spec_canonize:
  assumes "spec_wf spec" "0 \<le> clen"
  shows "\<exists>spec'. httpHdrRangeSpecCanonize spec clen = Some (wanted clen spec \<noteq> {}, spec') \<and>
    (wanted clen spec \<noteq> {} \<longrightarrow> spec_inside clen spec' \<and> spec_bytes spec' = wanted clen spec)"
proof -
  define off where "off = (if rs_offset spec = - 1 then size_diff clen (rs_length spec) else rs_offset spec)"
  define len where "len = size_min (size_diff clen off) (if rs_offset spec \<noteq> - 1 \<and> rs_length spec = - 1 then size_diff clen off else rs_length spec)"
  have c: "httpHdrRangeSpecCanonize spec clen = Some (0 < len, \<lparr>rs_offset = off, rs_length = len\<rparr>)"
    using assms by (cases spec) (auto simp: httpHdrRangeSpecCanonize_def spec_wf_def known_spec_def range_spec_unknown_def off_def len_def
        size_diff_def size_min_def c_assert_def)
  have w: "wanted clen spec = {off ..< off + len}" using assms
    by (auto simp: wanted_def spec_wf_def off_def len_def size_diff_def size_min_def)
  moreover have "0 \<le> off" "0 < len \<Longrightarrow> off + len \<le> clen" using assms
    by (auto simp: spec_wf_def off_def len_def size_diff_def size_min_def split: if_splits)
  ultimately show ?thesis using c by (auto simp: spec_inside_def spec_bytes_def)
qed

lemma canonize_specs_ok:
  assumes "\<forall>spec \<in> set r. spec_wf spec" "0 \<le> clen"
  shows "\<exists>goods. canonize_specs r clen = Some goods \<and> map spec_bytes goods = filter (\<lambda>b. b \<noteq> {}) (map (wanted clen) r) \<and>
    (\<forall>spec \<in> set goods. spec_inside clen spec)"
  using assms(1)
proof (induction r)
  case (Cons spec r)
  then obtain goods where g: "canonize_specs r clen = Some goods" "map spec_bytes goods = filter (\<lambda>b. b \<noteq> {}) (map (wanted clen) r)"
    "\<forall>spec \<in> set goods. spec_inside clen spec" by auto
  obtain spec' where "httpHdrRangeSpecCanonize spec clen = Some (wanted clen spec \<noteq> {}, spec')"
    "wanted clen spec \<noteq> {} \<longrightarrow> spec_inside clen spec' \<and> spec_bytes spec' = wanted clen spec"
    using spec_canonize [OF _ assms(2), of spec] Cons.prems by auto
  with g show ?case by (cases "wanted clen spec = {}") auto
qed simp

lemma merge_specs_id: "merge_specs goods specs = specs @ goods"
  by (induction goods specs rule: merge_specs.induct) (auto simp: httpHdrRangeSpecMergeWith_def)

subsection \<open>Round trips\<close>

definition spec_text_ok :: "HttpHdrRangeSpec \<Rightarrow> bool" where
  "spec_text_ok spec \<longleftrightarrow> spec_wf spec \<and> rs_offset spec < 2 ^ 63 \<and> rs_length spec < 2 ^ 63 \<and> rs_offset spec + rs_length spec < 2 ^ 63"

lemma to_int32_wrap: "to_int32 (x + 2 ^ 32) = to_int32 x"
proof -
  have "x + 2 ^ 32 + 2 ^ 31 = (x + 2 ^ 31) + 2 ^ 32" by simp
  then show ?thesis unfolding to_int32_def by (simp only: mod_add_self2)
qed

lemma in_int64_nonneg: "0 \<le> v \<Longrightarrow> v < 2 ^ 63 \<Longrightarrow> in_int64 v"
  by (simp add: in_int64_def)

lemma to_int64_id: "0 \<le> v \<Longrightarrow> v < 2 ^ 63 \<Longrightarrow> to_int64 v = v"
  by (simp add: to_int64_def)

lemma parse_size_fmt:
  assumes "0 \<le> v" "v < 2 ^ 63" "r = [] \<or> \<not> isdigit (hd r)"
  shows "httpHeaderParseSize (fmt_d v @ r) = (True, v)"
  using strtol10_digits [OF dec_of_nat_digits dec_of_nat_nonempty assms(3), of "nat v"] in_int64_nonneg [OF assms(1,2)] assms(1)
  by (simp add: httpHeaderParseSize_def fmt_d_def)

lemma fmt_d_nonneg_chars: "0 \<le> v \<Longrightarrow> \<forall>c \<in> set (fmt_d v). isdigit c"
  using dec_of_nat_digits by (simp add: fmt_d_def)

lemma fmt_d_nonempty [simp]: "fmt_d v \<noteq> []"
  by (simp add: fmt_d_def)

lemma not_isdigit_punct [simp]: "\<not> isdigit (CHR ''-'')" "\<not> isdigit (CHR '','')" "\<not> isdigit (CHR ''/'')" "\<not> isdigit (CHR ''*'')"
  by (simp_all add: isdigit_def)

lemma digits_until:
  assumes "\<forall>c \<in> set ds. isdigit c" "\<not> isdigit d"
  shows "find_char d (ds @ d # r) = Some (length ds)"
proof -
  have "takeWhile (\<lambda>c. c \<noteq> d) (ds @ d # r) = ds" using assms by (subst takeWhile_append2) auto
  then show ?thesis by (simp add: find_char_def)
qed

text \<open>What a printed range looks like to the parser of items.\<close>

lemma pack_spec_chars:
  assumes "spec_wf spec"
  shows "\<forall>c \<in> set (httpHdrRangeSpecPackInto spec). isdigit c \<or> c = CHR ''-''" "2 \<le> length (httpHdrRangeSpecPackInto spec)"
proof -
  have d: "isdigit c" if "c \<in> set (fmt_d v)" "0 \<le> v" for c v using fmt_d_nonneg_chars that by blast
  show "\<forall>c \<in> set (httpHdrRangeSpecPackInto spec). isdigit c \<or> c = CHR ''-''"
    using assms by (auto simp: httpHdrRangeSpecPackInto_def spec_wf_def known_spec_def range_spec_unknown_def dest!: d)
  have "0 < length (fmt_d v)" for v by simp
  then have "Suc 0 \<le> length (fmt_d v)" for v by (simp add: Suc_le_eq)
  then show "2 \<le> length (httpHdrRangeSpecPackInto spec)"
    by (auto simp: httpHdrRangeSpecPackInto_def numeral_2_eq_2 intro: le_SucI trans_le_add1)
qed

lemma parse_spec_pack:
  assumes "spec_text_ok spec" "r = [] \<or> hd r = CHR '',''"
  shows "httpHdrRangeSpecParseCreate (httpHdrRangeSpecPackInto spec @ r) (length (httpHdrRangeSpecPackInto spec)) = Some spec"
proof -
  have nd: "r = [] \<or> \<not> isdigit (hd r)" using assms(2) by auto
  have l: "\<not> length (httpHdrRangeSpecPackInto spec) < 2" using pack_spec_chars(2) assms(1) by (simp add: spec_text_ok_def not_less)
  consider (suffix) "rs_offset spec = - 1" "0 < rs_length spec" | (trailer) "0 \<le> rs_offset spec" "rs_length spec = - 1"
    | (rng) "0 \<le> rs_offset spec" "0 < rs_length spec" using assms(1) by (auto simp: spec_text_ok_def spec_wf_def)
  then show ?thesis
  proof cases
    case suffix
    then have "httpHeaderParseSize (fmt_d (rs_length spec) @ r) = (True, rs_length spec)"
      using assms(1) nd by (intro parse_size_fmt) (auto simp: spec_text_ok_def)
    then show ?thesis using suffix l by (cases spec) (simp add: httpHdrRangeSpecParseCreate_def httpHdrRangeSpecPackInto_def known_spec_def range_spec_unknown_def)
  next
    case trailer
    let ?f = "fmt_d (rs_offset spec)"
    have p: "httpHeaderParseSize (?f @ CHR ''-'' # r) = (True, rs_offset spec)"
      using assms(1) trailer by (intro parse_size_fmt) (auto simp: spec_text_ok_def)
    have f: "find_char (CHR ''-'') (?f @ CHR ''-'' # r) = Some (length ?f)" using trailer by (intro digits_until fmt_d_nonneg_chars) auto
    have h: "hd (?f @ CHR ''-'' # r) \<noteq> CHR ''-''" using fmt_d_nonneg_chars [OF trailer(1)] by (metis fmt_d_nonempty hd_append hd_in_set not_isdigit_punct(1))
    show ?thesis using trailer l p f h by (cases spec) (simp add: httpHdrRangeSpecParseCreate_def httpHdrRangeSpecPackInto_def known_spec_def range_spec_unknown_def)
  next
    case rng
    let ?f = "fmt_d (rs_offset spec)" and ?l = "rs_offset spec + rs_length spec - 1"
    have p: "httpHeaderParseSize (?f @ CHR ''-'' # fmt_d ?l @ r) = (True, rs_offset spec)" "httpHeaderParseSize (fmt_d ?l @ r) = (True, ?l)"
      using assms(1) rng nd by (intro parse_size_fmt; auto simp: spec_text_ok_def)+
    have f: "find_char (CHR ''-'') (?f @ CHR ''-'' # fmt_d ?l @ r) = Some (length ?f)" using rng by (intro digits_until fmt_d_nonneg_chars) auto
    have h: "hd (?f @ CHR ''-'' # fmt_d ?l @ r) \<noteq> CHR ''-''"
      using fmt_d_nonneg_chars [OF rng(1)] by (metis fmt_d_nonempty hd_append hd_in_set not_isdigit_punct(1))
    have s: "size_diff (to_int64 (?l + 1)) (rs_offset spec) = rs_length spec"
      using rng assms(1) to_int64_id [of "?l + 1"] by (simp add: size_diff_def spec_text_ok_def)
    show ?thesis using rng l p f h s by (cases spec) (simp add: httpHdrRangeSpecParseCreate_def httpHdrRangeSpecPackInto_def known_spec_def range_spec_unknown_def)
  qed
qed

lemma list_item_end_plain:
  assumes "\<forall>c \<in> set item. isdigit c \<or> c = CHR ''-''" "r = [] \<or> hd r = CHR '',''"
  shows "list_item_end (CHR '','') False (item @ r) = r"
proof -
  have "c \<notin> list_delim (CHR '','') False" if "c \<in> set item" for c
    using assms(1) that by (auto simp: list_delim_def isdigit_def)
  then have "dropWhile (\<lambda>c. c \<notin> list_delim (CHR '','') False) (item @ r) = dropWhile (\<lambda>c. c \<notin> list_delim (CHR '','') False) r"
    by (simp add: dropWhile_append2)
  also have "\<dots> = r" using assms(2) by (cases r) (auto simp: list_delim_def)
  finally have dw: "dropWhile (\<lambda>c. c \<notin> list_delim (CHR '','') False) (item @ r) = r" .
  show ?thesis unfolding list_item_end.simps [of _ _ "item @ r"] dw using assms(2) by (cases r) auto
qed

lemma get_item_plain:
  assumes "\<forall>c \<in> set item. isdigit c \<or> c = CHR ''-''" "item \<noteq> []" "r = [] \<or> hd r = CHR '',''"
  shows "strListGetItem (CHR '','') (CHR '','' # item @ r) = (True, item @ r, length item, r)"
proof -
  have c: "c \<notin> list_skip (CHR '','')" "\<not> isspace c" if "c \<in> set item" for c
    using assms(1) that by (auto simp: list_skip_def isdigit_def isspace_def)
  have "hd item \<in> set item" using assms(2) by simp
  then have d: "dropWhile (\<lambda>c. c \<in> list_skip (CHR '','')) (CHR '','' # item @ r) = item @ r"
    using c(1) assms(2) by (cases item) (auto simp: list_skip_def)
  have "rtrim item = item" using c(2) [OF last_in_set [OF assms(2)]] assms(2)
    by (cases item rule: rev_cases) (auto simp: rtrim_def)
  then show ?thesis unfolding strListGetItem_def Let_def d list_item_end_plain [OF assms(1,3)] using assms(2) by simp
qed

lemma range_items_pack:
  assumes "\<forall>spec \<in> set r. spec_text_ok spec" "- 1 \<le> pos"
  shows "range_items (pack_specs pos r) specs = specs @ r"
  using assms
proof (induction r arbitrary: pos specs)
  case Nil
  then show ?case by (subst range_items.simps) (simp add: strListGetItem_def rtrim_def Let_def)
next
  case (Cons spec r)
  let ?i = "httpHdrRangeSpecPackInto spec" and ?r = "pack_specs (pos + 1) r"
  have ok: "spec_text_ok spec" "spec_wf spec" using Cons.prems(1) by (auto simp: spec_text_ok_def)
  have r: "?r = [] \<or> hd ?r = CHR '',''" using Cons.prems(2) by (cases r) auto
  have i: "?i \<noteq> []" using pack_spec_chars(2) [OF ok(2)] by auto
  have "pack_specs pos (spec # r) = CHR '','' # ?i @ ?r" using Cons.prems(2) by simp
  then have "range_items (pack_specs pos (spec # r)) specs = range_items ?r (specs @ [spec])"
    using get_item_plain [OF pack_spec_chars(1) [OF ok(2)] i r] parse_spec_pack [OF ok(1) r] by (subst range_items.simps) simp
  then show ?case using Cons.IH [of "pos + 1" "specs @ [spec]"] Cons.prems by simp
qed

subsection \<open>Properties\<close>

text \<open>C36: Canonization gives exactly the requested bytes that exist. For ranges of the three forms of a
  request \<open>httpHdrRangeCanonize\<close> fails no assertion; it drops the ranges that lie outside the body, keeps the
  order of the others, and the positions of each are inside the body and are those the request asks for.
  It reports success if a range is left.\<close>
theorem canonize_exact:
  assumes "\<forall>spec \<in> set r. spec_wf spec" "0 \<le> clen"
  shows "\<exists>r'. httpHdrRangeCanonize r clen = Some (r' \<noteq> [], r') \<and>
    map spec_bytes r' = filter (\<lambda>b. b \<noteq> {}) (map (wanted clen) r) \<and> (\<forall>spec \<in> set r'. spec_inside clen spec)"
  using canonize_specs_ok [OF assms] assms(2) by (auto simp: httpHdrRangeCanonize_def merge_specs_id)

theorem canonize_exact_witness:
  "\<exists>r'. httpHdrRangeCanonize [\<lparr>rs_offset = - 1, rs_length = 5\<rparr>, \<lparr>rs_offset = 200, rs_length = 5\<rparr>, \<lparr>rs_offset = 10, rs_length = - 1\<rparr>] 100 = Some (True, r') \<and>
    map spec_bytes r' = [{95..<100}, {10..<100}]"
proof -
  let ?r = "[\<lparr>rs_offset = - 1, rs_length = 5\<rparr>, \<lparr>rs_offset = 200, rs_length = 5\<rparr>, \<lparr>rs_offset = 10, rs_length = - 1\<rparr>]"
  obtain r' where r': "httpHdrRangeCanonize ?r 100 = Some (r' \<noteq> [], r')" "map spec_bytes r' = filter (\<lambda>b. b \<noteq> {}) (map (wanted 100) ?r)"
    using canonize_exact [of ?r 100] by (auto simp: spec_wf_def)
  have "wanted 100 \<lparr>rs_offset = - 1, rs_length = 5\<rparr> = {95..<100}" "wanted 100 \<lparr>rs_offset = 200, rs_length = 5\<rparr> = {}"
    "wanted 100 \<lparr>rs_offset = 10, rs_length = - 1\<rparr> = {10..<100}" by (auto simp: wanted_def)
  then have m: "map spec_bytes r' = [{95..<100}, {10..<100}]" using r'(2) by simp
  then have "r' \<noteq> []" by auto
  then show ?thesis using r'(1) m by simp
qed

text \<open>A request can stop the proxy. The range \<open>--1\<close> is read as a suffix of length -1, the mark for an
  absent length, and accepted by the parser; the assertion of \<open>httpHdrRangeSpecCanonize\<close> that the length
  is known then fails for every length of the reply.\<close>
theorem range_double_dash_aborts:
  "httpHdrRangeParseCreate ''bytes=--1'' = Some [\<lparr>rs_offset = - 1, rs_length = - 1\<rparr>] \<and>
   (\<forall>clen. httpHdrRangeCanonize [\<lparr>rs_offset = - 1, rs_length = - 1\<rparr>] clen = None)"
proof
  have i: "strListGetItem (CHR '','') ''--1'' = (True, ''--1'', 3, [])"
    using list_item_end_plain [of "''--1''" "[]"] by (simp add: strListGetItem_def list_skip_def rtrim_def isspace_def isdigit_def)
  have s: "strtol10 ''-1'' = Some (- 1)" by (simp add: strtol10_def isspace_def isdigit_def dec_val_def digit_val_def)
  have p: "httpHdrRangeSpecParseCreate ''--1'' 3 = Some \<lparr>rs_offset = - 1, rs_length = - 1\<rparr>"
    by (simp add: httpHdrRangeSpecParseCreate_def httpHeaderParseSize_def s in_int64_def known_spec_def range_spec_unknown_def)
  have "range_items ''--1'' [] = [\<lparr>rs_offset = - 1, rs_length = - 1\<rparr>]"
    by (subst range_items.simps, simp add: i p, subst range_items.simps) (simp add: strListGetItem_def rtrim_def)
  then show "httpHdrRangeParseCreate ''bytes=--1'' = Some [\<lparr>rs_offset = - 1, rs_length = - 1\<rparr>]"
    by (simp add: httpHdrRangeParseCreate_def httpHdrRangeParseInit_def strncaseeq_def)
  show "\<forall>clen. httpHdrRangeCanonize [\<lparr>rs_offset = - 1, rs_length = - 1\<rparr>] clen = None"
    by (simp add: httpHdrRangeCanonize_def httpHdrRangeSpecCanonize_def known_spec_def range_spec_unknown_def c_assert_def)
qed

text \<open>A printed list of ranges is read back: behind the unit, the parser returns the ranges that \<open>httpHdrRangePackInto\<close>
  printed, in their order, although every range, also the first, is printed with a comma in front.\<close>
theorem range_header_roundtrip:
  assumes "\<forall>spec \<in> set r. spec_text_ok spec" "r \<noteq> []"
  shows "httpHdrRangeParseCreate (''bytes='' @ httpHdrRangePackInto r) = Some r"
  using range_items_pack [OF assms(1), of "- 1" "[]"] assms(2)
  by (simp add: httpHdrRangeParseCreate_def httpHdrRangeParseInit_def httpHdrRangePackInto_def strncaseeq_def)

theorem range_header_roundtrip_witness:
  "httpHdrRangeParseCreate (''bytes='' @ httpHdrRangePackInto [\<lparr>rs_offset = 0, rs_length = 500\<rparr>, \<lparr>rs_offset = - 1, rs_length = 7\<rparr>])
    = Some [\<lparr>rs_offset = 0, rs_length = 500\<rparr>, \<lparr>rs_offset = - 1, rs_length = 7\<rparr>]"
  by (rule range_header_roundtrip) (simp_all add: spec_text_ok_def spec_wf_def)

text \<open>A range without a dash takes the one of the next item and becomes an open range.\<close>

theorem range_takes_next_dash:
  "httpHdrRangeSpecParseCreate ''55,6-7'' 2 = Some \<lparr>rs_offset = 55, rs_length = - 1\<rparr>"
  by (simp add: httpHdrRangeSpecParseCreate_def find_char_def httpHeaderParseSize_def strtol10_def isspace_def isdigit_def dec_val_def
      digit_val_def in_int64_def known_spec_def range_spec_unknown_def)

text \<open>The Content-Range of a reply names the range and the length of the body, and is read back as
  printed, for bodies below 2 GB; the length of a longer body is cut to 32 bits and
  printed as a different, possibly negative, number.\<close>
theorem cont_range_text:
  assumes "spec_inside clen spec" "clen < 2 ^ 31" "httpHdrContRangeSet spec clen = Some cr"
  shows "httpHdrContRangeParseInit (httpHdrContRangePackInto cr) = Some cr \<and>
    httpHdrContRangePackInto (cr\<lparr>cr_elength := clen + 2 ^ 32\<rparr>) = httpHdrContRangePackInto cr"
proof
  let ?f = "fmt_d (rs_offset spec)" and ?l = "rs_offset spec + rs_length spec - 1"
  have b: "0 \<le> rs_offset spec" "0 < rs_length spec" "rs_offset spec + rs_length spec \<le> clen" "0 \<le> clen"
    using assms(1) by (auto simp: spec_inside_def)
  have cr: "cr = \<lparr>cr_spec = spec, cr_elength = clen\<rparr>" using assms(3) b(4) by (simp add: httpHdrContRangeSet_def)
  have k: "rs_offset spec \<noteq> cont_unknown" "rs_length spec \<noteq> cont_unknown" "clen \<noteq> cont_unknown" "clen + 2 ^ 32 \<noteq> cont_unknown"
    using b assms(2) by (auto simp: cont_unknown_def)
  have t: "to_int32 clen = clen" "to_int32 (clen + 2 ^ 32) = clen"
    using b(4) assms(2) by (simp_all only: to_int32_wrap) (simp_all add: to_int32_def)
  have p: "httpHdrContRangePackInto cr = ''bytes '' @ (?f @ CHR ''-'' # fmt_d ?l) @ CHR ''/'' # fmt_d clen"
    using k t by (simp add: httpHdrContRangePackInto_def httpHdrRangeRespSpecPackInto_def cr)
  show "httpHdrContRangePackInto (cr\<lparr>cr_elength := clen + 2 ^ 32\<rparr>) = httpHdrContRangePackInto cr"
    using k t by (simp add: httpHdrContRangePackInto_def cr)
  let ?i = "?f @ CHR ''-'' # fmt_d ?l"
  have ds: "\<forall>c \<in> set ?f. isdigit c" "\<forall>c \<in> set (fmt_d ?l). isdigit c" by (rule fmt_d_nonneg_chars; use b in simp)+
  have h: "hd (?f @ r) \<noteq> CHR ''*''" for r
    using ds(1) by (metis fmt_d_nonempty hd_append hd_in_set not_isdigit_punct(4))
  have slash: "find_char (CHR ''/'') (?i @ CHR ''/'' # fmt_d clen) = Some (length ?i)"
  proof -
    have n: "CHR ''/'' \<notin> set ?i" using ds by (auto simp: isdigit_def)
    have "takeWhile (\<lambda>c. c \<noteq> CHR ''/'') (?i @ CHR ''/'' # fmt_d clen) = ?i @ takeWhile (\<lambda>c. c \<noteq> CHR ''/'') (CHR ''/'' # fmt_d clen)"
      by (rule takeWhile_append2) (use n in blast)
    then show ?thesis by (simp add: find_char_def)
  qed
  have dash: "find_char (CHR ''-'') (?i @ CHR ''/'' # fmt_d clen) = Some (length ?f)"
    using digits_until [OF ds(1), of "CHR ''-''" "fmt_d ?l @ CHR ''/'' # fmt_d clen"] by simp
  have v1: "httpHeaderParseSize (?i @ CHR ''/'' # fmt_d clen) = (True, rs_offset spec)"
    using parse_size_fmt [of "rs_offset spec" "CHR ''-'' # fmt_d ?l @ CHR ''/'' # fmt_d clen"] b assms(2) by simp
  have v2: "httpHeaderParseSize (fmt_d ?l @ CHR ''/'' # fmt_d clen) = (True, ?l)"
    using b assms(2) by (intro parse_size_fmt) auto
  have v3: "httpHeaderParseSize (fmt_d clen) = (True, clen)" using parse_size_fmt [of clen "[]"] b assms(2) by simp
  have s: "size_diff (to_int64 (?l + 1)) (rs_offset spec) = rs_length spec"
    using b assms(2) to_int64_id [of "?l + 1"] by (simp add: size_diff_def)
  have "2 \<le> length ?i" by (cases ?f) auto
  then have r: "httpHdrRangeRespSpecParseInit (?i @ CHR ''/'' # fmt_d clen) (length ?i) = Some spec"
    using h [of "CHR ''-'' # fmt_d ?l @ CHR ''/'' # fmt_d clen"] dash v1 v2 s b(2) by (cases spec) (simp add: httpHdrRangeRespSpecParseInit_def)
  have "hd (fmt_d clen) \<noteq> CHR ''*''" using fmt_d_nonneg_chars [OF b(4)] by (metis fmt_d_nonempty hd_in_set not_isdigit_punct(4))
  then show "httpHdrContRangeParseInit (httpHdrContRangePackInto cr) = Some cr"
    unfolding p using slash r v3 h [of "CHR ''-'' # fmt_d ?l @ CHR ''/'' # fmt_d clen"]
    by (simp add: httpHdrContRangeParseInit_def strncaseeq_def cr)
qed

theorem cont_range_text_witness:
  "httpHdrContRangeParseInit (httpHdrContRangePackInto \<lparr>cr_spec = \<lparr>rs_offset = 10, rs_length = 20\<rparr>, cr_elength = 100\<rparr>)
    = Some \<lparr>cr_spec = \<lparr>rs_offset = 10, rs_length = 20\<rparr>, cr_elength = 100\<rparr>"
  using cont_range_text [of 100 "\<lparr>rs_offset = 10, rs_length = 20\<rparr>"] by (simp add: spec_inside_def httpHdrContRangeSet_def)

end
