(* ===== verification/ClientRange.thy ===== *)
theory ClientRange
  imports HttpRange
begin

section \<open>Replies to range requests (client_side.c)\<close>

text \<open>
  How the client side answers a request for ranges of a cached object: whether it does ranges
  at all, the length it announces, and the assembly of the reply body from the buffers
  that the store delivers. The record \<open>range_http\<close> has the fields of \<open>clientHttpRequest\<close> and
  of the objects it points to that this code uses. A \<open>MemBuf\<close> is the string it holds; a buffer
  and its size are one string. The length of a reply is that of the stored entry.
\<close>

subsection \<open>State\<close>

record HttpHdrRangeIter =
  it_pos :: int
  it_spec :: "HttpHdrRangeSpec option"
  it_debt :: int
  it_prefix :: int
  it_boundary :: string

record range_http =
  h_range :: HttpHdrRange
  h_iter :: HttpHdrRangeIter
  h_out_offset :: int
  h_content_length :: int
  h_content_type :: "string option"

definition crlf :: string where
  "crlf = [CHR 0x0D, CHR 0x0A]"

subsection \<open>Whether to do ranges\<close>

record TimeOrTag =
  tt_tag :: "string option"
  tt_time :: int
  tt_valid :: bool

definition clientIfRangeMatch :: "TimeOrTag \<Rightarrow> string option \<Rightarrow> int \<Rightarrow> bool option" where
  "clientIfRangeMatch spec rep_tag lastmod =
     (if \<not> tt_valid spec then Some False
      else case tt_tag spec of
        Some tag \<Rightarrow>
          (case rep_tag of
             None \<Rightarrow> Some False
           | Some rt \<Rightarrow>
               if take 1 tag = ''W'' \<or> take 1 rt = ''W'' then Some False else Some (rt = tag))
      | None \<Rightarrow> if 0 \<le> tt_time spec then Some (lastmod = tt_time spec) else None)"

text \<open>What \<open>clientBuildRangeHeader\<close> looks at beside the ranges. \<open>bi_if_range\<close> is the parsed
  If-Range header, if there is one.\<close>

record build_input =
  bi_has_reply :: bool
  bi_status :: int
  bi_has_content_range :: bool
  bi_content_length :: int
  bi_if_range :: "TimeOrTag option"
  bi_etag :: "string option"
  bi_lastmod :: int
  bi_cachable :: bool
  bi_hit :: bool
  bi_offset_limit :: int
  bi_boundary :: "string option"

subsection \<open>Parts of the reply\<close>

definition clientPackTermBound :: "string \<Rightarrow> string" where
  "clientPackTermBound boundary = crlf @ ''--'' @ boundary @ ''--'' @ crlf"

text \<open>The header of a part, with the entries in the order in which they are put.\<close>

definition clientPackRangeHdr :: "range_http \<Rightarrow> HttpHdrRangeSpec \<Rightarrow> string \<Rightarrow> string option" where
  "clientPackRangeHdr http spec boundary = do {
     cr \<leftarrow> httpHdrContRangeSet spec (h_content_length http);
     Some (crlf @ ''--'' @ boundary @ crlf @
       (case h_content_type http of Some t \<Rightarrow> ''Content-Type'' @ '': '' @ t @ crlf | None \<Rightarrow> []) @
       ''Content-Range'' @ '': '' @ httpHdrContRangePackInto cr @ crlf @ crlf) }"

fun mrange_clen_from :: "range_http \<Rightarrow> int \<Rightarrow> HttpHdrRange \<Rightarrow> int option" where
  "mrange_clen_from http clen [] = Some (clen + int (length (clientPackTermBound (it_boundary (h_iter http)))))"
| "mrange_clen_from http clen (spec # specs) = do {
     mb \<leftarrow> clientPackRangeHdr http spec (it_boundary (h_iter http));
     mrange_clen_from http (clen + int (length mb) + rs_length spec) specs }"

definition clientMRangeCLen :: "range_http \<Rightarrow> int option" where
  "clientMRangeCLen http = mrange_clen_from http 0 (h_range http)"

text \<open>The end of \<open>clientBuildRangeHeader\<close>: the announced length, the header fields that are set in the reply, and the boundary put in place.\<close>

definition announce_ranges :: "build_input \<Rightarrow> range_http \<Rightarrow> (int \<times> (string \<times> string) list \<times> range_http) option" where
  "announce_ranges bi http = do {
     let specs = h_range http;
     c_assert (0 < length specs);
     (actual_clen, hdr, http) \<leftarrow>
       (if length specs = 1
        then do {
          cr \<leftarrow> httpHdrContRangeSet (specs ! 0) (bi_content_length bi);
          Some (rs_length (specs ! 0), [(''Content-Range'', httpHdrContRangePackInto cr)], http) }
        else do {
          boundary \<leftarrow> bi_boundary bi;
          let http = http\<lparr>h_iter := (h_iter http)\<lparr>it_boundary := boundary\<rparr>\<rparr>;
          clen \<leftarrow> clientMRangeCLen http;
          Some (clen, [(''Content-Type'', ''multipart/byteranges; boundary='' @ [CHR 0x22] @ boundary @ [CHR 0x22])], http) });
     c_assert (0 \<le> actual_clen);
     Some (actual_clen, hdr @ [(''Content-Length'', fmt_d actual_clen)], http) }"

text \<open>The request with its ranges dropped (\<open>None\<close>), or with the canonized ranges and the announced length.\<close>

definition clientBuildRangeHeader :: "build_input \<Rightarrow> range_http \<Rightarrow> (int \<times> (string \<times> string) list \<times> range_http) option option" where
  "clientBuildRangeHeader bi http =
     (if \<not> bi_has_reply bi then Some None
      else if bi_status bi \<noteq> 200 then Some None
      else if bi_has_content_range bi then Some None
      else if bi_content_length bi < 0 then Some None
      else if bi_content_length bi \<noteq> h_content_length http then Some None
      else do {
        if_range_ok \<leftarrow> (case bi_if_range bi of None \<Rightarrow> Some True | Some spec \<Rightarrow> clientIfRangeMatch spec (bi_etag bi) (bi_lastmod bi));
        if \<not> if_range_ok then Some None
        else do {
          (valid, specs) \<leftarrow> httpHdrRangeCanonize (h_range http) (bi_content_length bi);
          if \<not> valid then Some None
          else if httpHdrRangeIsComplex specs then Some None
          else if \<not> bi_cachable bi then Some None
          else if \<not> bi_hit bi \<and> httpHdrRangeOffsetLimit (bi_offset_limit bi) (Some specs) then Some None
          else do { r \<leftarrow> announce_ranges bi (http\<lparr>h_range := specs\<rparr>); Some (Some r) } } })"

subsection \<open>Assembling the body\<close>

definition clientPackRange :: "range_http \<Rightarrow> string \<Rightarrow> string \<Rightarrow> (range_http \<times> string \<times> string) option" where
  "clientPackRange http buf mb = do {
     let i = h_iter http;
     let copy_sz = (if it_debt i \<le> int (length buf) then nat (it_debt i) else length buf);
     let body_off = h_out_offset http - it_prefix i;
     c_assert (buf \<noteq> []);
     spec \<leftarrow> it_spec i;
     c_assert (body_off < rs_offset spec + rs_length spec);
     c_assert (rs_offset spec < body_off + int (length buf));
     mb \<leftarrow> (if 1 < length (h_range http) \<and> it_debt i = rs_length spec
            then do { hdr \<leftarrow> clientPackRangeHdr http spec (it_boundary i); Some (mb @ hdr) } else Some mb);
     let mb = mb @ take copy_sz buf;
     let i = i\<lparr>it_debt := it_debt i - int copy_sz\<rparr>;
     let body_off = body_off + int copy_sz;
     c_assert (0 \<le> it_debt i);
     Some (http\<lparr>h_iter := i, h_out_offset := body_off + it_prefix i\<rparr>, drop copy_sz buf, mb) }"

definition clientCanPackMoreRanges :: "range_http \<Rightarrow> nat \<Rightarrow> (bool \<times> HttpHdrRangeIter) option" where
  "clientCanPackMoreRanges http sz = do {
     let i = h_iter http;
     i \<leftarrow> (if it_debt i = 0
           then do {
             (spec, pos) \<leftarrow> httpHdrRangeGetSpec (h_range http) (it_pos i);
             Some (case spec of
                     None \<Rightarrow> i\<lparr>it_pos := pos, it_spec := None\<rparr>
                   | Some sp \<Rightarrow> i\<lparr>it_pos := pos, it_spec := Some sp, it_debt := rs_length sp\<rparr>) }
           else Some i);
     c_assert ((it_debt i = 0) = (it_spec i = None));
     Some (it_spec i \<noteq> None \<and> 0 < sz, i) }"

partial_function (option) pack_loop :: "range_http \<Rightarrow> int \<Rightarrow> string \<Rightarrow> string \<Rightarrow> (range_http \<times> int \<times> string) option" where
  "pack_loop http body_off buf mb = do {
     (more, i) \<leftarrow> clientCanPackMoreRanges http (length buf);
     let http = http\<lparr>h_iter := i\<rparr>;
     if \<not> more then Some (http, body_off, mb)
     else do {
       spec \<leftarrow> it_spec i;
       let start = rs_offset spec + rs_length spec - it_debt i;
       c_assert (body_off \<le> start);
       if start < body_off + int (length buf)
       then do {
         let buf = drop (nat (start - body_off)) buf;
         let http = http\<lparr>h_out_offset := start + it_prefix i\<rparr>;
         (http, buf, mb) \<leftarrow> clientPackRange http buf mb;
         pack_loop http (h_out_offset http - it_prefix (h_iter http)) buf mb }
       else pack_loop http (body_off + int (length buf)) [] mb } }"

text \<open>Returns whether more data are needed.\<close>

definition clientPackMoreRanges :: "range_http \<Rightarrow> string \<Rightarrow> string \<Rightarrow> (bool \<times> range_http \<times> string) option" where
  "clientPackMoreRanges http buf mb = do {
     let body_off = h_out_offset http - it_prefix (h_iter http);
     c_assert (0 < it_prefix (h_iter http));
     (http, body_off, mb) \<leftarrow> pack_loop http body_off buf mb;
     let i = h_iter http;
     c_assert ((it_debt i = 0) = (it_spec i = None));
     (body_off, mb) \<leftarrow>
       (if it_debt i \<noteq> 0
        then do {
          spec \<leftarrow> it_spec i;
          if it_debt i = rs_length spec then Some (rs_offset spec, mb)
          else do { c_assert (body_off = rs_offset spec + rs_length spec - it_debt i); Some (body_off, mb) } }
        else Some (body_off, if 1 < length (h_range http) then mb @ clientPackTermBound (it_boundary i) else mb));
     Some (0 < it_debt i, http\<lparr>h_out_offset := body_off + it_prefix i\<rparr>, mb) }"

subsection \<open>What has been sent\<close>

text \<open>Ranges the client side accepts: inside the body and in order.\<close>

definition ranges_ok :: "range_http \<Rightarrow> string \<Rightarrow> bool" where
  "ranges_ok http body \<longleftrightarrow> h_content_length http = int (length body) \<and>
     (\<forall>spec \<in> set (h_range http). spec_inside (int (length body)) spec) \<and> \<not> httpHdrRangeIsComplex (h_range http)"

definition part_header :: "range_http \<Rightarrow> HttpHdrRangeSpec \<Rightarrow> string" where
  "part_header http spec = (if 1 < length (h_range http) then the (clientPackRangeHdr http spec (it_boundary (h_iter http))) else [])"

definition part_data :: "string \<Rightarrow> HttpHdrRangeSpec \<Rightarrow> string" where
  "part_data body spec = take (nat (rs_length spec)) (drop (nat (rs_offset spec)) body)"

definition whole_part :: "range_http \<Rightarrow> string \<Rightarrow> HttpHdrRangeSpec \<Rightarrow> string" where
  "whole_part http body spec = part_header http spec @ part_data body spec"

definition range_reply :: "range_http \<Rightarrow> string \<Rightarrow> string" where
  "range_reply http body = concat (map (whole_part http body) (h_range http)) @
     (if 1 < length (h_range http) then clientPackTermBound (it_boundary (h_iter http)) else [])"

text \<open>The output after \<open>k\<close> whole ranges and \<open>d\<close> bytes of the next one.\<close>

definition sent :: "range_http \<Rightarrow> string \<Rightarrow> nat \<Rightarrow> nat \<Rightarrow> string" where
  "sent http body k d = concat (map (whole_part http body) (take k (h_range http))) @
     (if d = 0 then [] else part_header http (h_range http ! k) @ take d (part_data body (h_range http ! k)))"

definition same_request :: "range_http \<Rightarrow> range_http \<Rightarrow> bool" where
  "same_request http http' \<longleftrightarrow> h_range http' = h_range http \<and> h_content_length http' = h_content_length http \<and>
     h_content_type http' = h_content_type http \<and> it_boundary (h_iter http') = it_boundary (h_iter http) \<and>
     it_prefix (h_iter http') = it_prefix (h_iter http)"

lemma same_request_refl [simp]: "same_request http http"
  by (simp add: same_request_def)

lemma same_request_trans: "same_request h h1 \<Longrightarrow> same_request h1 h2 \<Longrightarrow> same_request h h2"
  by (simp add: same_request_def)

lemma same_request_parts:
  assumes "same_request http http'"
  shows "part_header http' = part_header http" "sent http' = sent http" "range_reply http' = range_reply http"
    "ranges_ok http' = ranges_ok http" "clientPackRangeHdr http' = clientPackRangeHdr http"
proof -
  show h: "clientPackRangeHdr http' = clientPackRangeHdr http"
    using assms by (simp add: fun_eq_iff clientPackRangeHdr_def same_request_def)
  show p: "part_header http' = part_header http" using assms h by (simp add: fun_eq_iff part_header_def same_request_def)
  then have w: "whole_part http' = whole_part http" by (simp add: fun_eq_iff whole_part_def)
  show "sent http' = sent http" using assms by (intro ext) (simp add: sent_def same_request_def p w)
  show "range_reply http' = range_reply http" using assms by (intro ext) (simp add: range_reply_def same_request_def w)
  show "ranges_ok http' = ranges_ok http" using assms by (simp add: fun_eq_iff ranges_ok_def same_request_def)
qed

lemma complex_from_ordered:
  "\<not> complex_from off r \<Longrightarrow> Suc k < length r \<Longrightarrow> rs_offset (r ! k) + rs_length (r ! k) \<le> rs_offset (r ! Suc k)"
proof (induction r arbitrary: off k)
  case (Cons spec r)
  then show ?case by (cases k; cases r) (auto split: if_splits)
qed simp

lemma ranges_okD:
  assumes "ranges_ok http body" "k < length (h_range http)"
  shows "0 \<le> rs_offset (h_range http ! k)" "0 < rs_length (h_range http ! k)"
    "rs_offset (h_range http ! k) + rs_length (h_range http ! k) \<le> int (length body)"
    "Suc k < length (h_range http) \<Longrightarrow> rs_offset (h_range http ! k) + rs_length (h_range http ! k) \<le> rs_offset (h_range http ! Suc k)"
  using assms complex_from_ordered [of 0 "h_range http" k] nth_mem [OF assms(2)]
  by (auto simp: ranges_ok_def spec_inside_def httpHdrRangeIsComplex_def)

lemma clientPackRangeHdr_ok: "ranges_ok http body \<Longrightarrow> \<exists>t. clientPackRangeHdr http spec b = Some t"
  by (simp add: clientPackRangeHdr_def httpHdrContRangeSet_def ranges_ok_def)

lemma length_part_data: "ranges_ok http body \<Longrightarrow> k < length (h_range http) \<Longrightarrow> length (part_data body (h_range http ! k)) = nat (rs_length (h_range http ! k))"
  using ranges_okD [of http body k] by (simp add: part_data_def)

lemma sent_Suc:
  assumes "ranges_ok http body" "k < length (h_range http)"
  shows "sent http body (Suc k) 0 = sent http body k 0 @ part_header http (h_range http ! k) @ part_data body (h_range http ! k)"
    "0 < d \<Longrightarrow> d = nat (rs_length (h_range http ! k)) \<Longrightarrow> sent http body k d = sent http body (Suc k) 0"
  using assms length_part_data [OF assms] by (simp_all add: sent_def take_Suc_conv_app_nth whole_part_def)

text \<open>Sending a piece of the current range.\<close>

lemma sent_more:
  assumes "ranges_ok http body" "k < length (h_range http)" "0 < c" "int d + int c \<le> rs_length (h_range http ! k)"
  shows "sent http body k d @ (if d = 0 then part_header http (h_range http ! k) else []) @
      take c (drop (nat (rs_offset (h_range http ! k)) + d) body) = sent http body k (d + c)"
proof -
  have "take d (part_data body (h_range http ! k)) @ take c (drop (nat (rs_offset (h_range http ! k)) + d) body)
      = take (d + c) (part_data body (h_range http ! k))"
    using assms(4) by (simp add: part_data_def min_absorb1 take_add add.commute [of "nat (rs_offset _)"])
  then show ?thesis using assms(3) by (auto simp: sent_def)
qed

subsection \<open>The iterator\<close>

text \<open>Between two ranges, and inside one.\<close>

definition iter_next :: "range_http \<Rightarrow> nat \<Rightarrow> bool" where
  "iter_next http k \<longleftrightarrow> it_debt (h_iter http) = 0 \<and> it_pos (h_iter http) = int k - 1 \<and> k \<le> length (h_range http)"

definition iter_in :: "range_http \<Rightarrow> nat \<Rightarrow> nat \<Rightarrow> bool" where
  "iter_in http k d \<longleftrightarrow> k < length (h_range http) \<and> it_pos (h_iter http) = int k \<and> it_spec (h_iter http) = Some (h_range http ! k) \<and>
     it_debt (h_iter http) = rs_length (h_range http ! k) - int d \<and> int d < rs_length (h_range http ! k)"

definition iter_done :: "range_http \<Rightarrow> bool" where
  "iter_done http \<longleftrightarrow> it_debt (h_iter http) = 0 \<and> it_spec (h_iter http) = None"

definition need :: "range_http \<Rightarrow> nat \<Rightarrow> nat \<Rightarrow> int" where
  "need http k d = rs_offset (h_range http ! k) + int d"

lemma can_pack_next:
  assumes "ranges_ok http body" "iter_next http k"
  shows "k < length (h_range http) \<Longrightarrow> \<exists>i. clientCanPackMoreRanges http n = Some (0 < n, i) \<and>
      iter_in (http\<lparr>h_iter := i\<rparr>) k 0 \<and> same_request http (http\<lparr>h_iter := i\<rparr>)"
    "k = length (h_range http) \<Longrightarrow> \<exists>i. clientCanPackMoreRanges http n = Some (False, i) \<and>
      iter_done (http\<lparr>h_iter := i\<rparr>) \<and> same_request http (http\<lparr>h_iter := i\<rparr>)"
proof -
  assume k: "k < length (h_range http)"
  let ?i = "(h_iter http)\<lparr>it_pos := int k, it_spec := Some (h_range http ! k), it_debt := rs_length (h_range http ! k)\<rparr>"
  have "clientCanPackMoreRanges http n = Some (0 < n, ?i)" using assms k ranges_okD(2) [OF assms(1) k]
    by (simp add: clientCanPackMoreRanges_def iter_next_def httpHdrRangeGetSpec_def Let_def)
  then show "\<exists>i. clientCanPackMoreRanges http n = Some (0 < n, i) \<and> iter_in (http\<lparr>h_iter := i\<rparr>) k 0 \<and> same_request http (http\<lparr>h_iter := i\<rparr>)"
    using k ranges_okD(2) [OF assms(1) k] by (intro exI [of _ ?i]) (simp add: iter_in_def same_request_def)
next
  assume "k = length (h_range http)"
  then show "\<exists>i. clientCanPackMoreRanges http n = Some (False, i) \<and> iter_done (http\<lparr>h_iter := i\<rparr>) \<and> same_request http (http\<lparr>h_iter := i\<rparr>)"
    using assms by (simp add: clientCanPackMoreRanges_def iter_next_def httpHdrRangeGetSpec_def Let_def iter_done_def same_request_def)
qed

lemma can_pack_in: "iter_in http k d \<Longrightarrow> clientCanPackMoreRanges http n = Some (0 < n, h_iter http)"
  by (simp add: clientCanPackMoreRanges_def iter_in_def)

text \<open>One piece of a range.\<close>

lemma pack_piece:
  assumes ok: "ranges_ok http body" and i: "iter_in http k d" and off: "h_out_offset http = need http k d + it_prefix (h_iter http)"
    and buf: "buf = take n (drop (nat (need http k d)) body)" "buf \<noteq> []"
    and c: "c = min (nat (it_debt (h_iter http))) (length buf)"
  shows "\<exists>http'. clientPackRange http buf mb = Some (http', drop c buf, mb @ (if d = 0 then part_header http (h_range http ! k) else []) @ take c buf) \<and>
    same_request http http' \<and> h_out_offset http' - it_prefix (h_iter http') = need http k d + int c \<and>
    (if int d + int c = rs_length (h_range http ! k) then iter_next http' (Suc k) else iter_in http' k (d + c))"
proof -
  let ?spec = "h_range http ! k"
  have k: "k < length (h_range http)" "it_spec (h_iter http) = Some ?spec" "it_debt (h_iter http) = rs_length ?spec - int d" "int d < rs_length ?spec" "it_pos (h_iter http) = int k"
    using i by (auto simp: iter_in_def)
  note r = ranges_okD [OF ok k(1)]
  obtain t where t: "clientPackRangeHdr http ?spec (it_boundary (h_iter http)) = Some t" using clientPackRangeHdr_ok [OF ok] by blast
  have cz: "(if it_debt (h_iter http) \<le> int (length buf) then nat (it_debt (h_iter http)) else length buf) = c"
    using c k(3,4) by auto
  have cd: "int c \<le> rs_length ?spec - int d" using c k(3,4) by auto
  have full: "it_debt (h_iter http) = rs_length ?spec \<longleftrightarrow> d = 0" using k(3) by auto
  have l: "0 < int (length buf)" using buf(2) by simp
  have b: "need http k d < rs_offset ?spec + rs_length ?spec" "rs_offset ?spec < need http k d + int (length buf)"
    unfolding need_def using k(4) l by linarith+
  let ?i = "(h_iter http)\<lparr>it_debt := it_debt (h_iter http) - int c\<rparr>"
  let ?h = "http\<lparr>h_iter := ?i, h_out_offset := need http k d + int c + it_prefix (h_iter http)\<rparr>"
  have "clientPackRange http buf mb = Some (?h, drop c buf, mb @ (if d = 0 then part_header http ?spec else []) @ take c buf)"
    unfolding clientPackRange_def Let_def cz using off b buf(2) k cd t full
    by (auto simp: part_header_def)
  then show ?thesis using k cd by (intro exI [of _ ?h]) (auto simp: same_request_def iter_next_def iter_in_def)
qed

subsection \<open>The loop over a buffer\<close>

text \<open>The position in the body from which the next buffer has to start: not behind the next byte that is needed,
  and exactly there inside a range.\<close>

definition feed_from :: "range_http \<Rightarrow> nat \<Rightarrow> nat \<Rightarrow> int \<Rightarrow> bool" where
  "feed_from http k d body_off \<longleftrightarrow> 0 \<le> body_off \<and>
     (k < length (h_range http) \<longrightarrow> body_off \<le> need http k d) \<and> (0 < d \<longrightarrow> body_off = need http k d)"

text \<open>Bytes of ranges sent so far.\<close>

definition sent_bytes :: "range_http \<Rightarrow> nat \<Rightarrow> nat \<Rightarrow> nat" where
  "sent_bytes http k d = (\<Sum>spec \<leftarrow> take k (h_range http). nat (rs_length spec)) + d"

definition loop_result :: "range_http \<Rightarrow> string \<Rightarrow> nat \<Rightarrow> nat \<Rightarrow> string \<Rightarrow> (range_http \<times> int \<times> string) option \<Rightarrow> nat \<Rightarrow> bool" where
  "loop_result http body k d mb res gain \<longleftrightarrow> (\<exists>http' off' x k' d'. res = Some (http', off', mb @ x) \<and> same_request http http' \<and>
     sent http body k d @ x = sent http body k' d' \<and> sent_bytes http k d + gain \<le> sent_bytes http k' d' \<and> feed_from http k' d' off' \<and>
     (k' = length (h_range http) \<and> d' = 0 \<and> iter_done http' \<or> iter_in http' k' d'))"

lemma same_request_need:
  "same_request http http' \<Longrightarrow> need http' = need http \<and> feed_from http' = feed_from http \<and> sent_bytes http' = sent_bytes http"
proof -
  assume r: "same_request http http'"
  then have "need http' = need http" "sent_bytes http' = sent_bytes http"
    by (simp_all add: fun_eq_iff need_def sent_bytes_def same_request_def)
  moreover from r this(1) have "feed_from http' = feed_from http" by (simp add: fun_eq_iff feed_from_def same_request_def)
  ultimately show ?thesis by simp
qed

lemma loop_result_step:
  assumes "same_request http h1" "sent http body k d @ y = sent http body k1 d1" "loop_result h1 body k1 d1 (mb @ y) res g"
    "sent_bytes http k d + g' \<le> sent_bytes http k1 d1 + g"
  shows "loop_result http body k d mb res g'"
proof -
  note p = same_request_parts [OF assms(1)] same_request_need [OF assms(1)]
  obtain http' off' x k' d' where o: "res = Some (http', off', (mb @ y) @ x)" "same_request h1 http'" "sent h1 body k1 d1 @ x = sent h1 body k' d'"
    "sent_bytes h1 k1 d1 + g \<le> sent_bytes h1 k' d'" "feed_from h1 k' d' off'"
    "k' = length (h_range h1) \<and> d' = 0 \<and> iter_done http' \<or> iter_in http' k' d'" using assms(3) unfolding loop_result_def by blast
  have "h_range h1 = h_range http" using assms(1) by (simp add: same_request_def)
  then show ?thesis unfolding loop_result_def using o p assms(2,4) same_request_trans [OF assms(1) o(2)]
    by (intro exI [of _ http'] exI [of _ off'] exI [of _ "y @ x"] exI [of _ k'] exI [of _ d']) (simp flip: append_assoc)
qed

lemma loop_result_stop:
  assumes "res = Some (http', off', mb)" "same_request http http'" "feed_from http k d off'" "k = length (h_range http) \<and> d = 0 \<and> iter_done http' \<or> iter_in http' k d"
  shows "loop_result http body k d mb res 0"
  unfolding loop_result_def using assms
  by (intro exI [of _ http'] exI [of _ off'] exI [of _ "[]"] exI [of _ k] exI [of _ d]) simp

lemma loop_result_mono: "loop_result http body k d mb res g \<Longrightarrow> g' \<le> g \<Longrightarrow> loop_result http body k d mb res g'"
proof -
  assume r: "loop_result http body k d mb res g" and g: "g' \<le> g"
  from r obtain http' off' x k' d' where o: "res = Some (http', off', mb @ x)" "same_request http http'" "sent http body k d @ x = sent http body k' d'"
    "sent_bytes http k d + g \<le> sent_bytes http k' d'" "feed_from http k' d' off'"
    "k' = length (h_range http) \<and> d' = 0 \<and> iter_done http' \<or> iter_in http' k' d'"
    unfolding loop_result_def by blast
  from o(4) g have "sent_bytes http k d + g' \<le> sent_bytes http k' d'" by linarith
  with o show ?thesis unfolding loop_result_def by blast
qed

lemma sent_bytes_Suc:
  "k < length (h_range http) \<Longrightarrow> int d + int c = rs_length (h_range http ! k) \<Longrightarrow> sent_bytes http (Suc k) 0 = sent_bytes http k d + c"
  by (simp add: sent_bytes_def take_Suc_conv_app_nth)

text \<open>Between two ranges the loop first fetches the next one.\<close>

lemma pack_loop_next:
  assumes "ranges_ok http body" "iter_next http k" "k < length (h_range http)"
  shows "\<exists>g. same_request http g \<and> iter_in g k 0 \<and> h_out_offset g = h_out_offset http \<and> pack_loop http off buf mb = pack_loop g off buf mb"
proof -
  obtain i where i: "clientCanPackMoreRanges http (length buf) = Some (0 < length buf, i)" "iter_in (http\<lparr>h_iter := i\<rparr>) k 0"
    "same_request http (http\<lparr>h_iter := i\<rparr>)" using can_pack_next(1) [OF assms(1-3), of "length buf"] by auto
  have "pack_loop http off buf mb = pack_loop (http\<lparr>h_iter := i\<rparr>) off buf mb"
    using i(1) can_pack_in [OF i(2), of "length buf"] by (subst (1 2) pack_loop.simps) simp
  then show ?thesis using i(2,3) by (intro exI [of _ "http\<lparr>h_iter := i\<rparr>"]) simp
qed

lemma pack_loop_in:
  assumes "ranges_ok http body" "iter_in http k d" "feed_from http k d body_off" "buf = take n (drop (nat body_off) body)"
  shows "loop_result http body k d mb (pack_loop http body_off buf mb) (if buf \<noteq> [] \<and> body_off = need http k d then 1 else 0)"
  using assms
proof (induction "length buf" arbitrary: http k d body_off buf n mb rule: less_induct)
  case less
  let ?spec = "h_range http ! k"
  have k: "k < length (h_range http)" "it_spec (h_iter http) = Some ?spec" "rs_offset ?spec + rs_length ?spec - it_debt (h_iter http) = need http k d"
    using less.prems(2) by (auto simp: iter_in_def need_def)
  have bo: "0 \<le> body_off" "body_off \<le> need http k d" using less.prems(3) k(1) by (auto simp: feed_from_def)
  note can = can_pack_in [OF less.prems(2)]
  show ?case
  proof (cases "buf = []")
    case True
    then have "pack_loop http body_off buf mb = Some (http, body_off, mb)" using can by (subst pack_loop.simps) simp
    then show ?thesis using loop_result_stop [of _ http body_off mb http k d body] less.prems(2,3) True by simp
  next
    case False
    show ?thesis
    proof (cases "need http k d < body_off + int (length buf)")
      case no: False
      have d: "d = 0" "body_off \<noteq> need http k d"
        using less.prems(3) no False by (auto simp: feed_from_def)
      have "pack_loop http body_off buf mb = pack_loop http (body_off + int (length buf)) [] mb"
        using can k bo False no by (subst pack_loop.simps) simp
      also have "\<dots> = Some (http, body_off + int (length buf), mb)"
        using can_pack_in [OF less.prems(2), of 0] by (subst pack_loop.simps) simp
      finally show ?thesis using loop_result_stop [of _ http _ mb http k d body] less.prems(2,3) d no bo by (simp add: feed_from_def)
    next
      case True
      let ?skip = "nat (need http k d - body_off)"
      let ?h = "http\<lparr>h_out_offset := need http k d + it_prefix (h_iter http)\<rparr>"
      define b where "b = drop ?skip buf"
      have sr: "same_request http ?h" by (simp add: same_request_def)
      note ph = same_request_parts [OF sr] same_request_need [OF sr, THEN conjunct1]
      have hi: "iter_in ?h k d" using less.prems(2) by (simp add: iter_in_def)
      have b: "b = take (n - ?skip) (drop (nat (need ?h k d)) body)" "b \<noteq> []"
        using True bo ph by (auto simp: b_def less.prems(4) drop_take nat_diff_distrib)
      define c where "c = min (nat (it_debt (h_iter ?h))) (length b)"
      have ok': "ranges_ok ?h body" using less.prems(1) by (simp add: ph)
      have off: "h_out_offset ?h = need ?h k d + it_prefix (h_iter ?h)" and hr: "h_range ?h = h_range http" by (simp_all add: ph)
      have "\<exists>h1. clientPackRange ?h b mb = Some (h1, drop c b, mb @ (if d = 0 then part_header http ?spec else []) @ take c b) \<and>
        same_request ?h h1 \<and> h_out_offset h1 - it_prefix (h_iter h1) = need http k d + int c \<and>
        (if int d + int c = rs_length ?spec then iter_next h1 (Suc k) else iter_in h1 k (d + c))"
        using pack_piece [OF ok' hi off b c_def, of mb] unfolding ph(1,6) hr by blast
      then obtain h1 where h1: "clientPackRange ?h b mb = Some (h1, drop c b, mb @ (if d = 0 then part_header http ?spec else []) @ take c b)"
        "same_request ?h h1" "h_out_offset h1 - it_prefix (h_iter h1) = need http k d + int c"
        "if int d + int c = rs_length ?spec then iter_next h1 (Suc k) else iter_in h1 k (d + c)" by blast
      have cp: "0 < c" "int d + int c \<le> rs_length ?spec" using b(2) less.prems(2) by (auto simp: c_def iter_in_def)
      have db: "drop c b = take (n - ?skip - c) (drop (nat (need http k d + int c)) body)"
        using b(1) ph bo by (simp add: drop_take nat_add_distrib add.commute)
      define y where "y = (if d = 0 then part_header http ?spec else []) @ take c b"
      have "c \<le> n - ?skip" using b(1) by (simp add: c_def) 
      then have tc: "take c b = take c (drop (nat (rs_offset ?spec) + d) body)"
        using b(1) ph ranges_okD(1) [OF less.prems(1) k(1)] by (simp add: need_def nat_add_distrib)
      have sy: "sent http body k d @ y = sent http body k (d + c)"
        using sent_more [OF less.prems(1) k(1) cp] tc by (simp add: y_def)
      have run: "pack_loop http body_off buf mb = pack_loop h1 (need http k d + int c) (drop c b) (mb @ y)"
        using can k bo False True h1(1,3) by (subst pack_loop.simps) (simp add: b_def y_def Let_def)
      have sh: "same_request http h1" using same_request_trans [OF sr h1(2)] .
      note p1 = same_request_parts [OF sh] same_request_need [OF sh]
      have r1: "h_range h1 = h_range http" using sh by (simp add: same_request_def)
      have ok1: "ranges_ok h1 body" using less.prems(1) p1 by simp
      have len: "length (drop c b) < length buf" using cp(1) b(2) by (simp add: b_def)
      show ?thesis
      proof (cases "int d + int c = rs_length ?spec")
        case part: False
        then have i1: "iter_in h1 k (d + c)" using h1(4) by simp
        have f1: "feed_from h1 k (d + c) (need http k d + int c)" using p1 bo by (simp add: feed_from_def need_def)
        have "loop_result h1 body k (d + c) (mb @ y) (pack_loop h1 (need http k d + int c) (drop c b) (mb @ y)) 0"
          by (rule loop_result_mono [OF less.hyps [OF len ok1 i1 f1 db]]) simp
        then show ?thesis unfolding run using loop_result_step [OF sh sy] cp(1) by (simp add: sent_bytes_def)
      next
        case all: True
        have s2: "sent http body k d @ y = sent http body (Suc k) 0"
          using sy sent_Suc(2) [OF less.prems(1) k(1), of "d + c"] all cp(1) by simp
        have g: "sent_bytes http (Suc k) 0 = sent_bytes http k d + c" using sent_bytes_Suc [OF k(1) all] .
        have nx: "iter_next h1 (Suc k)" using h1(4) all by simp
        have "loop_result h1 body (Suc k) 0 (mb @ y) (pack_loop h1 (need http k d + int c) (drop c b) (mb @ y)) 0"
        proof (cases "Suc k < length (h_range http)")
          case False
          then have e: "Suc k = length (h_range h1)" using k(1) r1 by simp
          obtain i where i: "clientCanPackMoreRanges h1 (length (drop c b)) = Some (False, i)" "iter_done (h1\<lparr>h_iter := i\<rparr>)" "same_request h1 (h1\<lparr>h_iter := i\<rparr>)"
            using can_pack_next(2) [OF _ nx e, of body] less.prems(1) p1 by auto
          then have pl: "pack_loop h1 (need http k d + int c) (drop c b) (mb @ y) = Some (h1\<lparr>h_iter := i\<rparr>, need http k d + int c, mb @ y)"
            by (subst pack_loop.simps) simp
          show ?thesis by (rule loop_result_stop [OF pl i(3)]) (use i(2) e bo in \<open>auto simp: feed_from_def\<close>)
        next
          case True
          then have e: "Suc k < length (h_range h1)" using r1 by simp
          obtain g where i: "same_request h1 g" "iter_in g (Suc k) 0"
            "pack_loop h1 (need http k d + int c) (drop c b) (mb @ y) = pack_loop g (need http k d + int c) (drop c b) (mb @ y)"
            using pack_loop_next [OF ok1 nx e] by blast
          have rg: "h_range g = h_range http" using i(1) r1 by (simp add: same_request_def)
          have f1: "feed_from g (Suc k) 0 (need http k d + int c)"
            using ranges_okD(4) [OF less.prems(1) k(1) True] all bo rg by (simp add: feed_from_def need_def)
          have "ranges_ok g body" using ok1 same_request_parts(4) [OF i(1)] by simp
          then have "loop_result g body (Suc k) 0 (mb @ y) (pack_loop h1 (need http k d + int c) (drop c b) (mb @ y)) 0"
            unfolding i(3) by (rule loop_result_mono [OF less.hyps [OF len _ i(2) f1 db]]) simp
          then show ?thesis using loop_result_step [OF i(1), of body "Suc k" 0 "[]" "Suc k" 0 "mb @ y" _ 0 0] same_request_need [OF i(1)] by simp
        qed
        then show ?thesis unfolding run using loop_result_step [OF sh s2] g cp(1) by simp
      qed
    qed
  qed
qed

lemma pack_loop_ok:
  assumes ok: "ranges_ok http body" and i: "iter_in http k d \<or> iter_next http k \<and> d = 0 \<and> k < length (h_range http)"
    and f: "feed_from http k d body_off" and b: "buf = take n (drop (nat body_off) body)"
  shows "loop_result http body k d mb (pack_loop http body_off buf mb) (if buf \<noteq> [] \<and> body_off = need http k d then 1 else 0)"
proof (cases "iter_in http k d")
  case True
  then show ?thesis using pack_loop_in [OF ok _ f b] by blast
next
  case False
  then have nx: "iter_next http k" "d = 0" "k < length (h_range http)" using i by auto
  obtain g where g: "same_request http g" "iter_in g k 0" "pack_loop http body_off buf mb = pack_loop g body_off buf mb"
    using pack_loop_next [OF ok nx(1,3), of body_off buf mb] by auto
  note p = same_request_parts [OF g(1)] same_request_need [OF g(1)]
  have "loop_result g body k 0 mb (pack_loop g body_off buf mb) (if buf \<noteq> [] \<and> body_off = need g k 0 then 1 else 0)"
    by (rule pack_loop_in [OF _ g(2) _ b]) (use ok f p nx(2) in simp_all)
  then show ?thesis unfolding g(3) using loop_result_step [OF g(1), of body k d "[]" k 0 mb] p nx(2) by simp
qed

lemma pack_more_ok:
  assumes ok: "ranges_ok http body" and i: "iter_in http k d \<or> iter_next http k \<and> d = 0 \<and> k < length (h_range http)"
    and off: "body_off = h_out_offset http - it_prefix (h_iter http)" "0 < it_prefix (h_iter http)"
    and f: "feed_from http k d body_off" and b: "buf = take n (drop (nat body_off) body)"
  shows "\<exists>more http' x. clientPackMoreRanges http buf mb = Some (more, http', mb @ x) \<and> same_request http http' \<and>
    (if more then \<exists>k' d'. sent http body k d @ x = sent http body k' d' \<and> iter_in http' k' d' \<and>
         h_out_offset http' - it_prefix (h_iter http') = need http' k' d' \<and> sent_bytes http k d + (if buf \<noteq> [] \<and> body_off = need http k d then 1 else 0) \<le> sent_bytes http k' d'
     else sent http body k d @ x = range_reply http body)"
proof -
  from pack_loop_ok [OF ok i f b, of mb] obtain h1 off' x k' d' where l: "pack_loop http body_off buf mb = Some (h1, off', mb @ x)"
    "same_request http h1" "sent http body k d @ x = sent http body k' d'"
    "sent_bytes http k d + (if buf \<noteq> [] \<and> body_off = need http k d then 1 else 0) \<le> sent_bytes http k' d'" "feed_from http k' d' off'"
    "k' = length (h_range http) \<and> d' = 0 \<and> iter_done h1 \<or> iter_in h1 k' d'" unfolding loop_result_def by blast
  have pr: "it_prefix (h_iter h1) = it_prefix (h_iter http)" "h_range h1 = h_range http" "it_boundary (h_iter h1) = it_boundary (h_iter http)"
    using l(2) by (simp_all add: same_request_def)
  show ?thesis
  proof (cases "iter_in h1 k' d'")
    case True
    let ?h = "h1\<lparr>h_out_offset := need http k' d' + it_prefix (h_iter http)\<rparr>"
    have in1: "it_spec (h_iter h1) = Some (h_range http ! k')" "it_debt (h_iter h1) = rs_length (h_range http ! k') - int d'" "int d' < rs_length (h_range http ! k')"
      using True pr by (auto simp: iter_in_def)
    have run: "clientPackMoreRanges http buf mb = Some (True, ?h, mb @ x)" using l(1,5) off in1 pr
      by (auto simp: clientPackMoreRanges_def need_def feed_from_def)
    have sh: "same_request http ?h" using l(2) by (simp add: same_request_def)
    have "iter_in ?h k' d'" using True by (simp add: iter_in_def)
    moreover have "h_out_offset ?h - it_prefix (h_iter ?h) = need ?h k' d'" using same_request_need [OF sh] pr by simp
    ultimately have "\<exists>k' d'. sent http body k d @ x = sent http body k' d' \<and> iter_in ?h k' d' \<and>
        h_out_offset ?h - it_prefix (h_iter ?h) = need ?h k' d' \<and>
        sent_bytes http k d + (if buf \<noteq> [] \<and> body_off = need http k d then 1 else 0) \<le> sent_bytes http k' d'"
      using l(3,4) by blast
    then show ?thesis using run sh by (intro exI [of _ True] exI [of _ ?h] exI [of _ x] conjI) (simp_all only: if_True)
  next
    case False
    then have dn: "k' = length (h_range http)" "d' = 0" "iter_done h1" using l(6) by auto
    let ?t = "if 1 < length (h_range http) then clientPackTermBound (it_boundary (h_iter http)) else []"
    let ?h = "h1\<lparr>h_out_offset := off' + it_prefix (h_iter http)\<rparr>"
    have "clientPackMoreRanges http buf mb = Some (False, ?h, mb @ x @ ?t)" using l(1) off dn(3) pr
      by (simp add: clientPackMoreRanges_def iter_done_def)
    moreover have "sent http body k d @ x @ ?t = range_reply http body" using l(3) dn(1,2) by (simp add: sent_def range_reply_def flip: append_assoc)
    moreover have "same_request http ?h" using l(2) by (simp add: same_request_def)
    ultimately show ?thesis by (intro exI [of _ False] exI [of _ ?h] exI [of _ "x @ ?t"]) simp
  qed
qed

subsection \<open>A whole transfer\<close>

text \<open>The store delivers buffers of the given sizes from the position the client side asks for, until it needs no more.\<close>

fun send_body :: "string \<Rightarrow> nat list \<Rightarrow> range_http \<Rightarrow> string \<Rightarrow> (bool \<times> range_http \<times> string) option" where
  "send_body body [] http out = Some (True, http, out)"
| "send_body body (n # ns) http out = do {
     let off = h_out_offset http - it_prefix (h_iter http);
     (more, http, mb) \<leftarrow> clientPackMoreRanges http (take n (drop (nat off) body)) [];
     if more then send_body body ns http (out @ mb) else Some (False, http, out @ mb) }"

definition range_total :: "range_http \<Rightarrow> nat" where
  "range_total http = (\<Sum>spec \<leftarrow> h_range http. nat (rs_length spec))"

lemma sent_bytes_less:
  assumes "iter_in http k d"
  shows "sent_bytes http k d < range_total http"
proof -
  have k: "k < length (h_range http)" "int d < rs_length (h_range http ! k)" using assms by (auto simp: iter_in_def)
  have "h_range http = take k (h_range http) @ h_range http ! k # drop (Suc k) (h_range http)" using id_take_nth_drop [OF k(1)] .
  then have "range_total http = (\<Sum>spec \<leftarrow> take k (h_range http). nat (rs_length spec)) + (nat (rs_length (h_range http ! k)) +
      (\<Sum>spec \<leftarrow> drop (Suc k) (h_range http). nat (rs_length spec)))"
    unfolding range_total_def by (metis (no_types, lifting) list.simps(9) map_append sum_list.Cons sum_list_append)
  then show ?thesis using k(2) by (simp add: sent_bytes_def)
qed

lemma sent_prefix: "ranges_ok http body \<Longrightarrow> iter_in http k d \<Longrightarrow> \<exists>rest. sent http body k d @ rest = range_reply http body"
proof -
  assume ok: "ranges_ok http body" and i: "iter_in http k d"
  have k: "k < length (h_range http)" using i by (simp add: iter_in_def)
  let ?s = "h_range http ! k" and ?w = "whole_part http body"
  have "h_range http = take k (h_range http) @ ?s # drop (Suc k) (h_range http)" using id_take_nth_drop [OF k] .
  then have r: "concat (map ?w (h_range http)) = concat (map ?w (take k (h_range http))) @ ?w ?s @ concat (map ?w (drop (Suc k) (h_range http)))"
    by (metis concat.simps(2) concat_append list.simps(9) map_append)
  let ?p = "if d = 0 then [] else part_header http ?s @ take d (part_data body ?s)"
  obtain rest where e: "?p @ rest = ?w ?s"
    by (cases "d = 0") (auto simp: whole_part_def intro: that [of "drop d (part_data body ?s)"])
  show ?thesis unfolding sent_def range_reply_def r e [symmetric] append_assoc by blast
qed

text \<open>The transfer from a point inside it.\<close>

lemma send_body_ok:
  assumes "ranges_ok http body" "iter_in http k d \<or> iter_next http k \<and> d = 0 \<and> k < length (h_range http)" "0 < it_prefix (h_iter http)"
    "feed_from http k d (h_out_offset http - it_prefix (h_iter http))"
  shows "\<exists>more http' x. send_body body ns http out = Some (more, http', out @ x) \<and>
    (if more then \<exists>k' d'. ns = [] \<and> x = [] \<or> sent http body k d @ x = sent http body k' d' \<and> iter_in http' k' d' \<and> same_request http http'
     else sent http body k d @ x = range_reply http body)"
  using assms
proof (induction ns arbitrary: http k d out)
  case (Cons n ns)
  define off where "off = h_out_offset http - it_prefix (h_iter http)"
  from pack_more_ok [OF Cons.prems(1,2) off_def Cons.prems(3) Cons.prems(4) [folded off_def] refl, of n "[]"]
  obtain more h1 y where m: "clientPackMoreRanges http (take n (drop (nat off) body)) [] = Some (more, h1, y)" "same_request http h1"
    "if more then \<exists>k' d'. sent http body k d @ y = sent http body k' d' \<and> iter_in h1 k' d' \<and> h_out_offset h1 - it_prefix (h_iter h1) = need h1 k' d'
     else sent http body k d @ y = range_reply http body" by (fastforce split: if_splits)
  have run: "send_body body (n # ns) http out = (if more then send_body body ns h1 (out @ y) else Some (False, h1, out @ y))"
    using m(1) by (simp add: off_def)
  show ?case
  proof (cases more)
    case False
    then show ?thesis using run m(3) by auto
  next
    case True
    then obtain k1 d1 where k1: "sent http body k d @ y = sent http body k1 d1" "iter_in h1 k1 d1" "h_out_offset h1 - it_prefix (h_iter h1) = need h1 k1 d1"
      using m(3) by auto
    note p = same_request_parts [OF m(2)] same_request_need [OF m(2)]
    have kl: "k1 < length (h_range h1)" using k1(2) by (simp add: iter_in_def)
    have ok1: "ranges_ok h1 body" using Cons.prems(1) p by simp
    have "feed_from h1 k1 d1 (h_out_offset h1 - it_prefix (h_iter h1))"
      using k1(3) ranges_okD(1) [OF ok1 kl] by (simp add: feed_from_def need_def)
    then obtain more' h2 x where x: "send_body body ns h1 (out @ y) = Some (more', h2, (out @ y) @ x)"
      "if more' then \<exists>k' d'. ns = [] \<and> x = [] \<or> sent h1 body k1 d1 @ x = sent h1 body k' d' \<and> iter_in h2 k' d' \<and> same_request h1 h2
       else sent h1 body k1 d1 @ x = range_reply h1 body"
      using Cons.IH [OF ok1, of k1 d1 "out @ y"] k1(2) m(2) Cons.prems(3) by (auto simp: same_request_def)
    have st: "ns = [] \<Longrightarrow> more' \<and> h2 = h1 \<and> x = []" using x(1) by auto
    show ?thesis
    proof (cases more')
      case False
      then show ?thesis using run True x k1(1) p by (intro exI [of _ False] exI [of _ h2] exI [of _ "y @ x"]) (simp flip: append_assoc)
    next
      case T: True
      have "\<exists>k' d'. sent http body k d @ (y @ x) = sent http body k' d' \<and> iter_in h2 k' d' \<and> same_request http h2"
        using x(2) T st k1(1,2) p m(2) same_request_trans [OF m(2)] by (metis append.right_neutral append_assoc)
      then show ?thesis using run True T x(1) by (intro exI [of _ True] exI [of _ h2] exI [of _ "y @ x"]) auto
    qed
  qed
qed auto

lemma send_body_ends:
  assumes "ranges_ok http body" "iter_in http k d" "0 < it_prefix (h_iter http)" "h_out_offset http - it_prefix (h_iter http) = need http k d"
    "\<forall>n \<in> set ns. 0 < n" "range_total http \<le> sent_bytes http k d + length ns"
  shows "\<exists>http' out'. send_body body ns http out = Some (False, http', out')"
  using assms
proof (induction ns arbitrary: http k d out)
  case Nil
  then show ?case using sent_bytes_less [OF Nil.prems(2)] by simp
next
  case (Cons n ns)
  have k: "k < length (h_range http)" "int d < rs_length (h_range http ! k)" using Cons.prems(2) by (auto simp: iter_in_def)
  note r = ranges_okD [OF Cons.prems(1) k(1)]
  have f: "feed_from http k d (need http k d)" using r(1) by (simp add: feed_from_def need_def)
  define buf where "buf = take n (drop (nat (need http k d)) body)"
  have "nat (need http k d) < length body" using r k(2) by (auto simp: need_def)
  then have ne: "buf \<noteq> []" using Cons.prems(5) by (simp add: buf_def)
  have "\<exists>more h1 y. clientPackMoreRanges http buf [] = Some (more, h1, [] @ y) \<and> same_request http h1 \<and>
    (if more then \<exists>k' d'. sent http body k d @ y = sent http body k' d' \<and> iter_in h1 k' d' \<and>
       h_out_offset h1 - it_prefix (h_iter h1) = need h1 k' d' \<and> sent_bytes http k d + (if buf \<noteq> [] \<and> need http k d = need http k d then 1 else 0) \<le> sent_bytes http k' d'
     else sent http body k d @ y = range_reply http body)"
    by (rule pack_more_ok [OF Cons.prems(1) _ _ Cons.prems(3) f buf_def]) (use Cons.prems(2,4) in auto)
  then obtain more h1 y where m: "clientPackMoreRanges http buf [] = Some (more, h1, [] @ y)" "same_request http h1" and big:
    "if more then \<exists>k' d'. sent http body k d @ y = sent http body k' d' \<and> iter_in h1 k' d' \<and>
       h_out_offset h1 - it_prefix (h_iter h1) = need h1 k' d' \<and> sent_bytes http k d + (if buf \<noteq> [] \<and> need http k d = need http k d then 1 else 0) \<le> sent_bytes http k' d'
     else sent http body k d @ y = range_reply http body" by blast
  have run: "send_body body (n # ns) http out = (if more then send_body body ns h1 (out @ y) else Some (False, h1, out @ y))"
    using m(1) Cons.prems(4) by (simp add: buf_def)
  show ?case
  proof (cases more)
    case True
    then obtain k' d' where k': "iter_in h1 k' d'" "h_out_offset h1 - it_prefix (h_iter h1) = need h1 k' d'" "sent_bytes http k d + 1 \<le> sent_bytes http k' d'"
      using big ne by (simp only: if_True not_False_eq_True simp_thms) blast
    note p = same_request_parts(4) [OF m(2)] same_request_need [OF m(2)]
    have "range_total h1 = range_total http" using m(2) by (simp add: range_total_def same_request_def)
    then have "\<exists>http' out'. send_body body ns h1 (out @ y) = Some (False, http', out')"
      using Cons.prems k' p m(2) by (intro Cons.IH [of h1 k' d']) (auto simp: same_request_def)
    then show ?thesis using run True by simp
  qed (use run in simp)
qed

text \<open>The length the client side announces.\<close>

lemma mrange_clen:
  assumes "ranges_ok http body" "1 < length (h_range http)" "\<forall>spec \<in> set r. spec_inside (int (length body)) spec"
  shows "mrange_clen_from http n r =
    Some (n + int (length (concat (map (whole_part http body) r) @ clientPackTermBound (it_boundary (h_iter http)))))"
  using assms(3)
proof (induction r arbitrary: n)
  case (Cons spec r)
  obtain t where t: "clientPackRangeHdr http spec (it_boundary (h_iter http)) = Some t" using clientPackRangeHdr_ok [OF assms(1)] by blast
  have "int (length (part_data body spec)) = rs_length spec" using Cons.prems by (auto simp: part_data_def spec_inside_def)
  then have "int (length (whole_part http body spec)) = int (length t) + rs_length spec" using t assms(2) by (simp add: whole_part_def part_header_def)
  then show ?case using Cons t by simp
qed simp

lemma range_reply_length:
  assumes "ranges_ok http body" "h_range http \<noteq> []"
  shows "int (length (range_reply http body)) = (if length (h_range http) = 1 then rs_length (h_range http ! 0) else the (clientMRangeCLen http))"
proof (cases "length (h_range http) = 1")
  case True
  then obtain spec where "h_range http = [spec]" by (metis One_nat_def length_0_conv length_Suc_conv)
  moreover have "spec_inside (int (length body)) spec" using assms(1) calculation by (simp add: ranges_ok_def)
  ultimately show ?thesis by (auto simp: range_reply_def whole_part_def part_header_def part_data_def spec_inside_def)
next
  case False
  then have "1 < length (h_range http)" using assms(2) by (cases "h_range http") auto
  then show ?thesis using mrange_clen [OF assms(1), of "h_range http" 0] assms(1) False
    by (simp add: clientMRangeCLen_def range_reply_def ranges_ok_def)
qed

text \<open>What \<open>clientBuildRangeHeader\<close> has established when it decides to do ranges.\<close>

lemma build_ok:
  assumes "clientBuildRangeHeader bi http = Some (Some (clen, hdr, http1))" "\<forall>spec \<in> set (h_range http). spec_wf spec"
    "h_content_length http = int (length body)"
  shows "ranges_ok http1 body \<and> h_range http1 \<noteq> [] \<and> clen = int (length (range_reply http1 body)) \<and>
    it_pos (h_iter http1) = it_pos (h_iter http) \<and> it_debt (h_iter http1) = it_debt (h_iter http) \<and>
    it_prefix (h_iter http1) = it_prefix (h_iter http) \<and> h_out_offset http1 = h_out_offset http \<and>
    map spec_bytes (h_range http1) = filter (\<lambda>b. b \<noteq> {}) (map (wanted (int (length body))) (h_range http))"
proof -
  obtain r where r: "httpHdrRangeCanonize (h_range http) (int (length body)) = Some (r \<noteq> [], r)"
    "map spec_bytes r = filter (\<lambda>b. b \<noteq> {}) (map (wanted (int (length body))) (h_range http))" "\<forall>spec \<in> set r. spec_inside (int (length body)) spec"
    using canonize_specs_ok [OF assms(2), of "int (length body)"] by (auto simp: httpHdrRangeCanonize_def merge_specs_id)
  have ne: "bi_content_length bi = int (length body)" "r \<noteq> []" "\<not> httpHdrRangeIsComplex r"
    "announce_ranges bi (http\<lparr>h_range := r\<rparr>) = Some (clen, hdr, http1)"
    using assms(1,3) r(1) by (auto simp: clientBuildRangeHeader_def bind_eq_Some_conv split: if_splits)
  have "length r = 1 \<Longrightarrow> http1 = http\<lparr>h_range := r\<rparr> \<and> clen = rs_length (r ! 0)"
    using ne(4) by (auto simp: announce_ranges_def bind_eq_Some_conv)
  moreover have "length r \<noteq> 1 \<Longrightarrow> \<exists>b. http1 = http\<lparr>h_range := r, h_iter := (h_iter http)\<lparr>it_boundary := b\<rparr>\<rparr> \<and> clientMRangeCLen http1 = Some clen"
    using ne(4) by (auto simp: announce_ranges_def bind_eq_Some_conv Let_def)
  moreover note ne = ne calculation
  have "\<exists>b. http1 = http\<lparr>h_range := r, h_iter := (h_iter http)\<lparr>it_boundary := b\<rparr>\<rparr>"
  proof (cases "length r = 1")
    case True
    then show ?thesis using ne(5) by (intro exI [of _ "it_boundary (h_iter http)"]) simp
  qed (use ne(6) in blast)
  then obtain b where h1: "http1 = http\<lparr>h_range := r, h_iter := (h_iter http)\<lparr>it_boundary := b\<rparr>\<rparr>" ..
  have f: "h_range http1 = r" "h_content_length http1 = int (length body)" "it_pos (h_iter http1) = it_pos (h_iter http)"
    "it_debt (h_iter http1) = it_debt (h_iter http)" "it_prefix (h_iter http1) = it_prefix (h_iter http)" "h_out_offset http1 = h_out_offset http"
    using assms(3) by (simp_all add: h1)
  have ok: "ranges_ok http1 body" using f(1,2) r(3) ne(3) by (simp add: ranges_ok_def)
  have "clen = int (length (range_reply http1 body))"
  proof (cases "length r = 1")
    case True
    then show ?thesis using range_reply_length [OF ok] ne(2,5) f(1) by simp
  next
    case False
    then have "clientMRangeCLen http1 = Some clen" using ne(6) by blast
    then show ?thesis using range_reply_length [OF ok] ne(2) f(1) False by simp
  qed
  then show ?thesis using ok f r(2) ne(2) by simp
qed

subsection \<open>Properties\<close>

text \<open>C7: A range request is answered with exactly the requested bytes and the announced length. If the
  client side decides to do ranges, then, however the store cuts the body into buffers, the assembly
  fails none of its assertions, what it has sent is always the beginning of the reply that
  consists of the requested ranges in order, each with its header and closed by the
  final boundary if there are several, and when it needs no more data it has sent all of it, as many
  bytes as were announced. It comes to that end once the store has delivered as many non-empty buffers as the ranges have bytes.\<close>
theorem range_reply_complete:
  assumes "clientBuildRangeHeader bi http = Some (Some (clen, hdr, http1))" "\<forall>spec \<in> set (h_range http). spec_wf spec"
    and "h_content_length http = int (length body)" "0 < it_prefix (h_iter http)" "h_out_offset http = it_prefix (h_iter http)"
    and "it_pos (h_iter http) = - 1" "it_debt (h_iter http) = 0" "\<forall>n \<in> set ns. 0 < n"
  shows "\<exists>more http' out. send_body body (0 # ns) http1 [] = Some (more, http', out) \<and>
    (\<exists>rest. out @ rest = range_reply http1 body) \<and>
    (\<not> more \<longrightarrow> out = range_reply http1 body \<and> int (length out) = clen) \<and> (range_total http1 \<le> length ns \<longrightarrow> \<not> more) \<and>
    map spec_bytes (h_range http1) = filter (\<lambda>b. b \<noteq> {}) (map (wanted (int (length body))) (h_range http))"
proof -
  have b: "ranges_ok http1 body" "h_range http1 \<noteq> []" "clen = int (length (range_reply http1 body))" "it_pos (h_iter http1) = - 1"
    "it_debt (h_iter http1) = 0" "0 < it_prefix (h_iter http1)" "h_out_offset http1 - it_prefix (h_iter http1) = 0"
    "map spec_bytes (h_range http1) = filter (\<lambda>b. b \<noteq> {}) (map (wanted (int (length body))) (h_range http))"
    using build_ok [OF assms(1-3)] assms(4-7) by auto
  have k0: "0 < length (h_range http1)" using b(2) by simp
  have nx: "iter_next http1 0" using b(4,5) by (simp add: iter_next_def)
  have f: "feed_from http1 0 0 0" using ranges_okD(1) [OF b(1) k0] by (simp add: feed_from_def need_def)
  have s0: "sent http1 body 0 0 = []" "sent_bytes http1 0 0 = 0" by (simp_all add: sent_def sent_bytes_def)
  have P: "iter_in http1 0 0 \<or> iter_next http1 0 \<and> (0::nat) = 0 \<and> 0 < length (h_range http1)" using nx k0 by simp
  have F: "feed_from http1 0 0 (h_out_offset http1 - it_prefix (h_iter http1))" using f b(7) by simp
  obtain more http' x where x: "send_body body (0 # ns) http1 [] = Some (more, http', [] @ x)" and big:
    "if more then \<exists>k' d'. 0 # ns = [] \<and> x = [] \<or> sent http1 body 0 0 @ x = sent http1 body k' d' \<and> iter_in http' k' d' \<and> same_request http1 http'
     else sent http1 body 0 0 @ x = range_reply http1 body" using send_body_ok [OF b(1) P b(6) F] by blast
  have all: "x = range_reply http1 body" if "\<not> more" using big that by (simp add: s0)
  have "\<exists>rest. x @ rest = range_reply http1 body"
  proof (cases more)
    case True
    then obtain k' d' where k': "x = sent http1 body k' d'" "iter_in http' k' d'" "same_request http1 http'"
      using big by (auto simp: s0)
    note p = same_request_parts [OF k'(3)]
    from sent_prefix [OF _ k'(2), of body] show ?thesis using b(1) k'(1) p by simp
  qed (use all in simp)
  moreover have "\<not> more" if t: "range_total http1 \<le> length ns"
  proof -
    have "[] = take 0 (drop (nat (h_out_offset http1 - it_prefix (h_iter http1))) body)" by simp
    from pack_more_ok [OF b(1) P refl b(6) F this, of "[]"] obtain more1 h1 y where m: "clientPackMoreRanges http1 [] [] = Some (more1, h1, [] @ y)"
      "same_request http1 h1" and m3: "more1 \<Longrightarrow> \<exists>k' d'. iter_in h1 k' d' \<and> h_out_offset h1 - it_prefix (h_iter h1) = need h1 k' d'" by metis
    show "\<not> more"
    proof (cases more1)
      case True
      then obtain k' d' where k': "iter_in h1 k' d'" "h_out_offset h1 - it_prefix (h_iter h1) = need h1 k' d'" using m3 by blast
      have "ranges_ok h1 body" "0 < it_prefix (h_iter h1)" "range_total h1 = range_total http1"
        using m(2) b(1,6) same_request_parts(4) [OF m(2)] by (auto simp: same_request_def range_total_def)
      then have "\<exists>h2 o2. send_body body ns h1 y = Some (False, h2, o2)"
        using send_body_ends [OF _ k'(1) _ k'(2) assms(8), of body y] t by simp
      then show ?thesis using x(1) m(1) True by auto
    next
      case False
      then show ?thesis using x(1) m(1) by auto
    qed
  qed
  ultimately show ?thesis using x all b(3,8) by (intro exI [of _ more] exI [of _ http'] exI [of _ x]) auto
qed

text \<open>A request for the first two and the last two bytes of a body of six.\<close>

definition demo_range_http :: range_http where
  "demo_range_http = \<lparr>h_range = [\<lparr>rs_offset = 0, rs_length = 2\<rparr>, \<lparr>rs_offset = - 1, rs_length = 2\<rparr>],
     h_iter = \<lparr>it_pos = - 1, it_spec = None, it_debt = 0, it_prefix = 100, it_boundary = []\<rparr>,
     h_out_offset = 100, h_content_length = 6, h_content_type = Some ''video/mp4''\<rparr>"

definition demo_build :: build_input where
  "demo_build = \<lparr>bi_has_reply = True, bi_status = 200, bi_has_content_range = False, bi_content_length = 6, bi_if_range = None, bi_etag = None,
     bi_lastmod = - 1, bi_cachable = True, bi_hit = True, bi_offset_limit = 0, bi_boundary = Some ''squid:K''\<rparr>"

theorem range_reply_complete_witness:
  "\<exists>clen hdr http1 http' out. clientBuildRangeHeader demo_build demo_range_http = Some (Some (clen, hdr, http1)) \<and>
    send_body ''abcdef'' [0, 3, 1, 4, 4] http1 [] = Some (False, http', out) \<and> int (length out) = clen \<and> out = range_reply http1 ''abcdef''"
proof -
  obtain clen hdr http1 where b: "clientBuildRangeHeader demo_build demo_range_http = Some (Some (clen, hdr, http1))" "range_total http1 = 4"
    by (simp add: clientBuildRangeHeader_def announce_ranges_def demo_build_def demo_range_http_def httpHdrRangeCanonize_def httpHdrRangeSpecCanonize_def
        known_spec_def range_spec_unknown_def size_diff_def size_min_def merge_specs_id httpHdrRangeIsComplex_def clientMRangeCLen_def
        clientPackRangeHdr_def httpHdrContRangeSet_def range_total_def)
  have w: "\<forall>spec \<in> set (h_range demo_range_http). spec_wf spec" "h_content_length demo_range_http = int (length ''abcdef'')"
    "0 < it_prefix (h_iter demo_range_http)" "h_out_offset demo_range_http = it_prefix (h_iter demo_range_http)"
    "it_pos (h_iter demo_range_http) = - 1" "it_debt (h_iter demo_range_http) = 0" "\<forall>n \<in> set [3, 1, 4, 4]. (0::nat) < n"
    by (simp_all add: demo_range_http_def spec_wf_def)
  from range_reply_complete [OF b(1) w] obtain http' out where "send_body ''abcdef'' (0 # [3, 1, 4, 4]) http1 [] = Some (False, http', out)"
    "int (length out) = clen" "out = range_reply http1 ''abcdef''" using b(2) by auto
  then show ?thesis using b(1) by blast
qed

end
