(* ===== verification/Disk.thy ===== *)
theory Disk
  imports Cbdata
begin

section \<open>Disk files (disk.c, fd.c)\<close>

text \<open>
  Files are written through a queue per descriptor. \<open>file_write\<close> appends a block and tries to
  write at once; what the system does not take is written when the select loop calls
  \<open>diskHandleWrite\<close> again, and several waiting blocks are joined first. After each attempt the
  writer is called back, unless its data became invalid. A close is delayed until the queue is
  empty.

  The queue \<open>write_q\<close> to \<open>write_q_tail\<close> is a list. A block has its \<open>len\<close> bytes; the buffer
  that \<open>free_func\<close> is called on when the block is done is named by a number and recorded in
  \<open>d_freed\<close>, and \<open>None\<close> stands for a buffer that belongs to this file. A descriptor that is
  not open has no \<open>fde\<close>. The state is extensible, because the functions called back, which
  are arguments, work on the state of the whole program.

  The system calls are an argument too: \<open>os\<close> gives the outcome of the \<open>n\<close>-th call. What is
  relied on is \<open>posix\<close>: a call transfers at most what it was asked for.
\<close>

subsection \<open>The operating system\<close>

datatype errno = EINPROGRESS | EWOULDBLOCK | EALREADY | EINTR | ERESTART | ENOSPC | Errno int

datatype io_result = Done nat | Failed errno

record os =
  os_open :: "nat \<Rightarrow> int + errno"
  os_write :: "nat \<Rightarrow> nat \<Rightarrow> io_result"
  os_read :: "nat \<Rightarrow> nat \<Rightarrow> io_result"

definition posix :: "os \<Rightarrow> bool" where
  "posix os \<longleftrightarrow> (\<forall>n len k. os_write os n len = Done k \<longrightarrow> k \<le> len) \<and>
     (\<forall>n len k. os_read os n len = Done k \<longrightarrow> k \<le> len)"

text \<open>\<open>ignoreErrno\<close> of comm.c.\<close>

fun ignoreErrno :: "errno \<Rightarrow> bool" where
  "ignoreErrno EINPROGRESS = True"
| "ignoreErrno EWOULDBLOCK = True"
| "ignoreErrno EALREADY = True"
| "ignoreErrno EINTR = True"
| "ignoreErrno ERESTART = True"
| "ignoreErrno _ = False"

text \<open>The contents of a file after bytes were written at a position; a gap is filled with zeros.\<close>

definition file_put :: "8 word list \<Rightarrow> nat \<Rightarrow> 8 word list \<Rightarrow> 8 word list" where
  "file_put c pos bytes = take pos c @ replicate (pos - length c) 0 @ bytes @ drop (pos + length bytes) c"

subsection \<open>State\<close>

definition DISK_OK :: int where [simp]: "DISK_OK = 0"
definition DISK_ERROR :: int where [simp]: "DISK_ERROR = - 1"
definition DISK_EOF :: int where [simp]: "DISK_EOF = - 2"
definition DISK_NO_SPACE_LEFT :: int where "DISK_NO_SPACE_LEFT = - 6"

datatype access = O_RDONLY | O_WRONLY | O_RDWR

record open_mode =
  o_access :: access
  o_creat :: bool
  o_trunc :: bool
  o_append :: bool

record dwrite_q =
  q_file_offset :: int
  q_buf :: "8 word list"
  q_buf_offset :: nat
  q_free :: "nat option"

record dread_ctrl =
  rc_file_offset :: int
  rc_req_len :: nat
  rc_handler :: addr
  rc_client_data :: "addr option"

record fde =
  f_path :: string
  f_append :: bool
  f_pos :: int
  f_write_q :: "dwrite_q list"
  f_wrt_handle :: "addr option"
  f_wrt_handle_data :: "addr option"
  f_disk_offset :: int
  f_read :: "dread_ctrl option"
  f_write_handler :: bool
  f_write_daemon :: bool
  f_close_request :: bool

record disk =
  d_fds :: "int \<Rightarrow> fde option"
  d_files :: "string \<Rightarrow> 8 word list option"
  d_cb :: cb_state
  d_freed :: "nat list"
  d_calls :: nat

definition put_fd :: "'a disk_scheme \<Rightarrow> int \<Rightarrow> fde \<Rightarrow> 'a disk_scheme" where
  "put_fd w fd F = w\<lparr>d_fds := (d_fds w)(fd \<mapsto> F)\<rparr>"

subsection \<open>Opening and closing\<close>

text \<open>\<open>fd_open\<close> and \<open>fd_close\<close> of fd.c.\<close>

definition fd_close :: "'a disk_scheme \<Rightarrow> int \<Rightarrow> 'a disk_scheme option" where
  "fd_close w fd = do {
     F \<leftarrow> d_fds w fd;
     c_assert (f_read F = None);
     c_assert (\<not> f_write_handler F);
     Some (w\<lparr>d_fds := (d_fds w)(fd := None)\<rparr>) }"

definition fd_open :: "'a disk_scheme \<Rightarrow> int \<Rightarrow> string \<Rightarrow> bool \<Rightarrow> 'a disk_scheme option" where
  "fd_open w fd path app = do {
     c_assert (0 \<le> fd);
     w \<leftarrow> (if d_fds w fd \<noteq> None then fd_close w fd else Some w);
     Some (put_fd w fd
       \<lparr>f_path = path, f_append = app, f_pos = 0, f_write_q = [], f_wrt_handle = None, f_wrt_handle_data = None,
        f_disk_offset = 0, f_read = None, f_write_handler = False, f_write_daemon = False, f_close_request = False\<rparr>) }"

text \<open>The descriptor, negative on failure; the system creates or empties the file.\<close>

definition file_open :: "os \<Rightarrow> 'a disk_scheme \<Rightarrow> string \<Rightarrow> open_mode \<Rightarrow> (int \<times> 'a disk_scheme) option" where
  "file_open os w path mode =
     (let mode = (if o_access mode = O_WRONLY then mode\<lparr>o_append := True\<rparr> else mode);
          result = (if d_files w path = None \<and> \<not> o_creat mode then Inr (Errno 2) else os_open os (d_calls w));
          w = w\<lparr>d_calls := d_calls w + 1\<rparr>
      in case result of
           Inr _ \<Rightarrow> Some (DISK_ERROR, w)
         | Inl fd \<Rightarrow> do {
             let w = (if d_files w path = None \<or> o_trunc mode then w\<lparr>d_files := (d_files w)(path \<mapsto> [])\<rparr> else w);
             w \<leftarrow> fd_open w fd path (o_append mode);
             Some (fd, w) })"

definition file_close :: "'a disk_scheme \<Rightarrow> int \<Rightarrow> 'a disk_scheme option" where
  "file_close w fd = do {
     c_assert (0 \<le> fd);
     F \<leftarrow> d_fds w fd;
     let F = F\<lparr>f_read := None\<rparr>;
     if f_write_daemon F then Some (put_fd w fd (F\<lparr>f_close_request := True\<rparr>))
     else do {
       c_assert (\<not> f_write_handler F);
       fd_close (put_fd w fd F) fd } }"

subsection \<open>Writing\<close>

text \<open>Joining the blocks of the queue. The new block has no file offset of its own: its memory is
  zeroed on allocation.\<close>

definition q_rest :: "dwrite_q \<Rightarrow> 8 word list" where
  "q_rest q = drop (q_buf_offset q) (q_buf q)"

definition frees :: "dwrite_q list \<Rightarrow> nat list" where
  "frees qs = concat (map (\<lambda>q. case q_free q of None \<Rightarrow> [] | Some p \<Rightarrow> [p]) qs)"

definition diskCombineWrites :: "dwrite_q list \<Rightarrow> dwrite_q list \<times> nat list" where
  "diskCombineWrites qs =
     (if 2 \<le> length qs
      then ([\<lparr>q_file_offset = 0, q_buf = concat (map q_rest qs), q_buf_offset = 0, q_free = None\<rparr>], frees qs)
      else (qs, []))"

text \<open>The write itself: the file afterwards, for the bytes that were taken.\<close>

definition sys_write :: "'a disk_scheme \<Rightarrow> fde \<Rightarrow> 8 word list \<Rightarrow> (fde \<times> 'a disk_scheme) option" where
  "sys_write w F bytes = do {
     c \<leftarrow> d_files w (f_path F);
     let pos = (if f_append F then length c else nat (f_pos F));
     Some (F\<lparr>f_pos := int (pos + length bytes)\<rparr>, w\<lparr>d_files := (d_files w)(f_path F \<mapsto> file_put c pos bytes)\<rparr>) }"

text \<open>The first half of \<open>diskHandleWrite\<close>: one attempt to write the first block \<open>q\<close>. The result has the
  status, the bytes written and the queue.\<close>

definition write_attempt ::
  "os \<Rightarrow> 'a disk_scheme \<Rightarrow> fde \<Rightarrow> dwrite_q \<Rightarrow> dwrite_q list \<Rightarrow> (int \<times> nat \<times> fde \<times> 'a disk_scheme) option" where
  "write_attempt os w F q qs = do {
     c_assert (q_buf_offset q < length (q_buf q));
     let F = (if q_file_offset q \<noteq> - 1 then F\<lparr>f_pos := q_file_offset q\<rparr> else F);
     let result = os_write os (d_calls w) (length (q_rest q));
     let w = w\<lparr>d_calls := d_calls w + 1\<rparr>;
     case result of
       Done len \<Rightarrow> do {
         (F, w) \<leftarrow> sys_write w F (take len (q_rest q));
         let q = q\<lparr>q_buf_offset := q_buf_offset q + len\<rparr>;
         c_assert (q_buf_offset q \<le> length (q_buf q));
         if q_buf_offset q = length (q_buf q)
         then Some (DISK_OK, len, F\<lparr>f_write_q := qs\<rparr>, w\<lparr>d_freed := d_freed w @ frees [q]\<rparr>)
         else Some (DISK_OK, len, F\<lparr>f_write_q := q # qs\<rparr>, w) }
     | Failed e \<Rightarrow>
         if ignoreErrno e then Some (DISK_OK, 0, F, w)
         else do {
           c_assert (f_wrt_handle F \<noteq> None);
           Some (if e = ENOSPC then DISK_NO_SPACE_LEFT else DISK_ERROR, 0, F\<lparr>f_write_q := []\<rparr>,
                 w\<lparr>d_freed := d_freed w @ frees (q # qs)\<rparr>) } }"

text \<open>The second half, up to the callback: what is left waits for the select loop.\<close>

definition requeue :: "'a disk_scheme \<Rightarrow> int \<Rightarrow> fde \<Rightarrow> 'a disk_scheme option" where
  "requeue w fd F =
     (if f_write_q F = [] then Some (put_fd w fd F)
      else case diskCombineWrites (f_write_q F) of (qs, freed) \<Rightarrow> do {
        cb \<leftarrow> cbdataLock (d_cb w) (f_wrt_handle_data F);
        Some (put_fd (w\<lparr>d_cb := cb, d_freed := d_freed w @ freed\<rparr>) fd
               (F\<lparr>f_write_q := qs, f_write_handler := True, f_write_daemon := True\<rparr>)) })"

definition diskHandleWrite ::
  "os \<Rightarrow> (addr \<Rightarrow> int \<Rightarrow> int \<Rightarrow> nat \<Rightarrow> addr option \<Rightarrow> 'a disk_scheme \<Rightarrow> 'a disk_scheme option) \<Rightarrow>
   'a disk_scheme \<Rightarrow> int \<Rightarrow> 'a disk_scheme option" where
  "diskHandleWrite os H w fd =
     (case d_fds w fd of
        None \<Rightarrow> Some w
      | Some F \<Rightarrow>
          (case f_write_q F of
             [] \<Rightarrow> Some w
           | q # qs \<Rightarrow> do {
               (status, len, F, w) \<leftarrow> write_attempt os w (F\<lparr>f_write_daemon := False\<rparr>) q qs;
               w \<leftarrow> requeue w fd F;
               let do_close = f_close_request F;
               case f_wrt_handle F of
                 None \<Rightarrow> if do_close then file_close w fd else Some w
               | Some handle \<Rightarrow> do {
                   do_callback \<leftarrow> cbdataValid (d_cb w) (f_wrt_handle_data F);
                   cb \<leftarrow> cbdataUnlock (d_cb w) (f_wrt_handle_data F);
                   let w = w\<lparr>d_cb := cb\<rparr>;
                   if do_callback then H handle fd status len (f_wrt_handle_data F) w
                   else if do_close then file_close w fd else Some w } }))"

text \<open>The select loop calls the handler that is waiting, once (\<open>comm_call_handlers\<close>).\<close>

definition write_ready ::
  "os \<Rightarrow> (addr \<Rightarrow> int \<Rightarrow> int \<Rightarrow> nat \<Rightarrow> addr option \<Rightarrow> 'a disk_scheme \<Rightarrow> 'a disk_scheme option) \<Rightarrow>
   'a disk_scheme \<Rightarrow> int \<Rightarrow> 'a disk_scheme option" where
  "write_ready os H w fd =
     (case d_fds w fd of
        None \<Rightarrow> Some w
      | Some F \<Rightarrow>
          if f_write_handler F then diskHandleWrite os H (put_fd w fd (F\<lparr>f_write_handler := False\<rparr>)) fd
          else Some w)"

definition file_write ::
  "os \<Rightarrow> (addr \<Rightarrow> int \<Rightarrow> int \<Rightarrow> nat \<Rightarrow> addr option \<Rightarrow> 'a disk_scheme \<Rightarrow> 'a disk_scheme option) \<Rightarrow>
   'a disk_scheme \<Rightarrow> int \<Rightarrow> int \<Rightarrow> 8 word list \<Rightarrow> addr option \<Rightarrow> addr option \<Rightarrow> nat option \<Rightarrow> 'a disk_scheme option" where
  "file_write os H w fd file_offset bytes handle handle_data free_func = do {
     c_assert (0 \<le> fd);
     F \<leftarrow> d_fds w fd;
     let wq = \<lparr>q_file_offset = file_offset, q_buf = bytes, q_buf_offset = 0, q_free = free_func\<rparr>;
     let F = F\<lparr>f_wrt_handle := handle, f_wrt_handle_data := handle_data, f_write_q := f_write_q F @ [wq]\<rparr>;
     let w = put_fd w fd F;
     if f_write_daemon F then Some w
     else do {
       cb \<leftarrow> cbdataLock (d_cb w) handle_data;
       diskHandleWrite os H (w\<lparr>d_cb := cb\<rparr>) fd } }"

text \<open>The bytes of a \<open>MemBuf\<close>; \<open>free_func\<close> is what \<open>memBufFreeFunc\<close> returns for it.\<close>

definition file_write_mbuf ::
  "os \<Rightarrow> (addr \<Rightarrow> int \<Rightarrow> int \<Rightarrow> nat \<Rightarrow> addr option \<Rightarrow> 'a disk_scheme \<Rightarrow> 'a disk_scheme option) \<Rightarrow>
   'a disk_scheme \<Rightarrow> int \<Rightarrow> int \<Rightarrow> 8 word list \<Rightarrow> addr option \<Rightarrow> addr option \<Rightarrow> nat option \<Rightarrow> 'a disk_scheme option" where
  "file_write_mbuf os H w fd file_offset mb handler handler_data free_func =
     file_write os H w fd file_offset mb handler handler_data free_func"

subsection \<open>Reading\<close>

text \<open>\<open>R\<close> stands for the functions that are called with the bytes read.\<close>

definition diskHandleRead ::
  "os \<Rightarrow> (addr \<Rightarrow> int \<Rightarrow> 8 word list \<Rightarrow> int \<Rightarrow> addr option \<Rightarrow> 'a disk_scheme \<Rightarrow> 'a disk_scheme option) \<Rightarrow>
   'a disk_scheme \<Rightarrow> int \<Rightarrow> dread_ctrl \<Rightarrow> 'a disk_scheme option" where
  "diskHandleRead os R w fd ctrl = do {
     F \<leftarrow> d_fds w fd;
     let F = (if f_disk_offset F \<noteq> rc_file_offset ctrl
              then F\<lparr>f_pos := rc_file_offset ctrl, f_disk_offset := rc_file_offset ctrl\<rparr> else F);
     c \<leftarrow> d_files w (f_path F);
     let bytes = take (rc_req_len ctrl) (drop (nat (f_pos F)) c);
     let result = os_read os (d_calls w) (length bytes);
     let w = w\<lparr>d_calls := d_calls w + 1\<rparr>;
     (rc, got, F) \<leftarrow> Some
       (case result of
          Done k \<Rightarrow> (if k = 0 then DISK_EOF else DISK_OK, take k bytes,
                     F\<lparr>f_pos := f_pos F + int k, f_disk_offset := f_disk_offset F + int k\<rparr>)
        | Failed e \<Rightarrow> (DISK_ERROR, [], F));
     if (case result of Failed e \<Rightarrow> ignoreErrno e | _ \<Rightarrow> False)
     then Some (put_fd w fd (F\<lparr>f_read := Some ctrl\<rparr>))
     else do {
       let w = put_fd w fd F;
       valid \<leftarrow> cbdataValid (d_cb w) (rc_client_data ctrl);
       w \<leftarrow> (if valid then R (rc_handler ctrl) fd got rc (rc_client_data ctrl) w else Some w);
       cb \<leftarrow> cbdataUnlock (d_cb w) (rc_client_data ctrl);
       Some (w\<lparr>d_cb := cb\<rparr>) } }"

definition read_ready ::
  "os \<Rightarrow> (addr \<Rightarrow> int \<Rightarrow> 8 word list \<Rightarrow> int \<Rightarrow> addr option \<Rightarrow> 'a disk_scheme \<Rightarrow> 'a disk_scheme option) \<Rightarrow>
   'a disk_scheme \<Rightarrow> int \<Rightarrow> 'a disk_scheme option" where
  "read_ready os R w fd =
     (case d_fds w fd of
        None \<Rightarrow> Some w
      | Some F \<Rightarrow>
          (case f_read F of
             None \<Rightarrow> Some w
           | Some ctrl \<Rightarrow> diskHandleRead os R (put_fd w fd (F\<lparr>f_read := None\<rparr>)) fd ctrl))"

definition file_read ::
  "os \<Rightarrow> (addr \<Rightarrow> int \<Rightarrow> 8 word list \<Rightarrow> int \<Rightarrow> addr option \<Rightarrow> 'a disk_scheme \<Rightarrow> 'a disk_scheme option) \<Rightarrow>
   'a disk_scheme \<Rightarrow> int \<Rightarrow> nat \<Rightarrow> int \<Rightarrow> addr \<Rightarrow> addr option \<Rightarrow> 'a disk_scheme option" where
  "file_read os R w fd req_len file_offset handler client_data = do {
     c_assert (0 \<le> fd);
     cb \<leftarrow> cbdataLock (d_cb w) client_data;
     diskHandleRead os R (w\<lparr>d_cb := cb\<rparr>) fd
       \<lparr>rc_file_offset = file_offset, rc_req_len = req_len, rc_handler = handler, rc_client_data = client_data\<rparr> }"

subsection \<open>What an attempt to write does\<close>

text \<open>The bytes a descriptor still has to write.\<close>

definition fd_pending :: "fde \<Rightarrow> 8 word list" where
  "fd_pending F = concat (map q_rest (f_write_q F))"

definition blocks_ok :: "dwrite_q list \<Rightarrow> bool" where
  "blocks_ok qs \<longleftrightarrow> (\<forall>q \<in> set qs. q_buf_offset q < length (q_buf q))"

lemma blocks_ok_simps [simp]:
  "blocks_ok []" "blocks_ok (q # qs) \<longleftrightarrow> q_buf_offset q < length (q_buf q) \<and> blocks_ok qs"
  "blocks_ok (qs @ qs') \<longleftrightarrow> blocks_ok qs \<and> blocks_ok qs'"
  by (auto simp: blocks_ok_def)

lemma q_rest_nonempty: "q_buf_offset q < length (q_buf q) \<Longrightarrow> q_rest q \<noteq> []"
  by (simp add: q_rest_def)

lemma file_put_end [simp]: "file_put c (length c) bytes = c @ bytes"
  by (simp add: file_put_def)

lemma combine_pending:
  assumes "blocks_ok qs" "qs \<noteq> []"
  shows "concat (map q_rest (fst (diskCombineWrites qs))) = concat (map q_rest qs)"
    "blocks_ok (fst (diskCombineWrites qs))" "fst (diskCombineWrites qs) \<noteq> []"
proof -
  have "concat (map q_rest qs) \<noteq> []" using assms by (cases qs) (auto simp: q_rest_nonempty)
  then show "concat (map q_rest (fst (diskCombineWrites qs))) = concat (map q_rest qs)"
    "blocks_ok (fst (diskCombineWrites qs))" "fst (diskCombineWrites qs) \<noteq> []"
    using assms by (simp_all add: diskCombineWrites_def, simp_all add: q_rest_def)
qed

text \<open>How much of the waiting bytes an attempt moves to the file, or that it gave up.\<close>

definition moved :: "8 word list \<Rightarrow> 8 word list \<Rightarrow> int \<Rightarrow> nat \<Rightarrow> 8 word list \<Rightarrow> 8 word list \<Rightarrow> bool" where
  "moved c pend status len c' pend' \<longleftrightarrow>
     (if status = DISK_OK then c' @ pend' = c @ pend \<and> length c' = length c + len
      else c' = c \<and> pend' = [] \<and> len = 0)"

definition attempt_post :: "'a disk_scheme \<Rightarrow> fde \<Rightarrow> 8 word list \<Rightarrow> int \<times> nat \<times> fde \<times> 'a disk_scheme \<Rightarrow> bool" where
  "attempt_post w F c r \<longleftrightarrow> (case r of (status, len, F', w') \<Rightarrow>
     F' = F\<lparr>f_pos := f_pos F', f_write_q := f_write_q F'\<rparr> \<and> blocks_ok (f_write_q F') \<and>
     (\<exists>c'. moved c (fd_pending F) status len c' (fd_pending F') \<and> d_files w' = (d_files w)(f_path F \<mapsto> c')) \<and>
     d_fds w' = d_fds w \<and> d_cb w' = d_cb w \<and> d_calls w' = d_calls w + 1 \<and> disk.more w' = disk.more w)"

lemma write_attempt_ok:
  assumes "posix os" "blocks_ok (q # qs)" "f_write_q F = q # qs" "f_append F" "d_files w (f_path F) = Some c" "f_wrt_handle F \<noteq> None"
  shows "\<exists>r. write_attempt os w F q qs = Some r \<and> attempt_post w F c r"
proof (cases "os_write os (d_calls w) (length (q_rest q))")
  case (Done k)
  have k: "k \<le> length (q_buf q) - q_buf_offset q" using assms(1) Done by (auto simp: posix_def q_rest_def)
  define w1 where "w1 = w\<lparr>d_calls := Suc (d_calls w), d_files := (d_files w)(f_path F \<mapsto> c @ take k (q_rest q))\<rparr>"
  define F1 where "F1 = F\<lparr>f_pos := int (length c + length (take k (q_rest q)))\<rparr>"
  have s: "sys_write (w\<lparr>d_calls := d_calls w + 1\<rparr>) (if q_file_offset q \<noteq> - 1 then F\<lparr>f_pos := q_file_offset q\<rparr> else F) (take k (q_rest q)) = Some (F1, w1)"
    using assms(4,5) by (simp add: sys_write_def F1_def w1_def)
  let ?q = "q\<lparr>q_buf_offset := q_buf_offset q + k\<rparr>"
  have r: "take k (q_rest q) @ q_rest ?q = q_rest q" "length (take k (q_rest q)) = k" and le: "q_buf_offset q + k \<le> length (q_buf q)"
    using k assms(2) by (auto simp: q_rest_def drop_drop [symmetric] add.commute simp del: drop_drop)
  have m: "moved c (fd_pending F) DISK_OK k (c @ take k (q_rest q)) (q_rest ?q @ concat (map q_rest qs))"
    using r assms(3) append_assoc [of "take k (q_rest q)" "q_rest ?q" "concat (map q_rest qs)"] by (simp add: moved_def fd_pending_def)
  define r' where "r' = (if q_buf_offset q + k = length (q_buf q) then (DISK_OK, k, F1\<lparr>f_write_q := qs\<rparr>, w1\<lparr>d_freed := d_freed w1 @ frees [?q]\<rparr>)
    else (DISK_OK, k, F1\<lparr>f_write_q := ?q # qs\<rparr>, w1))"
  have "write_attempt os w F q qs = Some r'" using assms(2) Done s le by (simp add: write_attempt_def r'_def Let_def)
  moreover have "attempt_post w F c r'"
  proof (cases "q_buf_offset q + k = length (q_buf q)")
    case True
    then have "q_rest ?q = []" by (simp add: q_rest_def)
    then show ?thesis using True assms(2) m by (auto simp: attempt_post_def r'_def fd_pending_def F1_def w1_def)
  next
    case False
    then show ?thesis using assms(2) m le by (auto simp: attempt_post_def r'_def fd_pending_def F1_def w1_def)
  qed
  ultimately show ?thesis by blast
next
  case (Failed e)
  define F1 where "F1 = (if q_file_offset q \<noteq> - 1 then F\<lparr>f_pos := q_file_offset q\<rparr> else F)"
  have F1: "F1 = F\<lparr>f_pos := f_pos F1\<rparr>" "f_write_q F1 = f_write_q F" "f_wrt_handle F1 = f_wrt_handle F" by (simp_all add: F1_def)
  show ?thesis
  proof (cases "ignoreErrno e")
    case True
    then have "write_attempt os w F q qs = Some (DISK_OK, 0, F1, w\<lparr>d_calls := d_calls w + 1\<rparr>)"
      using Failed assms(2) by (simp add: write_attempt_def Let_def F1_def)
    moreover have "attempt_post w F c (DISK_OK, 0, F1, w\<lparr>d_calls := d_calls w + 1\<rparr>)"
      using assms F1 by (auto simp: attempt_post_def moved_def fd_pending_def fun_upd_idem)
    ultimately show ?thesis by blast
  next
    case False
    let ?r = "(if e = ENOSPC then DISK_NO_SPACE_LEFT else DISK_ERROR, 0, F1\<lparr>f_write_q := []\<rparr>,
      w\<lparr>d_calls := d_calls w + 1, d_freed := d_freed w @ frees (q # qs)\<rparr>)"
    have "write_attempt os w F q qs = Some ?r"
      using False Failed assms(2,6) F1(3) by (auto simp: write_attempt_def Let_def F1_def)
    moreover have "attempt_post w F c ?r" using assms F1(1)
      by (auto simp: attempt_post_def moved_def fd_pending_def fun_upd_idem DISK_NO_SPACE_LEFT_def)
    ultimately show ?thesis by blast
  qed
qed

text \<open>An attempt on a system that takes bytes moves some.\<close>

definition takes_bytes :: "os \<Rightarrow> nat \<Rightarrow> bool" where
  "takes_bytes os n \<longleftrightarrow> (\<forall>len. 0 < len \<longrightarrow> (\<exists>k. os_write os n len = Done k \<and> 0 < k))"

lemma write_attempt_progress:
  assumes "takes_bytes os (d_calls w)" "write_attempt os w F q qs = Some (status, len, r)"
  shows "status = DISK_OK \<and> 0 < len"
proof -
  have "q_buf_offset q < length (q_buf q)" using assms(2) by (auto simp: write_attempt_def bind_eq_Some_conv)
  then obtain k where "os_write os (d_calls w) (length (q_rest q)) = Done k" "0 < k"
    using assms(1) q_rest_nonempty [of q] by (auto simp: takes_bytes_def)
  then show ?thesis using assms(2) by (auto simp: write_attempt_def Let_def bind_eq_Some_conv split: if_splits)
qed

lemma write_attempt_done:
  assumes "os_write os (d_calls w) (length (q_rest q)) = Done k" "write_attempt os w F q qs = Some (status, len, r)"
  shows "status = DISK_OK \<and> len = k"
  using assms by (auto simp: write_attempt_def Let_def bind_eq_Some_conv split: if_splits)

text \<open>Interrupted calls are not errors.\<close>

definition soft_errors :: "os \<Rightarrow> bool" where
  "soft_errors os \<longleftrightarrow> (\<forall>n len e. os_write os n len = Failed e \<longrightarrow> ignoreErrno e)"

lemma write_attempt_soft:
  assumes "soft_errors os" "write_attempt os w F q qs = Some (status, r)"
  shows "status = DISK_OK"
  using assms by (auto simp: write_attempt_def Let_def bind_eq_Some_conv soft_errors_def split: if_splits io_result.splits)

text \<open>An attempt that the system refuses ends the writing.\<close>

definition refuses :: "os \<Rightarrow> nat \<Rightarrow> bool" where
  "refuses os n \<longleftrightarrow> (\<forall>len. \<exists>e. os_write os n len = Failed e \<and> \<not> ignoreErrno e)"

lemma write_attempt_refused:
  assumes "refuses os (d_calls w)" "write_attempt os w F q qs = Some (status, r)"
  shows "status \<noteq> DISK_OK"
proof -
  obtain e where "os_write os (d_calls w) (length (q_rest q)) = Failed e" "\<not> ignoreErrno e"
    using assms(1) by (auto simp: refuses_def)
  then show ?thesis using assms(2) by (auto simp: write_attempt_def Let_def bind_eq_Some_conv DISK_NO_SPACE_LEFT_def split: if_splits)
qed

text \<open>Dropping one lock.\<close>

definition drop_lock :: "(addr \<Rightarrow> cbdata option) \<Rightarrow> addr \<Rightarrow> cbdata \<Rightarrow> addr \<Rightarrow> cbdata option" where
  "drop_lock m p cd = (if c_valid cd \<or> c_locks cd \<noteq> 1 then m(p \<mapsto> cd\<lparr>c_locks := c_locks cd - 1\<rparr>) else m(p := None))"

text \<open>After the attempt: the state \<open>w1\<close> in which the writer is called back. While blocks are waiting, a lock
  on the callback data is held.\<close>

definition write_post ::
  "'a disk_scheme \<Rightarrow> int \<Rightarrow> fde \<Rightarrow> 8 word list \<Rightarrow> addr \<Rightarrow> cbdata \<Rightarrow> int \<Rightarrow> nat \<Rightarrow> 'a disk_scheme \<Rightarrow> fde \<Rightarrow> 8 word list \<Rightarrow> bool" where
  "write_post w fd F c p cd status len w1 F1 c1 \<longleftrightarrow>
     d_fds w1 = (d_fds w)(fd \<mapsto> F1) \<and>
     F1 = F\<lparr>f_pos := f_pos F1, f_write_q := f_write_q F1, f_write_handler := f_write_q F1 \<noteq> [], f_write_daemon := f_write_q F1 \<noteq> []\<rparr> \<and>
     blocks_ok (f_write_q F1) \<and> moved c (fd_pending F) status len c1 (fd_pending F1) \<and> d_files w1 = (d_files w)(f_path F \<mapsto> c1) \<and>
     cb_inv (d_cb w1) \<and> cbdata_index (d_cb w1) = cbdata_index (d_cb w) \<and>
     cb_mem (d_cb w1) = (if f_write_q F1 \<noteq> [] then cb_mem (d_cb w) else drop_lock (cb_mem (d_cb w)) p cd) \<and>
     d_calls w1 = d_calls w + 1 \<and> disk.more w1 = disk.more w"

lemma requeue_ok:
  assumes "blocks_ok (f_write_q F)" "cb_inv (d_cb w)" "f_wrt_handle_data F = Some p" "cb_mem (d_cb w) p = Some cd"
    "\<not> f_write_handler F" "\<not> f_write_daemon F"
  shows "\<exists>w'. requeue w fd F = Some w' \<and> (\<exists>qs. concat (map q_rest qs) = fd_pending F \<and> blocks_ok qs \<and> (qs = [] \<longleftrightarrow> f_write_q F = []) \<and>
      d_fds w' = (d_fds w)(fd \<mapsto> F\<lparr>f_write_q := qs, f_write_handler := qs \<noteq> [], f_write_daemon := qs \<noteq> []\<rparr>)) \<and>
    d_files w' = d_files w \<and> cb_inv (d_cb w') \<and> cbdata_index (d_cb w') = cbdata_index (d_cb w) \<and> d_calls w' = d_calls w \<and> disk.more w' = disk.more w \<and>
    cb_mem (d_cb w') = (if f_write_q F = [] then cb_mem (d_cb w) else (cb_mem (d_cb w))(p \<mapsto> cd\<lparr>c_locks := c_locks cd + 1\<rparr>))"
proof (cases "f_write_q F = []")
  case True
  have "F = F\<lparr>f_write_q := [], f_write_handler := False, f_write_daemon := False\<rparr>" using True assms(5,6) by simp
  then show ?thesis using True assms(2)
    by (simp add: requeue_def put_fd_def fd_pending_def)
next
  case False
  define qs where "qs = fst (diskCombineWrites (f_write_q F))"
  have qs: "concat (map q_rest qs) = fd_pending F" "blocks_ok qs" "qs \<noteq> []"
    using combine_pending [OF assms(1) False] by (simp_all add: qs_def fd_pending_def)
  obtain freed where d: "diskCombineWrites (f_write_q F) = (qs, freed)" by (metis qs_def prod.collapse)
  show ?thesis using False qs d cbdataLock_ok [OF assms(2,4)] assms(3)
    by (simp add: requeue_def put_fd_def) (rule exI [of _ qs], simp)
qed

lemma diskHandleWrite_ok:
  assumes "posix os" "d_fds w fd = Some F" "f_write_q F \<noteq> []" "blocks_ok (f_write_q F)" "f_append F" "d_files w (f_path F) = Some c"
    "f_wrt_handle F = Some h" "f_wrt_handle_data F = Some p" "\<not> f_write_handler F"
    "cb_inv (d_cb w)" "cb_mem (d_cb w) p = Some cd" "0 < c_locks cd"
  shows "\<exists>w1 F1 c1 status len. write_post w fd F c p cd status len w1 F1 c1 \<and>
    (takes_bytes os (d_calls w) \<longrightarrow> status = DISK_OK \<and> 0 < len) \<and> (refuses os (d_calls w) \<longrightarrow> status \<noteq> DISK_OK) \<and>
    (soft_errors os \<longrightarrow> status = DISK_OK) \<and>
    (\<forall>k. os_write os (d_calls w) (length (q_rest (hd (f_write_q F)))) = Done k \<longrightarrow> status = DISK_OK \<and> len = k) \<and>
    (\<forall>H. diskHandleWrite os H w fd =
      (if c_valid cd then H h fd status len (Some p) w1 else if f_close_request F then file_close w1 fd else Some w1))"
proof -
  obtain q qs where q: "f_write_q F = q # qs" using assms(3) by (cases "f_write_q F") auto
  define F0 where "F0 = F\<lparr>f_write_daemon := False\<rparr>"
  have "blocks_ok (q # qs)" "f_write_q F0 = q # qs" "f_append F0" "d_files w (f_path F0) = Some c" "f_wrt_handle F0 \<noteq> None"
    using assms q by (simp_all add: F0_def)
  from write_attempt_ok [OF assms(1) this] obtain status len F2 w2 where
    a: "write_attempt os w F0 q qs = Some (status, len, F2, w2)" "attempt_post w F0 c (status, len, F2, w2)" by (metis prod_cases4)
  have pF: "fd_pending F0 = fd_pending F" "f_path F0 = f_path F" by (simp_all add: F0_def fd_pending_def)
  have F2: "F2 = F0\<lparr>f_pos := f_pos F2, f_write_q := f_write_q F2\<rparr>" "blocks_ok (f_write_q F2)"
    and w2: "d_fds w2 = d_fds w" "d_cb w2 = d_cb w" "d_calls w2 = d_calls w + 1" "disk.more w2 = disk.more w"
    using a(2) by (auto simp: attempt_post_def)
  obtain c1 where c1: "moved c (fd_pending F) status len c1 (fd_pending F2)" "d_files w2 = (d_files w)(f_path F \<mapsto> c1)"
    using a(2) pF by (auto simp: attempt_post_def)
  have h2: "f_wrt_handle F2 = Some h" "f_wrt_handle_data F2 = Some p" "f_close_request F2 = f_close_request F"
    "\<not> f_write_handler F2" "\<not> f_write_daemon F2"
    by (subst F2(1), simp add: F0_def assms)+
  from requeue_ok [OF F2(2) _ h2(2) _ h2(4,5), of w2 cd fd] w2 assms obtain w3 qs3 where
    w3: "requeue w2 fd F2 = Some w3" "concat (map q_rest qs3) = fd_pending F2" "blocks_ok qs3" "qs3 = [] \<longleftrightarrow> f_write_q F2 = []"
      "d_fds w3 = (d_fds w)(fd \<mapsto> F2\<lparr>f_write_q := qs3, f_write_handler := qs3 \<noteq> [], f_write_daemon := qs3 \<noteq> []\<rparr>)"
      "d_files w3 = (d_files w)(f_path F \<mapsto> c1)" "cb_inv (d_cb w3)" "cbdata_index (d_cb w3) = cbdata_index (d_cb w)"
      "d_calls w3 = d_calls w + 1" "disk.more w3 = disk.more w"
      "cb_mem (d_cb w3) = (if qs3 = [] then cb_mem (d_cb w) else (cb_mem (d_cb w))(p \<mapsto> cd\<lparr>c_locks := c_locks cd + 1\<rparr>))"
    using c1(2) by auto
  define cd3 where "cd3 = (if qs3 = [] then cd else cd\<lparr>c_locks := c_locks cd + 1\<rparr>)"
  have cd3: "cb_mem (d_cb w3) p = Some cd3" "0 < c_locks cd3" "c_valid cd3 = c_valid cd" using w3(11) assms(11,12) by (simp_all add: cd3_def)
  from cbdataUnlock_ok [OF w3(7) cd3(1,2)] obtain cb where
    cb: "cbdataUnlock (d_cb w3) (Some p) = Some cb" "cb_inv cb" "cbdata_index cb = cbdata_index (d_cb w3)"
      "cb_mem cb = drop_lock (cb_mem (d_cb w3)) p cd3" by (auto simp: drop_lock_def)
  define F1 where "F1 = F2\<lparr>f_write_q := qs3, f_write_handler := qs3 \<noteq> [], f_write_daemon := qs3 \<noteq> []\<rparr>"
  have m: "cb_mem cb = (if f_write_q F1 \<noteq> [] then cb_mem (d_cb w) else drop_lock (cb_mem (d_cb w)) p cd)"
    using cb(4) w3(11) assms(11,12) by (auto simp: F1_def cd3_def drop_lock_def fun_upd_idem)
  have F1: "F1 = F\<lparr>f_pos := f_pos F1, f_write_q := f_write_q F1, f_write_handler := f_write_q F1 \<noteq> [], f_write_daemon := f_write_q F1 \<noteq> []\<rparr>"
    unfolding F1_def by (subst (1) F2(1)) (simp add: F0_def)
  have pF1: "fd_pending F1 = fd_pending F2" "f_write_q F1 = qs3" using w3(2) by (simp_all add: F1_def fd_pending_def)
  have "write_post w fd F c p cd status len (w3\<lparr>d_cb := cb\<rparr>) F1 c1"
    unfolding write_post_def using F1 pF1 c1(1) w3(3,5,6,8,9,10) cb(2,3) m by (simp add: F1_def)
  moreover have "diskHandleWrite os H w fd =
      (if c_valid cd then H h fd status len (Some p) (w3\<lparr>d_cb := cb\<rparr>)
       else if f_close_request F then file_close (w3\<lparr>d_cb := cb\<rparr>) fd else Some (w3\<lparr>d_cb := cb\<rparr>))" for H
    using assms(2) q a(1) w3(1) h2(1-3) cb(1) cd3 cbdataValid_ok [OF w3(7) cd3(1,2)]
    by (simp add: diskHandleWrite_def F0_def [symmetric] Let_def)
  ultimately show ?thesis using write_attempt_progress [OF _ a(1)] write_attempt_refused [OF _ a(1)]
      write_attempt_done [OF _ a(1)] write_attempt_soft [OF _ a(1)] by (simp only: q list.sel) blast
qed

subsection \<open>What opening leaves alone\<close>

lemma fd_open_frame: "fd_open w fd path app = Some w' \<Longrightarrow> disk.more w' = disk.more w \<and> d_cb w' = d_cb w \<and> d_files w' = d_files w"
  by (auto simp: fd_open_def fd_close_def put_fd_def bind_eq_Some_conv split: if_splits)

lemma file_open_frame:
  assumes "file_open os w path mode = Some (fd, w')"
  shows "disk.more w' = disk.more w \<and> d_cb w' = d_cb w \<and> (\<forall>q. q \<noteq> path \<longrightarrow> d_files w' q = d_files w q)"
proof (cases "if d_files w path = None \<and> \<not> o_creat (if o_access mode = O_WRONLY then mode\<lparr>o_append := True\<rparr> else mode)
    then Inr (Errno 2) else os_open os (d_calls w)")
  case (Inr e)
  then show ?thesis using assms by (simp add: file_open_def Let_def) auto
next
  case (Inl x)
  then obtain w1 where "fd_open w1 x path (o_append (if o_access mode = O_WRONLY then mode\<lparr>o_append := True\<rparr> else mode)) = Some w'"
    "w1 = w\<lparr>d_calls := d_calls w + 1\<rparr> \<or> w1 = w\<lparr>d_calls := d_calls w + 1, d_files := (d_files w)(path \<mapsto> [])\<rparr>"
    using assms by (simp add: file_open_def Let_def) (auto simp: bind_eq_Some_conv split: if_splits)
  then show ?thesis using fd_open_frame by fastforce
qed

end
