(* ===== verification/SwapOut.thy ===== *)
theory SwapOut
  imports Store Disk
begin

section \<open>Swapping out (store_swapout.c)\<close>

text \<open>
  Writing an entry to disk: how much of it is there, whether it may go there, trimming of
  the memory copy, and the completion handler \<open>storeSwapOutFileClosed\<close>, where HappyStream
  reads the stored file back, digests the start of its body and records the chunk in the
  table of \<open>YoutubeTable\<close> and in the table file.

  The disk is a map from directory and file number to contents; the table files are one
  string per cache directory. The header search in \<open>getStoredFilePrefix\<close> may run forever,
  and is a partial function whose \<open>None\<close> stands for that.
\<close>

record swap_world =
  w_store :: store
  w_swapDirs :: "int \<Rightarrow> string"
  w_files :: "int \<Rightarrow> int \<Rightarrow> 8 word list option"
  w_tables :: "int \<Rightarrow> string"
  w_swap_outs :: int

subsection \<open>Trimming the memory copy\<close>

definition storeSwapOutObjectBytesOnDisk :: "MemObject \<Rightarrow> int" where
  "storeSwapOutObjectBytesOnDisk mem =
     (case mem_sio mem of
        None \<Rightarrow> mem_queue_offset mem
      | Some sio \<Rightarrow> let nwritten = sio_offset sio
                    in if nwritten \<le> mem_swap_hdr_sz mem then 0 else nwritten - mem_swap_hdr_sz mem)"

definition storeSwapOutAble :: "store \<Rightarrow> StoreEntry \<Rightarrow> MemObject \<Rightarrow> bool" where
  "storeSwapOutAble s e mem \<longleftrightarrow>
     (if maxObjectSize (s_config s) < mem_inmem_hi mem then False
      else if \<not> has_flag e ENTRY_CACHABLE then False
      else if mem_sio mem \<noteq> None then True
      else if mem_queue_offset mem \<noteq> 0 \<and> mem_queue_offset mem = mem_inmem_hi mem then True
      else if 0 < mem_inmem_lo mem then False
      else True)"

definition lowest_step :: "MemObject \<Rightarrow> store_client \<Rightarrow> int \<times> int \<Rightarrow> int \<times> int" where
  "lowest_step mem sc lh =
     (case lh of (lowest, highest) \<Rightarrow>
        let highest = (if highest < sc_copy_offset sc then sc_copy_offset sc else highest)
        in if mem_sio mem \<noteq> None \<and> sc_type sc \<noteq> STORE_MEM_CLIENT then (lowest, highest)
           else (if sc_copy_offset sc < lowest then sc_copy_offset sc else lowest, highest))"

definition storeLowestMemReaderOffset :: "MemObject \<Rightarrow> int" where
  "storeLowestMemReaderOffset mem =
     (case fold (lowest_step mem) (mem_clients mem) (mem_inmem_hi mem + 1, - 1) of
        (lowest, highest) \<Rightarrow> if highest < lowest \<and> 0 \<le> highest then highest else lowest)"

definition storeSwapOutFileClose :: "store \<Rightarrow> addr \<Rightarrow> store option" where
  "storeSwapOutFileClose s a = do {
     e \<leftarrow> s_entries s a;
     mem \<leftarrow> e_mem_obj e;
     (case mem_sio mem of
        None \<Rightarrow> Some s
      | Some sio \<Rightarrow> Some (put_event (put_entry s a (e\<lparr>e_mem_obj := Some (mem\<lparr>mem_sio := None\<rparr>)\<rparr>))
                           (FsClose a (sio_swap_dirn sio) (sio_swap_filen sio)))) }"

definition storeResumeRead :: "store \<Rightarrow> addr \<Rightarrow> store option" where
  "storeResumeRead s a = do {
     e \<leftarrow> s_entries s a;
     mem \<leftarrow> e_mem_obj e;
     let e = flag_clr e ENTRY_DEFER_READ;
     Some (if mem_serverfd mem \<noteq> - 1
           then put_event (put_entry s a (e\<lparr>e_mem_obj := Some (mem\<lparr>mem_serverfd := - 1\<rparr>)\<rparr>))
                  (CommResumeFD (mem_serverfd mem))
           else put_entry s a e) }"

text \<open>The offset below which the memory copy is to be freed.\<close>

definition new_mem_lo :: "store \<Rightarrow> MemObject \<Rightarrow> bool \<Rightarrow> int" where
  "new_mem_lo s mem swapout_able =
     (let lowest_offset = storeLowestMemReaderOffset mem;
          lo = (if \<not> swapout_able then lowest_offset
                else if maxInMemObjSize (s_config s) < mem_inmem_hi mem then lowest_offset
                else if maxInMemObjSize (s_config s) < rep_content_length (mem_reply mem) then lowest_offset
                else mem_inmem_lo mem);
          on_disk = storeSwapOutObjectBytesOnDisk mem;
          lo = (if swapout_able \<and> lo \<noteq> 0 \<and> on_disk - 1 < lo then on_disk - 1 else lo)
      in if lo < mem_inmem_lo mem then mem_inmem_lo mem else lo)"

definition storeSwapOutMaintainMemObject :: "store \<Rightarrow> addr \<Rightarrow> (int \<times> store) option" where
  "storeSwapOutMaintainMemObject s a = do {
     e \<leftarrow> s_entries s a;
     if has_flag e ENTRY_SPECIAL then Some (- 1, s)
     else if e_mem_status e = IN_MEMORY then Some (1, s)
     else do {
       mem \<leftarrow> e_mem_obj e;
       let swapout_able = storeSwapOutAble s e mem;
       s \<leftarrow> (if swapout_able then Some s
             else do {
               s \<leftarrow> storeReleaseRequest s a;
               if mem_sio mem \<noteq> None then storeSwapOutFileClose s a else Some s });
       e \<leftarrow> s_entries s a;
       mem \<leftarrow> e_mem_obj e;
       let lo = new_mem_lo s mem swapout_able;
       s \<leftarrow> (if mem_inmem_lo mem \<noteq> lo
             then do {
               (lo', hdr, sz, _) \<leftarrow> stmemFreeDataUpto (mem_data_hdr mem) lo (s_mem_size s);
               let mem = mem\<lparr>mem_inmem_lo := lo', mem_data_hdr := hdr\<rparr>;
               let s = (put_entry s a (e\<lparr>e_mem_obj := Some mem\<rparr>))\<lparr>s_mem_size := sz\<rparr>;
               if has_flag e ENTRY_DEFER_READ \<and> mem_inmem_hi mem - lo' \<le> readAheadGap (s_config s)
               then storeResumeRead s a else Some s }
             else Some s);
       Some (if swapout_able then 1 else 0, s) } }"

subsection \<open>The digest of the stored body\<close>

definition CRLFCRLF :: "8 word list" where
  "CRLFCRLF = [0x0d, 0x0a, 0x0d, 0x0a]"

text \<open>\<open>memmem\<close>: the position of the first occurrence.\<close>

fun memmem :: "8 word list \<Rightarrow> 8 word list \<Rightarrow> nat option" where
  "memmem [] needle = (if needle = [] then Some 0 else None)"
| "memmem (b # bs) needle =
     (if take (length needle) (b # bs) = needle then Some 0 else map_option Suc (memmem bs needle))"

text \<open>
  The loop that looks for the end of the header block by block of 8192 bytes. At the end of
  the file \<open>read\<close> returns 0, which does not stop the loop.
\<close>

partial_function (option) header_scan :: "8 word list \<Rightarrow> nat \<Rightarrow> nat option" where
  "header_scan rest readBytes =
     (let buf = take 8192 rest
      in case memmem buf CRLFCRLF of
           Some pos \<Rightarrow> Some (readBytes + pos + 4)
         | None \<Rightarrow> header_scan (drop 8192 rest) (readBytes + length buf))"

definition prefixSize :: nat where
  "prefixSize = 4096"

definition getStoredFilePrefix :: "swap_world \<Rightarrow> StoreEntry \<Rightarrow> 8 word list option" where
  "getStoredFilePrefix w e = do {
     file \<leftarrow> w_files w (e_swap_dirn e) (e_swap_filen e);
     headerSize \<leftarrow> header_scan file 0;
     let got = take prefixSize (drop headerSize file);
     Some (got @ replicate (prefixSize - length got) 0) }"

definition getMD5Digest :: "8 word list \<Rightarrow> MemObject \<Rightarrow> cache_key" where
  "getMD5Digest prefix mem =
     (let replyBodySize = httpReplyBodySize (mem_method mem) (mem_reply mem)
      in md5_digest [prefix, bytes_of32 (word_of_int replyBodySize)])"

subsection \<open>Completion\<close>

text \<open>HappyStream's part of the handler: recording the chunk.\<close>

definition record_youtube_chunk :: "swap_world \<Rightarrow> addr \<Rightarrow> StoreEntry \<Rightarrow> MemObject \<Rightarrow> swap_world option" where
  "record_youtube_chunk w a e mem = do {
     prefix \<leftarrow> getStoredFilePrefix w e;
     let dataDigestKey = getMD5Digest prefix mem;
     let url = mem_url mem;
     if isYouTubeUrl url
     then do {
       (lmt, startRange, endRange) \<leftarrow> url_chunk_id url;
       key \<leftarrow> link_key (s_links (w_store w)) a;
       dataDigest \<leftarrow> strcpy_into 40 (storeKeyText dataDigestKey);
       swapoutDigest \<leftarrow> strcpy_into 40 (storeKeyText key);
       yt \<leftarrow> insertChunkToYoutubeChunkTable (s_youtube (w_store w)) lmt startRange endRange dataDigest swapoutDigest;
       tables \<leftarrow> appendChunkToTableFile (w_swapDirs w) (w_tables w) lmt startRange endRange
                   dataDigest swapoutDigest (e_swap_dirn e);
       Some (w\<lparr>w_store := (w_store w)\<lparr>s_youtube := yt\<rparr>, w_tables := tables\<rparr>) }
     else Some w }"

text \<open>The two arms of \<open>storeSwapOutFileClosed\<close>.\<close>

definition swapout_failed :: "store \<Rightarrow> addr \<Rightarrow> int \<Rightarrow> store option" where
  "swapout_failed s a errflag = do {
     e \<leftarrow> s_entries s a;
     let s = (if errflag = DISK_NO_SPACE_LEFT then put_event s (DirDiskFull (e_swap_dirn e)) else s);
     let s = (if 0 < e_swap_filen e then put_event s (FsUnlink a (e_swap_dirn e) (e_swap_filen e)) else s);
     storeReleaseRequest
       (put_entry s a (e\<lparr>e_swap_filen := - 1, e_swap_dirn := - 1, e_swap_status := SWAPOUT_NONE\<rparr>)) a }"

definition swapout_done :: "swap_world \<Rightarrow> addr \<Rightarrow> swap_world option" where
  "swapout_done w a = do {
     let s = w_store w;
     e \<leftarrow> s_entries s a;
     mem \<leftarrow> e_mem_obj e;
     let e = e\<lparr>e_swap_file_sz := (mem_object_sz mem + mem_swap_hdr_sz mem) mod 2 ^ 32, e_swap_status := SWAPOUT_DONE\<rparr>;
     let s = put_event (put_entry s a e) (UpdateSwapSize (e_swap_dirn e) (e_swap_file_sz e) 1);
     (ok, s) \<leftarrow> storeCheckCachable s a;
     w \<leftarrow> (if ok
           then do {
             s \<leftarrow> storeDirSwapLog (put_event s (StoreLogSwapout a)) a SWAP_LOG_ADD;
             record_youtube_chunk (w\<lparr>w_store := s\<rparr>) a e mem }
           else Some (w\<lparr>w_store := s\<rparr>));
     Some (w\<lparr>w_swap_outs := w_swap_outs w + 1\<rparr>) }"

definition storeSwapOutFileClosed :: "nat \<Rightarrow> swap_world \<Rightarrow> addr \<Rightarrow> int \<Rightarrow> swap_world option" where
  "storeSwapOutFileClosed n w a errflag = do {
     e \<leftarrow> s_entries (w_store w) a;
     mem \<leftarrow> e_mem_obj e;
     c_assert (e_swap_status e = SWAPOUT_WRITING);
     w \<leftarrow> (if errflag \<noteq> 0
           then do { s \<leftarrow> swapout_failed (w_store w) a errflag; Some (w\<lparr>w_store := s\<rparr>) }
           else swapout_done w a);
     e \<leftarrow> s_entries (w_store w) a;
     mem \<leftarrow> e_mem_obj e;
     let s = put_entry (w_store w) a (e\<lparr>e_mem_obj := Some (mem\<lparr>mem_sio := None\<rparr>)\<rparr>);
     (_, s) \<leftarrow> storeSwapOutMaintainMemObject s a;
     s \<leftarrow> storeUnlockObject n s a;
     Some (w\<lparr>w_store := s\<rparr>) }"

subsection \<open>The stored body\<close>

lemma memmem_Some:
  "memmem bs nd = Some i \<Longrightarrow> take (length nd) (drop i bs) = nd \<and> i \<le> length bs"
proof (induction bs nd arbitrary: i rule: memmem.induct)
  case (1 needle)
  then show ?case by (simp split: if_splits)
next
  case (2 b bs needle)
  then show ?case by (auto split: if_splits)
qed

lemma memmem_first:
  assumes "nd \<noteq> []" "\<forall>j < length h. take (length nd) (drop j (h @ nd @ r)) \<noteq> nd"
  shows "memmem (h @ nd @ r) nd = Some (length h)"
  using assms(2)
proof (induction h)
  case Nil
  have "take (length nd) (nd @ r) = nd" by simp
  then show ?case using assms(1) by (cases "nd @ r") (auto simp del: take_append)
next
  case (Cons b h)
  have "take (length nd) (b # h @ nd @ r) \<noteq> nd" using Cons.prems [rule_format, of 0] by simp
  moreover have "\<forall>j < length h. take (length nd) (drop j (h @ nd @ r)) \<noteq> nd"
    using Cons.prems by (metis Suc_less_eq append_Cons drop_Suc_Cons length_Cons)
  ultimately show ?case using Cons.IH by simp
qed

text \<open>A block that holds the first terminator whole ends the search.\<close>

lemma header_scan_found:
  assumes "memmem (take 8192 rest) CRLFCRLF = Some pos"
  shows "header_scan rest rb = Some (rb + pos + 4)"
  using assms by (subst header_scan.simps) (simp add: Let_def)

lemma header_scan_terminator:
  assumes "header_scan rest rb = Some r"
  shows "\<exists>i. memmem (take 8192 (drop (8192 * i) rest)) CRLFCRLF \<noteq> None"
  using assms
proof (rule header_scan.raw_induct [rotated])
  fix scan rest rb r
  assume IH: "\<And>rest rb r. scan rest rb = Some r \<Longrightarrow>
      \<exists>i. memmem (take 8192 (drop (8192 * i) rest)) CRLFCRLF \<noteq> None"
    and r: "(let buf = take 8192 rest in case memmem buf CRLFCRLF of None \<Rightarrow> scan (drop 8192 rest) (rb + length buf)
        | Some pos \<Rightarrow> Some (rb + pos + 4)) = Some r"
  show "\<exists>i. memmem (take 8192 (drop (8192 * i) rest)) CRLFCRLF \<noteq> None"
  proof (cases "memmem (take 8192 rest) CRLFCRLF")
    case None
    with r have "scan (drop 8192 rest) (rb + length (take 8192 rest)) = Some r" by (simp add: Let_def)
    then obtain i where "memmem (take 8192 (drop (8192 * i) (drop 8192 rest))) CRLFCRLF \<noteq> None"
      using IH by blast
    then show ?thesis by (intro exI [of _ "Suc i"]) (simp add: add.commute)
  next
    case (Some pos)
    then show ?thesis by (intro exI [of _ 0]) simp
  qed
qed

lemma url_chunk_id_bounds:
  assumes "url_chunk_id url = Some (lmt, s, e)"
  shows "length lmt < 20" "cstring lmt" "in_int32 s" "in_int32 e"
proof -
  have a: "in_int32 v" if "atoi cs = Some v" for cs v
    using that by (auto simp: atoi_def atoi_digits_def Let_def split: list.splits if_splits)
  have "in_int32 v" if "getStartRangeFromUrl url = Some v" for v
    using that a by (auto simp: getStartRangeFromUrl_def in_int32_def bind_eq_Some_conv split: option.splits)
  moreover have "in_int32 v" if "getEndRangeFromUrl url = Some v" for v
    using that a by (auto simp: getEndRangeFromUrl_def in_int32_def bind_eq_Some_conv split: option.splits)
  moreover have "cstring l" if "cstr_of_buf b = Some l" for b l
    using that by (auto simp: cstr_of_buf_def cstring_def dest: set_takeWhileD split: if_splits)
  ultimately show "length lmt < 20" "cstring lmt" "in_int32 s" "in_int32 e"
    using assms by (auto simp: url_chunk_id_def strcpy_into_def bind_eq_Some_conv split: if_splits)
qed

definition chunk_for :: "string \<Rightarrow> int \<Rightarrow> int \<Rightarrow> 8 word list \<Rightarrow> MemObject \<Rightarrow> cache_key \<Rightarrow> YoutubeChunk" where
  "chunk_for lmt sr er prefix mem key =
     \<lparr>c_lmt = lmt, c_startRange = sr, c_endRange = er,
      c_dataDigest = storeKeyText (getMD5Digest prefix mem), c_swapoutDigest = storeKeyText key\<rparr>"

lemma record_youtube_chunk_rep:
  assumes pre: "getStoredFilePrefix w e = Some prefix" and u: "isYouTubeUrl (mem_url mem)"
    "url_chunk_id (mem_url mem) = Some (lmt, sr, er)" and k: "link_key (s_links (w_store w)) a = Some key"
    and r: "yt_rep (s_youtube (w_store w)) cs" "int (length cs) < 2 ^ 31 - 1"
    and p: "table_path_fits (w_swapDirs w (e_swap_dirn e))"
    and c: "c = chunk_for lmt sr er prefix mem key"
  shows "\<exists>yt'. record_youtube_chunk w a e mem = Some (w\<lparr>w_store := (w_store w)\<lparr>s_youtube := yt'\<rparr>,
      w_tables := (w_tables w)(e_swap_dirn e := w_tables w (e_swap_dirn e) @ record_of c)\<rparr>) \<and> yt_rep yt' (cs @ [c])"
proof -
  have "chunk_fits c" using url_chunk_id_bounds [OF u(2)] by (simp add: c chunk_for_def chunk_fits_def)
  from yt.ins_law [OF r(1) this r(2)] obtain yt' where
    "insert_chunk (s_youtube (w_store w)) c = Some yt'" "yt_rep yt' (cs @ [c])" by blast
  then show ?thesis using pre u k p
    by (simp add: record_youtube_chunk_def strcpy_into_def insert_chunk_def c chunk_for_def
        appendChunkToTableFile_def record_of_def)
      (metis (no_types))
qed

subsection \<open>Completion of a swap-out\<close>

text \<open>What holds when the disk write of a public, cachable object has succeeded.\<close>

definition swapout_ready :: "swap_world \<Rightarrow> addr \<Rightarrow> StoreEntry \<Rightarrow> MemObject \<Rightarrow> cache_key \<Rightarrow> bool" where
  "swapout_ready w a e mem key \<longleftrightarrow>
     s_entries (w_store w) a = Some e \<and> e_mem_obj e = Some mem \<and>
     link_key (s_links (w_store w)) a = Some key \<and> \<not> has_flag e KEY_PRIVATE \<and> 0 \<le> e_swap_filen e \<and>
     (\<forall>sz. cachable_verdict (w_store w) (e\<lparr>e_swap_file_sz := sz, e_swap_status := SWAPOUT_DONE\<rparr>) = Some yes_writing) \<and>
     table_path_fits (w_swapDirs w (e_swap_dirn e))"

lemma cachable_verdict_cong:
  assumes "s_config s' = s_config s" "s_open_disk_fd s' = s_open_disk_fd s" "s_fdNFree s' = s_fdNFree s"
  shows "cachable_verdict s' e = cachable_verdict s e"
  unfolding cachable_verdict_def storeCheckTooSmall_def storeTooManyDiskFilesOpen_def assms by (rule refl)

lemma cachable_verdict_put [simp]:
  "cachable_verdict (put_entry s a e) e' = cachable_verdict s e'" "cachable_verdict (put_event s ev) e' = cachable_verdict s e'"
  by (rule cachable_verdict_cong; simp add: put_entry_def put_event_def)+

lemma swapout_done_rep:
  assumes rdy: "swapout_ready w a e mem key"
    and pre: "getStoredFilePrefix w e = Some prefix" and u: "isYouTubeUrl (mem_url mem)"
    "url_chunk_id (mem_url mem) = Some (lmt, sr, er)"
    and r: "yt_rep (s_youtube (w_store w)) cs" "int (length cs) < 2 ^ 31 - 1"
    and c: "c = chunk_for lmt sr er prefix mem key"
  shows "\<exists>w'. swapout_done w a = Some w' \<and> yt_rep (s_youtube (w_store w')) (cs @ [c]) \<and>
    s_table (w_store w') = s_table (w_store w) \<and> s_links (w_store w') = s_links (w_store w) \<and>
    s_config (w_store w') = s_config (w_store w) \<and> w_swapDirs w' = w_swapDirs w \<and>
    s_entries (w_store w') = (s_entries (w_store w))(a \<mapsto>
      e\<lparr>e_swap_file_sz := (mem_object_sz mem + mem_swap_hdr_sz mem) mod 2 ^ 32, e_swap_status := SWAPOUT_DONE\<rparr>) \<and>
    w_tables w' = (w_tables w)(e_swap_dirn e := w_tables w (e_swap_dirn e) @ record_of c)"
proof -
  let ?s = "w_store w" and ?e = "e\<lparr>e_swap_file_sz := (mem_object_sz mem + mem_swap_hdr_sz mem) mod 2 ^ 32, e_swap_status := SWAPOUT_DONE\<rparr>"
  let ?s1 = "put_event (put_entry ?s a ?e) (UpdateSwapSize (e_swap_dirn ?e) (e_swap_file_sz ?e) 1)"
  have e: "s_entries ?s a = Some e" "e_mem_obj e = Some mem" "link_key (s_links ?s) a = Some key"
    "\<not> has_flag e KEY_PRIVATE" "0 \<le> e_swap_filen e" "cachable_verdict ?s ?e = Some yes_writing"
    "table_path_fits (w_swapDirs w (e_swap_dirn e))" using rdy by (simp_all add: swapout_ready_def)
  have chk: "storeCheckCachable ?s1 a = Some (True, ?s1)"
    using e(6) by (simp add: storeCheckCachable_def count_verdict_def)
  obtain ev where log: "storeDirSwapLog (put_event ?s1 (StoreLogSwapout a)) a SWAP_LOG_ADD
      = Some ((put_entry ?s a ?e)\<lparr>s_events := ev\<rparr>)"
    using e by (cases "has_flag e ENTRY_SPECIAL") (auto simp: storeDirSwapLog_def put_event_def put_entry_def)
  let ?w = "w\<lparr>w_store := (put_entry ?s a ?e)\<lparr>s_events := ev\<rparr>\<rparr>"
  have "getStoredFilePrefix ?w ?e = Some prefix" using pre by (simp add: getStoredFilePrefix_def)
  from record_youtube_chunk_rep [OF this u, of a key cs c] e r c obtain yt' where
    "record_youtube_chunk ?w a ?e mem = Some (?w\<lparr>w_store := (w_store ?w)\<lparr>s_youtube := yt'\<rparr>,
      w_tables := (w_tables w)(e_swap_dirn e := w_tables w (e_swap_dirn e) @ record_of c)\<rparr>)"
    "yt_rep yt' (cs @ [c])" by auto
  moreover have "s_config (put_entry ?s a ?e) = s_config ?s" by (simp add: put_entry_def)
  ultimately show ?thesis using e chk log by (simp add: swapout_done_def Let_def)
qed

definition yt_synced :: "swap_world \<Rightarrow> YoutubeChunk list \<Rightarrow> bool" where
  "yt_synced w cs \<longleftrightarrow> yt_rep (s_youtube (w_store w)) cs \<and> w_tables w 0 = concat (map record_of cs) \<and>
     (\<forall>c \<in> set cs. chunk_ok c)"

lemma chunk_for_ok:
  assumes "url_chunk_id url = Some (lmt, sr, er)" "length lmt = 16"
  shows "chunk_ok (chunk_for lmt sr er prefix mem key)"
  using url_chunk_id_bounds [OF assms(1)] assms(2) cstring_storeKeyText by (simp add: chunk_for_def chunk_ok_def)

subsection \<open>Properties\<close>

text \<open>When the first empty line of a stored file ends within its first 8192 bytes, the
  prefix read back for the digest is the first 4096 bytes behind it, padded with zeros.\<close>

theorem getStoredFilePrefix_correct:
  assumes "w_files w (e_swap_dirn e) (e_swap_filen e) = Some (hdr @ CRLFCRLF @ body)"
    "\<forall>j < length hdr. take 4 (drop j (hdr @ CRLFCRLF)) \<noteq> CRLFCRLF" "length hdr + 4 \<le> 8192"
  shows "getStoredFilePrefix w e = Some (take 4096 (body @ replicate 4096 0))"
proof -
  let ?r = "take (8192 - length hdr - 4) body"
  have len: "length CRLFCRLF = 4" by (simp add: CRLFCRLF_def)
  have blk: "take 8192 (hdr @ CRLFCRLF @ body) = hdr @ CRLFCRLF @ ?r" using assms(3) len by simp
  have "\<forall>j < length hdr. take (length CRLFCRLF) (drop j (hdr @ CRLFCRLF @ ?r)) \<noteq> CRLFCRLF"
    using assms(2) len by (simp add: append_assoc [symmetric] del: append_assoc)
  then have "memmem (take 8192 (hdr @ CRLFCRLF @ body)) CRLFCRLF = Some (length hdr)"
    unfolding blk by (rule memmem_first [rotated]) (simp add: CRLFCRLF_def)
  then have "header_scan (hdr @ CRLFCRLF @ body) 0 = Some (length hdr + 4)" using header_scan_found by simp
  then show ?thesis using assms(1) len
    by (simp add: getStoredFilePrefix_def prefixSize_def)
qed

theorem getStoredFilePrefix_correct_witness:
  "getStoredFilePrefix \<lparr>w_store = demo_store (hash_create storeKeyHashCmp 1 (\<lambda>k n. 0)), w_swapDirs = (\<lambda>_. ''/c''),
      w_files = (\<lambda>_ _. Some ([0x41] @ CRLFCRLF @ [1, 2])), w_tables = (\<lambda>_. []), w_swap_outs = 0\<rparr> demo_entry
   = Some (take 4096 ([1, 2] @ replicate 4096 0))"
  by (rule getStoredFilePrefix_correct [where hdr = "[0x41]" and body = "[1, 2]"]) (simp_all add: CRLFCRLF_def)

text \<open>C38: The header search never ends on a file in which no 8192-byte block contains an empty
  line whole, whether it has none or has one that straddles a block boundary: the handler
  does not return.\<close>

theorem getStoredFilePrefix_diverges:
  assumes "w_files w (e_swap_dirn e) (e_swap_filen e) = Some fl"
    "\<forall>i. memmem (take 8192 (drop (8192 * i) fl)) CRLFCRLF = None"
  shows "getStoredFilePrefix w e = None"
proof -
  have "header_scan fl 0 = None" using header_scan_terminator [of fl 0] assms(2) by (metis not_None_eq)
  then show ?thesis using assms(1) by (simp add: getStoredFilePrefix_def)
qed

theorem getStoredFilePrefix_diverges_witness:
  "getStoredFilePrefix \<lparr>w_store = demo_store (hash_create storeKeyHashCmp 1 (\<lambda>k n. 0)), w_swapDirs = (\<lambda>_. ''/c''),
      w_files = (\<lambda>_ _. Some [0x41, 0x42]), w_tables = (\<lambda>_. []), w_swap_outs = 0\<rparr> demo_entry = None"
proof (rule getStoredFilePrefix_diverges [where fl = "[0x41, 0x42]"])
  have "memmem (take 8192 (drop (8192 * i) [0x41, 0x42])) CRLFCRLF = None" for i
    by (cases i) (simp_all add: CRLFCRLF_def)
  then show "\<forall>i. memmem (take 8192 (drop (8192 * i) [0x41, 0x42])) CRLFCRLF = None" by blast
qed simp

end
