(* ===== verification/SwapMeta.thy ===== *)
theory SwapMeta
  imports StoreKey StoreDir
begin

unbundle bit_operations_syntax

section \<open>The header of a swap file (store_swapmeta.c)\<close>

text \<open>
  Every swap file starts with a list of type-length-value fields: the key, the times and
  sizes of the entry, its URL and, where it has them, its size, its Vary headers and its
  store URL. The theory holds the building, packing and unpacking of the list. A list of
  \<open>tlv\<close> records stands for the linked list; \<open>int\<close>, \<open>size_t\<close> and \<open>time_t\<close> have 32 bits and
  are stored in little-endian order. The lemmas show that unpacking a packed list gives the
  list back, whatever follows it in the buffer.
\<close>

subsection \<open>Data\<close>

record tlv =
  t_type :: "8 word"
  t_value :: "8 word list"

definition STORE_META_OK :: "8 word" where [simp]: "STORE_META_OK = 3"
definition STORE_META_VOID :: int where [simp]: "STORE_META_VOID = 0"
definition STORE_META_KEY_MD5 :: "8 word" where [simp]: "STORE_META_KEY_MD5 = 3"
definition STORE_META_URL :: "8 word" where [simp]: "STORE_META_URL = 4"
definition STORE_META_STD :: "8 word" where [simp]: "STORE_META_STD = 5"
definition STORE_META_VARY_HEADERS :: "8 word" where [simp]: "STORE_META_VARY_HEADERS = 8"
definition STORE_META_STD_LFS :: "8 word" where [simp]: "STORE_META_STD_LFS = 9"
definition STORE_META_OBJSIZE :: "8 word" where [simp]: "STORE_META_OBJSIZE = 10"
definition STORE_META_STOREURL :: "8 word" where [simp]: "STORE_META_STOREURL = 11"
definition STORE_META_END :: int where [simp]: "STORE_META_END = 12"
definition STORE_HDR_METASIZE :: nat where [simp]: "STORE_HDR_METASIZE = 24"

definition bytes_of16 :: "16 word \<Rightarrow> 8 word list" where
  "bytes_of16 w = [ucast w, ucast (drop_bit 8 w)]"

definition le16 :: "8 word list \<Rightarrow> 16 word" where
  "le16 bs = ucast (bs ! 0) OR push_bit 8 (ucast (bs ! 1))"

definition bytes_of64 :: "64 word \<Rightarrow> 8 word list" where
  "bytes_of64 w = bytes_of32 (ucast w) @ bytes_of32 (ucast (drop_bit 32 w))"

definition int32_bytes :: "int \<Rightarrow> 8 word list" where
  "int32_bytes i = bytes_of32 (word_of_int i)"

text \<open>The bytes of an entry from \<open>timestamp\<close> to \<open>flags\<close>, in the order of the struct.\<close>

definition std_bytes :: "StoreEntry \<Rightarrow> 8 word list" where
  "std_bytes e =
     int32_bytes (e_timestamp e) @ int32_bytes (e_lastref e) @ int32_bytes (e_expires e) @
     int32_bytes (e_lastmod e) @ int32_bytes (e_swap_file_sz e) @
     bytes_of16 (of_nat (e_refcount e)) @ bytes_of16 (e_flags e)"

definition cstr_bytes :: "string \<Rightarrow> 8 word list" where
  "cstr_bytes s = bytes_of_string (s @ [NUL])"

subsection \<open>Building, packing and unpacking\<close>

definition storeSwapTLVAdd :: "8 word \<Rightarrow> 8 word list \<Rightarrow> tlv list \<Rightarrow> tlv list" where
  "storeSwapTLVAdd type value T = T @ [\<lparr>t_type = type, t_value = value\<rparr>]"

definition storeSwapMetaBuild :: "cache_key \<Rightarrow> StoreEntry \<Rightarrow> tlv list option" where
  "storeSwapMetaBuild key e = do {
     mem \<leftarrow> e_mem_obj e;
     objsize \<leftarrow> objectLen e;
     c_assert (e_swap_status e = SWAPOUT_WRITING);
     let url = storeUrl (Some e);
     let T = storeSwapTLVAdd STORE_META_KEY_MD5 (take SQUID_MD5_DIGEST_LENGTH key) [];
     let T = storeSwapTLVAdd STORE_META_STD (std_bytes e) T;
     let T = storeSwapTLVAdd STORE_META_URL (cstr_bytes url) T;
     let T = (if - 1 < objsize then storeSwapTLVAdd STORE_META_OBJSIZE (bytes_of64 (word_of_int objsize)) T else T);
     let T = (case mem_vary_headers mem of
                Some vary \<Rightarrow> storeSwapTLVAdd STORE_META_VARY_HEADERS (cstr_bytes vary) T | None \<Rightarrow> T);
     let T = (case mem_store_url mem of
                Some u \<Rightarrow> storeSwapTLVAdd STORE_META_STOREURL (cstr_bytes u) T | None \<Rightarrow> T);
     Some T }"

definition tlv_bytes :: "tlv \<Rightarrow> 8 word list" where
  "tlv_bytes t = t_type t # int32_bytes (int (length (t_value t))) @ t_value t"

definition storeSwapMetaPack :: "tlv list \<Rightarrow> (8 word list \<times> int) option" where
  "storeSwapMetaPack T = do {
     let buflen = 1 + 4 + (\<Sum>t \<leftarrow> T. 1 + 4 + int (length (t_value t)));
     c_assert (in_int32 buflen);
     Some (STORE_META_OK # int32_bytes buflen @ concat (map tlv_bytes T), buflen) }"

text \<open>Reading a byte, an \<open>int\<close> and a block of bytes from the buffer.\<close>

definition get_int :: "8 word list \<Rightarrow> nat \<Rightarrow> int option" where
  "get_int buf j = (if j + 4 \<le> length buf then Some (sint (le32 (take 4 (drop j buf)) 0)) else None)"

definition get_block :: "8 word list \<Rightarrow> nat \<Rightarrow> nat \<Rightarrow> 8 word list option" where
  "get_block buf j n = (if j + n \<le> length buf then Some (take n (drop j buf)) else None)"

lemma arr_get_less [termination_simp]: "arr_get xs i = Some v \<Longrightarrow> i < length xs"
  by (simp add: arr_get_SomeD)

text \<open>
  The loop of \<open>storeSwapMetaUnpack\<close>. The guard compares an \<open>int\<close> with a \<open>size_t\<close>, so the
  difference is converted to an unsigned number first. Each turn consumes at least one byte
  of the buffer, so the loop ends.
\<close>

function unpack_loop :: "8 word list \<Rightarrow> int \<Rightarrow> nat \<Rightarrow> tlv list \<Rightarrow> tlv list option" where
  "unpack_loop buf buflen j T =
     (if word_of_int (buflen - int j) < (5 :: 32 word) then Some T
      else do {
        type \<leftarrow> arr_get buf j;
        if sint type \<le> STORE_META_VOID \<or> STORE_META_END + 10 < sint type then Some T
        else do {
          len \<leftarrow> get_int buf (j + 1);
          if len < 0 \<or> 2 ^ 16 < len then Some T
          else do {
            c_assert (in_int32 (int j + 5 + len));
            if buflen < int j + 5 + len then Some T
            else do {
              value \<leftarrow> get_block buf (j + 5) (nat len);
              unpack_loop buf buflen (j + 5 + nat len) (storeSwapTLVAdd type value T) } } } })"
  by pat_completeness auto
termination
  by (relation "measure (\<lambda>(buf, _, j, _). length buf - j)") (auto dest: arr_get_less)

text \<open>Result: the list (empty for \<open>NULL\<close>) and \<open>*hdr_len\<close>, if it was set.\<close>

definition storeSwapMetaUnpack :: "8 word list \<Rightarrow> (tlv list \<times> int option) option" where
  "storeSwapMetaUnpack buf = do {
     ok \<leftarrow> arr_get buf 0;
     if ok \<noteq> STORE_META_OK then Some ([], None)
     else do {
       buflen \<leftarrow> get_int buf 1;
       if word_of_int buflen \<le> (5 :: 32 word) then Some ([], None)
       else do {
         T \<leftarrow> unpack_loop buf buflen 5 [];
         Some (T, Some buflen) } } }"

declare unpack_loop.simps [simp del]

subsection \<open>Round trip\<close>

lemma le32_bytes_of32: "le32 (bytes_of32 w) 0 = w"
proof (rule bit_word_eqI)
  fix n assume "n < LENGTH(32)"
  then consider "n < 8" | "8 \<le> n" "n < 16" | "16 \<le> n" "n < 24" | "24 \<le> n" "n < 32" by fastforce
  then show "bit (le32 (bytes_of32 w) 0) n = bit w n"
    by cases (auto simp: le32_def bytes_of32_def bit_simps)
qed

lemma le16_bytes_of16: "le16 (bytes_of16 w) = w"
  by (rule bit_word_eqI) (auto simp: le16_def bytes_of16_def bit_simps)

lemma length_int32_bytes [simp]: "length (int32_bytes i) = 4"
  by (simp add: int32_bytes_def)

lemma length_bytes_of16 [simp]: "length (bytes_of16 w) = 2"
  by (simp add: bytes_of16_def)

lemma sint_int32: "in_int32 i \<Longrightarrow> sint (word_of_int i :: 32 word) = i"
  by (simp add: in_int32_def int_word_sint)

lemma get_int_at:
  "in_int32 i \<Longrightarrow> j = length p \<Longrightarrow> get_int (p @ int32_bytes i @ r) j = Some i"
  using le32_bytes_of32 [of "word_of_int i"] by (simp add: get_int_def int32_bytes_def sint_int32)

lemma get_block_at: "j = length p \<Longrightarrow> n = length v \<Longrightarrow> get_block (p @ v @ r) j n = Some v"
  by (simp add: get_block_def)

definition tlv_ok :: "tlv \<Rightarrow> bool" where
  "tlv_ok t \<longleftrightarrow> STORE_META_VOID < sint (t_type t) \<and> sint (t_type t) \<le> STORE_META_END + 10 \<and>
     length (t_value t) \<le> 2 ^ 16"

lemma size_less_iff: "0 \<le> n \<Longrightarrow> n < 2 ^ 31 \<Longrightarrow> word_of_int n < (5 :: 32 word) \<longleftrightarrow> n < 5"
  by (simp add: word_less_def uint_word_of_int)

lemma size_le_iff: "0 \<le> n \<Longrightarrow> n < 2 ^ 31 \<Longrightarrow> word_of_int n \<le> (5 :: 32 word) \<longleftrightarrow> n \<le> 5"
  by (simp add: word_le_def uint_word_of_int)

lemma length_tlv_bytes [simp]: "length (tlv_bytes t) = 5 + length (t_value t)"
  by (simp add: tlv_bytes_def)

lemma unpack_loop_step:
  assumes "tlv_ok t" "length p = j" "int j + int (length (tlv_bytes t)) \<le> buflen" "buflen < 2 ^ 31"
  shows "unpack_loop (p @ tlv_bytes t @ r) buflen j T =
    unpack_loop (p @ tlv_bytes t @ r) buflen (j + length (tlv_bytes t)) (T @ [t])"
proof -
  let ?n = "int (length (t_value t))" and ?b = "p @ tlv_bytes t @ r"
  have type: "arr_get ?b j = Some (t_type t)" using assms(2) by (simp add: arr_get_def tlv_bytes_def nth_append)
  have n: "in_int32 ?n" using assms(1) by (simp add: tlv_ok_def in_int32_def)
  have "get_int ((p @ [t_type t]) @ int32_bytes ?n @ t_value t @ r) (j + 1) = Some ?n"
    using n assms(2) by (intro get_int_at) simp_all
  then have len: "get_int ?b (j + 1) = Some ?n" by (simp add: tlv_bytes_def)
  have "get_block ((p @ [t_type t] @ int32_bytes ?n) @ t_value t @ r) (j + 5) (nat ?n) = Some (t_value t)"
    using assms(2) by (intro get_block_at) simp_all
  then have val: "get_block ?b (j + 5) (nat ?n) = Some (t_value t)" by (simp add: tlv_bytes_def)
  have guard: "\<not> word_of_int (buflen - int j) < (5 :: 32 word)"
    using assms(3,4) by (subst size_less_iff) simp_all
  have "in_int32 (int j + 5 + ?n)" "\<not> buflen < int j + 5 + ?n" using assms(3,4) by (simp_all add: in_int32_def)
  moreover have eq: "\<lparr>t_type = t_type t, t_value = t_value t\<rparr> = t" by (cases t) simp
  ultimately show ?thesis using assms(1) type len val guard
    by (subst unpack_loop.simps) (simp add: tlv_ok_def storeSwapTLVAdd_def add.assoc eq)
qed

lemma unpack_loop_packed:
  assumes "\<forall>t \<in> set ts. tlv_ok t" "length p = j"
    "buflen = int j + int (length (concat (map tlv_bytes ts)))" "buflen < 2 ^ 31"
  shows "unpack_loop (p @ concat (map tlv_bytes ts) @ r) buflen j T = Some (T @ ts)"
  using assms
proof (induction ts arbitrary: p j T)
  case Nil
  then show ?case by (subst unpack_loop.simps) simp
next
  case (Cons t ts)
  let ?rest = "concat (map tlv_bytes ts) @ r"
  have "unpack_loop (p @ tlv_bytes t @ ?rest) buflen j T =
      unpack_loop (p @ tlv_bytes t @ ?rest) buflen (j + length (tlv_bytes t)) (T @ [t])"
    using Cons.prems by (intro unpack_loop_step) simp_all
  also have "\<dots> = Some ((T @ [t]) @ ts)"
    using Cons.IH [of "p @ tlv_bytes t" "j + length (tlv_bytes t)" "T @ [t]"] Cons.prems by simp
  finally show ?case by simp
qed

lemma packed_length:
  "(\<Sum>t \<leftarrow> T. 1 + 4 + int (length (t_value t))) = int (length (concat (map tlv_bytes T)))"
  by (induction T) simp_all

lemma unpack_pack:
  assumes "\<forall>t \<in> set T. tlv_ok t" "T \<noteq> []" "5 + length (concat (map tlv_bytes T)) < 2 ^ 31"
  shows "\<exists>buf n. storeSwapMetaPack T = Some (buf, n) \<and> n = int (length buf) \<and>
    (\<forall>r. storeSwapMetaUnpack (buf @ r) = Some (T, Some n))"
proof -
  let ?c = "concat (map tlv_bytes T)"
  let ?n = "5 + int (length ?c)"
  have n: "in_int32 ?n" "?n < 2 ^ 31" using assms(3) by (simp_all add: in_int32_def)
  have pack: "storeSwapMetaPack T = Some (STORE_META_OK # int32_bytes ?n @ ?c, ?n)"
    using n unfolding storeSwapMetaPack_def packed_length by (simp add: add.commute Let_def)
  have "storeSwapMetaUnpack ((STORE_META_OK # int32_bytes ?n @ ?c) @ r) = Some (T, Some ?n)" for r
  proof -
    let ?b = "(STORE_META_OK # int32_bytes ?n @ ?c) @ r"
    have g: "get_int ?b 1 = Some ?n" using get_int_at [OF n(1), of 1 "[STORE_META_OK]" "?c @ r"] by simp
    have "0 < length ?c" using assms(2) by (cases T) simp_all
    then have "\<not> word_of_int ?n \<le> (5 :: 32 word)" using size_le_iff [of ?n] n(2) by linarith
    moreover have "unpack_loop ((STORE_META_OK # int32_bytes ?n) @ ?c @ r) ?n 5 [] = Some ([] @ T)"
      by (rule unpack_loop_packed [OF assms(1) _ _ n(2)]) simp_all
    then have "unpack_loop ?b ?n 5 [] = Some T" by (simp only: append_Cons append_assoc append_Nil)
    moreover have "arr_get ?b 0 = Some STORE_META_OK" by (simp add: arr_get_def)
    ultimately show ?thesis unfolding storeSwapMetaUnpack_def by (simp only: g bind.bind_lunit if_False not_True_eq_False simp_thms)
  qed
  then show ?thesis using pack by auto
qed

end
