(* ===== verification/StoreClient.thy ===== *)
theory StoreClient
  imports SwapOut SwapMeta 
begin

section \<open>Clients of an entry (store_client.c, store_swapin.c)\<close>

text \<open>
  How data reach the clients of an entry: from the page chain in memory, or from the swap
  file, whose header is checked against the entry first. A client is the \<open>i\<close>-th element of
  the list of clients of its entry. Its callback, the disk reads and the parsing of a reply
  header are events of the store; a callback that calls back into the store runs after the
  function that issued it. The disk layer's \<open>storeOpen\<close> is the parameter \<open>fs_open\<close>.
\<close>

subsection \<open>Access to a client\<close>

definition get_client :: "store \<Rightarrow> addr \<Rightarrow> nat \<Rightarrow> (StoreEntry \<times> MemObject \<times> store_client) option" where
  "get_client s a i = do {
     e \<leftarrow> s_entries s a;
     mem \<leftarrow> e_mem_obj e;
     sc \<leftarrow> arr_get (mem_clients mem) i;
     Some (e, mem, sc) }"

definition put_mem :: "store \<Rightarrow> addr \<Rightarrow> StoreEntry \<Rightarrow> MemObject \<Rightarrow> store" where
  "put_mem s a e mem = put_entry s a (e\<lparr>e_mem_obj := Some mem\<rparr>)"

definition put_client :: "store \<Rightarrow> addr \<Rightarrow> nat \<Rightarrow> store_client \<Rightarrow> store option" where
  "put_client s a i sc = do {
     (e, mem, _) \<leftarrow> get_client s a i;
     Some (put_mem s a e (mem\<lparr>mem_clients := (mem_clients mem)[i := sc]\<rparr>)) }"

subsection \<open>Registration\<close>

definition memHaveHeaders :: "MemObject option \<Rightarrow> bool" where
  "memHaveHeaders mem = (case mem of None \<Rightarrow> False | Some m \<Rightarrow> rep_parsed (mem_reply m))"

definition storeClientType :: "StoreEntry \<Rightarrow> MemObject \<Rightarrow> store_client_t" where
  "storeClientType e mem =
     (if mem_inmem_lo mem \<noteq> 0 then STORE_DISK_CLIENT
      else if has_flag e ENTRY_ABORTED then STORE_MEM_CLIENT
      else if e_store_status e = STORE_OK
      then (if mem_inmem_lo mem = 0 \<and> 0 < mem_inmem_hi mem then STORE_MEM_CLIENT else STORE_DISK_CLIENT)
      else if mem_nclients mem = 1 then STORE_MEM_CLIENT
      else if e_swap_status e = SWAPOUT_NONE then STORE_MEM_CLIENT
      else STORE_DISK_CLIENT)"

text \<open>The new client is the first of the list.\<close>

definition storeClientRegister :: "store \<Rightarrow> addr \<Rightarrow> store option" where
  "storeClientRegister s a = do {
     e \<leftarrow> s_entries s a;
     mem \<leftarrow> e_mem_obj e;
     let s = put_mem s a (e\<lparr>e_refcount := (e_refcount e + 1) mod 2 ^ 16\<rparr>) (mem\<lparr>mem_nclients := mem_nclients mem + 1\<rparr>);
     s \<leftarrow> storeLockObject s a;
     e \<leftarrow> s_entries s a;
     mem \<leftarrow> e_mem_obj e;
     let sc = \<lparr>sc_type = storeClientType e mem, sc_copy_offset = 0, sc_seen_offset = 0, sc_copy_size = 0,
               sc_copy_buf = None, sc_callback = False, sc_swapin_sio = None, sc_disk_io_pending = False,
               sc_store_copying = False, sc_copy_event_pending = False\<rparr>;
     Some (put_mem s a e (mem\<lparr>mem_clients := sc # mem_clients mem\<rparr>)) }"

definition storeClientCallback :: "store \<Rightarrow> addr \<Rightarrow> nat \<Rightarrow> int \<Rightarrow> store option" where
  "storeClientCallback s a i sz = do {
     (_, _, sc) \<leftarrow> get_client s a i;
     c_assert (sc_callback sc);
     buf \<leftarrow> sc_copy_buf sc;
     s \<leftarrow> put_client s a i (sc\<lparr>sc_callback := False, sc_copy_buf := None\<rparr>);
     Some (put_event s (ClientCallback a i sz (take (nat sz) buf))) }"

definition storeClientCopyPending :: "store \<Rightarrow> addr \<Rightarrow> nat \<Rightarrow> bool option" where
  "storeClientCopyPending s a i = do { (_, _, sc) \<leftarrow> get_client s a i; Some (sc_callback sc) }"

definition storeClientNoMoreToSend :: "StoreEntry \<Rightarrow> MemObject \<Rightarrow> store_client \<Rightarrow> bool" where
  "storeClientNoMoreToSend e mem sc \<longleftrightarrow>
     (if e_store_status e = STORE_PENDING then False
      else if mem_object_sz mem < 0 then False
      else if sc_copy_offset sc < mem_object_sz mem then False
      else True)"

subsection \<open>Opening and reading the swap file\<close>

definition storeSwapInStart ::
  "(StoreEntry \<Rightarrow> storeIOState option) \<Rightarrow> store \<Rightarrow> addr \<Rightarrow> nat \<Rightarrow> store option" where
  "storeSwapInStart fs_open s a i = do {
     (e, _, sc) \<leftarrow> get_client s a i;
     c_assert (e_mem_status e = NOT_IN_MEMORY);
     if \<not> has_flag e ENTRY_VALIDATED then Some s
     else if e_swap_status e \<noteq> SWAPOUT_WRITING \<and> e_swap_status e \<noteq> SWAPOUT_DONE then Some s
     else if e_swap_filen e < 0 then Some s
     else put_client s a i (sc\<lparr>sc_swapin_sio := fs_open e\<rparr>) }"

definition storeClientFileRead :: "store \<Rightarrow> addr \<Rightarrow> nat \<Rightarrow> store option" where
  "storeClientFileRead s a i = do {
     (e, mem, sc) \<leftarrow> get_client s a i;
     c_assert (sc_callback sc);
     c_assert (\<not> sc_disk_io_pending sc);
     s \<leftarrow> put_client s a i (sc\<lparr>sc_disk_io_pending := True\<rparr>);
     if mem_swap_hdr_sz mem = 0 then Some (put_event s (FsRead a i (sc_copy_size sc) 0))
     else do {
       c_assert (e_swap_status e = SWAPOUT_WRITING \<longrightarrow> sc_copy_offset sc < storeSwapOutObjectBytesOnDisk mem);
       Some (put_event s (FsRead a i (sc_copy_size sc) (sc_copy_offset sc + mem_swap_hdr_sz mem))) } }"

text \<open>The reply header is parsed when the first bytes of an object arrive from disk.\<close>

definition parse_first :: "store \<Rightarrow> addr \<Rightarrow> MemObject \<Rightarrow> store_client \<Rightarrow> int \<Rightarrow> 8 word list \<Rightarrow> store" where
  "parse_first s a mem sc len data =
     (if sc_copy_offset sc = 0 \<and> 0 < len \<and> \<not> memHaveHeaders (Some mem) then put_event s (ReplyParse a data) else s)"

definition storeClientReadBody :: "store \<Rightarrow> addr \<Rightarrow> nat \<Rightarrow> int \<Rightarrow> store option" where
  "storeClientReadBody s a i len = do {
     (e, mem, sc) \<leftarrow> get_client s a i;
     c_assert (sc_disk_io_pending sc);
     s \<leftarrow> put_client s a i (sc\<lparr>sc_disk_io_pending := False\<rparr>);
     c_assert (sc_callback sc);
     buf \<leftarrow> sc_copy_buf sc;
     storeClientCallback (parse_first s a mem sc len (take (nat len) buf)) a i len }"

subsection \<open>Checking the header of a swap file\<close>

definition string_of_bytes :: "8 word list \<Rightarrow> string" where
  "string_of_bytes bs = map (\<lambda>b. char_of (unat b)) bs"

text \<open>\<open>xstrdup\<close> of a value that should end in a null byte.\<close>

definition value_string :: "8 word list \<Rightarrow> string option" where
  "value_string v = cstr_of_buf (string_of_bytes v)"

record meta_check =
  swap_object_ok :: bool
  new_url :: "string option"
  new_store_url :: "string option"
  mc_mem :: MemObject

definition check_tlv :: "bool \<Rightarrow> cache_key \<Rightarrow> tlv \<Rightarrow> meta_check \<Rightarrow> meta_check option" where
  "check_tlv private key t mc =
     (if t_type t = STORE_META_KEY_MD5
      then do {
        c_assert (length (t_value t) = SQUID_MD5_DIGEST_LENGTH);
        Some (if \<not> private \<and> t_value t \<noteq> key then mc\<lparr>swap_object_ok := False\<rparr> else mc) }
      else if t_type t = STORE_META_URL
      then do { u \<leftarrow> value_string (t_value t); Some (mc\<lparr>new_url := Some u\<rparr>) }
      else if t_type t = STORE_META_STOREURL
      then do { u \<leftarrow> value_string (t_value t); Some (mc\<lparr>new_store_url := Some u\<rparr>) }
      else if t_type t = STORE_META_VARY_HEADERS
      then do {
        v \<leftarrow> value_string (t_value t);
        Some (case mem_vary_headers (mc_mem mc) of
                Some vary \<Rightarrow> if vary \<noteq> v then mc\<lparr>swap_object_ok := False\<rparr> else mc
              | None \<Rightarrow> mc\<lparr>mc_mem := (mc_mem mc)\<lparr>mem_vary_headers := Some v\<rparr>\<rparr>) }
      else Some mc)"

fun check_tlvs :: "bool \<Rightarrow> cache_key \<Rightarrow> tlv list \<Rightarrow> meta_check \<Rightarrow> meta_check option" where
  "check_tlvs private key [] mc = Some mc"
| "check_tlvs private key (t # ts) mc =
     (if swap_object_ok mc then do { mc \<leftarrow> check_tlv private key t mc; check_tlvs private key ts mc }
      else Some mc)"

definition check_urls :: "meta_check \<Rightarrow> meta_check" where
  "check_urls mc =
     (case new_url mc of
        None \<Rightarrow> mc\<lparr>swap_object_ok := False\<rparr>
      | Some url \<Rightarrow>
          (case new_store_url mc of
             Some su \<Rightarrow>
               (case mem_store_url (mc_mem mc) of
                  None \<Rightarrow> mc\<lparr>mc_mem := (mc_mem mc)\<lparr>mem_store_url := Some su\<rparr>\<rparr>
                | Some msu \<Rightarrow> if strcaseeq msu su then mc else mc\<lparr>swap_object_ok := False\<rparr>)
           | None \<Rightarrow> if \<not> strcaseeq (mem_url (mc_mem mc)) url then mc\<lparr>swap_object_ok := False\<rparr> else mc))"

text \<open>
  The buffer of the client holds the first \<open>len\<close> bytes of the file, and what it held before
  behind them. \<open>object_sz\<close> is the difference of a \<open>size_t\<close> and an \<open>int\<close>, which wraps at
  32 bits.
\<close>

definition storeClientReadHeader :: "store \<Rightarrow> addr \<Rightarrow> nat \<Rightarrow> int \<Rightarrow> store option" where
  "storeClientReadHeader s a i len = do {
     (e, mem, sc) \<leftarrow> get_client s a i;
     c_assert (sc_disk_io_pending sc);
     s \<leftarrow> put_client s a i (sc\<lparr>sc_disk_io_pending := False\<rparr>);
     c_assert (sc_callback sc);
     if len < 0 then storeClientCallback s a i len
     else do {
       buf \<leftarrow> sc_copy_buf sc;
       (tlv_list, hdr) \<leftarrow> storeSwapMetaUnpack buf;
       let swap_hdr_sz = (case hdr of None \<Rightarrow> 0 | Some n \<Rightarrow> n);
       if len < swap_hdr_sz then storeClientCallback s a i (- 1)
       else if tlv_list = [] then storeClientCallback s a i (- 1)
       else do {
         key \<leftarrow> link_key (s_links s) a;
         (e, mem, sc) \<leftarrow> get_client s a i;
         mc \<leftarrow> check_tlvs (has_flag e KEY_PRIVATE) key tlv_list
                 \<lparr>swap_object_ok = True, new_url = None, new_store_url = None, mc_mem = mem\<rparr>;
         let mc = check_urls mc;
         let s = put_mem s a e (mc_mem mc);
         if \<not> swap_object_ok mc then storeClientCallback s a i (- 1)
         else do {
           let mem = (mc_mem mc)\<lparr>mem_swap_hdr_sz := swap_hdr_sz,
                       mem_object_sz := (e_swap_file_sz e - swap_hdr_sz) mod 2 ^ 32\<rparr>;
           let s = put_mem s a e mem;
           let body_sz = len - swap_hdr_sz;
           if sc_copy_offset sc < body_sz
           then do {
             let copy_sz = min (int (sc_copy_size sc)) body_sz;
             let data = take (nat copy_sz) (drop (nat swap_hdr_sz) buf);
             s \<leftarrow> put_client s a i (sc\<lparr>sc_copy_buf := Some (data @ drop (length data) buf)\<rparr>);
             storeClientCallback (parse_first s a mem sc len data) a i copy_sz }
           else storeClientFileRead s a i } } } }"

subsection \<open>Copying to the client\<close>

text \<open>\<open>storeClientCopy3\<close>: answer from memory, from disk, or wait for more.\<close>

definition copy_from_memory :: "store \<Rightarrow> addr \<Rightarrow> nat \<Rightarrow> store option" where
  "copy_from_memory s a i = do {
     (e, mem, sc) \<leftarrow> get_client s a i;
     buf \<leftarrow> sc_copy_buf sc;
     data \<leftarrow> stmemCopy (mem_data_hdr mem) (sc_copy_offset sc) (sc_copy_size sc);
     c_assert (length data \<le> length buf);
     s \<leftarrow> put_client s a i (sc\<lparr>sc_copy_buf := Some (bytes_of_string data @ drop (length data) buf)\<rparr>);
     s \<leftarrow> (if has_flag e RELEASE_REQUEST
           then do { (_, s) \<leftarrow> storeSwapOutMaintainMemObject s a; Some s } else Some s);
     storeClientCallback s a i (int (length data)) }"

definition copy_or_read :: "store \<Rightarrow> addr \<Rightarrow> nat \<Rightarrow> store option" where
  "copy_or_read s a i = do {
     (e, mem, sc) \<leftarrow> get_client s a i;
     if mem_inmem_lo mem \<le> sc_copy_offset sc \<and> sc_copy_offset sc < mem_inmem_hi mem
     then copy_from_memory s a i
     else do {
       c_assert (sc_type sc = STORE_DISK_CLIENT);
       c_assert (\<not> sc_disk_io_pending sc);
       storeClientFileRead s a i } }"

definition storeClientCopy3 ::
  "(StoreEntry \<Rightarrow> storeIOState option) \<Rightarrow> store \<Rightarrow> addr \<Rightarrow> nat \<Rightarrow> store option" where
  "storeClientCopy3 fs_open s a i = do {
     (e, mem, sc) \<leftarrow> get_client s a i;
     if storeClientNoMoreToSend e mem sc then storeClientCallback s a i 0
     else if e_store_status e = STORE_PENDING \<and> mem_inmem_hi mem \<le> sc_seen_offset sc
     then (if has_flag e ENTRY_DEFER_READ \<and> storeLowestMemReaderOffset mem = mem_inmem_hi mem
           then storeResumeRead s a else Some s)
     else if sc_type sc = STORE_DISK_CLIENT \<and> sc_swapin_sio sc = None
     then (if storeTooManyDiskFilesOpen s then storeClientCallback s a i (- 1)
           else if \<not> sc_disk_io_pending sc
           then do {
             s \<leftarrow> storeSwapInStart fs_open s a i;
             (_, _, sc) \<leftarrow> get_client s a i;
             if sc_swapin_sio sc = None then storeClientCallback s a i (- 1) else copy_or_read s a i }
           else Some s)
     else copy_or_read s a i }"

definition storeClientCopy2 ::
  "(StoreEntry \<Rightarrow> storeIOState option) \<Rightarrow> store \<Rightarrow> addr \<Rightarrow> nat \<Rightarrow> store option" where
  "storeClientCopy2 fs_open s a i = do {
     (e, mem, sc) \<leftarrow> get_client s a i;
     if sc_copy_event_pending sc then Some s
     else if has_flag e ENTRY_FWD_HDR_WAIT then Some s
     else if sc_store_copying sc
     then do {
       s \<leftarrow> put_client s a i (sc\<lparr>sc_copy_event_pending := True\<rparr>);
       Some (put_event s (ClientCopyEvent a i)) }
     else do {
       s \<leftarrow> put_client s a i (sc\<lparr>sc_store_copying := True\<rparr>);
       c_assert (sc_callback sc);
       s \<leftarrow> storeClientCopy3 fs_open s a i;
       (_, _, sc) \<leftarrow> get_client s a i;
       put_client s a i (sc\<lparr>sc_store_copying := False\<rparr>) } }"

definition storeClientCopyEvent ::
  "(StoreEntry \<Rightarrow> storeIOState option) \<Rightarrow> store \<Rightarrow> addr \<Rightarrow> nat \<Rightarrow> store option" where
  "storeClientCopyEvent fs_open s a i = do {
     (_, _, sc) \<leftarrow> get_client s a i;
     s \<leftarrow> put_client s a i (sc\<lparr>sc_copy_event_pending := False\<rparr>);
     if \<not> sc_callback sc then Some s else storeClientCopy2 fs_open s a i }"

text \<open>\<open>InvokeHandlers\<close> serves every client that waits for data and has no read under way.\<close>

fun invoke_from :: "(StoreEntry \<Rightarrow> storeIOState option) \<Rightarrow> addr \<Rightarrow> nat list \<Rightarrow> store \<Rightarrow> store option" where
  "invoke_from fs_open a [] s = Some s"
| "invoke_from fs_open a (i # is) s = do {
     (_, _, sc) \<leftarrow> get_client s a i;
     s \<leftarrow> (if \<not> sc_callback sc then Some s
           else if sc_disk_io_pending sc then Some s
           else storeClientCopy2 fs_open s a i);
     invoke_from fs_open a is s }"

definition InvokeHandlers :: "(StoreEntry \<Rightarrow> storeIOState option) \<Rightarrow> store \<Rightarrow> addr \<Rightarrow> store option" where
  "InvokeHandlers fs_open s a = do {
     e \<leftarrow> s_entries s a;
     mem \<leftarrow> e_mem_obj e;
     invoke_from fs_open a [0..<length (mem_clients mem)] s }"

text \<open>The swap-in file was closed, or moved.\<close>

definition storeSwapInFileClosed :: "nat \<Rightarrow> store \<Rightarrow> addr \<Rightarrow> nat \<Rightarrow> int \<Rightarrow> store option" where
  "storeSwapInFileClosed n s a i errflag = do {
     (_, _, sc) \<leftarrow> get_client s a i;
     s \<leftarrow> put_client s a i (sc\<lparr>sc_swapin_sio := None\<rparr>);
     s \<leftarrow> (if errflag < 0 then storeRelease n s a else Some s);
     (_, _, sc) \<leftarrow> get_client s a i;
     if sc_callback sc
     then do {
       c_assert (errflag \<le> 0);
       buf \<leftarrow> sc_copy_buf sc;
       s \<leftarrow> put_client s a i (sc\<lparr>sc_callback := False\<rparr>);
       Some (put_event s (ClientCallback a i errflag (take (nat errflag) buf))) }
     else Some s }"

definition storeSwapInFileNotify :: "store \<Rightarrow> addr \<Rightarrow> storeIOState \<Rightarrow> store option" where
  "storeSwapInFileNotify s a sio = do {
     e \<leftarrow> s_entries s a;
     Some (put_entry s a (e\<lparr>e_swap_filen := sio_swap_filen sio, e_swap_dirn := sio_swap_dirn sio\<rparr>)) }"

subsection \<open>Quick abort\<close>

text \<open>The settings \<open>quick_abort_min\<close>, \<open>quick_abort_max\<close> (kilobytes) and \<open>quick_abort_pct\<close>.\<close>

record quick_abort =
  qa_min :: int
  qa_pct :: int
  qa_max :: int

definition CheckQuickAbort2 :: "quick_abort \<Rightarrow> StoreEntry \<Rightarrow> bool option" where
  "CheckQuickAbort2 qa e = do {
     mem \<leftarrow> e_mem_obj e;
     let expectlen = httpReplyBodySize (mem_method mem) (mem_reply mem) + rep_hdr_sz (mem_reply mem);
     let curlen = mem_inmem_hi mem;
     let minlen = push_bit 10 (qa_min qa);
     Some (if (case mem_request mem of None \<Rightarrow> False | Some r \<Rightarrow> \<not> r_cachable r) then True
           else if expectlen = curlen then False
           else if has_flag e KEY_PRIVATE then True
           else if minlen < 0 then False
           else if expectlen < curlen then True
           else if expectlen - curlen < minlen then False
           else if push_bit 10 (qa_max qa) < expectlen - curlen then True
           else if expectlen < 100 then False
           else if qa_pct qa < curlen sdiv (expectlen sdiv 100) then False
           else True) }"

subsection \<open>A header is accepted by the entry it was written for\<close>

lemma string_of_bytes_of_string [simp]: "string_of_bytes (bytes_of_string s) = s"
proof -
  have "char_of (unat (of_nat (of_char c) :: 8 word)) = (c :: char)" for c
    by (simp add: unat_of_nat)
  then show ?thesis by (induction s) (simp_all add: string_of_bytes_def bytes_of_string_def)
qed

lemma value_string_cstr [simp]: "cstring s \<Longrightarrow> value_string (cstr_bytes s) = Some s"
  by (simp add: value_string_def cstr_bytes_def)

lemma length_cstr_bytes [simp]: "length (cstr_bytes s) = Suc (length s)"
  by (simp add: cstr_bytes_def bytes_of_string_def)

text \<open>The strings of an object fit into header fields.\<close>

definition meta_fits :: "MemObject \<Rightarrow> bool" where
  "meta_fits m \<longleftrightarrow> cstring (mem_url m) \<and> length (mem_url m) < 2 ^ 16 \<and>
     (case mem_vary_headers m of None \<Rightarrow> True | Some v \<Rightarrow> cstring v \<and> length v < 2 ^ 16) \<and>
     (case mem_store_url m of None \<Rightarrow> True | Some u \<Rightarrow> cstring u \<and> length u < 2 ^ 16)"

text \<open>The object asked for, \<open>mem\<close>, agrees with the object stored, \<open>m0\<close>.\<close>

definition meta_agrees :: "MemObject \<Rightarrow> MemObject \<Rightarrow> bool" where
  "meta_agrees m0 mem \<longleftrightarrow>
     (case (mem_vary_headers m0, mem_vary_headers mem) of (Some v0, Some v) \<Rightarrow> v = v0 | _ \<Rightarrow> True) \<and>
     (case mem_store_url m0 of
        None \<Rightarrow> strcaseeq (mem_url mem) (mem_url m0)
      | Some u0 \<Rightarrow> (case mem_store_url mem of None \<Rightarrow> True | Some u \<Rightarrow> strcaseeq u u0))"

lemma length_std_bytes [simp]: "length (std_bytes e) = 24"
  by (simp add: std_bytes_def)

lemma length_bytes_of64 [simp]: "length (bytes_of64 w) = 8"
  by (simp add: bytes_of64_def)

lemma build_shape:
  assumes "e_mem_obj e0 = Some m0" "e_swap_status e0 = SWAPOUT_WRITING" "length key = 16"
  shows "storeSwapMetaBuild key e0 = Some
    ([\<lparr>t_type = 3, t_value = key\<rparr>, \<lparr>t_type = 5, t_value = std_bytes e0\<rparr>,
      \<lparr>t_type = 4, t_value = cstr_bytes (mem_url m0)\<rparr>]
     @ (if - 1 < mem_object_sz m0 then [\<lparr>t_type = 10, t_value = bytes_of64 (word_of_int (mem_object_sz m0))\<rparr>] else [])
     @ (case mem_vary_headers m0 of Some v \<Rightarrow> [\<lparr>t_type = 8, t_value = cstr_bytes v\<rparr>] | None \<Rightarrow> [])
     @ (case mem_store_url m0 of Some u \<Rightarrow> [\<lparr>t_type = 11, t_value = cstr_bytes u\<rparr>] | None \<Rightarrow> []))"
  using assms
  by (simp add: storeSwapMetaBuild_def objectLen_def storeSwapTLVAdd_def storeUrl_def SQUID_MD5_DIGEST_LENGTH_def
      split: option.splits)

lemma build_packs:
  assumes "e_mem_obj e0 = Some m0" "e_swap_status e0 = SWAPOUT_WRITING" "length key = 16" "meta_fits m0"
  shows "\<exists>T hdr. storeSwapMetaBuild key e0 = Some T \<and> T \<noteq> [] \<and>
    storeSwapMetaPack T = Some (hdr, int (length hdr)) \<and>
    (\<forall>r. storeSwapMetaUnpack (hdr @ r) = Some (T, Some (int (length hdr))))"
proof -
  obtain T where T: "storeSwapMetaBuild key e0 = Some T" using build_shape [OF assms(1-3)] by blast
  have "\<forall>t \<in> set T. tlv_ok t" "T \<noteq> []"
    using T assms(3,4) unfolding build_shape [OF assms(1-3)]
    by (auto simp: tlv_ok_def meta_fits_def split: if_splits option.splits)
  moreover have "length (concat (map tlv_bytes T)) < 2 ^ 20"
    using T assms(3,4) unfolding build_shape [OF assms(1-3)]
    by (auto simp: meta_fits_def split: if_splits option.splits)
  ultimately show ?thesis using T unpack_pack [of T] by fastforce
qed

text \<open>The object with the Vary headers of the header field, where it had none.\<close>

definition take_vary :: "MemObject \<Rightarrow> MemObject \<Rightarrow> MemObject" where
  "take_vary m0 mem =
     (case (mem_vary_headers m0, mem_vary_headers mem) of
        (Some v0, None) \<Rightarrow> mem\<lparr>mem_vary_headers := Some v0\<rparr> | _ \<Rightarrow> mem)"

lemma take_vary_simps [simp]:
  "mem_store_url (take_vary m0 mem) = mem_store_url mem" "mem_url (take_vary m0 mem) = mem_url mem"
  "mem_clients (take_vary m0 mem) = mem_clients mem" "mem_reply (take_vary m0 mem) = mem_reply mem"
  by (auto simp: take_vary_def split: option.splits)

lemma check_tlvs_build:
  assumes "e_mem_obj e0 = Some m0" "e_swap_status e0 = SWAPOUT_WRITING" "length key = 16" "meta_fits m0"
    "storeSwapMetaBuild key e0 = Some T" "meta_agrees m0 mem"
  shows "check_tlvs private key T
      \<lparr>swap_object_ok = True, new_url = None, new_store_url = None, mc_mem = mem\<rparr> =
    Some \<lparr>swap_object_ok = True, new_url = Some (mem_url m0), new_store_url = mem_store_url m0,
          mc_mem = take_vary m0 mem\<rparr>"
proof -
  have T: "T = the (storeSwapMetaBuild key e0)" using assms(5) by simp
  show ?thesis unfolding T build_shape [OF assms(1-3)] option.sel using assms(3,4,6)
    by (cases "mem_vary_headers m0"; cases "mem_store_url m0"; cases "mem_vary_headers mem")
      (simp_all add: check_tlv_def meta_fits_def meta_agrees_def take_vary_def SQUID_MD5_DIGEST_LENGTH_def)
qed

lemma check_urls_agrees:
  assumes "meta_agrees m0 mem"
  shows "\<exists>mem'. check_urls \<lparr>swap_object_ok = True, new_url = Some (mem_url m0), new_store_url = mem_store_url m0,
      mc_mem = take_vary m0 mem\<rparr> =
    \<lparr>swap_object_ok = True, new_url = Some (mem_url m0), new_store_url = mem_store_url m0, mc_mem = mem'\<rparr> \<and>
    mem_clients mem' = mem_clients mem \<and> mem_reply mem' = mem_reply mem"
  using assms
  by (cases "mem_store_url m0"; cases "mem_store_url mem")
    (simp_all add: check_urls_def meta_agrees_def)

subsection \<open>Reading an entry back\<close>

lemma get_client_parts:
  "get_client s a i = Some (e, mem, sc) \<longleftrightarrow>
     s_entries s a = Some e \<and> e_mem_obj e = Some mem \<and> i < length (mem_clients mem) \<and> sc = mem_clients mem ! i"
  by (auto simp: get_client_def arr_get_def split: Option.bind_splits if_splits)

lemma get_client_put_mem:
  "i < length (mem_clients mem) \<Longrightarrow>
    get_client (put_mem s a e mem) a i = Some (e\<lparr>e_mem_obj := Some mem\<rparr>, mem, mem_clients mem ! i)"
  by (simp add: get_client_parts put_mem_def put_entry_def)

lemma put_client_eq:
  "get_client s a i = Some (e, mem, sc) \<Longrightarrow>
    put_client s a i sc' = Some (put_mem s a e (mem\<lparr>mem_clients := (mem_clients mem)[i := sc']\<rparr>))"
  by (simp add: put_client_def)

lemma get_client_put_event [simp]: "get_client (put_event s ev) a i = get_client s a i"
  by (simp add: get_client_def put_event_def)

lemma s_put_mem [simp]:
  "s_links (put_mem s a e mem) = s_links s" "s_events (put_mem s a e mem) = s_events s"
  "put_mem (put_mem s a e mem) a (e\<lparr>e_mem_obj := x\<rparr>) mem' = put_mem s a e mem'"
  by (simp_all add: put_mem_def put_entry_def)

lemma callback_ok:
  assumes "get_client s a i = Some (e, mem, sc)" "sc_callback sc" "sc_copy_buf sc = Some buf"
  shows "storeClientCallback s a i sz =
    Some (put_event (put_mem s a e (mem\<lparr>mem_clients := (mem_clients mem)[i := sc\<lparr>sc_callback := False, sc_copy_buf := None\<rparr>]\<rparr>))
      (ClientCallback a i sz (take (nat sz) buf)))"
  using assms by (simp add: storeClientCallback_def put_client_eq)

lemma get_client_parse_first [simp]: "get_client (parse_first s a mem sc len d) a i = get_client s a i"
  by (simp add: parse_first_def)

lemma meta_agrees_clients [simp]: "meta_agrees m0 (mem\<lparr>mem_clients := x\<rparr>) = meta_agrees m0 mem"
  by (simp add: meta_agrees_def split: option.splits)

lemma s_entries_callback [simp]: "s_entries (put_event s ev) a = s_entries s a"
  by (simp add: put_event_def)

lemma last_put_event [simp]: "last (s_events (put_event s ev)) = ev"
  by (simp add: put_event_def)

lemma s_entries_put_mem [simp]: "s_entries (put_mem s a e mem) a = Some (e\<lparr>e_mem_obj := Some mem\<rparr>)"
  by (simp add: put_mem_def put_entry_def)

text \<open>The state in which a client reads the header of a swap file: a read is under way, the
  client waits for it, and its buffer holds the header and the part of the body that was read.\<close>

definition reading_header ::
  "store \<Rightarrow> addr \<Rightarrow> nat \<Rightarrow> cache_key \<Rightarrow> MemObject \<Rightarrow> store_client \<Rightarrow> 8 word list \<Rightarrow> bool" where
  "reading_header s a i key mem sc buf \<longleftrightarrow>
     (\<exists>e. get_client s a i = Some (e, mem, sc)) \<and> link_key (s_links s) a = Some key \<and> length key = 16 \<and>
     sc_disk_io_pending sc \<and> sc_callback sc \<and> sc_copy_buf sc = Some buf"

text \<open>The header of a swap file is read back. The header written for an entry is accepted
  when the object asked for agrees with the stored one (same key, same URL up to case, same
  Vary headers and store URL where both are known), whatever follows it in the buffer, and the
  object's header and body sizes are set from the file. The client, which asked for an offset inside the part of
  the body that was read, is then given the start of that part, at most as much as it asked for: the
  right bytes if it asked for offset 0, and those of offset 0 also if it asked for another one.\<close>
theorem swapin_reads_swapout:
  assumes "reading_header s a i key mem sc (hdr @ part @ junk)" "s_entries s a = Some e"
    "e_mem_obj e0 = Some m0" "e_swap_status e0 = SWAPOUT_WRITING" "meta_fits m0" "meta_agrees m0 mem"
    "storeSwapMetaBuild key e0 = Some T" "storeSwapMetaPack T = Some (hdr, n)"
    "sc_copy_offset sc < int (length part)"
  shows "\<exists>s' e' mem'. storeClientReadHeader s a i (int (length (hdr @ part))) = Some s' \<and>
    last (s_events s') = ClientCallback a i (int (min (sc_copy_size sc) (length part))) (take (sc_copy_size sc) part) \<and>
    s_entries s' a = Some e' \<and> e_mem_obj e' = Some mem' \<and>
    mem_swap_hdr_sz mem' = int (length hdr) \<and> mem_object_sz mem' = (e_swap_file_sz e - int (length hdr)) mod 2 ^ 32"
proof -
  let ?buf = "hdr @ part @ junk" and ?n = "int (length hdr)"
  let ?sc = "sc\<lparr>sc_disk_io_pending := False\<rparr>"
  let ?m1 = "mem\<lparr>mem_clients := (mem_clients mem)[i := ?sc]\<rparr>"
  have c: "get_client s a i = Some (e, mem, sc)" and key: "link_key (s_links s) a = Some key" "length key = 16"
    and sc: "sc_disk_io_pending sc" "sc_callback sc" "sc_copy_buf sc = Some ?buf"
    using assms(1,2) by (auto simp: reading_header_def get_client_parts)
  have i: "i < length (mem_clients mem)" using c by (simp add: get_client_parts)
  have n: "n = ?n" "T \<noteq> []" and unpack: "storeSwapMetaUnpack ?buf = Some (T, Some ?n)"
    using build_packs [OF assms(3,4) key(2) assms(5)] assms(7,8) by auto
  have "meta_agrees m0 ?m1" using assms(6) by simp
  from check_tlvs_build [OF assms(3,4) key(2) assms(5,7) this] check_urls_agrees [OF this]
  obtain mem' where chk: "\<And>private. check_tlvs private key T
      \<lparr>swap_object_ok = True, new_url = None, new_store_url = None, mc_mem = ?m1\<rparr> =
    Some \<lparr>swap_object_ok = True, new_url = Some (mem_url m0), new_store_url = mem_store_url m0, mc_mem = take_vary m0 ?m1\<rparr>"
    "check_urls \<lparr>swap_object_ok = True, new_url = Some (mem_url m0), new_store_url = mem_store_url m0,
      mc_mem = take_vary m0 ?m1\<rparr> =
     \<lparr>swap_object_ok = True, new_url = Some (mem_url m0), new_store_url = mem_store_url m0, mc_mem = mem'\<rparr>"
    "mem_clients mem' = mem_clients ?m1" by blast
  let ?e1 = "e\<lparr>e_mem_obj := Some ?m1\<rparr>" and ?s1 = "put_mem s a e ?m1"
  let ?m2 = "mem'\<lparr>mem_swap_hdr_sz := ?n, mem_object_sz := (e_swap_file_sz e - ?n) mod 2 ^ 32\<rparr>"
  let ?s2 = "put_mem s a e ?m2" and ?k = "min (sc_copy_size sc) (length part)"
  let ?d = "take ?k part"
  let ?sc3 = "?sc\<lparr>sc_copy_buf := Some (?d @ drop (length ?d) ?buf)\<rparr>"
  let ?m3 = "?m2\<lparr>mem_clients := (mem_clients ?m2)[i := ?sc3]\<rparr>"
  have c1: "get_client ?s1 a i = Some (?e1, ?m1, ?sc)" using i by (simp add: get_client_put_mem)
  have c2: "get_client ?s2 a i = Some (e\<lparr>e_mem_obj := Some ?m2\<rparr>, ?m2, ?sc)"
    using i chk(3) by (simp add: get_client_put_mem)
  have c3: "get_client (put_mem s a e ?m3) a i = Some (e\<lparr>e_mem_obj := Some ?m3\<rparr>, ?m3, ?sc3)"
    using i chk(3) by (simp add: get_client_put_mem)
  have "storeClientReadHeader s a i (int (length (hdr @ part))) =
      storeClientCallback (parse_first (put_mem s a e ?m3) a ?m2 ?sc (int (length (hdr @ part))) ?d) a i (int ?k)"
    using c c1 c2 sc key unpack chk(1,2) n(2) assms(9)
    by (simp add: storeClientReadHeader_def put_client_eq Let_def flip: of_nat_min)
  also have "\<dots> = Some (put_event (put_mem (parse_first (put_mem s a e ?m3) a ?m2 ?sc (int (length (hdr @ part))) ?d) a
      (e\<lparr>e_mem_obj := Some ?m3\<rparr>)
      (?m3\<lparr>mem_clients := (mem_clients ?m3)[i := ?sc3\<lparr>sc_callback := False, sc_copy_buf := None\<rparr>]\<rparr>))
      (ClientCallback a i (int ?k) (take (nat (int ?k)) (?d @ drop (length ?d) ?buf))))"
    using sc c3 by (intro callback_ok) simp_all
  finally have eq: "storeClientReadHeader s a i (int (length (hdr @ part))) = Some (put_event (put_mem
      (parse_first (put_mem s a e ?m3) a ?m2 ?sc (int (length (hdr @ part))) ?d) a (e\<lparr>e_mem_obj := Some ?m3\<rparr>)
      (?m3\<lparr>mem_clients := (mem_clients ?m3)[i := ?sc3\<lparr>sc_callback := False, sc_copy_buf := None\<rparr>]\<rparr>))
      (ClientCallback a i (int ?k) (take (nat (int ?k)) (?d @ drop (length ?d) ?buf))))" .
  have "?d = take (sc_copy_size sc) part" by (simp add: min_def)
  then show ?thesis unfolding eq by simp
qed

definition demo_client :: "8 word list \<Rightarrow> store_client" where
  "demo_client buf = \<lparr>sc_type = STORE_DISK_CLIENT, sc_copy_offset = 0, sc_seen_offset = 0, sc_copy_size = 4096,
     sc_copy_buf = Some buf, sc_callback = True, sc_swapin_sio = None, sc_disk_io_pending = True,
     sc_store_copying = False, sc_copy_event_pending = False\<rparr>"

definition demo_stored :: StoreEntry where
  "demo_stored = demo_entry\<lparr>e_swap_status := SWAPOUT_WRITING\<rparr>"

definition demo_read :: "store \<Rightarrow> 8 word list \<Rightarrow> store" where
  "demo_read s buf = put_mem s 1 demo_entry (demo_mem_obj\<lparr>mem_clients := [demo_client buf]\<rparr>)"

lemma demo_meta:
  "e_mem_obj demo_stored = Some demo_mem_obj" "e_swap_status demo_stored = SWAPOUT_WRITING"
  "meta_fits demo_mem_obj" "meta_agrees demo_mem_obj (demo_mem_obj\<lparr>mem_clients := cs\<rparr>)"
  by (simp_all add: demo_stored_def demo_entry_def demo_mem_obj_def meta_fits_def meta_agrees_def strcaseeq_def cstring_def)

lemma demo_reading:
  assumes "link_key (s_links s) 1 = Some key" "length key = 16"
  shows "reading_header (demo_read s buf) 1 0 key (demo_mem_obj\<lparr>mem_clients := [demo_client buf]\<rparr>) (demo_client buf) buf"
  using assms by (simp add: reading_header_def demo_read_def get_client_put_mem) (simp add: demo_client_def)

lemma demo_store_link: "\<exists>s :: store. link_key (s_links s) 1 = Some (replicate 16 7)"
proof -
  obtain s where "store_rep s ((\<lambda>_. [])(replicate 16 7 := [1]))" by (rule demo_store_filled [of "replicate 16 7"]) auto
  from store_rep_once(4) [OF this, of 1 "replicate 16 7"] show ?thesis by auto
qed

theorem swapin_reads_swapout_witness:
  "\<exists>s hdr s'. storeClientReadHeader (demo_read s (hdr @ [1, 2, 3])) 1 0 (int (length (hdr @ [1, 2, 3]))) = Some s' \<and>
    last (s_events s') = ClientCallback 1 0 3 [1, 2, 3]"
proof -
  let ?k = "replicate 16 (7 :: 8 word)"
  obtain s :: store where s: "link_key (s_links s) 1 = Some ?k" using demo_store_link by blast
  obtain T hdr where h: "storeSwapMetaBuild ?k demo_stored = Some T" "storeSwapMetaPack T = Some (hdr, int (length hdr))"
    using build_packs [OF demo_meta(1,2), of ?k] demo_meta(3) by auto
  let ?b = "hdr @ [1, 2, 3 :: 8 word] @ []"
  have "s_entries (demo_read s ?b) 1 = Some (demo_entry\<lparr>e_mem_obj := Some (demo_mem_obj\<lparr>mem_clients := [demo_client ?b]\<rparr>)\<rparr>)"
    by (simp add: demo_read_def)
  from swapin_reads_swapout [OF demo_reading [OF s] this demo_meta(1-4) h] show ?thesis
    by (fastforce simp: demo_client_def)
qed

text \<open>A file that was written for another key is never served. If the header in the
  buffer was written for a key other than the one the entry has, and the entry is public,
  the client is told that the read failed and is given no data.\<close>
theorem swapin_rejects_other_key:
  assumes "reading_header s a i key mem sc (hdr @ part @ junk)" "s_entries s a = Some e" "\<not> has_flag e KEY_PRIVATE"
    "e_mem_obj e0 = Some m0" "e_swap_status e0 = SWAPOUT_WRITING" "meta_fits m0" "length key0 = 16" "key0 \<noteq> key"
    "storeSwapMetaBuild key0 e0 = Some T" "storeSwapMetaPack T = Some (hdr, n)"
  shows "\<exists>s'. storeClientReadHeader s a i (int (length (hdr @ part))) = Some s' \<and>
    last (s_events s') = ClientCallback a i (- 1) []"
proof -
  let ?buf = "hdr @ part @ junk" and ?n = "int (length hdr)"
  let ?sc = "sc\<lparr>sc_disk_io_pending := False\<rparr>"
  let ?m1 = "mem\<lparr>mem_clients := (mem_clients mem)[i := ?sc]\<rparr>"
  let ?mc = "\<lparr>swap_object_ok = True, new_url = None, new_store_url = None, mc_mem = ?m1\<rparr>"
  have c: "get_client s a i = Some (e, mem, sc)" and key: "link_key (s_links s) a = Some key"
    and sc: "sc_disk_io_pending sc" "sc_callback sc" "sc_copy_buf sc = Some ?buf"
    using assms(1,2) by (auto simp: reading_header_def get_client_parts)
  have i: "i < length (mem_clients mem)" using c by (simp add: get_client_parts)
  have n: "n = ?n" "T \<noteq> []" and unpack: "storeSwapMetaUnpack ?buf = Some (T, Some ?n)"
    using build_packs [OF assms(4,5,7,6)] assms(9,10) by auto
  obtain ts where "T = \<lparr>t_type = 3, t_value = key0\<rparr> # ts" using build_shape [OF assms(4,5,7)] assms(9) by auto
  then have chk: "check_tlvs False key T ?mc = Some (?mc\<lparr>swap_object_ok := False\<rparr>)"
    using assms(7,8) by (cases ts) (simp_all add: check_tlv_def SQUID_MD5_DIGEST_LENGTH_def)
  have c1: "get_client (put_mem s a e ?m1) a i = Some (e\<lparr>e_mem_obj := Some ?m1\<rparr>, ?m1, ?sc)"
    using i by (simp add: get_client_put_mem)
  have "storeClientReadHeader s a i (int (length (hdr @ part))) = storeClientCallback (put_mem s a e ?m1) a i (- 1)"
    using c c1 sc key unpack chk n(2) assms(3)
    by (simp add: storeClientReadHeader_def put_client_eq Let_def check_urls_def)
  then show ?thesis using callback_ok [OF c1] sc by simp
qed

theorem swapin_rejects_other_key_witness:
  "\<exists>s hdr s'. storeClientReadHeader (demo_read s (hdr @ [1])) 1 0 (int (length (hdr @ [1]))) = Some s' \<and>
    last (s_events s') = ClientCallback 1 0 (- 1) []"
proof -
  let ?k = "replicate 16 (7 :: 8 word)" and ?other = "replicate 16 (8 :: 8 word)"
  obtain s :: store where s: "link_key (s_links s) 1 = Some ?k" using demo_store_link by blast
  obtain T hdr where h: "storeSwapMetaBuild ?other demo_stored = Some T" "storeSwapMetaPack T = Some (hdr, int (length hdr))"
    using build_packs [OF demo_meta(1,2), of ?other] demo_meta(3) by auto
  let ?b = "hdr @ [1 :: 8 word] @ []"
  let ?e = "demo_entry\<lparr>e_mem_obj := Some (demo_mem_obj\<lparr>mem_clients := [demo_client ?b]\<rparr>)\<rparr>"
  have e: "s_entries (demo_read s ?b) 1 = Some ?e" by (simp add: demo_read_def)
  have "\<not> has_flag ?e KEY_PRIVATE" by (simp add: demo_entry_def EBIT_TEST_def)
  from swapin_rejects_other_key [OF demo_reading [OF s] e this demo_meta(1-3) _ _ h] show ?thesis by fastforce
qed

subsection \<open>Answering from memory\<close>

text \<open>The page chain of an object holds the bytes from \<open>inmem_lo\<close> to \<open>inmem_hi\<close>.\<close>

definition mem_chain_ok :: "MemObject \<Rightarrow> bool" where
  "mem_chain_ok mem \<longleftrightarrow> mem_hdr_wf (mem_data_hdr mem) \<and> origin_offset (mem_data_hdr mem) = mem_inmem_lo mem \<and>
     mem_end (mem_data_hdr mem) = mem_inmem_hi mem"

definition wanted :: "MemObject \<Rightarrow> store_client \<Rightarrow> 8 word list" where
  "wanted mem sc = bytes_of_string
     (take (sc_copy_size sc) (drop (nat (sc_copy_offset sc - mem_inmem_lo mem)) (mem_bytes (mem_data_hdr mem))))"

text \<open>A client that waits for data it has not seen.\<close>

definition waiting :: "StoreEntry \<Rightarrow> MemObject \<Rightarrow> store_client \<Rightarrow> bool" where
  "waiting e mem sc \<longleftrightarrow> sc_callback sc \<and> (\<exists>buf. sc_copy_buf sc = Some buf \<and> length buf = sc_copy_size sc) \<and>
     0 < sc_copy_size sc \<and> \<not> sc_copy_event_pending sc \<and> \<not> sc_store_copying sc \<and>
     sc_type sc = STORE_MEM_CLIENT \<and> \<not> has_flag e ENTRY_FWD_HDR_WAIT \<and> \<not> has_flag e RELEASE_REQUEST \<and>
     (e_store_status e = STORE_PENDING \<longrightarrow> sc_seen_offset sc < mem_inmem_hi mem) \<and>
     (e_store_status e = STORE_OK \<longrightarrow> mem_object_sz mem < 0 \<or> sc_copy_offset sc < mem_object_sz mem)"

lemma length_bytes_of_string [simp]: "length (bytes_of_string s) = length s"
  by (simp add: bytes_of_string_def)

lemma copy_from_memory_ok:
  assumes c: "get_client s a i = Some (e, mem, sc)" and sc: "sc_callback sc" "sc_copy_buf sc = Some buf"
      "length buf = sc_copy_size sc" "0 < sc_copy_size sc"
    and chain: "mem_chain_ok mem" and lo: "mem_inmem_lo mem \<le> sc_copy_offset sc" and rel: "\<not> has_flag e RELEASE_REQUEST"
  shows "copy_from_memory s a i = Some (put_event
    (put_mem s a e (mem\<lparr>mem_clients := (mem_clients mem)[i := sc\<lparr>sc_callback := False, sc_copy_buf := None\<rparr>]\<rparr>))
    (ClientCallback a i (int (length (wanted mem sc))) (wanted mem sc)))"
proof -
  let ?d = "take (sc_copy_size sc) (drop (nat (sc_copy_offset sc - mem_inmem_lo mem)) (mem_bytes (mem_data_hdr mem)))"
  have d: "stmemCopy (mem_data_hdr mem) (sc_copy_offset sc) (sc_copy_size sc) = Some ?d"
    using stmem.copy_law [of "mem_data_hdr mem" "sc_copy_size sc" "sc_copy_offset sc"] chain sc(4) lo
    by (simp add: mem_chain_ok_def)
  let ?sc1 = "sc\<lparr>sc_copy_buf := Some (bytes_of_string ?d @ drop (length ?d) buf)\<rparr>"
  let ?m1 = "mem\<lparr>mem_clients := (mem_clients mem)[i := ?sc1]\<rparr>"
  have c1: "get_client (put_mem s a e ?m1) a i = Some (e\<lparr>e_mem_obj := Some ?m1\<rparr>, ?m1, ?sc1)"
    using c by (simp add: get_client_put_mem get_client_parts)
  have "copy_from_memory s a i = storeClientCallback (put_mem s a e ?m1) a i (int (length ?d))"
    using c sc d rel by (simp add: copy_from_memory_def put_client_eq)
  also have "\<dots> = Some (put_event (put_mem (put_mem s a e ?m1) a (e\<lparr>e_mem_obj := Some ?m1\<rparr>)
      (?m1\<lparr>mem_clients := (mem_clients ?m1)[i := ?sc1\<lparr>sc_callback := False, sc_copy_buf := None\<rparr>]\<rparr>))
      (ClientCallback a i (int (length ?d)) (take (nat (int (length ?d))) (bytes_of_string ?d @ drop (length ?d) buf))))"
    using sc(1) by (intro callback_ok [OF c1]) simp_all
  finally show ?thesis by (simp add: wanted_def)
qed

lemma wanted_clients [simp]:
  "wanted (mem\<lparr>mem_clients := x\<rparr>) sc = wanted mem sc" "wanted mem (sc\<lparr>sc_store_copying := b\<rparr>) = wanted mem sc"
  "mem_chain_ok (mem\<lparr>mem_clients := x\<rparr>) = mem_chain_ok mem"
  by (simp_all add: wanted_def mem_chain_ok_def)

text \<open>A client that waits for data that are in memory is given them at once: exactly the
  bytes of the object from the offset it asked for, at least one and at most as many as its
  buffer holds. Afterwards it has no callback pending and is not marked as being copied to,
  so that its next request passes the checks of \<open>storeClientCopy\<close>.\<close>
theorem memory_client_served:
  assumes "get_client s a i = Some (e, mem, sc)" "waiting e mem sc" "mem_chain_ok mem"
    "mem_inmem_lo mem \<le> sc_copy_offset sc" "sc_copy_offset sc < mem_inmem_hi mem"
  shows "\<exists>s' e' mem' sc'. storeClientCopy2 fs_open s a i = Some s' \<and> get_client s' a i = Some (e', mem', sc') \<and>
    last (s_events s') = ClientCallback a i (int (length (wanted mem sc))) (wanted mem sc) \<and>
    0 < length (wanted mem sc) \<and> length (wanted mem sc) \<le> sc_copy_size sc \<and>
    \<not> sc_callback sc' \<and> \<not> sc_store_copying sc' \<and> sc_copy_buf sc' = None"
proof -
  let ?sc1 = "sc\<lparr>sc_store_copying := True\<rparr>"
  let ?m1 = "mem\<lparr>mem_clients := (mem_clients mem)[i := ?sc1]\<rparr>"
  let ?sc2 = "?sc1\<lparr>sc_callback := False, sc_copy_buf := None\<rparr>"
  let ?m2 = "mem\<lparr>mem_clients := (mem_clients mem)[i := ?sc2]\<rparr>"
  let ?ev = "ClientCallback a i (int (length (wanted mem sc))) (wanted mem sc)"
  let ?s2 = "put_event (put_mem s a e ?m2) ?ev"
  let ?m3 = "mem\<lparr>mem_clients := (mem_clients mem)[i := ?sc2\<lparr>sc_store_copying := False\<rparr>]\<rparr>"
  note w = assms(2) [unfolded waiting_def]
  obtain buf where buf: "sc_copy_buf sc = Some buf" "length buf = sc_copy_size sc" using w by blast
  have i: "i < length (mem_clients mem)" using assms(1) by (simp add: get_client_parts)
  have c1: "get_client (put_mem s a e ?m1) a i = Some (e\<lparr>e_mem_obj := Some ?m1\<rparr>, ?m1, ?sc1)"
    and c2: "get_client ?s2 a i = Some (e\<lparr>e_mem_obj := Some ?m2\<rparr>, ?m2, ?sc2)"
    using i by (simp_all add: get_client_put_mem)
  have "copy_from_memory (put_mem s a e ?m1) a i = Some ?s2"
    using copy_from_memory_ok [OF c1, of buf] w buf assms(3,4) by simp
  moreover have "\<not> storeClientNoMoreToSend (e\<lparr>e_mem_obj := Some ?m1\<rparr>) ?m1 ?sc1"
    using w by (cases "e_store_status e") (auto simp: storeClientNoMoreToSend_def)
  ultimately have "storeClientCopy3 fs_open (put_mem s a e ?m1) a i = Some ?s2"
    using c1 w assms(4,5) by (auto simp: storeClientCopy3_def copy_or_read_def)
  then have "storeClientCopy2 fs_open s a i = put_client ?s2 a i (?sc2\<lparr>sc_store_copying := False\<rparr>)"
    using w assms(1) c2 by (simp add: storeClientCopy2_def put_client_eq)
  also have "\<dots> = Some (put_mem ?s2 a (e\<lparr>e_mem_obj := Some ?m2\<rparr>) ?m3)" using put_client_eq [OF c2] by simp
  finally have eq: "storeClientCopy2 fs_open s a i = Some (put_mem ?s2 a (e\<lparr>e_mem_obj := Some ?m2\<rparr>) ?m3)" .
  have "nat (sc_copy_offset sc - mem_inmem_lo mem) < length (mem_bytes (mem_data_hdr mem))"
    using assms(3-5) unfolding mem_chain_ok_def mem_end_def by linarith
  then have len: "0 < length (wanted mem sc)" "length (wanted mem sc) \<le> sc_copy_size sc"
    using w by (simp_all add: wanted_def)
  have "get_client (put_mem ?s2 a (e\<lparr>e_mem_obj := Some ?m2\<rparr>) ?m3) a i =
      Some (e\<lparr>e_mem_obj := Some ?m3\<rparr>, ?m3, ?sc2\<lparr>sc_store_copying := False\<rparr>)"
    using i by (simp add: get_client_put_mem)
  then show ?thesis using eq len by (intro exI conjI) (assumption | simp)+
qed

definition demo_mem_client :: store_client where
  "demo_mem_client = (demo_client (replicate 4 0))\<lparr>sc_type := STORE_MEM_CLIENT, sc_copy_size := 4, sc_copy_offset := 1,
     sc_disk_io_pending := False\<rparr>"

definition demo_mem_three :: MemObject where
  "demo_mem_three = demo_mem_obj\<lparr>mem_data_hdr := fst (stmemAppend mem_hdr_empty ''abc'' 0), mem_inmem_hi := 3,
     mem_clients := [demo_mem_client]\<rparr>"

theorem memory_client_served_witness:
  "\<exists>s'. storeClientCopy2 (\<lambda>_. None) (put_mem (demo_store (hash_create storeKeyHashCmp 1 (\<lambda>k n. 0))) 1 demo_entry demo_mem_three) 1 0 = Some s' \<and>
    last (s_events s') = ClientCallback 1 0 2 [98, 99]"
proof -
  let ?m = "demo_mem_three" and ?e = "demo_entry\<lparr>e_mem_obj := Some demo_mem_three\<rparr>"
  have wf: "mem_hdr_wf mem_hdr_empty" by (simp add: mem_hdr_empty_def mem_hdr_wf_def)
  from stmem.append_law [OF this, of "''abc''"] have h: "mem_hdr_wf (mem_data_hdr ?m)" "origin_offset (mem_data_hdr ?m) = 0"
    "mem_bytes (mem_data_hdr ?m) = ''abc''"
    by (simp_all add: demo_mem_three_def mem_append_def) (simp_all add: mem_hdr_empty_def mem_bytes_def)
  then have chain: "mem_chain_ok ?m" by (simp add: mem_chain_ok_def mem_end_def) (simp add: demo_mem_three_def demo_mem_obj_def)
  have c: "get_client (put_mem (demo_store (hash_create storeKeyHashCmp 1 (\<lambda>k n. 0))) 1 demo_entry ?m) 1 0 = Some (?e, ?m, demo_mem_client)"
    using get_client_put_mem [of 0 ?m "demo_store (hash_create storeKeyHashCmp 1 (\<lambda>k n. 0))" 1 demo_entry] by (simp add: demo_mem_three_def)
  have w: "waiting ?e ?m demo_mem_client"
    by (simp add: waiting_def demo_mem_client_def demo_client_def demo_entry_def EBIT_TEST_def demo_mem_three_def demo_mem_obj_def)
  have "wanted ?m demo_mem_client = bytes_of_string ''bc''"
    unfolding wanted_def h(3) by (simp add: demo_mem_client_def demo_client_def demo_mem_three_def demo_mem_obj_def)
  then have wd: "wanted ?m demo_mem_client = [98, 99]" by (simp add: bytes_of_string_def)
  have "mem_inmem_lo ?m \<le> sc_copy_offset demo_mem_client" "sc_copy_offset demo_mem_client < mem_inmem_hi ?m"
    by (simp_all add: demo_mem_client_def demo_client_def demo_mem_three_def demo_mem_obj_def)
  from memory_client_served [OF c w chain this, of "\<lambda>_. None"] wd show ?thesis by auto
qed

end
