(* ===== verification/FileMap.thy ===== *)
theory FileMap
  imports Prelude
begin

unbundle bit_operations_syntax

section \<open>The map of swap file numbers (filemap.c)\<close>

text \<open>
  The growing bitmap from which the cache directories draw their file numbers, and the
  functions of the ufs directory that use it. \<open>unsigned long\<close> has 32 bits in the
  configuration of this build. The lemmas show that the bitmap represents a set of numbers:
  setting, clearing and testing a bit are insertion, deletion and membership, allocation
  returns a number that is not in the set as long as fewer than 2^24 are, and the counter
  of used numbers is the size of the set.
\<close>

record fileMap =
  max_n_files :: int
  n_files_in_map :: int
  nwords :: int
  file_map :: "32 word list"

definition LONG_BIT_SHIFT :: nat where [simp]: "LONG_BIT_SHIFT = 5"
definition BITS_IN_A_LONG :: nat where [simp]: "BITS_IN_A_LONG = 32"
definition ALL_ONES :: "32 word" where [simp]: "ALL_ONES = 0xFFFFFFFF"
definition FM_INITIAL_NUMBER :: int where [simp]: "FM_INITIAL_NUMBER = 2 ^ 14"
definition FILEMAP_MAX_SIZE :: int where [simp]: "FILEMAP_MAX_SIZE = 2 ^ 24"

subsection \<open>Operations\<close>

text \<open>\<open>1L << (file_number & LONG_BIT_MASK)\<close> and the word \<open>file_number >> LONG_BIT_SHIFT\<close>.\<close>

definition bitmask :: "int \<Rightarrow> 32 word" where
  "bitmask n = push_bit (nat (n mod 32)) 1"

definition word_index :: "int \<Rightarrow> nat option" where
  "word_index n = (if n < 0 then None else Some (nat (drop_bit LONG_BIT_SHIFT n)))"

definition file_map_create :: fileMap where
  "file_map_create =
     (let n = drop_bit LONG_BIT_SHIFT FM_INITIAL_NUMBER
      in \<lparr>max_n_files = FM_INITIAL_NUMBER, n_files_in_map = 0, nwords = n,
          file_map = replicate (nat n) 0\<rparr>)"

definition file_map_grow :: "fileMap \<Rightarrow> fileMap option" where
  "file_map_grow fm = do {
     let m = push_bit 1 (max_n_files fm);
     c_assert (m \<le> FILEMAP_MAX_SIZE);
     let n = drop_bit LONG_BIT_SHIFT m;
     Some (fm\<lparr>max_n_files := m, nwords := n,
              file_map := take (nat (nwords fm)) (file_map fm) @ replicate (nat n - nat (nwords fm)) 0\<rparr>) }"

partial_function (option) grow_to :: "fileMap \<Rightarrow> int \<Rightarrow> fileMap option" where
  "grow_to fm file_number =
     (if max_n_files fm \<le> file_number then do { fm \<leftarrow> file_map_grow fm; grow_to fm file_number }
      else Some fm)"

definition file_map_bit_set :: "fileMap \<Rightarrow> int \<Rightarrow> fileMap option" where
  "file_map_bit_set fm file_number = do {
     fm \<leftarrow> grow_to fm file_number;
     i \<leftarrow> word_index file_number;
     w \<leftarrow> arr_get (file_map fm) i;
     ws \<leftarrow> arr_set (file_map fm) i (w OR bitmask file_number);
     Some (fm\<lparr>file_map := ws, n_files_in_map := to_int32 (n_files_in_map fm + 1)\<rparr>) }"

definition file_map_bit_reset :: "fileMap \<Rightarrow> int \<Rightarrow> fileMap option" where
  "file_map_bit_reset fm file_number = do {
     i \<leftarrow> word_index file_number;
     w \<leftarrow> arr_get (file_map fm) i;
     ws \<leftarrow> arr_set (file_map fm) i (w AND NOT (bitmask file_number));
     Some (fm\<lparr>file_map := ws, n_files_in_map := to_int32 (n_files_in_map fm - 1)\<rparr>) }"

definition file_map_bit_test :: "fileMap \<Rightarrow> int \<Rightarrow> bool option" where
  "file_map_bit_test fm file_number =
     (if max_n_files fm \<le> file_number then Some False
      else do {
        i \<leftarrow> word_index file_number;
        w \<leftarrow> arr_get (file_map fm) i;
        Some (w AND bitmask file_number \<noteq> 0) })"

text \<open>The two loops of \<open>file_map_allocate\<close>: the first word with a clear bit, from \<open>word\<close> on
  and around, and the first clear bit of it.\<close>

fun first_word :: "nat \<Rightarrow> fileMap \<Rightarrow> nat \<Rightarrow> nat option" where
  "first_word 0 fm word = Some word"
| "first_word (Suc count) fm word = do {
     w \<leftarrow> arr_get (file_map fm) word;
     if w \<noteq> ALL_ONES then Some word else first_word count fm ((word + 1) mod nat (nwords fm)) }"

fun first_bit :: "nat list \<Rightarrow> fileMap \<Rightarrow> nat \<Rightarrow> int option option" where
  "first_bit [] fm word = Some None"
| "first_bit (b # bs) fm word = do {
     let suggestion = int (push_bit LONG_BIT_SHIFT word OR b);
     t \<leftarrow> file_map_bit_test fm suggestion;
     if \<not> t then Some (Some suggestion) else first_bit bs fm word }"

partial_function (option) file_map_allocate :: "fileMap \<Rightarrow> int \<Rightarrow> (int \<times> fileMap) option" where
  "file_map_allocate fm suggestion = do {
     let suggestion = (if max_n_files fm \<le> suggestion then 0 else suggestion);
     t \<leftarrow> file_map_bit_test fm suggestion;
     if \<not> t then Some (suggestion, fm)
     else do {
       i \<leftarrow> word_index suggestion;
       word \<leftarrow> first_word (nat (nwords fm)) fm i;
       r \<leftarrow> first_bit [0..<BITS_IN_A_LONG] fm word;
       case r of
         Some n \<Rightarrow> Some (n, fm)
       | None \<Rightarrow> do {
           fm \<leftarrow> file_map_grow fm;
           file_map_allocate fm (drop_bit 1 (max_n_files fm)) } } }"

text \<open>The ufs directory's use of the map (fs/ufs/store_dir_ufs.c).\<close>

record ufsinfo_t =
  ui_map :: fileMap
  ui_suggest :: int

definition storeUfsDirMapBitTest :: "ufsinfo_t \<Rightarrow> int \<Rightarrow> bool option" where
  "storeUfsDirMapBitTest ui filn = file_map_bit_test (ui_map ui) filn"

definition storeUfsDirMapBitSet :: "ufsinfo_t \<Rightarrow> int \<Rightarrow> ufsinfo_t option" where
  "storeUfsDirMapBitSet ui filn = do { fm \<leftarrow> file_map_bit_set (ui_map ui) filn; Some (ui\<lparr>ui_map := fm\<rparr>) }"

definition storeUfsDirMapBitReset :: "ufsinfo_t \<Rightarrow> int \<Rightarrow> ufsinfo_t option" where
  "storeUfsDirMapBitReset ui filn = do {
     t \<leftarrow> file_map_bit_test (ui_map ui) filn;
     if t then do { fm \<leftarrow> file_map_bit_reset (ui_map ui) filn; Some (ui\<lparr>ui_map := fm\<rparr>) }
     else Some ui }"

definition storeUfsDirMapBitAllocate :: "ufsinfo_t \<Rightarrow> (int \<times> ufsinfo_t) option" where
  "storeUfsDirMapBitAllocate ui = do {
     (fn, fm) \<leftarrow> file_map_allocate (ui_map ui) (ui_suggest ui);
     fm \<leftarrow> file_map_bit_set fm fn;
     Some (fn, ui\<lparr>ui_map := fm, ui_suggest := fn + 1\<rparr>) }"

subsection \<open>The set a bitmap represents\<close>

definition fm_wf :: "fileMap \<Rightarrow> bool" where
  "fm_wf fm \<longleftrightarrow> 0 < nwords fm \<and> max_n_files fm = 32 * nwords fm \<and>
     (\<exists>k \<le> 24. max_n_files fm = 2 ^ k) \<and> int (length (file_map fm)) = nwords fm"

definition fm_bit :: "32 word list \<Rightarrow> nat \<Rightarrow> bool" where
  "fm_bit ws n \<longleftrightarrow> n div 32 < length ws \<and> bit (ws ! (n div 32)) (n mod 32)"

definition fm_set :: "fileMap \<Rightarrow> int set" where
  "fm_set fm = {n. 0 \<le> n \<and> fm_bit (file_map fm) (nat n)}"

definition fm_ok :: "fileMap \<Rightarrow> bool" where
  "fm_ok fm \<longleftrightarrow> fm_wf fm \<and> n_files_in_map fm = int (card (fm_set fm))"

lemma and_bitmask: "w AND bitmask n \<noteq> 0 \<longleftrightarrow> bit w (nat (n mod 32))"
proof -
  have "nat (n mod 32) < 32" by (simp add: nat_less_iff)
  then show ?thesis
    using bit_imp_le_length [of w] by (auto simp: bitmask_def bit_eq_iff [of "w AND _"] bit_simps)
qed

lemma fm_setI_iff: "n \<in> fm_set fm \<longleftrightarrow> 0 \<le> n \<and> fm_bit (file_map fm) (nat n)"
  by (simp add: fm_set_def)

lemma fm_set_bounds: "fm_wf fm \<Longrightarrow> n \<in> fm_set fm \<Longrightarrow> 0 \<le> n \<and> n < max_n_files fm"
  by (auto simp: fm_set_def fm_bit_def fm_wf_def)

lemma finite_fm_set: "fm_wf fm \<Longrightarrow> finite (fm_set fm)"
  by (rule finite_subset [of _ "{0..<max_n_files fm}"]) (auto dest: fm_set_bounds)

lemma word_index_in: "0 \<le> n \<Longrightarrow> word_index n = Some (nat n div 32)"
  by (simp add: word_index_def drop_bit_eq_div nat_div_distrib)

lemma index_bound: "fm_wf fm \<Longrightarrow> 0 \<le> n \<Longrightarrow> n < max_n_files fm \<Longrightarrow> nat n div 32 < length (file_map fm)"
  by (auto simp: fm_wf_def)

lemma bit_test_set:
  assumes "fm_wf fm" "0 \<le> n"
  shows "file_map_bit_test fm n = Some (n \<in> fm_set fm)"
proof (cases "max_n_files fm \<le> n")
  case True
  then show ?thesis using fm_set_bounds [OF assms(1), of n] by (auto simp: file_map_bit_test_def)
next
  case False
  then have i: "nat n div 32 < length (file_map fm)" using index_bound assms by simp
  have "nat (n mod 32) = nat n mod 32" using assms(2) by (simp add: nat_mod_distrib)
  then show ?thesis using False i assms
    by (simp add: file_map_bit_test_def word_index_in arr_simps and_bitmask fm_setI_iff fm_bit_def)
qed

lemma fm_bit_update:
  assumes "n div 32 < length ws" "\<And>k. k < 32 \<Longrightarrow> bit w k \<longleftrightarrow> (if k = n mod 32 then v else bit (ws ! (n div 32)) k)"
  shows "fm_bit (ws[n div 32 := w]) m \<longleftrightarrow> (if m = n then v else fm_bit ws m)"
proof -
  have "m = n \<longleftrightarrow> m div 32 = n div 32 \<and> m mod 32 = n mod 32"
    by (metis div_mult_mod_eq)
  then show ?thesis using assms by (auto simp: fm_bit_def nth_list_update)
qed

lemma bit_or_bitmask: "k < 32 \<Longrightarrow> 0 \<le> n \<Longrightarrow> bit (w OR bitmask n) k \<longleftrightarrow> (if k = nat n mod 32 then True else bit w k)"
  by (auto simp: bitmask_def bit_simps nat_mod_distrib)

lemma bit_andnot_bitmask:
  "k < 32 \<Longrightarrow> 0 \<le> n \<Longrightarrow> bit (w AND NOT (bitmask n)) k \<longleftrightarrow> (if k = nat n mod 32 then False else bit w k)"
  by (auto simp: bitmask_def bit_simps nat_mod_distrib)

lemma grow_to_in: "n < max_n_files fm \<Longrightarrow> grow_to fm n = Some fm"
  by (subst grow_to.simps) simp

lemma bit_set_in:
  assumes "fm_wf fm" "0 \<le> n" "n < max_n_files fm"
  shows "\<exists>fm'. file_map_bit_set fm n = Some fm' \<and> fm_wf fm' \<and> fm_set fm' = insert n (fm_set fm) \<and>
    n_files_in_map fm' = to_int32 (n_files_in_map fm + 1) \<and> max_n_files fm' = max_n_files fm"
proof -
  have i: "nat n div 32 < length (file_map fm)" using index_bound assms by simp
  let ?w = "file_map fm ! (nat n div 32) OR bitmask n"
  have "fm_bit ((file_map fm)[nat n div 32 := ?w]) m \<longleftrightarrow> m = nat n \<or> fm_bit (file_map fm) m" for m
    using fm_bit_update [OF i, of ?w True m] bit_or_bitmask assms(2) by auto
  then have "fm_set (fm\<lparr>file_map := (file_map fm)[nat n div 32 := ?w], n_files_in_map := c\<rparr>) = insert n (fm_set fm)" for c
    using assms(2) by (simp add: fm_set_def set_eq_iff) (metis nat_eq_iff2)
  moreover have "file_map_bit_set fm n = Some (fm\<lparr>file_map := (file_map fm)[nat n div 32 := ?w],
      n_files_in_map := to_int32 (n_files_in_map fm + 1)\<rparr>)"
    using assms i by (simp add: file_map_bit_set_def grow_to_in word_index_in arr_simps)
  ultimately show ?thesis using assms(1) by (fastforce simp: fm_wf_def)
qed

lemma bit_reset_in:
  assumes "fm_wf fm" "0 \<le> n" "n < max_n_files fm"
  shows "\<exists>fm'. file_map_bit_reset fm n = Some fm' \<and> fm_wf fm' \<and> fm_set fm' = fm_set fm - {n} \<and>
    n_files_in_map fm' = to_int32 (n_files_in_map fm - 1) \<and> max_n_files fm' = max_n_files fm"
proof -
  have i: "nat n div 32 < length (file_map fm)" using index_bound assms by simp
  let ?w = "file_map fm ! (nat n div 32) AND NOT (bitmask n)"
  have "fm_bit ((file_map fm)[nat n div 32 := ?w]) m \<longleftrightarrow> m \<noteq> nat n \<and> fm_bit (file_map fm) m" for m
    using fm_bit_update [OF i, of ?w False m] bit_andnot_bitmask assms(2) by auto
  then have "fm_set (fm\<lparr>file_map := (file_map fm)[nat n div 32 := ?w], n_files_in_map := c\<rparr>) = fm_set fm - {n}" for c
    using assms(2) by (simp add: fm_set_def set_eq_iff) (metis nat_eq_iff2)
  moreover have "file_map_bit_reset fm n = Some (fm\<lparr>file_map := (file_map fm)[nat n div 32 := ?w],
      n_files_in_map := to_int32 (n_files_in_map fm - 1)\<rparr>)"
    using assms i by (simp add: file_map_bit_reset_def word_index_in arr_simps)
  ultimately show ?thesis using assms(1) by (fastforce simp: fm_wf_def)
qed

lemma fm_bit_append0: "fm_bit (ws @ replicate k 0) n \<longleftrightarrow> fm_bit ws n"
  by (auto simp: fm_bit_def nth_append)

lemma grow_ok:
  assumes "fm_wf fm" "max_n_files fm < FILEMAP_MAX_SIZE"
  shows "\<exists>fm'. file_map_grow fm = Some fm' \<and> fm_wf fm' \<and> fm_set fm' = fm_set fm \<and>
    n_files_in_map fm' = n_files_in_map fm \<and> max_n_files fm' = 2 * max_n_files fm"
proof -
  let ?fm = "fm\<lparr>max_n_files := 2 * max_n_files fm, nwords := 2 * nwords fm,
      file_map := file_map fm @ replicate (nat (2 * nwords fm) - nat (nwords fm)) 0\<rparr>"
  obtain k where k: "k \<le> 24" "max_n_files fm = 2 ^ k" using assms(1) by (auto simp: fm_wf_def)
  have "k < 24" using k assms(2) by (cases "k = 24") auto
  then have k': "Suc k \<le> 24" "max_n_files ?fm = 2 ^ Suc k" using k by auto
  have le: "2 * max_n_files fm \<le> 2 ^ 24" using power_increasing [OF k'(1), of "2::int"] k(2) by simp
  have len: "nwords fm > 0" "max_n_files fm = 32 * nwords fm" "length (file_map fm) = nat (nwords fm)"
    using assms(1) by (auto simp: fm_wf_def)
  then have "file_map_grow fm = Some ?fm"
    using le by (simp add: file_map_grow_def drop_bit_eq_div push_bit_eq_mult Let_def)
  moreover have "\<exists>k \<le> 24. max_n_files ?fm = 2 ^ k" using k' by blast
  then have "fm_wf ?fm" unfolding fm_wf_def using len by (simp add: nat_mult_distrib)
  ultimately show ?thesis by (simp add: fm_set_def fm_bit_append0)
qed

lemma first_word_spec:
  assumes "fm_wf fm" "word < nat (nwords fm)"
  shows "\<exists>w. first_word k fm word = Some w \<and> w < nat (nwords fm) \<and>
    (file_map fm ! w \<noteq> ALL_ONES \<or>
     (\<forall>j < k. file_map fm ! ((word + j) mod nat (nwords fm)) = ALL_ONES))"
  using assms(2)
proof (induction k arbitrary: word)
  case (Suc k)
  let ?N = "nat (nwords fm)"
  have len: "length (file_map fm) = ?N" and N: "0 < ?N" using assms(1) by (auto simp: fm_wf_def)
  show ?case
  proof (cases "file_map fm ! word = ALL_ONES")
    case True
    have "(word + 1) mod ?N < ?N" using N by simp
    from Suc.IH [OF this] obtain w where w: "first_word k fm ((word + 1) mod ?N) = Some w" "w < ?N"
      "file_map fm ! w \<noteq> ALL_ONES \<or> (\<forall>j<k. file_map fm ! (((word + 1) mod ?N + j) mod ?N) = ALL_ONES)" by blast
    have "\<forall>j < Suc k. file_map fm ! ((word + j) mod ?N) = ALL_ONES"
      if "\<forall>j<k. file_map fm ! (((word + 1) mod ?N + j) mod ?N) = ALL_ONES"
    proof (intro allI impI)
      fix j assume "j < Suc k"
      then show "file_map fm ! ((word + j) mod ?N) = ALL_ONES"
        using that True Suc.prems by (cases j) (auto simp: mod_simps)
    qed
    then show ?thesis using w True Suc.prems len by (auto simp: arr_simps)
  next
    case False
    then show ?thesis using Suc.prems len by (simp add: arr_simps)
  qed
qed simp

lemma or_low_bits: "b < 32 \<Longrightarrow> push_bit 5 (w::nat) OR b = 32 * w + b"
proof -
  assume "b < 32"
  then have "take_bit 5 b = b" by (simp add: take_bit_nat_eq_self)
  then have "\<not> bit b k" if "5 \<le> k" for k using that by (metis bit_take_bit_iff leD)
  then have "push_bit 5 w + b = push_bit 5 w OR b"
    by (intro disjunctive_add_eq_or) (auto simp: bit_eq_iff bit_simps)
  then show ?thesis by (simp add: push_bit_eq_mult)
qed

lemma first_bit_find:
  assumes "fm_wf fm" "set bs \<subseteq> {..<32}"
  shows "first_bit bs fm w = Some (find (\<lambda>n. n \<notin> fm_set fm) (map (\<lambda>b. int (32 * w + b)) bs))"
  using assms(2)
  by (induction bs) (auto simp: bit_test_set [OF assms(1)] or_low_bits)

lemma ALL_ONES_bits: "w = ALL_ONES \<longleftrightarrow> (\<forall>b < 32. bit w b)"
proof -
  have "ALL_ONES = - 1" by code_simp
  then show ?thesis by (auto simp: bit_eq_iff bit_simps dest: bit_imp_le_length)
qed

lemma fm_set_word:
  "w < length (file_map fm) \<Longrightarrow> b < 32 \<Longrightarrow> int (32 * w + b) \<in> fm_set fm \<longleftrightarrow> bit (file_map fm ! w) b"
  by (simp add: fm_set_def fm_bit_def nat_add_distrib nat_mult_distrib)

lemma full_words:
  assumes "fm_wf fm" "word < nat (nwords fm)"
    "\<forall>j < nat (nwords fm). file_map fm ! ((word + j) mod nat (nwords fm)) = ALL_ONES"
  shows "fm_set fm = {0..<max_n_files fm}"
proof -
  let ?N = "nat (nwords fm)"
  have "file_map fm ! i = ALL_ONES" if "i < ?N" for i
  proof -
    have "(word + (i + ?N - word) mod ?N) mod ?N = i" using that assms(2) by (simp add: mod_simps)
    then show ?thesis using assms(3) that by (metis mod_less_divisor gr_implies_not0 not_gr_zero)
  qed
  then have "n \<in> fm_set fm" if "0 \<le> n" "n < max_n_files fm" for n
    using that index_bound [OF assms(1) that] assms(1) ALL_ONES_bits
    by (auto simp: fm_set_def fm_bit_def fm_wf_def)
  then show ?thesis using fm_set_bounds [OF assms(1)] by auto
qed

lemma allocate_step:
  assumes wf: "fm_wf fm" and s: "0 \<le> s"
  shows "(\<exists>n. file_map_allocate fm s = Some (n, fm) \<and> n \<notin> fm_set fm \<and> 0 \<le> n \<and> n < max_n_files fm) \<or>
    fm_set fm = {0..<max_n_files fm} \<and>
    file_map_allocate fm s = do { fm' \<leftarrow> file_map_grow fm; file_map_allocate fm' (drop_bit 1 (max_n_files fm')) }"
proof -
  let ?N = "nat (nwords fm)" and ?s = "if max_n_files fm \<le> s then 0 else s"
  have s': "0 \<le> ?s" "?s < max_n_files fm" and len: "length (file_map fm) = ?N" and max: "max_n_files fm = 32 * int ?N"
    using wf s by (auto simp: fm_wf_def)
  have "nat ?s div 32 < ?N" using index_bound [OF wf s'] len by simp
  from first_word_spec [OF wf this, of ?N] obtain w where w: "first_word ?N fm (nat ?s div 32) = Some w" "w < ?N"
    "file_map fm ! w \<noteq> ALL_ONES \<or> (\<forall>j < ?N. file_map fm ! ((nat ?s div 32 + j) mod ?N) = ALL_ONES)" by blast
  let ?f = "find (\<lambda>n. n \<notin> fm_set fm) (map (\<lambda>b. int (32 * w + b)) [0..<32])"
  have "set [0..<32] \<subseteq> {..<32::nat}" by auto
  then have fb: "first_bit [0..<32] fm w = Some ?f" by (rule first_bit_find [OF wf])
  have eq: "file_map_allocate fm s = (if ?s \<notin> fm_set fm then Some (?s, fm)
    else case ?f of Some n \<Rightarrow> Some (n, fm)
         | None \<Rightarrow> do { fm' \<leftarrow> file_map_grow fm; file_map_allocate fm' (drop_bit 1 (max_n_files fm')) })"
    using w(1) by (subst file_map_allocate.simps)
      (simp add: Let_def bit_test_set [OF wf s'(1)] word_index_in [OF s'(1)] fb del: One_nat_def)
  show ?thesis
  proof (cases "?s \<in> fm_set fm \<and> ?f = None")
    case True
    then have "\<forall>b < 32. bit (file_map fm ! w) b"
      using fm_set_word w(2) len by (fastforce simp: find_None_iff)
    then have "fm_set fm = {0..<max_n_files fm}"
      using w(3) ALL_ONES_bits full_words [OF wf \<open>nat ?s div 32 < ?N\<close>] by blast
    then show ?thesis using eq True by simp
  next
    case False
    then show ?thesis
    proof (cases "?s \<in> fm_set fm")
      case True
      then obtain n where n: "?f = Some n" using False by fastforce
      then have "n \<notin> fm_set fm \<and> n \<in> set (map (\<lambda>b. int (32 * w + b)) [0..<32])"
        by (metis (mono_tags, lifting) find_Some_iff nth_mem)
      then have "n \<notin> fm_set fm" "0 \<le> n" "n < max_n_files fm" using w(2) max by auto
      then show ?thesis using eq True n by simp
    next
      case s_free: False
      then show ?thesis using eq s' by auto
    qed
  qed
qed

lemma allocate_ok:
  assumes wf: "fm_wf fm" and s: "0 \<le> s" and room: "int (card (fm_set fm)) < FILEMAP_MAX_SIZE"
  shows "\<exists>n fm'. file_map_allocate fm s = Some (n, fm') \<and> fm_wf fm' \<and> fm_set fm' = fm_set fm \<and>
    n_files_in_map fm' = n_files_in_map fm \<and> n \<notin> fm_set fm \<and> 0 \<le> n \<and> n < max_n_files fm'"
proof (cases "\<exists>n. file_map_allocate fm s = Some (n, fm) \<and> n \<notin> fm_set fm \<and> 0 \<le> n \<and> n < max_n_files fm")
  case True
  then show ?thesis using wf by blast
next
  case False
  with allocate_step [OF wf s] have full: "fm_set fm = {0..<max_n_files fm}"
    and eq: "file_map_allocate fm s = do { fm' \<leftarrow> file_map_grow fm; file_map_allocate fm' (drop_bit 1 (max_n_files fm')) }"
    by blast+
  have pos: "0 < max_n_files fm" using wf by (simp add: fm_wf_def)
  with full room obtain fm' where fm': "file_map_grow fm = Some fm'" "fm_wf fm'" "fm_set fm' = fm_set fm"
    "n_files_in_map fm' = n_files_in_map fm" "max_n_files fm' = 2 * max_n_files fm"
    using grow_ok [OF wf] by auto
  have "max_n_files fm \<notin> fm_set fm'" using full fm'(3) by simp
  with allocate_step [OF fm'(2), of "max_n_files fm"] pos
  obtain n where "file_map_allocate fm' (max_n_files fm) = Some (n, fm')" "n \<notin> fm_set fm'" "0 \<le> n" "n < max_n_files fm'"
    using fm'(5) by force
  then show ?thesis using eq fm' by (auto simp: drop_bit_Suc)
qed

subsection \<open>The contract of a pool of numbers\<close>

text \<open>
  What the cache directory relies on: a well-formed pool is a set of numbers in use, and the
  operations on it are those of the set, with a counter that is its size.
\<close>

locale number_pool =
  fixes ok :: "'p \<Rightarrow> bool" and used :: "'p \<Rightarrow> int set" and limit :: int
    and test :: "'p \<Rightarrow> int \<Rightarrow> bool option"
    and take_num :: "'p \<Rightarrow> int \<Rightarrow> 'p option"
    and give_num :: "'p \<Rightarrow> int \<Rightarrow> 'p option"
    and find_num :: "'p \<Rightarrow> int \<Rightarrow> (int \<times> 'p) option"
  assumes test_law: "ok p \<Longrightarrow> 0 \<le> n \<Longrightarrow> test p n = Some (n \<in> used p)"
    and give_law: "ok p \<Longrightarrow> n \<in> used p \<Longrightarrow> \<exists>p'. give_num p n = Some p' \<and> ok p' \<and> used p' = used p - {n}"
    and find_take_law: "ok p \<Longrightarrow> 0 \<le> s \<Longrightarrow> int (card (used p)) < limit \<Longrightarrow>
      \<exists>n p1 p2. find_num p s = Some (n, p1) \<and> take_num p1 n = Some p2 \<and> 0 \<le> n \<and> n \<notin> used p \<and>
        ok p2 \<and> used p2 = insert n (used p)"
    and used_nonneg: "n \<in> used p \<Longrightarrow> 0 \<le> n"
begin

definition release_num :: "'p \<Rightarrow> int \<Rightarrow> 'p option" where
  "release_num p n = do { t \<leftarrow> test p n; if t then give_num p n else Some p }"

lemma release_num_law:
  assumes "ok p" "0 \<le> n"
  shows "\<exists>p'. release_num p n = Some p' \<and> ok p' \<and> used p' = used p - {n}"
  using test_law [OF assms] give_law [OF assms(1), of n] assms(1)
  by (cases "n \<in> used p") (auto simp: release_num_def)

lemma find_take_release:
  assumes "ok p" "0 \<le> s" "int (card (used p)) < limit"
  shows "\<exists>n p1 p2 p3. find_num p s = Some (n, p1) \<and> take_num p1 n = Some p2 \<and>
    release_num p2 n = Some p3 \<and> ok p3 \<and> used p3 = used p"
proof -
  obtain n p1 p2 where n: "find_num p s = Some (n, p1)" "take_num p1 n = Some p2" "0 \<le> n" "n \<notin> used p"
    "ok p2" "used p2 = insert n (used p)" using find_take_law [OF assms] by blast
  then show ?thesis using release_num_law [OF n(5,3)] by auto
qed

end

lemma fm_ok_card_bound: "fm_ok fm \<Longrightarrow> int (card (fm_set fm)) \<le> max_n_files fm \<and> max_n_files fm \<le> 2 ^ 24"
proof -
  assume ok: "fm_ok fm"
  then have wf: "fm_wf fm" by (simp add: fm_ok_def)
  have "card (fm_set fm) \<le> card {0..<max_n_files fm}"
    using fm_set_bounds [OF wf] by (intro card_mono) auto
  moreover obtain k where "k \<le> 24" "max_n_files fm = 2 ^ k" using wf by (auto simp: fm_wf_def)
  then have "max_n_files fm \<le> 2 ^ 24" using power_increasing [of k 24 "2::int"] by simp
  moreover have "0 < max_n_files fm" using wf by (simp add: fm_wf_def)
  ultimately show ?thesis by simp
qed

interpretation fm: number_pool fm_ok fm_set FILEMAP_MAX_SIZE file_map_bit_test
  file_map_bit_set file_map_bit_reset file_map_allocate
proof
  fix p n assume "fm_ok p" "0 \<le> (n::int)"
  then show "file_map_bit_test p n = Some (n \<in> fm_set p)" by (simp add: fm_ok_def bit_test_set)
next
  fix p n assume ok: "fm_ok p" and n: "n \<in> fm_set p"
  then have wf: "fm_wf p" by (simp add: fm_ok_def)
  obtain p' where p': "file_map_bit_reset p n = Some p'" "fm_wf p'" "fm_set p' = fm_set p - {n}"
    "n_files_in_map p' = to_int32 (n_files_in_map p - 1)"
    using bit_reset_in [OF wf] fm_set_bounds [OF wf n] by blast
  have c: "card (fm_set p) \<noteq> 0" using n finite_fm_set [OF wf] by auto
  have "in_int32 (int (card (fm_set p)) - 1)" using fm_ok_card_bound [OF ok] by (simp add: in_int32_def)
  then have "fm_ok p'" using ok p' n c finite_fm_set [OF wf]
    by (simp add: fm_ok_def cint_simps card_Diff_singleton of_nat_diff Suc_le_eq card_gt_0_iff)
  then show "\<exists>p'. file_map_bit_reset p n = Some p' \<and> fm_ok p' \<and> fm_set p' = fm_set p - {n}" using p' by blast
next
  fix p s assume ok: "fm_ok p" and s: "0 \<le> (s::int)" and room: "int (card (fm_set p)) < FILEMAP_MAX_SIZE"
  then have wf: "fm_wf p" by (simp add: fm_ok_def)
  obtain n p1 where p1: "file_map_allocate p s = Some (n, p1)" "fm_wf p1" "fm_set p1 = fm_set p"
    "n_files_in_map p1 = n_files_in_map p" "n \<notin> fm_set p" "0 \<le> n" "n < max_n_files p1"
    using allocate_ok [OF wf s room] by blast
  obtain p2 where p2: "file_map_bit_set p1 n = Some p2" "fm_wf p2" "fm_set p2 = insert n (fm_set p1)"
    "n_files_in_map p2 = to_int32 (n_files_in_map p1 + 1)" using bit_set_in [OF p1(2,6,7)] by blast
  have "in_int32 (int (card (fm_set p)) + 1)" using room by (simp add: in_int32_def)
  then have "fm_ok p2" using ok p1 p2 finite_fm_set [OF wf]
    by (simp add: fm_ok_def cint_simps)
  then show "\<exists>n p1 p2. file_map_allocate p s = Some (n, p1) \<and> file_map_bit_set p1 n = Some p2 \<and> 0 \<le> n \<and>
      n \<notin> fm_set p \<and> fm_ok p2 \<and> fm_set p2 = insert n (fm_set p)" using p1 p2 by blast
qed (simp add: fm_set_def)

lemma file_map_create_ok: "fm_ok file_map_create"
proof -
  have "fm_set file_map_create = {}"
    by (auto simp: fm_set_def fm_bit_def file_map_create_def drop_bit_eq_div)
  moreover have "fm_wf file_map_create"
    by (auto simp: fm_wf_def file_map_create_def drop_bit_eq_div intro: exI [of _ 14])
  ultimately show ?thesis by (simp add: fm_ok_def file_map_create_def Let_def)
qed

lemma MapBitReset_is_release:
  "storeUfsDirMapBitReset ui n = map_option (\<lambda>fm. ui\<lparr>ui_map := fm\<rparr>) (fm.release_num (ui_map ui) n)"
  by (auto simp: storeUfsDirMapBitReset_def fm.release_num_def split: option.splits if_splits Option.bind_splits)

definition demo_ufs :: ufsinfo_t where
  "demo_ufs = \<lparr>ui_map = file_map_create, ui_suggest = 0\<rparr>"

lemma ufs_allocate_ok:
  assumes "fm_ok (ui_map ui)" "0 \<le> ui_suggest ui" "card (fm_set (ui_map ui)) < 2 ^ 24"
  shows "\<exists>fn ui'. storeUfsDirMapBitAllocate ui = Some (fn, ui') \<and> 0 \<le> fn \<and> fn \<notin> fm_set (ui_map ui) \<and>
    fm_set (ui_map ui') = insert fn (fm_set (ui_map ui)) \<and> fm_ok (ui_map ui') \<and> 0 \<le> ui_suggest ui'"
  using fm.find_take_law [OF assms(1,2)] assms(3) by (fastforce simp: storeUfsDirMapBitAllocate_def)

text \<open>As long as fewer than 2^24 numbers are in use, a cache directory gets a file number
  that is not in use, whatever the hint; the bitmap grows when it has to and never past its
  limit. The number is then in use, no other number's state changes, the counter of the map
  stays the number of files in it, and the next hint is not negative.\<close>
theorem ufs_allocate_fresh:
  assumes "fm_ok (ui_map ui)" "0 \<le> ui_suggest ui" "card (fm_set (ui_map ui)) < 2 ^ 24"
  shows "\<exists>fn ui'. storeUfsDirMapBitAllocate ui = Some (fn, ui') \<and> 0 \<le> fn \<and> fn \<notin> fm_set (ui_map ui) \<and>
    fm_set (ui_map ui') = insert fn (fm_set (ui_map ui)) \<and> fm_ok (ui_map ui') \<and> 0 \<le> ui_suggest ui'"
  by (rule ufs_allocate_ok [OF assms])

theorem ufs_allocate_fresh_witness:
  "\<exists>fn ui'. storeUfsDirMapBitAllocate demo_ufs = Some (fn, ui') \<and> fm_set (ui_map ui') = insert fn (fm_set file_map_create)"
proof -
  have "fm_ok (ui_map demo_ufs)" "n_files_in_map file_map_create = 0"
    using file_map_create_ok by (simp_all add: demo_ufs_def file_map_create_def Let_def)
  moreover from this have "card (fm_set (ui_map demo_ufs)) < 2 ^ 24" by (simp add: demo_ufs_def fm_ok_def)
  ultimately show ?thesis using ufs_allocate_fresh [of demo_ufs] by (auto simp: demo_ufs_def)
qed

text \<open>Giving a file number back restores the pool: after an allocation and the release of
  the number the same numbers are in use as before and the counter agrees with them. Releasing
  a number that is not in use, also one past the end of the bitmap, changes nothing, so that
  neither an access out of range nor a wrong count can come from it.\<close>
theorem ufs_release_restores:
  assumes "fm_ok (ui_map ui)" "0 \<le> ui_suggest ui" "card (fm_set (ui_map ui)) < 2 ^ 24"
  shows "\<exists>fn ui1 ui2. storeUfsDirMapBitAllocate ui = Some (fn, ui1) \<and>
    storeUfsDirMapBitReset ui1 fn = Some ui2 \<and> fm_ok (ui_map ui2) \<and> fm_set (ui_map ui2) = fm_set (ui_map ui) \<and>
    (\<forall>n \<ge> 0. n \<notin> fm_set (ui_map ui) \<longrightarrow> storeUfsDirMapBitReset ui n = Some ui)"
proof -
  have "storeUfsDirMapBitReset ui n = Some ui" if "0 \<le> n" "n \<notin> fm_set (ui_map ui)" for n
    using that fm.test_law [OF assms(1)] by (simp add: storeUfsDirMapBitReset_def)
  then show ?thesis using fm.find_take_release [OF assms(1,2)] assms(3)
    by (fastforce simp: storeUfsDirMapBitAllocate_def MapBitReset_is_release)
qed

theorem ufs_release_restores_witness:
  "\<exists>fn ui1 ui2. storeUfsDirMapBitAllocate demo_ufs = Some (fn, ui1) \<and> storeUfsDirMapBitReset ui1 fn = Some ui2 \<and>
    fm_set (ui_map ui2) = fm_set file_map_create"
proof -
  have "fm_ok (ui_map demo_ufs)" "n_files_in_map file_map_create = 0"
    using file_map_create_ok by (simp_all add: demo_ufs_def file_map_create_def Let_def)
  moreover from this have "card (fm_set (ui_map demo_ufs)) < 2 ^ 24" by (simp add: demo_ufs_def fm_ok_def)
  ultimately show ?thesis using ufs_release_restores [of demo_ufs] by (auto simp: demo_ufs_def)
qed

end
