(* ===== verification/UfsIo.thy ===== *)
theory UfsIo
  imports Disk FileMap CString "HOL-Library.Signed_Division"
begin

section \<open>Object input and output (store_io.c, fs/ufs/store_io_ufs.c)\<close>

text \<open>
  The store writes and reads objects through a \<open>storeIOState\<close>, which is callback data. In the
  \<open>ufs\<close> storage system it is a file of its own in a directory chosen by its number.

  The state extends that of \<open>Disk\<close>, and can itself be extended, because the callers' functions
  run on the whole state: \<open>closed\<close> stands for the functions that are told of the end, with the
  function's address, their data, the error and the \<open>storeIOState\<close>. The removal policy of a
  directory is called through pointers, and its calls are recorded in order.
\<close>

subsection \<open>State\<close>

record storeIO =
  io_swap_dirn :: int
  io_swap_filen :: int
  io_e :: addr
  io_mode :: open_mode
  io_st_size :: int
  io_offset :: int
  io_write_offset :: int
  io_callback :: "addr option"
  io_callback_data :: "addr option"
  io_read_callback :: "addr option"
  io_read_data :: "addr option"
  io_closing :: bool
  io_fd :: int
  io_close_request :: bool
  io_reading :: bool
  io_writing :: bool

record ufs_dir =
  ud_path :: string
  ud_l1 :: int
  ud_l2 :: int
  ud_info :: ufsinfo_t
  ud_open_files :: int

datatype repl_call = ReplAdd addr | ReplRemove addr

record ufs = disk +
  u_sio :: "addr \<Rightarrow> storeIO option"
  u_dirs :: "int \<Rightarrow> ufs_dir option"
  u_type :: nat
  store_open_disk_fd :: int
  u_repl :: "repl_call list"

text \<open>A \<open>storeIOState\<close> can be accessed while its memory is there.\<close>

definition get_io :: "'a ufs_scheme \<Rightarrow> addr \<Rightarrow> storeIO option" where
  "get_io w p = (if cb_mem (d_cb w) p = None then None else u_sio w p)"

definition put_io :: "'a ufs_scheme \<Rightarrow> addr \<Rightarrow> storeIO \<Rightarrow> 'a ufs_scheme" where
  "put_io w p S = w\<lparr>u_sio := (u_sio w)(p \<mapsto> S)\<rparr>"

definition put_dir :: "'a ufs_scheme \<Rightarrow> int \<Rightarrow> ufs_dir \<Rightarrow> 'a ufs_scheme" where
  "put_dir w dirn D = w\<lparr>u_dirs := (u_dirs w)(dirn \<mapsto> D)\<rparr>"

text \<open>The addresses of the functions.\<close>

definition WRITE_DONE :: addr where "WRITE_DONE = 1"
definition READ_DONE :: addr where "READ_DONE = 2"

subsection \<open>The directory\<close>

text \<open>\<open>%0nX\<close>: at least \<open>n\<close> hexadecimal digits.\<close>

fun hex_text :: "nat \<Rightarrow> string" where
  "hex_text m = (if m < 16 then [hexdigit_char m] else hex_text (m div 16) @ [hexdigit_char (m mod 16)])"

declare hex_text.simps [simp del]

definition fmt_X :: "nat \<Rightarrow> int \<Rightarrow> string" where
  "fmt_X width n = (let t = hex_text (nat (n mod 2 ^ 32)) in replicate (width - length t) (CHR ''0'') @ t)"

definition SQUID_MAXPATHLEN :: nat where
  "SQUID_MAXPATHLEN = 256"

definition storeUfsDirFullPath :: "ufs_dir \<Rightarrow> int \<Rightarrow> string option" where
  "storeUfsDirFullPath D filn = do {
     c_assert (ud_l1 D \<noteq> 0 \<and> ud_l2 D \<noteq> 0);
     Some (take (SQUID_MAXPATHLEN - 1)
       (ud_path D @ ''/'' @ fmt_X 2 (((filn sdiv ud_l2 D) sdiv ud_l2 D) smod ud_l1 D) @ ''/'' @
        fmt_X 2 ((filn sdiv ud_l2 D) smod ud_l2 D) @ ''/'' @ fmt_X 8 filn)) }"

definition storeUfsDirReplAdd :: "'a ufs_scheme \<Rightarrow> addr \<Rightarrow> 'a ufs_scheme" where
  "storeUfsDirReplAdd w e = w\<lparr>u_repl := u_repl w @ [ReplAdd e]\<rparr>"

definition storeUfsDirReplRemove :: "'a ufs_scheme \<Rightarrow> addr \<Rightarrow> 'a ufs_scheme" where
  "storeUfsDirReplRemove w e = w\<lparr>u_repl := u_repl w @ [ReplRemove e]\<rparr>"

definition storeUfsDirUnlinkFile :: "'a ufs_scheme \<Rightarrow> ufs_dir \<Rightarrow> int \<Rightarrow> 'a ufs_scheme option" where
  "storeUfsDirUnlinkFile w D f = do {
     path \<leftarrow> storeUfsDirFullPath D f;
     Some (w\<lparr>d_files := (d_files w)(path := None)\<rparr>) }"

definition UFS_LOAD_BASE :: int where
  "UFS_LOAD_BASE = 500"

definition storeUfsDirCheckLoadAv :: "ufs_dir \<Rightarrow> int" where
  "storeUfsDirCheckLoadAv D = UFS_LOAD_BASE + ud_open_files D sdiv 2"

subsection \<open>Opening and creating\<close>

text \<open>The new \<open>storeIOState\<close> is at the address \<open>p\<close>.\<close>

definition new_io ::
  "'a ufs_scheme \<Rightarrow> addr \<Rightarrow> int \<Rightarrow> int \<Rightarrow> addr \<Rightarrow> open_mode \<Rightarrow> addr \<Rightarrow> addr option \<Rightarrow> int \<Rightarrow> int \<Rightarrow> 'a ufs_scheme option" where
  "new_io w p dirn filn e mode callback callback_data fd st_size = do {
     cb \<leftarrow> cbdataInternalAlloc (d_cb w) (u_type w) p;
     cb \<leftarrow> cbdataLock cb callback_data;
     D \<leftarrow> u_dirs w dirn;
     Some (put_dir (put_io (w\<lparr>d_cb := cb, store_open_disk_fd := store_open_disk_fd w + 1\<rparr>) p
        \<lparr>io_swap_dirn = dirn, io_swap_filen = filn, io_e = e, io_mode = mode, io_st_size = st_size, io_offset = 0,
         io_write_offset = 0, io_callback = Some callback, io_callback_data = callback_data, io_read_callback = None,
         io_read_data = None, io_closing = False, io_fd = fd, io_close_request = False, io_reading = False, io_writing = False\<rparr>)
       dirn (D\<lparr>ud_open_files := ud_open_files D + 1\<rparr>)) }"

definition storeUfsOpen ::
  "os \<Rightarrow> 'a ufs_scheme \<Rightarrow> addr \<Rightarrow> int \<Rightarrow> int \<Rightarrow> addr \<Rightarrow> addr \<Rightarrow> addr option \<Rightarrow> (bool \<times> 'a ufs_scheme) option" where
  "storeUfsOpen os w p dirn f e callback callback_data = do {
     D \<leftarrow> u_dirs w dirn;
     path \<leftarrow> storeUfsDirFullPath D f;
     let mode = \<lparr>o_access = O_RDONLY, o_creat = False, o_trunc = False, o_append = False\<rparr>;
     (fd, w) \<leftarrow> file_open os w path mode;
     if fd < 0 then Some (False, w)
     else do {
       w \<leftarrow> new_io w p dirn f e mode callback callback_data fd
              (case d_files w path of None \<Rightarrow> 0 | Some c \<Rightarrow> int (length c));
       Some (True, w) } }"

definition storeUfsCreate ::
  "os \<Rightarrow> 'a ufs_scheme \<Rightarrow> addr \<Rightarrow> int \<Rightarrow> addr \<Rightarrow> addr \<Rightarrow> addr option \<Rightarrow> (bool \<times> 'a ufs_scheme) option" where
  "storeUfsCreate os w p dirn e callback callback_data = do {
     D \<leftarrow> u_dirs w dirn;
     (filn, info) \<leftarrow> storeUfsDirMapBitAllocate (ud_info D);
     let D = D\<lparr>ud_info := info\<lparr>ui_suggest := filn + 1\<rparr>\<rparr>;
     let w = put_dir w dirn D;
     path \<leftarrow> storeUfsDirFullPath D filn;
     let mode = \<lparr>o_access = O_WRONLY, o_creat = True, o_trunc = True, o_append = False\<rparr>;
     (fd, w) \<leftarrow> file_open os w path mode;
     if fd < 0 then Some (False, w)
     else do {
       w \<leftarrow> new_io w p dirn filn e mode callback callback_data fd 0;
       Some (True, storeUfsDirReplAdd w e) } }"

subsection \<open>The end of an operation\<close>

text \<open>The parts of \<open>storeUfsIOCallback\<close> before and after the caller's function.\<close>

definition io_shut :: "'a ufs_scheme \<Rightarrow> storeIO \<Rightarrow> 'a ufs_scheme option" where
  "io_shut w S =
     (if - 1 < io_fd S
      then do {
        D \<leftarrow> u_dirs w (io_swap_dirn S);
        w \<leftarrow> file_close w (io_fd S);
        Some (put_dir (w\<lparr>store_open_disk_fd := store_open_disk_fd w - 1\<rparr>) (io_swap_dirn S)
                (D\<lparr>ud_open_files := ud_open_files D - 1\<rparr>)) }
      else Some w)"

definition io_forget :: "'a ufs_scheme \<Rightarrow> addr \<Rightarrow> 'a ufs_scheme option" where
  "io_forget w p = do {
     S \<leftarrow> get_io w p;
     cb \<leftarrow> cbdataUnlock (d_cb w) (io_callback_data S);
     let w = put_io (w\<lparr>d_cb := cb\<rparr>) p (S\<lparr>io_callback_data := None, io_callback := None\<rparr>);
     cb \<leftarrow> cbdataInternalFree (d_cb w) p;
     Some (w\<lparr>d_cb := cb\<rparr>) }"

definition storeUfsIOCallback ::
  "(addr \<Rightarrow> addr option \<Rightarrow> int \<Rightarrow> addr \<Rightarrow> 'a ufs_scheme \<Rightarrow> 'a ufs_scheme option) \<Rightarrow>
   'a ufs_scheme \<Rightarrow> addr \<Rightarrow> int \<Rightarrow> 'a ufs_scheme option" where
  "storeUfsIOCallback closed w p errflag = do {
     S \<leftarrow> get_io w p;
     w \<leftarrow> io_shut w S;
     valid \<leftarrow> cbdataValid (d_cb w) (io_callback_data S);
     w \<leftarrow> (if valid
           then do { f \<leftarrow> io_callback S; closed f (io_callback_data S) errflag p w }
           else Some w);
     io_forget w p }"

definition storeUfsWriteDone ::
  "(addr \<Rightarrow> addr option \<Rightarrow> int \<Rightarrow> addr \<Rightarrow> 'a ufs_scheme \<Rightarrow> 'a ufs_scheme option) \<Rightarrow>
   int \<Rightarrow> int \<Rightarrow> nat \<Rightarrow> addr option \<Rightarrow> 'a ufs_scheme \<Rightarrow> 'a ufs_scheme option" where
  "storeUfsWriteDone closed fd errflag len my_data w = do {
     p \<leftarrow> my_data;
     S \<leftarrow> get_io w p;
     let S = S\<lparr>io_writing := False\<rparr>;
     if errflag \<noteq> 0 then storeUfsIOCallback closed (put_io w p S) p errflag
     else do {
       let S = S\<lparr>io_offset := io_offset S + int len\<rparr>;
       let w = put_io w p S;
       if io_close_request S then storeUfsIOCallback closed w p errflag else Some w } }"

text \<open>The write handlers of the program that are given to disk.c with a function.\<close>

definition write_handlers ::
  "(addr \<Rightarrow> addr option \<Rightarrow> int \<Rightarrow> addr \<Rightarrow> 'a ufs_scheme \<Rightarrow> 'a ufs_scheme option) \<Rightarrow>
   addr \<Rightarrow> int \<Rightarrow> int \<Rightarrow> nat \<Rightarrow> addr option \<Rightarrow> 'a ufs_scheme \<Rightarrow> 'a ufs_scheme option" where
  "write_handlers closed handle fd status len my_data w =
     (if handle = WRITE_DONE then storeUfsWriteDone closed fd status len my_data w else None)"

text \<open>\<open>got\<close> stands for the functions that wait for the bytes read, told with their length or \<open>-1\<close>.\<close>

definition storeUfsReadDone ::
  "(addr \<Rightarrow> addr option \<Rightarrow> 8 word list \<Rightarrow> int \<Rightarrow> 'a ufs_scheme \<Rightarrow> 'a ufs_scheme option) \<Rightarrow>
   int \<Rightarrow> 8 word list \<Rightarrow> int \<Rightarrow> addr option \<Rightarrow> 'a ufs_scheme \<Rightarrow> 'a ufs_scheme option" where
  "storeUfsReadDone got fd bytes errflag my_data w = do {
     p \<leftarrow> my_data;
     S \<leftarrow> get_io w p;
     let callback = io_read_callback S;
     let their_data = io_read_data S;
     let S = S\<lparr>io_reading := False\<rparr>;
     let rlen = (if errflag \<noteq> 0 then - 1 else int (length bytes));
     let S = (if errflag \<noteq> 0 then S else S\<lparr>io_offset := io_offset S + int (length bytes)\<rparr>);
     f \<leftarrow> callback;
     c_assert (their_data \<noteq> None);
     let w = put_io w p (S\<lparr>io_read_callback := None, io_read_data := None\<rparr>);
     valid \<leftarrow> cbdataValid (d_cb w) their_data;
     w \<leftarrow> (if valid then got f their_data bytes rlen w else Some w);
     cb \<leftarrow> cbdataUnlock (d_cb w) their_data;
     Some (w\<lparr>d_cb := cb\<rparr>) }"

definition read_handlers ::
  "(addr \<Rightarrow> addr option \<Rightarrow> 8 word list \<Rightarrow> int \<Rightarrow> 'a ufs_scheme \<Rightarrow> 'a ufs_scheme option) \<Rightarrow>
   addr \<Rightarrow> int \<Rightarrow> 8 word list \<Rightarrow> int \<Rightarrow> addr option \<Rightarrow> 'a ufs_scheme \<Rightarrow> 'a ufs_scheme option" where
  "read_handlers got handle fd bytes rc my_data w =
     (if handle = READ_DONE then storeUfsReadDone got fd bytes rc my_data w else None)"

subsection \<open>Operations of the storage system\<close>

definition storeUfsClose ::
  "(addr \<Rightarrow> addr option \<Rightarrow> int \<Rightarrow> addr \<Rightarrow> 'a ufs_scheme \<Rightarrow> 'a ufs_scheme option) \<Rightarrow>
   'a ufs_scheme \<Rightarrow> addr \<Rightarrow> 'a ufs_scheme option" where
  "storeUfsClose closed w p = do {
     S \<leftarrow> get_io w p;
     if io_reading S \<or> io_writing S then Some (put_io w p (S\<lparr>io_close_request := True\<rparr>))
     else storeUfsIOCallback closed w p 0 }"

definition storeUfsWrite ::
  "os \<Rightarrow> (addr \<Rightarrow> addr option \<Rightarrow> int \<Rightarrow> addr \<Rightarrow> 'a ufs_scheme \<Rightarrow> 'a ufs_scheme option) \<Rightarrow>
   'a ufs_scheme \<Rightarrow> addr \<Rightarrow> 8 word list \<Rightarrow> int \<Rightarrow> nat option \<Rightarrow> 'a ufs_scheme option" where
  "storeUfsWrite os closed w p bytes offset free_func = do {
     S \<leftarrow> get_io w p;
     file_write os (write_handlers closed) (put_io w p (S\<lparr>io_writing := True\<rparr>)) (io_fd S) offset bytes
       (Some WRITE_DONE) (Some p) free_func }"

definition storeUfsRead ::
  "os \<Rightarrow> (addr \<Rightarrow> addr option \<Rightarrow> 8 word list \<Rightarrow> int \<Rightarrow> 'a ufs_scheme \<Rightarrow> 'a ufs_scheme option) \<Rightarrow>
   'a ufs_scheme \<Rightarrow> addr \<Rightarrow> nat \<Rightarrow> int \<Rightarrow> addr \<Rightarrow> addr option \<Rightarrow> 'a ufs_scheme option" where
  "storeUfsRead os got w p size' offset callback callback_data = do {
     S \<leftarrow> get_io w p;
     c_assert (io_read_callback S = None);
     c_assert (io_read_data S = None);
     cb \<leftarrow> cbdataLock (d_cb w) callback_data;
     let w = put_io (w\<lparr>d_cb := cb\<rparr>) p
               (S\<lparr>io_read_callback := Some callback, io_read_data := callback_data, io_offset := offset, io_reading := True\<rparr>);
     file_read os (read_handlers got) w (io_fd S) size' offset READ_DONE (Some p) }"

definition storeUfsUnlink :: "'a ufs_scheme \<Rightarrow> int \<Rightarrow> addr \<Rightarrow> int \<Rightarrow> 'a ufs_scheme option" where
  "storeUfsUnlink w dirn e filn = do {
     let w = storeUfsDirReplRemove w e;
     D \<leftarrow> u_dirs w dirn;
     info \<leftarrow> storeUfsDirMapBitReset (ud_info D) filn;
     storeUfsDirUnlinkFile (put_dir w dirn (D\<lparr>ud_info := info\<rparr>)) D filn }"

text \<open>The entry's directory and number after \<open>storeUfsRecycle\<close>, and the state.\<close>

definition storeUfsRecycle :: "'a ufs_scheme \<Rightarrow> int \<Rightarrow> addr \<Rightarrow> int \<Rightarrow> (int \<times> int \<times> 'a ufs_scheme) option" where
  "storeUfsRecycle w dirn e filn =
     (if - 1 < filn
      then do {
        let w = storeUfsDirReplRemove w e;
        D \<leftarrow> u_dirs w dirn;
        info \<leftarrow> storeUfsDirMapBitReset (ud_info D) filn;
        Some (- 1, - 1, put_dir w dirn (D\<lparr>ud_info := info\<rparr>)) }
      else Some (dirn, filn, w))"

subsection \<open>The interface of the store (store_io.c)\<close>

text \<open>\<open>select\<close> is the configured \<open>storeDirSelectSwapDir\<close>.\<close>

definition storeCreate ::
  "os \<Rightarrow> ('a ufs_scheme \<Rightarrow> addr \<Rightarrow> (int \<times> 'a ufs_scheme) option) \<Rightarrow> 'a ufs_scheme \<Rightarrow> addr \<Rightarrow> addr \<Rightarrow> addr \<Rightarrow> addr option \<Rightarrow>
   (bool \<times> 'a ufs_scheme) option" where
  "storeCreate os select w p e close_callback callback_data = do {
     (dirn, w) \<leftarrow> select w e;
     if dirn = - 1 then Some (False, w)
     else storeUfsCreate os w p dirn e close_callback callback_data }"

definition storeOpen ::
  "os \<Rightarrow> 'a ufs_scheme \<Rightarrow> addr \<Rightarrow> int \<Rightarrow> int \<Rightarrow> addr \<Rightarrow> addr \<Rightarrow> addr option \<Rightarrow> (bool \<times> 'a ufs_scheme) option" where
  "storeOpen os w p dirn filn e callback callback_data = do {
     D \<leftarrow> u_dirs w dirn;
     let load = storeUfsDirCheckLoadAv D;
     if load < 0 \<or> 1000 < load then Some (False, w)
     else storeUfsOpen os w p dirn filn e callback callback_data }"

definition storeClose ::
  "(addr \<Rightarrow> addr option \<Rightarrow> int \<Rightarrow> addr \<Rightarrow> 'a ufs_scheme \<Rightarrow> 'a ufs_scheme option) \<Rightarrow>
   'a ufs_scheme \<Rightarrow> addr \<Rightarrow> 'a ufs_scheme option" where
  "storeClose closed w p = do {
     S \<leftarrow> get_io w p;
     if io_closing S then Some w
     else storeUfsClose closed (put_io w p (S\<lparr>io_closing := True\<rparr>)) p }"

definition storeWrite ::
  "os \<Rightarrow> (addr \<Rightarrow> addr option \<Rightarrow> int \<Rightarrow> addr \<Rightarrow> 'a ufs_scheme \<Rightarrow> 'a ufs_scheme option) \<Rightarrow>
   'a ufs_scheme \<Rightarrow> addr \<Rightarrow> 8 word list \<Rightarrow> nat option \<Rightarrow> 'a ufs_scheme option" where
  "storeWrite os closed w p bytes free_func = do {
     S \<leftarrow> get_io w p;
     storeUfsWrite os closed (put_io w p (S\<lparr>io_write_offset := io_write_offset S + int (length bytes)\<rparr>)) p bytes
       (io_write_offset S) free_func }"

definition storeRead ::
  "os \<Rightarrow> (addr \<Rightarrow> addr option \<Rightarrow> 8 word list \<Rightarrow> int \<Rightarrow> 'a ufs_scheme \<Rightarrow> 'a ufs_scheme option) \<Rightarrow>
   'a ufs_scheme \<Rightarrow> addr \<Rightarrow> nat \<Rightarrow> int \<Rightarrow> addr \<Rightarrow> addr option \<Rightarrow> 'a ufs_scheme option" where
  "storeRead os got w p size' offset callback callback_data =
     storeUfsRead os got w p size' offset callback callback_data"

definition storeOffset :: "storeIO \<Rightarrow> int" where
  "storeOffset S = io_offset S"

subsection \<open>Streams of written bytes\<close>

text \<open>
  The state of an object that is being written: \<open>bs\<close> is what was passed to \<open>storeWrite\<close>. It is in
  the file or waiting in the queue of the descriptor, in order. \<open>n\<close> locks are held on the
  \<open>storeIOState\<close>, and one more by disk.c while blocks are waiting.
\<close>

definition io_stream :: "'a ufs_scheme \<Rightarrow> addr \<Rightarrow> addr \<Rightarrow> storeIO \<Rightarrow> fde \<Rightarrow> nat \<Rightarrow> 8 word list \<Rightarrow> 8 word list \<Rightarrow> bool" where
  "io_stream w p c S F n file bs \<longleftrightarrow>
     cb_inv (d_cb w) \<and> u_sio w p = Some S \<and>
     (\<exists>cd. cb_mem (d_cb w) p = Some cd \<and> c_valid cd \<and> c_locks cd = int n + (if f_write_q F \<noteq> [] then 1 else 0)) \<and>
     (\<exists>cc. cb_mem (d_cb w) c = Some cc \<and> 0 < c_locks cc) \<and> c \<noteq> p \<and>
     0 \<le> io_fd S \<and> d_fds w (io_fd S) = Some F \<and> f_append F \<and> f_read F = None \<and> \<not> f_close_request F \<and>
     blocks_ok (f_write_q F) \<and> f_write_daemon F = (f_write_q F \<noteq> []) \<and> f_write_handler F = (f_write_q F \<noteq> []) \<and>
     (f_write_q F \<noteq> [] \<longrightarrow> f_wrt_handle F = Some WRITE_DONE \<and> f_wrt_handle_data F = Some p) \<and>
     d_files w (f_path F) = Some file \<and> file @ fd_pending F = bs \<and>
     io_offset S = int (length file) \<and> io_write_offset S = int (length bs) \<and>
     u_dirs w (io_swap_dirn S) \<noteq> None \<and> io_callback S \<noteq> None \<and> io_callback_data S = Some c \<and>
     \<not> io_closing S \<and> \<not> io_close_request S \<and> \<not> io_reading S"

text \<open>What an operation on a stream leaves alone.\<close>

definition io_frame :: "'a ufs_scheme \<Rightarrow> 'a ufs_scheme \<Rightarrow> addr \<Rightarrow> int \<Rightarrow> string \<Rightarrow> bool" where
  "io_frame w w1 p fd path \<longleftrightarrow>
     (\<forall>x. x \<noteq> fd \<longrightarrow> d_fds w1 x = d_fds w x) \<and> (\<forall>x. x \<noteq> path \<longrightarrow> d_files w1 x = d_files w x) \<and>
     (\<forall>x. x \<noteq> p \<longrightarrow> u_sio w1 x = u_sio w x \<and> cb_mem (d_cb w1) x = cb_mem (d_cb w) x) \<and>
     cbdata_index (d_cb w1) = cbdata_index (d_cb w) \<and> u_dirs w1 = u_dirs w \<and> u_type w1 = u_type w \<and> u_repl w1 = u_repl w \<and>
     store_open_disk_fd w1 = store_open_disk_fd w \<and> ufs.more w1 = ufs.more w"

text \<open>After an attempt that failed: the rest of the bytes is given up, and the callback is due.\<close>

definition io_failed :: "'a ufs_scheme \<Rightarrow> addr \<Rightarrow> addr \<Rightarrow> storeIO \<Rightarrow> fde \<Rightarrow> nat \<Rightarrow> 8 word list \<Rightarrow> bool" where
  "io_failed w p c S F n file \<longleftrightarrow> u_sio w p = Some S \<and>
     (let S' = S\<lparr>io_write_offset := int (length file)\<rparr> in io_stream (put_io w p S') p c S' F n file file)"

lemma disk_more_eq:
  assumes "disk.more w1 = disk.more (w :: 'a ufs_scheme)"
  shows "u_sio w1 = u_sio w" "u_dirs w1 = u_dirs w" "u_type w1 = u_type w" "u_repl w1 = u_repl w"
    "store_open_disk_fd w1 = store_open_disk_fd w" "ufs.more w1 = ufs.more w"
  using assms by (cases w; cases w1; simp)+

text \<open>A block is queued and the attempt to write is next.\<close>

abbreviation waiting_fd :: "fde \<Rightarrow> fde" where
  "waiting_fd F \<equiv> F\<lparr>f_write_handler := True, f_write_daemon := True\<rparr>"

definition io_due :: "'a ufs_scheme \<Rightarrow> addr \<Rightarrow> addr \<Rightarrow> storeIO \<Rightarrow> fde \<Rightarrow> nat \<Rightarrow> 8 word list \<Rightarrow> 8 word list \<Rightarrow> bool" where
  "io_due w p c S F n file bs \<longleftrightarrow> f_write_q F \<noteq> [] \<and> d_fds w (io_fd S) = Some F \<and> \<not> f_write_handler F \<and>
     io_stream (put_fd w (io_fd S) (waiting_fd F)) p c S (waiting_fd F) n file bs"

definition attempt_done ::
  "'a ufs_scheme \<Rightarrow> addr \<Rightarrow> addr \<Rightarrow> storeIO \<Rightarrow> fde \<Rightarrow> nat \<Rightarrow> 8 word list \<Rightarrow> 8 word list \<Rightarrow> int \<Rightarrow> 'a ufs_scheme \<Rightarrow> storeIO \<Rightarrow> fde \<Rightarrow> 8 word list \<Rightarrow> bool" where
  "attempt_done w p c S F n file bs status w1 S1 F1 file1 \<longleftrightarrow>
     (if status = DISK_OK then io_stream w1 p c S1 F1 n file1 bs else io_failed w1 p c S1 F1 n file1 \<and> file1 = file) \<and>
     S1 = S\<lparr>io_offset := io_offset S1, io_write_offset := io_write_offset S, io_writing := io_writing S1\<rparr> \<and>
     f_path F1 = f_path F \<and> io_frame w w1 p (io_fd S) (f_path F)"

lemma fd_pending_waiting [simp]: "fd_pending (waiting_fd F) = fd_pending F"
  by (simp add: fd_pending_def)

lemma moved_ok: "moved c pend status len c' pend' \<Longrightarrow> status = DISK_OK \<Longrightarrow> c' @ pend' = c @ pend \<and> length c' = length c + len"
  and moved_failed: "moved c pend status len c' pend' \<Longrightarrow> status \<noteq> DISK_OK \<Longrightarrow> c' = c \<and> pend' = []"
  by (simp_all add: moved_def)

lemma fd_pending_Nil: "blocks_ok (f_write_q F) \<Longrightarrow> fd_pending F = [] \<longleftrightarrow> f_write_q F = []"
  using q_rest_nonempty by (cases "f_write_q F") (auto simp: fd_pending_def)

lemma write_handler_run:
  assumes "cb_mem (d_cb w1) p \<noteq> None" "u_sio w1 p = Some S" "\<not> io_close_request S"
  shows "write_handlers closed WRITE_DONE fd status len (Some p) w1 =
    (if status = DISK_OK then Some (put_io w1 p (S\<lparr>io_writing := False, io_offset := io_offset S + int len\<rparr>))
     else storeUfsIOCallback closed (put_io w1 p (S\<lparr>io_writing := False\<rparr>)) p status)"
  using assms by (auto simp: write_handlers_def storeUfsWriteDone_def get_io_def Let_def)

lemma attempt_stream:
  assumes "posix os" and due: "io_due w p c S F n file bs"
  shows "\<exists>status w1 S1 F1 file1. attempt_done w p c S F n file bs status w1 S1 F1 file1 \<and>
    (takes_bytes os (d_calls w) \<longrightarrow> status = DISK_OK \<and> length (fd_pending F1) < length (fd_pending F)) \<and> d_calls w1 = d_calls w + 1 \<and>
    \<not> io_writing S1 \<and> (soft_errors os \<longrightarrow> status = DISK_OK) \<and> (\<forall>k. os_write os (d_calls w) (length (q_rest (hd (f_write_q F)))) = Done k \<longrightarrow>
      status = DISK_OK \<and> length file1 = length file + k) \<and>
    (\<forall>closed. diskHandleWrite os (write_handlers closed) w (io_fd S) =
      (if status = DISK_OK then Some w1 else storeUfsIOCallback closed w1 p status))"
proof -
  have q: "f_write_q F \<noteq> []" "d_fds w (io_fd S) = Some F" "\<not> f_write_handler F"
    and s: "io_stream (put_fd w (io_fd S) (waiting_fd F)) p c S (waiting_fd F) n file bs" using due by (auto simp: io_due_def)
  obtain cd where cd: "cb_mem (d_cb w) p = Some cd" "c_valid cd" "c_locks cd = int n + 1" using s q(1) by (auto simp: io_stream_def put_fd_def)
  have f: "blocks_ok (f_write_q F)" "f_append F" "d_files w (f_path F) = Some file" "f_wrt_handle F = Some WRITE_DONE"
      "f_wrt_handle_data F = Some p" "cb_inv (d_cb w)" "0 < c_locks cd" and S: "u_sio w p = Some S" "\<not> io_close_request S" "io_offset S = int (length file)"
    and bs: "file @ fd_pending F = bs"
    using s q(1) cd by (auto simp: io_stream_def put_fd_def)
  from diskHandleWrite_ok [OF assms(1) q(2,1) f(1-5) q(3) f(6) cd(1) f(7)] obtain w1 F1 c1 status len where
    p: "write_post w (io_fd S) F file p cd status len w1 F1 c1" "takes_bytes os (d_calls w) \<longrightarrow> status = DISK_OK \<and> 0 < len"
      "\<forall>H. diskHandleWrite os H w (io_fd S) = H WRITE_DONE (io_fd S) status len (Some p) w1"
      "\<forall>k. os_write os (d_calls w) (length (q_rest (hd (f_write_q F)))) = Done k \<longrightarrow> status = DISK_OK \<and> len = k"
      "soft_errors os \<longrightarrow> status = DISK_OK" using cd(2) by auto
  have F1: "F1 = F\<lparr>f_pos := f_pos F1, f_write_q := f_write_q F1, f_write_handler := f_write_q F1 \<noteq> [], f_write_daemon := f_write_q F1 \<noteq> []\<rparr>"
    and m: "moved file (fd_pending F) status len c1 (fd_pending F1)" and ok1: "blocks_ok (f_write_q F1)" "cb_inv (d_cb w1)"
    and w1: "d_fds w1 = (d_fds w)(io_fd S \<mapsto> F1)" "d_files w1 = (d_files w)(f_path F \<mapsto> c1)"
      "cb_mem (d_cb w1) = (if f_write_q F1 \<noteq> [] then cb_mem (d_cb w) else drop_lock (cb_mem (d_cb w)) p cd)"
      "cbdata_index (d_cb w1) = cbdata_index (d_cb w)" "d_calls w1 = d_calls w + 1"
    and more: "disk.more w1 = disk.more w" using p(1) by (auto simp: write_post_def)
  note w1m = disk_more_eq [OF more]
  have F1s: "f_append F1 = f_append F" "f_path F1 = f_path F" "f_wrt_handle F1 = f_wrt_handle F" "f_wrt_handle_data F1 = f_wrt_handle_data F"
    "f_read F1 = f_read F" "f_close_request F1 = f_close_request F" "f_write_handler F1 = (f_write_q F1 \<noteq> [])" "f_write_daemon F1 = (f_write_q F1 \<noteq> [])"
    by (subst F1, simp)+
  have cd1: "\<exists>cd1. cb_mem (d_cb w1) p = Some cd1 \<and> c_valid cd1 \<and> c_locks cd1 = int n + (if f_write_q F1 \<noteq> [] then 1 else 0)"
    "\<forall>x. x \<noteq> p \<longrightarrow> cb_mem (d_cb w1) x = cb_mem (d_cb w) x"
    using w1(3) cd by (auto simp: drop_lock_def)
  define S1 where "S1 = (if status = DISK_OK then S\<lparr>io_writing := False, io_offset := io_offset S + int len\<rparr> else S\<lparr>io_writing := False\<rparr>)"
  define w2 where "w2 = put_io w1 p S1"
  have run: "write_handlers closed WRITE_DONE (io_fd S) status len (Some p) w1 =
      (if status = DISK_OK then Some w2 else storeUfsIOCallback closed w2 p status)" for closed
    using write_handler_run [of w1 p S closed "io_fd S" status len] cd1(1) S w1m(1) by (auto simp: w2_def S1_def)
  have S1: "S1 = S\<lparr>io_offset := io_offset S1, io_write_offset := io_write_offset S, io_writing := io_writing S1\<rparr>" by (simp add: S1_def)
  have fr: "io_frame w w2 p (io_fd S) (f_path F)" using w1 w1m cd1(2) by (simp add: io_frame_def w2_def put_io_def)
  have s1: "if status = DISK_OK then io_stream w2 p c S1 F1 n c1 bs else io_failed w2 p c S1 F1 n c1 \<and> c1 = file"
  proof (cases "status = DISK_OK")
    case True
    then show ?thesis using s moved_ok [OF m True] cd1 ok1 w1 w1m F1s bs S
      by (auto simp: io_stream_def put_fd_def w2_def put_io_def S1_def)
  next
    case False
    then have "f_write_q F1 = []" using moved_failed [OF m False] fd_pending_Nil [OF ok1(1)] by simp
    then show ?thesis using False s moved_failed [OF m False] cd1 ok1 w1 w1m F1s bs S
      by (auto simp: io_stream_def io_failed_def put_fd_def w2_def put_io_def S1_def)
  qed
  have "status = DISK_OK \<and> length (fd_pending F1) < length (fd_pending F)" if "takes_bytes os (d_calls w)"
  proof -
    have "c1 @ fd_pending F1 = file @ fd_pending F" "length c1 = length file + len" "0 < len" using moved_ok [OF m] p(2) that by auto
    moreover from this(1) have "length c1 + length (fd_pending F1) = length file + length (fd_pending F)" by (metis length_append)
    ultimately show ?thesis using p(2) that by linarith
  qed
  moreover have "attempt_done w p c S F n file bs status w2 S1 F1 c1" using s1 S1 fr F1s(2) by (simp add: attempt_done_def)
  moreover have "d_calls w2 = d_calls w + 1" using w1(5) by (simp add: w2_def put_io_def)
  moreover have "\<forall>closed. diskHandleWrite os (write_handlers closed) w (io_fd S) =
      (if status = DISK_OK then Some w2 else storeUfsIOCallback closed w2 p status)" using p(3) run by simp
  moreover have "\<forall>k. os_write os (d_calls w) (length (q_rest (hd (f_write_q F)))) = Done k \<longrightarrow> status = DISK_OK \<and> length c1 = length file + k"
    using p(4) moved_ok [OF m] by auto
  moreover have "\<not> io_writing S1" by (simp add: S1_def)
  ultimately show ?thesis using p(5) by blast
qed

text \<open>The result of an operation on a stream; \<open>bs\<close> is what the stream should hold after it.\<close>

definition stream_after ::
  "'a ufs_scheme \<Rightarrow> addr \<Rightarrow> addr \<Rightarrow> storeIO \<Rightarrow> fde \<Rightarrow> nat \<Rightarrow> 8 word list \<Rightarrow> int \<Rightarrow> 'a ufs_scheme \<Rightarrow> storeIO \<Rightarrow> fde \<Rightarrow> 8 word list \<Rightarrow> bool" where
  "stream_after w p c S F n bs status w1 S1 F1 file1 \<longleftrightarrow>
     (if status = DISK_OK then io_stream w1 p c S1 F1 n file1 bs else io_failed w1 p c S1 F1 n file1) \<and>
     S1 = S\<lparr>io_offset := io_offset S1, io_write_offset := io_write_offset S1, io_writing := io_writing S1\<rparr> \<and>
     f_path F1 = f_path F \<and> io_frame w w1 p (io_fd S) (f_path F)"

lemma attempt_done_after:
  assumes "attempt_done w p c S F n file bs status w1 S1 F1 file1"
  shows "stream_after w p c S F n bs status w1 S1 F1 file1"
proof -
  have "S1 = S\<lparr>io_offset := io_offset S1, io_write_offset := io_write_offset S1, io_writing := io_writing S1\<rparr>"
    using assms by (cases S; cases S1) (simp add: attempt_done_def)
  then show ?thesis using assms by (auto simp: attempt_done_def stream_after_def split: if_splits)
qed

lemma stream_after_trans:
  assumes "stream_after w1 p c S1 F1 n bs status w2 S2 F2 file2" "io_frame w w1 p (io_fd S) (f_path F)" "f_path F1 = f_path F"
    "S1 = S\<lparr>io_offset := io_offset S1, io_write_offset := io_write_offset S1, io_writing := io_writing S1\<rparr>"
  shows "stream_after w p c S F n bs status w2 S2 F2 file2"
proof -
  have fd: "io_fd S1 = io_fd S" by (subst assms(4)) simp
  have S2: "S2 = S1\<lparr>io_offset := io_offset S2, io_write_offset := io_write_offset S2, io_writing := io_writing S2\<rparr>"
    using assms(1) by (simp add: stream_after_def)
  then have "S2 = S\<lparr>io_offset := io_offset S2, io_write_offset := io_write_offset S2, io_writing := io_writing S2\<rparr>"
    using assms(4) by (cases S; cases S1; cases S2) simp
  then show ?thesis using assms(1-3) fd by (simp add: stream_after_def io_frame_def)
qed

text \<open>\<open>storeWrite\<close> appends to the stream, or reports the error at once.\<close>

lemma storeWrite_ok:
  assumes "posix os" and s: "io_stream w p c S F n file bs" and "bytes \<noteq> []"
  shows "\<exists>status w1 S1 F1 file1. stream_after w p c S F n (bs @ bytes) status w1 S1 F1 file1 \<and>
    (status \<noteq> DISK_OK \<longrightarrow> file1 = file) \<and> (soft_errors os \<longrightarrow> status = DISK_OK) \<and>
    (f_write_q F = [] \<longrightarrow> \<not> io_writing S1 \<and> d_calls w1 = d_calls w + 1 \<and>
      (\<forall>k. os_write os (d_calls w) (length bytes) = Done k \<longrightarrow> status = DISK_OK \<and> length file1 = length file + k)) \<and>
    (\<forall>closed. storeWrite os closed w p bytes free_func =
      (if status = DISK_OK then Some w1 else storeUfsIOCallback closed w1 p status))"
proof -
  define wq where "wq = \<lparr>q_file_offset = io_write_offset S, q_buf = bytes, q_buf_offset = 0, q_free = free_func\<rparr>"
  define S1 where "S1 = S\<lparr>io_write_offset := io_write_offset S + int (length bytes), io_writing := True\<rparr>"
  define F1 where "F1 = F\<lparr>f_wrt_handle := Some WRITE_DONE, f_wrt_handle_data := Some p, f_write_q := f_write_q F @ [wq]\<rparr>"
  define w1 where "w1 = put_fd (put_io w p S1) (io_fd S) F1"
  obtain cd where cd: "cb_mem (d_cb w) p = Some cd" "c_valid cd" "c_locks cd = int n + (if f_write_q F \<noteq> [] then 1 else 0)"
    using s by (auto simp: io_stream_def)
  have g: "get_io w p = Some S" "get_io (put_io w p S') p = Some S'" for S' using s cd by (auto simp: io_stream_def get_io_def put_io_def)
  have fd: "0 \<le> io_fd S" "d_fds w (io_fd S) = Some F" using s by (auto simp: io_stream_def)
  have pend: "fd_pending F1 = fd_pending F @ bytes" "f_write_q F1 \<noteq> []" by (simp_all add: fd_pending_def F1_def wq_def q_rest_def)
  have Ss: "S1 = S\<lparr>io_offset := io_offset S1, io_write_offset := io_write_offset S1, io_writing := io_writing S1\<rparr>" by (simp add: S1_def)
  have eq: "storeWrite os closed w p bytes free_func =
      (if f_write_daemon F1 then Some w1
       else do { cb \<leftarrow> cbdataLock (d_cb w1) (Some p); diskHandleWrite os (write_handlers closed) (w1\<lparr>d_cb := cb\<rparr>) (io_fd S) })" for closed
    using g fd by (simp add: storeWrite_def storeUfsWrite_def file_write_def F1_def [symmetric] wq_def [symmetric] w1_def Let_def)
      (simp add: put_io_def put_fd_def S1_def F1_def wq_def)
  show ?thesis
  proof (cases "f_write_q F = []")
    case False
    have "f_write_daemon F1" using s False by (simp add: io_stream_def F1_def)
    moreover have "io_stream w1 p c S1 F1 n file (bs @ bytes)"
      using s cd False pend assms(3) by (auto simp: io_stream_def w1_def put_fd_def put_io_def S1_def F1_def wq_def)
    moreover have "io_frame w w1 p (io_fd S) (f_path F)" by (simp add: io_frame_def w1_def put_fd_def put_io_def)
    ultimately have "stream_after w p c S F n (bs @ bytes) DISK_OK w1 S1 F1 file" using Ss
      by (simp add: stream_after_def F1_def)
    then show ?thesis using eq \<open>f_write_daemon F1\<close> False by (intro exI [of _ DISK_OK] exI [of _ w1] exI [of _ S1] exI [of _ F1] exI [of _ "file"]) simp
  next
    case True
    have nd: "\<not> f_write_daemon F1" "\<not> f_write_handler F1" using s True by (simp_all add: io_stream_def F1_def)
    have cb1: "d_cb w1 = d_cb w" "cb_inv (d_cb w)" using s by (simp_all add: w1_def put_fd_def put_io_def io_stream_def)
    define cb where "cb = (d_cb w)\<lparr>cb_mem := (cb_mem (d_cb w))(p \<mapsto> cd\<lparr>c_locks := c_locks cd + 1\<rparr>)\<rparr>"
    have cb: "cbdataLock (d_cb w1) (Some p) = Some cb" "cb_inv cb" using cbdataLock_ok [OF cb1(2) cd(1)] cb1(1) by (simp_all add: cb_def)
    define w2 where "w2 = w1\<lparr>d_cb := cb\<rparr>"
    have due: "io_due w2 p c S1 F1 n file (bs @ bytes)"
      using s cd True pend assms(3) nd cb by (auto simp: io_due_def io_stream_def w2_def w1_def put_fd_def put_io_def S1_def F1_def wq_def cb_def)
    have fr: "io_frame w w2 p (io_fd S) (f_path F)" by (simp add: io_frame_def w2_def w1_def put_fd_def put_io_def cb_def)
    from attempt_stream [OF assms(1) due] obtain status w3 S3 F3 file3 where
      r: "attempt_done w2 p c S1 F1 n file (bs @ bytes) status w3 S3 F3 file3"
      "\<forall>closed. diskHandleWrite os (write_handlers closed) w2 (io_fd S1) = (if status = DISK_OK then Some w3 else storeUfsIOCallback closed w3 p status)"
      "\<not> io_writing S3" "d_calls w3 = d_calls w2 + 1"
      "\<forall>k. os_write os (d_calls w2) (length (q_rest (hd (f_write_q F1)))) = Done k \<longrightarrow> status = DISK_OK \<and> length file3 = length file + k"
      "soft_errors os \<longrightarrow> status = DISK_OK" by blast
    moreover have "d_calls w2 = d_calls w" "q_rest (hd (f_write_q F1)) = bytes" using True
      by (simp_all add: w2_def w1_def put_fd_def put_io_def F1_def wq_def q_rest_def)
    moreover have "stream_after w p c S F n (bs @ bytes) status w3 S3 F3 file3"
      by (rule stream_after_trans [OF attempt_done_after [OF r(1)] fr _ Ss]) (simp add: F1_def)
    moreover have "status \<noteq> DISK_OK \<longrightarrow> file3 = file" using r(1) by (simp add: attempt_done_def)
    moreover have "storeWrite os closed w p bytes free_func = (if status = DISK_OK then Some w3 else storeUfsIOCallback closed w3 p status)" for closed
      using eq nd(1) cb(1) r(2) by (simp add: w2_def S1_def)
    ultimately show ?thesis
      by (intro exI [of _ status] exI [of _ w3] exI [of _ S3] exI [of _ F3] exI [of _ file3]) simp
  qed
qed

text \<open>The select loop moves waiting bytes to the file.\<close>

lemma write_ready_ok:
  assumes "posix os" and s: "io_stream w p c S F n file bs"
  shows "\<exists>status w1 S1 F1 file1. stream_after w p c S F n bs status w1 S1 F1 file1 \<and> (status \<noteq> DISK_OK \<longrightarrow> file1 = file) \<and>
    (f_write_q F = [] \<longrightarrow> status = DISK_OK \<and> w1 = w \<and> F1 = F) \<and>
    (takes_bytes os (d_calls w) \<longrightarrow> f_write_q F \<noteq> [] \<longrightarrow> status = DISK_OK \<and> length (fd_pending F1) < length (fd_pending F)) \<and>
    (f_write_q F \<noteq> [] \<longrightarrow> d_calls w1 = d_calls w + 1) \<and>
    (\<forall>closed. write_ready os (write_handlers closed) w (io_fd S) =
      (if status = DISK_OK then Some w1 else storeUfsIOCallback closed w1 p status))"
proof (cases "f_write_q F = []")
  case True
  have "stream_after w p c S F n bs DISK_OK w S F file" using s by (simp add: stream_after_def io_frame_def)
  moreover have "write_ready os (write_handlers closed) w (io_fd S) = Some w" for closed
    using s True by (simp add: write_ready_def io_stream_def)
  ultimately show ?thesis using True by (intro exI [of _ DISK_OK] exI [of _ w] exI [of _ S] exI [of _ F] exI [of _ "file"]) simp
next
  case False
  define F0 where "F0 = F\<lparr>f_write_handler := False\<rparr>"
  define w0 where "w0 = put_fd w (io_fd S) F0"
  have h: "f_write_handler F" "f_write_daemon F" "d_fds w (io_fd S) = Some F" using s False by (simp_all add: io_stream_def)
  have W: "waiting_fd F0 = F" using h by (cases F) (simp add: F0_def)
  have "put_fd w0 (io_fd S) F = w" using h(3) by (cases w) (simp add: w0_def put_fd_def fun_upd_idem)
  then have due: "io_due w0 p c S F0 n file bs" unfolding io_due_def W using s False by (simp add: w0_def put_fd_def F0_def)
  from attempt_stream [OF assms(1) due] obtain status w3 S3 F3 file3 where
    r: "attempt_done w0 p c S F0 n file bs status w3 S3 F3 file3"
      "takes_bytes os (d_calls w0) \<longrightarrow> status = DISK_OK \<and> length (fd_pending F3) < length (fd_pending F0)" "d_calls w3 = d_calls w0 + 1"
      "\<forall>closed. diskHandleWrite os (write_handlers closed) w0 (io_fd S) = (if status = DISK_OK then Some w3 else storeUfsIOCallback closed w3 p status)"
    by blast
  have "io_frame w w0 p (io_fd S) (f_path F)" by (simp add: io_frame_def w0_def put_fd_def)
  then have "stream_after w p c S F n bs status w3 S3 F3 file3"
    by (rule stream_after_trans [OF attempt_done_after [OF r(1)]]) (simp_all add: F0_def)
  moreover have "status \<noteq> DISK_OK \<longrightarrow> file3 = file" using r(1) by (simp add: attempt_done_def)
  moreover have "d_calls w0 = d_calls w" "fd_pending F0 = fd_pending F" by (simp_all add: w0_def put_fd_def F0_def fd_pending_def)
  moreover have "write_ready os (write_handlers closed) w (io_fd S) = (if status = DISK_OK then Some w3 else storeUfsIOCallback closed w3 p status)" for closed
    using r(4) h by (simp add: write_ready_def w0_def F0_def)
  ultimately show ?thesis using r(2,3) False by (intro exI [of _ status] exI [of _ w3] exI [of _ S3] exI [of _ F3] exI [of _ file3]) simp
qed

subsection \<open>Creation and the end of a stream\<close>

lemma storeUfsCreate_stream:
  assumes r: "storeUfsCreate os w p dirn e cl (Some c) = Some (True, w1)" and "cb_inv (d_cb w)" "cb_mem (d_cb w) c \<noteq> None"
  shows "\<exists>S F D. io_stream w1 p c S F 0 [] [] \<and> io_callback S = Some cl \<and> io_swap_dirn S = dirn \<and> io_e S = e \<and>
    u_dirs w dirn = Some D \<and> storeUfsDirFullPath D (io_swap_filen S) = Some (f_path F)"
proof -
  define mode where "mode = \<lparr>o_access = O_WRONLY, o_creat = True, o_trunc = True, o_append = True\<rparr>"
  obtain D filn info path fd w2 where D: "u_dirs w dirn = Some D" "storeUfsDirMapBitAllocate (ud_info D) = Some (filn, info)"
    "storeUfsDirFullPath (D\<lparr>ud_info := info\<lparr>ui_suggest := filn + 1\<rparr>\<rparr>) filn = Some path"
    "file_open os (put_dir w dirn (D\<lparr>ud_info := info\<lparr>ui_suggest := filn + 1\<rparr>\<rparr>)) path
       \<lparr>o_access = O_WRONLY, o_creat = True, o_trunc = True, o_append = False\<rparr> = Some (fd, w2)"
    "\<not> fd < 0" "\<exists>w3. new_io w2 p dirn filn e \<lparr>o_access = O_WRONLY, o_creat = True, o_trunc = True, o_append = False\<rparr> cl (Some c) fd 0 = Some w3 \<and>
       w1 = storeUfsDirReplAdd w3 e"
    using r by (auto simp: storeUfsCreate_def Let_def bind_eq_Some_conv split: if_splits)
  have p: "storeUfsDirFullPath D filn = Some path" using D(3) by (simp add: storeUfsDirFullPath_def)
  define F where "F = \<lparr>f_path = path, f_append = True, f_pos = 0, f_write_q = [], f_wrt_handle = None, f_wrt_handle_data = None,
        f_disk_offset = 0, f_read = None, f_write_handler = False, f_write_daemon = False, f_close_request = False\<rparr>"
  have w2: "d_fds w2 fd = Some F" "d_files w2 path = Some []" "d_cb w2 = d_cb w" "u_dirs w2 dirn \<noteq> None"
    using D(4,5) by (auto simp: file_open_def Let_def bind_eq_Some_conv fd_open_def fd_close_def put_fd_def put_dir_def F_def
        split: sum.splits if_splits)
  obtain w3 where w3: "new_io w2 p dirn filn e \<lparr>o_access = O_WRONLY, o_creat = True, o_trunc = True, o_append = False\<rparr> cl (Some c) fd 0 = Some w3"
    "w1 = storeUfsDirReplAdd w3 e" using D(6) by auto
  obtain cb cc D2 where cb: "cbdataInternalAlloc (d_cb w2) (u_type w2) p = Some cb" "cb_mem cb c = Some cc" "u_dirs w2 dirn = Some D2"
    using w3(1) assms(2,3) w2(3,4) cbdataInternalAlloc_ok by (fastforce simp: new_io_def bind_eq_Some_conv)
  have a: "cb_inv cb" "cb_mem (d_cb w2) p = None" "cb_mem cb = (cb_mem (d_cb w2))(p \<mapsto> \<lparr>c_valid = True, c_locks = 0, c_type = u_type w2, c_y = CBDATA_COOKIE p\<rparr>)"
    using cbdataInternalAlloc_ok [OF _ cb(1)] assms(2) w2(3) by auto
  have cp: "c \<noteq> p" using a(2) assms(3) w2(3) by auto
  note l = cbdataLock_ok [OF a(1) cb(2)]
  have cc: "0 < c_locks (cc\<lparr>c_locks := c_locks cc + 1\<rparr>)" using cb_invD(2) [OF a(1) cb(2)] by simp
  define S where "S = \<lparr>io_swap_dirn = dirn, io_swap_filen = filn, io_e = e, io_mode = \<lparr>o_access = O_WRONLY, o_creat = True, o_trunc = True, o_append = False\<rparr>,
         io_st_size = 0, io_offset = 0, io_write_offset = 0, io_callback = Some cl, io_callback_data = Some c, io_read_callback = None,
         io_read_data = None, io_closing = False, io_fd = fd, io_close_request = False, io_reading = False, io_writing = False\<rparr>"
  have "io_stream w1 p c S F 0 [] []"
    using w3 l a cb(3) cp cc w2 D(5) cb(1)
    by (auto simp: new_io_def Let_def io_stream_def storeUfsDirReplAdd_def put_dir_def put_io_def S_def F_def fd_pending_def)
  then show ?thesis using D(1) p by (intro exI [of _ S] exI [of _ F] exI [of _ D]) (simp add: S_def F_def)
qed

text \<open>The store takes a lock of its own.\<close>

lemma io_stream_lock:
  assumes "io_stream w p c S F n file bs"
  shows "\<exists>cb. cbdataLock (d_cb w) (Some p) = Some cb \<and> io_stream (w\<lparr>d_cb := cb\<rparr>) p c S F (n + 1) file bs"
proof -
  obtain cd where cd: "cb_mem (d_cb w) p = Some cd" "cb_inv (d_cb w)" using assms by (auto simp: io_stream_def)
  from cbdataLock_ok [OF cd(2,1)] show ?thesis using assms cd by (auto simp: io_stream_def)
qed

text \<open>A \<open>storeIOState\<close> whose end was reported is no longer in use.\<close>

definition io_alive :: "'a ufs_scheme \<Rightarrow> addr \<Rightarrow> bool" where
  "io_alive w p \<longleftrightarrow> (\<exists>S. get_io w p = Some S \<and> io_callback S \<noteq> None)"

lemma storeUfsIOCallback_ends: "storeUfsIOCallback closed w p err = Some w' \<Longrightarrow> \<not> io_alive w' p"
  unfolding storeUfsIOCallback_def io_forget_def Let_def bind_eq_Some_conv
  by (auto simp: io_alive_def get_io_def put_io_def)

lemma io_stream_alive: "io_stream w p c S F n file bs \<Longrightarrow> io_alive w p \<and> get_io w p = Some S"
  by (auto simp: io_stream_def io_alive_def get_io_def)

text \<open>What the writer of an object and the select loop do with it until its end.\<close>

inductive io_step ::
  "os \<Rightarrow> (addr \<Rightarrow> addr option \<Rightarrow> int \<Rightarrow> addr \<Rightarrow> 'a ufs_scheme \<Rightarrow> 'a ufs_scheme option) \<Rightarrow> addr \<Rightarrow>
   'a ufs_scheme \<times> 8 word list \<Rightarrow> 'a ufs_scheme \<times> 8 word list \<Rightarrow> bool"
  for os :: os and closed :: "addr \<Rightarrow> addr option \<Rightarrow> int \<Rightarrow> addr \<Rightarrow> 'a ufs_scheme \<Rightarrow> 'a ufs_scheme option" and p :: addr where
  io_write: "bytes \<noteq> [] \<Longrightarrow> storeWrite os closed w p bytes free_func = Some w' \<Longrightarrow> io_alive w' p \<Longrightarrow>
    io_step os closed p (w, bs) (w', bs @ bytes)"
| io_ready: "get_io w p = Some S \<Longrightarrow> write_ready os (write_handlers closed) w (io_fd S) = Some w' \<Longrightarrow> io_alive w' p \<Longrightarrow>
    io_step os closed p (w, bs) (w', bs)"

inductive_cases io_stepE: "io_step os closed p (w, bs) (w', bs')"

lemma same_stream:
  assumes r: "stream_after w p c S F n bs status w1 S1 F1 file1"
    and run: "Some w' = (if status = DISK_OK then Some w1 else storeUfsIOCallback closed w1 p status)" "io_alive w' p"
  shows "\<exists>S' F' file'. io_stream w' p c S' F' n file' bs \<and> io_swap_dirn S' = io_swap_dirn S \<and> io_swap_filen S' = io_swap_filen S \<and>
    f_path F' = f_path F \<and> u_dirs w' = u_dirs w"
proof -
  have ok: "status = DISK_OK" using run storeUfsIOCallback_ends [of closed w1 p status w'] by (cases "status = DISK_OK") auto
  then have "w' = w1" using run(1) by simp
  then have "io_stream w' p c S1 F1 n file1 bs" "f_path F1 = f_path F" "u_dirs w' = u_dirs w"
    and S1: "S1 = S\<lparr>io_offset := io_offset S1, io_write_offset := io_write_offset S1, io_writing := io_writing S1\<rparr>"
    using ok r by (simp_all add: stream_after_def io_frame_def)
  moreover have "io_swap_dirn S1 = io_swap_dirn S" "io_swap_filen S1 = io_swap_filen S" by (subst S1, simp)+
  ultimately show ?thesis by blast
qed

lemma io_step_stream:
  assumes "posix os" "io_step os closed p (w, bs) (w', bs')" and s: "io_stream w p c S F n file bs"
  shows "\<exists>S' F' file'. io_stream w' p c S' F' n file' bs' \<and> io_swap_dirn S' = io_swap_dirn S \<and> io_swap_filen S' = io_swap_filen S \<and>
    f_path F' = f_path F \<and> u_dirs w' = u_dirs w"
proof -
  have alive: "io_alive w' p" using assms(2) by (auto elim: io_step.cases)
  from assms(2) consider (wr) bytes free_func where "bs' = bs @ bytes" "bytes \<noteq> []" "storeWrite os closed w p bytes free_func = Some w'"
    | (rd) "bs' = bs" "write_ready os (write_handlers closed) w (io_fd S) = Some w'"
    using io_stream_alive [OF s] by (auto elim!: io_stepE)
  then show ?thesis
  proof cases
    case wr
    from storeWrite_ok [OF assms(1) s wr(2), of free_func] wr(3) obtain status w1 S1 F1 file1 where
      "stream_after w p c S F n bs' status w1 S1 F1 file1"
      "Some w' = (if status = DISK_OK then Some w1 else storeUfsIOCallback closed w1 p status)" using wr(1) by metis
    from same_stream [OF this alive] show ?thesis .
  next
    case rd
    from write_ready_ok [OF assms(1) s] rd obtain status w1 S1 F1 file1 where
      "stream_after w p c S F n bs' status w1 S1 F1 file1"
      "Some w' = (if status = DISK_OK then Some w1 else storeUfsIOCallback closed w1 p status)" by metis
    from same_stream [OF this alive] show ?thesis .
  qed
qed

lemma io_steps_stream:
  assumes "posix os" "(io_step os closed p)\<^sup>*\<^sup>* (w, bs) (w', bs')" and s: "io_stream w p c S F n file bs"
  shows "\<exists>S' F' file'. io_stream w' p c S' F' n file' bs' \<and> io_swap_dirn S' = io_swap_dirn S \<and> io_swap_filen S' = io_swap_filen S \<and>
    f_path F' = f_path F \<and> u_dirs w' = u_dirs w"
  using assms(2)
proof (induction "(w', bs')" arbitrary: w' bs' rule: rtranclp_induct)
  case base
  then show ?case using s by blast
next
  case (step y)
  obtain wy bsy where y: "y = (wy, bsy)" by (cases y)
  from step(3) [OF y] obtain S1 F1 file1 where "io_stream wy p c S1 F1 n file1 bsy" and "io_swap_dirn S1 = io_swap_dirn S"
    "io_swap_filen S1 = io_swap_filen S" "f_path F1 = f_path F" "u_dirs wy = u_dirs w" by blast
  with io_step_stream [OF assms(1) _ this(1)] step(2) y show ?case by metis
qed

subsection \<open>Properties\<close>

text \<open>C8: The swap file of an object holds what was written, in order. From the creation of the file, through any
  sequence of \<open>storeWrite\<close> calls and calls of the select loop in which no end was reported, the bytes in the
  file followed by those that wait in the descriptor's queue are exactly the bytes passed to \<open>storeWrite\<close>:
  short writes, interrupted writes and the joining of waiting blocks lose, repeat and reorder nothing.
  \<open>storeOffset\<close>, by which the store decides what it may drop from memory, is what is in the file.\<close>
theorem swap_file_holds_what_was_written:
  assumes "posix os" "storeUfsCreate os w p dirn e cl (Some c) = Some (True, w1)" "cb_inv (d_cb w)" "cb_mem (d_cb w) c \<noteq> None"
    "u_dirs w dirn = Some D" "(io_step os closed p)\<^sup>*\<^sup>* (w1, []) (w2, bs)"
  shows "\<exists>S F file path. get_io w2 p = Some S \<and> storeUfsDirFullPath D (io_swap_filen S) = Some path \<and>
    d_fds w2 (io_fd S) = Some F \<and> f_path F = path \<and> d_files w2 path = Some file \<and> file @ fd_pending F = bs \<and>
    storeOffset S = int (length file)"
proof -
  from storeUfsCreate_stream [OF assms(2-4)] assms(5) obtain S F where
    s: "io_stream w1 p c S F 0 [] []" "storeUfsDirFullPath D (io_swap_filen S) = Some (f_path F)" by auto
  from io_steps_stream [OF assms(1,6) s(1)] obtain S' F' file' where
    r: "io_stream w2 p c S' F' 0 file' bs" "io_swap_filen S' = io_swap_filen S" "f_path F' = f_path F" by blast
  show ?thesis
    by (intro exI [of _ S'] exI [of _ F'] exI [of _ file'] exI [of _ "f_path F"])
      (use io_stream_alive [OF r(1)] r s(2) in \<open>auto simp: io_stream_def storeOffset_def\<close>)
qed

text \<open>The select loop runs the write handler of a descriptor \<open>k\<close> times.\<close>

primrec ready_times ::
  "os \<Rightarrow> (addr \<Rightarrow> addr option \<Rightarrow> int \<Rightarrow> addr \<Rightarrow> 'a ufs_scheme \<Rightarrow> 'a ufs_scheme option) \<Rightarrow> int \<Rightarrow> nat \<Rightarrow> 'a ufs_scheme \<Rightarrow> 'a ufs_scheme option" where
  "ready_times os closed fd 0 w = Some w"
| "ready_times os closed fd (Suc k) w = do { w \<leftarrow> write_ready os (write_handlers closed) w fd; ready_times os closed fd k w }"

lemma ready_times_flush:
  assumes "posix os" "\<forall>m. d_calls w \<le> m \<longrightarrow> takes_bytes os m" "io_stream w p c S F n file bs"
  shows "\<exists>k w' S' F'. k \<le> length (fd_pending F) \<and> ready_times os closed (io_fd S) k w = Some w' \<and> io_stream w' p c S' F' n bs bs \<and>
    f_path F' = f_path F"
  using assms(2,3)
proof (induction "length (fd_pending F)" arbitrary: w S F "file" rule: less_induct)
  case less
  show ?case
  proof (cases "f_write_q F = []")
    case True
    then have "file = bs" using less.prems(2) by (auto simp: io_stream_def fd_pending_def)
    then show ?thesis using less.prems(2) by (intro exI [of _ 0]) auto
  next
    case False
    from write_ready_ok [OF assms(1) less.prems(2)] False less.prems(1) obtain w1 S1 F1 file1 where
      r: "stream_after w p c S F n bs DISK_OK w1 S1 F1 file1" "length (fd_pending F1) < length (fd_pending F)" "d_calls w1 = d_calls w + 1"
        "write_ready os (write_handlers closed) w (io_fd S) = Some w1" by force
    have s1: "io_stream w1 p c S1 F1 n file1 bs" "f_path F1 = f_path F" using r(1) by (simp_all add: stream_after_def)
    have "S1 = S\<lparr>io_offset := io_offset S1, io_write_offset := io_write_offset S1, io_writing := io_writing S1\<rparr>"
      using r(1) by (simp add: stream_after_def)
    then have fd: "io_fd S1 = io_fd S" by (cases S; cases S1; simp)
    from less.hyps [OF r(2) _ s1(1)] less.prems(1) r(3) obtain k w' S' F' where
      "k \<le> length (fd_pending F1)" "ready_times os closed (io_fd S1) k w1 = Some w'" "io_stream w' p c S' F' n bs bs" "f_path F' = f_path F1" by auto
    then show ?thesis using r(2,4) fd s1(2) by (intro exI [of _ "Suc k"]) auto
  qed
qed

text \<open>C26: Bytes that wait are written in the end. In every state that a stream of writes reaches, if the system
  takes at least a byte per call from then on, then finitely many turns of the select loop, at most one per
  waiting byte, bring the file to exactly the bytes written, without an assertion failing or an error reported.\<close>
theorem waiting_bytes_reach_the_file:
  assumes "posix os" "storeUfsCreate os w p dirn e cl (Some c) = Some (True, w1)" "cb_inv (d_cb w)" "cb_mem (d_cb w) c \<noteq> None"
    "(io_step os closed p)\<^sup>*\<^sup>* (w1, []) (w2, bs)" "\<forall>m. d_calls w2 \<le> m \<longrightarrow> takes_bytes os m"
  shows "\<exists>S F k w3. get_io w2 p = Some S \<and> d_fds w2 (io_fd S) = Some F \<and> k \<le> length (fd_pending F) \<and>
    ready_times os closed (io_fd S) k w2 = Some w3 \<and> d_files w3 (f_path F) = Some bs \<and> io_alive w3 p"
proof -
  from storeUfsCreate_stream [OF assms(2-4)] obtain S F where s: "io_stream w1 p c S F 0 [] []" by auto
  from io_steps_stream [OF assms(1,5) s] obtain S' F' file' where r: "io_stream w2 p c S' F' 0 file' bs" by blast
  from ready_times_flush [OF assms(1,6) r, of closed] obtain k w3 S3 F3 where
    k: "k \<le> length (fd_pending F')" "ready_times os closed (io_fd S') k w2 = Some w3" "io_stream w3 p c S3 F3 0 bs bs" "f_path F3 = f_path F'"
    by blast
  then have "d_files w3 (f_path F') = Some bs" by (auto simp: io_stream_def)
  moreover have "d_fds w2 (io_fd S') = Some F'" using r by (simp add: io_stream_def)
  ultimately show ?thesis using io_stream_alive [OF r] io_stream_alive [OF k(3)] k(1,2) by blast
qed

subsection \<open>An example run\<close>

definition io_demo_dir :: ufs_dir where
  "io_demo_dir = \<lparr>ud_path = ''/cache'', ud_l1 = 16, ud_l2 = 256,
     ud_info = \<lparr>ui_map = \<lparr>max_n_files = 32, n_files_in_map = 0, nwords = 1, file_map = [0]\<rparr>, ui_suggest = 0\<rparr>, ud_open_files = 0\<rparr>"

definition io_demo_cb :: cb_state where
  "io_demo_cb = \<lparr>cb_mem = [9 \<mapsto> \<lparr>c_valid = True, c_locks = 0, c_type = 1, c_y = CBDATA_COOKIE 9\<rparr>], cbdataCount = 1,
     cbdata_index = [\<lparr>ci_pool = None, ci_free_func = False\<rparr>, \<lparr>ci_pool = Some (''storeIOState'', 100), ci_free_func = True\<rparr>], cb_destroyed = []\<rparr>"

definition io_demo :: "'a \<Rightarrow> 'a ufs_scheme" where
  "io_demo x = \<lparr>d_fds = (\<lambda>_. None), d_files = (\<lambda>_. None), d_cb = io_demo_cb, d_freed = [], d_calls = 0,
     u_sio = (\<lambda>_. None), u_dirs = [0 \<mapsto> io_demo_dir], u_type = 1, store_open_disk_fd = 0, u_repl = [], \<dots> = x\<rparr>"

text \<open>The first write takes one byte; what the later ones do is a parameter.\<close>

definition io_demo_os :: "(nat \<Rightarrow> io_result) \<Rightarrow> os" where
  "io_demo_os later = \<lparr>os_open = (\<lambda>_. Inl 7), os_write = (\<lambda>n len. if n \<le> 1 then Done (min 1 len) else later len), os_read = (\<lambda>_ len. Done len)\<rparr>"

definition ignore_end :: "addr \<Rightarrow> addr option \<Rightarrow> int \<Rightarrow> addr \<Rightarrow> 'a ufs_scheme \<Rightarrow> 'a ufs_scheme option" where
  "ignore_end f data err p w = Some w"

lemma io_demo_posix: "(\<And>len k. later len = Done k \<Longrightarrow> k \<le> len) \<Longrightarrow> posix (io_demo_os later)"
  by (auto simp: posix_def io_demo_os_def)

lemma io_demo_cb_ok: "cb_inv (d_cb (io_demo x))" "cb_mem (d_cb (io_demo x)) 9 \<noteq> None" "u_dirs (io_demo x) 0 = Some io_demo_dir"
  by (simp_all add: io_demo_def io_demo_cb_def cb_inv_def cb_object_ok_def)

lemma io_demo_alloc:
  "storeUfsDirMapBitAllocate (ud_info io_demo_dir) = Some (0, \<lparr>ui_map = \<lparr>max_n_files = 32, n_files_in_map = 1, nwords = 1, file_map = [1]\<rparr>, ui_suggest = 1\<rparr>)"
proof -
  let ?m = "\<lparr>max_n_files = 32, n_files_in_map = 0, nwords = 1, file_map = [0]\<rparr>"
  have "file_map_bit_test ?m 0 = Some False" by code_simp
  then have "file_map_allocate ?m 0 = Some (0, ?m)" by (subst file_map_allocate.simps) simp
  moreover have "grow_to ?m 0 = Some ?m" by (subst grow_to.simps) simp
  then have "file_map_bit_set ?m 0 = Some \<lparr>max_n_files = 32, n_files_in_map = 1, nwords = 1, file_map = [1]\<rparr>"
    by (simp add: file_map_bit_set_def word_index_def arr_get_def arr_set_def bitmask_def to_int32_def)
  ultimately show ?thesis by (simp add: storeUfsDirMapBitAllocate_def io_demo_dir_def)
qed

lemma io_demo_path: "storeUfsDirFullPath (io_demo_dir\<lparr>ud_info := i\<rparr>) 0 = Some ''/cache/00/00/00000000''"
  by (simp add: storeUfsDirFullPath_def io_demo_dir_def) code_simp

lemma io_demo_create: "\<exists>w1. storeUfsCreate (io_demo_os later) (io_demo x) 5 0 77 3 (Some 9) = Some (True, w1) \<and> d_calls w1 = 1 \<and> ufs.more w1 = x \<and> cbdataValid (d_cb w1) (Some 9) = Some True"
  using io_demo_alloc io_demo_path
  by (simp add: storeUfsCreate_def io_demo_def put_dir_def file_open_def io_demo_os_def fd_open_def put_fd_def new_io_def put_io_def
      cbdataInternalAlloc_def cbdataLock_def cbdataValid_def io_demo_cb_def storeUfsDirReplAdd_def Let_def)

text \<open>Created and written to: one byte is in the file and two are waiting.\<close>

lemma io_demo_write:
  assumes "\<And>len k. later len = Done k \<Longrightarrow> k \<le> len"
  shows "\<exists>w1 w2 S F b. storeUfsCreate (io_demo_os later) (io_demo x) 5 0 77 3 (Some 9) = Some (True, w1) \<and>
    io_step (io_demo_os later) closed 5 (w1, []) (w2, [1, 2, 3]) \<and> io_stream w2 5 9 S F 0 [b] [1, 2, 3] \<and> \<not> io_writing S \<and>
    d_calls w2 = 2 \<and> ufs.more w2 = x \<and> cbdataValid (d_cb w2) (Some 9) = Some True"
proof -
  obtain w1 where w1: "storeUfsCreate (io_demo_os later) (io_demo x) 5 0 77 3 (Some 9) = Some (True, w1)" "d_calls w1 = 1" "ufs.more w1 = x"
    "cbdataValid (d_cb w1) (Some 9) = Some True"
    using io_demo_create [of later x] by (elim exE conjE)
  obtain S F where s: "io_stream w1 5 9 S F 0 [] []" using storeUfsCreate_stream [OF w1(1) io_demo_cb_ok(1,2)] by blast
  have posix': "posix (io_demo_os later)" by (rule io_demo_posix) (rule assms)
  have q: "f_write_q F = []" using s fd_pending_Nil by (auto simp: io_stream_def)
  have os: "os_write (io_demo_os later) (d_calls w1) (length [1, 2, 3 :: 8 word]) = Done 1" by (simp add: w1(2) io_demo_os_def)
  from storeWrite_ok [OF posix' s, of "[1, 2, 3]" None] q os obtain w2 S2 F2 file2 where
    r: "stream_after w1 5 9 S F 0 ([] @ [1, 2, 3]) DISK_OK w2 S2 F2 file2" "length file2 = 1" "\<not> io_writing S2" "d_calls w2 = d_calls w1 + 1"
      "storeWrite (io_demo_os later) closed w1 5 [1, 2, 3] None = Some w2" by auto
  obtain b where b: "file2 = [b]" using r(2) by (cases file2) auto
  have s2: "io_stream w2 5 9 S2 F2 0 [b] [1, 2, 3]" "ufs.more w2 = x" "cbdataValid (d_cb w2) (Some 9) = cbdataValid (d_cb w1) (Some 9)"
    using r(1) b w1(3) by (simp_all add: cbdataValid_def stream_after_def io_frame_def)
  have "io_step (io_demo_os later) closed 5 (w1, []) (w2, [] @ [1, 2, 3])"
    by (rule io_write [OF _ r(5)]) (use io_stream_alive [OF s2(1)] in simp_all)
  then have "io_step (io_demo_os later) closed 5 (w1, []) (w2, [1, 2, 3])" "d_calls w2 = 2" using r(4) w1(2) by simp_all
  moreover have "cbdataValid (d_cb w2) (Some 9) = Some True" using s2(3) w1(4) by simp
  ultimately show ?thesis using w1(1) s2(1,2) r(3)
    by (intro exI [of _ w1] exI [of _ w2] exI [of _ S2] exI [of _ F2] exI [of _ b] conjI)
qed

theorem swap_file_holds_what_was_written_witness:
  "\<exists>(w2 :: unit ufs_scheme) S F file. get_io w2 5 = Some S \<and> d_fds w2 (io_fd S) = Some F \<and>
     d_files w2 (f_path F) = Some file \<and> file @ fd_pending F = [1, 2, 3] \<and> fd_pending F \<noteq> []"
proof -
  obtain w1 w2 :: "unit ufs_scheme" and S F b where
    r: "storeUfsCreate (io_demo_os Done) (io_demo ()) 5 0 77 3 (Some 9) = Some (True, w1)" "io_step (io_demo_os Done) ignore_end 5 (w1, []) (w2, [1, 2, 3])"
      "io_stream w2 5 9 S F 0 [b] [1, 2, 3]"
    using io_demo_write [of Done "()" ignore_end] by auto
  have "posix (io_demo_os Done)" by (rule io_demo_posix) simp
  from swap_file_holds_what_was_written [OF this r(1) io_demo_cb_ok r_into_rtranclp [of "io_step (io_demo_os Done) ignore_end 5", OF r(2)]]
  obtain S' F' "file" where "get_io w2 5 = Some S'" "d_fds w2 (io_fd S') = Some F'" "d_files w2 (f_path F') = Some file"
    "file @ fd_pending F' = [1, 2, 3]" by blast
  moreover have "S' = S" "F' = F" using io_stream_alive [OF r(3)] r(3) calculation(1,2) by (auto simp: io_stream_def)
  moreover have "fd_pending F \<noteq> []" using r(3) by (auto simp: io_stream_def)
  ultimately show ?thesis by blast
qed

theorem waiting_bytes_reach_the_file_witness:
  "\<exists>(w3 :: unit ufs_scheme) path. d_files w3 path = Some [1, 2, 3] \<and> io_alive w3 5"
proof -
  obtain w1 w2 :: "unit ufs_scheme" and S F b where
    r: "storeUfsCreate (io_demo_os Done) (io_demo ()) 5 0 77 3 (Some 9) = Some (True, w1)" "io_step (io_demo_os Done) ignore_end 5 (w1, []) (w2, [1, 2, 3])"
      "d_calls w2 = 2"
    using io_demo_write [of Done "()" ignore_end] by auto
  have "posix (io_demo_os Done)" by (rule io_demo_posix) simp
  moreover have "\<forall>m. d_calls w2 \<le> m \<longrightarrow> takes_bytes (io_demo_os Done) m" using r(3) by (simp add: takes_bytes_def io_demo_os_def)
  ultimately show ?thesis
    using waiting_bytes_reach_the_file [OF _ r(1) io_demo_cb_ok(1,2) r_into_rtranclp [of "io_step (io_demo_os Done) ignore_end 5", OF r(2)]] by blast
qed

text \<open>A file number leaks when the file cannot be opened. \<open>storeUfsCreate\<close> allocates the number and sets its bit before
  it opens the file, and returns failure without clearing the bit: in the state after the failed creation
  the number, which was free, counts as in use, though no object has it and so nothing will release it.\<close>
theorem failed_create_leaks_number:
  assumes "u_dirs w dirn = Some D" "fm_ok (ui_map (ud_info D))" "0 \<le> ui_suggest (ud_info D)" "card (fm_set (ui_map (ud_info D))) < 2 ^ 24"
    "storeUfsCreate os w p dirn e cl data = Some (False, w1)"
  shows "\<exists>filn D1. filn \<notin> fm_set (ui_map (ud_info D)) \<and> u_dirs w1 dirn = Some D1 \<and> u_sio w1 = u_sio w \<and>
    fm_set (ui_map (ud_info D1)) = insert filn (fm_set (ui_map (ud_info D)))"
proof -
  obtain filn info where a: "storeUfsDirMapBitAllocate (ud_info D) = Some (filn, info)" "filn \<notin> fm_set (ui_map (ud_info D))"
    "fm_set (ui_map info) = insert filn (fm_set (ui_map (ud_info D)))"
    using ufs_allocate_ok [OF assms(2-4)] by blast
  define D1 where "D1 = D\<lparr>ud_info := info\<lparr>ui_suggest := filn + 1\<rparr>\<rparr>"
  have "\<exists>path fd. file_open os (put_dir w dirn D1) path \<lparr>o_access = O_WRONLY, o_creat = True, o_trunc = True, o_append = False\<rparr> = Some (fd, w1)"
    using assms(1,5) a(1) by (auto simp: storeUfsCreate_def D1_def Let_def bind_eq_Some_conv split: if_splits)
  then have "u_dirs w1 = u_dirs (put_dir w dirn D1) \<and> u_sio w1 = u_sio (put_dir w dirn D1)"
    using file_open_frame disk_more_eq by blast
  then show ?thesis using a(2,3) by (intro exI [of _ filn] exI [of _ D1]) (simp add: put_dir_def D1_def)
qed

theorem failed_create_leaks_number_witness:
  "\<exists>w w1 D D1 filn. storeUfsCreate \<lparr>os_open = \<lambda>_. Inr ENOSPC, os_write = \<lambda>_. Done, os_read = \<lambda>_. Done\<rparr> (w :: unit ufs_scheme) 5 0 77 3 None = Some (False, w1) \<and>
    u_dirs w 0 = Some D \<and> u_dirs w1 0 = Some D1 \<and> filn \<notin> fm_set (ui_map (ud_info D)) \<and> filn \<in> fm_set (ui_map (ud_info D1))"
proof -
  define D where "D = io_demo_dir\<lparr>ud_info := \<lparr>ui_map = file_map_create, ui_suggest = 0\<rparr>\<rparr>"
  define w where "w = (io_demo ())\<lparr>u_dirs := [0 \<mapsto> D]\<rparr>"
  let ?os = "\<lparr>os_open = \<lambda>_. Inr ENOSPC, os_write = \<lambda>_. Done, os_read = \<lambda>_. Done\<rparr>"
  have ok: "fm_ok (ui_map (ud_info D))" "0 \<le> ui_suggest (ud_info D)" "u_dirs w 0 = Some D"
    using file_map_create_ok by (simp_all add: D_def w_def)
  have "n_files_in_map file_map_create = 0" by (simp add: file_map_create_def Let_def)
  then have c: "card (fm_set (ui_map (ud_info D))) < 2 ^ 24" using ok(1) by (simp add: fm_ok_def D_def)
  obtain filn info where a: "storeUfsDirMapBitAllocate (ud_info D) = Some (filn, info)" using ufs_allocate_ok [OF ok(1,2) c] by blast
  obtain path where "storeUfsDirFullPath (D\<lparr>ud_info := info\<lparr>ui_suggest := filn + 1\<rparr>\<rparr>) filn = Some path"
    by (simp add: storeUfsDirFullPath_def D_def io_demo_dir_def)
  then obtain w1 where r: "storeUfsCreate ?os w 5 0 77 3 None = Some (False, w1)" using a ok(3)
    by (simp add: storeUfsCreate_def file_open_def Let_def)
  from failed_create_leaks_number [OF ok(3,1,2) c r] obtain f D1 where
    "f \<notin> fm_set (ui_map (ud_info D))" "u_dirs w1 0 = Some D1" "fm_set (ui_map (ud_info D1)) = insert f (fm_set (ui_map (ud_info D)))" by blast
  with r ok(3) show ?thesis by blast
qed

text \<open>The end of a stream, reported while blocks may be waiting.\<close>

text \<open>A caller that writes down the errors it is told of.\<close>

definition log_end :: "addr \<Rightarrow> addr option \<Rightarrow> int \<Rightarrow> addr \<Rightarrow> int list ufs_scheme \<Rightarrow> int list ufs_scheme option" where
  "log_end f data err p w = Some (ufs.more_update (\<lambda>errs. errs @ [err]) w)"

lemma more_frame:
  "d_fds (ufs.more_update g w) = d_fds w" "d_files (ufs.more_update g w) = d_files w" "d_cb (ufs.more_update g w) = d_cb w"
  "u_sio (ufs.more_update g w) = u_sio w" "u_dirs (ufs.more_update g w) = u_dirs w" "d_calls (ufs.more_update g w) = d_calls w"
  by (cases w; simp)+

lemma io_shut_ok:
  assumes "io_stream w p c S F n file bs" "d_fds w1 = d_fds w" "u_dirs w1 = u_dirs w" "io_fd S1 = io_fd S" "io_swap_dirn S1 = io_swap_dirn S"
  shows "\<exists>w2. io_shut w1 S1 = Some w2 \<and> d_files w2 = d_files w1 \<and> d_cb w2 = d_cb w1 \<and> d_calls w2 = d_calls w1 \<and> u_sio w2 = u_sio w1 \<and>
    d_fds w2 = (d_fds w)(io_fd S := (if f_write_q F = [] then None else Some (F\<lparr>f_close_request := True\<rparr>))) \<and>
    u_type w2 = u_type w1 \<and> u_repl w2 = u_repl w1 \<and> ufs.more w2 = ufs.more w1"
proof -
  have F: "F\<lparr>f_read := None\<rparr> = F" using assms(1) by (cases F) (simp add: io_stream_def)
  obtain D where D: "u_dirs w (io_swap_dirn S) = Some D" using assms(1) by (auto simp: io_stream_def)
  show ?thesis using assms F D
    by (auto simp: io_stream_def io_shut_def file_close_def fd_close_def put_fd_def put_dir_def)
qed

lemma io_forget_ok:
  assumes "cb_inv (d_cb w)" "u_sio w p = Some S" "io_callback_data S = Some c" "cb_mem (d_cb w) c = Some cc" "0 < c_locks cc" "c \<noteq> p"
    "cb_mem (d_cb w) p = Some cd" "c_valid cd"
  shows "\<exists>cb. io_forget w p = Some (put_io (w\<lparr>d_cb := cb\<rparr>) p (S\<lparr>io_callback_data := None, io_callback := None\<rparr>)) \<and> cb_inv cb \<and>
    cbdata_index cb = cbdata_index (d_cb w) \<and>
    cb_mem cb = (drop_lock (cb_mem (d_cb w)) c cc)(p := if c_locks cd \<noteq> 0 then Some (cd\<lparr>c_valid := False\<rparr>) else None)"
proof -
  from cbdataUnlock_ok [OF assms(1,4,5)] obtain cb where cb: "cbdataUnlock (d_cb w) (Some c) = Some cb" "cb_inv cb"
    "cbdata_index cb = cbdata_index (d_cb w)" "cb_mem cb = drop_lock (cb_mem (d_cb w)) c cc" by (auto simp: drop_lock_def)
  have "cb_mem cb p = Some cd" using cb(4) assms(6,7) by (simp add: drop_lock_def)
  from cbdataInternalFree_ok [OF cb(2) this assms(8)] obtain cb' where cb': "cbdataInternalFree cb p = Some cb'" "cb_inv cb'"
    "cbdata_index cb' = cbdata_index cb" "cb_mem cb' = (cb_mem cb)(p := if c_locks cd \<noteq> 0 then Some (cd\<lparr>c_valid := False\<rparr>) else None)" by auto
  have "io_forget w p = Some ((put_io (w\<lparr>d_cb := cb\<rparr>) p (S\<lparr>io_callback_data := None, io_callback := None\<rparr>))\<lparr>d_cb := cb'\<rparr>)"
    using assms(2,3,7) cb(1) cb'(1) by (simp add: io_forget_def get_io_def put_io_def)
  then show ?thesis using cb cb' by (intro exI [of _ cb']) (simp add: put_io_def)
qed

text \<open>What \<open>storeClose\<close> does when no write is believed to be under way.\<close>

lemma storeClose_stream:
  assumes s: "io_stream w p c S F n file bs" and "\<not> io_writing S" "f_write_q F \<noteq> []" "cb_mem (d_cb w) c = Some cc" "c_valid cc"
  shows "\<exists>w' cd'. storeClose log_end w p = Some w' \<and> ufs.more w' = ufs.more w @ [0] \<and> d_fds w' = (d_fds w)(io_fd S \<mapsto> F\<lparr>f_close_request := True\<rparr>) \<and>
    d_files w' = d_files w \<and> d_calls w' = d_calls w \<and> cb_inv (d_cb w') \<and> cb_mem (d_cb w') p = Some cd' \<and> \<not> c_valid cd' \<and> 0 < c_locks cd'"
proof -
  obtain cd y where f: "cb_inv (d_cb w)" "u_sio w p = Some S" "cb_mem (d_cb w) p = Some cd" "c_valid cd" "c_locks cd = int n + 1" "0 < c_locks cc" "c \<noteq> p"
    "io_callback S = Some y" "io_callback_data S = Some c" "\<not> io_closing S" "\<not> io_reading S"
    using s assms(3,4) by (auto simp: io_stream_def)
  define S1 where "S1 = S\<lparr>io_closing := True\<rparr>"
  define w1 where "w1 = put_io w p S1"
  obtain w2 where shut: "io_shut w1 S1 = Some w2" and w2: "d_files w2 = d_files w" "d_cb w2 = d_cb w" "d_calls w2 = d_calls w" "u_sio w2 = (u_sio w)(p \<mapsto> S1)"
    "d_fds w2 = (d_fds w)(io_fd S \<mapsto> F\<lparr>f_close_request := True\<rparr>)" "ufs.more w2 = ufs.more w"
    using io_shut_ok [OF s, of w1 S1] assms(3) by (auto simp: w1_def put_io_def S1_def)
  define w3 where "w3 = ufs.more_update (\<lambda>errs. errs @ [0]) w2"
  have w3: "d_cb w3 = d_cb w" "u_sio w3 p = Some S1" "d_fds w3 = d_fds w2" "d_files w3 = d_files w"
    "d_calls w3 = d_calls w" "ufs.more w3 = ufs.more w @ [0]"
    using w2 by (simp_all add: w3_def more_frame)
  obtain cb where cb: "io_forget w3 p = Some (put_io (w3\<lparr>d_cb := cb\<rparr>) p (S1\<lparr>io_callback_data := None, io_callback := None\<rparr>))" "cb_inv cb"
    "cb_mem cb p = Some (cd\<lparr>c_valid := False\<rparr>)"
    using io_forget_ok [of w3 p S1 c cc cd] f assms(4) w3(1,2) by (auto simp: S1_def)
  have "storeUfsIOCallback log_end w1 p 0 = io_forget w3 p"
    using f shut cbdataValid_ok [OF f(1) assms(4) f(6)] assms(5) w2(2)
    by (simp add: storeUfsIOCallback_def get_io_def w1_def put_io_def) (simp add: S1_def log_end_def w3_def)
  then have "storeClose log_end w p = Some (put_io (w3\<lparr>d_cb := cb\<rparr>) p (S1\<lparr>io_callback_data := None, io_callback := None\<rparr>))"
    using f assms(2) cb(1) by (simp add: storeClose_def storeUfsClose_def get_io_def w1_def S1_def put_io_def)
  then show ?thesis using w3 w2(5) cb(2,3) f(5) by (auto simp: put_io_def)
qed

text \<open>C9: An object can be reported as stored although it is not. \<open>storeUfsWriteDone\<close> clears \<open>writing\<close> after every attempt,
  also when blocks are still waiting in the queue, so that \<open>storeClose\<close> then reports the end with error 0 before the
  file is complete. If the system refuses the next write, as a full disk does after a short write, the waiting
  bytes are dropped and the descriptor is closed, and nobody is told: the \<open>storeIOState\<close> is no longer valid. The
  file stays truncated. The conclusion follows the source for a caller that writes down what it is told.\<close>
theorem close_reports_success_too_early:
  assumes "posix os" "storeUfsCreate os w p dirn e cl (Some c) = Some (True, w1)" "cb_inv (d_cb w)" "cb_mem (d_cb w) c \<noteq> None"
    "(io_step os log_end p)\<^sup>*\<^sup>* (w1, []) (w2, bs)" "get_io w2 p = Some S" "\<not> io_writing S" "d_fds w2 (io_fd S) = Some F"
    "f_write_q F \<noteq> []" "cb_mem (d_cb w2) c = Some cc" "c_valid cc" "refuses os (d_calls w2)"
  shows "\<exists>w3 w4 file. storeClose log_end w2 p = Some w3 \<and> ufs.more w3 = ufs.more w2 @ [0] \<and>
    write_ready os (write_handlers log_end) w3 (io_fd S) = Some w4 \<and> ufs.more w4 = ufs.more w3 \<and> d_fds w4 (io_fd S) = None \<and>
    d_files w4 (f_path F) = Some file \<and> file \<noteq> bs"
proof -
  from storeUfsCreate_stream [OF assms(2-4)] obtain S0 F0 where s0: "io_stream w1 p c S0 F0 0 [] []" by auto
  from io_steps_stream [OF assms(1,5) s0] obtain S' F' "file" where s': "io_stream w2 p c S' F' 0 file bs" by blast
  have eq: "S' = S" "F' = F" using io_stream_alive [OF s'] s' assms(6,8) by (auto simp: io_stream_def)
  note s = s' [unfolded eq]
  from storeClose_stream [OF s assms(7,9-11)] obtain w3 cd where
    w3: "storeClose log_end w2 p = Some w3" "ufs.more w3 = ufs.more w2 @ [0]" "d_fds w3 = (d_fds w2)(io_fd S \<mapsto> F\<lparr>f_close_request := True\<rparr>)"
      "d_files w3 = d_files w2" "d_calls w3 = d_calls w2" "cb_inv (d_cb w3)" "cb_mem (d_cb w3) p = Some cd" "\<not> c_valid cd" "0 < c_locks cd" by blast
  have F: "f_append F" "f_read F = None" "blocks_ok (f_write_q F)" "f_write_handler F" "f_wrt_handle F = Some WRITE_DONE" "f_wrt_handle_data F = Some p"
    "d_files w2 (f_path F) = Some file" "file @ fd_pending F = bs" "0 \<le> io_fd S" using s assms(9) by (auto simp: io_stream_def)
  define F3 where "F3 = F\<lparr>f_close_request := True, f_write_handler := False\<rparr>"
  define w0 where "w0 = put_fd w3 (io_fd S) F3"
  have F3: "d_fds w0 (io_fd S) = Some F3" "f_write_q F3 \<noteq> []" "blocks_ok (f_write_q F3)" "f_append F3" "d_files w0 (f_path F3) = Some file"
    "f_wrt_handle F3 = Some WRITE_DONE" "f_wrt_handle_data F3 = Some p" "\<not> f_write_handler F3" "cb_inv (d_cb w0)" "cb_mem (d_cb w0) p = Some cd"
    "refuses os (d_calls w0)" "f_close_request F3" "f_path F3 = f_path F" "f_read F3 = None" "ufs.more w0 = ufs.more w3"
    using F assms(9,12) w3 by (simp_all add: w0_def F3_def put_fd_def)
  from diskHandleWrite_ok [OF assms(1) F3(1-10) w3(9)] F3(11,12) w3(8) obtain w4 F4 file4 status len where
    p: "write_post w0 (io_fd S) F3 file p cd status len w4 F4 file4" "status \<noteq> DISK_OK"
      "diskHandleWrite os (write_handlers log_end) w0 (io_fd S) = file_close w4 (io_fd S)" by auto
  have F4: "F4 = F3\<lparr>f_pos := f_pos F4, f_write_q := f_write_q F4, f_write_handler := f_write_q F4 \<noteq> [], f_write_daemon := f_write_q F4 \<noteq> []\<rparr>"
    and m: "moved file (fd_pending F3) status len file4 (fd_pending F4)" "blocks_ok (f_write_q F4)"
    and w4: "d_fds w4 = (d_fds w0)(io_fd S \<mapsto> F4)" "d_files w4 = (d_files w0)(f_path F3 \<mapsto> file4)" "disk.more w4 = disk.more w0"
    using p(1) by (auto simp: write_post_def)
  have q: "f_write_q F4 = []" "file4 = file" using moved_failed [OF m(1) p(2)] fd_pending_Nil [OF m(2)] by auto
  have "\<not> f_write_daemon F4" "\<not> f_write_handler F4" using q(1) by (subst F4, simp)+
  then have "file_close w4 (io_fd S) = Some (w4\<lparr>d_fds := (d_fds w0)(io_fd S := None)\<rparr>)" using w4(1) F(9)
    by (simp add: file_close_def fd_close_def put_fd_def)
  moreover have "write_ready os (write_handlers log_end) w3 (io_fd S) = diskHandleWrite os (write_handlers log_end) w0 (io_fd S)"
    using w3(3) F(4) by (simp add: write_ready_def w0_def F3_def)
  ultimately have "write_ready os (write_handlers log_end) w3 (io_fd S) = Some (w4\<lparr>d_fds := (d_fds w0)(io_fd S := None)\<rparr>)" using p(3) by simp
  moreover have "fd_pending F \<noteq> []" using fd_pending_Nil [OF F(3)] assms(9) by simp
  then have "file \<noteq> bs" using F(8) by auto
  ultimately show ?thesis using w3(1,2) w4(2) q(2) F3(13,15) disk_more_eq(6) [OF w4(3)]
    by (intro exI [of _ w3] exI [of _ "w4\<lparr>d_fds := (d_fds w0)(io_fd S := None)\<rparr>"] exI [of _ "file"]) simp
qed

theorem close_reports_success_too_early_witness:
  "\<exists>w3 w4 fd path file. write_ready (io_demo_os (\<lambda>_. Failed ENOSPC)) (write_handlers log_end) w3 fd = Some w4 \<and>
     ufs.more w3 = [0] \<and> ufs.more w4 = [0] \<and> d_fds w4 fd = None \<and> d_files w4 path = Some file \<and> file \<noteq> [1, 2, 3]"
proof -
  let ?os = "io_demo_os (\<lambda>_. Failed ENOSPC)"
  obtain w1 w2 :: "int list ufs_scheme" and S F b where
    r: "storeUfsCreate ?os (io_demo []) 5 0 77 3 (Some 9) = Some (True, w1)" "io_step ?os log_end 5 (w1, []) (w2, [1, 2, 3])"
      "io_stream w2 5 9 S F 0 [b] [1, 2, 3]" "\<not> io_writing S" "d_calls w2 = 2" "ufs.more w2 = []"
      "cbdataValid (d_cb w2) (Some 9) = Some True"
    using io_demo_write [of "\<lambda>_. Failed ENOSPC" "[]" log_end] by auto
  have "posix ?os" by (rule io_demo_posix) simp
  moreover have "refuses ?os (d_calls w2)" using r(5) by (simp add: refuses_def io_demo_os_def)
  moreover have "f_write_q F \<noteq> []" "d_fds w2 (io_fd S) = Some F" using r(3) fd_pending_Nil [of F] by (auto simp: io_stream_def fd_pending_def)
  moreover have "get_io w2 5 = Some S" using io_stream_alive [OF r(3)] by simp
  moreover obtain cc where "cb_mem (d_cb w2) 9 = Some cc" "c_valid cc" using r(7) by (auto simp: cbdataValid_def bind_eq_Some_conv)
  ultimately show ?thesis
    using close_reports_success_too_early [OF _ r(1) io_demo_cb_ok(1,2) r_into_rtranclp [of "io_step ?os log_end 5", OF r(2)]] r(4,6) by fastforce
qed

subsection \<open>Names of swap files\<close>

definition hex_val :: "string \<Rightarrow> nat" where
  "hex_val t = foldl (\<lambda>a c. 16 * a + the (hexdigit_val c)) 0 t"

lemma hex_val_text: "hex_val (hex_text m) = m"
proof (induction m rule: hex_text.induct)
  case (1 m)
  show ?case
  proof (cases "m < 16")
    case True
    then show ?thesis by (simp add: hex_text.simps [of m] hex_val_def hexdigit_val_char)
  next
    case False
    have "the (hexdigit_val (hexdigit_char (m mod 16))) = m mod 16" by (simp add: hexdigit_val_char)
    then show ?thesis using False 1 by (simp add: hex_text.simps [of m] hex_val_def)
  qed
qed

lemma hex_val_zeros: "hex_val (replicate k (CHR ''0'') @ t) = hex_val t"
proof -
  have "the (hexdigit_val (CHR ''0'')) = 0" by code_simp
  then have "foldl (\<lambda>a c. 16 * a + the (hexdigit_val c)) 0 (replicate k (CHR ''0'')) = (0 :: nat)" by (induction k) simp_all
  then show ?thesis by (simp add: hex_val_def)
qed

lemma hex_text_length: "m < 16 ^ k \<Longrightarrow> 0 < k \<Longrightarrow> length (hex_text m) \<le> k"
proof (induction k arbitrary: m)
  case (Suc k)
  show ?case
  proof (cases "m < 16")
    case True
    then show ?thesis by (simp add: hex_text.simps [of m])
  next
    case False
    then have "0 < k" using Suc.prems(1) by (cases k) auto
    moreover have "m div 16 < 16 ^ k" using Suc.prems(1) by (simp add: less_mult_imp_div_less)
    ultimately show ?thesis using False Suc.IH by (simp add: hex_text.simps [of m])
  qed
qed simp

lemma fmt_X_8:
  shows "length (fmt_X w n) \<le> max w 8" "length (fmt_X 8 n) = 8" "0 \<le> n \<Longrightarrow> n < 2 ^ 32 \<Longrightarrow> hex_val (fmt_X 8 n) = nat n"
proof -
  have "nat (n mod 2 ^ 32) < 16 ^ 8" by (simp add: nat_less_iff)
  then have l: "length (hex_text (nat (n mod 2 ^ 32))) \<le> 8" by (rule hex_text_length) simp
  then show "length (fmt_X w n) \<le> max w 8" "length (fmt_X 8 n) = 8" by (auto simp: fmt_X_def Let_def)
  show "hex_val (fmt_X 8 n) = nat n" if "0 \<le> n" "n < 2 ^ 32"
    using that by (simp add: fmt_X_def Let_def hex_val_zeros hex_val_text)
qed

text \<open>Objects never share a swap file. Two different file numbers of a directory are stored under different names,
  for every layout of the subdirectories, also one in which both numbers fall into the same one, and the
  name is not cut off at the length limit for directories with a path of up to 220 characters.\<close>
theorem swap_file_names_distinct:
  assumes "m \<noteq> n" "0 \<le> m" "m < 2 ^ 32" "0 \<le> n" "n < 2 ^ 32" "length (ud_path D) \<le> 220" "ud_l1 D \<noteq> 0" "ud_l2 D \<noteq> 0"
  shows "\<exists>p q. storeUfsDirFullPath D m = Some p \<and> storeUfsDirFullPath D n = Some q \<and> p \<noteq> q"
proof -
  have name: "\<exists>pre. storeUfsDirFullPath D k = Some (pre @ fmt_X 8 k)" for k
  proof -
    define pre where "pre = ud_path D @ ''/'' @ fmt_X 2 (((k sdiv ud_l2 D) sdiv ud_l2 D) smod ud_l1 D) @ ''/'' @
        fmt_X 2 ((k sdiv ud_l2 D) smod ud_l2 D) @ ''/''"
    have "length pre \<le> 220 + 1 + 8 + 1 + 8 + 1"
      using assms(6) fmt_X_8(1) [of 2 "((k sdiv ud_l2 D) sdiv ud_l2 D) smod ud_l1 D"] fmt_X_8(1) [of 2 "(k sdiv ud_l2 D) smod ud_l2 D"]
      by (simp add: pre_def)
    then have "length (pre @ fmt_X 8 k) \<le> SQUID_MAXPATHLEN - 1" using fmt_X_8(2) [of k] by (simp add: SQUID_MAXPATHLEN_def)
    then show ?thesis using assms(7,8) by (intro exI [of _ pre]) (simp add: storeUfsDirFullPath_def pre_def)
  qed
  obtain a b where p: "storeUfsDirFullPath D m = Some (a @ fmt_X 8 m)" "storeUfsDirFullPath D n = Some (b @ fmt_X 8 n)" using name by blast
  have "fmt_X 8 m \<noteq> fmt_X 8 n" using fmt_X_8(3) [of m] fmt_X_8(3) [of n] assms(1-5) by auto
  then have "a @ fmt_X 8 m \<noteq> b @ fmt_X 8 n" using fmt_X_8(2) by (simp add: append_eq_append_conv)
  then show ?thesis using p by blast
qed

theorem swap_file_names_distinct_witness:
  "\<exists>p q. storeUfsDirFullPath io_demo_dir 1 = Some p \<and> storeUfsDirFullPath io_demo_dir 16777215 = Some q \<and> p \<noteq> q"
  by (rule swap_file_names_distinct) (simp_all add: io_demo_dir_def)

end
