(* ===== verification/StoreWrite.thy ===== *)
theory StoreWrite
  imports StoreClient StorePublish UfsIo
begin

section \<open>Writing objects (store.c, store_swapout.c)\<close>

text \<open>
  An object arrives from a server: \<open>storeAppend\<close> puts its bytes in memory, serves the clients
  that wait, and lets \<open>storeSwapOut\<close> pass full pages to the swap file; \<open>storeComplete\<close> passes
  the rest and closes the file; \<open>storeAbort\<close> and \<open>storeRequestFailed\<close> give the object up.

  The storage system is called through the pointers of the cache directory; they are the
  fields of \<open>swap_fs\<close>, as functions on its state \<open>'f\<close> and the store, because a write can fail
  at once and then changes the entry. A close is an event of the store, as in \<open>SwapOut\<close>. The
  other fields are the globals and functions of parts that are not modelled: the size limit
  \<open>store_maxobjsize\<close>, the pages in use, the limit of them and the entries that the memory
  policy gives up, in its order.

  The page \<open>swapout.memnode\<close> that was passed last is named by the object offset of its first
  byte. If it was freed, the access to its successor is the invalid access that it is in C.
\<close>

subsection \<open>Parameters\<close>

record 'f swap_fs =
  fs_create :: "'f \<Rightarrow> store \<Rightarrow> addr \<Rightarrow> (storeIOState option \<times> 'f \<times> store) option"
  fs_write :: "'f \<Rightarrow> store \<Rightarrow> addr \<Rightarrow> 8 word list \<Rightarrow> ('f \<times> store) option"
  fs_reopen :: "StoreEntry \<Rightarrow> storeIOState option"
  store_maxobjsize :: int
  memInUse :: "store \<Rightarrow> int"
  store_pages_max :: int
  mem_walker :: "store \<Rightarrow> addr list"

subsection \<open>Deferring and resuming the server side\<close>

definition storeDeferRead :: "store \<Rightarrow> addr \<Rightarrow> int \<Rightarrow> store option" where
  "storeDeferRead s a fd = do {
     e \<leftarrow> s_entries s a;
     let e = flag_set e ENTRY_DEFER_READ;
     if 0 \<le> fd
     then do {
       mem \<leftarrow> e_mem_obj e;
       Some (put_event (put_mem s a e (mem\<lparr>mem_serverfd := fd\<rparr>)) (CommDeferFD fd)) }
     else Some (put_entry s a e) }"

definition storeResetDefer :: "store \<Rightarrow> addr \<Rightarrow> store option" where
  "storeResetDefer s a = do {
     e \<leftarrow> s_entries s a;
     let e = flag_clr e ENTRY_DEFER_READ;
     Some (case e_mem_obj e of
             None \<Rightarrow> put_entry s a e
           | Some mem \<Rightarrow> put_mem s a e (mem\<lparr>mem_serverfd := - 1\<rparr>)) }"

text \<open>\<open>fwdCheckDeferRead\<close> of forward.c, in the build without delay pools.\<close>

definition fwdCheckDeferRead :: "store \<Rightarrow> addr \<Rightarrow> int \<Rightarrow> (bool \<times> store) option" where
  "fwdCheckDeferRead s a fd = do {
     e \<leftarrow> s_entries s a;
     case e_mem_obj e of
       None \<Rightarrow> Some (False, s)
     | Some mem \<Rightarrow>
         if has_flag e ENTRY_DEFER_READ then Some (True, put_event s (CommDeferFD (mem_serverfd mem)))
         else if has_flag e ENTRY_FWD_HDR_WAIT then Some (False, s)
         else if (has_flag e RELEASE_REQUEST \<and> 0 \<le> fd \<and>
                  int SM_PAGE_SIZE + maxInMemObjSize (s_config s) + readAheadGap (s_config s) < mem_inmem_hi mem - mem_inmem_lo mem) \<or>
                 (0 \<le> fd \<and> readAheadGap (s_config s) < mem_inmem_hi mem - storeLowestMemReaderOffset mem)
         then do { s \<leftarrow> storeDeferRead s a fd; Some (True, s) }
         else Some (False, s) }"

subsection \<open>Giving an object up\<close>

definition storeRegisterAbort :: "store \<Rightarrow> addr \<Rightarrow> addr \<Rightarrow> addr option \<Rightarrow> store option" where
  "storeRegisterAbort s a cb data = do {
     e \<leftarrow> s_entries s a;
     mem \<leftarrow> e_mem_obj e;
     c_assert (mem_abort mem = None);
     Some (put_mem s a e (mem\<lparr>mem_abort := Some (cb, data)\<rparr>)) }"

definition storeUnregisterAbort :: "store \<Rightarrow> addr \<Rightarrow> store option" where
  "storeUnregisterAbort s a = do {
     e \<leftarrow> s_entries s a;
     mem \<leftarrow> e_mem_obj e;
     Some (put_mem s a e (mem\<lparr>mem_abort := None\<rparr>)) }"

definition storeAbort :: "nat \<Rightarrow> (StoreEntry \<Rightarrow> storeIOState option) \<Rightarrow> store \<Rightarrow> addr \<Rightarrow> store option" where
  "storeAbort n fs_open s a = do {
     e \<leftarrow> s_entries s a;
     c_assert (e_store_status e = STORE_PENDING);
     mem \<leftarrow> e_mem_obj e;
     s \<leftarrow> storeLockObject s a;
     s \<leftarrow> storeExpireNow s a;
     s \<leftarrow> storeReleaseRequest s a;
     e \<leftarrow> s_entries s a;
     s \<leftarrow> storeSetMemStatus (put_entry s a (flag_set e ENTRY_ABORTED)) a NOT_IN_MEMORY;
     e \<leftarrow> s_entries s a;
     mem \<leftarrow> e_mem_obj e;
     let e = e\<lparr>e_store_status := STORE_OK\<rparr>;
     let mem = mem\<lparr>mem_object_sz := mem_inmem_hi mem\<rparr>;
     let s = (case mem_abort mem of
                None \<Rightarrow> put_mem s a e mem
              | Some _ \<Rightarrow> put_event (put_mem s a e (mem\<lparr>mem_abort := None\<rparr>)) (EventAdd ''mem->abort.callback'' 0));
     s \<leftarrow> InvokeHandlers fs_open s a;
     s \<leftarrow> storeSwapOutFileClose s a;
     storeUnlockObject n s a }"

text \<open>\<open>append_err\<close> is \<open>errorAppendEntry\<close> with the error, if one is given.\<close>

definition storeRequestFailed ::
  "nat \<Rightarrow> (StoreEntry \<Rightarrow> storeIOState option) \<Rightarrow> (store \<Rightarrow> addr \<Rightarrow> store option) option \<Rightarrow> store \<Rightarrow> addr \<Rightarrow> store option" where
  "storeRequestFailed n fs_open append_err s a = do {
     e \<leftarrow> s_entries s a;
     c_assert (e_store_status e = STORE_PENDING);
     mem \<leftarrow> e_mem_obj e;
     s \<leftarrow> storeLockObject s a;
     s \<leftarrow> storeExpireNow s a;
     s \<leftarrow> storeReleaseRequest s a;
     s \<leftarrow> storeSetMemStatus s a NOT_IN_MEMORY;
     e \<leftarrow> s_entries s a;
     mem \<leftarrow> e_mem_obj e;
     s \<leftarrow> (if mem_inmem_hi mem = 0 then do { f \<leftarrow> append_err; f s a }
           else Some (put_entry s a (flag_clr (flag_set e ENTRY_ABORTED) ENTRY_FWD_HDR_WAIT)));
     e \<leftarrow> s_entries s a;
     mem \<leftarrow> e_mem_obj e;
     let s = put_mem s a (e\<lparr>e_store_status := STORE_OK\<rparr>) (mem\<lparr>mem_object_sz := mem_inmem_hi mem\<rparr>);
     s \<leftarrow> InvokeHandlers fs_open s a;
     s \<leftarrow> storeSwapOutFileClose s a;
     storeUnlockObject n s a }"

text \<open>The object's data are dropped and the reply starts anew; the page accounting is updated.\<close>

definition storeEntryReset :: "store \<Rightarrow> addr \<Rightarrow> store option" where
  "storeEntryReset s a = do {
     e \<leftarrow> s_entries s a;
     mem \<leftarrow> e_mem_obj e;
     c_assert (mem_sio mem = None);
     (hdr, sz, _) \<leftarrow> Some (stmemFree (mem_data_hdr mem) (s_mem_size s));
     Some ((put_mem s a (e\<lparr>e_expires := - 1, e_lastmod := - 1, e_timestamp := - 1\<rparr>)
             (mem\<lparr>mem_data_hdr := hdr, mem_inmem_hi := 0, mem_inmem_lo := 0, mem_reply := httpReplyCreate\<rparr>))\<lparr>s_mem_size := sz\<rparr>) }"

subsection \<open>Starting to swap out\<close>

definition storeSwapOutStart :: "'f swap_fs \<Rightarrow> 'f \<Rightarrow> store \<Rightarrow> addr \<Rightarrow> ('f \<times> store) option" where
  "storeSwapOutStart fs f s a = do {
     e \<leftarrow> s_entries s a;
     mem \<leftarrow> e_mem_obj e;
     let e = e\<lparr>e_swap_status := SWAPOUT_WRITING\<rparr>;
     key \<leftarrow> link_key (s_links s) a;
     tlv_list \<leftarrow> storeSwapMetaBuild key e;
     (buf, swap_hdr_sz) \<leftarrow> storeSwapMetaPack tlv_list;
     (sio, f, s) \<leftarrow> fs_create fs f (put_mem s a e (mem\<lparr>mem_swap_hdr_sz := swap_hdr_sz\<rparr>)) a;
     e \<leftarrow> s_entries s a;
     mem \<leftarrow> e_mem_obj e;
     case sio of
       None \<Rightarrow> Some (f, put_event (put_entry s a (e\<lparr>e_swap_status := SWAPOUT_NONE\<rparr>)) (StoreLogSwapoutFail a))
     | Some sio \<Rightarrow> do {
         s \<leftarrow> storeLockObject (put_mem s a e (mem\<lparr>mem_sio := Some sio\<rparr>)) a;
         e \<leftarrow> s_entries s a;
         fs_write fs f (put_entry s a (e\<lparr>e_swap_filen := sio_swap_filen sio, e_swap_dirn := sio_swap_dirn sio\<rparr>)) a buf } }"

definition storeSwapOutFileNotify :: "store \<Rightarrow> addr \<Rightarrow> int \<Rightarrow> storeIOState \<Rightarrow> store option" where
  "storeSwapOutFileNotify s a errflag sio = do {
     e \<leftarrow> s_entries s a;
     c_assert (e_swap_status e = SWAPOUT_WRITING);
     mem \<leftarrow> e_mem_obj e;
     c_assert (mem_sio mem = Some sio);
     c_assert (errflag = 0);
     Some (put_entry s a (e\<lparr>e_swap_filen := sio_swap_filen sio, e_swap_dirn := sio_swap_dirn sio\<rparr>)) }"

subsection \<open>Passing pages to the file\<close>

text \<open>The page that starts at an offset, with the first at \<open>cur\<close>.\<close>

fun node_at :: "mem_node list \<Rightarrow> int \<Rightarrow> int \<Rightarrow> mem_node option" where
  "node_at [] cur off = None"
| "node_at (p # ps) cur off = (if cur = off then Some p else node_at ps (cur + int (n_len p)) off)"

text \<open>The next page to swap out: the head, or the successor of \<open>memnode\<close>.\<close>

definition next_memnode :: "MemObject \<Rightarrow> (int \<times> mem_node) option" where
  "next_memnode mem = do {
     let hdr = mem_data_hdr mem;
     off \<leftarrow> (case mem_memnode mem of
               None \<Rightarrow> Some (origin_offset hdr)
             | Some b \<Rightarrow> do { p \<leftarrow> node_at (m_nodes hdr) (origin_offset hdr) b; Some (b + int (n_len p)) });
     p \<leftarrow> node_at (m_nodes hdr) (origin_offset hdr) off;
     Some (off, p) }"

text \<open>The body of the loop: one page is taken and written.\<close>

definition swap_page :: "'f swap_fs \<Rightarrow> 'f \<Rightarrow> store \<Rightarrow> addr \<Rightarrow> ('f \<times> store) option" where
  "swap_page fs f s a = do {
     e \<leftarrow> s_entries s a;
     mem \<leftarrow> e_mem_obj e;
     (off, p) \<leftarrow> next_memnode mem;
     let swap_buf_len = n_len p;
     c_assert (0 < swap_buf_len);
     let mem = mem\<lparr>mem_memnode := Some off, mem_queue_offset := mem_queue_offset mem + int swap_buf_len\<rparr>;
     fs_write fs f (put_mem s a e mem) a (bytes_of_string (fst (stmemNodeGet p))) }"

partial_function (option) swap_loop :: "'f swap_fs \<Rightarrow> 'f \<Rightarrow> store \<Rightarrow> addr \<Rightarrow> ('f \<times> store) option" where
  "swap_loop fs f s a = do {
     (f, s) \<leftarrow> swap_page fs f s a;
     e \<leftarrow> s_entries s a;
     mem \<leftarrow> e_mem_obj e;
     if e_swap_status e \<noteq> SWAPOUT_WRITING then Some (f, s)
     else do {
       let swapout_size = mem_inmem_hi mem - mem_queue_offset mem;
       if e_store_status e = STORE_PENDING \<and> swapout_size < int SM_PAGE_SIZE then Some (f, s)
       else if 0 < swapout_size then swap_loop fs f s a else Some (f, s) } }"

text \<open>The end of \<open>storeSwapOut\<close>: all data were given to the file system.\<close>

definition swap_finish :: "store \<Rightarrow> addr \<Rightarrow> store option" where
  "swap_finish s a = do {
     e \<leftarrow> s_entries s a;
     mem \<leftarrow> e_mem_obj e;
     if mem_sio mem = None then Some s
     else if e_store_status e = STORE_OK
     then do { c_assert (mem_inmem_hi mem = mem_queue_offset mem); storeSwapOutFileClose s a }
     else Some s }"

text \<open>From the point where there is something to swap out.\<close>

definition swap_data :: "'f swap_fs \<Rightarrow> 'f \<Rightarrow> store \<Rightarrow> addr \<Rightarrow> ('f \<times> store) option" where
  "swap_data fs f s a = do {
     e \<leftarrow> s_entries s a;
     mem \<leftarrow> e_mem_obj e;
     (go, f, s) \<leftarrow>
       (if e_swap_status e = SWAPOUT_NONE \<and> \<not> has_flag e ENTRY_FWD_HDR_WAIT
        then do {
          c_assert (mem_sio mem = None);
          c_assert (mem_inmem_lo mem = 0);
          (cachable, s) \<leftarrow> storeCheckCachable s a;
          if cachable then do { (f, s) \<leftarrow> storeSwapOutStart fs f s a; Some (True, f, s) }
          else do { (_, s) \<leftarrow> storeSwapOutMaintainMemObject s a; Some (False, f, s) } }
        else Some (True, f, s));
     e \<leftarrow> s_entries s a;
     mem \<leftarrow> e_mem_obj e;
     if \<not> go \<or> mem_sio mem = None then Some (f, s)
     else do {
       (f, s) \<leftarrow> swap_loop fs f s a;
       s \<leftarrow> swap_finish s a;
       Some (f, s) } }"

definition storeSwapOut :: "'f swap_fs \<Rightarrow> 'f \<Rightarrow> store \<Rightarrow> addr \<Rightarrow> ('f \<times> store) option" where
  "storeSwapOut fs f s a = do {
     e \<leftarrow> s_entries s a;
     case e_mem_obj e of
       None \<Rightarrow> Some (f, s)
     | Some mem \<Rightarrow>
         if has_flag e ENTRY_ABORTED
         then do { c_assert (has_flag e RELEASE_REQUEST); s \<leftarrow> storeSwapOutFileClose s a; Some (f, s) }
         else if has_flag e ENTRY_SPECIAL then Some (f, s)
         else do {
           c_assert (mem_queue_offset mem \<le> mem_inmem_hi mem);
           let swapout_size = mem_inmem_hi mem - mem_queue_offset mem;
           if e_store_status e \<noteq> STORE_OK \<and> swapout_size < store_maxobjsize fs then Some (f, s)
           else do {
             (swapout_able, s) \<leftarrow> storeSwapOutMaintainMemObject s a;
             if swapout_able = 0 then Some (f, s)
             else do {
               e \<leftarrow> s_entries s a;
               if swapout_size = 0
               then (if e_store_status e = STORE_OK then do { s \<leftarrow> storeSwapOutFileClose s a; Some (f, s) } else Some (f, s))
               else if e_store_status e = STORE_PENDING \<and> swapout_size < int SM_PAGE_SIZE then Some (f, s)
               else if e_store_status e = STORE_PENDING \<and> storeTooManyDiskFilesOpen s
               then do {
                 (deferred, s) \<leftarrow> fwdCheckDeferRead s a (- 1);
                 if \<not> deferred then Some (f, s) else swap_data fs f s a }
               else swap_data fs f s a } } } }"

subsection \<open>Appending and completing\<close>

text \<open>\<open>storeGetMemSpace\<close>: entries are purged from memory until enough pages are free. \<open>last_check\<close> is the
  static variable of the function; the result has its new value.\<close>

fun purge_mem_loop :: "nat \<Rightarrow> 'f swap_fs \<Rightarrow> int \<Rightarrow> addr list \<Rightarrow> store \<Rightarrow> store option" where
  "purge_mem_loop n fs pages_needed [] s = Some s"
| "purge_mem_loop n fs pages_needed (b # bs) s = do {
     s \<leftarrow> storePurgeMem n s b;
     if memInUse fs s + pages_needed < store_pages_max fs then Some s
     else purge_mem_loop n fs pages_needed bs s }"

definition storeGetMemSpace :: "nat \<Rightarrow> 'f swap_fs \<Rightarrow> int \<Rightarrow> store \<Rightarrow> nat \<Rightarrow> (int \<times> store) option" where
  "storeGetMemSpace n fs last_check s sz =
     (if s_curtime s = last_check then Some (last_check, s)
      else let pages_needed = int (sz div SM_PAGE_SIZE) + 1
           in if memInUse fs s + pages_needed < store_pages_max fs then Some (s_curtime s, s)
              else do { s' \<leftarrow> purge_mem_loop n fs pages_needed (mem_walker fs s) s; Some (s_curtime s, s') })"

definition storeAppend :: "nat \<Rightarrow> 'f swap_fs \<Rightarrow> int \<Rightarrow> 'f \<Rightarrow> store \<Rightarrow> addr \<Rightarrow> string \<Rightarrow> (int \<times> 'f \<times> store) option" where
  "storeAppend n fs last_check f s a buf = do {
     e \<leftarrow> s_entries s a;
     mem \<leftarrow> e_mem_obj e;
     c_assert (e_store_status e = STORE_PENDING);
     let s = put_mem s a e (mem\<lparr>mem_refresh_timestamp := s_curtime s\<rparr>);
     (last_check, s) \<leftarrow>
       (if buf \<noteq> []
        then do {
          (last_check, s) \<leftarrow> storeGetMemSpace n fs last_check s (length buf);
          e \<leftarrow> s_entries s a;
          mem \<leftarrow> e_mem_obj e;
          let (hdr, sz) = stmemAppend (mem_data_hdr mem) buf (s_mem_size s);
          Some (last_check, (put_mem s a e (mem\<lparr>mem_data_hdr := hdr, mem_inmem_hi := mem_inmem_hi mem + int (length buf)\<rparr>))
                  \<lparr>s_mem_size := sz\<rparr>) }
        else Some (last_check, s));
     e \<leftarrow> s_entries s a;
     if has_flag e DELAY_SENDING then Some (last_check, f, s)
     else do {
       s \<leftarrow> InvokeHandlers (fs_reopen fs) s a;
       (f, s) \<leftarrow> storeSwapOut fs f s a;
       Some (last_check, f, s) } }"

definition storeBuffer :: "store \<Rightarrow> addr \<Rightarrow> store option" where
  "storeBuffer s a = do { e \<leftarrow> s_entries s a; Some (put_entry s a (flag_set e DELAY_SENDING)) }"

definition storeBufferFlush :: "'f swap_fs \<Rightarrow> 'f \<Rightarrow> store \<Rightarrow> addr \<Rightarrow> ('f \<times> store) option" where
  "storeBufferFlush fs f s a = do {
     e \<leftarrow> s_entries s a;
     if has_flag e DELAY_SENDING
     then do {
       s \<leftarrow> InvokeHandlers (fs_reopen fs) (put_entry s a (flag_clr e DELAY_SENDING)) a;
       storeSwapOut fs f s a }
     else Some (f, s) }"

definition storeComplete :: "'f swap_fs \<Rightarrow> 'f \<Rightarrow> store \<Rightarrow> addr \<Rightarrow> ('f \<times> store) option" where
  "storeComplete fs f s a = do {
     e \<leftarrow> s_entries s a;
     mem \<leftarrow> e_mem_obj e;
     if e_store_status e \<noteq> STORE_PENDING
     then do {
       c_assert (has_flag e ENTRY_ABORTED);
       c_assert (mem_nclients mem = 0);
       Some (f, s) }
     else do {
       let s = put_mem s a (e\<lparr>e_store_status := STORE_OK\<rparr>) (mem\<lparr>mem_object_sz := mem_inmem_hi mem\<rparr>);
       c_assert (e_mem_status e = NOT_IN_MEMORY);
       e \<leftarrow> s_entries s a;
       valid \<leftarrow> storeEntryValidLength e;
       s \<leftarrow> (if valid then Some s else storeReleaseRequest (put_entry s a (flag_set e ENTRY_BAD_LENGTH)) a);
       e \<leftarrow> s_entries s a;
       mem \<leftarrow> e_mem_obj e;
       let s = put_mem s a e (mem\<lparr>mem_refresh_timestamp := 0\<rparr>);
       s \<leftarrow> (case mem_old_entry mem of
               None \<Rightarrow> Some s
             | Some b \<Rightarrow> do {
                 old \<leftarrow> s_entries s b;
                 Some (case e_mem_obj old of
                         None \<Rightarrow> s
                       | Some m \<Rightarrow> put_mem s b old (m\<lparr>mem_refresh_timestamp := 0\<rparr>)) });
       (f, s) \<leftarrow> storeSwapOut fs f s a;
       s \<leftarrow> InvokeHandlers (fs_reopen fs) s a;
       Some (f, s) } }"

subsection \<open>Queries\<close>

definition contentLen :: "StoreEntry \<Rightarrow> int option" where
  "contentLen e = do { mem \<leftarrow> e_mem_obj e; Some (mem_object_sz mem - rep_hdr_sz (mem_reply mem)) }"

definition storeEntryReply :: "StoreEntry option \<Rightarrow> HttpReply option" where
  "storeEntryReply e = do { e \<leftarrow> e; mem \<leftarrow> e_mem_obj e; Some (mem_reply mem) }"

subsection \<open>Pages by their offset\<close>

lemma node_at_split:
  assumes "\<forall>p \<in> set ps. 0 < n_len p"
  shows "node_at ps cur off = Some p \<longleftrightarrow> (\<exists>us vs. ps = us @ p # vs \<and> off = cur + int (length (concat (map n_data us))))"
  using assms
proof (induction ps arbitrary: cur)
  case (Cons x xs)
  show ?case
  proof (cases "cur = off")
    case True
    have "off \<noteq> cur + int (length (concat (map n_data us)))" if us: "x # xs = us @ p # vs" "us \<noteq> []" for us vs
    proof -
      obtain us' where "us = x # us'" using us by (cases us) auto
      moreover have "0 < n_len x" using Cons.prems by simp
      ultimately have "0 < length (concat (map n_data us))" by simp
      then show ?thesis using True by linarith
    qed
    then show ?thesis using True by (auto simp: Cons_eq_append_conv)
  next
    case False
    then have "node_at (x # xs) cur off = Some p \<longleftrightarrow>
        (\<exists>us vs. xs = us @ p # vs \<and> off = cur + int (n_len x) + int (length (concat (map n_data us))))" using Cons by simp
    also have "\<dots> \<longleftrightarrow> (\<exists>us vs. x # xs = us @ p # vs \<and> off = cur + int (length (concat (map n_data us))))"
    proof (intro iffI; elim exE conjE)
      fix us vs assume "xs = us @ p # vs" "off = cur + int (n_len x) + int (length (concat (map n_data us)))"
      then show "\<exists>us vs. x # xs = us @ p # vs \<and> off = cur + int (length (concat (map n_data us)))"
        by (intro exI [of _ "x # us"] exI [of _ vs]) simp
    next
      fix us vs assume a: "x # xs = us @ p # vs" "off = cur + int (length (concat (map n_data us)))"
      then obtain us' where "us = x # us'" using False by (cases us) auto
      then show "\<exists>us vs. xs = us @ p # vs \<and> off = cur + int (n_len x) + int (length (concat (map n_data us)))"
        using a by (intro exI [of _ us'] exI [of _ vs]) simp
    qed
    finally show ?thesis .
  qed
qed simp

text \<open>The object \<open>D\<close> as far as it arrived: memory holds it from \<open>inmem_lo\<close> on.\<close>

definition data_ok :: "MemObject \<Rightarrow> string \<Rightarrow> bool" where
  "data_ok mem D \<longleftrightarrow> mem_hdr_wf (mem_data_hdr mem) \<and> origin_offset (mem_data_hdr mem) = mem_inmem_lo mem \<and> 0 \<le> mem_inmem_lo mem \<and>
     mem_bytes (mem_data_hdr mem) = drop (nat (mem_inmem_lo mem)) D \<and> mem_inmem_lo mem \<le> int (length D) \<and> mem_inmem_hi mem = int (length D)"

text \<open>Where the swap-out stands: behind the page \<open>memnode\<close>, which is still in memory. While data arrive it is a full page.\<close>

definition queue_ok :: "bool \<Rightarrow> MemObject \<Rightarrow> bool" where
  "queue_ok pending mem \<longleftrightarrow>
     (case mem_memnode mem of
        None \<Rightarrow> mem_queue_offset mem = 0 \<and> mem_inmem_lo mem = 0
      | Some b \<Rightarrow> (\<exists>p. node_at (m_nodes (mem_data_hdr mem)) (mem_inmem_lo mem) b = Some p \<and> mem_queue_offset mem = b + int (n_len p) \<and>
          (pending \<longrightarrow> n_len p = SM_PAGE_SIZE)))"

lemma mem_hdr_wf_pos: "mem_hdr_wf hdr \<Longrightarrow> \<forall>p \<in> set (m_nodes hdr). 0 < n_len p"
  by (simp add: mem_hdr_wf_def)

text \<open>The page behind \<open>us\<close>.\<close>

lemma page_data:
  assumes "data_ok mem D" "m_nodes (mem_data_hdr mem) = us @ p # vs"
    "q = mem_inmem_lo mem + int (length (concat (map n_data us)))"
  shows "0 \<le> q" "n_data p = take (n_len p) (drop (nat q) D)" "q + int (n_len p) \<le> int (length D)" "0 < n_len p" "n_len p \<le> SM_PAGE_SIZE"
    "int SM_PAGE_SIZE \<le> int (length D) - q \<Longrightarrow> n_len p = SM_PAGE_SIZE"
    "vs = [] \<longleftrightarrow> q + int (n_len p) = int (length D)"
proof -
  let ?lo = "mem_inmem_lo mem" and ?c = "concat (map n_data us)"
  have d: "concat (map n_data us) @ n_data p @ concat (map n_data vs) = drop (nat ?lo) D" "0 \<le> ?lo" "?lo \<le> int (length D)"
    using assms(1,2) by (simp_all add: data_ok_def mem_bytes_def)
  have l: "length ?c + n_len p + length (concat (map n_data vs)) = length D - nat ?lo" using arg_cong [OF d(1), of length] by simp
  have q: "nat q = nat ?lo + length ?c" using assms(3) d(2) by simp
  have "drop (nat q) D = drop (length ?c) (drop (nat ?lo) D)" using q by (simp add: add.commute)
  also have "\<dots> = n_data p @ concat (map n_data vs)" by (simp flip: d(1))
  finally show "n_data p = take (n_len p) (drop (nat q) D)" by simp
  show "0 \<le> q" using assms(3) d(2) by simp
  show "q + int (n_len p) \<le> int (length D)" using l d(2,3) assms(3) by linarith
  have wf: "\<forall>x \<in> set (us @ p # vs). 0 < n_len x \<and> n_len x \<le> SM_PAGE_SIZE" "\<forall>x \<in> set (butlast (us @ p # vs)). n_len x = SM_PAGE_SIZE"
    using assms(1,2) by (auto simp: data_ok_def mem_hdr_wf_def)
  show "0 < n_len p" "n_len p \<le> SM_PAGE_SIZE" using wf(1) by auto
  have v: "vs = [] \<longleftrightarrow> concat (map n_data vs) = []" using wf(1) by (cases vs) auto
  show last: "vs = [] \<longleftrightarrow> q + int (n_len p) = int (length D)"
  proof -
    have "length (concat (map n_data vs)) = 0 \<longleftrightarrow> q + int (n_len p) = int (length D)" using l d(2,3) assms(3) by linarith
    then show ?thesis using v by simp
  qed
  show "n_len p = SM_PAGE_SIZE" if "int SM_PAGE_SIZE \<le> int (length D) - q"
  proof (cases "vs = []")
    case True
    then show ?thesis using last that wf(1) by auto
  next
    case False
    then have "p \<in> set (butlast (us @ p # vs))" by (simp add: butlast_append)
    then show ?thesis using wf(2) by blast
  qed
qed

text \<open>The next page is there, and starts where the last one ended.\<close>

lemma next_memnode_ok:
  assumes d: "data_ok mem D" and "queue_ok pending mem" "mem_queue_offset mem < int (length D)"
  shows "\<exists>p us vs. next_memnode mem = Some (mem_queue_offset mem, p) \<and> m_nodes (mem_data_hdr mem) = us @ p # vs \<and>
    mem_queue_offset mem = mem_inmem_lo mem + int (length (concat (map n_data us)))"
proof -
  let ?ns = "m_nodes (mem_data_hdr mem)" and ?lo = "mem_inmem_lo mem"
  have pos: "\<forall>p \<in> set ?ns. 0 < n_len p" and o: "origin_offset (mem_data_hdr mem) = ?lo" using d mem_hdr_wf_pos by (auto simp: data_ok_def)
  show ?thesis
  proof (cases "mem_memnode mem")
    case None
    then have q: "mem_queue_offset mem = 0" "?lo = 0" using assms(2) by (simp_all add: queue_ok_def)
    then have "mem_bytes (mem_data_hdr mem) \<noteq> []" using d assms(3) by (simp add: data_ok_def)
    then obtain p vs where "?ns = p # vs" by (cases ?ns) (auto simp: mem_bytes_def)
    then show ?thesis using None q o by (intro exI [of _ p] exI [of _ "[]"] exI [of _ vs]) (simp add: next_memnode_def Let_def)
  next
    case (Some b)
    then obtain p0 where p0: "node_at ?ns ?lo b = Some p0" "mem_queue_offset mem = b + int (n_len p0)" using assms(2) by (auto simp: queue_ok_def)
    then obtain us vs where n: "?ns = us @ p0 # vs" "b = ?lo + int (length (concat (map n_data us)))" using node_at_split [OF pos] by blast
    then have "vs \<noteq> []" using page_data(7) [OF d n] p0(2) assms(3) by auto
    then obtain p vs' where vs: "vs = p # vs'" by (cases vs) auto
    have s: "?ns = (us @ [p0]) @ p # vs'" "mem_queue_offset mem = ?lo + int (length (concat (map n_data (us @ [p0]))))" using n vs p0(2) by simp_all
    then have "node_at ?ns ?lo (mem_queue_offset mem) = Some p" using node_at_split [OF pos] by blast
    then show ?thesis using Some p0 s o by (intro exI [of _ p] exI [of _ "us @ [p0]"] exI [of _ vs']) (simp add: next_memnode_def Let_def)
  qed
qed

lemma split_around: "us @ p # vs = ds @ qs \<Longrightarrow> (\<exists>us'. us = ds @ us' \<and> qs = us' @ p # vs) \<or> (\<exists>ws. ds = us @ p # ws)"
  by (auto simp: append_eq_append_conv2 Cons_eq_append_conv append_eq_Cons_conv)

text \<open>Trimming memory up to below the queue keeps the object's data and the page \<open>memnode\<close>.\<close>

lemma trim_ok:
  assumes d: "data_ok mem D" and qk: "queue_ok pending mem" and t: "mem_inmem_lo mem < target" "target < mem_queue_offset mem"
  shows "\<exists>lo' hdr sz' alive. stmemFreeDataUpto (mem_data_hdr mem) target sz = Some (lo', hdr, sz', alive) \<and>
    data_ok (mem\<lparr>mem_inmem_lo := lo', mem_data_hdr := hdr\<rparr>) D \<and> queue_ok pending (mem\<lparr>mem_inmem_lo := lo', mem_data_hdr := hdr\<rparr>)"
proof -
  let ?h = "mem_data_hdr mem" and ?lo = "mem_inmem_lo mem"
  have wf: "mem_hdr_wf ?h" and o: "origin_offset ?h = ?lo" and pos: "\<forall>p \<in> set (m_nodes ?h). 0 < n_len p" and l: "0 \<le> ?lo"
    and D: "mem_bytes ?h = drop (nat ?lo) D" "?lo \<le> int (length D)" "mem_inmem_hi mem = int (length D)"
    using d mem_hdr_wf_pos by (auto simp: data_ok_def)
  obtain b p where b: "mem_memnode mem = Some b" "node_at (m_nodes ?h) ?lo b = Some p" "mem_queue_offset mem = b + int (n_len p)"
    "pending \<longrightarrow> n_len p = SM_PAGE_SIZE"
    using qk t l by (auto simp: queue_ok_def split: option.splits)
  from b(2) obtain us vs where n: "m_nodes ?h = us @ p # vs" "b = ?lo + int (length (concat (map n_data us)))" using node_at_split [OF pos] by blast
  obtain ret qs cur sz' alive where r: "free_upto_loop (m_nodes ?h) ?lo target sz [] = (ret, qs, cur, sz', alive)" by (metis prod_cases5)
  have tle: "?lo \<le> target" using t(1) by simp
  from free_upto_loop_spec [OF tle pos, of sz "[]"] r obtain ds where
    ds: "m_nodes ?h = ds @ qs" "cur = ?lo + int (length (concat (map n_data ds)))" "cur \<le> target" by auto
  from stmemFreeDataUpto_spec [OF wf, of target sz] o t(1) obtain new hdr sz2 alive2 where
    f: "stmemFreeDataUpto ?h target sz = Some (new, hdr, sz2, alive2)" "origin_offset hdr = new" "?lo \<le> new" "new \<le> target"
      "mem_bytes hdr = drop (nat (new - ?lo)) (mem_bytes ?h)" "mem_hdr_wf hdr" by auto
  have h: "hdr = ?h\<lparr>m_nodes := qs, origin_offset := cur\<rparr>" "new = cur"
    using f(1) r o ds(3) by (auto simp: stmemFreeDataUpto_def Let_def c_assert_def bind_eq_Some_conv split: if_splits)
  have "\<nexists>ws. ds = us @ p # ws"
  proof
    assume "\<exists>ws. ds = us @ p # ws"
    then have "mem_queue_offset mem \<le> cur" using ds(2) b(3) n(2) by auto
    then show False using ds(3) t(2) by simp
  qed
  then obtain us' where us: "us = ds @ us'" "qs = us' @ p # vs" using split_around [of us p vs ds qs] n(1) ds(1) by auto
  have wf': "\<forall>p \<in> set qs. 0 < n_len p" using pos ds(1) by simp
  have "b = cur + int (length (concat (map n_data us')))" using n(2) ds(2) us(1) by simp
  then have "node_at qs cur b = Some p" using node_at_split [OF wf'] us(2) by blast
  then have "queue_ok pending (mem\<lparr>mem_inmem_lo := cur, mem_data_hdr := hdr\<rparr>)" using b h by (simp add: queue_ok_def)
  moreover have "data_ok (mem\<lparr>mem_inmem_lo := cur, mem_data_hdr := hdr\<rparr>) D"
  proof -
    have "nat cur = nat (cur - ?lo) + nat ?lo" using f(3) h(2) l by simp
    then have "mem_bytes hdr = drop (nat cur) D" using f(5) h(2) D(1) by simp
    moreover have "mem_queue_offset mem \<le> int (length D)" using page_data(3) [OF d n] b(3) by simp
    ultimately show ?thesis using f(2,6) h(2) D f(3) l ds(3) t(2) by (simp add: data_ok_def)
  qed
  ultimately show ?thesis using f(1) h(2) by blast
qed

subsection \<open>The storage system's promise\<close>

text \<open>An object being written: \<open>hb\<close> is the file's header, and \<open>stream f bs\<close> says that the storage system was passed \<open>bs\<close>.
  The object's bytes up to the queue offset were passed, and no more than that is on disk.\<close>

definition writing :: "('f \<Rightarrow> 8 word list \<Rightarrow> bool) \<Rightarrow> 8 word list \<Rightarrow> bool \<Rightarrow> 'f \<Rightarrow> MemObject \<Rightarrow> string \<Rightarrow> bool" where
  "writing stream hb pending f mem D \<longleftrightarrow> data_ok mem D \<and> queue_ok pending mem \<and> 0 \<le> mem_queue_offset mem \<and>
     mem_queue_offset mem \<le> int (length D) \<and>
     (\<exists>sio. mem_sio mem = Some sio \<and> sio_offset sio \<le> int (length hb) + mem_queue_offset mem) \<and>
     stream f (hb @ bytes_of_string (take (nat (mem_queue_offset mem)) D))"

locale swap_writer =
  fixes fs :: "'f swap_fs" and stream :: "'f \<Rightarrow> 8 word list \<Rightarrow> bool" and ready :: "'f \<Rightarrow> bool"
  assumes create_law: "ready f \<Longrightarrow> \<exists>f' sio. fs_create fs f s a = Some (Some sio, f', s) \<and> stream f' [] \<and> sio_offset sio = 0"
    and write_law: "stream f bs \<Longrightarrow> bytes \<noteq> [] \<Longrightarrow> s_entries s a = Some e \<Longrightarrow> e_mem_obj e = Some mem \<Longrightarrow> mem_sio mem = Some sio \<Longrightarrow>
      \<exists>f' sio'. fs_write fs f s a bytes = Some (f', put_mem s a e (mem\<lparr>mem_sio := Some sio'\<rparr>)) \<and> stream f' (bs @ bytes) \<and>
        sio_offset sio' \<le> int (length (bs @ bytes))"
begin

text \<open>One turn passes the next page.\<close>

lemma swap_page_ok:
  assumes w: "writing stream hb pending f mem D" and e: "s_entries s a = Some e" "e_mem_obj e = Some mem"
    and q: "mem_queue_offset mem < int (length D)" "pending \<longrightarrow> int SM_PAGE_SIZE \<le> int (length D) - mem_queue_offset mem"
  shows "\<exists>f' mem'. swap_page fs f s a = Some (f', put_mem s a e mem') \<and> writing stream hb pending f' mem' D \<and>
    mem_queue_offset mem < mem_queue_offset mem' \<and>
    mem' = mem\<lparr>mem_memnode := mem_memnode mem', mem_queue_offset := mem_queue_offset mem', mem_sio := mem_sio mem'\<rparr>"
proof -
  have d: "data_ok mem D" and qk: "queue_ok pending mem" and q0: "0 \<le> mem_queue_offset mem"
    and st: "stream f (hb @ bytes_of_string (take (nat (mem_queue_offset mem)) D))" using w by (auto simp: writing_def)
  obtain sio where sio: "mem_sio mem = Some sio" using w by (auto simp: writing_def)
  obtain p us vs where p: "next_memnode mem = Some (mem_queue_offset mem, p)" "m_nodes (mem_data_hdr mem) = us @ p # vs"
    "mem_queue_offset mem = mem_inmem_lo mem + int (length (concat (map n_data us)))" using next_memnode_ok [OF d qk q(1)] by blast
  note pd = page_data [OF d p(2,3)]
  define mem1 where "mem1 = mem\<lparr>mem_memnode := Some (mem_queue_offset mem), mem_queue_offset := mem_queue_offset mem + int (n_len p)\<rparr>"
  define s1 where "s1 = put_mem s a e mem1"
  have s1: "s_entries s1 a = Some (e\<lparr>e_mem_obj := Some mem1\<rparr>)" "mem_sio mem1 = Some sio" using sio
    by (simp_all add: s1_def put_mem_def put_entry_def mem1_def)
  have b: "bytes_of_string (n_data p) \<noteq> []" using pd(4) by (simp add: bytes_of_string_def)
  from write_law [OF st b s1(1) _ s1(2)] obtain f' sio' where
    f': "fs_write fs f s1 a (bytes_of_string (n_data p)) = Some (f', put_mem s1 a (e\<lparr>e_mem_obj := Some mem1\<rparr>) (mem1\<lparr>mem_sio := Some sio'\<rparr>))"
      "stream f' ((hb @ bytes_of_string (take (nat (mem_queue_offset mem)) D)) @ bytes_of_string (n_data p))"
      "sio_offset sio' \<le> int (length ((hb @ bytes_of_string (take (nat (mem_queue_offset mem)) D)) @ bytes_of_string (n_data p)))" by auto
  define mem2 where "mem2 = mem1\<lparr>mem_sio := Some sio'\<rparr>"
  have s2: "put_mem s1 a (e\<lparr>e_mem_obj := Some mem1\<rparr>) mem2 = put_mem s a e mem2" by (simp add: s1_def put_mem_def put_entry_def)
  have "swap_page fs f s a = Some (f', put_mem s a e mem2)"
    using e p(1) pd(4) f'(1) s2 by (simp add: swap_page_def s1_def [symmetric] mem1_def [symmetric] mem2_def stmemNodeGet_def)
  moreover have "data_ok mem2 D" using d by (simp add: mem2_def mem1_def data_ok_def)
  moreover have "queue_ok pending mem2"
  proof -
    have "\<forall>p \<in> set (m_nodes (mem_data_hdr mem)). 0 < n_len p" using d mem_hdr_wf_pos by (auto simp: data_ok_def)
    then have "node_at (m_nodes (mem_data_hdr mem)) (mem_inmem_lo mem) (mem_queue_offset mem) = Some p" using node_at_split p(2,3) by blast
    then show ?thesis using pd(6) q(2) by (simp add: queue_ok_def mem2_def mem1_def)
  qed
  moreover have "take (nat (mem_queue_offset mem)) D @ n_data p = take (nat (mem_queue_offset mem2)) D"
  proof -
    have "nat (mem_queue_offset mem2) = nat (mem_queue_offset mem) + n_len p" using q0 by (simp add: mem2_def mem1_def nat_add_distrib)
    then show ?thesis using pd(2) by (simp add: take_add)
  qed
  then have "stream f' (hb @ bytes_of_string (take (nat (mem_queue_offset mem2)) D))" using f'(2)
    by (simp add: bytes_of_string_def flip: map_append)
  moreover have "sio_offset sio' \<le> int (length hb) + mem_queue_offset mem2" using f'(3) q q0 by (simp add: mem2_def mem1_def)
  ultimately show ?thesis using q0 pd(3,4)
    by (intro exI [of _ f'] exI [of _ mem2]) (simp add: writing_def mem2_def mem1_def)
qed

text \<open>The loop passes everything of a complete object, and all full pages of one that is still arriving.\<close>

lemma swap_loop_ok:
  assumes "writing stream hb pending f mem D" "s_entries s a = Some e" "e_mem_obj e = Some mem" "e_swap_status e = SWAPOUT_WRITING"
    "pending \<longleftrightarrow> e_store_status e = STORE_PENDING"
    "mem_queue_offset mem < int (length D)" "pending \<longrightarrow> int SM_PAGE_SIZE \<le> int (length D) - mem_queue_offset mem"
  shows "\<exists>f' mem'. swap_loop fs f s a = Some (f', put_mem s a e mem') \<and> writing stream hb pending f' mem' D \<and>
    mem' = mem\<lparr>mem_memnode := mem_memnode mem', mem_queue_offset := mem_queue_offset mem', mem_sio := mem_sio mem'\<rparr> \<and>
    (if pending then int (length D) - mem_queue_offset mem' < int SM_PAGE_SIZE else mem_queue_offset mem' = int (length D))"
  using assms
proof (induction "nat (int (length D) - mem_queue_offset mem)" arbitrary: f mem s e rule: less_induct)
  case less
  from swap_page_ok [OF less.prems(1-3,6,7)] obtain f1 mem1 where
    r: "swap_page fs f s a = Some (f1, put_mem s a e mem1)" "writing stream hb pending f1 mem1 D" "mem_queue_offset mem < mem_queue_offset mem1"
      "mem1 = mem\<lparr>mem_memnode := mem_memnode mem1, mem_queue_offset := mem_queue_offset mem1, mem_sio := mem_sio mem1\<rparr>" by blast
  define s1 where "s1 = put_mem s a e mem1"
  define e1 where "e1 = e\<lparr>e_mem_obj := Some mem1\<rparr>"
  have s1: "s_entries s1 a = Some e1" "e_mem_obj e1 = Some mem1" "e_swap_status e1 = SWAPOUT_WRITING" "pending \<longleftrightarrow> e_store_status e1 = STORE_PENDING"
    using less.prems(4,5) by (simp_all add: s1_def e1_def put_mem_def put_entry_def)
  have hi: "mem_inmem_hi mem1 = int (length D)" "mem_queue_offset mem1 \<le> int (length D)" using r(2) by (simp_all add: writing_def data_ok_def)
  have put: "put_mem s1 a e1 m = put_mem s a e m" for m by (simp add: s1_def e1_def put_mem_def put_entry_def)
  let ?left = "int (length D) - mem_queue_offset mem1"
  have step: "swap_loop fs f s a =
      (if pending \<and> ?left < int SM_PAGE_SIZE then Some (f1, s1) else if 0 < ?left then swap_loop fs f1 s1 a else Some (f1, s1))"
    using r(1) s1 hi(1) by (subst swap_loop.simps) (simp add: s1_def [symmetric] Let_def)
  show ?case
  proof (cases "(pending \<and> ?left < int SM_PAGE_SIZE) \<or> ?left \<le> 0")
    case True
    then have "swap_loop fs f s a = Some (f1, s1)" using step by auto
    moreover have "if pending then ?left < int SM_PAGE_SIZE else mem_queue_offset mem1 = int (length D)"
      using True hi(2) by (auto simp: SM_PAGE_SIZE_def)
    ultimately show ?thesis using r(2,4) by (intro exI [of _ f1] exI [of _ mem1]) (simp add: s1_def)
  next
    case False
    then have l: "swap_loop fs f s a = swap_loop fs f1 s1 a" "nat ?left < nat (int (length D) - mem_queue_offset mem)"
      "mem_queue_offset mem1 < int (length D)" "pending \<longrightarrow> int SM_PAGE_SIZE \<le> ?left" using step r(3) by auto
    from less.hyps [OF l(2) r(2) s1 l(3,4)] obtain f' mem' where
      m: "swap_loop fs f1 s1 a = Some (f', put_mem s1 a e1 mem')" "writing stream hb pending f' mem' D"
        "mem' = mem1\<lparr>mem_memnode := mem_memnode mem', mem_queue_offset := mem_queue_offset mem', mem_sio := mem_sio mem'\<rparr>"
        "if pending then int (length D) - mem_queue_offset mem' < int SM_PAGE_SIZE else mem_queue_offset mem' = int (length D)" by blast
    have "mem' = mem\<lparr>mem_memnode := mem_memnode mem', mem_queue_offset := mem_queue_offset mem', mem_sio := mem_sio mem'\<rparr>"
      using m(3) r(4) by (cases mem; cases mem1; cases mem') simp
    then show ?thesis using l(1) m put by (intro exI [of _ f'] exI [of _ mem']) simp
  qed
qed

end

subsection \<open>Preparing the write\<close>

text \<open>Trimming on the way: an entry that may be swapped out keeps its data and its place in the queue.\<close>

lemma new_mem_lo_bound:
  assumes "0 \<le> mem_inmem_lo mem"
  shows "new_mem_lo s mem True = mem_inmem_lo mem \<or>
    mem_inmem_lo mem < new_mem_lo s mem True \<and> new_mem_lo s mem True < storeSwapOutObjectBytesOnDisk mem"
  using assms by (auto simp: new_mem_lo_def Let_def)

lemma maintain_ok:
  assumes e: "s_entries s a = Some e" "e_mem_obj e = Some mem" and "\<not> has_flag e ENTRY_SPECIAL" "e_mem_status e = NOT_IN_MEMORY"
    "storeSwapOutAble s e mem" and d: "data_ok mem D" and qk: "queue_ok pending mem" and od: "storeSwapOutObjectBytesOnDisk mem \<le> mem_queue_offset mem"
  shows "\<exists>s' e' mem'. storeSwapOutMaintainMemObject s a = Some (1, s') \<and> s_entries s' a = Some e' \<and> e_mem_obj e' = Some mem' \<and>
    data_ok mem' D \<and> queue_ok pending mem' \<and> s_config s' = s_config s \<and> s_links s' = s_links s \<and> s_open_disk_fd s' = s_open_disk_fd s \<and>
    mem' = mem\<lparr>mem_inmem_lo := mem_inmem_lo mem', mem_data_hdr := mem_data_hdr mem', mem_serverfd := mem_serverfd mem'\<rparr> \<and>
    e' = e\<lparr>e_mem_obj := Some mem', e_flags := e_flags e'\<rparr> \<and> (storeSwapOutObjectBytesOnDisk mem \<le> 0 \<longrightarrow> s' = s)"
proof -
  define lo where "lo = new_mem_lo s mem True"
  have lo0: "0 \<le> mem_inmem_lo mem" using d by (simp add: data_ok_def)
  have run: "storeSwapOutMaintainMemObject s a = do {
       s \<leftarrow> (if mem_inmem_lo mem \<noteq> lo
             then do {
               (lo', hdr, sz, _) \<leftarrow> stmemFreeDataUpto (mem_data_hdr mem) lo (s_mem_size s);
               let mem = mem\<lparr>mem_inmem_lo := lo', mem_data_hdr := hdr\<rparr>;
               let s = (put_entry s a (e\<lparr>e_mem_obj := Some mem\<rparr>))\<lparr>s_mem_size := sz\<rparr>;
               if has_flag e ENTRY_DEFER_READ \<and> mem_inmem_hi mem - lo' \<le> readAheadGap (s_config s)
               then storeResumeRead s a else Some s }
             else Some s);
       Some (1, s) }"
    unfolding lo_def using assms(1-5) by (simp add: storeSwapOutMaintainMemObject_def Let_def)
  show ?thesis
  proof (cases "lo = mem_inmem_lo mem")
    case True
    have "storeSwapOutMaintainMemObject s a = Some (1, s)" unfolding run using True by simp
    moreover have "e = e\<lparr>e_mem_obj := Some mem, e_flags := e_flags e\<rparr>" using e(2) by (cases e) simp
    ultimately show ?thesis using e d qk by (intro exI [of _ s] exI [of _ e] exI [of _ mem]) simp
  next
    case False
    then have t: "mem_inmem_lo mem < lo" "lo < storeSwapOutObjectBytesOnDisk mem" using new_mem_lo_bound [OF lo0] by (auto simp: lo_def)
    then have t2: "lo < mem_queue_offset mem" using od by simp
    from trim_ok [OF d qk t(1) t2, of "s_mem_size s"] obtain lo' hdr sz alive where
      f: "stmemFreeDataUpto (mem_data_hdr mem) lo (s_mem_size s) = Some (lo', hdr, sz, alive)"
        "data_ok (mem\<lparr>mem_inmem_lo := lo', mem_data_hdr := hdr\<rparr>) D" "queue_ok pending (mem\<lparr>mem_inmem_lo := lo', mem_data_hdr := hdr\<rparr>)" by blast
    define mem1 where "mem1 = mem\<lparr>mem_inmem_lo := lo', mem_data_hdr := hdr\<rparr>"
    define s1 where "s1 = (put_entry s a (e\<lparr>e_mem_obj := Some mem1\<rparr>))\<lparr>s_mem_size := sz\<rparr>"
    have f1: "data_ok mem1 D" "queue_ok pending mem1" using f(2,3) by (simp_all add: mem1_def)
    have s1: "s_entries s1 a = Some (e\<lparr>e_mem_obj := Some mem1\<rparr>)" "s_config s1 = s_config s" "s_links s1 = s_links s" "s_open_disk_fd s1 = s_open_disk_fd s"
      by (simp_all add: s1_def put_entry_def)
    have pos: "\<not> storeSwapOutObjectBytesOnDisk mem \<le> 0" using t lo0 by linarith
    show ?thesis
    proof (cases "has_flag e ENTRY_DEFER_READ \<and> mem_inmem_hi mem1 - lo' \<le> readAheadGap (s_config s1)")
      case False
      then have "storeSwapOutMaintainMemObject s a = Some (1, s1)" unfolding run using f(1) \<open>lo \<noteq> mem_inmem_lo mem\<close>
        by (auto simp: Let_def mem1_def s1_def)
      then show ?thesis using s1 f1 pos
        by (intro exI [of _ s1] exI [of _ "e\<lparr>e_mem_obj := Some mem1\<rparr>"] exI [of _ mem1]) (simp add: mem1_def)
    next
      case True
      then have r: "storeSwapOutMaintainMemObject s a = do { s \<leftarrow> storeResumeRead s1 a; Some (1, s) }" unfolding run
        using f(1) \<open>lo \<noteq> mem_inmem_lo mem\<close> by (simp add: Let_def mem1_def s1_def)
      define mem2 where "mem2 = mem1\<lparr>mem_serverfd := - 1\<rparr>"
      have f2: "data_ok mem2 D" "queue_ok pending mem2" using f1 by (auto simp: mem2_def data_ok_def queue_ok_def split: option.splits)
      let ?e1 = "flag_clr (e\<lparr>e_mem_obj := Some mem1\<rparr>) ENTRY_DEFER_READ"
      show ?thesis
      proof (cases "mem_serverfd mem1 = - 1")
        case True
        let ?s = "put_entry s1 a ?e1"
        have "storeResumeRead s1 a = Some ?s" using s1(1) True by (simp add: storeResumeRead_def Let_def)
        then show ?thesis using r s1 f1 pos
          by (intro exI [of _ ?s] exI [of _ ?e1] exI [of _ mem1]) (simp add: put_entry_def flag_clr_def mem1_def)
      next
        case False
        let ?s = "put_event (put_entry s1 a (?e1\<lparr>e_mem_obj := Some mem2\<rparr>)) (CommResumeFD (mem_serverfd mem1))"
        have "storeResumeRead s1 a = Some ?s" using s1(1) False by (simp add: storeResumeRead_def Let_def flag_clr_def mem2_def)
        then show ?thesis using r s1 f2 pos
          by (intro exI [of _ ?s] exI [of _ "?e1\<lparr>e_mem_obj := Some mem2\<rparr>"] exI [of _ mem2])
            (simp add: put_entry_def put_event_def flag_clr_def mem1_def mem2_def)
      qed
    qed
  qed
qed

subsection \<open>The whole of \<open>storeSwapOut\<close>\<close>

text \<open>An entry whose object may go to disk now.\<close>

definition may_swap :: "'f swap_fs \<Rightarrow> store \<Rightarrow> StoreEntry \<Rightarrow> MemObject \<Rightarrow> string \<Rightarrow> bool" where
  "may_swap fs s e mem D \<longleftrightarrow> \<not> has_flag e ENTRY_ABORTED \<and> \<not> has_flag e ENTRY_SPECIAL \<and> e_mem_status e = NOT_IN_MEMORY \<and>
     storeSwapOutAble s e mem \<and> \<not> storeTooManyDiskFilesOpen s \<and>
     mem_queue_offset mem < int (length D) \<and>
     (e_store_status e = STORE_PENDING \<longrightarrow> int SM_PAGE_SIZE \<le> int (length D) - mem_queue_offset mem \<and>
        store_maxobjsize fs \<le> int (length D) - mem_queue_offset mem)"

text \<open>The swap-out is under way, or is still to start; \<open>hb\<close> is the header of the file.\<close>

definition swap_open :: "('f \<Rightarrow> 8 word list \<Rightarrow> bool) \<Rightarrow> 8 word list \<Rightarrow> 'f \<Rightarrow> StoreEntry \<Rightarrow> MemObject \<Rightarrow> string \<Rightarrow> bool" where
  "swap_open stream hb f e mem D \<longleftrightarrow> e_swap_status e = SWAPOUT_WRITING \<and> mem_swap_hdr_sz mem = int (length hb) \<and>
     writing stream hb (e_store_status e = STORE_PENDING) f mem D"

definition swap_new :: "8 word list \<Rightarrow> store \<Rightarrow> addr \<Rightarrow> StoreEntry \<Rightarrow> MemObject \<Rightarrow> string \<Rightarrow> bool" where
  "swap_new hb s a e mem D \<longleftrightarrow> e_swap_status e = SWAPOUT_NONE \<and> mem_sio mem = None \<and> mem_memnode mem = None \<and> mem_queue_offset mem = 0 \<and>
     mem_inmem_lo mem = 0 \<and> data_ok mem D \<and> \<not> has_flag e ENTRY_FWD_HDR_WAIT \<and> cachable_verdict s e = Some yes_Default \<and>
     (\<exists>key T. link_key (s_links s) a = Some key \<and> storeSwapMetaBuild key (e\<lparr>e_swap_status := SWAPOUT_WRITING\<rparr>) = Some T \<and>
        storeSwapMetaPack T = Some (hb, int (length hb)) \<and> hb \<noteq> [])"

text \<open>What is reached: nothing is left of a complete object, whose file is closed, and less than a page of one that is
  still arriving.\<close>

definition swapped :: "('f \<Rightarrow> 8 word list \<Rightarrow> bool) \<Rightarrow> 8 word list \<Rightarrow> bool \<Rightarrow> 'f \<Rightarrow> store \<Rightarrow> addr \<Rightarrow> string \<Rightarrow> bool" where
  "swapped stream hb pending f s a D \<longleftrightarrow>
     (\<exists>e mem. s_entries s a = Some e \<and> e_mem_obj e = Some mem \<and> e_swap_status e = SWAPOUT_WRITING \<and> data_ok mem D \<and>
        (e_store_status e = STORE_PENDING \<longleftrightarrow> pending) \<and>
        (if pending
         then swap_open stream hb f e mem D \<and> int (length D) - mem_queue_offset mem < int SM_PAGE_SIZE
         else mem_sio mem = None \<and> stream f (hb @ bytes_of_string D) \<and> (\<exists>dirn filen evs. s_events s = evs @ [FsClose a dirn filen])))"

context swap_writer
begin

lemma swap_data_ok:
  assumes e: "s_entries s a = Some e" "e_mem_obj e = Some mem" and o: "swap_open stream hb f e mem D"
    and q: "mem_queue_offset mem < int (length D)"
      "e_store_status e = STORE_PENDING \<longrightarrow> int SM_PAGE_SIZE \<le> int (length D) - mem_queue_offset mem"
  shows "\<exists>f' s'. (do { (f, s) \<leftarrow> swap_loop fs f s a; s \<leftarrow> swap_finish s a; Some (f, s) }) = Some (f', s') \<and> swapped stream hb (e_store_status e = STORE_PENDING) f' s' a D \<and>
    s_links s' = s_links s \<and> s_config s' = s_config s"
proof -
  let ?P = "e_store_status e = STORE_PENDING"
  have w: "writing stream hb ?P f mem D" and st: "e_swap_status e = SWAPOUT_WRITING" and h: "mem_swap_hdr_sz mem = int (length hb)"
    using o by (simp_all add: swap_open_def)
  from swap_loop_ok [OF w e st refl q] obtain f' mem' where
    r: "swap_loop fs f s a = Some (f', put_mem s a e mem')" "writing stream hb ?P f' mem' D"
      "mem' = mem\<lparr>mem_memnode := mem_memnode mem', mem_queue_offset := mem_queue_offset mem', mem_sio := mem_sio mem'\<rparr>"
      "if ?P then int (length D) - mem_queue_offset mem' < int SM_PAGE_SIZE else mem_queue_offset mem' = int (length D)" by blast
  have h': "mem_swap_hdr_sz mem' = int (length hb)" using h by (subst r(3)) simp
  obtain sio where sio: "mem_sio mem' = Some sio" using r(2) by (auto simp: writing_def)
  have d': "data_ok mem' D" "mem_inmem_hi mem' = int (length D)" using r(2) by (simp_all add: writing_def data_ok_def)
  define e' where "e' = e\<lparr>e_mem_obj := Some mem'\<rparr>"
  have e': "s_entries (put_mem s a e mem') a = Some e'" "e_mem_obj e' = Some mem'" "e_store_status e' = e_store_status e" "e_swap_status e' = SWAPOUT_WRITING"
    using st by (simp_all add: put_mem_def put_entry_def e'_def)
  show ?thesis
  proof (cases ?P)
    case True
    then have "swap_finish (put_mem s a e mem') a = Some (put_mem s a e mem')" using e' sio by (simp add: swap_finish_def)
    moreover have "swapped stream hb ?P f' (put_mem s a e mem') a D"
      unfolding swapped_def using e' True d'(1) r(2,4) h' st by (intro exI [of _ e'] exI [of _ mem']) (simp add: swap_open_def)
    ultimately show ?thesis using r(1) by (simp add: put_mem_def put_entry_def)
  next
    case False
    then have ok: "e_store_status e' = STORE_OK" using e'(3) by (cases "e_store_status e'") simp_all
    define mem2 where "mem2 = mem'\<lparr>mem_sio := None\<rparr>"
    define s2 where "s2 = put_event (put_entry (put_mem s a e mem') a (e'\<lparr>e_mem_obj := Some mem2\<rparr>)) (FsClose a (sio_swap_dirn sio) (sio_swap_filen sio))"
    have "swap_finish (put_mem s a e mem') a = Some s2" using e' sio ok r(4) False d'(2)
      by (simp add: swap_finish_def storeSwapOutFileClose_def s2_def mem2_def)
    moreover have "swapped stream hb ?P f' s2 a D"
    proof -
      have "data_ok mem2 D" using d'(1) by (simp add: mem2_def data_ok_def)
      moreover have "stream f' (hb @ bytes_of_string D)" using r(2,4) False by (simp add: writing_def)
      ultimately show ?thesis unfolding swapped_def using ok e'(4) False
        by (intro exI [of _ "e'\<lparr>e_mem_obj := Some mem2\<rparr>"] exI [of _ mem2]) (simp add: s2_def put_event_def put_entry_def mem2_def)
    qed
    ultimately show ?thesis using r(1) by (simp add: s2_def put_mem_def put_entry_def put_event_def)
  qed
qed

lemma start_ok:
  assumes e: "s_entries s a = Some e" "e_mem_obj e = Some mem" and n: "swap_new hb s a e mem D" and "ready f"
  shows "\<exists>f' s' e' mem'. storeSwapOutStart fs f s a = Some (f', s') \<and> s_entries s' a = Some e' \<and> e_mem_obj e' = Some mem' \<and>
    swap_open stream hb f' e' mem' D \<and> e_store_status e' = e_store_status e \<and> mem_queue_offset mem' = 0 \<and> s_links s' = s_links s \<and> s_config s' = s_config s"
proof -
  define e1 where "e1 = e\<lparr>e_swap_status := SWAPOUT_WRITING\<rparr>"
  obtain key T where k: "link_key (s_links s) a = Some key" "storeSwapMetaBuild key e1 = Some T" "storeSwapMetaPack T = Some (hb, int (length hb))" "hb \<noteq> []"
    using n by (auto simp: swap_new_def e1_def)
  define mem1 where "mem1 = mem\<lparr>mem_swap_hdr_sz := int (length hb)\<rparr>"
  define s1 where "s1 = put_mem s a e1 mem1"
  obtain f1 sio where c: "fs_create fs f s1 a = Some (Some sio, f1, s1)" "stream f1 []" "sio_offset sio = 0" using create_law [OF assms(4)] by blast
  define mem2 where "mem2 = mem1\<lparr>mem_sio := Some sio\<rparr>"
  define e2 where "e2 = e1\<lparr>e_mem_obj := Some mem2, e_lock_count := e_lock_count e1 + 1, e_lastref := s_curtime s\<rparr>"
  have s1: "s_entries s1 a = Some (e1\<lparr>e_mem_obj := Some mem1\<rparr>)" by (simp add: s1_def put_mem_def put_entry_def)
  obtain s2 where s2: "storeLockObject (put_mem s1 a (e1\<lparr>e_mem_obj := Some mem1\<rparr>) mem2) a = Some s2" "s_entries s2 a = Some e2"
    "s_links s2 = s_links s" "s_config s2 = s_config s"
    by (simp add: storeLockObject_def storeEntryReferenced_def put_mem_def put_entry_def put_event_def s1_def e2_def Let_def)
  define e3 where "e3 = e2\<lparr>e_swap_filen := sio_swap_filen sio, e_swap_dirn := sio_swap_dirn sio\<rparr>"
  define s3 where "s3 = put_entry s2 a e3"
  have s3: "s_entries s3 a = Some e3" "e_mem_obj e3 = Some mem2" "mem_sio mem2 = Some sio"
    by (simp_all add: s3_def put_entry_def e3_def e2_def mem2_def)
  from write_law [OF c(2) k(4) s3] obtain f' sio' where
    w: "fs_write fs f1 s3 a hb = Some (f', put_mem s3 a e3 (mem2\<lparr>mem_sio := Some sio'\<rparr>))" "stream f' hb" "sio_offset sio' \<le> int (length hb)" by auto
  define mem' where "mem' = mem2\<lparr>mem_sio := Some sio'\<rparr>"
  define e' where "e' = e3\<lparr>e_mem_obj := Some mem'\<rparr>"
  have "storeSwapOutStart fs f s a = Some (f', put_mem s3 a e3 mem')"
    using e k c(1) s1 s2 w(1)
    by (simp add: storeSwapOutStart_def e1_def [symmetric] mem1_def [symmetric] s1_def [symmetric] mem2_def [symmetric] e3_def [symmetric] s3_def [symmetric]
        mem'_def [symmetric] Let_def)
  moreover have "s_entries (put_mem s3 a e3 mem') a = Some e'" "e_mem_obj e' = Some mem'" by (simp_all add: put_mem_def put_entry_def e'_def)
  moreover have "swap_open stream hb f' e' mem' D"
    using n w(2,3) by (simp add: swap_open_def swap_new_def writing_def e'_def e3_def e2_def e1_def mem'_def mem2_def mem1_def data_ok_def queue_ok_def bytes_of_string_def)
  moreover have "e_store_status e' = e_store_status e" "mem_queue_offset mem' = 0"
    using n by (simp_all add: e'_def e3_def e2_def e1_def mem'_def mem2_def mem1_def swap_new_def)
  moreover have "s_links (put_mem s3 a e3 mem') = s_links s" "s_config (put_mem s3 a e3 mem') = s_config s"
    using s2(3,4) by (simp_all add: put_mem_def put_entry_def s3_def)
  ultimately show ?thesis by blast
qed

end

end
