(* ===== verification/SwapWrite.thy ===== *)
theory SwapWrite
  imports StoreWrite SwapOut
begin

section \<open>The swap-out as a whole (store_swapout.c, fs/ufs)\<close>

text \<open>
  The locale \<open>swap_writer\<close> states what \<open>storeSwapOut\<close> needs of a storage system. Here its lemmas are
  completed, the \<open>ufs\<close> system of \<open>UfsIo\<close> is put behind the pointers and shown to keep the contract,
  and the property of the whole path is stated: from the pages in memory to the swap file.
\<close>

lemma swap_open_keeps:
  assumes "swap_open stream hb f e mem D" "data_ok mem' D" "queue_ok (e_store_status e = STORE_PENDING) mem'"
    "mem' = mem\<lparr>mem_inmem_lo := mem_inmem_lo mem', mem_data_hdr := mem_data_hdr mem', mem_serverfd := mem_serverfd mem'\<rparr>"
    "e' = e\<lparr>e_mem_obj := Some mem', e_flags := e_flags e'\<rparr>"
  shows "swap_open stream hb f e' mem' D" "mem_queue_offset mem' = mem_queue_offset mem" "mem_sio mem' = mem_sio mem"
    "e_store_status e' = e_store_status e" "e_swap_status e' = e_swap_status e"
proof -
  show q: "mem_queue_offset mem' = mem_queue_offset mem" and "mem_sio mem' = mem_sio mem" by (subst assms(4), simp)+
  moreover have "mem_swap_hdr_sz mem' = mem_swap_hdr_sz mem" by (subst assms(4), simp)
  moreover show "e_store_status e' = e_store_status e" "e_swap_status e' = e_swap_status e" by (subst assms(5), simp)+
  ultimately show "swap_open stream hb f e' mem' D" using assms(1-3) by (simp add: swap_open_def writing_def)
qed

context swap_writer
begin

lemma storeSwapOut_open:
  assumes e: "s_entries s a = Some e" "e_mem_obj e = Some mem" and m: "may_swap fs s e mem D" and o: "swap_open stream hb f e mem D"
  shows "\<exists>f' s'. storeSwapOut fs f s a = Some (f', s') \<and> swapped stream hb (e_store_status e = STORE_PENDING) f' s' a D \<and> s_links s' = s_links s \<and> s_config s' = s_config s"
proof -
  let ?P = "e_store_status e = STORE_PENDING"
  have w: "data_ok mem D" "queue_ok ?P mem" "mem_inmem_hi mem = int (length D)" "0 \<le> mem_queue_offset mem"
    using o by (simp_all add: swap_open_def writing_def data_ok_def)
  obtain sio where sio: "mem_sio mem = Some sio" "sio_offset sio \<le> int (length hb) + mem_queue_offset mem" "mem_swap_hdr_sz mem = int (length hb)"
    using o by (auto simp: swap_open_def writing_def)
  have od: "storeSwapOutObjectBytesOnDisk mem \<le> mem_queue_offset mem" using sio w(4) by (simp add: storeSwapOutObjectBytesOnDisk_def Let_def)
  have f: "\<not> has_flag e ENTRY_ABORTED" "\<not> has_flag e ENTRY_SPECIAL" "e_mem_status e = NOT_IN_MEMORY" "storeSwapOutAble s e mem"
    "\<not> storeTooManyDiskFilesOpen s" "mem_queue_offset mem < int (length D)"
    "?P \<longrightarrow> int SM_PAGE_SIZE \<le> int (length D) - mem_queue_offset mem \<and> store_maxobjsize fs \<le> int (length D) - mem_queue_offset mem"
    using m by (simp_all add: may_swap_def)
  from maintain_ok [OF e f(2,3,4) w(1,2) od] obtain s1 e1 mem1 where
    r: "storeSwapOutMaintainMemObject s a = Some (1, s1)" "s_entries s1 a = Some e1" "e_mem_obj e1 = Some mem1" "data_ok mem1 D" "queue_ok ?P mem1"
      "s_config s1 = s_config s" "s_links s1 = s_links s" "s_open_disk_fd s1 = s_open_disk_fd s"
      "mem1 = mem\<lparr>mem_inmem_lo := mem_inmem_lo mem1, mem_data_hdr := mem_data_hdr mem1, mem_serverfd := mem_serverfd mem1\<rparr>"
      "e1 = e\<lparr>e_mem_obj := Some mem1, e_flags := e_flags e1\<rparr>" by blast
  note k = swap_open_keeps [OF o r(4,5,9,10)]
  have q1: "mem_queue_offset mem1 < int (length D)" "e_store_status e1 = STORE_PENDING \<longrightarrow> int SM_PAGE_SIZE \<le> int (length D) - mem_queue_offset mem1"
    using f(6,7) k(2,4) by simp_all
  from swap_data_ok [OF r(2,3) k(1) q1, unfolded k(4)] obtain f' s' where
    d: "(do { (f, s) \<leftarrow> swap_loop fs f s1 a; s \<leftarrow> swap_finish s a; Some (f, s) }) = Some (f', s')" "swapped stream hb (e_store_status e = STORE_PENDING) f' s' a D"
      "s_links s' = s_links s1" "s_config s' = s_config s1" by blast
  have st: "e_swap_status e1 = SWAPOUT_WRITING" using k(1) by (simp add: swap_open_def)
  have sd: "swap_data fs f s1 a = Some (f', s')" using r(2,3) st d(1) k(3) sio(1) by (simp add: swap_data_def)
  have nf: "\<not> storeTooManyDiskFilesOpen s1" using f(5) r(6,8) by (simp add: storeTooManyDiskFilesOpen_def)
  have ss: "e_store_status e \<noteq> STORE_OK \<longleftrightarrow> ?P" by (cases "e_store_status e") simp_all
  have u: "\<not> (e_store_status e \<noteq> STORE_OK \<and> int (length D) - mem_queue_offset mem < store_maxobjsize fs)"
    "\<not> (?P \<and> int (length D) - mem_queue_offset mem < int SM_PAGE_SIZE)" using f(7) ss by auto
  have "storeSwapOut fs f s a = Some (f', s')"
    using e f(1-6) r(1,2) w(3) k(4) sd nf u by (simp add: storeSwapOut_def Let_def del: de_Morgan_conj)
  then show ?thesis using d r(6,7) by simp
qed

lemma storeSwapOut_new:
  assumes e: "s_entries s a = Some e" "e_mem_obj e = Some mem" and m: "may_swap fs s e mem D" and nw: "swap_new hb s a e mem D" and "ready f"
  shows "\<exists>f' s'. storeSwapOut fs f s a = Some (f', s') \<and> swapped stream hb (e_store_status e = STORE_PENDING) f' s' a D \<and> s_links s' = s_links s \<and> s_config s' = s_config s"
proof -
  let ?P = "e_store_status e = STORE_PENDING"
  have w: "data_ok mem D" "queue_ok ?P mem" "mem_inmem_hi mem = int (length D)" "mem_queue_offset mem = 0" "mem_sio mem = None" "mem_inmem_lo mem = 0"
    "e_swap_status e = SWAPOUT_NONE" "\<not> has_flag e ENTRY_FWD_HDR_WAIT" "cachable_verdict s e = Some yes_Default"
    using nw by (auto simp: swap_new_def data_ok_def queue_ok_def)
  have od: "storeSwapOutObjectBytesOnDisk mem = 0" using w(4,5) by (simp add: storeSwapOutObjectBytesOnDisk_def)
  have f: "\<not> has_flag e ENTRY_ABORTED" "\<not> has_flag e ENTRY_SPECIAL" "e_mem_status e = NOT_IN_MEMORY" "storeSwapOutAble s e mem"
    "\<not> storeTooManyDiskFilesOpen s" "mem_queue_offset mem < int (length D)"
    "?P \<longrightarrow> int SM_PAGE_SIZE \<le> int (length D) - mem_queue_offset mem \<and> store_maxobjsize fs \<le> int (length D) - mem_queue_offset mem"
    using m by (simp_all add: may_swap_def)
  have r: "storeSwapOutMaintainMemObject s a = Some (1, s)" using maintain_ok [OF e f(2,3,4) w(1,2)] od w(4) by auto
  define s1 where "s1 = count_verdict s yes_Default"
  have s1: "s_entries s1 = s_entries s" "s_links s1 = s_links s" "s_config s1 = s_config s" "s_open_disk_fd s1 = s_open_disk_fd s" "s_fdNFree s1 = s_fdNFree s"
    by (simp_all add: s1_def count_verdict_def)
  have e1: "s_entries s1 a = Some e" using e(1) s1(1) by simp
  have v: "cachable_verdict s1 e = cachable_verdict s e"
    by (rule cachable_verdict_cong) (use s1 in simp_all)
  have n1: "swap_new hb s1 a e mem D" using nw s1(2) v by (simp add: swap_new_def)
  from start_ok [OF e1 e(2) n1 assms(5)] obtain f2 s2 e2 mem2 where
    g: "storeSwapOutStart fs f s1 a = Some (f2, s2)" "s_entries s2 a = Some e2" "e_mem_obj e2 = Some mem2" "swap_open stream hb f2 e2 mem2 D"
      "e_store_status e2 = e_store_status e" "mem_queue_offset mem2 = 0" "s_links s2 = s_links s1" "s_config s2 = s_config s1" by blast
  have q2: "mem_queue_offset mem2 < int (length D)" "e_store_status e2 = STORE_PENDING \<longrightarrow> int SM_PAGE_SIZE \<le> int (length D) - mem_queue_offset mem2"
    using f(6,7) w(4) g(5,6) by simp_all
  from swap_data_ok [OF g(2,3,4) q2, unfolded g(5)] obtain f' s' where
    d: "(do { (f, s) \<leftarrow> swap_loop fs f2 s2 a; s \<leftarrow> swap_finish s a; Some (f, s) }) = Some (f', s')" "swapped stream hb (e_store_status e = STORE_PENDING) f' s' a D"
      "s_links s' = s_links s2" "s_config s' = s_config s2" by blast
  obtain sio where sio: "mem_sio mem2 = Some sio" using g(4) by (auto simp: swap_open_def writing_def)
  have "storeCheckCachable s a = Some (True, s1)" using e(1) w(9) by (simp add: storeCheckCachable_def s1_def)
  then have sd: "swap_data fs f s a = Some (f', s')" using e w(5-8) g(1-3) sio d(1) by (simp add: swap_data_def)
  have ss: "e_store_status e \<noteq> STORE_OK \<longleftrightarrow> ?P" by (cases "e_store_status e") simp_all
  have u: "\<not> (e_store_status e \<noteq> STORE_OK \<and> int (length D) - mem_queue_offset mem < store_maxobjsize fs)"
    "\<not> (?P \<and> int (length D) - mem_queue_offset mem < int SM_PAGE_SIZE)" using f(7) ss by auto
  have "storeSwapOut fs f s a = Some (f', s')"
    using e f(1-6) r w(3) sd u by (simp add: storeSwapOut_def Let_def del: de_Morgan_conj)
  then show ?thesis using d g(7,8) s1 by simp
qed

end


subsection \<open>The storage system behind the pointers\<close>

text \<open>
  The \<open>ufs\<close> storage system as the store calls it. The state of the disk carries the store and
  the table files, because an end that is reported during a write runs \<open>storeSwapOutFileClosed\<close>
  on them. \<open>p\<close> and \<open>c\<close> are the addresses that the allocator gives to the \<open>storeIOState\<close> and to
  the \<open>generic_cbdata\<close>, and \<open>dirn\<close> is what \<open>storeDirSelectSwapDir\<close> returned. Which function frees a
  buffer after the write is not recorded.
\<close>

type_synonym swap_disk = "swap_world ufs_scheme"

definition with_store :: "swap_disk \<Rightarrow> store \<Rightarrow> swap_disk" where
  "with_store w s = ufs.more_update (\<lambda>sw. sw\<lparr>w_store := s\<rparr>) w"

definition the_store :: "swap_disk \<Rightarrow> store" where
  "the_store w = w_store (ufs.more w)"

text \<open>The close callback of the entry at \<open>a\<close>, with the \<open>cbdataFree\<close> of its data.\<close>

definition swapout_closed :: "nat \<Rightarrow> addr \<Rightarrow> addr \<Rightarrow> addr option \<Rightarrow> int \<Rightarrow> addr \<Rightarrow> swap_disk \<Rightarrow> swap_disk option" where
  "swapout_closed n a callback data errflag p w = do {
     c \<leftarrow> data;
     cb \<leftarrow> cbdataInternalFree (d_cb w) c;
     sw \<leftarrow> storeSwapOutFileClosed n (ufs.more w) a errflag;
     Some (ufs.more_update (\<lambda>_. sw) (w\<lparr>d_cb := cb\<rparr>)) }"

definition io_view :: "storeIO \<Rightarrow> storeIOState" where
  "io_view S = \<lparr>sio_swap_dirn = io_swap_dirn S, sio_swap_filen = io_swap_filen S, sio_offset = storeOffset S\<rparr>"

text \<open>The creation, with the allocation of the callback data before it and the store's own lock after it.\<close>

definition FILE_CLOSED :: addr where "FILE_CLOSED = 3"

definition ufs_create :: "os \<Rightarrow> addr \<Rightarrow> addr \<Rightarrow> nat \<Rightarrow> int \<Rightarrow> swap_disk \<Rightarrow> store \<Rightarrow> addr \<Rightarrow> (storeIOState option \<times> swap_disk \<times> store) option" where
  "ufs_create os p c gtype dirn f s a = do {
     cb \<leftarrow> cbdataInternalAlloc (d_cb f) gtype c;
     (ok, w) \<leftarrow> storeCreate os (\<lambda>w e. Some (dirn, w)) (with_store (f\<lparr>d_cb := cb\<rparr>) s) p a FILE_CLOSED (Some c);
     if ok
     then do {
       S \<leftarrow> get_io w p;
       cb \<leftarrow> cbdataLock (d_cb w) (Some p);
       Some (Some (io_view S), w\<lparr>d_cb := cb\<rparr>, the_store w) }
     else do {
       cb \<leftarrow> cbdataInternalFree (d_cb w) c;
       Some (None, w\<lparr>d_cb := cb\<rparr>, the_store w) } }"

text \<open>A write. The entry's view of the \<open>storeIOState\<close> follows it while it is open.\<close>

definition ufs_write :: "nat \<Rightarrow> os \<Rightarrow> addr \<Rightarrow> swap_disk \<Rightarrow> store \<Rightarrow> addr \<Rightarrow> 8 word list \<Rightarrow> (swap_disk \<times> store) option" where
  "ufs_write n os p f s a bytes = do {
     w \<leftarrow> storeWrite os (swapout_closed n a) (with_store f s) p bytes None;
     let s = the_store w;
     Some (w, case s_entries s a of
                None \<Rightarrow> s
              | Some e \<Rightarrow>
                  (case (e_mem_obj e, get_io w p) of
                     (Some mem, Some S) \<Rightarrow>
                       if mem_sio mem = None then s else put_mem s a e (mem\<lparr>mem_sio := Some (io_view S)\<rparr>)
                   | _ \<Rightarrow> s)) }"

definition ufs_fs :: "nat \<Rightarrow> os \<Rightarrow> addr \<Rightarrow> addr \<Rightarrow> nat \<Rightarrow> int \<Rightarrow> swap_disk swap_fs \<Rightarrow> swap_disk swap_fs" where
  "ufs_fs n os p c gtype dirn fs = fs\<lparr>fs_create := ufs_create os p c gtype dirn, fs_write := ufs_write n os p\<rparr>"

text \<open>The stream of the object, on a system whose writes are only ever interrupted.\<close>

definition ufs_stream :: "os \<Rightarrow> addr \<Rightarrow> addr \<Rightarrow> swap_disk \<Rightarrow> 8 word list \<Rightarrow> bool" where
  "ufs_stream os p c f bs \<longleftrightarrow> posix os \<and> soft_errors os \<and> (\<exists>S F file. io_stream f p c S F 1 file bs)"

text \<open>A directory with a free number, on a system that opens the file.\<close>

definition ufs_ready :: "os \<Rightarrow> addr \<Rightarrow> addr \<Rightarrow> nat \<Rightarrow> int \<Rightarrow> swap_disk \<Rightarrow> bool" where
  "ufs_ready os p c gtype dirn f \<longleftrightarrow> posix os \<and> soft_errors os \<and> cb_inv (d_cb f) \<and>
     p \<noteq> c \<and> cb_mem (d_cb f) p = None \<and> cb_mem (d_cb f) c = None \<and>
     (\<forall>t \<in> {gtype, u_type f}. 0 < t \<and> t < length (cbdata_index (d_cb f)) \<and> ci_pool (cbdata_index (d_cb f) ! t) \<noteq> None) \<and>
     (\<exists>D. u_dirs f dirn = Some D \<and> ud_l1 D \<noteq> 0 \<and> ud_l2 D \<noteq> 0 \<and> fm_ok (ui_map (ud_info D)) \<and>
        0 \<le> ui_suggest (ud_info D) \<and> card (fm_set (ui_map (ud_info D))) < 2 ^ 24) \<and> dirn \<noteq> - 1 \<and>
     (\<exists>fd. os_open os (d_calls f) = Inl fd \<and> 0 \<le> fd \<and> d_fds f fd = None)"

lemma storeUfsCreate_ready:
  assumes "u_dirs w dirn = Some D" "ud_l1 D \<noteq> 0" "ud_l2 D \<noteq> 0" "fm_ok (ui_map (ud_info D))" "0 \<le> ui_suggest (ud_info D)"
    "card (fm_set (ui_map (ud_info D))) < 2 ^ 24" "os_open os (d_calls w) = Inl fd" "0 \<le> fd" "d_fds w fd = None"
    "0 < u_type w" "u_type w < length (cbdata_index (d_cb w))" "ci_pool (cbdata_index (d_cb w) ! u_type w) \<noteq> None"
    "cb_mem (d_cb w) p = None" "cb_inv (d_cb w)" "cb_mem (d_cb w) c = Some cc" "c \<noteq> p"
  shows "\<exists>w1. storeUfsCreate os w p dirn e cl (Some c) = Some (True, w1) \<and> ufs.more w1 = ufs.more w"
proof -
  obtain filn info where a: "storeUfsDirMapBitAllocate (ud_info D) = Some (filn, info)"
    using ufs_allocate_ok [OF assms(4-6)] by blast
  define D1 where "D1 = D\<lparr>ud_info := info\<lparr>ui_suggest := filn + 1\<rparr>\<rparr>"
  obtain path where path: "storeUfsDirFullPath D1 filn = Some path" using assms(2,3) by (simp add: storeUfsDirFullPath_def D1_def)
  obtain cb where cb: "cbdataInternalAlloc (d_cb w) (u_type w) p = Some cb" using assms(10-13) by (simp add: cbdataInternalAlloc_def)
  have cb': "cb_inv cb" "cb_mem cb c = Some cc" using cbdataInternalAlloc_ok [OF assms(14) cb] assms(15,16) by simp_all
  obtain cb2 where "cbdataLock cb (Some c) = Some cb2" using cbdataLock_ok(1) [OF cb'] by blast
  then show ?thesis using assms(1,7-9) a path cb
    by (simp add: storeUfsCreate_def D1_def [symmetric] put_dir_def file_open_def fd_open_def put_fd_def new_io_def put_io_def
        storeUfsDirReplAdd_def Let_def)
qed

lemma with_store_simps [simp]:
  "the_store (with_store w s) = s" "d_cb (with_store w s) = d_cb w" "u_dirs (with_store w s) = u_dirs w" "u_type (with_store w s) = u_type w"
  "d_fds (with_store w s) = d_fds w" "d_calls (with_store w s) = d_calls w" "u_sio (with_store w s) = u_sio w" "d_files (with_store w s) = d_files w"
  by (simp_all add: with_store_def the_store_def)

lemma io_stream_with_store [simp]: "io_stream (with_store w s) p c S F n file bs = io_stream w p c S F n file bs"
  by (simp add: io_stream_def)

lemma ufs_create_ok:
  assumes "ufs_ready os p c gtype dirn f"
  shows "\<exists>f' sio. ufs_create os p c gtype dirn f s a = Some (Some sio, f', s) \<and> ufs_stream os p c f' [] \<and> sio_offset sio = 0"
proof -
  have f: "cb_inv (d_cb f)" "p \<noteq> c" "cb_mem (d_cb f) p = None" "cb_mem (d_cb f) c = None" "dirn \<noteq> - 1" "posix os" "soft_errors os"
    "0 < u_type f" "u_type f < length (cbdata_index (d_cb f))" "ci_pool (cbdata_index (d_cb f) ! u_type f) \<noteq> None"
    "0 < gtype" "gtype < length (cbdata_index (d_cb f))" "ci_pool (cbdata_index (d_cb f) ! gtype) \<noteq> None"
    using assms by (simp_all add: ufs_ready_def)
  obtain D where D: "u_dirs f dirn = Some D" "ud_l1 D \<noteq> 0" "ud_l2 D \<noteq> 0" "fm_ok (ui_map (ud_info D))" "0 \<le> ui_suggest (ud_info D)"
    "card (fm_set (ui_map (ud_info D))) < 2 ^ 24" using assms by (auto simp: ufs_ready_def)
  obtain fd where fd: "os_open os (d_calls f) = Inl fd" "0 \<le> fd" "d_fds f fd = None" using assms by (auto simp: ufs_ready_def)
  obtain cb where cb: "cbdataInternalAlloc (d_cb f) gtype c = Some cb" using f(4,11-13) by (simp add: cbdataInternalAlloc_def)
  from cbdataInternalAlloc_ok [OF f(1) cb] have cb': "cb_inv cb" "cbdata_index cb = cbdata_index (d_cb f)" "cb_mem cb p = None"
    "cb_mem cb c = Some \<lparr>c_valid = True, c_locks = 0, c_type = gtype, c_y = CBDATA_COOKIE c\<rparr>" using f(2,3) by simp_all
  define w where "w = with_store (f\<lparr>d_cb := cb\<rparr>) s"
  have w: "u_dirs w dirn = Some D" "os_open os (d_calls w) = Inl fd" "d_fds w fd = None" "d_cb w = cb" "u_type w = u_type f" "the_store w = s"
    using D(1) fd by (simp_all add: w_def)
  have t: "0 < u_type w" "u_type w < length (cbdata_index (d_cb w))" "ci_pool (cbdata_index (d_cb w) ! u_type w) \<noteq> None"
    "cb_mem (d_cb w) p = None" "cb_inv (d_cb w)" using w(4,5) cb'(1-3) f(8-10) by simp_all
  have c: "cb_mem (d_cb w) c = Some \<lparr>c_valid = True, c_locks = 0, c_type = gtype, c_y = CBDATA_COOKIE c\<rparr>" "c \<noteq> p"
    using w(4) cb'(4) f(2) by simp_all
  obtain w1 where w1: "storeUfsCreate os w p dirn a FILE_CLOSED (Some c) = Some (True, w1)" "ufs.more w1 = ufs.more w"
    using storeUfsCreate_ready [OF w(1) D(2-6) w(2) fd(2) w(3) t c] by blast
  from storeUfsCreate_stream [OF w1(1)] w(4) cb' obtain S F where S: "io_stream w1 p c S F 0 [] []" by auto
  obtain cb2 where cb2: "cbdataLock (d_cb w1) (Some p) = Some cb2" "io_stream (w1\<lparr>d_cb := cb2\<rparr>) p c S F 1 [] []"
    using io_stream_lock [OF S] by auto
  have "get_io w1 p = Some S" using io_stream_alive [OF S] by simp
  moreover have "the_store w1 = s" using w1(2) w(6) by (simp add: the_store_def)
  ultimately have "ufs_create os p c gtype dirn f s a = Some (Some (io_view S), w1\<lparr>d_cb := cb2\<rparr>, s)"
    using cb w1(1) cb2(1) f(5) by (simp add: ufs_create_def storeCreate_def w_def)
  moreover have "sio_offset (io_view S) = 0" using S by (simp add: io_stream_def io_view_def storeOffset_def)
  ultimately show ?thesis using cb2(2) f(6,7) by (auto simp: ufs_stream_def)
qed

lemma ufs_write_ok:
  assumes "ufs_stream os p c f bs" "bytes \<noteq> []" "s_entries s a = Some e" "e_mem_obj e = Some mem" "mem_sio mem = Some sio"
  shows "\<exists>f' sio'. ufs_write n os p f s a bytes = Some (f', put_mem s a e (mem\<lparr>mem_sio := Some sio'\<rparr>)) \<and> ufs_stream os p c f' (bs @ bytes) \<and>
    sio_offset sio' \<le> int (length (bs @ bytes))"
proof -
  obtain S F "file" where S: "posix os" "soft_errors os" "io_stream (with_store f s) p c S F 1 file bs"
    using assms(1) by (auto simp: ufs_stream_def)
  from storeWrite_ok [OF S(1,3) assms(2), of None] S(2) obtain w1 S1 F1 file1 where
    r: "stream_after (with_store f s) p c S F 1 (bs @ bytes) DISK_OK w1 S1 F1 file1"
      "storeWrite os (swapout_closed n a) (with_store f s) p bytes None = Some w1" by auto
  have s1: "io_stream w1 p c S1 F1 1 file1 (bs @ bytes)" "ufs.more w1 = ufs.more (with_store f s)"
    using r(1) by (simp_all add: stream_after_def io_frame_def)
  then have "the_store w1 = s" by (simp add: the_store_def with_store_def)
  moreover have "get_io w1 p = Some S1" using io_stream_alive [OF s1(1)] by simp
  ultimately have "ufs_write n os p f s a bytes = Some (w1, put_mem s a e (mem\<lparr>mem_sio := Some (io_view S1)\<rparr>))"
    using r(2) assms(3-5) by (simp add: ufs_write_def Let_def)
  moreover have "file1 @ fd_pending F1 = bs @ bytes" "io_offset S1 = int (length file1)" using s1(1) by (simp_all add: io_stream_def)
  then have "io_offset S1 \<le> int (length (bs @ bytes))" by (metis length_append of_nat_mono le_add1)
  moreover have "ufs_stream os p c w1 (bs @ bytes)" using s1(1) S(1,2) by (auto simp: ufs_stream_def)
  ultimately show ?thesis by (intro exI [of _ w1] exI [of _ "io_view S1"]) (simp add: io_view_def storeOffset_def)
qed

interpretation ufs_writer: swap_writer "ufs_fs n os p c gtype dirn fs" "ufs_stream os p c" "ufs_ready os p c gtype dirn"
  for n os p c gtype dirn fs
  by unfold_locales (simp_all add: ufs_fs_def ufs_create_ok ufs_write_ok del: length_append)

subsection \<open>What a swap-out passes on\<close>

text \<open>C2: A swap-out passes the object to its file. The entry may be swapped out (it is not aborted, special or in
  memory, and \<open>storeSwapOutAble\<close>), there are data to pass, a page at least if the object is still arriving; the
  swap-out is not deferred, neither by \<open>store_maxobjsize\<close> nor by the limit on open disk files; the file and its
  queue hold what was passed so far, or the file is still to be created and can be; and no write fails. Then
  \<open>storeSwapOut\<close> returns, and the file followed by the bytes that wait in the descriptor's queue is the swap file
  header followed by the object's bytes from its first byte on: all of them when the object is complete, and then
  the file is closed, and all but less than a page when it is still arriving, and then the conditions on the
  file hold again for the next call. This holds through the trimming of the memory copy that comes before.\<close>
theorem swap_out_passes_the_object:
  assumes e: "s_entries s a = Some e" "e_mem_obj e = Some mem" and m: "may_swap (ufs_fs n os p c gtype dirn fs) s e mem D"
    and o: "swap_open (ufs_stream os p c) hb f e mem D \<or> swap_new hb s a e mem D \<and> ufs_ready os p c gtype dirn f"
  shows "\<exists>f' s' e' mem' S F file q. storeSwapOut (ufs_fs n os p c gtype dirn fs) f s a = Some (f', s') \<and>
    s_entries s' a = Some e' \<and> e_mem_obj e' = Some mem' \<and> e_swap_status e' = SWAPOUT_WRITING \<and>
    get_io f' p = Some S \<and> d_fds f' (io_fd S) = Some F \<and> d_files f' (f_path F) = Some file \<and>
    file @ fd_pending F = hb @ bytes_of_string (take q D) \<and>
    (if e_store_status e = STORE_PENDING
     then swap_open (ufs_stream os p c) hb f' e' mem' D \<and> mem_queue_offset mem' = int q \<and> length D < q + SM_PAGE_SIZE
     else q = length D \<and> mem_sio mem' = None \<and> (\<exists>i j evs. s_events s' = evs @ [FsClose a i j]))"
proof -
  let ?P = "e_store_status e = STORE_PENDING" and ?stream = "ufs_stream os p c"
  have "\<exists>f' s'. storeSwapOut (ufs_fs n os p c gtype dirn fs) f s a = Some (f', s') \<and> swapped ?stream hb ?P f' s' a D"
    using ufs_writer.storeSwapOut_open [OF e m] ufs_writer.storeSwapOut_new [OF e m] o by blast
  then obtain f' s' where r: "storeSwapOut (ufs_fs n os p c gtype dirn fs) f s a = Some (f', s')" "swapped ?stream hb ?P f' s' a D" by blast
  from r(2) obtain e' mem' where e': "s_entries s' a = Some e'" "e_mem_obj e' = Some mem'" "e_swap_status e' = SWAPOUT_WRITING"
    "?P \<longleftrightarrow> e_store_status e' = STORE_PENDING"
    "if ?P then swap_open ?stream hb f' e' mem' D \<and> int (length D) - mem_queue_offset mem' < int SM_PAGE_SIZE
     else mem_sio mem' = None \<and> ?stream f' (hb @ bytes_of_string D) \<and> (\<exists>i j evs. s_events s' = evs @ [FsClose a i j])"
    by (auto simp: swapped_def)
  define q where "q = (if ?P then nat (mem_queue_offset mem') else length D)"
  have q: "?stream f' (hb @ bytes_of_string (take q D))" using e'(4,5) by (auto simp: q_def swap_open_def writing_def)
  then obtain S F "file" where S: "io_stream f' p c S F 1 file (hb @ bytes_of_string (take q D))" by (auto simp: ufs_stream_def)
  have qs: "if ?P then swap_open ?stream hb f' e' mem' D \<and> mem_queue_offset mem' = int q \<and> length D < q + SM_PAGE_SIZE
     else q = length D \<and> mem_sio mem' = None \<and> (\<exists>i j evs. s_events s' = evs @ [FsClose a i j])"
  proof (cases ?P)
    case True
    then have "0 \<le> mem_queue_offset mem'" using e'(5) by (simp add: swap_open_def writing_def)
    then show ?thesis using True e'(5) by (simp add: q_def) linarith
  qed (use e'(5) in \<open>simp add: q_def\<close>)
  show ?thesis using r(1) e'(1-3) io_stream_alive [OF S] S qs
    by (intro exI [of _ f'] exI [of _ s'] exI [of _ e'] exI [of _ mem'] exI [of _ S] exI [of _ F] exI [of _ "file"] exI [of _ q])
      (auto simp: io_stream_def)
qed

text \<open>A complete object of three bytes in an empty directory.\<close>

definition swap_demo_mem :: MemObject where
  "swap_demo_mem = demo_mem_obj\<lparr>mem_data_hdr := \<lparr>m_nodes = [\<lparr>n_data = ''abc'', n_uses = 0\<rparr>], origin_offset = 0\<rparr>, mem_inmem_hi := 3, mem_inmem_lo := 0,
     mem_sio := None, mem_memnode := None, mem_queue_offset := 0, mem_object_sz := 3\<rparr>"

definition swap_demo_entry :: StoreEntry where
  "swap_demo_entry = demo_entry\<lparr>e_mem_obj := Some swap_demo_mem, e_flags := 2 ^ ENTRY_CACHABLE, e_store_status := STORE_OK,
     e_swap_status := SWAPOUT_NONE, e_mem_status := NOT_IN_MEMORY\<rparr>"

definition swap_demo :: store where
  "swap_demo = (demo_store undefined)\<lparr>s_links := [1 \<mapsto> \<lparr>hl_key = Some (replicate 16 7), hl_next = None\<rparr>], s_entries := [1 \<mapsto> swap_demo_entry]\<rparr>"


definition swap_demo_disk :: "swap_disk" where
  "swap_demo_disk = (io_demo \<lparr>w_store = swap_demo, w_swapDirs = (\<lambda>_. ''/cache''), w_files = (\<lambda>_ _. None), w_tables = (\<lambda>_. []), w_swap_outs = 0\<rparr>)
     \<lparr>u_dirs := [0 \<mapsto> io_demo_dir\<lparr>ud_info := \<lparr>ui_map = file_map_create, ui_suggest = 0\<rparr>\<rparr>],
      d_cb := \<lparr>cb_mem = (\<lambda>_. None), cbdataCount = 0, cbdata_index = [\<lparr>ci_pool = None, ci_free_func = False\<rparr>,
        \<lparr>ci_pool = Some (''storeIOState'', 100), ci_free_func = True\<rparr>, \<lparr>ci_pool = Some (''generic_cbdata'', 8), ci_free_func = False\<rparr>], cb_destroyed = []\<rparr>\<rparr>"

text \<open>Each write takes one byte.\<close>

definition slow_os :: os where
  "slow_os = \<lparr>os_open = (\<lambda>_. Inl 7), os_write = (\<lambda>_ len. Done (min 1 len)), os_read = (\<lambda>_ len. Done len)\<rparr>"

definition swap_demo_fs :: "swap_disk swap_fs" where
  "swap_demo_fs = \<lparr>fs_create = (\<lambda>f s a. None), fs_write = (\<lambda>f s a bs. None), fs_reopen = (\<lambda>_. None), store_maxobjsize = 0, memInUse = (\<lambda>_. 0),
     store_pages_max = 0, mem_walker = (\<lambda>_. [])\<rparr>"

lemma swap_demo_ready: "ufs_ready slow_os 5 6 2 0 swap_demo_disk"
proof -
  have "n_files_in_map file_map_create = 0" by (simp add: file_map_create_def Let_def)
  then have "card (fm_set file_map_create) = 0" using file_map_create_ok by (simp add: fm_ok_def)
  then show ?thesis using file_map_create_ok
    by (simp add: ufs_ready_def swap_demo_disk_def io_demo_def io_demo_dir_def slow_os_def posix_def soft_errors_def cb_inv_def)
qed

lemma swap_demo_flags: "has_flag swap_demo_entry b \<longleftrightarrow> b = ENTRY_CACHABLE"
proof -
  have f: "e_flags swap_demo_entry = 2 ^ 5" by (simp add: swap_demo_entry_def)
  show ?thesis unfolding EBIT_TEST_bit f bit_exp_iff by (auto simp: possible_bit_def)
qed

lemma swap_demo_may: "may_swap (ufs_fs n slow_os 5 6 2 0 swap_demo_fs) swap_demo swap_demo_entry swap_demo_mem ''abc''"
  unfolding may_swap_def storeSwapOutAble_def swap_demo_flags
  by (simp add: swap_demo_entry_def swap_demo_mem_def swap_demo_def demo_store_def storeTooManyDiskFilesOpen_def demo_config_def)

lemma swap_demo_new: "\<exists>hb. swap_new hb swap_demo 1 swap_demo_entry swap_demo_mem ''abc'' \<and> hb \<noteq> []"
proof -
  let ?e = "swap_demo_entry\<lparr>e_swap_status := SWAPOUT_WRITING\<rparr>"
  have d: "data_ok swap_demo_mem ''abc''"
    by (simp add: data_ok_def swap_demo_mem_def mem_hdr_wf_def mem_bytes_def SM_PAGE_SIZE_def)
  have v: "cachable_verdict swap_demo swap_demo_entry = Some yes_Default"
    unfolding cachable_verdict_def storeCheckTooSmall_def swap_demo_flags
    by (simp add: swap_demo_entry_def swap_demo_mem_def swap_demo_def demo_store_def demo_mem_obj_def storeTooManyDiskFilesOpen_def demo_config_def)
  have "e_mem_obj ?e = Some swap_demo_mem" "e_swap_status ?e = SWAPOUT_WRITING" "meta_fits swap_demo_mem"
    by (simp_all add: swap_demo_entry_def swap_demo_mem_def demo_mem_obj_def meta_fits_def cstring_def)
  from build_packs [OF this(1,2) _ this(3), of "replicate 16 7"] obtain T hb where
    T: "storeSwapMetaBuild (replicate 16 7) ?e = Some T" "storeSwapMetaPack T = Some (hb, int (length hb))" and
    u: "\<forall>r. storeSwapMetaUnpack (hb @ r) = Some (T, Some (int (length hb)))" by auto
  from u [rule_format, of "[]"] have hb: "hb \<noteq> []" by (auto simp: storeSwapMetaUnpack_def arr_get_def)
  then show ?thesis unfolding swap_new_def swap_demo_flags using d v T hb
    by (intro exI [of _ hb] conjI exI [of _ "replicate 16 7"] exI [of _ T])
      (simp_all add: link_key_def swap_demo_def, simp_all add: swap_demo_entry_def swap_demo_mem_def)
qed

theorem swap_out_passes_the_object_witness:
  "\<exists>hb f' s' S F file. storeSwapOut (ufs_fs 5 slow_os 5 6 2 0 swap_demo_fs) swap_demo_disk swap_demo 1 = Some (f', s') \<and>
    get_io f' 5 = Some S \<and> d_fds f' (io_fd S) = Some F \<and> d_files f' (f_path F) = Some file \<and>
    file @ fd_pending F = hb @ bytes_of_string ''abc'' \<and> hb \<noteq> []"
proof -
  obtain hb where hb: "swap_new hb swap_demo 1 swap_demo_entry swap_demo_mem ''abc''" "hb \<noteq> []" using swap_demo_new by blast
  have e: "s_entries swap_demo 1 = Some swap_demo_entry" "e_mem_obj swap_demo_entry = Some swap_demo_mem" "e_store_status swap_demo_entry = STORE_OK"
    by (simp_all add: swap_demo_def swap_demo_entry_def)
  from swap_out_passes_the_object [OF e(1,2) swap_demo_may disjI2 [OF conjI [OF hb(1) swap_demo_ready]], of 5] e(3) hb(2)
  show ?thesis by fastforce
qed

subsection \<open>The end of a swap-out\<close>

text \<open>
  What holds when the file system reports the end of a swap-out: the data in memory are sound and all of them
  were passed on. If the swap-out holds the last lock, then the object is complete, has no clients, and
  refers to no other entry.
\<close>

definition swap_finished :: "StoreEntry \<Rightarrow> MemObject \<Rightarrow> string \<Rightarrow> bool" where
  "swap_finished e mem D \<longleftrightarrow> e_swap_status e = SWAPOUT_WRITING \<and> \<not> has_flag e ENTRY_SPECIAL \<and> e_mem_status e = NOT_IN_MEMORY \<and>
     data_ok mem D \<and> queue_ok False mem \<and> mem_queue_offset mem = int (length D) \<and> D \<noteq> [] \<and>
     (e_lock_count e = 1 \<longrightarrow> e_store_status e = STORE_OK \<and> mem_nclients mem = 0 \<and> mem_ims_entry mem = None \<and> mem_old_entry mem = None)"

lemma yes_writing_able:
  assumes "cachable_verdict s e = Some yes_writing" "e_mem_obj e = Some mem" "e_swap_status e = SWAPOUT_DONE"
  shows "\<not> has_flag e RELEASE_REQUEST" "has_flag e ENTRY_CACHABLE" "mem_inmem_hi mem \<le> maxObjectSize (s_config s)"
  using assms by (auto simp: cachable_verdict_def Let_def split: if_splits)

lemma maintain_frame:
  assumes "storeSwapOutMaintainMemObject s a = Some (1, s')" "s_entries s a = Some e" "s_entries s' a = Some e'"
    "\<not> has_flag e RELEASE_REQUEST"
  shows "s_table s' = s_table s \<and> s_youtube s' = s_youtube s \<and> \<not> has_flag e' RELEASE_REQUEST"
  using assms unfolding storeSwapOutMaintainMemObject_def
  by (auto simp: Let_def storeResumeRead_def put_entry_def put_event_def flag_clr_def ebit_simps split: if_splits option.splits Option.bind_splits)

text \<open>The lock of the swap-out is given up: the entry stays, in memory if its data are still whole, else on disk only.\<close>

lemma unlock_swapped_out:
  assumes e: "s_entries s a = Some e" "e_mem_obj e = Some mem" and n: "3 \<le> n"
    and f: "\<not> has_flag e RELEASE_REQUEST" "e_swap_status e = SWAPOUT_DONE" "mem_sio mem = None" "e_mem_status e = NOT_IN_MEMORY"
    and l: "e_lock_count e = 1 \<longrightarrow> e_store_status e = STORE_OK \<and> mem_nclients mem = 0 \<and> mem_ims_entry mem = None \<and> mem_old_entry mem = None"
  shows "\<exists>s'. storeUnlockObject n s a = Some s' \<and> s_entries s' a \<noteq> None \<and> s_table s' = s_table s \<and> s_links s' = s_links s \<and>
    s_youtube s' = s_youtube s"
proof -
  obtain m where m: "n = Suc (Suc (Suc m))" using n by (metis Suc_le_D numeral_3_eq_3 Suc_le_mono)
  define e1 where "e1 = e\<lparr>e_lock_count := e_lock_count e - 1\<rparr>"
  have e1: "e_mem_obj e1 = Some mem" "\<not> has_flag e1 RELEASE_REQUEST" "e_swap_status e1 = SWAPOUT_DONE" "e_mem_status e1 = NOT_IN_MEMORY"
    "e_store_status e1 = e_store_status e" using e f by (simp_all add: e1_def)
  have u: "storeUnlockObject n s a = unlock_body (store_ops (Suc (Suc m)) OpRelease) (store_ops (Suc (Suc m)) OpPurgeMem) s a"
    unfolding m by (simp add: storeUnlockObject_def)
  show ?thesis
  proof (cases "e_lock_count e = 1")
    case False
    then show ?thesis unfolding u using e(1) by (simp add: unlock_body_def Let_def put_entry_def)
  next
    case True
    note k = l [rule_format, OF True]
    have c0: "e_lock_count e1 = 0" "e_store_status e1 = STORE_OK" using True k e1(5) by (simp_all add: e1_def)
    have p: "storePendingNClients e1 = 0" using e1(1) k by (simp add: storePendingNClients_def)
    define s1 where "s1 = put_entry (put_entry s a e1) a e1"
    have s1: "s_entries s1 a = Some e1" "s_table s1 = s_table s" "s_links s1 = s_links s" "s_youtube s1 = s_youtube s"
      by (simp_all add: s1_def put_entry_def)
    have red: "unlock_body R P s a =
       (if storeKeepInMemory e1
        then do {
          s \<leftarrow> storeEntryDereferenced s1 a;
          s \<leftarrow> storeSetMemStatus s a IN_MEMORY;
          e \<leftarrow> s_entries s a;
          mem \<leftarrow> e_mem_obj e;
          Some (put_entry s a (e\<lparr>e_mem_obj := Some (mem\<lparr>mem_request := None\<rparr>)\<rparr>)) }
        else do { s \<leftarrow> P s1 a; storeEntryDereferenced s a })" for R P
      unfolding unlock_body_def e(1) Option.bind.bind_lunit Let_def e1_def [symmetric]
      using c0 e1(2) p by (simp add: s1_def c_assert_def)
    show ?thesis
    proof (cases "storeKeepInMemory e1")
      case keep: True
      then have "mem_inmem_lo mem = 0" using e1(1) by (auto simp: storeKeepInMemory_def split: if_splits)
      then show ?thesis unfolding u red using s1 e1 keep
        by (simp add: Let_def storeEntryDereferenced_def storeSetMemStatus_def put_entry_def put_event_def c_assert_def)
    next
      case drop: False
      show ?thesis unfolding u red using s1 e1 drop f(3) k
        by (simp add: Let_def purgeMem_body_def destroyMem_body_def storeEntryDereferenced_def storeSetMemStatus_def
            put_entry_def put_event_def c_assert_def split: prod.split)
    qed
  qed
qed

text \<open>The whole handler, without an error: the chunk is recorded in the table and in the table file, the index is as
  before, and the entry is still there.\<close>

lemma storeSwapOutFileClosed_rep:
  assumes rdy: "swapout_ready w a e mem key" and fin: "swap_finished e mem D" and n: "3 \<le> n"
    and pre: "getStoredFilePrefix w e = Some prefix" and u: "isYouTubeUrl (mem_url mem)" "url_chunk_id (mem_url mem) = Some (lmt, sr, er)"
    and r: "yt_rep (s_youtube (w_store w)) cs" "int (length cs) < 2 ^ 31 - 1" and c: "c = chunk_for lmt sr er prefix mem key"
  shows "\<exists>w'. storeSwapOutFileClosed n w a 0 = Some w' \<and> yt_rep (s_youtube (w_store w')) (cs @ [c]) \<and>
    s_table (w_store w') = s_table (w_store w) \<and> s_links (w_store w') = s_links (w_store w) \<and> w_swapDirs w' = w_swapDirs w \<and>
    w_tables w' = (w_tables w)(e_swap_dirn e := w_tables w (e_swap_dirn e) @ record_of c) \<and> s_entries (w_store w') a \<noteq> None"
proof -
  define e1 where "e1 = e\<lparr>e_swap_file_sz := (mem_object_sz mem + mem_swap_hdr_sz mem) mod 2 ^ 32, e_swap_status := SWAPOUT_DONE\<rparr>"
  define mem2 where "mem2 = mem\<lparr>mem_sio := None\<rparr>"
  define e2 where "e2 = e1\<lparr>e_mem_obj := Some mem2\<rparr>"
  obtain w1 where w1: "swapout_done w a = Some w1" "yt_rep (s_youtube (w_store w1)) (cs @ [c])" "s_table (w_store w1) = s_table (w_store w)"
    "s_links (w_store w1) = s_links (w_store w)" "s_config (w_store w1) = s_config (w_store w)" "w_swapDirs w1 = w_swapDirs w"
    "s_entries (w_store w1) = (s_entries (w_store w))(a \<mapsto> e1)"
    "w_tables w1 = (w_tables w)(e_swap_dirn e := w_tables w (e_swap_dirn e) @ record_of c)"
    using swapout_done_rep [OF rdy pre u r c] unfolding e1_def by blast
  have e: "s_entries (w_store w) a = Some e" "e_mem_obj e = Some mem" "cachable_verdict (w_store w) e1 = Some yes_writing"
    using rdy by (simp_all add: swapout_ready_def e1_def)
  have f: "e_swap_status e = SWAPOUT_WRITING" "\<not> has_flag e ENTRY_SPECIAL" "e_mem_status e = NOT_IN_MEMORY" "data_ok mem D" "queue_ok False mem"
    "mem_queue_offset mem = int (length D)" "D \<noteq> []"
    "e_lock_count e = 1 \<longrightarrow> e_store_status e = STORE_OK \<and> mem_nclients mem = 0 \<and> mem_ims_entry mem = None \<and> mem_old_entry mem = None"
    using fin unfolding swap_finished_def by blast+
  have e1: "e_mem_obj e1 = Some mem" "e_swap_status e1 = SWAPOUT_DONE" using e(2) by (simp_all add: e1_def)
  note y = yes_writing_able [OF e(3) e1]
  define s2 where "s2 = put_entry (w_store w1) a e2"
  have s2: "s_entries s2 a = Some e2" "e_mem_obj e2 = Some mem2" "s_config s2 = s_config (w_store w)" "s_table s2 = s_table (w_store w)"
    "s_links s2 = s_links (w_store w)" "s_youtube s2 = s_youtube (w_store w1)"
    using w1(3-5) by (simp_all add: s2_def e2_def put_entry_def)
  have "queue_ok False mem2" using f(5) by (cases "mem_memnode mem") (simp_all add: mem2_def queue_ok_def)
  then have d: "data_ok mem2 D" "queue_ok False mem2" using f(4) by (simp_all add: mem2_def data_ok_def)
  have hi: "mem_inmem_hi mem = int (length D)" using f(4) by (simp add: data_ok_def)
  have g: "\<not> has_flag e2 ENTRY_SPECIAL" "e_mem_status e2 = NOT_IN_MEMORY" "\<not> has_flag e2 RELEASE_REQUEST" "has_flag e2 ENTRY_CACHABLE"
    using f(2,3) y(1,2) by (simp_all add: e2_def e1_def)
  have able: "storeSwapOutAble s2 e2 mem2" using g(4) y(3) s2(3) f(6,7) hi by (simp add: storeSwapOutAble_def mem2_def)
  have od: "storeSwapOutObjectBytesOnDisk mem2 \<le> mem_queue_offset mem2" by (simp add: storeSwapOutObjectBytesOnDisk_def mem2_def)
  from maintain_ok [OF s2(1,2) g(1,2) able d od] obtain s3 e3 mem3 where
    m: "storeSwapOutMaintainMemObject s2 a = Some (1, s3)" "s_entries s3 a = Some e3" "e_mem_obj e3 = Some mem3" "s_links s3 = s_links s2"
      "mem3 = mem2\<lparr>mem_inmem_lo := mem_inmem_lo mem3, mem_data_hdr := mem_data_hdr mem3, mem_serverfd := mem_serverfd mem3\<rparr>"
      "e3 = e2\<lparr>e_mem_obj := Some mem3, e_flags := e_flags e3\<rparr>" by blast
  note fr = maintain_frame [OF m(1) s2(1) m(2) g(3)]
  have e3: "e_swap_status e3 = SWAPOUT_DONE" "e_mem_status e3 = NOT_IN_MEMORY" "e_lock_count e3 = e_lock_count e" "e_store_status e3 = e_store_status e"
    using f(3) by (subst m(6), simp add: e2_def e1_def)+
  have mem3: "mem_sio mem3 = None" "mem_nclients mem3 = mem_nclients mem" "mem_ims_entry mem3 = mem_ims_entry mem" "mem_old_entry mem3 = mem_old_entry mem"
    by (subst m(5), simp add: mem2_def)+
  from unlock_swapped_out [OF m(2,3) n conjunct2 [OF conjunct2 [OF fr]] e3(1) mem3(1) e3(2)] f(8) e3(3,4) mem3(2-4) obtain s4 where
    s4: "storeUnlockObject n s3 a = Some s4" "s_entries s4 a \<noteq> None" "s_table s4 = s_table s3" "s_links s4 = s_links s3" "s_youtube s4 = s_youtube s3"
    by auto
  have "storeSwapOutFileClosed n w a 0 = Some (w1\<lparr>w_store := s4\<rparr>)"
    using e(1,2) f(1) w1(1,7) e1(1) m(1) s4(1) by (simp add: storeSwapOutFileClosed_def Let_def s2_def e2_def mem2_def c_assert_def)
  then show ?thesis using w1 s2 fr s4 m(4) by simp
qed

text \<open>C1: A chunk that was swapped out is found. An entry is public, cachable and not special, the index finds it under its
  key, its URL is that of a YouTube chunk, and all its data were passed to the swap file; if the swap-out holds its last
  lock, then it is complete, has no clients and refers to no other entry. The search for the end of the header in the
  file succeeds, the name of the table file fits its buffer, and the table, which is not full, has no older chunk
  with the same \<open>lmt\<close> and range. Then \<open>storeSwapOutFileClosed\<close>, called without an error, returns, the entry is still
  there, and in the state it leaves a request without \<open>Vary\<close> whose path carries the same \<open>lmt\<close> and range, with
  whatever other parameters, is answered with that entry.\<close>
theorem swapout_closed_then_hit:
  assumes "swapout_ready w a e mem key" "swap_finished e mem D" "3 \<le> n" "length key = 16" "storeGet (w_store w) key = Some (Some a)"
    "getStoredFilePrefix w e = Some prefix" "isYouTubeUrl (mem_url mem)"
    "url_chunk_id (mem_url mem) = Some (lmt, sr, er)"
    "yt_rep (s_youtube (w_store w)) cs" "int (length cs) < 2 ^ 31 - 1" "find (chunk_matches lmt sr er) cs = None"
  shows "\<exists>w'. storeSwapOutFileClosed n w a 0 = Some w' \<and> s_entries (w_store w') a \<noteq> None \<and>
    (\<forall>req m. r_vary req = None \<and> isYouTubeUrl (r_urlpath req) \<and> url_chunk_id (r_urlpath req) = Some (lmt, sr, er) \<longrightarrow>
       storeGetPublicByRequestMethod (w_store w') req m = Some (Some a, req))"
proof -
  let ?c = "chunk_for lmt sr er prefix mem key"
  obtain w' where w': "storeSwapOutFileClosed n w a 0 = Some w'" "yt_rep (s_youtube (w_store w')) (cs @ [?c])"
    "s_table (w_store w') = s_table (w_store w)" "s_links (w_store w') = s_links (w_store w)" "s_entries (w_store w') a \<noteq> None"
    using storeSwapOutFileClosed_rep [OF assms(1-3,6-10) refl] by blast
  have g: "storeGet (w_store w') key = Some (Some a)" using w'(3,4) assms(5) by (simp add: storeGet_def)
  have "storeKeyScan (c_swapoutDigest ?c @ [NUL]) = Some key"
    using storeKeyScan_Text [OF assms(4)] by (simp add: chunk_for_def)
  then have "getMatchedSwapoutKey (s_youtube (w_store w')) lmt sr er = Some (Some key)"
    using yt.query_hit [OF w'(2) assms(11)] by (simp add: chunk_matches_def chunk_for_def)
  then show ?thesis using w'(1,5) g by (auto simp: storeGetPublicByRequestMethod_def)
qed

definition demo_video_mem :: MemObject where
  "demo_video_mem = demo_mem_obj\<lparr>mem_url := ''http://h/videoplayback?lmt=1400000000000000&range=0-99&x'',
     mem_data_hdr := \<lparr>m_nodes = [\<lparr>n_data = ''0123456789'', n_uses = 0\<rparr>], origin_offset = 0\<rparr>,
     mem_inmem_hi := 10, mem_queue_offset := 10, mem_memnode := Some 0\<rparr>"

definition demo_video :: StoreEntry where
  "demo_video = demo_entry\<lparr>e_mem_obj := Some demo_video_mem, e_flags := 0x20, e_swap_filen := 3,
     e_swap_dirn := 0, e_swap_status := SWAPOUT_WRITING, e_lock_count := 1\<rparr>"

definition demo_world :: "store \<Rightarrow> swap_world" where
  "demo_world s = \<lparr>w_store = put_entry s 1 demo_video, w_swapDirs = (\<lambda>_. ''/c''),
     w_files = (\<lambda>_ _. Some (CRLFCRLF @ [1])), w_tables = (\<lambda>_. []), w_swap_outs = 0\<rparr>"

lemma demo_video_mem_url: "mem_url demo_video_mem = ''http://h/videoplayback?lmt=1400000000000000&range=0-99&x''"
  by (simp add: demo_video_mem_def)

lemma demo_video_url:
  "isYouTubeUrl (mem_url demo_video_mem)"
  "url_chunk_id (mem_url demo_video_mem) = Some (''1400000000000000'', 0, 99)"
  unfolding demo_video_mem_url by code_simp+

lemma demo_prefix: "\<exists>prefix. getStoredFilePrefix (demo_world s) demo_video = Some prefix"
  using header_scan_found [of "CRLFCRLF @ [1]" 0 0]
  by (simp add: getStoredFilePrefix_def demo_world_def CRLFCRLF_def)

lemma demo_world_ready:
  obtains s where "swapout_ready (demo_world s) 1 demo_video demo_video_mem (replicate 16 7)"
    "storeGet (w_store (demo_world s)) (replicate 16 7) = Some (Some 1)"
    "s_youtube (w_store (demo_world s)) = yt_empty 1"
proof -
  let ?k = "replicate 16 7 :: cache_key"
  obtain s where s: "store_rep s ((\<lambda>_. [])(?k := [1]))" "s_youtube s = yt_empty 1" "s_config s = demo_config"
    by (rule demo_store_filled [of ?k]) auto
  have "link_key (s_links s) 1 = Some ?k" using store_rep_once(4) [OF s(1), of 1 ?k] by simp
  moreover have "cachable_verdict s (demo_video\<lparr>e_swap_file_sz := sz, e_swap_status := SWAPOUT_DONE\<rparr>) = Some yes_writing" for sz
    by (simp add: cachable_verdict_def demo_video_def demo_video_mem_def demo_entry_def demo_mem_obj_def s(3)
        demo_config_def storeCheckTooSmall_def EBIT_TEST_bit bit_numeral_simps)
  ultimately have "swapout_ready (demo_world s) 1 demo_video demo_video_mem ?k"
    by (simp add: swapout_ready_def demo_world_def table_path_fits_def)
      (simp add: demo_video_def EBIT_TEST_bit bit_numeral_simps)
  moreover have "storeGet (w_store (demo_world s)) ?k = Some (Some 1)"
    using storeGet_rep [OF s(1), of ?k] by (simp add: demo_world_def storeGet_def)
  ultimately show thesis using that s(2) by (simp add: demo_world_def)
qed

lemma demo_video_finished: "swap_finished demo_video demo_video_mem ''0123456789''"
proof -
  have "data_ok demo_video_mem ''0123456789''"
    by (simp add: data_ok_def demo_video_mem_def demo_mem_obj_def mem_hdr_wf_def mem_bytes_def SM_PAGE_SIZE_def)
  moreover have "\<not> has_flag demo_video ENTRY_SPECIAL" by (simp add: demo_video_def EBIT_TEST_bit bit_numeral_simps)
  moreover have "mem_ims_entry demo_video_mem = None" "mem_old_entry demo_video_mem = None" "mem_nclients demo_video_mem = 0"
    "mem_queue_offset demo_video_mem = 10" "queue_ok False demo_video_mem"
    by (simp_all add: demo_video_mem_def demo_mem_obj_def queue_ok_def)
  moreover have "e_swap_status demo_video = SWAPOUT_WRITING" "e_mem_status demo_video = NOT_IN_MEMORY" "e_store_status demo_video = STORE_OK"
    by (simp_all add: demo_video_def demo_entry_def)
  ultimately show ?thesis by (simp add: swap_finished_def)
qed

theorem swapout_closed_then_hit_witness:
  "\<exists>w w'. storeSwapOutFileClosed 3 w 1 0 = Some w' \<and> s_entries (w_store w') 1 \<noteq> None \<and>
     storeGetPublicByRequestMethod (w_store w') demo_request METHOD_GET = Some (Some 1, demo_request)"
proof -
  obtain s where s: "swapout_ready (demo_world s) 1 demo_video demo_video_mem (replicate 16 7)"
    "storeGet (w_store (demo_world s)) (replicate 16 7) = Some (Some 1)"
    "s_youtube (w_store (demo_world s)) = yt_empty 1" by (rule demo_world_ready)
  obtain prefix where p: "getStoredFilePrefix (demo_world s) demo_video = Some prefix" using demo_prefix by blast
  have "yt_rep (s_youtube (w_store (demo_world s))) []" unfolding s(3) by (rule yt_rep_empty)
  from swapout_closed_then_hit [OF s(1) demo_video_finished _ _ s(2) p demo_video_url this, of 3] demo_url_id show ?thesis
    by (fastforce simp: demo_request_def)
qed

text \<open>C10: The table file stays in step with the table. The table and the table file of the first cache directory hold the
  same chunks, with 16-character \<open>lmt\<close>s, 32-character digests and int ranges. An entry in that directory is
  public, cachable and not special, its URL is that of a YouTube chunk with a 16-character \<open>lmt\<close>, and all its
  data were passed to the swap file; if the swap-out holds its last lock, then it is complete, has no clients and refers
  to no other entry. The search for the end of the header in the file succeeds, the name of the table file fits
  its buffer, the table is not full, and the byte behind the digits that the reader copies is not a digit.
  Then \<open>storeSwapOutFileClosed\<close>, called without an error, returns, both hold that chunk at their end, and a restart
  that reads the file answers every query as the running proxy does.\<close>
theorem swapout_closed_keeps_table_file:
  assumes "swapout_ready w a e mem key" "swap_finished e mem D" "3 \<le> n" "getStoredFilePrefix w e = Some prefix" "isYouTubeUrl (mem_url mem)"
    "url_chunk_id (mem_url mem) = Some (lmt, sr, er)" "length lmt = 16" "e_swap_dirn e = 0"
    "yt_synced w cs" "int (length cs) < 2 ^ 31 - 1" "length junk = 20" "\<not> isdigit (junk ! 15)"
  shows "\<exists>w' yt'. storeSwapOutFileClosed n w a 0 = Some w' \<and> yt_synced w' (cs @ [chunk_for lmt sr er prefix mem key]) \<and>
    rebuild_youtube_table (w_swapDirs w') (w_tables w') junk (yt_empty b) = Some yt' \<and>
    (\<forall>l s e. getMatchedSwapoutKey yt' l s e = getMatchedSwapoutKey (s_youtube (w_store w')) l s e)"
proof -
  let ?c = "chunk_for lmt sr er prefix mem key"
  have r: "yt_rep (s_youtube (w_store w)) cs" using assms(9) by (simp add: yt_synced_def)
  obtain w' where w': "storeSwapOutFileClosed n w a 0 = Some w'" "yt_rep (s_youtube (w_store w')) (cs @ [?c])"
    "w_tables w' = (w_tables w)(0 := w_tables w 0 @ record_of ?c)" "w_swapDirs w' = w_swapDirs w"
    using storeSwapOutFileClosed_rep [OF assms(1-6) r assms(10) refl] assms(8) by auto
  have ok: "\<forall>c \<in> set (cs @ [?c]). chunk_ok c"
    using assms(9) chunk_for_ok [OF assms(6,7)] by (auto simp: yt_synced_def)
  have f: "w_tables w' 0 = concat (map record_of (cs @ [?c]))" using w'(3) assms(9) by (simp add: yt_synced_def)
  have "table_path_fits (w_swapDirs w 0)" using assms(1,8) by (simp add: swapout_ready_def)
  from rebuild_rep [of "w_swapDirs w" "w_tables w'" "cs @ [?c]" junk "yt_empty b"] this f ok assms(10-12) obtain yt' where
    yt': "rebuild_youtube_table (w_swapDirs w) (w_tables w') junk (yt_empty b) = Some yt'" "yt_rep yt' (cs @ [?c])"
    by auto
  have "yt_synced w' (cs @ [?c])" using w'(2) f ok by (simp add: yt_synced_def)
  with w'(1,4) yt'(1) yt.query_cong [OF yt'(2) w'(2)] show ?thesis by auto
qed

theorem swapout_closed_keeps_table_file_witness:
  "\<exists>w w' yt'. storeSwapOutFileClosed 3 w 1 0 = Some w' \<and>
     rebuild_youtube_table (w_swapDirs w') (w_tables w') (replicate 20 NUL) (yt_empty 1) = Some yt' \<and>
     (\<forall>l s e. getMatchedSwapoutKey yt' l s e = getMatchedSwapoutKey (s_youtube (w_store w')) l s e)"
proof -
  obtain s where s: "swapout_ready (demo_world s) 1 demo_video demo_video_mem (replicate 16 7)"
    "s_youtube (w_store (demo_world s)) = yt_empty 1" by (rule demo_world_ready)
  obtain prefix where p: "getStoredFilePrefix (demo_world s) demo_video = Some prefix" using demo_prefix by blast
  have "yt_synced (demo_world s) []"
    using yt_rep_empty s(2) by (simp add: yt_synced_def) (simp add: demo_world_def)
  moreover have "e_swap_dirn demo_video = 0" by (simp add: demo_video_def)
  ultimately show ?thesis
    using swapout_closed_keeps_table_file [OF s(1) demo_video_finished _ p demo_video_url, of 3 "[]" "replicate 20 NUL" 1] by auto
qed

end
