(* ===== verification/HttpHeader.thy ===== *)
theory HttpHeader
  imports HttpHdrCc HttpRange
begin

section \<open>HTTP headers (HttpHeader.c, HttpHeaderTools.c, Array.c)\<close>

text \<open>
  A header is an array of entries, in which a deleted entry leaves a hole until the array is
  repacked, with a bit mask of the fields that occur and the length of the packed header. The
  known fields are numbered by an enum. The build has no \<open>X_ACCELERATOR_VARY\<close>.

  A position in the array is the index of the slot that is looked at next, so that
  \<open>HttpHeaderInitPos\<close>, \<open>-1\<close> in C, is 0. Statistics are left out. Lengths are unbounded integers:
  the entries of a header are in memory together.
\<close>

unbundle bit_operations_syntax

subsection \<open>The known fields\<close>

definition HDR_ACCEPT :: nat where [simp]: "HDR_ACCEPT = 0"
definition HDR_ACCEPT_CHARSET :: nat where [simp]: "HDR_ACCEPT_CHARSET = 1"
definition HDR_ACCEPT_ENCODING :: nat where [simp]: "HDR_ACCEPT_ENCODING = 2"
definition HDR_ACCEPT_LANGUAGE :: nat where [simp]: "HDR_ACCEPT_LANGUAGE = 3"
definition HDR_ACCEPT_RANGES :: nat where [simp]: "HDR_ACCEPT_RANGES = 4"
definition HDR_AGE :: nat where [simp]: "HDR_AGE = 5"
definition HDR_ALLOW :: nat where [simp]: "HDR_ALLOW = 6"
definition HDR_AUTHORIZATION :: nat where [simp]: "HDR_AUTHORIZATION = 7"
definition HDR_CACHE_CONTROL :: nat where [simp]: "HDR_CACHE_CONTROL = 8"
definition HDR_CONNECTION :: nat where [simp]: "HDR_CONNECTION = 9"
definition HDR_CONTENT_BASE :: nat where [simp]: "HDR_CONTENT_BASE = 10"
definition HDR_CONTENT_DISPOSITION :: nat where [simp]: "HDR_CONTENT_DISPOSITION = 11"
definition HDR_CONTENT_ENCODING :: nat where [simp]: "HDR_CONTENT_ENCODING = 12"
definition HDR_CONTENT_LANGUAGE :: nat where [simp]: "HDR_CONTENT_LANGUAGE = 13"
definition HDR_CONTENT_LENGTH :: nat where [simp]: "HDR_CONTENT_LENGTH = 14"
definition HDR_CONTENT_LOCATION :: nat where [simp]: "HDR_CONTENT_LOCATION = 15"
definition HDR_CONTENT_MD5 :: nat where [simp]: "HDR_CONTENT_MD5 = 16"
definition HDR_CONTENT_RANGE :: nat where [simp]: "HDR_CONTENT_RANGE = 17"
definition HDR_CONTENT_TYPE :: nat where [simp]: "HDR_CONTENT_TYPE = 18"
definition HDR_TE :: nat where [simp]: "HDR_TE = 19"
definition HDR_TRANSFER_ENCODING :: nat where [simp]: "HDR_TRANSFER_ENCODING = 20"
definition HDR_TRAILER :: nat where [simp]: "HDR_TRAILER = 21"
definition HDR_COOKIE :: nat where [simp]: "HDR_COOKIE = 22"
definition HDR_DATE :: nat where [simp]: "HDR_DATE = 23"
definition HDR_ETAG :: nat where [simp]: "HDR_ETAG = 24"
definition HDR_EXPIRES :: nat where [simp]: "HDR_EXPIRES = 25"
definition HDR_FROM :: nat where [simp]: "HDR_FROM = 26"
definition HDR_HOST :: nat where [simp]: "HDR_HOST = 27"
definition HDR_IF_MATCH :: nat where [simp]: "HDR_IF_MATCH = 28"
definition HDR_IF_MODIFIED_SINCE :: nat where [simp]: "HDR_IF_MODIFIED_SINCE = 29"
definition HDR_IF_NONE_MATCH :: nat where [simp]: "HDR_IF_NONE_MATCH = 30"
definition HDR_IF_RANGE :: nat where [simp]: "HDR_IF_RANGE = 31"
definition HDR_LAST_MODIFIED :: nat where [simp]: "HDR_LAST_MODIFIED = 32"
definition HDR_LINK :: nat where [simp]: "HDR_LINK = 33"
definition HDR_LOCATION :: nat where [simp]: "HDR_LOCATION = 34"
definition HDR_MAX_FORWARDS :: nat where [simp]: "HDR_MAX_FORWARDS = 35"
definition HDR_MIME_VERSION :: nat where [simp]: "HDR_MIME_VERSION = 36"
definition HDR_PRAGMA :: nat where [simp]: "HDR_PRAGMA = 37"
definition HDR_PROXY_AUTHENTICATE :: nat where [simp]: "HDR_PROXY_AUTHENTICATE = 38"
definition HDR_PROXY_AUTHENTICATION_INFO :: nat where [simp]: "HDR_PROXY_AUTHENTICATION_INFO = 39"
definition HDR_PROXY_AUTHORIZATION :: nat where [simp]: "HDR_PROXY_AUTHORIZATION = 40"
definition HDR_PROXY_CONNECTION :: nat where [simp]: "HDR_PROXY_CONNECTION = 41"
definition HDR_PUBLIC :: nat where [simp]: "HDR_PUBLIC = 42"
definition HDR_RANGE :: nat where [simp]: "HDR_RANGE = 43"
definition HDR_REQUEST_RANGE :: nat where [simp]: "HDR_REQUEST_RANGE = 44"
definition HDR_REFERER :: nat where [simp]: "HDR_REFERER = 45"
definition HDR_RETRY_AFTER :: nat where [simp]: "HDR_RETRY_AFTER = 46"
definition HDR_SERVER :: nat where [simp]: "HDR_SERVER = 47"
definition HDR_SET_COOKIE :: nat where [simp]: "HDR_SET_COOKIE = 48"
definition HDR_UPGRADE :: nat where [simp]: "HDR_UPGRADE = 49"
definition HDR_USER_AGENT :: nat where [simp]: "HDR_USER_AGENT = 50"
definition HDR_VARY :: nat where [simp]: "HDR_VARY = 51"
definition HDR_VIA :: nat where [simp]: "HDR_VIA = 52"
definition HDR_EXPECT :: nat where [simp]: "HDR_EXPECT = 53"
definition HDR_WARNING :: nat where [simp]: "HDR_WARNING = 54"
definition HDR_WWW_AUTHENTICATE :: nat where [simp]: "HDR_WWW_AUTHENTICATE = 55"
definition HDR_AUTHENTICATION_INFO :: nat where [simp]: "HDR_AUTHENTICATION_INFO = 56"
definition HDR_X_CACHE :: nat where [simp]: "HDR_X_CACHE = 57"
definition HDR_X_CACHE_LOOKUP :: nat where [simp]: "HDR_X_CACHE_LOOKUP = 58"
definition HDR_X_FORWARDED_FOR :: nat where [simp]: "HDR_X_FORWARDED_FOR = 59"
definition HDR_X_REQUEST_URI :: nat where [simp]: "HDR_X_REQUEST_URI = 60"
definition HDR_X_SQUID_ERROR :: nat where [simp]: "HDR_X_SQUID_ERROR = 61"
definition HDR_NEGOTIATE :: nat where [simp]: "HDR_NEGOTIATE = 62"
definition HDR_X_ERROR_URL :: nat where [simp]: "HDR_X_ERROR_URL = 63"
definition HDR_X_ERROR_STATUS :: nat where [simp]: "HDR_X_ERROR_STATUS = 64"
definition HDR_X_HTTP09_FIRST_LINE :: nat where [simp]: "HDR_X_HTTP09_FIRST_LINE = 65"
definition HDR_FRONT_END_HTTPS :: nat where [simp]: "HDR_FRONT_END_HTTPS = 66"
definition HDR_PROXY_SUPPORT :: nat where [simp]: "HDR_PROXY_SUPPORT = 67"
definition HDR_KEEP_ALIVE :: nat where [simp]: "HDR_KEEP_ALIVE = 68"
definition HDR_OTHER :: nat where [simp]: "HDR_OTHER = 69"
definition HDR_ENUM_END :: nat where [simp]: "HDR_ENUM_END = 70"

text \<open>The types of field values.\<close>

definition ftInvalid :: nat where [simp]: "ftInvalid = 70"
definition ftInt :: nat where [simp]: "ftInt = 71"
definition ftStr :: nat where [simp]: "ftStr = 72"
definition ftDate_1123 :: nat where [simp]: "ftDate_1123 = 73"
definition ftETag :: nat where [simp]: "ftETag = 74"
definition ftPCc :: nat where [simp]: "ftPCc = 75"
definition ftPContRange :: nat where [simp]: "ftPContRange = 76"
definition ftPRange :: nat where [simp]: "ftPRange = 77"
definition ftDate_1123_or_ETag :: nat where [simp]: "ftDate_1123_or_ETag = 78"
definition ftSize :: nat where [simp]: "ftSize = 79"

definition HeadersAttrs :: "(string \<times> nat \<times> nat) list" where
  "HeadersAttrs = [
      (''Accept'', HDR_ACCEPT, ftStr), (''Accept-Charset'', HDR_ACCEPT_CHARSET, ftStr),
      (''Accept-Encoding'', HDR_ACCEPT_ENCODING, ftStr), (''Accept-Language'', HDR_ACCEPT_LANGUAGE, ftStr),
      (''Accept-Ranges'', HDR_ACCEPT_RANGES, ftStr), (''Age'', HDR_AGE, ftInt), (''Allow'', HDR_ALLOW, ftStr),
      (''Authorization'', HDR_AUTHORIZATION, ftStr), (''Cache-Control'', HDR_CACHE_CONTROL, ftPCc),
      (''Connection'', HDR_CONNECTION, ftStr), (''Content-Base'', HDR_CONTENT_BASE, ftStr),
      (''Content-Disposition'', HDR_CONTENT_DISPOSITION, ftStr), (''Content-Encoding'', HDR_CONTENT_ENCODING, ftStr),
      (''Content-Language'', HDR_CONTENT_LANGUAGE, ftStr), (''Content-Length'', HDR_CONTENT_LENGTH, ftSize),
      (''Content-Location'', HDR_CONTENT_LOCATION, ftStr), (''Content-MD5'', HDR_CONTENT_MD5, ftStr),
      (''Content-Range'', HDR_CONTENT_RANGE, ftPContRange), (''Content-Type'', HDR_CONTENT_TYPE, ftStr),
      (''Cookie'', HDR_COOKIE, ftStr), (''Date'', HDR_DATE, ftDate_1123), (''ETag'', HDR_ETAG, ftStr),
      (''Expires'', HDR_EXPIRES, ftDate_1123), (''From'', HDR_FROM, ftStr), (''Host'', HDR_HOST, ftStr),
      (''If-Match'', HDR_IF_MATCH, ftStr), (''If-Modified-Since'', HDR_IF_MODIFIED_SINCE, ftDate_1123),
      (''If-None-Match'', HDR_IF_NONE_MATCH, ftStr), (''If-Range'', HDR_IF_RANGE, ftDate_1123_or_ETag),
      (''Last-Modified'', HDR_LAST_MODIFIED, ftDate_1123), (''Link'', HDR_LINK, ftStr),
      (''Location'', HDR_LOCATION, ftStr), (''Max-Forwards'', HDR_MAX_FORWARDS, ftInt),
      (''Mime-Version'', HDR_MIME_VERSION, ftStr), (''Pragma'', HDR_PRAGMA, ftStr),
      (''Proxy-Authenticate'', HDR_PROXY_AUTHENTICATE, ftStr),
      (''Proxy-Authentication-Info'', HDR_PROXY_AUTHENTICATION_INFO, ftStr),
      (''Proxy-Authorization'', HDR_PROXY_AUTHORIZATION, ftStr), (''Proxy-Connection'', HDR_PROXY_CONNECTION, ftStr),
      (''Proxy-support'', HDR_PROXY_SUPPORT, ftStr), (''Public'', HDR_PUBLIC, ftStr),
      (''Range'', HDR_RANGE, ftPRange), (''Referer'', HDR_REFERER, ftStr),
      (''Request-Range'', HDR_REQUEST_RANGE, ftPRange), (''Retry-After'', HDR_RETRY_AFTER, ftStr),
      (''Server'', HDR_SERVER, ftStr), (''Set-Cookie'', HDR_SET_COOKIE, ftStr),
      (''Transfer-Encoding'', HDR_TRANSFER_ENCODING, ftStr), (''Te'', HDR_TE, ftStr),
      (''Trailer'', HDR_TRAILER, ftStr), (''Upgrade'', HDR_UPGRADE, ftStr), (''User-Agent'', HDR_USER_AGENT, ftStr),
      (''Vary'', HDR_VARY, ftStr), (''Via'', HDR_VIA, ftStr), (''Expect'', HDR_EXPECT, ftStr),
      (''Warning'', HDR_WARNING, ftStr), (''WWW-Authenticate'', HDR_WWW_AUTHENTICATE, ftStr),
      (''Authentication-Info'', HDR_AUTHENTICATION_INFO, ftStr), (''X-Cache'', HDR_X_CACHE, ftStr),
      (''X-Cache-Lookup'', HDR_X_CACHE_LOOKUP, ftStr), (''X-Forwarded-For'', HDR_X_FORWARDED_FOR, ftStr),
      (''X-Request-URI'', HDR_X_REQUEST_URI, ftStr), (''X-Squid-Error'', HDR_X_SQUID_ERROR, ftStr),
      (''X-HTTP09-First-Line'', HDR_X_HTTP09_FIRST_LINE, ftStr), (''Negotiate'', HDR_NEGOTIATE, ftStr),
      (''X-Error-URL'', HDR_X_ERROR_URL, ftStr), (''X-Error-Status'', HDR_X_ERROR_STATUS, ftInt),
      (''Front-End-Https'', HDR_FRONT_END_HTTPS, ftStr), (''Keep-Alive'', HDR_KEEP_ALIVE, ftStr),
      (''Other:'', HDR_OTHER, ftStr)]"

text \<open>\<open>Headers\<close> as \<open>httpHeaderInitModule\<close> builds it: names and types by number.\<close>

definition HeaderNames :: "string list" where
  "HeaderNames = [
      ''Accept'', ''Accept-Charset'', ''Accept-Encoding'', ''Accept-Language'', ''Accept-Ranges'', ''Age'',
      ''Allow'', ''Authorization'', ''Cache-Control'', ''Connection'', ''Content-Base'', ''Content-Disposition'',
      ''Content-Encoding'', ''Content-Language'', ''Content-Length'', ''Content-Location'', ''Content-MD5'',
      ''Content-Range'', ''Content-Type'', ''Te'', ''Transfer-Encoding'', ''Trailer'', ''Cookie'', ''Date'',
      ''ETag'', ''Expires'', ''From'', ''Host'', ''If-Match'', ''If-Modified-Since'', ''If-None-Match'',
      ''If-Range'', ''Last-Modified'', ''Link'', ''Location'', ''Max-Forwards'', ''Mime-Version'', ''Pragma'',
      ''Proxy-Authenticate'', ''Proxy-Authentication-Info'', ''Proxy-Authorization'', ''Proxy-Connection'',
      ''Public'', ''Range'', ''Request-Range'', ''Referer'', ''Retry-After'', ''Server'', ''Set-Cookie'',
      ''Upgrade'', ''User-Agent'', ''Vary'', ''Via'', ''Expect'', ''Warning'', ''WWW-Authenticate'',
      ''Authentication-Info'', ''X-Cache'', ''X-Cache-Lookup'', ''X-Forwarded-For'', ''X-Request-URI'',
      ''X-Squid-Error'', ''Negotiate'', ''X-Error-URL'', ''X-Error-Status'', ''X-HTTP09-First-Line'',
      ''Front-End-Https'', ''Proxy-support'', ''Keep-Alive'', ''Other:'']"

definition HeaderTypes :: "nat list" where
  "HeaderTypes = [
      ftStr, ftStr, ftStr, ftStr, ftStr, ftInt, ftStr, ftStr, ftPCc, ftStr, ftStr, ftStr, ftStr, ftStr, ftSize,
      ftStr, ftStr, ftPContRange, ftStr, ftStr, ftStr, ftStr, ftStr, ftDate_1123, ftStr, ftDate_1123, ftStr, ftStr,
      ftStr, ftDate_1123, ftStr, ftDate_1123_or_ETag, ftDate_1123, ftStr, ftStr, ftInt, ftStr, ftStr, ftStr, ftStr,
      ftStr, ftStr, ftStr, ftPRange, ftPRange, ftStr, ftStr, ftStr, ftStr, ftStr, ftStr, ftStr, ftStr, ftStr, ftStr,
      ftStr, ftStr, ftStr, ftStr, ftStr, ftStr, ftStr, ftStr, ftStr, ftInt, ftStr, ftStr, ftStr, ftStr, ftStr]"

lemma Headers_built:
  "httpHeaderBuildFieldsInfo HeadersAttrs HDR_ENUM_END =
     Some (map (\<lambda>i. \<lparr>fi_id = i, fi_type = HeaderTypes ! i, fi_name = HeaderNames ! i\<rparr>) [0..<HDR_ENUM_END])"
  by code_simp

lemma length_HeaderNames [simp]: "length HeaderNames = HDR_ENUM_END"
  by (simp add: HeaderNames_def)

subsection \<open>Field masks\<close>

type_synonym HttpHeaderMask = "8 word list"

definition CBIT_TEST :: "HttpHeaderMask \<Rightarrow> nat \<Rightarrow> bool" where
  "CBIT_TEST m b \<longleftrightarrow> EBIT_TEST (m ! (b div 8)) (b mod 8)"

definition CBIT_SET :: "HttpHeaderMask \<Rightarrow> nat \<Rightarrow> HttpHeaderMask" where
  "CBIT_SET m b = m[b div 8 := EBIT_SET (m ! (b div 8)) (b mod 8)]"

definition CBIT_CLR :: "HttpHeaderMask \<Rightarrow> nat \<Rightarrow> HttpHeaderMask" where
  "CBIT_CLR m b = m[b div 8 := EBIT_CLR (m ! (b div 8)) (b mod 8)]"

definition httpHeaderMaskInit :: HttpHeaderMask where
  "httpHeaderMaskInit = replicate ((HDR_ENUM_END + 7) div 8) 0"

fun httpHeaderCalcMask :: "HttpHeaderMask \<Rightarrow> nat list \<Rightarrow> HttpHeaderMask option" where
  "httpHeaderCalcMask m [] = Some m"
| "httpHeaderCalcMask m (b # bs) = do { c_assert (\<not> CBIT_TEST m b); httpHeaderCalcMask (CBIT_SET m b) bs }"

lemma CBIT_simps:
  assumes "b < 8 * length m"
  shows "CBIT_TEST (CBIT_SET m b) c \<longleftrightarrow> c = b \<or> CBIT_TEST m c"
    "CBIT_TEST (CBIT_CLR m b) c \<longleftrightarrow> c \<noteq> b \<and> CBIT_TEST m c"
proof -
  have l: "b div 8 < length m" using assms by simp
  have e: "c = b" if "c div 8 = b div 8" "c mod 8 = b mod 8" using that by (metis div_mult_mod_eq)
  show "CBIT_TEST (CBIT_SET m b) c \<longleftrightarrow> c = b \<or> CBIT_TEST m c"
    "CBIT_TEST (CBIT_CLR m b) c \<longleftrightarrow> c \<noteq> b \<and> CBIT_TEST m c"
    using l e by (cases "c div 8 = b div 8"; auto simp: CBIT_TEST_def CBIT_SET_def CBIT_CLR_def ebit_simps)+
qed

lemma CBIT_TEST_init [simp]: "b < HDR_ENUM_END \<Longrightarrow> \<not> CBIT_TEST httpHeaderMaskInit b"
  by (simp add: CBIT_TEST_def httpHeaderMaskInit_def)

lemma length_CBIT [simp]: "length (CBIT_SET m b) = length m" "length (CBIT_CLR m b) = length m"
  "length httpHeaderMaskInit = 9"
  by (simp_all add: CBIT_SET_def CBIT_CLR_def httpHeaderMaskInit_def)

definition ListHeadersArr :: "nat list" where
  "ListHeadersArr = [
      HDR_ACCEPT, HDR_ACCEPT_CHARSET, HDR_ACCEPT_ENCODING, HDR_ACCEPT_LANGUAGE, HDR_ACCEPT_RANGES, HDR_ALLOW,
      HDR_CACHE_CONTROL, HDR_CONTENT_ENCODING, HDR_CONTENT_LANGUAGE, HDR_CONNECTION, HDR_IF_MATCH, HDR_IF_NONE_MATCH,
      HDR_LINK, HDR_PRAGMA, HDR_PROXY_CONNECTION, HDR_PROXY_SUPPORT, HDR_TE, HDR_TRAILER, HDR_TRANSFER_ENCODING,
      HDR_UPGRADE, HDR_VARY, HDR_VIA, HDR_WWW_AUTHENTICATE, HDR_AUTHENTICATION_INFO, HDR_PROXY_AUTHENTICATION_INFO,
      HDR_EXPECT, HDR_X_FORWARDED_FOR]"

definition GeneralHeadersArr :: "nat list" where
  "GeneralHeadersArr = [
      HDR_CACHE_CONTROL, HDR_CONNECTION, HDR_DATE, HDR_PRAGMA, HDR_TRANSFER_ENCODING, HDR_TRAILER, HDR_UPGRADE,
      HDR_VIA]"

definition EntityHeadersArr :: "nat list" where
  "EntityHeadersArr = [
      HDR_ALLOW, HDR_CONTENT_BASE, HDR_CONTENT_DISPOSITION, HDR_CONTENT_ENCODING, HDR_CONTENT_LANGUAGE,
      HDR_CONTENT_LENGTH, HDR_CONTENT_LOCATION, HDR_CONTENT_MD5, HDR_CONTENT_RANGE, HDR_CONTENT_TYPE, HDR_ETAG,
      HDR_EXPIRES, HDR_LAST_MODIFIED, HDR_LINK, HDR_OTHER]"

definition ReplyHeadersArr :: "nat list" where
  "ReplyHeadersArr = [
      HDR_ACCEPT, HDR_ACCEPT_CHARSET, HDR_ACCEPT_ENCODING, HDR_ACCEPT_LANGUAGE, HDR_ACCEPT_RANGES, HDR_AGE,
      HDR_LOCATION, HDR_MAX_FORWARDS, HDR_MIME_VERSION, HDR_PUBLIC, HDR_RETRY_AFTER, HDR_SERVER, HDR_SET_COOKIE,
      HDR_VARY, HDR_WARNING, HDR_PROXY_CONNECTION, HDR_X_CACHE, HDR_X_CACHE_LOOKUP, HDR_X_REQUEST_URI,
      HDR_X_SQUID_ERROR]"

definition RequestHeadersArr :: "nat list" where
  "RequestHeadersArr = [
      HDR_AUTHORIZATION, HDR_FROM, HDR_HOST, HDR_IF_MATCH, HDR_IF_MODIFIED_SINCE, HDR_IF_NONE_MATCH, HDR_IF_RANGE,
      HDR_MAX_FORWARDS, HDR_PROXY_CONNECTION, HDR_PROXY_AUTHORIZATION, HDR_RANGE, HDR_REFERER, HDR_REQUEST_RANGE,
      HDR_USER_AGENT, HDR_X_FORWARDED_FOR, HDR_TE, HDR_EXPECT]"

text \<open>The masks that the module sets up; none of its assertions fails.\<close>

definition httpHeaderInitModule :: "(HttpHeaderMask \<times> HttpHeaderMask \<times> HttpHeaderMask) option" where
  "httpHeaderInitModule = do {
     c_assert (HDR_ENUM_END \<le> 8 * length httpHeaderMaskInit);
     c_assert (length HeadersAttrs = HDR_ENUM_END);
     list \<leftarrow> httpHeaderCalcMask httpHeaderMaskInit ListHeadersArr;
     reply \<leftarrow> httpHeaderCalcMask httpHeaderMaskInit ReplyHeadersArr;
     reply \<leftarrow> httpHeaderCalcMask reply GeneralHeadersArr;
     reply \<leftarrow> httpHeaderCalcMask reply EntityHeadersArr;
     request \<leftarrow> httpHeaderCalcMask httpHeaderMaskInit RequestHeadersArr;
     request \<leftarrow> httpHeaderCalcMask request GeneralHeadersArr;
     request \<leftarrow> httpHeaderCalcMask request EntityHeadersArr;
     Some (list, reply, request) }"

definition ListHeadersMask :: HttpHeaderMask where
  "ListHeadersMask = foldl CBIT_SET httpHeaderMaskInit ListHeadersArr"

lemma httpHeaderInitModule_ok: "map_option fst httpHeaderInitModule = Some ListHeadersMask"
  by code_simp

subsection \<open>Headers and their entries\<close>

datatype http_hdr_owner_type = hoNone | hoRequest | hoReply

record HttpHeaderEntry =
  he_id :: nat
  he_name :: string
  he_value :: string

record HttpHeader =
  hh_items :: "HttpHeaderEntry option list"
  hh_mask :: HttpHeaderMask
  hh_owner :: http_hdr_owner_type
  hh_len :: int

definition httpHeaderInit :: "http_hdr_owner_type \<Rightarrow> HttpHeader option" where
  "httpHeaderInit owner = do {
     c_assert (owner \<noteq> hoNone);
     Some \<lparr>hh_items = [], hh_mask = httpHeaderMaskInit, hh_owner = owner, hh_len = 0\<rparr> }"

text \<open>The first entry from slot \<open>i\<close> on.\<close>

function next_entry :: "'a option list \<Rightarrow> nat \<Rightarrow> (nat \<times> 'a) option" where
  "next_entry items i =
     (if i < length items
      then (case items ! i of Some e \<Rightarrow> Some (i, e) | None \<Rightarrow> next_entry items (Suc i))
      else None)"
  by pat_completeness auto
termination by (relation "measure (\<lambda>(items, i). length items - i)") auto

declare next_entry.simps [simp del]

definition httpHeaderGetEntry :: "HttpHeader \<Rightarrow> nat \<Rightarrow> (nat \<times> HttpHeaderEntry) option option" where
  "httpHeaderGetEntry hdr pos = do {
     c_assert (pos \<le> length (hh_items hdr));
     Some (next_entry (hh_items hdr) pos) }"

text \<open>The loops \<open>while ((e = httpHeaderGetEntry(hdr, &pos)))\<close>: the body gets the slot, the entry and the
  state, in which the header is found by \<open>hdr\<close>, and says whether to go on.\<close>

partial_function (option) each_entry ::
  "('s \<Rightarrow> HttpHeader) \<Rightarrow> (nat \<Rightarrow> HttpHeaderEntry \<Rightarrow> 's \<Rightarrow> (bool \<times> 's) option) \<Rightarrow> nat \<Rightarrow> 's \<Rightarrow> 's option" where
  "each_entry hdr body pos s = do {
     r \<leftarrow> httpHeaderGetEntry (hdr s) pos;
     case r of
       None \<Rightarrow> Some s
     | Some (j, e) \<Rightarrow> do {
         (go, s) \<leftarrow> body j e s;
         if go then each_entry hdr body (Suc j) s else Some s } }"

definition entry_len :: "HttpHeaderEntry \<Rightarrow> int" where
  "entry_len e = int (length (he_name e)) + 2 + int (length (he_value e)) + 2"

definition httpHeaderAddEntry :: "HttpHeader \<Rightarrow> HttpHeaderEntry \<Rightarrow> HttpHeader option" where
  "httpHeaderAddEntry hdr e = do {
     c_assert (he_id e < HDR_ENUM_END);
     Some (hdr\<lparr>hh_mask := (if CBIT_TEST (hh_mask hdr) (he_id e) then hh_mask hdr else CBIT_SET (hh_mask hdr) (he_id e)),
               hh_items := hh_items hdr @ [Some e], hh_len := hh_len hdr + entry_len e\<rparr>) }"

definition arrayInsert :: "'a list \<Rightarrow> 'a \<Rightarrow> nat \<Rightarrow> 'a list" where
  "arrayInsert a obj position =
     (let position = (if length a < position then length a else position)
      in take position a @ obj # drop position a)"

definition httpHeaderInsertEntry :: "HttpHeader \<Rightarrow> HttpHeaderEntry \<Rightarrow> nat \<Rightarrow> HttpHeader option" where
  "httpHeaderInsertEntry hdr e pos = do {
     c_assert (he_id e < HDR_ENUM_END);
     Some (hdr\<lparr>hh_mask := (if CBIT_TEST (hh_mask hdr) (he_id e) then hh_mask hdr else CBIT_SET (hh_mask hdr) (he_id e)),
               hh_items := arrayInsert (hh_items hdr) (Some e) pos, hh_len := hh_len hdr + entry_len e\<rparr>) }"

definition httpHeaderDelAt :: "HttpHeader \<Rightarrow> nat \<Rightarrow> HttpHeader option" where
  "httpHeaderDelAt hdr pos = do {
     item \<leftarrow> arr_get (hh_items hdr) pos;
     e \<leftarrow> item;
     let len = hh_len hdr - entry_len e;
     c_assert (0 \<le> len);
     c_assert (he_id e < HDR_ENUM_END);
     Some (hdr\<lparr>hh_items := (hh_items hdr)[pos := None], hh_len := len\<rparr>) }"

definition httpHeaderRefreshMask :: "HttpHeader \<Rightarrow> HttpHeader option" where
  "httpHeaderRefreshMask hdr =
     each_entry (\<lambda>h. h) (\<lambda>j e h. Some (True, h\<lparr>hh_mask := CBIT_SET (hh_mask h) (he_id e)\<rparr>)) 0
       (hdr\<lparr>hh_mask := httpHeaderMaskInit\<rparr>)"

text \<open>\<open>httpHeaderClean\<close> leaves an array without memory, which is only initialised again.\<close>

definition httpHeaderClean :: "HttpHeader \<Rightarrow> HttpHeader option" where
  "httpHeaderClean hdr = do {
     c_assert (hh_owner hdr \<noteq> hoNone);
     hdr \<leftarrow> each_entry (\<lambda>h. h) (\<lambda>j e h. Some (True, h)) 0 hdr;
     Some (hdr\<lparr>hh_items := []\<rparr>) }"

definition httpHeaderReset :: "HttpHeader \<Rightarrow> HttpHeader option" where
  "httpHeaderReset hdr = do { _ \<leftarrow> httpHeaderClean hdr; httpHeaderInit (hh_owner hdr) }"

subsection \<open>Finding and deleting fields\<close>

definition httpHeaderHas :: "HttpHeader \<Rightarrow> nat \<Rightarrow> bool option" where
  "httpHeaderHas hdr fid = do {
     c_assert (fid < HDR_ENUM_END);
     c_assert (fid \<noteq> HDR_OTHER);
     Some (CBIT_TEST (hh_mask hdr) fid) }"

definition httpHeaderFindEntry :: "HttpHeader \<Rightarrow> nat \<Rightarrow> HttpHeaderEntry option option" where
  "httpHeaderFindEntry hdr fid = do {
     c_assert (fid < HDR_ENUM_END);
     c_assert (\<not> CBIT_TEST ListHeadersMask fid);
     if \<not> CBIT_TEST (hh_mask hdr) fid then Some None
     else do {
       r \<leftarrow> each_entry (\<lambda>_. hdr) (\<lambda>j e r. Some (if he_id e = fid then (False, Some e) else (True, r))) 0 None;
       c_assert (r \<noteq> None);
       Some r } }"

definition httpHeaderFindLastEntry :: "HttpHeader \<Rightarrow> nat \<Rightarrow> HttpHeaderEntry option option" where
  "httpHeaderFindLastEntry hdr fid = do {
     c_assert (fid < HDR_ENUM_END);
     c_assert (\<not> CBIT_TEST ListHeadersMask fid);
     if \<not> CBIT_TEST (hh_mask hdr) fid then Some None
     else do {
       r \<leftarrow> each_entry (\<lambda>_. hdr) (\<lambda>j e r. Some (True, if he_id e = fid then Some e else r)) 0 None;
       c_assert (r \<noteq> None);
       Some r } }"

definition httpHeaderDelByName :: "HttpHeader \<Rightarrow> string \<Rightarrow> (nat \<times> HttpHeader) option" where
  "httpHeaderDelByName hdr name =
     each_entry snd
       (\<lambda>j e (count, h).
          if strcaseeq (he_name e) name then do { h \<leftarrow> httpHeaderDelAt h j; Some (True, count + 1, h) }
          else Some (True, count, h\<lparr>hh_mask := CBIT_SET (hh_mask h) (he_id e)\<rparr>))
       0 (0, hdr\<lparr>hh_mask := httpHeaderMaskInit\<rparr>)"

definition httpHeaderDelById :: "HttpHeader \<Rightarrow> nat \<Rightarrow> (nat \<times> HttpHeader) option" where
  "httpHeaderDelById hdr fid = do {
     c_assert (fid < HDR_ENUM_END);
     c_assert (fid \<noteq> HDR_OTHER);
     if \<not> CBIT_TEST (hh_mask hdr) fid then Some (0, hdr)
     else do {
       (count, h) \<leftarrow>
         each_entry snd
           (\<lambda>j e (count, h).
              if he_id e = fid then do { h \<leftarrow> httpHeaderDelAt h j; Some (True, count + 1, h) }
              else Some (True, count, h))
           0 (0, hdr);
       c_assert (count \<noteq> 0);
       Some (count, h\<lparr>hh_mask := CBIT_CLR (hh_mask h) fid\<rparr>) } }"

subsection \<open>Creating and copying entries\<close>

definition httpHeaderEntryCreate :: "nat \<Rightarrow> string option \<Rightarrow> string \<Rightarrow> HttpHeaderEntry option" where
  "httpHeaderEntryCreate fid name val = do {
     c_assert (fid < HDR_ENUM_END);
     name \<leftarrow> (if fid \<noteq> HDR_OTHER then arr_get HeaderNames fid
              else (case name of None \<Rightarrow> Some [] | Some n \<Rightarrow> stringLimitInit n (length n)));
     val \<leftarrow> stringLimitInit val (length val);
     Some \<lparr>he_id = fid, he_name = name, he_value = val\<rparr> }"

definition httpHeaderEntryCreate2 :: "nat \<Rightarrow> string \<Rightarrow> string \<Rightarrow> HttpHeaderEntry option" where
  "httpHeaderEntryCreate2 fid name val = do {
     c_assert (fid < HDR_ENUM_END);
     name \<leftarrow> (if fid \<noteq> HDR_OTHER then arr_get HeaderNames fid else stringLimitInit name (length name));
     val \<leftarrow> stringLimitInit val (length val);
     Some \<lparr>he_id = fid, he_name = name, he_value = val\<rparr> }"

definition httpHeaderEntryClone :: "HttpHeaderEntry \<Rightarrow> HttpHeaderEntry option" where
  "httpHeaderEntryClone e = httpHeaderEntryCreate2 (he_id e) (he_name e) (he_value e)"

definition httpHeaderAddClone :: "HttpHeader \<Rightarrow> HttpHeaderEntry \<Rightarrow> HttpHeader option" where
  "httpHeaderAddClone hdr e = do { e \<leftarrow> httpHeaderEntryClone e; httpHeaderAddEntry hdr e }"

definition httpHeaderAppend :: "HttpHeader \<Rightarrow> HttpHeader \<Rightarrow> HttpHeader option" where
  "httpHeaderAppend dest src =
     each_entry (\<lambda>_. src) (\<lambda>j e d. do { d \<leftarrow> httpHeaderAddClone d e; Some (True, d) }) 0 dest"

text \<open>Filling the holes: the entries move to the front, and the array is cut behind them.\<close>

definition httpHeaderRepack :: "HttpHeader \<Rightarrow> HttpHeader" where
  "httpHeaderRepack hdr = hdr\<lparr>hh_items := filter (\<lambda>x. x \<noteq> None) (hh_items hdr)\<rparr>"

definition update_skips :: "HttpHeaderMask option \<Rightarrow> HttpHeaderEntry \<Rightarrow> bool" where
  "update_skips denied_mask e = (case denied_mask of None \<Rightarrow> False | Some m \<Rightarrow> CBIT_TEST m (he_id e))"

definition httpHeaderUpdate :: "HttpHeader \<Rightarrow> HttpHeader \<Rightarrow> HttpHeaderMask option \<Rightarrow> HttpHeader option" where
  "httpHeaderUpdate old fresh denied_mask = do {
     old \<leftarrow> each_entry (\<lambda>_. fresh)
       (\<lambda>j e old.
          if update_skips denied_mask e then Some (True, old)
          else if he_id e \<noteq> HDR_OTHER then do { (_, old) \<leftarrow> httpHeaderDelById old (he_id e); Some (True, old) }
          else do { (_, old) \<leftarrow> httpHeaderDelByName old (he_name e); Some (True, old) }) 0 old;
     old \<leftarrow> each_entry (\<lambda>_. fresh)
       (\<lambda>j e old.
          if update_skips denied_mask e then Some (True, old)
          else do { old \<leftarrow> httpHeaderAddClone old e; Some (True, old) }) 0 old;
     Some (httpHeaderRepack old) }"

subsection \<open>Values of fields\<close>

definition httpHeaderGetList :: "HttpHeader \<Rightarrow> nat \<Rightarrow> string option option" where
  "httpHeaderGetList hdr fid = do {
     c_assert (CBIT_TEST ListHeadersMask fid);
     if \<not> CBIT_TEST (hh_mask hdr) fid then Some None
     else do {
       s \<leftarrow> each_entry (\<lambda>_. hdr)
         (\<lambda>j e s.
            if he_id e = fid
            then do { s \<leftarrow> strListAdd (case s of None \<Rightarrow> [] | Some s \<Rightarrow> s) (he_value e) (CHR '',''); Some (True, Some s) }
            else Some (True, s)) 0 None;
       c_assert (s \<noteq> None);
       Some s } }"

definition httpHeaderGetStrOrList :: "HttpHeader \<Rightarrow> nat \<Rightarrow> string option option" where
  "httpHeaderGetStrOrList hdr fid =
     (if CBIT_TEST ListHeadersMask fid then httpHeaderGetList hdr fid
      else do {
        e \<leftarrow> httpHeaderFindEntry hdr fid;
        case e of
          None \<Rightarrow> Some None
        | Some e \<Rightarrow> do { s \<leftarrow> stringLimitInit (he_value e) (length (he_value e)); Some (Some s) } })"

definition httpHeaderGetByName :: "HttpHeader \<Rightarrow> string \<Rightarrow> string option option" where
  "httpHeaderGetByName hdr name =
     (case httpHeaderIdByName name (length name) HeaderNames of
        Some fid \<Rightarrow> httpHeaderGetStrOrList hdr fid
      | None \<Rightarrow>
          each_entry (\<lambda>_. hdr)
            (\<lambda>j e s.
               if he_id e = HDR_OTHER \<and> strcaseeq (he_name e) name
               then do { s \<leftarrow> strListAdd (case s of None \<Rightarrow> [] | Some s \<Rightarrow> s) (he_value e) (CHR '',''); Some (True, Some s) }
               else Some (True, s)) 0 None)"

text \<open>The value of the list item \<open>member=value\<close>.\<close>

function list_member :: "string \<Rightarrow> char \<Rightarrow> string \<Rightarrow> string option option" where
  "list_member memb separator pos =
     (case strListGetItem separator pos of
        (found, item, ilen, pos') \<Rightarrow>
          if found
          then (if take (length memb) item = memb \<and> take 1 (drop (length memb) item) = ''=''
                then do {
                  c_assert (length memb + 1 \<le> ilen);
                  s \<leftarrow> stringAppend [] (take (ilen - length memb - 1) (drop (length memb + 1) item));
                  Some (Some s) }
                else list_member memb separator pos')
          else Some None)"
  by pat_completeness auto
termination
  by (relation "measure (\<lambda>(m, del, pos). length pos)") (auto dest!: strListGetItem_progress(1) [OF sym])

declare list_member.simps [simp del]

definition httpHeaderGetByNameListMember :: "HttpHeader \<Rightarrow> string \<Rightarrow> string \<Rightarrow> char \<Rightarrow> string option option" where
  "httpHeaderGetByNameListMember hdr name memb separator = do {
     header \<leftarrow> httpHeaderGetByName hdr name;
     case header of None \<Rightarrow> Some None | Some s \<Rightarrow> list_member memb separator s }"

definition httpHeaderGetListMember :: "HttpHeader \<Rightarrow> nat \<Rightarrow> string \<Rightarrow> char \<Rightarrow> string option option" where
  "httpHeaderGetListMember hdr fid memb separator = do {
     c_assert (fid < HDR_ENUM_END);
     header \<leftarrow> httpHeaderGetStrOrList hdr fid;
     case header of None \<Rightarrow> Some None | Some s \<Rightarrow> list_member memb separator s }"

definition httpHeaderGetInt :: "HttpHeader \<Rightarrow> nat \<Rightarrow> int option" where
  "httpHeaderGetInt hdr fid = do {
     c_assert (fid < HDR_ENUM_END);
     c_assert (HeaderTypes ! fid = ftInt);
     e \<leftarrow> httpHeaderFindEntry hdr fid;
     Some (case e of None \<Rightarrow> - 1 | Some e \<Rightarrow> snd (httpHeaderParseInt (he_value e))) }"

definition httpHeaderGetSize :: "HttpHeader \<Rightarrow> nat \<Rightarrow> int option" where
  "httpHeaderGetSize hdr fid = do {
     c_assert (fid < HDR_ENUM_END);
     c_assert (HeaderTypes ! fid = ftSize);
     e \<leftarrow> httpHeaderFindEntry hdr fid;
     Some (case e of None \<Rightarrow> - 1 | Some e \<Rightarrow> snd (httpHeaderParseSize (he_value e))) }"

definition httpHeaderGetStr :: "HttpHeader \<Rightarrow> nat \<Rightarrow> string option option" where
  "httpHeaderGetStr hdr fid = do {
     c_assert (fid < HDR_ENUM_END);
     c_assert (HeaderTypes ! fid = ftStr);
     e \<leftarrow> httpHeaderFindEntry hdr fid;
     Some (map_option he_value e) }"

definition httpHeaderGetLastStr :: "HttpHeader \<Rightarrow> nat \<Rightarrow> string option option" where
  "httpHeaderGetLastStr hdr fid = do {
     c_assert (fid < HDR_ENUM_END);
     c_assert (HeaderTypes ! fid = ftStr);
     e \<leftarrow> httpHeaderFindLastEntry hdr fid;
     Some (map_option he_value e) }"

text \<open>The duplicate counters of the Cache-Control parser are threaded through.\<close>

definition httpHeaderGetCc :: "nat list \<Rightarrow> HttpHeader \<Rightarrow> (HttpHdrCc option \<times> nat list) option" where
  "httpHeaderGetCc cnt hdr =
     (if \<not> CBIT_TEST (hh_mask hdr) HDR_CACHE_CONTROL then Some (None, cnt)
      else do {
        s \<leftarrow> httpHeaderGetList hdr HDR_CACHE_CONTROL;
        s \<leftarrow> s;
        httpHdrCcParseCreate cnt s })"

definition httpHeaderGetRange :: "HttpHeader \<Rightarrow> HttpHdrRange option option" where
  "httpHeaderGetRange hdr = do {
     e \<leftarrow> httpHeaderFindEntry hdr HDR_RANGE;
     e \<leftarrow> (case e of None \<Rightarrow> httpHeaderFindEntry hdr HDR_REQUEST_RANGE | Some _ \<Rightarrow> Some e);
     Some (case e of None \<Rightarrow> None | Some e \<Rightarrow> httpHdrRangeParseCreate (he_value e)) }"

definition httpHeaderGetContRange :: "HttpHeader \<Rightarrow> HttpHdrContRange option option" where
  "httpHeaderGetContRange hdr = do {
     e \<leftarrow> httpHeaderFindEntry hdr HDR_CONTENT_RANGE;
     Some (case e of None \<Rightarrow> None | Some e \<Rightarrow> httpHdrContRangeParseCreate (he_value e)) }"

definition httpHeaderHasConnDir :: "HttpHeader \<Rightarrow> string \<Rightarrow> bool option" where
  "httpHeaderHasConnDir hdr directive = do {
     proxy \<leftarrow> httpHeaderHas hdr HDR_PROXY_CONNECTION;
     conn \<leftarrow> httpHeaderHas hdr HDR_CONNECTION;
     if proxy \<or> conn
     then do {
       list \<leftarrow> httpHeaderGetList hdr (if proxy then HDR_PROXY_CONNECTION else HDR_CONNECTION);
       Some (strListIsMember list directive (CHR '','')) }
     else Some False }"

subsection \<open>Setting fields\<close>

definition put_field :: "HttpHeader \<Rightarrow> nat \<Rightarrow> string option \<Rightarrow> string \<Rightarrow> HttpHeader option" where
  "put_field hdr fid name val = do { e \<leftarrow> httpHeaderEntryCreate fid name val; httpHeaderAddEntry hdr e }"

definition httpHeaderPutInt :: "HttpHeader \<Rightarrow> nat \<Rightarrow> int \<Rightarrow> HttpHeader option" where
  "httpHeaderPutInt hdr fid number = do {
     c_assert (fid < HDR_ENUM_END);
     c_assert (HeaderTypes ! fid = ftInt);
     c_assert (0 \<le> number);
     put_field hdr fid None (fmt_d number) }"

definition httpHeaderPutSize :: "HttpHeader \<Rightarrow> nat \<Rightarrow> int \<Rightarrow> HttpHeader option" where
  "httpHeaderPutSize hdr fid number = do {
     c_assert (fid < HDR_ENUM_END);
     c_assert (HeaderTypes ! fid = ftSize);
     c_assert (0 \<le> number);
     put_field hdr fid None (fmt_d number) }"

definition httpHeaderPutStr :: "HttpHeader \<Rightarrow> nat \<Rightarrow> string \<Rightarrow> HttpHeader option" where
  "httpHeaderPutStr hdr fid str = do {
     c_assert (fid < HDR_ENUM_END);
     c_assert (HeaderTypes ! fid = ftStr);
     put_field hdr fid None str }"

definition httpHeaderPutAuth :: "HttpHeader \<Rightarrow> string \<Rightarrow> string \<Rightarrow> HttpHeader option" where
  "httpHeaderPutAuth hdr auth_scheme realm =
     httpHeaderPutStr hdr HDR_WWW_AUTHENTICATE (auth_scheme @ '' realm='' @ [CHR 0x22] @ realm @ [CHR 0x22])"

definition httpHeaderPutCc :: "HttpHeader \<Rightarrow> HttpHdrCc \<Rightarrow> HttpHeader option" where
  "httpHeaderPutCc hdr cc = do {
     (_, hdr) \<leftarrow> httpHeaderDelById hdr HDR_CACHE_CONTROL;
     put_field hdr HDR_CACHE_CONTROL None (httpHdrCcPackInto cc) }"

definition httpHeaderPutContRange :: "HttpHeader \<Rightarrow> HttpHdrContRange \<Rightarrow> HttpHeader option" where
  "httpHeaderPutContRange hdr cr = do {
     (_, hdr) \<leftarrow> httpHeaderDelById hdr HDR_CONTENT_RANGE;
     put_field hdr HDR_CONTENT_RANGE None (httpHdrContRangePackInto cr) }"

definition httpHeaderPutRange :: "HttpHeader \<Rightarrow> HttpHdrRange \<Rightarrow> HttpHeader option" where
  "httpHeaderPutRange hdr range' = do {
     (_, hdr) \<leftarrow> httpHeaderDelById hdr HDR_RANGE;
     put_field hdr HDR_RANGE None (httpHdrRangePackInto range') }"

definition httpHeaderPutExt :: "HttpHeader \<Rightarrow> string \<Rightarrow> string \<Rightarrow> HttpHeader option" where
  "httpHeaderPutExt hdr name val = put_field hdr HDR_OTHER (Some name) val"

definition httpHeaderAddContRange :: "HttpHeader \<Rightarrow> HttpHdrRangeSpec \<Rightarrow> int \<Rightarrow> HttpHeader option" where
  "httpHeaderAddContRange hdr spec ent_len = do {
     c_assert (0 \<le> ent_len);
     cr \<leftarrow> httpHdrContRangeSet spec ent_len;
     httpHeaderPutContRange hdr cr }"

subsection \<open>Packing and parsing\<close>

definition httpHeaderEntryPackInto :: "HttpHeaderEntry \<Rightarrow> string" where
  "httpHeaderEntryPackInto e = he_name e @ '': '' @ he_value e @ [CHR 0x0D, CHR 0x0A]"

definition httpHeaderPackInto :: "HttpHeader \<Rightarrow> string option" where
  "httpHeaderPackInto hdr =
     each_entry (\<lambda>_. hdr) (\<lambda>j e p. Some (True, p @ httpHeaderEntryPackInto e)) 0 []"

definition httpHeaderEntryParseCreate :: "bool \<Rightarrow> string \<Rightarrow> HttpHeaderEntry option option" where
  "httpHeaderEntryParseCreate relaxed_header_parser field =
     (let name = takeWhile (\<lambda>c. c \<noteq> CHR '':'') field in
      if CHR '':'' \<notin> set field \<or> name = [] then Some None
      else if 65534 < length name then Some None
      else
        let field_value = drop (length name + 1) field;
            name = (if relaxed_header_parser then rtrim name else name)
        in if name = [] then Some None
           else do {
             let fid = (case httpHeaderIdByName name (length name) HeaderNames of None \<Rightarrow> HDR_OTHER | Some i \<Rightarrow> i);
             name \<leftarrow> (if fid = HDR_OTHER then stringLimitInit name (length name) else arr_get HeaderNames fid);
             let val = rtrim (dropWhile isspace field_value);
             if 65534 < length val then Some None
             else do {
               val \<leftarrow> stringLimitInit val (length val);
               Some (Some \<lparr>he_id = fid, he_name = name, he_value = val\<rparr>) } })"

definition w_space :: string where
  "w_space = [CHR '' '', CHR 0x09, CHR 0x0A, CHR 0x0D]"

definition stringHasWhitespace :: "string \<Rightarrow> bool" where
  "stringHasWhitespace s \<longleftrightarrow> (\<exists>c \<in> set s. c \<in> set w_space)"

text \<open>The lines of one field. \<open>acc\<close> is the text of the lines before, if any; the result has the field's text and
  what follows it. \<open>None\<close>: the header is refused.\<close>

definition cut_cr :: "bool \<Rightarrow> string \<Rightarrow> string" where
  "cut_cr relaxed line =
     (if line \<noteq> [] \<and> last line = CHR 0x0D
      then let line = butlast line
           in if relaxed \<and> 1 < length line \<and> last line = CHR 0x0D then butlast line else line
      else line)"

function field_lines :: "bool \<Rightarrow> string \<Rightarrow> string \<Rightarrow> (string \<times> string) option" where
  "field_lines relaxed acc inp =
     (let line = takeWhile (\<lambda>c. c \<noteq> CHR 0x0A) inp;
          inp' = drop (Suc (length line)) inp;
          this_line = cut_cr relaxed line;
          tail = drop (length this_line) line
      in if CHR 0x0A \<notin> set inp then None
         else if CHR 0x0D \<in> set this_line \<and> \<not> relaxed then None
         else let this_line = map (\<lambda>c. if c = CHR 0x0D then CHR '' '' else c) this_line
              in if length this_line = 1 \<and> acc \<noteq> [] then None
                 else if inp' \<noteq> [] \<and> hd inp' \<in> {CHR '' '', CHR 0x09}
                 then field_lines relaxed (acc @ this_line @ tail @ [CHR 0x0A]) inp'
                 else Some (acc @ this_line, inp'))"
  by pat_completeness auto
termination by (relation "measure (\<lambda>(relaxed, acc, inp). length inp)") (auto simp: Let_def)

declare field_lines.simps [simp del]

lemma field_lines_less: "field_lines relaxed acc inp = Some (field, inp') \<Longrightarrow> length inp' < length inp"
proof (induction relaxed acc inp rule: field_lines.induct)
  case (1 relaxed acc inp)
  let ?line = "takeWhile (\<lambda>c. c \<noteq> CHR 0x0A) inp"
  note r = "1.prems" [unfolded field_lines.simps [of relaxed acc inp] Let_def]
  have n: "CHR 0x0A \<in> set inp" using r by (simp split: if_splits)
  then have "length (drop (Suc (length ?line)) inp) < length inp" by (cases inp) auto
  with r n show ?case using "1.IH" [OF refl refl refl refl] by (fastforce simp: Let_def split: if_splits)
qed

text \<open>An entry with Content-Length among the earlier ones: \<open>Inl\<close> for a refusal, otherwise the header and whether
  to add the entry.\<close>

definition content_length_check :: "bool \<Rightarrow> HttpHeader \<Rightarrow> HttpHeaderEntry \<Rightarrow> (unit + HttpHeader \<times> bool) option" where
  "content_length_check relaxed hdr e =
     (case httpHeaderParseSize (he_value e) of (ok, l1) \<Rightarrow>
        if \<not> ok then Some (Inl ())
        else do {
          e2 \<leftarrow> httpHeaderFindEntry hdr (he_id e);
          case e2 of
            None \<Rightarrow> Some (Inr (hdr, True))
          | Some e2 \<Rightarrow>
              if he_value e \<noteq> he_value e2
              then (if \<not> relaxed then Some (Inl ())
                    else case httpHeaderParseSize (he_value e2) of (ok2, l2) \<Rightarrow>
                      if \<not> ok2 then Some (Inl ())
                      else if l2 < l1 then do { (_, hdr) \<leftarrow> httpHeaderDelById hdr (he_id e2); Some (Inr (hdr, True)) }
                      else Some (Inr (hdr, False)))
              else if relaxed then Some (Inr (hdr, False)) else Some (Inl ()) })"

definition parse_refused :: "HttpHeader \<Rightarrow> (bool \<times> HttpHeader) option" where
  "parse_refused hdr = do { hdr \<leftarrow> httpHeaderReset hdr; Some (False, hdr) }"

function parse_fields :: "bool \<Rightarrow> HttpHeader \<Rightarrow> string \<Rightarrow> (bool \<times> HttpHeader) option" where
  "parse_fields relaxed hdr inp =
     (if inp = [] then Some (True, hdr)
      else case field_lines relaxed [] inp of
        None \<Rightarrow> parse_refused hdr
      | Some (field, inp') \<Rightarrow>
          if field = [] then (if inp' \<noteq> [] then parse_refused hdr else Some (True, hdr))
          else do {
            e \<leftarrow> httpHeaderEntryParseCreate relaxed field;
            case e of
              None \<Rightarrow> if relaxed then parse_fields relaxed hdr inp' else parse_refused hdr
            | Some e \<Rightarrow> do {
                r \<leftarrow> (if he_id e = HDR_CONTENT_LENGTH then content_length_check relaxed hdr e else Some (Inr (hdr, True)));
                case r of
                  Inl _ \<Rightarrow> parse_refused hdr
                | Inr (hdr, add) \<Rightarrow>
                    if \<not> add then parse_fields relaxed hdr inp'
                    else if he_id e = HDR_OTHER \<and> stringHasWhitespace (he_name e) \<and> \<not> relaxed then parse_refused hdr
                    else do { hdr \<leftarrow> httpHeaderAddEntry hdr e; parse_fields relaxed hdr inp' } } })"
  by pat_completeness auto
termination by (relation "measure (\<lambda>(relaxed, hdr, inp). length inp)") (auto dest: field_lines_less)

declare parse_fields.simps [simp del]

definition httpHeaderParse :: "bool \<Rightarrow> HttpHeader \<Rightarrow> string \<Rightarrow> (bool \<times> HttpHeader) option" where
  "httpHeaderParse relaxed_header_parser hdr header =
     (if NUL \<in> set header then parse_refused hdr else parse_fields relaxed_header_parser hdr header)"

subsection \<open>Header access lists (HttpHeaderTools.c)\<close>

text \<open>\<open>deny\<close> stands for the check of an access list: it says whether the request is refused.\<close>

record 'acl header_mangler =
  hm_access_list :: "'acl option"
  hm_replacement :: "string option"
  hm_name :: string

definition httpHdrMangle ::
  "(nat \<Rightarrow> 'acl header_mangler) \<Rightarrow> 'acl header_mangler list \<Rightarrow> ('acl \<Rightarrow> bool) \<Rightarrow> HttpHeaderEntry \<Rightarrow> (bool \<times> HttpHeaderEntry) option" where
  "httpHdrMangle header_access named deny e =
     (case (if he_id e = HDR_OTHER then List.find (\<lambda>m. he_name e = hm_name m) named else Some (header_access (he_id e))) of
        None \<Rightarrow> Some (True, e)
      | Some m \<Rightarrow>
          (case hm_access_list m of
             None \<Rightarrow> Some (True, e)
           | Some acl \<Rightarrow>
               if \<not> deny acl then Some (True, e)
               else (case hm_replacement m of
                       None \<Rightarrow> Some (False, e)
                     | Some t \<Rightarrow> do { t \<leftarrow> stringLimitInit t (length t); Some (True, e\<lparr>he_value := t\<rparr>) })))"

definition httpHdrMangleList ::
  "(nat \<Rightarrow> 'acl header_mangler) \<Rightarrow> 'acl header_mangler list \<Rightarrow> ('acl \<Rightarrow> bool) \<Rightarrow> HttpHeader \<Rightarrow> HttpHeader option" where
  "httpHdrMangleList header_access named deny l = do {
     (removed, l) \<leftarrow>
       each_entry snd
         (\<lambda>j e (removed, l). do {
            (keep, e) \<leftarrow> httpHdrMangle header_access named deny e;
            let l = l\<lparr>hh_items := (hh_items l)[j := Some e]\<rparr>;
            if keep then Some (True, removed, l)
            else do { l \<leftarrow> httpHeaderDelAt l j; Some (True, removed + 1, l) } })
         0 (0 :: nat, l);
     if removed \<noteq> 0 then httpHeaderRefreshMask l else Some l }"

subsection \<open>The fields of a header\<close>

primrec fields_of :: "'a option list \<Rightarrow> 'a list" where
  "fields_of [] = []"
| "fields_of (x # xs) = (case x of None \<Rightarrow> fields_of xs | Some e \<Rightarrow> e # fields_of xs)"

abbreviation hdr_fields :: "HttpHeader \<Rightarrow> HttpHeaderEntry list" where
  "hdr_fields h \<equiv> fields_of (hh_items h)"

lemma fields_of_append [simp]: "fields_of (xs @ ys) = fields_of xs @ fields_of ys"
  by (induction xs) (auto split: option.splits)

lemma fields_of_filter [simp]: "fields_of (filter (\<lambda>x. x \<noteq> None) xs) = fields_of xs"
  by (induction xs) (auto split: option.splits)

text \<open>The mask and the length agree with the entries.\<close>

definition hdr_wf :: "HttpHeader \<Rightarrow> bool" where
  "hdr_wf h \<longleftrightarrow> hh_owner h \<noteq> hoNone \<and> length (hh_mask h) = 9 \<and> (\<forall>e \<in> set (hdr_fields h). he_id e < HDR_ENUM_END) \<and>
     (\<forall>i < HDR_ENUM_END. CBIT_TEST (hh_mask h) i \<longleftrightarrow> i \<in> he_id ` set (hdr_fields h)) \<and>
     hh_len h = sum_list (map entry_len (hdr_fields h))"

lemma hdr_wf_mask: "hdr_wf h \<Longrightarrow> i < HDR_ENUM_END \<Longrightarrow> CBIT_TEST (hh_mask h) i \<longleftrightarrow> (\<exists>e \<in> set (hdr_fields h). he_id e = i)"
  by (auto simp: hdr_wf_def)

lemma entry_len_nonneg: "0 \<le> entry_len e"
  by (simp add: entry_len_def)

lemma entry_len_sum: "0 \<le> sum_list (map entry_len es)"
  by (rule sum_list_nonneg) (auto simp: entry_len_nonneg)

subsection \<open>The loop over the entries\<close>

lemma each_entry_end: "hh_items (hdr s) = us \<Longrightarrow> each_entry hdr body (length us) s = Some s"
  by (subst each_entry.simps) (simp add: httpHeaderGetEntry_def next_entry.simps)

lemma each_entry_Some:
  assumes "hh_items (hdr s) = us @ Some e # xs"
  shows "each_entry hdr body (length us) s =
    do { (go, s) \<leftarrow> body (length us) e s; if go then each_entry hdr body (Suc (length us)) s else Some s }"
  using assms by (subst each_entry.simps) (simp add: httpHeaderGetEntry_def next_entry.simps nth_append)

lemma each_entry_None:
  assumes "hh_items (hdr s) = us @ None # xs"
  shows "each_entry hdr body (length us) s = each_entry hdr body (Suc (length us)) s"
proof -
  have "next_entry (us @ None # xs) (length us) = next_entry (us @ None # xs) (Suc (length us))"
    by (subst next_entry.simps) (simp add: nth_append)
  then show ?thesis using assms
    by (subst each_entry.simps, subst (2) each_entry.simps) (simp add: httpHeaderGetEntry_def)
qed

text \<open>A loop that leaves the header alone.\<close>

fun iter_fields :: "(HttpHeaderEntry \<Rightarrow> 's \<Rightarrow> (bool \<times> 's) option) \<Rightarrow> HttpHeaderEntry list \<Rightarrow> 's \<Rightarrow> 's option" where
  "iter_fields f [] s = Some s"
| "iter_fields f (e # es) s = do { (go, s) \<leftarrow> f e s; if go then iter_fields f es s else Some s }"

lemma each_fields_from:
  assumes "hh_items h = us @ xs"
  shows "each_entry (\<lambda>_. h) (\<lambda>j e s. f e s) (length us) s = iter_fields f (fields_of xs) s"
  using assms
proof (induction xs arbitrary: us s)
  case Nil
  then show ?case using each_entry_end [of "\<lambda>_. h" s us] by simp
next
  case (Cons x xs)
  have IH: "each_entry (\<lambda>_. h) (\<lambda>j e s. f e s) (Suc (length us)) s = iter_fields f (fields_of xs) s" for s
    using Cons.IH [of "us @ [x]" s] Cons.prems by simp
  show ?case
  proof (cases x)
    case None
    then show ?thesis using each_entry_None [of "\<lambda>_. h" s us xs] Cons.prems IH by simp
  next
    case (Some e)
    then show ?thesis using each_entry_Some [of "\<lambda>_. h" s us e xs] Cons.prems IH by (simp cong: if_cong)
  qed
qed

lemma each_fields: "each_entry (\<lambda>_. h) (\<lambda>j e s. f e s) 0 s = iter_fields f (hdr_fields h) s"
  using each_fields_from [of h "[]" "hh_items h" f s] by simp

text \<open>A loop that deletes the fields with \<open>D\<close>; \<open>um\<close> is what it does to the mask for the others.\<close>

definition drop_fields :: "(HttpHeaderEntry \<Rightarrow> bool) \<Rightarrow> HttpHeaderEntry option list \<Rightarrow> HttpHeaderEntry option list" where
  "drop_fields D = map (\<lambda>x. case x of None \<Rightarrow> None | Some e \<Rightarrow> if D e then None else Some e)"

lemma fields_of_drop [simp]: "fields_of (drop_fields D xs) = filter (\<lambda>e. \<not> D e) (fields_of xs)"
  by (induction xs) (auto simp: drop_fields_def split: option.splits)

lemma del_loop_from:
  assumes "hh_items h = us @ xs" "sum_list (map entry_len (filter D (fields_of xs))) \<le> hh_len h"
    "\<forall>e \<in> set (fields_of xs). he_id e < HDR_ENUM_END"
  shows "each_entry snd
      (\<lambda>j e (count, h).
         if D e then do { h \<leftarrow> httpHeaderDelAt h j; Some (True, count + 1, h) }
         else Some (True, count, h\<lparr>hh_mask := um (hh_mask h) (he_id e)\<rparr>)) (length us) (count, h) =
    Some (count + length (filter D (fields_of xs)),
      h\<lparr>hh_items := us @ drop_fields D xs, hh_len := hh_len h - sum_list (map entry_len (filter D (fields_of xs))),
        hh_mask := foldl um (hh_mask h) (map he_id (filter (\<lambda>e. \<not> D e) (fields_of xs)))\<rparr>)"
  using assms
proof (induction xs arbitrary: us h count)
  case Nil
  then show ?case using each_entry_end [of snd "(count, h)" us] by (simp add: drop_fields_def)
next
  case (Cons x xs)
  show ?case
  proof (cases x)
    case None
    then have h: "hh_items h = (us @ [None]) @ xs" using Cons.prems(1) by simp
    show ?thesis using each_entry_None [of snd "(count, h)" us xs] Cons.prems None Cons.IH [OF h] by (simp add: drop_fields_def)
  next
    case (Some e)
    note step = each_entry_Some [of snd "(count, h)" us e xs, unfolded snd_conv, OF Cons.prems(1) [unfolded Some]]
    show ?thesis
    proof (cases "D e")
      case True
      define h1 where "h1 = h\<lparr>hh_items := us @ None # xs, hh_len := hh_len h - entry_len e\<rparr>"
      have "0 \<le> hh_len h - entry_len e" using Cons.prems(2) Some True entry_len_sum [of "filter D (fields_of xs)"] by simp
      then have d: "httpHeaderDelAt h (length us) = Some h1" using Cons.prems(1,3) Some
        by (simp add: httpHeaderDelAt_def arr_get_def nth_append list_update_append h1_def)
      have h1: "hh_items h1 = (us @ [None]) @ xs" "sum_list (map entry_len (filter D (fields_of xs))) \<le> hh_len h1"
        using Cons.prems(2) Some True by (simp_all add: h1_def)
      show ?thesis unfolding step using d True Cons.IH [OF h1, of "count + 1"] Cons.prems(3) Some
        by (simp add: h1_def drop_fields_def)
    next
      case False
      define h1 where "h1 = h\<lparr>hh_mask := um (hh_mask h) (he_id e)\<rparr>"
      have h1: "hh_items h1 = (us @ [Some e]) @ xs" "sum_list (map entry_len (filter D (fields_of xs))) \<le> hh_len h1"
        using Cons.prems(1,2) Some False by (simp_all add: h1_def)
      show ?thesis unfolding step using False Cons.IH [OF h1, of count] Cons.prems(3) Some
        by (simp add: h1_def [symmetric]) (simp add: h1_def drop_fields_def)
    qed
  qed
qed

lemma sum_len_filter: "sum_list (map entry_len es) = sum_list (map entry_len (filter D es)) + sum_list (map entry_len (filter (\<lambda>e. \<not> D e) es))"
  by (induction es) auto

lemma foldl_CBIT_SET:
  assumes "\<forall>i \<in> set is. i < 8 * length m"
  shows "length (foldl CBIT_SET m is) = length m" "CBIT_TEST (foldl CBIT_SET m is) c \<longleftrightarrow> c \<in> set is \<or> CBIT_TEST m c"
  using assms by (induction "is" arbitrary: m) (auto simp: CBIT_simps)

subsection \<open>The operations on the fields\<close>

lemma header_init_ok: "owner \<noteq> hoNone \<Longrightarrow> \<exists>h. httpHeaderInit owner = Some h \<and> hdr_wf h \<and> hdr_fields h = [] \<and> hh_owner h = owner"
  by (simp add: httpHeaderInit_def hdr_wf_def)

lemma header_reset_ok:
  assumes "hh_owner h \<noteq> hoNone"
  shows "\<exists>h'. httpHeaderReset h = Some h' \<and> hdr_wf h' \<and> hdr_fields h' = [] \<and> hh_owner h' = hh_owner h"
proof -
  have "\<exists>h'. each_entry (\<lambda>h. h) (\<lambda>j e h. Some (True, h)) (length us) h = Some h'" if "hh_items h = us @ xs" for us xs
    using that
  proof (induction xs arbitrary: us)
    case Nil
    then show ?case using each_entry_end [of "\<lambda>h. h" h us] by auto
  next
    case (Cons x xs)
    then show ?case
      using each_entry_None [of "\<lambda>h. h" h us xs] each_entry_Some [of "\<lambda>h. h" h us _ xs] Cons.IH [of "us @ [x]"] by (cases x) auto
  qed
  from this [of "[]"] obtain h' where "each_entry (\<lambda>h. h) (\<lambda>j e h. Some (True, h)) 0 h = Some h'" by auto
  then show ?thesis using assms header_init_ok [OF assms] by (simp add: httpHeaderReset_def httpHeaderClean_def)
qed

lemma header_add_ok:
  assumes wf: "hdr_wf h" and e: "he_id e < HDR_ENUM_END"
  shows "\<exists>h'. httpHeaderAddEntry h e = Some h' \<and> hdr_wf h' \<and> hdr_fields h' = hdr_fields h @ [e] \<and> hh_owner h' = hh_owner h"
proof -
  let ?h = "h\<lparr>hh_mask := (if CBIT_TEST (hh_mask h) (he_id e) then hh_mask h else CBIT_SET (hh_mask h) (he_id e)),
     hh_items := hh_items h @ [Some e], hh_len := hh_len h + entry_len e\<rparr>"
  have l: "he_id e < 8 * length (hh_mask h)" using wf e by (simp add: hdr_wf_def)
  have "hdr_wf ?h" using wf e by (auto simp: hdr_wf_def CBIT_simps(1) [OF l])
  then show ?thesis using e by (simp add: httpHeaderAddEntry_def)
qed

lemma header_insert_ok:
  assumes wf: "hdr_wf h" and e: "he_id e < HDR_ENUM_END"
  shows "\<exists>h' us xs. httpHeaderInsertEntry h e pos = Some h' \<and> hdr_wf h' \<and> hdr_fields h = us @ xs \<and> hdr_fields h' = us @ e # xs"
proof -
  define p where "p = (if length (hh_items h) < pos then length (hh_items h) else pos)"
  let ?us = "fields_of (take p (hh_items h))" and ?xs = "fields_of (drop p (hh_items h))"
  have f: "hdr_fields h = ?us @ ?xs" by (metis append_take_drop_id fields_of_append)
  let ?h = "h\<lparr>hh_mask := (if CBIT_TEST (hh_mask h) (he_id e) then hh_mask h else CBIT_SET (hh_mask h) (he_id e)),
     hh_items := take p (hh_items h) @ Some e # drop p (hh_items h), hh_len := hh_len h + entry_len e\<rparr>"
  have l: "he_id e < 8 * length (hh_mask h)" using wf e by (simp add: hdr_wf_def)
  have "hdr_wf ?h" using wf e unfolding hdr_wf_def f by (auto simp: CBIT_simps(1) [OF l])
  moreover have "httpHeaderInsertEntry h e pos = Some ?h" using e by (simp add: httpHeaderInsertEntry_def arrayInsert_def p_def)
  ultimately show ?thesis using f by (intro exI [of _ ?h] exI [of _ ?us] exI [of _ ?xs]) simp
qed

lemma header_del_by_id_ok:
  assumes wf: "hdr_wf h" and i: "i < HDR_ENUM_END" "i \<noteq> HDR_OTHER"
  shows "\<exists>h'. httpHeaderDelById h i = Some (length (filter (\<lambda>e. he_id e = i) (hdr_fields h)), h') \<and> hdr_wf h' \<and>
    hdr_fields h' = filter (\<lambda>e. he_id e \<noteq> i) (hdr_fields h) \<and> hh_owner h' = hh_owner h"
proof (cases "CBIT_TEST (hh_mask h) i")
  case False
  then have n: "\<forall>e \<in> set (hdr_fields h). he_id e \<noteq> i" using hdr_wf_mask [OF wf i(1)] by blast
  then have "filter (\<lambda>e. he_id e = i) (hdr_fields h) = []" "filter (\<lambda>e. he_id e \<noteq> i) (hdr_fields h) = hdr_fields h"
    by (auto simp: filter_empty_conv intro: filter_True)
  then show ?thesis using False i wf by (simp add: httpHeaderDelById_def)
next
  case True
  let ?D = "\<lambda>e. he_id e = i"
  let ?h = "h\<lparr>hh_items := drop_fields ?D (hh_items h), hh_len := hh_len h - sum_list (map entry_len (filter ?D (hdr_fields h)))\<rparr>"
  obtain e where "e \<in> set (hdr_fields h)" "he_id e = i" using True hdr_wf_mask [OF wf i(1)] by blast
  then have ne: "length (filter ?D (hdr_fields h)) \<noteq> 0" by (auto simp: filter_empty_conv)
  have len: "hh_len h = sum_list (map entry_len (filter ?D (hdr_fields h))) + sum_list (map entry_len (filter (\<lambda>e. \<not> ?D e) (hdr_fields h)))"
    using wf sum_len_filter [of "hdr_fields h" ?D] by (simp add: hdr_wf_def)
  have id: "foldl (\<lambda>m _. m) m xs = m" for m :: HttpHeaderMask and xs :: "nat list" by (induction xs) simp_all
  have same: "h\<lparr>hh_mask := hh_mask h\<rparr> = h" for h :: HttpHeader by simp
  have loop: "each_entry snd
      (\<lambda>j e (count, h).
         if ?D e then do { h \<leftarrow> httpHeaderDelAt h j; Some (True, count + 1, h) }
         else Some (True, count, h\<lparr>hh_mask := hh_mask h\<rparr>)) 0 (0, h) = Some (length (filter ?D (hdr_fields h)), ?h)"
    using del_loop_from [of h "[]" "hh_items h" ?D "\<lambda>m _. m" 0] wf len entry_len_sum by (simp add: hdr_wf_def id)
  then have r: "httpHeaderDelById h i = Some (length (filter ?D (hdr_fields h)), ?h\<lparr>hh_mask := CBIT_CLR (hh_mask ?h) i\<rparr>)"
    using True i ne loop [unfolded same] by (simp add: httpHeaderDelById_def)
  have l: "i < 8 * length (hh_mask h)" using wf i by (simp add: hdr_wf_def)
  have "hdr_wf (?h\<lparr>hh_mask := CBIT_CLR (hh_mask ?h) i\<rparr>)" using wf len by (auto simp: hdr_wf_def CBIT_simps(2) [OF l])
  then show ?thesis using r by simp
qed

lemma header_del_by_name_ok:
  assumes wf: "hdr_wf h"
  shows "\<exists>h'. httpHeaderDelByName h name = Some (length (filter (\<lambda>e. strcaseeq (he_name e) name) (hdr_fields h)), h') \<and> hdr_wf h' \<and>
    hdr_fields h' = filter (\<lambda>e. \<not> strcaseeq (he_name e) name) (hdr_fields h) \<and> hh_owner h' = hh_owner h"
proof -
  let ?D = "\<lambda>e. strcaseeq (he_name e) name"
  let ?ids = "map he_id (filter (\<lambda>e. \<not> ?D e) (hdr_fields h))"
  let ?h = "h\<lparr>hh_items := drop_fields ?D (hh_items h), hh_len := hh_len h - sum_list (map entry_len (filter ?D (hdr_fields h))),
     hh_mask := foldl CBIT_SET httpHeaderMaskInit ?ids\<rparr>"
  have len: "hh_len h = sum_list (map entry_len (filter ?D (hdr_fields h))) + sum_list (map entry_len (filter (\<lambda>e. \<not> ?D e) (hdr_fields h)))"
    using wf sum_len_filter [of "hdr_fields h" ?D] by (simp add: hdr_wf_def)
  have ids: "\<forall>i \<in> set ?ids. i < 8 * length httpHeaderMaskInit" using wf by (auto simp: hdr_wf_def)
  have "httpHeaderDelByName h name = Some (length (filter ?D (hdr_fields h)), ?h)"
    using del_loop_from [of "h\<lparr>hh_mask := httpHeaderMaskInit\<rparr>" "[]" "hh_items h" ?D CBIT_SET 0] wf len entry_len_sum
    by (simp add: httpHeaderDelByName_def hdr_wf_def)
  moreover have "hdr_wf ?h" using wf len foldl_CBIT_SET [OF ids] by (auto simp: hdr_wf_def)
  ultimately show ?thesis by simp
qed

lemma header_has_ok:
  "hdr_wf h \<Longrightarrow> i < HDR_OTHER \<Longrightarrow> httpHeaderHas h i = Some (i \<in> he_id ` set (hdr_fields h))"
  by (auto simp: httpHeaderHas_def hdr_wf_def)

text \<open>Searches.\<close>

lemma iter_find: "iter_fields (\<lambda>e r. Some (if he_id e = i then (False, Some e) else (True, r))) es None = Some (List.find (\<lambda>e. he_id e = i) es)"
  by (induction es) auto

lemma iter_last: "iter_fields (\<lambda>e r. Some (True, if he_id e = i then Some e else r)) es r =
    Some (case filter (\<lambda>e. he_id e = i) es of [] \<Rightarrow> r | fs \<Rightarrow> Some (last fs))"
  by (induction es arbitrary: r) (auto split: list.splits)

lemma header_find_ok:
  assumes wf: "hdr_wf h" and i: "i < HDR_ENUM_END" "\<not> CBIT_TEST ListHeadersMask i"
  shows "httpHeaderFindEntry h i = Some (List.find (\<lambda>e. he_id e = i) (hdr_fields h))"
proof -
  have "CBIT_TEST (hh_mask h) i \<longleftrightarrow> List.find (\<lambda>e. he_id e = i) (hdr_fields h) \<noteq> None"
    using hdr_wf_mask [OF wf i(1)] by (auto simp: find_None_iff)
  then show ?thesis using i each_fields [of h "\<lambda>e r. Some (if he_id e = i then (False, Some e) else (True, r))" None] iter_find
    by (auto simp: httpHeaderFindEntry_def)
qed

lemma header_find_last_ok:
  assumes wf: "hdr_wf h" and i: "i < HDR_ENUM_END" "\<not> CBIT_TEST ListHeadersMask i"
  shows "httpHeaderFindLastEntry h i = Some (case filter (\<lambda>e. he_id e = i) (hdr_fields h) of [] \<Rightarrow> None | fs \<Rightarrow> Some (last fs))"
proof -
  have "CBIT_TEST (hh_mask h) i \<longleftrightarrow> filter (\<lambda>e. he_id e = i) (hdr_fields h) \<noteq> []"
    using hdr_wf_mask [OF wf i(1)] by (auto simp: filter_empty_conv)
  then show ?thesis using i each_fields [of h "\<lambda>e r. Some (True, if he_id e = i then Some e else r)" None] iter_last [of i "hdr_fields h" None]
    by (auto simp: httpHeaderFindLastEntry_def split: list.splits)
qed

lemma header_pack_ok: "httpHeaderPackInto h = Some (concat (map httpHeaderEntryPackInto (hdr_fields h)))"
proof -
  have "iter_fields (\<lambda>e p. Some (True, p @ httpHeaderEntryPackInto e)) es p = Some (p @ concat (map httpHeaderEntryPackInto es))" for es p
    by (induction es arbitrary: p) auto
  then show ?thesis by (simp add: httpHeaderPackInto_def each_fields)
qed

lemma length_pack: "int (length (concat (map httpHeaderEntryPackInto es))) = sum_list (map entry_len es)"
  by (induction es) (simp_all add: httpHeaderEntryPackInto_def entry_len_def)

subsection \<open>Updating a header\<close>

definition entry_ok :: "HttpHeaderEntry \<Rightarrow> bool" where
  "entry_ok e \<longleftrightarrow> he_id e < HDR_ENUM_END \<and> (he_id e \<noteq> HDR_OTHER \<longrightarrow> he_name e = HeaderNames ! he_id e) \<and>
     length (he_name e) \<le> 65534 \<and> length (he_value e) \<le> 65534"

lemma header_clone_ok: "entry_ok e \<Longrightarrow> httpHeaderEntryClone e = Some e"
  by (simp add: entry_ok_def httpHeaderEntryClone_def httpHeaderEntryCreate2_def stringLimitInit_def arr_get_def)

text \<open>\<open>e\<close> takes the place of \<open>x\<close>.\<close>

definition replaces :: "HttpHeaderEntry \<Rightarrow> HttpHeaderEntry \<Rightarrow> bool" where
  "replaces e x \<longleftrightarrow> (if he_id e \<noteq> HDR_OTHER then he_id x = he_id e else strcaseeq (he_name x) (he_name e))"

lemma update_deletes:
  assumes "hdr_wf old" "\<forall>e \<in> set fs. he_id e < HDR_ENUM_END"
  shows "\<exists>old'. iter_fields
      (\<lambda>e old.
         if update_skips denied e then Some (True, old)
         else if he_id e \<noteq> HDR_OTHER then do { (_, old) \<leftarrow> httpHeaderDelById old (he_id e); Some (True, old) }
         else do { (_, old) \<leftarrow> httpHeaderDelByName old (he_name e); Some (True, old) }) fs old = Some old' \<and>
    hdr_wf old' \<and> hh_owner old' = hh_owner old \<and>
    hdr_fields old' = filter (\<lambda>x. \<forall>e \<in> set fs. \<not> update_skips denied e \<longrightarrow> \<not> replaces e x) (hdr_fields old)"
  using assms
proof (induction fs arbitrary: old)
  case (Cons e fs)
  have run: "\<exists>h. hdr_wf h \<and> hh_owner h = hh_owner old \<and> hdr_fields h = filter (\<lambda>x. \<not> update_skips denied e \<longrightarrow> \<not> replaces e x) (hdr_fields old) \<and>
     (if update_skips denied e then Some (True, old)
      else if he_id e \<noteq> HDR_OTHER then do { (_, old) \<leftarrow> httpHeaderDelById old (he_id e); Some (True, old) }
      else do { (_, old) \<leftarrow> httpHeaderDelByName old (he_name e); Some (True, old) }) = Some (True, h)"
  proof (cases "update_skips denied e")
    case True
    then show ?thesis using Cons.prems by auto
  next
    case False
    then show ?thesis using header_del_by_id_ok [OF Cons.prems(1), of "he_id e"] header_del_by_name_ok [OF Cons.prems(1), of "he_name e"]
        Cons.prems(2) by (cases "he_id e = HDR_OTHER") (auto simp: replaces_def)
  qed
  then obtain h where h: "hdr_wf h" "hh_owner h = hh_owner old" "hdr_fields h = filter (\<lambda>x. \<not> update_skips denied e \<longrightarrow> \<not> replaces e x) (hdr_fields old)"
    "(if update_skips denied e then Some (True, old)
      else if he_id e \<noteq> HDR_OTHER then do { (_, old) \<leftarrow> httpHeaderDelById old (he_id e); Some (True, old) }
      else do { (_, old) \<leftarrow> httpHeaderDelByName old (he_name e); Some (True, old) }) = Some (True, h)" by blast
  have p: "(\<not> update_skips denied e \<longrightarrow> \<not> replaces e x) \<and> (\<forall>e \<in> set fs. \<not> update_skips denied e \<longrightarrow> \<not> replaces e x) \<longleftrightarrow>
      (\<forall>e \<in> set (e # fs). \<not> update_skips denied e \<longrightarrow> \<not> replaces e x)" for x by auto
  from Cons.IH [OF h(1)] Cons.prems(2) obtain old' where "hdr_wf old'" "hh_owner old' = hh_owner h"
    "iter_fields
      (\<lambda>e old.
         if update_skips denied e then Some (True, old)
         else if he_id e \<noteq> HDR_OTHER then do { (_, old) \<leftarrow> httpHeaderDelById old (he_id e); Some (True, old) }
         else do { (_, old) \<leftarrow> httpHeaderDelByName old (he_name e); Some (True, old) }) fs h = Some old'"
    "hdr_fields old' = filter (\<lambda>x. \<forall>e \<in> set fs. \<not> update_skips denied e \<longrightarrow> \<not> replaces e x) (hdr_fields h)" by auto
  then show ?case using h(2) unfolding iter_fields.simps h(4) h(3) filter_filter p by simp
qed simp

lemma update_adds:
  assumes "hdr_wf old" "\<forall>e \<in> set fs. entry_ok e"
  shows "\<exists>old'. iter_fields
      (\<lambda>e old.
         if update_skips denied e then Some (True, old)
         else do { old \<leftarrow> httpHeaderAddClone old e; Some (True, old) }) fs old = Some old' \<and>
    hdr_wf old' \<and> hh_owner old' = hh_owner old \<and> hdr_fields old' = hdr_fields old @ filter (\<lambda>e. \<not> update_skips denied e) fs"
  using assms
proof (induction fs arbitrary: old)
  case (Cons e fs)
  show ?case
  proof (cases "update_skips denied e")
    case True
    then show ?thesis using Cons by simp
  next
    case False
    obtain h where "httpHeaderAddEntry old e = Some h" "hdr_wf h" "hdr_fields h = hdr_fields old @ [e]" "hh_owner h = hh_owner old"
      using header_add_ok [OF Cons.prems(1), of e] Cons.prems(2) by (auto simp: entry_ok_def)
    then show ?thesis using False Cons.IH [of h] Cons.prems(2) header_clone_ok [of e] by (simp add: httpHeaderAddClone_def)
  qed
qed simp

lemma header_repack_ok: "hdr_wf h \<Longrightarrow> hdr_wf (httpHeaderRepack h) \<and> hdr_fields (httpHeaderRepack h) = hdr_fields h \<and> None \<notin> set (hh_items (httpHeaderRepack h))"
  by (simp add: hdr_wf_def httpHeaderRepack_def del: not_None_eq)

lemma header_append_ok:
  assumes "hdr_wf dest" "\<forall>e \<in> set (hdr_fields src). entry_ok e"
  shows "\<exists>h. httpHeaderAppend dest src = Some h \<and> hdr_wf h \<and> hdr_fields h = hdr_fields dest @ hdr_fields src"
proof -
  have n: "update_skips None e = False" for e by (simp add: update_skips_def)
  from update_adds [OF assms, of None] show ?thesis by (auto simp: httpHeaderAppend_def each_fields n)
qed

subsection \<open>Properties of the operations\<close>

text \<open>C11: A header refines the list of its fields. When the mask and the packed length agree with the entries,
  which they do after every operation here, adding appends a field, deletion removes exactly the fields with the
  id, or with the name in any case, and counts them; membership of an id and the first field of an id that is not
  a list header's are those of the list; repacking removes the holes and keeps the fields; the packed text
  has the length that is kept; and no assertion fails: the header is never found to lack an entry that its
  mask promises.\<close>
theorem header_refines_fields:
  assumes "hdr_wf h" "he_id e < HDR_ENUM_END" "i < HDR_OTHER"
  shows "\<exists>added by_id by_name.
    httpHeaderAddEntry h e = Some added \<and> hdr_wf added \<and> hdr_fields added = hdr_fields h @ [e] \<and>
    httpHeaderDelById h i = Some (length (filter (\<lambda>e. he_id e = i) (hdr_fields h)), by_id) \<and> hdr_wf by_id \<and>
      hdr_fields by_id = filter (\<lambda>e. he_id e \<noteq> i) (hdr_fields h) \<and>
    httpHeaderDelByName h name = Some (length (filter (\<lambda>e. strcaseeq (he_name e) name) (hdr_fields h)), by_name) \<and> hdr_wf by_name \<and>
      hdr_fields by_name = filter (\<lambda>e. \<not> strcaseeq (he_name e) name) (hdr_fields h) \<and>
    httpHeaderHas h i = Some (i \<in> he_id ` set (hdr_fields h)) \<and>
    (\<not> CBIT_TEST ListHeadersMask i \<longrightarrow> httpHeaderFindEntry h i = Some (List.find (\<lambda>e. he_id e = i) (hdr_fields h))) \<and>
    hdr_wf (httpHeaderRepack h) \<and> hdr_fields (httpHeaderRepack h) = hdr_fields h \<and> None \<notin> set (hh_items (httpHeaderRepack h)) \<and>
    (\<exists>packed. httpHeaderPackInto h = Some packed \<and> int (length packed) = hh_len h)"
proof -
  have i: "i < HDR_ENUM_END" "i \<noteq> HDR_OTHER" using assms(3) by simp_all
  have len: "int (length (concat (map httpHeaderEntryPackInto (hdr_fields h)))) = hh_len h" using assms(1) by (simp add: length_pack hdr_wf_def)
  from header_add_ok [OF assms(1,2)] header_del_by_id_ok [OF assms(1) i] header_del_by_name_ok [OF assms(1), of name] obtain h1 h2 h3 where
    "httpHeaderAddEntry h e = Some h1" "hdr_wf h1" "hdr_fields h1 = hdr_fields h @ [e]"
    "httpHeaderDelById h i = Some (length (filter (\<lambda>e. he_id e = i) (hdr_fields h)), h2)" "hdr_wf h2"
    "hdr_fields h2 = filter (\<lambda>e. he_id e \<noteq> i) (hdr_fields h)"
    "httpHeaderDelByName h name = Some (length (filter (\<lambda>e. strcaseeq (he_name e) name) (hdr_fields h)), h3)" "hdr_wf h3"
    "hdr_fields h3 = filter (\<lambda>e. \<not> strcaseeq (he_name e) name) (hdr_fields h)" by blast
  then show ?thesis using header_has_ok [OF assms(1,3)] header_find_ok [OF assms(1) i(1)] header_pack_ok [of h] len
      header_repack_ok [OF assms(1)] by auto
qed

text \<open>C30: Updating a stored header with that of a fresh reply replaces exactly the fields the fresh header has. Apart
  from the fields of the mask that is denied, a field of the old header stays if and only if no field of the
  fresh one has its id, or, among unknown fields, its name; the fresh fields follow in their order; and the
  array has no holes.\<close>
theorem header_update_replaces:
  assumes "hdr_wf old" "hdr_wf fresh" "\<forall>e \<in> set (hdr_fields fresh). entry_ok e"
  shows "\<exists>h. httpHeaderUpdate old fresh denied = Some h \<and> hdr_wf h \<and> None \<notin> set (hh_items h) \<and>
    hdr_fields h = filter (\<lambda>x. \<forall>e \<in> set (hdr_fields fresh). \<not> update_skips denied e \<longrightarrow> \<not> replaces e x) (hdr_fields old) @
      filter (\<lambda>e. \<not> update_skips denied e) (hdr_fields fresh)"
proof -
  have "\<forall>e \<in> set (hdr_fields fresh). he_id e < HDR_ENUM_END" using assms(2) by (simp add: hdr_wf_def)
  from update_deletes [OF assms(1) this, of denied] obtain h1 where
    h1: "each_entry (\<lambda>_. fresh)
       (\<lambda>j e old.
          if update_skips denied e then Some (True, old)
          else if he_id e \<noteq> HDR_OTHER then do { (_, old) \<leftarrow> httpHeaderDelById old (he_id e); Some (True, old) }
          else do { (_, old) \<leftarrow> httpHeaderDelByName old (he_name e); Some (True, old) }) 0 old = Some h1" "hdr_wf h1"
      "hdr_fields h1 = filter (\<lambda>x. \<forall>e \<in> set (hdr_fields fresh). \<not> update_skips denied e \<longrightarrow> \<not> replaces e x) (hdr_fields old)"
    unfolding each_fields by blast
  from update_adds [OF h1(2) assms(3), of denied] obtain h2 where
    h2: "each_entry (\<lambda>_. fresh)
       (\<lambda>j e old.
          if update_skips denied e then Some (True, old)
          else do { old \<leftarrow> httpHeaderAddClone old e; Some (True, old) }) 0 h1 = Some h2" "hdr_wf h2"
      "hdr_fields h2 = hdr_fields h1 @ filter (\<lambda>e. \<not> update_skips denied e) (hdr_fields fresh)"
    unfolding each_fields by blast
  have "httpHeaderUpdate old fresh denied = Some (httpHeaderRepack h2)" unfolding httpHeaderUpdate_def h1(1) by (simp add: h2(1))
  then show ?thesis using header_repack_ok [OF h2(2)] h1(3) h2(3) by simp
qed

subsection \<open>Parsing what was packed\<close>

text \<open>A field whose text has no line breaks and no blanks around its parts.\<close>

definition text_char :: "char \<Rightarrow> bool" where
  "text_char c \<longleftrightarrow> c \<noteq> CHR 0x0A \<and> c \<noteq> CHR 0x0D \<and> c \<noteq> NUL"

definition field_ok :: "HttpHeaderEntry \<Rightarrow> bool" where
  "field_ok e \<longleftrightarrow> entry_ok e \<and> he_name e \<noteq> [] \<and> (\<forall>c \<in> set (he_name e). text_char c \<and> c \<noteq> CHR '':'' \<and> \<not> isspace c) \<and>
     (he_id e = HDR_OTHER \<longrightarrow> httpHeaderIdByName (he_name e) (length (he_name e)) HeaderNames = None) \<and>
     (\<forall>c \<in> set (he_value e). text_char c) \<and>
     (he_value e \<noteq> [] \<longrightarrow> \<not> isspace (hd (he_value e)) \<and> \<not> isspace (last (he_value e)))"

lemma lower_names_distinct: "distinct (map (map xtolower) HeaderNames)"
  by code_simp

lemma IdByName_distinct:
  "distinct (map (map xtolower) ns) \<Longrightarrow> i < length ns \<Longrightarrow> httpHeaderIdByName (ns ! i) (length (ns ! i)) ns = Some i"
proof (induction ns arbitrary: i)
  case (Cons n ns)
  show ?case
  proof (cases i)
    case (Suc j)
    then have j: "j < length ns" using Cons.prems by simp
    then have "map xtolower (ns ! j) \<in> set (map (map xtolower) ns)" by simp
    then have "map xtolower (ns ! j) \<noteq> map xtolower n" using Cons.prems(1) by (metis distinct.simps(2) list.simps(9))
    then have "\<not> (length (ns ! j) = length n \<and> strncaseeq (ns ! j) n (length (ns ! j)))" by (auto simp: strncaseeq_def)
    then show ?thesis using Suc Cons.IH [OF _ j] Cons.prems by simp
  qed (simp add: strncaseeq_def)
qed simp

lemma known_names: "i < HDR_OTHER \<Longrightarrow> httpHeaderIdByName (HeaderNames ! i) (length (HeaderNames ! i)) HeaderNames = Some i"
  by (rule IdByName_distinct [OF lower_names_distinct]) simp

lemma rtrim_id: "s = [] \<or> \<not> isspace (last s) \<Longrightarrow> rtrim s = s"
  by (cases s rule: rev_cases) (auto simp: rtrim_def)

lemma parse_entry_pack:
  assumes "field_ok e"
  shows "httpHeaderEntryParseCreate relaxed (he_name e @ '': '' @ he_value e) = Some (Some e)"
proof -
  let ?f = "he_name e @ '': '' @ he_value e"
  have n: "he_name e \<noteq> []" "\<forall>c \<in> set (he_name e). c \<noteq> CHR '':'' \<and> \<not> isspace c" "length (he_name e) \<le> 65534" "length (he_value e) \<le> 65534"
    "he_id e < HDR_ENUM_END" "he_id e \<noteq> HDR_OTHER \<longrightarrow> he_name e = HeaderNames ! he_id e"
    and v: "he_value e \<noteq> [] \<longrightarrow> \<not> isspace (hd (he_value e)) \<and> \<not> isspace (last (he_value e))"
    using assms by (auto simp: field_ok_def entry_ok_def)
  have t: "takeWhile (\<lambda>c. c \<noteq> CHR '':'') ?f = he_name e" using n(2) by (simp add: takeWhile_append2)
  have r: "rtrim (he_name e) = he_name e" using n(1,2) by (intro rtrim_id) simp
  have d: "drop (length (he_name e) + 1) ?f = CHR '' '' # he_value e" by simp
  have w: "dropWhile isspace (CHR '' '' # he_value e) = he_value e" using v by (cases "he_value e") (auto simp: isspace_def)
  have rv: "rtrim (he_value e) = he_value e" using v by (intro rtrim_id) blast
  have id: "(case httpHeaderIdByName (he_name e) (length (he_name e)) HeaderNames of None \<Rightarrow> HDR_OTHER | Some i \<Rightarrow> i) = he_id e"
  proof (cases "he_id e = HDR_OTHER")
    case True
    then show ?thesis using assms by (simp add: field_ok_def)
  next
    case False
    then show ?thesis using known_names [of "he_id e"] n(5,6) by simp
  qed
  have nm: "(if he_id e = HDR_OTHER then stringLimitInit (he_name e) (length (he_name e)) else arr_get HeaderNames (he_id e)) = Some (he_name e)"
    using n(3,5,6) by (auto simp: stringLimitInit_def arr_get_def)
  have e: "\<lparr>he_id = he_id e, he_name = he_name e, he_value = he_value e\<rparr> = e" by simp
  show ?thesis unfolding httpHeaderEntryParseCreate_def Let_def t d w r rv if_cancel id nm
    using n(1,3,4) by (simp add: stringLimitInit_def)
qed

text \<open>A packed field is read as one field.\<close>

lemma field_lines_pack:
  assumes "field_ok e" "rest = [] \<or> \<not> isspace (hd rest)"
  shows "field_lines relaxed [] (httpHeaderEntryPackInto e @ rest) = Some (he_name e @ '': '' @ he_value e, rest)"
proof -
  let ?f = "he_name e @ '': '' @ he_value e"
  let ?inp = "httpHeaderEntryPackInto e @ rest"
  have inp: "?inp = (?f @ [CHR 0x0D]) @ CHR 0x0A # rest" by (simp add: httpHeaderEntryPackInto_def)
  have c: "\<forall>c \<in> set ?f. text_char c" using assms(1) by (auto simp: field_ok_def text_char_def)
  then have t: "takeWhile (\<lambda>c. c \<noteq> CHR 0x0A) ?inp = ?f @ [CHR 0x0D]" unfolding inp by (subst takeWhile_append2) (auto simp: text_char_def)
  have d: "drop (Suc (length (?f @ [CHR 0x0D]))) ?inp = rest"
    unfolding inp drop_append by simp
  have nl: "CHR 0x0D \<notin> set ?f" "last ?f \<noteq> CHR 0x0D"
  proof -
    show n: "CHR 0x0D \<notin> set ?f" using c by (auto simp: text_char_def)
    have "last ?f \<in> set ?f" by (rule last_in_set) simp
    then show "last ?f \<noteq> CHR 0x0D" using n by metis
  qed
  have cut: "cut_cr relaxed (?f @ [CHR 0x0D]) = ?f" using nl(2) unfolding cut_cr_def Let_def butlast_snoc last_snoc by simp
  have m: "map (\<lambda>c. if c = CHR 0x0D then CHR '' '' else c) ?f = ?f" using nl(1) by (intro map_idI) auto
  have i: "CHR 0x0A \<in> set ?inp" unfolding inp by simp
  have ns: "\<not> (rest \<noteq> [] \<and> hd rest \<in> {CHR '' '', CHR 0x09})" using assms(2) by (auto simp: isspace_def)
  show ?thesis using i ns nl(1) by (subst field_lines.simps) (simp only: Let_def t d cut m if_False if_True not_True_eq_False append_Nil simp_thms)
qed

definition lengths_ok :: "HttpHeaderEntry list \<Rightarrow> bool" where
  "lengths_ok es \<longleftrightarrow> length (filter (\<lambda>e. he_id e = HDR_CONTENT_LENGTH) es) \<le> 1 \<and>
     (\<forall>e \<in> set es. he_id e = HDR_CONTENT_LENGTH \<longrightarrow> fst (httpHeaderParseSize (he_value e)))"

lemma content_length_not_list: "\<not> CBIT_TEST ListHeadersMask HDR_CONTENT_LENGTH"
  by code_simp

lemma w_space_isspace: "c \<in> set w_space \<Longrightarrow> isspace c"
  by (auto simp: w_space_def isspace_def)

lemma field_ok_name: "field_ok e \<Longrightarrow> \<not> stringHasWhitespace (he_name e)"
  unfolding field_ok_def stringHasWhitespace_def using w_space_isspace by blast

lemma field_ok_text: "field_ok e \<Longrightarrow> NUL \<notin> set (httpHeaderEntryPackInto e)"
proof -
  assume "field_ok e"
  then have "NUL \<notin> set (he_name e)" "NUL \<notin> set (he_value e)" unfolding field_ok_def text_char_def by blast+
  then show ?thesis by (simp add: httpHeaderEntryPackInto_def)
qed

lemma parse_fields_pack:
  assumes "hdr_wf h" "\<forall>e \<in> set es. field_ok e" "lengths_ok (hdr_fields h @ es)"
  shows "\<exists>h'. parse_fields relaxed h (concat (map httpHeaderEntryPackInto es)) = Some (True, h') \<and> hdr_wf h' \<and> hdr_fields h' = hdr_fields h @ es"
  using assms
proof (induction es arbitrary: h)
  case Nil
  then show ?case by (simp add: parse_fields.simps)
next
  case (Cons e es)
  let ?rest = "concat (map httpHeaderEntryPackInto es)"
  have e: "field_ok e" "he_id e < HDR_ENUM_END" using Cons.prems(2) by (auto simp: field_ok_def entry_ok_def)
  have "?rest = [] \<or> \<not> isspace (hd ?rest)"
  proof (cases es)
    case (Cons e' es')
    then have "field_ok e'" using Cons.prems(2) by simp
    then show ?thesis using Cons by (cases "he_name e'") (auto simp: field_ok_def httpHeaderEntryPackInto_def)
  qed simp
  from field_lines_pack [OF e(1) this, of relaxed] have f: "field_lines relaxed [] (httpHeaderEntryPackInto e @ ?rest) = Some (he_name e @ '': '' @ he_value e, ?rest)" .
  have chk: "(if he_id e = HDR_CONTENT_LENGTH then content_length_check relaxed h e else Some (Inr (h, True))) = Some (Inr (h, True))"
  proof (cases "he_id e = HDR_CONTENT_LENGTH")
    case True
    then have "filter (\<lambda>e. he_id e = HDR_CONTENT_LENGTH) (hdr_fields h) = []" using Cons.prems(3) by (simp add: lengths_ok_def)
    then have "List.find (\<lambda>e. he_id e = HDR_CONTENT_LENGTH) (hdr_fields h) = None" by (auto simp: find_None_iff filter_empty_conv)
    moreover have "fst (httpHeaderParseSize (he_value e))" using Cons.prems(3) True by (simp add: lengths_ok_def)
    ultimately show ?thesis using True header_find_ok [OF Cons.prems(1) _ content_length_not_list]
      by (auto simp: content_length_check_def split: prod.splits)
  qed simp
  have ws: "\<not> (he_id e = HDR_OTHER \<and> stringHasWhitespace (he_name e) \<and> \<not> relaxed)"
    using field_ok_name [OF e(1)] by blast
  obtain h1 where h1: "httpHeaderAddEntry h e = Some h1" "hdr_wf h1" "hdr_fields h1 = hdr_fields h @ [e]"
    using header_add_ok [OF Cons.prems(1) e(2)] by blast
  have "lengths_ok (hdr_fields h1 @ es)" using Cons.prems(3) h1(3) by simp
  from Cons.IH [OF h1(2) _ this] Cons.prems(2) obtain h' where
    h': "parse_fields relaxed h1 ?rest = Some (True, h')" "hdr_wf h'" "hdr_fields h' = hdr_fields h1 @ es" by auto
  have ne: "httpHeaderEntryPackInto e @ ?rest \<noteq> []" "he_name e @ '': '' @ he_value e \<noteq> []" by (simp_all add: httpHeaderEntryPackInto_def)
  have "parse_fields relaxed h (httpHeaderEntryPackInto e @ ?rest) = Some (True, h')"
    by (subst parse_fields.simps)
      (simp only: f ne if_False option.case prod.case parse_entry_pack [OF e(1)] bind.bind_lunit chk sum.case not_True_eq_False ws h1(1) h'(1))
  then show ?case using h' h1(3) by simp
qed

text \<open>C13: A packed header is read back. For fields whose text has no line breaks, whose names are known ones or
  have no blanks and colons, and with at most one Content-Length, packing the header and parsing the text gives
  a header with the same fields in the same order, in the strict and in the relaxed mode of the parser.\<close>
theorem header_pack_parse:
  assumes "hdr_wf h" "\<forall>e \<in> set (hdr_fields h). field_ok e" "lengths_ok (hdr_fields h)" "owner \<noteq> hoNone"
  shows "\<exists>packed fresh h'. httpHeaderPackInto h = Some packed \<and> httpHeaderInit owner = Some fresh \<and>
    httpHeaderParse relaxed fresh packed = Some (True, h') \<and> hdr_wf h' \<and> hdr_fields h' = hdr_fields h"
proof -
  obtain fresh where fresh: "httpHeaderInit owner = Some fresh" "hdr_wf fresh" "hdr_fields fresh = []" using header_init_ok [OF assms(4)] by blast
  have "NUL \<notin> set (concat (map httpHeaderEntryPackInto (hdr_fields h)))" using assms(2) field_ok_text by simp
  then show ?thesis using parse_fields_pack [OF fresh(2) assms(2), of relaxed] fresh assms(3) header_pack_ok [of h]
    by (simp add: httpHeaderParse_def)
qed

subsection \<open>What the parser accepts\<close>

lemma parse_entry_total:
  "httpHeaderEntryParseCreate relaxed field = Some None \<or>
   (\<exists>e. httpHeaderEntryParseCreate relaxed field = Some (Some e) \<and> entry_ok e)"
proof -
  define name where "name = takeWhile (\<lambda>c. c \<noteq> CHR '':'') field"
  define name1 where "name1 = (if relaxed then rtrim name else name)"
  define val where "val = rtrim (dropWhile isspace (drop (length name + 1) field))"
  define i where "i = (case httpHeaderIdByName name1 (length name1) HeaderNames of None \<Rightarrow> HDR_OTHER | Some i \<Rightarrow> i)"
  have i: "i < HDR_ENUM_END" "i \<noteq> HDR_OTHER \<Longrightarrow> length (HeaderNames ! i) = length name1"
    using httpHeaderIdByName_Some [of name1 "length name1" HeaderNames] by (auto simp: i_def split: option.splits)
  show ?thesis
  proof (cases "CHR '':'' \<notin> set field \<or> name = [] \<or> 65534 < length name \<or> name1 = [] \<or> 65534 < length val")
    case True
    have "\<exists>n. (if i = HDR_OTHER then stringLimitInit name1 (length name1) else arr_get HeaderNames i) = Some n" if "length name1 \<le> 65534"
      using that i(1) by (auto simp: stringLimitInit_def arr_get_def)
    moreover have "length name1 \<le> length name" by (simp add: name1_def length_rtrim)
    ultimately have "httpHeaderEntryParseCreate relaxed field = Some None" using True
      unfolding httpHeaderEntryParseCreate_def Let_def name_def [symmetric] name1_def [symmetric] val_def [symmetric] i_def [symmetric]
      by (cases "65534 < length name") auto
    then show ?thesis ..
  next
    case False
    have le: "length name1 \<le> 65534" using False length_rtrim [of name] by (auto simp: name1_def)
    define n where "n = (if i = HDR_OTHER then name1 else HeaderNames ! i)"
    have n: "(if i = HDR_OTHER then stringLimitInit name1 (length name1) else arr_get HeaderNames i) = Some n"
      using le i(1) by (auto simp: stringLimitInit_def arr_get_def n_def)
    have v: "stringLimitInit val (length val) = Some val" using False by (simp add: stringLimitInit_def)
    have "httpHeaderEntryParseCreate relaxed field = Some (Some \<lparr>he_id = i, he_name = n, he_value = val\<rparr>)" using False
      unfolding httpHeaderEntryParseCreate_def Let_def name_def [symmetric] name1_def [symmetric] val_def [symmetric] i_def [symmetric]
      by (simp only: n v) simp
    moreover have "entry_ok \<lparr>he_id = i, he_name = n, he_value = val\<rparr>" using i le False by (auto simp: entry_ok_def n_def)
    ultimately show ?thesis by blast
  qed
qed

text \<open>The header during and after a parse.\<close>

definition parsed_ok :: "HttpHeader \<Rightarrow> bool" where
  "parsed_ok h \<longleftrightarrow> hdr_wf h \<and> lengths_ok (hdr_fields h) \<and> (\<forall>e \<in> set (hdr_fields h). entry_ok e)"

lemma content_length_check_ok:
  assumes "parsed_ok h" "he_id e = HDR_CONTENT_LENGTH"
  shows "\<exists>r. content_length_check relaxed h e = Some r \<and>
    (case r of Inl _ \<Rightarrow> True | Inr (h', add) \<Rightarrow> parsed_ok h' \<and> hh_owner h' = hh_owner h \<and> (add \<longrightarrow> lengths_ok (hdr_fields h' @ [e])))"
proof -
  let ?C = "\<lambda>e. he_id e = HDR_CONTENT_LENGTH"
  have wf: "hdr_wf h" and l: "lengths_ok (hdr_fields h)" using assms(1) by (simp_all add: parsed_ok_def)
  have f: "httpHeaderFindEntry h (he_id e) = Some (List.find ?C (hdr_fields h))"
    using header_find_ok [OF wf _ content_length_not_list] assms(2) by simp
  obtain ok l1 where p: "httpHeaderParseSize (he_value e) = (ok, l1)" by fastforce
  show ?thesis
  proof (cases "List.find ?C (hdr_fields h)")
    case None
    then have n: "filter ?C (hdr_fields h) = []" by (auto simp: find_None_iff filter_empty_conv)
    have "ok \<Longrightarrow> lengths_ok (hdr_fields h @ [e])" using n l p by (auto simp: lengths_ok_def)
    then show ?thesis using f None p assms(1) by (cases ok) (simp_all add: content_length_check_def)
  next
    case (Some e2)
    then have e2: "he_id e2 = HDR_CONTENT_LENGTH" by (auto simp: find_Some_iff)
    then have i: "he_id e2 < HDR_ENUM_END" "he_id e2 \<noteq> HDR_OTHER" by simp_all
    obtain h' where h': "httpHeaderDelById h (he_id e2) = Some (length (filter (\<lambda>e. he_id e = he_id e2) (hdr_fields h)), h')" "hdr_wf h'"
      "hdr_fields h' = filter (\<lambda>e. he_id e \<noteq> he_id e2) (hdr_fields h)" "hh_owner h' = hh_owner h"
      using header_del_by_id_ok [OF wf i] by blast
    have n: "filter ?C (hdr_fields h') = []" using h'(3) e2 by (simp add: filter_empty_conv)
    have p': "parsed_ok h'" using assms(1) h'(2,3) e2 by (auto simp: parsed_ok_def lengths_ok_def filter_empty_conv)
    have add: "ok \<Longrightarrow> lengths_ok (hdr_fields h' @ [e])" using p' n p by (auto simp: parsed_ok_def lengths_ok_def)
    obtain ok2 l2 where p2: "httpHeaderParseSize (he_value e2) = (ok2, l2)" by fastforce
    show ?thesis using f Some p p2 assms(1) h'(1,4) p' add
      by (cases ok; cases "he_value e = he_value e2"; cases relaxed; cases ok2; cases "l2 < l1") (simp_all add: content_length_check_def)
  qed
qed

lemma parse_refused_ok:
  "hh_owner h \<noteq> hoNone \<Longrightarrow> \<exists>h'. parse_refused h = Some (False, h') \<and> parsed_ok h' \<and> hdr_fields h' = []"
  using header_reset_ok [of h] by (auto simp: parse_refused_def parsed_ok_def lengths_ok_def)

lemma parse_fields_ok:
  assumes "parsed_ok h"
  shows "\<exists>ok h'. parse_fields relaxed h inp = Some (ok, h') \<and> parsed_ok h' \<and> (\<not> ok \<longrightarrow> hdr_fields h' = [])"
  using assms
proof (induction relaxed h inp rule: parse_fields.induct)
  case (1 relaxed h inp)
  have wf: "hdr_wf h" "hh_owner h \<noteq> hoNone" using "1.prems" by (simp_all add: parsed_ok_def hdr_wf_def)
  obtain hr where refuse: "parse_refused h = Some (False, hr)" "parsed_ok hr" "hdr_fields hr = []" using parse_refused_ok [OF wf(2)] by blast
  show ?case
  proof (cases "inp = []")
    case True
    then show ?thesis using "1.prems" by (intro exI [of _ True] exI [of _ h]) (simp add: parse_fields.simps)
  next
    case ne: False
    show ?thesis
    proof (cases "field_lines relaxed [] inp")
      case None
      then show ?thesis using ne refuse by (intro exI [of _ False] exI [of _ hr]) (simp add: parse_fields.simps)
    next
      case (Some p)
      obtain field inp' where p: "p = (field, inp')" by fastforce
      show ?thesis
      proof (cases "field = []")
        case True
        then have "parse_fields relaxed h inp = (if inp' \<noteq> [] then parse_refused h else Some (True, h))"
          using ne Some p by (simp add: parse_fields.simps [of relaxed h inp])
        then show ?thesis using refuse "1.prems" by (cases "inp' = []") auto
      next
        case f: False
        from parse_entry_total [of relaxed field] show ?thesis
        proof
          assume e: "httpHeaderEntryParseCreate relaxed field = Some None"
          then have "parse_fields relaxed h inp = (if relaxed then parse_fields relaxed h inp' else parse_refused h)"
            using ne Some p f by (simp add: parse_fields.simps [of relaxed h inp])
          then show ?thesis using "1.IH"(1) [OF ne Some p [symmetric] f] e "1.prems" refuse by (cases relaxed) auto
        next
          assume "\<exists>e. httpHeaderEntryParseCreate relaxed field = Some (Some e) \<and> entry_ok e"
          then obtain e where e: "httpHeaderEntryParseCreate relaxed field = Some (Some e)" "entry_ok e" by blast
          let ?chk = "if he_id e = HDR_CONTENT_LENGTH then content_length_check relaxed h e else Some (Inr (h, True))"
          obtain r where r: "?chk = Some r" and post: "case r of Inl _ \<Rightarrow> True
              | Inr (h', add) \<Rightarrow> parsed_ok h' \<and> hh_owner h' = hh_owner h \<and> (add \<longrightarrow> lengths_ok (hdr_fields h' @ [e]))"
          proof (cases "he_id e = HDR_CONTENT_LENGTH")
            case True
            then show ?thesis using content_length_check_ok [OF "1.prems" True, of relaxed] that by auto
          next
            case False
            then have "lengths_ok (hdr_fields h @ [e])" using "1.prems" by (simp add: parsed_ok_def lengths_ok_def)
            then show ?thesis using False "1.prems" that by simp
          qed
          have run: "parse_fields relaxed h inp = (case r of
                  Inl _ \<Rightarrow> parse_refused h
                | Inr (h, add) \<Rightarrow>
                    if \<not> add then parse_fields relaxed h inp'
                    else if he_id e = HDR_OTHER \<and> stringHasWhitespace (he_name e) \<and> \<not> relaxed then parse_refused h
                    else do { h \<leftarrow> httpHeaderAddEntry h e; parse_fields relaxed h inp' })"
            using ne Some p f e(1) r by (subst parse_fields.simps) simp
          show ?thesis
          proof (cases r)
            case (Inl u)
            then show ?thesis using run refuse by (intro exI [of _ False] exI [of _ hr]) simp
          next
            case (Inr q)
            obtain h1 add where q: "q = (h1, add)" by fastforce
            have h1: "parsed_ok h1" "hh_owner h1 = hh_owner h" "add \<Longrightarrow> lengths_ok (hdr_fields h1 @ [e])" using post Inr q by simp_all
            show ?thesis
            proof (cases add)
              case False
              then show ?thesis using run Inr q "1.IH"(2) [OF ne Some p [symmetric] f e(1) refl r Inr q [symmetric] False h1(1)] by simp
            next
              case add: True
              show ?thesis
              proof (cases "he_id e = HDR_OTHER \<and> stringHasWhitespace (he_name e) \<and> \<not> relaxed")
                case True
                moreover have "hh_owner h1 \<noteq> hoNone" using h1(2) wf(2) by simp
                ultimately show ?thesis using run Inr q add parse_refused_ok [of h1] by auto
              next
                case False
                obtain h2 where h2: "httpHeaderAddEntry h1 e = Some h2" "hdr_wf h2" "hdr_fields h2 = hdr_fields h1 @ [e]"
                  using header_add_ok [of h1 e] h1(1) e(2) by (auto simp: parsed_ok_def entry_ok_def)
                then have "parsed_ok h2" using h1(1) h1(3) [OF add] e(2) by (auto simp: parsed_ok_def)
                moreover have "parse_fields relaxed h inp = parse_fields relaxed h2 inp'" unfolding run Inr q using add False h2(1) by (simp del: de_Morgan_conj)
                ultimately show ?thesis using "1.IH"(3) [OF ne Some p [symmetric] f e(1) refl r Inr q [symmetric] _ False h2(1)] add by simp
              qed
            qed
          qed
        qed
      qed
    qed
  qed
qed

text \<open>C12: No message with two lengths is accepted. Parsing any text always ends without a failed assertion, on a header
  whose mask and length agree with its entries; the result has at most one Content-Length field, whose
  value is a number, however many the text has and whether or not they agree; and a refused header is empty.\<close>
theorem header_parse_one_length:
  assumes "owner \<noteq> hoNone"
  shows "\<exists>fresh ok h. httpHeaderInit owner = Some fresh \<and> httpHeaderParse relaxed fresh inp = Some (ok, h) \<and> hdr_wf h \<and>
    (\<forall>e \<in> set (hdr_fields h). entry_ok e) \<and> length (filter (\<lambda>e. he_id e = HDR_CONTENT_LENGTH) (hdr_fields h)) \<le> 1 \<and>
    (\<forall>e \<in> set (hdr_fields h). he_id e = HDR_CONTENT_LENGTH \<longrightarrow> fst (httpHeaderParseSize (he_value e))) \<and>
    (\<not> ok \<longrightarrow> hdr_fields h = [])"
proof -
  obtain fresh where fresh: "httpHeaderInit owner = Some fresh" "parsed_ok fresh" "hh_owner fresh \<noteq> hoNone"
    using header_init_ok [OF assms] assms by (auto simp: parsed_ok_def lengths_ok_def)
  have "\<exists>ok h. httpHeaderParse relaxed fresh inp = Some (ok, h) \<and> parsed_ok h \<and> (\<not> ok \<longrightarrow> hdr_fields h = [])"
    using parse_fields_ok [OF fresh(2)] parse_refused_ok [OF fresh(3)] by (auto simp: httpHeaderParse_def)
  then show ?thesis using fresh(1) by (auto simp: parsed_ok_def lengths_ok_def)
qed

subsection \<open>Putting and getting values\<close>

lemma put_field_ok:
  assumes "hdr_wf h" "i < HDR_OTHER" "length val \<le> 65534"
  shows "\<exists>h'. put_field h i n val = Some h' \<and> hdr_wf h' \<and>
    hdr_fields h' = hdr_fields h @ [\<lparr>he_id = i, he_name = HeaderNames ! i, he_value = val\<rparr>]"
  using header_add_ok [OF assms(1), of "\<lparr>he_id = i, he_name = HeaderNames ! i, he_value = val\<rparr>"] assms(2,3)
  by (auto simp: put_field_def httpHeaderEntryCreate_def arr_get_def stringLimitInit_def)

lemma find_last: "List.find P xs = None \<Longrightarrow> P x \<Longrightarrow> List.find P (xs @ [x]) = Some x"
  by (induction xs) (auto split: if_splits)

lemma range_not_list: "\<not> CBIT_TEST ListHeadersMask HDR_RANGE"
  by code_simp

text \<open>A number that is put is got back.\<close>

theorem header_put_get_int:
  assumes "hdr_wf h" "i < HDR_OTHER" "HeaderTypes ! i = ftInt" "\<not> CBIT_TEST ListHeadersMask i" "i \<notin> he_id ` set (hdr_fields h)"
    "0 \<le> n" "in_int32 n"
  shows "\<exists>h'. httpHeaderPutInt h i n = Some h' \<and> hdr_wf h' \<and> httpHeaderGetInt h' i = Some n"
proof -
  have "n < 10 ^ 10" using assms(7) by (simp add: in_int32_def)
  then have "nat n < 10 ^ 10" using assms(6) by (simp add: nat_less_iff)
  then have l: "length (fmt_d n) \<le> 65534" using length_dec_of_nat [of 10 "nat n"] assms(6) by (simp add: fmt_d_def)
  obtain h' where h': "put_field h i None (fmt_d n) = Some h'" "hdr_wf h'"
    "hdr_fields h' = hdr_fields h @ [\<lparr>he_id = i, he_name = HeaderNames ! i, he_value = fmt_d n\<rparr>]"
    using put_field_ok [OF assms(1,2) l] by blast
  have i: "i < HDR_ENUM_END" using assms(2) by simp
  have "List.find (\<lambda>e. he_id e = i) (hdr_fields h) = None" using assms(5) by (auto simp: find_None_iff)
  then have "List.find (\<lambda>e. he_id e = i) (hdr_fields h') = Some \<lparr>he_id = i, he_name = HeaderNames ! i, he_value = fmt_d n\<rparr>"
    using h'(3) by (simp add: find_last)
  then have "httpHeaderGetInt h' i = Some n" using header_find_ok [OF h'(2) i assms(4)] assms(3) i httpHeaderParseInt_fmt_d [OF assms(6,7), of "[]"]
    by (simp add: httpHeaderGetInt_def)
  then show ?thesis using h'(1,2) assms(3,6) i by (simp add: httpHeaderPutInt_def)
qed

text \<open>A Range header that is put cannot be read: the text lacks the unit \<open>bytes=\<close>.\<close>

theorem header_put_range_lost:
  assumes "hdr_wf h" "r \<noteq> []" "length (httpHdrRangePackInto r) \<le> 65534"
  shows "\<exists>h'. httpHeaderPutRange h r = Some h' \<and> hdr_wf h' \<and> HDR_RANGE \<in> he_id ` set (hdr_fields h') \<and> httpHeaderGetRange h' = Some None"
proof -
  have i: "HDR_RANGE < HDR_ENUM_END" "HDR_RANGE \<noteq> HDR_OTHER" by simp_all
  obtain h1 where h1: "httpHeaderDelById h HDR_RANGE = Some (length (filter (\<lambda>e. he_id e = HDR_RANGE) (hdr_fields h)), h1)" "hdr_wf h1"
    "hdr_fields h1 = filter (\<lambda>e. he_id e \<noteq> HDR_RANGE) (hdr_fields h)" using header_del_by_id_ok [OF assms(1) i] by blast
  let ?e = "\<lparr>he_id = HDR_RANGE, he_name = HeaderNames ! HDR_RANGE, he_value = httpHdrRangePackInto r\<rparr>"
  obtain h2 where h2: "put_field h1 HDR_RANGE None (httpHdrRangePackInto r) = Some h2" "hdr_wf h2" "hdr_fields h2 = hdr_fields h1 @ [?e]"
    using put_field_ok [OF h1(2) _ assms(3), of HDR_RANGE] by auto
  have "List.find (\<lambda>e. he_id e = HDR_RANGE) (hdr_fields h1) = None" using h1(3) by (auto simp: find_None_iff)
  then have "List.find (\<lambda>e. he_id e = HDR_RANGE) (hdr_fields h2) = Some ?e" using h2(3) by (simp add: find_last)
  then have f: "httpHeaderFindEntry h2 HDR_RANGE = Some (Some ?e)" using header_find_ok [OF h2(2) i(1) range_not_list] by simp
  obtain t where "httpHdrRangePackInto r = CHR '','' # t" using assms(2) by (cases r) (auto simp: httpHdrRangePackInto_def)
  then have "httpHdrRangeParseCreate (httpHdrRangePackInto r) = None"
    by (simp add: httpHdrRangeParseCreate_def httpHdrRangeParseInit_def strncaseeq_def xtolower_def)
  then have "httpHeaderGetRange h2 = Some None" using f by (simp add: httpHeaderGetRange_def del: HDR_RANGE_def)
  moreover have "httpHeaderPutRange h r = Some h2" using h1(1) h2(1) by (simp add: httpHeaderPutRange_def)
  ultimately show ?thesis using h2(2,3) by auto
qed

subsection \<open>An example\<close>

definition demo_field :: "nat \<Rightarrow> string \<Rightarrow> HttpHeaderEntry" where
  "demo_field i val = \<lparr>he_id = i, he_name = (if i = HDR_OTHER then ''X-Chunk'' else HeaderNames ! i), he_value = val\<rparr>"

lemma demo_header:
  assumes "\<forall>e \<in> set es. he_id e < HDR_ENUM_END"
  obtains h where "hdr_wf h" "hdr_fields h = es"
proof -
  have "\<exists>h. hdr_wf h \<and> hdr_fields h = es" using assms
  proof (induction es rule: rev_induct)
    case Nil
    then show ?case using header_init_ok [of hoReply] by auto
  next
    case (snoc e es)
    then obtain h where "hdr_wf h" "hdr_fields h = es" by auto
    then show ?case using header_add_ok [of h e] snoc.prems by auto
  qed
  then show ?thesis using that by blast
qed

lemma demo_field_ok: "entry_ok (demo_field HDR_AGE ''7'')" "entry_ok (demo_field HDR_OTHER ''lmt 5'')" "entry_ok (demo_field HDR_SERVER ''squid'')"
  by (simp_all add: entry_ok_def demo_field_def HeaderNames_def)

theorem header_refines_fields_witness:
  "\<exists>h by_id. hdr_fields h = [demo_field HDR_AGE ''7'', demo_field HDR_OTHER ''lmt 5'', demo_field HDR_AGE ''9''] \<and>
    httpHeaderDelById h HDR_AGE = Some (2, by_id) \<and> hdr_wf by_id \<and> hdr_fields by_id = [demo_field HDR_OTHER ''lmt 5'']"
proof -
  let ?es = "[demo_field HDR_AGE ''7'', demo_field HDR_OTHER ''lmt 5'', demo_field HDR_AGE ''9'']"
  obtain h where h: "hdr_wf h" "hdr_fields h = ?es" by (rule demo_header [of ?es]) (auto simp: demo_field_def)
  have "he_id (demo_field HDR_AGE ''9'') < HDR_ENUM_END" "HDR_AGE < HDR_OTHER" by (simp_all add: demo_field_def)
  from header_refines_fields [OF h(1) this] obtain by_id where
    "httpHeaderDelById h HDR_AGE = Some (length (filter (\<lambda>e. he_id e = HDR_AGE) (hdr_fields h)), by_id)" "hdr_wf by_id"
    "hdr_fields by_id = filter (\<lambda>e. he_id e \<noteq> HDR_AGE) (hdr_fields h)" by blast
  then show ?thesis using h(2) by (intro exI [of _ h] exI [of _ by_id]) (simp add: demo_field_def)
qed

theorem header_update_replaces_witness:
  "\<exists>old fresh h. hdr_fields old = [demo_field HDR_AGE ''7'', demo_field HDR_SERVER ''a''] \<and> hdr_fields fresh = [demo_field HDR_SERVER ''squid''] \<and>
    httpHeaderUpdate old fresh None = Some h \<and> hdr_fields h = [demo_field HDR_AGE ''7'', demo_field HDR_SERVER ''squid'']"
proof -
  let ?es = "[demo_field HDR_AGE ''7'', demo_field HDR_SERVER ''a'']" and ?fs = "[demo_field HDR_SERVER ''squid'']"
  obtain old where old: "hdr_wf old" "hdr_fields old = ?es" by (rule demo_header [of ?es]) (auto simp: demo_field_def)
  obtain fresh where fresh: "hdr_wf fresh" "hdr_fields fresh = ?fs" by (rule demo_header [of ?fs]) (auto simp: demo_field_def)
  have "\<forall>e \<in> set (hdr_fields fresh). entry_ok e" using fresh(2) demo_field_ok(3) by simp
  from header_update_replaces [OF old(1) fresh(1) this, of None] show ?thesis
    using old(2) fresh(2) by (auto simp: update_skips_def replaces_def demo_field_def)
qed

theorem header_pack_parse_witness:
  "\<exists>h packed fresh h'. hdr_fields h = [demo_field HDR_AGE ''7'', demo_field HDR_CONTENT_LENGTH ''12''] \<and> httpHeaderPackInto h = Some packed \<and>
    httpHeaderInit hoReply = Some fresh \<and> httpHeaderParse False fresh packed = Some (True, h') \<and> hdr_fields h' = hdr_fields h"
proof -
  let ?es = "[demo_field HDR_AGE ''7'', demo_field HDR_CONTENT_LENGTH ''12'']"
  obtain h where h: "hdr_wf h" "hdr_fields h = ?es" by (rule demo_header [of ?es]) (auto simp: demo_field_def)
  have n: "he_name (demo_field HDR_AGE ''7'') = ''Age''" "he_name (demo_field HDR_CONTENT_LENGTH ''12'') = ''Content-Length''"
    by (simp_all add: demo_field_def HeaderNames_def)
  have f: "\<forall>e \<in> set (hdr_fields h). field_ok e" unfolding h(2)
    by (simp add: field_ok_def entry_ok_def n text_char_def isspace_def) (simp add: demo_field_def HeaderNames_def isspace_def)
  have "fst (httpHeaderParseSize ''12'')"
    by (simp add: httpHeaderParseSize_def strtol10_def isspace_def isdigit_def dec_val_def digit_val_def in_int64_def)
  then have "lengths_ok (hdr_fields h)" unfolding h(2) by (simp add: lengths_ok_def demo_field_def)
  from header_pack_parse [OF h(1) f this, of hoReply False] h(2) show ?thesis by auto
qed

theorem header_parse_one_length_witness:
  "\<exists>fresh ok h. httpHeaderInit hoReply = Some fresh \<and>
    httpHeaderParse True fresh (concat (map (\<lambda>v. ''Content-Length: '' @ v @ [CHR 0x0A]) [''5'', ''7'', ''5''])) = Some (ok, h) \<and>
    length (filter (\<lambda>e. he_id e = HDR_CONTENT_LENGTH) (hdr_fields h)) \<le> 1"
  using header_parse_one_length [of hoReply True "concat (map (\<lambda>v. ''Content-Length: '' @ v @ [CHR 0x0A]) [''5'', ''7'', ''5''])"]
  by blast

end

