(* ===== verification/Rfc1035.thy ===== *)
theory Rfc1035
  imports HttpTools
begin

section \<open>DNS messages (lib/rfc1035.c)\<close>

text \<open>
  The packing of queries and the unpacking of replies, byte for byte. A buffer is a list of characters, and
  a pointer into it a position; reading or writing outside the list aborts. The size \<open>sz\<close> of a message is
  passed beside its buffer, as in C, and may be smaller. Memory that is allocated holds zeros here; nothing
  reads it before it is written. Offsets do not overflow, since messages are at most 65535 bytes long.
\<close>

unbundle bit_operations_syntax

subsection \<open>Buffers\<close>

definition buf_read :: "char list \<Rightarrow> nat \<Rightarrow> nat \<Rightarrow> char list option" where
  "buf_read buf p n = (if p + n \<le> length buf then Some (take n (drop p buf)) else None)"

definition buf_write :: "char list \<Rightarrow> nat \<Rightarrow> char list \<Rightarrow> char list option" where
  "buf_write buf p xs =
     (if p + length xs \<le> length buf then Some (take p buf @ xs @ drop (p + length xs) buf) else None)"

text \<open>\<open>htons\<close> and \<open>memcpy\<close>: 16 bits in network order.\<close>

definition net16 :: "16 word \<Rightarrow> char list" where
  "net16 w = [char_of (unat w div 256), char_of (unat w mod 256)]"

definition get16 :: "char list \<Rightarrow> nat \<Rightarrow> 16 word option" where
  "get16 buf p = do {
     a \<leftarrow> arr_get buf p;
     b \<leftarrow> arr_get buf (p + 1);
     Some (word_of_nat (256 * of_char a + of_char b)) }"

definition get32 :: "char list \<Rightarrow> nat \<Rightarrow> 32 word option" where
  "get32 buf p = do {
     h \<leftarrow> get16 buf p;
     l \<leftarrow> get16 buf (p + 2);
     Some (push_bit 16 (ucast h) OR ucast l) }"

text \<open>\<open>xstrncpy\<close> into an array of \<open>n\<close> characters.\<close>

definition xstrncpy :: "char list \<Rightarrow> string \<Rightarrow> nat \<Rightarrow> char list option" where
  "xstrncpy dst src n = (if n = 0 then Some dst else buf_write dst 0 (take (n - 1) src @ [NUL]))"

text \<open>The tokens that \<open>strtok\<close> returns one after the other.\<close>

lemma token_shorter:
  assumes "dropWhile (\<lambda>c. c = del) s \<noteq> []"
  shows "length (dropWhile (\<lambda>c. c \<noteq> del) (dropWhile (\<lambda>c. c = del) s)) < length s"
proof -
  obtain c cs where d: "dropWhile (\<lambda>c. c = del) s = c # cs" using assms by (cases "dropWhile (\<lambda>c. c = del) s") auto
  then have "c \<noteq> del" by (auto dest: dropWhile_eq_Cons_conv [THEN iffD1])
  then have "length (dropWhile (\<lambda>c. c \<noteq> del) (c # cs)) \<le> length cs" by (simp add: length_dropWhile_le)
  moreover have "length (c # cs) \<le> length s" by (metis d length_dropWhile_le)
  ultimately show ?thesis by (simp add: d)
qed

function strtok_all :: "char \<Rightarrow> string \<Rightarrow> string list" where
  "strtok_all del s =
     (let s = dropWhile (\<lambda>c. c = del) s
      in if s = [] then []
         else takeWhile (\<lambda>c. c \<noteq> del) s # strtok_all del (dropWhile (\<lambda>c. c \<noteq> del) s))"
  by pat_completeness auto
termination
  by (relation "measure (\<lambda>(del, s). length s)") (auto intro: token_shorter)

declare strtok_all.simps [simp del]

subsection \<open>Messages\<close>

definition RFC1035_MAXHOSTNAMESZ :: nat where [simp]: "RFC1035_MAXHOSTNAMESZ = 256"
definition RFC1035_MAXLABELSZ :: nat where [simp]: "RFC1035_MAXLABELSZ = 63"
definition RFC1035_TYPE_A :: "16 word" where [simp]: "RFC1035_TYPE_A = 1"
definition RFC1035_TYPE_PTR :: "16 word" where [simp]: "RFC1035_TYPE_PTR = 12"
definition RFC1035_CLASS_IN :: "16 word" where [simp]: "RFC1035_CLASS_IN = 1"
definition rfc1035_unpack_error :: nat where [simp]: "rfc1035_unpack_error = 15"

record rfc1035_query =
  qu_name :: "char list"
  qu_type :: "16 word"
  qu_class :: "16 word"

record rfc1035_rr =
  rr_name :: "char list"
  rr_type :: "16 word"
  rr_class :: "16 word"
  rr_ttl :: "32 word"
  rr_rdlength :: "16 word"
  rr_rdata :: "char list option"

record rfc1035_message =
  ms_id :: "16 word"
  ms_qr :: "1 word"
  ms_opcode :: "4 word"
  ms_aa :: "1 word"
  ms_tc :: "1 word"
  ms_rd :: "1 word"
  ms_ra :: "1 word"
  ms_rcode :: "4 word"
  ms_qdcount :: "16 word"
  ms_ancount :: "16 word"
  ms_nscount :: "16 word"
  ms_arcount :: "16 word"
  ms_query :: "rfc1035_query list"
  ms_answer :: "rfc1035_rr list"

definition zero_query :: rfc1035_query where
  "zero_query = \<lparr>qu_name = replicate RFC1035_MAXHOSTNAMESZ NUL, qu_type = 0, qu_class = 0\<rparr>"

definition zero_rr :: rfc1035_rr where
  "zero_rr = \<lparr>rr_name = replicate RFC1035_MAXHOSTNAMESZ NUL, rr_type = 0, rr_class = 0, rr_ttl = 0, rr_rdlength = 0,
     rr_rdata = None\<rparr>"

definition zero_message :: rfc1035_message where
  "zero_message = \<lparr>ms_id = 0, ms_qr = 0, ms_opcode = 0, ms_aa = 0, ms_tc = 0, ms_rd = 0, ms_ra = 0, ms_rcode = 0,
     ms_qdcount = 0, ms_ancount = 0, ms_nscount = 0, ms_arcount = 0, ms_query = [], ms_answer = []\<rparr>"

subsection \<open>Packing\<close>

text \<open>The functions write at position \<open>p\<close> of the buffer, where \<open>sz\<close> bytes are left, and return their length.\<close>

definition header_flags :: "rfc1035_message \<Rightarrow> 16 word" where
  "header_flags hdr =
     push_bit 15 (ucast (ms_qr hdr)) OR push_bit 11 (ucast (ms_opcode hdr)) OR push_bit 10 (ucast (ms_aa hdr)) OR
     push_bit 9 (ucast (ms_tc hdr)) OR push_bit 8 (ucast (ms_rd hdr)) OR push_bit 7 (ucast (ms_ra hdr)) OR
     ucast (ms_rcode hdr)"

definition rfc1035HeaderPack :: "char list \<Rightarrow> nat \<Rightarrow> nat \<Rightarrow> rfc1035_message \<Rightarrow> (nat \<times> char list) option" where
  "rfc1035HeaderPack buf p sz hdr = do {
     c_assert (12 \<le> sz);
     buf \<leftarrow> buf_write buf p (net16 (ms_id hdr));
     buf \<leftarrow> buf_write buf (p + 2) (net16 (header_flags hdr));
     buf \<leftarrow> buf_write buf (p + 4) (net16 (ms_qdcount hdr));
     buf \<leftarrow> buf_write buf (p + 6) (net16 (ms_ancount hdr));
     buf \<leftarrow> buf_write buf (p + 8) (net16 (ms_nscount hdr));
     buf \<leftarrow> buf_write buf (p + 10) (net16 (ms_arcount hdr));
     Some (12, buf) }"

definition rfc1035LabelPack :: "char list \<Rightarrow> nat \<Rightarrow> nat \<Rightarrow> string option \<Rightarrow> (nat \<times> char list) option" where
  "rfc1035LabelPack buf p sz label = do {
     let text = (case label of None \<Rightarrow> [] | Some l \<Rightarrow> l);
     c_assert (CHR ''.'' \<notin> set text);
     let len = (if RFC1035_MAXLABELSZ < length text then RFC1035_MAXLABELSZ else length text);
     c_assert (len + 1 \<le> sz);
     buf \<leftarrow> buf_write buf p [char_of len];
     buf \<leftarrow> buf_write buf (p + 1) (take len text);
     Some (len + 1, buf) }"

fun pack_labels :: "char list \<Rightarrow> nat \<Rightarrow> nat \<Rightarrow> nat \<Rightarrow> string list \<Rightarrow> (nat \<times> char list) option" where
  "pack_labels buf p sz off [] = Some (off, buf)"
| "pack_labels buf p sz off (t # ts) = do {
     (n, buf) \<leftarrow> rfc1035LabelPack buf (p + off) (sz - off) (Some t);
     pack_labels buf p sz (off + n) ts }"

definition rfc1035NamePack :: "char list \<Rightarrow> nat \<Rightarrow> nat \<Rightarrow> string \<Rightarrow> (nat \<times> char list) option" where
  "rfc1035NamePack buf p sz name = do {
     (off, buf) \<leftarrow> pack_labels buf p sz 0 (strtok_all (CHR ''.'') name);
     (n, buf) \<leftarrow> rfc1035LabelPack buf (p + off) (sz - off) None;
     c_assert (off + n \<le> sz);
     Some (off + n, buf) }"

definition rfc1035QuestionPack ::
  "char list \<Rightarrow> nat \<Rightarrow> nat \<Rightarrow> string \<Rightarrow> 16 word \<Rightarrow> 16 word \<Rightarrow> (nat \<times> char list) option" where
  "rfc1035QuestionPack buf p sz name qtype qclass = do {
     (off, buf) \<leftarrow> rfc1035NamePack buf p sz name;
     buf \<leftarrow> buf_write buf (p + off) (net16 qtype);
     buf \<leftarrow> buf_write buf (p + off + 2) (net16 qclass);
     c_assert (off + 4 \<le> sz);
     Some (off + 4, buf) }"

text \<open>A query for \<open>name\<close>: the size of the message, the buffer, and the question to compare replies with.\<close>

definition build_query ::
  "string \<Rightarrow> 16 word \<Rightarrow> char list \<Rightarrow> nat \<Rightarrow> 16 word \<Rightarrow> rfc1035_query \<Rightarrow> (nat \<times> char list \<times> rfc1035_query) option" where
  "build_query name qtype buf sz qid query = do {
     let h = zero_message\<lparr>ms_id := qid, ms_qr := 0, ms_rd := 1, ms_opcode := 0, ms_qdcount := 1\<rparr>;
     (n, buf) \<leftarrow> rfc1035HeaderPack buf 0 sz h;
     let offset = n;
     (n, buf) \<leftarrow> rfc1035QuestionPack buf offset (sz - offset) name qtype RFC1035_CLASS_IN;
     let offset = offset + n;
     qn \<leftarrow> xstrncpy (qu_name query) name RFC1035_MAXHOSTNAMESZ;
     c_assert (offset \<le> sz);
     Some (offset, buf, query\<lparr>qu_type := qtype, qu_class := RFC1035_CLASS_IN, qu_name := qn\<rparr>) }"

definition rfc1035BuildAQuery ::
  "string \<Rightarrow> char list \<Rightarrow> nat \<Rightarrow> 16 word \<Rightarrow> rfc1035_query \<Rightarrow> (nat \<times> char list \<times> rfc1035_query) option" where
  "rfc1035BuildAQuery hostname buf sz qid query = build_query hostname RFC1035_TYPE_A buf sz qid query"

text \<open>The address is given as the number \<open>ntohl\<close> returns.\<close>

definition reverse_name :: "32 word \<Rightarrow> string" where
  "reverse_name i =
     dec_of_nat (unat (i AND 255)) @ ''.'' @ dec_of_nat (unat (drop_bit 8 i AND 255)) @ ''.'' @
     dec_of_nat (unat (drop_bit 16 i AND 255)) @ ''.'' @ dec_of_nat (unat (drop_bit 24 i AND 255)) @ ''.in-addr.arpa.''"

definition rfc1035BuildPTRQuery ::
  "32 word \<Rightarrow> char list \<Rightarrow> nat \<Rightarrow> 16 word \<Rightarrow> rfc1035_query \<Rightarrow> (nat \<times> char list \<times> rfc1035_query) option" where
  "rfc1035BuildPTRQuery addr buf sz qid query =
     build_query (take 31 (reverse_name addr)) RFC1035_TYPE_PTR buf sz qid query"

definition rfc1035SetQueryID :: "char list \<Rightarrow> 16 word \<Rightarrow> char list option" where
  "rfc1035SetQueryID buf qid = buf_write buf 0 (net16 qid)"

subsection \<open>Unpacking\<close>

text \<open>The functions return whether they failed, the new offset and what they unpacked.\<close>

definition rfc1035HeaderUnpack :: "char list \<Rightarrow> nat \<Rightarrow> nat \<Rightarrow> rfc1035_message \<Rightarrow> (bool \<times> nat \<times> rfc1035_message) option" where
  "rfc1035HeaderUnpack buf sz off h = do {
     c_assert (off = 0);
     if sz < 12 then Some (True, off, h)
     else do {
       qid \<leftarrow> get16 buf off;
       t \<leftarrow> get16 buf (off + 2);
       qd \<leftarrow> get16 buf (off + 4);
       an \<leftarrow> get16 buf (off + 6);
       ns \<leftarrow> get16 buf (off + 8);
       ar \<leftarrow> get16 buf (off + 10);
       Some (False, off + 12,
         h\<lparr>ms_id := qid, ms_qr := ucast (drop_bit 15 t AND 1), ms_opcode := ucast (drop_bit 11 t AND 15),
           ms_aa := ucast (drop_bit 10 t AND 1), ms_tc := ucast (drop_bit 9 t AND 1), ms_rd := ucast (drop_bit 8 t AND 1),
           ms_ra := ucast (drop_bit 7 t AND 1), ms_rcode := ucast (t AND 15), ms_qdcount := qd, ms_ancount := an,
           ms_nscount := ns, ms_arcount := ar\<rparr>) } }"

text \<open>
  The loop of \<open>rfc1035NameUnpack\<close>, with \<open>no\<close> characters written at \<open>base\<close>, where the array has \<open>ns\<close>. A compression
  pointer calls the function again for the rest of the name and leaves the offset behind the pointer.
\<close>

definition name_end :: "nat \<Rightarrow> 16 word option \<Rightarrow> char list \<Rightarrow> nat \<Rightarrow> nat \<Rightarrow> nat \<Rightarrow> (bool \<times> nat \<times> 16 word option \<times> char list) option" where
  "name_end off rdlength name base ns no = do {
     name \<leftarrow> arr_set name (if no \<noteq> 0 then base + no - 1 else base) NUL;
     c_assert (no \<le> ns);
     Some (False, off, rdlength, name) }"

function name_loop ::
  "char list \<Rightarrow> nat \<Rightarrow> nat \<Rightarrow> 16 word option \<Rightarrow> char list \<Rightarrow> nat \<Rightarrow> nat \<Rightarrow> nat \<Rightarrow> nat \<Rightarrow>
   (bool \<times> nat \<times> 16 word option \<times> char list) option" where
  "name_loop buf sz off rdlength name base ns rdepth no =
     (if sz \<le> off then Some (True, off, rdlength, name)
      else do {
        ch \<leftarrow> arr_get buf off;
        let c = (of_char ch :: nat);
        if 191 < c then
          (if 64 < rdepth then Some (True, off, rdlength, name)
           else do {
             s \<leftarrow> get16 buf off;
             let off = off + 2;
             let ptr = unat (s AND 0x3FFF);
             if sz < off then Some (True, off, rdlength, name)
             else if sz \<le> ptr then Some (True, off, rdlength, name)
             else do {
               c_assert (0 < ns - no);
               (failed, _, rdlength, name) \<leftarrow> name_loop buf sz ptr rdlength name (base + no) (ns - no) (rdepth + 1) 0;
               Some (failed, off, rdlength, name) } })
        else if RFC1035_MAXLABELSZ < c then Some (True, off, rdlength, name)
        else if c = 0 then name_end (off + 1) rdlength name base ns no
        else if ns - no - 1 < c then Some (True, off + 1, rdlength, name)
        else if sz \<le> off + 1 + c then Some (True, off + 1, rdlength, name)
        else do {
          label \<leftarrow> buf_read buf (off + 1) c;
          name \<leftarrow> buf_write name (base + no) label;
          name \<leftarrow> arr_set name (base + no + c) (CHR ''.'');
          let rdlength = map_option (\<lambda>r. r + word_of_nat (c + 1)) rdlength;
          if no + c + 1 < ns then name_loop buf sz (off + 1 + c) rdlength name base ns rdepth (no + c + 1)
          else name_end (off + 1 + c) rdlength name base ns (no + c + 1) } })"
  by pat_completeness auto
termination
  by (relation "measures [\<lambda>(buf, sz, off, rdlength, name, base, ns, rdepth, no). 66 - rdepth,
                          \<lambda>(buf, sz, off, rdlength, name, base, ns, rdepth, no). sz - off]") auto

declare name_loop.simps [simp del]

definition rfc1035NameUnpack ::
  "char list \<Rightarrow> nat \<Rightarrow> nat \<Rightarrow> 16 word option \<Rightarrow> char list \<Rightarrow> nat \<Rightarrow> nat \<Rightarrow> nat \<Rightarrow>
   (bool \<times> nat \<times> 16 word option \<times> char list) option" where
  "rfc1035NameUnpack buf sz off rdlength name base ns rdepth = do {
     c_assert (0 < ns);
     name_loop buf sz off rdlength name base ns rdepth 0 }"

definition rfc1035RRUnpack :: "char list \<Rightarrow> nat \<Rightarrow> nat \<Rightarrow> rfc1035_rr \<Rightarrow> (bool \<times> nat \<times> rfc1035_rr) option" where
  "rfc1035RRUnpack buf sz off RR = do {
     (failed, off, _, name) \<leftarrow> rfc1035NameUnpack buf sz off None (rr_name RR) 0 RFC1035_MAXHOSTNAMESZ 0;
     if failed then Some (True, off, zero_rr)
     else if sz < off + 10 then Some (True, off, zero_rr)
     else do {
       type \<leftarrow> get16 buf off;
       cl \<leftarrow> get16 buf (off + 2);
       ttl \<leftarrow> get32 buf (off + 4);
       rdlength \<leftarrow> get16 buf (off + 8);
       let off = off + 10;
       let RR = RR\<lparr>rr_name := name, rr_type := type, rr_class := cl, rr_ttl := ttl\<rparr>;
       if sz < off + unat rdlength then Some (True, off, zero_rr)
       else if type = RFC1035_TYPE_PTR then do {
         let rdata = replicate RFC1035_MAXHOSTNAMESZ NUL;
         (failed, rdata_off, rdl, rdata) \<leftarrow> rfc1035NameUnpack buf sz off (Some 0) rdata 0 RFC1035_MAXHOSTNAMESZ 0;
         rdl \<leftarrow> rdl;
         if failed then Some (True, off, RR\<lparr>rr_rdlength := rdl, rr_rdata := Some rdata\<rparr>)
         else if off + unat rdlength < rdata_off then Some (True, off, zero_rr)
         else do {
           c_assert (off + unat rdlength \<le> sz);
           Some (False, off + unat rdlength, RR\<lparr>rr_rdlength := rdl, rr_rdata := Some rdata\<rparr>) } }
       else do {
         rdata \<leftarrow> buf_read buf off (unat rdlength);
         c_assert (off + unat rdlength \<le> sz);
         Some (False, off + unat rdlength, RR\<lparr>rr_rdlength := rdlength, rr_rdata := Some rdata\<rparr>) } } }"

definition rfc1035QueryUnpack :: "char list \<Rightarrow> nat \<Rightarrow> nat \<Rightarrow> rfc1035_query \<Rightarrow> (bool \<times> nat \<times> rfc1035_query) option" where
  "rfc1035QueryUnpack buf sz off query = do {
     (failed, off, _, name) \<leftarrow> rfc1035NameUnpack buf sz off None (qu_name query) 0 RFC1035_MAXHOSTNAMESZ 0;
     if failed then Some (True, off, zero_query)
     else if sz < off + 4 then Some (True, off, zero_query)
     else do {
       qtype \<leftarrow> get16 buf off;
       qclass \<leftarrow> get16 buf (off + 2);
       Some (False, off + 4, query\<lparr>qu_name := name, qu_type := qtype, qu_class := qclass\<rparr>) } }"

text \<open>\<open>None\<close> as the message: it was destroyed.\<close>

definition rfc1035_error_message :: "nat \<Rightarrow> string" where
  "rfc1035_error_message n =
     (if n = 0 then ''No error condition''
      else if n = 1 then ''Format Error: The name server was unable to interpret the query.''
      else if n = 2 then ''Server Failure: The name server was unable to process this query.''
      else if n = 3 then ''Name Error: The domain name does not exist.''
      else if n = 4 then ''Not Implemented: The name server does not support the requested kind of query.''
      else if n = 5 then ''Refused: The name server refuses to perform the specified operation.''
      else if n = rfc1035_unpack_error then ''The DNS reply message is corrupt or could not be safely parsed.''
      else ''Unknown Error'')"

fun unpack_queries :: "char list \<Rightarrow> nat \<Rightarrow> nat \<Rightarrow> rfc1035_query list \<Rightarrow> (bool \<times> nat \<times> rfc1035_query list) option" where
  "unpack_queries buf sz off [] = Some (False, off, [])"
| "unpack_queries buf sz off (q # qs) = do {
     (failed, off, q) \<leftarrow> rfc1035QueryUnpack buf sz off q;
     if failed then Some (True, off, q # qs)
     else do {
       (failed, off, qs) \<leftarrow> unpack_queries buf sz off qs;
       Some (failed, off, q # qs) } }"

fun unpack_records :: "char list \<Rightarrow> nat \<Rightarrow> nat \<Rightarrow> nat \<Rightarrow> rfc1035_rr list \<Rightarrow> (nat \<times> rfc1035_rr list) option" where
  "unpack_records buf sz off nr [] = Some (nr, [])"
| "unpack_records buf sz off nr (r # rs) =
     (if sz \<le> off then Some (nr, r # rs)
      else do {
        (failed, off, r) \<leftarrow> rfc1035RRUnpack buf sz off r;
        if failed then Some (nr, r # rs)
        else do {
          (nr, rs) \<leftarrow> unpack_records buf sz off (nr + 1) rs;
          Some (nr, r # rs) } })"

text \<open>The result, the message and \<open>rfc1035_errno\<close>, which selects the error message.\<close>

definition rfc1035MessageUnpack :: "char list \<Rightarrow> nat \<Rightarrow> (int \<times> rfc1035_message option \<times> nat) option" where
  "rfc1035MessageUnpack buf sz = do {
     let corrupt = (- int rfc1035_unpack_error, None, rfc1035_unpack_error);
     (failed, off, msg) \<leftarrow> rfc1035HeaderUnpack buf sz 0 zero_message;
     if failed then Some corrupt
     else if ms_qdcount msg \<noteq> 1 then Some corrupt
     else do {
       (failed, off, querys) \<leftarrow> unpack_queries buf sz off (replicate (unat (ms_qdcount msg)) zero_query);
       let msg = msg\<lparr>ms_query := querys\<rparr>;
       if failed then Some corrupt
       else if ms_rcode msg \<noteq> 0 then Some (- int (unat (ms_rcode msg)), Some msg, unat (ms_rcode msg))
       else if ms_ancount msg = 0 then Some (0, Some msg, 0)
       else do {
         (nr, recs) \<leftarrow> unpack_records buf sz off 0 (replicate (unat (ms_ancount msg)) zero_rr);
         let msg = msg\<lparr>ms_answer := recs\<rparr>;
         if nr = 0 then Some corrupt
         else Some (int nr, Some msg, 0) } } }"

text \<open>Whether two questions differ.\<close>

definition trim_dots :: "string \<Rightarrow> string" where
  "trim_dots s = rev (dropWhile (\<lambda>c. c = CHR ''.'') (rev s))"

definition rfc1035QueryCompare :: "rfc1035_query \<Rightarrow> rfc1035_query \<Rightarrow> bool option" where
  "rfc1035QueryCompare a b =
     (if qu_type a \<noteq> qu_type b \<or> qu_class a \<noteq> qu_class b then Some True
      else do {
        na \<leftarrow> cstr_of_buf (qu_name a);
        nb \<leftarrow> cstr_of_buf (qu_name b);
        let la = (if length na \<noteq> length nb then length (trim_dots na) else length na);
        let lb = (if length na \<noteq> length nb then length (trim_dots nb) else length nb);
        if la \<noteq> lb then Some True else Some (\<not> strncaseeq na nb la) })"

subsection \<open>Lemmas: buffers\<close>

lemma buf_write_ok: "p + length xs \<le> length buf \<Longrightarrow> \<exists>b. buf_write buf p xs = Some b \<and> length b = length buf"
  by (simp add: buf_write_def)

lemma buf_write_append: "length xs \<le> length B \<Longrightarrow> buf_write (A @ B) (length A) xs = Some (A @ xs @ drop (length xs) B)"
  by (simp add: buf_write_def)

lemma length_net16 [simp]: "length (net16 w) = 2"
  by (simp add: net16_def)

lemma arr_get_at [simp]: "arr_get (A @ x # B) (length A) = Some x"
  by (simp add: arr_get_def)

lemma get16_ok: "p + 2 \<le> length buf \<Longrightarrow> \<exists>w. get16 buf p = Some w"
  by (simp add: get16_def arr_simps)

lemma get32_ok: "p + 4 \<le> length buf \<Longrightarrow> \<exists>w. get32 buf p = Some w"
  using get16_ok [of p buf] get16_ok [of "p + 2" buf] by (auto simp: get32_def)

lemma get16_net16: "get16 (A @ net16 w @ B) (length A) = Some w"
proof -
  have "unat w < 65536" using unsigned_less [of w] by simp
  moreover have "256 * word_of_nat (unat w div 256) + word_of_nat (unat w mod 256) = (word_of_nat (256 * (unat w div 256) + unat w mod 256) :: 16 word)"
    by (simp only: of_nat_add of_nat_mult of_nat_numeral)
  then have "256 * word_of_nat (unat w div 256) + word_of_nat (unat w mod 256) = w" unfolding mult_div_mod_eq by simp
  ultimately show ?thesis by (simp add: get16_def net16_def arr_get_def nth_append)
qed

definition net32 :: "32 word \<Rightarrow> char list" where
  "net32 w = net16 (ucast (drop_bit 16 w)) @ net16 (ucast w)"

lemma length_net32 [simp]: "length (net32 w) = 4"
  by (simp add: net32_def)

lemma word_split_join: "push_bit 16 (ucast (ucast (drop_bit 16 w) :: 16 word)) OR ucast (ucast w :: 16 word) = (w :: 32 word)"
  by (rule bit_word_eqI) (auto simp: bit_simps)

lemma get32_net32: "get32 (A @ net32 w @ B) (length A) = Some w"
  using get16_net16 [of A "ucast (drop_bit 16 w)" "net16 (ucast w) @ B"]
    get16_net16 [of "A @ net16 (ucast (drop_bit 16 w))" "ucast w" B]
  by (simp add: get32_def net32_def word_split_join)

subsection \<open>Lemmas: unpacking is safe\<close>

definition name_array :: "char list \<Rightarrow> bool" where
  "name_array b \<longleftrightarrow> length b = RFC1035_MAXHOSTNAMESZ \<and> NUL \<in> set b"

text \<open>What a call of \<open>name_loop\<close> promises of its result.\<close>

fun name_result :: "nat \<Rightarrow> nat \<Rightarrow> nat \<Rightarrow> nat \<Rightarrow> nat \<Rightarrow> bool \<Rightarrow> bool \<times> nat \<times> 16 word option \<times> char list \<Rightarrow> bool" where
  "name_result off sz base ns len rd (failed, off', rdl, name) \<longleftrightarrow>
     length name = len \<and> (rdl = None \<longleftrightarrow> rd) \<and>
     (\<not> failed \<longrightarrow> off < off' \<and> off' \<le> sz \<and> (\<exists>k. base \<le> k \<and> k < base + ns \<and> name ! k = NUL))"

lemma name_end_ok:
  assumes "no \<le> ns" "0 < ns" "base + ns \<le> length name" "off < off'" "off' \<le> sz"
  shows "\<exists>r. name_end off' rdl name base ns no = Some r \<and> name_result off sz base ns (length name) (rdl = None) r"
proof -
  define k where "k = (if no \<noteq> 0 then base + no - 1 else base)"
  have k: "base \<le> k" "k < base + ns" "k < length name" using assms by (auto simp: k_def)
  then have "name_end off' rdl name base ns no = Some (False, off', rdl, name[k := NUL])"
    using assms(1) unfolding name_end_def k_def [symmetric] by (simp add: arr_set_in)
  moreover have "name[k := NUL] ! k = NUL" using k(3) by simp
  ultimately show ?thesis using k assms(4,5) by fastforce
qed

lemma name_loop_ok:
  assumes "sz < length buf" "no < ns" "base + ns \<le> length name"
  shows "\<exists>r. name_loop buf sz off rdl name base ns rdepth no = Some r \<and> name_result off sz base ns (length name) (rdl = None) r"
  using assms
proof (induction buf sz off rdl name base ns rdepth no rule: name_loop.induct)
  case (1 buf sz off rdl name base ns rdepth no)
  note ok = "1.prems"
  show ?case
  proof (cases "sz \<le> off")
    case True then show ?thesis by (simp add: name_loop.simps)
  next
    case False
    define ch where "ch = buf ! off"
    define c where "c = (of_char ch :: nat)"
    have ch: "arr_get buf off = Some ch" using False ok(1) by (simp add: arr_simps ch_def)
    note IH = "1.IH" [OF False ch c_def]
    consider "191 < c" | "63 < c" "c \<le> 191" | "c = 0" | "0 < c" "c \<le> 63" by linarith
    then show ?thesis
    proof cases
      case 1
      from get16_ok [of off buf] False ok(1) obtain s where s: "get16 buf off = Some s" by auto
      show ?thesis
      proof (cases "64 < rdepth \<or> sz < off + 2 \<or> sz \<le> unat (s AND 0x3FFF)")
        case True
        then show ?thesis using 1 False s by (subst name_loop.simps) (auto simp: ch c_def [symmetric] Let_def)
      next
        case inside: False
        from IH(1) [OF 1 _ s refl refl] inside ok obtain failed off' rdl' name' where
          r: "name_loop buf sz (unat (s AND 0x3FFF)) rdl name (base + no) (ns - no) (rdepth + 1) 0 = Some (failed, off', rdl', name')"
          "name_result (unat (s AND 0x3FFF)) sz (base + no) (ns - no) (length name) (rdl = None) (failed, off', rdl', name')" by fastforce
        have "name_result off sz base ns (length name) (rdl = None) (failed, off + 2, rdl', name')"
          using r(2) ok(2) inside by (cases failed) (auto intro: add_leD1)
        then show ?thesis using 1 False s inside ok(2) r(1) by (subst name_loop.simps) (simp add: ch c_def [symmetric])
      qed
    next
      case 2 then show ?thesis using False by (subst name_loop.simps) (simp add: ch c_def [symmetric])
    next
      case 3
      with name_end_ok [of no ns base name off "off + 1" sz rdl] ok False show ?thesis
        by (subst name_loop.simps) (simp add: ch c_def [symmetric])
    next
      case 4
      show ?thesis
      proof (cases "ns - no - 1 < c \<or> sz \<le> off + 1 + c")
        case True then show ?thesis using 4 False by (subst name_loop.simps) (auto simp: ch c_def [symmetric])
      next
        case inside: False
        define lab where "lab = take c (drop (off + 1) buf)"
        have lab: "buf_read buf (off + 1) c = Some lab" "length lab = c" using inside ok(1) by (auto simp: buf_read_def lab_def)
        have "base + no + length lab \<le> length name" using inside ok lab(2) by auto
        from buf_write_ok [OF this] obtain n1 where n1: "buf_write name (base + no) lab = Some n1" "length n1 = length name" by blast
        define n2 where "n2 = n1[base + no + c := CHR ''.'']"
        have n2: "arr_set n1 (base + no + c) (CHR ''.'') = Some n2" "length n2 = length name"
          using inside ok n1(2) by (auto simp: arr_set_def n2_def)
        define rd where "rd = map_option (\<lambda>r. r + (word_of_nat (c + 1) :: 16 word)) rdl"
        have step: "name_loop buf sz off rdl name base ns rdepth no =
            (if no + c + 1 < ns then name_loop buf sz (off + 1 + c) rd n2 base ns rdepth (no + c + 1)
             else name_end (off + 1 + c) rd n2 base ns (no + c + 1))"
          using 4 False inside lab(1) n1(1) n2(1)
          by (subst name_loop.simps) (simp add: ch c_def [symmetric] rd_def)
        have rd: "(rd = None) = (rdl = None)" by (simp add: rd_def)
        show ?thesis
        proof (cases "no + c + 1 < ns")
          case True
          have "\<exists>r. name_loop buf sz (off + 1 + c) rd n2 base ns rdepth (no + c + 1) = Some r \<and>
              name_result (off + 1 + c) sz base ns (length n2) (rd = None) r"
            using IH(2) [OF _ _ _ _ _ lab(1) n1(1) n2(1) rd_def True] 4 inside True ok n2(2) by simp
          then obtain r where r: "name_loop buf sz (off + 1 + c) rd n2 base ns rdepth (no + c + 1) = Some r"
            "name_result (off + 1 + c) sz base ns (length name) (rdl = None) r" unfolding rd n2(2) by blast
          from r(2) have "name_result off sz base ns (length name) (rdl = None) r" by (cases r) auto
          with r(1) True show ?thesis unfolding step by simp
        next
          case full: False
          have "no + c + 1 \<le> ns" using inside ok(2) by auto
          from name_end_ok [OF this, of base n2 off "off + 1 + c" sz rd] ok(2,3) n2(2) inside full rd show ?thesis
            unfolding step by auto
        qed
      qed
    qed
  qed
qed

lemma name_unpack_ok:
  assumes "sz < length buf" "length name = RFC1035_MAXHOSTNAMESZ"
  shows "\<exists>failed off' rdl' name'. rfc1035NameUnpack buf sz off rdl name 0 RFC1035_MAXHOSTNAMESZ 0 = Some (failed, off', rdl', name') \<and>
    length name' = RFC1035_MAXHOSTNAMESZ \<and> (rdl' = None \<longleftrightarrow> rdl = None) \<and> (\<not> failed \<longrightarrow> off < off' \<and> off' \<le> sz \<and> name_array name')"
proof -
  have n: "(0 :: nat) < RFC1035_MAXHOSTNAMESZ" "0 + RFC1035_MAXHOSTNAMESZ \<le> length name" using assms(2) by simp_all
  from name_loop_ok [OF assms(1) n, of off rdl 0] obtain failed off' rdl' name' where
    r: "name_loop buf sz off rdl name 0 RFC1035_MAXHOSTNAMESZ 0 0 = Some (failed, off', rdl', name')"
    "name_result off sz 0 RFC1035_MAXHOSTNAMESZ (length name) (rdl = None) (failed, off', rdl', name')" by (metis surj_pair)
  moreover from r(2) assms(2) have "\<not> failed \<Longrightarrow> name_array name'" by (auto simp: name_array_def in_set_conv_nth)
  ultimately show ?thesis using assms(2) unfolding rfc1035NameUnpack_def by auto
qed

lemma ex_bool [simp]: "\<exists>b. b" "\<exists>b. \<not> b"
  by blast+

lemma name_arrayI [simp]: "length (qu_name zero_query) = RFC1035_MAXHOSTNAMESZ" "length (rr_name zero_rr) = RFC1035_MAXHOSTNAMESZ"
  by (simp_all add: zero_query_def zero_rr_def)

definition rr_ok :: "rfc1035_rr \<Rightarrow> bool" where
  "rr_ok r \<longleftrightarrow> name_array (rr_name r) \<and>
     (\<exists>d. rr_rdata r = Some d \<and> (if rr_type r = RFC1035_TYPE_PTR then name_array d else length d = unat (rr_rdlength r)))"

lemma query_unpack_ok:
  assumes "sz < length buf" "length (qu_name q) = RFC1035_MAXHOSTNAMESZ"
  shows "\<exists>failed off' q'. rfc1035QueryUnpack buf sz off q = Some (failed, off', q') \<and>
    (\<not> failed \<longrightarrow> off < off' \<and> off' \<le> sz \<and> name_array (qu_name q'))"
proof -
  from name_unpack_ok [OF assms, of off None] obtain failed o1 r1 n1 where
    n: "rfc1035NameUnpack buf sz off None (qu_name q) 0 RFC1035_MAXHOSTNAMESZ 0 = Some (failed, o1, r1, n1)"
    "\<not> failed \<Longrightarrow> off < o1 \<and> o1 \<le> sz \<and> name_array n1" by blast
  show ?thesis
  proof (cases "failed \<or> sz < o1 + 4")
    case True
    then show ?thesis by (auto simp: rfc1035QueryUnpack_def n(1) simp del: RFC1035_MAXHOSTNAMESZ_def)
  next
    case False
    with assms(1) get16_ok [of o1 buf] get16_ok [of "o1 + 2" buf] obtain a b where
      "get16 buf o1 = Some a" "get16 buf (o1 + 2) = Some b" by auto
    then show ?thesis using False n(2) by (simp add: rfc1035QueryUnpack_def n(1) del: RFC1035_MAXHOSTNAMESZ_def)
  qed
qed

lemma rr_unpack_ok:
  assumes "sz < length buf" "length (rr_name r) = RFC1035_MAXHOSTNAMESZ"
  shows "\<exists>failed off' r'. rfc1035RRUnpack buf sz off r = Some (failed, off', r') \<and>
    (\<not> failed \<longrightarrow> off < off' \<and> off' \<le> sz \<and> rr_ok r')"
proof -
  from name_unpack_ok [OF assms, of off None] obtain failed o1 r1 n1 where
    n: "rfc1035NameUnpack buf sz off None (rr_name r) 0 RFC1035_MAXHOSTNAMESZ 0 = Some (failed, o1, r1, n1)"
    "\<not> failed \<Longrightarrow> off < o1 \<and> o1 \<le> sz \<and> name_array n1" by blast
  note defs = rfc1035RRUnpack_def n(1) Let_def
  show ?thesis
  proof (cases "failed \<or> sz < o1 + 10")
    case True
    then show ?thesis by (auto simp: defs simp del: RFC1035_MAXHOSTNAMESZ_def)
  next
    case False
    with assms(1) get16_ok [of o1 buf] get16_ok [of "o1 + 2" buf] get32_ok [of "o1 + 4" buf] get16_ok [of "o1 + 8" buf]
    obtain ty cl ttl len where g: "get16 buf o1 = Some ty" "get16 buf (o1 + 2) = Some cl" "get32 buf (o1 + 4) = Some ttl"
      "get16 buf (o1 + 8) = Some len" by auto
    from False n(2) have na: "name_array n1" "off < o1" by simp_all
    consider (long) "sz < o1 + 10 + unat len" | (ptr) "o1 + 10 + unat len \<le> sz" "ty = RFC1035_TYPE_PTR"
      | (data) "o1 + 10 + unat len \<le> sz" "ty \<noteq> RFC1035_TYPE_PTR" by linarith
    then show ?thesis
    proof cases
      case long
      then show ?thesis using False g by (simp add: defs del: RFC1035_MAXHOSTNAMESZ_def) blast
    next
      case ptr
      have "length (replicate RFC1035_MAXHOSTNAMESZ NUL) = RFC1035_MAXHOSTNAMESZ" by simp
      from name_unpack_ok [OF assms(1) this, of "o1 + 10" "Some 0"] obtain f2 o2 rdl d where
        p: "rfc1035NameUnpack buf sz (o1 + 10) (Some 0) (replicate RFC1035_MAXHOSTNAMESZ NUL) 0 RFC1035_MAXHOSTNAMESZ 0 = Some (f2, o2, Some rdl, d)"
        "\<not> f2 \<Longrightarrow> name_array d" by (metis not_None_eq)
      show ?thesis
      proof (cases "f2 \<or> o1 + 10 + unat len < o2")
        case True
        then show ?thesis using False g ptr p(1) by (auto simp: defs simp del: RFC1035_MAXHOSTNAMESZ_def)
      next
        case good: False
        then show ?thesis using False g ptr p na
          by (simp add: defs rr_ok_def del: RFC1035_MAXHOSTNAMESZ_def)
      qed
    next
      case data
      then show ?thesis using False g na assms(1)
        by (simp add: defs rr_ok_def buf_read_def del: RFC1035_MAXHOSTNAMESZ_def)
    qed
  qed
qed

lemma unpack_records_ok:
  assumes "sz < length buf" "\<forall>r \<in> set rs. length (rr_name r) = RFC1035_MAXHOSTNAMESZ"
  shows "\<exists>nr' rs'. unpack_records buf sz off nr rs = Some (nr', rs') \<and> length rs' = length rs \<and>
    nr \<le> nr' \<and> nr' \<le> nr + length rs \<and> (\<forall>r \<in> set (take (nr' - nr) rs'). rr_ok r)"
  using assms(2)
proof (induction rs arbitrary: off nr)
  case Nil then show ?case by simp
next
  case (Cons r rs)
  from rr_unpack_ok [OF assms(1), of r off] Cons.prems obtain failed o1 r1 where
    r: "rfc1035RRUnpack buf sz off r = Some (failed, o1, r1)" "\<not> failed \<Longrightarrow> rr_ok r1" by auto
  from Cons.IH [of o1 "nr + 1"] Cons.prems obtain nr' rs' where
    rs: "unpack_records buf sz o1 (nr + 1) rs = Some (nr', rs')" "length rs' = length rs" "nr + 1 \<le> nr'"
    "nr' \<le> nr + 1 + length rs" "\<forall>r \<in> set (take (nr' - (nr + 1)) rs'). rr_ok r" by auto
  have "nr' - nr = Suc (nr' - (nr + 1))" using rs(3) by simp
  then show ?case using r rs by auto
qed

lemma header_unpack_ok:
  assumes "sz \<le> length buf"
  shows "\<exists>failed off h. rfc1035HeaderUnpack buf sz 0 zero_message = Some (failed, off, h) \<and> (\<not> failed \<longrightarrow> off = 12 \<and> 12 \<le> sz) \<and>
    ms_query h = [] \<and> ms_answer h = []"
proof (cases "sz < 12")
  case True then show ?thesis by (simp add: rfc1035HeaderUnpack_def zero_message_def)
next
  case False
  with assms have "0 + 2 \<le> length buf" "2 + 2 \<le> length buf" "4 + 2 \<le> length buf" "6 + 2 \<le> length buf" "8 + 2 \<le> length buf"
    "10 + 2 \<le> length buf" by simp_all
  from get16_ok [OF this(1)] get16_ok [OF this(2)] get16_ok [OF this(3)] get16_ok [OF this(4)] get16_ok [OF this(5)] get16_ok [OF this(6)]
  show ?thesis using False by (auto simp: rfc1035HeaderUnpack_def zero_message_def numeral_2_eq_2)
qed

text \<open>C14: No reply makes the DNS code misbehave. Whatever bytes a message has, compression pointers in circles included,
  unpacking it ends, without a failed assertion and without writing outside an array; it reads inside the
  buffer, if that has one more byte than the message; and every name and every record that is returned
  is complete: names end inside their arrays, and record data have the length that goes with them.\<close>
theorem dns_unpack_safe:
  assumes "sz < length buf"
  shows "\<exists>n msg errno. rfc1035MessageUnpack buf sz = Some (n, msg, errno) \<and>
    (case msg of None \<Rightarrow> n = - 15 \<and> errno = 15
     | Some m \<Rightarrow> n \<le> int (length (ms_answer m)) \<and> (n < 0 \<longleftrightarrow> ms_rcode m \<noteq> 0) \<and> errno = nat (- n) \<and>
         (\<exists>q. ms_query m = [q] \<and> name_array (qu_name q)) \<and> (\<forall>r \<in> set (take (nat n) (ms_answer m)). rr_ok r))"
proof -
  have sz: "sz \<le> length buf" using assms by simp
  from header_unpack_ok [OF sz] obtain failed o1 h where
    h: "rfc1035HeaderUnpack buf sz 0 zero_message = Some (failed, o1, h)" "ms_query h = []" "ms_answer h = []" by blast
  from query_unpack_ok [OF assms, of zero_query o1] obtain fq o2 q where
    q: "rfc1035QueryUnpack buf sz o1 zero_query = Some (fq, o2, q)" "\<not> fq \<Longrightarrow> name_array (qu_name q)" by auto
  have "\<forall>r \<in> set (replicate (unat (ms_ancount h)) zero_rr). length (rr_name r) = RFC1035_MAXHOSTNAMESZ" by simp
  from unpack_records_ok [OF assms this, of o2 0] obtain nr rs where
    rs: "unpack_records buf sz o2 0 (replicate (unat (ms_ancount h)) zero_rr) = Some (nr, rs)" "nr \<le> length rs"
    "\<forall>r \<in> set (take nr rs). rr_ok r" by auto
  have rc: "0 < uint (ms_rcode h) \<longleftrightarrow> ms_rcode h \<noteq> 0" by (auto simp: less_le unsigned_eq_0_iff)
  have qd: "ms_qdcount h = 1 \<Longrightarrow> replicate (unat (ms_qdcount h)) zero_query = [zero_query]" by simp
  note defs = rfc1035MessageUnpack_def h q Let_def
  consider "failed \<or> ms_qdcount h \<noteq> 1 \<or> fq" | "\<not> failed" "ms_qdcount h = 1" "\<not> fq" "ms_rcode h \<noteq> 0"
    | "\<not> failed" "ms_qdcount h = 1" "\<not> fq" "ms_rcode h = 0" "ms_ancount h = 0"
    | "\<not> failed" "ms_qdcount h = 1" "\<not> fq" "ms_rcode h = 0" "ms_ancount h \<noteq> 0" by blast
  then show ?thesis
  proof cases
    case 1 then show ?thesis by (auto simp: defs qd)
  next
    case 2 then show ?thesis using rc q(2) by (simp add: defs)
  next
    case 3 then show ?thesis using q(2) by (simp add: defs)
  next
    case 4 then show ?thesis using q(2) rs by (cases "nr = 0") (simp_all add: defs)
  qed
qed

subsection \<open>Lemmas: names on the wire\<close>

text \<open>Labels as they are packed, and as they are written into an array.\<close>

definition wire_labels :: "string list \<Rightarrow> char list" where
  "wire_labels ls = concat (map (\<lambda>l. char_of (length l) # l) ls)"

definition dotted :: "string list \<Rightarrow> string" where
  "dotted ls = concat (map (\<lambda>l. l @ ''.'') ls)"

definition label_ok :: "string \<Rightarrow> bool" where
  "label_ok l \<longleftrightarrow> l \<noteq> [] \<and> length l \<le> RFC1035_MAXLABELSZ \<and> CHR ''.'' \<notin> set l \<and> NUL \<notin> set l"

lemma wire_simps [simp]:
  "wire_labels [] = []" "wire_labels (l # ls) = char_of (length l) # l @ wire_labels ls"
  "dotted [] = []" "dotted (l # ls) = l @ CHR ''.'' # dotted ls"
  by (simp_all add: wire_labels_def dotted_def)

lemma length_dotted [simp]: "length (dotted ls) = length (wire_labels ls)"
  by (induction ls) auto

lemma label_pack_ok:
  assumes "CHR ''.'' \<notin> set l" "length l \<le> RFC1035_MAXLABELSZ" "length l + 1 \<le> sz" "length l + 1 \<le> length B"
  shows "rfc1035LabelPack (A @ B) (length A) sz (Some l) = Some (length l + 1, A @ (char_of (length l) # l) @ drop (length l + 1) B)"
proof -
  have "buf_write (A @ B) (length A) [char_of (length l)] = Some (A @ [char_of (length l)] @ drop 1 B)"
    using buf_write_append [of "[char_of (length l)]" B A] assms(4) by simp
  moreover have "buf_write ((A @ [char_of (length l)]) @ drop 1 B) (length (A @ [char_of (length l)])) l
      = Some ((A @ [char_of (length l)]) @ l @ drop (length l) (drop 1 B))"
    by (rule buf_write_append) (use assms(4) in simp)
  ultimately show ?thesis using assms by (simp add: rfc1035LabelPack_def Let_def)
qed

lemma end_label_ok:
  assumes "1 \<le> sz" "1 \<le> length B"
  shows "rfc1035LabelPack (A @ B) (length A) sz None = Some (1, A @ [NUL] @ drop 1 B)"
  using label_pack_ok [of "[]" sz B A] assms by (simp add: rfc1035LabelPack_def char_of_def)

lemma pack_labels_ok:
  assumes "\<forall>l \<in> set ls. label_ok l" "length W + length (wire_labels ls) \<le> sz" "length (wire_labels ls) \<le> length B"
  shows "pack_labels (A @ W @ B) (length A) sz (length W) ls
    = Some (length W + length (wire_labels ls), A @ W @ wire_labels ls @ drop (length (wire_labels ls)) B)"
  using assms
proof (induction ls arbitrary: W B)
  case Nil then show ?case by simp
next
  case (Cons l ls)
  have l: "CHR ''.'' \<notin> set l" "length l \<le> RFC1035_MAXLABELSZ" using Cons.prems(1) by (simp_all add: label_ok_def)
  have p: "rfc1035LabelPack ((A @ W) @ B) (length (A @ W)) (sz - length W) (Some l)
      = Some (length l + 1, (A @ W) @ (char_of (length l) # l) @ drop (length l + 1) B)"
    by (rule label_pack_ok [OF l]) (use Cons.prems in simp_all)
  have "pack_labels (A @ (W @ char_of (length l) # l) @ drop (length l + 1) B) (length A) sz (length (W @ char_of (length l) # l)) ls
      = Some (length (W @ char_of (length l) # l) + length (wire_labels ls),
          A @ (W @ char_of (length l) # l) @ wire_labels ls @ drop (length (wire_labels ls)) (drop (length l + 1) B))"
    by (rule Cons.IH) (use Cons.prems in simp_all)
  with p show ?case by (simp add: add_ac)
qed

lemma strtok_label:
  assumes "label_ok l" "s = [] \<or> hd s = CHR ''.''"
  shows "strtok_all (CHR ''.'') (l @ s) = l # strtok_all (CHR ''.'') s"
proof -
  have l: "dropWhile (\<lambda>c. c = CHR ''.'') (l @ s) = l @ s" "l \<noteq> []" "\<forall>c \<in> set l. c \<noteq> CHR ''.''"
    using assms(1) by (cases l; auto simp: label_ok_def)+
  have t: "takeWhile (\<lambda>c. c \<noteq> CHR ''.'') l = l" "dropWhile (\<lambda>c. c \<noteq> CHR ''.'') l = []"
    using l(3) by (simp_all add: takeWhile_eq_all_conv)
  have "takeWhile (\<lambda>c. c \<noteq> CHR ''.'') (l @ s) = l" "dropWhile (\<lambda>c. c \<noteq> CHR ''.'') (l @ s) = s"
    using l(3) t assms(2) by (cases s; simp add: takeWhile_append2 dropWhile_append2)+
  then show ?thesis by (subst strtok_all.simps) (simp add: Let_def l(1,2))
qed

lemma strtok_Nil [simp]: "strtok_all del [] = []"
  by (simp add: strtok_all.simps)

lemma strtok_skip [simp]: "strtok_all (CHR ''.'') (CHR ''.'' # s) = strtok_all (CHR ''.'') s"
  by (subst (1 2) strtok_all.simps) simp

lemma strtok_dots: "strtok_all (CHR ''.'') (replicate k (CHR ''.'')) = []"
  by (induction k) simp_all

text \<open>A host name: its labels with dots between them, and perhaps dots behind them.\<close>

fun join_dots :: "string list \<Rightarrow> string" where
  "join_dots [] = []"
| "join_dots [l] = l"
| "join_dots (l # ls) = l @ CHR ''.'' # join_dots ls"

lemma strtok_join:
  assumes "\<forall>l \<in> set ls. label_ok l"
  shows "strtok_all (CHR ''.'') (join_dots ls @ replicate k (CHR ''.'')) = ls"
  using assms
proof (induction ls rule: join_dots.induct)
  case 1 then show ?case by (simp add: strtok_dots)
next
  case (2 l) then show ?case using strtok_label [of l "replicate k (CHR ''.'')"] by (cases k) (simp_all add: strtok_dots)
next
  case (3 l l' ls)
  then show ?case using strtok_label [of l "CHR ''.'' # join_dots (l' # ls) @ replicate k (CHR ''.'')"] by simp
qed

lemma dotted_join: "ls \<noteq> [] \<Longrightarrow> dotted ls = join_dots ls @ ''.''"
  by (induction ls rule: join_dots.induct) auto

lemma name_pack_ok:
  assumes "\<forall>l \<in> set ls. label_ok l" "length (wire_labels ls) + 1 \<le> sz" "length (wire_labels ls) + 1 \<le> length B"
  shows "rfc1035NamePack (A @ B) (length A) sz (join_dots ls @ replicate k (CHR ''.''))
    = Some (length (wire_labels ls) + 1, A @ wire_labels ls @ NUL # drop (length (wire_labels ls) + 1) B)"
proof -
  have "pack_labels (A @ B) (length A) sz 0 ls
      = Some (length (wire_labels ls), A @ wire_labels ls @ drop (length (wire_labels ls)) B)"
    using pack_labels_ok [of ls "[]" sz B A] assms by simp
  moreover have "rfc1035LabelPack ((A @ wire_labels ls) @ drop (length (wire_labels ls)) B) (length (A @ wire_labels ls))
      (sz - length (wire_labels ls)) None
      = Some (1, (A @ wire_labels ls) @ [NUL] @ drop 1 (drop (length (wire_labels ls)) B))"
    by (rule end_label_ok) (use assms in simp_all)
  ultimately show ?thesis unfolding rfc1035NamePack_def strtok_join [OF assms(1)] using assms(2) by simp
qed

subsection \<open>Lemmas: a packed name is read back\<close>

lemma name_loop_labels:
  assumes "\<forall>l \<in> set ls. label_ok l" "length P = base + no" "no + length (wire_labels ls) < ns" "base + ns \<le> length P + length Q"
    "length A + length (wire_labels ls) < sz"
  shows "name_loop (A @ wire_labels ls @ NUL # Z) sz (length A) None (P @ Q) base ns rdepth no =
    name_end (length A + length (wire_labels ls) + 1) None (P @ dotted ls @ drop (length (wire_labels ls)) Q) base ns (no + length (wire_labels ls))"
  using assms
proof (induction ls arbitrary: A P Q no)
  case Nil
  then show ?case by (subst name_loop.simps) simp
next
  case (Cons l ls)
  let ?n = "length l"
  have l: "0 < ?n" "?n \<le> 63" using Cons.prems(1) by (auto simp: label_ok_def)
  then have c: "(of_char (char_of ?n) :: nat) = ?n" by simp
  define buf where "buf = A @ wire_labels (l # ls) @ NUL # Z"
  have buf: "buf = A @ char_of ?n # l @ wire_labels ls @ NUL # Z" by (simp add: buf_def)
  have ch: "arr_get buf (length A) = Some (char_of ?n)" by (simp add: buf)
  have rd: "buf_read buf (Suc (length A)) ?n = Some l" by (simp add: buf_read_def buf)
  have q: "length l + 1 \<le> length Q" using Cons.prems(2-4) by simp
  have g: "\<not> ns - Suc no < ?n" "Suc (no + ?n) < ns" using Cons.prems(3) by simp_all
  have wr: "buf_write (P @ Q) (base + no) l = Some (P @ l @ drop ?n Q)" using buf_write_append [of l Q P] q Cons.prems(2) by simp
  have dr: "drop ?n Q = Q ! ?n # drop (?n + 1) Q" using q by (simp add: Cons_nth_drop_Suc)
  have st: "arr_set (P @ l @ drop ?n Q) (base + no + ?n) (CHR ''.'') = Some (P @ l @ CHR ''.'' # drop (Suc ?n) Q)"
    using Cons.prems(2) by (simp add: dr arr_set_def list_update_append)
  have "name_loop buf sz (length A) None (P @ Q) base ns rdepth no =
      name_loop buf sz (length A + 1 + ?n) None ((P @ l @ ''.'') @ drop (?n + 1) Q) base ns rdepth (no + ?n + 1)"
    using l Cons.prems(5) by (subst name_loop.simps) (simp add: ch rd wr st c g Let_def)
  also have "\<dots> = name_loop ((A @ char_of ?n # l) @ wire_labels ls @ NUL # Z) sz (length (A @ char_of ?n # l)) None
      ((P @ l @ ''.'') @ drop (?n + 1) Q) base ns rdepth (no + ?n + 1)"
    by (simp add: buf)
  also have "\<dots> = name_end (length (A @ char_of ?n # l) + length (wire_labels ls) + 1) None
      ((P @ l @ ''.'') @ dotted ls @ drop (length (wire_labels ls)) (drop (?n + 1) Q)) base ns (no + ?n + 1 + length (wire_labels ls))"
    by (rule Cons.IH) (use Cons.prems q in simp_all)
  finally show ?case by (simp add: buf_def add_ac)
qed

text \<open>The array that holds the name of the labels.\<close>

definition name_of :: "string list \<Rightarrow> char list \<Rightarrow> char list" where
  "name_of ls arr = join_dots ls @ NUL # drop (length (join_dots ls) + 1) arr"

lemma length_join_dots: "length (wire_labels ls) = (if ls = [] then 0 else length (join_dots ls) + 1)"
  using length_dotted [of ls] dotted_join [of ls] by (cases "ls = []") auto

lemma name_unpack_labels:
  assumes "\<forall>l \<in> set ls. label_ok l" "length (wire_labels ls) < RFC1035_MAXHOSTNAMESZ" "length arr = RFC1035_MAXHOSTNAMESZ"
    "length A + length (wire_labels ls) < sz"
  shows "name_loop (A @ wire_labels ls @ NUL # Z) sz (length A) None arr 0 RFC1035_MAXHOSTNAMESZ rdepth 0 =
    Some (False, length A + length (wire_labels ls) + 1, None, name_of ls arr)"
proof -
  have "name_loop (A @ wire_labels ls @ NUL # Z) sz (length A) None ([] @ arr) 0 RFC1035_MAXHOSTNAMESZ rdepth 0 =
      name_end (length A + length (wire_labels ls) + 1) None ([] @ dotted ls @ drop (length (wire_labels ls)) arr) 0 RFC1035_MAXHOSTNAMESZ
        (0 + length (wire_labels ls))"
    by (rule name_loop_labels) (use assms in simp_all)
  also have "\<dots> = Some (False, length A + length (wire_labels ls) + 1, None, name_of ls arr)"
  proof (cases "ls = []")
    case True
    then show ?thesis using assms(3) by (cases arr) (simp_all add: name_end_def arr_set_def name_of_def)
  next
    case False
    then have "arr_set (dotted ls @ drop (length (wire_labels ls)) arr) (length (join_dots ls)) NUL = Some (name_of ls arr)"
      by (simp add: dotted_join length_join_dots arr_set_def name_of_def list_update_append)
    then show ?thesis using False assms(2) by (simp add: name_end_def length_join_dots)
  qed
  finally show ?thesis by simp
qed

lemma name_of_array:
  assumes "\<forall>l \<in> set ls. label_ok l" "length (wire_labels ls) < RFC1035_MAXHOSTNAMESZ" "length arr = RFC1035_MAXHOSTNAMESZ"
  shows "length (name_of ls arr) = RFC1035_MAXHOSTNAMESZ" "cstr_of_buf (name_of ls arr) = Some (join_dots ls)"
proof -
  show "length (name_of ls arr) = RFC1035_MAXHOSTNAMESZ"
    using assms(2,3) length_join_dots [of ls] by (cases "ls = []") (auto simp: name_of_def)
  have "cstring (join_dots ls)" using assms(1) unfolding cstring_def
    by (induction ls rule: join_dots.induct) (auto simp: label_ok_def)
  then show "cstr_of_buf (name_of ls arr) = Some (join_dots ls)" by (simp add: name_of_def)
qed

lemma pointer_unpack:
  assumes "arr_get buf off = Some (CHR 0xC0)" "arr_get buf (off + 1) = Some (CHR 0x0C)" "off + 2 \<le> sz"
    "name_loop buf sz 12 None arr 0 RFC1035_MAXHOSTNAMESZ 1 0 = Some (False, o', None, name)" "12 < sz"
  shows "rfc1035NameUnpack buf sz off None arr 0 RFC1035_MAXHOSTNAMESZ 0 = Some (False, off + 2, None, name)"
proof -
  have "get16 buf off = Some 0xC00C" using assms(1,2) by (simp add: get16_def)
  then show ?thesis using assms unfolding rfc1035NameUnpack_def by (subst name_loop.simps) simp
qed

subsection \<open>Lemmas: whole messages\<close>

definition header_bytes :: "rfc1035_message \<Rightarrow> char list" where
  "header_bytes h = net16 (ms_id h) @ net16 (header_flags h) @ net16 (ms_qdcount h) @ net16 (ms_ancount h) @
     net16 (ms_nscount h) @ net16 (ms_arcount h)"

definition question_bytes :: "string list \<Rightarrow> 16 word \<Rightarrow> 16 word \<Rightarrow> char list" where
  "question_bytes ls qt qc = wire_labels ls @ [NUL] @ net16 qt @ net16 qc"

lemma length_header_bytes [simp]: "length (header_bytes h) = 12"
  by (simp add: header_bytes_def)

lemma length_question_bytes [simp]: "length (question_bytes ls qt qc) = length (wire_labels ls) + 5"
  by (simp add: question_bytes_def)

lemma buf_write_at: "p = length A \<Longrightarrow> length xs \<le> length B \<Longrightarrow> buf_write (A @ B) p xs = Some ((A @ xs) @ drop (length xs) B)"
  using buf_write_append [of xs B A] by simp

lemma dns_header_pack_ok:
  assumes "12 \<le> sz" "12 \<le> length buf"
  shows "rfc1035HeaderPack buf 0 sz h = Some (12, header_bytes h @ drop 12 buf)"
proof -
  have "buf_write ([] @ buf) 0 (net16 (ms_id h)) = Some (([] @ net16 (ms_id h)) @ drop (length (net16 (ms_id h))) buf)"
    by (rule buf_write_at) (use assms in simp_all)
  then show ?thesis using assms by (simp add: rfc1035HeaderPack_def buf_write_at header_bytes_def flip: append_assoc)
qed

lemma build_query_ok:
  fixes k ls
  defines "name \<equiv> join_dots ls @ replicate k (CHR ''.'')"
  assumes "\<forall>l \<in> set ls. label_ok l" "length name < RFC1035_MAXHOSTNAMESZ" "length (wire_labels ls) + 17 \<le> sz" "sz \<le> length buf"
    "length (qu_name query) = RFC1035_MAXHOSTNAMESZ"
  shows "build_query name qtype buf sz qid query = Some (length (wire_labels ls) + 17,
     header_bytes (zero_message\<lparr>ms_id := qid, ms_rd := 1, ms_qdcount := 1\<rparr>) @ question_bytes ls qtype RFC1035_CLASS_IN @
       drop (length (wire_labels ls) + 17) buf,
     query\<lparr>qu_type := qtype, qu_class := RFC1035_CLASS_IN, qu_name := name @ NUL # drop (length name + 1) (qu_name query)\<rparr>)"
proof -
  define h where "h = zero_message\<lparr>ms_id := qid, ms_qr := 0, ms_rd := 1, ms_opcode := 0, ms_qdcount := 1\<rparr>"
  have h': "h = zero_message\<lparr>ms_id := qid, ms_rd := 1, ms_qdcount := 1\<rparr>" by (simp add: h_def zero_message_def)
  have hp: "rfc1035HeaderPack buf 0 sz h = Some (12, header_bytes h @ drop 12 buf)"
    by (rule dns_header_pack_ok) (use assms(4,5) in simp_all)
  have np: "rfc1035NamePack (header_bytes h @ drop 12 buf) 12 (sz - 12) name = Some (length (wire_labels ls) + 1,
      header_bytes h @ wire_labels ls @ NUL # drop (length (wire_labels ls) + 13) buf)"
    using name_pack_ok [OF assms(2), of "sz - 12" "drop 12 buf" "header_bytes h" k] assms(4,5) by (simp add: name_def add.commute)
  define B where "B = header_bytes h @ wire_labels ls @ [NUL]"
  have b: "length B = 12 + (length (wire_labels ls) + 1)" by (simp add: B_def)
  have w1: "buf_write (B @ drop (length (wire_labels ls) + 13) buf) (12 + (length (wire_labels ls) + 1)) (net16 qtype)
      = Some ((B @ net16 qtype) @ drop (length (net16 qtype)) (drop (length (wire_labels ls) + 13) buf))"
    by (rule buf_write_at) (use assms(4,5) b in simp_all)
  have w2: "buf_write ((B @ net16 qtype) @ drop (length (net16 qtype)) (drop (length (wire_labels ls) + 13) buf))
        (12 + (length (wire_labels ls) + 1) + 2) (net16 RFC1035_CLASS_IN)
      = Some (((B @ net16 qtype) @ net16 RFC1035_CLASS_IN) @
          drop (length (net16 RFC1035_CLASS_IN)) (drop (length (net16 qtype)) (drop (length (wire_labels ls) + 13) buf)))"
    by (rule buf_write_at) (use assms(4,5) b in simp_all)
  have q: "rfc1035QuestionPack (header_bytes h @ drop 12 buf) 12 (sz - 12) name qtype RFC1035_CLASS_IN = Some (length (wire_labels ls) + 5,
      header_bytes h @ question_bytes ls qtype RFC1035_CLASS_IN @ drop (length (wire_labels ls) + 17) buf)"
    unfolding rfc1035QuestionPack_def np using w1 w2 assms(4) by (simp add: B_def question_bytes_def add.commute)
  have x: "xstrncpy (qu_name query) name RFC1035_MAXHOSTNAMESZ = Some (name @ NUL # drop (length name + 1) (qu_name query))"
    using assms(3,6) by (simp add: xstrncpy_def buf_write_def)
  show ?thesis
    unfolding build_query_def h_def [symmetric] Let_def hp using assms(4) by (simp add: q [unfolded RFC1035_CLASS_IN_def] x h' [symmetric] add.commute del: RFC1035_MAXHOSTNAMESZ_def)
qed

lemma get16_at: "p = length A \<Longrightarrow> get16 (A @ net16 w @ B) p = Some w"
  by (simp add: get16_net16)

lemma get32_at: "p = length A \<Longrightarrow> get32 (A @ net32 w @ B) p = Some w"
  by (simp add: get32_net32)

lemma header_flags_fields:
  "ucast (drop_bit 15 (header_flags h) AND 1) = ms_qr h" "ucast (drop_bit 11 (header_flags h) AND 15) = ms_opcode h"
  "ucast (drop_bit 10 (header_flags h) AND 1) = ms_aa h" "ucast (drop_bit 9 (header_flags h) AND 1) = ms_tc h"
  "ucast (drop_bit 8 (header_flags h) AND 1) = ms_rd h" "ucast (drop_bit 7 (header_flags h) AND 1) = ms_ra h"
  "ucast (header_flags h AND 15) = ms_rcode h"
proof -
  have m: "(15 :: 16 word) = mask 4" "(1 :: 16 word) = mask 1" by (simp_all add: mask_eq_exp_minus_1)
  show "ucast (drop_bit 15 (header_flags h) AND 1) = ms_qr h" "ucast (drop_bit 11 (header_flags h) AND 15) = ms_opcode h"
    "ucast (drop_bit 10 (header_flags h) AND 1) = ms_aa h" "ucast (drop_bit 9 (header_flags h) AND 1) = ms_tc h"
    "ucast (drop_bit 8 (header_flags h) AND 1) = ms_rd h" "ucast (drop_bit 7 (header_flags h) AND 1) = ms_ra h"
    "ucast (header_flags h AND 15) = ms_rcode h"
    unfolding header_flags_def m by (rule bit_word_eqI; auto simp: bit_simps dest: bit_imp_le_length)+
qed

lemma get16_in: "buf = A @ net16 w @ B \<Longrightarrow> p = length A \<Longrightarrow> get16 buf p = Some w"
  by (simp add: get16_net16)

lemma get32_in: "buf = A @ net32 w @ B \<Longrightarrow> p = length A \<Longrightarrow> get32 buf p = Some w"
  by (simp add: get32_net32)

lemma header_unpack_bytes:
  assumes "12 \<le> sz"
  shows "rfc1035HeaderUnpack (header_bytes h @ Z) sz 0 zero_message = Some (False, 12, h\<lparr>ms_query := [], ms_answer := []\<rparr>)"
proof -
  let ?b = "header_bytes h @ Z"
  have "get16 ?b 0 = Some (ms_id h)" using get16_at [of 0 "[]"] by (simp add: header_bytes_def)
  moreover have "get16 ?b 2 = Some (header_flags h)" using get16_at [of 2 "net16 (ms_id h)"] by (simp add: header_bytes_def)
  moreover have "get16 ?b 4 = Some (ms_qdcount h)" using get16_at [of 4 "net16 (ms_id h) @ net16 (header_flags h)"] by (simp add: header_bytes_def)
  moreover have "get16 ?b 6 = Some (ms_ancount h)"
    using get16_at [of 6 "net16 (ms_id h) @ net16 (header_flags h) @ net16 (ms_qdcount h)"] by (simp add: header_bytes_def)
  moreover have "get16 ?b 8 = Some (ms_nscount h)"
    using get16_at [of 8 "net16 (ms_id h) @ net16 (header_flags h) @ net16 (ms_qdcount h) @ net16 (ms_ancount h)"] by (simp add: header_bytes_def)
  moreover have "get16 ?b 10 = Some (ms_arcount h)"
    using get16_at [of 10 "net16 (ms_id h) @ net16 (header_flags h) @ net16 (ms_qdcount h) @ net16 (ms_ancount h) @ net16 (ms_nscount h)"]
    by (simp add: header_bytes_def)
  moreover have "zero_message\<lparr>ms_id := ms_id h, ms_qr := ms_qr h, ms_opcode := ms_opcode h, ms_aa := ms_aa h, ms_tc := ms_tc h,
      ms_rd := ms_rd h, ms_ra := ms_ra h, ms_rcode := ms_rcode h, ms_qdcount := ms_qdcount h, ms_ancount := ms_ancount h,
      ms_nscount := ms_nscount h, ms_arcount := ms_arcount h\<rparr> = h\<lparr>ms_query := [], ms_answer := []\<rparr>"
    by (cases h) (simp add: zero_message_def)
  ultimately show ?thesis using assms by (simp add: rfc1035HeaderUnpack_def header_flags_fields numeral_2_eq_2)
qed

lemma query_unpack_bytes:
  assumes "\<forall>l \<in> set ls. label_ok l" "length (wire_labels ls) < RFC1035_MAXHOSTNAMESZ" "length (qu_name q) = RFC1035_MAXHOSTNAMESZ"
    "length A + length (wire_labels ls) + 5 \<le> sz"
  shows "rfc1035QueryUnpack (A @ question_bytes ls qt qc @ Z) sz (length A) q =
    Some (False, length A + length (wire_labels ls) + 5, q\<lparr>qu_name := name_of ls (qu_name q), qu_type := qt, qu_class := qc\<rparr>)"
proof -
  have "name_loop (A @ wire_labels ls @ NUL # (net16 qt @ net16 qc @ Z)) sz (length A) None (qu_name q) 0 RFC1035_MAXHOSTNAMESZ 0 0 =
      Some (False, length A + length (wire_labels ls) + 1, None, name_of ls (qu_name q))"
    by (rule name_unpack_labels) (use assms in simp_all)
  then have n: "rfc1035NameUnpack (A @ question_bytes ls qt qc @ Z) sz (length A) None (qu_name q) 0 RFC1035_MAXHOSTNAMESZ 0 =
      Some (False, length A + length (wire_labels ls) + 1, None, name_of ls (qu_name q))"
    by (simp add: rfc1035NameUnpack_def question_bytes_def)
  have "get16 (A @ question_bytes ls qt qc @ Z) (length A + length (wire_labels ls) + 1) = Some qt"
    by (rule get16_in [of _ "A @ wire_labels ls @ [NUL]" _ "net16 qc @ Z"]) (simp_all add: question_bytes_def)
  moreover have "get16 (A @ question_bytes ls qt qc @ Z) (length A + length (wire_labels ls) + 1 + 2) = Some qc"
    by (rule get16_in [of _ "A @ wire_labels ls @ [NUL] @ net16 qt" _ Z]) (simp_all add: question_bytes_def)
  ultimately show ?thesis using assms(4) by (simp add: rfc1035QueryUnpack_def n del: RFC1035_MAXHOSTNAMESZ_def)
qed

text \<open>A record in the form servers send it: its name a pointer to that of the question. \<open>(type, class, ttl, data)\<close>.\<close>

fun record_bytes :: "16 word \<times> 16 word \<times> 32 word \<times> char list \<Rightarrow> char list" where
  "record_bytes (ty, cl, ttl, d) =
     [CHR 0xC0, CHR 0x0C] @ net16 ty @ net16 cl @ net32 ttl @ net16 (word_of_nat (length d)) @ d"

fun record_ok :: "16 word \<times> 16 word \<times> 32 word \<times> char list \<Rightarrow> bool" where
  "record_ok (ty, cl, ttl, d) \<longleftrightarrow> ty \<noteq> RFC1035_TYPE_PTR \<and> length d < 65536"

fun record_of :: "string list \<Rightarrow> 16 word \<times> 16 word \<times> 32 word \<times> char list \<Rightarrow> rfc1035_rr" where
  "record_of ls (ty, cl, ttl, d) = \<lparr>rr_name = name_of ls (rr_name zero_rr), rr_type = ty, rr_class = cl, rr_ttl = ttl,
     rr_rdlength = word_of_nat (length d), rr_rdata = Some d\<rparr>"

lemma rr_unpack_bytes:
  assumes "\<forall>l \<in> set ls. label_ok l" "length (wire_labels ls) < RFC1035_MAXHOSTNAMESZ" "record_ok r" "length H = 12"
    "A = H @ wire_labels ls @ NUL # Y" "length (A @ record_bytes r) \<le> sz"
  shows "rfc1035RRUnpack (A @ record_bytes r @ Z) sz (length A) zero_rr = Some (False, length (A @ record_bytes r), record_of ls r)"
proof -
  obtain ty cl ttl d where r: "r = (ty, cl, ttl, d)" by (cases r)
  define buf where "buf = A @ record_bytes r @ Z"
  have "name_loop (H @ wire_labels ls @ NUL # (Y @ record_bytes r @ Z)) sz (length H) None (rr_name zero_rr) 0 RFC1035_MAXHOSTNAMESZ 1 0 =
      Some (False, length H + length (wire_labels ls) + 1, None, name_of ls (rr_name zero_rr))"
    by (rule name_unpack_labels) (use assms in simp_all)
  then have nl: "name_loop buf sz 12 None (rr_name zero_rr) 0 RFC1035_MAXHOSTNAMESZ 1 0 =
      Some (False, length H + length (wire_labels ls) + 1, None, name_of ls (rr_name zero_rr))"
    using assms(4,5) by (simp add: buf_def)
  have n: "rfc1035NameUnpack buf sz (length A) None (rr_name zero_rr) 0 RFC1035_MAXHOSTNAMESZ 0 =
      Some (False, length A + 2, None, name_of ls (rr_name zero_rr))"
    by (rule pointer_unpack [OF _ _ _ nl]) (use assms(4-6) in \<open>simp_all add: buf_def r arr_get_def nth_append\<close>)
  let ?p = "A @ [CHR 0xC0, CHR 0x0C]"
  have "get16 buf (length A + 2) = Some ty"
    by (rule get16_in [of _ ?p _ "net16 cl @ net32 ttl @ net16 (word_of_nat (length d)) @ d @ Z"]) (simp_all add: buf_def r)
  moreover have "get16 buf (length A + 2 + 2) = Some cl"
    by (rule get16_in [of _ "?p @ net16 ty" _ "net32 ttl @ net16 (word_of_nat (length d)) @ d @ Z"]) (simp_all add: buf_def r)
  moreover have "get32 buf (length A + 2 + 4) = Some ttl"
    by (rule get32_in [of _ "?p @ net16 ty @ net16 cl" _ "net16 (word_of_nat (length d)) @ d @ Z"]) (simp_all add: buf_def r)
  moreover have "get16 buf (length A + 2 + 8) = Some (word_of_nat (length d))"
    by (rule get16_in [of _ "?p @ net16 ty @ net16 cl @ net32 ttl" _ "d @ Z"]) (simp_all add: buf_def r)
  ultimately have g: "get16 buf (length A + 2) = Some ty" "get16 buf (length A + 2 + 2) = Some cl" "get32 buf (length A + 2 + 4) = Some ttl"
    "get16 buf (length A + 2 + 8) = Some (word_of_nat (length d))" by simp_all
  have d: "unat (word_of_nat (length d) :: 16 word) = length d" using assms(3) by (simp add: r unat_of_nat)
  have "buf_read buf (length A + 2 + 10) (length d) = Some d" by (simp add: buf_read_def buf_def r)
  then show ?thesis using assms(3,6) g d n unfolding buf_def [symmetric]
    by (simp add: rfc1035RRUnpack_def r zero_rr_def add_ac Let_def del: RFC1035_MAXHOSTNAMESZ_def)
qed

lemma unpack_records_bytes:
  assumes "\<forall>l \<in> set ls. label_ok l" "length (wire_labels ls) < RFC1035_MAXHOSTNAMESZ" "\<forall>r \<in> set rs. record_ok r" "length H = 12"
    "A = H @ wire_labels ls @ NUL # Y" "sz = length (A @ concat (map record_bytes rs))"
  shows "unpack_records (A @ concat (map record_bytes rs) @ Z) sz (length A) nr (replicate (length rs) zero_rr) =
    Some (nr + length rs, map (record_of ls) rs)"
  using assms(3,5,6)
proof (induction rs arbitrary: A Y nr)
  case Nil then show ?case by simp
next
  case (Cons r rs)
  have u: "rfc1035RRUnpack (A @ record_bytes r @ (concat (map record_bytes rs) @ Z)) sz (length A) zero_rr =
      Some (False, length (A @ record_bytes r), record_of ls r)"
    by (rule rr_unpack_bytes [OF assms(1,2) _ assms(4)]) (use Cons.prems in simp_all)
  have "unpack_records ((A @ record_bytes r) @ concat (map record_bytes rs) @ Z) sz (length (A @ record_bytes r)) (nr + 1)
      (replicate (length rs) zero_rr) = Some (nr + 1 + length rs, map (record_of ls) rs)"
    by (rule Cons.IH [of _ "Y @ record_bytes r"]) (use Cons.prems in simp_all)
  moreover have "\<not> sz \<le> length A" using Cons.prems(3) by (cases r) simp
  ultimately show ?case using u by simp
qed

lemma strncaseeq_refl [simp]: "strncaseeq a a n"
  by (simp add: strncaseeq_def)

lemma trim_dots_join:
  assumes "\<forall>l \<in> set ls. label_ok l"
  shows "trim_dots (join_dots ls @ replicate k (CHR ''.'')) = join_dots ls"
proof -
  have rev: "trim_dots (s @ replicate k (CHR ''.'')) = trim_dots s" for s
    by (induction k) (simp_all add: trim_dots_def replicate_app_Cons_same)
  have "ls = [] \<or> last (join_dots ls) \<noteq> CHR ''.'' \<and> join_dots ls \<noteq> []" using assms
    by (induction ls rule: join_dots.induct) (auto simp: label_ok_def dest: last_in_set)
  then have "trim_dots (join_dots ls) = join_dots ls"
    by (cases "join_dots ls" rule: rev_cases) (auto simp: trim_dots_def)
  then show ?thesis by (simp add: rev)
qed

lemma query_compare_same:
  assumes "\<forall>l \<in> set ls. label_ok l" "cstr_of_buf (qu_name a) = Some (join_dots ls @ replicate k (CHR ''.''))"
    "cstr_of_buf (qu_name b) = Some (join_dots ls)" "qu_type a = qu_type b" "qu_class a = qu_class b"
  shows "rfc1035QueryCompare a b = Some False"
proof -
  have "trim_dots (join_dots ls) = join_dots ls" using trim_dots_join [OF assms(1), of 0] by simp
  moreover have "strncaseeq (join_dots ls @ replicate k (CHR ''.'')) (join_dots ls) (length (join_dots ls))" by (simp add: strncaseeq_def)
  ultimately show ?thesis using assms by (cases "k = 0") (auto simp: rfc1035QueryCompare_def trim_dots_join)
qed

lemma message_unpack_bytes:
  fixes qt qc
  assumes "\<forall>l \<in> set ls. label_ok l" "length (wire_labels ls) < RFC1035_MAXHOSTNAMESZ" "\<forall>r \<in> set rs. record_ok r"
    "ms_qdcount h = 1" "ms_rcode h = 0" "unat (ms_ancount h) = length rs"
  defines "reply \<equiv> header_bytes h @ question_bytes ls qt qc @ concat (map record_bytes rs)"
  shows "rfc1035MessageUnpack reply (length reply) = Some (int (length rs),
    Some (h\<lparr>ms_query := [\<lparr>qu_name = name_of ls (qu_name zero_query), qu_type = qt, qu_class = qc\<rparr>], ms_answer := map (record_of ls) rs\<rparr>), 0)"
proof -
  define sz where "sz = length reply"
  define h1 where "h1 = h\<lparr>ms_query := [], ms_answer := []\<rparr>"
  let ?q = "\<lparr>qu_name = name_of ls (qu_name zero_query), qu_type = qt, qu_class = qc\<rparr>"
  have h1: "ms_qdcount h1 = 1" "ms_rcode h1 = 0" "ms_ancount h1 = ms_ancount h" using assms(4,5) by (simp_all add: h1_def)
  have hu: "rfc1035HeaderUnpack reply sz 0 zero_message = Some (False, 12, h1)"
    unfolding reply_def h1_def by (rule header_unpack_bytes) (simp add: sz_def reply_def)
  have "rfc1035QueryUnpack reply sz (length (header_bytes h)) zero_query =
      Some (False, length (header_bytes h) + length (wire_labels ls) + 5,
        zero_query\<lparr>qu_name := name_of ls (qu_name zero_query), qu_type := qt, qu_class := qc\<rparr>)"
    unfolding reply_def by (rule query_unpack_bytes [OF assms(1,2)]) (simp_all add: sz_def reply_def)
  then have qu: "rfc1035QueryUnpack reply sz 12 zero_query = Some (False, length (wire_labels ls) + 17, ?q)"
    by (simp add: zero_query_def add.commute)
  have rec: "unpack_records reply sz (length (wire_labels ls) + 17) 0 (replicate (length rs) zero_rr) = Some (length rs, map (record_of ls) rs)"
    using unpack_records_bytes [OF assms(1-3) length_header_bytes [of h], of "header_bytes h @ question_bytes ls qt qc" "net16 qt @ net16 qc" sz "[]" 0]
    by (simp add: reply_def sz_def question_bytes_def add.commute)
  have an: "ms_ancount h = 0 \<longleftrightarrow> rs = []" using assms(6) by (metis length_0_conv unat_0 unat_eq_0)
  show ?thesis unfolding sz_def [symmetric] rfc1035MessageUnpack_def hu using h1 qu rec assms(6) an
    by (cases "rs = []") (simp_all add: h1_def Let_def)
qed

text \<open>C15: A reply to a query is recognised, and read exactly. For every host name of labels of 1 to 63 characters, less than
  255 characters in all, with no empty label but for dots at its end, the query is built in any buffer that has
  room for it. If a reply repeats the one question of the query, reports no error, and gives its records, none of
  them of type PTR, under the compressed name, then, whatever its id and its other flags and counts, unpacking it
  returns each record, with the name of the question, and the question compares equal to the query's.\<close>
theorem dns_reply_matches_query:
  fixes k ls
  defines "hostname \<equiv> join_dots ls @ replicate k (CHR ''.'')"
  assumes "\<forall>l \<in> set ls. label_ok l" "length (join_dots ls) < 255" "length hostname < 256"
    "length (join_dots ls) + 18 \<le> sz" "sz \<le> length buf" "length (qu_name query) = 256"
    "ms_qdcount h = 1" "ms_rcode h = 0" "unat (ms_ancount h) = length rs" "\<forall>r \<in> set rs. record_ok r"
  shows "\<exists>n buf' query' m. rfc1035BuildAQuery hostname buf sz qid query = Some (n, buf', query') \<and> n \<le> sz \<and>
    (let reply = header_bytes h @ take (n - 12) (drop 12 buf') @ concat (map record_bytes rs) in
      rfc1035MessageUnpack reply (length reply) = Some (int (length rs), Some m, 0)) \<and>
    (\<exists>q. ms_query m = [q] \<and> rfc1035QueryCompare query' q = Some False) \<and>
    ms_answer m = map (record_of ls) rs \<and> ms_id m = ms_id h"
proof -
  have w: "length (wire_labels ls) < RFC1035_MAXHOSTNAMESZ" "length (wire_labels ls) + 17 \<le> sz"
    using assms(3,5) by (auto simp: length_join_dots)
  have hn: "length hostname < RFC1035_MAXHOSTNAMESZ" "length (qu_name query) = RFC1035_MAXHOSTNAMESZ" using assms(4,7) by simp_all
  define n where "n = length (wire_labels ls) + 17"
  define H where "H = header_bytes (zero_message\<lparr>ms_id := qid, ms_rd := 1, ms_qdcount := 1\<rparr>)"
  define buf' where "buf' = H @ question_bytes ls RFC1035_TYPE_A RFC1035_CLASS_IN @ drop n buf"
  define query' where "query' = query\<lparr>qu_type := RFC1035_TYPE_A, qu_class := RFC1035_CLASS_IN,
    qu_name := hostname @ NUL # drop (length hostname + 1) (qu_name query)\<rparr>"
  let ?q = "\<lparr>qu_name = name_of ls (qu_name zero_query), qu_type = RFC1035_TYPE_A, qu_class = RFC1035_CLASS_IN\<rparr>"
  have b: "rfc1035BuildAQuery hostname buf sz qid query = Some (n, buf', query')"
    unfolding rfc1035BuildAQuery_def n_def buf'_def query'_def H_def hostname_def
    by (rule build_query_ok [OF assms(2) _ w(2) assms(6) hn(2)]) (use hn(1) in \<open>simp add: hostname_def\<close>)
  have q: "take (n - 12) (drop 12 buf') = question_bytes ls RFC1035_TYPE_A RFC1035_CLASS_IN" by (simp add: buf'_def H_def n_def)
  have "cstring hostname" using assms(2) unfolding hostname_def cstring_def
    by (induction ls rule: join_dots.induct) (auto simp: label_ok_def)
  then have c: "cstr_of_buf (qu_name query') = Some hostname" by (simp add: query'_def)
  have "rfc1035QueryCompare query' ?q = Some False"
    by (rule query_compare_same [OF assms(2) c [unfolded hostname_def]])
       (simp_all add: query'_def name_of_array [OF assms(2) w(1) name_arrayI(1)])
  moreover define m where "m = h\<lparr>ms_query := [?q], ms_answer := map (record_of ls) rs\<rparr>"
  moreover have "let reply = header_bytes h @ take (n - 12) (drop 12 buf') @ concat (map record_bytes rs) in
      rfc1035MessageUnpack reply (length reply) = Some (int (length rs), Some m, 0)"
    unfolding Let_def q m_def by (rule message_unpack_bytes [OF assms(2) w(1) assms(11) assms(8-10)])
  moreover have "n \<le> sz" using w(2) by (simp add: n_def)
  ultimately show ?thesis using b by (intro exI [of _ n] exI [of _ buf'] exI [of _ query'] exI [of _ m]) simp
qed

subsection \<open>Queries whose replies are dropped, and a read outside the message\<close>

text \<open>\<open>rfc1035NamePack\<close> lets \<open>strtok\<close> drop empty labels; the question to compare with keeps them, so that the
  reply of a server never matches.\<close>

lemma dns_empty_label_mismatch:
  "do { (n, buf, query) \<leftarrow> rfc1035BuildAQuery ''a..b'' (replicate 30 NUL) 30 7 zero_query;
        (r, m, e) \<leftarrow> rfc1035MessageUnpack buf n;
        m \<leftarrow> m;
        Some (r, map (rfc1035QueryCompare query) (ms_query m)) } = Some (0, [Some True])"
  by code_simp

text \<open>The second byte of a compression pointer is read before the test that the message has it.\<close>

lemma dns_pointer_overread:
  "rfc1035MessageUnpack (net16 7 @ net16 0 @ net16 1 @ net16 0 @ net16 0 @ net16 0 @ [CHR 0xC0]) 13 = None"
  by code_simp

subsection \<open>Witnesses\<close>

text \<open>A question whose name is a pointer to itself.\<close>

lemma dns_unpack_safe_witness:
  "\<exists>n msg errno. rfc1035MessageUnpack (net16 7 @ net16 0 @ net16 1 @ net16 0 @ net16 0 @ net16 0 @ [CHR 0xC0, CHR 0x0C, NUL]) 14 = Some (n, msg, errno) \<and>
    (case msg of None \<Rightarrow> n = - 15 \<and> errno = 15
     | Some m \<Rightarrow> n \<le> int (length (ms_answer m)) \<and> (n < 0 \<longleftrightarrow> ms_rcode m \<noteq> 0) \<and> errno = nat (- n) \<and>
         (\<exists>q. ms_query m = [q] \<and> name_array (qu_name q)) \<and> (\<forall>r \<in> set (take (nat n) (ms_answer m)). rr_ok r))"
  by (rule dns_unpack_safe) simp

lemma dns_reply_matches_query_witness:
  "\<exists>n buf' query' m. rfc1035BuildAQuery (join_dots [''www'', ''test''] @ replicate 1 (CHR ''.'')) (replicate 40 NUL) 32 7 zero_query = Some (n, buf', query') \<and> n \<le> 32 \<and>
    (let reply = header_bytes (zero_message\<lparr>ms_qdcount := 1, ms_ancount := 1\<rparr>) @ take (n - 12) (drop 12 buf') @ concat (map record_bytes [(1, 1, 60, ''abcd'')]) in
      rfc1035MessageUnpack reply (length reply) = Some (int (length [(1 :: 16 word, 1 :: 16 word, 60 :: 32 word, ''abcd'')]), Some m, 0)) \<and>
    (\<exists>q. ms_query m = [q] \<and> rfc1035QueryCompare query' q = Some False) \<and>
    ms_answer m = map (record_of [''www'', ''test'']) [(1, 1, 60, ''abcd'')] \<and> ms_id m = ms_id (zero_message\<lparr>ms_qdcount := 1, ms_ancount := 1\<rparr>)"
  by (rule dns_reply_matches_query) (simp_all add: label_ok_def zero_message_def)

end
