(* ===== verification/Encodings.thy ===== *)
theory Encodings
  imports HttpTools
begin

section \<open>Text encodings (lib/rfc1738.c, lib/base64.c, lib/uudecode.c)\<close>

text \<open>
  The escaping of URLs and the two implementations of base 64: \<open>base64_encode\<close> and \<open>base64_decode\<close>, and
  \<open>uudecode\<close>, which decodes the credentials of clients. All write into arrays of fixed or computed sizes; each
  store is checked against the size of its array, so that the theorems include that none overflows.
\<close>

unbundle bit_operations_syntax

abbreviation byte_of :: "char \<Rightarrow> nat" where
  "byte_of c \<equiv> of_char c"

lemma byte_of_less: "byte_of c < 256" "byte_of c \<le> 255"
proof -
  show "byte_of c < 256" by simp
  then show "byte_of c \<le> 255" by linarith
qed

subsection \<open>Escaping (rfc1738.c)\<close>

definition rfc1738_unsafe_chars :: string where
  "rfc1738_unsafe_chars = map char_of [0x3C, 0x3E, 0x22, 0x23, 0x7B, 0x7D, 0x7C, 0x5C, 0x5E, 0x7E, 0x5B, 0x5D, 0x60, 0x27, 0x20 :: nat]"

definition rfc1738_reserved_chars :: string where
  "rfc1738_reserved_chars = map char_of [0x3B, 0x2F, 0x3F, 0x3A, 0x40, 0x3D, 0x26 :: nat]"

definition do_escape :: "int \<Rightarrow> char \<Rightarrow> bool" where
  "do_escape encode_reserved c \<longleftrightarrow>
     c \<in> set rfc1738_unsafe_chars \<or> (0 \<le> encode_reserved \<and> c = CHR ''%'') \<or>
     (0 < encode_reserved \<and> c \<in> set rfc1738_reserved_chars) \<or>
     byte_of c \<le> 0x1F \<or> c = CHR 0x7F \<or> 0x80 \<le> byte_of c"

definition percent_hex :: "char \<Rightarrow> string" where
  "percent_hex c = CHR ''%'' # fmt_02X (word_of_nat (byte_of c))"

text \<open>The loop: \<open>buf\<close> is what was written so far into the array of \<open>bufsize\<close> characters.\<close>

fun escape_loop :: "int \<Rightarrow> nat \<Rightarrow> string \<Rightarrow> string \<Rightarrow> string option" where
  "escape_loop encode_reserved bufsize buf [] = do { c_assert (length buf < bufsize); Some buf }"
| "escape_loop encode_reserved bufsize buf (p # ps) =
     (if do_escape encode_reserved p
      then do { c_assert (length buf + 3 < bufsize); escape_loop encode_reserved bufsize (buf @ percent_hex p) ps }
      else do { c_assert (length buf < bufsize); escape_loop encode_reserved bufsize (buf @ [p]) ps })"

text \<open>The static array of an earlier call is used again if it seems large enough. \<open>None\<close>: there is none yet.\<close>

definition rfc1738_do_escape :: "nat option \<Rightarrow> string \<Rightarrow> int \<Rightarrow> (string \<times> nat) option" where
  "rfc1738_do_escape old url encode_reserved = do {
     let bufsize = (case old of None \<Rightarrow> length url * 3 + 1
                    | Some n \<Rightarrow> if n < length url * 3 then length url * 3 + 1 else n);
     buf \<leftarrow> escape_loop encode_reserved bufsize [] url;
     Some (buf, bufsize) }"

definition rfc1738_escape :: "nat option \<Rightarrow> string \<Rightarrow> (string \<times> nat) option" where
  "rfc1738_escape old url = rfc1738_do_escape old url 0"

definition rfc1738_escape_unescaped :: "nat option \<Rightarrow> string \<Rightarrow> (string \<times> nat) option" where
  "rfc1738_escape_unescaped old url = rfc1738_do_escape old url (- 1)"

definition rfc1738_escape_part :: "nat option \<Rightarrow> string \<Rightarrow> (string \<times> nat) option" where
  "rfc1738_escape_part old url = rfc1738_do_escape old url 1"

definition fromhex :: "char \<Rightarrow> int" where
  "fromhex ch =
     (let n = int (byte_of ch)
      in if 48 \<le> n \<and> n \<le> 57 then n - 48
         else if 97 \<le> n \<and> n \<le> 102 then n - 97 + 10
         else if 65 \<le> n \<and> n \<le> 70 then n - 65 + 10
         else - 1)"

text \<open>The character at a position of a C string, with the terminator behind its end.\<close>

definition char_at :: "string \<Rightarrow> nat \<Rightarrow> char" where
  "char_at s i = (if i < length s then s ! i else NUL)"

text \<open>The string is changed in place; the position written is never ahead of the one read.\<close>

function rfc1738_unescape :: "string \<Rightarrow> string" where
  "rfc1738_unescape s =
     (case s of
        [] \<Rightarrow> []
      | c # cs \<Rightarrow>
          if c \<noteq> CHR ''%'' then c # rfc1738_unescape cs
          else if char_at cs 0 = CHR ''%'' then c # rfc1738_unescape (drop 1 cs)
          else
            (let v1 = fromhex (char_at cs 0); v2 = fromhex (char_at cs 1); x = 16 * v1 + v2
             in if v1 < 0 then c # rfc1738_unescape cs
                else if v2 < 0 then c # rfc1738_unescape cs
                else if 0 < x \<and> x \<le> 255 then char_of (nat x) # rfc1738_unescape (drop 2 cs)
                else c # rfc1738_unescape cs))"
  by pat_completeness auto
termination by (relation "measure length") (auto simp: Let_def)

declare rfc1738_unescape.simps [simp del]

subsection \<open>Base 64 (base64.c)\<close>

definition BASE64_RESULT_SZ :: nat where [simp]: "BASE64_RESULT_SZ = 8192"

definition base64_code :: string where
  "base64_code = ''ABCDEFGHIJKLMNOPQRSTUVWXYZabcdefghijklmnopqrstuvwxyz0123456789+/''"

text \<open>The table that \<open>base64_init\<close> fills.\<close>

fun index_of :: "'a \<Rightarrow> 'a list \<Rightarrow> nat option" where
  "index_of x [] = None"
| "index_of x (y # ys) = (if x = y then Some 0 else map_option Suc (index_of x ys))"

definition base64_value :: "char \<Rightarrow> int" where
  "base64_value c = (if c = CHR ''='' then 0 else case index_of c base64_code of None \<Rightarrow> - 1 | Some i \<Rightarrow> int i)"

text \<open>A store into the result array, behind what is there.\<close>

definition put :: "char list \<Rightarrow> nat \<Rightarrow> char list option" where
  "put result v = do { c_assert (length result < BASE64_RESULT_SZ); Some (result @ [char_of v]) }"

definition put_code :: "char list \<Rightarrow> nat \<Rightarrow> char list option" where
  "put_code result v = do { c \<leftarrow> arr_get base64_code v; put result (byte_of c) }"

fun decode_loop :: "int \<Rightarrow> nat \<Rightarrow> char list \<Rightarrow> string \<Rightarrow> char list option" where
  "decode_loop v c result [] = put result 0"
| "decode_loop v c result (p # ps) =
     (if \<not> length result + 4 < BASE64_RESULT_SZ then put result 0
      else if base64_value p < 0 then decode_loop v c result ps
      else
        let v = v * 64 + base64_value p; c = c + 1
        in if c < 4 then decode_loop v c result ps
           else do {
             result \<leftarrow> put result (nat (v div 65536));
             result \<leftarrow> put result (nat (v div 256) mod 256);
             result \<leftarrow> put result (nat v mod 256);
             decode_loop 0 0 result ps })"

text \<open>The string in the result array.\<close>

definition base64_decode :: "string \<Rightarrow> string option" where
  "base64_decode p = do { result \<leftarrow> decode_loop 0 0 [] p; cstr_of_buf result }"

fun encode_loop :: "nat \<Rightarrow> nat \<Rightarrow> char list \<Rightarrow> string \<Rightarrow> (nat \<times> nat \<times> char list) option" where
  "encode_loop bits char_count result [] = Some (bits, char_count, result)"
| "encode_loop bits char_count result (c # cs) =
     (if \<not> length result < BASE64_RESULT_SZ - 5 then Some (bits, char_count, result)
      else
        let bits = bits + byte_of c; char_count = char_count + 1
        in if char_count = 3 then do {
             result \<leftarrow> put_code result (bits div 2 ^ 18);
             result \<leftarrow> put_code result (bits div 2 ^ 12 mod 64);
             result \<leftarrow> put_code result (bits div 2 ^ 6 mod 64);
             result \<leftarrow> put_code result (bits mod 64);
             encode_loop 0 0 result cs }
           else encode_loop (bits * 256) char_count result cs)"

definition encode_rest :: "nat \<Rightarrow> nat \<Rightarrow> char list \<Rightarrow> char list option" where
  "encode_rest bits char_count result =
     (if char_count \<noteq> 0 then do {
        let bits = bits * 2 ^ (16 - 8 * char_count);
        result \<leftarrow> put_code result (bits div 2 ^ 18);
        result \<leftarrow> put_code result (bits div 2 ^ 12 mod 64);
        if char_count = 1 then do {
          result \<leftarrow> put result (byte_of (CHR ''=''));
          result \<leftarrow> put result (byte_of (CHR ''=''));
          put result 0 }
        else do {
          result \<leftarrow> put_code result (bits div 2 ^ 6 mod 64);
          result \<leftarrow> put result (byte_of (CHR ''=''));
          put result 0 } }
      else put result 0)"

definition base64_encode :: "string \<Rightarrow> string option" where
  "base64_encode decoded_str = do {
     (bits, char_count, result) \<leftarrow> encode_loop 0 0 [] decoded_str;
     result \<leftarrow> encode_rest bits char_count result;
     cstr_of_buf result }"

text \<open>\<open>base64_encode_bin\<close> is told the length of the data, which may have NULs.\<close>

definition base64_encode_bin :: "char list \<Rightarrow> nat \<Rightarrow> string option" where
  "base64_encode_bin data len = do {
     c_assert (len \<le> length data);
     (bits, char_count, result) \<leftarrow> encode_loop 0 0 [] (take len data);
     result \<leftarrow> encode_rest bits char_count result;
     cstr_of_buf result }"

subsection \<open>Decoding of credentials (uudecode.c)\<close>

definition pr2six :: "nat list" where
  "pr2six = replicate 43 64 @ [62, 64, 64, 64, 63] @ [52..<62] @ replicate 7 64 @ [0..<26] @ replicate 6 64 @ [26..<52] @
     replicate 133 64"

text \<open>The number of characters before the first that is no digit; running off the end of the string aborts.\<close>

fun count_digits :: "char list \<Rightarrow> nat option" where
  "count_digits [] = None"
| "count_digits (c # cs) = (if pr2six ! byte_of c \<le> 63 then map_option Suc (count_digits cs) else Some 0)"

definition six :: "char list \<Rightarrow> nat \<Rightarrow> nat option" where
  "six buf i = do { c \<leftarrow> arr_get buf i; Some (pr2six ! byte_of c) }"

text \<open>\<open>n\<close> is \<open>nprbytes\<close>, \<open>i\<close> the position of \<open>bufin\<close>; the result has what was decoded, and the final \<open>n\<close> and \<open>i\<close>.\<close>

function uu_loop :: "char list \<Rightarrow> int \<Rightarrow> nat \<Rightarrow> char list \<Rightarrow> (char list \<times> int \<times> nat) option" where
  "uu_loop buf n i out =
     (if n \<le> 0 then Some (out, n, i)
      else do {
        a \<leftarrow> six buf i;
        b \<leftarrow> six buf (i + 1);
        c \<leftarrow> six buf (i + 2);
        d \<leftarrow> six buf (i + 3);
        let out = out @ [char_of ((a * 4) OR (b div 16)), char_of ((b * 16) OR (c div 4)), char_of ((c * 64) OR d)];
        uu_loop buf (n - 4) (i + 4) out })"
  by pat_completeness auto
termination by (relation "measure (\<lambda>(buf, n, i, out). nat n)") auto

declare uu_loop.simps [simp del]

definition uudecode :: "string \<Rightarrow> string option" where
  "uudecode bufcoded = do {
     let buf = dropWhile (\<lambda>c. c = CHR '' '' \<or> c = CHR 0x09) bufcoded @ [NUL];
     nprbytes \<leftarrow> count_digits buf;
     let nbytesdecoded = (nprbytes + 3) div 4 * 3;
     (out, n, i) \<leftarrow> uu_loop buf (int nprbytes) 0 [];
     c_assert (length out \<le> nbytesdecoded);
     nbytesdecoded \<leftarrow>
       (if n mod 4 \<noteq> 0 then do {
          s \<leftarrow> six buf (i - 2);
          Some (if 63 < s then nbytesdecoded - 2 else nbytesdecoded - 1) }
        else Some nbytesdecoded);
     cstr_of_buf (take nbytesdecoded out @ [NUL]) }"

subsection \<open>Lemmas: escaping\<close>

lemma nibbles: "byte_of c div 16 < 16" "byte_of c mod 16 < 16"
  by (rule less_mult_imp_div_less, simp) simp

definition escaped :: "int \<Rightarrow> string \<Rightarrow> string" where
  "escaped m s = concat (map (\<lambda>c. if do_escape m c then percent_hex c else [c]) s)"

lemma escaped_simps [simp]:
  "escaped m [] = []" "escaped m (c # s) = (if do_escape m c then percent_hex c else [c]) @ escaped m s"
  by (simp_all add: escaped_def)

lemma length_percent_hex [simp]: "length (percent_hex c) = 3"
  by (simp add: percent_hex_def fmt_02X_def)

lemma escape_loop_ok: "length buf + 3 * length s < n \<Longrightarrow> escape_loop m n buf s = Some (buf @ escaped m s)"
  by (induction s arbitrary: buf) auto

lemma do_escape_ok:
  assumes "\<forall>n. old = Some n \<longrightarrow> n mod 3 = 1"
  shows "\<exists>n. rfc1738_do_escape old url m = Some (escaped m url, n) \<and> n mod 3 = 1"
proof (cases "\<exists>k. old = Some k \<and> \<not> k < length url * 3")
  case True
  then obtain k where k: "old = Some k" "length url * 3 \<le> k" "k mod 3 = 1" using assms by auto
  then have "length url * 3 \<noteq> k" by auto
  with k have "length url * 3 < k" by simp
  then show ?thesis using k escape_loop_ok [of "[]" url k m] by (simp add: rfc1738_do_escape_def mult.commute)
next
  case False
  then have "(case old of None \<Rightarrow> length url * 3 + 1 | Some n \<Rightarrow> if n < length url * 3 then length url * 3 + 1 else n) = length url * 3 + 1"
    by (auto split: option.splits)
  moreover have "(length url * 3 + 1) mod 3 = 1" by presburger
  ultimately show ?thesis using escape_loop_ok [of "[]" url "length url * 3 + 1" m] by (simp add: rfc1738_do_escape_def mult.commute)
qed

lemma fromhex_hexdigit: "d < 16 \<Longrightarrow> fromhex (hexdigit_char d) = int d"
  by (auto simp: fromhex_def hexdigit_char_def Let_def)

lemma byte_hexdigit: "d < 16 \<Longrightarrow> byte_of (hexdigit_char d) = (if d < 10 then 48 + d else 55 + d)"
  by (simp add: hexdigit_char_def)

lemma unat_byte [simp]: "unat (word_of_nat (byte_of c) :: 8 word) = byte_of c"
  by (simp add: unat_of_nat)

lemma unescape_percent:
  assumes "c \<noteq> NUL"
  shows "rfc1738_unescape (percent_hex c @ s) = c # rfc1738_unescape s"
proof -
  let ?h = "byte_of c div 16" and ?l = "byte_of c mod 16"
  have hl: "?h < 16" "?l < 16" by (fact nibbles)+
  have p: "percent_hex c = [CHR ''%'', hexdigit_char ?h, hexdigit_char ?l]" by (simp add: percent_hex_def fmt_02X_def)
  have n: "hexdigit_char ?h \<noteq> CHR ''%''" using byte_hexdigit [OF hl(1)] by (auto split: if_splits)
  have "byte_of c \<noteq> byte_of NUL" using assms by (simp only: of_char_eq_iff not_False_eq_True)
  then have "byte_of c \<noteq> 0" by simp
  have x: "16 * int ?h + int ?l = int (byte_of c)" by (metis mult_div_mod_eq of_nat_add of_nat_mult of_nat_numeral)
  show ?thesis
    using n fromhex_hexdigit [OF hl(1)] fromhex_hexdigit [OF hl(2)] \<open>byte_of c \<noteq> 0\<close>
    by (subst rfc1738_unescape.simps) (simp add: p char_at_def x byte_of_less)
qed

lemma unescape_plain: "c \<noteq> CHR ''%'' \<Longrightarrow> rfc1738_unescape (c # s) = c # rfc1738_unescape s"
  by (subst rfc1738_unescape.simps) simp

lemma unescape_escaped:
  assumes "0 \<le> m" "NUL \<notin> set s"
  shows "rfc1738_unescape (escaped m s) = s"
  using assms(2)
proof (induction s)
  case Nil then show ?case by (subst rfc1738_unescape.simps) simp
next
  case (Cons c s)
  have "do_escape m c \<or> c \<noteq> CHR ''%''" using assms(1) by (auto simp: do_escape_def)
  then show ?case using Cons unescape_percent [of c "escaped m s"] unescape_plain [of c "escaped m s"] by auto
qed

lemma percent_hex_plain:
  assumes "x \<in> set (percent_hex c)"
  shows "\<not> do_escape (- 1) x"
proof -
  have "byte_of c div 16 < 16" "byte_of c mod 16 < 16" by (fact nibbles)+
  moreover have "\<forall>d \<in> set [0..<16]. \<not> do_escape (- 1) (hexdigit_char d)" "\<not> do_escape (- 1) (CHR ''%'')" by code_simp+
  ultimately show ?thesis using assms by (auto simp: percent_hex_def fmt_02X_def)
qed

lemma do_escape_mono: "do_escape (- 1) c \<Longrightarrow> do_escape m c"
  by (auto simp: do_escape_def)

lemma escaped_plain: "x \<in> set (escaped m s) \<Longrightarrow> \<not> do_escape (- 1) x"
proof (induction s)
  case (Cons c s)
  then show ?case using percent_hex_plain [of x c] do_escape_mono [of c m] by (auto split: if_splits)
qed simp

lemma escaped_id: "\<forall>c \<in> set s. \<not> do_escape m c \<Longrightarrow> escaped m s = s"
  by (induction s) auto

text \<open>C32: Escaping is safe, and reversible when percent signs are escaped too. Whatever string \<open>rfc1738_do_escape\<close> is given, also when the array of an
  earlier call is used again, no character is written outside the array; the result has only printable characters
  other than the unsafe ones; \<open>rfc1738_escape_unescaped\<close> leaves the result as it is; and if percent signs were
  escaped, which is when the flag is not negative, then \<open>rfc1738_unescape\<close> gives back the string.\<close>
theorem escape_safe_roundtrip:
  assumes "cstring s" "\<forall>n. old = Some n \<longrightarrow> n mod 3 = 1" "m \<in> {- 1, 0, 1}"
  shows "\<exists>t n n'. rfc1738_do_escape old s m = Some (t, n) \<and> n mod 3 = 1 \<and>
    (\<forall>c \<in> set t. 0x20 < byte_of c \<and> byte_of c < 0x7F \<and> c \<notin> set rfc1738_unsafe_chars) \<and>
    rfc1738_escape_unescaped (Some n) t = Some (t, n') \<and> (0 \<le> m \<longrightarrow> rfc1738_unescape t = s)"
proof -
  let ?t = "escaped m s"
  obtain n where n: "rfc1738_do_escape old s m = Some (?t, n)" "n mod 3 = 1" using do_escape_ok [OF assms(2)] by blast
  have "\<forall>k. Some n = Some k \<longrightarrow> k mod 3 = 1" using n(2) by simp
  moreover have "escaped (- 1) ?t = ?t" using escaped_plain by (intro escaped_id) blast
  ultimately obtain n' where n': "rfc1738_escape_unescaped (Some n) ?t = Some (?t, n')"
    unfolding rfc1738_escape_unescaped_def by (metis do_escape_ok)
  have "0x20 < byte_of c \<and> byte_of c < 0x7F \<and> c \<notin> set rfc1738_unsafe_chars" if "c \<in> set ?t" for c
  proof -
    have p: "\<not> do_escape (- 1) c" using that by (rule escaped_plain)
    have "do_escape (- 1) (CHR '' '')" "do_escape (- 1) (CHR 0x7F)" by code_simp+
    with p have sp: "c \<noteq> CHR '' ''" "c \<noteq> CHR 0x7F" by blast+
    have "byte_of c \<noteq> byte_of (CHR '' '')" "byte_of c \<noteq> byte_of (CHR 0x7F)" using sp by (simp_all only: of_char_eq_iff not_False_eq_True)
    then show ?thesis using p by (auto simp: do_escape_def)
  qed
  moreover have "0 \<le> m \<longrightarrow> rfc1738_unescape ?t = s" using unescape_escaped assms(1) by (simp add: cstring_def)
  ultimately show ?thesis using n n' by blast
qed

subsection \<open>Lemmas: base 64\<close>

text \<open>The digits of three characters, and the text of a string.\<close>

definition sextets :: "nat \<Rightarrow> nat \<Rightarrow> nat \<Rightarrow> nat list" where
  "sextets a b c = [a div 4, a mod 4 * 16 + b div 16, b mod 16 * 4 + c div 64, c mod 64]"

definition digits :: "char \<Rightarrow> char \<Rightarrow> char \<Rightarrow> string" where
  "digits a b c = map (nth base64_code) (sextets (byte_of a) (byte_of b) (byte_of c))"

fun b64 :: "string \<Rightarrow> string" where
  "b64 [] = []"
| "b64 [a] = take 2 (digits a NUL NUL) @ ''==''"
| "b64 [a, b] = take 3 (digits a b NUL) @ ''=''"
| "b64 (a # b # c # s) = digits a b c @ b64 s"

lemma length_digits [simp]: "length (digits a b c) = 4"
  by (simp add: digits_def sextets_def)

lemma length_b64: "length (b64 s) = (length s + 2) div 3 * 4"
proof (induction s rule: b64.induct)
  case (4 a b c s)
  have "(length (a # b # c # s) + 2) div 3 = (length s + 2) div 3 + 1" by simp
  then show ?case using 4 by (simp del: length_Cons)
qed auto

lemma char_of_consts [simp]: "char_of (0 :: nat) = NUL" "char_of (61 :: nat) = CHR ''=''"
  by code_simp+

lemma sextet_less: "a < 256 \<Longrightarrow> b < 256 \<Longrightarrow> c < 256 \<Longrightarrow> \<forall>d \<in> set (sextets a b c). d < 64"
  by (auto simp: sextets_def less_mult_imp_div_less)

lemma div_mod_unique: "r < k \<Longrightarrow> n = q * k + r \<Longrightarrow> n div k = q \<and> n mod k = (r :: nat)"
  by simp

lemma bits_split:
  fixes a b c :: nat
  assumes "a < 256" "b < 256" "c < 256"
  defines "n \<equiv> a * 65536 + b * 256 + c"
  shows "n div 2 ^ 18 = a div 4" "n div 2 ^ 12 mod 64 = a mod 4 * 16 + b div 16" "n div 2 ^ 6 mod 64 = b mod 16 * 4 + c div 64"
    "n mod 64 = c mod 64"
proof -
  define a1 a0 b1 b0 c1 c0 where "a1 = a div 4" "a0 = a mod 4" "b1 = b div 16" "b0 = b mod 16" "c1 = c div 64" "c0 = c mod 64"
  note d = this
  have s: "a = a1 * 4 + a0" "b = b1 * 16 + b0" "c = c1 * 64 + c0" by (simp_all add: d)
  have l: "a0 < 4" "b1 < 16" "b0 < 16" "c1 < 4" "c0 < 64" using assms(2,3) by (simp_all add: d less_mult_imp_div_less)
  have "n = a1 * 2 ^ 18 + (a0 * 65536 + b1 * 4096 + b0 * 256 + c1 * 64 + c0)" by (simp add: n_def s)
  with div_mod_unique [of _ "2 ^ 18" n a1] l show "n div 2 ^ 18 = a div 4" by (simp add: d(1))
  have "n div 2 ^ 12 = a1 * 64 + (a0 * 16 + b1)"
    using div_mod_unique [of "b0 * 256 + c1 * 64 + c0" "2 ^ 12" n "a1 * 64 + (a0 * 16 + b1)"] l by (simp add: n_def s)
  with div_mod_unique [of "a0 * 16 + b1" 64 "n div 2 ^ 12" a1] l show "n div 2 ^ 12 mod 64 = a mod 4 * 16 + b div 16"
    by (simp add: d)
  have q: "n div 2 ^ 6 = (a1 * 64 + a0 * 16 + b1) * 64 + (b0 * 4 + c1)"
    using div_mod_unique [of c0 "2 ^ 6" n "(a1 * 64 + a0 * 16 + b1) * 64 + (b0 * 4 + c1)"] l by (simp add: n_def s)
  have "b0 * 4 + c1 < 64" using l by simp
  from div_mod_unique [OF this q] show "n div 2 ^ 6 mod 64 = b mod 16 * 4 + c div 64" by (simp only: d)
  have "n = (a1 * 4096 + a0 * 1024 + b1 * 64 + b0 * 4 + c1) * 64 + c0" by (simp add: n_def s)
  from div_mod_unique [OF l(5) this] show "n mod 64 = c mod 64" by (simp only: d)
qed

lemma base64_code_facts:
  "length base64_code = 64" "NUL \<notin> set base64_code" "CHR ''='' \<notin> set base64_code"
  "\<forall>i \<in> set [0..<64]. base64_value (base64_code ! i) = int i \<and> pr2six ! byte_of (base64_code ! i) = i"
  "base64_value (CHR ''='') = 0" "pr2six ! byte_of (CHR ''='') = 64" "pr2six ! byte_of NUL = 64"
  by code_simp+

lemma base64_value_code [simp]: "i < 64 \<Longrightarrow> base64_value (base64_code ! i) = int i"
  and pr2six_code [simp]: "i < 64 \<Longrightarrow> pr2six ! byte_of (base64_code ! i) = i"
  using base64_code_facts(4) by simp_all

lemma put_ok [simp]: "length r < BASE64_RESULT_SZ \<Longrightarrow> put r v = Some (r @ [char_of v])"
  by (simp add: put_def)

lemma put_code_ok [simp]: "length r < BASE64_RESULT_SZ \<Longrightarrow> v < 64 \<Longrightarrow> put_code r v = Some (r @ [base64_code ! v])"
  by (simp add: put_code_def arr_get_in base64_code_facts(1) del: BASE64_RESULT_SZ_def)

lemma take_3_add [simp]: "take (3 + m) (a # b # c # s) = a # b # c # take m s"
  by (simp add: numeral_3_eq_3)

definition encode_all :: "char list \<Rightarrow> string \<Rightarrow> char list option" where
  "encode_all result s = do { (bits, char_count, result) \<leftarrow> encode_loop 0 0 result s; encode_rest bits char_count result }"

lemma encode_all_ok:
  assumes "4 dvd length result" "length result \<le> 8188"
  shows "encode_all result s = Some (result @ b64 (take ((8188 - length result) div 4 * 3) s) @ [NUL])"
  using assms
proof (induction s arbitrary: result rule: b64.induct)
  case 1 then show ?case by (simp add: encode_all_def encode_rest_def)
next
  case (2 a)
  show ?case
  proof (cases "length result < 8187")
    case True
    then have r: "length result + 4 \<le> 8188" using 2 by auto
    then have "0 < (8188 - length result) div 4" by (simp add: div_greater_zero_iff)
    moreover note bits_split [OF byte_of_less(1) [of a] byte_of_less(1) [of NUL] byte_of_less(1) [of NUL]]
    moreover have "byte_of a div 4 < 64" "byte_of a mod 4 * 16 < 64" using byte_of_less [of a] by (auto simp: less_mult_imp_div_less)
    ultimately show ?thesis using r True by (simp add: encode_all_def encode_rest_def Let_def digits_def sextets_def)
  next
    case False
    then have "(8188 - length result) div 4 = 0" by simp
    then show ?thesis using False 2 by (simp add: encode_all_def encode_rest_def)
  qed
next
  case (3 a b)
  show ?case
  proof (cases "length result < 8187")
    case True
    then have r: "length result + 4 \<le> 8188" using 3 by auto
    have k: "0 < (8188 - length result) div 4" using r by (simp add: div_greater_zero_iff)
    define n where "n = byte_of a * 65536 + byte_of b * 256 + byte_of NUL"
    note n = bits_split [OF byte_of_less(1) [of a] byte_of_less(1) [of b] byte_of_less(1) [of NUL], folded n_def]
    note l = sextet_less [OF byte_of_less(1) [of a] byte_of_less(1) [of b] byte_of_less(1) [of NUL]]
    have e: "encode_loop 0 0 result [a, b] = Some (n, 2, result)" using True by (simp add: Let_def n_def numeral_2_eq_2 add_mult_distrib)
    have "encode_rest n 2 result = Some (result @ b64 [a, b] @ [NUL])"
      using r l n by (simp add: encode_rest_def Let_def digits_def sextets_def)
    then show ?thesis unfolding encode_all_def e using k by simp
  next
    case False
    then have "(8188 - length result) div 4 = 0" by simp
    then show ?thesis using False 3 by (simp add: encode_all_def encode_rest_def)
  qed
next
  case (4 a b c s)
  show ?case
  proof (cases "length result < 8187")
    case True
    then have r: "length result + 4 \<le> 8188" using 4 by auto
    have k: "(8188 - length result) div 4 = Suc ((8188 - length (result @ digits a b c)) div 4)" using r by (simp add: div_add_self2 [symmetric])
    define n where "n = byte_of a * 65536 + byte_of b * 256 + byte_of c"
    have nn: "((0 + byte_of a) * 256 + byte_of b) * 256 + byte_of c = n" by (simp add: n_def)
    note n = bits_split [OF byte_of_less(1) [of a] byte_of_less(1) [of b] byte_of_less(1) [of c], folded n_def]
    note l = sextet_less [OF byte_of_less(1) [of a] byte_of_less(1) [of b] byte_of_less(1) [of c]]
    have "encode_loop 0 0 result (a # b # c # s) = do {
        result \<leftarrow> put_code result (n div 2 ^ 18);
        result \<leftarrow> put_code result (n div 2 ^ 12 mod 64);
        result \<leftarrow> put_code result (n div 2 ^ 6 mod 64);
        result \<leftarrow> put_code result (n mod 64);
        encode_loop 0 0 result s }"
      using True unfolding encode_loop.simps Let_def nn by simp
    also have "\<dots> = encode_loop 0 0 (result @ digits a b c) s"
      unfolding n using r l by (simp add: digits_def sextets_def)
    finally have "encode_loop 0 0 result (a # b # c # s) = encode_loop 0 0 (result @ digits a b c) s" .
    then have "encode_all result (a # b # c # s) = encode_all (result @ digits a b c) s" by (simp add: encode_all_def)
    with "4.IH" [of "result @ digits a b c"] "4.prems" r show ?thesis unfolding k by (simp add: algebra_simps)
  next
    case False
    then have "(8188 - length result) div 4 = 0" by simp
    then show ?thesis using False 4 by (simp add: encode_all_def encode_rest_def)
  qed
qed

lemma b64_chars: "x \<in> set (b64 s) \<Longrightarrow> x \<in> set base64_code \<or> x = CHR ''=''"
proof (induction s rule: b64.induct)
  have d: "x \<in> set (digits a b c) \<Longrightarrow> x \<in> set base64_code" for a b c
    using sextet_less [OF byte_of_less(1) [of a] byte_of_less(1) [of b] byte_of_less(1) [of c]] base64_code_facts(1)
    by (auto simp: digits_def)
  {
    case (2 a) then show ?case using d by (auto dest: in_set_takeD)
  next
    case (3 a b) then show ?case using d by (auto dest: in_set_takeD)
  next
    case (4 a b c s) then show ?case using d by auto
  }
qed simp

lemma b64_cstring: "cstring (b64 s)"
  using b64_chars [of NUL s] base64_code_facts(2) by (auto simp: cstring_def)

lemma base64_encode_b64: "base64_encode s = Some (b64 (take 6141 s))"
proof -
  have "encode_all [] s = Some (b64 (take 6141 s) @ [NUL])" using encode_all_ok [of "[]" s] by simp
  then have "base64_encode s = cstr_of_buf (b64 (take 6141 s) @ NUL # [])"
    unfolding base64_encode_def encode_all_def by (cases "encode_loop 0 0 [] s") auto
  then show ?thesis using cstr_of_buf_append_NUL [OF b64_cstring] by simp
qed

text \<open>Decoding a quantum.\<close>

lemma sextets_value:
  fixes a b c :: nat
  assumes "a < 256" "b < 256" "c < 256"
  shows "((a div 4 * 64 + (a mod 4 * 16 + b div 16)) * 64 + (b mod 16 * 4 + c div 64)) * 64 + c mod 64 = a * 65536 + b * 256 + c"
proof -
  have "((a1 * 64 + (a0 * 16 + b1)) * 64 + (b0 * 4 + c1)) * 64 + c0 = (a1 * 4 + a0) * 65536 + (b1 * 16 + b0) * 256 + (c1 * 64 + c0)"
    for a1 a0 b1 b0 c1 c0 :: nat by simp
  from this [of "a div 4" "a mod 4" "b div 16" "b mod 16" "c div 64" "c mod 64"] show ?thesis unfolding div_mult_mod_eq .
qed

lemma decode_quantum:
  assumes "length r + 4 < BASE64_RESULT_SZ"
    "x1 < 64" "x2 < 64" "x3 < 64" "x4 < 64" "((x1 * 64 + x2) * 64 + x3) * 64 + x4 = byte_of a * 65536 + byte_of b * 256 + byte_of c"
    "base64_value p1 = int x1" "base64_value p2 = int x2" "base64_value p3 = int x3" "base64_value p4 = int x4"
  shows "decode_loop 0 0 r (p1 # p2 # p3 # p4 # ps) = decode_loop 0 0 (r @ [a, b, c]) ps"
proof -
  define n where "n = byte_of a * 65536 + byte_of b * 256 + byte_of c"
  have n: "n div 65536 = byte_of a" "n div 256 mod 256 = byte_of b" "n mod 256 = byte_of c"
    using div_mod_unique [of "byte_of b * 256 + byte_of c" 65536 n "byte_of a"] byte_of_less [of a] byte_of_less [of b] byte_of_less [of c]
      div_mod_unique [of "byte_of c" 256 n "byte_of a * 256 + byte_of b"] div_mod_unique [of "byte_of b" 256 "n div 256" "byte_of a"]
    by (simp_all add: n_def)
  have "262144 * x1 + 4096 * x2 + x3 * 64 + x4 = n" using assms(6) by (simp add: n_def)
  then have "int (262144 * x1 + 4096 * x2 + x3 * 64 + x4) = int n" by simp
  then have v: "262144 * int x1 + 4096 * int x2 + int x3 * 64 + int x4 = int n" by (simp only: of_nat_add of_nat_mult of_nat_numeral)
  have i: "nat (int n div 65536) = n div 65536" "nat (int n div 256) = n div 256"
    by (metis nat_int of_nat_numeral zdiv_int)+
  have ch: "char_of (n div 65536) = a" "char_of (n div 256) = b" "char_of n = c"
    using n by (metis char_of_char char_of_mod_256)+
  show ?thesis using assms(1) by (simp add: Let_def assms(7-10) v i ch)
qed

lemma byte_NUL: "byte_of NUL = 0"
  by simp

lemma decode_b64:
  assumes "length r + length s \<le> 8187"
  shows "\<exists>k. decode_loop 0 0 r (b64 s) = Some (r @ s @ replicate (Suc k) NUL)"
  using assms
proof (induction s arbitrary: r rule: b64.induct)
  case 1 then show ?case by (auto intro!: exI [of _ 0])
next
  case (2 a)
  note l = sextet_less [OF byte_of_less(1) [of a] byte_of_less(1) [of NUL] byte_of_less(1) [of NUL]]
  note v = sextets_value [OF byte_of_less(1) [of a] byte_of_less(1) [of NUL] byte_of_less(1) [of NUL]]
  have "decode_loop 0 0 r (b64 [a]) = decode_loop 0 0 (r @ [a, NUL, NUL]) []"
    unfolding b64.simps digits_def sextets_def
    by (simp only: list.map take_Suc_Cons numeral_2_eq_2 take0 append_Cons append_Nil, rule decode_quantum [OF _ _ _ _ _ v])
      (use 2 l in \<open>simp_all add: sextets_def base64_code_facts(5)\<close>)
  then show ?case using 2 by (auto intro!: exI [of _ 2] simp: numeral_2_eq_2)
next
  case (3 a b)
  note l = sextet_less [OF byte_of_less(1) [of a] byte_of_less(1) [of b] byte_of_less(1) [of NUL]]
  note v = sextets_value [OF byte_of_less(1) [of a] byte_of_less(1) [of b] byte_of_less(1) [of NUL]]
  have "decode_loop 0 0 r (b64 [a, b]) = decode_loop 0 0 (r @ [a, b, NUL]) []"
    unfolding b64.simps digits_def sextets_def
    by (simp only: list.map take_Suc_Cons numeral_3_eq_3 take0 append_Cons append_Nil, rule decode_quantum [OF _ _ _ _ _ v])
      (use 3 l in \<open>simp_all add: sextets_def base64_code_facts(5)\<close>)
  then show ?case using 3 by (auto intro!: exI [of _ 1])
next
  case (4 a b c s)
  note l = sextet_less [OF byte_of_less(1) [of a] byte_of_less(1) [of b] byte_of_less(1) [of c]]
  note v = sextets_value [OF byte_of_less(1) [of a] byte_of_less(1) [of b] byte_of_less(1) [of c]]
  have "decode_loop 0 0 r (b64 (a # b # c # s)) = decode_loop 0 0 (r @ [a, b, c]) (b64 s)"
    unfolding b64.simps digits_def sextets_def
    by (simp only: list.map append_Cons append_Nil, rule decode_quantum [OF _ _ _ _ _ v])
      (use 4 l in \<open>simp_all add: sextets_def\<close>)
  then show ?case using "4.IH" [of "r @ [a, b, c]"] "4.prems" by simp
qed

lemma base64_decode_b64: "cstring s \<Longrightarrow> length s \<le> 8187 \<Longrightarrow> base64_decode (b64 s) = Some s"
  using decode_b64 [of "[]" s] by (auto simp: base64_decode_def)

lemma decode_loop_total: "length r \<le> 8190 \<Longrightarrow> \<exists>x. decode_loop v c r p = Some (x @ [NUL])"
proof (induction p arbitrary: v c r)
  case Nil then show ?case by simp
next
  case (Cons p ps)
  show ?case
  proof (cases "length r + 4 < BASE64_RESULT_SZ \<and> \<not> base64_value p < 0 \<and> \<not> c + 1 < 4")
    case True
    then have "length r + 3 \<le> 8190" by simp
    then show ?thesis using True Cons.IH [of "r @ [char_of (nat ((v * 64 + base64_value p) div 65536)),
        char_of (nat ((v * 64 + base64_value p) div 256) mod 256), char_of (nat (v * 64 + base64_value p) mod 256)]" 0 0]
      by (auto simp: Let_def)
  next
    case False
    then show ?thesis using Cons.IH [OF Cons.prems] Cons.prems by (cases "length r + 4 < BASE64_RESULT_SZ") (auto simp: Let_def)
  qed
qed

lemma cstr_of_buf_NUL: "\<exists>s. cstr_of_buf (x @ [NUL]) = Some s"
  by (simp add: cstr_of_buf_def)

lemma base64_decode_total: "\<exists>s. base64_decode p = Some s"
  using decode_loop_total [of "[]" 0 0 p] cstr_of_buf_NUL by (auto simp: base64_decode_def)

subsection \<open>Lemmas: decoding of credentials\<close>

lemma or_add:
  fixes x y :: nat
  assumes "y < 2 ^ k"
  shows "(x * 2 ^ k) OR y = x * 2 ^ k + y"
proof -
  have y: "take_bit k y = y" using assms by (simp add: take_bit_nat_eq_self)
  have "push_bit k x AND y = 0"
    by (rule bit_eqI) (metis bit_and_iff bit_push_bit_iff bit_take_bit_iff bit_0_eq bot_apply bot_bool_def leD y)
  then have "push_bit k x + y = push_bit k x OR y" by (rule disjunctive_add_eq_or)
  then show ?thesis by (simp add: push_bit_eq_mult)
qed

lemma uu_bytes:
  "char_of ((byte_of a div 4 * 4) OR ((byte_of a mod 4 * 16 + byte_of b div 16) div 16)) = a"
  "char_of (((byte_of a mod 4 * 16 + byte_of b div 16) * 16) OR ((byte_of b mod 16 * 4 + byte_of c div 64) div 4)) = b"
  "char_of (((byte_of b mod 16 * 4 + byte_of c div 64) * 64) OR (byte_of c mod 64)) = c"
proof -
  have l: "byte_of b div 16 < 16" "byte_of c div 64 < 4" using byte_of_less(1) [of b] byte_of_less(1) [of c] by (simp_all add: less_mult_imp_div_less)
  have m: "(byte_of a mod 4 * 16 + byte_of b div 16) div 16 = byte_of a mod 4" "(byte_of b mod 16 * 4 + byte_of c div 64) div 4 = byte_of b mod 16"
    using l by simp_all
  have "(byte_of a div 4 * 4) OR (byte_of a mod 4) = byte_of a div 4 * 4 + byte_of a mod 4" using or_add [of "byte_of a mod 4" 2] by simp
  then show "char_of ((byte_of a div 4 * 4) OR ((byte_of a mod 4 * 16 + byte_of b div 16) div 16)) = a" unfolding m by simp
  have "((byte_of a mod 4 * 16 + byte_of b div 16) * 16) OR (byte_of b mod 16) = (byte_of a mod 4 * 16 + byte_of b div 16) * 16 + byte_of b mod 16"
    using or_add [of "byte_of b mod 16" 4 "byte_of a mod 4 * 16 + byte_of b div 16"] by simp
  also have "\<dots> = byte_of a mod 4 * 256 + byte_of b" using div_mult_mod_eq [of "byte_of b" 16] by (simp add: add_mult_distrib)
  finally show "char_of (((byte_of a mod 4 * 16 + byte_of b div 16) * 16) OR ((byte_of b mod 16 * 4 + byte_of c div 64) div 4)) = b"
    unfolding m by (metis char_of_char char_of_mod_256 mod_mult_self3)
  have "((byte_of b mod 16 * 4 + byte_of c div 64) * 64) OR (byte_of c mod 64) = (byte_of b mod 16 * 4 + byte_of c div 64) * 64 + byte_of c mod 64"
    using or_add [of "byte_of c mod 64" 6 "byte_of b mod 16 * 4 + byte_of c div 64"] by simp
  also have "\<dots> = byte_of b mod 16 * 256 + byte_of c" using div_mult_mod_eq [of "byte_of c" 64] by (simp add: add_mult_distrib)
  finally show "char_of (((byte_of b mod 16 * 4 + byte_of c div 64) * 64) OR (byte_of c mod 64)) = c"
    by (metis char_of_char char_of_mod_256 mod_mult_self3)
qed

fun digit_count :: "string \<Rightarrow> nat" where
  "digit_count [] = 0"
| "digit_count [a] = 2"
| "digit_count [a, b] = 3"
| "digit_count (a # b # c # s) = digit_count s + 4"

lemma count_digits_code:
  assumes "\<forall>x \<in> set xs. x \<in> set base64_code"
  shows "count_digits (xs @ ys) = map_option ((+) (length xs)) (count_digits ys)"
proof -
  have "pr2six ! byte_of x \<le> 63" if x: "x \<in> set base64_code" for x
  proof -
    obtain i where "i < length base64_code" "base64_code ! i = x" using x unfolding in_set_conv_nth by blast
    then show ?thesis using pr2six_code [of i] base64_code_facts(1) by simp
  qed
  then show ?thesis using assms by (induction xs) (cases "count_digits ys"; simp)+
qed

lemma digits_code: "x \<in> set (digits a b c) \<Longrightarrow> x \<in> set base64_code"
  using sextet_less [OF byte_of_less(1) [of a] byte_of_less(1) [of b] byte_of_less(1) [of c]] base64_code_facts(1)
  by (auto simp: digits_def)

lemma count_b64: "count_digits (b64 s @ [NUL]) = Some (digit_count s)"
proof (induction s rule: b64.induct)
  case 1 then show ?case by (simp add: base64_code_facts(7) del: of_char_Char)
next
  case (2 a)
  have "count_digits (''==''@ [NUL]) = Some 0" by code_simp
  then show ?case using count_digits_code [of "take 2 (digits a NUL NUL)" "''=='' @ [NUL]"] digits_code by (fastforce dest: in_set_takeD)
next
  case (3 a b)
  have "count_digits (''=''@ [NUL]) = Some 0" by code_simp
  then show ?case using count_digits_code [of "take 3 (digits a b NUL)" "''='' @ [NUL]"] digits_code by (fastforce dest: in_set_takeD)
next
  case (4 a b c s)
  then show ?case using count_digits_code [of "digits a b c" "b64 s @ [NUL]"] digits_code by simp
qed

lemma uu_quantum:
  assumes "0 < n" "buf = P @ [q1, q2, q3, q4] @ Z" "pr2six ! byte_of q1 = v1" "pr2six ! byte_of q2 = v2" "pr2six ! byte_of q3 = v3"
    "pr2six ! byte_of q4 = v4"
  shows "uu_loop buf n (length P) out = uu_loop buf (n - 4) (length P + 4)
    (out @ [char_of ((v1 * 4) OR (v2 div 16)), char_of ((v2 * 16) OR (v3 div 4)), char_of ((v3 * 64) OR v4)])"
proof -
  have "six buf (length P) = Some v1" "six buf (length P + 1) = Some v2" "six buf (length P + 2) = Some v3" "six buf (length P + 3) = Some v4"
    by (simp_all add: six_def assms(2) arr_get_def nth_append assms(3-6) del: of_char_mod_256)
  then show ?thesis using assms(1) by (subst uu_loop.simps) (simp add: Let_def)
qed

lemma uu_end: "n \<le> 0 \<Longrightarrow> uu_loop buf n i out = Some (out, n, i)"
  by (subst uu_loop.simps) simp

text \<open>What follows the string in the result, and how it is cut off.\<close>

definition uu_done :: "char list \<Rightarrow> string \<Rightarrow> char list \<Rightarrow> char list \<Rightarrow> int \<Rightarrow> nat \<Rightarrow> bool" where
  "uu_done buf s out res n i \<longleftrightarrow> (\<exists>junk. res = out @ s @ junk \<and> length s + length junk = (length s + 2) div 3 * 3 \<and>
     (n mod 4 = 0 \<longrightarrow> junk = []) \<and> (n mod 4 \<noteq> 0 \<longrightarrow> (\<exists>v. six buf (i - 2) = Some v \<and> length junk = (if 63 < v then 2 else 1))))"

lemma digits_nth: "digits a b c = [base64_code ! (byte_of a div 4), base64_code ! (byte_of a mod 4 * 16 + byte_of b div 16),
    base64_code ! (byte_of b mod 16 * 4 + byte_of c div 64), base64_code ! (byte_of c mod 64)]"
  by (simp add: digits_def sextets_def)

lemma digits_six:
  "pr2six ! byte_of (base64_code ! (byte_of a div 4)) = byte_of a div 4"
  "pr2six ! byte_of (base64_code ! (byte_of a mod 4 * 16 + byte_of b div 16)) = byte_of a mod 4 * 16 + byte_of b div 16"
  "pr2six ! byte_of (base64_code ! (byte_of b mod 16 * 4 + byte_of c div 64)) = byte_of b mod 16 * 4 + byte_of c div 64"
  "pr2six ! byte_of (base64_code ! (byte_of c mod 64)) = byte_of c mod 64"
  using sextet_less [OF byte_of_less(1) [of a] byte_of_less(1) [of b] byte_of_less(1) [of c]]
  by (auto simp: sextets_def intro!: pr2six_code)

lemma six_at: "buf = A @ q # B \<Longrightarrow> i = length A \<Longrightarrow> six buf i = Some (pr2six ! byte_of q)"
  by (simp add: six_def arr_get_def)

lemma uu_b64:
  assumes "buf = P @ b64 s @ [NUL]"
  shows "\<exists>res n i. uu_loop buf (int (digit_count s)) (length P) out = Some (res, n, i) \<and> uu_done buf s out res n i"
  using assms
proof (induction s arbitrary: P out rule: b64.induct)
  case 1 then show ?case by (simp add: uu_end uu_done_def)
next
  case (2 a)
  let ?q1 = "base64_code ! (byte_of a div 4)" and ?q2 = "base64_code ! (byte_of a mod 4 * 16 + byte_of NUL div 16)"
  have buf: "buf = P @ [?q1, ?q2, CHR ''='', CHR ''=''] @ [NUL]" using 2 by (simp add: digits_nth)
  have "six buf (length P + 2) = Some (pr2six ! byte_of (CHR ''=''))"
    by (rule six_at [of _ "P @ [?q1, ?q2]" _ "CHR ''='' # [NUL]"]) (simp_all add: buf)
  then have six: "six buf (length P + 4 - 2) = Some 64" unfolding base64_code_facts(6) by simp
  have "uu_loop buf 2 (length P) out = Some (out @ [a, char_of (((byte_of a mod 4 * 16 + byte_of NUL div 16) * 16) OR (64 div 4)), char_of ((64 * 64) OR 64 :: nat)],
      2 - 4, length P + 4)"
    using uu_quantum [OF _ buf digits_six(1,2) base64_code_facts(6,6), of 2 out] unfolding uu_bytes(1) by (simp add: uu_end)
  moreover have "(2 - 4 :: int) mod 4 \<noteq> 0" by simp
  ultimately show ?case using six by (fastforce simp: uu_done_def)
next
  case (3 a b)
  let ?q1 = "base64_code ! (byte_of a div 4)" and ?q2 = "base64_code ! (byte_of a mod 4 * 16 + byte_of b div 16)"
    and ?q3 = "base64_code ! (byte_of b mod 16 * 4 + byte_of NUL div 64)"
  have buf: "buf = P @ [?q1, ?q2, ?q3, CHR ''=''] @ [NUL]" using 3 by (simp add: digits_nth)
  have "six buf (length P + 2) = Some (pr2six ! byte_of ?q3)"
    by (rule six_at [of _ "P @ [?q1, ?q2]" _ "CHR ''='' # [NUL]"]) (simp_all add: buf)
  then have six: "six buf (length P + 4 - 2) = Some (byte_of b mod 16 * 4 + byte_of NUL div 64)" unfolding digits_six by simp
  have l: "byte_of b mod 16 * 4 + byte_of NUL div 64 < 64" by simp
  have "uu_loop buf 3 (length P) out = Some (out @ [a, b, char_of (((byte_of b mod 16 * 4 + byte_of NUL div 64) * 64) OR 64)], 3 - 4, length P + 4)"
    using uu_quantum [OF _ buf digits_six(1-3) base64_code_facts(6), of 3 out] unfolding uu_bytes(1,2) by (simp add: uu_end)
  moreover have "(3 - 4 :: int) mod 4 \<noteq> 0" by simp
  ultimately show ?case using six l by (fastforce simp: uu_done_def)
next
  case (4 a b c s)
  have buf: "buf = P @ digits a b c @ b64 s @ [NUL]" using "4.prems" by simp
  have u: "uu_loop buf (int (digit_count (a # b # c # s))) (length P) out = uu_loop buf (int (digit_count s)) (length P + 4) (out @ [a, b, c])"
    using uu_quantum [OF _ buf [unfolded digits_nth] digits_six, of "int (digit_count (a # b # c # s))" out]
    unfolding uu_bytes by simp
  have "\<exists>res n i. uu_loop buf (int (digit_count s)) (length (P @ digits a b c)) (out @ [a, b, c]) = Some (res, n, i) \<and>
      uu_done buf s (out @ [a, b, c]) res n i" by (rule "4.IH") (simp add: buf)
  moreover have "(length (a # b # c # s) + 2) div 3 = (length s + 2) div 3 + 1" by simp
  ultimately show ?case unfolding u by (auto simp: uu_done_def)
qed

lemma digit_count_div: "(digit_count s + 3) div 4 = (length s + 2) div 3"
proof (induction s rule: digit_count.induct)
  case (4 a b c s)
  have "(length (a # b # c # s) + 2) div 3 = (length s + 2) div 3 + 1" "(digit_count s + 4 + 3) div 4 = (digit_count s + 3) div 4 + 1" by simp_all
  then show ?case using 4 by (simp del: length_Cons)
qed auto

lemma uudecode_b64:
  assumes "cstring s"
  shows "uudecode (b64 s) = Some s"
proof -
  define buf where "buf = b64 s @ [NUL]"
  define n0 where "n0 = (length s + 2) div 3 * 3"
  have "CHR '' '' \<notin> set base64_code" "CHR 0x09 \<notin> set base64_code" by code_simp+
  then have "\<forall>x \<in> set (b64 s). \<not> (x = CHR '' '' \<or> x = CHR 0x09)" using b64_chars [of _ s] by fastforce
  then have skip: "dropWhile (\<lambda>c. c = CHR '' '' \<or> c = CHR 0x09) (b64 s) = b64 s" by (cases "b64 s") auto
  from uu_b64 [of buf "[]" s "[]"] obtain out n i where r: "uu_loop buf (int (digit_count s)) 0 [] = Some (out, n, i)" "uu_done buf s [] out n i"
    by (auto simp: buf_def)
  then obtain junk where j: "out = s @ junk" "length s + length junk = n0" "n mod 4 = 0 \<Longrightarrow> junk = []"
    "n mod 4 \<noteq> 0 \<Longrightarrow> \<exists>v. six buf (i - 2) = Some v \<and> length junk = (if 63 < v then 2 else 1)" by (auto simp: uu_done_def n0_def)
  have len: "(digit_count s + 3) div 4 * 3 = n0" unfolding digit_count_div n0_def by simp
  have c: "count_digits buf = Some (digit_count s)" unfolding buf_def by (rule count_b64)
  have keep: "take (n0 - length junk) out = s" using j(1,2) by (simp add: add_implies_diff)
  show ?thesis
  proof (cases "n mod 4 = 0")
    case True
    then show ?thesis using keep j(1-3) assms
      by (simp add: uudecode_def skip buf_def [symmetric] c r(1) len Let_def)
  next
    case False
    with j(4) obtain v where v: "six buf (i - 2) = Some v" "length junk = (if 63 < v then 2 else 1)" by blast
    then have k: "63 < v \<Longrightarrow> take (n0 - 2) out = s" "\<not> 63 < v \<Longrightarrow> take (n0 - Suc 0) out = s" using keep by simp_all
    have "length out \<le> n0" using j(1,2) by simp
    then show ?thesis using k assms False v(1)
      by (simp add: uudecode_def skip buf_def [symmetric] c r(1) len Let_def)
  qed
qed

text \<open>C33: Base 64 is reversible, and both decoders agree. Encoding and decoding return for every string, without a
  store outside the result array; and for a string of at most 6141 characters, the most the array has room for,
  \<open>base64_decode\<close> and \<open>uudecode\<close> both return the string that was encoded. Of a longer one the first 6141 are encoded.\<close>
theorem base64_roundtrip:
  assumes "cstring s"
  shows "\<exists>t. base64_encode s = Some t \<and> base64_decode t = Some (take 6141 s) \<and> uudecode t = Some (take 6141 s) \<and>
    (\<exists>u. base64_decode s = Some u)"
proof -
  have "cstring (take 6141 s)" using assms by (auto simp: cstring_def dest: in_set_takeD)
  then show ?thesis using base64_encode_b64 [of s] base64_decode_b64 [of "take 6141 s"] uudecode_b64 [of "take 6141 s"] base64_decode_total [of s] by simp
qed

text \<open>Text that is no multiple of four characters long, without padding, is read beyond its terminator.\<close>

lemma uudecode_overread: "uudecode ''A'' = None"
  by code_simp

subsection \<open>Witnesses\<close>

lemma escape_safe_roundtrip_witness:
  "\<exists>t n n'. rfc1738_do_escape None ''a b%2f'' 1 = Some (t, n) \<and> n mod 3 = 1 \<and>
    (\<forall>c \<in> set t. 0x20 < byte_of c \<and> byte_of c < 0x7F \<and> c \<notin> set rfc1738_unsafe_chars) \<and>
    rfc1738_escape_unescaped (Some n) t = Some (t, n') \<and> (0 \<le> (1 :: int) \<longrightarrow> rfc1738_unescape t = ''a b%2f'')"
  by (rule escape_safe_roundtrip) (simp_all add: cstring_def)

lemma base64_roundtrip_witness:
  "\<exists>t. base64_encode ''user:secret'' = Some t \<and> base64_decode t = Some (take 6141 ''user:secret'') \<and>
    uudecode t = Some (take 6141 ''user:secret'') \<and> (\<exists>u. base64_decode ''user:secret'' = Some u)"
  by (rule base64_roundtrip) (simp add: cstring_def)

end
