(* ===== verification/Url.thy ===== *)
theory Url
  imports StoreTypes HttpHeader Encodings
begin

section \<open>URLs (url.c)\<close>

text \<open>
  The parsing of request URLs, their canonical forms, and the matching of hosts with domains. The URL is a
  string of the caller, which \<open>urlParse\<close> cuts if it is too long; its parts are copied into arrays of
  \<open>MAX_URL\<close> characters, whose bounds are checked. \<open>atoi\<close> and \<open>sscanf\<close> read numbers as \<open>strtol\<close> of the GNU library
  does with a \<open>long\<close> of 32 bits: larger ones give the largest. The build has no SSL and denies no ports.
\<close>

subsection \<open>Methods and protocols\<close>

type_synonym rms_t = "string \<times> nat"

definition RequestMethods :: "rms_t list" where
  "RequestMethods = map (\<lambda>s. (s, length s))
     [''NONE'', ''GET'', ''POST'', ''PUT'', ''HEAD'', ''CONNECT'', ''TRACE'', ''PURGE'', ''OPTIONS'', ''DELETE'', ''PROPFIND'',
      ''PROPPATCH'', ''MKCOL'', ''COPY'', ''MOVE'', ''LOCK'', ''UNLOCK'', ''BMOVE'', ''BDELETE'', ''BPROPFIND'', ''BPROPPATCH'',
      ''BCOPY'', ''SEARCH'', ''SUBSCRIBE'', ''UNSUBSCRIBE'', ''POLL'', ''REPORT'', ''MKACTIVITY'', ''CHECKOUT'', ''MERGE'',
      ''%EXT00'', ''%EXT01'', ''%EXT02'', ''%EXT03'', ''%EXT04'', ''%EXT05'', ''%EXT06'', ''%EXT07'', ''%EXT08'', ''%EXT09'',
      ''%EXT10'', ''%EXT11'', ''%EXT12'', ''%EXT13'', ''%EXT14'', ''%EXT15'', ''%EXT16'', ''%EXT17'', ''%EXT18'', ''%EXT19'', ''ERROR'']"

definition METHOD_PUT :: method_t where [simp]: "METHOD_PUT = 3"
definition METHOD_TRACE :: method_t where [simp]: "METHOD_TRACE = 6"
definition METHOD_PURGE :: method_t where [simp]: "METHOD_PURGE = 7"
definition METHOD_EXT00 :: method_t where [simp]: "METHOD_EXT00 = 30"
definition METHOD_ENUM_END :: method_t where [simp]: "METHOD_ENUM_END = 50"

text \<open>The first method from \<open>m\<close> on that satisfies a test.\<close>

function find_method :: "(method_t \<Rightarrow> bool) \<Rightarrow> method_t \<Rightarrow> method_t option" where
  "find_method P m = (if m < METHOD_ENUM_END then (if P m then Some m else find_method P (m + 1)) else None)"
  by pat_completeness auto
termination by (relation "measure (\<lambda>(P, m). METHOD_ENUM_END - m)") auto

declare find_method.simps [simp del]

text \<open>\<open>s\<close> is the text from the method on, of which \<open>len\<close> characters belong to it.\<close>

definition urlParseMethod :: "rms_t list \<Rightarrow> string \<Rightarrow> nat \<Rightarrow> method_t" where
  "urlParseMethod methods s len =
     (if s \<noteq> [] \<and> hd s = CHR ''%'' then METHOD_NONE
      else case find_method (\<lambda>m. len = snd (methods ! m) \<and> strncaseeq s (fst (methods ! m)) len) 1 of
             Some m \<Rightarrow> m | None \<Rightarrow> METHOD_NONE)"

definition urlParseProtocol :: "string \<Rightarrow> protocol_t" where
  "urlParseProtocol s =
     (if strcaseeq s ''http'' then PROTO_HTTP
      else if strcaseeq s ''ftp'' then PROTO_FTP
      else if strcaseeq s ''https'' then PROTO_HTTPS
      else if strcaseeq s ''file'' then PROTO_FTP
      else if strcaseeq s ''gopher'' then PROTO_GOPHER
      else if strcaseeq s ''wais'' then PROTO_WAIS
      else if strcaseeq s ''cache_object'' then PROTO_CACHEOBJ
      else if strcaseeq s ''urn'' then PROTO_URN
      else if strcaseeq s ''whois'' then PROTO_WHOIS
      else if strcaseeq s ''internal'' then PROTO_INTERNAL
      else PROTO_NONE)"

subsection \<open>Numbers\<close>

definition strtol10 :: "string \<Rightarrow> (int \<times> string) option" where
  "strtol10 s =
     (let s = dropWhile isspace s;
          neg = (s \<noteq> [] \<and> hd s = CHR ''-'');
          s = (if s \<noteq> [] \<and> (hd s = CHR ''-'' \<or> hd s = CHR ''+'') then tl s else s);
          ds = takeWhile isdigit s
      in if ds = [] then None
         else Some (max (- (2 ^ 31)) (min (2 ^ 31 - 1) (if neg then - int (dec_val ds) else int (dec_val ds))),
                    dropWhile isdigit s))"

definition atoi_gnu :: "string \<Rightarrow> int" where
  "atoi_gnu s = (case strtol10 s of None \<Rightarrow> 0 | Some (v, _) \<Rightarrow> v)"

subsection \<open>Parsing\<close>

record url_config =
  uc_appendDomain :: "string option"
  uc_uri_whitespace :: int
  uc_check_hostnames :: bool
  uc_allow_underscore :: bool
  uc_strip_query_terms :: bool

definition appendDomainLen :: "url_config \<Rightarrow> nat" where
  "appendDomainLen cfg = (case uc_appendDomain cfg of None \<Rightarrow> 0 | Some d \<Rightarrow> length d)"

definition URI_WHITESPACE_STRIP :: int where [simp]: "URI_WHITESPACE_STRIP = 0"
definition URI_WHITESPACE_ALLOW :: int where [simp]: "URI_WHITESPACE_ALLOW = 1"
definition URI_WHITESPACE_ENCODE :: int where [simp]: "URI_WHITESPACE_ENCODE = 2"
definition URI_WHITESPACE_CHOP :: int where [simp]: "URI_WHITESPACE_CHOP = 3"
definition URI_WHITESPACE_DENY :: int where [simp]: "URI_WHITESPACE_DENY = 4"
definition SQUIDHOSTNAMELEN :: nat where [simp]: "SQUIDHOSTNAMELEN = 256"
definition MAX_LOGIN_SZ :: nat where [simp]: "MAX_LOGIN_SZ = 128"
definition CONNECT_PORT :: int where [simp]: "CONNECT_PORT = 443"

definition valid_hostname_chars :: string where
  "valid_hostname_chars = ''ABCDEFGHIJKLMNOPQRSTUVWXYZabcdefghijklmnopqrstuvwxyz0123456789-.''"

definition valid_hostname_chars_u :: string where
  "valid_hostname_chars_u = ''ABCDEFGHIJKLMNOPQRSTUVWXYZabcdefghijklmnopqrstuvwxyz0123456789-._''"

definition requestCreate :: "method_t \<Rightarrow> protocol_t \<Rightarrow> string \<Rightarrow> request_t option" where
  "requestCreate method protocol urlpath = do {
     urlpath \<leftarrow> stringLimitInit urlpath (length urlpath);
     Some \<lparr>r_method = method, r_protocol = protocol, r_login = [], r_host = [], r_port = 0, r_urlpath = urlpath, r_canonical = None,
       r_store_url = None, r_cache_control = None, r_nocache = False, r_nocache_hack = False, r_cachable = False,
       r_vary_headers = None, r_vary_encoding = None, r_vary = None, r_urlgroup = None\<rparr> }"

definition urnParse :: "method_t \<Rightarrow> string \<Rightarrow> request_t option" where
  "urnParse method urn = requestCreate method PROTO_URN (drop 4 urn)"

text \<open>The text before the last occurrence of a character, and the text behind it.\<close>

definition split_last :: "char \<Rightarrow> string \<Rightarrow> (string \<times> string) option" where
  "split_last c s =
     (if c \<in> set s then Some (rev (drop 1 (dropWhile (\<lambda>x. x \<noteq> c) (rev s))), rev (takeWhile (\<lambda>x. x \<noteq> c) (rev s))) else None)"

text \<open>The parts of a URL: protocol, login, host, port and path. \<open>None\<close> as the inner result: no URL.\<close>

definition connect_parts :: "string \<Rightarrow> (protocol_t \<times> string \<times> string \<times> int \<times> string) option option" where
  "connect_parts url =
     (let host = takeWhile (\<lambda>c. c \<noteq> CHR '':'') url; rest = drop (length host) url
      in if host = [] then Some None
         else do {
           host \<leftarrow> strcpy_into MAX_URL host;
           let port = (case rest of [] \<Rightarrow> CONNECT_PORT
                       | _ # r \<Rightarrow> case strtol10 r of None \<Rightarrow> CONNECT_PORT | Some (v, _) \<Rightarrow> v);
           Some (Some (PROTO_NONE, [], host, port, [])) })"

definition url_parts :: "string \<Rightarrow> (protocol_t \<times> string \<times> string \<times> int \<times> string) option option" where
  "url_parts url =
     (let proto = takeWhile (\<lambda>c. c \<noteq> CHR '':'') url; src = drop (length proto) url
      in if src = [] then Some None
         else if take 3 src \<noteq> ''://'' then Some None
         else do {
           proto \<leftarrow> strcpy_into MAX_URL proto;
           let src = drop 3 src;
           let host = takeWhile (\<lambda>c. c \<noteq> CHR ''/'') src;
           host \<leftarrow> strcpy_into MAX_URL host;
           let src = drop (length host) src;
           let urlpath = takeWhile (\<lambda>c. c \<noteq> CHR 0x0D \<and> c \<noteq> CHR 0x0A \<and> c \<noteq> NUL) src;
           let urlpath = (if urlpath = [] then ''/'' else urlpath);
           urlpath \<leftarrow> strcpy_into MAX_URL urlpath;
           let protocol = urlParseProtocol proto;
           let port = urlDefaultPort protocol;
           (login, host) \<leftarrow>
             (case split_last (CHR ''@'') host of
                None \<Rightarrow> Some ([], host)
              | Some (l, h) \<Rightarrow> do { _ \<leftarrow> strcpy_into MAX_URL host; h \<leftarrow> strcpy_into MAX_URL h; Some (l, h) });
           let (host, port) =
             (case split_last (CHR '':'') host of
                None \<Rightarrow> (host, port)
              | Some (h, t) \<Rightarrow> (h, if t \<noteq> [] then atoi_gnu t else port));
           Some (Some (protocol, login, host, port, urlpath)) })"

text \<open>\<open>strncat\<close> of the configured domain: the number of characters is an unsigned difference.\<close>

definition append_domain :: "url_config \<Rightarrow> string \<Rightarrow> string option" where
  "append_domain cfg host =
     (case uc_appendDomain cfg of
        None \<Rightarrow> Some host
      | Some d \<Rightarrow>
          if CHR ''.'' \<in> set host then Some host
          else strcpy_into MAX_URL (host @ take (nat ((int SQUIDHOSTNAMELEN - int (length host) - 1) mod 2 ^ 32)) d))"

definition strip_dots :: "string \<Rightarrow> string" where
  "strip_dots host = rev (dropWhile (\<lambda>c. c = CHR ''.'') (rev host))"

text \<open>The host as the request gets it. \<open>None\<close> as the inner result: it is refused.\<close>

definition host_form :: "url_config \<Rightarrow> string \<Rightarrow> string option option" where
  "host_form cfg host = do {
     let host = map xtolower host;
     let host = (if stringHasWhitespace host \<and> uc_uri_whitespace cfg = URI_WHITESPACE_STRIP
                 then filter (\<lambda>c. \<not> isspace c) host else host);
     let valid = (if uc_allow_underscore cfg then valid_hostname_chars_u else valid_hostname_chars);
     if uc_check_hostnames cfg \<and> length (takeWhile (\<lambda>c. c \<in> set valid) host) \<noteq> length host then Some None
     else do {
       host \<leftarrow> append_domain cfg host;
       let host = strip_dots host;
       if strstr host ''..'' \<noteq> None \<or> (host \<noteq> [] \<and> hd host = CHR ''.'') then Some None
       else Some (Some host) } }"

text \<open>The path as the request gets it, with the size of the static array of \<open>rfc1738_escape_unescaped\<close>.\<close>

definition path_form :: "url_config \<Rightarrow> nat option \<Rightarrow> string \<Rightarrow> (string option \<times> nat option) option" where
  "path_form cfg esc urlpath =
     (if \<not> stringHasWhitespace urlpath then Some (Some urlpath, esc)
      else if uc_uri_whitespace cfg = URI_WHITESPACE_DENY then Some (None, esc)
      else if uc_uri_whitespace cfg = URI_WHITESPACE_ALLOW then Some (Some urlpath, esc)
      else if uc_uri_whitespace cfg = URI_WHITESPACE_ENCODE then do {
        (t, n) \<leftarrow> rfc1738_escape_unescaped esc urlpath;
        Some (Some (take (MAX_URL - 1) t), Some n) }
      else if uc_uri_whitespace cfg = URI_WHITESPACE_CHOP then Some (Some (takeWhile (\<lambda>c. c \<notin> set w_space) urlpath), esc)
      else Some (Some (filter (\<lambda>c. \<not> isspace c) urlpath), esc))"

text \<open>\<open>urlParse\<close>: the request, the caller's URL, and the size of the static array. The request holds at most 255 characters
  of the host and 127 of the login.\<close>

definition urlParse ::
  "url_config \<Rightarrow> nat option \<Rightarrow> method_t \<Rightarrow> string \<Rightarrow> (request_t option \<times> string \<times> nat option) option" where
  "urlParse cfg esc method url =
     (if MAX_URL - 1 < length url + appendDomainLen cfg
      then do { c_assert (MAX_URL div 2 \<le> length url); Some (None, take (MAX_URL div 2) url, esc) }
      else if method \<noteq> METHOD_CONNECT \<and> take 4 url = ''urn:'' then do { r \<leftarrow> urnParse method url; Some (Some r, url, esc) }
      else do {
        parts \<leftarrow> (if method = METHOD_CONNECT then connect_parts url else url_parts url);
        case parts of
          None \<Rightarrow> Some (None, url, esc)
        | Some (protocol, login, host, port, urlpath) \<Rightarrow> do {
            host \<leftarrow> host_form cfg host;
            case host of
              None \<Rightarrow> Some (None, url, esc)
            | Some host \<Rightarrow>
                if port < 1 \<or> 65535 < port then Some (None, url, esc)
                else do {
                  (urlpath, esc) \<leftarrow> path_form cfg esc urlpath;
                  case urlpath of
                    None \<Rightarrow> Some (None, url, esc)
                  | Some urlpath \<Rightarrow> do {
                      request \<leftarrow> requestCreate method protocol urlpath;
                      Some (Some (request\<lparr>r_host := take (SQUIDHOSTNAMELEN - 1) host, r_login := take (MAX_LOGIN_SZ - 1) login,
                              r_port := port mod 65536\<rparr>), url, esc) } } } })"

subsection \<open>The URL for the log\<close>

text \<open>The parts are copied one after the other until the array is full.\<close>

definition stringHasCntl :: "string \<Rightarrow> bool" where
  "stringHasCntl s \<longleftrightarrow> (\<exists>c \<in> set s. byte_of c \<le> 0x1F \<or> (0x7F \<le> byte_of c \<and> byte_of c \<le> 0x9F))"

definition urlCanonicalClean :: "url_config \<Rightarrow> nat option \<Rightarrow> request_t \<Rightarrow> (string \<times> nat option) option" where
  "urlCanonicalClean cfg esc request = do {
     buf \<leftarrow>
       (if r_protocol request = PROTO_URN then Some (take (MAX_URL - 1) (''urn:'' @ r_urlpath request))
        else if r_method request = METHOD_CONNECT
        then Some (take (MAX_URL - 1) (r_host request @ '':'' @ fmt_d (r_port request)))
        else do {
          let portbuf = (if r_port request \<noteq> urlDefaultPort (r_protocol request) then take 31 ('':'' @ fmt_d (r_port request)) else []);
          loginbuf \<leftarrow>
            (if r_login request \<noteq> []
             then do {
               l \<leftarrow> strcpy_into (MAX_LOGIN_SZ + 1) (r_login request);
               strcpy_into (MAX_LOGIN_SZ + 1) (takeWhile (\<lambda>c. c \<noteq> CHR '':'') l @ ''@'') }
             else Some []);
          let text = ProtocolStr (r_protocol request) @ ''://'' @ loginbuf @ r_host request @ portbuf @ r_urlpath request;
          let buf = take (MAX_URL - 1) text;
          Some (if uc_strip_query_terms cfg \<and> CHR ''?'' \<in> set buf then takeWhile (\<lambda>c. c \<noteq> CHR ''?'') buf @ ''?'' else buf) });
     if stringHasCntl buf then do {
       (t, n) \<leftarrow> rfc1738_escape_unescaped esc buf;
       Some (take (MAX_URL - 1) t, Some n) }
     else Some (buf, esc) }"

subsection \<open>Hosts and domains\<close>

text \<open>A character at a position that may be negative: reading before the array aborts.\<close>

definition char_before :: "string \<Rightarrow> int \<Rightarrow> char option" where
  "char_before s i = (if 0 \<le> i \<and> i < int (length s) then Some (s ! nat i) else None)"

text \<open>The loop of \<open>matchDomainName\<close>; the host starts at position \<open>k\<close> of \<open>h\<close>, behind its leading dots.\<close>

function match_loop :: "string \<Rightarrow> nat \<Rightarrow> string \<Rightarrow> int \<Rightarrow> int \<Rightarrow> int option" where
  "match_loop h k d hl dl = do {
     a \<leftarrow> char_before h (int k + (hl - 1));
     b \<leftarrow> char_before d (dl - 1);
     let hl = hl - 1;
     let dl = dl - 1;
     if xtolower a = xtolower b then
       (if hl = 0 \<and> dl = 0 then Some 0
        else if hl = 0 then Some (if dl = 1 \<and> take 1 d = ''.'' then 0 else - 1)
        else if dl = 0 then Some (if take 1 d = ''.'' then 0 else 1)
        else match_loop h k d hl dl)
     else if b = CHR ''.'' then Some 1
     else if a = CHR ''.'' then Some (- 1)
     else Some (int (byte_of (xtolower a)) - int (byte_of (xtolower b))) }"
  by pat_completeness auto
termination by (relation "measure (\<lambda>(h, k, d, hl, dl). nat dl)") (auto simp: char_before_def split: if_splits)

declare match_loop.simps [simp del]

definition matchDomainName :: "string \<Rightarrow> string \<Rightarrow> int option" where
  "matchDomainName h d =
     (let k = length (takeWhile (\<lambda>c. c = CHR ''.'') h)
      in match_loop h k d (int (length h) - int k) (int (length d)))"

text \<open>The examples that the program checks when it starts.\<close>

definition urlInitialize :: "unit option" where
  "urlInitialize = do {
     let zero = (\<lambda>h d. matchDomainName h d = Some 0);
     let sign = (\<lambda>h d. map_option sgn (matchDomainName h d));
     c_assert (zero ''foo.com'' ''foo.com'');
     c_assert (zero ''.foo.com'' ''foo.com'');
     c_assert (zero ''foo.com'' ''.foo.com'');
     c_assert (zero ''.foo.com'' ''.foo.com'');
     c_assert (zero ''x.foo.com'' ''.foo.com'');
     c_assert (\<not> zero ''x.foo.com'' ''foo.com'');
     c_assert (\<not> zero ''foo.com'' ''x.foo.com'');
     c_assert (\<not> zero ''bar.com'' ''foo.com'');
     c_assert (\<not> zero ''.bar.com'' ''foo.com'');
     c_assert (\<not> zero ''.bar.com'' ''.foo.com'');
     c_assert (\<not> zero ''bar.com'' ''.foo.com'');
     c_assert (sign ''zzz.com'' ''foo.com'' = Some 1);
     c_assert (sign ''aaa.com'' ''foo.com'' = Some (- 1));
     c_assert (zero ''FOO.com'' ''foo.COM'');
     c_assert (sign ''bfoo.com'' ''afoo.com'' = Some 1);
     c_assert (sign ''afoo.com'' ''bfoo.com'' = Some (- 1));
     c_assert (sign ''x-foo.com'' ''.foo.com'' = Some 1) }"

definition urlCheckRequest :: "request_t \<Rightarrow> bool" where
  "urlCheckRequest r =
     (if r_method r = METHOD_CONNECT \<or> r_method r = METHOD_TRACE \<or> r_method r = METHOD_PURGE then True
      else case r_protocol r of
        PROTO_URN \<Rightarrow> True | PROTO_HTTP \<Rightarrow> True | PROTO_INTERNAL \<Rightarrow> True | PROTO_CACHEOBJ \<Rightarrow> True
      | PROTO_FTP \<Rightarrow> r_method r = METHOD_PUT \<or> r_method r = METHOD_GET \<or> r_method r = METHOD_HEAD
      | PROTO_GOPHER \<Rightarrow> r_method r = METHOD_GET \<or> r_method r = METHOD_HEAD
      | PROTO_WAIS \<Rightarrow> r_method r = METHOD_GET \<or> r_method r = METHOD_HEAD
      | PROTO_WHOIS \<Rightarrow> r_method r = METHOD_GET \<or> r_method r = METHOD_HEAD
      | _ \<Rightarrow> False)"

definition urlHostname :: "string \<Rightarrow> string option" where
  "urlHostname url =
     (if CHR '':'' \<notin> set url then None
      else
        let t = drop 1 (dropWhile (\<lambda>c. c \<noteq> CHR '':'') url);
            t = dropWhile (\<lambda>c. c = CHR ''/'') t;
            host = take (SQUIDHOSTNAMELEN - 1) t;
            host = takeWhile (\<lambda>c. c \<noteq> CHR ''/'') host;
            host = takeWhile (\<lambda>c. c \<noteq> CHR '':'') host
        in Some (case split_last (CHR ''@'') host of None \<Rightarrow> host | Some (_, h) \<Rightarrow> h))"

text \<open>The array that is left by \<open>url_convert_hex\<close>; a string of less than three characters is returned as it is.\<close>

fun convert_hex :: "string \<Rightarrow> string" where
  "convert_hex (c # a # b # s) =
     (if c = CHR ''%'' then char_of (nat (strtol16 [a, b] mod 256)) # convert_hex s else c # convert_hex (a # b # s))"
| "convert_hex s = s"

definition url_convert_hex :: "string \<Rightarrow> string" where
  "url_convert_hex url = (if length url < 3 \<or> CHR ''%'' \<notin> set url then url else takeWhile (\<lambda>c. c \<noteq> NUL) (convert_hex url))"

subsection \<open>Extension methods\<close>

definition ext_method_free :: "rms_t list \<Rightarrow> method_t \<Rightarrow> bool" where
  "ext_method_free methods m \<longleftrightarrow> take 4 (fst (methods ! m)) = ''%EXT''"

definition urlExtMethodAdd :: "rms_t list \<Rightarrow> string \<Rightarrow> rms_t list" where
  "urlExtMethodAdd methods mstr =
     (case find_method (\<lambda>m. fst (methods ! m) = mstr \<or> ext_method_free methods m) 1 of
        None \<Rightarrow> methods
      | Some m \<Rightarrow> if fst (methods ! m) = mstr then methods else methods[m := (mstr, length mstr)])"

definition free_extension_method :: "rms_t list \<Rightarrow> rms_t list" where
  "free_extension_method methods =
     map (\<lambda>m. if METHOD_EXT00 \<le> m \<and> m < METHOD_ENUM_END \<and> take 1 (fst (methods ! m)) \<noteq> ''%''
              then let s = ''%EXT_'' @ fmt_0d 2 (int m - int METHOD_EXT00) in (s, length s) else methods ! m)
       [0..<length methods]"

subsection \<open>Lemmas: hosts and domains\<close>

text \<open>The rule of the comment in the source, on names in lower case and hosts without leading dots.\<close>

definition domain_rule :: "string \<Rightarrow> string \<Rightarrow> bool" where
  "domain_rule h d \<longleftrightarrow> h = d \<or> (hd d = CHR ''.'' \<and> ((\<exists>p. h = p @ d) \<or> h = tl d))"

lemma xtolower_dot [simp]: "xtolower c = CHR ''.'' \<longleftrightarrow> c = CHR ''.''"
proof
  assume l: "xtolower c = CHR ''.''"
  show "c = CHR ''.''"
  proof (cases "65 \<le> byte_of c \<and> byte_of c \<le> 90")
    case True
    then have "byte_of (xtolower c) = byte_of c + 32" by (simp add: xtolower_def)
    with l True show ?thesis by simp
  next
    case False with l show ?thesis by (simp add: xtolower_def Let_def split: if_splits)
  qed
next
  show "c = CHR ''.'' \<Longrightarrow> xtolower c = CHR ''.''" by (simp add: xtolower_def)
qed

lemma byte_inj: "byte_of a = byte_of b \<longleftrightarrow> a = b"
  by (simp add: of_char_eq_iff)

lemma domain_rule_snoc:
  "domain_rule (H @ [a]) [b] \<longleftrightarrow> a = b \<and> (H = [] \<or> b = CHR ''.'')"
  "D \<noteq> [] \<Longrightarrow> domain_rule [a] (D @ [b]) \<longleftrightarrow> a = b \<and> D = ''.''"
  "H \<noteq> [] \<Longrightarrow> D \<noteq> [] \<Longrightarrow> domain_rule (H @ [a]) (D @ [b]) \<longleftrightarrow> a = b \<and> domain_rule H D"
proof -
  show "domain_rule (H @ [a]) [b] \<longleftrightarrow> a = b \<and> (H = [] \<or> b = CHR ''.'')" by (auto simp: domain_rule_def)
  show "D \<noteq> [] \<Longrightarrow> domain_rule [a] (D @ [b]) \<longleftrightarrow> a = b \<and> D = ''.''"
    by (cases D) (auto simp: domain_rule_def Cons_eq_append_conv)
  show "H \<noteq> [] \<Longrightarrow> D \<noteq> [] \<Longrightarrow> domain_rule (H @ [a]) (D @ [b]) \<longleftrightarrow> a = b \<and> domain_rule H D"
    by (auto simp: domain_rule_def)
qed

lemma match_loop_snoc:
  assumes "h = P @ H @ S" "length P = k" "d = D @ T" and H: "H = H' @ [a]" and D: "D = D' @ [b]"
  shows "match_loop h k d (int (length H)) (int (length D)) =
      (if xtolower a = xtolower b then
         (if H' = [] \<and> D' = [] then Some 0
          else if H' = [] then Some (if length D' = 1 \<and> hd (D' @ [b]) = CHR ''.'' then 0 else - 1)
          else if D' = [] then Some (if hd (D' @ [b]) = CHR ''.'' then 0 else 1)
          else match_loop h k d (int (length H')) (int (length D')))
       else if b = CHR ''.'' then Some 1
       else if a = CHR ''.'' then Some (- 1)
       else Some (int (byte_of (xtolower a)) - int (byte_of (xtolower b))))"
proof -
  have a: "char_before h (int k + int (length H')) = Some a"
    using assms(1,2) by (simp add: char_before_def H nth_append nat_add_distrib flip: of_nat_add)
  have b: "char_before d (int (length D')) = Some b" using assms(3) by (simp add: char_before_def D)
  have t: "take 1 d = ''.'' \<longleftrightarrow> hd (D' @ [b]) = CHR ''.''" using assms(3) by (cases D') (simp_all add: D)
  have m: "int (length H) - 1 = int (length H')" "int (length D) - 1 = int (length D')" by (simp_all add: H D)
  show ?thesis
    by (subst match_loop.simps) (simp only: m a b t Let_def bind.bind_lunit of_nat_eq_0_iff of_nat_eq_1_iff length_0_conv)
qed

lemma match_loop_rule:
  assumes "h = P @ H @ S" "length P = k" "d = D @ T" "H \<noteq> []" "D \<noteq> []"
  shows "\<exists>r. match_loop h k d (int (length H)) (int (length D)) = Some r \<and> (r = 0 \<longleftrightarrow> domain_rule (map xtolower H) (map xtolower D))"
  using assms
proof (induction "length D" arbitrary: H D S T)
  case 0 then show ?case by simp
next
  case (Suc n)
  obtain H' a where H: "H = H' @ [a]" using Suc.prems(4) by (cases H rule: rev_cases) auto
  obtain D' b where D: "D = D' @ [b]" using Suc.prems(5) by (cases D rule: rev_cases) auto
  note step = match_loop_snoc [OF Suc.prems(1-3) H D]
  show ?case
  proof (cases "xtolower a = xtolower b")
    case False
    have "int (byte_of (xtolower a)) - int (byte_of (xtolower b)) \<noteq> 0" using False byte_inj [of "xtolower a" "xtolower b"] by linarith
    moreover have "\<not> domain_rule (map xtolower H) (map xtolower D)"
      using False domain_rule_snoc(1) [of "map xtolower H'" "xtolower a" "xtolower b"]
        domain_rule_snoc(2) [of "map xtolower D'" "xtolower a" "xtolower b"]
        domain_rule_snoc(3) [of "map xtolower H'" "map xtolower D'" "xtolower a" "xtolower b"]
      by (cases "H' = []"; cases "D' = []") (auto simp: H D)
    ultimately show ?thesis unfolding step using False by simp
  next
    case eq: True
    show ?thesis
    proof (cases "H' = [] \<or> D' = []")
      case True
      then consider "H' = []" "D' = []" | "H' = []" "D' \<noteq> []" | "H' \<noteq> []" "D' = []" by blast
      then show ?thesis
      proof cases
        case 1 then show ?thesis unfolding step using eq by (simp add: H D domain_rule_def)
      next
        case 2
        then have "domain_rule (map xtolower H) (map xtolower D) \<longleftrightarrow> D' = ''.''"
          using domain_rule_snoc(2) [of "map xtolower D'" "xtolower a" "xtolower b"] eq by (auto simp: H D)
        moreover have "D' = ''.'' \<longleftrightarrow> length D' = 1 \<and> hd (D' @ [b]) = CHR ''.''" using 2 by (cases D') auto
        ultimately show ?thesis unfolding step using eq 2 by simp
      next
        case 3
        then show ?thesis unfolding step using eq domain_rule_snoc(1) [of "map xtolower H'" "xtolower a" "xtolower b"] by (simp add: H D)
      qed
    next
      case False
      then have "\<exists>r. match_loop h k d (int (length H')) (int (length D')) = Some r \<and> (r = 0 \<longleftrightarrow> domain_rule (map xtolower H') (map xtolower D'))"
        using Suc.hyps(2) Suc.prems(1-3) by (intro Suc.hyps(1) [of D' H' "a # S" "b # T"]) (auto simp: H D)
      then show ?thesis unfolding step using eq False domain_rule_snoc(3) [of "map xtolower H'" "map xtolower D'" "xtolower a" "xtolower b"]
        by (simp add: H D)
    qed
  qed
qed

text \<open>C18: Hosts are matched with domains by the rule that is documented. For a host with a character other than a dot, and a
  domain that is not empty, \<open>matchDomainName\<close> reads inside both strings, and returns 0 exactly if, without
  regard to case and to leading dots of the host, they are equal, or the domain starts with a dot and the host
  ends with the domain or is the rest of it.\<close>
theorem domain_match_rule:
  assumes "dropWhile (\<lambda>c. c = CHR ''.'') h \<noteq> []" "d \<noteq> []"
  shows "\<exists>r. matchDomainName h d = Some r \<and>
    (r = 0 \<longleftrightarrow> domain_rule (map xtolower (dropWhile (\<lambda>c. c = CHR ''.'') h)) (map xtolower d))"
proof -
  let ?P = "takeWhile (\<lambda>c. c = CHR ''.'') h" and ?H = "dropWhile (\<lambda>c. c = CHR ''.'') h"
  have "int (length h) - int (length ?P) = int (length ?H)"
    by (metis add_diff_cancel_left' length_append of_nat_add takeWhile_dropWhile_id)
  then show ?thesis using match_loop_rule [of h ?P ?H "[]" "length ?P" d d "[]"] assms by (simp add: matchDomainName_def Let_def)
qed

lemma urlInitialize_ok: "urlInitialize = Some ()"
  by code_simp

text \<open>An empty host, which \<open>urlParse\<close> accepts, makes the matching read before the start of the host.\<close>

lemma empty_host_overread: "matchDomainName [] (c # d) = None"
  by (simp add: matchDomainName_def match_loop.simps [of "[]"] char_before_def)

subsection \<open>Lemmas: parsing\<close>

lemma strcpy_into_ok [simp]: "length s < n \<Longrightarrow> strcpy_into n s = Some s"
  by (simp add: strcpy_into_def)

lemma length_split_last:
  "split_last c s = Some (a, b) \<Longrightarrow> length a \<le> length s \<and> length b \<le> length s"
  using length_dropWhile_le [of "\<lambda>x. x \<noteq> c" "rev s"] length_takeWhile_le [of "\<lambda>x. x \<noteq> c" "rev s"]
  unfolding split_last_def by (auto split: if_splits)

lemma connect_parts_ok:
  assumes "length url < MAX_URL"
  shows "\<exists>r. connect_parts url = Some r \<and>
    (case r of None \<Rightarrow> True | Some (proto, login, host, port, path) \<Rightarrow> login = [] \<and> length host \<le> length url \<and> path = [])"
proof -
  have "length (takeWhile (\<lambda>c. c \<noteq> CHR '':'') url) < MAX_URL" using assms length_takeWhile_le le_less_trans by blast
  then show ?thesis by (simp add: connect_parts_def Let_def length_takeWhile_le)
qed

lemma url_parts_ok:
  assumes "length url < MAX_URL"
  shows "\<exists>r. url_parts url = Some r \<and>
    (case r of None \<Rightarrow> True | Some (proto, login, host, port, path) \<Rightarrow> length login \<le> length url \<and> length host \<le> length url \<and>
      (\<exists>t. path = CHR ''/'' # t) \<and> length path < MAX_URL)"
proof -
  define proto where "proto = takeWhile (\<lambda>c. c \<noteq> CHR '':'') url"
  define src where "src = drop (length proto) url"
  define host0 where "host0 = takeWhile (\<lambda>c. c \<noteq> CHR ''/'') (drop 3 src)"
  define rest where "rest = drop (length host0) (drop 3 src)"
  define path0 where "path0 = takeWhile (\<lambda>c. c \<noteq> CHR 0x0D \<and> c \<noteq> CHR 0x0A \<and> c \<noteq> NUL) rest"
  define path where "path = (if path0 = [] then ''/'' else path0)"
  have lp: "length proto < MAX_URL" using assms length_takeWhile_le le_less_trans unfolding proto_def by blast
  have lh: "length host0 \<le> length url" unfolding host0_def by (rule le_trans [OF length_takeWhile_le]) (simp add: src_def)
  then have lh': "length host0 < MAX_URL" using assms by simp
  have "length path0 \<le> length rest" unfolding path0_def by (rule length_takeWhile_le)
  also have "length rest \<le> length url" by (simp add: rest_def src_def)
  finally have l0: "length path0 < MAX_URL" using assms by simp
  have ps: "length path < MAX_URL" using l0 by (simp add: path_def MAX_URL_def)
  have "rest = dropWhile (\<lambda>c. c \<noteq> CHR ''/'') (drop 3 src)" unfolding rest_def host0_def by (rule dropWhile_eq_drop [symmetric])
  then have hd: "rest \<noteq> [] \<Longrightarrow> hd rest = CHR ''/''" using hd_dropWhile [of "\<lambda>c. c \<noteq> CHR ''/''" "drop 3 src"] by metis
  have "path0 = [] \<or> (\<exists>t. path0 = CHR ''/'' # t)"
  proof (cases rest)
    case Nil then show ?thesis by (simp add: path0_def)
  next
    case (Cons c cs) then show ?thesis using hd by (simp add: path0_def)
  qed
  then have pt: "\<exists>t. path = CHR ''/'' # t" by (auto simp: path_def)
  have tw0: "takeWhile (\<lambda>c. c \<noteq> CHR 0x0D \<and> c \<noteq> CHR 0x0A \<and> c \<noteq> NUL) (drop (length host0 + 3) src) = path0"
    unfolding path0_def rest_def by (simp add: add.commute)
  have one: "Suc 0 < MAX_URL" by (simp add: MAX_URL_def)
  show ?thesis
  proof (cases "src = [] \<or> take 3 src \<noteq> ''://''")
    case True then show ?thesis by (auto simp: url_parts_def Let_def proto_def src_def)
  next
    case False
    have u: "url_parts url = do {
           (login, host) \<leftarrow>
             (case split_last (CHR ''@'') host0 of
                None \<Rightarrow> Some ([], host0)
              | Some (l, h) \<Rightarrow> do { _ \<leftarrow> strcpy_into MAX_URL host0; h \<leftarrow> strcpy_into MAX_URL h; Some (l, h) });
           let (host, port) =
             (case split_last (CHR '':'') host of
                None \<Rightarrow> (host, urlDefaultPort (urlParseProtocol proto))
              | Some (h, t) \<Rightarrow> (h, if t \<noteq> [] then atoi_gnu t else urlDefaultPort (urlParseProtocol proto)));
           Some (Some (urlParseProtocol proto, login, host, port, path)) }"
      unfolding url_parts_def Let_def proto_def [symmetric] src_def [symmetric] using False
      by (cases "path0 = []") (simp_all add: lp lh' host0_def [symmetric] tw0 path_def l0 one)
    obtain login host where lg: "(case split_last (CHR ''@'') host0 of
                None \<Rightarrow> Some ([], host0)
              | Some (l, h) \<Rightarrow> do { _ \<leftarrow> strcpy_into MAX_URL host0; h \<leftarrow> strcpy_into MAX_URL h; Some (l, h) }) = Some (login, host)"
      "length login \<le> length url" "length host \<le> length url"
    proof (cases "split_last (CHR ''@'') host0")
      case None then show ?thesis using that [of "[]" host0] lh by simp
    next
      case (Some x)
      then obtain l h where x: "split_last (CHR ''@'') host0 = Some (l, h)" by (cases x) auto
      from length_split_last [OF x] lh lh' x show ?thesis using that [of l h] by simp
    qed
    show ?thesis
    proof (cases "split_last (CHR '':'') host")
      case None then show ?thesis unfolding u lg(1) using lg(2,3) pt ps by simp
    next
      case (Some x)
      then obtain h t where x: "split_last (CHR '':'') host = Some (h, t)" by (cases x) auto
      from length_split_last [OF x] lg(3) have "length h \<le> length url" by simp
      then show ?thesis unfolding u lg(1) using lg(2) pt ps x by simp
    qed
  qed
qed

definition host_ok :: "url_config \<Rightarrow> string \<Rightarrow> bool" where
  "host_ok cfg h \<longleftrightarrow> (h = [] \<or> (hd h \<noteq> CHR ''.'' \<and> last h \<noteq> CHR ''.'')) \<and> strstr h ''..'' = None \<and>
     (uc_appendDomain cfg = None \<longrightarrow> (\<forall>c \<in> set h. c \<in> range xtolower) \<and>
        (uc_check_hostnames cfg \<longrightarrow> (\<forall>c \<in> set h. c \<in> set valid_hostname_chars_u)))"

lemma strip_dots_ends: "strip_dots s = [] \<or> last (strip_dots s) \<noteq> CHR ''.''"
proof -
  have "dropWhile (\<lambda>c. c = CHR ''.'') (rev s) = [] \<or> hd (dropWhile (\<lambda>c. c = CHR ''.'') (rev s)) \<noteq> CHR ''.''"
    using hd_dropWhile [of "\<lambda>c. c = CHR ''.''" "rev s"] by auto
  then show ?thesis by (auto simp: strip_dots_def last_rev)
qed

lemma strip_dots_sub: "c \<in> set (strip_dots s) \<Longrightarrow> c \<in> set s"
  by (auto simp: strip_dots_def dest: set_dropWhileD)

lemma append_domain_ok:
  assumes "length h + appendDomainLen cfg < MAX_URL"
  shows "\<exists>h'. append_domain cfg h = Some h' \<and> (uc_appendDomain cfg = None \<longrightarrow> h' = h)"
proof (cases "uc_appendDomain cfg")
  case None then show ?thesis by (simp add: append_domain_def)
next
  case (Some d)
  have "length (h @ take n d) < MAX_URL" for n using assms Some by (simp add: appendDomainLen_def)
  then show ?thesis using Some by (simp add: append_domain_def)
qed

lemma full_takeWhile: "length (takeWhile P xs) = length xs \<Longrightarrow> \<forall>x \<in> set xs. P x"
  by (induction xs) (auto split: if_splits)

lemma host_form_ok:
  assumes "length h + appendDomainLen cfg < MAX_URL"
  shows "\<exists>r. host_form cfg h = Some r \<and> (case r of None \<Rightarrow> True | Some h \<Rightarrow> host_ok cfg h)"
proof -
  define h1 where "h1 = (let h = map xtolower h in if stringHasWhitespace h \<and> uc_uri_whitespace cfg = URI_WHITESPACE_STRIP
    then filter (\<lambda>c. \<not> isspace c) h else h)"
  define valid where "valid = (if uc_allow_underscore cfg then valid_hostname_chars_u else valid_hostname_chars)"
  have h1: "h1 = map xtolower h \<or> h1 = filter (\<lambda>c. \<not> isspace c) (map xtolower h)" unfolding h1_def Let_def by (simp only: split: if_split) blast
  have "length h1 \<le> length h" using h1
  proof
    assume "h1 = map xtolower h" then show ?thesis by (simp only: length_map order_refl)
  next
    assume e: "h1 = filter (\<lambda>c. \<not> isspace c) (map xtolower h)"
    show ?thesis unfolding e using length_filter_le [of "\<lambda>c. \<not> isspace c" "map xtolower h"] unfolding length_map .
  qed
  then have l1: "length h1 + appendDomainLen cfg < MAX_URL" using assms by simp
  obtain h2 where h2': "append_domain cfg h1 = Some h2 \<and> (uc_appendDomain cfg = None \<longrightarrow> h2 = h1)"
    using append_domain_ok [OF l1] by (elim exE)
  have h2: "append_domain cfg h1 = Some h2" "uc_appendDomain cfg = None \<longrightarrow> h2 = h1" using h2' by simp_all
  have low: "\<forall>c \<in> set h1. c \<in> range xtolower" using h1 by (elim disjE) (simp_all only: set_map set_filter, blast+)
  have f: "host_form cfg h = (if uc_check_hostnames cfg \<and> length (takeWhile (\<lambda>c. c \<in> set valid) h1) \<noteq> length h1 then Some None
     else if strstr (strip_dots h2) ''..'' \<noteq> None \<or> (strip_dots h2 \<noteq> [] \<and> hd (strip_dots h2) = CHR ''.'') then Some None
       else Some (Some (strip_dots h2)))"
    unfolding host_form_def Let_def h1_def [unfolded Let_def, symmetric] valid_def [symmetric] h2(1) bind.bind_lunit by (rule refl)
  have sub: "set valid \<subseteq> set valid_hostname_chars_u" unfolding valid_def valid_hostname_chars_u_def valid_hostname_chars_def by auto
  have tw: "length (takeWhile (\<lambda>c. c \<in> set valid) h1) = length h1 \<Longrightarrow> \<forall>c \<in> set h1. c \<in> set valid"
    by (rule full_takeWhile)
  show ?thesis
  proof (cases "(uc_check_hostnames cfg \<and> length (takeWhile (\<lambda>c. c \<in> set valid) h1) \<noteq> length h1) \<or>
      strstr (strip_dots h2) ''..'' \<noteq> None \<or> (strip_dots h2 \<noteq> [] \<and> hd (strip_dots h2) = CHR ''.'')")
    case True then show ?thesis unfolding f by auto
  next
    case False
    define s2 where "s2 = strip_dots h2"
    have s1: "s2 = [] \<or> last s2 \<noteq> CHR ''.''" unfolding s2_def by (rule strip_dots_ends)
    have s3: "uc_appendDomain cfg = None \<Longrightarrow> \<forall>c \<in> set s2. c \<in> set h1" using h2(2) strip_dots_sub [of _ h2] by (simp add: s2_def)
    note F = False [folded s2_def]
    have "uc_appendDomain cfg = None \<Longrightarrow> \<forall>c \<in> set s2. c \<in> range xtolower" using s3 low by blast
    moreover have "uc_appendDomain cfg = None \<Longrightarrow> uc_check_hostnames cfg \<Longrightarrow> \<forall>c \<in> set s2. c \<in> set valid_hostname_chars_u"
      using s3 tw sub F by blast
    moreover have "s2 = [] \<or> hd s2 \<noteq> CHR ''.''" "strstr s2 ''..'' = None" using F by blast+
    ultimately have "host_ok cfg s2" using s1 unfolding host_ok_def by blast
    then show ?thesis using F unfolding f s2_def [symmetric] by (simp only: de_Morgan_disj de_Morgan_conj if_False not_not simp_thms) simp
  qed
qed

lemma path_form_ok:
  assumes "\<forall>n. esc = Some n \<longrightarrow> n mod 3 = 1" "length path < MAX_URL"
  shows "\<exists>r esc'. path_form cfg esc path = Some (r, esc') \<and> (\<forall>n. esc' = Some n \<longrightarrow> n mod 3 = 1) \<and>
    (case r of None \<Rightarrow> True | Some p \<Rightarrow> length p < MAX_URL \<and> (uc_uri_whitespace cfg \<noteq> URI_WHITESPACE_ALLOW \<longrightarrow> \<not> stringHasWhitespace p) \<and>
      (\<forall>t. path = CHR ''/'' # t \<longrightarrow> (\<exists>u. p = CHR ''/'' # u)))"
proof -
  obtain n where n: "rfc1738_escape_unescaped esc path = Some (escaped (- 1) path, n)" "n mod 3 = 1"
    using do_escape_ok [OF assms(1)] unfolding rfc1738_escape_unescaped_def by blast
  have esc1: "\<not> stringHasWhitespace (take (MAX_URL - 1) (escaped (- 1) path))"
  proof -
    have "\<forall>c \<in> set w_space. do_escape (- 1) c" by code_simp
    then show ?thesis unfolding stringHasWhitespace_def using escaped_plain [of _ "- 1" path] by (meson in_set_takeD)
  qed
  have sl: "\<not> do_escape (- 1) (CHR ''/'')" "CHR ''/'' \<notin> set w_space" "\<not> isspace (CHR ''/'')" by code_simp+
  have tk: "take (MAX_URL - Suc 0) (CHR ''/'' # xs) = CHR ''/'' # take 8190 xs" for xs :: string by (simp add: MAX_URL_def)
  have tw: "\<not> stringHasWhitespace (takeWhile (\<lambda>c. c \<notin> set w_space) path)"
    by (auto simp: stringHasWhitespace_def dest: set_takeWhileD)
  have "\<forall>c \<in> set w_space. isspace c" by code_simp
  then have fl: "\<not> stringHasWhitespace (filter (\<lambda>c. \<not> isspace c) path)" by (auto simp: stringHasWhitespace_def)
  have lt: "length (takeWhile (\<lambda>c. c \<notin> set w_space) path) < MAX_URL" "length (filter (\<lambda>c. \<not> isspace c) path) < MAX_URL"
    using assms(2) length_takeWhile_le le_less_trans length_filter_le by blast+
  have "length (take (MAX_URL - 1) (escaped (- 1) path)) < MAX_URL" by (simp add: MAX_URL_def)
  then show ?thesis using assms n esc1 tw fl lt sl(1-3)
    by (auto simp: path_form_def tk split: if_splits)
qed

text \<open>What a request holds that \<open>urlParse\<close> made.\<close>

definition parsed_request_ok :: "url_config \<Rightarrow> method_t \<Rightarrow> request_t \<Rightarrow> bool" where
  "parsed_request_ok cfg method r \<longleftrightarrow> r_method r = method \<and> r_canonical r = None \<and>
     (r_protocol r = PROTO_URN \<and> r_host r = [] \<or>
      1 \<le> r_port r \<and> r_port r \<le> 65535 \<and> length (r_login r) < MAX_LOGIN_SZ \<and>
      (\<exists>h. host_ok cfg h \<and> r_host r = take (SQUIDHOSTNAMELEN - 1) h) \<and>
      (uc_uri_whitespace cfg \<noteq> URI_WHITESPACE_ALLOW \<longrightarrow> \<not> stringHasWhitespace (r_urlpath r)) \<and>
      (if method = METHOD_CONNECT then r_urlpath r = [] else \<exists>t. r_urlpath r = CHR ''/'' # t))"

text \<open>C16: No URL makes the parser fail. For every text and every configuration whose domain has less than 4096 characters,
  \<open>urlParse\<close> returns, and stores nothing outside its arrays. A request that it makes is a URN without a host, or
  it has a port between 1 and 65535; a host that is one in lower case without dots at its ends or beside each
  other, of legal characters if that is checked, or the first 255 characters of such a one; and a path that
  starts with a slash, empty for CONNECT, with white space only if that is allowed.\<close>
theorem url_parse_safe:
  assumes "appendDomainLen cfg < 4096" "\<forall>n. esc = Some n \<longrightarrow> n mod 3 = 1"
  shows "\<exists>r url' esc'. urlParse cfg esc method url = Some (r, url', esc') \<and> (\<forall>n. esc' = Some n \<longrightarrow> n mod 3 = 1) \<and>
    (url' = url \<or> r = None \<and> url' = take 4096 url) \<and> (case r of None \<Rightarrow> True | Some r \<Rightarrow> parsed_request_ok cfg method r)"
proof (cases "MAX_URL - 1 < length url + appendDomainLen cfg")
  case True
  then have "MAX_URL div 2 \<le> length url" using assms(1) by (simp add: MAX_URL_def)
  moreover have "MAX_URL div 2 = 4096" by (simp add: MAX_URL_def)
  ultimately show ?thesis using True assms(2) by (simp add: urlParse_def)
next
  case short: False
  then have l: "length url + appendDomainLen cfg < MAX_URL" "length url < MAX_URL" by (auto simp: MAX_URL_def)
  show ?thesis
  proof (cases "method \<noteq> METHOD_CONNECT \<and> take 4 url = ''urn:''")
    case True
    then show ?thesis using short l(2) assms(2)
      by (auto simp: urlParse_def urnParse_def requestCreate_def stringLimitInit_def parsed_request_ok_def MAX_URL_def)
  next
    case nourn: False
    define parts where "parts = (if method = METHOD_CONNECT then connect_parts url else url_parts url)"
    obtain q where q: "parts = Some q" "case q of None \<Rightarrow> True | Some (proto, login, host, port, path) \<Rightarrow> length host \<le> length url \<and>
        length path < MAX_URL \<and> (if method = METHOD_CONNECT then path = [] else \<exists>t. path = CHR ''/'' # t)"
    proof (cases "method = METHOD_CONNECT")
      case True
      then show ?thesis using connect_parts_ok [OF l(2)] that by (fastforce simp: parts_def MAX_URL_def split: option.splits)
    next
      case False
      then show ?thesis using url_parts_ok [OF l(2)] that by (fastforce simp: parts_def split: option.splits)
    qed
    note step = urlParse_def [of cfg esc "method" url, unfolded if_not_P [OF short] if_not_P [OF nourn] parts_def [symmetric] q(1) bind.bind_lunit]
    show ?thesis
    proof (cases q)
      case None then show ?thesis unfolding step using assms(2) by simp
    next
      case (Some x)
      then obtain proto login host port path where x: "q = Some (proto, login, host, port, path)" by (cases x) auto
      with q(2) have p: "length host \<le> length url" "length path < MAX_URL" "if method = METHOD_CONNECT then path = [] else \<exists>t. path = CHR ''/'' # t"
        by simp_all
      have "length host + appendDomainLen cfg < MAX_URL" using p(1) l(1) by simp
      from host_form_ok [OF this] obtain h where h: "host_form cfg host = Some h" "case h of None \<Rightarrow> True | Some h \<Rightarrow> host_ok cfg h" by blast
      from path_form_ok [OF assms(2) p(2), of cfg] obtain p' esc' where pf: "path_form cfg esc path = Some (p', esc')"
        "\<forall>n. esc' = Some n \<longrightarrow> n mod 3 = 1"
        "case p' of None \<Rightarrow> True | Some p' \<Rightarrow> length p' < MAX_URL \<and> (uc_uri_whitespace cfg \<noteq> URI_WHITESPACE_ALLOW \<longrightarrow> \<not> stringHasWhitespace p') \<and>
          (\<forall>t. path = CHR ''/'' # t \<longrightarrow> (\<exists>u. p' = CHR ''/'' # u))" by blast
      have nil: "method = METHOD_CONNECT \<Longrightarrow> path_form cfg esc path = Some (Some [], esc)"
        using p(3) by (simp add: path_form_def stringHasWhitespace_def)
      show ?thesis
      proof (cases "h = None \<or> port < 1 \<or> 65535 < port \<or> p' = None")
        case True
        then show ?thesis unfolding step x using assms(2) h(1) pf(1,2) by (cases h) (auto split: if_splits)
      next
        case False
        then obtain h' p'' where hp: "h = Some h'" "p' = Some p''" "1 \<le> port" "port \<le> 65535" by auto
        have "length p'' + 1 < 65536" using pf(3) hp(2) by (simp add: MAX_URL_def)
        then have rc: "requestCreate method proto p'' = Some \<lparr>r_method = method, r_protocol = proto, r_login = [], r_host = [], r_port = 0,
            r_urlpath = p'', r_canonical = None, r_store_url = None, r_cache_control = None, r_nocache = False, r_nocache_hack = False,
            r_cachable = False, r_vary_headers = None, r_vary_encoding = None, r_vary = None, r_urlgroup = None\<rparr>"
          by (simp add: requestCreate_def stringLimitInit_def)
        have port: "port mod 65536 = port" using hp(3,4) by simp
        have "method = METHOD_CONNECT \<Longrightarrow> p'' = []" using nil pf(1) hp(2) by simp
        moreover have "method \<noteq> METHOD_CONNECT \<Longrightarrow> \<exists>t. p'' = CHR ''/'' # t" using p(3) pf(3) hp(2) by auto
        moreover have "uc_uri_whitespace cfg \<noteq> URI_WHITESPACE_ALLOW \<longrightarrow> \<not> stringHasWhitespace p''" using pf(3) hp(2) by simp
        ultimately have "parsed_request_ok cfg method (\<lparr>r_method = method, r_protocol = proto, r_login = take (MAX_LOGIN_SZ - 1) login,
            r_host = take (SQUIDHOSTNAMELEN - 1) h', r_port = port,
            r_urlpath = p'', r_canonical = None, r_store_url = None, r_cache_control = None, r_nocache = False, r_nocache_hack = False,
            r_cachable = False, r_vary_headers = None, r_vary_encoding = None, r_vary = None, r_urlgroup = None\<rparr>)"
          using h(2) hp unfolding parsed_request_ok_def by auto
        then show ?thesis unfolding step x using h(1) pf(1,2) hp rc port by simp
      qed
    qed
  qed
qed

lemma domain_match_rule_witness:
  "\<exists>r. matchDomainName ''..WWW.Foo.com'' ''.foo.com'' = Some r \<and>
    (r = 0 \<longleftrightarrow> domain_rule (map xtolower (dropWhile (\<lambda>c. c = CHR ''.'') ''..WWW.Foo.com'')) (map xtolower ''.foo.com''))"
  by (rule domain_match_rule) simp_all

lemma url_parse_safe_witness:
  "\<exists>r url' esc'. urlParse \<lparr>uc_appendDomain = Some ''.local'', uc_uri_whitespace = 2, uc_check_hostnames = True, uc_allow_underscore = False,
      uc_strip_query_terms = True\<rparr> None METHOD_GET ''http://me@Host:81/a b'' = Some (r, url', esc') \<and> (\<forall>n. esc' = Some n \<longrightarrow> n mod 3 = 1) \<and>
    (url' = ''http://me@Host:81/a b'' \<or> r = None \<and> url' = take 4096 ''http://me@Host:81/a b'') \<and>
    (case r of None \<Rightarrow> True | Some r \<Rightarrow> parsed_request_ok \<lparr>uc_appendDomain = Some ''.local'', uc_uri_whitespace = 2,
      uc_check_hostnames = True, uc_allow_underscore = False, uc_strip_query_terms = True\<rparr> METHOD_GET r)"
  by (rule url_parse_safe) (simp_all add: appendDomainLen_def)

subsection \<open>Lemmas: the canonical form is parsed back\<close>

lemma split_last_at: "c \<notin> set b \<Longrightarrow> split_last c (a @ c # b) = Some (a, b)"
proof -
  assume "c \<notin> set b"
  then have all: "\<And>x. x \<in> set (rev b) \<Longrightarrow> x \<noteq> c" by auto
  have "takeWhile (\<lambda>x. x \<noteq> c) (rev b @ c # rev a) = rev b @ takeWhile (\<lambda>x. x \<noteq> c) (c # rev a)"
    by (rule takeWhile_append2) (rule all)
  moreover have "dropWhile (\<lambda>x. x \<noteq> c) (rev b @ c # rev a) = dropWhile (\<lambda>x. x \<noteq> c) (c # rev a)"
    by (rule dropWhile_append2) (rule all)
  ultimately show ?thesis by (simp add: split_last_def)
qed

lemma split_last_none: "c \<notin> set s \<Longrightarrow> split_last c s = None"
  by (simp add: split_last_def)

lemma urlParseProtocol_ProtocolStr:
  "p \<noteq> PROTO_NONE \<Longrightarrow> p \<noteq> PROTO_ICP \<Longrightarrow> urlParseProtocol (ProtocolStr p) = p"
proof -
  have "\<forall>p \<in> set [PROTO_HTTP, PROTO_FTP, PROTO_GOPHER, PROTO_WAIS, PROTO_CACHEOBJ, PROTO_URN, PROTO_WHOIS, PROTO_INTERNAL, PROTO_HTTPS].
      urlParseProtocol (ProtocolStr p) = p" by code_simp
  then show "p \<noteq> PROTO_NONE \<Longrightarrow> p \<noteq> PROTO_ICP \<Longrightarrow> urlParseProtocol (ProtocolStr p) = p" by (cases p) simp_all
qed

lemma ProtocolStr_colon: "CHR '':'' \<notin> set (ProtocolStr p)" by (cases p) simp_all

lemma isdigit_other: "isdigit c \<Longrightarrow> \<not> isspace c \<and> c \<noteq> CHR ''-'' \<and> c \<noteq> CHR ''+'' \<and> c \<noteq> CHR ''/'' \<and> c \<noteq> CHR '':'' \<and> c \<noteq> CHR ''@''"
  by (auto simp: isdigit_def isspace_def)

lemma atoi_gnu_dec: "n < 2 ^ 31 \<Longrightarrow> atoi_gnu (dec_of_nat n) = int n"
proof -
  assume n: "n < 2 ^ 31"
  obtain c cs where d: "dec_of_nat n = c # cs" by (cases "dec_of_nat n") auto
  have all: "\<forall>x \<in> set (dec_of_nat n). isdigit x" by (rule dec_of_nat_digits)
  then have c: "\<not> isspace c" "c \<noteq> CHR ''-''" "c \<noteq> CHR ''+''" using isdigit_other [of c] by (auto simp: d)
  have tw: "takeWhile isdigit (c # cs) = c # cs" using all unfolding d by (simp add: takeWhile_eq_all_conv)
  have v: "dec_val (c # cs) = n" unfolding d [symmetric] by simp
  have "strtol10 (c # cs) = Some (max (- (2 ^ 31)) (min (2 ^ 31 - 1) (int n)), dropWhile isdigit (c # cs))"
    unfolding strtol10_def Let_def using c by (simp only: dropWhile.simps if_False list.sel list.distinct simp_thms tw v)
  then show ?thesis using n by (simp add: atoi_gnu_def d)
qed

text \<open>A request whose URL says all of it.\<close>

definition plain_request :: "url_config \<Rightarrow> request_t \<Rightarrow> bool" where
  "plain_request cfg r \<longleftrightarrow> r_canonical r = None \<and> r_method r \<noteq> METHOD_CONNECT \<and> r_protocol r \<notin> {PROTO_NONE, PROTO_ICP, PROTO_URN} \<and>
     length (r_login r) < MAX_LOGIN_SZ \<and> CHR ''/'' \<notin> set (r_login r) \<and>
     length (r_host r) < SQUIDHOSTNAMELEN \<and>
     (\<forall>c \<in> set (r_host r). xtolower c = c \<and> c \<notin> set ''/:@'' \<and> c \<notin> set w_space) \<and>
     (uc_check_hostnames cfg \<longrightarrow> (\<forall>c \<in> set (r_host r). c \<in> set (if uc_allow_underscore cfg then valid_hostname_chars_u else valid_hostname_chars))) \<and>
     (uc_appendDomain cfg \<noteq> None \<longrightarrow> CHR ''.'' \<in> set (r_host r)) \<and>
     (r_host r = [] \<or> hd (r_host r) \<noteq> CHR ''.'' \<and> last (r_host r) \<noteq> CHR ''.'') \<and> strstr (r_host r) ''..'' = None \<and>
     1 \<le> r_port r \<and> r_port r \<le> 65535 \<and>
     (\<exists>t. r_urlpath r = CHR ''/'' # t) \<and>
     (\<forall>c \<in> set (r_urlpath r). c \<notin> {CHR 0x0D, CHR 0x0A, NUL} \<and> c \<notin> set w_space) \<and>
     length (url_text r) + appendDomainLen cfg < MAX_URL"

lemma host_form_plain:
  assumes "plain_request cfg r"
  shows "host_form cfg (r_host r) = Some (Some (r_host r))"
proof -
  have hc: "\<forall>c \<in> set (r_host r). xtolower c = c \<and> c \<notin> set ''/:@'' \<and> c \<notin> set w_space"
    using assms unfolding plain_request_def by (elim conjE)
  have low: "map xtolower (r_host r) = r_host r" using hc by (intro map_idI) simp
  have ws: "\<not> stringHasWhitespace (r_host r)" using hc unfolding stringHasWhitespace_def by blast
  have sd: "strip_dots (r_host r) = r_host r"
  proof (cases "r_host r = []")
    case True then show ?thesis by (simp add: strip_dots_def)
  next
    case False
    then obtain a b where ab: "r_host r = a @ [b]" by (metis append_butlast_last_id)
    have "r_host r = [] \<or> hd (r_host r) \<noteq> CHR ''.'' \<and> last (r_host r) \<noteq> CHR ''.''" using assms unfolding plain_request_def by (elim conjE)
    then have "last (r_host r) \<noteq> CHR ''.''" using False by simp
    then show ?thesis by (simp add: ab strip_dots_def)
  qed
  have ad: "append_domain cfg (r_host r) = Some (r_host r)"
    using assms unfolding plain_request_def append_domain_def by (cases "uc_appendDomain cfg") auto
  define valid where "valid = (if uc_allow_underscore cfg then valid_hostname_chars_u else valid_hostname_chars)"
  have "uc_check_hostnames cfg \<Longrightarrow> takeWhile (\<lambda>c. c \<in> set valid) (r_host r) = r_host r"
    using assms unfolding plain_request_def valid_def [symmetric] by (simp only: takeWhile_eq_all_conv) blast
  then have tw: "\<not> (uc_check_hostnames cfg \<and> length (takeWhile (\<lambda>c. c \<in> set valid) (r_host r)) \<noteq> length (r_host r))" by (metis (no_types))
  have nodd: "strstr (r_host r) ''..'' = None" using assms unfolding plain_request_def by (elim conjE)
  have ends: "r_host r = [] \<or> hd (r_host r) \<noteq> CHR ''.'' \<and> last (r_host r) \<noteq> CHR ''.''" using assms unfolding plain_request_def by (elim conjE)
  have dots: "\<not> (strstr (r_host r) ''..'' \<noteq> None \<or> (r_host r \<noteq> [] \<and> hd (r_host r) = CHR ''.''))"
    using nodd ends unfolding nodd by auto
  show ?thesis unfolding host_form_def Let_def low valid_def [symmetric]
    by (simp only: ws simp_thms if_False tw ad sd dots bind.bind_lunit)
qed

text \<open>What the text of a request is cut into.\<close>

lemma url_parts_plain:
  assumes "plain_request cfg r"
  shows "url_parts (url_text r) = Some (Some (r_protocol r, r_login r, r_host r, r_port r, r_urlpath r))"
proof -
  define ps where "ps = ProtocolStr (r_protocol r)"
  define pt where "pt = (if r_port r \<noteq> urlDefaultPort (r_protocol r) then CHR '':'' # dec_of_nat (nat (r_port r)) else [])"
  define hp where "hp = r_host r @ pt"
  define lh where "lh = r_login r @ (if r_login r \<noteq> [] then ''@'' else []) @ hp"
  have port: "1 \<le> r_port r" "r_port r \<le> 65535" using assms by (simp_all add: plain_request_def)
  have "length (dec_of_nat (nat (r_port r))) \<le> 5" using port by (intro length_dec_of_nat) simp_all
  then have pf: "(if r_port r \<noteq> urlDefaultPort (r_protocol r) then take 31 ('':'' @ fmt_d (r_port r)) else []) = pt"
    using port by (simp add: pt_def fmt_d_def)
  have tx: "url_text r = ps @ CHR '':'' # CHR ''/'' # CHR ''/'' # lh @ r_urlpath r"
    using assms unfolding url_text_def pf by (simp add: plain_request_def ps_def lh_def hp_def)
  have len: "length (url_text r) < MAX_URL" using assms by (simp add: plain_request_def)
  have ptc: "\<forall>c \<in> set pt. c \<noteq> CHR ''/'' \<and> c \<noteq> CHR ''@''"
    using dec_of_nat_digits [of "nat (r_port r)"] isdigit_other by (auto simp: pt_def)
  have host: "\<forall>c \<in> set (r_host r). c \<noteq> CHR ''/'' \<and> c \<noteq> CHR ''@'' \<and> c \<noteq> CHR '':''" using assms by (simp add: plain_request_def)
  have hpc: "\<forall>c \<in> set hp. c \<noteq> CHR ''/'' \<and> c \<noteq> CHR ''@''" using ptc host by (auto simp: hp_def)
  have lhc: "\<And>c. c \<in> set lh \<Longrightarrow> c \<noteq> CHR ''/''" using hpc assms by (auto simp: lh_def plain_request_def)
  have "\<exists>t. r_urlpath r = CHR ''/'' # t" using assms unfolding plain_request_def by (elim conjE)
  then obtain t where t: "r_urlpath r = CHR ''/'' # t" by (elim exE)
  have "\<forall>c \<in> set (r_urlpath r). c \<notin> {CHR 0x0D, CHR 0x0A, NUL} \<and> c \<notin> set w_space" using assms unfolding plain_request_def by (elim conjE)
  then have pw: "takeWhile (\<lambda>c. c \<noteq> CHR 0x0D \<and> c \<noteq> CHR 0x0A \<and> c \<noteq> NUL) (r_urlpath r) = r_urlpath r"
    unfolding takeWhile_eq_all_conv by simp
  have psw: "takeWhile (\<lambda>c. c \<noteq> CHR '':'') (url_text r) = ps"
    unfolding tx using ProtocolStr_colon [of "r_protocol r"] by (subst takeWhile_append2) (auto simp: ps_def)
  have lhw: "takeWhile (\<lambda>c. c \<noteq> CHR ''/'') (lh @ r_urlpath r) = lh" using lhc by (simp add: t takeWhile_append2)
  have up: "urlParseProtocol ps = r_protocol r" unfolding ps_def using assms by (intro urlParseProtocol_ProtocolStr) (auto simp: plain_request_def)
  have lens: "length ps < MAX_URL" "length lh < MAX_URL" "length hp < MAX_URL" "length (r_urlpath r) < MAX_URL"
    using len by (auto simp: tx lh_def)
  have ne: "r_urlpath r \<noteq> []" by (simp add: t)
  have login: "(case split_last (CHR ''@'') lh of None \<Rightarrow> Some ([], lh)
      | Some (l, h) \<Rightarrow> do { _ \<leftarrow> strcpy_into MAX_URL lh; h \<leftarrow> strcpy_into MAX_URL h; Some (l, h) }) = Some (r_login r, hp)"
  proof (cases "r_login r = []")
    case True
    then have "lh = hp" by (simp add: lh_def)
    moreover have "split_last (CHR ''@'') hp = None" using hpc by (intro split_last_none) blast
    ultimately show ?thesis using True by simp
  next
    case False
    then have "lh = r_login r @ CHR ''@'' # hp" by (simp add: lh_def)
    then have "split_last (CHR ''@'') lh = Some (r_login r, hp)" using hpc split_last_at [of "CHR ''@''" hp] by auto
    then show ?thesis using lens by simp
  qed
  have ports: "(case split_last (CHR '':'') hp of None \<Rightarrow> (hp, urlDefaultPort (r_protocol r))
      | Some (h, t) \<Rightarrow> (h, if t \<noteq> [] then atoi_gnu t else urlDefaultPort (r_protocol r))) = (r_host r, r_port r)"
  proof (cases "r_port r = urlDefaultPort (r_protocol r)")
    case True
    then have "hp = r_host r" by (simp add: hp_def pt_def)
    moreover have "split_last (CHR '':'') (r_host r) = None" using host by (intro split_last_none) blast
    ultimately show ?thesis using True by simp
  next
    case False
    then have e: "hp = r_host r @ CHR '':'' # dec_of_nat (nat (r_port r))" by (simp add: hp_def pt_def)
    have "split_last (CHR '':'') hp = Some (r_host r, dec_of_nat (nat (r_port r)))" unfolding e
      using dec_of_nat_digits [of "nat (r_port r)"] isdigit_other by (intro split_last_at) blast
    moreover have "nat (r_port r) < 2 ^ 31" using port by simp
    ultimately show ?thesis using port atoi_gnu_dec [of "nat (r_port r)"] by simp
  qed
  have src: "drop (length ps) (url_text r) = CHR '':'' # CHR ''/'' # CHR ''/'' # lh @ r_urlpath r" by (simp add: tx)
  show ?thesis unfolding url_parts_def Let_def psw src
    using lens ne by (simp add: numeral_3_eq_3 lhw pw login ports [folded up] up)
qed

text \<open>C17: A URL that the proxy writes is read back. The request is not CONNECT, and its protocol is none of URN, ICP and the
  unknown one; its login, if any, is short and has no slash; its host has at most 255 characters and is of the
  form that the parser leaves alone (lower case, no separators and white space, no dots at its ends or beside
  each other, legal characters if these are checked, a dot if a domain would be appended otherwise); its port is in range; its
  path starts with a slash and has no white space or line end; and its text fits. Then \<open>urlParse\<close> of the text of
  \<open>urlCanonical\<close> gives the protocol, login, host, port and path of the request, and the text again.\<close>
theorem url_canonical_reparsed:
  assumes "plain_request cfg r"
  shows "\<exists>r'. urlParse cfg esc (r_method r) (fst (urlCanonical r)) = Some (Some r', fst (urlCanonical r), esc) \<and>
    r_method r' = r_method r \<and> r_protocol r' = r_protocol r \<and> r_login r' = r_login r \<and> r_host r' = r_host r \<and> r_port r' = r_port r \<and>
    r_urlpath r' = r_urlpath r \<and> fst (urlCanonical r') = fst (urlCanonical r)"
proof -
  have len: "length (url_text r) + appendDomainLen cfg < MAX_URL" "length (url_text r) < MAX_URL" using assms by (simp_all add: plain_request_def)
  have "length (url_text r) \<le> MAX_URL - 1" using len(2) by simp
  then have tk: "take (MAX_URL - Suc 0) (url_text r) = url_text r" by simp
  have can: "fst (urlCanonical r) = url_text r" using assms by (simp add: plain_request_def urlCanonical_def Let_def tk)
  have m: "r_method r \<noteq> METHOD_CONNECT" and pr: "r_protocol r \<noteq> PROTO_URN" and port: "1 \<le> r_port r" "r_port r \<le> 65535"
    and fits: "length (r_login r) < MAX_LOGIN_SZ" "length (r_host r) < SQUIDHOSTNAMELEN"
    using assms by (simp_all add: plain_request_def)
  have nourn: "take 4 (url_text r) \<noteq> ''urn:''"
  proof -
    have "\<And>X. p \<noteq> PROTO_URN \<Longrightarrow> take 4 (ProtocolStr p @ ''://'' @ X) \<noteq> ''urn:''" for p by (cases p) (simp_all add: numeral_eq_Suc)
    then show ?thesis using m pr unfolding url_text_def by simp
  qed
  have path: "path_form cfg esc (r_urlpath r) = Some (Some (r_urlpath r), esc)"
  proof -
    have "\<forall>c \<in> set (r_urlpath r). c \<notin> {CHR 0x0D, CHR 0x0A, NUL} \<and> c \<notin> set w_space" using assms unfolding plain_request_def by (elim conjE)
    then have "\<not> stringHasWhitespace (r_urlpath r)" unfolding stringHasWhitespace_def by blast
    then show ?thesis by (simp add: path_form_def)
  qed
  have "length (r_urlpath r) \<le> length (url_text r)" using m pr by (simp add: url_text_def)
  then have "length (r_urlpath r) + 1 < 65536" using len(2) by (simp add: MAX_URL_def)
  then have rc: "requestCreate (r_method r) (r_protocol r) (r_urlpath r) = Some \<lparr>r_method = r_method r, r_protocol = r_protocol r, r_login = [],
      r_host = [], r_port = 0, r_urlpath = r_urlpath r, r_canonical = None, r_store_url = None, r_cache_control = None, r_nocache = False,
      r_nocache_hack = False, r_cachable = False, r_vary_headers = None, r_vary_encoding = None, r_vary = None, r_urlgroup = None\<rparr>"
    by (simp add: requestCreate_def stringLimitInit_def)
  have "port' mod 65536 = port'" if "port' = r_port r" for port' using port that by simp
  then have "urlParse cfg esc (r_method r) (url_text r) = Some (Some \<lparr>r_method = r_method r, r_protocol = r_protocol r, r_login = r_login r,
      r_host = r_host r, r_port = r_port r, r_urlpath = r_urlpath r, r_canonical = None, r_store_url = None, r_cache_control = None, r_nocache = False,
      r_nocache_hack = False, r_cachable = False, r_vary_headers = None, r_vary_encoding = None, r_vary = None, r_urlgroup = None\<rparr>, url_text r, esc)"
    using len m nourn port fits by (simp add: urlParse_def url_parts_plain [OF assms] host_form_plain [OF assms] path rc)
  moreover have "url_text (\<lparr>r_method = r_method r, r_protocol = r_protocol r, r_login = r_login r,
      r_host = r_host r, r_port = r_port r, r_urlpath = r_urlpath r, r_canonical = None, r_store_url = None, r_cache_control = None, r_nocache = False,
      r_nocache_hack = False, r_cachable = False, r_vary_headers = None, r_vary_encoding = None, r_vary = None, r_urlgroup = None\<rparr>) = url_text r" by (simp add: url_text_def)
  then have "fst (urlCanonical (\<lparr>r_method = r_method r, r_protocol = r_protocol r, r_login = r_login r,
      r_host = r_host r, r_port = r_port r, r_urlpath = r_urlpath r, r_canonical = None, r_store_url = None, r_cache_control = None, r_nocache = False,
      r_nocache_hack = False, r_cachable = False, r_vary_headers = None, r_vary_encoding = None, r_vary = None, r_urlgroup = None\<rparr>)) = url_text r"
    by (simp add: urlCanonical_def Let_def tk)
  ultimately show ?thesis unfolding can by (intro exI conjI) (assumption, simp_all)
qed

lemma url_canonical_reparsed_witness:
  "\<exists>cfg r r'. r_urlpath r = ''/a?b'' \<and>
    urlParse cfg None (r_method r) (fst (urlCanonical r)) = Some (Some r', fst (urlCanonical r), None) \<and> r_urlpath r' = r_urlpath r"
proof -
  define cfg where "cfg = \<lparr>uc_appendDomain = None, uc_uri_whitespace = 4, uc_check_hostnames = True, uc_allow_underscore = False,
      uc_strip_query_terms = True\<rparr>"
  define r where "r = \<lparr>r_method = METHOD_GET, r_protocol = PROTO_HTTP, r_login = ''me'', r_host = ''www.foo.com'', r_port = 81, r_urlpath = ''/a?b'',
      r_canonical = None, r_store_url = None, r_cache_control = None, r_nocache = False,
      r_nocache_hack = False, r_cachable = False, r_vary_headers = None, r_vary_encoding = None, r_vary = None, r_urlgroup = None\<rparr>"
  have u: "url_text r = ''http://me@www.foo.com:81/a?b''" unfolding r_def by code_simp
  have h: "\<forall>c \<in> set ''www.foo.com''. xtolower c = c \<and> c \<notin> set ''/:@'' \<and> c \<notin> set w_space \<and> c \<in> set valid_hostname_chars" by code_simp
  have p: "\<forall>c \<in> set ''/a?b''. c \<notin> {CHR 0x0D, CHR 0x0A, NUL} \<and> c \<notin> set w_space" by code_simp
  have "plain_request cfg r" unfolding plain_request_def u using h p
    by (simp add: r_def cfg_def appendDomainLen_def MAX_URL_def numeral_eq_Suc)
  from url_canonical_reparsed [OF this, of None] obtain r' where
    "urlParse cfg None (r_method r) (fst (urlCanonical r)) = Some (Some r', fst (urlCanonical r), None)" "r_urlpath r' = r_urlpath r" by blast
  moreover have "r_urlpath r = ''/a?b''" by (simp add: r_def)
  ultimately show ?thesis by blast
qed

end
