(* ===== verification/BinHeap.thy ===== *)
theory BinHeap
  imports Prelude "HOL-Library.Multiset"
begin

section \<open>The binary heap behind the heap replacement policies (lib/heap.c)\<close>

text \<open>
  An array of pointers to nodes, each of which knows its position. The nodes are in a memory
  of their own, \<open>hp_mem\<close>; \<open>None\<close> in the array is \<open>NULL\<close> or an uninitialised slot. Keys are
  \<open>double\<close>s in the source; the model works for any linearly ordered type, which excludes NaN.
  The loops that restore the order follow the positions stored in the nodes and are partial
  functions; the lemmas show that they end on every well-formed heap.
\<close>

record ('k, 'd) heap_node =
  hn_key :: 'k
  hn_id :: nat
  hn_data :: 'd

record ('k, 'd) heap =
  hp_nodes :: "addr option list"
  hp_size :: nat
  hp_last :: nat
  hp_gen_key :: "'d \<Rightarrow> 'k \<Rightarrow> 'k"
  hp_age :: 'k
  hp_mem :: "addr \<Rightarrow> ('k, 'd) heap_node option"
  hp_brk :: addr

definition Left :: "nat \<Rightarrow> nat" where "Left x = 2 * x + 1"
definition Right :: "nat \<Rightarrow> nat" where "Right x = 2 * x + 2"
definition Parent :: "nat \<Rightarrow> nat" where "Parent x = (x - 1) div 2"
definition Threshold :: nat where "Threshold = 10000"
definition MinSize :: nat where "MinSize = 32"

subsection \<open>Private functions\<close>

definition heap_node_exist :: "('k, 'd) heap \<Rightarrow> nat \<Rightarrow> bool option" where
  "heap_node_exist hp i =
     (if hp_last hp \<le> i then Some False
      else do { p \<leftarrow> arr_get (hp_nodes hp) i; Some (p \<noteq> None) })"

definition node_at :: "('k, 'd) heap \<Rightarrow> nat \<Rightarrow> (addr \<times> ('k, 'd) heap_node) option" where
  "node_at hp i = do {
     p \<leftarrow> arr_get (hp_nodes hp) i;
     a \<leftarrow> p;
     n \<leftarrow> hp_mem hp a;
     Some (a, n) }"

definition heap_swap_element :: "('k, 'd) heap \<Rightarrow> addr \<Rightarrow> addr \<Rightarrow> ('k, 'd) heap option" where
  "heap_swap_element hp elm1 elm2 = do {
     n1 \<leftarrow> hp_mem hp elm1;
     n2 \<leftarrow> hp_mem hp elm2;
     let elm1Id = hn_id n1;
     let m = (hp_mem hp)(elm1 \<mapsto> n1\<lparr>hn_id := hn_id n2\<rparr>);
     n2 \<leftarrow> m elm2;
     let m = m(elm2 \<mapsto> n2\<lparr>hn_id := elm1Id\<rparr>);
     n1 \<leftarrow> m elm1;
     n2 \<leftarrow> m elm2;
     ns \<leftarrow> arr_set (hp_nodes hp) (hn_id n1) (Some elm1);
     ns \<leftarrow> arr_set ns (hn_id n2) (Some elm2);
     Some (hp\<lparr>hp_nodes := ns, hp_mem := m\<rparr>) }"

text \<open>The smaller of the children of position \<open>i\<close>, if there is one.\<close>

definition smaller_kid :: "('k::linorder, 'd) heap \<Rightarrow> nat \<Rightarrow> (addr \<times> ('k, 'd) heap_node) option option" where
  "smaller_kid hp i = do {
     l \<leftarrow> heap_node_exist hp (Left i);
     r \<leftarrow> heap_node_exist hp (Right i);
     if \<not> l then do { c_assert (\<not> r); Some None }
     else if \<not> r then do { k \<leftarrow> node_at hp (Left i); Some (Some k) }
     else do {
       kr \<leftarrow> node_at hp (Right i);
       kl \<leftarrow> node_at hp (Left i);
       Some (Some (if hn_key (snd kr) < hn_key (snd kl) then kr else kl)) } }"

partial_function (option) heap_ify_down :: "('k::linorder, 'd) heap \<Rightarrow> addr \<Rightarrow> ('k, 'd) heap option" where
  "heap_ify_down hp elm = do {
     n \<leftarrow> hp_mem hp elm;
     kid \<leftarrow> smaller_kid hp (hn_id n);
     case kid of
       None \<Rightarrow> Some hp
     | Some (k, kn) \<Rightarrow>
         if hn_key n \<le> hn_key kn then Some hp
         else do { hp \<leftarrow> heap_swap_element hp k elm; heap_ify_down hp elm } }"

partial_function (option) heap_ify_up :: "('k::linorder, 'd) heap \<Rightarrow> addr \<Rightarrow> ('k, 'd) heap option" where
  "heap_ify_up hp elm = do {
     n \<leftarrow> hp_mem hp elm;
     if 0 < hn_id n
     then do {
       (p, pn) \<leftarrow> node_at hp (Parent (hn_id n));
       if hn_key pn \<le> hn_key n then Some hp
       else do { hp \<leftarrow> heap_swap_element hp p elm; heap_ify_up hp elm } }
     else Some hp }"

definition heap_should_grow :: "('k, 'd) heap \<Rightarrow> bool" where
  "heap_should_grow hp \<longleftrightarrow> hp_size hp \<le> hp_last hp"

text \<open>\<open>size * 1.5\<close> is a \<open>double\<close> product converted back to \<open>int\<close>.\<close>

definition heap_grow :: "('k, 'd) heap \<Rightarrow> ('k, 'd) heap" where
  "heap_grow hp =
     (let newSize = (if Threshold < hp_size hp then hp_size hp * 3 div 2 else hp_size hp * 2)
      in hp\<lparr>hp_nodes := hp_nodes hp @ replicate (newSize - hp_size hp) None, hp_size := newSize\<rparr>)"

subsection \<open>Public functions\<close>

definition new_heap :: "int \<Rightarrow> ('d \<Rightarrow> 'k \<Rightarrow> 'k) \<Rightarrow> 'k \<Rightarrow> ('k, 'd) heap" where
  "new_heap initSize gen_key zero =
     (let n = (if initSize \<le> 0 then MinSize else nat initSize)
      in \<lparr>hp_nodes = replicate n None, hp_size = n, hp_last = 0, hp_gen_key = gen_key, hp_age = zero,
          hp_mem = (\<lambda>_. None), hp_brk = 1\<rparr>)"

definition heap_gen_key :: "('k, 'd) heap \<Rightarrow> 'd \<Rightarrow> 'k" where
  "heap_gen_key hp dat = hp_gen_key hp dat (hp_age hp)"

definition heap_insert :: "('k::linorder, 'd) heap \<Rightarrow> 'd \<Rightarrow> (addr \<times> ('k, 'd) heap) option" where
  "heap_insert hp dat = do {
     let elm = hp_brk hp;
     let key = heap_gen_key hp dat;
     let hp = (if heap_should_grow hp then heap_grow hp else hp);
     ns \<leftarrow> arr_set (hp_nodes hp) (hp_last hp) (Some elm);
     let hp = hp\<lparr>hp_nodes := ns, hp_brk := elm + 1, hp_last := hp_last hp + 1,
                 hp_mem := (hp_mem hp)(elm \<mapsto> \<lparr>hn_key = key, hn_id = hp_last hp, hn_data = dat\<rparr>)\<rparr>;
     hp \<leftarrow> heap_ify_up hp elm;
     Some (elm, hp) }"

definition heap_extractlast :: "('k, 'd) heap \<Rightarrow> ('d \<times> ('k, 'd) heap) option" where
  "heap_extractlast hp = do {
     c_assert (0 < hp_last hp);
     ex \<leftarrow> heap_node_exist hp (hp_last hp - 1);
     c_assert ex;
     (a, n) \<leftarrow> node_at hp (hp_last hp - 1);
     Some (hn_data n, hp\<lparr>hp_last := hp_last hp - 1, hp_mem := (hp_mem hp)(a := None)\<rparr>) }"

text \<open>Restoring the order around a node whose key is new for its place.\<close>

definition heap_fix :: "('k::linorder, 'd) heap \<Rightarrow> addr \<Rightarrow> ('k, 'd) heap option" where
  "heap_fix hp elm = do {
     n \<leftarrow> hp_mem hp elm;
     (_, pn) \<leftarrow> node_at hp (Parent (hn_id n));
     hp \<leftarrow> (if hn_key n < hn_key pn then heap_ify_up hp elm else Some hp);
     heap_ify_down hp elm }"

definition heap_delete :: "('k::linorder, 'd) heap \<Rightarrow> addr \<Rightarrow> ('d \<times> ('k, 'd) heap) option" where
  "heap_delete hp elm = do {
     n \<leftarrow> hp_mem hp elm;
     let data = hn_data n;
     c_assert (0 < hp_last hp);
     ex \<leftarrow> heap_node_exist hp (hp_last hp - 1);
     c_assert ex;
     (lastNode, _) \<leftarrow> node_at hp (hp_last hp - 1);
     hp \<leftarrow> heap_swap_element hp lastNode elm;
     (_, hp) \<leftarrow> heap_extractlast hp;
     hp \<leftarrow> (if elm = lastNode then Some hp
            else if 0 < hp_last hp then heap_fix hp lastNode else Some hp);
     Some (data, hp) }"

definition heap_extractmin :: "('k::linorder, 'd) heap \<Rightarrow> ('d option \<times> ('k, 'd) heap) option" where
  "heap_extractmin hp =
     (if hp_last hp = 0 then Some (None, hp)
      else do {
        (root, n) \<leftarrow> node_at hp 0;
        (_, hp) \<leftarrow> heap_delete hp root;
        Some (Some (hn_data n), hp) })"

definition heap_update :: "('k::linorder, 'd) heap \<Rightarrow> addr \<Rightarrow> 'd \<Rightarrow> ('d \<times> ('k, 'd) heap) option" where
  "heap_update hp elm dat = do {
     n \<leftarrow> hp_mem hp elm;
     let ky = heap_gen_key hp dat;
     hp \<leftarrow> heap_fix (hp\<lparr>hp_mem := (hp_mem hp)(elm \<mapsto> n\<lparr>hn_key := ky, hn_data := dat\<rparr>)\<rparr>) elm;
     Some (hn_data n, hp) }"

definition heap_peep :: "('k, 'd) heap \<Rightarrow> nat \<Rightarrow> 'd option" where
  "heap_peep hp i = do {
     ex \<leftarrow> heap_node_exist hp i;
     c_assert ex;
     (_, n) \<leftarrow> node_at hp i;
     Some (hn_data n) }"

definition heap_peepkey :: "('k, 'd) heap \<Rightarrow> nat \<Rightarrow> 'k option" where
  "heap_peepkey hp i = do {
     ex \<leftarrow> heap_node_exist hp i;
     c_assert ex;
     (_, n) \<leftarrow> node_at hp i;
     Some (hn_key n) }"

definition heap_peepmin :: "('k, 'd) heap \<Rightarrow> 'd option" where
  "heap_peepmin hp = heap_peep hp 0"

definition heap_peepminkey :: "('k, 'd) heap \<Rightarrow> 'k option" where
  "heap_peepminkey hp = heap_peepkey hp 0"

definition heap_nodes :: "('k, 'd) heap \<Rightarrow> nat" where
  "heap_nodes hp = hp_last hp"

definition heap_empty :: "('k, 'd) heap \<Rightarrow> bool" where
  "heap_empty hp \<longleftrightarrow> hp_last hp = 0"

subsection \<open>The nodes of a heap, in array order\<close>

definition heap_rep :: "('k, 'd) heap \<Rightarrow> addr list \<Rightarrow> bool" where
  "heap_rep hp as \<longleftrightarrow>
     hp_last hp = length as \<and> length (hp_nodes hp) = hp_size hp \<and> length as \<le> hp_size hp \<and> 0 < hp_size hp \<and>
     (\<forall>i < length as. hp_nodes hp ! i = Some (as ! i) \<and> (\<exists>n. hp_mem hp (as ! i) = Some n \<and> hn_id n = i)) \<and>
     dom (hp_mem hp) = set as \<and> (\<forall>a \<in> set as. a < hp_brk hp)"

text \<open>Key and data of a node, and its key.\<close>

definition node_kd :: "('k, 'd) heap \<Rightarrow> addr \<Rightarrow> 'k \<times> 'd" where
  "node_kd hp a = (hn_key (the (hp_mem hp a)), hn_data (the (hp_mem hp a)))"

abbreviation node_key :: "('k, 'd) heap \<Rightarrow> addr \<Rightarrow> 'k" where
  "node_key hp a \<equiv> fst (node_kd hp a)"

text \<open>Two heaps that differ in the arrangement of their nodes only.\<close>

definition same_nodes :: "('k, 'd) heap \<Rightarrow> ('k, 'd) heap \<Rightarrow> bool" where
  "same_nodes hp hp' \<longleftrightarrow> node_kd hp' = node_kd hp \<and> hp_gen_key hp' = hp_gen_key hp \<and> hp_age hp' = hp_age hp \<and>
     hp_brk hp' = hp_brk hp"

lemma same_nodes_refl [simp]: "same_nodes hp hp"
  by (simp add: same_nodes_def)

lemma same_nodes_trans: "same_nodes hp hp1 \<Longrightarrow> same_nodes hp1 hp2 \<Longrightarrow> same_nodes hp hp2"
  by (simp add: same_nodes_def)

lemma rep_node:
  assumes "heap_rep hp as" "i < length as"
  shows "\<exists>n. hp_mem hp (as ! i) = Some n \<and> hn_id n = i \<and> hn_key n = node_key hp (as ! i) \<and>
    hn_data n = snd (node_kd hp (as ! i)) \<and> node_at hp i = Some (as ! i, n)"
  using assms by (fastforce simp: heap_rep_def node_kd_def node_at_def arr_get_def)

lemma rep_distinct: "heap_rep hp as \<Longrightarrow> distinct as"
  unfolding heap_rep_def distinct_conv_nth by (metis option.inject)

lemma rep_exist: "heap_rep hp as \<Longrightarrow> heap_node_exist hp i = Some (i < length as)"
  by (auto simp: heap_rep_def heap_node_exist_def arr_get_def)

definition swap_at :: "'a list \<Rightarrow> nat \<Rightarrow> nat \<Rightarrow> 'a list" where
  "swap_at as i j = as[i := as ! j, j := as ! i]"

lemma length_swap_at [simp]: "length (swap_at as i j) = length as"
  by (simp add: swap_at_def)

lemma nth_swap: "i < length as \<Longrightarrow> j < length as \<Longrightarrow> k < length as \<Longrightarrow>
    swap_at as i j ! k = (if k = i then as ! j else if k = j then as ! i else as ! k)"
  by (auto simp: swap_at_def nth_list_update)

lemma mset_swap_at: "i < length as \<Longrightarrow> j < length as \<Longrightarrow> mset (swap_at as i j) = mset as"
  unfolding swap_at_def by (rule mset_swap)

lemma set_swap: "i < length as \<Longrightarrow> j < length as \<Longrightarrow> set (swap_at as i j) = set as"
  using mset_swap_at mset_eq_setD by blast

lemma swap_element_rep:
  assumes rep: "heap_rep hp as" and ij: "i < length as" "j < length as"
  shows "\<exists>hp'. heap_swap_element hp (as ! i) (as ! j) = Some hp' \<and> heap_rep hp' (swap_at as i j) \<and> same_nodes hp hp' \<and>
    hp_size hp' = hp_size hp"
proof -
  obtain ni nj where n: "hp_mem hp (as ! i) = Some ni" "hn_id ni = i" "hp_mem hp (as ! j) = Some nj" "hn_id nj = j"
    using rep_node [OF rep ij(1)] rep_node [OF rep ij(2)] by auto
  have len: "length (hp_nodes hp) = hp_size hp" "i < hp_size hp" "j < hp_size hp" using rep ij by (auto simp: heap_rep_def)
  let ?m = "(hp_mem hp)(as ! i \<mapsto> ni\<lparr>hn_id := j\<rparr>, as ! j \<mapsto> nj\<lparr>hn_id := i\<rparr>)"
  let ?ns = "(hp_nodes hp)[j := Some (as ! i), i := Some (as ! j)]"
  let ?hp = "hp\<lparr>hp_nodes := ?ns, hp_mem := ?m\<rparr>"
  have d: "as ! i = as ! j \<longleftrightarrow> i = j" using rep_distinct [OF rep] ij by (simp add: nth_eq_iff_index_eq)
  have "heap_swap_element hp (as ! i) (as ! j) = Some ?hp"
    using n len d by (cases "i = j") (auto simp: heap_swap_element_def arr_simps)
  moreover have "heap_rep ?hp (swap_at as i j)"
  proof -
    have inj: "as ! k = as ! l \<longleftrightarrow> k = l" if "k < length as" "l < length as" for k l
      using rep_distinct [OF rep] that by (simp add: nth_eq_iff_index_eq)
    have "?ns ! k = Some (swap_at as i j ! k) \<and> (\<exists>nd. ?m (swap_at as i j ! k) = Some nd \<and> hn_id nd = k)" if "k < length as" for k
      using that rep ij len n unfolding nth_swap [OF ij that]
      by (auto simp: heap_rep_def nth_list_update inj)
    moreover have "dom ?m = set (swap_at as i j)" using rep ij set_swap [OF ij] by (auto simp: heap_rep_def)
    ultimately show ?thesis using rep set_swap [OF ij] by (simp add: heap_rep_def)
  qed
  moreover have "same_nodes hp ?hp" using n d by (auto simp: same_nodes_def node_kd_def fun_eq_iff)
  ultimately show ?thesis by auto
qed

subsection \<open>Heap order\<close>

text \<open>Over the keys \<open>g\<close> of the positions below \<open>n\<close>: the order, the order but for a key that
  may be too small at \<open>i\<close> or too large at \<open>i\<close>, and the order but for both.\<close>

definition hord :: "(nat \<Rightarrow> 'k::linorder) \<Rightarrow> nat \<Rightarrow> bool" where
  "hord g n \<longleftrightarrow> (\<forall>j. 0 < j \<and> j < n \<longrightarrow> g (Parent j) \<le> g j)"

definition bridged :: "(nat \<Rightarrow> 'k::linorder) \<Rightarrow> nat \<Rightarrow> nat \<Rightarrow> bool" where
  "bridged g n i \<longleftrightarrow> (\<forall>j. 0 < i \<and> 0 < j \<and> j < n \<and> Parent j = i \<longrightarrow> g (Parent i) \<le> g j)"

definition up_ok :: "(nat \<Rightarrow> 'k::linorder) \<Rightarrow> nat \<Rightarrow> nat \<Rightarrow> bool" where
  "up_ok g n i \<longleftrightarrow> i < n \<and> (\<forall>j. 0 < j \<and> j < n \<and> j \<noteq> i \<longrightarrow> g (Parent j) \<le> g j) \<and> bridged g n i"

definition down_ok :: "(nat \<Rightarrow> 'k::linorder) \<Rightarrow> nat \<Rightarrow> nat \<Rightarrow> bool" where
  "down_ok g n i \<longleftrightarrow> i < n \<and> (\<forall>j. 0 < j \<and> j < n \<and> Parent j \<noteq> i \<longrightarrow> g (Parent j) \<le> g j) \<and> bridged g n i"

definition near_ok :: "(nat \<Rightarrow> 'k::linorder) \<Rightarrow> nat \<Rightarrow> nat \<Rightarrow> bool" where
  "near_ok g n i \<longleftrightarrow> i < n \<and> (\<forall>j. 0 < j \<and> j < n \<and> j \<noteq> i \<and> Parent j \<noteq> i \<longrightarrow> g (Parent j) \<le> g j) \<and> bridged g n i"

lemma Parent_less: "0 < i \<Longrightarrow> Parent i < i"
  by (simp add: Parent_def)

lemma Parent_0 [simp]: "Parent 0 = 0"
  by (simp add: Parent_def)

lemma Parent_iff: "0 < j \<Longrightarrow> Parent j = i \<longleftrightarrow> j = Left i \<or> j = Right i"
  unfolding Parent_def Left_def Right_def by auto

lemma up_step:
  assumes up: "up_ok g n i" and i: "0 < i" and lt: "g i < g (Parent i)"
  shows "up_ok (g(Parent i := g i, i := g (Parent i))) n (Parent i)"
proof -
  let ?p = "Parent i" and ?g = "g(Parent i := g i, i := g (Parent i))"
  have p: "?p < i" using i by (rule Parent_less)
  have ord: "g (Parent j) \<le> g j" if "0 < j" "j < n" "j \<noteq> i" for j using up that by (simp add: up_ok_def)
  have br: "g ?p \<le> g j" if "0 < j" "j < n" "Parent j = i" for j using up that i by (auto simp: up_ok_def bridged_def)
  have "?g (Parent j) \<le> ?g j" if j: "0 < j" "j < n" "j \<noteq> ?p" for j
  proof (cases "j = i")
    case True
    then show ?thesis using lt p by simp
  next
    case False
    then show ?thesis using j ord [of j] br [of j] lt Parent_less [of j] p by auto
  qed
  moreover have "?g (Parent ?p) \<le> ?g j" if j: "0 < ?p" "0 < j" "j < n" "Parent j = ?p" for j
  proof -
    have pp: "Parent ?p < ?p" using j(1) by (rule Parent_less)
    then have "g (Parent ?p) \<le> g ?p" using ord [of ?p] j(1) p up by (simp add: up_ok_def)
    moreover have "g ?p \<le> g j" if "j \<noteq> i" using ord [of j] j that by simp
    ultimately show ?thesis using pp p j(4) Parent_less [OF j(2)] by auto
  qed
  ultimately show ?thesis using up p by (auto simp: up_ok_def bridged_def)
qed

lemma up_done: "up_ok g n i \<Longrightarrow> i = 0 \<or> g (Parent i) \<le> g i \<Longrightarrow> hord g n"
  by (auto simp: up_ok_def hord_def)

lemma down_step:
  assumes down: "down_ok g n i" and c: "0 < c" "c < n" "Parent c = i" and lt: "g c < g i"
    and least: "\<And>j. 0 < j \<Longrightarrow> j < n \<Longrightarrow> Parent j = i \<Longrightarrow> g c \<le> g j"
  shows "down_ok (g(c := g i, i := g c)) n c"
proof -
  let ?g = "g(c := g i, i := g c)"
  have i: "i < c" using Parent_less c by blast
  have ord: "g (Parent j) \<le> g j" if "0 < j" "j < n" "Parent j \<noteq> i" for j using down that by (simp add: down_ok_def)
  have br: "g (Parent i) \<le> g j" if "0 < i" "0 < j" "j < n" "Parent j = i" for j
    using down that by (auto simp: down_ok_def bridged_def)
  have "?g (Parent j) \<le> ?g j" if j: "0 < j" "j < n" "Parent j \<noteq> c" for j
  proof (cases "Parent j = i")
    case True
    then show ?thesis using least [of j] j lt i Parent_less [of j] by auto
  next
    case False
    then show ?thesis using ord [of j] j c br [of c] by (cases "j = i") auto
  qed
  moreover have "?g (Parent c) \<le> ?g j" if j: "0 < j" "j < n" "Parent j = c" for j
    using ord [of j] j i c(3) Parent_less [of j] by auto
  ultimately show ?thesis using c(2) by (auto simp: down_ok_def bridged_def)
qed

lemma down_done:
  "down_ok g n i \<Longrightarrow> (\<And>j. 0 < j \<Longrightarrow> j < n \<Longrightarrow> Parent j = i \<Longrightarrow> g i \<le> g j) \<Longrightarrow> hord g n"
  by (auto simp: down_ok_def hord_def)

lemma hord_down: "hord g n \<Longrightarrow> i < n \<Longrightarrow> down_ok g n i"
  unfolding hord_def down_ok_def bridged_def by (meson Parent_less less_trans order_trans)

lemma near_up: "near_ok g n i \<Longrightarrow> g i < g (Parent i) \<Longrightarrow> up_ok g n i"
  unfolding near_ok_def up_ok_def bridged_def
  by (metis Parent_0 bot_nat_0.not_eq_extremum less_irrefl less_le order_trans)

lemma near_down: "near_ok g n i \<Longrightarrow> \<not> g i < g (Parent i) \<Longrightarrow> down_ok g n i"
  unfolding near_ok_def down_ok_def by (metis not_le)

lemma hord_min: "hord g n \<Longrightarrow> j < n \<Longrightarrow> g 0 \<le> g j"
proof (induction j rule: less_induct)
  case (less j)
  show ?case
  proof (cases "j = 0")
    case False
    then have "g 0 \<le> g (Parent j)" using less Parent_less [of j] by simp
    also have "\<dots> \<le> g j" using less.prems False by (simp add: hord_def)
    finally show ?thesis .
  qed simp
qed

subsection \<open>The loops restore the order\<close>

definition keys :: "('k, 'd) heap \<Rightarrow> addr list \<Rightarrow> nat \<Rightarrow> 'k" where
  "keys hp as = (\<lambda>k. node_key hp (as ! k))"

lemma Parent_le: "Parent j \<le> j"
  by (simp add: Parent_def)

lemma ord_cong:
  assumes "\<And>k. k < n \<Longrightarrow> g k = g' k"
  shows "hord g n = hord g' n" "up_ok g n i = up_ok g' n i" "down_ok g n i = down_ok g' n i" "near_ok g n i = near_ok g' n i"
proof -
  have p: "g (Parent j) = g' (Parent j)" if "j < n" for j using assms that Parent_le [of j] by simp
  show "hord g n = hord g' n" using assms p by (auto simp: hord_def)
  have b: "bridged g n i = bridged g' n i" if "i < n" using assms p that by (auto simp: bridged_def)
  show "up_ok g n i = up_ok g' n i" "down_ok g n i = down_ok g' n i" "near_ok g n i = near_ok g' n i"
    using assms p b by (auto simp: up_ok_def down_ok_def near_ok_def)
qed

lemma keys_swap:
  "i < length as \<Longrightarrow> j < length as \<Longrightarrow> k < length as \<Longrightarrow>
    keys hp (swap_at as i j) k = ((keys hp as)(i := keys hp as j, j := keys hp as i)) k"
  by (auto simp: keys_def nth_swap)

lemma same_nodes_keys: "same_nodes hp hp' \<Longrightarrow> keys hp' as = keys hp as"
  by (simp add: same_nodes_def keys_def)

lemma swapped_ok:
  assumes "i < length as" "j < length as" "same_nodes hp hp'"
  shows "up_ok ((keys hp as)(i := keys hp as j, j := keys hp as i)) (length as) k \<Longrightarrow>
      up_ok (keys hp' (swap_at as i j)) (length (swap_at as i j)) k"
    "down_ok ((keys hp as)(i := keys hp as j, j := keys hp as i)) (length as) k \<Longrightarrow>
      down_ok (keys hp' (swap_at as i j)) (length (swap_at as i j)) k"
  unfolding same_nodes_keys [OF assms(3)] length_swap_at
  using ord_cong(2,3) [of "length as" "keys hp (swap_at as i j)" "(keys hp as)(i := keys hp as j, j := keys hp as i)" k,
    OF keys_swap [OF assms(1,2)]] by (simp_all only:)

text \<open>What a loop gives: the same nodes, rearranged in heap order.\<close>

definition reordered :: "('k::linorder, 'd) heap \<Rightarrow> addr list \<Rightarrow> ('k, 'd) heap option \<Rightarrow> bool" where
  "reordered hp as r \<longleftrightarrow> (\<exists>hp' as'. r = Some hp' \<and> heap_rep hp' as' \<and> mset as' = mset as \<and> same_nodes hp hp' \<and>
     hord (keys hp as') (length as'))"

lemma reordered_step:
  "same_nodes hp hp1 \<Longrightarrow> mset as1 = mset as \<Longrightarrow> reordered hp1 as1 r \<Longrightarrow> reordered hp as r"
  unfolding reordered_def by (metis same_nodes_keys same_nodes_trans)

lemma reorderedI: "heap_rep hp as \<Longrightarrow> hord (keys hp as) (length as) \<Longrightarrow> reordered hp as (Some hp)"
  unfolding reordered_def by auto

lemma ify_up_reorders:
  "heap_rep hp as \<Longrightarrow> up_ok (keys hp as) (length as) i \<Longrightarrow> reordered hp as (heap_ify_up hp (as ! i))"
proof (induction i arbitrary: hp as rule: less_induct)
  case (less i)
  have i: "i < length as" using less.prems(2) by (simp add: up_ok_def)
  then have p: "Parent i < length as" using Parent_le [of i] by simp
  obtain n where n: "hp_mem hp (as ! i) = Some n" "hn_id n = i" "hn_key n = keys hp as i"
    using rep_node [OF less.prems(1) i] by (auto simp: keys_def)
  obtain pn where pn: "node_at hp (Parent i) = Some (as ! Parent i, pn)" "hn_key pn = keys hp as (Parent i)"
    using rep_node [OF less.prems(1) p] by (auto simp: keys_def)
  show ?case
  proof (cases "i = 0 \<or> keys hp as (Parent i) \<le> keys hp as i")
    case True
    then have "heap_ify_up hp (as ! i) = Some hp" using n pn by (subst heap_ify_up.simps) auto
    then show ?thesis using reorderedI [OF less.prems(1) up_done [OF less.prems(2) True]] by simp
  next
    case False
    let ?as = "swap_at as (Parent i) i"
    obtain hp1 where s: "heap_swap_element hp (as ! Parent i) (as ! i) = Some hp1" "heap_rep hp1 ?as" "same_nodes hp hp1"
      using swap_element_rep [OF less.prems(1) p i] by blast
    have "up_ok ((keys hp as)(Parent i := keys hp as i, i := keys hp as (Parent i))) (length as) (Parent i)"
      using up_step [OF less.prems(2)] False by (simp add: not_le)
    then have "up_ok (keys hp1 ?as) (length ?as) (Parent i)"
      by (rule swapped_ok(1) [OF p i s(3)])
    then have "reordered hp1 ?as (heap_ify_up hp1 (?as ! Parent i))"
      using less.IH [OF _ s(2)] False Parent_less [of i] by simp
    moreover have "?as ! Parent i = as ! i" using p i by (simp add: nth_swap)
    moreover have "heap_ify_up hp (as ! i) = heap_ify_up hp1 (as ! i)"
      using n pn s(1) False by (subst heap_ify_up.simps) simp
    ultimately show ?thesis using reordered_step [OF s(3) mset_swap_at [OF p i]] by simp
  qed
qed

lemma smaller_kid_rep:
  assumes rep: "heap_rep hp as" and i: "i < length as"
  shows "smaller_kid hp i = Some None \<and> (\<forall>j. 0 < j \<and> j < length as \<longrightarrow> Parent j \<noteq> i) \<or>
    (\<exists>c kn. smaller_kid hp i = Some (Some (as ! c, kn)) \<and> hn_key kn = keys hp as c \<and> 0 < c \<and> c < length as \<and>
      Parent c = i \<and> (\<forall>j. 0 < j \<and> j < length as \<and> Parent j = i \<longrightarrow> keys hp as c \<le> keys hp as j))"
proof -
  let ?l = "Left i" and ?r = "Right i"
  have lr: "0 < ?l" "0 < ?r" "?r = Suc ?l" "Parent ?l = i" "Parent ?r = i" by (simp_all add: Left_def Right_def Parent_def)
  have kid: "Parent j = i \<longleftrightarrow> j = ?l \<or> j = ?r" if "0 < j" for j using Parent_iff [OF that] .
  have node: "\<exists>n. node_at hp c = Some (as ! c, n) \<and> hn_key n = keys hp as c" if "c < length as" for c
    using rep_node [OF rep that] by (auto simp: keys_def)
  note ex = rep_exist [OF rep]
  have least: "\<forall>j. 0 < j \<and> j < length as \<and> Parent j = i \<longrightarrow> keys hp as c \<le> keys hp as j"
    if "?l < length as \<Longrightarrow> keys hp as c \<le> keys hp as ?l" "?r < length as \<Longrightarrow> keys hp as c \<le> keys hp as ?r" for c
    using that kid by metis
  consider "length as \<le> ?l" | "?l < length as" "length as \<le> ?r" | "?r < length as" by linarith
  then show ?thesis
  proof cases
    case 1
    then have "smaller_kid hp i = Some None" using ex lr(3) by (simp add: smaller_kid_def)
    moreover have "Parent j \<noteq> i" if "0 < j" "j < length as" for j using that 1 kid [of j] lr(3) by auto
    ultimately show ?thesis by blast
  next
    case 2
    obtain n where n: "node_at hp ?l = Some (as ! ?l, n)" "hn_key n = keys hp as ?l" using node 2 by blast
    then have "smaller_kid hp i = Some (Some (as ! ?l, n))" using 2 ex by (simp add: smaller_kid_def)
    then show ?thesis using 2 n lr(1,4) least [of ?l] by auto
  next
    case 3
    then have l: "?l < length as" using lr(3) by simp
    obtain nl nr where n: "node_at hp ?l = Some (as ! ?l, nl)" "hn_key nl = keys hp as ?l"
      "node_at hp ?r = Some (as ! ?r, nr)" "hn_key nr = keys hp as ?r" using node 3 l by blast
    show ?thesis
    proof (cases "keys hp as ?r < keys hp as ?l")
      case True
      then have "smaller_kid hp i = Some (Some (as ! ?r, nr))" using 3 l ex n by (simp add: smaller_kid_def)
      then show ?thesis using 3 n lr(2,5) True least [of ?r] by auto
    next
      case False
      then have "smaller_kid hp i = Some (Some (as ! ?l, nl))" using 3 l ex n by (simp add: smaller_kid_def)
      then show ?thesis using l n lr(1,4) False least [of ?l] by auto
    qed
  qed
qed

lemma ify_down_reorders:
  "heap_rep hp as \<Longrightarrow> down_ok (keys hp as) (length as) i \<Longrightarrow> reordered hp as (heap_ify_down hp (as ! i))"
proof (induction "length as - i" arbitrary: hp as i rule: less_induct)
  case less
  have i: "i < length as" using less.prems(2) by (simp add: down_ok_def)
  obtain n where n: "hp_mem hp (as ! i) = Some n" "hn_id n = i" "hn_key n = keys hp as i"
    using rep_node [OF less.prems(1) i] by (auto simp: keys_def)
  from smaller_kid_rep [OF less.prems(1) i] show ?case
  proof (elim disjE conjE exE)
    assume none: "smaller_kid hp i = Some None" "\<forall>j. 0 < j \<and> j < length as \<longrightarrow> Parent j \<noteq> i"
    then have "heap_ify_down hp (as ! i) = Some hp" using n by (subst heap_ify_down.simps) simp
    then show ?thesis using reorderedI [OF less.prems(1) down_done [OF less.prems(2)]] none(2) by simp
  next
    fix c kn
    assume k: "smaller_kid hp i = Some (Some (as ! c, kn))" "hn_key kn = keys hp as c" "0 < c" "c < length as" "Parent c = i"
      "\<forall>j. 0 < j \<and> j < length as \<and> Parent j = i \<longrightarrow> keys hp as c \<le> keys hp as j"
    show ?thesis
    proof (cases "keys hp as i \<le> keys hp as c")
      case True
      then have "heap_ify_down hp (as ! i) = Some hp" using n k by (subst heap_ify_down.simps) simp
      moreover have "hord (keys hp as) (length as)"
        using down_done [OF less.prems(2)] k(6) True by (meson order_trans)
      ultimately show ?thesis using reorderedI [OF less.prems(1)] by simp
    next
      case False
      let ?as = "swap_at as c i"
      obtain hp1 where s: "heap_swap_element hp (as ! c) (as ! i) = Some hp1" "heap_rep hp1 ?as" "same_nodes hp hp1"
        using swap_element_rep [OF less.prems(1) k(4) i] by blast
      have "down_ok ((keys hp as)(c := keys hp as i, i := keys hp as c)) (length as) c"
        using down_step [OF less.prems(2) k(3-5)] k(6) False by (simp add: not_le)
      then have "down_ok (keys hp1 ?as) (length ?as) c"
        by (rule swapped_ok(2) [OF k(4) i s(3)])
      moreover have "length ?as - c < length as - i" using k(3-5) Parent_less [of c] i by simp
      ultimately have "reordered hp1 ?as (heap_ify_down hp1 (?as ! c))" using less.hyps s(2) by blast
      moreover have "?as ! c = as ! i" using k(4) i by (simp add: nth_swap)
      moreover have "heap_ify_down hp (as ! i) = heap_ify_down hp1 (as ! i)"
        using n k(1,2) s(1) False by (subst heap_ify_down.simps) simp
      ultimately show ?thesis using reordered_step [OF s(3) mset_swap_at [OF k(4) i]] by simp
    qed
  qed
qed

lemma fix_reorders:
  assumes rep: "heap_rep hp as" and near: "near_ok (keys hp as) (length as) i"
  shows "reordered hp as (heap_fix hp (as ! i))"
proof -
  have i: "i < length as" using near by (simp add: near_ok_def)
  then have p: "Parent i < length as" using Parent_le [of i] by simp
  obtain n where n: "hp_mem hp (as ! i) = Some n" "hn_id n = i" "hn_key n = keys hp as i"
    using rep_node [OF rep i] by (auto simp: keys_def)
  obtain pn where pn: "node_at hp (Parent i) = Some (as ! Parent i, pn)" "hn_key pn = keys hp as (Parent i)"
    using rep_node [OF rep p] by (auto simp: keys_def)
  show ?thesis
  proof (cases "keys hp as i < keys hp as (Parent i)")
    case True
    obtain hp1 as1 where up: "heap_ify_up hp (as ! i) = Some hp1" "heap_rep hp1 as1" "mset as1 = mset as"
      "same_nodes hp hp1" "hord (keys hp as1) (length as1)"
      using ify_up_reorders [OF rep near_up [OF near True]] unfolding reordered_def by blast
    have "as ! i \<in> set as1" using i mset_eq_setD [OF up(3)] by simp
    then obtain k where k: "k < length as1" "as1 ! k = as ! i" by (auto simp: in_set_conv_nth)
    have "reordered hp1 as1 (heap_ify_down hp1 (as ! i))"
      using ify_down_reorders [OF up(2), of k] hord_down [OF up(5) k(1)] same_nodes_keys [OF up(4)] k(2) by simp
    moreover have "heap_fix hp (as ! i) = heap_ify_down hp1 (as ! i)"
      using n pn up(1) True by (simp add: heap_fix_def)
    ultimately show ?thesis using reordered_step [OF up(4,3)] by simp
  next
    case False
    then show ?thesis using ify_down_reorders [OF rep near_down [OF near False]] n pn by (simp add: heap_fix_def)
  qed
qed

subsection \<open>The operations\<close>

definition heap_ok :: "('k::linorder, 'd) heap \<Rightarrow> addr list \<Rightarrow> bool" where
  "heap_ok hp as \<longleftrightarrow> heap_rep hp as \<and> hord (keys hp as) (length as)"

definition heap_valid :: "('k::linorder, 'd) heap \<Rightarrow> bool" where
  "heap_valid hp \<longleftrightarrow> (\<exists>as. heap_ok hp as)"

text \<open>The keys and data in a heap.\<close>

definition heap_contents :: "('k, 'd) heap \<Rightarrow> ('k \<times> 'd) multiset" where
  "heap_contents hp = image_mset (node_kd hp) (mset_set (dom (hp_mem hp)))"

lemma contents_rep: "heap_rep hp as \<Longrightarrow> heap_contents hp = image_mset (node_kd hp) (mset as)"
  by (simp add: heap_contents_def heap_rep_def mset_set_set rep_distinct)

lemma reordered_valid:
  assumes "reordered hp as r" "dom (hp_mem hp) = set as"
  shows "\<exists>hp'. r = Some hp' \<and> heap_valid hp' \<and> node_kd hp' = node_kd hp \<and> dom (hp_mem hp') = dom (hp_mem hp) \<and>
    hp_gen_key hp' = hp_gen_key hp \<and> hp_age hp' = hp_age hp \<and> heap_contents hp' = heap_contents hp"
proof -
  obtain hp' as' where r: "r = Some hp'" "heap_rep hp' as'" "mset as' = mset as" "same_nodes hp hp'"
    "hord (keys hp as') (length as')" using assms(1) unfolding reordered_def by blast
  have d: "dom (hp_mem hp') = dom (hp_mem hp)" using r(2) assms(2) mset_eq_setD [OF r(3)] by (simp add: heap_rep_def)
  then show ?thesis using r same_nodes_keys [OF r(4)]
    unfolding heap_valid_def heap_ok_def heap_contents_def same_nodes_def by metis
qed

lemma near_update:
  assumes "hord g n" "i < n"
  shows "near_ok (g(i := v)) n i"
proof -
  have "g (Parent i) \<le> g j" if "0 < i" "0 < j" "j < n" "Parent j = i" for j
    using assms that Parent_less [of i] Parent_less [of j] unfolding hord_def by (metis order_trans)
  moreover have "Parent k \<noteq> k" if "0 < k" for k using Parent_less [OF that] by simp
  ultimately show ?thesis using assms unfolding near_ok_def bridged_def hord_def by auto
qed

lemma heap_update_ok:
  assumes ok: "heap_valid hp" and elm: "elm \<in> dom (hp_mem hp)"
  shows "\<exists>hp'. heap_update hp elm dat = Some (snd (node_kd hp elm), hp') \<and> heap_valid hp' \<and>
    dom (hp_mem hp') = dom (hp_mem hp) \<and> node_kd hp' = (node_kd hp)(elm := (heap_gen_key hp dat, dat)) \<and>
    hp_gen_key hp' = hp_gen_key hp \<and> hp_age hp' = hp_age hp"
proof -
  obtain as where as: "heap_rep hp as" "hord (keys hp as) (length as)" using ok by (auto simp: heap_valid_def heap_ok_def)
  have "elm \<in> set as" using elm as(1) by (simp add: heap_rep_def)
  then obtain i where i: "i < length as" "as ! i = elm" by (auto simp: in_set_conv_nth)
  obtain n where n: "hp_mem hp elm = Some n" "hn_id n = i" "hn_data n = snd (node_kd hp elm)"
    using rep_node [OF as(1) i(1)] i(2) by auto
  let ?hp = "hp\<lparr>hp_mem := (hp_mem hp)(elm \<mapsto> n\<lparr>hn_key := heap_gen_key hp dat, hn_data := dat\<rparr>)\<rparr>"
  have "\<exists>nd. hp_mem ?hp (as ! k) = Some nd \<and> hn_id nd = k" if "k < length as" for k
    using rep_node [OF as(1) that] n i(2) by (cases "as ! k = elm") auto
  then have rep: "heap_rep ?hp as" using as(1) elm by (auto simp: heap_rep_def)
  have kd: "node_kd ?hp = (node_kd hp)(elm := (heap_gen_key hp dat, dat))" by (auto simp: node_kd_def fun_eq_iff)
  have kk: "keys ?hp as k = ((keys hp as)(i := heap_gen_key hp dat)) k" if "k < length as" for k
    using that i rep_distinct [OF as(1)] by (auto simp: keys_def kd nth_eq_iff_index_eq)
  have "near_ok (keys ?hp as) (length as) i"
    using near_update [OF as(2) i(1)]
      ord_cong(4) [of "length as" "keys ?hp as" "(keys hp as)(i := heap_gen_key hp dat)" i, OF kk] by blast
  from reordered_valid [OF fix_reorders [OF rep this]] rep i(2)
  obtain hp' where "heap_fix ?hp elm = Some hp'" "heap_valid hp'" "node_kd hp' = node_kd ?hp"
    "dom (hp_mem hp') = dom (hp_mem ?hp)" "hp_gen_key hp' = hp_gen_key hp" "hp_age hp' = hp_age hp"
    by (auto simp: heap_rep_def)
  then show ?thesis using n kd elm by (auto simp: heap_update_def Let_def)
qed

lemma append_rep:
  assumes rep: "heap_rep hp as" and room: "length as < hp_size hp"
  shows "heap_rep (hp\<lparr>hp_nodes := (hp_nodes hp)[length as := Some (hp_brk hp)], hp_brk := hp_brk hp + 1,
      hp_last := length as + 1,
      hp_mem := (hp_mem hp)(hp_brk hp \<mapsto> \<lparr>hn_key = k, hn_id = length as, hn_data = d\<rparr>)\<rparr>) (as @ [hp_brk hp])"
proof -
  have "hp_brk hp \<notin> set as" using rep by (auto simp: heap_rep_def)
  then have "as ! i \<noteq> hp_brk hp" if "i < length as" for i using that by (metis nth_mem)
  then show ?thesis using rep room by (auto simp: heap_rep_def nth_append less_Suc_eq nth_list_update)
qed

lemma grow_rep:
  assumes rep: "heap_rep hp as"
  shows "heap_rep (if heap_should_grow hp then heap_grow hp else hp) as"
    "length as < hp_size (if heap_should_grow hp then heap_grow hp else hp)"
proof -
  have "hp_size hp < (if Threshold < hp_size hp then hp_size hp * 3 div 2 else hp_size hp * 2)"
    using rep by (auto simp: heap_rep_def Threshold_def)
  then show "heap_rep (if heap_should_grow hp then heap_grow hp else hp) as"
    "length as < hp_size (if heap_should_grow hp then heap_grow hp else hp)"
    using rep by (auto simp: heap_rep_def heap_grow_def heap_should_grow_def Let_def nth_append)
qed

lemma grow_same [simp]:
  "hp_brk (heap_grow hp) = hp_brk hp" "hp_mem (heap_grow hp) = hp_mem hp" "hp_gen_key (heap_grow hp) = hp_gen_key hp"
  "hp_age (heap_grow hp) = hp_age hp" "hp_last (heap_grow hp) = hp_last hp"
  by (simp_all add: heap_grow_def Let_def)

lemma heap_insert_ok:
  assumes ok: "heap_valid hp"
  shows "\<exists>elm hp'. heap_insert hp dat = Some (elm, hp') \<and> heap_valid hp' \<and> elm \<notin> dom (hp_mem hp) \<and>
    dom (hp_mem hp') = insert elm (dom (hp_mem hp)) \<and> node_kd hp' = (node_kd hp)(elm := (heap_gen_key hp dat, dat)) \<and>
    hp_gen_key hp' = hp_gen_key hp \<and> hp_age hp' = hp_age hp"
proof -
  obtain as where as: "heap_rep hp as" "hord (keys hp as) (length as)" using ok by (auto simp: heap_valid_def heap_ok_def)
  define hg where "hg = (if heap_should_grow hp then heap_grow hp else hp)"
  have hg: "hp_brk hg = hp_brk hp" "hp_mem hg = hp_mem hp" "hp_gen_key hg = hp_gen_key hp" "hp_age hg = hp_age hp"
    "hp_last hg = hp_last hp" by (simp_all add: hg_def)
  let ?e = "hp_brk hp" and ?n = "length as"
  let ?hp = "hg\<lparr>hp_nodes := (hp_nodes hg)[?n := Some ?e], hp_brk := ?e + 1, hp_last := ?n + 1,
      hp_mem := (hp_mem hp)(?e \<mapsto> \<lparr>hn_key = heap_gen_key hp dat, hn_id = ?n, hn_data = dat\<rparr>)\<rparr>"
  have rep: "heap_rep ?hp (as @ [?e])" using append_rep [OF grow_rep [OF as(1)]] hg unfolding hg_def [symmetric] by simp
  have new: "?e \<notin> set as" using as(1) by (auto simp: heap_rep_def)
  have kd: "node_kd ?hp = (node_kd hp)(?e := (heap_gen_key hp dat, dat))" by (auto simp: node_kd_def fun_eq_iff)
  have k: "keys ?hp (as @ [?e]) j = keys hp as j" if "j < ?n" for j
    using that new unfolding keys_def kd by (metis append_Cons butlast_snoc fun_upd_other nth_append nth_mem)
  have "up_ok (keys ?hp (as @ [?e])) (Suc ?n) ?n"
  proof -
    have "keys ?hp (as @ [?e]) (Parent j) \<le> keys ?hp (as @ [?e]) j" if "0 < j" "j < ?n" for j
      using that as(2) k Parent_less [of j] by (simp add: hord_def)
    moreover have "Parent j \<noteq> ?n" if "0 < j" "j < Suc ?n" for j using Parent_less [OF that(1)] that(2) by simp
    ultimately show ?thesis by (auto simp: up_ok_def bridged_def less_Suc_eq)
  qed
  then have "reordered ?hp (as @ [?e]) (heap_ify_up ?hp ((as @ [?e]) ! ?n))" using ify_up_reorders [OF rep, of ?n] by (simp only: length_append_singleton)
  from reordered_valid [OF this] rep obtain hp' where "heap_ify_up ?hp ?e = Some hp'" "heap_valid hp'"
    "node_kd hp' = node_kd ?hp" "dom (hp_mem hp') = dom (hp_mem ?hp)" "hp_gen_key hp' = hp_gen_key hp" "hp_age hp' = hp_age hp"
    using hg by (auto simp: heap_rep_def)
  moreover have "arr_set (hp_nodes hg) ?n (Some ?e) = Some ((hp_nodes hg)[?n := Some ?e])" "hp_last hp = ?n"
    using grow_rep [OF as(1)] as(1) unfolding hg_def [symmetric] by (simp_all add: heap_rep_def arr_set_def)
  ultimately have "heap_insert hp dat = Some (?e, hp')"
    using hg unfolding heap_insert_def Let_def hg_def [symmetric] by simp
  then show ?thesis using \<open>heap_valid hp'\<close> \<open>node_kd hp' = node_kd ?hp\<close> \<open>dom (hp_mem hp') = dom (hp_mem ?hp)\<close>
      \<open>hp_gen_key hp' = hp_gen_key hp\<close> \<open>hp_age hp' = hp_age hp\<close> kd new as(1) by (auto simp: heap_rep_def)
qed

lemma extractlast_rep:
  assumes "heap_rep hp as" "as \<noteq> []"
  shows "\<exists>d hp'. heap_extractlast hp = Some (d, hp') \<and> heap_rep hp' (butlast as) \<and>
    hp_mem hp' = (hp_mem hp)(last as := None) \<and> hp_gen_key hp' = hp_gen_key hp \<and> hp_age hp' = hp_age hp \<and>
    hp_last hp' = length as - 1"
proof -
  let ?n = "length as - 1"
  have n: "?n < length as" "as ! ?n = last as" "hp_last hp = length as"
    using assms by (simp_all add: last_conv_nth heap_rep_def)
  obtain nd where nd: "node_at hp ?n = Some (last as, nd)" using rep_node [OF assms(1) n(1)] n(2) by auto
  let ?hp = "hp\<lparr>hp_last := ?n, hp_mem := (hp_mem hp)(last as := None)\<rparr>"
  have "heap_extractlast hp = Some (hn_data nd, ?hp)"
    using nd n rep_exist [OF assms(1), of ?n] assms(2) by (simp add: heap_extractlast_def)
  moreover have "heap_rep ?hp (butlast as)"
  proof -
    have ne: "as ! i \<noteq> last as" if "i < ?n" for i
      using rep_distinct [OF assms(1)] that n by (metis nth_eq_iff_index_eq less_trans less_irrefl)
    have "set (butlast as) = set as - {last as}"
      using rep_distinct [OF assms(1)] assms(2) by (cases as rule: rev_cases) auto
    then show ?thesis using assms(1) ne by (auto simp: heap_rep_def nth_butlast dest: in_set_butlastD)
  qed
  ultimately show ?thesis by auto
qed

lemma heap_delete_ok:
  assumes ok: "heap_valid hp" and elm: "elm \<in> dom (hp_mem hp)"
  shows "\<exists>hp'. heap_delete hp elm = Some (snd (node_kd hp elm), hp') \<and> heap_valid hp' \<and>
    dom (hp_mem hp') = dom (hp_mem hp) - {elm} \<and> (\<forall>a. a \<noteq> elm \<longrightarrow> node_kd hp' a = node_kd hp a) \<and>
    hp_gen_key hp' = hp_gen_key hp \<and> hp_age hp' = hp_age hp"
proof -
  obtain as where as: "heap_rep hp as" "hord (keys hp as) (length as)" using ok by (auto simp: heap_valid_def heap_ok_def)
  have "elm \<in> set as" using elm as(1) by (simp add: heap_rep_def)
  then obtain i where i: "i < length as" "as ! i = elm" by (auto simp: in_set_conv_nth)
  let ?n = "length as - 1"
  have n: "?n < length as" "0 < hp_last hp" "hp_last hp = length as" using i(1) as(1) by (auto simp: heap_rep_def)
  obtain nd where nd: "hp_mem hp elm = Some nd" "hn_data nd = snd (node_kd hp elm)" using rep_node [OF as(1) i(1)] i(2) by auto
  obtain ln where ln: "node_at hp ?n = Some (as ! ?n, ln)" using rep_node [OF as(1) n(1)] by auto
  let ?sw = "swap_at as ?n i" and ?bs = "butlast (swap_at as ?n i)"
  obtain hp1 where hp1: "heap_swap_element hp (as ! ?n) elm = Some hp1" "heap_rep hp1 ?sw" "same_nodes hp hp1"
    using swap_element_rep [OF as(1) n(1) i(1)] i(2) by blast
  have sw: "?sw \<noteq> []" "last ?sw = elm" "length ?sw = length as"
    using n(1) i by (auto simp: last_conv_nth nth_swap simp flip: length_greater_0_conv)
  obtain d hp2 where hp2: "heap_extractlast hp1 = Some (d, hp2)" "heap_rep hp2 ?bs" "hp_mem hp2 = (hp_mem hp1)(elm := None)"
    "hp_gen_key hp2 = hp_gen_key hp1" "hp_age hp2 = hp_age hp1" "hp_last hp2 = ?n"
    using extractlast_rep [OF hp1(2) sw(1)] sw(2,3) by auto
  have kd2: "node_kd hp2 a = node_kd hp a" if "a \<noteq> elm" for a
    using that hp2(3) hp1(3) by (simp add: node_kd_def same_nodes_def fun_eq_iff)
  have dom2: "dom (hp_mem hp2) = dom (hp_mem hp) - {elm}"
    using hp2(3) hp1(2) as(1) set_swap [OF n(1) i(1)] by (auto simp: heap_rep_def)
  have nth: "?bs ! k = (if k = i then as ! ?n else as ! k)" if "k < ?n" for k
    using that i n(1) by (auto simp: nth_butlast nth_swap)
  have ne: "?bs ! k \<noteq> elm" if "k < ?n" for k
    using that rep_distinct [OF hp1(2)] sw by (metis distinct_append not_distinct_conv_prefix append_butlast_last_id
        length_butlast nth_mem disjoint_insert(1) distinct.simps(2) in_set_conv_decomp)
  have keys2: "keys hp2 ?bs k = ((keys hp as)(i := keys hp as ?n)) k" if "k < ?n" for k
    using kd2 [OF ne [OF that]] nth [OF that] by (simp add: keys_def)
  have pre: "heap_delete hp elm =
      map_option (\<lambda>h. (snd (node_kd hp elm), h))
        (if elm = as ! ?n then Some hp2 else if 0 < ?n then heap_fix hp2 (as ! ?n) else Some hp2)"
    using nd ln hp1(1) hp2(1,6) n rep_exist [OF as(1), of ?n]
    by (auto simp: heap_delete_def map_option_case split: option.split)
  have ordn: "hord (keys hp as) ?n" using as(2) by (auto simp: hord_def)
  have eq: "elm = as ! ?n \<longleftrightarrow> i = ?n" using rep_distinct [OF as(1)] i n(1) by (metis nth_eq_iff_index_eq)
  show ?thesis
  proof (cases "i = ?n")
    case True
    then have "hord (keys hp2 ?bs) ?n"
      using ordn ord_cong(1) [of ?n "keys hp2 ?bs" "(keys hp as)(i := keys hp as ?n)", OF keys2] by simp
    then have "heap_valid hp2" using hp2(2) sw(3) unfolding heap_valid_def heap_ok_def by (intro exI [of _ ?bs]) simp
    then show ?thesis using pre eq True kd2 dom2 hp2(4,5) hp1(3) by (auto simp: same_nodes_def)
  next
    case False
    then have lt: "i < ?n" using i(1) by simp
    have "near_ok (keys hp2 ?bs) ?n i"
      using near_update [OF ordn lt] ord_cong(4) [of ?n "keys hp2 ?bs" "(keys hp as)(i := keys hp as ?n)" i, OF keys2] by blast
    then have "reordered hp2 ?bs (heap_fix hp2 (?bs ! i))" using fix_reorders [OF hp2(2), of i] sw(3) by simp
    from reordered_valid [OF this] hp2(2) nth [OF lt] obtain hp' where "heap_fix hp2 (as ! ?n) = Some hp'" "heap_valid hp'"
      "node_kd hp' = node_kd hp2" "dom (hp_mem hp') = dom (hp_mem hp2)" "hp_gen_key hp' = hp_gen_key hp2" "hp_age hp' = hp_age hp2"
      by (auto simp: heap_rep_def)
    then show ?thesis using pre eq False lt kd2 dom2 hp2(4,5) hp1(3) by (auto simp: same_nodes_def)
  qed
qed

lemma valid_finite: "heap_valid hp \<Longrightarrow> finite (dom (hp_mem hp))"
  by (auto simp: heap_valid_def heap_ok_def heap_rep_def)

lemma contents_insert:
  assumes "finite (dom (hp_mem hp))" "a \<notin> dom (hp_mem hp)" "dom (hp_mem hp') = insert a (dom (hp_mem hp))"
    "node_kd hp' = (node_kd hp)(a := kd)"
  shows "heap_contents hp' = add_mset kd (heap_contents hp)"
proof -
  have "image_mset ((node_kd hp)(a := kd)) (mset_set (dom (hp_mem hp))) = image_mset (node_kd hp) (mset_set (dom (hp_mem hp)))"
    using assms(1,2) by (intro image_mset_cong) auto
  then show ?thesis using assms by (simp add: heap_contents_def)
qed

lemma contents_delete:
  assumes "finite (dom (hp_mem hp))" "a \<in> dom (hp_mem hp)" "dom (hp_mem hp') = dom (hp_mem hp) - {a}"
    "\<And>x. x \<noteq> a \<Longrightarrow> node_kd hp' x = node_kd hp x"
  shows "heap_contents hp = add_mset (node_kd hp a) (heap_contents hp')"
proof -
  have "image_mset (node_kd hp') (mset_set (dom (hp_mem hp) - {a})) = image_mset (node_kd hp) (mset_set (dom (hp_mem hp) - {a}))"
    using assms(1,4) by (intro image_mset_cong) auto
  then show ?thesis using assms(1-3) by (simp add: heap_contents_def mset_set.remove)
qed

lemma extractmin_node:
  assumes ok: "heap_valid hp" and ne: "dom (hp_mem hp) \<noteq> {}"
  obtains elm hp' where "elm \<in> dom (hp_mem hp)" "0 < hp_last hp" "heap_peepminkey hp = Some (node_key hp elm)"
    "heap_extractmin hp = Some (Some (snd (node_kd hp elm)), hp')" "heap_valid hp'"
    "dom (hp_mem hp') = dom (hp_mem hp) - {elm}" "\<forall>a. a \<noteq> elm \<longrightarrow> node_kd hp' a = node_kd hp a"
    "\<forall>b \<in> dom (hp_mem hp). node_key hp elm \<le> node_key hp b" "hp_gen_key hp' = hp_gen_key hp" "hp_age hp' = hp_age hp"
proof -
  obtain as where as: "heap_rep hp as" "hord (keys hp as) (length as)" using ok by (auto simp: heap_valid_def heap_ok_def)
  have d: "dom (hp_mem hp) = set as" using as(1) by (simp add: heap_rep_def)
  then have l: "0 < length as" "hp_last hp \<noteq> 0" using as(1) ne by (auto simp: heap_rep_def)
  obtain n where n: "node_at hp 0 = Some (as ! 0, n)" "hn_data n = snd (node_kd hp (as ! 0))" "hn_key n = node_key hp (as ! 0)"
    using rep_node [OF as(1) l(1)] by auto
  have e: "as ! 0 \<in> dom (hp_mem hp)" using as(1) l(1) by (simp add: heap_rep_def)
  obtain hp' where hp': "heap_delete hp (as ! 0) = Some (snd (node_kd hp (as ! 0)), hp')" "heap_valid hp'"
    "dom (hp_mem hp') = dom (hp_mem hp) - {as ! 0}" "\<forall>a. a \<noteq> as ! 0 \<longrightarrow> node_kd hp' a = node_kd hp a"
    "hp_gen_key hp' = hp_gen_key hp" "hp_age hp' = hp_age hp"
    using heap_delete_ok [OF ok e] by blast
  have "\<forall>b \<in> dom (hp_mem hp). node_key hp (as ! 0) \<le> node_key hp b"
    using d hord_min [OF as(2)] by (auto simp: keys_def in_set_conv_nth)
  moreover have "heap_extractmin hp = Some (Some (snd (node_kd hp (as ! 0))), hp')"
    using n hp'(1) l(2) by (simp add: heap_extractmin_def)
  moreover have "heap_peepminkey hp = Some (node_key hp (as ! 0))"
    using n l as(1) by (auto simp: heap_peepminkey_def heap_peepkey_def heap_node_exist_def heap_rep_def arr_simps)
  ultimately show thesis using that e hp'(2-6) l(2) by blast
qed

lemma extractmin_ok:
  assumes ok: "heap_valid hp"
  shows "(heap_contents hp = {#} \<longrightarrow> heap_extractmin hp = Some (None, hp)) \<and>
    (heap_contents hp \<noteq> {#} \<longrightarrow> (\<exists>k d hp'. heap_extractmin hp = Some (Some d, hp') \<and> heap_valid hp' \<and>
      heap_contents hp = add_mset (k, d) (heap_contents hp') \<and> (\<forall>x \<in># heap_contents hp. k \<le> fst x)))"
proof (cases "dom (hp_mem hp) = {}")
  case True
  moreover obtain as where "heap_rep hp as" using ok by (auto simp: heap_valid_def heap_ok_def)
  ultimately have "hp_last hp = 0" by (auto simp: heap_rep_def)
  then show ?thesis using True by (simp add: heap_extractmin_def heap_contents_def)
next
  case False
  obtain elm hp' where e: "elm \<in> dom (hp_mem hp)" "heap_extractmin hp = Some (Some (snd (node_kd hp elm)), hp')" "heap_valid hp'"
    "dom (hp_mem hp') = dom (hp_mem hp) - {elm}" "\<forall>a. a \<noteq> elm \<longrightarrow> node_kd hp' a = node_kd hp a"
    "\<forall>b \<in> dom (hp_mem hp). node_key hp elm \<le> node_key hp b"
    by (rule extractmin_node [OF ok False])
  have "heap_contents hp = add_mset (node_key hp elm, snd (node_kd hp elm)) (heap_contents hp')"
    using contents_delete [OF valid_finite [OF ok] e(1,4)] e(5) by simp
  moreover have "\<forall>x \<in># heap_contents hp. node_key hp elm \<le> fst x"
    using e(6) valid_finite [OF ok] by (auto simp: heap_contents_def)
  moreover have "heap_contents hp \<noteq> {#}" using calculation(1) by simp
  ultimately show ?thesis using e(2,3) by blast
qed

subsection \<open>The contract of a priority queue\<close>

text \<open>Taking out up to \<open>n\<close> elements.\<close>

primrec drain_with :: "('q \<Rightarrow> ('d option \<times> 'q) option) \<Rightarrow> nat \<Rightarrow> 'q \<Rightarrow> 'd list option" where
  "drain_with pop 0 q = Some []"
| "drain_with pop (Suc n) q = do {
     (d, q') \<leftarrow> pop q;
     case d of None \<Rightarrow> Some [] | Some x \<Rightarrow> map_option (\<lambda>xs. x # xs) (drain_with pop n q') }"

locale min_queue =
  fixes ok :: "'q \<Rightarrow> bool" and contents :: "'q \<Rightarrow> ('k::linorder \<times> 'd) multiset"
    and key_for :: "'q \<Rightarrow> 'd \<Rightarrow> 'k"
    and put :: "'q \<Rightarrow> 'd \<Rightarrow> (addr \<times> 'q) option"
    and pop :: "'q \<Rightarrow> ('d option \<times> 'q) option"
  assumes put_law: "ok q \<Longrightarrow> \<exists>a q'. put q d = Some (a, q') \<and> ok q' \<and> contents q' = add_mset (key_for q d, d) (contents q)"
    and pop_empty: "ok q \<Longrightarrow> contents q = {#} \<Longrightarrow> pop q = Some (None, q)"
    and pop_law: "ok q \<Longrightarrow> contents q \<noteq> {#} \<Longrightarrow> \<exists>k d q'. pop q = Some (Some d, q') \<and> ok q' \<and>
      contents q = add_mset (k, d) (contents q') \<and> (\<forall>x \<in># contents q. k \<le> fst x)"
begin

lemma drain_sorted:
  assumes "ok q" "size (contents q) \<le> n"
  shows "\<exists>kds. drain_with pop n q = Some (map snd kds) \<and> mset kds = contents q \<and> sorted (map fst kds)"
  using assms
proof (induction n arbitrary: q)
  case 0
  then show ?case by (intro exI [of _ "[]"]) simp
next
  case (Suc n)
  show ?case
  proof (cases "contents q = {#}")
    case True
    then show ?thesis using pop_empty [OF Suc.prems(1)] by (intro exI [of _ "[]"]) simp
  next
    case False
    then obtain k d q' where e: "pop q = Some (Some d, q')" "ok q'" "contents q = add_mset (k, d) (contents q')"
      "\<forall>x \<in># contents q. k \<le> fst x" using pop_law [OF Suc.prems(1)] by blast
    then obtain kds where kds: "drain_with pop n q' = Some (map snd kds)" "mset kds = contents q'" "sorted (map fst kds)"
      using Suc.IH [OF e(2)] Suc.prems(2) by auto
    have "k \<le> fst x" if "x \<in> set kds" for x using that e(3,4) kds(2) by (metis insert_iff set_mset_add_mset_insert set_mset_mset)
    then show ?thesis using e kds by (intro exI [of _ "(k, d) # kds"]) auto
  qed
qed

text \<open>An element that is smaller than all others comes out first.\<close>

lemma put_then_pop:
  assumes "ok q" "\<forall>x \<in># contents q. key_for q d < fst x"
  shows "\<exists>a q' q''. put q d = Some (a, q') \<and> pop q' = Some (Some d, q'') \<and> contents q'' = contents q"
proof -
  obtain a q' where p: "put q d = Some (a, q')" "ok q'" "contents q' = add_mset (key_for q d, d) (contents q)"
    using put_law [OF assms(1)] by blast
  then obtain k x q'' where e: "pop q' = Some (Some x, q'')" "contents q' = add_mset (k, x) (contents q'')"
    "\<forall>y \<in># contents q'. k \<le> fst y" using pop_law [OF p(2)] by (metis add_mset_not_empty)
  have "k \<le> key_for q d" "(k, x) = (key_for q d, d) \<or> (k, x) \<in># contents q"
  proof -
    have "(key_for q d, d) \<in># contents q'" using p(3) by simp
    then show "k \<le> key_for q d" using e(3) by fastforce
    have "(k, x) \<in># contents q'" using e(2) by simp
    then show "(k, x) = (key_for q d, d) \<or> (k, x) \<in># contents q" using p(3) by auto
  qed
  then have "(k, x) = (key_for q d, d)" using assms(2) by fastforce
  then show ?thesis using p e by simp
qed

end

interpretation hq: min_queue heap_valid heap_contents heap_gen_key heap_insert heap_extractmin
proof
  fix q :: "('k::linorder, 'd) heap" and d assume ok: "heap_valid q"
  obtain elm hp' where i: "heap_insert q d = Some (elm, hp')" "heap_valid hp'" "elm \<notin> dom (hp_mem q)"
    "dom (hp_mem hp') = insert elm (dom (hp_mem q))" "node_kd hp' = (node_kd q)(elm := (heap_gen_key q d, d))"
    using heap_insert_ok [OF ok, of d] by blast
  then show "\<exists>a q'. heap_insert q d = Some (a, q') \<and> heap_valid q' \<and> heap_contents q' = add_mset (heap_gen_key q d, d) (heap_contents q)"
    using contents_insert [OF valid_finite [OF ok] i(3-5)] by blast
qed (use extractmin_ok in blast)+

subsection \<open>Properties\<close>

definition demo_heap :: "(nat, nat) heap" where
  "demo_heap = snd (the (heap_insert (new_heap 1 (\<lambda>d age. d + age) 0) 7))"

lemma new_heap_valid: "heap_valid (new_heap n g z)" "heap_contents (new_heap n g z) = {#}"
  by (auto simp: heap_valid_def heap_ok_def heap_rep_def new_heap_def hord_def MinSize_def heap_contents_def Let_def)

lemma demo_heap_ok: "heap_valid demo_heap" "heap_contents demo_heap = {#(7, 7)#}" "dom (hp_mem demo_heap) = {1}"
proof -
  let ?n = "new_heap 1 (\<lambda>d age. d + age) 0 :: (nat, nat) heap"
  have v: "heap_valid ?n" by (rule new_heap_valid(1))
  obtain a hp where h: "heap_insert ?n 7 = Some (a, hp)" "heap_valid hp"
    "heap_contents hp = add_mset (heap_gen_key ?n 7, 7) (heap_contents ?n)"
    using hq.put_law [OF v, of 7] by blast
  have "dom (hp_mem hp) = insert a (dom (hp_mem ?n))" using heap_insert_ok [OF v, of 7] h(1) by auto
  note h = h(1,2) this h(3)
  have "a = 1" using h(1) unfolding heap_insert_def Let_def new_heap_def by (auto split: Option.bind_splits)
  moreover have k: "heap_gen_key ?n 7 = 7" and m: "dom (hp_mem ?n) = {}" 
    by (auto simp: heap_gen_key_def new_heap_def Let_def)
  moreover have c: "heap_contents ?n = {#}" by (rule new_heap_valid(2))
  ultimately show "heap_valid demo_heap" "heap_contents demo_heap = {#(7, 7)#}" "dom (hp_mem demo_heap) = {1}"
    using h k c m by (simp_all add: demo_heap_def)
qed

text \<open>C29: The heap is a priority queue: taking elements out of a well-formed heap until it is
  empty never fails an assertion or leaves the array, and yields exactly the elements it held,
  in the order of their keys.\<close>
theorem heap_drains_sorted:
  assumes "heap_valid hp" "size (heap_contents hp) \<le> n"
  shows "\<exists>kds. drain_with heap_extractmin n hp = Some (map snd kds) \<and> mset kds = heap_contents hp \<and> sorted (map fst kds)"
  using assms by (rule hq.drain_sorted)

theorem heap_drains_sorted_witness:
  "\<exists>hp. heap_insert demo_heap 3 = Some hp \<and> drain_with heap_extractmin 2 (snd hp) = Some [3, 7]"
proof -
  obtain a hp where h: "heap_insert demo_heap 3 = Some (a, hp)" "heap_valid hp"
    "heap_contents hp = {#(heap_gen_key demo_heap 3, 3), (7, 7)#}"
    using hq.put_law [OF demo_heap_ok(1), of 3] demo_heap_ok(2) by auto
  have "hp_gen_key demo_heap = (\<lambda>d age. d + age)" "hp_age demo_heap = 0"
    using heap_insert_ok [OF new_heap_valid(1), of 1 "\<lambda>d age. d + age" "0::nat" 7]
    by (auto simp: demo_heap_def new_heap_def Let_def)
  then have k: "heap_gen_key demo_heap 3 = 3" by (simp add: heap_gen_key_def)
  obtain kds :: "(nat \<times> nat) list" where kds: "drain_with heap_extractmin 2 hp = Some (map snd kds)" "mset kds = {#(3, 3), (7, 7 :: nat)#}" "sorted (map fst kds)"
    using heap_drains_sorted [OF h(2), of 2] h(3) k by auto
  have "kds = [(3, 3), (7, 7)]"
  proof -
    have "length kds = 2" using arg_cong [OF kds(2), of size] by simp
    then obtain x y where xy: "kds = [x, y]" by (auto simp: numeral_2_eq_2 length_Suc_conv)
    then show ?thesis using kds(2,3) by (auto simp: add_eq_conv_diff split: if_splits)
  qed
  then show ?thesis using h(1) kds(1) by auto
qed

text \<open>Updating an element in place has the effect of deleting it and inserting the new
  data, as the comment at \<open>heap_update\<close> says: all three succeed on a node of a well-formed
  heap, return the old data, and leave well-formed heaps with the same keys and data.\<close>
theorem heap_update_is_delete_insert:
  assumes "heap_valid hp" "elm \<in> dom (hp_mem hp)"
  shows "\<exists>old hp1 hp2 elm3 hp3. heap_update hp elm dat = Some (old, hp1) \<and> heap_valid hp1 \<and>
    heap_delete hp elm = Some (old, hp2) \<and> heap_insert hp2 dat = Some (elm3, hp3) \<and> heap_valid hp3 \<and>
    heap_contents hp1 = heap_contents hp3 \<and>
    heap_contents hp3 = add_mset (heap_gen_key hp dat, dat) (heap_contents hp2)"
proof -
  obtain hp1 where u: "heap_update hp elm dat = Some (snd (node_kd hp elm), hp1)" "heap_valid hp1"
    "dom (hp_mem hp1) = dom (hp_mem hp)" "node_kd hp1 = (node_kd hp)(elm := (heap_gen_key hp dat, dat))"
    using heap_update_ok [OF assms] by blast
  obtain hp2 where d: "heap_delete hp elm = Some (snd (node_kd hp elm), hp2)" "heap_valid hp2"
    "dom (hp_mem hp2) = dom (hp_mem hp) - {elm}" "\<forall>a. a \<noteq> elm \<longrightarrow> node_kd hp2 a = node_kd hp a"
    "hp_gen_key hp2 = hp_gen_key hp" "hp_age hp2 = hp_age hp"
    using heap_delete_ok [OF assms] by blast
  obtain elm3 hp3 where i: "heap_insert hp2 dat = Some (elm3, hp3)" "heap_valid hp3"
    "heap_contents hp3 = add_mset (heap_gen_key hp2 dat, dat) (heap_contents hp2)"
    using hq.put_law [OF d(2), of dat] by blast
  have "heap_gen_key hp2 dat = heap_gen_key hp dat" using d(5,6) by (simp add: heap_gen_key_def)
  moreover have "heap_contents hp1 = add_mset (heap_gen_key hp dat, dat) (heap_contents hp2)"
    using contents_delete [OF valid_finite [OF u(2)], of elm hp2] u(3,4) d(3,4) assms(2) by simp
  ultimately show ?thesis using u(1,2) d(1) i by auto
qed

theorem heap_update_is_delete_insert_witness:
  "\<exists>old hp1 hp2 elm3 hp3. heap_update demo_heap 1 5 = Some (old, hp1) \<and> heap_delete demo_heap 1 = Some (old, hp2) \<and>
    heap_insert hp2 5 = Some (elm3, hp3) \<and> heap_contents hp1 = heap_contents hp3"
  using heap_update_is_delete_insert [OF demo_heap_ok(1), of 1 5] demo_heap_ok(3) by blast

end
