(* ===== verification/DList.thy ===== *)
theory DList
  imports Prelude
begin

section \<open>Doubly linked lists (tools.c)\<close>

text \<open>
  The \<open>dlink\<close> lists that the program threads through its objects: insertion at either end
  and deletion of a node. The nodes are in a memory; the list header holds the first and the
  last node. \<open>dl_rep\<close> relates a header and a memory to the sequence of its nodes, over list
  segments whose two outer links are given.
\<close>

record dlink_node =
  dn_data :: "addr option"
  dn_prev :: "addr option"
  dn_next :: "addr option"

record dlink_list =
  dl_head :: "addr option"
  dl_tail :: "addr option"

type_synonym dlink_mem = "addr \<Rightarrow> dlink_node option"

text \<open>The assignment \<open>p->f = v\<close>, which does not return when \<open>p\<close> is not allocated.\<close>

definition dn_update :: "(dlink_node \<Rightarrow> dlink_node) \<Rightarrow> addr \<Rightarrow> dlink_mem \<Rightarrow> dlink_mem option" where
  "dn_update f p mem = do { n \<leftarrow> mem p; Some (mem(p \<mapsto> f n)) }"

definition dn_update_if :: "(dlink_node \<Rightarrow> dlink_node) \<Rightarrow> addr option \<Rightarrow> dlink_mem \<Rightarrow> dlink_mem option" where
  "dn_update_if f p mem = (case p of None \<Rightarrow> Some mem | Some a \<Rightarrow> dn_update f a mem)"

definition dlinkAdd :: "addr option \<Rightarrow> addr \<Rightarrow> dlink_list \<Rightarrow> dlink_mem \<Rightarrow> (dlink_list \<times> dlink_mem) option" where
  "dlinkAdd data m l mem = do {
     mem \<leftarrow> dn_update (\<lambda>n. n\<lparr>dn_data := data, dn_prev := None, dn_next := dl_head l\<rparr>) m mem;
     mem \<leftarrow> dn_update_if (\<lambda>n. n\<lparr>dn_prev := Some m\<rparr>) (dl_head l) mem;
     let l = l\<lparr>dl_head := Some m\<rparr>;
     Some (if dl_tail l = None then l\<lparr>dl_tail := Some m\<rparr> else l, mem) }"

definition dlinkAddTail :: "addr option \<Rightarrow> addr \<Rightarrow> dlink_list \<Rightarrow> dlink_mem \<Rightarrow> (dlink_list \<times> dlink_mem) option" where
  "dlinkAddTail data m l mem = do {
     mem \<leftarrow> dn_update (\<lambda>n. n\<lparr>dn_data := data, dn_next := None, dn_prev := dl_tail l\<rparr>) m mem;
     mem \<leftarrow> dn_update_if (\<lambda>n. n\<lparr>dn_next := Some m\<rparr>) (dl_tail l) mem;
     let l = l\<lparr>dl_tail := Some m\<rparr>;
     Some (if dl_head l = None then l\<lparr>dl_head := Some m\<rparr> else l, mem) }"

definition dlinkDelete :: "addr \<Rightarrow> dlink_list \<Rightarrow> dlink_mem \<Rightarrow> (dlink_list \<times> dlink_mem) option" where
  "dlinkDelete m l mem = do {
     n \<leftarrow> mem m;
     mem \<leftarrow> dn_update_if (\<lambda>x. x\<lparr>dn_prev := dn_prev n\<rparr>) (dn_next n) mem;
     n \<leftarrow> mem m;
     mem \<leftarrow> dn_update_if (\<lambda>x. x\<lparr>dn_next := dn_next n\<rparr>) (dn_prev n) mem;
     n \<leftarrow> mem m;
     let l = (if Some m = dl_head l then l\<lparr>dl_head := dn_next n\<rparr> else l);
     let l = (if Some m = dl_tail l then l\<lparr>dl_tail := dn_prev n\<rparr> else l);
     Some (l, mem(m \<mapsto> n\<lparr>dn_next := None, dn_prev := None\<rparr>)) }"

subsection \<open>Segments\<close>

definition first_or :: "addr option \<Rightarrow> addr list \<Rightarrow> addr option" where
  "first_or q as = (case as of [] \<Rightarrow> q | a # _ \<Rightarrow> Some a)"

definition last_or :: "addr option \<Rightarrow> addr list \<Rightarrow> addr option" where
  "last_or q as = (if as = [] then q else Some (last as))"

lemma first_or_simps [simp]: "first_or q [] = q" "first_or q (a # as) = Some a"
  "first_or q (as @ bs) = first_or (first_or q bs) as"
  by (auto simp: first_or_def split: list.splits)

lemma last_or_simps [simp]: "last_or q [] = q" "last_or q (a # as) = last_or (Some a) as"
  "last_or q (as @ bs) = last_or (last_or q as) bs"
  by (auto simp: last_or_def)

lemma first_or_cases: "(as = [] \<and> first_or q as = q) \<or> (\<exists>a bs. as = a # bs \<and> first_or q as = Some a)"
  by (cases as) auto

lemma last_or_cases: "(as = [] \<and> last_or q as = q) \<or> (\<exists>a bs. as = bs @ [a] \<and> last_or q as = Some a)"
  by (cases as rule: rev_cases) auto

fun dseg :: "dlink_mem \<Rightarrow> addr option \<Rightarrow> addr list \<Rightarrow> addr option \<Rightarrow> bool" where
  "dseg mem p [] q \<longleftrightarrow> True"
| "dseg mem p (a # as) q \<longleftrightarrow>
     (case mem a of None \<Rightarrow> False
      | Some n \<Rightarrow> dn_prev n = p \<and> dn_next n = first_or q as \<and> dseg mem (Some a) as q)"

lemma dseg_Cons [simp]: "dseg mem p (a # as) q \<longleftrightarrow>
    (\<exists>n. mem a = Some n \<and> dn_prev n = p \<and> dn_next n = first_or q as \<and> dseg mem (Some a) as q)"
  by (auto split: option.splits)

declare dseg.simps(2) [simp del]

lemma dseg_append [simp]:
  "dseg mem p (as @ bs) q \<longleftrightarrow> dseg mem p as (first_or q bs) \<and> dseg mem (last_or p as) bs q"
  by (induction as arbitrary: p) (auto split: option.splits)

lemma dseg_upd [simp]: "a \<notin> set as \<Longrightarrow> dseg (mem(a := x)) p as q = dseg mem p as q"
  by (induction as arbitrary: p) (auto split: option.splits)

lemma dseg_allocated: "dseg mem p as q \<Longrightarrow> set as \<subseteq> dom mem"
  by (induction as arbitrary: p) (auto split: option.splits)

definition dl_rep :: "dlink_mem \<Rightarrow> dlink_list \<Rightarrow> addr list \<Rightarrow> bool" where
  "dl_rep mem l as \<longleftrightarrow> distinct as \<and> dl_head l = first_or None as \<and> dl_tail l = last_or None as \<and> dseg mem None as None"

abbreviation data_of :: "dlink_mem \<Rightarrow> addr \<Rightarrow> addr option option" where
  "data_of mem \<equiv> \<lambda>a. map_option dn_data (mem a)"

lemma dl_rep_upd [simp]: "a \<notin> set as \<Longrightarrow> dl_rep (mem(a := x)) l as = dl_rep mem l as"
  by (simp add: dl_rep_def)

lemma dl_rep_empty [simp]: "dl_rep mem \<lparr>dl_head = None, dl_tail = None\<rparr> []"
  by (simp add: dl_rep_def)

lemma dl_rep_next: "dl_rep mem l (us @ m # vs) \<Longrightarrow>
  \<exists>n. mem m = Some n \<and> dn_next n = first_or None vs \<and> dn_prev n = last_or None us"
  by (auto simp: dl_rep_def split: option.splits)

text \<open>The lists built by the three operations. The memory keeps its nodes and, but for the
  node that is linked in, their data.\<close>

lemma data_of_upd: "mem' = mem(a \<mapsto> n) \<Longrightarrow> data_of mem' = (data_of mem)(a \<mapsto> dn_data n)"
  by auto

lemma data_of_same: "mem a = Some n \<Longrightarrow> dn_data n' = dn_data n \<Longrightarrow> data_of (mem(a \<mapsto> n')) = data_of mem"
  by auto

lemma dlinkAddTail_ok:
  assumes r: "dl_rep mem l as" and m: "m \<in> dom mem" "m \<notin> set as"
  shows "\<exists>l' mem'. dlinkAddTail d m l mem = Some (l', mem') \<and> dl_rep mem' l' (as @ [m]) \<and>
    data_of mem' = (data_of mem)(m \<mapsto> d) \<and> dom mem' = dom mem"
proof -
  obtain n where n: "mem m = Some n" using m by auto
  let ?n = "n\<lparr>dn_data := d, dn_next := None, dn_prev := dl_tail l\<rparr>"
  show ?thesis
  proof (cases as rule: rev_cases)
    case Nil
    let ?mem = "mem(m \<mapsto> ?n)"
    have "dlinkAddTail d m l mem = Some (l\<lparr>dl_tail := Some m, dl_head := Some m\<rparr>, ?mem)"
      "dl_rep ?mem (l\<lparr>dl_tail := Some m, dl_head := Some m\<rparr>) (as @ [m])"
      using r n Nil by (simp_all add: dlinkAddTail_def dn_update_def dn_update_if_def dl_rep_def)
    moreover have "data_of ?mem = (data_of mem)(m \<mapsto> d)" "dom ?mem = dom mem" using n by auto
    ultimately show ?thesis by blast
  next
    case (snoc bs b)
    obtain nb where nb: "mem b = Some nb" "b \<noteq> m" "b \<notin> set bs"
      using r m snoc by (auto simp: dl_rep_def split: option.splits)
    let ?mem = "mem(m \<mapsto> ?n, b \<mapsto> nb\<lparr>dn_next := Some m\<rparr>)"
    have h: "dl_head l \<noteq> None" using r snoc by (cases bs) (auto simp: dl_rep_def)
    then have "dlinkAddTail d m l mem = Some (l\<lparr>dl_tail := Some m\<rparr>, ?mem)"
      using r n nb snoc by (simp add: dlinkAddTail_def dn_update_def dn_update_if_def dl_rep_def Let_def)
    moreover have "dl_rep ?mem (l\<lparr>dl_tail := Some m\<rparr>) (as @ [m])"
      using r m nb h snoc by (cases bs) (auto simp: dl_rep_def)
    moreover have "data_of ?mem = (data_of mem)(m \<mapsto> d)" "dom ?mem = dom mem" using n nb by auto
    ultimately show ?thesis by blast
  qed
qed

lemma dlinkDelete_ok:
  assumes r: "dl_rep mem l (us @ m # vs)"
  shows "\<exists>l' mem'. dlinkDelete m l mem = Some (l', mem') \<and> dl_rep mem' l' (us @ vs) \<and>
    data_of mem' = data_of mem \<and> dom mem' = dom mem"
proof -
  obtain n where n: "mem m = Some n" "dn_next n = first_or None vs" "dn_prev n = last_or None us"
    using dl_rep_next [OF r] by blast
  have m: "m \<notin> set us" "m \<notin> set vs" "distinct us" "distinct vs" "set us \<inter> set vs = {}" using r by (auto simp: dl_rep_def)
  have s: "dseg mem None us (Some m)" "dseg mem (Some m) vs None" using r by (auto simp: dl_rep_def split: option.splits)
  let ?m = "n\<lparr>dn_next := None, dn_prev := None\<rparr>"
  show ?thesis
  proof (cases us rule: rev_cases; cases vs)
    assume e: "us = []" "vs = []"
    then show ?thesis using r n by (auto simp: dlinkDelete_def dn_update_if_def dl_rep_def Let_def)
  next
    fix v vs' assume e: "us = []" "vs = v # vs'"
    then obtain nv where nv: "mem v = Some nv" using s by (auto split: option.splits)
    let ?mem = "mem(v \<mapsto> nv\<lparr>dn_prev := None\<rparr>, m \<mapsto> ?m)" and ?l = "l\<lparr>dl_head := Some v\<rparr>"
    have "dlinkDelete m l mem = Some (?l, ?mem)"
      using r n m nv e by (auto simp: dlinkDelete_def dn_update_def dn_update_if_def dl_rep_def Let_def last_or_def)
    moreover have "dl_rep ?mem ?l (us @ vs)"
      using r m nv e s by (auto simp: dl_rep_def last_or_def)
    moreover have "data_of ?mem = data_of mem" "dom ?mem = dom mem" using n nv by auto
    ultimately show ?thesis by blast
  next
    fix us' u assume e: "us = us' @ [u]" "vs = []"
    then obtain nu where nu: "mem u = Some nu" using s by (auto split: option.splits)
    let ?mem = "mem(u \<mapsto> nu\<lparr>dn_next := None\<rparr>, m \<mapsto> ?m)" and ?l = "l\<lparr>dl_tail := Some u\<rparr>"
    have h: "dl_head l \<noteq> Some m" using r e m by (cases us') (auto simp: dl_rep_def)
    then have "dlinkDelete m l mem = Some (?l, ?mem)"
      using r n m nu e by (auto simp: dlinkDelete_def dn_update_def dn_update_if_def dl_rep_def Let_def)
    moreover have "dl_rep ?mem ?l (us @ vs)"
      using r m nu e s by (cases us') (auto simp: dl_rep_def)
    moreover have "data_of ?mem = data_of mem" "dom ?mem = dom mem" using n nu by auto
    ultimately show ?thesis by blast
  next
    fix us' u v vs' assume e: "us = us' @ [u]" "vs = v # vs'"
    then obtain nu nv where nu: "mem u = Some nu" and nv: "mem v = Some nv" using s by (auto split: option.splits)
    let ?mem = "mem(v \<mapsto> nv\<lparr>dn_prev := Some u\<rparr>, u \<mapsto> nu\<lparr>dn_next := Some v\<rparr>, m \<mapsto> ?m)"
    have h: "dl_head l \<noteq> Some m" "dl_tail l \<noteq> Some m" "u \<noteq> v" "u \<notin> set us'" "v \<notin> set vs'" "u \<notin> set vs'" "v \<notin> set us'"
      using r e m by (cases us'; cases vs' rule: rev_cases; auto simp: dl_rep_def)+
    then have "dlinkDelete m l mem = Some (l, ?mem)"
      using n m nu nv e by (auto simp: dlinkDelete_def dn_update_def dn_update_if_def Let_def)
    moreover have "dl_rep ?mem l (us @ vs)"
      using r m nu nv e s h
      by (auto simp: dl_rep_def)
    moreover have "data_of ?mem = data_of mem" "dom ?mem = dom mem" using n nu nv by auto
    ultimately show ?thesis by blast
  qed
qed

lemma dlinkAdd_ok:
  assumes r: "dl_rep mem l as" and m: "m \<in> dom mem" "m \<notin> set as"
  shows "\<exists>l' mem'. dlinkAdd d m l mem = Some (l', mem') \<and> dl_rep mem' l' (m # as) \<and>
    data_of mem' = (data_of mem)(m \<mapsto> d) \<and> dom mem' = dom mem"
proof -
  obtain n where n: "mem m = Some n" using m by auto
  let ?n = "n\<lparr>dn_data := d, dn_prev := None, dn_next := dl_head l\<rparr>"
  show ?thesis
  proof (cases as)
    case Nil
    let ?mem = "mem(m \<mapsto> ?n)" and ?l = "l\<lparr>dl_head := Some m, dl_tail := Some m\<rparr>"
    have "dlinkAdd d m l mem = Some (?l, ?mem)" "dl_rep ?mem ?l (m # as)"
      using r n Nil by (simp_all add: dlinkAdd_def dn_update_def dn_update_if_def dl_rep_def)
    moreover have "data_of ?mem = (data_of mem)(m \<mapsto> d)" "dom ?mem = dom mem" using n by auto
    ultimately show ?thesis by blast
  next
    case (Cons b bs)
    obtain nb where nb: "mem b = Some nb" "b \<noteq> m" "b \<notin> set bs" using r m Cons by (auto simp: dl_rep_def)
    let ?mem = "mem(m \<mapsto> ?n, b \<mapsto> nb\<lparr>dn_prev := Some m\<rparr>)" and ?l = "l\<lparr>dl_head := Some m\<rparr>"
    have t: "dl_tail l \<noteq> None" "dl_tail l = last_or (Some b) bs" using r Cons by (auto simp: dl_rep_def last_or_def)
    then have "dlinkAdd d m l mem = Some (?l, ?mem)" "dl_rep ?mem ?l (m # as)"
      using r m n nb Cons by (auto simp: dlinkAdd_def dn_update_def dn_update_if_def dl_rep_def Let_def last_or_def)
    moreover have "data_of ?mem = (data_of mem)(m \<mapsto> d)" "dom ?mem = dom mem" using n nb by auto
    ultimately show ?thesis by blast
  qed
qed

end
