(* ===== verification/ReplPolicy.thy ===== *)
theory ReplPolicy
  imports Store DList
begin

section \<open>The interface of the removal policies (structs.h, repl/)\<close>

text \<open>
  A removal policy decides which entries leave a cache first. The store hands it entries
  together with the \<open>RemovalPolicyNode\<close> inside the entry (or its memory object) where the
  policy keeps its pointer. \<open>EntryRepl a\<close> and \<open>MemRepl a\<close> are the addresses \<open>&e->repl\<close> and
  \<open>&e->mem_obj->repl\<close>. The locale \<open>removal_policy\<close> is what the store relies on, whichever
  policy is configured; the linked-list and the heap policy are its interpretations.
\<close>

datatype policy_node = EntryRepl addr | MemRepl addr

datatype heap_entry_type = TYPE_UNKNOWN | TYPE_STORE_ENTRY | TYPE_STORE_MEM

definition node_data :: "store \<Rightarrow> policy_node \<Rightarrow> addr option option" where
  "node_data s nd =
     (case nd of
        EntryRepl a \<Rightarrow> do { e \<leftarrow> s_entries s a; Some (e_repl e) }
      | MemRepl a \<Rightarrow> do { e \<leftarrow> s_entries s a; mem \<leftarrow> e_mem_obj e; Some (mem_repl mem) })"

definition set_node_data :: "store \<Rightarrow> policy_node \<Rightarrow> addr option \<Rightarrow> store option" where
  "set_node_data s nd v =
     (case nd of
        EntryRepl a \<Rightarrow> do { e \<leftarrow> s_entries s a; Some (put_entry s a (e\<lparr>e_repl := v\<rparr>)) }
      | MemRepl a \<Rightarrow> do {
          e \<leftarrow> s_entries s a;
          mem \<leftarrow> e_mem_obj e;
          Some (put_entry s a (e\<lparr>e_mem_obj := Some (mem\<lparr>mem_repl := v\<rparr>)\<rparr>)) })"

text \<open>\<open>heap_guessType\<close> and \<open>repl_guessType\<close> are the same function; \<open>fatal\<close> does not return.\<close>

definition repl_guessType :: "store \<Rightarrow> addr \<Rightarrow> policy_node \<Rightarrow> heap_entry_type option" where
  "repl_guessType s entry node =
     (if node = EntryRepl entry then Some TYPE_STORE_ENTRY
      else do {
        e \<leftarrow> s_entries s entry;
        if e_mem_obj e \<noteq> None \<and> node = MemRepl entry then Some TYPE_STORE_MEM else None })"

text \<open>The macro \<open>SET_POLICY_NODE\<close>.\<close>

definition SET_POLICY_NODE :: "heap_entry_type \<Rightarrow> store \<Rightarrow> addr \<Rightarrow> addr option \<Rightarrow> store option" where
  "SET_POLICY_NODE ty s entry v =
     (case ty of
        TYPE_STORE_ENTRY \<Rightarrow> set_node_data s (EntryRepl entry) v
      | TYPE_STORE_MEM \<Rightarrow> set_node_data s (MemRepl entry) v
      | TYPE_UNKNOWN \<Rightarrow> Some s)"

subsection \<open>Policy nodes\<close>

definition pnode :: "heap_entry_type \<Rightarrow> addr \<Rightarrow> policy_node" where
  "pnode ty a = (if ty = TYPE_STORE_MEM then MemRepl a else EntryRepl a)"

text \<open>What an entry is apart from the policy's own field.\<close>

definition but_node :: "heap_entry_type \<Rightarrow> StoreEntry \<Rightarrow> StoreEntry" where
  "but_node ty e =
     (if ty = TYPE_STORE_MEM then e\<lparr>e_mem_obj := map_option (\<lambda>m. m\<lparr>mem_repl := None\<rparr>) (e_mem_obj e)\<rparr>
      else e\<lparr>e_repl := None\<rparr>)"

definition same_entries :: "heap_entry_type \<Rightarrow> store \<Rightarrow> store \<Rightarrow> bool" where
  "same_entries ty s s' \<longleftrightarrow> (\<forall>a. map_option (but_node ty) (s_entries s' a) = map_option (but_node ty) (s_entries s a))
     \<and> s' = s\<lparr>s_entries := s_entries s'\<rparr>"

lemma same_entries_refl [simp]: "same_entries ty s s"
  by (simp add: same_entries_def)

lemma same_entries_trans: "same_entries ty s s1 \<Longrightarrow> same_entries ty s1 s2 \<Longrightarrow> same_entries ty s s2"
  by (auto simp: same_entries_def) (metis store.surjective store.update_convs(4))

lemma set_node_data_ok:
  assumes "node_data s (pnode ty a) = Some d"
  shows "\<exists>s'. set_node_data s (pnode ty a) v = Some s' \<and> same_entries ty s s' \<and>
    (\<lambda>b. node_data s' (pnode ty b)) = (\<lambda>b. node_data s (pnode ty b))(a \<mapsto> v)"
  using assms
  by (auto simp: node_data_def set_node_data_def pnode_def same_entries_def but_node_def put_entry_def fun_eq_iff
      split: if_splits option.splits Option.bind_splits)

lemma same_entries_entry:
  assumes "same_entries ty s s'" "s_entries s a = Some e"
  obtains e' where "s_entries s' a = Some e'" "but_node ty e' = but_node ty e"
    "storeEntryLocked e' = storeEntryLocked e" "e_flags e' = e_flags e"
proof -
  have "map_option (but_node ty) (s_entries s' a) = Some (but_node ty e)" using assms by (auto simp: same_entries_def)
  then obtain e' where e: "s_entries s' a = Some e'" "but_node ty e' = but_node ty e" by auto
  have b: "e_lock_count (but_node ty x) = e_lock_count x" "e_swap_status (but_node ty x) = e_swap_status x"
    "e_store_status (but_node ty x) = e_store_status x" "e_flags (but_node ty x) = e_flags x" for x
    by (simp_all add: but_node_def)
  have "storeEntryLocked e' = storeEntryLocked e" "e_flags e' = e_flags e"
    using b [of e] b [of e'] e(2) by (simp_all add: storeEntryLocked_def)
  with e show thesis by (rule that)
qed

lemma SET_POLICY_NODE_pnode: "ty \<noteq> TYPE_UNKNOWN \<Longrightarrow> SET_POLICY_NODE ty s a v = set_node_data s (pnode ty a) v"
  by (cases ty) (auto simp: SET_POLICY_NODE_def pnode_def)

lemma repl_guessType_pnode:
  "ty \<noteq> TYPE_UNKNOWN \<Longrightarrow> node_data s (pnode ty a) \<noteq> None \<Longrightarrow> repl_guessType s a (pnode ty a) = Some ty"
  by (cases ty) (auto simp: repl_guessType_def pnode_def node_data_def split: Option.bind_splits)

definition entry_locked :: "store \<Rightarrow> addr \<Rightarrow> bool" where
  "entry_locked s a = (case s_entries s a of None \<Rightarrow> False | Some e \<Rightarrow> storeEntryLocked e)"

lemma same_entries_locked: "same_entries ty s s' \<Longrightarrow> entry_locked s' a = entry_locked s a"
proof -
  assume *: "same_entries ty s s'"
  then have "s_entries s' a = None \<longleftrightarrow> s_entries s a = None" unfolding same_entries_def by (metis option.map_disc_iff)
  then show ?thesis using same_entries_entry [OF *, of a] by (fastforce simp: entry_locked_def split: option.splits)
qed

lemma node_data_None: "node_data s (pnode ty a) = None \<longleftrightarrow>
    (case s_entries s a of None \<Rightarrow> True | Some e \<Rightarrow> ty = TYPE_STORE_MEM \<and> e_mem_obj e = None)"
  by (auto simp: node_data_def pnode_def split: option.splits Option.bind_splits)

lemma but_node_mem: "but_node TYPE_STORE_MEM e' = but_node TYPE_STORE_MEM e \<Longrightarrow> e_mem_obj e' = None \<longleftrightarrow> e_mem_obj e = None"
  by (drule arg_cong [where f = e_mem_obj]) (simp add: but_node_def, metis map_option_is_None)

lemma same_entries_node: "same_entries ty s s' \<Longrightarrow> node_data s' (pnode ty a) = None \<longleftrightarrow> node_data s (pnode ty a) = None"
proof -
  assume "same_entries ty s s'"
  then have "map_option (but_node ty) (s_entries s' a) = map_option (but_node ty) (s_entries s a)" by (simp add: same_entries_def)
  then show ?thesis unfolding node_data_None by (auto split: option.splits dest: but_node_mem)
qed

subsection \<open>What the store relies on\<close>

text \<open>
  \<open>managed p s M\<close>: the policy \<open>p\<close> is well formed in the store \<open>s\<close> and manages the entries
  \<open>M\<close>. \<open>touch\<close> is the \<open>Dereferenced\<close> operation. No operation changes anything of the store
  but the policy's own field of the entry.
\<close>

primrec add_list :: "('p \<Rightarrow> store \<Rightarrow> addr \<Rightarrow> policy_node \<Rightarrow> ('p \<times> store) option) \<Rightarrow> heap_entry_type \<Rightarrow>
    'p \<Rightarrow> store \<Rightarrow> addr list \<Rightarrow> ('p \<times> store) option" where
  "add_list add ty p s [] = Some (p, s)"
| "add_list add ty p s (a # as) = do { (p, s) \<leftarrow> add p s a (pnode ty a); add_list add ty p s as }"

locale removal_policy =
  fixes ty :: heap_entry_type
    and managed :: "'p \<Rightarrow> store \<Rightarrow> addr set \<Rightarrow> bool"
    and add :: "'p \<Rightarrow> store \<Rightarrow> addr \<Rightarrow> policy_node \<Rightarrow> ('p \<times> store) option"
    and remove :: "'p \<Rightarrow> store \<Rightarrow> addr \<Rightarrow> policy_node \<Rightarrow> ('p \<times> store) option"
    and touch :: "'p \<Rightarrow> store \<Rightarrow> addr \<Rightarrow> policy_node \<Rightarrow> ('p \<times> store) option"
  assumes field_law: "managed p s M \<Longrightarrow> node_data s (pnode ty a) = Some d \<Longrightarrow> a \<in> M \<longleftrightarrow> d \<noteq> None"
    and member_law: "managed p s M \<Longrightarrow> a \<in> M \<Longrightarrow> \<exists>d. node_data s (pnode ty a) = Some d"
    and add_law: "managed p s M \<Longrightarrow> node_data s (pnode ty a) = Some None \<Longrightarrow> s_entries s a = Some e \<Longrightarrow>
      \<not> has_flag e ENTRY_SPECIAL \<Longrightarrow>
      \<exists>p' s'. add p s a (pnode ty a) = Some (p', s') \<and> managed p' s' (insert a M) \<and> same_entries ty s s'"
    and remove_law: "managed p s M \<Longrightarrow> a \<in> M \<Longrightarrow>
      \<exists>p' s'. remove p s a (pnode ty a) = Some (p', s') \<and> managed p' s' (M - {a}) \<and> same_entries ty s s' \<and>
        node_data s' (pnode ty a) = Some None"
    and touch_law: "managed p s M \<Longrightarrow> a \<in> M \<Longrightarrow>
      \<exists>p' s'. touch p s a (pnode ty a) = Some (p', s') \<and> managed p' s' M \<and> same_entries ty s s'"
begin

lemma add_remove:
  assumes m: "managed p s M" and n: "node_data s (pnode ty a) = Some None" and e: "s_entries s a = Some e"
    and sp: "\<not> has_flag e ENTRY_SPECIAL"
  shows "\<exists>p1 s1 p2 s2. add p s a (pnode ty a) = Some (p1, s1) \<and> a \<notin> M \<and> managed p1 s1 (insert a M) \<and>
    remove p1 s1 a (pnode ty a) = Some (p2, s2) \<and> managed p2 s2 M \<and> same_entries ty s s2"
proof -
  have a: "a \<notin> M" using field_law [OF m n] by simp
  obtain p1 s1 where 1: "add p s a (pnode ty a) = Some (p1, s1)" "managed p1 s1 (insert a M)" "same_entries ty s s1"
    using add_law [OF m n e sp] by blast
  obtain p2 s2 where 2: "remove p1 s1 a (pnode ty a) = Some (p2, s2)" "managed p2 s2 (insert a M - {a})" "same_entries ty s1 s2"
    using remove_law [OF 1(2), of a] by blast
  have "insert a M - {a} = M" using a by auto
  then show ?thesis using a 1 2 same_entries_trans [OF 1(3) 2(3)] by auto
qed

lemma add_all:
  assumes "managed p s M" "distinct as" "\<forall>a \<in> set as. a \<notin> M \<and> node_data s (pnode ty a) \<noteq> None \<and>
    (\<exists>e. s_entries s a = Some e \<and> \<not> has_flag e ENTRY_SPECIAL)"
  shows "\<exists>p' s'. add_list add ty p s as = Some (p', s') \<and> managed p' s' (M \<union> set as) \<and> same_entries ty s s'"
  using assms
proof (induction as arbitrary: p s M)
  case Nil
  then show ?case by simp
next
  case (Cons a as)
  obtain d e where d: "node_data s (pnode ty a) = Some d" "s_entries s a = Some e" "\<not> has_flag e ENTRY_SPECIAL"
    using Cons.prems(3) by auto
  then have "node_data s (pnode ty a) = Some None" using field_law [OF Cons.prems(1) d(1)] Cons.prems(3) by simp
  then obtain p1 s1 where 1: "add p s a (pnode ty a) = Some (p1, s1)" "managed p1 s1 (insert a M)" "same_entries ty s s1"
    using add_law [OF Cons.prems(1) _ d(2,3)] by blast
  have "\<exists>e. s_entries s1 b = Some e \<and> \<not> has_flag e ENTRY_SPECIAL" if "b \<in> set as" for b
  proof -
    obtain e where "s_entries s b = Some e" "\<not> has_flag e ENTRY_SPECIAL" using Cons.prems(3) \<open>b \<in> set as\<close> by auto
    then show ?thesis using same_entries_entry [OF 1(3), of b e] by metis
  qed
  then obtain p2 s2 where 2: "add_list add ty p1 s1 as = Some (p2, s2)" "managed p2 s2 (insert a M \<union> set as)" "same_entries ty s1 s2"
    using Cons.IH [OF 1(2)] Cons.prems(2,3) same_entries_node [OF 1(3)] by force
  then show ?case using 1(1) same_entries_trans [OF 1(3) 2(3)] by auto
qed

lemma remove_add:
  assumes m: "managed p s M" and a: "a \<in> M" and e: "s_entries s a = Some e" and sp: "\<not> has_flag e ENTRY_SPECIAL"
  shows "\<exists>p1 s1 p2 s2. remove p s a (pnode ty a) = Some (p1, s1) \<and> add p1 s1 a (pnode ty a) = Some (p2, s2) \<and>
    managed p2 s2 M \<and> same_entries ty s s2"
proof -
  obtain p1 s1 where 1: "remove p s a (pnode ty a) = Some (p1, s1)" "managed p1 s1 (M - {a})" "same_entries ty s s1"
    "node_data s1 (pnode ty a) = Some None" using remove_law [OF m a] by blast
  obtain e1 where e1: "s_entries s1 a = Some e1" "e_flags e1 = e_flags e" by (rule same_entries_entry [OF 1(3) e])
  obtain p2 s2 where 2: "add p1 s1 a (pnode ty a) = Some (p2, s2)" "managed p2 s2 (insert a (M - {a}))" "same_entries ty s1 s2"
    using add_law [OF 1(2,4) e1(1)] e1(2) sp by auto
  have "insert a (M - {a}) = M" using a by auto
  then show ?thesis using 1(1) 2(1,2) same_entries_trans [OF 1(3) 2(3)] by auto
qed

end

text \<open>The loops that make room call \<open>Next\<close> until they have removed enough or it returns
  \<open>NULL\<close>.\<close>

primrec purge_take :: "('p \<Rightarrow> store \<Rightarrow> 'w \<Rightarrow> (addr option \<times> 'p \<times> store \<times> 'w) option) \<Rightarrow> nat \<Rightarrow>
    'p \<Rightarrow> store \<Rightarrow> 'w \<Rightarrow> (addr list \<times> 'p \<times> store \<times> 'w) option" where
  "purge_take next 0 p s w = Some ([], p, s, w)"
| "purge_take next (Suc n) p s w = do {
     (r, p, s, w) \<leftarrow> next p s w;
     case r of
       None \<Rightarrow> Some ([], p, s, w)
     | Some a \<Rightarrow> do { (as, p, s, w) \<leftarrow> purge_take next n p s w; Some (a # as, p, s, w) } }"

locale purging_policy = removal_policy ty managed add remove touch
  for ty :: heap_entry_type
    and managed :: "'p \<Rightarrow> store \<Rightarrow> addr set \<Rightarrow> bool"
    and add :: "'p \<Rightarrow> store \<Rightarrow> addr \<Rightarrow> policy_node \<Rightarrow> ('p \<times> store) option"
    and remove :: "'p \<Rightarrow> store \<Rightarrow> addr \<Rightarrow> policy_node \<Rightarrow> ('p \<times> store) option"
    and touch :: "'p \<Rightarrow> store \<Rightarrow> addr \<Rightarrow> policy_node \<Rightarrow> ('p \<times> store) option" +
  fixes purging :: "'p \<Rightarrow> store \<Rightarrow> 'w \<Rightarrow> addr set \<Rightarrow> bool"
    and pnext :: "'p \<Rightarrow> store \<Rightarrow> 'w \<Rightarrow> (addr option \<times> 'p \<times> store \<times> 'w) option"
  assumes purging_managed: "purging p s w M \<Longrightarrow> managed p s M"
    and next_law: "purging p s w M \<Longrightarrow> \<exists>r p' s' w'. pnext p s w = Some (r, p', s', w') \<and> same_entries ty s s' \<and>
      (case r of None \<Rightarrow> purging p' s' w' M
       | Some a \<Rightarrow> a \<in> M \<and> \<not> entry_locked s a \<and> purging p' s' w' (M - {a}) \<and> node_data s' (pnode ty a) = Some None)"
begin

lemma purge_take_ok:
  "purging p s w M \<Longrightarrow> \<exists>as p' s' w'. purge_take pnext n p s w = Some (as, p', s', w') \<and> length as \<le> n \<and> distinct as \<and>
    set as \<subseteq> M \<and> (\<forall>a \<in> set as. \<not> entry_locked s a) \<and> managed p' s' (M - set as) \<and> same_entries ty s s'"
proof (induction n arbitrary: p s w M)
  case 0
  then show ?case using purging_managed by auto
next
  case (Suc n)
  obtain r p1 s1 w1 where 1: "pnext p s w = Some (r, p1, s1, w1)" "same_entries ty s s1"
    "case r of None \<Rightarrow> purging p1 s1 w1 M | Some a \<Rightarrow> a \<in> M \<and> \<not> entry_locked s a \<and> purging p1 s1 w1 (M - {a})"
    using next_law [OF Suc.prems] by (fastforce split: option.splits)
  show ?case
  proof (cases r)
    case None
    then show ?thesis using 1 purging_managed by auto
  next
    case (Some a)
    then have a: "a \<in> M" "\<not> entry_locked s a" "purging p1 s1 w1 (M - {a})" using 1(3) by simp_all
    obtain as p2 s2 w2 where 2: "purge_take pnext n p1 s1 w1 = Some (as, p2, s2, w2)" "length as \<le> n" "distinct as"
      "set as \<subseteq> M - {a}" "\<forall>a \<in> set as. \<not> entry_locked s1 a" "managed p2 s2 (M - {a} - set as)" "same_entries ty s1 s2"
      using Suc.IH [OF a(3)] by blast
    have "M - {a} - set as = M - set (a # as)" by auto
    then show ?thesis using 1(1,2) a 2 Some same_entries_locked [OF 1(2)] same_entries_trans [OF 1(2) 2(7)] by auto
  qed
qed

end

end
