(* ===== verification/LruPolicy.thy ===== *)
theory LruPolicy
  imports ReplPolicy
begin

section \<open>The linked-list removal policy (repl/lru/store_repl_lru.c)\<close>

text \<open>
  The default policy: a doubly linked list of entries, the least recently used one first.
  The nodes come from \<open>lru_node_pool\<close>, modelled by \<open>lru_nodes\<close> with addresses that are not
  used twice. A purge walker moves the locked entries it meets to the end of the list and
  returns the first one that is not locked; its loop is a partial function, and the lemmas
  show that it ends.
\<close>

record LruPolicyData =
  lru_list :: dlink_list
  lru_count :: int
  lru_nwalkers :: int
  lru_type :: heap_entry_type
  lru_nodes :: dlink_mem
  lru_brk :: addr

definition createRemovalPolicy_lru :: "string list \<Rightarrow> LruPolicyData option" where
  "createRemovalPolicy_lru args = do {
     c_assert (args = []);
     Some \<lparr>lru_list = \<lparr>dl_head = None, dl_tail = None\<rparr>, lru_count = 0, lru_nwalkers = 0,
           lru_type = TYPE_UNKNOWN, lru_nodes = (\<lambda>_. None), lru_brk = 1\<rparr> }"

definition lru_add :: "LruPolicyData \<Rightarrow> store \<Rightarrow> addr \<Rightarrow> policy_node \<Rightarrow> (LruPolicyData \<times> store) option" where
  "lru_add lru s entry node = do {
     d \<leftarrow> node_data s node;
     c_assert (d = None);
     let lru_node = lru_brk lru;
     let nodes = (lru_nodes lru)(lru_node \<mapsto> \<lparr>dn_data = None, dn_prev = None, dn_next = None\<rparr>);
     s \<leftarrow> set_node_data s node (Some lru_node);
     (l, nodes) \<leftarrow> dlinkAddTail (Some entry) lru_node (lru_list lru) nodes;
     ty \<leftarrow> (if lru_type lru = TYPE_UNKNOWN then repl_guessType s entry node else Some (lru_type lru));
     Some (lru\<lparr>lru_list := l, lru_nodes := nodes, lru_brk := Suc lru_node, lru_count := lru_count lru + 1,
               lru_type := ty\<rparr>, s) }"

definition lru_remove :: "LruPolicyData \<Rightarrow> store \<Rightarrow> addr \<Rightarrow> policy_node \<Rightarrow> (LruPolicyData \<times> store) option" where
  "lru_remove lru s entry node = do {
     d \<leftarrow> node_data s node;
     case d of
       None \<Rightarrow> Some (lru, s)
     | Some lru_node \<Rightarrow> do {
         n \<leftarrow> lru_nodes lru lru_node;
         if dn_data n = None then Some (lru, s)
         else do {
           c_assert (dn_data n = Some entry);
           s \<leftarrow> set_node_data s node None;
           (l, nodes) \<leftarrow> dlinkDelete lru_node (lru_list lru) (lru_nodes lru);
           Some (lru\<lparr>lru_list := l, lru_nodes := nodes(lru_node := None), lru_count := lru_count lru - 1\<rparr>, s) } } }"

definition lru_referenced :: "LruPolicyData \<Rightarrow> store \<Rightarrow> addr \<Rightarrow> policy_node \<Rightarrow> (LruPolicyData \<times> store) option" where
  "lru_referenced lru s entry node = do {
     d \<leftarrow> node_data s node;
     case d of
       None \<Rightarrow> Some (lru, s)
     | Some lru_node \<Rightarrow> do {
         (l, nodes) \<leftarrow> dlinkDelete lru_node (lru_list lru) (lru_nodes lru);
         (l, nodes) \<leftarrow> dlinkAddTail (Some entry) lru_node l nodes;
         Some (lru\<lparr>lru_list := l, lru_nodes := nodes\<rparr>, s) } }"

subsection \<open>Walkers\<close>

definition lru_walkInit :: "LruPolicyData \<Rightarrow> addr option \<times> LruPolicyData" where
  "lru_walkInit lru = (dl_head (lru_list lru), lru\<lparr>lru_nwalkers := lru_nwalkers lru + 1\<rparr>)"

text \<open>The state of a walker is its node; the result is the entry and the next node.\<close>

definition lru_walkNext :: "LruPolicyData \<Rightarrow> addr option \<Rightarrow> (addr option \<times> addr option) option" where
  "lru_walkNext lru current =
     (case current of
        None \<Rightarrow> Some (None, None)
      | Some lru_node \<Rightarrow> do { n \<leftarrow> lru_nodes lru lru_node; Some (dn_data n, dn_next n) })"

definition lru_walkDone :: "LruPolicyData \<Rightarrow> LruPolicyData option" where
  "lru_walkDone lru = do {
     c_assert (0 < lru_nwalkers lru);
     Some (lru\<lparr>lru_nwalkers := lru_nwalkers lru - 1\<rparr>) }"

record LruPurgeData =
  lw_current :: "addr option"
  lw_start :: "addr option"
  lw_scanned :: int
  lw_max_scan :: int
  lw_locked :: int

definition lru_purgeInit :: "LruPolicyData \<Rightarrow> int \<Rightarrow> LruPurgeData \<times> LruPolicyData" where
  "lru_purgeInit lru max_scan =
     (\<lparr>lw_current = dl_head (lru_list lru), lw_start = dl_head (lru_list lru), lw_scanned = 0,
       lw_max_scan = max_scan, lw_locked = 0\<rparr>,
      lru\<lparr>lru_nwalkers := lru_nwalkers lru + 1\<rparr>)"

partial_function (option) lru_purgeNext ::
  "LruPolicyData \<Rightarrow> store \<Rightarrow> LruPurgeData \<Rightarrow> (addr option \<times> LruPolicyData \<times> store \<times> LruPurgeData) option" where
  "lru_purgeNext lru s w =
     (case lw_current w of
        None \<Rightarrow> Some (None, lru, s, w)
      | Some lru_node \<Rightarrow>
          if lw_max_scan w \<le> lw_scanned w then Some (None, lru, s, w)
          else do {
            n \<leftarrow> lru_nodes lru lru_node;
            let w = w\<lparr>lw_scanned := lw_scanned w + 1,
                      lw_current := (if dn_next n = lw_start w then None else dn_next n)\<rparr>;
            entry \<leftarrow> dn_data n;
            (l, nodes) \<leftarrow> dlinkDelete lru_node (lru_list lru) (lru_nodes lru);
            e \<leftarrow> s_entries s entry;
            if storeEntryLocked e
            then do {
              (l, nodes) \<leftarrow> dlinkAddTail (Some entry) lru_node l nodes;
              lru_purgeNext (lru\<lparr>lru_list := l, lru_nodes := nodes\<rparr>) s (w\<lparr>lw_locked := lw_locked w + 1\<rparr>) }
            else do {
              s \<leftarrow> SET_POLICY_NODE (lru_type lru) s entry None;
              Some (Some entry,
                    lru\<lparr>lru_list := l, lru_nodes := nodes(lru_node := None), lru_count := lru_count lru - 1\<rparr>,
                    s, w) } })"

definition lru_purgeDone :: "LruPolicyData \<Rightarrow> LruPolicyData option" where
  "lru_purgeDone lru = do {
     c_assert (0 < lru_nwalkers lru);
     Some (lru\<lparr>lru_nwalkers := lru_nwalkers lru - 1\<rparr>) }"

definition lru_free :: "LruPolicyData \<Rightarrow> unit option" where
  "lru_free lru = do {
     c_assert (lru_nwalkers lru \<noteq> 0);
     c_assert (lru_count lru \<noteq> 0);
     Some () }"

subsection \<open>The list a policy stands for\<close>

text \<open>\<open>ps\<close> are the entries in their order, each with the node that holds it. The policy
  field of an entry points to its node exactly while the entry is in the list.\<close>

definition lru_inv :: "heap_entry_type \<Rightarrow> LruPolicyData \<Rightarrow> store \<Rightarrow> (addr \<times> addr) list \<Rightarrow> bool" where
  "lru_inv ty lru s ps \<longleftrightarrow> ty \<noteq> TYPE_UNKNOWN \<and> dl_rep (lru_nodes lru) (lru_list lru) (map snd ps) \<and>
     dom (lru_nodes lru) = snd ` set ps \<and> (\<forall>p \<in> snd ` set ps. p < lru_brk lru) \<and> distinct (map fst ps) \<and>
     (\<forall>(a, p) \<in> set ps. data_of (lru_nodes lru) p = Some (Some a)) \<and> lru_count lru = int (length ps) \<and>
     (lru_type lru = ty \<or> lru_type lru = TYPE_UNKNOWN \<and> ps = []) \<and>
     (\<forall>a p. node_data s (pnode ty a) = Some (Some p) \<longleftrightarrow> (a, p) \<in> set ps)"

lemma lru_inv_nodes: "lru_inv ty lru s ps \<Longrightarrow> distinct (map snd ps)"
  by (simp add: lru_inv_def dl_rep_def)

lemma lru_inv_node: "lru_inv ty lru s ps \<Longrightarrow> (a, p) \<in> set ps \<Longrightarrow>
  node_data s (pnode ty a) = Some (Some p) \<and> (\<exists>n. lru_nodes lru p = Some n \<and> dn_data n = Some a)"
  by (fastforce simp: lru_inv_def)

lemma lru_inv_field: "lru_inv ty lru s ps \<Longrightarrow> node_data s (pnode ty a) = Some (Some q) \<longleftrightarrow> (a, q) \<in> set ps"
  by (simp add: lru_inv_def)

lemma lru_create_inv:
  assumes "ty \<noteq> TYPE_UNKNOWN" "\<forall>a p. node_data s (pnode ty a) \<noteq> Some (Some p)"
  shows "\<exists>lru. createRemovalPolicy_lru [] = Some lru \<and> lru_inv ty lru s []"
  using assms by (simp add: createRemovalPolicy_lru_def lru_inv_def)

lemma lru_add_ok:
  assumes i: "lru_inv ty lru s ps" and n: "node_data s (pnode ty a) = Some None"
  shows "\<exists>lru' s'. lru_add lru s a (pnode ty a) = Some (lru', s') \<and> lru_inv ty lru' s' (ps @ [(a, lru_brk lru)]) \<and>
    same_entries ty s s'"
proof -
  let ?b = "lru_brk lru" and ?z = "\<lparr>dn_data = None, dn_prev = None, dn_next = None\<rparr>"
  let ?m = "(lru_nodes lru)(lru_brk lru \<mapsto> ?z)"
  have ty: "ty \<noteq> TYPE_UNKNOWN" and b: "?b \<notin> snd ` set ps" "?b \<notin> set (map snd ps)" and a: "a \<notin> fst ` set ps" "\<And>p. (a, p) \<notin> set ps"
    using i n lru_inv_node [OF i, of a] by (auto simp: lru_inv_def)
  obtain s' where s': "set_node_data s (pnode ty a) (Some ?b) = Some s'" "same_entries ty s s'"
    "(\<lambda>c. node_data s' (pnode ty c)) = (\<lambda>c. node_data s (pnode ty c))(a \<mapsto> Some ?b)"
    using set_node_data_ok [OF n] by blast
  have nd: "node_data s' (pnode ty c) = (if c = a then Some (Some ?b) else node_data s (pnode ty c))" for c
    using fun_cong [OF s'(3), of c] by simp
  have "dl_rep ?m (lru_list lru) (map snd ps)" using i b by (simp add: lru_inv_def dl_rep_def)
  then obtain l' m' where m': "dlinkAddTail (Some a) ?b (lru_list lru) ?m = Some (l', m')"
    "dl_rep m' l' (map snd ps @ [?b])" "data_of m' = (data_of ?m)(?b \<mapsto> Some a)" "dom m' = dom ?m"
    using dlinkAddTail_ok [of ?m "lru_list lru" "map snd ps" ?b "Some a"] b(2) by auto
  have d: "data_of m' p = (if p = ?b then Some (Some a) else data_of (lru_nodes lru) p)" for p
    using fun_cong [OF m'(3), of p] by simp
  let ?lru = "lru\<lparr>lru_list := l', lru_nodes := m', lru_brk := Suc ?b, lru_count := lru_count lru + 1, lru_type := ty\<rparr>"
  have "lru_add lru s a (pnode ty a) = Some (?lru, s')"
    using n s'(1) m'(1) i repl_guessType_pnode [OF ty, of s' a] nd [of a] by (auto simp: lru_add_def lru_inv_def Let_def)
  moreover have "lru_inv ty ?lru s' (ps @ [(a, ?b)])"
    using i a b m'(2,4) nd d by (auto simp: lru_inv_def less_Suc_eq)
  ultimately show ?thesis using s'(2) by blast
qed

lemma lru_unlink:
  assumes i: "lru_inv ty lru s (us @ (a, p) # vs)"
  obtains l m where "dlinkDelete p (lru_list lru) (lru_nodes lru) = Some (l, m)" "dl_rep m l (map snd (us @ vs))"
    "data_of m = data_of (lru_nodes lru)" "dom m = insert p (snd ` set (us @ vs))" "p \<notin> snd ` set (us @ vs)"
    "a \<notin> fst ` set (us @ vs)"
proof -
  have "dl_rep (lru_nodes lru) (lru_list lru) (map snd us @ p # map snd vs)" using i by (simp add: lru_inv_def)
  from dlinkDelete_ok [OF this] obtain l m where m: "dlinkDelete p (lru_list lru) (lru_nodes lru) = Some (l, m)"
    "dl_rep m l (map snd (us @ vs))" "data_of m = data_of (lru_nodes lru)" "dom m = dom (lru_nodes lru)" by auto
  have "p \<notin> snd ` set (us @ vs)" "a \<notin> fst ` set (us @ vs)" using i lru_inv_nodes [OF i] by (auto simp: lru_inv_def)
  moreover have "dom m = insert p (snd ` set (us @ vs))" using m(4) i by (auto simp: lru_inv_def)
  ultimately show thesis using that m(1-3) by blast
qed

text \<open>Taking an entry out of the list, in \<open>lru_remove\<close> and \<open>lru_purgeNext\<close>.\<close>

lemma lru_drop:
  assumes i: "lru_inv ty lru s (us @ (a, p) # vs)"
  obtains l m s' where "dlinkDelete p (lru_list lru) (lru_nodes lru) = Some (l, m)"
    "set_node_data s (pnode ty a) None = Some s'" "same_entries ty s s'" "node_data s' (pnode ty a) = Some None"
    "lru_inv ty (lru\<lparr>lru_list := l, lru_nodes := m(p := None), lru_count := lru_count lru - 1\<rparr>) s' (us @ vs)"
proof -
  obtain l m where m: "dlinkDelete p (lru_list lru) (lru_nodes lru) = Some (l, m)" "dl_rep m l (map snd (us @ vs))"
    "data_of m = data_of (lru_nodes lru)" "dom m = insert p (snd ` set (us @ vs))" "p \<notin> snd ` set (us @ vs)"
    and a: "a \<notin> fst ` set (us @ vs)"
    by (rule lru_unlink [OF i])
  define A where "A = us @ vs"
  have A: "set (us @ (a, p) # vs) = insert (a, p) (set A)" "length (us @ (a, p) # vs) = Suc (length A)" "distinct (map fst A)"
    using i by (auto simp: A_def lru_inv_def)
  have n: "node_data s (pnode ty a) = Some (Some p)" using lru_inv_node [OF i, of a p] by simp
  obtain s' where s': "set_node_data s (pnode ty a) None = Some s'" "same_entries ty s s'"
    "(\<lambda>c. node_data s' (pnode ty c)) = (\<lambda>c. node_data s (pnode ty c))(a \<mapsto> None)"
    using set_node_data_ok [OF n] by blast
  have nd: "node_data s' (pnode ty c) = (if c = a then Some None else node_data s (pnode ty c))" for c
    using fun_cong [OF s'(3), of c] by simp
  have d: "data_of (m(p := None)) q = (if q = p then None else data_of (lru_nodes lru) q)" for q
    using fun_cong [OF m(3), of q] by simp
  have o: "ty \<noteq> TYPE_UNKNOWN" "\<forall>q \<in> snd ` set A. q < lru_brk lru" "\<forall>(c, q) \<in> set A. data_of (lru_nodes lru) q = Some (Some c)"
    "lru_count lru - 1 = int (length A)" "lru_type lru = ty"
    "\<And>c q. node_data s (pnode ty c) = Some (Some q) \<longleftrightarrow> (c, q) = (a, p) \<or> (c, q) \<in> set A"
    using i unfolding lru_inv_def A by auto
  have ap: "p \<notin> snd ` set A" "a \<notin> fst ` set A" using m(5) a by (simp_all add: A_def)
  define m2 where "m2 = m(p := None)"
  have "dl_rep m2 l (map snd A)" using m(2) ap by (simp add: A_def m2_def image_Un)
  moreover have "dom m2 = snd ` set A" using m(4) ap by (auto simp: A_def m2_def)
  moreover have "data_of m2 q = Some (Some c)" if "(c, q) \<in> set A" for c q
  proof -
    have "q \<noteq> p" using that ap(1) by force
    with o(3) that d [of q] m2_def show ?thesis by fastforce
  qed
  moreover have "node_data s' (pnode ty c) = Some (Some q) \<longleftrightarrow> (c, q) \<in> set A" for c q
    unfolding nd o(6) using ap(2) o(6) [of c q] by (cases "c = a") force+
  ultimately have "lru_inv ty (lru\<lparr>lru_list := l, lru_nodes := m2, lru_count := lru_count lru - 1\<rparr>) s' A"
    using o(1,2,4,5) A(3) unfolding lru_inv_def by auto
  then show thesis using that m(1) s'(1,2) nd [of a] unfolding A_def m2_def by simp
qed

text \<open>Moving an entry to the end, in \<open>lru_referenced\<close> and \<open>lru_purgeNext\<close>.\<close>

lemma lru_move:
  assumes i: "lru_inv ty lru s (us @ (a, p) # vs)"
  obtains l m l' m' where "dlinkDelete p (lru_list lru) (lru_nodes lru) = Some (l, m)"
    "dlinkAddTail (Some a) p l m = Some (l', m')"
    "lru_inv ty (lru\<lparr>lru_list := l', lru_nodes := m'\<rparr>) s (us @ vs @ [(a, p)])"
proof -
  obtain l m where m: "dlinkDelete p (lru_list lru) (lru_nodes lru) = Some (l, m)" "dl_rep m l (map snd (us @ vs))"
    "data_of m = data_of (lru_nodes lru)" "dom m = insert p (snd ` set (us @ vs))" "p \<notin> snd ` set (us @ vs)"
    and a: "a \<notin> fst ` set (us @ vs)"
    by (rule lru_unlink [OF i])
  obtain l' m' where m': "dlinkAddTail (Some a) p l m = Some (l', m')" "dl_rep m' l' (map snd (us @ vs) @ [p])"
    "data_of m' = (data_of m)(p \<mapsto> Some a)" "dom m' = dom m"
    using dlinkAddTail_ok [OF m(2), of p "Some a"] m(4,5) by auto
  have d: "data_of m' q = data_of (lru_nodes lru) q" for q
    using fun_cong [OF m'(3), of q] fun_cong [OF m(3), of q] lru_inv_node [OF i, of a p] by auto
  have "lru_inv ty (lru\<lparr>lru_list := l', lru_nodes := m'\<rparr>) s (us @ vs @ [(a, p)])"
    using i m'(2,4) m(4) a d unfolding lru_inv_def by auto
  then show thesis by (rule that [OF m(1) m'(1)])
qed

lemma lru_remove_ok:
  assumes i: "lru_inv ty lru s (us @ (a, p) # vs)"
  shows "\<exists>lru' s'. lru_remove lru s a (pnode ty a) = Some (lru', s') \<and> lru_inv ty lru' s' (us @ vs) \<and>
    same_entries ty s s' \<and> node_data s' (pnode ty a) = Some None"
proof -
  have n: "node_data s (pnode ty a) = Some (Some p)" "\<exists>n. lru_nodes lru p = Some n \<and> dn_data n = Some a"
    using lru_inv_node [OF i, of a p] by simp_all
  show ?thesis by (rule lru_drop [OF i]) (use n in \<open>auto simp: lru_remove_def\<close>)
qed

lemma lru_referenced_ok:
  assumes i: "lru_inv ty lru s (us @ (a, p) # vs)"
  shows "\<exists>lru'. lru_referenced lru s a (pnode ty a) = Some (lru', s) \<and> lru_inv ty lru' s (us @ vs @ [(a, p)])"
  by (rule lru_move [OF i]) (use lru_inv_node [OF i, of a p] in \<open>auto simp: lru_referenced_def\<close>)

lemma lru_untracked:
  assumes "node_data s nd = Some None"
  shows "lru_remove lru s a nd = Some (lru, s)" "lru_referenced lru s a nd = Some (lru, s)"
  using assms by (simp_all add: lru_remove_def lru_referenced_def)

subsection \<open>Purging\<close>

lemma lru_inv_entry: "lru_inv ty lru s ps \<Longrightarrow> (a, p) \<in> set ps \<Longrightarrow> \<exists>e. s_entries s a = Some e"
  by (drule (1) lru_inv_node) (auto simp: node_data_def pnode_def split: if_splits Option.bind_splits)

lemma lru_next:
  assumes i: "lru_inv ty lru s (us @ (a, p) # vs)"
  obtains n e where "lru_nodes lru p = Some n" "dn_data n = Some a" "dn_next n = first_or None (map snd vs)"
    "s_entries s a = Some e"
proof -
  have "dl_rep (lru_nodes lru) (lru_list lru) (map snd us @ p # map snd vs)" using i by (simp add: lru_inv_def)
  from dl_rep_next [OF this] lru_inv_node [OF i, of a p] lru_inv_entry [OF i, of a p] that show thesis by auto
qed

text \<open>One turn of the loop of \<open>lru_purgeNext\<close>: at a locked entry it goes on with the entry
  moved to the end, at another one it returns it.\<close>

lemma lru_purge_locked:
  assumes i: "lru_inv ty lru s (us @ (a, p) # vs)" and c: "lw_current w = Some p" "lw_scanned w < lw_max_scan w"
    and k: "entry_locked s a"
  obtains lru' where "lru_inv ty lru' s (us @ vs @ [(a, p)])"
    "lru_purgeNext lru s w = lru_purgeNext lru' s (w\<lparr>lw_scanned := lw_scanned w + 1, lw_current := (if first_or None (map snd vs) = lw_start w then None else first_or None (map snd vs)),
       lw_locked := lw_locked w + 1\<rparr>)"
proof -
  obtain n e where n: "lru_nodes lru p = Some n" "dn_data n = Some a" "dn_next n = first_or None (map snd vs)"
    "s_entries s a = Some e" by (rule lru_next [OF i])
  obtain l m l' m' where m: "dlinkDelete p (lru_list lru) (lru_nodes lru) = Some (l, m)"
    "dlinkAddTail (Some a) p l m = Some (l', m')"
    "lru_inv ty (lru\<lparr>lru_list := l', lru_nodes := m'\<rparr>) s (us @ vs @ [(a, p)])" by (rule lru_move [OF i])
  have "lru_purgeNext lru s w = lru_purgeNext (lru\<lparr>lru_list := l', lru_nodes := m'\<rparr>) s (w\<lparr>lw_scanned := lw_scanned w + 1,
       lw_current := (if first_or None (map snd vs) = lw_start w then None else first_or None (map snd vs)),
       lw_locked := lw_locked w + 1\<rparr>)"
    using n m(1,2) c k by (subst lru_purgeNext.simps) (simp add: entry_locked_def Let_def)
  with m(3) show thesis by (rule that)
qed

lemma lru_purge_unlocked:
  assumes i: "lru_inv ty lru s (us @ (a, p) # vs)" and c: "lw_current w = Some p" "lw_scanned w < lw_max_scan w"
    and k: "\<not> entry_locked s a"
  obtains lru' s' where "lru_inv ty lru' s' (us @ vs)" "same_entries ty s s'" "node_data s' (pnode ty a) = Some None"
    "lru_purgeNext lru s w = Some (Some a, lru', s', w\<lparr>lw_scanned := lw_scanned w + 1,
       lw_current := (if first_or None (map snd vs) = lw_start w then None else first_or None (map snd vs))\<rparr>)"
proof -
  obtain n e where n: "lru_nodes lru p = Some n" "dn_data n = Some a" "dn_next n = first_or None (map snd vs)"
    "s_entries s a = Some e" by (rule lru_next [OF i])
  obtain l m s' where m: "dlinkDelete p (lru_list lru) (lru_nodes lru) = Some (l, m)"
    "set_node_data s (pnode ty a) None = Some s'" "same_entries ty s s'" "node_data s' (pnode ty a) = Some None"
    "lru_inv ty (lru\<lparr>lru_list := l, lru_nodes := m(p := None), lru_count := lru_count lru - 1\<rparr>) s' (us @ vs)"
    by (rule lru_drop [OF i])
  have "lru_type lru = ty" "ty \<noteq> TYPE_UNKNOWN" using i by (auto simp: lru_inv_def)
  then have "lru_purgeNext lru s w = Some (Some a, lru\<lparr>lru_list := l, lru_nodes := m(p := None), lru_count := lru_count lru - 1\<rparr>,
       s', w\<lparr>lw_scanned := lw_scanned w + 1,
       lw_current := (if first_or None (map snd vs) = lw_start w then None else first_or None (map snd vs))\<rparr>)"
    using n m(1,2) c k by (subst lru_purgeNext.simps) (simp add: entry_locked_def Let_def SET_POLICY_NODE_pnode)
  with m(5,3,4) show thesis by (rule that)
qed

lemma lru_purge_stop:
  "lw_current w = None \<or> lw_max_scan w \<le> lw_scanned w \<Longrightarrow> lru_purgeNext lru s w = Some (None, lru, s, w)"
  by (subst lru_purgeNext.simps) (auto split: option.splits)

text \<open>The walker returns the first unlocked entry of \<open>rest\<close>; the locked ones before it are
  then at the end, behind those that were moved there already.\<close>

definition lru_evicts :: "heap_entry_type \<Rightarrow> LruPolicyData \<Rightarrow> store \<Rightarrow> LruPurgeData \<Rightarrow> (addr \<times> addr) list \<Rightarrow> (addr \<times> addr) list \<Rightarrow> bool" where
  "lru_evicts ty lru s w rest moved \<longleftrightarrow> (\<exists>lru' s' w' ls a p vs. rest = ls @ (a, p) # vs \<and>
     (\<forall>x \<in> set ls. entry_locked s (fst x)) \<and> \<not> entry_locked s a \<and>
     lru_purgeNext lru s w = Some (Some a, lru', s', w') \<and> lru_inv ty lru' s' (vs @ moved @ ls) \<and>
     same_entries ty s s' \<and> node_data s' (pnode ty a) = Some None)"

lemma lru_evicts_first:
  assumes i: "lru_inv ty lru s ((a, p) # rest @ moved)" and c: "lw_current w = Some p" "lw_scanned w < lw_max_scan w"
    and k: "\<not> entry_locked s a"
  shows "lru_evicts ty lru s w ((a, p) # rest) moved"
proof -
  have i: "lru_inv ty lru s ([] @ (a, p) # rest @ moved)" using i by simp
  obtain lru' s' w' where "lru_inv ty lru' s' ([] @ rest @ moved)" "same_entries ty s s'" "node_data s' (pnode ty a) = Some None"
    "lru_purgeNext lru s w = Some (Some a, lru', s', w')"
    by (rule lru_purge_unlocked [OF i c k]) blast
  then show ?thesis unfolding lru_evicts_def using k
    by (intro exI [of _ lru'] exI [of _ s'] exI [of _ w'] exI [of _ "[]"] exI [of _ a] exI [of _ p] exI [of _ rest]) simp
qed

lemma lru_evicts_later:
  assumes "lru_evicts ty lru' s w' rest (moved @ [(a, p)])" "lru_purgeNext lru s w = lru_purgeNext lru' s w'" "entry_locked s a"
  shows "lru_evicts ty lru s w ((a, p) # rest) moved"
proof -
  obtain lru2 s2 w2 ls b q vs where "rest = ls @ (b, q) # vs" "\<forall>x \<in> set ls. entry_locked s (fst x)" "\<not> entry_locked s b"
    "lru_purgeNext lru' s w' = Some (Some b, lru2, s2, w2)" "lru_inv ty lru2 s2 (vs @ moved @ (a, p) # ls)"
    "same_entries ty s s2" "node_data s2 (pnode ty b) = Some None"
    using assms(1) by (auto simp: lru_evicts_def)
  then show ?thesis unfolding lru_evicts_def using assms(2,3)
    by (intro exI [of _ lru2] exI [of _ s2] exI [of _ w2] exI [of _ "(a, p) # ls"] exI [of _ b] exI [of _ q] exI [of _ vs]) simp
qed

lemma lru_purge_run:
  assumes "lru_inv ty lru s (rest @ moved)" "lw_current w = first_or None (map snd rest)"
    "lw_start w = first_or None (map snd (moved @ rest))" "n = nat (lw_max_scan w - lw_scanned w)"
  shows "if \<exists>x \<in> set (take n rest). \<not> entry_locked s (fst x) then lru_evicts ty lru s w rest moved
    else \<exists>lru' w'. lru_purgeNext lru s w = Some (None, lru', s, w') \<and> lru_inv ty lru' s (drop n rest @ moved @ take n rest)"
  using assms
proof (induction rest arbitrary: lru w moved n)
  case Nil
  then show ?case using lru_purge_stop [of w lru s] by auto
next
  case (Cons x rest)
  obtain a p where x: "x = (a, p)" by (cases x)
  have i: "lru_inv ty lru s ([] @ (a, p) # rest @ moved)" using Cons.prems(1) x by simp
  have c: "lw_current w = Some p" using Cons.prems(2) x by simp
  have d: "distinct (map snd ((a, p) # rest @ moved))" using lru_inv_nodes [OF i] by simp
  show ?case
  proof (cases n)
    case 0
    then show ?thesis using lru_purge_stop [of w lru s] Cons.prems by auto
  next
    case (Suc n')
    then have sc: "lw_scanned w < lw_max_scan w" and n': "n' = nat (lw_max_scan w - (lw_scanned w + 1))"
      using Cons.prems(4) by auto
    show ?thesis
    proof (cases "entry_locked s a")
      case False
      then show ?thesis using lru_evicts_first [of ty lru s a p rest moved w] i c sc x Suc by simp
    next
      case True
      let ?v = "w\<lparr>lw_scanned := lw_scanned w + 1, lw_current := (if first_or None (map snd (rest @ moved)) = lw_start w
        then None else first_or None (map snd (rest @ moved))), lw_locked := lw_locked w + 1\<rparr>"
      obtain lru' where l: "lru_inv ty lru' s ([] @ (rest @ moved) @ [(a, p)])" "lru_purgeNext lru s w = lru_purgeNext lru' s ?v"
        by (rule lru_purge_locked [OF i c sc True])
      have cur: "lw_current ?v = first_or None (map snd rest)"
        using Cons.prems(3) d x by (cases rest; cases moved) auto
      have "if \<exists>y \<in> set (take n' rest). \<not> entry_locked s (fst y) then lru_evicts ty lru' s ?v rest (moved @ [(a, p)])
        else \<exists>lru2 w2. lru_purgeNext lru' s ?v = Some (None, lru2, s, w2) \<and>
          lru_inv ty lru2 s (drop n' rest @ (moved @ [(a, p)]) @ take n' rest)"
        by (rule Cons.IH) (use cur Cons.prems(3) n' l(1) x in simp_all)
      then show ?thesis using True x Suc l(2) lru_evicts_later [OF _ l(2) True] by (auto split: if_splits)
    qed
  qed
qed

text \<open>Wherever in the list the walker stands, and whatever has become of the node it started
  from, it takes out one unlocked entry or none.\<close>

definition lru_purging :: "heap_entry_type \<Rightarrow> LruPolicyData \<Rightarrow> store \<Rightarrow> LruPurgeData \<Rightarrow> addr set \<Rightarrow> bool" where
  "lru_purging ty lru s w M \<longleftrightarrow> (\<exists>us vs. lru_inv ty lru s (us @ vs) \<and> lw_current w = first_or None (map snd vs) \<and>
     M = fst ` set (us @ vs))"

lemma lru_purgingI:
  assumes "lru_inv ty lru s (us @ vs)" "M = fst ` set (us @ vs)" "lw_current w = None \<or> lw_current w = first_or None (map snd vs)"
  shows "lru_purging ty lru s w M"
  using assms(3)
proof
  assume "lw_current w = None"
  then show ?thesis unfolding lru_purging_def using assms(1,2) by (intro exI [of _ "us @ vs"] exI [of _ "[]"]) simp
next
  assume "lw_current w = first_or None (map snd vs)"
  then show ?thesis unfolding lru_purging_def using assms(1,2) by blast
qed

lemma lru_purge_any:
  assumes "lru_purging ty lru s w M"
  shows "\<exists>r lru' s' w'. lru_purgeNext lru s w = Some (r, lru', s', w') \<and> same_entries ty s s' \<and>
    (case r of None \<Rightarrow> lru_purging ty lru' s' w' M
     | Some a \<Rightarrow> a \<in> M \<and> \<not> entry_locked s a \<and> lru_purging ty lru' s' w' (M - {a}) \<and> node_data s' (pnode ty a) = Some None)"
  using assms
proof (induction "nat (lw_max_scan w - lw_scanned w)" arbitrary: lru w)
  case 0
  then show ?case using lru_purge_stop [of w lru s] by auto
next
  case (Suc n)
  from Suc.prems obtain us vs where i: "lru_inv ty lru s (us @ vs)" and c: "lw_current w = first_or None (map snd vs)"
    and M: "M = fst ` set (us @ vs)" by (auto simp: lru_purging_def)
  show ?case
  proof (cases vs)
    case Nil
    then show ?thesis using lru_purge_stop [of w lru s] Suc.prems c by auto
  next
    case (Cons x vs')
    obtain a p where x: "x = (a, p)" by (cases x)
    have i: "lru_inv ty lru s (us @ (a, p) # vs')" and c: "lw_current w = Some p" using i c Cons x by simp_all
    have sc: "lw_scanned w < lw_max_scan w" using Suc.hyps(2) by simp
    have a: "a \<notin> fst ` set (us @ vs')" using i by (auto simp: lru_inv_def)
    show ?thesis
    proof (cases "entry_locked s a")
      case True
      obtain lru' where l: "lru_inv ty lru' s (us @ vs' @ [(a, p)])" "lru_purgeNext lru s w = lru_purgeNext lru' s
          (w\<lparr>lw_scanned := lw_scanned w + 1,
             lw_current := (if first_or None (map snd vs') = lw_start w then None else first_or None (map snd vs')),
             lw_locked := lw_locked w + 1\<rparr>)" (is "_ = lru_purgeNext lru' s ?v")
        by (rule lru_purge_locked [OF i c sc True])
      have cur: "lw_current ?v = None \<or> lw_current ?v = first_or None (map snd (vs' @ [(a, p)]))" by (cases vs') auto
      have "M = fst ` set (us @ vs' @ [(a, p)])" using M Cons x by (auto simp: image_Un)
      then have "lru_purging ty lru' s ?v M" by (rule lru_purgingI [OF l(1) _ cur])
      moreover have "n = nat (lw_max_scan ?v - lw_scanned ?v)" using Suc.hyps(2) by simp
      ultimately show ?thesis using Suc.hyps(1) [of ?v lru'] l(2) by simp
    next
      case False
      obtain lru' s' where l: "lru_inv ty lru' s' (us @ vs')" "same_entries ty s s'" "node_data s' (pnode ty a) = Some None"
        "lru_purgeNext lru s w = Some (Some a, lru', s', w\<lparr>lw_scanned := lw_scanned w + 1,
           lw_current := (if first_or None (map snd vs') = lw_start w then None else first_or None (map snd vs'))\<rparr>)"
        by (rule lru_purge_unlocked [OF i c sc False])
      have M': "M - {a} = fst ` set (us @ vs')" "a \<in> M" using M Cons x a by auto
      show ?thesis using l(2-4) False M'(2) lru_purgingI [OF l(1) M'(1)] by auto
    qed
  qed
qed

subsection \<open>The policy as an interpretation of the interface\<close>

definition lru_manages :: "heap_entry_type \<Rightarrow> LruPolicyData \<Rightarrow> store \<Rightarrow> addr set \<Rightarrow> bool" where
  "lru_manages ty lru s M \<longleftrightarrow> (\<exists>ps. lru_inv ty lru s ps \<and> M = fst ` set ps)"

definition lru_order :: "heap_entry_type \<Rightarrow> LruPolicyData \<Rightarrow> store \<Rightarrow> addr list \<Rightarrow> bool" where
  "lru_order ty lru s es \<longleftrightarrow> (\<exists>ps. lru_inv ty lru s ps \<and> es = map fst ps)"

lemma lru_order_split:
  assumes "lru_order ty lru s es" "a \<in> set es"
  obtains us p vs where "lru_inv ty lru s (us @ (a, p) # vs)" "es = map fst us @ a # map fst vs" "remove1 a es = map fst (us @ vs)"
proof -
  obtain ps where i: "lru_inv ty lru s ps" and es: "es = map fst ps" using assms(1) by (auto simp: lru_order_def)
  obtain p where "(a, p) \<in> set ps" using assms(2) es by auto
  then obtain us vs where ps: "ps = us @ (a, p) # vs" by (auto dest: split_list)
  have "a \<notin> fst ` set us" using i ps by (auto simp: lru_inv_def)
  then have "remove1 a es = map fst (us @ vs)" using es ps by (simp add: remove1_append)
  then show thesis using that i es ps by simp
qed

lemma lru_manages_order: "lru_manages ty lru s M \<longleftrightarrow> (\<exists>es. lru_order ty lru s es \<and> M = set es)"
  unfolding lru_manages_def lru_order_def by (metis list.set_map)

lemma lru_order_distinct: "lru_order ty lru s es \<Longrightarrow> distinct es"
  by (auto simp: lru_order_def lru_inv_def)

lemma lru_order_add:
  assumes "lru_order ty lru s es" "node_data s (pnode ty a) = Some None"
  shows "\<exists>lru' s'. lru_add lru s a (pnode ty a) = Some (lru', s') \<and> lru_order ty lru' s' (es @ [a]) \<and> same_entries ty s s'"
  using assms lru_add_ok [of ty lru s _ a] by (fastforce simp: lru_order_def)

lemma lru_order_remove:
  assumes "lru_order ty lru s es" "a \<in> set es"
  shows "\<exists>lru' s'. lru_remove lru s a (pnode ty a) = Some (lru', s') \<and> lru_order ty lru' s' (remove1 a es) \<and>
    same_entries ty s s' \<and> node_data s' (pnode ty a) = Some None"
  by (rule lru_order_split [OF assms]) (use lru_remove_ok in \<open>fastforce simp: lru_order_def\<close>)

lemma lru_order_referenced:
  assumes "lru_order ty lru s es" "a \<in> set es"
  shows "\<exists>lru'. lru_referenced lru s a (pnode ty a) = Some (lru', s) \<and> lru_order ty lru' s (remove1 a es @ [a])"
  by (rule lru_order_split [OF assms]) (use lru_referenced_ok in \<open>fastforce simp: lru_order_def\<close>)

interpretation lru: purging_policy ty "lru_manages ty" lru_add lru_remove lru_referenced "lru_purging ty" lru_purgeNext for ty
proof
  fix p s M a d assume m: "lru_manages ty p s M" and d: "node_data s (pnode ty a) = Some d"
  obtain ps where ps: "lru_inv ty p s ps" "M = fst ` set ps" using m by (auto simp: lru_manages_def)
  show "a \<in> M \<longleftrightarrow> d \<noteq> None" using lru_inv_field [OF ps(1), of a] d ps(2) by (cases d) force+
next
  fix p s M a assume "lru_manages ty p s M" "a \<in> M"
  then show "\<exists>d. node_data s (pnode ty a) = Some d" by (fastforce simp: lru_manages_def dest: lru_inv_node)
next
  fix p s M a e assume "lru_manages ty p s M" "node_data s (pnode ty a) = Some None"
  then show "\<exists>p' s'. lru_add p s a (pnode ty a) = Some (p', s') \<and> lru_manages ty p' s' (insert a M) \<and> same_entries ty s s'"
    using lru_order_add by (fastforce simp: lru_manages_order)
next
  fix p s M a assume "lru_manages ty p s M" "a \<in> M"
  then obtain es where es: "lru_order ty p s es" "M = set es" "a \<in> set es" by (auto simp: lru_manages_order)
  then have "set (remove1 a es) = M - {a}" using lru_order_distinct set_remove1_eq by fastforce
  then show "\<exists>p' s'. lru_remove p s a (pnode ty a) = Some (p', s') \<and> lru_manages ty p' s' (M - {a}) \<and> same_entries ty s s' \<and>
      node_data s' (pnode ty a) = Some None"
    using lru_order_remove [OF es(1,3)] unfolding lru_manages_order by metis
next
  fix p s M a assume "lru_manages ty p s M" "a \<in> M"
  then obtain es where es: "lru_order ty p s es" "M = set es" "a \<in> set es" by (auto simp: lru_manages_order)
  then have "set (remove1 a es @ [a]) = M" using lru_order_distinct set_remove1_eq by fastforce
  then show "\<exists>p' s'. lru_referenced p s a (pnode ty a) = Some (p', s') \<and> lru_manages ty p' s' M \<and> same_entries ty s s'"
    using lru_order_referenced [OF es(1,3)] unfolding lru_manages_order by (metis same_entries_refl)
next
  fix p s w M assume "lru_purging ty p s w M"
  then show "lru_manages ty p s M" unfolding lru_purging_def lru_manages_def by blast
next
  fix p s w M assume "lru_purging ty p s w M"
  then show "\<exists>r p' s' w'. lru_purgeNext p s w = Some (r, p', s', w') \<and> same_entries ty s s' \<and>
      (case r of None \<Rightarrow> lru_purging ty p' s' w' M
       | Some a \<Rightarrow> a \<in> M \<and> \<not> entry_locked s a \<and> lru_purging ty p' s' w' (M - {a}) \<and> node_data s' (pnode ty a) = Some None)"
    by (rule lru_purge_any)
qed

subsection \<open>Properties\<close>

lemma lru_order_purgeInit: "lru_order ty lru s es \<Longrightarrow> lru_order ty (snd (lru_purgeInit lru n)) s es"
  by (auto simp: lru_order_def lru_inv_def lru_purgeInit_def)

lemma lru_inv_head: "lru_inv ty lru s ps \<Longrightarrow> dl_head (lru_list lru) = first_or None (map snd ps)"
  by (simp add: lru_inv_def dl_rep_def)

text \<open>The policy is a queue of entries: \<open>lru_add\<close> puts an entry it does not manage at the
  end, \<open>lru_remove\<close> takes an entry out and clears its field, \<open>lru_referenced\<close> moves it to the
  end; each succeeds, and changes nothing of the store but the field of that entry.\<close>
theorem lru_implements_queue:
  assumes "lru_order ty lru s es"
  shows "(node_data s (pnode ty a) = Some None \<longrightarrow> a \<notin> set es \<and> (\<exists>lru' s'. lru_add lru s a (pnode ty a) = Some (lru', s') \<and>
      lru_order ty lru' s' (es @ [a]) \<and> same_entries ty s s')) \<and>
    (a \<in> set es \<longrightarrow> (\<exists>lru' s'. lru_remove lru s a (pnode ty a) = Some (lru', s') \<and> lru_order ty lru' s' (remove1 a es) \<and>
      same_entries ty s s' \<and> node_data s' (pnode ty a) = Some None)) \<and>
    (a \<in> set es \<longrightarrow> (\<exists>lru'. lru_referenced lru s a (pnode ty a) = Some (lru', s) \<and> lru_order ty lru' s (remove1 a es @ [a])))"
proof -
  have "lru_manages ty lru s (set es)" using assms lru_manages_order by blast
  then show ?thesis using lru.field_law [of ty lru s "set es" a None] lru_order_add [OF assms, of a]
    lru_order_remove [OF assms, of a] lru_order_referenced [OF assms, of a] by simp
qed

definition demo_lru_store :: "cache_key hash_table \<Rightarrow> store" where
  "demo_lru_store t = (demo_store t)\<lparr>s_entries := [1 \<mapsto> demo_entry, 2 \<mapsto> demo_entry\<lparr>e_lock_count := 1\<rparr>,
     3 \<mapsto> demo_entry\<lparr>e_lock_count := 1\<rparr>]\<rparr>"

lemma demo_lru_locked:
  "\<not> entry_locked (demo_lru_store t) 1" "entry_locked (demo_lru_store t) 2" "entry_locked (demo_lru_store t) 3"
  by (simp_all add: entry_locked_def demo_lru_store_def storeEntryLocked_def demo_entry_def EBIT_TEST_def)

lemma demo_lru_filled:
  assumes "es \<in> {[], [1], [1, 2], [1, 2, 3]}"
  shows "\<exists>lru s. lru_order TYPE_STORE_ENTRY lru s es \<and> same_entries TYPE_STORE_ENTRY (demo_lru_store t) s \<and>
    (\<forall>a \<in> {1, 2, 3} - set es. node_data s (pnode TYPE_STORE_ENTRY a) = Some None)"
proof -
  let ?T = TYPE_STORE_ENTRY and ?s = "demo_lru_store t"
  let ?P = "\<lambda>es. \<exists>lru s. lru_order ?T lru s es \<and> same_entries ?T ?s s"
  have n0: "node_data ?s (pnode ?T a) = (if a \<in> {1, 2, 3} then Some None else None)" for a
    by (simp add: node_data_def pnode_def demo_lru_store_def demo_entry_def)
  have free: "node_data s (pnode ?T a) = Some None"
    if o: "lru_order ?T lru s es" and q: "same_entries ?T ?s s" and m: "a \<in> {1, 2, 3} - set es" for lru s es a
  proof -
    obtain d where d: "node_data s (pnode ?T a) = Some d" using same_entries_node [OF q, of a] n0 [of a] m by auto
    moreover have "lru_manages ?T lru s (set es)" using o lru_manages_order by blast
    ultimately show ?thesis using lru.field_law [of ?T lru s "set es" a d] m by simp
  qed
  have add: "?P (es @ [a])" if P: "?P es" and m: "a \<in> {1, 2, 3} - set es" for es a
  proof -
    obtain lru s where s: "lru_order ?T lru s es" "same_entries ?T ?s s" using P by blast
    from lru_order_add [OF s(1) free [OF s m]] same_entries_trans [OF s(2)] show ?thesis by blast
  qed
  have "\<forall>a p. node_data ?s (pnode ?T a) \<noteq> Some (Some p)" by (simp only: n0) auto
  then obtain lru0 where "lru_inv ?T lru0 ?s []" using lru_create_inv [of ?T ?s] by auto
  then have "lru_order ?T lru0 ?s []" by (auto simp: lru_order_def)
  then have 0: "?P []" using same_entries_refl [of ?T ?s] by blast
  have 1: "?P [1]" using add [OF 0, of 1] by simp
  have 2: "?P [1, 2]" using add [OF 1, of 2] by simp
  have 3: "?P [1, 2, 3]" using add [OF 2, of 3] by simp
  from 0 1 2 3 assms have "?P es" by auto
  then show ?thesis using free by blast
qed

theorem lru_implements_queue_witness:
  "\<exists>lru s lru1 s1 lru2 s2 lru3 s3. lru_order TYPE_STORE_ENTRY lru s [1, 2] \<and>
    lru_add lru s 3 (EntryRepl 3) = Some (lru1, s1) \<and> lru_order TYPE_STORE_ENTRY lru1 s1 [1, 2, 3] \<and>
    lru_remove lru s 1 (EntryRepl 1) = Some (lru2, s2) \<and> lru_order TYPE_STORE_ENTRY lru2 s2 [2] \<and>
    lru_referenced lru s 1 (EntryRepl 1) = Some (lru3, s3) \<and> lru_order TYPE_STORE_ENTRY lru3 s3 [2, 1]"
proof -
  obtain lru s where s: "lru_order TYPE_STORE_ENTRY lru s [1, 2]" "node_data s (pnode TYPE_STORE_ENTRY 3) = Some None"
    using demo_lru_filled [of "[1, 2]"] by fastforce
  have p: "pnode TYPE_STORE_ENTRY a = EntryRepl a" for a by (simp add: pnode_def)
  obtain lru1 s1 where 1: "lru_add lru s 3 (EntryRepl 3) = Some (lru1, s1)" "lru_order TYPE_STORE_ENTRY lru1 s1 [1, 2, 3]"
    using lru_implements_queue [OF s(1), of 3] s(2) by (auto simp: p)
  obtain lru2 s2 lru3 s3 where "lru_remove lru s 1 (EntryRepl 1) = Some (lru2, s2)" "lru_order TYPE_STORE_ENTRY lru2 s2 [2]"
    "lru_referenced lru s 1 (EntryRepl 1) = Some (lru3, s3)" "lru_order TYPE_STORE_ENTRY lru3 s3 [2, 1]"
    using lru_implements_queue [OF s(1), of 1] by (auto simp: p)
  with s(1) 1 show ?thesis by blast
qed

text \<open>C27: A purge takes the least recently used entry that is not locked: the first call of
  \<open>lru_purgeNext\<close> after \<open>lru_purgeInit\<close> returns the first unlocked one of the first
  \<open>max_scan\<close> entries, clears its field, and leaves the locked ones it passed at the end of the
  list; if those are all locked it returns \<open>NULL\<close> and has only turned the list.\<close>
theorem lru_purge_evicts_oldest:
  assumes "lru_order ty lru s es" "lru_purgeInit lru max_scan = (w, lru1)"
  shows "if \<exists>a \<in> set (take (nat max_scan) es). \<not> entry_locked s a
    then \<exists>ls a vs lru' s' w'. es = ls @ a # vs \<and> (\<forall>b \<in> set ls. entry_locked s b) \<and> \<not> entry_locked s a \<and>
      lru_purgeNext lru1 s w = Some (Some a, lru', s', w') \<and> lru_order ty lru' s' (vs @ ls) \<and>
      same_entries ty s s' \<and> node_data s' (pnode ty a) = Some None
    else \<exists>lru' w'. lru_purgeNext lru1 s w = Some (None, lru', s, w') \<and>
      lru_order ty lru' s (drop (nat max_scan) es @ take (nat max_scan) es)"
proof -
  have "lru_order ty lru1 s es" using lru_order_purgeInit [OF assms(1), of max_scan] assms(2) by simp
  then obtain ps where ps: "lru_inv ty lru1 s (ps @ [])" "es = map fst ps" by (auto simp: lru_order_def)
  have w: "lw_current w = first_or None (map snd ps)" "lw_start w = first_or None (map snd ([] @ ps))"
    "nat max_scan = nat (lw_max_scan w - lw_scanned w)"
    using assms(2) lru_inv_head [OF ps(1)] by (auto simp: lru_purgeInit_def)
  have e: "(\<exists>a \<in> set (take (nat max_scan) es). \<not> entry_locked s a) \<longleftrightarrow> (\<exists>x \<in> set (take (nat max_scan) ps). \<not> entry_locked s (fst x))"
    by (simp add: ps(2) take_map)
  show ?thesis
  proof (cases "\<exists>x \<in> set (take (nat max_scan) ps). \<not> entry_locked s (fst x)")
    case True
    then have "lru_evicts ty lru1 s w ps []" using lru_purge_run [OF ps(1) w] by simp
    then obtain lru' s' w' ls a p vs where "ps = ls @ (a, p) # vs" "\<forall>x \<in> set ls. entry_locked s (fst x)" "\<not> entry_locked s a"
      "lru_purgeNext lru1 s w = Some (Some a, lru', s', w')" "lru_inv ty lru' s' (vs @ ls)"
      "same_entries ty s s'" "node_data s' (pnode ty a) = Some None" by (auto simp: lru_evicts_def)
    then have "\<exists>ls a vs lru' s' w'. es = ls @ a # vs \<and> (\<forall>b \<in> set ls. entry_locked s b) \<and> \<not> entry_locked s a \<and>
      lru_purgeNext lru1 s w = Some (Some a, lru', s', w') \<and> lru_order ty lru' s' (vs @ ls) \<and>
      same_entries ty s s' \<and> node_data s' (pnode ty a) = Some None"
      unfolding lru_order_def ps(2)
      by (intro exI [of _ "map fst ls"] exI [of _ a] exI [of _ "map fst vs"] exI [of _ lru'] exI [of _ s'] exI [of _ w']) auto
    with True e show ?thesis by simp
  next
    case False
    then obtain lru' w' where "lru_purgeNext lru1 s w = Some (None, lru', s, w')"
      "lru_inv ty lru' s (drop (nat max_scan) ps @ take (nat max_scan) ps)" using lru_purge_run [OF ps(1) w] by auto
    then show ?thesis using False e by (auto simp: lru_order_def ps(2) take_map drop_map intro!: exI [of _ "drop (nat max_scan) ps @ take (nat max_scan) ps"])
  qed
qed

theorem lru_purge_evicts_oldest_witness:
  "\<exists>lru s lru1 w lru' s' w'. lru_order TYPE_STORE_ENTRY lru s [1, 2, 3] \<and> lru_purgeInit lru 2 = (w, lru1) \<and>
    lru_purgeNext lru1 s w = Some (Some 1, lru', s', w') \<and> lru_order TYPE_STORE_ENTRY lru' s' [2, 3]"
proof -
  fix t
  obtain lru s where s: "lru_order TYPE_STORE_ENTRY lru s [1, 2, 3]" "same_entries TYPE_STORE_ENTRY (demo_lru_store t) s"
    using demo_lru_filled [of "[1, 2, 3]"] by fastforce
  note l = demo_lru_locked [of t, folded same_entries_locked [OF s(2)]]
  obtain w lru1 where i: "lru_purgeInit lru 2 = (w, lru1)" by fastforce
  from lru_purge_evicts_oldest [OF s(1) i] l
  obtain ls a vs lru' s' w' where *: "[1, 2, 3] = ls @ a # vs" "\<forall>b \<in> set ls. entry_locked s b"
    "lru_purgeNext lru1 s w = Some (Some a, lru', s', w')" "lru_order TYPE_STORE_ENTRY lru' s' (vs @ ls)" by (auto simp: numeral_2_eq_2)
  have "a = 1 \<and> vs @ ls = [2, 3]" using *(1,2) l by (cases ls) auto
  then show ?thesis using *(3,4) s(1) i by metis
qed

text \<open>Whatever a purge session has done before, taking out up to \<open>n\<close> entries ends,
  fails no assertion, and takes out distinct entries of the list none of which is locked;
  exactly the others are still managed.\<close>
theorem lru_purge_session_safe:
  assumes "lru_order ty lru s es" "lru_purgeInit lru max_scan = (w, lru1)"
  shows "\<exists>as lru' s' w'. purge_take lru_purgeNext n lru1 s w = Some (as, lru', s', w') \<and> length as \<le> n \<and> distinct as \<and>
    set as \<subseteq> set es \<and> (\<forall>a \<in> set as. \<not> entry_locked s a) \<and> lru_manages ty lru' s' (set es - set as) \<and> same_entries ty s s'"
proof -
  have "lru_order ty lru1 s es" using lru_order_purgeInit [OF assms(1), of max_scan] assms(2) by simp
  then obtain ps where ps: "lru_inv ty lru1 s ([] @ ps)" "es = map fst ps" by (auto simp: lru_order_def)
  have "lw_current w = first_or None (map snd ps)"
    using assms(2) lru_inv_head [OF ps(1)] by (auto simp: lru_purgeInit_def)
  then have "lru_purging ty lru1 s w (set es)" by (intro lru_purgingI [OF ps(1)]) (simp_all add: ps(2))
  then show ?thesis by (rule lru.purge_take_ok)
qed

theorem lru_purge_session_safe_witness:
  "\<exists>lru s lru1 w as lru' s' w'. lru_order TYPE_STORE_ENTRY lru s [1, 2, 3] \<and> lru_purgeInit lru 100 = (w, lru1) \<and>
    purge_take lru_purgeNext 3 lru1 s w = Some (as, lru', s', w') \<and> set as \<subseteq> {1}"
proof -
  fix t
  obtain lru s where s: "lru_order TYPE_STORE_ENTRY lru s [1, 2, 3]" "same_entries TYPE_STORE_ENTRY (demo_lru_store t) s"
    using demo_lru_filled [of "[1, 2, 3]"] by fastforce
  note l = demo_lru_locked [of t, folded same_entries_locked [OF s(2)]]
  obtain w lru1 where i: "lru_purgeInit lru 100 = (w, lru1)" by fastforce
  from lru_purge_session_safe [OF s(1) i, of 3] obtain as lru' s' w' where
    *: "purge_take lru_purgeNext 3 lru1 s w = Some (as, lru', s', w')" "set as \<subseteq> set [1, 2, 3]" "\<forall>a \<in> set as. \<not> entry_locked s a" by blast
  then have "set as \<subseteq> {1}" using l by auto
  then show ?thesis using *(1) s(1) i by blast
qed

text \<open>When the entry a walker started from has been purged, the test for the end of the turn
  never succeeds: two locked entries are moved to the end again and again until
  \<open>max_scan\<close>.\<close>

lemma lru_purge_spins:
  assumes "lru_inv ty lru s [(a, p), (b, q)]" "lw_current w = Some p" "lw_start w \<noteq> Some p" "lw_start w \<noteq> Some q" "lw_start w \<noteq> None"
    "entry_locked s a" "entry_locked s b" "lw_scanned w \<le> lw_max_scan w"
  shows "\<exists>lru' w'. lru_purgeNext lru s w = Some (None, lru', s, w') \<and> lw_scanned w' = lw_max_scan w \<and>
    lw_locked w' = lw_locked w + (lw_max_scan w - lw_scanned w)"
  using assms
proof (induction "nat (lw_max_scan w - lw_scanned w)" arbitrary: lru w a p b q)
  case 0
  then show ?case using lru_purge_stop [of w lru s] by auto
next
  case (Suc n)
  have i: "lru_inv ty lru s ([] @ (a, p) # [(b, q)])" using Suc.prems(1) by simp
  have sc: "lw_scanned w < lw_max_scan w" using Suc.hyps(2) by simp
  let ?v = "w\<lparr>lw_scanned := lw_scanned w + 1,
    lw_current := (if first_or None (map snd [(b, q)]) = lw_start w then None else first_or None (map snd [(b, q)])),
    lw_locked := lw_locked w + 1\<rparr>"
  obtain lru' where l: "lru_inv ty lru' s ([] @ [(b, q)] @ [(a, p)])" "lru_purgeNext lru s w = lru_purgeNext lru' s ?v"
    by (rule lru_purge_locked [OF i Suc.prems(2) sc Suc.prems(6)])
  have "\<exists>lru'' w'. lru_purgeNext lru' s ?v = Some (None, lru'', s, w') \<and> lw_scanned w' = lw_max_scan ?v \<and>
    lw_locked w' = lw_locked ?v + (lw_max_scan ?v - lw_scanned ?v)"
    using Suc.hyps(1) [of ?v lru' b q a p] Suc.prems Suc.hyps(2) l(1) sc by auto
  with l(2) show ?case by auto
qed

text \<open>The purge walker does not stop after one turn through the list. If the first entry is
  not locked and the two others are, the first call returns that entry, and the second one
  looks at the two locked entries until \<open>max_scan\<close> is used up, counting them each time.\<close>
theorem lru_purge_rescans_locked:
  assumes "lru_order ty lru s [u, a, b]" "\<not> entry_locked s u" "entry_locked s a" "entry_locked s b"
    "lru_purgeInit lru max_scan = (w, lru1)" "1 \<le> max_scan"
  shows "\<exists>lru2 s2 w2 lru3 w3. lru_purgeNext lru1 s w = Some (Some u, lru2, s2, w2) \<and>
    lru_purgeNext lru2 s2 w2 = Some (None, lru3, s2, w3) \<and> lw_scanned w3 = max_scan \<and> lw_locked w3 = max_scan - 1"
proof -
  have "lru_order ty lru1 s [u, a, b]" using lru_order_purgeInit [OF assms(1), of max_scan] assms(5) by simp
  then obtain ps where ps: "lru_inv ty lru1 s ps" "map fst ps = [u, a, b]" by (auto simp: lru_order_def)
  then obtain x p q where i: "lru_inv ty lru1 s ([] @ (u, x) # [(a, p), (b, q)])" by (auto simp: map_eq_Cons_conv)
  have d: "distinct [x, p, q]" using lru_inv_nodes [OF i] by simp
  have w: "lw_current w = Some x" "lw_start w = Some x" "lw_scanned w = 0" "lw_max_scan w = max_scan" "lw_locked w = 0"
    using assms(5) lru_inv_head [OF i] by (auto simp: lru_purgeInit_def)
  then have sc: "lw_scanned w < lw_max_scan w" using assms(6) by simp
  obtain lru2 s2 where 2: "lru_inv ty lru2 s2 ([] @ [(a, p), (b, q)])" "same_entries ty s s2"
    "lru_purgeNext lru1 s w = Some (Some u, lru2, s2, w\<lparr>lw_scanned := lw_scanned w + 1,
       lw_current := (if first_or None (map snd [(a, p), (b, q)]) = lw_start w then None else first_or None (map snd [(a, p), (b, q)]))\<rparr>)"
    (is "_ = Some (_, _, _, ?w2)")
    by (rule lru_purge_unlocked [OF i w(1) sc assms(2)])
  have "\<exists>lru3 w3. lru_purgeNext lru2 s2 ?w2 = Some (None, lru3, s2, w3) \<and> lw_scanned w3 = lw_max_scan ?w2 \<and>
    lw_locked w3 = lw_locked ?w2 + (lw_max_scan ?w2 - lw_scanned ?w2)"
    using lru_purge_spins [of ty lru2 s2 a p b q ?w2] 2(1) d w sc assms(3,4) same_entries_locked [OF 2(2)] by auto
  then show ?thesis using 2(3) w by auto
qed

theorem lru_purge_rescans_locked_witness:
  "\<exists>lru s lru1 w lru2 s2 w2 lru3 w3. lru_order TYPE_STORE_ENTRY lru s [1, 2, 3] \<and> lru_purgeInit lru 100000 = (w, lru1) \<and>
    lru_purgeNext lru1 s w = Some (Some 1, lru2, s2, w2) \<and> lru_purgeNext lru2 s2 w2 = Some (None, lru3, s2, w3) \<and>
    lw_locked w3 = 99999"
proof -
  fix t
  obtain lru s where s: "lru_order TYPE_STORE_ENTRY lru s [1, 2, 3]" "same_entries TYPE_STORE_ENTRY (demo_lru_store t) s"
    using demo_lru_filled [of "[1, 2, 3]"] by fastforce
  note l = demo_lru_locked [of t, folded same_entries_locked [OF s(2)]]
  obtain w lru1 where i: "lru_purgeInit lru 100000 = (w, lru1)" by fastforce
  from lru_purge_rescans_locked [OF s(1) l i] s(1) i show ?thesis by fastforce
qed

lemma lru_free_idle: "lru_nwalkers lru = 0 \<or> lru_count lru = 0 \<Longrightarrow> lru_free lru = None"
  by (auto simp: lru_free_def)

end
