(* ===== verification/HeapPolicy.thy ===== *)
theory HeapPolicy
  imports Complex_Main ReplPolicy BinHeap
begin

section \<open>The heap removal policies (repl/heap/)\<close>

text \<open>
  The policies of store_repl_heap.c keep the entries in a binary heap whose keys come from
  one of the three functions of store_heap_replacement.c. A C \<open>double\<close> is a real number here:
  rounding, overflow and NaN are not modelled. A key function reads the entry and
  the clock when it is called; \<open>with_keys\<close> gives the heap the function as it is in the
  current store. A purge walker takes locked entries out of the heap and holds a lock on
  them until \<open>heap_purgeDone\<close> puts them back; its loop is a partial function that the
  lemmas show to end. \<open>n\<close> bounds the nesting of calls in \<open>storeUnlockObject\<close>.
\<close>

type_synonym heap_key = real

subsection \<open>Keys (store_heap_replacement.c)\<close>

definition HeapKeyGen_StoreEntry_LFUDA :: "int \<Rightarrow> StoreEntry \<Rightarrow> heap_key \<Rightarrow> heap_key" where
  "HeapKeyGen_StoreEntry_LFUDA curtime e age =
     (let tie = (if e_lastref e \<le> 0 then 0
                 else if curtime \<le> e_lastref e then 0
                 else 1 - exp (real_of_int (e_lastref e - curtime) / 86400))
      in age + real (e_refcount e) - tie)"

definition HeapKeyGen_StoreEntry_GDSF :: "int \<Rightarrow> StoreEntry \<Rightarrow> heap_key \<Rightarrow> heap_key" where
  "HeapKeyGen_StoreEntry_GDSF curtime e age =
     (let size = (if e_swap_file_sz e \<noteq> 0 then real_of_int (e_swap_file_sz e) else 1);
          tie = (if 1 < e_lastref e then 1 / real_of_int (e_lastref e) else 1)
      in age + real (e_refcount e) / size - tie)"

definition HeapKeyGen_StoreEntry_LRU :: "int \<Rightarrow> StoreEntry \<Rightarrow> heap_key \<Rightarrow> heap_key" where
  "HeapKeyGen_StoreEntry_LRU curtime e age = real_of_int (e_lastref e)"

subsection \<open>The policy (store_repl_heap.c)\<close>

record HeapPolicyData =
  hpd_heap :: "(heap_key, addr) heap"
  hpd_keyfunc :: "int \<Rightarrow> StoreEntry \<Rightarrow> heap_key \<Rightarrow> heap_key"
  hpd_count :: int
  hpd_nwalkers :: int
  hpd_type :: heap_entry_type

definition with_keys :: "store \<Rightarrow> HeapPolicyData \<Rightarrow> (heap_key, addr) heap" where
  "with_keys s h = (hpd_heap h)\<lparr>hp_gen_key := (\<lambda>a age.
     case s_entries s a of Some e \<Rightarrow> hpd_keyfunc h (s_curtime s) e age | None \<Rightarrow> age)\<rparr>"

definition createRemovalPolicy_heap :: "string list \<Rightarrow> HeapPolicyData option" where
  "createRemovalPolicy_heap args = do {
     let keytype = (case args of [] \<Rightarrow> ''LRU'' | k # _ \<Rightarrow> k);
     let keyfunc = (if keytype = ''GDSF'' then HeapKeyGen_StoreEntry_GDSF
                    else if keytype = ''LFUDA'' then HeapKeyGen_StoreEntry_LFUDA
                    else HeapKeyGen_StoreEntry_LRU);
     c_assert (tl args = []);
     let hp = new_heap 1000 (\<lambda>a age. age) 0;
     Some \<lparr>hpd_heap = hp\<lparr>hp_age := 1\<rparr>, hpd_keyfunc = keyfunc, hpd_count = 0, hpd_nwalkers = 0,
           hpd_type = TYPE_UNKNOWN\<rparr> }"

definition heap_add :: "HeapPolicyData \<Rightarrow> store \<Rightarrow> addr \<Rightarrow> policy_node \<Rightarrow> (HeapPolicyData \<times> store) option" where
  "heap_add h s entry node = do {
     d \<leftarrow> node_data s node;
     c_assert (d = None);
     e \<leftarrow> s_entries s entry;
     if has_flag e ENTRY_SPECIAL then Some (h, s)
     else do {
       (hnode, hp) \<leftarrow> heap_insert (with_keys s h) entry;
       s \<leftarrow> set_node_data s node (Some hnode);
       ty \<leftarrow> (if hpd_type h = TYPE_UNKNOWN then repl_guessType s entry node else Some (hpd_type h));
       Some (h\<lparr>hpd_heap := hp\<lparr>hp_age := hp_age hp + hp_age hp / 100000000\<rparr>,
               hpd_count := hpd_count h + 1, hpd_type := ty\<rparr>, s) } }"

definition heap_remove :: "HeapPolicyData \<Rightarrow> store \<Rightarrow> addr \<Rightarrow> policy_node \<Rightarrow> (HeapPolicyData \<times> store) option" where
  "heap_remove h s entry node = do {
     d \<leftarrow> node_data s node;
     case d of
       None \<Rightarrow> Some (h, s)
     | Some hnode \<Rightarrow> do {
         (_, hp) \<leftarrow> heap_delete (hpd_heap h) hnode;
         s \<leftarrow> set_node_data s node None;
         Some (h\<lparr>hpd_heap := hp, hpd_count := hpd_count h - 1\<rparr>, s) } }"

definition heap_referenced :: "HeapPolicyData \<Rightarrow> store \<Rightarrow> addr \<Rightarrow> policy_node \<Rightarrow> (HeapPolicyData \<times> store) option" where
  "heap_referenced h s entry node = do {
     d \<leftarrow> node_data s node;
     case d of
       None \<Rightarrow> Some (h, s)
     | Some hnode \<Rightarrow> do {
         _ \<leftarrow> s_entries s entry;
         (_, hp) \<leftarrow> heap_update (with_keys s h) hnode entry;
         Some (h\<lparr>hpd_heap := hp\<rparr>, s) } }"

definition heap_walkInit :: "HeapPolicyData \<Rightarrow> nat \<times> HeapPolicyData" where
  "heap_walkInit h = (0, h\<lparr>hpd_nwalkers := hpd_nwalkers h + 1\<rparr>)"

definition heap_walkNext :: "HeapPolicyData \<Rightarrow> nat \<Rightarrow> (addr option \<times> nat) option" where
  "heap_walkNext h current =
     (if heap_nodes (hpd_heap h) \<le> current then Some (None, current)
      else do { entry \<leftarrow> heap_peep (hpd_heap h) current; Some (Some entry, current + 1) })"

definition heap_walkDone :: "HeapPolicyData \<Rightarrow> HeapPolicyData option" where
  "heap_walkDone h = do {
     c_assert (0 < hpd_nwalkers h);
     Some (h\<lparr>hpd_nwalkers := hpd_nwalkers h - 1\<rparr>) }"

record HeapPurgeData =
  hw_locked_entries :: "addr list"
  hw_min_age :: heap_key

definition heap_purgeInit :: "HeapPolicyData \<Rightarrow> HeapPurgeData \<times> HeapPolicyData" where
  "heap_purgeInit h = (\<lparr>hw_locked_entries = [], hw_min_age = 0\<rparr>, h\<lparr>hpd_nwalkers := hpd_nwalkers h + 1\<rparr>)"

partial_function (option) heap_purgeNext ::
  "HeapPolicyData \<Rightarrow> store \<Rightarrow> HeapPurgeData \<Rightarrow> (addr option \<times> HeapPolicyData \<times> store \<times> HeapPurgeData) option" where
  "heap_purgeNext h s w =
     (if heap_nodes (hpd_heap h) = 0 then Some (None, h, s, w)
      else do {
        age \<leftarrow> heap_peepminkey (hpd_heap h);
        (x, hp) \<leftarrow> heap_extractmin (hpd_heap h);
        entry \<leftarrow> x;
        e \<leftarrow> s_entries s entry;
        let h = h\<lparr>hpd_heap := hp\<rparr>;
        if storeEntryLocked e
        then do {
          s \<leftarrow> storeLockObject s entry;
          heap_purgeNext h s (w\<lparr>hw_locked_entries := hw_locked_entries w @ [entry]\<rparr>) }
        else do {
          s \<leftarrow> SET_POLICY_NODE (hpd_type h) s entry None;
          Some (Some entry, h, s, w\<lparr>hw_min_age := age\<rparr>) } })"

text \<open>The loop of \<open>heap_purgeDone\<close> that puts the locked entries back.\<close>

primrec heap_reinsert :: "nat \<Rightarrow> HeapPolicyData \<Rightarrow> store \<Rightarrow> addr list \<Rightarrow> (HeapPolicyData \<times> store) option" where
  "heap_reinsert n h s [] = Some (h, s)"
| "heap_reinsert n h s (entry # rest) = do {
     _ \<leftarrow> s_entries s entry;
     (hnode, hp) \<leftarrow> heap_insert (with_keys s h) entry;
     s \<leftarrow> SET_POLICY_NODE (hpd_type h) s entry (Some hnode);
     s \<leftarrow> storeUnlockObject n s entry;
     heap_reinsert n (h\<lparr>hpd_heap := hp\<rparr>) s rest }"

definition heap_purgeDone :: "nat \<Rightarrow> HeapPolicyData \<Rightarrow> store \<Rightarrow> HeapPurgeData \<Rightarrow> (HeapPolicyData \<times> store) option" where
  "heap_purgeDone n h s w = do {
     c_assert (0 < hpd_nwalkers h);
     let h = h\<lparr>hpd_nwalkers := hpd_nwalkers h - 1\<rparr>;
     let h = (if 0 < hw_min_age w then h\<lparr>hpd_heap := (hpd_heap h)\<lparr>hp_age := hw_min_age w\<rparr>\<rparr> else h);
     heap_reinsert n h s (hw_locked_entries w) }"

definition heap_free :: "HeapPolicyData \<Rightarrow> unit option" where
  "heap_free h = do {
     c_assert (hpd_nwalkers h \<noteq> 0);
     c_assert (hpd_count h \<noteq> 0);
     Some () }"

subsection \<open>The entries a policy manages\<close>

abbreviation hdom :: "(heap_key, addr) heap \<Rightarrow> addr set" where
  "hdom hp \<equiv> dom (hp_mem hp)"

abbreviation hdata :: "(heap_key, addr) heap \<Rightarrow> addr \<Rightarrow> addr" where
  "hdata hp p \<equiv> snd (node_kd hp p)"

text \<open>\<open>M\<close> are the entries in the heap, \<open>X\<close> those that a purge walker holds, whose fields are
  out of date; every other entry's field points to its node exactly while it has one.\<close>

definition heap_inv :: "heap_entry_type \<Rightarrow> (heap_key, addr) heap \<Rightarrow> heap_entry_type \<Rightarrow> store \<Rightarrow> addr set \<Rightarrow> addr set \<Rightarrow> bool" where
  "heap_inv ty hp t s X M \<longleftrightarrow> ty \<noteq> TYPE_UNKNOWN \<and> heap_valid hp \<and> M = hdata hp ` hdom hp \<and> M \<inter> X = {} \<and>
     (t = ty \<or> t = TYPE_UNKNOWN \<and> M = {} \<and> X = {}) \<and>
     (\<forall>a p. a \<notin> X \<longrightarrow> node_data s (pnode ty a) = Some (Some p) \<longleftrightarrow> p \<in> hdom hp \<and> hdata hp p = a)"

definition heap_manages :: "heap_entry_type \<Rightarrow> HeapPolicyData \<Rightarrow> store \<Rightarrow> addr set \<Rightarrow> bool" where
  "heap_manages ty h s M \<longleftrightarrow> heap_inv ty (hpd_heap h) (hpd_type h) s {} M"

lemma heap_valid_upd [simp]: "heap_valid (hp\<lparr>hp_gen_key := g\<rparr>) = heap_valid hp" "heap_valid (hp\<lparr>hp_age := x\<rparr>) = heap_valid hp"
  by (simp_all add: heap_valid_def heap_ok_def heap_rep_def keys_def node_kd_def)

lemma node_kd_upd [simp]: "node_kd (hp\<lparr>hp_gen_key := g\<rparr>) = node_kd hp" "node_kd (hp\<lparr>hp_age := x\<rparr>) = node_kd hp"
  by (simp_all add: node_kd_def fun_eq_iff)

lemma heap_inv_upd [simp]:
  "heap_inv ty (hp\<lparr>hp_gen_key := g\<rparr>) t s X M = heap_inv ty hp t s X M"
  "heap_inv ty (hp\<lparr>hp_age := x\<rparr>) t s X M = heap_inv ty hp t s X M"
  by (simp_all add: heap_inv_def)

lemma with_keys_heap [simp]: "heap_valid (with_keys s h) = heap_valid (hpd_heap h)" "node_kd (with_keys s h) = node_kd (hpd_heap h)"
  "hp_mem (with_keys s h) = hp_mem (hpd_heap h)" "heap_inv ty (with_keys s h) t s' X M = heap_inv ty (hpd_heap h) t s' X M"
  by (simp_all add: with_keys_def)

lemma heap_inv_field: "heap_inv ty hp t s X M \<Longrightarrow> a \<notin> X \<Longrightarrow> node_data s (pnode ty a) = Some (Some p) \<longleftrightarrow> p \<in> hdom hp \<and> hdata hp p = a"
  by (simp add: heap_inv_def)

lemma heap_inv_member: "heap_inv ty hp t s X M \<Longrightarrow> a \<in> M \<Longrightarrow>
  a \<notin> X \<and> (\<exists>p. p \<in> hdom hp \<and> hdata hp p = a \<and> node_data s (pnode ty a) = Some (Some p))"
proof -
  assume i: "heap_inv ty hp t s X M" and a: "a \<in> M"
  have x: "a \<notin> X" and "\<exists>p. p \<in> hdom hp \<and> hdata hp p = a" using i a unfolding heap_inv_def by blast+
  then show ?thesis using heap_inv_field [OF i x] by blast
qed

lemma heap_inv_inj: "heap_inv ty hp t s X M \<Longrightarrow> p \<in> hdom hp \<Longrightarrow> q \<in> hdom hp \<Longrightarrow> hdata hp p = hdata hp q \<Longrightarrow> p = q"
proof -
  assume i: "heap_inv ty hp t s X M" and p: "p \<in> hdom hp" and q: "q \<in> hdom hp" and e: "hdata hp p = hdata hp q"
  have "hdata hp p \<in> M" using i p by (auto simp: heap_inv_def)
  then have x: "hdata hp p \<notin> X" using heap_inv_member [OF i] by blast
  then have "node_data s (pnode ty (hdata hp p)) = Some (Some p)" "node_data s (pnode ty (hdata hp p)) = Some (Some q)"
    using heap_inv_field [OF i x] p q e by simp_all
  then show "p = q" by simp
qed

lemma heap_inv_store:
  "heap_inv ty hp t s X M \<Longrightarrow> \<forall>a. a \<notin> X \<longrightarrow> node_data s' (pnode ty a) = node_data s (pnode ty a) \<Longrightarrow> heap_inv ty hp t s' X M"
  unfolding heap_inv_def by metis

text \<open>Putting an entry into the heap and into its field.\<close>

lemma heap_put:
  assumes i: "heap_inv ty hp t s X M" and a: "a \<notin> M" and n: "node_data s (pnode ty a) = Some d"
  obtains p hp' s' where "heap_insert hp a = Some (p, hp')" "set_node_data s (pnode ty a) (Some p) = Some s'"
    "same_entries ty s s'" "heap_inv ty hp' ty s' (X - {a}) (insert a M)" "hp_age hp' = hp_age hp"
    "\<forall>b. b \<noteq> a \<longrightarrow> node_data s' (pnode ty b) = node_data s (pnode ty b)" "node_data s' (pnode ty a) \<noteq> None"
proof -
  have v: "heap_valid hp" and M: "M = hdata hp ` hdom hp" and ty: "ty \<noteq> TYPE_UNKNOWN" using i by (simp_all add: heap_inv_def)
  obtain p hp' where p: "heap_insert hp a = Some (p, hp')" "heap_valid hp'" "p \<notin> hdom hp" "hdom hp' = insert p (hdom hp)"
    "node_kd hp' = (node_kd hp)(p := (heap_gen_key hp a, a))" "hp_age hp' = hp_age hp"
    using heap_insert_ok [OF v, of a] by blast
  obtain s' where s': "set_node_data s (pnode ty a) (Some p) = Some s'" "same_entries ty s s'"
    "(\<lambda>c. node_data s' (pnode ty c)) = (\<lambda>c. node_data s (pnode ty c))(a \<mapsto> Some p)"
    using set_node_data_ok [OF n] by blast
  have nd: "node_data s' (pnode ty c) = (if c = a then Some (Some p) else node_data s (pnode ty c))" for c
    using fun_cong [OF s'(3), of c] by simp
  have hd: "hdata hp' q = (if q = p then a else hdata hp q)" for q using p(5) by simp
  have "hdata hp' ` hdom hp' = insert a M" using p(3,4) hd M by (auto simp: image_iff)
  moreover have "insert a M \<inter> (X - {a}) = {}" using i by (auto simp: heap_inv_def)
  moreover have "node_data s' (pnode ty c) = Some (Some q) \<longleftrightarrow> q \<in> hdom hp' \<and> hdata hp' q = c" if "c \<notin> X - {a}" for c q
  proof (cases "c = a")
    case True
    then show ?thesis using nd [of c] hd [of q] p(3,4) a M by auto
  next
    case False
    then show ?thesis using nd [of c] hd [of q] p(3,4) heap_inv_field [OF i, of c q] that by auto
  qed
  ultimately have "heap_inv ty hp' ty s' (X - {a}) (insert a M)" unfolding heap_inv_def using ty p(2) by metis
  then show thesis using that p(1,6) s'(1,2) nd by auto
qed

text \<open>Taking a node out of the heap: the entry joins the held ones, or its field is cleared.\<close>

lemma heap_hold:
  assumes i: "heap_inv ty hp t s X M" and p: "p \<in> hdom hp" and v: "heap_valid hp'" "hdom hp' = hdom hp - {p}"
    "\<forall>q. q \<noteq> p \<longrightarrow> node_kd hp' q = node_kd hp q"
  shows "heap_inv ty hp' t s (insert (hdata hp p) X) (M - {hdata hp p})"
proof -
  have M: "M = hdata hp ` hdom hp" and t: "t = ty" "ty \<noteq> TYPE_UNKNOWN" using i p by (auto simp: heap_inv_def)
  have "hdata hp' ` hdom hp' = hdata hp ` (hdom hp - {p})" using v(2,3) by (intro image_cong) auto
  also have "\<dots> = M - {hdata hp p}"
  proof -
    have "inj_on (hdata hp) (hdom hp)" using heap_inv_inj [OF i] by (rule inj_onI)
    from inj_on_image_set_diff [OF this, of "hdom hp" "{p}"] p show ?thesis unfolding M by auto
  qed
  finally have "hdata hp' ` hdom hp' = M - {hdata hp p}" .
  moreover have "node_data s (pnode ty a) = Some (Some q) \<longleftrightarrow> q \<in> hdom hp' \<and> hdata hp' q = a"
    if "a \<notin> insert (hdata hp p) X" for a q
    using that heap_inv_field [OF i, of a q] v(2,3) p by auto
  moreover have "(M - {hdata hp p}) \<inter> insert (hdata hp p) X = {}" using i by (auto simp: heap_inv_def)
  ultimately show ?thesis unfolding heap_inv_def using v(1) t by metis
qed

lemma heap_clear:
  assumes i: "heap_inv ty hp t s (insert a X) M" and a: "a \<notin> M" "a \<notin> X" and n: "node_data s (pnode ty a) = Some d"
  obtains s' where "set_node_data s (pnode ty a) None = Some s'" "same_entries ty s s'" "heap_inv ty hp t s' X M"
    "node_data s' (pnode ty a) = Some None"
proof -
  obtain s' where s': "set_node_data s (pnode ty a) None = Some s'" "same_entries ty s s'"
    "(\<lambda>c. node_data s' (pnode ty c)) = (\<lambda>c. node_data s (pnode ty c))(a \<mapsto> None)"
    using set_node_data_ok [OF n] by blast
  have nd: "node_data s' (pnode ty c) = (if c = a then Some None else node_data s (pnode ty c))" for c
    using fun_cong [OF s'(3), of c] by simp
  have M: "M = hdata hp ` hdom hp" "ty \<noteq> TYPE_UNKNOWN" "heap_valid hp" "t = ty" "M \<inter> X = {}" using i by (auto simp: heap_inv_def)
  have "node_data s' (pnode ty c) = Some (Some q) \<longleftrightarrow> q \<in> hdom hp \<and> hdata hp q = c" if "c \<notin> X" for c q
    using nd [of c] heap_inv_field [OF i, of c q] that a M(1) by (cases "c = a") auto
  then have "heap_inv ty hp t s' X M" unfolding heap_inv_def using M by metis
  then show thesis using that s'(1,2) nd [of a] by simp
qed

lemma heap_add_ok:
  assumes m: "heap_manages ty h s M" and n: "node_data s (pnode ty a) = Some None" and e: "s_entries s a = Some e"
    and sp: "\<not> has_flag e ENTRY_SPECIAL"
  shows "\<exists>h' s'. heap_add h s a (pnode ty a) = Some (h', s') \<and> heap_manages ty h' s' (insert a M) \<and> same_entries ty s s'"
proof -
  have i: "heap_inv ty (with_keys s h) (hpd_type h) s {} M" and ty: "ty \<noteq> TYPE_UNKNOWN" and t: "hpd_type h = ty \<or> hpd_type h = TYPE_UNKNOWN"
    using m by (auto simp: heap_manages_def heap_inv_def)
  have a: "a \<notin> M" using heap_inv_member [OF i, of a] n by auto
  obtain p hp s' where p: "heap_insert (with_keys s h) a = Some (p, hp)" "set_node_data s (pnode ty a) (Some p) = Some s'"
    "same_entries ty s s'" "heap_inv ty hp ty s' ({} - {a}) (insert a M)" "node_data s' (pnode ty a) \<noteq> None"
    by (rule heap_put [OF i a n])
  then show ?thesis using n e sp t repl_guessType_pnode [OF ty p(5)] by (auto simp: heap_add_def heap_manages_def)
qed

lemma heap_remove_ok:
  assumes m: "heap_manages ty h s M" and a: "a \<in> M"
  shows "\<exists>h' s'. heap_remove h s a (pnode ty a) = Some (h', s') \<and> heap_manages ty h' s' (M - {a}) \<and> same_entries ty s s' \<and>
    node_data s' (pnode ty a) = Some None"
proof -
  have i: "heap_inv ty (hpd_heap h) (hpd_type h) s {} M" using m by (simp add: heap_manages_def)
  obtain p where p: "p \<in> hdom (hpd_heap h)" "hdata (hpd_heap h) p = a" "node_data s (pnode ty a) = Some (Some p)"
    using heap_inv_member [OF i a] by blast
  have v: "heap_valid (hpd_heap h)" using i by (simp add: heap_inv_def)
  obtain hp where hp: "heap_delete (hpd_heap h) p = Some (a, hp)" "heap_valid hp" "hdom hp = hdom (hpd_heap h) - {p}"
    "\<forall>q. q \<noteq> p \<longrightarrow> node_kd hp q = node_kd (hpd_heap h) q" using heap_delete_ok [OF v p(1)] p(2) by auto
  have "heap_inv ty hp (hpd_type h) s (insert a {}) (M - {a})" using heap_hold [OF i p(1) hp(2-4)] p(2) by simp
  then obtain s' where "set_node_data s (pnode ty a) None = Some s'" "same_entries ty s s'" "heap_inv ty hp (hpd_type h) s' {} (M - {a})"
    "node_data s' (pnode ty a) = Some None" by (rule heap_clear [OF _ _ _ p(3)]) auto
  then show ?thesis using p(3) hp(1) by (auto simp: heap_remove_def heap_manages_def)
qed

lemma heap_referenced_ok:
  assumes m: "heap_manages ty h s M" and a: "a \<in> M"
  shows "\<exists>h'. heap_referenced h s a (pnode ty a) = Some (h', s) \<and> heap_manages ty h' s M"
proof -
  have i: "heap_inv ty (with_keys s h) (hpd_type h) s {} M" using m by (simp add: heap_manages_def)
  obtain p where p: "p \<in> hdom (with_keys s h)" "hdata (with_keys s h) p = a" "node_data s (pnode ty a) = Some (Some p)"
    using heap_inv_member [OF i a] by blast
  have v: "heap_valid (with_keys s h)" using i unfolding heap_inv_def by blast
  obtain hp k where hp: "heap_update (with_keys s h) p a = Some (a, hp)" "heap_valid hp" "hdom hp = hdom (with_keys s h)"
    "node_kd hp = (node_kd (with_keys s h))(p := (k, a))" using heap_update_ok [OF v p(1), of a] p(2) by auto
  have d: "hdata hp q = hdata (with_keys s h) q" for q using hp(4) p(2) by simp
  have "heap_inv ty hp (hpd_type h) s {} M" using i hp(2) unfolding heap_inv_def hp(3) d by blast
  moreover have "\<exists>e. s_entries s a = Some e" using p(3) by (auto simp: node_data_def pnode_def split: if_splits Option.bind_splits)
  ultimately show ?thesis using p(3) hp(1) by (auto simp: heap_referenced_def heap_manages_def)
qed

interpretation hpol: removal_policy ty "heap_manages ty" heap_add heap_remove heap_referenced for ty
proof
  fix p s M a d assume m: "heap_manages ty p s M" and d: "node_data s (pnode ty a) = Some d"
  have i: "heap_inv ty (hpd_heap p) (hpd_type p) s {} M" using m by (simp add: heap_manages_def)
  have "M = hdata (hpd_heap p) ` hdom (hpd_heap p)" using i by (simp add: heap_inv_def)
  then have "a \<in> M \<longleftrightarrow> (\<exists>q. node_data s (pnode ty a) = Some (Some q))" using heap_inv_field [OF i, of a] by (metis empty_iff image_iff)
  then show "a \<in> M \<longleftrightarrow> d \<noteq> None" using d by (cases d) auto
next
  fix p s M a assume "heap_manages ty p s M" "a \<in> M"
  then show "\<exists>d. node_data s (pnode ty a) = Some d" unfolding heap_manages_def by (blast dest: heap_inv_member)
next
  fix p s M a assume "heap_manages ty p s M" "a \<in> M"
  then show "\<exists>p' s'. heap_referenced p s a (pnode ty a) = Some (p', s') \<and> heap_manages ty p' s' M \<and> same_entries ty s s'"
    using heap_referenced_ok same_entries_refl by blast
qed (use heap_add_ok heap_remove_ok in blast)+

subsection \<open>Purging\<close>

text \<open>What a purge does to the entries apart from the policy's field: \<open>f\<close> is applied to
  those of \<open>P\<close>.\<close>

definition changed :: "heap_entry_type \<Rightarrow> addr set \<Rightarrow> (StoreEntry \<Rightarrow> StoreEntry) \<Rightarrow> store \<Rightarrow> store \<Rightarrow> bool" where
  "changed ty P f s s' \<longleftrightarrow> s_curtime s' = s_curtime s \<and>
     (\<forall>b. map_option (but_node ty) (s_entries s' b) = map_option (\<lambda>e. but_node ty (if b \<in> P then f e else e)) (s_entries s b))"

definition hold :: "int \<Rightarrow> StoreEntry \<Rightarrow> StoreEntry" where
  "hold t e = e\<lparr>e_lock_count := e_lock_count e + 1, e_lastref := t\<rparr>"

definition unhold :: "StoreEntry \<Rightarrow> StoreEntry" where
  "unhold e = e\<lparr>e_lock_count := e_lock_count e - 1\<rparr>"

lemma but_node_hold: "but_node ty (hold t e) = hold t (but_node ty e)" "but_node ty (unhold e) = unhold (but_node ty e)"
  by (simp_all add: but_node_def hold_def unhold_def)

lemma changed_refl [simp]: "changed ty {} f s s"
  by (simp add: changed_def)

lemma changed_same: "same_entries ty s s' \<Longrightarrow> changed ty {} f s s'"
proof -
  assume i: "same_entries ty s s'"
  then have "s' = s\<lparr>s_entries := s_entries s'\<rparr>" by (simp add: same_entries_def)
  then have "s_curtime s' = s_curtime (s\<lparr>s_entries := s_entries s'\<rparr>)" by (rule arg_cong)
  then show ?thesis using i by (simp add: changed_def same_entries_def)
qed

lemma changed_trans:
  assumes "changed ty P f s s1" "changed ty Q f s1 s2" "P \<inter> Q = {}" "\<And>e. but_node ty (f e) = f (but_node ty e)"
  shows "changed ty (P \<union> Q) f s s2"
  unfolding changed_def
proof (intro conjI allI)
  show "s_curtime s2 = s_curtime s" using assms by (simp add: changed_def)
  fix b
  have 1: "map_option (but_node ty) (s_entries s1 b) = map_option (\<lambda>e. but_node ty (if b \<in> P then f e else e)) (s_entries s b)"
    and 2: "map_option (but_node ty) (s_entries s2 b) = map_option (\<lambda>e. but_node ty (if b \<in> Q then f e else e)) (s_entries s1 b)"
    using assms by (simp_all add: changed_def)
  have "map_option (\<lambda>e. but_node ty (f e)) (s_entries s1 b) = map_option f (map_option (but_node ty) (s_entries s1 b))"
    by (simp add: assms(4) option.map_comp comp_def)
  also have "\<dots> = map_option f (map_option (\<lambda>e. but_node ty (if b \<in> P then f e else e)) (s_entries s b))" by (simp only: 1)
  finally have 3: "map_option (\<lambda>e. but_node ty (f e)) (s_entries s1 b) = map_option (\<lambda>e. f (but_node ty (if b \<in> P then f e else e))) (s_entries s b)"
    by (simp add: option.map_comp comp_def)
  show "map_option (but_node ty) (s_entries s2 b) = map_option (\<lambda>e. but_node ty (if b \<in> P \<union> Q then f e else e)) (s_entries s b)"
  proof (cases "b \<in> Q")
    case True
    then have "b \<notin> P" using assms(3) by auto
    then show ?thesis using 2 3 True assms(4) by simp
  next
    case False
    then show ?thesis using 1 2 by simp
  qed
qed

lemma storeLockObject_ok:
  assumes e: "s_entries s a = Some e"
  obtains s' where "storeLockObject s a = Some s'" "changed ty {a} (hold (s_curtime s)) s s'"
    "\<forall>nd. node_data s' nd = node_data s nd" "\<forall>b. b \<noteq> a \<longrightarrow> s_entries s' b = s_entries s b"
proof -
  let ?e = "hold (s_curtime s) e"
  obtain s' where s': "storeLockObject s a = Some s'" "s_entries s' = (s_entries s)(a \<mapsto> ?e)" "s_curtime s' = s_curtime s"
    using e by (auto simp: storeLockObject_def storeEntryReferenced_def put_entry_def put_event_def hold_def Let_def)
  have "node_data s' nd = node_data s nd" for nd using e s'(2) by (cases nd) (auto simp: node_data_def hold_def)
  moreover have "changed ty {a} (hold (s_curtime s)) s s'" using s' e by (auto simp: changed_def)
  ultimately show thesis using that s' by auto
qed

text \<open>The outcome of \<open>heap_purgeNext\<close> from a heap with the entries \<open>M\<close>: \<open>P\<close> are locked entries
  it took out and holds, \<open>r\<close> is the entry it returned, with key \<open>k\<close>.\<close>

definition heap_purged :: "heap_entry_type \<Rightarrow> HeapPolicyData \<Rightarrow> store \<Rightarrow> addr set \<Rightarrow> addr set \<Rightarrow>
    addr list \<Rightarrow> heap_key \<Rightarrow> addr option \<Rightarrow> HeapPolicyData \<Rightarrow> store \<Rightarrow> bool" where
  "heap_purged ty h s X M P k r h' s' \<longleftrightarrow> distinct P \<and> set P \<subseteq> M \<and> (\<forall>b \<in> set P. entry_locked s b) \<and>
     changed ty (set P) (hold (s_curtime s)) s s' \<and>
     (\<exists>hp. h' = h\<lparr>hpd_heap := hp\<rparr> \<and> hp_age hp = hp_age (hpd_heap h)) \<and>
     (case r of
        None \<Rightarrow> M = set P \<and> heap_inv ty (hpd_heap h') (hpd_type h') s' (X \<union> set P) {}
      | Some a \<Rightarrow> a \<in> M - set P \<and> \<not> entry_locked s a \<and> (k, a) \<in># heap_contents (hpd_heap h) \<and>
          (\<forall>x \<in># heap_contents (hpd_heap h). \<not> entry_locked s (snd x) \<longrightarrow> k \<le> fst x) \<and>
          heap_inv ty (hpd_heap h') (hpd_type h') s' (X \<union> set P) (M - {a} - set P) \<and> node_data s' (pnode ty a) = Some None)"

lemma changed_locked: "changed ty P f s s' \<Longrightarrow> b \<notin> P \<Longrightarrow> entry_locked s' b = entry_locked s b"
proof -
  assume c: "changed ty P f s s'" and b: "b \<notin> P"
  have "entry_locked x b = (case map_option (but_node ty) (s_entries x b) of None \<Rightarrow> False | Some e \<Rightarrow> storeEntryLocked e)" for x
    by (auto simp: entry_locked_def storeEntryLocked_def but_node_def split: option.splits)
  moreover have "map_option (but_node ty) (s_entries s' b) = map_option (but_node ty) (s_entries s b)"
    using c b by (simp add: changed_def)
  ultimately show ?thesis by (simp only:)
qed

lemma changed_node:
  assumes c: "changed ty P f s s'" and f: "\<And>e. e_mem_obj (f e) = e_mem_obj e"
  shows "node_data s' (pnode ty b) = None \<longleftrightarrow> node_data s (pnode ty b) = None"
proof -
  let ?g = "\<lambda>e. if b \<in> P then f e else e"
  have m: "map_option (but_node ty) (s_entries s' b) = map_option (\<lambda>e. but_node ty (?g e)) (s_entries s b)"
    using c by (simp add: changed_def)
  have "e_mem_obj e' = None \<longleftrightarrow> e_mem_obj e = None"
    if "but_node TYPE_STORE_MEM e' = but_node TYPE_STORE_MEM (?g e)" for e e'
    using but_node_mem [OF that] f by auto
  with m show ?thesis unfolding node_data_None by (auto split: option.splits)
qed

lemma heap_purged_skip:
  assumes p: "heap_purged ty (h\<lparr>hpd_heap := hp\<rparr>) s1 (insert a X) (M - {a}) P k r h' s'"
    and a: "a \<in> M" "entry_locked s a" and c: "changed ty {a} (hold (s_curtime s)) s s1"
    and hp: "heap_contents (hpd_heap h) = add_mset (ka, a) (heap_contents hp)" "hp_age hp = hp_age (hpd_heap h)"
  shows "heap_purged ty h s X M (a # P) k r h' s'"
proof -
  have P: "set P \<subseteq> M - {a}" using p by (simp add: heap_purged_def)
  have t: "s_curtime s1 = s_curtime s" using c by (simp add: changed_def)
  have l: "entry_locked s1 b = entry_locked s b" if "b \<noteq> a" for b using changed_locked [OF c] that by simp
  have "changed ty ({a} \<union> set P) (hold (s_curtime s)) s s'"
    by (rule changed_trans [OF c]) (use p P t but_node_hold in \<open>auto simp: heap_purged_def\<close>)
  moreover have "X \<union> set (a # P) = insert a X \<union> set P" "M - {b} - set (a # P) = M - {a} - {b} - set P" for b by auto
  moreover have "k \<le> fst x" if "\<forall>x \<in># heap_contents hp. \<not> entry_locked s1 (snd x) \<longrightarrow> k \<le> fst x"
    "x \<in># heap_contents (hpd_heap h)" "\<not> entry_locked s (snd x)" for x
    using that hp(1) a(2) l [of "snd x"] by (cases "snd x = a") auto
  moreover have "entry_locked s b" if "b \<in> set P" for b
  proof -
    have "b \<noteq> a" "entry_locked s1 b" using that P p by (auto simp: heap_purged_def)
    then show ?thesis using l by simp
  qed
  ultimately show ?thesis using p P a l hp unfolding heap_purged_def by (cases r) (auto simp del: Un_iff)
qed

lemma heap_inv_entry: "heap_inv ty hp t s X M \<Longrightarrow> a \<in> M \<Longrightarrow> \<exists>e. s_entries s a = Some e"
  by (drule (1) heap_inv_member) (auto simp: node_data_def pnode_def split: if_splits Option.bind_splits)

text \<open>One turn of the loop: the entry with the least key is taken out.\<close>

lemma heap_purge_root:
  assumes i: "heap_inv ty (hpd_heap h) (hpd_type h) s X M" and ne: "hdom (hpd_heap h) \<noteq> {}"
  obtains a k hp e where "heap_nodes (hpd_heap h) \<noteq> 0" "heap_peepminkey (hpd_heap h) = Some k"
    "heap_extractmin (hpd_heap h) = Some (Some a, hp)" "s_entries s a = Some e" "a \<in> M"
    "heap_inv ty hp (hpd_type h) s (insert a X) (M - {a})" "hp_age hp = hp_age (hpd_heap h)"
    "heap_contents (hpd_heap h) = add_mset (k, a) (heap_contents hp)" "\<forall>x \<in># heap_contents (hpd_heap h). k \<le> fst x"
    "card (hdom hp) < card (hdom (hpd_heap h))" "a \<notin> X" "\<exists>p. node_data s (pnode ty a) = Some (Some p)" "hpd_type h = ty"
proof -
  let ?hp = "hpd_heap h"
  have v: "heap_valid ?hp" and M: "M = hdata ?hp ` hdom ?hp" using i by (simp_all add: heap_inv_def)
  obtain p hp where p: "p \<in> hdom ?hp" "0 < hp_last ?hp" "heap_peepminkey ?hp = Some (node_key ?hp p)"
    "heap_extractmin ?hp = Some (Some (hdata ?hp p), hp)" "heap_valid hp" "hdom hp = hdom ?hp - {p}"
    "\<forall>q. q \<noteq> p \<longrightarrow> node_kd hp q = node_kd ?hp q" "\<forall>b \<in> hdom ?hp. node_key ?hp p \<le> node_key ?hp b" "hp_age hp = hp_age ?hp"
    by (rule extractmin_node [OF v ne])
  have f: "finite (hdom ?hp)" by (rule valid_finite [OF v])
  have a: "hdata ?hp p \<in> M" using M p(1) by simp
  have "heap_contents ?hp = add_mset (node_key ?hp p, hdata ?hp p) (heap_contents hp)"
    using contents_delete [OF f p(1,6)] p(7) by simp
  moreover have "\<forall>x \<in># heap_contents ?hp. node_key ?hp p \<le> fst x" using p(8) f by (auto simp: heap_contents_def)
  moreover have "card (hdom hp) < card (hdom ?hp)" unfolding p(6) using f p(1) by (rule card_Diff1_less)
  moreover have "hpd_type h = ty" using i a by (auto simp: heap_inv_def)
  moreover note heap_hold [OF i p(1,5-7)] heap_inv_member [OF i a] heap_inv_entry [OF i a] p(2-4,9) a
  ultimately show thesis using that unfolding heap_nodes_def by blast
qed

lemma heap_purge_run:
  "heap_inv ty (hpd_heap h) (hpd_type h) s X M \<Longrightarrow>
    \<exists>P k r h' s' w'. heap_purgeNext h s w = Some (r, h', s', w') \<and> hw_locked_entries w' = hw_locked_entries w @ P \<and>
      hw_min_age w' = (if r = None then hw_min_age w else k) \<and> heap_purged ty h s X M P k r h' s'"
proof (induction "card (hdom (hpd_heap h))" arbitrary: h s w X M rule: less_induct)
  case less
  note i = less.prems
  show ?case
  proof (cases "hdom (hpd_heap h) = {}")
    case True
    have "heap_valid (hpd_heap h)" using i by (simp add: heap_inv_def)
    then have z: "heap_nodes (hpd_heap h) = 0" using True by (auto simp: heap_valid_def heap_ok_def heap_rep_def heap_nodes_def)
    have "M = {}" using i True by (auto simp: heap_inv_def)
    then have "heap_purged ty h s X M [] k None h s" for k
      using i unfolding heap_purged_def by (auto intro!: exI [of _ "hpd_heap h"])
    then show ?thesis using z by (subst heap_purgeNext.simps) auto
  next
    case False
    obtain a k hp e where a: "heap_nodes (hpd_heap h) \<noteq> 0" "heap_peepminkey (hpd_heap h) = Some k"
      "heap_extractmin (hpd_heap h) = Some (Some a, hp)" "s_entries s a = Some e" "a \<in> M"
      "heap_inv ty hp (hpd_type h) s (insert a X) (M - {a})" "hp_age hp = hp_age (hpd_heap h)"
      "heap_contents (hpd_heap h) = add_mset (k, a) (heap_contents hp)" "\<forall>x \<in># heap_contents (hpd_heap h). k \<le> fst x"
      "card (hdom hp) < card (hdom (hpd_heap h))" "a \<notin> X" and n: "\<exists>p. node_data s (pnode ty a) = Some (Some p)" and t: "hpd_type h = ty"
      by (rule heap_purge_root [OF i False])
    let ?h = "h\<lparr>hpd_heap := hp\<rparr>"
    show ?thesis
    proof (cases "storeEntryLocked e")
      case True
      obtain s1 where s1: "storeLockObject s a = Some s1" "changed ty {a} (hold (s_curtime s)) s s1" "\<forall>nd. node_data s1 nd = node_data s nd"
        by (rule storeLockObject_ok [OF a(4)])
      let ?w = "w\<lparr>hw_locked_entries := hw_locked_entries w @ [a]\<rparr>"
      have "heap_inv ty (hpd_heap ?h) (hpd_type ?h) s1 (insert a X) (M - {a})" using heap_inv_store [OF a(6)] s1(3) by simp
      then obtain P k' r h' s' w' where P: "heap_purgeNext ?h s1 ?w = Some (r, h', s', w')"
        "hw_locked_entries w' = hw_locked_entries ?w @ P" "hw_min_age w' = (if r = None then hw_min_age ?w else k')"
        "heap_purged ty ?h s1 (insert a X) (M - {a}) P k' r h' s'" using less.hyps [of ?h] a(10) by fastforce
      have "heap_purged ty h s X M (a # P) k' r h' s'"
        by (rule heap_purged_skip [OF P(4) a(5) _ s1(2) a(8,7)]) (use True a(4) in \<open>simp add: entry_locked_def\<close>)
      moreover have "heap_purgeNext h s w = Some (r, h', s', w')"
        using a(1-4) True s1(1) P(1) by (subst heap_purgeNext.simps) (simp add: Let_def)
      ultimately show ?thesis using P(2,3) by (intro exI [of _ "a # P"] exI [of _ k']) auto
    next
      case False
      obtain s1 where s1: "set_node_data s (pnode ty a) None = Some s1" "same_entries ty s s1"
        "heap_inv ty hp (hpd_type h) s1 X (M - {a})" "node_data s1 (pnode ty a) = Some None"
        using heap_clear [OF a(6) _ a(11)] n by blast
      have "ty \<noteq> TYPE_UNKNOWN" using i by (simp add: heap_inv_def)
      then have "heap_purgeNext h s w = Some (Some a, ?h, s1, w\<lparr>hw_min_age := k\<rparr>)"
        using a(1-4) False s1(1) t by (subst heap_purgeNext.simps) (simp add: Let_def SET_POLICY_NODE_pnode)
      moreover have "heap_purged ty h s X M [] k (Some a) ?h s1"
        using False a(4,5,7-9) s1(3,4) changed_same [OF s1(2)] unfolding heap_purged_def by (auto simp: entry_locked_def)
      ultimately show ?thesis by (intro exI [of _ "[]"] exI [of _ k]) auto
    qed
  qed
qed

lemma storeUnlockObject_shared:
  assumes "s_entries s a = Some e" "e_lock_count e \<noteq> 1"
  shows "storeUnlockObject (Suc n) s a = Some (put_entry s a (unhold e))"
  using assms by (simp add: storeUnlockObject_def unlock_body_def unhold_def Let_def)

lemma put_unhold:
  assumes e: "s_entries s a = Some e"
  shows "changed ty {a} unhold s (put_entry s a (unhold e))" "node_data (put_entry s a (unhold e)) nd = node_data s nd"
  using e by (auto simp: changed_def put_entry_def node_data_def unhold_def split: policy_node.splits)

definition shared :: "store \<Rightarrow> addr \<Rightarrow> bool" where
  "shared s b \<longleftrightarrow> (\<exists>e. s_entries s b = Some e \<and> e_lock_count e \<noteq> 1)"

lemma shared_changed: "changed ty P f s s' \<Longrightarrow> b \<notin> P \<Longrightarrow> shared s b \<Longrightarrow> shared s' b"
proof -
  assume c: "changed ty P f s s'" and b: "b \<notin> P" "shared s b"
  have "map_option (but_node ty) (s_entries s' b) = map_option (but_node ty) (s_entries s b)" using c b by (simp add: changed_def)
  moreover have "e_lock_count e = e_lock_count (but_node ty e)" for e by (simp add: but_node_def)
  ultimately show "shared s' b" using b(2) unfolding shared_def by (metis (no_types, lifting) map_option_eq_Some)
qed

lemma heap_reinsert_ok:
  assumes "heap_inv ty (hpd_heap h) (hpd_type h) s (X \<union> set P) M" "distinct P" "set P \<inter> X = {}"
    "\<forall>b \<in> set P. shared s b \<and> node_data s (pnode ty b) \<noteq> None"
  shows "\<exists>h' s'. heap_reinsert (Suc n) h s P = Some (h', s') \<and> heap_inv ty (hpd_heap h') (hpd_type h) s' X (M \<union> set P) \<and>
    changed ty (set P) unhold s s' \<and> (\<exists>hp. h' = h\<lparr>hpd_heap := hp\<rparr> \<and> hp_age hp = hp_age (hpd_heap h))"
  using assms
proof (induction P arbitrary: h s M)
  case Nil
  then show ?case by (auto intro!: exI [of _ "hpd_heap h"])
next
  case (Cons a P)
  have t: "hpd_type h = ty" using Cons.prems(1) by (auto simp: heap_inv_def)
  then have i: "heap_inv ty (with_keys s h) ty s (X \<union> set (a # P)) M" using Cons.prems(1) by simp
  have ty: "ty \<noteq> TYPE_UNKNOWN" using i by (simp add: heap_inv_def)
  have a: "a \<notin> M" using heap_inv_member [OF i, of a] by auto
  obtain d where d: "node_data s (pnode ty a) = Some d" using Cons.prems(4) by auto
  obtain p hp s1 where p: "heap_insert (with_keys s h) a = Some (p, hp)" "set_node_data s (pnode ty a) (Some p) = Some s1"
    "same_entries ty s s1" "heap_inv ty hp ty s1 (X \<union> set (a # P) - {a}) (insert a M)" "hp_age hp = hp_age (with_keys s h)"
    by (rule heap_put [OF i a d])
  have X: "X \<union> set (a # P) - {a} = X \<union> set P" using Cons.prems(2,3) by auto
  have c1: "changed ty {} unhold s s1" by (rule changed_same [OF p(3)])
  obtain e where e: "s_entries s1 a = Some e" "e_lock_count e \<noteq> 1"
    using shared_changed [OF c1, of a] Cons.prems(4) by (auto simp: shared_def)
  let ?s2 = "put_entry s1 a (unhold e)" and ?h = "h\<lparr>hpd_heap := hp\<rparr>"
  have c2: "changed ty ({} \<union> {a}) unhold s ?s2"
    by (rule changed_trans [OF c1 put_unhold(1) [OF e(1)]]) (simp_all add: but_node_hold)
  have "heap_inv ty (hpd_heap ?h) (hpd_type ?h) ?s2 (X \<union> set P) (insert a M)"
    using heap_inv_store [OF p(4)] put_unhold(2) [OF e(1)] X t by simp
  moreover have "shared ?s2 b \<and> node_data ?s2 (pnode ty b) \<noteq> None" if "b \<in> set P" for b
  proof -
    have "b \<notin> {} \<union> {a}" using that Cons.prems(2) by auto
    then show ?thesis using shared_changed [OF c2] changed_node [OF c2, of b] Cons.prems(4) that by (auto simp: unhold_def)
  qed
  ultimately obtain h' s' where h': "heap_reinsert (Suc n) ?h ?s2 P = Some (h', s')" "heap_inv ty (hpd_heap h') ty s' X (insert a M \<union> set P)"
    "changed ty (set P) unhold ?s2 s'" "\<exists>hp'. h' = ?h\<lparr>hpd_heap := hp'\<rparr> \<and> hp_age hp' = hp_age (hpd_heap ?h)"
    using Cons.IH [of ?h ?s2 "insert a M"] Cons.prems(2,3) t by auto
  have "changed ty ({} \<union> {a} \<union> set P) unhold s s'"
    by (rule changed_trans [OF c2 h'(3)]) (use Cons.prems(2) in \<open>simp_all add: but_node_hold\<close>)
  moreover have "heap_reinsert (Suc n) h s (a # P) = Some (h', s')"
  proof -
    have "\<exists>e. s_entries s a = Some e" using Cons.prems(4) by (auto simp: shared_def)
    then show ?thesis using p(1,2) storeUnlockObject_shared [OF e] h'(1) ty t by (auto simp: SET_POLICY_NODE_pnode)
  qed
  ultimately show ?case using h'(2,4) p(5) t by (auto simp: with_keys_def)
qed

subsection \<open>Properties\<close>

lemma lock_count_but: "e_lock_count (but_node ty e) = e_lock_count e"
  by (simp add: but_node_def)

lemma changed_lock_count:
  assumes c: "changed ty P f s s'"
  shows "map_option e_lock_count (s_entries s' b) = map_option (\<lambda>e. e_lock_count (if b \<in> P then f e else e)) (s_entries s b)"
proof -
  have "map_option e_lock_count (s_entries s' b) = map_option e_lock_count (map_option (but_node ty) (s_entries s' b))"
    by (simp add: option.map_comp comp_def lock_count_but)
  also have "\<dots> = map_option e_lock_count (map_option (\<lambda>e. but_node ty (if b \<in> P then f e else e)) (s_entries s b))"
    using c by (simp only: changed_def)
  finally show ?thesis by (simp add: option.map_comp comp_def lock_count_but)
qed

text \<open>The locked entries of \<open>M\<close> are locked by a count that neither overflows nor is the one the
  walker adds.\<close>

definition counted_locks :: "store \<Rightarrow> addr set \<Rightarrow> bool" where
  "counted_locks s M \<longleftrightarrow> (\<forall>b \<in> M. \<forall>e. s_entries s b = Some e \<and> storeEntryLocked e \<longrightarrow> e_lock_count e \<notin> {0, 65535})"

lemma held_shared:
  assumes c: "changed ty P (hold t) s s'" and l: "counted_locks s M" "b \<in> P" "b \<in> M" "entry_locked s b"
  shows "shared s' b"
proof -
  obtain e where e: "s_entries s b = Some e" "storeEntryLocked e" using l(4) by (auto simp: entry_locked_def split: option.splits)
  then have "e_lock_count e \<noteq> 0" using l(1,3) by (auto simp: counted_locks_def)
  then have "e_lock_count (hold t e) \<noteq> 1" by (auto simp: hold_def)
  then show ?thesis using changed_lock_count [OF c, of b] e(1) l(2) unfolding shared_def by auto
qed

text \<open>C28: A round of purging with the heap policy takes out the unlocked entry with the least key
  and nothing else: \<open>heap_purgeNext\<close> returns, from among the managed entries that are not
  locked, one with the least key, or \<open>NULL\<close> if there is none; the locked ones it met are put back by
  \<open>heap_purgeDone\<close>, and every lock count is what it was. The heap's age becomes
  that key if it is positive. The policy's own count is not touched, although an entry has
  left.\<close>
theorem heap_purge_round:
  assumes "heap_manages ty h s M" "0 \<le> hpd_nwalkers h" "counted_locks s M" "heap_purgeInit h = (w, h0)"
  shows "\<exists>r h1 s1 w1 h2 s2. heap_purgeNext h0 s w = Some (r, h1, s1, w1) \<and> heap_purgeDone (Suc n) h1 s1 w1 = Some (h2, s2) \<and>
    (case r of
       None \<Rightarrow> heap_manages ty h2 s2 M \<and> (\<forall>b \<in> M. entry_locked s b)
     | Some a \<Rightarrow> heap_manages ty h2 s2 (M - {a}) \<and> a \<in> M \<and> \<not> entry_locked s a \<and> (hw_min_age w1, a) \<in># heap_contents (hpd_heap h) \<and>
         (\<forall>x \<in># heap_contents (hpd_heap h). \<not> entry_locked s (snd x) \<longrightarrow> hw_min_age w1 \<le> fst x) \<and>
         (0 < hw_min_age w1 \<longrightarrow> hp_age (hpd_heap h2) = hw_min_age w1)) \<and>
    (\<forall>b. map_option e_lock_count (s_entries s2 b) = map_option e_lock_count (s_entries s b)) \<and> hpd_count h2 = hpd_count h"
proof -
  have h0: "hpd_heap h0 = hpd_heap h" "hpd_type h0 = hpd_type h" "hpd_count h0 = hpd_count h" "hpd_nwalkers h0 = hpd_nwalkers h + 1"
    "hw_locked_entries w = []" using assms(4) by (auto simp: heap_purgeInit_def)
  have i: "heap_inv ty (hpd_heap h0) (hpd_type h0) s {} M" using assms(1) h0 by (simp add: heap_manages_def)
  obtain P k r h1 s1 w1 where p: "heap_purgeNext h0 s w = Some (r, h1, s1, w1)" "hw_locked_entries w1 = P"
    "hw_min_age w1 = (if r = None then hw_min_age w else k)" "heap_purged ty h0 s {} M P k r h1 s1"
    using heap_purge_run [OF i, of w] h0(5) by auto
  define N where "N = (case r of None \<Rightarrow> {} | Some a \<Rightarrow> M - {a} - set P)"
  have P: "distinct P" "set P \<subseteq> M" "\<forall>b \<in> set P. entry_locked s b" "changed ty (set P) (hold (s_curtime s)) s s1"
    "\<exists>hp. h1 = h0\<lparr>hpd_heap := hp\<rparr>" and inv1: "heap_inv ty (hpd_heap h1) (hpd_type h1) s1 ({} \<union> set P) N"
    using p(4) unfolding heap_purged_def N_def by (auto split: option.splits)
  define h1' where "h1' = (if 0 < hw_min_age w1 then h1\<lparr>hpd_nwalkers := hpd_nwalkers h1 - 1, hpd_heap := (hpd_heap h1)\<lparr>hp_age := hw_min_age w1\<rparr>\<rparr>
    else h1\<lparr>hpd_nwalkers := hpd_nwalkers h1 - 1\<rparr>)"
  have d: "heap_purgeDone (Suc n) h1 s1 w1 = heap_reinsert (Suc n) h1' s1 P"
    using P(5) h0(4) assms(2) p(2) by (auto simp: heap_purgeDone_def h1'_def Let_def)
  have i1: "heap_inv ty (hpd_heap h1') (hpd_type h1') s1 ({} \<union> set P) N" using inv1 by (simp add: h1'_def)
  have sh: "shared s1 b \<and> node_data s1 (pnode ty b) \<noteq> None" if "b \<in> set P" for b
  proof -
    have "b \<in> M" "entry_locked s b" using that P(2,3) by auto
    then show ?thesis using held_shared [OF P(4) assms(3) that] changed_node [OF P(4), of b] heap_inv_member [OF i, of b]
      by (auto simp: hold_def)
  qed
  obtain h2 s2 where h2: "heap_reinsert (Suc n) h1' s1 P = Some (h2, s2)" "heap_inv ty (hpd_heap h2) (hpd_type h1') s2 {} (N \<union> set P)"
    "changed ty (set P) unhold s1 s2" "\<exists>hp. h2 = h1'\<lparr>hpd_heap := hp\<rparr> \<and> hp_age hp = hp_age (hpd_heap h1')"
    using heap_reinsert_ok [OF i1 P(1), of n] sh by auto
  have "N \<union> set P = (case r of None \<Rightarrow> M | Some a \<Rightarrow> M - {a})"
    using p(4) unfolding N_def heap_purged_def by (auto split: option.splits)
  then have "heap_manages ty h2 s2 (case r of None \<Rightarrow> M | Some a \<Rightarrow> M - {a})" using h2(2,4) by (auto simp: heap_manages_def)
  moreover have "map_option e_lock_count (s_entries s2 b) = map_option e_lock_count (s_entries s b)" for b
    using changed_lock_count [OF P(4), of b] changed_lock_count [OF h2(3), of b]
    by (cases "s_entries s b"; cases "s_entries s1 b") (auto simp: hold_def unhold_def split: if_splits)
  moreover have "hpd_count h2 = hpd_count h" using h2(4) P(5) h0(3) by (auto simp: h1'_def)
  moreover have "0 < hw_min_age w1 \<longrightarrow> hp_age (hpd_heap h2) = hw_min_age w1" using h2(4) by (auto simp: h1'_def)
  ultimately show ?thesis using p d h2(1) h0(1) unfolding heap_purged_def by (cases r) auto
qed

definition demo_heap_store :: "cache_key hash_table \<Rightarrow> store" where
  "demo_heap_store t = (demo_store t)\<lparr>s_entries := [1 \<mapsto> demo_entry\<lparr>e_lastref := 500\<rparr>, 2 \<mapsto> demo_entry\<lparr>e_lock_count := 1\<rparr>]\<rparr>"

lemma demo_heap_manages:
  obtains h s where "heap_manages TYPE_STORE_ENTRY h s {1, 2}" "same_entries TYPE_STORE_ENTRY (demo_heap_store t) s" "hpd_nwalkers h = 0"
proof -
  let ?T = TYPE_STORE_ENTRY and ?s = "demo_heap_store t"
  obtain h0 where h0: "createRemovalPolicy_heap [''LFUDA''] = Some h0" "hpd_heap h0 = (new_heap 1000 (\<lambda>a age. age) 0)\<lparr>hp_age := 1\<rparr>"
    "hpd_type h0 = TYPE_UNKNOWN" "hpd_nwalkers h0 = 0" by (simp add: createRemovalPolicy_heap_def)
  have n0: "node_data ?s (pnode ?T a) = (if a = 1 \<or> a = 2 then Some None else None)" for a
    by (simp add: node_data_def pnode_def demo_heap_store_def demo_entry_def)
  have "hdom (hpd_heap h0) = {}" by (simp add: h0(2) new_heap_def Let_def)
  then have m: "heap_manages ?T h0 ?s {}"
    unfolding heap_manages_def heap_inv_def using h0(2,3) new_heap_valid(1) n0 by simp
  have "\<forall>a \<in> set [1, 2]. a \<notin> {} \<and> node_data ?s (pnode ?T a) \<noteq> None \<and> (\<exists>e. s_entries ?s a = Some e \<and> \<not> has_flag e ENTRY_SPECIAL)"
    using n0 by (simp add: demo_heap_store_def demo_entry_def EBIT_TEST_def)
  from hpol.add_all [OF m _ this] obtain h s where "add_list heap_add ?T h0 ?s [1, 2] = Some (h, s)" "heap_manages ?T h s ({} \<union> set [1, 2])"
    "same_entries ?T ?s s" by auto
  moreover have "hpd_nwalkers h' = hpd_nwalkers h" if "heap_add h s a nd = Some (h', s')" for h s a nd h' s'
    using that by (auto simp: heap_add_def split: Option.bind_splits if_splits)
  ultimately show thesis using that h0(4) by (auto split: Option.bind_splits)
qed

theorem heap_purge_round_witness:
  "\<exists>h s w h0 h1 s1 w1 h2 s2. heap_manages TYPE_STORE_ENTRY h s {1, 2} \<and> heap_purgeInit h = (w, h0) \<and>
    heap_purgeNext h0 s w = Some (Some 1, h1, s1, w1) \<and> heap_purgeDone 1 h1 s1 w1 = Some (h2, s2) \<and>
    heap_manages TYPE_STORE_ENTRY h2 s2 {2}"
proof -
  fix t
  let ?T = TYPE_STORE_ENTRY
  obtain h s where h: "heap_manages ?T h s {1, 2}" "same_entries ?T (demo_heap_store t) s" "hpd_nwalkers h = 0"
    by (rule demo_heap_manages)
  have l: "\<not> entry_locked s 1" "entry_locked s 2" unfolding same_entries_locked [OF h(2)]
    by (simp_all add: entry_locked_def demo_heap_store_def storeEntryLocked_def demo_entry_def EBIT_TEST_def)
  have "map_option e_lock_count (s_entries s 2) = map_option e_lock_count (s_entries (demo_heap_store t) 2)"
    using changed_lock_count [OF changed_same [OF h(2), of id], of 2] by simp
  then have "counted_locks s {1, 2}" using l(1)
    by (auto simp: counted_locks_def entry_locked_def demo_heap_store_def)
  moreover obtain w h0 where i: "heap_purgeInit h = (w, h0)" by fastforce
  ultimately obtain r h1 s1 w1 h2 s2 where r: "heap_purgeNext h0 s w = Some (r, h1, s1, w1)" "heap_purgeDone 1 h1 s1 w1 = Some (h2, s2)"
    "case r of None \<Rightarrow> \<forall>b \<in> {1, 2}. entry_locked s b
     | Some a \<Rightarrow> heap_manages ?T h2 s2 ({1, 2} - {a}) \<and> a \<in> {1, 2} \<and> \<not> entry_locked s a"
    using heap_purge_round [OF h(1) _ _ i, of 0] h(3) by (fastforce split: option.splits)
  then have "r = Some 1" "heap_manages ?T h2 s2 {2}" using l by (auto split: option.splits)
  then show ?thesis using h(1) i r(1,2) by blast
qed

text \<open>The LFUDA keys order entries as the comment says, by reference count and then by
  recency, with one exception: at the same age an entry with fewer references has the smaller
  key; among equals the one referenced longer ago has the smaller key, if both have a time
  of reference; but an entry without one (\<open>lastref\<close> not positive) ranks above every entry
  that was referenced in the past, as if it were the most recent.\<close>
theorem lfuda_key_order:
  "(e_refcount e1 < e_refcount e2 \<longrightarrow> HeapKeyGen_StoreEntry_LFUDA t e1 age < HeapKeyGen_StoreEntry_LFUDA t e2 age) \<and>
   (e_refcount e1 = e_refcount e2 \<and> 0 < e_lastref e1 \<and> e_lastref e1 < e_lastref e2 \<and> e_lastref e1 < t \<longrightarrow>
      HeapKeyGen_StoreEntry_LFUDA t e1 age < HeapKeyGen_StoreEntry_LFUDA t e2 age) \<and>
   (e_refcount e1 = e_refcount e2 \<and> 0 < e_lastref e1 \<and> e_lastref e1 < t \<and> e_lastref e2 \<le> 0 \<longrightarrow>
      HeapKeyGen_StoreEntry_LFUDA t e1 age < HeapKeyGen_StoreEntry_LFUDA t e2 age)"
proof -
  define tie where "tie e = (if e_lastref e \<le> 0 then 0 else if t \<le> e_lastref e then 0
    else 1 - exp (real_of_int (e_lastref e - t) / 86400))" for e :: StoreEntry
  have k: "HeapKeyGen_StoreEntry_LFUDA t e age = age + real (e_refcount e) - tie e" for e
    by (simp add: HeapKeyGen_StoreEntry_LFUDA_def tie_def)
  have past: "exp (real_of_int (e_lastref e - t) / 86400) < 1" if "e_lastref e < t" for e :: StoreEntry
    using that by (simp add: divide_neg_pos)
  have b: "0 \<le> tie e" "tie e < 1" for e using past [of e] by (auto simp: tie_def)
  have pos: "0 < tie e" if "0 < e_lastref e" "e_lastref e < t" for e using past [of e] that by (simp add: tie_def)
  have mono: "tie e2 < tie e1" if "0 < e_lastref e1" "e_lastref e1 < e_lastref e2" "e_lastref e1 < t"
    using that pos [of e1] by (cases "t \<le> e_lastref e2") (auto simp: tie_def divide_strict_right_mono)
  have "HeapKeyGen_StoreEntry_LFUDA t e1 age < HeapKeyGen_StoreEntry_LFUDA t e2 age" if "e_refcount e1 < e_refcount e2"
    using that b(1) [of e1] b(2) [of e2] unfolding k by linarith
  then show ?thesis unfolding k using mono pos [of e1] by (auto simp: tie_def)
qed

theorem lfuda_key_order_witness:
  "HeapKeyGen_StoreEntry_LFUDA 1000 (demo_entry\<lparr>e_lastref := 999\<rparr>) 1 < HeapKeyGen_StoreEntry_LFUDA 1000 (demo_entry\<lparr>e_lastref := 0\<rparr>) 1"
  using lfuda_key_order [of "demo_entry\<lparr>e_lastref := 999\<rparr>" "demo_entry\<lparr>e_lastref := 0\<rparr>" 1000 1] by simp

lemma heap_free_idle: "hpd_nwalkers h = 0 \<or> hpd_count h = 0 \<Longrightarrow> heap_free h = None"
  by (auto simp: heap_free_def)

end
