(* ===== verification/Splay.thy ===== *)
theory Splay
  imports Prelude "HOL-Library.Tree"
begin

section \<open>Splay trees (lib/splay.c)\<close>

text \<open>
  The search trees of the access lists. A tree of \<open>splayNode\<close>s is a tree of their data; the comparison, a function pointer, is a
  parameter, which has no result where the function would read outside its arguments. A search brings a node to the root that
  matches, or a neighbour of the place where one would be; \<open>splayLastResult\<close>, a global variable that the callers read, is the
  second part of the results. The two half trees that hang at the local node \<open>N\<close> while the search goes down are
  lists of the nodes linked so far, the last one first: in the left tree each waits for its right
  child, in the right tree for its left child.
\<close>

type_synonym ('x, 'a) splay_cmp = "'x \<Rightarrow> 'a \<Rightarrow> int option"

fun left_tree :: "('a tree \<times> 'a) list \<Rightarrow> 'a tree \<Rightarrow> 'a tree" where
  "left_tree [] t = t"
| "left_tree ((l, a) # L) t = left_tree L (Node l a t)"

fun right_tree :: "('a \<times> 'a tree) list \<Rightarrow> 'a tree \<Rightarrow> 'a tree" where
  "right_tree [] t = t"
| "right_tree ((a, r) # R) t = right_tree R (Node t a r)"

definition assemble :: "('a tree \<times> 'a) list \<Rightarrow> ('a \<times> 'a tree) list \<Rightarrow> 'a tree \<Rightarrow> 'a \<Rightarrow> 'a tree \<Rightarrow> 'a tree" where
  "assemble L R l a r = Node (left_tree L l) a (right_tree R r)"

function splay_loop ::
  "('x, 'a) splay_cmp \<Rightarrow> 'x \<Rightarrow> ('a tree \<times> 'a) list \<Rightarrow> ('a \<times> 'a tree) list \<Rightarrow> 'a tree \<Rightarrow> ('a tree \<times> int) option" where
  "splay_loop compare x L R Leaf = None"
| "splay_loop compare x L R (Node l a r) = do {
     res \<leftarrow> compare x a;
     if res < 0 then
       (case l of
          Leaf \<Rightarrow> Some (assemble L R l a r, res)
        | Node ll b lr \<Rightarrow> do {
            res \<leftarrow> compare x b;
            if res < 0 then
              (case ll of
                 Leaf \<Rightarrow> Some (assemble L R ll b (Node lr a r), res)
               | Node _ _ _ \<Rightarrow> splay_loop compare x L ((b, Node lr a r) # R) ll)
            else splay_loop compare x L ((a, r) # R) l })
     else if 0 < res then
       (case r of
          Leaf \<Rightarrow> Some (assemble L R l a r, res)
        | Node rl b rr \<Rightarrow> do {
            res \<leftarrow> compare x b;
            if 0 < res then
              (case rr of
                 Leaf \<Rightarrow> Some (assemble L R (Node l a rl) b rr, res)
               | Node _ _ _ \<Rightarrow> splay_loop compare x ((Node l a rl, b) # L) R rr)
            else splay_loop compare x ((l, a) # L) R r })
     else Some (assemble L R l a r, res) }"
  by pat_completeness auto
termination by (relation "measure (\<lambda>(compare, x, L, R, t). size t)") auto

declare splay_loop.simps [simp del]

definition splay_splay :: "('x, 'a) splay_cmp \<Rightarrow> 'x \<Rightarrow> 'a tree \<Rightarrow> ('a tree \<times> int) option" where
  "splay_splay compare data tp = (if tp = Leaf then Some (tp, - 1) else splay_loop compare data [] [] tp)"

definition splay_insert :: "('a, 'a) splay_cmp \<Rightarrow> 'a \<Rightarrow> 'a tree \<Rightarrow> ('a tree \<times> int) option" where
  "splay_insert compare data tp = do {
     (tp, res) \<leftarrow> splay_splay compare data tp;
     case tp of
       Leaf \<Rightarrow> Some (Node Leaf data Leaf, res)
     | Node l a r \<Rightarrow>
         if res < 0 then Some (Node l data (Node Leaf a r), res)
         else if 0 < res then Some (Node (Node l a Leaf) data r, res)
         else Some (tp, res) }"

text \<open>The data in the order they are freed, and the walk, which may not start at a null pointer.\<close>

fun splay_destroy :: "'a tree \<Rightarrow> 'a list" where
  "splay_destroy Leaf = []"
| "splay_destroy (Node l a r) = splay_destroy l @ splay_destroy r @ [a]"

fun splay_walk :: "('a \<Rightarrow> 's \<Rightarrow> 's) \<Rightarrow> 'a tree \<Rightarrow> 's \<Rightarrow> 's option" where
  "splay_walk walkee Leaf state = None"
| "splay_walk walkee (Node l a r) state = do {
     state \<leftarrow> (if l \<noteq> Leaf then splay_walk walkee l state else Some state);
     let state = walkee a state;
     if r \<noteq> Leaf then splay_walk walkee r state else Some state }"

subsection \<open>Lemmas\<close>

definition left_list :: "('a tree \<times> 'a) list \<Rightarrow> 'a list" where
  "left_list L = concat (map (\<lambda>(l, a). inorder l @ [a]) (rev L))"

definition right_list :: "('a \<times> 'a tree) list \<Rightarrow> 'a list" where
  "right_list R = concat (map (\<lambda>(a, r). a # inorder r) R)"

lemma left_list_simps [simp]: "left_list [] = []" "left_list ((l, a) # L) = left_list L @ inorder l @ [a]"
  by (simp_all add: left_list_def)

lemma right_list_simps [simp]: "right_list [] = []" "right_list ((a, r) # R) = a # inorder r @ right_list R"
  by (simp_all add: right_list_def)

lemma inorder_left_tree [simp]: "inorder (left_tree L t) = left_list L @ inorder t"
  by (induction L t rule: left_tree.induct) simp_all

lemma inorder_right_tree [simp]: "inorder (right_tree R t) = inorder t @ right_list R"
  by (induction R t rule: right_tree.induct) simp_all

lemma set_left_tree [simp]: "set_tree (left_tree L t) = set (left_list L) \<union> set_tree t"
  by (simp flip: set_inorder)

lemma set_right_tree [simp]: "set_tree (right_tree R t) = set_tree t \<union> set (right_list R)"
  by (simp flip: set_inorder)

text \<open>The sign of the comparison falls from left to right.\<close>

definition falling :: "('x, 'a) splay_cmp \<Rightarrow> 'x \<Rightarrow> 'a list \<Rightarrow> bool" where
  "falling compare x xs \<longleftrightarrow> (\<forall>a \<in> set xs. compare x a \<noteq> None) \<and>
     sorted_wrt (\<lambda>a b. sgn (the (compare x b)) \<le> sgn (the (compare x a))) xs"

definition found_at :: "('x, 'a) splay_cmp \<Rightarrow> 'x \<Rightarrow> 'a list \<Rightarrow> 'a tree \<Rightarrow> int \<Rightarrow> bool" where
  "found_at compare x xs t res \<longleftrightarrow>
     (\<exists>l a r. t = Node l a r \<and> inorder t = xs \<and> compare x a = Some res \<and>
       (res \<noteq> 0 \<longrightarrow> (\<forall>b \<in> set (inorder l). 0 < the (compare x b)) \<and> (\<forall>b \<in> set (inorder r). the (compare x b) < 0)))"

lemma sgn_le_m1: "sgn (a :: int) \<le> - 1 \<longleftrightarrow> a < 0"
  by (simp add: sgn_if)

lemma sgn_ge_1: "1 \<le> sgn (a :: int) \<longleftrightarrow> 0 < a"
  by (simp add: sgn_if)

lemma splay_loop_finds:
  assumes "t \<noteq> Leaf" "falling compare x (left_list L @ inorder t @ right_list R)"
    "\<forall>b \<in> set (left_list L). 0 < the (compare x b)" "\<forall>b \<in> set (right_list R). the (compare x b) < 0"
  shows "\<exists>t' res. splay_loop compare x L R t = Some (t', res) \<and>
    found_at compare x (left_list L @ inorder t @ right_list R) t' res"
  using assms
proof (induction compare x L R t rule: splay_loop.induct)
  case (1 compare x L R)
  then show ?case by simp
next
  case (2 compare x L R l a r)
  obtain res where a: "compare x a = Some res" using "2.prems"(2) by (fastforce simp: falling_def)
  have tot: "\<And>b. b \<in> set (inorder l) \<union> set (inorder r) \<Longrightarrow> compare x b \<noteq> None" using "2.prems"(2) by (auto simp: falling_def)
  have L: "\<And>b. b \<in> set (inorder l) \<Longrightarrow> sgn res \<le> sgn (the (compare x b))" using "2.prems"(2) a by (auto simp: falling_def sorted_wrt_append)
  have R: "\<And>b. b \<in> set (inorder r) \<Longrightarrow> sgn (the (compare x b)) \<le> sgn res" using "2.prems"(2) a by (auto simp: falling_def sorted_wrt_append)
  consider "res < 0" | "0 < res" | "res = 0" by linarith
  then show ?case
  proof cases
    case neg: 1
    have r: "\<forall>b \<in> set (inorder r). the (compare x b) < 0" using R neg by (simp add: sgn_le_m1)
    show ?thesis
    proof (cases l)
      case Leaf
      then show ?thesis using a neg r "2.prems" by (auto simp: splay_loop.simps(2) assemble_def found_at_def)
    next
      case l: (Node ll b lr)
      obtain res2 where b: "compare x b = Some res2" using tot [of b] l by auto
      show ?thesis
      proof (cases "res2 < 0")
        case True
        have lr: "\<forall>c \<in> set (inorder lr). the (compare x c) < 0"
          using "2.prems"(2) b True by (auto simp: falling_def sorted_wrt_append l sgn_le_m1)
        show ?thesis
        proof (cases "ll = Leaf")
          case True
          then show ?thesis using a b neg r lr \<open>res2 < 0\<close> "2.prems" l
            by (auto simp: splay_loop.simps(2) assemble_def found_at_def)
        next
          case False
          then obtain p q s where ll: "ll = Node p q s" by (cases ll) auto
          have "\<exists>t' res. splay_loop compare x L ((b, Node lr a r) # R) ll = Some (t', res) \<and>
              found_at compare x (left_list L @ inorder ll @ right_list ((b, Node lr a r) # R)) t' res"
            by (rule "2.IH"(1) [OF a neg l b True ll, folded ll])
              (use "2.prems" a b r lr neg True False in \<open>auto simp: l falling_def\<close>)
          then show ?thesis using a b neg True l ll by (simp add: splay_loop.simps(2))
        qed
      next
        case False
        have "\<exists>t' res. splay_loop compare x L ((a, r) # R) l = Some (t', res) \<and>
            found_at compare x (left_list L @ inorder l @ right_list ((a, r) # R)) t' res"
          by (rule "2.IH"(2) [OF a neg l b False]) (use "2.prems" a r neg in \<open>auto simp: l\<close>)
        then show ?thesis using a b neg False l by (simp add: splay_loop.simps(2))
      qed
    qed
  next
    case pos: 2
    have np: "\<not> res < 0" using pos by simp
    have ls: "\<forall>b \<in> set (inorder l). 0 < the (compare x b)" using L pos by (simp add: sgn_ge_1)
    show ?thesis
    proof (cases r)
      case Leaf
      then show ?thesis using a pos ls "2.prems" by (auto simp: splay_loop.simps(2) assemble_def found_at_def)
    next
      case r: (Node rl b rr)
      obtain res2 where b: "compare x b = Some res2" using tot [of b] r by auto
      show ?thesis
      proof (cases "0 < res2")
        case True
        have rl: "\<forall>c \<in> set (inorder rl). 0 < the (compare x c)"
          using "2.prems"(2) b True by (auto simp: falling_def sorted_wrt_append r sgn_ge_1)
        show ?thesis
        proof (cases "rr = Leaf")
          case True
          then show ?thesis using a b pos ls rl \<open>0 < res2\<close> "2.prems" r
            by (auto simp: splay_loop.simps(2) assemble_def found_at_def)
        next
          case False
          then obtain p q s where rr: "rr = Node p q s" by (cases rr) auto
          have "\<exists>t' res. splay_loop compare x ((Node l a rl, b) # L) R rr = Some (t', res) \<and>
              found_at compare x (left_list ((Node l a rl, b) # L) @ inorder rr @ right_list R) t' res"
            by (rule "2.IH"(3) [OF a np pos r b True rr, folded rr])
              (use "2.prems" a b ls rl pos True False in \<open>auto simp: r falling_def\<close>)
          then show ?thesis using a b pos True r rr by (simp add: splay_loop.simps(2))
        qed
      next
        case False
        have "\<exists>t' res. splay_loop compare x ((l, a) # L) R r = Some (t', res) \<and>
            found_at compare x (left_list ((l, a) # L) @ inorder r @ right_list R) t' res"
          by (rule "2.IH"(4) [OF a np pos r b False]) (use "2.prems" a ls pos in \<open>auto simp: r\<close>)
        then show ?thesis using a b pos False r by (simp add: splay_loop.simps(2))
      qed
    qed
  next
    case 3
    then show ?thesis using a by (simp add: splay_loop.simps(2) assemble_def found_at_def)
  qed
qed

lemma splay_splay_finds:
  assumes "falling compare x (inorder t)"
  shows "\<exists>t' res. splay_splay compare x t = Some (t', res) \<and> inorder t' = inorder t \<and> (t = Leaf \<longrightarrow> t' = Leaf \<and> res = - 1) \<and>
    (t \<noteq> Leaf \<longrightarrow> found_at compare x (inorder t) t' res)"
proof (cases "t = Leaf")
  case False
  then show ?thesis using splay_loop_finds [OF False, of compare x "[]" "[]"] assms
    by (auto simp: splay_splay_def found_at_def)
qed (simp add: splay_splay_def)

text \<open>A node is found exactly if there is one.\<close>

lemma splay_search_exact:
  assumes "falling compare x (inorder t)"
  shows "\<exists>t' res. splay_splay compare x t = Some (t', res) \<and> inorder t' = inorder t \<and>
    (res = 0 \<longleftrightarrow> (\<exists>a \<in> set_tree t. compare x a = Some 0))"
proof -
  obtain t' res where s: "splay_splay compare x t = Some (t', res)" "inorder t' = inorder t" "t = Leaf \<longrightarrow> t' = Leaf \<and> res = - 1"
    "t \<noteq> Leaf \<longrightarrow> found_at compare x (inorder t) t' res" using splay_splay_finds [OF assms] by blast
  have st: "set_tree t' = set_tree t" using s(2) by (metis set_inorder)
  have "res = 0 \<longleftrightarrow> (\<exists>a \<in> set_tree t. compare x a = Some 0)"
  proof (cases "t = Leaf")
    case False
    then obtain l a r where t': "t' = Node l a r" "compare x a = Some res"
      "res \<noteq> 0 \<Longrightarrow> (\<forall>b \<in> set_tree l. 0 < the (compare x b)) \<and> (\<forall>b \<in> set_tree r. the (compare x b) < 0)"
      using s(4) by (auto simp: found_at_def)
    then show ?thesis unfolding st [symmetric] by (cases "res = 0") (auto dest: bspec)
  qed (use s in simp)
  with s(1,2) show ?thesis by blast
qed

text \<open>The new node is put where the sign changes, unless a node matches.\<close>

lemma splay_insert_places:
  assumes "falling compare x (inorder t)"
  shows "\<exists>t' res. splay_insert compare x t = Some (t', res) \<and> (res = 0 \<longleftrightarrow> (\<exists>a \<in> set_tree t. compare x a = Some 0)) \<and>
    (if res = 0 then inorder t' = inorder t
     else \<exists>xs ys. inorder t = xs @ ys \<and> inorder t' = xs @ x # ys \<and>
       (\<forall>a \<in> set xs. 0 < the (compare x a)) \<and> (\<forall>a \<in> set ys. the (compare x a) < 0))"
proof -
  obtain t' res where s: "splay_splay compare x t = Some (t', res)" "inorder t' = inorder t" "t = Leaf \<longrightarrow> t' = Leaf \<and> res = - 1"
    "t \<noteq> Leaf \<longrightarrow> found_at compare x (inorder t) t' res" using splay_splay_finds [OF assms] by blast
  have e: "res = 0 \<longleftrightarrow> (\<exists>a \<in> set_tree t. compare x a = Some 0)" using splay_search_exact [OF assms] s(1) by auto
  show ?thesis
  proof (cases "t = Leaf")
    case True
    then show ?thesis using s by (auto simp: splay_insert_def)
  next
    case False
    then obtain l a r where t': "t' = Node l a r" "inorder l @ a # inorder r = inorder t" "compare x a = Some res"
      "res \<noteq> 0 \<Longrightarrow> (\<forall>b \<in> set_tree l. 0 < the (compare x b)) \<and> (\<forall>b \<in> set_tree r. the (compare x b) < 0)"
      using s(4) by (auto simp: found_at_def)
    consider "res < 0" | "0 < res" | "res = 0" by linarith
    then show ?thesis
    proof cases
      case 1
      then have "inorder t = inorder l @ (a # inorder r)" "\<forall>b \<in> set (a # inorder r). the (compare x b) < 0"
        using t' by auto
      moreover have "\<forall>b \<in> set (inorder l). 0 < the (compare x b)" using t'(4) 1 by simp
      moreover have "splay_insert compare x t = Some (Node l x (Node Leaf a r), res)" using s(1) t'(1) 1 by (simp add: splay_insert_def)
      moreover have "inorder (Node l x (Node Leaf a r)) = inorder l @ x # (a # inorder r)" by simp
      ultimately show ?thesis using 1 e by (metis less_numeral_extra(3))
    next
      case 2
      then have "inorder t = (inorder l @ [a]) @ inorder r" "\<forall>b \<in> set (inorder l @ [a]). 0 < the (compare x b)"
        using t' by auto
      moreover have "\<forall>b \<in> set (inorder r). the (compare x b) < 0" using t'(4) 2 by simp
      moreover have "splay_insert compare x t = Some (Node (Node l a Leaf) x r, res)" using s(1) t'(1) 2 by (simp add: splay_insert_def)
      moreover have "inorder (Node (Node l a Leaf) x r) = (inorder l @ [a]) @ x # inorder r" by simp
      ultimately show ?thesis using 2 e by (metis less_numeral_extra(3))
    next
      case 3
      then show ?thesis using s(1,2) t'(1) e by (simp add: splay_insert_def)
    qed
  qed
qed

lemma splay_walk_inorder: "t \<noteq> Leaf \<Longrightarrow> splay_walk f t s = Some (fold f (inorder t) s)"
  by (induction f t s rule: splay_walk.induct) (auto simp: Let_def)

lemma splay_destroy_all: "set (splay_destroy t) = set_tree t \<and> length (splay_destroy t) = size t"
  by (induction t) auto

subsection \<open>Elements that cover parts of an order\<close>

text \<open>
  The elements of an access list are compared as parts of a linear order: an element starts at a point, \<open>pt\<close>, and ends before
  the keys that are \<open>beyond\<close> it. The programs' comparisons are correct for such elements if they tell keys before, inside and
  beyond an element, and, for two elements, whether one has the start of the other inside. Of overlapping elements the first one is kept.
\<close>

definition covers :: "('e \<Rightarrow> 'k::linorder) \<Rightarrow> ('k \<Rightarrow> 'e \<Rightarrow> bool) \<Rightarrow> 'k \<Rightarrow> 'e \<Rightarrow> bool" where
  "covers pt beyond k e \<longleftrightarrow> pt e \<le> k \<and> \<not> beyond k e"

definition overlap :: "('e \<Rightarrow> 'k::linorder) \<Rightarrow> ('k \<Rightarrow> 'e \<Rightarrow> bool) \<Rightarrow> 'e \<Rightarrow> 'e \<Rightarrow> bool" where
  "overlap pt beyond a b \<longleftrightarrow> covers pt beyond (pt b) a \<or> covers pt beyond (pt a) b"

definition keep_first :: "('e \<Rightarrow> 'e \<Rightarrow> bool) \<Rightarrow> 'e list \<Rightarrow> 'e list" where
  "keep_first clash es = foldl (\<lambda>ks a. if \<exists>b \<in> set ks. clash a b then ks else ks @ [a]) [] es"

lemma keep_first_snoc: "keep_first clash (es @ [a]) =
    (if \<exists>b \<in> set (keep_first clash es). clash a b then keep_first clash es else keep_first clash es @ [a])"
  by (simp add: keep_first_def)

lemma keep_first_sub: "set (keep_first clash es) \<subseteq> set es"
  by (induction es rule: rev_induct) (auto simp: keep_first_snoc keep_first_def [of _ "[]"])

lemma keep_first_cong:
  assumes "\<And>a b. a \<in> set es \<Longrightarrow> b \<in> set es \<Longrightarrow> clash a b \<longleftrightarrow> clash' a b"
  shows "keep_first clash es = keep_first clash' es"
  using assms
proof (induction es rule: rev_induct)
  case Nil
  then show ?case by (simp add: keep_first_def)
next
  case (snoc a es)
  then have "keep_first clash es = keep_first clash' es" by simp
  moreover have "clash a b \<longleftrightarrow> clash' a b" if "b \<in> set (keep_first clash' es)" for b
    using that snoc.prems [of a b] keep_first_sub [of clash' es] by auto
  ultimately show ?case by (simp add: keep_first_snoc)
qed

text \<open>Nothing is lost of elements that do not clash.\<close>

lemma keep_first_all:
  assumes "sorted_wrt (\<lambda>a b. \<not> clash b a) es"
  shows "keep_first clash es = es"
  using assms
proof (induction es rule: rev_induct)
  case Nil
  then show ?case by (simp add: keep_first_def)
next
  case (snoc a es)
  then show ?case by (auto simp: keep_first_snoc sorted_wrt_append)
qed

fun insert_all :: "('e, 'e) splay_cmp \<Rightarrow> 'e list \<Rightarrow> 'e tree \<Rightarrow> 'e tree option" where
  "insert_all cmp [] t = Some t"
| "insert_all cmp (a # es) t = do { (t, _) \<leftarrow> splay_insert cmp a t; insert_all cmp es t }"

lemma insert_all_append: "insert_all cmp (es @ fs) t = do { t \<leftarrow> insert_all cmp es t; insert_all cmp fs t }"
  by (induction cmp es t rule: insert_all.induct) (auto split: bind_splits prod.splits)

text \<open>Lookups one after the other, each in what the last one has left.\<close>

fun match_all :: "('t \<Rightarrow> 'x \<Rightarrow> (bool \<times> 't) option) \<Rightarrow> 'x list \<Rightarrow> 't \<Rightarrow> (bool list \<times> 't) option" where
  "match_all f [] t = Some ([], t)"
| "match_all f (x # xs) t = do {
     (b, t) \<leftarrow> f t x;
     (bs, t) \<leftarrow> match_all f xs t;
     Some (b # bs, t) }"

lemma match_all_ok:
  assumes step: "\<And>t x. I t \<Longrightarrow> x \<in> set xs \<Longrightarrow> \<exists>t'. f t x = Some (P x, t') \<and> I t'" and "I t"
  shows "\<exists>t'. match_all f xs t = Some (map P xs, t') \<and> I t'"
  using assms
proof (induction xs arbitrary: t)
  case Nil
  then show ?case by simp
next
  case (Cons x xs)
  from Cons.prems(1) [OF Cons.prems(2), of x] obtain t' where t': "f t x = Some (P x, t')" "I t'" by auto
  have "\<exists>t''. match_all f xs t' = Some (map P xs, t'') \<and> I t''" by (rule Cons.IH) (use Cons.prems(1) t'(2) in auto)
  then show ?case using t'(1) by auto
qed

definition cover_tree :: "('e \<Rightarrow> bool) \<Rightarrow> ('e \<Rightarrow> 'k::linorder) \<Rightarrow> ('k \<Rightarrow> 'e \<Rightarrow> bool) \<Rightarrow> 'e tree \<Rightarrow> bool" where
  "cover_tree ok pt beyond t \<longleftrightarrow> (\<forall>e \<in> set_tree t. ok e) \<and> sorted_wrt (\<lambda>a b. beyond (pt b) a) (inorder t)"

locale cover_search =
  fixes ok :: "'e \<Rightarrow> bool" and good :: "'x \<Rightarrow> bool" and pt :: "'e \<Rightarrow> 'k::linorder" and point :: "'x \<Rightarrow> 'k"
    and beyond :: "'k \<Rightarrow> 'e \<Rightarrow> bool" and find_cmp :: "('x, 'e) splay_cmp" and ins_cmp :: "('e, 'e) splay_cmp"
  assumes beyond_up: "beyond k e \<Longrightarrow> k \<le> k' \<Longrightarrow> beyond k' e"
    and beyond_pt: "ok e \<Longrightarrow> \<not> beyond (pt e) e"
    and find_cmp_law: "ok e \<Longrightarrow> good x \<Longrightarrow> \<exists>r. find_cmp x e = Some r \<and> (r < 0 \<longleftrightarrow> point x < pt e) \<and> (0 < r \<longleftrightarrow> beyond (point x) e)"
    and ins_cmp_law: "ok a \<Longrightarrow> ok b \<Longrightarrow> \<exists>r. ins_cmp a b = Some r \<and> (r = 0 \<longleftrightarrow> overlap pt beyond a b) \<and> (r < 0 \<longrightarrow> pt a < pt b) \<and> (0 < r \<longrightarrow> beyond (pt a) b)"
begin

lemma beyond_less: "ok e \<Longrightarrow> beyond k e \<Longrightarrow> pt e < k"
  by (meson beyond_pt beyond_up linorder_not_le)

lemma before_all: "ok a \<Longrightarrow> ok b \<Longrightarrow> ok c \<Longrightarrow> beyond (pt b) a \<Longrightarrow> beyond (pt c) b \<Longrightarrow> beyond (pt c) a"
  by (meson beyond_less beyond_up less_imp_le)

lemma find_falling:
  assumes "cover_tree ok pt beyond t" "good x"
  shows "falling find_cmp x (inorder t)"
proof -
  have ok: "\<And>e. e \<in> set (inorder t) \<Longrightarrow> ok e" using assms(1) by (simp add: cover_tree_def)
  have sg: "sgn (the (find_cmp x b)) \<le> sgn (the (find_cmp x a))" if A: "ok a" and B: "ok b" and AB: "beyond (pt b) a" for a b
  proof -
    obtain ra where ra: "find_cmp x a = Some ra" "ra < 0 \<longleftrightarrow> point x < pt a" "0 < ra \<longleftrightarrow> beyond (point x) a" using find_cmp_law [OF A assms(2)] by blast
    obtain rb where rb: "find_cmp x b = Some rb" "rb < 0 \<longleftrightarrow> point x < pt b" "0 < rb \<longleftrightarrow> beyond (point x) b" using find_cmp_law [OF B assms(2)] by blast
    have "pt a < pt b" by (rule beyond_less [OF A AB])
    then have "ra < 0 \<Longrightarrow> rb < 0" using ra(2) rb(2) by simp
    moreover have "0 < rb \<Longrightarrow> 0 < ra" using ra(3) rb(3) beyond_less [OF B] beyond_up [OF AB] by (meson less_imp_le)
    ultimately have "sgn rb \<le> sgn ra" by (cases "ra < 0"; cases "0 < rb") (auto simp: sgn_if)
    then show ?thesis by (simp add: ra(1) rb(1))
  qed
  have "sorted_wrt (\<lambda>a b. beyond (pt b) a) (inorder t)" using assms(1) by (simp add: cover_tree_def)
  then have "sorted_wrt (\<lambda>a b. sgn (the (find_cmp x b)) \<le> sgn (the (find_cmp x a))) (inorder t)"
    by (rule sorted_wrt_mono_rel [rotated]) (use sg ok in blast)
  moreover have "find_cmp x a \<noteq> None" if "a \<in> set (inorder t)" for a using find_cmp_law [OF ok [OF that] assms(2)] by auto
  ultimately show ?thesis by (simp add: falling_def)
qed

lemma search_law:
  assumes "cover_tree ok pt beyond t" "good x"
  shows "\<exists>t' res. splay_splay find_cmp x t = Some (t', res) \<and> inorder t' = inorder t \<and> cover_tree ok pt beyond t' \<and>
    (res = 0 \<longleftrightarrow> (\<exists>e \<in> set_tree t. covers pt beyond (point x) e))"
proof -
  obtain t' res where s: "splay_splay find_cmp x t = Some (t', res)" "inorder t' = inorder t"
    "res = 0 \<longleftrightarrow> (\<exists>a \<in> set_tree t. find_cmp x a = Some 0)" using splay_search_exact [OF find_falling [OF assms]] by blast
  have "find_cmp x a = Some 0 \<longleftrightarrow> covers pt beyond (point x) a" if a: "a \<in> set_tree t" for a
  proof -
    have "ok a" using assms(1) a by (simp add: cover_tree_def)
    from find_cmp_law [OF this assms(2)] obtain r where r: "find_cmp x a = Some r" "r < 0 \<longleftrightarrow> point x < pt a" "0 < r \<longleftrightarrow> beyond (point x) a" by blast
    have "r = 0 \<longleftrightarrow> \<not> r < 0 \<and> \<not> 0 < r" by auto
    then show ?thesis by (simp add: r covers_def not_less)
  qed
  moreover have "cover_tree ok pt beyond t'" using assms(1) s(2) by (metis cover_tree_def set_inorder)
  ultimately show ?thesis using s by auto
qed

lemma ins_falling:
  assumes "cover_tree ok pt beyond t" "ok x"
  shows "falling ins_cmp x (inorder t)"
proof -
  have ok: "\<And>e. e \<in> set (inorder t) \<Longrightarrow> ok e" using assms(1) by (simp add: cover_tree_def)
  have sg: "sgn (the (ins_cmp x b)) \<le> sgn (the (ins_cmp x a))" if A: "ok a" and B: "ok b" and AB: "beyond (pt b) a" for a b
  proof -
    obtain ra where ra: "ins_cmp x a = Some ra" "ra = 0 \<longleftrightarrow> overlap pt beyond x a" "ra < 0 \<longrightarrow> pt x < pt a" "0 < ra \<longrightarrow> beyond (pt x) a"
      using ins_cmp_law [OF assms(2) A] by blast
    obtain rb where rb: "ins_cmp x b = Some rb" "rb = 0 \<longleftrightarrow> overlap pt beyond x b" "rb < 0 \<longrightarrow> pt x < pt b" "0 < rb \<longrightarrow> beyond (pt x) b"
      using ins_cmp_law [OF assms(2) B] by blast
    have ab: "pt a < pt b" by (rule beyond_less [OF A AB])
    have "rb < 0" if n: "ra < 0"
    proof -
      have "\<not> overlap pt beyond x a" "pt x < pt a" using ra(2,3) n by auto
      then have "beyond (pt a) x" by (simp add: overlap_def covers_def less_imp_le)
      then have "beyond (pt b) x" using beyond_up ab less_imp_le by blast
      moreover have "pt x < pt b" using \<open>pt x < pt a\<close> ab by simp
      ultimately have "\<not> overlap pt beyond x b" by (auto simp: overlap_def covers_def)
      then have "rb \<noteq> 0" using rb(2) by simp
      moreover have "\<not> 0 < rb" using rb(4) beyond_less [OF B] \<open>pt x < pt b\<close> by (metis less_asym)
      ultimately show ?thesis by simp
    qed
    moreover have "0 < ra" if p: "0 < rb"
    proof -
      have "beyond (pt x) b" using rb(4) p by simp
      then have xb: "pt b < pt x" by (rule beyond_less [OF B])
      then have "beyond (pt x) a" using beyond_up [OF AB] less_imp_le by blast
      moreover have "pt a < pt x" using ab xb by simp
      ultimately have "\<not> overlap pt beyond x a" by (auto simp: overlap_def covers_def)
      then have "ra \<noteq> 0" using ra(2) by simp
      moreover have "\<not> ra < 0" using ra(3) \<open>pt a < pt x\<close> by (metis less_asym)
      ultimately show ?thesis by simp
    qed
    ultimately have "sgn rb \<le> sgn ra" by (cases "ra < 0"; cases "0 < rb") (auto simp: sgn_if)
    then show ?thesis by (simp add: ra(1) rb(1))
  qed
  have "sorted_wrt (\<lambda>a b. beyond (pt b) a) (inorder t)" using assms(1) by (simp add: cover_tree_def)
  then have "sorted_wrt (\<lambda>a b. sgn (the (ins_cmp x b)) \<le> sgn (the (ins_cmp x a))) (inorder t)"
    by (rule sorted_wrt_mono_rel [rotated]) (use sg ok in blast)
  moreover have "ins_cmp x a \<noteq> None" if "a \<in> set (inorder t)" for a using ins_cmp_law [OF assms(2) ok [OF that]] by auto
  ultimately show ?thesis by (simp add: falling_def)
qed

lemma insert_law:
  assumes "cover_tree ok pt beyond t" "ok x"
  shows "\<exists>t' res. splay_insert ins_cmp x t = Some (t', res) \<and> cover_tree ok pt beyond t' \<and>
    (res = 0 \<longleftrightarrow> (\<exists>e \<in> set_tree t. overlap pt beyond x e)) \<and> set_tree t' = (if res = 0 then set_tree t else insert x (set_tree t))"
proof -
  have law: "\<exists>r. ins_cmp x a = Some r \<and> (r = 0 \<longleftrightarrow> overlap pt beyond x a) \<and> (r < 0 \<longrightarrow> pt x < pt a) \<and> (0 < r \<longrightarrow> beyond (pt x) a)"
    if "a \<in> set_tree t" for a using ins_cmp_law [OF assms(2)] assms(1) that by (simp add: cover_tree_def)
  then have ex: "(\<exists>a \<in> set_tree t. ins_cmp x a = Some 0) \<longleftrightarrow> (\<exists>e \<in> set_tree t. overlap pt beyond x e)" by fastforce
  from splay_insert_places [OF ins_falling [OF assms], unfolded ex] obtain t' res where s: "splay_insert ins_cmp x t = Some (t', res)"
    "res = 0 \<longleftrightarrow> (\<exists>e \<in> set_tree t. overlap pt beyond x e)"
    "if res = 0 then inorder t' = inorder t
     else \<exists>xs ys. inorder t = xs @ ys \<and> inorder t' = xs @ x # ys \<and>
       (\<forall>a \<in> set xs. 0 < the (ins_cmp x a)) \<and> (\<forall>a \<in> set ys. the (ins_cmp x a) < 0)" by (elim exE conjE) blast
  show ?thesis
  proof (cases "res = 0")
    case True
    then have "inorder t' = inorder t" using s(3) by simp
    then show ?thesis using s(1,2) True assms(1) by (metis cover_tree_def set_inorder)
  next
    case False
    then obtain xs ys where xy: "inorder t = xs @ ys" "inorder t' = xs @ x # ys" "\<forall>a \<in> set xs. 0 < the (ins_cmp x a)"
      "\<forall>a \<in> set ys. the (ins_cmp x a) < 0" using s(3) by auto
    have st: "set_tree t = set xs \<union> set ys" "set_tree t' = insert x (set xs \<union> set ys)" using xy(1,2) by (auto simp flip: set_inorder)
    have "beyond (pt x) a" if a: "a \<in> set xs" for a using law [of a] xy(3) a st(1) by fastforce
    moreover have "beyond (pt a) x" if a: "a \<in> set ys" for a
    proof -
      obtain r where r: "ins_cmp x a = Some r" "r = 0 \<longleftrightarrow> overlap pt beyond x a" "r < 0 \<longrightarrow> pt x < pt a" using law [of a] a st(1) by auto
      then have "r < 0" using xy(4) a by force
      then show ?thesis using r(2,3) by (simp add: overlap_def covers_def less_imp_le)
    qed
    ultimately have "sorted_wrt (\<lambda>a b. beyond (pt b) a) (inorder t')" using assms(1) xy(1,2) by (auto simp: cover_tree_def sorted_wrt_append)
    then have "cover_tree ok pt beyond t'" using assms st by (auto simp: cover_tree_def)
    then show ?thesis using s(1,2) False st by auto
  qed
qed

lemma insert_all_law:
  assumes "\<forall>e \<in> set es. ok e"
  shows "\<exists>t. insert_all ins_cmp es Leaf = Some t \<and> cover_tree ok pt beyond t \<and> set_tree t = set (keep_first (overlap pt beyond) es)"
  using assms
proof (induction es rule: rev_induct)
  case Nil
  then show ?case by (simp add: cover_tree_def keep_first_def)
next
  case (snoc a es)
  then obtain t where t: "insert_all ins_cmp es Leaf = Some t" "cover_tree ok pt beyond t" "set_tree t = set (keep_first (overlap pt beyond) es)" by auto
  have "ok a" using snoc.prems by simp
  from insert_law [OF t(2) this] show ?case using t by (auto simp: insert_all_append keep_first_snoc)
qed

end

end
