(* ===== verification/AclIp.thy ===== *)
theory AclIp
  imports Splay Url "HOL-Library.Word"
begin

unbundle bit_operations_syntax

section \<open>Address lists of the access controls (acl.c, lib/safe_inet_addr.c)\<close>

text \<open>
  The values of \<open>src\<close>, \<open>dst\<close> and \<open>myip\<close> lists: addresses, networks and ranges, kept in a splay tree. Addresses are words in host
  order, which is how the comparisons read them. The resolver at startup, \<open>gethostbyname\<close>, is a parameter. A
  result \<open>None\<close> of a parsing function means that the process ends (\<open>self_destruct\<close>); an inner empty list,
  that the word is ignored.
\<close>

type_synonym in_addr = "32 word"

record acl_ip_data =
  addr1 :: in_addr
  addr2 :: in_addr
  mask :: in_addr

definition no_addr :: in_addr where "no_addr = - 1"
definition any_addr :: in_addr where "any_addr = 0"

subsection \<open>Reading addresses\<close>

text \<open>The four numbers of a dotted quad and what is left, as \<open>sscanf\<close> reads them; how many it has read.\<close>

fun scan_ints :: "nat \<Rightarrow> string \<Rightarrow> int list \<times> string" where
  "scan_ints 0 s = ([], s)"
| "scan_ints (Suc n) s =
     (case strtol10 s of
        None \<Rightarrow> ([], s)
      | Some (v, s) \<Rightarrow>
          if n = 0 then ([v], s)
          else if s \<noteq> [] \<and> hd s = CHR ''.'' then (case scan_ints n (tl s) of (vs, s) \<Rightarrow> (v # vs, s))
          else ([v], s))"

definition safe_inet_addr :: "string \<Rightarrow> in_addr option" where
  "safe_inet_addr buf =
     (case scan_ints 4 buf of
        ([a1, a2, a3, a4], rest) \<Rightarrow>
          if rest \<noteq> [] then None
          else if a1 < 0 \<or> 255 < a1 then None
          else if a2 < 0 \<or> 255 < a2 then None
          else if a3 < 0 \<or> 255 < a3 then None
          else if a4 < 0 \<or> 255 < a4 then None
          else Some (word_of_int (((a1 * 256 + a2) * 256 + a3) * 256 + a4))
      | _ \<Rightarrow> None)"

text \<open>The mask of the first \<open>n\<close> bits.\<close>

definition net_mask :: "nat \<Rightarrow> in_addr" where
  "net_mask n = (if n = 0 then 0 else push_bit (32 - n) (- 1))"

definition decode_addr :: "string \<Rightarrow> in_addr option option" where
  "decode_addr asc =
     (case fst (scan_ints 4 asc) of
        [a1, a2, a3, a4] \<Rightarrow> (case safe_inet_addr asc of None \<Rightarrow> None | Some a \<Rightarrow> Some (Some a))
      | [a1] \<Rightarrow> Some (if 0 \<le> a1 \<and> a1 < 33 then Some (net_mask (nat a1)) else None)
      | _ \<Rightarrow> Some None)"

text \<open>The forms of a word: two addresses and a mask, of which the last two may be empty. \<open>None\<close>: a host name.\<close>

definition addr_char :: "char \<Rightarrow> bool" where
  "addr_char c \<longleftrightarrow> c \<in> set ''0123456789.''"

definition scan_acl :: "string \<Rightarrow> (string \<times> string \<times> string) option" where
  "scan_acl t =
     (let a1 = takeWhile addr_char t; r1 = dropWhile addr_char t;
          a2 = takeWhile addr_char (tl r1); r2 = dropWhile addr_char (tl r1);
          m2 = takeWhile addr_char (tl r2);
          h = takeWhile (\<lambda>c. c \<noteq> CHR ''/'') t; rh = dropWhile (\<lambda>c. c \<noteq> CHR ''/'') t;
          mh = takeWhile (\<lambda>c. \<not> isspace c) (dropWhile isspace (tl rh))
      in if a1 \<noteq> [] \<and> take 1 r1 = ''-'' \<and> a2 \<noteq> [] \<and> take 1 r2 = ''/'' \<and> m2 \<noteq> [] then Some (a1, a2, m2)
         else if a1 \<noteq> [] \<and> take 1 r1 = ''-'' \<and> a2 \<noteq> [] \<and> r2 = [] then Some (a1, a2, [])
         else if a1 \<noteq> [] \<and> take 1 r1 = ''/'' \<and> a2 \<noteq> [] then Some (a1, [], a2)
         else if a1 \<noteq> [] \<and> r1 = [] then Some (a1, [], [])
         else if h \<noteq> [] \<and> rh \<noteq> [] \<and> mh \<noteq> [] then Some (h, [], mh)
         else None)"

definition aclParseIpData :: "(string \<Rightarrow> in_addr list option) \<Rightarrow> string \<Rightarrow> acl_ip_data list option" where
  "aclParseIpData gethostbyname t =
     (if strcaseeq t ''all'' then Some [\<lparr>addr1 = 0, addr2 = 0, mask = 0\<rparr>]
      else case scan_acl t of
        None \<Rightarrow>
          (case gethostbyname t of
             None \<Rightarrow> Some []
           | Some [] \<Rightarrow> Some [\<lparr>addr1 = 0, addr2 = 0, mask = no_addr\<rparr>]
           | Some as \<Rightarrow> Some (map (\<lambda>a. \<lparr>addr1 = a, addr2 = 0, mask = no_addr\<rparr>) as))
      | Some (a1, a2, m) \<Rightarrow> do {
          x \<leftarrow> decode_addr a1;
          case x of
            None \<Rightarrow> Some []
          | Some x \<Rightarrow> do {
              y \<leftarrow> (if a2 \<noteq> [] then decode_addr a2 else Some (Some 0));
              case y of
                None \<Rightarrow> Some []
              | Some y \<Rightarrow> do {
                  k \<leftarrow> (if m \<noteq> [] then decode_addr m else Some (Some no_addr));
                  case k of
                    None \<Rightarrow> Some []
                  | Some k \<Rightarrow> Some [\<lparr>addr1 = x AND k, addr2 = y AND k, mask = k\<rparr>] } } })"

subsection \<open>Comparing and matching\<close>

definition aclIpNetworkCompare2 :: "acl_ip_data \<Rightarrow> acl_ip_data \<Rightarrow> int" where
  "aclIpNetworkCompare2 p q =
     (let A = addr1 p AND mask q; B = addr1 q; C = addr2 q
      in if C = 0 then (if B < A then 1 else if A < B then - 1 else 0)
         else (if C < A then 1 else if A < B then - 1 else 0))"

definition aclIpNetworkCompare :: "acl_ip_data \<Rightarrow> acl_ip_data \<Rightarrow> int" where
  "aclIpNetworkCompare a b = (let ret = aclIpNetworkCompare2 b a in if ret \<noteq> 0 then aclIpNetworkCompare2 a b else ret)"

definition aclIpAddrNetworkCompare :: "acl_ip_data \<Rightarrow> acl_ip_data \<Rightarrow> int" where
  "aclIpAddrNetworkCompare a b = aclIpNetworkCompare2 a b"

text \<open>The words of an \<open>acl\<close> line, in their order.\<close>

fun aclParseIpList :: "(string \<Rightarrow> in_addr list option) \<Rightarrow> string list \<Rightarrow> acl_ip_data tree \<Rightarrow> acl_ip_data tree option" where
  "aclParseIpList gethostbyname [] tp = Some tp"
| "aclParseIpList gethostbyname (t # ts) tp = do {
     qs \<leftarrow> aclParseIpData gethostbyname t;
     tp \<leftarrow> insert_all (\<lambda>a b. Some (aclIpNetworkCompare a b)) qs tp;
     aclParseIpList gethostbyname ts tp }"

definition aclMatchIp :: "acl_ip_data tree \<Rightarrow> in_addr \<Rightarrow> (bool \<times> acl_ip_data tree) option" where
  "aclMatchIp tp c = do {
     (tp, res) \<leftarrow> splay_splay (\<lambda>a b. Some (aclIpAddrNetworkCompare a b)) \<lparr>addr1 = c, addr2 = any_addr, mask = no_addr\<rparr> tp;
     Some (res = 0, tp) }"

subsection \<open>Lemmas\<close>

text \<open>Which addresses an entry stands for: those whose masked part is in its range.\<close>

definition ip_covers :: "acl_ip_data \<Rightarrow> in_addr \<Rightarrow> bool" where
  "ip_covers e c \<longleftrightarrow> addr1 e \<le> c AND mask e \<and> c AND mask e \<le> (if addr2 e = 0 then addr1 e else addr2 e)"

text \<open>Entries whose mask is that of a network and whose range is not reversed.\<close>

definition ip_ok :: "acl_ip_data \<Rightarrow> bool" where
  "ip_ok e \<longleftrightarrow> (\<exists>n \<le> 32. mask e = net_mask n) \<and> addr1 e AND mask e = addr1 e \<and> addr2 e AND mask e = addr2 e \<and>
     (addr2 e = 0 \<or> addr1 e \<le> addr2 e)"

definition ip_beyond :: "in_addr \<Rightarrow> acl_ip_data \<Rightarrow> bool" where
  "ip_beyond k e \<longleftrightarrow> (if addr2 e = 0 then addr1 e else addr2 e) < k AND mask e"

lemma net_mask_unat: "n \<le> 32 \<Longrightarrow> unat (a AND net_mask n) = unat a - unat a mod 2 ^ (32 - n)"
proof -
  assume n: "n \<le> 32"
  show ?thesis
  proof (cases "n = 0")
    case True
    have "unat a < 2 ^ 32" using unsigned_less [of a] by simp
    then show ?thesis by (simp add: net_mask_def True)
  next
    case False
    have "a AND net_mask n = push_bit (32 - n) (drop_bit (32 - n) a)"
      using n False by (auto simp: net_mask_def bit_eq_iff bit_simps)
    also have "\<dots> = a - take_bit (32 - n) a" using bits_ident [of "32 - n" a] by (simp only: eq_diff_eq)
    finally have e: "a AND net_mask n = a - take_bit (32 - n) a" .
    have "unat (take_bit (32 - n) a) = unat a mod 2 ^ (32 - n)" by (simp add: unsigned_take_bit_eq flip: take_bit_eq_mod)
    moreover have "take_bit (32 - n) a \<le> a" unfolding word_le_nat_alt by (simp add: unsigned_take_bit_eq)
    ultimately show ?thesis unfolding e by (simp add: unat_sub)
  qed
qed

lemma net_mask_mono: "n \<le> 32 \<Longrightarrow> a \<le> b \<Longrightarrow> a AND net_mask n \<le> b AND net_mask n"
  by (simp add: word_le_nat_alt net_mask_unat minus_mod_eq_div_mult div_le_mono)

lemma net_mask_le: "n \<le> 32 \<Longrightarrow> a AND net_mask n \<le> a"
  by (simp add: word_le_nat_alt net_mask_unat)

lemma masked_less_iff:
  assumes "n \<le> 32" "b AND net_mask n = b"
  shows "a AND net_mask n < b \<longleftrightarrow> a < b"
proof
  assume "a AND net_mask n < b"
  then show "a < b" using net_mask_mono [OF assms(1), of b a] assms(2) by (cases "b \<le> a") auto
next
  assume "a < b"
  then show "a AND net_mask n < b" using net_mask_le [OF assms(1), of a] by (rule le_less_trans [rotated])
qed

lemma ip_ok_facts:
  assumes "ip_ok e"
  shows "k AND mask e < addr1 e \<longleftrightarrow> k < addr1 e" "k \<le> k' \<Longrightarrow> k AND mask e \<le> k' AND mask e"
    "addr1 e AND mask e = addr1 e" "addr2 e = 0 \<or> addr1 e \<le> addr2 e"
proof -
  obtain n where "n \<le> 32" "mask e = net_mask n" using assms by (auto simp: ip_ok_def)
  then show "k AND mask e < addr1 e \<longleftrightarrow> k < addr1 e" "k \<le> k' \<Longrightarrow> k AND mask e \<le> k' AND mask e"
    using assms masked_less_iff [of n "addr1 e" k] net_mask_mono [of n k k'] by (auto simp: ip_ok_def)
qed (use assms in \<open>simp_all add: ip_ok_def\<close>)

lemma ip_covers_iff: "ip_ok e \<Longrightarrow> ip_covers e c \<longleftrightarrow> covers addr1 ip_beyond c e"
  unfolding ip_covers_def covers_def ip_beyond_def not_less by (simp add: ip_ok_facts(1) flip: not_less)

lemma ip_compare2:
  assumes "ip_ok q"
  shows "aclIpNetworkCompare2 p q < 0 \<longleftrightarrow> addr1 p < addr1 q" "0 < aclIpNetworkCompare2 p q \<longleftrightarrow> ip_beyond (addr1 p) q"
  using ip_ok_facts(1) [OF assms, of "addr1 p"] ip_ok_facts(4) [OF assms]
  by (auto simp: aclIpNetworkCompare2_def ip_beyond_def Let_def)

lemma ip_compare2_zero: "ip_ok q \<Longrightarrow> aclIpNetworkCompare2 p q = 0 \<longleftrightarrow> covers addr1 ip_beyond (addr1 p) q"
  using ip_compare2 [of q p] by (auto simp: covers_def)

text \<open>Masks that are one network's make \<open>ip_beyond\<close> the places behind an entry.\<close>

definition ip_after :: "in_addr \<Rightarrow> acl_ip_data \<Rightarrow> bool" where
  "ip_after k e \<longleftrightarrow> ip_ok e \<and> ip_beyond k e"

lemma ip_overlap_iff: "ip_ok a \<Longrightarrow> ip_ok b \<Longrightarrow> overlap addr1 ip_after a b \<longleftrightarrow> ip_covers a (addr1 b) \<or> ip_covers b (addr1 a)"
  by (simp add: overlap_def ip_covers_iff) (simp add: covers_def ip_after_def)

interpretation ip_lists: cover_search ip_ok "\<lambda>p. True" addr1 addr1 ip_after
  "\<lambda>a b. Some (aclIpAddrNetworkCompare a b)" "\<lambda>a b. Some (aclIpNetworkCompare a b)"
proof
  fix k k' e assume "ip_after k e" "k \<le> k'"
  then show "ip_after k' e" using ip_ok_facts(2) [of e k k'] by (auto simp: ip_after_def ip_beyond_def intro: less_le_trans)
next
  fix e assume "ip_ok e"
  then show "\<not> ip_after (addr1 e) e" using ip_ok_facts(3,4) [of e] by (auto simp: ip_after_def ip_beyond_def)
next
  fix e x :: acl_ip_data assume "ip_ok e"
  then show "\<exists>r. Some (aclIpAddrNetworkCompare x e) = Some r \<and> (r < 0 \<longleftrightarrow> addr1 x < addr1 e) \<and> (0 < r \<longleftrightarrow> ip_after (addr1 x) e)"
    using ip_compare2 [of e x] by (simp add: aclIpAddrNetworkCompare_def ip_after_def)
next
  fix a b :: acl_ip_data assume ab: "ip_ok a" "ip_ok b"
  have "aclIpNetworkCompare a b = 0 \<longleftrightarrow> aclIpNetworkCompare2 b a = 0 \<or> aclIpNetworkCompare2 a b = 0"
    by (simp add: aclIpNetworkCompare_def Let_def)
  then have "aclIpNetworkCompare a b = 0 \<longleftrightarrow> overlap addr1 ip_after a b" using ab
    by (simp add: ip_compare2_zero ip_overlap_iff ip_covers_iff)
  moreover have "aclIpNetworkCompare a b < 0 \<Longrightarrow> addr1 a < addr1 b" "0 < aclIpNetworkCompare a b \<Longrightarrow> ip_after (addr1 a) b"
    using ip_compare2 [OF ab(2), of a] ab(2) by (auto simp: aclIpNetworkCompare_def Let_def ip_after_def split: if_splits)
  ultimately show "\<exists>r. Some (aclIpNetworkCompare a b) = Some r \<and> (r = 0 \<longleftrightarrow> overlap addr1 ip_after a b) \<and>
      (r < 0 \<longrightarrow> addr1 a < addr1 b) \<and> (0 < r \<longrightarrow> ip_after (addr1 a) b)" by blast
qed

lemma aclMatchIp_law:
  assumes "cover_tree ip_ok addr1 ip_after t"
  shows "\<exists>t'. aclMatchIp t c = Some (\<exists>e \<in> set_tree t. ip_covers e c, t') \<and> cover_tree ip_ok addr1 ip_after t' \<and> set_tree t' = set_tree t"
proof -
  let ?x = "\<lparr>addr1 = c, addr2 = any_addr, mask = no_addr\<rparr>"
  from ip_lists.search_law [OF assms TrueI, of ?x] obtain t' res where t: "splay_splay (\<lambda>a b. Some (aclIpAddrNetworkCompare a b)) ?x t = Some (t', res)"
    "inorder t' = inorder t" "cover_tree ip_ok addr1 ip_after t'" "res = 0 \<longleftrightarrow> (\<exists>e \<in> set_tree t. covers addr1 ip_after c e)" by auto
  have "set_tree t' = set_tree t" using t(2) by (metis set_inorder)
  moreover have "covers addr1 ip_after c e \<longleftrightarrow> ip_covers e c" if "e \<in> set_tree t" for e
    using assms that by (simp add: cover_tree_def ip_covers_iff) (simp add: covers_def ip_after_def)
  ultimately show ?thesis using t(1,3,4) by (simp add: aclMatchIp_def)
qed

lemma match_ips_ok:
  assumes "cover_tree ip_ok addr1 ip_after tp"
  shows "\<exists>tp'. match_all aclMatchIp cs tp = Some (map (\<lambda>c. \<exists>e \<in> set_tree tp. ip_covers e c) cs, tp') \<and>
    cover_tree ip_ok addr1 ip_after tp' \<and> set_tree tp' = set_tree tp"
  by (rule match_all_ok) (use assms aclMatchIp_law in metis)+

lemma aclParseIpList_all:
  assumes "map (aclParseIpData ghbn) ts = map Some qss"
  shows "aclParseIpList ghbn ts tp = insert_all (\<lambda>a b. Some (aclIpNetworkCompare a b)) (concat qss) tp"
  using assms
proof (induction ts arbitrary: qss tp)
  case Nil
  then show ?case by simp
next
  case (Cons t ts)
  then obtain qs qss' where "qss = qs # qss'" "aclParseIpData ghbn t = Some qs" "map (aclParseIpData ghbn) ts = map Some qss'" by auto
  moreover from this have "aclParseIpList ghbn ts = insert_all (\<lambda>a b. Some (aclIpNetworkCompare a b)) (concat qss')"
    using Cons.IH [of qss'] by (intro ext) simp
  ultimately show ?case by (simp add: insert_all_append)
qed

text \<open>What is read has nothing outside its mask.\<close>

lemma aclParseIpData_masked:
  assumes "aclParseIpData ghbn t = Some qs" "e \<in> set qs"
  shows "addr1 e AND mask e = addr1 e" "addr2 e AND mask e = addr2 e"
  using assms
  by (auto simp: aclParseIpData_def no_addr_def ac_simps split: if_splits option.splits list.splits prod.splits bind_splits)

definition ip_clash :: "acl_ip_data \<Rightarrow> acl_ip_data \<Rightarrow> bool" where
  "ip_clash a b \<longleftrightarrow> ip_covers a (addr1 b) \<or> ip_covers b (addr1 a)"



text \<open>A wider network that follows one that it contains is dropped.\<close>

lemma wider_network_dropped:
  "do { tp \<leftarrow> aclParseIpList (\<lambda>h. None) [''10.1.0.0/16'', ''10.0.0.0/8''] Leaf; (b, _) \<leftarrow> aclMatchIp tp 0x0A020001; Some b } = Some False"
  by code_simp

text \<open>A mask that is no network's breaks the order of the tree: the first entry covers the address and is not found.\<close>

lemma odd_mask_lost:
  "do { tp \<leftarrow> aclParseIpList (\<lambda>h. None) [''0.0.0.5/0.0.0.255'', ''10.0.0.7''] Leaf; (b, _) \<leftarrow> aclMatchIp tp 0x0B000005; Some b } = Some False"
  by code_simp

text \<open>An address of one number is read as the mask of so many bits.\<close>

lemma short_address: "aclParseIpData g ''10'' = Some [\<lparr>addr1 = 0xFFC00000, addr2 = 0, mask = no_addr\<rparr>]"
  by code_simp

end
