(* ===== verification/AclDomain.thy ===== *)
theory AclDomain
  imports Splay Url "HOL-Library.List_Lexorder"
begin

section \<open>Domain and user lists of the access controls (acl.c)\<close>

text \<open>
  The values of \<open>dstdomain\<close> and \<open>srcdomain\<close> lists are domains in a splay tree, compared from their ends by \<open>matchDomainName\<close>, which may
  read outside a name; the users of \<open>proxy_auth\<close> and \<open>ident\<close> lists are names in a splay tree, compared as strings.
\<close>

definition aclHostDomainCompare :: "string \<Rightarrow> string \<Rightarrow> int option" where
  "aclHostDomainCompare h d = matchDomainName h d"

definition aclDomainCompare :: "string \<Rightarrow> string \<Rightarrow> int option" where
  "aclDomainCompare a b = do {
     ret \<leftarrow> aclHostDomainCompare b a;
     if ret \<noteq> 0 then aclHostDomainCompare a b else Some ret }"

text \<open>The words of an \<open>acl\<close> line are put into lower case; a word that matches a kept one is dropped.\<close>

definition aclParseDomainList :: "string list \<Rightarrow> string tree \<Rightarrow> string tree option" where
  "aclParseDomainList ts tp = insert_all aclDomainCompare (map (map xtolower) ts) tp"

definition aclMatchDomainList :: "string tree \<Rightarrow> string option \<Rightarrow> (bool \<times> string tree) option" where
  "aclMatchDomainList tp host =
     (case host of
        None \<Rightarrow> Some (False, tp)
      | Some host \<Rightarrow> do { (tp, res) \<leftarrow> splay_splay aclHostDomainCompare host tp; Some (res = 0, tp) })"

subsection \<open>Lemmas: the order of domains\<close>

text \<open>Names as the comparison sees them: from the end, without regard to case, a dot before every other character.\<close>

definition dkey :: "char \<Rightarrow> nat" where
  "dkey c = (if c = CHR ''.'' then 0 else Suc (byte_of (xtolower c)))"

definition rkey :: "string \<Rightarrow> nat list" where
  "rkey s = map dkey (rev s)"

definition undot :: "string \<Rightarrow> string" where
  "undot d = (if take 1 d = ''.'' then tl d else d)"

definition dom_pt :: "string \<Rightarrow> nat list" where
  "dom_pt d = rkey (undot d)"

definition dom_beyond :: "nat list \<Rightarrow> string \<Rightarrow> bool" where
  "dom_beyond k d \<longleftrightarrow> dom_pt d < k \<and> \<not> (take 1 d = ''.'' \<and> (\<exists>z. k = dom_pt d @ 0 # z))"

definition dom_ok :: "string \<Rightarrow> bool" where
  "dom_ok d \<longleftrightarrow> undot d \<noteq> [] \<and> hd (undot d) \<noteq> CHR ''.''"

lemma dkey_eq: "dkey a = dkey b \<longleftrightarrow> xtolower a = xtolower b"
  unfolding dkey_def using byte_inj [of "xtolower a" "xtolower b"] xtolower_dot [of a] xtolower_dot [of b]
  by (metis Suc_inject nat.distinct(1))

lemma rkey_snoc [simp]: "rkey (s @ [c]) = dkey c # rkey s" "rkey [] = []"
  by (simp_all add: rkey_def)

lemma Nil_less_iff [simp]: "([] :: 'a::linorder list) < xs \<longleftrightarrow> xs \<noteq> []"
  by (cases xs) simp_all

lemma take1_append: "D \<noteq> [] \<Longrightarrow> take (Suc 0) (D @ E) = take (Suc 0) D"
  by (cases D) simp_all

lemma dom_pt_snoc: "D \<noteq> [] \<Longrightarrow> dom_pt (D @ [b]) = dkey b # dom_pt D"
  by (cases D) (simp_all add: dom_pt_def undot_def rkey_def)

lemma dom_pt_single: "dom_pt [b] = (if b = CHR ''.'' then [] else [dkey b])"
  using rkey_snoc(1) [of "[]" b] by (simp add: dom_pt_def undot_def)

lemma dom_beyond_snoc: "D \<noteq> [] \<Longrightarrow> dom_beyond (x # k) (D @ [b]) \<longleftrightarrow> dkey b < x \<or> x = dkey b \<and> dom_beyond k D"
  using take1_append [of D "[b]"] by (auto simp: dom_beyond_def dom_pt_snoc simp del: take_append)

lemma match_loop_order:
  assumes "h = P @ H @ S" "length P = k" "d = D @ T" "H \<noteq> []" "D \<noteq> []"
  shows "\<exists>r. match_loop h k d (int (length H)) (int (length D)) = Some r \<and>
    (r < 0 \<longleftrightarrow> rkey H < dom_pt D) \<and> (0 < r \<longleftrightarrow> dom_beyond (rkey H) D)"
  using assms
proof (induction "length D" arbitrary: H D S T)
  case 0 then show ?case by simp
next
  case (Suc n)
  obtain H' a where H: "H = H' @ [a]" using Suc.prems(4) by (cases H rule: rev_cases) auto
  obtain D' b where D: "D = D' @ [b]" using Suc.prems(5) by (cases D rule: rev_cases) auto
  note step = match_loop_snoc [OF Suc.prems(1-3) H D]
  have keyH: "rkey H = dkey a # rkey H'" by (simp add: H)
  show ?case
  proof (cases "xtolower a = xtolower b")
    case False
    then have ne: "dkey a \<noteq> dkey b" by (simp add: dkey_eq)
    have db: "b \<noteq> CHR ''.'' \<Longrightarrow> a \<noteq> CHR ''.'' \<Longrightarrow>
        int (byte_of (xtolower a)) - int (byte_of (xtolower b)) < 0 \<longleftrightarrow> dkey a < dkey b" by (simp add: dkey_def)
    show ?thesis
    proof (cases "D' = []")
      case True
      then show ?thesis unfolding step keyH using False ne db
        by (auto simp: D dom_pt_single dom_beyond_def dkey_def split: if_splits)
    next
      case D': False
      then show ?thesis unfolding step keyH using False ne db
        by (auto simp: D dom_pt_snoc dom_beyond_snoc dkey_def split: if_splits)
    qed
  next
    case eq: True
    then have k: "dkey a = dkey b" by (simp add: dkey_eq)
    show ?thesis
    proof (cases "H' = [] \<or> D' = []")
      case True
      then consider "H' = []" "D' = []" | "H' = []" "D' \<noteq> []" | "H' \<noteq> []" "D' = []" by blast
      then show ?thesis
      proof cases
        case 1 then show ?thesis unfolding step keyH using eq k by (auto simp: D dom_pt_single dom_beyond_def dkey_def)
      next
        case 2
        have "length D' = 1 \<and> hd (D' @ [b]) = CHR ''.'' \<longleftrightarrow> D' = ''.''" using 2 by (cases D') auto
        moreover have "dom_pt D' = [] \<longleftrightarrow> D' = ''.''" using 2 by (cases D') (auto simp: dom_pt_def undot_def rkey_def)
        ultimately show ?thesis unfolding step keyH using eq k 2 by (auto simp: D dom_pt_snoc dom_beyond_snoc dom_beyond_def neq_Nil_conv)
      next
        case 3
        then show ?thesis unfolding step keyH using eq k by (auto simp: D dom_pt_single dom_beyond_def dkey_def rkey_def neq_Nil_conv)
      qed
    next
      case False
      then have "\<exists>r. match_loop h k d (int (length H')) (int (length D')) = Some r \<and>
          (r < 0 \<longleftrightarrow> rkey H' < dom_pt D') \<and> (0 < r \<longleftrightarrow> dom_beyond (rkey H') D')"
        using Suc.hyps(2) Suc.prems(1-3) by (intro Suc.hyps(1) [of D' H' "a # S" "b # T"]) (auto simp: H D)
      then show ?thesis unfolding step keyH using eq False k by (simp add: D dom_pt_snoc dom_beyond_snoc)
    qed
  qed
qed

subsection \<open>Lemmas: lists of domains\<close>

definition undots :: "string \<Rightarrow> string" where
  "undots h = dropWhile (\<lambda>c. c = CHR ''.'') h"

lemma undots_ok: "dom_ok d \<Longrightarrow> undots d = undot d"
  by (cases d; cases "tl d") (auto simp: dom_ok_def undots_def undot_def split: if_splits)

lemma dom_ok_ne: "dom_ok d \<Longrightarrow> d \<noteq> [] \<and> undot d \<noteq> []"
  by (auto simp: dom_ok_def undot_def)

lemma matchDomainName_loop:
  assumes "undots h \<noteq> []"
  shows "matchDomainName h d =
    match_loop h (length (takeWhile (\<lambda>c. c = CHR ''.'') h)) d (int (length (undots h))) (int (length d))"
    "h = takeWhile (\<lambda>c. c = CHR ''.'') h @ undots h @ []"
proof -
  have "int (length h) - int (length (takeWhile (\<lambda>c. c = CHR ''.'') h)) = int (length (undots h))"
    unfolding undots_def by (metis add_diff_cancel_left' length_append of_nat_add takeWhile_dropWhile_id)
  then show "matchDomainName h d =
    match_loop h (length (takeWhile (\<lambda>c. c = CHR ''.'') h)) d (int (length (undots h))) (int (length d))"
    by (simp add: matchDomainName_def Let_def)
  show "h = takeWhile (\<lambda>c. c = CHR ''.'') h @ undots h @ []" by (simp add: undots_def)
qed

lemma matchDomainName_law:
  assumes "undots h \<noteq> []" "d \<noteq> []"
  shows "\<exists>r. matchDomainName h d = Some r \<and> (r = 0 \<longleftrightarrow> domain_rule (map xtolower (undots h)) (map xtolower d)) \<and>
    (r < 0 \<longleftrightarrow> rkey (undots h) < dom_pt d) \<and> (0 < r \<longleftrightarrow> dom_beyond (rkey (undots h)) d)"
proof -
  let ?k = "length (takeWhile (\<lambda>c. c = CHR ''.'') h)"
  have d: "d = d @ []" by simp
  obtain r where r: "match_loop h ?k d (int (length (undots h))) (int (length d)) = Some r"
    "r < 0 \<longleftrightarrow> rkey (undots h) < dom_pt d" "0 < r \<longleftrightarrow> dom_beyond (rkey (undots h)) d"
    using match_loop_order [of h _ "undots h" "[]" ?k d d "[]", OF matchDomainName_loop(2) [OF assms(1)] refl d assms] by (elim exE conjE) (rule that; assumption)
  moreover obtain q where "match_loop h ?k d (int (length (undots h))) (int (length d)) = Some q"
    "q = 0 \<longleftrightarrow> domain_rule (map xtolower (undots h)) (map xtolower d)"
    using match_loop_rule [of h _ "undots h" "[]" ?k d d "[]", OF matchDomainName_loop(2) [OF assms(1)] refl d assms] by (elim exE conjE) (rule that; assumption)
  ultimately show ?thesis using matchDomainName_loop(1) [OF assms(1), of d] by simp
qed

lemma domain_covers:
  assumes "undots h \<noteq> []" "dom_ok d"
  shows "covers dom_pt dom_beyond (rkey (undots h)) d \<longleftrightarrow> domain_rule (map xtolower (undots h)) (map xtolower d)"
proof -
  have ne: "d \<noteq> []" using dom_ok_ne [OF assms(2)] by simp
  obtain r where "matchDomainName h d = Some r" and r: "r = 0 \<longleftrightarrow> domain_rule (map xtolower (undots h)) (map xtolower d)"
    "r < 0 \<longleftrightarrow> rkey (undots h) < dom_pt d" "0 < r \<longleftrightarrow> dom_beyond (rkey (undots h)) d"
    using matchDomainName_law [OF assms(1) ne] by (elim exE conjE) (rule that; assumption)
  have "r = 0 \<longleftrightarrow> \<not> r < 0 \<and> \<not> 0 < r" by auto
  then show ?thesis using r by (simp add: covers_def not_less)
qed

lemma between_prefixes:
  fixes p k z :: "nat list"
  assumes "p < k" "k \<le> p @ 0 # z"
  shows "\<exists>w. k = p @ 0 # w"
  using assms
proof (induction p arbitrary: k)
  case Nil
  then show ?case by (cases k) auto
next
  case (Cons a p)
  then show ?case by (cases k) auto
qed

definition dom_clash :: "string \<Rightarrow> string \<Rightarrow> bool" where
  "dom_clash a b \<longleftrightarrow> domain_rule (map xtolower (undot b)) (map xtolower a) \<or> domain_rule (map xtolower (undot a)) (map xtolower b)"

lemma dom_overlap_iff:
  assumes "dom_ok a" "dom_ok b"
  shows "overlap dom_pt dom_beyond a b \<longleftrightarrow> dom_clash a b"
proof -
  have u: "undots (undot a) = undot a" "undots (undot b) = undot b" "undot a \<noteq> []" "undot b \<noteq> []"
    using assms by (auto simp: dom_ok_def undots_def neq_Nil_conv)
  have "dom_pt a = rkey (undots (undot a))" "dom_pt b = rkey (undots (undot b))" by (simp_all add: u dom_pt_def)
  then show ?thesis
    using domain_covers [of "undot b" a] domain_covers [of "undot a" b] u assms by (simp add: overlap_def dom_clash_def)
qed

interpretation domain_lists: cover_search dom_ok "\<lambda>h. undots h \<noteq> []" dom_pt "\<lambda>h. rkey (undots h)" dom_beyond
  aclHostDomainCompare aclDomainCompare
proof
  fix k k' :: "nat list" and e
  assume b: "dom_beyond k e" and le: "k \<le> k'"
  then have p: "dom_pt e < k" "dom_pt e < k'" by (auto simp: dom_beyond_def)
  show "dom_beyond k' e" unfolding dom_beyond_def
  proof (intro conjI notI p(2))
    assume "take 1 e = ''.'' \<and> (\<exists>z. k' = dom_pt e @ 0 # z)"
    then obtain z where "take 1 e = ''.''" "k' = dom_pt e @ 0 # z" by blast
    with between_prefixes [OF p(1), of z] le b show False by (auto simp: dom_beyond_def)
  qed
next
  fix e show "\<not> dom_beyond (dom_pt e) e" by (simp add: dom_beyond_def)
next
  fix e x assume e: "dom_ok e" and x: "undots x \<noteq> []"
  have ne: "e \<noteq> []" using dom_ok_ne [OF e] by simp
  show "\<exists>r. aclHostDomainCompare x e = Some r \<and> (r < 0 \<longleftrightarrow> rkey (undots x) < dom_pt e) \<and> (0 < r \<longleftrightarrow> dom_beyond (rkey (undots x)) e)"
    using matchDomainName_law [OF x ne] unfolding aclHostDomainCompare_def by (elim exE conjE) (intro exI conjI; assumption)
next
  fix a b assume ab: "dom_ok a" "dom_ok b"
  have ne: "a \<noteq> []" "b \<noteq> []" "undots a \<noteq> []" "undots b \<noteq> []" using ab by (simp_all add: dom_ok_ne undots_ok)
  have pt: "rkey (undots a) = dom_pt a" "rkey (undots b) = dom_pt b" using ab by (simp_all add: undots_ok dom_pt_def)
  obtain r where r: "matchDomainName b a = Some r" "r < 0 \<longleftrightarrow> dom_pt b < dom_pt a" "0 < r \<longleftrightarrow> dom_beyond (dom_pt b) a"
    using matchDomainName_law [OF ne(4,1)] unfolding pt by (elim exE conjE) (rule that; assumption)
  obtain q where q: "matchDomainName a b = Some q" "q < 0 \<longleftrightarrow> dom_pt a < dom_pt b" "0 < q \<longleftrightarrow> dom_beyond (dom_pt a) b"
    using matchDomainName_law [OF ne(3,2)] unfolding pt by (elim exE conjE) (rule that; assumption)
  have z: "r = 0 \<longleftrightarrow> covers dom_pt dom_beyond (dom_pt b) a" "q = 0 \<longleftrightarrow> covers dom_pt dom_beyond (dom_pt a) b"
    using r(2,3) q(2,3) by (auto simp: covers_def not_less)
  have "aclDomainCompare a b = Some (if r \<noteq> 0 then q else r)" by (simp add: aclDomainCompare_def aclHostDomainCompare_def r(1) q(1))
  then show "\<exists>r. aclDomainCompare a b = Some r \<and> (r = 0 \<longleftrightarrow> overlap dom_pt dom_beyond a b) \<and>
      (r < 0 \<longrightarrow> dom_pt a < dom_pt b) \<and> (0 < r \<longrightarrow> dom_beyond (dom_pt a) b)"
    using q(2,3) z by (auto simp: overlap_def)
qed

lemma aclMatchDomainList_law:
  assumes "cover_tree dom_ok dom_pt dom_beyond t" "undots h \<noteq> []"
  shows "\<exists>t'. aclMatchDomainList t (Some h) = Some (\<exists>d \<in> set_tree t. domain_rule (map xtolower (undots h)) (map xtolower d), t') \<and>
    cover_tree dom_ok dom_pt dom_beyond t' \<and> set_tree t' = set_tree t"
proof -
  from domain_lists.search_law [OF assms] obtain t' res where t: "splay_splay aclHostDomainCompare h t = Some (t', res)"
    "inorder t' = inorder t" "cover_tree dom_ok dom_pt dom_beyond t'"
    "res = 0 \<longleftrightarrow> (\<exists>e \<in> set_tree t. covers dom_pt dom_beyond (rkey (undots h)) e)" by blast
  have "set_tree t' = set_tree t" using t(2) by (metis set_inorder)
  moreover have "\<forall>e \<in> set_tree t. dom_ok e" using assms(1) by (simp add: cover_tree_def)
  then have "res = 0 \<longleftrightarrow> (\<exists>d \<in> set_tree t. domain_rule (map xtolower (undots h)) (map xtolower d))"
    using t(4) domain_covers [OF assms(2)] by auto
  ultimately show ?thesis using t(1,3) by (simp add: aclMatchDomainList_def)
qed

lemma match_hosts_ok:
  assumes "cover_tree dom_ok dom_pt dom_beyond tp" "\<forall>h \<in> set hs. undots h \<noteq> []"
  shows "\<exists>tp'. match_all (\<lambda>tp h. aclMatchDomainList tp (Some h)) hs tp =
    Some (map (\<lambda>h. \<exists>d \<in> set_tree tp. domain_rule (map xtolower (undots h)) (map xtolower d)) hs, tp') \<and>
    cover_tree dom_ok dom_pt dom_beyond tp' \<and> set_tree tp' = set_tree tp"
  by (rule match_all_ok) (use assms aclMatchDomainList_law in metis)+

text \<open>A domain list matches the hosts that its words say. For words that are domains with at most one dot before them,
  \<open>aclParseDomainList\<close> succeeds, and every sequence of lookups in the list, which rearrange the tree, finds for each host
  whether it is in one of the domains by the documented rule, where of two words of which one
  matches the other only the first counts.\<close>
theorem domain_list_matches:
  assumes "\<forall>t \<in> set ts. dom_ok (map xtolower t)" "\<forall>h \<in> set hosts. undots h \<noteq> []"
  shows "\<exists>tp tp'. aclParseDomainList ts Leaf = Some tp \<and>
    match_all (\<lambda>tp h. aclMatchDomainList tp (Some h)) hosts tp = Some (map (\<lambda>h. \<exists>d \<in> set (keep_first dom_clash (map (map xtolower) ts)).
      domain_rule (map xtolower (undots h)) (map xtolower d)) hosts, tp')"
proof -
  have ok: "\<forall>e \<in> set (map (map xtolower) ts). dom_ok e" using assms(1) by simp
  from domain_lists.insert_all_law [OF this] obtain tp where tp: "insert_all aclDomainCompare (map (map xtolower) ts) Leaf = Some tp"
    "cover_tree dom_ok dom_pt dom_beyond tp" "set_tree tp = set (keep_first (overlap dom_pt dom_beyond) (map (map xtolower) ts))" by blast
  have "keep_first (overlap dom_pt dom_beyond) (map (map xtolower) ts) = keep_first dom_clash (map (map xtolower) ts)"
    by (rule keep_first_cong) (use ok dom_overlap_iff in blast)
  then show ?thesis using tp match_hosts_ok [OF tp(2) assms(2)] by (auto simp: aclParseDomainList_def)
qed

lemma domain_rule_code [code]:
  "domain_rule h d \<longleftrightarrow> h = d \<or> (hd d = CHR ''.'' \<and> (length d \<le> length h \<and> drop (length h - length d) h = d \<or> h = tl d))"
proof -
  have "(\<exists>p. h = p @ d) \<longleftrightarrow> length d \<le> length h \<and> drop (length h - length d) h = d"
    by (metis append_eq_conv_conj append_take_drop_id diff_add_inverse2 length_append le_add2)
  then show ?thesis by (simp add: domain_rule_def)
qed

lemma domain_list_matches_witness:
  "\<exists>tp tp'. aclParseDomainList [''.Foo.com'', ''www.foo.com'', ''bar.org''] Leaf = Some tp \<and>
    match_all (\<lambda>tp h. aclMatchDomainList tp (Some h)) [''WWW.foo.com'', ''xfoo.com'', ''bar.org''] tp = Some ([True, False, True], tp')"
proof -
  have ok: "\<forall>t \<in> set [''.Foo.com'', ''www.foo.com'', ''bar.org'']. dom_ok (map xtolower t)"
    "\<forall>h \<in> set [''WWW.foo.com'', ''xfoo.com'', ''bar.org'']. undots h \<noteq> []" by code_simp+
  have k: "keep_first dom_clash (map (map xtolower) [''.Foo.com'', ''www.foo.com'', ''bar.org'']) = [''.foo.com'', ''bar.org'']"
    by code_simp
  have r: "map (\<lambda>h. \<exists>d \<in> set [''.foo.com'', ''bar.org'']. domain_rule (map xtolower (undots h)) (map xtolower d))
      [''WWW.foo.com'', ''xfoo.com'', ''bar.org''] = [True, False, True]" by code_simp
  show ?thesis using domain_list_matches [OF ok] unfolding k r .
qed

text \<open>A wider domain that follows one that it contains is dropped: the list loses hosts that its words say.\<close>

lemma wider_domain_dropped:
  "do { tp \<leftarrow> aclParseDomainList [''www.foo.com'', ''.foo.com''] Leaf; aclMatchDomainList tp (Some ''ftp.foo.com'') } =
    Some (False, Node Leaf ''www.foo.com'' Leaf)"
  by code_simp

text \<open>An empty host, as \<open>urlParse\<close> accepts it, makes the search read before the host.\<close>

lemma empty_host_search: "aclMatchDomainList (Node Leaf (c # d) Leaf) (Some []) = None"
  by (simp add: aclMatchDomainList_def splay_splay_def splay_loop.simps aclHostDomainCompare_def matchDomainName_def
      match_loop.simps [of "[]"] char_before_def)

subsection \<open>Users\<close>

fun c_strcmp :: "string \<Rightarrow> string \<Rightarrow> int" where
  "c_strcmp [] [] = 0"
| "c_strcmp [] (b # bs) = - 1"
| "c_strcmp (a # as) [] = 1"
| "c_strcmp (a # as) (b # bs) = (if byte_of a < byte_of b then - 1 else if byte_of b < byte_of a then 1 else c_strcmp as bs)"

definition c_strcasecmp :: "string \<Rightarrow> string \<Rightarrow> int" where
  "c_strcasecmp a b = c_strcmp (map xtolower a) (map xtolower b)"

record acl_user_data =
  ud_names :: "string tree"
  ud_case_insensitive :: bool
  ud_required :: bool

definition aclParseUserList :: "string list \<Rightarrow> acl_user_data option \<Rightarrow> acl_user_data option" where
  "aclParseUserList ts current = do {
     let data = (case current of None \<Rightarrow> \<lparr>ud_names = Leaf, ud_case_insensitive = False, ud_required = False\<rparr> | Some d \<Rightarrow> d);
     case ts of
       [] \<Rightarrow> Some data
     | t # us \<Rightarrow> do {
         let data = (if t = ''-i'' then data\<lparr>ud_case_insensitive := True\<rparr>
                     else if t = ''REQUIRED'' then data\<lparr>ud_required := True\<rparr> else data);
         let words = (if t = ''-i'' \<or> t = ''REQUIRED'' then us else t # us);
         tp \<leftarrow> insert_all (\<lambda>a b. Some (c_strcmp a b))
                (if ud_case_insensitive data then map (map xtolower) words else words) (ud_names data);
         Some (data\<lparr>ud_names := tp\<rparr>) } }"

definition aclMatchUser :: "acl_user_data \<Rightarrow> string option \<Rightarrow> (bool \<times> acl_user_data) option" where
  "aclMatchUser data user =
     (case user of
        None \<Rightarrow> Some (False, data)
      | Some user \<Rightarrow>
          if user = ''-'' then Some (False, data)
          else if ud_required data then Some (True, data)
          else do {
            (tp, res) \<leftarrow> splay_splay (\<lambda>a b. Some (if ud_case_insensitive data then c_strcasecmp a b else c_strcmp a b)) user (ud_names data);
            Some (res = 0, data\<lparr>ud_names := tp\<rparr>) })"

definition skey :: "string \<Rightarrow> nat list" where
  "skey s = map byte_of s"

lemma skey_inj: "skey a = skey b \<longleftrightarrow> a = b"
  unfolding skey_def by (rule inj_map_eq_map) (auto simp: inj_def byte_inj)

lemma c_strcmp_law: "(c_strcmp a b < 0 \<longleftrightarrow> skey a < skey b) \<and> (0 < c_strcmp a b \<longleftrightarrow> skey b < skey a)"
  by (induction a b rule: c_strcmp.induct) (auto simp: skey_def)

interpretation user_lists: cover_search "\<lambda>e. True" "\<lambda>x. True" skey skey "\<lambda>k e. skey e < k"
  "\<lambda>a b. Some (c_strcmp a b)" "\<lambda>a b. Some (c_strcmp a b)"
proof
  fix a b :: string
  have "c_strcmp a b = 0 \<longleftrightarrow> overlap skey (\<lambda>k e. skey e < k) a b"
    using c_strcmp_law [of a b] by (auto simp: overlap_def covers_def not_less)
  then show "\<exists>r. Some (c_strcmp a b) = Some r \<and> (r = 0 \<longleftrightarrow> overlap skey (\<lambda>k e. skey e < k) a b) \<and> (r < 0 \<longrightarrow> skey a < skey b) \<and>
      (0 < r \<longrightarrow> skey b < skey a)" using c_strcmp_law [of a b] by simp
qed (use c_strcmp_law in auto)

interpretation user_lists_i: cover_search "\<lambda>e. map xtolower e = e" "\<lambda>x. True" skey "\<lambda>x. skey (map xtolower x)" "\<lambda>k e. skey e < k"
  "\<lambda>a b. Some (c_strcasecmp a b)" "\<lambda>a b. Some (c_strcmp a b)"
proof
  fix a b :: string
  show "\<exists>r. Some (c_strcmp a b) = Some r \<and> (r = 0 \<longleftrightarrow> overlap skey (\<lambda>k e. skey e < k) a b) \<and> (r < 0 \<longrightarrow> skey a < skey b) \<and>
      (0 < r \<longrightarrow> skey b < skey a)" by (rule user_lists.ins_cmp_law) simp_all
qed (use c_strcmp_law in \<open>auto simp: c_strcasecmp_def\<close>)

lemma keep_first_overlap_set: "set (keep_first (overlap skey (\<lambda>k e. skey e < k)) es) = set es"
proof (induction es rule: rev_induct)
  case Nil
  then show ?case by (simp add: keep_first_def)
next
  case (snoc a es)
  have "overlap skey (\<lambda>k e. skey e < k) a b \<longleftrightarrow> a = b" for b
    using skey_inj [of a b] by (auto simp: overlap_def covers_def)
  with snoc show ?case by (auto simp: keep_first_snoc)
qed

lemma xtolower_idem [simp]: "xtolower (xtolower c) = xtolower c"
proof (cases "65 \<le> byte_of c \<and> byte_of c \<le> 90")
  case True
  then have "byte_of (xtolower c) = byte_of c + 32" by (simp add: xtolower_def)
  then show ?thesis using True by (simp add: xtolower_def [of "xtolower c"])
next
  case False
  then show ?thesis by (auto simp: xtolower_def Let_def)
qed

definition user_data_ok :: "acl_user_data \<Rightarrow> bool" where
  "user_data_ok d \<longleftrightarrow> cover_tree (\<lambda>e. True) skey (\<lambda>k e. skey e < k) (ud_names d) \<and>
     (ud_case_insensitive d \<longrightarrow> (\<forall>w \<in> set_tree (ud_names d). map xtolower w = w))"

definition user_in :: "bool \<Rightarrow> bool \<Rightarrow> string set \<Rightarrow> string option \<Rightarrow> bool" where
  "user_in i required S u \<longleftrightarrow> u \<noteq> None \<and> u \<noteq> Some ''-'' \<and> (required \<or> (\<exists>w \<in> S. if i then w = map xtolower (the u) else w = the u))"

lemma aclMatchUser_law:
  assumes "user_data_ok d"
  shows "\<exists>d'. aclMatchUser d u = Some (user_in (ud_case_insensitive d) (ud_required d) (set_tree (ud_names d)) u, d') \<and> user_data_ok d' \<and>
    set_tree (ud_names d') = set_tree (ud_names d) \<and> ud_case_insensitive d' = ud_case_insensitive d \<and> ud_required d' = ud_required d"
proof (cases "u = None \<or> u = Some ''-'' \<or> ud_required d")
  case True
  then show ?thesis using assms by (auto simp: aclMatchUser_def user_in_def split: option.splits)
next
  case False
  then obtain x where u: "u = Some x" "x \<noteq> ''-''" by auto
  define i where "i = ud_case_insensitive d"
  have cv: "covers skey (\<lambda>k e. skey e < k) (skey x) e \<longleftrightarrow> e = x" for x e using skey_inj [of e x] by (auto simp: covers_def)
  obtain t res where t: "splay_splay (\<lambda>a b. Some (if i then c_strcasecmp a b else c_strcmp a b)) x (ud_names d) = Some (t, res)"
    "inorder t = inorder (ud_names d)" "res = 0 \<longleftrightarrow> (if i then map xtolower x \<in> set_tree (ud_names d) else x \<in> set_tree (ud_names d))"
  proof (cases i)
    case True
    have "cover_tree (\<lambda>e. map xtolower e = e) skey (\<lambda>k e. skey e < k) (ud_names d)"
      using assms True by (simp add: user_data_ok_def cover_tree_def i_def)
    from user_lists_i.search_law [OF this, of x] show ?thesis using that True by (auto simp: cv)
  next
    case False
    from assms have "cover_tree (\<lambda>e. True) skey (\<lambda>k e. skey e < k) (ud_names d)" by (simp add: user_data_ok_def)
    from user_lists.search_law [OF this, of x] show ?thesis using that False by (auto simp: cv)
  qed
  have st: "set_tree t = set_tree (ud_names d)" using t(2) by (metis set_inorder)
  have "user_data_ok (d\<lparr>ud_names := t\<rparr>)" using assms t(2) st by (simp add: user_data_ok_def cover_tree_def)
  moreover have "aclMatchUser d u = Some (res = 0, d\<lparr>ud_names := t\<rparr>)" using False u t(1) by (simp add: aclMatchUser_def i_def)
  ultimately show ?thesis using False u t(3) st by (auto simp: user_in_def i_def)
qed

lemma match_users_ok:
  assumes "user_data_ok data"
  shows "\<exists>data'. match_all aclMatchUser users data =
    Some (map (user_in (ud_case_insensitive data) (ud_required data) (set_tree (ud_names data))) users, data') \<and> user_data_ok data' \<and>
    set_tree (ud_names data') = set_tree (ud_names data) \<and> ud_case_insensitive data' = ud_case_insensitive data \<and> ud_required data' = ud_required data"
proof (rule match_all_ok)
  fix d u assume "user_data_ok d \<and> set_tree (ud_names d) = set_tree (ud_names data) \<and>
    ud_case_insensitive d = ud_case_insensitive data \<and> ud_required d = ud_required data"
  then show "\<exists>d'. aclMatchUser d u = Some (user_in (ud_case_insensitive data) (ud_required data) (set_tree (ud_names data)) u, d') \<and>
      user_data_ok d' \<and> set_tree (ud_names d') = set_tree (ud_names data) \<and>
      ud_case_insensitive d' = ud_case_insensitive data \<and> ud_required d' = ud_required data"
    using aclMatchUser_law [of d u] by auto
qed (simp add: assms)

text \<open>A user list matches the names that its line says. After a line of names, or of \<open>-i\<close> and names, every sequence of
  lookups finds for each user whether the name is in the line, without regard to case after \<open>-i\<close>;
  no user and the user \<open>-\<close> do not match.\<close>
theorem user_list_matches:
  assumes "i \<or> take 1 ws \<noteq> [''-i''] \<and> take 1 ws \<noteq> [''REQUIRED'']"
  shows "\<exists>data data'. aclParseUserList (if i then ''-i'' # ws else ws) None = Some data \<and>
    match_all aclMatchUser users data = Some (map (\<lambda>u. u \<noteq> None \<and> u \<noteq> Some ''-'' \<and>
      (\<exists>w \<in> set ws. if i then map xtolower w = map xtolower (the u) else w = the u)) users, data')"
proof -
  define ns where "ns = (if i then map (map xtolower) ws else ws)"
  obtain tp where tp: "insert_all (\<lambda>a b. Some (c_strcmp a b)) ns Leaf = Some tp"
    "cover_tree (\<lambda>e. True) skey (\<lambda>k e. skey e < k) tp" "set_tree tp = set ns"
    using user_lists.insert_all_law [of ns] by (auto simp: keep_first_overlap_set)
  define data where "data = \<lparr>ud_names = tp, ud_case_insensitive = i, ud_required = False\<rparr>"
  have parse: "aclParseUserList (if i then ''-i'' # ws else ws) None = Some data"
  proof (cases i)
    case True
    then show ?thesis using tp(1) by (simp add: aclParseUserList_def data_def ns_def del: insert_all.simps)
  next
    case False
    then show ?thesis
    proof (cases ws)
      case Nil
      then show ?thesis using tp(1) False by (simp add: aclParseUserList_def data_def ns_def)
    next
      case (Cons t us)
      then show ?thesis using tp(1) False assms by (simp add: aclParseUserList_def data_def ns_def del: insert_all.simps)
    qed
  qed
  have "\<forall>w \<in> set_tree tp. map xtolower w = w" if i using that unfolding tp(3) by (simp add: ns_def xtolower_idem comp_def)
  then have "user_data_ok data" using tp(2) by (simp add: user_data_ok_def data_def)
  from match_users_ok [OF this] obtain data' where "match_all aclMatchUser users data =
    Some (map (user_in (ud_case_insensitive data) (ud_required data) (set_tree (ud_names data))) users, data')" by blast
  moreover have "user_in (ud_case_insensitive data) (ud_required data) (set_tree (ud_names data)) =
    (\<lambda>u. u \<noteq> None \<and> u \<noteq> Some ''-'' \<and> (\<exists>w \<in> set ws. if i then map xtolower w = map xtolower (the u) else w = the u))"
    by (auto simp: user_in_def data_def tp(3) ns_def image_iff eq_commute fun_eq_iff)
  ultimately show ?thesis using parse by auto
qed

lemma user_list_matches_witness:
  "\<exists>data data'. aclParseUserList [''-i'', ''Bob'', ''alice''] None = Some data \<and>
    match_all aclMatchUser [Some ''ALICE'', Some ''-'', Some ''eve'', None] data = Some ([True, False, False, False], data')"
proof -
  have r: "map (\<lambda>u. u \<noteq> None \<and> u \<noteq> Some ''-'' \<and>
      (\<exists>w \<in> set [''Bob'', ''alice'']. if True then map xtolower w = map xtolower (the u) else w = the u))
      [Some ''ALICE'', Some ''-'', Some ''eve'', None] = [True, False, False, False]" by code_simp
  show ?thesis using user_list_matches [OF disjI1 [OF TrueI], of "[''Bob'', ''alice'']" "[Some ''ALICE'', Some ''-'', Some ''eve'', None]"]
    unfolding r unfolding if_True .
qed

text \<open>An option \<open>-i\<close> that comes in a later line changes the comparison of a tree that was built without it: names are lost.\<close>

lemma later_option_loses_users:
  "do { d \<leftarrow> aclParseUserList [''alice'', ''Bob''] None; d \<leftarrow> aclParseUserList [''-i''] (Some d);
        (b, _) \<leftarrow> aclMatchUser d (Some ''alice''); Some b } = Some False"
  by code_simp

end
