(* ===== verification/AclRules.thy ===== *)
theory AclRules
  imports AclIp AclDomain
begin

section \<open>Access rules (acl.c)\<close>

text \<open>
  The access lists of the configuration and how a request is checked against them. An \<open>acl\<close> has a type and the data of that type,
  which matching may rearrange; a rule allows or denies what fulfils all of its conditions, and the first such
  rule decides. \<open>aclCheckFast\<close> decides at once; \<open>aclCheck\<close> stops when a name or an address has to be looked up
  first, and is called again when the lookup is done. The contents of the caches of names and addresses, of
  the client database and of the table of autonomous systems are read through the record \<open>acl_world\<close>, as
  are the types of \<open>acl\<close> that ask helpers and authenticators; regular expressions are matched by the C library. The build
  has \<open>USE_IDENT\<close>, but neither SSL nor SNMP nor ARP. Reference counts of the rules are left out. A result \<open>None\<close>: the
  process is aborted, or the data are not those of the type.
\<close>

subsection \<open>Data of the configuration\<close>

datatype squid_acl =
    ACL_NONE | ACL_SRC_IP | ACL_DST_IP | ACL_MY_IP | ACL_SRC_DOMAIN | ACL_DST_DOMAIN | ACL_SRC_DOM_REGEX | ACL_DST_DOM_REGEX
  | ACL_TIME | ACL_URLPATH_REGEX | ACL_URL_REGEX | ACL_URL_PORT | ACL_MY_PORT | ACL_MY_PORT_NAME | ACL_IDENT | ACL_IDENT_REGEX
  | ACL_TYPE | ACL_PROTO | ACL_METHOD | ACL_BROWSER | ACL_REFERER_REGEX | ACL_PROXY_AUTH | ACL_PROXY_AUTH_REGEX
  | ACL_SRC_ASN | ACL_DST_ASN | ACL_MAXCONN | ACL_REQ_MIME_TYPE | ACL_REP_MIME_TYPE | ACL_REP_HEADER | ACL_REQ_HEADER
  | ACL_MAX_USER_IP | ACL_EXTERNAL | ACL_URLLOGIN | ACL_URLGROUP | ACL_EXTUSER | ACL_EXTUSER_REGEX | ACL_ENUM_MAX

datatype acl_lookup_state =
  ACL_LOOKUP_NONE | ACL_LOOKUP_NEEDED | ACL_LOOKUP_PENDING | ACL_LOOKUP_DONE | ACL_PROXY_AUTH_NEEDED

datatype allow_t = ACCESS_DENIED | ACCESS_ALLOWED | ACCESS_REQ_PROXY_AUTH

record acl_time_data =
  td_weekbits :: int
  td_start :: int
  td_stop :: int

record acl_request_type =
  rt_accelerated :: bool
  rt_transparent :: bool
  rt_internal :: bool

datatype acl_data =
    IpData "acl_ip_data tree" | DomainData "string tree" | RegexData "string list" | IntData "int list" | RangeData "(int \<times> int) list"
  | TimeData "acl_time_data list" | WordData "string list" | TypeData acl_request_type | UserData acl_user_data | OtherData

record acl =
  acl_name :: string
  acl_type :: squid_acl
  acl_data :: acl_data

text \<open>A condition is an \<open>acl\<close>, by its place in memory, and the answer that is expected from it.\<close>

record acl_list =
  al_op :: int
  al_acl :: nat

record acl_access =
  aa_allow :: allow_t
  aa_acl_list :: "acl_list list"

subsection \<open>Reading the configuration\<close>

definition xatol :: "string \<Rightarrow> int option" where
  "xatol token = (case strtol10 token of Some (v, []) \<Rightarrow> Some v | _ \<Rightarrow> None)"

definition xatos :: "string \<Rightarrow> int option" where
  "xatos token = do { port \<leftarrow> xatol token; if port < 0 \<or> 65535 < port then None else Some port }"

fun aclParseIntlist :: "string list \<Rightarrow> int list \<Rightarrow> int list option" where
  "aclParseIntlist [] cur = Some cur"
| "aclParseIntlist (t # ts) cur = do { i \<leftarrow> xatol t; aclParseIntlist ts (cur @ [i]) }"

fun aclParsePortRange :: "string list \<Rightarrow> (int \<times> int) list \<Rightarrow> (int \<times> int) list option" where
  "aclParsePortRange [] cur = Some cur"
| "aclParsePortRange (a # ts) cur = do {
     port1 \<leftarrow> xatos (takeWhile (\<lambda>c. c \<noteq> CHR ''-'') a);
     port2 \<leftarrow> (if CHR ''-'' \<in> set a then xatos (tl (dropWhile (\<lambda>c. c \<noteq> CHR ''-'') a)) else Some port1);
     if port1 \<le> port2 then aclParsePortRange ts (cur @ [(port1, port2)]) else None }"

primrec protocol_number :: "protocol_t \<Rightarrow> int" where
  "protocol_number PROTO_NONE = 0"
| "protocol_number PROTO_HTTP = 1"
| "protocol_number PROTO_FTP = 2"
| "protocol_number PROTO_GOPHER = 3"
| "protocol_number PROTO_WAIS = 4"
| "protocol_number PROTO_CACHEOBJ = 5"
| "protocol_number PROTO_ICP = 6"
| "protocol_number PROTO_URN = 7"
| "protocol_number PROTO_WHOIS = 8"
| "protocol_number PROTO_INTERNAL = 9"
| "protocol_number PROTO_HTTPS = 10"

definition aclParseProtoList :: "string list \<Rightarrow> int list \<Rightarrow> int list" where
  "aclParseProtoList ts cur = cur @ map (\<lambda>t. protocol_number (urlParseProtocol t)) ts"

fun aclParseMethodList :: "rms_t list \<Rightarrow> string list \<Rightarrow> int list \<Rightarrow> int list option" where
  "aclParseMethodList methods [] cur = Some cur"
| "aclParseMethodList methods (t # ts) cur = do {
     let m = urlParseMethod methods t (length t);
     c_assert (m \<noteq> METHOD_NONE);
     aclParseMethodList methods ts (cur @ [int m]) }"

fun aclParseType :: "string list \<Rightarrow> acl_request_type \<Rightarrow> acl_request_type option" where
  "aclParseType [] ty = Some ty"
| "aclParseType (t # ts) ty =
     (if t = ''accelerated'' \<or> t = ''accel'' then aclParseType ts (ty\<lparr>rt_accelerated := True\<rparr>)
      else if t = ''transparent'' then aclParseType ts (ty\<lparr>rt_transparent := True\<rparr>)
      else if t = ''internal'' \<or> t = ''auth'' then aclParseType ts (ty\<lparr>rt_internal := True\<rparr>)
      else None)"

text \<open>Numbers with separators between them, as many as \<open>sscanf\<close> reads.\<close>

fun scan_seq :: "string \<Rightarrow> string \<Rightarrow> int list" where
  "scan_seq seps s =
     (case strtol10 s of
        None \<Rightarrow> []
      | Some (v, r) \<Rightarrow>
          (case seps of
             [] \<Rightarrow> [v]
           | c # cs \<Rightarrow> if r \<noteq> [] \<and> hd r = c then v # scan_seq cs (tl r) else [v]))"

definition ACL_ALLWEEK :: int where "ACL_ALLWEEK = 0x7F"

definition day_bits :: "char \<Rightarrow> int option" where
  "day_bits c =
     (if c = CHR ''S'' then Some 0x01 else if c = CHR ''M'' then Some 0x02 else if c = CHR ''T'' then Some 0x04
      else if c = CHR ''W'' then Some 0x08 else if c = CHR ''H'' then Some 0x10 else if c = CHR ''F'' then Some 0x20
      else if c = CHR ''A'' then Some 0x40 else if c = CHR ''D'' then Some 0x3E else if c = CHR ''-'' then Some 0 else None)"

fun add_days :: "string \<Rightarrow> int \<Rightarrow> int option" where
  "add_days [] weekbits = Some weekbits"
| "add_days (c # cs) weekbits = do { b \<leftarrow> day_bits c; add_days cs (weekbits OR b) }"

definition parse_hours :: "string \<Rightarrow> (int \<times> int) option" where
  "parse_hours t =
     (case scan_seq '':-:'' t of
        [h1, m1, h2, m2] \<Rightarrow>
          if 0 \<le> h1 \<and> h1 < 24 \<and> (0 \<le> h2 \<and> h2 < 24 \<or> h2 = 24 \<and> m2 = 0) \<and> 0 \<le> m1 \<and> m1 < 60 \<and> 0 \<le> m2 \<and> m2 < 60
          then (if h2 * 60 + m2 < h1 * 60 + m1 then None else Some (h1 * 60 + m1, h2 * 60 + m2))
          else None
      | _ \<Rightarrow> None)"

fun parse_times :: "string list \<Rightarrow> int \<Rightarrow> acl_time_data list \<Rightarrow> acl_time_data list option" where
  "parse_times [] weekbits cur =
     Some (if weekbits \<noteq> 0 then cur @ [\<lparr>td_weekbits = weekbits, td_start = 0, td_stop = 24 * 60\<rparr>] else cur)"
| "parse_times (t # ts) weekbits cur =
     (if t = [] \<or> \<not> isdigit (hd t) then do { weekbits \<leftarrow> add_days t weekbits; parse_times ts weekbits cur }
      else do {
        (start, stop) \<leftarrow> parse_hours t;
        parse_times ts 0 (cur @ [\<lparr>td_weekbits = (if weekbits = 0 then ACL_ALLWEEK else weekbits), td_start = start, td_stop = stop\<rparr>]) })"

definition aclParseTimeSpec :: "string list \<Rightarrow> acl_time_data list \<Rightarrow> acl_time_data list option" where
  "aclParseTimeSpec ts cur = parse_times ts 0 cur"

text \<open>The rules: the \<open>acl\<close>s of the configuration in their order, each with its place.\<close>

definition aclFindByName :: "(nat \<times> acl) list \<Rightarrow> string \<Rightarrow> nat option" where
  "aclFindByName aclList name = map_option fst (List.find (\<lambda>(p, a). strcaseeq (acl_name a) name) aclList)"

fun aclParseAclList :: "(nat \<times> acl) list \<Rightarrow> string list \<Rightarrow> acl_list list option" where
  "aclParseAclList aclList [] = Some []"
| "aclParseAclList aclList (t # ts) = do {
     let op = (if take 1 t = ''!'' then 0 else 1);
     let name = (if take 1 t = ''!'' then tl t else t);
     a \<leftarrow> aclFindByName aclList name;
     l \<leftarrow> aclParseAclList aclList ts;
     Some (\<lparr>al_op = op, al_acl = a\<rparr> # l) }"

definition aclParseAccessLine :: "(nat \<times> acl) list \<Rightarrow> string list \<Rightarrow> acl_access list \<Rightarrow> acl_access list option" where
  "aclParseAccessLine aclList words hd_rules =
     (case words of
        [] \<Rightarrow> Some hd_rules
      | t # ts \<Rightarrow>
          if t \<noteq> ''allow'' \<and> t \<noteq> ''deny'' then Some hd_rules
          else do {
            l \<leftarrow> aclParseAclList aclList ts;
            if l = [] then Some hd_rules
            else Some (hd_rules @ [\<lparr>aa_allow = (if t = ''allow'' then ACCESS_ALLOWED else ACCESS_DENIED), aa_acl_list = l\<rparr>]) })"

subsection \<open>Matching the data\<close>

text \<open>In the lists, what is found is moved to the second place.\<close>

definition match_list :: "('a \<Rightarrow> bool) \<Rightarrow> 'a list \<Rightarrow> bool \<times> 'a list" where
  "match_list P xs =
     (case dropWhile (\<lambda>x. \<not> P x) xs of
        [] \<Rightarrow> (False, xs)
      | y # ys \<Rightarrow>
          (True, case takeWhile (\<lambda>x. \<not> P x) xs of [] \<Rightarrow> xs | f # fs \<Rightarrow> f # y # fs @ ys))"

definition aclMatchRegex :: "(string \<Rightarrow> string \<Rightarrow> bool) \<Rightarrow> string list \<Rightarrow> string option \<Rightarrow> bool \<times> string list" where
  "aclMatchRegex regexec data word = (case word of None \<Rightarrow> (False, data) | Some w \<Rightarrow> match_list (\<lambda>p. regexec p w) data)"

definition aclMatchInteger :: "int list \<Rightarrow> int \<Rightarrow> bool \<times> int list" where
  "aclMatchInteger data i = match_list (\<lambda>x. x = i) data"

definition aclMatchIntegerRange :: "(int \<times> int) list \<Rightarrow> int \<Rightarrow> bool \<times> (int \<times> int) list" where
  "aclMatchIntegerRange data i = match_list (\<lambda>(a, b). \<not> (i < a) \<and> \<not> (b < i)) data"

definition aclMatchWordList :: "string list \<Rightarrow> string \<Rightarrow> bool" where
  "aclMatchWordList w word = list_ex (\<lambda>k. k = word) w"

record tm =
  tm_hour :: int
  tm_min :: int
  tm_wday :: nat

text \<open>The static variables of \<open>aclMatchTime\<close>: the last time and what it is on the clock.\<close>

definition aclMatchTime :: "(int \<Rightarrow> tm) \<Rightarrow> int \<times> tm \<Rightarrow> acl_time_data list \<Rightarrow> int \<Rightarrow> (bool \<times> int \<times> tm) option" where
  "aclMatchTime localtime lst data whn = do {
     c_assert (data \<noteq> []);
     let (last_when, tm) = (if whn \<noteq> fst lst then (whn, localtime whn) else lst);
     let t = tm_hour tm * 60 + tm_min tm;
     Some (list_ex (\<lambda>d. td_start d \<le> t \<and> t \<le> td_stop d \<and> bit (td_weekbits d) (tm_wday tm)) data, last_when, tm) }"

record acl_request = request_t +
  ar_accelerated :: bool
  ar_transparent :: bool
  ar_internal :: bool
  ar_header :: "nat \<Rightarrow> string option"
  ar_extacl_user :: "string option"
  ar_client_addr :: in_addr
  ar_my_addr :: in_addr
  ar_my_port :: int

definition aclMatchType :: "acl_request_type \<Rightarrow> acl_request \<Rightarrow> bool" where
  "aclMatchType type r \<longleftrightarrow>
     rt_accelerated type \<and> ar_accelerated r \<or> rt_transparent type \<and> ar_transparent r \<or> rt_internal type \<and> ar_internal r"

subsection \<open>Matching a condition\<close>

text \<open>What is read from other parts: the caches of addresses and names, the numbers of connections, autonomous systems, the
  time, and the answers, with the lookups they ask for, of the types by credentials and helpers.\<close>

record acl_world =
  aw_ipcache :: "string \<Rightarrow> in_addr list option"
  aw_fqdncache :: "in_addr \<Rightarrow> string option"
  aw_established :: "in_addr \<Rightarrow> int"
  aw_asn :: "int set \<Rightarrow> in_addr \<Rightarrow> bool"
  aw_curtime :: int
  aw_localtime :: "int \<Rightarrow> tm"
  aw_numeric :: "string \<Rightarrow> in_addr option"
  aw_regexec :: "string \<Rightarrow> string \<Rightarrow> bool"
  aw_helper :: "acl \<Rightarrow> (squid_acl \<Rightarrow> acl_lookup_state) \<Rightarrow> int \<times> (squid_acl \<Rightarrow> acl_lookup_state)"

record aclCheck_t =
  ck_access_list :: "acl_access list"
  ck_src_addr :: in_addr
  ck_my_addr :: in_addr
  ck_my_port :: int
  ck_request :: "acl_request option"
  ck_reply_type :: "string option option"
  ck_port_name :: "string option"
  ck_conn_valid :: bool

text \<open>What matching changes: the data of an \<open>acl\<close>, the states of the lookups, the clock of \<open>aclMatchTime\<close>, and
  which \<open>acl\<close> was matched last.\<close>

record acl_vars =
  av_state :: "squid_acl \<Rightarrow> acl_lookup_state"
  av_clock :: "int \<times> tm"
  av_current_acl :: "nat option"

type_synonym acl_result = "(int \<times> acl_data \<times> acl_vars) option"

definition answer :: "bool \<Rightarrow> int" where
  "answer b = (if b then 1 else 0)"

definition need_lookup :: "squid_acl \<Rightarrow> acl_data \<Rightarrow> acl_vars \<Rightarrow> acl_result" where
  "need_lookup k d v = Some (0, d, v\<lparr>av_state := (av_state v)(k := ACL_LOOKUP_NEEDED)\<rparr>)"

definition match_ip :: "in_addr \<Rightarrow> acl_data \<Rightarrow> acl_vars \<Rightarrow> acl_result" where
  "match_ip c d v = (case d of IpData t \<Rightarrow> do { (b, t) \<leftarrow> aclMatchIp t c; Some (answer b, IpData t, v) } | _ \<Rightarrow> None)"

fun match_ip_any :: "in_addr list \<Rightarrow> acl_data \<Rightarrow> acl_vars \<Rightarrow> acl_result" where
  "match_ip_any [] d v = Some (0, d, v)"
| "match_ip_any (c # cs) d v = do {
     (r, d, v) \<leftarrow> match_ip c d v;
     if r \<noteq> 0 then Some (1, d, v) else match_ip_any cs d v }"

definition match_domain :: "string \<Rightarrow> acl_data \<Rightarrow> acl_vars \<Rightarrow> acl_result" where
  "match_domain h d v =
     (case d of DomainData t \<Rightarrow> do { (b, t) \<leftarrow> aclMatchDomainList t (Some h); Some (answer b, DomainData t, v) } | _ \<Rightarrow> None)"

definition match_regex :: "acl_world \<Rightarrow> string option \<Rightarrow> acl_data \<Rightarrow> acl_vars \<Rightarrow> acl_result" where
  "match_regex W word d v =
     (case d of RegexData l \<Rightarrow> (let (b, l) = aclMatchRegex (aw_regexec W) l word in Some (answer b, RegexData l, v)) | _ \<Rightarrow> None)"

definition match_int :: "int \<Rightarrow> acl_data \<Rightarrow> acl_vars \<Rightarrow> acl_result" where
  "match_int i d v = (case d of IntData l \<Rightarrow> (let (b, l) = aclMatchInteger l i in Some (answer b, IntData l, v)) | _ \<Rightarrow> None)"

definition match_port :: "int \<Rightarrow> acl_data \<Rightarrow> acl_vars \<Rightarrow> acl_result" where
  "match_port i d v = (case d of RangeData l \<Rightarrow> (let (b, l) = aclMatchIntegerRange l i in Some (answer b, RangeData l, v)) | _ \<Rightarrow> None)"

definition match_word :: "string \<Rightarrow> acl_data \<Rightarrow> acl_vars \<Rightarrow> acl_result" where
  "match_word w d v = (case d of WordData l \<Rightarrow> Some (answer (aclMatchWordList l w), d, v) | _ \<Rightarrow> None)"

definition match_user :: "string option \<Rightarrow> acl_data \<Rightarrow> acl_vars \<Rightarrow> acl_result" where
  "match_user u d v = (case d of UserData l \<Rightarrow> do { (b, l) \<leftarrow> aclMatchUser l u; Some (answer b, UserData l, v) } | _ \<Rightarrow> None)"

text \<open>The name of an address: from the cache; looked up, if that was not tried; else \<open>none\<close>. \<open>m\<close> matches a name.\<close>

definition match_fqdn ::
  "acl_world \<Rightarrow> squid_acl \<Rightarrow> in_addr \<Rightarrow> (string \<Rightarrow> acl_data \<Rightarrow> acl_vars \<Rightarrow> acl_result) \<Rightarrow> acl_data \<Rightarrow> acl_vars \<Rightarrow> acl_result" where
  "match_fqdn W k addr m d v =
     (case aw_fqdncache W addr of
        Some fqdn \<Rightarrow> m fqdn d v
      | None \<Rightarrow> if av_state v k = ACL_LOOKUP_NONE then need_lookup k d v else m ''none'' d v)"

text \<open>The name of the host of the URL, and, if it is an address, the name of that address.\<close>

definition match_host ::
  "acl_world \<Rightarrow> string \<Rightarrow> (string \<Rightarrow> acl_data \<Rightarrow> acl_vars \<Rightarrow> acl_result) \<Rightarrow> acl_data \<Rightarrow> acl_vars \<Rightarrow> acl_result" where
  "match_host W host m d v = do {
     (r, d, v) \<leftarrow> m host d v;
     if r \<noteq> 0 then Some (1, d, v)
     else case aw_numeric W host of
       None \<Rightarrow> Some (0, d, v)
     | Some addr \<Rightarrow> match_fqdn W ACL_DST_DOMAIN addr m d v }"

definition needs_request :: "squid_acl \<Rightarrow> bool" where
  "needs_request ty \<longleftrightarrow> ty \<in> set [ACL_BROWSER, ACL_REFERER_REGEX, ACL_DST_ASN, ACL_DST_DOMAIN, ACL_DST_DOM_REGEX, ACL_DST_IP,
     ACL_MAX_USER_IP, ACL_METHOD, ACL_TYPE, ACL_PROTO, ACL_PROXY_AUTH, ACL_PROXY_AUTH_REGEX, ACL_REP_MIME_TYPE, ACL_REQ_MIME_TYPE,
     ACL_REP_HEADER, ACL_REQ_HEADER, ACL_URLPATH_REGEX, ACL_URL_PORT, ACL_URL_REGEX, ACL_URLLOGIN]"

text \<open>The types that read the request; \<open>urlgroup\<close> and \<open>ext_user\<close> do so without a test that there is one.\<close>

definition match_request :: "acl_world \<Rightarrow> aclCheck_t \<Rightarrow> acl_request \<Rightarrow> squid_acl \<Rightarrow> acl_data \<Rightarrow> acl_vars \<Rightarrow> acl_result" where
  "match_request W ck r ty d v =
     (case ty of
        ACL_DST_IP \<Rightarrow>
          (case aw_ipcache W (r_host r) of
             Some ia \<Rightarrow> match_ip_any ia d v
           | None \<Rightarrow> if av_state v ACL_DST_IP = ACL_LOOKUP_NONE then need_lookup ACL_DST_IP d v else Some (0, d, v))
      | ACL_DST_DOMAIN \<Rightarrow> match_host W (r_host r) match_domain d v
      | ACL_DST_DOM_REGEX \<Rightarrow> match_host W (r_host r) (\<lambda>h. match_regex W (Some h)) d v
      | ACL_URLPATH_REGEX \<Rightarrow> match_regex W (Some (rfc1738_unescape (r_urlpath r))) d v
      | ACL_URL_REGEX \<Rightarrow> match_regex W (Some (rfc1738_unescape (fst (urlCanonical (request_t.truncate r))))) d v
      | ACL_URLLOGIN \<Rightarrow> match_regex W (Some (rfc1738_unescape (r_login r))) d v
      | ACL_URL_PORT \<Rightarrow> match_port (r_port r) d v
      | ACL_TYPE \<Rightarrow> (case d of TypeData t \<Rightarrow> Some (answer (aclMatchType t r), d, v) | _ \<Rightarrow> None)
      | ACL_PROTO \<Rightarrow> match_int (protocol_number (r_protocol r)) d v
      | ACL_METHOD \<Rightarrow> match_int (int (r_method r)) d v
      | ACL_BROWSER \<Rightarrow> match_regex W (ar_header r HDR_USER_AGENT) d v
      | ACL_REFERER_REGEX \<Rightarrow> match_regex W (ar_header r HDR_REFERER) d v
      | ACL_DST_ASN \<Rightarrow>
          (case d of
             IntData l \<Rightarrow>
               (case aw_ipcache W (r_host r) of
                  Some ia \<Rightarrow> Some (answer (list_ex (aw_asn W (set l)) ia), d, v)
                | None \<Rightarrow> if av_state v ACL_DST_ASN = ACL_LOOKUP_NONE then need_lookup ACL_DST_ASN d v
                          else Some (answer (aw_asn W (set l) no_addr), d, v))
           | _ \<Rightarrow> None)
      | ACL_REQ_MIME_TYPE \<Rightarrow> match_regex W (Some (case ar_header r HDR_CONTENT_TYPE of None \<Rightarrow> [] | Some h \<Rightarrow> h)) d v
      | ACL_REP_MIME_TYPE \<Rightarrow>
          (case ck_reply_type ck of
             None \<Rightarrow> Some (0, d, v)
           | Some h \<Rightarrow> match_regex W (Some (case h of None \<Rightarrow> [] | Some h \<Rightarrow> h)) d v)
      | ACL_URLGROUP \<Rightarrow> (case r_urlgroup r of None \<Rightarrow> Some (0, d, v) | Some g \<Rightarrow> match_word g d v)
      | ACL_EXTUSER \<Rightarrow> (case ar_extacl_user r of None \<Rightarrow> Some (- 1, d, v) | Some u \<Rightarrow> match_user (Some u) d v)
      | ACL_EXTUSER_REGEX \<Rightarrow> (case ar_extacl_user r of None \<Rightarrow> Some (- 1, d, v) | Some u \<Rightarrow> match_regex W (Some u) d v)
      | _ \<Rightarrow> None)"

definition helper_types :: "squid_acl list" where
  "helper_types = [ACL_IDENT, ACL_IDENT_REGEX, ACL_PROXY_AUTH, ACL_PROXY_AUTH_REGEX, ACL_MAX_USER_IP, ACL_EXTERNAL, ACL_REP_HEADER, ACL_REQ_HEADER]"

definition aclMatchAcl :: "acl_world \<Rightarrow> aclCheck_t \<Rightarrow> acl \<Rightarrow> acl_vars \<Rightarrow> acl_result" where
  "aclMatchAcl W ck a v =
     (let d = acl_data a; ty = acl_type a in
      if needs_request ty \<and> ck_request ck = None then Some (0, d, v)
      else if ty \<in> set helper_types
      then (case aw_helper W a (av_state v) of (r, st) \<Rightarrow> Some (r, d, v\<lparr>av_state := st\<rparr>))
      else if ty = ACL_NONE \<or> ty = ACL_ENUM_MAX then Some (0, d, v)
      else if ty = ACL_SRC_IP then match_ip (ck_src_addr ck) d v
      else if ty = ACL_MY_IP then match_ip (ck_my_addr ck) d v
      else if ty = ACL_SRC_DOMAIN then match_fqdn W ACL_SRC_DOMAIN (ck_src_addr ck) match_domain d v
      else if ty = ACL_SRC_DOM_REGEX then match_fqdn W ACL_SRC_DOMAIN (ck_src_addr ck) (\<lambda>h. match_regex W (Some h)) d v
      else if ty = ACL_TIME then
        (case d of
           TimeData l \<Rightarrow> do {
             (b, clock) \<leftarrow> aclMatchTime (aw_localtime W) (av_clock v) l (aw_curtime W);
             Some (answer b, d, v\<lparr>av_clock := clock\<rparr>) }
         | _ \<Rightarrow> None)
      else if ty = ACL_MAXCONN then
        (case d of IntData (i # _) \<Rightarrow> Some (answer (i < aw_established W (ck_src_addr ck)), d, v) | _ \<Rightarrow> None)
      else if ty = ACL_MY_PORT then match_port (ck_my_port ck) d v
      else if ty = ACL_MY_PORT_NAME then (case ck_port_name ck of None \<Rightarrow> Some (0, d, v) | Some n \<Rightarrow> match_word n d v)
      else if ty = ACL_SRC_ASN then (case d of IntData l \<Rightarrow> Some (answer (aw_asn W (set l) (ck_src_addr ck)), d, v) | _ \<Rightarrow> None)
      else (case ck_request ck of None \<Rightarrow> None | Some r \<Rightarrow> match_request W ck r ty d v))"

subsection \<open>Checking the rules\<close>

type_synonym acls = "nat \<Rightarrow> acl option"

fun aclMatchAclList :: "acl_world \<Rightarrow> aclCheck_t \<Rightarrow> acl_list list \<Rightarrow> acls \<Rightarrow> acl_vars \<Rightarrow> (int \<times> acls \<times> acl_vars) option" where
  "aclMatchAclList W ck [] m v = Some (1, m, v)"
| "aclMatchAclList W ck (l # ls) m v = do {
     a \<leftarrow> m (al_acl l);
     (r, d, v) \<leftarrow> aclMatchAcl W ck a (v\<lparr>av_current_acl := Some (al_acl l)\<rparr>);
     let m = m(al_acl l \<mapsto> a\<lparr>acl_data := d\<rparr>);
     if r \<noteq> al_op l then Some (0, m, v) else aclMatchAclList W ck ls m v }"

definition aclChecklistCacheInit :: "aclCheck_t \<Rightarrow> aclCheck_t" where
  "aclChecklistCacheInit ck =
     (case ck_request ck of
        None \<Rightarrow> ck
      | Some r \<Rightarrow>
          if ck_src_addr ck = 0
          then ck\<lparr>ck_src_addr := ar_client_addr r, ck_my_addr := ar_my_addr r, ck_my_port := ar_my_port r\<rparr>
          else ck)"

definition aclCheckCleanup :: "acl_vars \<Rightarrow> acl_vars" where
  "aclCheckCleanup v = v\<lparr>av_current_acl := None\<rparr>"

text \<open>The loop over the rules; \<open>allow\<close> is what the last rule says.\<close>

fun check_fast :: "acl_world \<Rightarrow> aclCheck_t \<Rightarrow> allow_t \<Rightarrow> acl_access list \<Rightarrow> acls \<Rightarrow> acl_vars \<Rightarrow> (bool \<times> acls \<times> acl_vars) option" where
  "check_fast W ck allow [] m v = Some (allow = ACCESS_DENIED, m, aclCheckCleanup v)"
| "check_fast W ck allow (A # As) m v = do {
     (r, m, v) \<leftarrow> aclMatchAclList W ck (aa_acl_list A) m v;
     if r \<noteq> 0 then
       (if r < 0 then Some (False, m, v) else Some (aa_allow A = ACCESS_ALLOWED, m, aclCheckCleanup v))
     else check_fast W ck (aa_allow A) As m v }"

definition aclCheckFast :: "acl_world \<Rightarrow> acl_access list \<Rightarrow> aclCheck_t \<Rightarrow> acls \<Rightarrow> acl_vars \<Rightarrow> (bool \<times> acls \<times> acl_vars) option" where
  "aclCheckFast W A ck m v = check_fast W (aclChecklistCacheInit ck) ACCESS_DENIED A m v"

text \<open>How a call of \<open>aclCheck\<close> ends: with an answer to the caller, with a lookup that will call it again, or, at one return, without either.\<close>

datatype check_end = Answered allow_t | Looking squid_acl | Lost

definition lookup_is :: "acl_lookup_state \<Rightarrow> squid_acl \<Rightarrow> acl_vars \<Rightarrow> bool" where
  "lookup_is st k v \<longleftrightarrow> av_state v k = st"

definition set_lookup :: "squid_acl \<Rightarrow> acl_lookup_state \<Rightarrow> acl_vars \<Rightarrow> acl_vars" where
  "set_lookup k st v = v\<lparr>av_state := (av_state v)(k := st)\<rparr>"

text \<open>After a rule: a lookup that is needed is started, else the verdict of the rule, 0 for none.\<close>

definition after_rule :: "acl_world \<Rightarrow> aclCheck_t \<Rightarrow> acls \<Rightarrow> acl_vars \<Rightarrow> allow_t \<Rightarrow> int \<Rightarrow> ((check_end + allow_t \<times> int) \<times> acl_vars) option" where
  "after_rule W ck m v allow match =
     (if lookup_is ACL_LOOKUP_NEEDED ACL_DST_IP v then Some (Inl (Looking ACL_DST_IP), set_lookup ACL_DST_IP ACL_LOOKUP_PENDING v)
      else if lookup_is ACL_LOOKUP_NEEDED ACL_DST_ASN v then Some (Inl (Looking ACL_DST_ASN), set_lookup ACL_DST_ASN ACL_LOOKUP_PENDING v)
      else if lookup_is ACL_LOOKUP_NEEDED ACL_SRC_DOMAIN v then Some (Inl (Looking ACL_SRC_DOMAIN), set_lookup ACL_SRC_DOMAIN ACL_LOOKUP_PENDING v)
      else if lookup_is ACL_LOOKUP_NEEDED ACL_DST_DOMAIN v then
        (case ck_request ck of
           None \<Rightarrow> None
         | Some r \<Rightarrow>
             (case aw_numeric W (r_host r) of
                None \<Rightarrow> Some (Inl Lost, set_lookup ACL_DST_DOMAIN ACL_LOOKUP_DONE v)
              | Some _ \<Rightarrow> Some (Inl (Looking ACL_DST_DOMAIN), set_lookup ACL_DST_DOMAIN ACL_LOOKUP_PENDING v)))
      else if lookup_is ACL_LOOKUP_NEEDED ACL_PROXY_AUTH v then Some (Inl (Looking ACL_PROXY_AUTH), set_lookup ACL_PROXY_AUTH ACL_LOOKUP_PENDING v)
      else if lookup_is ACL_PROXY_AUTH_NEEDED ACL_PROXY_AUTH v then Some (Inr (ACCESS_REQ_PROXY_AUTH, - 1), v)
      else if lookup_is ACL_LOOKUP_NEEDED ACL_IDENT v then
        (if ck_conn_valid ck then Some (Inl (Looking ACL_IDENT), set_lookup ACL_IDENT ACL_LOOKUP_PENDING v)
         else Some (Inr (ACCESS_DENIED, - 1), v))
      else if lookup_is ACL_LOOKUP_NEEDED ACL_EXTERNAL v then do {
        p \<leftarrow> av_current_acl v;
        a \<leftarrow> m p;
        c_assert (acl_type a = ACL_EXTERNAL);
        Some (Inl (Looking ACL_EXTERNAL), v) }
      else Some (Inr (allow, match), v))"

text \<open>\<open>valid\<close>: the rules still exist; a new configuration frees them.\<close>

definition no_match :: "allow_t \<Rightarrow> allow_t" where
  "no_match allow = (if allow \<noteq> ACCESS_DENIED then ACCESS_DENIED else ACCESS_ALLOWED)"

fun check_rules ::
  "acl_world \<Rightarrow> bool \<Rightarrow> aclCheck_t \<Rightarrow> allow_t \<Rightarrow> acl_access list \<Rightarrow> acls \<Rightarrow> acl_vars \<Rightarrow> (check_end \<times> acl_access list \<times> acls \<times> acl_vars) option" where
  "check_rules W valid ck allow [] m v = Some (Answered (no_match allow), [], m, aclCheckCleanup v)"
| "check_rules W valid ck allow (A # As) m v =
     (if \<not> valid then Some (Answered (no_match allow), [], m, aclCheckCleanup v)
      else do {
        let allow = aa_allow A;
        (r, m, v) \<leftarrow> aclMatchAclList W ck (aa_acl_list A) m v;
        let allow = (if r = - 1 then ACCESS_DENIED else allow);
        (e, v) \<leftarrow> after_rule W ck m v allow r;
        case e of
          Inl ending \<Rightarrow> Some (ending, A # As, m, v)
        | Inr (allow, r) \<Rightarrow>
            if r \<noteq> 0 then Some (Answered allow, [], m, aclCheckCleanup v)
            else check_rules W valid ck allow As m v })"

definition aclCheck :: "acl_world \<Rightarrow> bool \<Rightarrow> aclCheck_t \<Rightarrow> acls \<Rightarrow> acl_vars \<Rightarrow> (check_end \<times> aclCheck_t \<times> acls \<times> acl_vars) option" where
  "aclCheck W valid ck m v = do {
     (e, As, m, v) \<leftarrow> check_rules W valid ck ACCESS_DENIED (ck_access_list ck) m v;
     Some (e, ck\<lparr>ck_access_list := As\<rparr>, m, v) }"

definition aclNBCheck :: "acl_world \<Rightarrow> bool \<Rightarrow> aclCheck_t \<Rightarrow> acls \<Rightarrow> acl_vars \<Rightarrow> (check_end \<times> aclCheck_t \<times> acls \<times> acl_vars) option" where
  "aclNBCheck W valid ck m v = aclCheck W valid (aclChecklistCacheInit ck) m v"

text \<open>The state of the lookups of a new checklist, and the callback of a lookup.\<close>

definition aclChecklistCreate :: "int \<times> tm \<Rightarrow> acl_vars" where
  "aclChecklistCreate clock = \<lparr>av_state = (\<lambda>k. ACL_LOOKUP_NONE), av_clock = clock, av_current_acl = None\<rparr>"

definition aclLookupDone :: "squid_acl \<Rightarrow> acl_world \<Rightarrow> bool \<Rightarrow> aclCheck_t \<Rightarrow> acls \<Rightarrow> acl_vars \<Rightarrow> (check_end \<times> aclCheck_t \<times> acls \<times> acl_vars) option" where
  "aclLookupDone k W valid ck m v = aclCheck W valid ck m (set_lookup k ACL_LOOKUP_DONE v)"

subsection \<open>Lemmas: what the data stand for\<close>

text \<open>The content of the data does not change when matching rearranges them.\<close>

datatype acl_content =
    CIp "acl_ip_data set" | CDomain "string set" | CRegex "string set" | CInt "int set" "int list" | CRange "(int \<times> int) set"
  | CTime "acl_time_data list" | CWord "string list" | CType acl_request_type | CUser bool bool "string set" | COther

primrec content :: "acl_data \<Rightarrow> acl_content" where
  "content (IpData t) = CIp (set_tree t)"
| "content (DomainData t) = CDomain (set_tree t)"
| "content (RegexData l) = CRegex (set l)"
| "content (IntData l) = CInt (set l) (take 1 l)"
| "content (RangeData l) = CRange (set l)"
| "content (TimeData l) = CTime l"
| "content (WordData l) = CWord l"
| "content (TypeData t) = CType t"
| "content (UserData u) = CUser (ud_case_insensitive u) (ud_required u) (set_tree (ud_names u))"
| "content OtherData = COther"

primrec acl_data_ok :: "acl_data \<Rightarrow> bool" where
  "acl_data_ok (IpData t) \<longleftrightarrow> cover_tree ip_ok addr1 ip_after t"
| "acl_data_ok (DomainData t) \<longleftrightarrow> cover_tree dom_ok dom_pt dom_beyond t"
| "acl_data_ok (RegexData l) \<longleftrightarrow> True"
| "acl_data_ok (IntData l) \<longleftrightarrow> True"
| "acl_data_ok (RangeData l) \<longleftrightarrow> True"
| "acl_data_ok (TimeData l) \<longleftrightarrow> l \<noteq> []"
| "acl_data_ok (WordData l) \<longleftrightarrow> True"
| "acl_data_ok (TypeData t) \<longleftrightarrow> True"
| "acl_data_ok (UserData u) \<longleftrightarrow> user_data_ok u"
| "acl_data_ok OtherData \<longleftrightarrow> True"

definition same_data :: "acl_data \<Rightarrow> acl_data \<Rightarrow> bool" where
  "same_data d d' \<longleftrightarrow> content d' = content d \<and> acl_data_ok d'"

lemma match_list_law: "\<exists>ys. match_list P xs = (\<exists>x \<in> set xs. P x, ys) \<and> set ys = set xs \<and> take 1 ys = take 1 xs"
proof -
  have split: "takeWhile (\<lambda>x. \<not> P x) xs @ dropWhile (\<lambda>x. \<not> P x) xs = xs" by simp
  show ?thesis
  proof (cases "dropWhile (\<lambda>x. \<not> P x) xs")
    case Nil
    then have "\<forall>x \<in> set xs. \<not> P x" by (simp add: dropWhile_eq_Nil_conv)
    moreover have "match_list P xs = (False, xs)" by (simp add: match_list_def Nil)
    ultimately show ?thesis by auto
  next
    case (Cons y ys)
    then have "P y" using hd_dropWhile [of "\<lambda>x. \<not> P x" xs] by simp
    moreover have "y \<in> set xs" using Cons by (metis list.set_intros(1) set_dropWhileD)
    ultimately have ex: "\<exists>x \<in> set xs. P x" by blast
    show ?thesis
    proof (cases "takeWhile (\<lambda>x. \<not> P x) xs")
      case Nil
      then show ?thesis using Cons ex by (simp add: match_list_def)
    next
      case (Cons f fs)
      then have "xs = f # fs @ y # ys" using \<open>dropWhile (\<lambda>x. \<not> P x) xs = y # ys\<close> split by simp
      then show ?thesis using Cons \<open>dropWhile (\<lambda>x. \<not> P x) xs = y # ys\<close> ex by (auto simp: match_list_def)
    qed
  qed
qed

text \<open>What a condition comes to when all lookups that it needs were made: names that are not in the cache count as \<open>none\<close>,
  addresses as unknown.\<close>

definition ip_in :: "acl_content \<Rightarrow> in_addr \<Rightarrow> bool" where
  "ip_in c a \<longleftrightarrow> (case c of CIp S \<Rightarrow> \<exists>e \<in> S. ip_covers e a | _ \<Rightarrow> False)"

definition domain_in :: "acl_content \<Rightarrow> string \<Rightarrow> bool" where
  "domain_in c h \<longleftrightarrow> (case c of CDomain S \<Rightarrow> \<exists>d \<in> S. domain_rule (map xtolower (undots h)) (map xtolower d) | _ \<Rightarrow> False)"

definition regex_in :: "acl_world \<Rightarrow> acl_content \<Rightarrow> string option \<Rightarrow> bool" where
  "regex_in W c w \<longleftrightarrow> (case c of CRegex S \<Rightarrow> w \<noteq> None \<and> (\<exists>p \<in> S. aw_regexec W p (the w)) | _ \<Rightarrow> False)"

definition int_in :: "acl_content \<Rightarrow> int \<Rightarrow> bool" where
  "int_in c i \<longleftrightarrow> (case c of CInt S _ \<Rightarrow> i \<in> S | _ \<Rightarrow> False)"

definition port_in :: "acl_content \<Rightarrow> int \<Rightarrow> bool" where
  "port_in c i \<longleftrightarrow> (case c of CRange S \<Rightarrow> \<exists>(a, b) \<in> S. a \<le> i \<and> i \<le> b | _ \<Rightarrow> False)"

definition word_in :: "acl_content \<Rightarrow> string \<Rightarrow> bool" where
  "word_in c w \<longleftrightarrow> (case c of CWord l \<Rightarrow> w \<in> set l | _ \<Rightarrow> False)"

definition time_in :: "acl_world \<Rightarrow> acl_content \<Rightarrow> bool" where
  "time_in W c \<longleftrightarrow>
     (case c of
        CTime l \<Rightarrow> let tm = aw_localtime W (aw_curtime W); t = tm_hour tm * 60 + tm_min tm
                   in \<exists>d \<in> set l. td_start d \<le> t \<and> t \<le> td_stop d \<and> bit (td_weekbits d) (tm_wday tm)
      | _ \<Rightarrow> False)"

definition addr_name :: "acl_world \<Rightarrow> in_addr \<Rightarrow> string" where
  "addr_name W a = (case aw_fqdncache W a of None \<Rightarrow> ''none'' | Some f \<Rightarrow> f)"

definition host_names :: "acl_world \<Rightarrow> string \<Rightarrow> string list" where
  "host_names W h = h # (case aw_numeric W h of None \<Rightarrow> [] | Some a \<Rightarrow> [addr_name W a])"

definition request_holds :: "acl_world \<Rightarrow> aclCheck_t \<Rightarrow> acl_request \<Rightarrow> squid_acl \<Rightarrow> acl_content \<Rightarrow> bool" where
  "request_holds W ck r ty c =
     (case ty of
        ACL_DST_IP \<Rightarrow> (case aw_ipcache W (r_host r) of Some ia \<Rightarrow> \<exists>a \<in> set ia. ip_in c a | None \<Rightarrow> False)
      | ACL_DST_DOMAIN \<Rightarrow> \<exists>h \<in> set (host_names W (r_host r)). domain_in c h
      | ACL_DST_DOM_REGEX \<Rightarrow> \<exists>h \<in> set (host_names W (r_host r)). regex_in W c (Some h)
      | ACL_URLPATH_REGEX \<Rightarrow> regex_in W c (Some (rfc1738_unescape (r_urlpath r)))
      | ACL_URL_REGEX \<Rightarrow> regex_in W c (Some (rfc1738_unescape (fst (urlCanonical (request_t.truncate r)))))
      | ACL_URLLOGIN \<Rightarrow> regex_in W c (Some (rfc1738_unescape (r_login r)))
      | ACL_URL_PORT \<Rightarrow> port_in c (r_port r)
      | ACL_TYPE \<Rightarrow> (case c of CType t \<Rightarrow> aclMatchType t r | _ \<Rightarrow> False)
      | ACL_PROTO \<Rightarrow> int_in c (protocol_number (r_protocol r))
      | ACL_METHOD \<Rightarrow> int_in c (int (r_method r))
      | ACL_BROWSER \<Rightarrow> regex_in W c (ar_header r HDR_USER_AGENT)
      | ACL_REFERER_REGEX \<Rightarrow> regex_in W c (ar_header r HDR_REFERER)
      | ACL_DST_ASN \<Rightarrow>
          (case c of
             CInt S _ \<Rightarrow> (case aw_ipcache W (r_host r) of Some ia \<Rightarrow> \<exists>a \<in> set ia. aw_asn W S a | None \<Rightarrow> aw_asn W S no_addr)
           | _ \<Rightarrow> False)
      | ACL_REQ_MIME_TYPE \<Rightarrow> regex_in W c (Some (case ar_header r HDR_CONTENT_TYPE of None \<Rightarrow> [] | Some h \<Rightarrow> h))
      | ACL_REP_MIME_TYPE \<Rightarrow>
          (case ck_reply_type ck of None \<Rightarrow> False | Some h \<Rightarrow> regex_in W c (Some (case h of None \<Rightarrow> [] | Some h \<Rightarrow> h)))
      | ACL_URLGROUP \<Rightarrow> (case r_urlgroup r of None \<Rightarrow> False | Some g \<Rightarrow> word_in c g)
      | _ \<Rightarrow> False)"

definition acl_holds :: "acl_world \<Rightarrow> aclCheck_t \<Rightarrow> acl \<Rightarrow> bool" where
  "acl_holds W ck a \<longleftrightarrow>
     (let c = content (acl_data a); ty = acl_type a in
      if ty = ACL_SRC_IP then ip_in c (ck_src_addr ck)
      else if ty = ACL_MY_IP then ip_in c (ck_my_addr ck)
      else if ty = ACL_SRC_DOMAIN then domain_in c (addr_name W (ck_src_addr ck))
      else if ty = ACL_SRC_DOM_REGEX then regex_in W c (Some (addr_name W (ck_src_addr ck)))
      else if ty = ACL_TIME then time_in W c
      else if ty = ACL_MAXCONN then (case c of CInt _ [i] \<Rightarrow> i < aw_established W (ck_src_addr ck) | _ \<Rightarrow> False)
      else if ty = ACL_MY_PORT then port_in c (ck_my_port ck)
      else if ty = ACL_MY_PORT_NAME then (case ck_port_name ck of None \<Rightarrow> False | Some n \<Rightarrow> word_in c n)
      else if ty = ACL_SRC_ASN then (case c of CInt S _ \<Rightarrow> aw_asn W S (ck_src_addr ck) | _ \<Rightarrow> False)
      else (case ck_request ck of None \<Rightarrow> False | Some r \<Rightarrow> request_holds W ck r ty c))"

text \<open>The types of data that belong to a type, and the types that the laws are about: those that need no helper.\<close>

definition data_of_type :: "squid_acl \<Rightarrow> acl_data \<Rightarrow> bool" where
  "data_of_type ty d \<longleftrightarrow>
     (if ty \<in> {ACL_SRC_IP, ACL_MY_IP, ACL_DST_IP} then \<exists>t. d = IpData t
      else if ty \<in> {ACL_SRC_DOMAIN, ACL_DST_DOMAIN} then \<exists>t. d = DomainData t
      else if ty \<in> {ACL_SRC_DOM_REGEX, ACL_DST_DOM_REGEX, ACL_URLPATH_REGEX, ACL_URL_REGEX, ACL_URLLOGIN, ACL_BROWSER, ACL_REFERER_REGEX,
                    ACL_REQ_MIME_TYPE, ACL_REP_MIME_TYPE} then \<exists>l. d = RegexData l
      else if ty = ACL_TIME then \<exists>l. d = TimeData l
      else if ty = ACL_MAXCONN then \<exists>i l. d = IntData (i # l)
      else if ty \<in> {ACL_PROTO, ACL_METHOD, ACL_SRC_ASN, ACL_DST_ASN} then \<exists>l. d = IntData l
      else if ty \<in> {ACL_MY_PORT, ACL_URL_PORT} then \<exists>l. d = RangeData l
      else if ty \<in> {ACL_MY_PORT_NAME, ACL_URLGROUP} then \<exists>l. d = WordData l
      else ty = ACL_TYPE \<and> (\<exists>t. d = TypeData t))"

definition acl_ok :: "acl \<Rightarrow> bool" where
  "acl_ok a \<longleftrightarrow> data_of_type (acl_type a) (acl_data a) \<and> acl_data_ok (acl_data a)"

lemma take1_Cons: "take (Suc 0) xs = [i] \<Longrightarrow> \<exists>i l. xs = i # l"
  by (cases xs) auto

lemma data_of_type_content: "content d' = content d \<Longrightarrow> data_of_type ty d \<Longrightarrow> data_of_type ty d'"
  by (cases d; cases d') (auto simp: data_of_type_def split: if_splits intro: take1_Cons)

lemma acl_holds_content:
  assumes "content (acl_data a') = content (acl_data a)" "acl_type a' = acl_type a"
  shows "acl_holds W ck a' \<longleftrightarrow> acl_holds W ck a"
  using assms by (simp add: acl_holds_def)

text \<open>The clock variables hold a time and what it is on the clock, or, at the start, the time 0, which it is no more.\<close>

definition clock_ok :: "acl_world \<Rightarrow> acl_vars \<Rightarrow> bool" where
  "clock_ok W v \<longleftrightarrow> aw_curtime W \<noteq> 0 \<and> (fst (av_clock v) = 0 \<or> snd (av_clock v) = aw_localtime W (fst (av_clock v)))"

text \<open>How matching ends: with the answer and the states unchanged, or with a lookup that is needed now.\<close>

definition match_ok :: "acl_world \<Rightarrow> aclCheck_t \<Rightarrow> acl_data \<Rightarrow> acl_vars \<Rightarrow> bool \<Rightarrow> acl_result \<Rightarrow> bool" where
  "match_ok W ck d v b res \<longleftrightarrow>
     (\<exists>r d' v'. res = Some (r, d', v') \<and> same_data d d' \<and> clock_ok W v' \<and> av_current_acl v' = av_current_acl v \<and>
       (av_state v' = av_state v \<and> r = answer b \<or>
        (\<exists>k \<in> {ACL_DST_IP, ACL_DST_ASN, ACL_SRC_DOMAIN, ACL_DST_DOMAIN}. av_state v k = ACL_LOOKUP_NONE \<and>
          av_state v' = (av_state v)(k := ACL_LOOKUP_NEEDED) \<and> r = 0 \<and>
          (k = ACL_DST_DOMAIN \<longrightarrow> (\<exists>r. ck_request ck = Some r \<and> aw_numeric W (r_host r) \<noteq> None)) \<and>
          (k \<noteq> ACL_SRC_DOMAIN \<longrightarrow> ck_request ck \<noteq> None))))"

lemma match_okI: "same_data d d' \<Longrightarrow> clock_ok W v \<Longrightarrow> r = answer b \<Longrightarrow> match_ok W ck d v b (Some (r, d', v))"
  by (auto simp: match_ok_def)

lemma same_data_refl [simp]: "acl_data_ok d \<Longrightarrow> same_data d d"
  by (simp add: same_data_def)

lemma same_data_trans: "same_data d d' \<Longrightarrow> same_data d' d'' \<Longrightarrow> same_data d d''"
  by (simp add: same_data_def)

lemma match_ip_law:
  assumes "acl_data_ok d" "d = IpData t"
  shows "\<exists>d'. match_ip c d v = Some (answer (ip_in (content d) c), d', v) \<and> same_data d d' \<and> (\<exists>t. d' = IpData t)"
  using aclMatchIp_law [of t c] assms by (auto simp: match_ip_def ip_in_def same_data_def)

lemma match_ip_any_law:
  assumes "acl_data_ok d" "\<exists>t. d = IpData t"
  shows "\<exists>d'. match_ip_any cs d v = Some (answer (\<exists>c \<in> set cs. ip_in (content d) c), d', v) \<and> same_data d d'"
  using assms
proof (induction cs arbitrary: d)
  case Nil
  then show ?case by (simp add: answer_def)
next
  case (Cons c cs)
  then obtain d1 where d1: "match_ip c d v = Some (answer (ip_in (content d) c), d1, v)" "same_data d d1" "\<exists>t. d1 = IpData t"
    using match_ip_law [of d _ c v] by blast
  then obtain d2 where d2: "match_ip_any cs d1 v = Some (answer (\<exists>c \<in> set cs. ip_in (content d1) c), d2, v)" "same_data d1 d2"
    using Cons.IH [of d1] by (auto simp: same_data_def)
  have "content d1 = content d" "same_data d d2" using d1(2) same_data_trans [OF d1(2) d2(2)] by (simp_all add: same_data_def)
  then show ?case using d1 d2(1) by (auto simp: answer_def)
qed

lemma match_domain_law:
  assumes "acl_data_ok d" "d = DomainData t" "undots h \<noteq> []"
  shows "\<exists>d'. match_domain h d v = Some (answer (domain_in (content d) h), d', v) \<and> same_data d d' \<and> (\<exists>t. d' = DomainData t)"
  using aclMatchDomainList_law [of t h] assms by (auto simp: match_domain_def domain_in_def same_data_def)

lemma match_regex_law:
  assumes "d = RegexData l"
  shows "\<exists>d'. match_regex W w d v = Some (answer (regex_in W (content d) w), d', v) \<and> same_data d d' \<and> (\<exists>l. d' = RegexData l)"
proof (cases w)
  case None
  then show ?thesis using assms by (simp add: match_regex_def aclMatchRegex_def regex_in_def)
next
  case (Some x)
  then show ?thesis using match_list_law [of "\<lambda>p. aw_regexec W p x" l] assms
    by (auto simp: match_regex_def aclMatchRegex_def regex_in_def same_data_def)
qed

lemma match_int_law:
  assumes "d = IntData l"
  shows "\<exists>d'. match_int i d v = Some (answer (int_in (content d) i), d', v) \<and> same_data d d'"
  using match_list_law [of "\<lambda>x. x = i" l] assms by (auto simp: match_int_def aclMatchInteger_def int_in_def same_data_def)

lemma match_port_law:
  assumes "d = RangeData l"
  shows "\<exists>d'. match_port i d v = Some (answer (port_in (content d) i), d', v) \<and> same_data d d'"
  using match_list_law [of "\<lambda>(a, b). \<not> (i < a) \<and> \<not> (b < i)" l] assms
  by (auto simp: match_port_def aclMatchIntegerRange_def port_in_def same_data_def not_less)

text \<open>A way to match a name: \<open>K\<close> are the data that it is for.\<close>

definition name_law :: "(acl_data \<Rightarrow> bool) \<Rightarrow> (acl_content \<Rightarrow> string \<Rightarrow> bool) \<Rightarrow> (string \<Rightarrow> acl_data \<Rightarrow> acl_vars \<Rightarrow> acl_result) \<Rightarrow> bool" where
  "name_law K P m \<longleftrightarrow> (\<forall>h d v. K d \<longrightarrow> acl_data_ok d \<longrightarrow> undots h \<noteq> [] \<longrightarrow>
     (\<exists>d'. m h d v = Some (answer (P (content d) h), d', v) \<and> same_data d d' \<and> K d'))"

lemma name_law_domain: "name_law (\<lambda>d. \<exists>t. d = DomainData t) domain_in match_domain"
  using match_domain_law by (fastforce simp: name_law_def)

lemma name_law_regex: "name_law (\<lambda>d. \<exists>l. d = RegexData l) (\<lambda>c h. regex_in W c (Some h)) (\<lambda>h. match_regex W (Some h))"
  using match_regex_law by (fastforce simp: name_law_def)

text \<open>The names are names: none is empty or of dots only.\<close>

definition names_ok :: "acl_world \<Rightarrow> aclCheck_t \<Rightarrow> bool" where
  "names_ok W ck \<longleftrightarrow> (\<forall>a. undots (addr_name W a) \<noteq> []) \<and> (\<forall>r. ck_request ck = Some r \<longrightarrow> undots (r_host r) \<noteq> [])"

lemma match_fqdn_law:
  assumes "name_law K P m" "K d" "acl_data_ok d" "names_ok W ck" "clock_ok W v"
    "k = ACL_SRC_DOMAIN \<or> k = ACL_DST_DOMAIN \<and> (\<exists>r. ck_request ck = Some r \<and> aw_numeric W (r_host r) \<noteq> None)"
  shows "match_ok W ck d v (P (content d) (addr_name W a)) (match_fqdn W k a m d v)"
proof -
  have "undots (addr_name W a) \<noteq> []" using assms(4) by (simp add: names_ok_def)
  then obtain d' where m: "m (addr_name W a) d v = Some (answer (P (content d) (addr_name W a)), d', v)" "same_data d d'"
    using assms(1-3) unfolding name_law_def by blast
  show ?thesis
  proof (cases "aw_fqdncache W a = None \<and> av_state v k = ACL_LOOKUP_NONE")
    case True
    then show ?thesis using assms(3,5,6) by (auto simp: match_fqdn_def need_lookup_def match_ok_def clock_ok_def)
  next
    case False
    then have "match_fqdn W k a m d v = m (addr_name W a) d v" by (auto simp: match_fqdn_def addr_name_def split: option.splits)
    then show ?thesis using m assms(5) by (auto intro!: match_okI)
  qed
qed

lemma match_host_law:
  assumes "name_law K P m" "K d" "acl_data_ok d" "names_ok W ck" "clock_ok W v" "ck_request ck = Some r"
  shows "match_ok W ck d v (\<exists>h \<in> set (host_names W (r_host r)). P (content d) h) (match_host W (r_host r) m d v)"
proof -
  have "undots (r_host r) \<noteq> []" using assms(4,6) by (simp add: names_ok_def)
  then obtain d' where m: "m (r_host r) d v = Some (answer (P (content d) (r_host r)), d', v)" "same_data d d'" "K d'"
    using assms(1-3) unfolding name_law_def by blast
  show ?thesis
  proof (cases "P (content d) (r_host r)")
    case True
    then have "match_host W (r_host r) m d v = Some (1, d', v)" using m(1) by (simp add: match_host_def answer_def)
    then show ?thesis using True m(2) assms(5) by (auto intro!: match_okI simp: host_names_def answer_def)
  next
    case False
    show ?thesis
    proof (cases "aw_numeric W (r_host r)")
      case None
      then have "match_host W (r_host r) m d v = Some (0, d', v)" using m(1) False by (simp add: match_host_def answer_def)
      then show ?thesis using False None m(2) assms(5) by (auto intro!: match_okI simp: host_names_def answer_def)
    next
      case (Some a)
      then have e: "match_host W (r_host r) m d v = match_fqdn W ACL_DST_DOMAIN a m d' v" using m(1) False by (simp add: match_host_def answer_def)
      have c: "content d' = content d" "acl_data_ok d'" using m(2) by (simp_all add: same_data_def)
      have "match_ok W ck d' v (P (content d') (addr_name W a)) (match_fqdn W ACL_DST_DOMAIN a m d' v)"
        by (rule match_fqdn_law [OF assms(1) m(3) c(2) assms(4,5)]) (use assms(6) Some in auto)
      then show ?thesis unfolding e using False Some c by (simp add: match_ok_def host_names_def same_data_def)
    qed
  qed
qed

lemma ok_of_type: "acl_ok a \<Longrightarrow> data_of_type (acl_type a) (acl_data a)" "acl_ok a \<Longrightarrow> acl_data_ok (acl_data a)"
  by (simp_all add: acl_ok_def)

lemma match_request_law:
  assumes "data_of_type ty d" "acl_data_ok d" "names_ok W ck" "clock_ok W v" "ck_request ck = Some r"
    "ty \<notin> {ACL_SRC_IP, ACL_MY_IP, ACL_SRC_DOMAIN, ACL_SRC_DOM_REGEX, ACL_TIME, ACL_MAXCONN, ACL_MY_PORT, ACL_MY_PORT_NAME, ACL_SRC_ASN}"
  shows "match_ok W ck d v (request_holds W ck r ty (content d)) (match_request W ck r ty d v)"
proof -
  have direct: "match_ok W ck d v b res" if "\<exists>d'. res = Some (answer b, d', v) \<and> same_data d d'" for b res
    using that assms(4) by (auto intro!: match_okI)
  have rx: "match_ok W ck d v (regex_in W (content d) w) (match_regex W w d v)" if "\<exists>l. d = RegexData l" for w
    using that match_regex_law [of d _ W w v] by (intro direct) blast
  have wd: "match_ok W ck d v (word_in (content d) g) (match_word g d v)" if "\<exists>l. d = WordData l" for g
    using that assms(2) by (intro direct) (auto simp: match_word_def word_in_def aclMatchWordList_def list_ex_iff)
  have no: "match_ok W ck d v False (Some (0, d, v))" using assms(2) by (intro direct) (simp add: answer_def)
  have lk: "match_ok W ck d v b (need_lookup k d v)" if "k \<in> {ACL_DST_IP, ACL_DST_ASN}" "av_state v k = ACL_LOOKUP_NONE" for b k
    using that assms(2,4,5) by (auto simp: match_ok_def need_lookup_def clock_ok_def)
  show ?thesis
  proof (cases ty)
    case ACL_DST_IP
    then have t: "\<exists>t. d = IpData t" using assms(1) by (simp add: data_of_type_def)
    show ?thesis
    proof (cases "aw_ipcache W (r_host r)")
      case None
      then show ?thesis using no lk [of ACL_DST_IP] ACL_DST_IP by (simp add: match_request_def request_holds_def)
    next
      case (Some ia)
      then show ?thesis using match_ip_any_law [OF assms(2) t, of ia v] direct ACL_DST_IP by (simp add: match_request_def request_holds_def)
    qed
  next
    case ACL_DST_DOMAIN
    then show ?thesis using match_host_law [OF name_law_domain _ assms(2-5)] assms(1)
      by (simp add: match_request_def request_holds_def data_of_type_def)
  next
    case ACL_DST_DOM_REGEX
    then show ?thesis using match_host_law [OF name_law_regex _ assms(2-5)] assms(1)
      by (simp add: match_request_def request_holds_def data_of_type_def)
  next
    case ACL_URL_PORT
    then show ?thesis using match_port_law [of d _ "r_port r" v] direct assms(1)
      by (auto simp: match_request_def request_holds_def data_of_type_def)
  next
    case ACL_TYPE
    then show ?thesis using direct assms(1,2) by (auto simp: match_request_def request_holds_def data_of_type_def)
  next
    case ACL_PROTO
    then show ?thesis using match_int_law [of d _ _ v] direct assms(1) by (auto simp: match_request_def request_holds_def data_of_type_def)
  next
    case ACL_METHOD
    then show ?thesis using match_int_law [of d _ _ v] direct assms(1) by (auto simp: match_request_def request_holds_def data_of_type_def)
  next
    case ACL_DST_ASN
    then obtain l where l: "d = IntData l" using assms(1) by (auto simp: data_of_type_def)
    show ?thesis
    proof (cases "aw_ipcache W (r_host r)")
      case None
      then show ?thesis using direct lk [of ACL_DST_ASN] l ACL_DST_ASN by (simp add: match_request_def request_holds_def)
    next
      case (Some ia)
      then show ?thesis using direct l ACL_DST_ASN by (simp add: match_request_def request_holds_def list_ex_iff)
    qed
  next
    case ACL_REP_MIME_TYPE
    then show ?thesis using rx no assms(1) by (auto simp: match_request_def request_holds_def data_of_type_def split: option.splits)
  next
    case ACL_URLGROUP
    then show ?thesis using wd no assms(1) by (auto simp: match_request_def request_holds_def data_of_type_def split: option.splits)
  qed (use rx assms(1,6) in \<open>simp_all add: match_request_def request_holds_def data_of_type_def\<close>)
qed

text \<open>Every type that needs no helper is matched as it is meant.\<close>

lemma aclMatchAcl_law:
  assumes "acl_ok a" "names_ok W ck" "clock_ok W v" "acl_type a = ACL_URLGROUP \<longrightarrow> ck_request ck \<noteq> None"
  shows "match_ok W ck (acl_data a) v (acl_holds W ck a) (aclMatchAcl W ck a v)"
proof -
  define d ty where "d = acl_data a" and "ty = acl_type a"
  have d: "data_of_type ty d" "acl_data_ok d" using ok_of_type [OF assms(1)] by (simp_all add: d_def ty_def)
  have nh: "ty \<notin> set helper_types" "ty \<noteq> ACL_NONE" "ty \<noteq> ACL_ENUM_MAX"
    using d(1) by (auto simp: helper_types_def data_of_type_def)
  have direct: "match_ok W ck d v b res" if "\<exists>d'. res = Some (answer b, d', v) \<and> same_data d d'" for b res
    using that assms(3) by (auto intro!: match_okI)
  have e: "\<lparr>acl_name = acl_name a, acl_type = ty, acl_data = d\<rparr> = a" by (simp add: d_def ty_def)
  have ex_same: "\<exists>d'. res = Some (answer b, d', v) \<and> same_data d d'"
    if "\<exists>d'. res = Some (answer b, d', v) \<and> same_data d d' \<and> (\<exists>t. d' = IpData t)" for b res using that by blast
  let ?a = "\<lparr>acl_name = acl_name a, acl_type = ty, acl_data = d\<rparr>"
  note defs = acl_holds_def aclMatchAcl_def needs_request_def helper_types_def
  have one: "acl_holds W ck ?a = ip_in (content d) (ck_src_addr ck)" "aclMatchAcl W ck ?a v = match_ip (ck_src_addr ck) d v"
    if "ty = ACL_SRC_IP" using that by (simp_all add: defs)
  have two: "acl_holds W ck ?a = ip_in (content d) (ck_my_addr ck)" "aclMatchAcl W ck ?a v = match_ip (ck_my_addr ck) d v"
    if "ty = ACL_MY_IP" using that by (simp_all add: defs)
  have three: "acl_holds W ck ?a = domain_in (content d) (addr_name W (ck_src_addr ck))"
    "aclMatchAcl W ck ?a v = match_fqdn W ACL_SRC_DOMAIN (ck_src_addr ck) match_domain d v"
    if "ty = ACL_SRC_DOMAIN" using that by (simp_all add: defs)
  have four: "acl_holds W ck ?a = regex_in W (content d) (Some (addr_name W (ck_src_addr ck)))"
    "aclMatchAcl W ck ?a v = match_fqdn W ACL_SRC_DOMAIN (ck_src_addr ck) (\<lambda>h. match_regex W (Some h)) d v"
    if "ty = ACL_SRC_DOM_REGEX" using that by (simp_all add: defs)
  have seven: "acl_holds W ck ?a = port_in (content d) (ck_my_port ck)" "aclMatchAcl W ck ?a v = match_port (ck_my_port ck) d v"
    if "ty = ACL_MY_PORT" using that by (simp_all add: defs)
  have "match_ok W ck d v (acl_holds W ck ?a) (aclMatchAcl W ck ?a v)"
  proof (cases "ty \<in> {ACL_SRC_IP, ACL_MY_IP, ACL_SRC_DOMAIN, ACL_SRC_DOM_REGEX, ACL_TIME, ACL_MAXCONN, ACL_MY_PORT, ACL_MY_PORT_NAME, ACL_SRC_ASN}")
    case True
    then consider "ty = ACL_SRC_IP" | "ty = ACL_MY_IP" | "ty = ACL_SRC_DOMAIN" | "ty = ACL_SRC_DOM_REGEX" | "ty = ACL_TIME" | "ty = ACL_MAXCONN"
      | "ty = ACL_MY_PORT" | "ty = ACL_MY_PORT_NAME" | "ty = ACL_SRC_ASN" by blast
    then show ?thesis
    proof cases
      case 1
      have "\<exists>t. d = IpData t" using d(1) unfolding 1 by (simp add: data_of_type_def)
      then obtain t where t: "d = IpData t" by (elim exE)
      show ?thesis unfolding one [OF 1] using direct [OF ex_same [OF match_ip_law [OF d(2) t]]] .
    next
      case 2
      have "\<exists>t. d = IpData t" using d(1) unfolding 2 by (simp add: data_of_type_def)
      then obtain t where t: "d = IpData t" by (elim exE)
      show ?thesis unfolding two [OF 2] using direct [OF ex_same [OF match_ip_law [OF d(2) t]]] .
    next
      case 3
      then have k: "\<exists>t. d = DomainData t" using d(1) by (simp add: data_of_type_def)
      show ?thesis unfolding three [OF 3] by (rule match_fqdn_law [OF name_law_domain k d(2) assms(2,3) disjI1 [OF refl]])
    next
      case 4
      then have k: "\<exists>t. d = RegexData t" using d(1) by (simp add: data_of_type_def)
      show ?thesis unfolding four [OF 4] by (rule match_fqdn_law [OF name_law_regex k d(2) assms(2,3) disjI1 [OF refl]])
    next
      case 5
      have "\<exists>l. d = TimeData l" using d(1) unfolding 5 by (simp add: data_of_type_def)
      then obtain l where l: "d = TimeData l" by (elim exE)
      define c where "c = (if aw_curtime W \<noteq> fst (av_clock v) then (aw_curtime W, aw_localtime W (aw_curtime W)) else av_clock v)"
      have c: "c = (aw_curtime W, aw_localtime W (aw_curtime W))" using assms(3) by (cases "av_clock v") (auto simp: c_def clock_ok_def)
      have ne: "l \<noteq> []" using d(2) l by simp
      have h: "acl_holds W ck ?a = time_in W (CTime l)" by (simp add: 5 l defs)
      have m: "aclMatchAcl W ck ?a v = Some (answer (time_in W (CTime l)), d, v\<lparr>av_clock := c\<rparr>)"
        using ne by (simp add: 5 l defs aclMatchTime_def c_def [symmetric] c case_prod_beta Let_def time_in_def list_ex_iff)
      have "clock_ok W (v\<lparr>av_clock := c\<rparr>)" using c assms(3) by (simp add: clock_ok_def)
      then show ?thesis unfolding h m match_ok_def using d(2)
        by (intro exI [of _ "answer (time_in W (CTime l))"] exI [of _ d] exI [of _ "v\<lparr>av_clock := c\<rparr>"]) simp
    next
      case 6
      have "\<exists>i l. d = IntData (i # l)" using d(1) unfolding 6 by (simp add: data_of_type_def)
      then obtain i l where l: "d = IntData (i # l)" by (elim exE)
      show ?thesis by (rule direct) (simp add: 6 l acl_holds_def aclMatchAcl_def needs_request_def helper_types_def)
    next
      case 7
      have "\<exists>l. d = RangeData l" using d(1) unfolding 7 by (simp add: data_of_type_def)
      then obtain l where l: "d = RangeData l" by (elim exE)
      show ?thesis unfolding seven [OF 7] using direct [OF match_port_law [OF l]] .
    next
      case 8
      have "\<exists>l. d = WordData l" using d(1) unfolding 8 by (simp add: data_of_type_def)
      then obtain l where l: "d = WordData l" by (elim exE)
      show ?thesis by (rule direct, cases "ck_port_name ck")
        (simp_all add: 8 l acl_holds_def aclMatchAcl_def needs_request_def helper_types_def match_word_def word_in_def
            aclMatchWordList_def list_ex_iff answer_def)
    next
      case 9
      have "\<exists>l. d = IntData l" using d(1) unfolding 9 by (simp add: data_of_type_def)
      then obtain l where l: "d = IntData l" by (elim exE)
      show ?thesis by (rule direct) (simp add: 9 l acl_holds_def aclMatchAcl_def needs_request_def helper_types_def)
    qed
  next
    case False
    show ?thesis
    proof (cases "ck_request ck")
      case None
      then have "needs_request ty" using d(1) False assms(4) by (auto simp: data_of_type_def needs_request_def ty_def split: if_splits)
      then show ?thesis using None False d(2) direct by (simp add: acl_holds_def aclMatchAcl_def answer_def)
    next
      case (Some r)
      have "acl_holds W ck \<lparr>acl_name = acl_name a, acl_type = ty, acl_data = d\<rparr> = request_holds W ck r ty (content d)"
        "aclMatchAcl W ck \<lparr>acl_name = acl_name a, acl_type = ty, acl_data = d\<rparr> v = match_request W ck r ty d v"
        using False nh Some by (simp_all add: acl_holds_def aclMatchAcl_def Let_def)
      then show ?thesis using match_request_law [OF d assms(2,3) Some False] by simp
    qed
  qed
  then show ?thesis unfolding e unfolding d_def .
qed

end
