(* ===== verification/AclCheck.thy ===== *)
theory AclCheck
  imports AclRules
begin

section \<open>The verdict of the access rules (acl.c)\<close>

text \<open>
  The contract of \<open>aclCheckFast\<close> and \<open>aclCheck\<close>: the first rule all of whose conditions hold decides, and if none
  does, the opposite of the last rule. The laws of the single conditions are those of \<open>AclRules\<close>; here they are
  carried over lists of conditions and rules, through the rearrangement of the data by matching and through the
  lookups that a check asks for. The conditions are those of types that need neither a helper nor credentials.
\<close>

subsection \<open>What evaluation keeps\<close>

text \<open>An \<open>acl\<close> keeps its name and type, and what its data stand for.\<close>

definition acl_same :: "acl \<Rightarrow> acl \<Rightarrow> bool" where
  "acl_same a a' \<longleftrightarrow> acl_name a' = acl_name a \<and> acl_type a' = acl_type a \<and> (acl_ok a \<longrightarrow> same_data (acl_data a) (acl_data a'))"

definition acls_same :: "acls \<Rightarrow> acls \<Rightarrow> bool" where
  "acls_same m m' \<longleftrightarrow> (\<forall>p. rel_option acl_same (m p) (m' p))"

lemma acl_same_refl: "acl_same a a"
  by (simp add: acl_same_def acl_ok_def)

lemma acl_same_ok: "acl_same a a' \<Longrightarrow> acl_ok a \<Longrightarrow> acl_ok a'"
  using data_of_type_content [of "acl_data a'" "acl_data a"] by (simp add: acl_same_def acl_ok_def same_data_def)

lemma acl_same_trans:
  assumes "acl_same a b" "acl_same b c"
  shows "acl_same a c"
proof -
  have "same_data (acl_data a) (acl_data c)" if "acl_ok a"
  proof -
    have "acl_ok b" by (rule acl_same_ok [OF assms(1) that])
    then show ?thesis using assms that same_data_trans unfolding acl_same_def by blast
  qed
  then show ?thesis using assms by (simp add: acl_same_def)
qed

lemma acls_same_self: "acls_same m m"
  by (simp add: acls_same_def acl_same_refl option.rel_refl)

lemma acls_same_trans: "acls_same m m' \<Longrightarrow> acls_same m' m'' \<Longrightarrow> acls_same m m''"
  unfolding acls_same_def
proof
  fix p
  assume "\<forall>p. rel_option acl_same (m p) (m' p)" "\<forall>p. rel_option acl_same (m' p) (m'' p)"
  then have "rel_option acl_same (m p) (m' p)" "rel_option acl_same (m' p) (m'' p)" by blast+
  then show "rel_option acl_same (m p) (m'' p)"
    by (cases "m p"; cases "m' p"; cases "m'' p") (auto intro: acl_same_trans)
qed

lemma acls_same_upd: "m p = Some a \<Longrightarrow> acl_same a a' \<Longrightarrow> acls_same m (m(p \<mapsto> a'))"
  by (simp add: acls_same_def acl_same_refl option.rel_refl)

subsection \<open>Rules\<close>

definition conditions_ok :: "aclCheck_t \<Rightarrow> acls \<Rightarrow> acl_list list \<Rightarrow> bool" where
  "conditions_ok ck m ls \<longleftrightarrow> (\<forall>l \<in> set ls. \<exists>a. m (al_acl l) = Some a \<and> acl_ok a \<and> (acl_type a = ACL_URLGROUP \<longrightarrow> ck_request ck \<noteq> None))"

definition rules_ok :: "aclCheck_t \<Rightarrow> acls \<Rightarrow> acl_access list \<Rightarrow> bool" where
  "rules_ok ck m As \<longleftrightarrow> (\<forall>A \<in> set As. conditions_ok ck m (aa_acl_list A))"

text \<open>A rule holds if each of its conditions comes to what is expected.\<close>

definition rule_holds :: "acl_world \<Rightarrow> aclCheck_t \<Rightarrow> acls \<Rightarrow> acl_list list \<Rightarrow> bool" where
  "rule_holds W ck m ls \<longleftrightarrow> (\<forall>l \<in> set ls. answer (acl_holds W ck (the (m (al_acl l)))) = al_op l)"

lemma acls_same_ok:
  assumes "acls_same m m'" "m p = Some a" "acl_ok a"
  shows "\<exists>a'. m' p = Some a' \<and> acl_ok a' \<and> acl_type a' = acl_type a \<and> acl_holds W ck a' = acl_holds W ck a"
proof -
  have "rel_option acl_same (m p) (m' p)" using assms(1) by (simp add: acls_same_def)
  then obtain a' where a': "m' p = Some a'" "acl_same a a'" using assms(2) by (cases "m' p") auto
  have "acl_holds W ck a' = acl_holds W ck a"
    using a'(2) assms(3) by (intro acl_holds_content) (simp_all add: acl_same_def same_data_def)
  with a' acl_same_ok [OF a'(2) assms(3)] show ?thesis by (simp add: acl_same_def)
qed

lemma conditions_same:
  assumes "acls_same m m'" "conditions_ok ck m ls"
  shows "conditions_ok ck m' ls" "rule_holds W ck m' ls = rule_holds W ck m ls"
proof -
  have l: "\<exists>a a'. m (al_acl l) = Some a \<and> m' (al_acl l) = Some a' \<and> acl_ok a' \<and> acl_holds W ck a' = acl_holds W ck a \<and>
      (acl_type a' = ACL_URLGROUP \<longrightarrow> ck_request ck \<noteq> None)" if lm: "l \<in> set ls" for l
  proof -
    obtain a where a: "m (al_acl l) = Some a" "acl_ok a" "acl_type a = ACL_URLGROUP \<longrightarrow> ck_request ck \<noteq> None"
      using assms(2) lm unfolding conditions_ok_def by blast
    from acls_same_ok [OF assms(1) a(1,2), of W ck] a show ?thesis by auto
  qed
  then show "conditions_ok ck m' ls" unfolding conditions_ok_def by meson
  have "acl_holds W ck (the (m' (al_acl l))) = acl_holds W ck (the (m (al_acl l)))" if "l \<in> set ls" for l
    using l [OF that] by auto
  then show "rule_holds W ck m' ls = rule_holds W ck m ls" unfolding rule_holds_def by simp
qed

text \<open>What evaluation may do to the states: ask for lookups that were not made.\<close>

definition dns_lookups :: "squid_acl set" where
  "dns_lookups = {ACL_DST_IP, ACL_DST_ASN, ACL_SRC_DOMAIN, ACL_DST_DOMAIN}"

definition may_ask :: "acl_world \<Rightarrow> aclCheck_t \<Rightarrow> squid_acl \<Rightarrow> bool" where
  "may_ask W ck k \<longleftrightarrow> k \<in> dns_lookups \<and> (k = ACL_DST_DOMAIN \<longrightarrow> (\<exists>r. ck_request ck = Some r \<and> aw_numeric W (r_host r) \<noteq> None))"

definition asked :: "acl_world \<Rightarrow> aclCheck_t \<Rightarrow> acl_vars \<Rightarrow> acl_vars \<Rightarrow> bool" where
  "asked W ck v v' \<longleftrightarrow> (\<forall>k. av_state v' k = av_state v k \<or>
     av_state v k = ACL_LOOKUP_NONE \<and> av_state v' k = ACL_LOOKUP_NEEDED \<and> may_ask W ck k)"

lemma asked_refl: "av_state v' = av_state v \<Longrightarrow> asked W ck v v'"
  by (simp add: asked_def)

lemma asked_trans: "asked W ck v v1 \<Longrightarrow> asked W ck v1 v2 \<Longrightarrow> asked W ck v v2"
  unfolding asked_def by (metis acl_lookup_state.distinct(1))

lemma asked_between: "asked W ck v v1 \<Longrightarrow> asked W ck v1 v2 \<Longrightarrow> av_state v2 = av_state v \<Longrightarrow> av_state v1 = av_state v"
  unfolding asked_def by (metis acl_lookup_state.distinct(1) ext)

lemma aclMatchAclList_law:
  assumes "conditions_ok ck m ls" "names_ok W ck" "clock_ok W v"
  shows "\<exists>b m' v'. aclMatchAclList W ck ls m v = Some (answer b, m', v') \<and> acls_same m m' \<and> clock_ok W v' \<and> asked W ck v v' \<and>
    (av_state v' = av_state v \<longrightarrow> b = rule_holds W ck m ls)"
  using assms
proof (induction ls arbitrary: m v)
  case Nil
  have "rule_holds W ck m []" by (simp add: rule_holds_def)
  then show ?case using acls_same_self Nil.prems(3) by (auto simp: answer_def asked_refl intro!: exI [of _ True])
next
  case (Cons l ls)
  let ?v = "v\<lparr>av_current_acl := Some (al_acl l)\<rparr>"
  obtain a where a: "m (al_acl l) = Some a" "acl_ok a" "acl_type a = ACL_URLGROUP \<longrightarrow> ck_request ck \<noteq> None"
    using Cons.prems(1) unfolding conditions_ok_def by (meson list.set_intros(1))
  have cv: "clock_ok W ?v" using Cons.prems(3) by (simp add: clock_ok_def)
  obtain r d v1 where m1: "aclMatchAcl W ck a ?v = Some (r, d, v1)" "same_data (acl_data a) d" "clock_ok W v1"
    and st: "av_state v1 = av_state v \<and> r = answer (acl_holds W ck a) \<or>
      (\<exists>k \<in> dns_lookups. av_state v k = ACL_LOOKUP_NONE \<and> av_state v1 = (av_state v)(k := ACL_LOOKUP_NEEDED) \<and> r = 0 \<and>
        (k = ACL_DST_DOMAIN \<longrightarrow> (\<exists>r. ck_request ck = Some r \<and> aw_numeric W (r_host r) \<noteq> None)))"
    using aclMatchAcl_law [OF a(2) Cons.prems(2) cv a(3)] unfolding match_ok_def dns_lookups_def by fastforce
  define m' where "m' = m(al_acl l \<mapsto> a\<lparr>acl_data := d\<rparr>)"
  have same: "acls_same m m'" unfolding m'_def
    using acls_same_upd [of m "al_acl l" a "a\<lparr>acl_data := d\<rparr>"] a(1) m1(2) by (simp add: acl_same_def)
  have ask: "asked W ck v v1" using st by (auto simp: asked_def may_ask_def split: if_splits)
  have hd: "av_state v1 = av_state v \<Longrightarrow> r = answer (acl_holds W ck a)" using st by (metis acl_lookup_state.distinct(1) fun_upd_same)
  have r01: "\<exists>b. r = answer b" using st by (metis answer_def)
  show ?case
  proof (cases "r = al_op l")
    case False
    then have e: "aclMatchAclList W ck (l # ls) m v = Some (answer False, m', v1)" using a(1) m1(1) by (simp add: m'_def answer_def)
    have "av_state v1 = av_state v \<Longrightarrow> \<not> rule_holds W ck m (l # ls)" using hd False a(1) by (auto simp: rule_holds_def)
    then show ?thesis using e same m1(3) ask by blast
  next
    case True
    have ok: "conditions_ok ck m ls" using Cons.prems(1) by (simp add: conditions_ok_def)
    from Cons.IH [OF conditions_same(1) [OF same ok] Cons.prems(2) m1(3)] obtain b m2 v2 where
      t: "aclMatchAclList W ck ls m' v1 = Some (answer b, m2, v2)" "acls_same m' m2" "clock_ok W v2" "asked W ck v1 v2"
      "av_state v2 = av_state v1 \<longrightarrow> b = rule_holds W ck m' ls" by blast
    have e: "aclMatchAclList W ck (l # ls) m v = Some (answer b, m2, v2)" using a(1) m1(1) True t(1) by (simp add: m'_def)
    have "b = rule_holds W ck m (l # ls)" if eq: "av_state v2 = av_state v"
    proof -
      have "av_state v1 = av_state v" by (rule asked_between [OF ask t(4) eq])
      then have "r = answer (acl_holds W ck a)" "b = rule_holds W ck m' ls" using hd t(5) eq by simp_all
      then show ?thesis using True a(1) conditions_same(2) [OF same ok, of W] by (simp add: rule_holds_def)
    qed
    then show ?thesis using e acls_same_trans [OF same t(2)] t(3) asked_trans [OF ask t(4)] by blast
  qed
qed

subsection \<open>The verdict\<close>

definition verdict_from :: "acl_world \<Rightarrow> aclCheck_t \<Rightarrow> acls \<Rightarrow> allow_t \<Rightarrow> acl_access list \<Rightarrow> allow_t" where
  "verdict_from W ck m allow As =
     (case List.find (\<lambda>A. rule_holds W ck m (aa_acl_list A)) As of
        Some A \<Rightarrow> aa_allow A
      | None \<Rightarrow> no_match (if As = [] then allow else aa_allow (last As)))"

definition verdict :: "acl_world \<Rightarrow> aclCheck_t \<Rightarrow> acls \<Rightarrow> acl_access list \<Rightarrow> allow_t" where
  "verdict W ck m As = verdict_from W ck m ACCESS_DENIED As"

lemma verdict_Nil [simp]: "verdict_from W ck m allow [] = no_match allow"
  by (simp add: verdict_from_def)

lemma verdict_Cons [simp]:
  "verdict_from W ck m allow (A # As) =
     (if rule_holds W ck m (aa_acl_list A) then aa_allow A else verdict_from W ck m (aa_allow A) As)"
  by (cases As) (simp_all add: verdict_from_def split: option.split)

lemma verdict_start: "As \<noteq> [] \<Longrightarrow> verdict_from W ck m allow As = verdict_from W ck m allow' As"
  by (cases As) simp_all

lemma rules_same: "acls_same m m' \<Longrightarrow> rules_ok ck m As \<Longrightarrow> rules_ok ck m' As"
  using conditions_same(1) unfolding rules_ok_def by blast

lemma verdict_same: "acls_same m m' \<Longrightarrow> rules_ok ck m As \<Longrightarrow> verdict_from W ck m' allow As = verdict_from W ck m allow As"
proof (induction As arbitrary: allow)
  case (Cons A As)
  have "conditions_ok ck m (aa_acl_list A)" "rules_ok ck m As" using Cons.prems(2) by (simp_all add: rules_ok_def)
  then show ?case using Cons.IH [OF Cons.prems(1)] conditions_same(2) [OF Cons.prems(1)] by simp
qed simp

lemma check_fast_law:
  assumes "rules_ok ck m As" "names_ok W ck" "clock_ok W v"
  shows "\<exists>b m' v'. check_fast W ck allow As m v = Some (b, m', v') \<and> acls_same m m' \<and> asked W ck v v' \<and>
    (av_state v' = av_state v \<longrightarrow> b = (verdict_from W ck m allow As = ACCESS_ALLOWED))"
  using assms
proof (induction As arbitrary: allow m v)
  case Nil
  have "check_fast W ck allow [] m v = Some (allow = ACCESS_DENIED, m, aclCheckCleanup v)" by simp
  moreover have "(allow = ACCESS_DENIED) = (verdict_from W ck m allow [] = ACCESS_ALLOWED)" by (simp add: no_match_def)
  moreover have "asked W ck v (aclCheckCleanup v)" by (simp add: asked_refl aclCheckCleanup_def)
  ultimately show ?case using acls_same_self by blast
next
  case (Cons A As)
  have ok: "conditions_ok ck m (aa_acl_list A)" "rules_ok ck m As" using Cons.prems(1) by (simp_all add: rules_ok_def)
  from aclMatchAclList_law [OF ok(1) Cons.prems(2,3)] obtain b m1 v1 where
    m: "aclMatchAclList W ck (aa_acl_list A) m v = Some (answer b, m1, v1)" "acls_same m m1" "clock_ok W v1" "asked W ck v v1"
      "av_state v1 = av_state v \<longrightarrow> b = rule_holds W ck m (aa_acl_list A)" by blast
  show ?case
  proof (cases b)
    case True
    then have "check_fast W ck allow (A # As) m v = Some (aa_allow A = ACCESS_ALLOWED, m1, aclCheckCleanup v1)"
      using m(1) by (simp add: answer_def)
    moreover have "asked W ck v (aclCheckCleanup v1)" using m(4) by (simp add: asked_def aclCheckCleanup_def)
    ultimately show ?thesis using m(2,5) True by (simp add: aclCheckCleanup_def)
  next
    case False
    then have e: "check_fast W ck allow (A # As) m v = check_fast W ck (aa_allow A) As m1 v1" using m(1) by (simp add: answer_def)
    from Cons.IH [OF rules_same [OF m(2) ok(2)] Cons.prems(2) m(3), of "aa_allow A"] obtain b2 m2 v2 where
      t: "check_fast W ck (aa_allow A) As m1 v1 = Some (b2, m2, v2)" "acls_same m1 m2" "asked W ck v1 v2"
        "av_state v2 = av_state v1 \<longrightarrow> b2 = (verdict_from W ck m1 (aa_allow A) As = ACCESS_ALLOWED)" by blast
    have "b2 = (verdict_from W ck m allow (A # As) = ACCESS_ALLOWED)" if eq: "av_state v2 = av_state v"
    proof -
      have s: "av_state v1 = av_state v" by (rule asked_between [OF m(4) t(3) eq])
      then have "\<not> rule_holds W ck m (aa_acl_list A)" using m(5) False by simp
      then show ?thesis using t(4) s eq verdict_same [OF m(2) ok(2)] by simp
    qed
    then show ?thesis using e t(1) acls_same_trans [OF m(2) t(2)] asked_trans [OF m(4) t(3)] by auto
  qed
qed

subsection \<open>Lookups\<close>

text \<open>The states that a check goes through when no helper is asked: only names and addresses are looked up.\<close>

definition lookups_ok :: "acl_world \<Rightarrow> aclCheck_t \<Rightarrow> acl_vars \<Rightarrow> bool" where
  "lookups_ok W ck v \<longleftrightarrow> (\<forall>k. k \<notin> dns_lookups \<longrightarrow> av_state v k = ACL_LOOKUP_NONE) \<and>
     (\<forall>k. av_state v k = ACL_LOOKUP_NEEDED \<longrightarrow> may_ask W ck k)"

text \<open>The lookups that were not made.\<close>

definition open_lookups :: "acl_vars \<Rightarrow> squid_acl set" where
  "open_lookups v = {k \<in> dns_lookups. av_state v k \<in> {ACL_LOOKUP_NONE, ACL_LOOKUP_NEEDED}}"

lemma asked_ok: "asked W ck v v1 \<Longrightarrow> lookups_ok W ck v \<Longrightarrow> lookups_ok W ck v1"
  unfolding asked_def lookups_ok_def may_ask_def by metis

lemma asked_none: "asked W ck v v1 \<Longrightarrow> \<forall>k. av_state v1 k \<noteq> ACL_LOOKUP_NEEDED \<Longrightarrow> av_state v1 = av_state v"
  unfolding asked_def by (metis ext)

lemma asked_open: "asked W ck v v1 \<Longrightarrow> open_lookups v1 = open_lookups v"
  unfolding asked_def open_lookups_def by (intro Collect_cong) (metis insert_iff)

lemma after_rule_needed:
  assumes "lookups_ok W ck v" "av_state v j = ACL_LOOKUP_NEEDED"
  shows "\<exists>k \<in> dns_lookups. av_state v k = ACL_LOOKUP_NEEDED \<and>
    after_rule W ck m v allow r = Some (Inl (Looking k), set_lookup k ACL_LOOKUP_PENDING v)"
proof -
  have "j \<in> dns_lookups" using assms by (auto simp: lookups_ok_def may_ask_def)
  then have some: "av_state v ACL_DST_IP = ACL_LOOKUP_NEEDED \<or> av_state v ACL_DST_ASN = ACL_LOOKUP_NEEDED \<or>
    av_state v ACL_SRC_DOMAIN = ACL_LOOKUP_NEEDED \<or> av_state v ACL_DST_DOMAIN = ACL_LOOKUP_NEEDED"
    using assms(2) by (auto simp: dns_lookups_def)
  have "\<exists>r. ck_request ck = Some r \<and> aw_numeric W (r_host r) \<noteq> None" if "av_state v ACL_DST_DOMAIN = ACL_LOOKUP_NEEDED"
    using assms(1) that unfolding lookups_ok_def may_ask_def by blast
  then show ?thesis using some unfolding after_rule_def lookup_is_def dns_lookups_def
    by (auto split: option.splits)
qed

lemma after_rule_settled:
  assumes "lookups_ok W ck v" "\<forall>k. av_state v k \<noteq> ACL_LOOKUP_NEEDED"
  shows "after_rule W ck m v allow r = Some (Inr (allow, r), v)"
proof -
  have "ACL_PROXY_AUTH \<notin> dns_lookups" by (simp add: dns_lookups_def)
  then have "av_state v ACL_PROXY_AUTH = ACL_LOOKUP_NONE" using assms(1) by (simp add: lookups_ok_def)
  then show ?thesis using assms(2) by (simp add: after_rule_def lookup_is_def)
qed

subsection \<open>A run of \<open>aclCheck\<close>\<close>

text \<open>A lookup that is started was not made before, and the check keeps its place in front of a rule that it will try again.\<close>

definition run_ends :: "acl_world \<Rightarrow> aclCheck_t \<Rightarrow> acls \<Rightarrow> acl_vars \<Rightarrow> allow_t \<Rightarrow> acl_access list \<Rightarrow> check_end \<times> acl_access list \<times> acls \<times> acl_vars \<Rightarrow> bool" where
  "run_ends W ck m v allow As res \<longleftrightarrow>
     (case res of (e, As', m', v') \<Rightarrow> acls_same m m' \<and> clock_ok W v' \<and>
        (case e of
           Answered a \<Rightarrow> a = verdict_from W ck m allow As
         | Looking k \<Rightarrow> k \<in> open_lookups v \<and> lookups_ok W ck (set_lookup k ACL_LOOKUP_DONE v') \<and>
             open_lookups (set_lookup k ACL_LOOKUP_DONE v') = open_lookups v - {k} \<and>
             As' \<noteq> [] \<and> set As' \<subseteq> set As \<and> verdict_from W ck m allow As' = verdict_from W ck m allow As
         | Lost \<Rightarrow> False))"

lemma check_rules_law:
  assumes "rules_ok ck m As" "names_ok W ck" "clock_ok W v" "lookups_ok W ck v"
  shows "\<exists>res. check_rules W True ck allow As m v = Some res \<and> run_ends W ck m v allow As res"
  using assms
proof (induction As arbitrary: allow m v)
  case Nil
  then show ?case using acls_same_self by (simp add: run_ends_def aclCheckCleanup_def clock_ok_def)
next
  case (Cons A As)
  have ok: "conditions_ok ck m (aa_acl_list A)" "rules_ok ck m As" using Cons.prems(1) by (simp_all add: rules_ok_def)
  from aclMatchAclList_law [OF ok(1) Cons.prems(2,3)] obtain b m1 v1 where
    m: "aclMatchAclList W ck (aa_acl_list A) m v = Some (answer b, m1, v1)" "acls_same m m1" "clock_ok W v1" "asked W ck v v1"
      "av_state v1 = av_state v \<longrightarrow> b = rule_holds W ck m (aa_acl_list A)" by blast
  have lo: "lookups_ok W ck v1" by (rule asked_ok [OF m(4) Cons.prems(4)])
  have r: "answer b \<noteq> - 1" by (simp add: answer_def)
  show ?case
  proof (cases "\<exists>j. av_state v1 j = ACL_LOOKUP_NEEDED")
    case True
    then obtain k where k: "k \<in> dns_lookups" "av_state v1 k = ACL_LOOKUP_NEEDED"
      "after_rule W ck m1 v1 (aa_allow A) (answer b) = Some (Inl (Looking k), set_lookup k ACL_LOOKUP_PENDING v1)"
      using after_rule_needed [OF lo] by blast
    have "check_rules W True ck allow (A # As) m v = Some (Looking k, A # As, m1, set_lookup k ACL_LOOKUP_PENDING v1)"
      using m(1) r k(3) by (simp add: Let_def)
    moreover have "lookups_ok W ck (set_lookup k ACL_LOOKUP_DONE (set_lookup k ACL_LOOKUP_PENDING v1))"
      using lo k(1) by (auto simp: lookups_ok_def set_lookup_def)
    moreover have "open_lookups (set_lookup k ACL_LOOKUP_DONE (set_lookup k ACL_LOOKUP_PENDING v1)) = open_lookups v1 - {k}"
      by (auto simp: open_lookups_def set_lookup_def)
    moreover have "k \<in> open_lookups v1" using k(1,2) by (simp add: open_lookups_def)
    moreover have "clock_ok W (set_lookup k ACL_LOOKUP_PENDING v1)" using m(3) by (simp add: clock_ok_def set_lookup_def)
    ultimately show ?thesis using m(2) asked_open [OF m(4)] by (simp add: run_ends_def)
  next
    case False
    then have f: "\<forall>j. av_state v1 j \<noteq> ACL_LOOKUP_NEEDED" by blast
    have s: "av_state v1 = av_state v" by (rule asked_none [OF m(4) f])
    then have bh: "b = rule_holds W ck m (aa_acl_list A)" using m(5) by simp
    note a = after_rule_settled [OF lo f, of m1 "aa_allow A" "answer b"]
    show ?thesis
    proof (cases b)
      case True
      have "check_rules W True ck allow (A # As) m v = Some (Answered (aa_allow A), [], m1, aclCheckCleanup v1)"
        using m(1) r a True by (simp add: Let_def answer_def)
      then show ?thesis using m(2,3) bh True by (simp add: run_ends_def aclCheckCleanup_def clock_ok_def)
    next
      case False
      have e: "check_rules W True ck allow (A # As) m v = check_rules W True ck (aa_allow A) As m1 v1"
        using m(1) r a False by (simp add: Let_def answer_def)
      from Cons.IH [OF rules_same [OF m(2) ok(2)] Cons.prems(2) m(3) lo, of "aa_allow A"] obtain en As' m2 v2 where
        t: "check_rules W True ck (aa_allow A) As m1 v1 = Some (en, As', m2, v2)" "run_ends W ck m1 v1 (aa_allow A) As (en, As', m2, v2)" by auto
      have vs: "verdict_from W ck m1 al As = verdict_from W ck m al As" for al by (rule verdict_same [OF m(2) ok(2)])
      have vs': "verdict_from W ck m1 al As' = verdict_from W ck m al As'" if "set As' \<subseteq> set As" for al
        using that ok(2) by (intro verdict_same [OF m(2)]) (auto simp: rules_ok_def)
      have o: "open_lookups v1 = open_lookups v" by (rule asked_open [OF m(4)])
      have nb: "\<not> rule_holds W ck m (aa_acl_list A)" using bh False by simp
      have "run_ends W ck m v allow (A # As) (en, As', m2, v2)"
      proof (cases en)
        case (Answered x)
        then show ?thesis using t(2) acls_same_trans [OF m(2)] vs nb by (simp add: run_ends_def)
      next
        case (Looking k)
        then have l: "acls_same m1 m2" "clock_ok W v2" "k \<in> open_lookups v1" "lookups_ok W ck (set_lookup k ACL_LOOKUP_DONE v2)"
          "open_lookups (set_lookup k ACL_LOOKUP_DONE v2) = open_lookups v1 - {k}" "As' \<noteq> []" "set As' \<subseteq> set As"
          "verdict_from W ck m1 (aa_allow A) As' = verdict_from W ck m1 (aa_allow A) As" using t(2) by (simp_all add: run_ends_def)
        have "verdict_from W ck m allow As' = verdict_from W ck m allow (A # As)"
          using l(8) vs vs' [OF l(7)] nb verdict_start [OF l(6), of W ck m allow "aa_allow A"] by simp
        then show ?thesis using Looking l o acls_same_trans [OF m(2) l(1)] by (auto simp: run_ends_def)
      next
        case Lost
        then show ?thesis using t(2) by (simp add: run_ends_def)
      qed
      then show ?thesis using e t(1) by auto
    qed
  qed
qed

lemma verdict_ck: "verdict W (ck\<lparr>ck_access_list := As'\<rparr>) m As = verdict W ck m As"
proof -
  have "request_holds W (ck\<lparr>ck_access_list := As'\<rparr>) r ty c = request_holds W ck r ty c" for r ty c
    by (cases ty) (simp_all add: request_holds_def)
  then have "acl_holds W (ck\<lparr>ck_access_list := As'\<rparr>) a = acl_holds W ck a" for a
    by (cases "content (acl_data a)"; cases "ck_request ck"; cases "ck_port_name ck") (simp_all add: acl_holds_def Let_def)
  then show ?thesis by (simp add: verdict_def verdict_from_def rule_holds_def)
qed

text \<open>C19: The access rules decide as they are written. All conditions are of types that need neither a helper nor
  credentials, with sound data; no name that is matched consists of dots only; the addresses of the check are set, the
  clock variables of \<open>aclMatchTime\<close> are consistent, and of the lookups only those of names and addresses were started.
  Then \<open>aclCheckFast\<close>, if it meets no name or address that would have to be looked up, says
  yes exactly if the verdict is to allow: the first rule all of whose conditions come to what it expects decides, or,
  if there is none, the opposite of the last rule. And a call of \<open>aclCheck\<close>, the rules being valid, either answers with the
  verdict, or starts one of the four lookups, which was not made before, and stops in front of a rule, from which on the
  verdict is the same, in a state in which it can be called again: so it is called at most five times.\<close>
theorem aclCheck_decides:
  assumes "rules_ok ck m (ck_access_list ck)" "names_ok W ck" "clock_ok W v" "lookups_ok W ck v" "aclChecklistCacheInit ck = ck"
  shows "(\<exists>yes m' v'. aclCheckFast W (ck_access_list ck) ck m v = Some (yes, m', v') \<and> acls_same m m' \<and>
      (av_state v' = av_state v \<longrightarrow> yes = (verdict W ck m (ck_access_list ck) = ACCESS_ALLOWED))) \<and>
    (\<exists>e ck' m' v'. aclCheck W True ck m v = Some (e, ck', m', v') \<and> acls_same m m' \<and>
      (case e of
         Answered a \<Rightarrow> a = verdict W ck m (ck_access_list ck)
       | Looking k \<Rightarrow> k \<in> open_lookups v \<and> open_lookups (set_lookup k ACL_LOOKUP_DONE v') = open_lookups v - {k} \<and>
           lookups_ok W ck' (set_lookup k ACL_LOOKUP_DONE v') \<and> clock_ok W v' \<and> rules_ok ck' m' (ck_access_list ck') \<and>
           verdict W ck' m' (ck_access_list ck') = verdict W ck m (ck_access_list ck)
       | Lost \<Rightarrow> False))"
proof (rule conjI)
  show "\<exists>yes m' v'. aclCheckFast W (ck_access_list ck) ck m v = Some (yes, m', v') \<and> acls_same m m' \<and>
      (av_state v' = av_state v \<longrightarrow> yes = (verdict W ck m (ck_access_list ck) = ACCESS_ALLOWED))"
    using check_fast_law [OF assms(1-3), of ACCESS_DENIED] unfolding aclCheckFast_def assms(5) verdict_def by blast
next
  let ?As = "ck_access_list ck"
  from check_rules_law [OF assms(1-4), of ACCESS_DENIED] obtain e As' m' v' where
    r: "check_rules W True ck ACCESS_DENIED ?As m v = Some (e, As', m', v')" "run_ends W ck m v ACCESS_DENIED ?As (e, As', m', v')" by auto
  let ?ck = "ck\<lparr>ck_access_list := As'\<rparr>"
  have c: "aclCheck W True ck m v = Some (e, ?ck, m', v')" using r(1) by (simp add: aclCheck_def)
  have s: "acls_same m m'" using r(2) by (simp add: run_ends_def)
  show "\<exists>e ck' m' v'. aclCheck W True ck m v = Some (e, ck', m', v') \<and> acls_same m m' \<and>
      (case e of
         Answered a \<Rightarrow> a = verdict W ck m (ck_access_list ck)
       | Looking k \<Rightarrow> k \<in> open_lookups v \<and> open_lookups (set_lookup k ACL_LOOKUP_DONE v') = open_lookups v - {k} \<and>
           lookups_ok W ck' (set_lookup k ACL_LOOKUP_DONE v') \<and> clock_ok W v' \<and> rules_ok ck' m' (ck_access_list ck') \<and>
           verdict W ck' m' (ck_access_list ck') = verdict W ck m (ck_access_list ck)
       | Lost \<Rightarrow> False)"
  proof (cases e)
    case (Answered a)
    then show ?thesis using c s r(2) by (simp add: run_ends_def verdict_def)
  next
    case (Looking k)
    then have l: "k \<in> open_lookups v" "lookups_ok W ck (set_lookup k ACL_LOOKUP_DONE v')"
      "open_lookups (set_lookup k ACL_LOOKUP_DONE v') = open_lookups v - {k}" "set As' \<subseteq> set ?As"
      "verdict_from W ck m ACCESS_DENIED As' = verdict_from W ck m ACCESS_DENIED ?As" using r(2) by (simp_all add: run_ends_def)
    have ro: "rules_ok ck m As'" using assms(1) l(4) by (auto simp: rules_ok_def)
    have lk: "lookups_ok W ?ck w = lookups_ok W ck w" for w by (simp add: lookups_ok_def may_ask_def)
    have rk: "rules_ok ?ck m' As' = rules_ok ck m' As'" by (simp add: rules_ok_def conditions_ok_def)
    have vk: "verdict W ?ck m' As' = verdict W ck m' As'" by (rule verdict_ck)
    have "verdict W ck m' As' = verdict W ck m ?As" using l(5) verdict_same [OF s ro] by (simp add: verdict_def)
    moreover have "clock_ok W v'" using r(2) by (simp add: run_ends_def)
    ultimately show ?thesis using c s Looking l(1-3) rules_same [OF s ro] lk rk vk by simp
  next
    case Lost
    then show ?thesis using r(2) by (simp add: run_ends_def)
  qed
qed

text \<open>A check that waits for a lookup when the configuration is read anew allows what it was asked about, although the
  comment in the code says that it is denied: the rules are gone, and the variable that holds the verdict of the last rule,
  still that of no rule, is inverted.\<close>
lemma reconfigured_check_allows:
  assumes "ck_access_list ck \<noteq> []"
  shows "\<exists>ck' v'. aclLookupDone k W False ck m v = Some (Answered ACCESS_ALLOWED, ck', m, v')"
  using assms by (cases "ck_access_list ck") (simp_all add: aclLookupDone_def aclCheck_def no_match_def)

text \<open>The lookups are done, a rule denies a domain, and the next one allows the ports of the web.\<close>

definition demo_acl_request :: acl_request where
  "demo_acl_request = \<lparr>r_method = METHOD_GET, r_protocol = PROTO_HTTP, r_login = [], r_host = ''www.evil.com'', r_port = 80,
     r_urlpath = ''/'', r_canonical = None, r_store_url = None, r_cache_control = None, r_nocache = False, r_nocache_hack = False,
     r_cachable = True, r_vary_headers = None, r_vary_encoding = None, r_vary = None, r_urlgroup = None, ar_accelerated = False,
     ar_transparent = False, ar_internal = False, ar_header = (\<lambda>h. None), ar_extacl_user = None, ar_client_addr = 1, ar_my_addr = 2,
     ar_my_port = 3128\<rparr>"

definition demo_acl_world :: acl_world where
  "demo_acl_world = \<lparr>aw_ipcache = (\<lambda>h. None), aw_fqdncache = (\<lambda>a. None), aw_established = (\<lambda>a. 0), aw_asn = (\<lambda>s a. False),
     aw_curtime = 1000, aw_localtime = (\<lambda>t. \<lparr>tm_hour = 0, tm_min = 16, tm_wday = 4\<rparr>), aw_numeric = (\<lambda>h. None),
     aw_regexec = (\<lambda>p w. False), aw_helper = (\<lambda>a st. (0, st))\<rparr>"

definition demo_acls :: acls where
  "demo_acls = [0 \<mapsto> \<lparr>acl_name = ''bad'', acl_type = ACL_DST_DOMAIN, acl_data = DomainData (Node Leaf ''.evil.com'' Leaf)\<rparr>,
     1 \<mapsto> \<lparr>acl_name = ''web'', acl_type = ACL_URL_PORT, acl_data = RangeData [(80, 80), (443, 443)]\<rparr>]"

definition demo_check :: aclCheck_t where
  "demo_check = \<lparr>ck_access_list = [\<lparr>aa_allow = ACCESS_DENIED, aa_acl_list = [\<lparr>al_op = 1, al_acl = 0\<rparr>]\<rparr>,
       \<lparr>aa_allow = ACCESS_ALLOWED, aa_acl_list = [\<lparr>al_op = 1, al_acl = 1\<rparr>]\<rparr>],
     ck_src_addr = 1, ck_my_addr = 2, ck_my_port = 3128, ck_request = Some demo_acl_request, ck_reply_type = None, ck_port_name = None,
     ck_conn_valid = True\<rparr>"

definition demo_vars :: acl_vars where
  "demo_vars = \<lparr>av_state = (\<lambda>k. if k \<in> dns_lookups then ACL_LOOKUP_DONE else ACL_LOOKUP_NONE),
     av_clock = (0, \<lparr>tm_hour = 0, tm_min = 0, tm_wday = 0\<rparr>), av_current_acl = None\<rparr>"

lemma demo_check_sound:
  "rules_ok demo_check demo_acls (ck_access_list demo_check)" "names_ok demo_acl_world demo_check"
  "clock_ok demo_acl_world demo_vars" "lookups_ok demo_acl_world demo_check demo_vars" "aclChecklistCacheInit demo_check = demo_check"
  "open_lookups demo_vars = {}"
proof -
  show "rules_ok demo_check demo_acls (ck_access_list demo_check)"
    by (simp add: rules_ok_def conditions_ok_def demo_check_def demo_acls_def acl_ok_def data_of_type_def cover_tree_def dom_ok_def undot_def)
  show "names_ok demo_acl_world demo_check"
    by (simp add: names_ok_def demo_check_def demo_acl_world_def addr_name_def undots_def demo_acl_request_def)
  show "clock_ok demo_acl_world demo_vars" by (simp add: clock_ok_def demo_acl_world_def demo_vars_def)
  show "lookups_ok demo_acl_world demo_check demo_vars" by (simp add: lookups_ok_def demo_vars_def)
  show "aclChecklistCacheInit demo_check = demo_check" by (simp add: aclChecklistCacheInit_def demo_check_def)
  show "open_lookups demo_vars = {}" by (auto simp: open_lookups_def demo_vars_def)
qed

lemma demo_verdict: "verdict demo_acl_world demo_check demo_acls (ck_access_list demo_check) = ACCESS_DENIED"
proof -
  have "\<exists>p. map xtolower ''www.evil.com'' = p @ map xtolower ''.evil.com''" by (rule exI [of _ "''www''"]) code_simp
  moreover have "map xtolower ''.evil.com'' = ''.evil.com''" by code_simp
  ultimately have "domain_rule (map xtolower (undots ''www.evil.com'')) (map xtolower ''.evil.com'')"
    by (simp add: domain_rule_def undots_def)
  then show ?thesis
    by (simp add: verdict_def demo_check_def demo_acls_def rule_holds_def acl_holds_def request_holds_def demo_acl_request_def host_names_def
        demo_acl_world_def domain_in_def answer_def)
qed

theorem aclCheck_decides_witness:
  "\<exists>ck' m' v'. aclCheck demo_acl_world True demo_check demo_acls demo_vars = Some (Answered ACCESS_DENIED, ck', m', v')"
  using conjunct2 [OF aclCheck_decides [OF demo_check_sound(1-5)]]
  by (elim exE conjE) (auto simp: demo_check_sound(6) demo_verdict split: check_end.splits)

end
