(* ===== verification/Spec2Isabelle.thy ===== *)
theory Spec2Isabelle
  imports StorePublish Event ClientRange SwapWrite SwapOut MD5 HttpHeader Rfc1035 Encodings Url FileMap StoreClient Refresh BinHeap LruPolicy HeapPolicy AclCheck
begin

text \<open>
  HappyStream is the web proxy Squid 2.7.STABLE9, changed to recognise the chunks of YouTube
  videos: a chunk is identified by the \<open>lmt\<close> and \<open>range\<close> parameters of its URL, and a request
  for one that is stored already is answered from the cache although the rest of the URL
  differs. The C sources are under \<^verbatim>\<open>src/HappyStream-squid-2.7.STABLE9\<close>; below, file names are relative
  to its directories \<open>src\<close>, \<open>lib\<close> and \<open>include\<close>. This development models the object store, the part
  that HappyStream changed, with what it rests on, and parts of the proxy around it (headers, URLs, DNS messages,
  range replies, access rules), and proves them correct.

  \<^bold>\<open>The program and its parts.\<close> An object in the cache is a \<open>StoreEntry\<close>, found in a hash table
  under an MD5 key; while it is in use it has a \<open>MemObject\<close> with its data in a chain of pages
  and with the clients that read it. Objects are written to swap files in cache directories,
  each file with a header that repeats the key; file numbers come from a bitmap. Removal
  policies choose what to give up when space runs out, and the freshness rules whether an
  object may still be used. HappyStream records every chunk that was written to disk in a
  table, in memory and in a file, and consults the table when it looks up a request.

  \<^bold>\<open>Conventions.\<close> C structs are records, enums are datatypes, addresses are numbers, and a memory
  is a partial map from addresses. A function that can stop the process (an assertion, a call of
  \<open>fatal\<close>, an access through an invalid pointer or outside an array) returns an \<open>option\<close>, where
  \<open>None\<close> is the abort; loops that follow pointers or files are partial functions into
  \<open>option\<close>, where \<open>None\<close> is also not returning. A theorem that such a function returns \<open>Some\<close> therefore
  states that it ends and fails no assertion. The machine is the 32-bit one of the build: \<open>int\<close>,
  \<open>long\<close>, \<open>size_t\<close> and \<open>time_t\<close> have 32 bits, and widths are kept where overflow matters. Calls
  into parts that are not modelled (disk and socket operations, logging, timers) are recorded
  in order as events of the store. The functions of store.c that call each other in a circle
  are tied by \<open>store_ops\<close> with a bound on the depth of calls; a depth of 3 is enough for the
  releases considered, and the theorems hold for every larger one.

  \<^bold>\<open>Foundations.\<close> \<open>Prelude\<close>: aborts, arrays, C integers. \<open>CString\<close>: the C string functions the program
  calls. \<open>PtrList\<close>, \<open>DList\<close>: singly linked lists in memory, and the doubly linked ones of tools.c
  (\<open>dlinkAdd\<close>, \<open>dlinkAddTail\<close>, \<open>dlinkDelete\<close>) refined to sequences of nodes.

  \<^bold>\<open>Data structures.\<close>
  \<^item> \<open>Hash\<close> (lib/hash.c): the chained table. \<open>hash_join\<close>, \<open>hash_lookup\<close>, \<open>hash_remove_link\<close> implement
    a map from keys to lists of links, iteration and \<open>hashFreeItems\<close> visit every link once. The
    locale of the table's laws is interpreted on these functions and used by the store.
  \<^item> \<open>MD5\<close> (lib/md5.c): the streaming interface equals padding and chaining of the whole message,
    in whatever pieces it is passed.
  \<^item> \<open>BinHeap\<close> (lib/heap.c): the indexed heap is a priority queue; every operation ends on a
    well-formed heap. The contract is the locale \<open>min_queue\<close>.
  \<^item> \<open>Stmem\<close> (stmem.c): the page chain refines a byte string with a freed prefix.
  \<^item> \<open>FileMap\<close> (filemap.c, the map functions of fs/ufs/store_dir_ufs.c): the allocation of file
    numbers never returns one in use, and releases restore the map; locale \<open>number_pool\<close>.

  \<^bold>\<open>The store.\<close>
  \<^item> \<open>StoreTypes\<close> (structs.h, url.c): entries, memory objects, requests and replies.
  \<^item> \<open>StoreKey\<close> (store_key_md5.c): keys, their text form and its reader, the bucket of a key.
  \<^item> \<open>YoutubeTable\<close> (store.c, store_swapout.c, store_rebuild.c): the URL scanners, the chunk table as
    a list with first-match lookup, the table file and its round trip; and the inputs on
    which the scanners overrun their arrays or crash.
  \<^item> \<open>Store\<close> (store.c): lookup, private keys, locking, cachability, timestamps, release. The
    invariant \<open>store_rep\<close> relates the hash table to the entries under each key; the operations
    keep it and change only the keys they should. A request for a recorded chunk finds its entry.
  \<^item> \<open>StorePublish\<close> (store.c): new entries, which no request finds; their publication, which displaces the
    entry that was under the key; and negative caching, which keeps an object in use when
    its revalidation fails, but not beyond its limit, where that does not overflow the 32-bit time.
  \<^item> \<open>StoreDir\<close> (store_dir.c): the choice of a cache directory and the accounting of its space.
  \<^item> \<open>SwapOut\<close> (store_swapout.c): trimming of memory during the write, and its completion, where
    HappyStream records the chunk in the table and in the table file.
  \<^item> \<open>StoreWrite\<close> (store.c, store_swapout.c, forward.c): an object arrives (\<open>storeAppend\<close>), is completed or given
    up, and \<open>storeSwapOut\<close> passes its pages on through a storage system, whose contract is the locale \<open>swap_writer\<close>.
    \<open>SwapWrite\<close> interprets it on the \<open>ufs\<close> system: the swap file is the header followed by the object's bytes.
    It also has the whole handler \<open>storeSwapOutFileClosed\<close>, with the release of the lock: for a new chunk a request with
    the same parameters then hits the entry, and, in the first cache directory, the table file is in step
    with the table in memory. \<open>squid_off_t\<close> has 64 bits, so that the overflow guard of \<open>storeSwapOut\<close> is not compiled.
  \<^item> \<open>SwapMeta\<close> (store_swapmeta.c), \<open>StoreClient\<close> (store_client.c, store_swapin.c): the header of swap
    files, byte for byte, and the delivery of data to clients from memory or disk. The header written
    for an object is accepted for it, and a client at offset 0 gets its first bytes, one at another offset the wrong
    ones; a file of another key is refused.
  \<^item> \<open>Refresh\<close> (refresh.c): staleness and the freshness decision for requests, in 32-bit times; for times in range the
    decision is the freshness rule over the integers.

  \<^bold>\<open>Removal policies.\<close> \<open>ReplPolicy\<close> states what the store relies on as the locale \<open>removal_policy\<close>, and
  \<open>purging_policy\<close> for walkers that need no clean-up. \<open>LruPolicy\<close> (repl/lru/store_repl_lru.c) and
  \<open>HeapPolicy\<close> (repl/heap/store_repl_heap.c, store_heap_replacement.c) interpret them: the list policy
  evicts the least recently used unlocked entry, the heap policy the unlocked one with the least key.

  \<^bold>\<open>Deferred work.\<close> \<open>Cbdata\<close> (cbdata.c): callback data with validity and locks. The callers' protocol is a
  step relation; in all reachable states locked memory is there. \<open>Event\<close> (event.c): the queue of
  timed calls, sorted and stable, over callback data. The handlers are an argument, constrained to use the
  queue through its operations; then every run returns, and no due event waits forever.

  \<^bold>\<open>Files.\<close> \<open>Disk\<close> (disk.c, fd.c): the write queue of a descriptor, with short and interrupted writes, errors and
  delayed closes; \<open>UfsIo\<close> (store_io.c, fs/ufs/store_io_ufs.c): the files of objects. The system calls are an
  argument, of which only POSIX's bounds are assumed. What was passed to \<open>storeWrite\<close> is in the file or in
  the queue, in order; if the system takes bytes it reaches the file. An early close and a failed open
  are shown to go wrong. Both records are extensible, so that the callers' functions run on the whole state.

  \<^bold>\<open>HTTP headers.\<close> \<open>HttpTools\<close> (HttpHeaderTools.c, String.c) and \<open>HttpHdrCc\<close> (HttpHdrCc.c): list items,
  numbers, and the Cache-Control header, whose parser always returns a well-formed header.
  \<open>HttpRange\<close> (HttpHdrRange.c, HttpHdrContRange.c): ranges, their text, their round trip, and the canonical
  form, which selects exactly the bytes that were asked for; and the requests that abort the process.
  \<open>HttpHeader\<close> (HttpHeader.c, HttpHeaderTools.c, lib/Array.c): the header of a message as an array of entries with holes,
  a mask and a length, which refines the list of its fields; the update of a stored header, the parser, which
  accepts no message with two lengths, and the round trip of packing and parsing.
  \<open>ClientRange\<close> (client_side.c): the packing of a range reply, which sends all bytes of all ranges in order.

  \<^bold>\<open>Wire formats.\<close> \<open>Rfc1035\<close> (lib/rfc1035.c): DNS messages, byte for byte. No reply can make the unpacking loop, abort or
  write outside an array, and the reply to a query is recognised and read exactly. \<open>Encodings\<close> (lib/rfc1738.c,
  lib/base64.c, lib/uudecode.c): the escaping of URLs and base 64, with round trips and the bounds of their arrays.
  \<open>Url\<close> (url.c): a URL is cut into its parts and brought into normal form, no URL overruns the arrays used, the text that is
  written for a request in normal form is read back, and non-empty hosts match domains as documented.

  \<^bold>\<open>Access control.\<close> \<open>Splay\<close> (lib/splay.c): the search trees, which every search rearranges; the locale
  \<open>cover_search\<close> has the laws of a list of entries each of which covers some keys. \<open>AclIp\<close> and \<open>AclDomain\<close> (acl.c) interpret it on
  the lists of addresses, domains and users. \<open>AclRules\<close> (acl.c): the types of conditions, their parsing and matching, and
  the checks; \<open>AclCheck\<close> proves the verdict: the first rule that holds, or the opposite of the last, whatever
  matching rearranges and whatever lookups are made in between. Conditions that ask helpers or read
  credentials are a parameter, and so are the caches of names and regular expressions.

  \<^bold>\<open>Bounds.\<close> Apart from the call depth of \<open>store_ops\<close> there is no fuel: loops over data are structural, and
  for the partial functions termination is proved, or, for the header search of
  \<open>getStoredFilePrefix\<close> on some files, that they do not end.

  \<^bold>\<open>Not modelled.\<close> Request processing (client_side.c, except range replies), the configuration parser, the
  protocol clients, the socket layer, DNS, and the storage file systems other than ufs are driven by callbacks over sockets and files and call the store through the operations
  modelled here. Of the store itself, the periodic maintenance and the rebuild of the index from disk are left
  out; so are the header fields with times, entity tags and credentials. Statistics and debug output are left out throughout. A
  \<open>double\<close> is a real number in \<open>HeapPolicy\<close> and \<open>Event\<close> and a member of any linear order in \<open>BinHeap\<close>.
\<close>

end
